(* ===== verification/Dakota_Prelude.thy ===== *)
theory Dakota_Prelude
  imports Main "HOL-Library.Word"
begin

text \<open>
  Shared vocabulary of the development: the error values of the code, the result type of
  operations that may abort, the machine types of \<^verbatim>\<open>dakota_data_types.hpp\<close> and the generic
  facts on lists, words and results that the component theories rely on.

  An operation that calls \<^verbatim>\<open>abort_handler(code)\<close> does not return (the process exits or a
  \<^verbatim>\<open>std::system_error\<close> is thrown), so its result is \<open>Inl (Abort code)\<close> and no later state
  exists.  An access that is undefined behaviour in C++ (a dereferenced end iterator, a write
  past the columns of a matrix) is \<open>Inl (UndefinedBehaviour what)\<close>.  A loop without an evident bound
  is given fuel, and \<open>Inl OutOfFuel\<close> means that it was still running.
\<close>

section \<open>Errors and results\<close>

datatype dakota_error = Abort int | UndefinedBehaviour string | OutOfFuel

type_synonym 'a result = "dakota_error + 'a"

definition OTHER_ERROR :: int where "OTHER_ERROR = -1"
definition INTERFACE_ERROR :: int where "INTERFACE_ERROR = -4"
definition METHOD_ERROR :: int where "METHOD_ERROR = -7"
definition RESP_ERROR :: int where "RESP_ERROR = -9"

text \<open>Sequencing: the first error ends the computation.\<close>

fun rbind :: "'a result \<Rightarrow> ('a \<Rightarrow> 'b result) \<Rightarrow> 'b result" where
  "rbind (Inl e) f = Inl e"
| "rbind (Inr x) f = f x"

fun rfold :: "('x \<Rightarrow> 's \<Rightarrow> 's result) \<Rightarrow> 'x list \<Rightarrow> 's \<Rightarrow> 's result" where
  "rfold f [] s = Inr s"
| "rfold f (x # xs) s = rbind (f x s) (rfold f xs)"

fun is_ok :: "'a result \<Rightarrow> bool" where
  "is_ok (Inl e) = False"
| "is_ok (Inr x) = True"

named_theorems result_simps

lemma rbind_Inr_iff [result_simps]:
  "rbind m f = Inr y \<longleftrightarrow> (\<exists>x. m = Inr x \<and> f x = Inr y)"
  by (cases m) auto

lemma rbind_Inl_iff [result_simps]:
  "rbind m f = Inl e \<longleftrightarrow> m = Inl e \<or> (\<exists>x. m = Inr x \<and> f x = Inl e)"
  by (cases m) auto

lemma rbind_assoc [result_simps]:
  "rbind (rbind m f) g = rbind m (\<lambda>x. rbind (f x) g)"
  by (cases m) auto

lemma rbind_cong [fundef_cong]:
  "m = m' \<Longrightarrow> (\<And>x. m' = Inr x \<Longrightarrow> f x = f' x) \<Longrightarrow> rbind m f = rbind m' f'"
  by (cases m') auto

lemma rfold_append:
  "rfold f (xs @ ys) s = rbind (rfold f xs s) (rfold f ys)"
proof (induction xs arbitrary: s)
  case Nil
  show ?case by simp
next
  case (Cons x xs)
  then show ?case by (cases "f x s") simp_all
qed

text \<open>An invariant that every step keeps holds for the result of a fold.\<close>

lemma rfold_invariant:
  assumes "rfold f xs s = Inr t" and "P s"
    and "\<And>x u v. x \<in> set xs \<Longrightarrow> P u \<Longrightarrow> f x u = Inr v \<Longrightarrow> P v"
  shows "P t"
  using assms
proof (induction xs arbitrary: s)
  case Nil
  then show ?case by simp
next
  case (Cons x xs)
  from Cons.prems(1) obtain u where u: "f x s = Inr u" and r: "rfold f xs u = Inr t"
    by (auto simp: result_simps)
  have "P u" using Cons.prems(2,3) u by auto
  then show ?case using Cons.IH [OF r] Cons.prems(3) by auto
qed

text \<open>A fold whose steps never fail under the invariant does not fail.\<close>

lemma rfold_total:
  assumes "P s"
    and "\<And>x u. x \<in> set xs \<Longrightarrow> P u \<Longrightarrow> \<exists>v. f x u = Inr v \<and> P v"
  shows "\<exists>t. rfold f xs s = Inr t \<and> P t"
  using assms
proof (induction xs arbitrary: s)
  case Nil
  then show ?case by simp
next
  case (Cons x xs)
  from Cons.prems obtain v where "f x s = Inr v" "P v" by (metis list.set_intros(1))
  with Cons.IH [of v] Cons.prems(2) show ?case by auto
qed

text \<open>A counted loop: an invariant indexed by the number of completed passes.\<close>

lemma rfold_upt:
  assumes "P 0 s"
    and "\<And>i u. i < n \<Longrightarrow> P i u \<Longrightarrow> \<exists>v. f i u = Inr v \<and> P (Suc i) v"
  shows "\<exists>t. rfold f [0..<n] s = Inr t \<and> P n t"
  using assms
proof (induction n)
  case 0
  then show ?case by simp
next
  case (Suc n)
  then obtain u where u: "rfold f [0..<n] s = Inr u" "P n u" by auto
  then obtain v where "f n u = Inr v" "P (Suc n) v" using Suc.prems(2) [of n u] by auto
  then show ?case using u by (simp add: rfold_append)
qed

section \<open>Machine types\<close>

text \<open>
  \<^verbatim>\<open>short\<close> is 16 bits wide, \<^verbatim>\<open>UInt32\<close> and \<^verbatim>\<open>UInt64\<close> are 32 and 64 bits wide.  Array
  lengths and indices (\<^verbatim>\<open>size_t\<close>) are \<open>nat\<close>: they count objects in memory and the code never
  relies on their wrap-around in the parts that are modelled, with the exceptions written out
  where they occur.
\<close>

type_synonym short = "16 word"
type_synonym uint32 = "32 word"
type_synonym uint64 = "64 word"

lemma bit_word_of_nat_iff:
  "bit (of_nat m :: 'a::len word) n \<longleftrightarrow> n < LENGTH('a) \<and> bit m n"
  by (simp add: bit_of_nat_iff)

lemma unat_of_nat_less: "n < 2 ^ LENGTH('a) \<Longrightarrow> unat (of_nat n :: 'a::len word) = n"
  by (simp add: unsigned_of_nat take_bit_nat_eq_self)

section \<open>Lists\<close>

named_theorems list_facts

lemma nth_map_upt [list_facts]: "i < n \<Longrightarrow> map f [0..<n] ! i = f i"
  by simp

lemma map_upt_eq_iff [list_facts]:
  "map f [0..<n] = map g [0..<n] \<longleftrightarrow> (\<forall>i<n. f i = g i)"
  by (auto simp: list_eq_iff_nth_eq)

lemma replicate_eq_map_upt [list_facts]: "replicate n c = map (\<lambda>_. c) [0..<n]"
  by (simp add: map_replicate_const)

text \<open>
  \<^verbatim>\<open>std::vector::resize(n)\<close>: keeps the first entries, value-initialises new ones.
\<close>

definition vec_resize :: "'a \<Rightarrow> nat \<Rightarrow> 'a list \<Rightarrow> 'a list" where
  "vec_resize z n xs = take n xs @ replicate (n - length xs) z"

lemma length_vec_resize [simp]: "length (vec_resize z n xs) = n"
  by (simp add: vec_resize_def)

lemma nth_vec_resize [simp]:
  "i < n \<Longrightarrow> vec_resize z n xs ! i = (if i < length xs then xs ! i else z)"
  by (simp add: vec_resize_def nth_append)

lemma vec_resize_same [simp]: "vec_resize z (length xs) xs = xs"
  by (simp add: vec_resize_def)

text \<open>The entries of a list that satisfy a condition on the index, rewritten pointwise.\<close>

definition map_index :: "(nat \<Rightarrow> 'a \<Rightarrow> 'b) \<Rightarrow> 'a list \<Rightarrow> 'b list" where
  "map_index f xs = map (\<lambda>i. f i (xs ! i)) [0..<length xs]"

lemma length_map_index [simp]: "length (map_index f xs) = length xs"
  by (simp add: map_index_def)

lemma nth_map_index [simp]: "i < length xs \<Longrightarrow> map_index f xs ! i = f i (xs ! i)"
  by (simp add: map_index_def)

lemma map_index_Nil [simp]: "map_index f [] = []"
  by (simp add: map_index_def)

lemma map_index_Cons [simp]: "map_index f (x # xs) = f 0 x # map_index (\<lambda>i. f (Suc i)) xs"
  by (rule nth_equalityI) (auto simp: nth_Cons split: nat.splits)

lemma map_index_eq_Nil_iff [simp]: "map_index f xs = [] \<longleftrightarrow> xs = []"
  by (simp add: map_index_def)

lemma map_index_cong:
  "(\<And>i. i < length xs \<Longrightarrow> f i (xs ! i) = g i (xs ! i)) \<Longrightarrow> map_index f xs = map_index g xs"
  by (simp add: map_index_def)

lemma map_index_id: "(\<And>i. i < length xs \<Longrightarrow> f i (xs ! i) = xs ! i) \<Longrightarrow> map_index f xs = xs"
  by (simp add: list_eq_iff_nth_eq)

lemma map_index_map_index:
  "map_index f (map_index g xs) = map_index (\<lambda>i x. f i (g i x)) xs"
  by (simp add: list_eq_iff_nth_eq)

text \<open>Writes to distinct indices, one after the other.\<close>

lemma length_foldl_update [simp]:
  "length (foldl (\<lambda>cs k. cs[f k := g k]) cs ks) = length cs"
  by (induction ks arbitrary: cs) simp_all

lemma foldl_update_other:
  "i \<notin> f ` set ks \<Longrightarrow> foldl (\<lambda>cs k. cs[f k := g k]) cs ks ! i = cs ! i"
  by (induction ks arbitrary: cs) simp_all

lemma foldl_update_nth:
  assumes "distinct ks" "inj_on f (set ks)" "\<forall>k \<in> set ks. f k < length cs" "k \<in> set ks"
  shows "foldl (\<lambda>cs k. cs[f k := g k]) cs ks ! f k = g k"
  using assms
proof (induction ks arbitrary: cs)
  case Nil
  then show ?case by simp
next
  case (Cons a ks)
  show ?case
  proof (cases "k = a")
    case True
    have "f a \<notin> f ` set ks" using Cons.prems(1,2) by (auto simp: inj_on_def)
    then show ?thesis using True Cons.prems(3) by (simp add: foldl_update_other)
  next
    case False
    then show ?thesis using Cons by (simp add: inj_on_def)
  qed
qed

end
