(* ===== verification/Bit_Utils.thy ===== *)
theory Bit_Utils
  imports Dakota_Prelude
begin

text \<open>
  The bit operations of \<^verbatim>\<open>src/dakota_bit_utils.hpp\<close>, used by the low-discrepancy generators:
  \<^verbatim>\<open>bitget\<close>, the branch-free count of trailing zero bits, the 32-bit, 64-bit and
  arbitrary-width bit reversals, the binary-to-Gray conversion, the power-of-two test and the
  matrix product over the field with two elements.  The optimised routines (masks and shifts
  from a fixed table) are shown equal to their defining bitwise specifications.
\<close>

unbundle bit_operations_syntax

section \<open>The operations\<close>

definition bitget :: "'a::len word \<Rightarrow> nat \<Rightarrow> 'a word" where
  "bitget v j = drop_bit j v AND 1"

text \<open>
  \<^verbatim>\<open>v &= -signed(v)\<close> isolates the lowest set bit; each mask then halves the candidate range.
  The counter is an \<^verbatim>\<open>unsigned\<close> that starts at 32 and never drops below 0.
\<close>

definition count_consecutive_trailing_zero_bits :: "uint32 \<Rightarrow> nat" where
  "count_consecutive_trailing_zero_bits v0 =
    (let v = v0 AND (- v0);
         c = 32;
         c = (if v \<noteq> 0 then c - 1 else c);
         c = (if v AND 0x0000FFFF \<noteq> 0 then c - 16 else c);
         c = (if v AND 0x00FF00FF \<noteq> 0 then c - 8 else c);
         c = (if v AND 0x0F0F0F0F \<noteq> 0 then c - 4 else c);
         c = (if v AND 0x33333333 \<noteq> 0 then c - 2 else c);
         c = (if v AND 0x55555555 \<noteq> 0 then c - 1 else c)
     in c)"

definition bitreverse32 :: "uint32 \<Rightarrow> uint32" where
  "bitreverse32 k =
    (let v = k;
         v = (drop_bit 1 v AND 0x55555555) OR push_bit 1 (v AND 0x55555555);
         v = (drop_bit 2 v AND 0x33333333) OR push_bit 2 (v AND 0x33333333);
         v = (drop_bit 4 v AND 0x0F0F0F0F) OR push_bit 4 (v AND 0x0F0F0F0F);
         v = (drop_bit 8 v AND 0x00FF00FF) OR push_bit 8 (v AND 0x00FF00FF);
         v = drop_bit 16 v OR push_bit 16 v
     in v)"

definition bitreverse64 :: "uint64 \<Rightarrow> uint64" where
  "bitreverse64 v =
    push_bit 32 (ucast (bitreverse32 (ucast v)))
      OR ucast (bitreverse32 (ucast (drop_bit 32 v)))"

fun bitreverse_loop :: "nat \<Rightarrow> 'a::len word \<Rightarrow> 'a word \<Rightarrow> 'a word" where
  "bitreverse_loop 0 v r = r"
| "bitreverse_loop (Suc s) v r = bitreverse_loop s (drop_bit 1 v) (push_bit 1 r OR (v AND 1))"

definition bitreverse :: "'a::len word \<Rightarrow> nat \<Rightarrow> 'a word" where
  "bitreverse v s = bitreverse_loop s v 0"

definition binary2gray :: "uint64 \<Rightarrow> uint64" where
  "binary2gray v = v XOR drop_bit 1 v"

definition ispow2 :: "uint32 \<Rightarrow> bool" where
  "ispow2 v \<longleftrightarrow> v \<noteq> 0 \<and> v AND (v - 1) = 0"

text \<open>
  \<^verbatim>\<open>matmul_base2(A, B)\<close>: \<open>A\<close> and \<open>B\<close> encode matrices by columns; entry \<open>k\<close> of the
  result starts at 0 and is XORed with \<open>bitget(B(k), i) * A(i)\<close> for each \<open>i\<close> in turn.
\<close>

definition matmul_base2 :: "'a::len word list \<Rightarrow> 'a word list \<Rightarrow> 'a word list" where
  "matmul_base2 A B =
    map (\<lambda>b. fold (\<lambda>i r. r XOR (bitget b i * A ! i)) [0..<length A] 0) B"

section \<open>Bit reversal\<close>

lemma bitget_eq: "bitget v j = of_bool (bit v j)"
  by (rule bit_word_eqI) (auto simp: bitget_def bit_simps)

lemma bit_times_2 [simp]:
  fixes r :: "'a::len word"
  shows "bit (r * 2) m \<longleftrightarrow> m \<noteq> 0 \<and> m < LENGTH('a) \<and> bit r (m - 1)"
  using bit_double_iff [of r m] by (auto simp: mult.commute)

lemma bit_bitreverse_loop:
  fixes v r :: "'a::len word"
  assumes "s \<le> LENGTH('a)"
  shows "bit (bitreverse_loop s v r) n \<longleftrightarrow>
    n < LENGTH('a) \<and> (if n < s then bit v (s - 1 - n) else bit r (n - s))"
  using assms
proof (induction s v r arbitrary: n rule: bitreverse_loop.induct)
  case (1 v r)
  show ?case by (auto dest: bit_imp_le_length)
next
  case (2 s v r)
  have "s \<le> LENGTH('a)" using 2(2) by simp
  note ih = 2(1) [OF this, of n]
  show ?case
  proof (cases "n < s")
    case True
    then have "Suc (s - Suc n) = s - n" by simp
    with True show ?thesis using ih by (simp add: bit_simps)
  next
    case False
    then show ?thesis using ih 2(2) by (cases "n = s") (auto simp: bit_simps)
  qed
qed

lemma bit_bitreverse:
  fixes v :: "'a::len word"
  assumes "s \<le> LENGTH('a)"
  shows "bit (bitreverse v s) n \<longleftrightarrow> n < s \<and> bit v (s - 1 - n)"
  using bit_bitreverse_loop [OF assms, of v 0 n] assms by (auto simp: bitreverse_def)

lemma less_32_cases:
  fixes n :: nat
  assumes "n < 32"
  shows "n \<in> {0,1,2,3,4,5,6,7,8,9,10,11,12,13,14,15,16,17,18,19,20,21,22,23,24,25,26,27,28,29,30,31}"
  using assms by (simp, arith)

lemma bit_bitreverse32: "bit (bitreverse32 v) n \<longleftrightarrow> n < 32 \<and> bit v (31 - n)"
proof (cases "n < 32")
  case True
  then show ?thesis
    using less_32_cases [OF True]
    by (simp add: bitreverse32_def Let_def, elim disjE) (simp_all add: bit_simps)
next
  case False
  then show ?thesis by (auto dest: bit_imp_le_length)
qed

lemma bit_bitreverse64: "bit (bitreverse64 v) n \<longleftrightarrow> n < 64 \<and> bit v (63 - n)"
proof (cases "n < 32")
  case True
  then have "32 + (31 - n) = 63 - n" by simp
  with True show ?thesis by (auto simp: bitreverse64_def bit_simps bit_bitreverse32)
next
  case False
  then have "n < 64 \<Longrightarrow> 31 - (n - 32) = 63 - n" by simp
  with False show ?thesis
    by (auto simp: bitreverse64_def bit_simps bit_bitreverse32)
qed

lemma bitreverse32_eq_bitreverse: "bitreverse32 v = bitreverse v 32"
  by (rule bit_word_eqI) (simp add: bit_bitreverse32 bit_bitreverse)

lemma bitreverse64_eq_bitreverse: "bitreverse64 v = bitreverse v 64"
  by (rule bit_word_eqI) (simp add: bit_bitreverse64 bit_bitreverse)

lemma bitreverse_bitreverse:
  fixes v :: "'a::len word"
  assumes "s \<le> LENGTH('a)"
  shows "bitreverse (bitreverse v s) s = take_bit s v"
  by (rule bit_word_eqI) (auto simp: bit_bitreverse [OF assms] bit_take_bit_iff)

section \<open>Trailing zeros\<close>

text \<open>A word with lowest set bit \<open>c\<close> is \<open>2 ^ c\<close> plus higher bits.\<close>

lemma lowest_bit_and_minus:
  fixes q :: "'a::len word"
  assumes v: "v = push_bit c 1 + push_bit (Suc c) q"
  shows "v AND (- v) = push_bit c 1"
proof -
  have d1: "v = push_bit c 1 OR push_bit (Suc c) q"
    unfolding v by (rule disjunctive_add) (auto simp: bit_simps)
  have "v - 1 = mask c + push_bit (Suc c) q"
    by (simp add: v mask_eq_exp_minus_1)
  also have "\<dots> = mask c OR push_bit (Suc c) q"
    by (rule disjunctive_add) (auto simp: bit_simps)
  finally have d2: "v - 1 = mask c OR push_bit (Suc c) q" .
  have "- v = NOT (v - 1)" by (simp add: minus_eq_not_minus_1)
  then show ?thesis
    unfolding d2 by (subst d1, intro bit_word_eqI) (auto simp: bit_simps)
qed

lemma lowest_bit_split:
  fixes v :: "'a::len word"
  assumes "bit v c" and "\<And>i. i < c \<Longrightarrow> \<not> bit v i"
  shows "v = push_bit c 1 + push_bit (Suc c) (drop_bit (Suc c) v)"
proof -
  have "v = push_bit c 1 OR push_bit (Suc c) (drop_bit (Suc c) v)"
  proof (rule bit_word_eqI)
    fix n assume n: "n < LENGTH('a)"
    consider "n < c" | "n = c" | "n > c" by linarith
    then show "bit v n = bit (push_bit c 1 OR push_bit (Suc c) (drop_bit (Suc c) v)) n"
      using assms n by cases (auto simp: bit_simps)
  qed
  also have "\<dots> = push_bit c 1 + push_bit (Suc c) (drop_bit (Suc c) v)"
    by (rule disjunctive_add [symmetric]) (auto simp: bit_simps)
  finally show ?thesis .
qed

lemma count_trailing_of_power:
  assumes "c < 32" and "v AND (- v) = push_bit c 1"
  shows "count_consecutive_trailing_zero_bits v = c"
proof -
  have "count_consecutive_trailing_zero_bits v =
    (let w = push_bit c 1 :: uint32;
         c = 32;
         c = (if w \<noteq> 0 then c - 1 else c);
         c = (if w AND 0x0000FFFF \<noteq> 0 then c - 16 else c);
         c = (if w AND 0x00FF00FF \<noteq> 0 then c - 8 else c);
         c = (if w AND 0x0F0F0F0F \<noteq> 0 then c - 4 else c);
         c = (if w AND 0x33333333 \<noteq> 0 then c - 2 else c);
         c = (if w AND 0x55555555 \<noteq> 0 then c - 1 else c)
     in c)"
    by (simp only: count_consecutive_trailing_zero_bits_def assms(2))
  also have "\<dots> = c"
    using less_32_cases [OF assms(1)] by (simp, elim disjE) (simp_all add: push_bit_eq_mult)
  finally show ?thesis .
qed

lemma count_trailing_zero [simp]: "count_consecutive_trailing_zero_bits 0 = 32"
  by (simp add: count_consecutive_trailing_zero_bits_def)

lemma count_trailing_correct:
  assumes "v \<noteq> 0"
  shows "count_consecutive_trailing_zero_bits v = (LEAST i. bit v i)"
proof -
  define c where "c = (LEAST i. bit v i)"
  have "\<exists>i. bit v i" using assms by (metis bit_eqI bit_0_eq bot_apply bot_bool_def)
  then have b: "bit v c" unfolding c_def by (rule LeastI_ex)
  then have "c < 32" by (auto dest: bit_imp_le_length)
  moreover have "\<And>i. i < c \<Longrightarrow> \<not> bit v i" unfolding c_def by (rule not_less_Least)
  then have "v = push_bit c 1 + push_bit (Suc c) (drop_bit (Suc c) v)"
    by (rule lowest_bit_split [OF b])
  then have "v AND (- v) = push_bit c 1" by (rule lowest_bit_and_minus)
  ultimately show ?thesis unfolding c_def [symmetric] by (rule count_trailing_of_power)
qed

text \<open>Decrementing clears the lowest set bit and sets the bits below it.\<close>

lemma xor_pred:
  fixes v :: "'a::len word"
  assumes "bit v c" and "\<And>i. i < c \<Longrightarrow> \<not> bit v i"
  shows "v XOR (v - 1) = mask (Suc c)"
proof -
  define q where "q = drop_bit (Suc c) v"
  have v: "v = push_bit c 1 + push_bit (Suc c) q"
    unfolding q_def by (rule lowest_bit_split [OF assms])
  have d1: "v = push_bit c 1 OR push_bit (Suc c) q"
    unfolding v by (rule disjunctive_add) (auto simp: bit_simps)
  have "v - 1 = mask c + push_bit (Suc c) q"
    by (simp add: v mask_eq_exp_minus_1)
  also have "\<dots> = mask c OR push_bit (Suc c) q"
    by (rule disjunctive_add) (auto simp: bit_simps)
  finally have d2: "v - 1 = mask c OR push_bit (Suc c) q" .
  show ?thesis
    unfolding d2 by (subst d1, intro bit_word_eqI) (auto simp: bit_simps)
qed

section \<open>Gray code\<close>

lemma bit_binary2gray: "bit (binary2gray v) n \<longleftrightarrow> bit v n \<noteq> bit v (Suc n)"
  by (auto simp: binary2gray_def bit_simps dest: bit_imp_le_length)

lemma binary2gray_xor: "binary2gray (v XOR w) = binary2gray v XOR binary2gray w"
  by (rule bit_word_eqI) (auto simp: bit_binary2gray bit_simps)

lemma binary2gray_mask: "c < 64 \<Longrightarrow> binary2gray (mask (Suc c)) = push_bit c 1"
  by (rule bit_word_eqI) (auto simp: bit_binary2gray bit_simps)

lemma binary2gray_0 [simp]: "binary2gray 0 = 0"
  by (simp add: binary2gray_def)

text \<open>Consecutive Gray codes differ exactly in the lowest set bit of the larger index.\<close>

lemma binary2gray_step:
  assumes "bit v c" and "\<And>i. i < c \<Longrightarrow> \<not> bit v i"
  shows "binary2gray v = binary2gray (v - 1) XOR push_bit c 1"
proof -
  have "c < 64" using assms(1) by (auto dest: bit_imp_le_length)
  then have "push_bit c 1 = binary2gray (v XOR (v - 1))"
    by (simp only: xor_pred [OF assms] binary2gray_mask)
  also have "\<dots> = binary2gray v XOR binary2gray (v - 1)"
    by (rule binary2gray_xor)
  finally show ?thesis by (simp add: ac_simps)
qed

lemma binary2gray_eq_0_iff: "binary2gray v = 0 \<longleftrightarrow> v = 0"
proof
  assume z: "binary2gray v = 0"
  have "\<not> bit v (64 - k)" for k
  proof (induction k)
    case 0
    show ?case by (auto dest: bit_imp_le_length)
  next
    case (Suc k)
    show ?case
    proof (cases "k < 64")
      case True
      then have "Suc (64 - Suc k) = 64 - k" by simp
      then show ?thesis using Suc bit_binary2gray [of v "64 - Suc k"] z by simp
    next
      case False
      then show ?thesis using Suc by simp
    qed
  qed
  then have "\<not> bit v n" if "n < 64" for n
    using that by (metis diff_diff_cancel less_imp_le)
  then show "v = 0" by (intro bit_word_eqI) simp
qed simp

lemma xor_eq_0_iff: "v XOR w = 0 \<longleftrightarrow> v = (w :: 'a::len word)"
proof
  assume z: "v XOR w = 0"
  show "v = w"
    by (rule bit_word_eqI) (metis z bit_0_eq bit_xor_iff bot_apply bot_bool_def)
qed simp

lemma binary2gray_inj: "binary2gray v = binary2gray w \<longleftrightarrow> v = w"
  using binary2gray_xor [of v w] binary2gray_eq_0_iff [of "v XOR w"] by (simp add: xor_eq_0_iff)

lemma binary2gray_less:
  assumes "unat v < 2 ^ m" and "m \<le> 64"
  shows "unat (binary2gray v) < 2 ^ m"
proof -
  have "take_bit m v = v"
    using assms(1) by (intro word_unat_eq_iff [THEN iffD2])
      (simp add: unsigned_take_bit_eq take_bit_nat_eq_self)
  then have "\<not> bit v n" if "m \<le> n" for n
    using that by (metis bit_take_bit_iff leD)
  then have "take_bit m (binary2gray v) = binary2gray v"
    by (intro bit_word_eqI) (auto simp: bit_take_bit_iff bit_binary2gray not_le [symmetric])
  then have "unat (binary2gray v) = take_bit m (unat (binary2gray v))"
    by (metis unsigned_take_bit_eq)
  then show ?thesis by (metis take_bit_nat_less_exp)
qed

section \<open>Powers of two\<close>

lemma ispow2_iff: "ispow2 v \<longleftrightarrow> (\<exists>c<32. v = push_bit c 1)"
proof
  assume a: "ispow2 v"
  then have "v \<noteq> 0" by (simp add: ispow2_def)
  then obtain c where b: "bit v c" and l: "\<And>i. i < c \<Longrightarrow> \<not> bit v i"
    by (metis LeastI_ex bit_0_eq bit_eqI bot_apply bot_bool_def not_less_Least)
  define q where "q = drop_bit (Suc c) v"
  have v: "v = push_bit c 1 + push_bit (Suc c) q"
    unfolding q_def by (rule lowest_bit_split [OF b l])
  have d1: "v = push_bit c 1 OR push_bit (Suc c) q"
    unfolding v by (rule disjunctive_add) (auto simp: bit_simps)
  have d2: "v - 1 = v XOR mask (Suc c)"
    using xor_pred [OF b l] by (metis xor.assoc xor.left_neutral xor_self_eq)
  have "v = push_bit c 1"
  proof (rule bit_word_eqI)
    fix n assume n: "n < LENGTH(32)"
    have "bit (v AND (v - 1)) n \<longleftrightarrow> False" using a by (simp add: ispow2_def)
    then show "bit v n = bit (push_bit c (1 :: uint32)) n"
      using n b l [of n] unfolding d2 by (cases n c rule: linorder_cases) (auto simp: bit_simps)
  qed
  moreover have "c < 32" using b by (auto dest: bit_imp_le_length)
  ultimately show "\<exists>c<32. v = push_bit c 1" by blast
next
  assume "\<exists>c<32. v = push_bit c 1"
  then obtain c where c: "c < 32" "v = push_bit c 1" by blast
  from less_32_cases [OF c(1)] show "ispow2 v"
    unfolding c(2) by (simp, elim disjE) (simp_all add: ispow2_def push_bit_eq_mult)
qed

section \<open>Matrix product over the two-element field\<close>

lemma bit_xor_fold:
  "bit (fold (\<lambda>i r. r XOR (bitget b i * A ! i)) is r0) n \<longleftrightarrow>
    (bit r0 n \<noteq> odd (length (filter (\<lambda>i. bit b i \<and> bit (A ! i) n) is)))"
proof (induction "is" arbitrary: r0)
  case Nil
  show ?case by simp
next
  case (Cons i "is")
  have "bit (r0 XOR bitget b i * A ! i) n \<longleftrightarrow> (bit r0 n \<noteq> (bit b i \<and> bit (A ! i) n))"
    by (auto simp: bitget_eq bit_simps)
  then show ?case using Cons by auto
qed

lemma bit_matmul_base2:
  assumes "k < length B"
  shows "bit (matmul_base2 A B ! k) n \<longleftrightarrow>
    odd (card {i. i < length A \<and> bit (B ! k) i \<and> bit (A ! i) n})"
proof -
  have "card {i. i < length A \<and> bit (B ! k) i \<and> bit (A ! i) n} =
      length (filter (\<lambda>i. bit (B ! k) i \<and> bit (A ! i) n) [0..<length A])"
    using distinct_card [of "filter (\<lambda>i. bit (B ! k) i \<and> bit (A ! i) n) [0..<length A]"]
    by simp
  then show ?thesis using assms by (simp add: matmul_base2_def bit_xor_fold)
qed

lemma length_matmul_base2 [simp]: "length (matmul_base2 A B) = length B"
  by (simp add: matmul_base2_def)

end
