(* ===== verification/Low_Discrepancy.thy ===== *)
theory Low_Discrepancy
  imports Bit_Utils
begin

text \<open>
  The base class \<^verbatim>\<open>LowDiscrepancySequence\<close> (\<^verbatim>\<open>src/LowDiscrepancySequence.hpp\<close>): its three
  constructor checks, the size checks of \<^verbatim>\<open>get_points\<close> and the contract between the public
  \<^verbatim>\<open>get_points\<close> and the virtual \<^verbatim>\<open>unsafe_get_points\<close> of the derived classes, stated as the
  locale \<open>low_discrepancy_sequence\<close>.  The theory also holds what digital nets and lattice rules
  share: the matrix of points, the rounding of integers to the 53-bit significand of a double,
  the database entries of the method block and the text-file helpers of
  \<^verbatim>\<open>src/dakota_data_io.cpp\<close>.

  Coordinates are kept exactly, as natural numbers in units of \<open>2 ^ -64\<close>; every double that the
  two generators compute is a multiple of that unit.
\<close>

section \<open>The base class\<close>

record lds =
  mMax :: int
  dMax :: int
  seedValue :: int

record points =
  pt_rows :: nat
  pt_cols :: "nat list list"

definition check_dMax :: "lds \<Rightarrow> unit result" where
  "check_dMax s = (if dMax s < 1 then Inl (Abort METHOD_ERROR) else Inr ())"

definition check_mMax :: "lds \<Rightarrow> unit result" where
  "check_mMax s = (if mMax s < 1 then Inl (Abort METHOD_ERROR) else Inr ())"

definition check_seedValue :: "lds \<Rightarrow> unit result" where
  "check_seedValue s = (if seedValue s < 0 then Inl (Abort METHOD_ERROR) else Inr ())"

definition LowDiscrepancySequence :: "int \<Rightarrow> int \<Rightarrow> int \<Rightarrow> lds result" where
  "LowDiscrepancySequence m d seed =
    (let s = \<lparr>mMax = m, dMax = d, seedValue = seed\<rparr> in
     rbind (check_dMax s) (\<lambda>_. rbind (check_mMax s) (\<lambda>_. rbind (check_seedValue s) (\<lambda>_. Inr s))))"

text \<open>
  \<^verbatim>\<open>UInt64(1) << mMax\<close> is undefined from 64 on; \<^verbatim>\<open>nMax - nMin\<close> is a 64-bit difference.
\<close>

definition check_sizes :: "lds \<Rightarrow> nat \<Rightarrow> nat \<Rightarrow> points \<Rightarrow> unit result" where
  "check_sizes s nMin nMax p =
    (if mMax s \<ge> 64 \<or> mMax s < 0 then Inl (UndefinedBehaviour ''shift'')
     else if nMax > 2 ^ nat (mMax s) then Inl (Abort METHOD_ERROR)
     else if int (pt_rows p) > dMax s then Inl (Abort METHOD_ERROR)
     else if int (length (pt_cols p)) \<noteq> (int nMax - int nMin) mod 2 ^ 64
       then Inl (Abort METHOD_ERROR)
     else Inr ())"

definition get_points ::
  "('s \<Rightarrow> lds) \<Rightarrow> ('s \<Rightarrow> nat \<Rightarrow> nat \<Rightarrow> points \<Rightarrow> points result) \<Rightarrow>
    's \<Rightarrow> nat \<Rightarrow> nat \<Rightarrow> points \<Rightarrow> points result" where
  "get_points base unsafe_get_points s nMin nMax p =
    rbind (check_sizes (base s) nMin nMax p) (\<lambda>_. unsafe_get_points s nMin nMax p)"

definition get_first_points ::
  "('s \<Rightarrow> lds) \<Rightarrow> ('s \<Rightarrow> nat \<Rightarrow> nat \<Rightarrow> points \<Rightarrow> points result) \<Rightarrow>
    's \<Rightarrow> nat \<Rightarrow> points \<Rightarrow> points result" where
  "get_first_points base unsafe_get_points s n p = get_points base unsafe_get_points s 0 n p"

definition get_all_points ::
  "('s \<Rightarrow> lds) \<Rightarrow> ('s \<Rightarrow> nat \<Rightarrow> nat \<Rightarrow> points \<Rightarrow> points result) \<Rightarrow>
    's \<Rightarrow> points \<Rightarrow> points result" where
  "get_all_points base unsafe_get_points s p =
    get_first_points base unsafe_get_points s (length (pt_cols p)) p"

section \<open>Conversion of integers to doubles\<close>

text \<open>
  Round to nearest, ties to even, keeping 53 significant bits: the value of an unsigned integer
  after its conversion to \<^verbatim>\<open>double\<close>, and of an exact product or sum after a floating-point
  operation.
\<close>

fun nat_bits :: "nat \<Rightarrow> nat" where
  "nat_bits n = (if n = 0 then 0 else Suc (nat_bits (n div 2)))"

declare nat_bits.simps [simp del]

definition round53 :: "nat \<Rightarrow> nat" where
  "round53 n =
    (if nat_bits n \<le> 53 then n
     else let e = nat_bits n - 53; q = n div 2 ^ e; r = n mod 2 ^ e; h = 2 ^ (e - 1) in
       if r > h \<or> (r = h \<and> odd q) then (q + 1) * 2 ^ e else q * 2 ^ e)"

section \<open>Method specification and text files\<close>

record method_db =
  db_file :: string
  db_inline :: "int list"
  db_m_max :: int
  db_t_max :: int
  db_t_scramble :: int
  db_random_seed :: int
  db_no_shift :: bool
  db_no_scrambling :: bool
  db_natural :: bool
  db_lsb_first :: bool
  db_msb_first :: bool
  db_alternative :: bool

text \<open>
  A readable file is the list of its lines; opening an unreadable one gives a stream on which
  every read fails.  \<open>words\<close> is formatted extraction of strings, \<open>stoull\<close> the conversion of
  the standard library, \<open>None\<close> standing for the exception it throws.
\<close>

type_synonym files = "string \<Rightarrow> string list option"

definition file_lines :: "files \<Rightarrow> string \<Rightarrow> string list" where
  "file_lines fs name = (case fs name of None \<Rightarrow> [] | Some ls \<Rightarrow> ls)"

definition is_space :: "char \<Rightarrow> bool" where
  "is_space c \<longleftrightarrow> c \<in> set [CHR '' '', CHR 0x09, CHR 0x0A, CHR 0x0B, CHR 0x0C, CHR 0x0D]"

fun words_acc :: "string \<Rightarrow> string \<Rightarrow> string list" where
  "words_acc acc [] = (if acc = [] then [] else [rev acc])"
| "words_acc acc (c # cs) =
    (if is_space c then (if acc = [] then words_acc [] cs else rev acc # words_acc [] cs)
     else words_acc (c # acc) cs)"

definition words :: "string \<Rightarrow> string list" where
  "words s = words_acc [] s"

definition is_digit :: "char \<Rightarrow> bool" where
  "is_digit c \<longleftrightarrow> (48::nat) \<le> of_char c \<and> of_char c \<le> (57::nat)"

definition digit_val :: "char \<Rightarrow> nat" where
  "digit_val c = of_char c - 48"

definition stoull :: "string \<Rightarrow> uint64 option" where
  "stoull s =
    (let t = dropWhile is_space s;
         neg = (t \<noteq> [] \<and> hd t = CHR ''-'');
         u = (if t \<noteq> [] \<and> hd t \<in> set [CHR ''-'', CHR ''+''] then tl t else t);
         ds = takeWhile is_digit u;
         v = foldl (\<lambda>a c. 10 * a + digit_val c) 0 ds
     in if ds = [] then None
        else if v \<ge> 2 ^ 64 then None
        else Some (if neg then - of_nat v else of_nat v))"

definition count_rows :: "files \<Rightarrow> string \<Rightarrow> nat" where
  "count_rows fs name = length (file_lines fs name)"

definition count_columns :: "files \<Rightarrow> string \<Rightarrow> nat" where
  "count_columns fs name =
    length (words (case file_lines fs name of [] \<Rightarrow> [] | l # ls \<Rightarrow> l))"

text \<open>The matrix whose columns are the points with index \<open>nMin\<close> to \<open>nMax - 1\<close>.\<close>

definition fill_points :: "(nat \<Rightarrow> nat \<Rightarrow> nat) \<Rightarrow> nat \<Rightarrow> nat \<Rightarrow> points \<Rightarrow> points" where
  "fill_points point nMin nMax p =
    p\<lparr>pt_cols := map (\<lambda>k. map (point k) [0..<pt_rows p]) [nMin..<nMax]\<rparr>"

definition points_wf :: "points \<Rightarrow> bool" where
  "points_wf p \<longleftrightarrow> (\<forall>c \<in> set (pt_cols p). length c = pt_rows p)"

section \<open>Rounding\<close>

lemma nat_bits_0 [simp]: "nat_bits 0 = 0"
  by (simp add: nat_bits.simps)

lemma nat_bits_le_iff: "nat_bits n \<le> k \<longleftrightarrow> n < 2 ^ k"
proof (induction n arbitrary: k rule: nat_bits.induct)
  case (1 n)
  show ?case
  proof (cases "n = 0")
    case False
    then have s: "nat_bits n = Suc (nat_bits (n div 2))" by (simp add: nat_bits.simps [of n])
    show ?thesis
    proof (cases k)
      case 0
      then show ?thesis using False s by simp
    next
      case (Suc k')
      have "n div 2 < 2 ^ k' \<longleftrightarrow> n < 2 ^ Suc k'" by (simp add: div_less_iff_less_mult mult.commute)
      then show ?thesis using 1 [OF False, of k'] s Suc by simp
    qed
  qed simp
qed

lemma nat_bits_bounds: "n \<noteq> 0 \<Longrightarrow> 2 ^ (nat_bits n - 1) \<le> n \<and> n < 2 ^ nat_bits n"
  using nat_bits_le_iff [of n "nat_bits n - 1"] nat_bits_le_iff [of n "nat_bits n"]
  by (cases "nat_bits n") (simp_all add: not_less [symmetric])

text \<open>Rounding moves a value by at most half a unit of its last place.\<close>

lemma round53_near:
  assumes "e = nat_bits n - 53" and "53 < nat_bits n"
  shows "2 * (round53 n) \<le> 2 * n + 2 ^ e" and "2 * n \<le> 2 * round53 n + 2 ^ e"
proof -
  define q r where "q = n div 2 ^ e" and "r = n mod 2 ^ e"
  have n: "n = q * 2 ^ e + r" unfolding q_def r_def by (rule div_mult_mod_eq [symmetric])
  have r: "r < 2 ^ e" by (simp add: r_def)
  have e: "2 * 2 ^ (e - 1) = (2 ^ e :: nat)"
  proof -
    have "0 < e" using assms by simp
    then show ?thesis by (cases e) simp_all
  qed
  have "round53 n = (if r > 2 ^ (e - 1) \<or> (r = 2 ^ (e - 1) \<and> odd q)
      then (q + 1) * 2 ^ e else q * 2 ^ e)"
    using assms by (simp add: round53_def Let_def q_def r_def)
  then show "2 * (round53 n) \<le> 2 * n + 2 ^ e" "2 * n \<le> 2 * round53 n + 2 ^ e"
    using n r e by (auto simp: algebra_simps split: if_splits)
qed

lemma round53_exact: "n < 2 ^ 53 \<Longrightarrow> round53 n = n"
  using nat_bits_le_iff [of n 53] by (simp add: round53_def)

lemma round53_le:
  assumes "n \<le> 2 ^ k" and "53 \<le> k"
  shows "round53 n \<le> 2 ^ k"
proof (cases "n < 2 ^ 53 \<or> n = 2 ^ k")
  case True
  moreover have "round53 (2 ^ k) = 2 ^ k"
  proof -
    have b: "nat_bits (2 ^ k) = Suc k"
      by (intro antisym) (simp_all add: nat_bits_le_iff not_less_eq_eq [symmetric])
    then show ?thesis using assms(2)
      by (auto simp: round53_def Let_def mod_eq_0_iff_dvd le_imp_power_dvd)
  qed
  ultimately show ?thesis using assms by (auto simp: round53_exact)
next
  case False
  define e where "e = nat_bits n - 53"
  define q where "q = n div 2 ^ e"
  have big: "53 < nat_bits n" using False nat_bits_le_iff [of n 53] by auto
  have "nat_bits n \<le> k" using False assms by (simp add: nat_bits_le_iff)
  then have ek: "e \<le> k" unfolding e_def by simp
  have "n < 2 ^ (k - e) * 2 ^ e"
    using False assms ek by (simp flip: power_add)
  then have "q < 2 ^ (k - e)" unfolding q_def by (simp add: less_mult_imp_div_less)
  then have "(q + 1) * 2 ^ e \<le> 2 ^ (k - e) * 2 ^ e" by (intro mult_right_mono) auto
  also have "\<dots> = (2::nat) ^ k" using ek by (simp flip: power_add)
  finally have "(q + 1) * 2 ^ e \<le> 2 ^ k" .
  moreover have "round53 n \<le> (q + 1) * 2 ^ e"
    using big by (simp add: round53_def Let_def q_def e_def)
  ultimately show ?thesis by simp
qed

section \<open>The contract of a sequence\<close>

lemma pt_rows_fill [simp]: "pt_rows (fill_points f a b p) = pt_rows p"
  by (simp add: fill_points_def)

lemma pt_cols_fill [simp]:
  "pt_cols (fill_points f a b p) = map (\<lambda>k. map (f k) [0..<pt_rows p]) [a..<b]"
  by (simp add: fill_points_def)

text \<open>Facts for the loops over the columns.\<close>

lemma sint_index: "n < 2 ^ 31 \<Longrightarrow> sint (ucast (of_nat n :: uint64) :: uint32) = int n"
  by (simp add: unsigned_of_nat signed_of_nat take_bit_nat_eq_self signed_take_bit_int_eq_self)

lemma cols_of_no_rows:
  assumes "points_wf p" "pt_rows p = 0" "length (pt_cols p) = b - a"
  shows "pt_cols p = map (\<lambda>k. map (g k) [0..<pt_rows p]) [a..<b]"
proof (rule nth_equalityI)
  fix i assume i: "i < length (pt_cols p)"
  then have "pt_cols p ! i = []" using assms(1,2) by (simp add: points_wf_def)
  then show "pt_cols p ! i = map (\<lambda>k. map (g k) [0..<pt_rows p]) [a..<b] ! i"
    using i assms(2,3) by simp
qed (simp add: assms)

lemma foldl_shift_eq_map:
  assumes "a \<le> b" "length cs = b - a"
  shows "foldl (\<lambda>cs k. cs[k - a := g k]) cs [a..<b] = map g [a..<b]"
proof (rule nth_equalityI)
  fix i assume "i < length (foldl (\<lambda>cs k. cs[k - a := g k]) cs [a..<b])"
  then have i: "a + i \<in> set [a..<b]" using assms by auto
  have "inj_on (\<lambda>k. k - a) (set [a..<b])" by (auto simp: inj_on_def)
  moreover have "\<forall>k \<in> set [a..<b]. k - a < length cs" using assms by auto
  ultimately have "foldl (\<lambda>cs k. cs[k - a := g k]) cs [a..<b] ! (a + i - a) = g (a + i)"
    by (intro foldl_update_nth i) simp_all
  then show "foldl (\<lambda>cs k. cs[k - a := g k]) cs [a..<b] ! i = map g [a..<b] ! i"
    using i assms by simp
qed (use assms in simp)

lemma check_sizes_ok_iff:
  assumes "nMin \<le> nMax" and "length (pt_cols p) < 2 ^ 64"
  shows "check_sizes s nMin nMax p = Inr u \<longleftrightarrow>
    0 \<le> mMax s \<and> mMax s < 64 \<and> nMax \<le> 2 ^ nat (mMax s) \<and> int (pt_rows p) \<le> dMax s \<and>
    length (pt_cols p) = nMax - nMin"
proof (cases "0 \<le> mMax s \<and> mMax s < 64 \<and> nMax \<le> 2 ^ nat (mMax s)")
  case True
  then have "nMax \<le> 2 ^ nat (mMax s)" "nat (mMax s) \<le> 63" by auto
  then have "nMax \<le> 2 ^ 63"
    by (meson le_trans one_le_numeral power_increasing)
  then have "(int nMax - int nMin) mod 2 ^ 64 = int (nMax - nMin)"
    using assms(1) by (auto simp: of_nat_diff intro!: mod_pos_pos_trivial)
  then show ?thesis using True by (auto simp: check_sizes_def)
qed (auto simp: check_sizes_def)

lemma LowDiscrepancySequence_ok_iff:
  "LowDiscrepancySequence m d seed = Inr s \<longleftrightarrow>
    1 \<le> d \<and> 1 \<le> m \<and> 0 \<le> seed \<and> s = \<lparr>mMax = m, dMax = d, seedValue = seed\<rparr>"
  by (auto simp: LowDiscrepancySequence_def Let_def check_dMax_def check_mMax_def
      check_seedValue_def)

text \<open>
  What a derived class promises for a well-formed object: between matching bounds
  \<^verbatim>\<open>unsafe_get_points\<close> succeeds and column \<open>i\<close> holds point \<open>nMin + i\<close>, whatever
  the matrix held before, and coordinates lie in the unit interval.  The number of columns of
  a matrix is an \<^verbatim>\<open>int\<close>.
\<close>

locale low_discrepancy_sequence =
  fixes base :: "'s \<Rightarrow> lds"
    and unsafe_get_points :: "'s \<Rightarrow> nat \<Rightarrow> nat \<Rightarrow> points \<Rightarrow> points result"
    and point :: "'s \<Rightarrow> nat \<Rightarrow> nat \<Rightarrow> nat"
    and wf :: "'s \<Rightarrow> bool"
  assumes unsafe_fills:
    "\<lbrakk>wf s; nMin \<le> nMax; nMax \<le> 2 ^ nat (mMax (base s)); int (pt_rows p) \<le> dMax (base s);
      length (pt_cols p) = nMax - nMin; length (pt_cols p) < 2 ^ 31;
      points_wf p\<rbrakk> \<Longrightarrow>
     unsafe_get_points s nMin nMax p = Inr (fill_points (point s) nMin nMax p)"
    and point_bound:
    "\<lbrakk>wf s; k < 2 ^ nat (mMax (base s)); int j < dMax (base s)\<rbrakk> \<Longrightarrow> point s k j \<le> 2 ^ 64"
    and mMax_range: "wf s \<Longrightarrow> 0 \<le> mMax (base s) \<and> mMax (base s) < 64"
begin

lemma get_points_fills:
  assumes "wf s" "nMin \<le> nMax" "nMax \<le> 2 ^ nat (mMax (base s))"
    "int (pt_rows p) \<le> dMax (base s)" "length (pt_cols p) = nMax - nMin"
    "length (pt_cols p) < 2 ^ 31" "points_wf p"
  shows "get_points base unsafe_get_points s nMin nMax p =
    Inr (fill_points (point s) nMin nMax p)"
proof -
  have "check_sizes (base s) nMin nMax p = Inr ()"
    using assms mMax_range [OF assms(1)] by (simp add: check_sizes_ok_iff)
  then show ?thesis using unsafe_fills [OF assms] by (simp add: get_points_def)
qed

text \<open>Too many points, too many dimensions or a matrix of the wrong width end the program.\<close>

lemma get_points_rejects:
  assumes "wf s" "nMin \<le> nMax" "length (pt_cols p) < 2 ^ 31"
    and "\<not> (nMax \<le> 2 ^ nat (mMax (base s)) \<and> int (pt_rows p) \<le> dMax (base s) \<and>
      length (pt_cols p) = nMax - nMin)"
  shows "get_points base unsafe_get_points s nMin nMax p = Inl (Abort METHOD_ERROR)"
proof -
  have "check_sizes (base s) nMin nMax p \<noteq> Inr ()"
    using assms by (simp add: check_sizes_ok_iff)
  moreover have "check_sizes (base s) nMin nMax p \<noteq> Inl (UndefinedBehaviour x)" for x
    using mMax_range [OF assms(1)] by (simp add: check_sizes_def)
  ultimately have "check_sizes (base s) nMin nMax p = Inl (Abort METHOD_ERROR)"
    by (auto simp: check_sizes_def split: if_splits)
  then show ?thesis by (simp add: get_points_def)
qed

text \<open>Drawing a sequence in two requests gives the columns of the single request.\<close>

lemma get_points_extends:
  assumes "wf s" "a \<le> b" "b \<le> c" "c \<le> 2 ^ nat (mMax (base s))" "int r \<le> dMax (base s)"
    "length xs = b - a" "length ys = c - b" "length zs = c - a"
    "c - a < 2 ^ 31" "\<forall>x \<in> set (xs @ ys @ zs). length x = r"
  shows "\<exists>us vs.
    get_points base unsafe_get_points s a b \<lparr>pt_rows = r, pt_cols = xs\<rparr> =
      Inr \<lparr>pt_rows = r, pt_cols = us\<rparr> \<and>
    get_points base unsafe_get_points s b c \<lparr>pt_rows = r, pt_cols = ys\<rparr> =
      Inr \<lparr>pt_rows = r, pt_cols = vs\<rparr> \<and>
    get_points base unsafe_get_points s a c \<lparr>pt_rows = r, pt_cols = zs\<rparr> =
      Inr \<lparr>pt_rows = r, pt_cols = us @ vs\<rparr>"
proof -
  have u: "[a..<c] = [a..<b] @ [b..<c]" using assms(2,3) by (metis upt_add_eq_append le_Suc_ex)
  show ?thesis
    using assms by (simp add: get_points_fills fill_points_def points_wf_def u ball_Un)
qed

end

end
