(* ===== verification/Digital_Net.thy ===== *)
theory Digital_Net
  imports Low_Discrepancy
begin

text \<open>
  Digital nets in base 2 (\<^verbatim>\<open>src/DigitalNet.cpp\<close>, \<^verbatim>\<open>src/DigitalNet.hpp\<close>): the ways of
  obtaining generating matrices, the constructor with its checks in the order the code runs them,
  digital shift and linear matrix scramble, and the Antonov-Saleev iteration that
  \<^verbatim>\<open>unsafe_get_points\<close> uses in place of a matrix-vector product per point.

  The random numbers (\<^verbatim>\<open>boost::random::mt19937\<close> with a 64-bit uniform distribution) are a
  parameter \<open>rng seed i\<close>: the \<open>i\<close>-th draw after seeding.  Nothing is assumed about it.  The two
  predefined tables of \<^verbatim>\<open>low_discrepancy_data.hpp\<close> are parameters as well.
\<close>

unbundle bit_operations_syntax

section \<open>Data\<close>

datatype net_ordering = DIGITAL_NET_NATURAL_ORDERING | DIGITAL_NET_GRAY_CODE_ORDERING

record matrices =
  gm_cols :: nat
  gm_rows :: "uint64 list list"

record digital_net =
  dn_base :: lds
  generatingMatrices :: matrices
  scrambledGeneratingMatrices :: matrices
  tMax :: int
  tScramble :: int
  digitalShiftFlag :: bool
  scramblingFlag :: bool
  digitalShift :: "uint64 list"
  ordering :: net_ordering
  mostSignificantBitFirst :: bool

type_synonym u64_rng = "int \<Rightarrow> nat \<Rightarrow> uint64"

section \<open>Generating matrices from the method specification\<close>

text \<open>A row of the file; a token in a column the first line does not have is written out of bounds.\<close>

fun read_row :: "nat \<Rightarrow> nat \<Rightarrow> uint64 list \<Rightarrow> string list \<Rightarrow> uint64 list result" where
  "read_row cols c r [] = Inr r"
| "read_row cols c r (w # ws) =
    (case stoull w of
       None \<Rightarrow> Inl (Abort METHOD_ERROR)
     | Some v \<Rightarrow> if c < cols then read_row cols (Suc c) (r[c := v]) ws
                 else Inl (UndefinedBehaviour ''matrix write''))"

definition get_generating_matrices_from_file ::
  "files \<Rightarrow> method_db \<Rightarrow> (matrices \<times> int \<times> int) result" where
  "get_generating_matrices_from_file fs db =
    (let nbOfCols = count_columns fs (db_file db) in
     rbind (rfold (\<lambda>line rows. rbind (read_row nbOfCols 0 (replicate nbOfCols 0) (words line))
                                 (\<lambda>r. Inr (rows @ [r])))
              (file_lines fs (db_file db)) [])
       (\<lambda>rows. Inr (\<lparr>gm_cols = nbOfCols, gm_rows = rows\<rparr>, db_m_max db, db_t_max db)))"

definition get_inline_generating_matrices ::
  "method_db \<Rightarrow> (matrices \<times> int \<times> int) result" where
  "get_inline_generating_matrices db =
    (let xs = db_inline db; numCols = db_m_max db in
     if numCols = 0 then Inl (Abort METHOD_ERROR)
     else if numCols < 0 then Inl (UndefinedBehaviour ''negative shape'')
     else let c = nat numCols; r = length xs div c in
       Inr (\<lparr>gm_cols = c,
             gm_rows = map (\<lambda>row. map (\<lambda>col. of_int (xs ! (row * c + col))) [0..<c]) [0..<r]\<rparr>,
            numCols, db_t_max db))"

definition get_default_generating_matrices ::
  "matrices \<Rightarrow> matrices \<Rightarrow> method_db \<Rightarrow> (matrices \<times> int \<times> int) result" where
  "get_default_generating_matrices sobol_d250_t64_m32 joe_kuo_d1024_t32_m32 db =
    (if db_alternative db then Inr (sobol_d250_t64_m32, 32, 32)
     else Inr (joe_kuo_d1024_t32_m32, 32, 64))"

definition net_get_data ::
  "files \<Rightarrow> matrices \<Rightarrow> matrices \<Rightarrow> method_db \<Rightarrow> (matrices \<times> int \<times> int) result" where
  "net_get_data fs sobol joe_kuo db =
    (if db_file db \<noteq> [] then get_generating_matrices_from_file fs db
     else if db_inline db \<noteq> [] then get_inline_generating_matrices db
     else if db_m_max db \<noteq> 0 then Inl (Abort METHOD_ERROR)
     else if db_t_max db \<noteq> 0 then Inl (Abort METHOD_ERROR)
     else if db_lsb_first db \<or> db_msb_first db then Inl (Abort METHOD_ERROR)
     else get_default_generating_matrices sobol joe_kuo db)"

section \<open>Randomization\<close>

definition digital_shift :: "u64_rng \<Rightarrow> int \<Rightarrow> digital_net \<Rightarrow> digital_net" where
  "digital_shift rng seed net =
    (let d = nat (dMax (dn_base net)) in
     net\<lparr>digitalShift := (if seed < 0 then replicate d 0 else map (rng seed) [0..<d])\<rparr>)"

text \<open>
  Entry \<open>(d, k)\<close> uses draw number \<open>d * tMax + k\<close>.  The shift by \<open>tScramble - 1\<close> in the first
  step is undefined when \<open>tScramble\<close> exceeds 64.
\<close>

definition scramble_entry :: "uint64 \<Rightarrow> nat \<Rightarrow> nat \<Rightarrow> uint64" where
  "scramble_entry r tS k =
    push_bit k ((r AND ((push_bit (tS - k - 1) 1 - 1) OR push_bit (tS - k - 1) 1)) OR 1)"

definition get_linear_scrambling_matrices ::
  "u64_rng \<Rightarrow> int \<Rightarrow> digital_net \<Rightarrow> matrices result" where
  "get_linear_scrambling_matrices rng seed net =
    (let t = nat (tMax net); tS = nat (tScramble net); d = nat (dMax (dn_base net)) in
     if 0 < d \<and> 0 < t \<and> 64 < tS then Inl (UndefinedBehaviour ''shift'')
     else Inr \<lparr>gm_cols = t,
       gm_rows = map (\<lambda>i. map (\<lambda>k. scramble_entry (rng seed (i * t + k)) tS k) [0..<t]) [0..<d]\<rparr>)"

definition bitreverse_generating_matrices :: "digital_net \<Rightarrow> digital_net" where
  "bitreverse_generating_matrices net =
    (let m = scrambledGeneratingMatrices net in
     net\<lparr>scrambledGeneratingMatrices := m\<lparr>gm_rows := map (map bitreverse64) (gm_rows m)\<rparr>\<rparr>)"

text \<open>
  \<^verbatim>\<open>scramble\<close> reads and writes columns \<open>0\<close> to \<open>mMax - 1\<close> of matrices that have \<open>numCols\<close>
  columns; columns from \<open>mMax\<close> on stay 0 after \<^verbatim>\<open>shape\<close>.
\<close>

definition scramble :: "u64_rng \<Rightarrow> int \<Rightarrow> digital_net \<Rightarrow> digital_net result" where
  "scramble rng seed net =
    (let g = generatingMatrices net; numCols = gm_cols g;
         m = nat (mMax (dn_base net)); d = nat (dMax (dn_base net)) in
     if seed < 0 then
       Inr (bitreverse_generating_matrices (net\<lparr>scrambledGeneratingMatrices := g\<rparr>))
     else rbind (get_linear_scrambling_matrices rng seed net) (\<lambda>sm.
       if numCols < m then Inl (UndefinedBehaviour ''matrix access'')
       else Inr (bitreverse_generating_matrices
         (net\<lparr>scrambledGeneratingMatrices :=
            \<lparr>gm_cols = numCols,
             gm_rows = map (\<lambda>i. matmul_base2 (gm_rows sm ! i) (take m (gm_rows g ! i))
                                 @ replicate (numCols - m) 0) [0..<d]\<rparr>\<rparr>))))"

definition randomize :: "u64_rng \<Rightarrow> int \<Rightarrow> int \<Rightarrow> digital_net \<Rightarrow> digital_net result" where
  "randomize rng seed1 seed2 net = scramble rng seed2 (digital_shift rng seed1 net)"

section \<open>Constructors\<close>

definition DigitalNet ::
  "u64_rng \<Rightarrow> matrices \<Rightarrow> int \<Rightarrow> int \<Rightarrow> int \<Rightarrow> bool \<Rightarrow> bool \<Rightarrow> int \<Rightarrow> net_ordering \<Rightarrow> bool \<Rightarrow>
    digital_net result" where
  "DigitalNet rng gm m t ts shiftFlag scrambleFlag seed ord msbFirst =
    rbind (LowDiscrepancySequence m (int (length (gm_rows gm))) seed) (\<lambda>b.
      let net0 = \<lparr>dn_base = b, generatingMatrices = gm,
                  scrambledGeneratingMatrices = \<lparr>gm_cols = 0, gm_rows = []\<rparr>,
                  tMax = t, tScramble = ts, digitalShiftFlag = shiftFlag,
                  scramblingFlag = scrambleFlag, digitalShift = [], ordering = ord,
                  mostSignificantBitFirst = msbFirst\<rparr>;
          net1 = (if msbFirst
                  then net0\<lparr>generatingMatrices :=
                    gm\<lparr>gm_rows := map (map (\<lambda>v. bitreverse v (nat t))) (gm_rows gm)\<rparr>\<rparr>
                  else net0);
          net2 = digital_shift rng (if shiftFlag then seed else -1) net1
      in if ts < t then Inl (Abort METHOD_ERROR)
         else if t \<le> 0 then Inl (Abort METHOD_ERROR)
         else rbind (scramble rng (if scrambleFlag then seed else -1) net2) (\<lambda>net3.
           if int (gm_cols (scrambledGeneratingMatrices net3)) \<noteq> m
           then Inl (Abort METHOD_ERROR) else Inr net3))"

definition DigitalNet_matrices ::
  "u64_rng \<Rightarrow> int \<Rightarrow> matrices \<Rightarrow> int \<Rightarrow> int \<Rightarrow> digital_net result" where
  "DigitalNet_matrices rng sysseed gm m t =
    DigitalNet rng gm m t t True True sysseed DIGITAL_NET_GRAY_CODE_ORDERING False"

definition DigitalNet_seed :: "u64_rng \<Rightarrow> matrices \<Rightarrow> int \<Rightarrow> digital_net result" where
  "DigitalNet_seed rng joe_kuo seed =
    DigitalNet rng joe_kuo 32 32 32 True True seed DIGITAL_NET_GRAY_CODE_ORDERING False"

definition DigitalNet_default :: "u64_rng \<Rightarrow> int \<Rightarrow> matrices \<Rightarrow> digital_net result" where
  "DigitalNet_default rng sysseed joe_kuo = DigitalNet_seed rng joe_kuo sysseed"

definition DigitalNet_tuple ::
  "u64_rng \<Rightarrow> int \<Rightarrow> matrices \<times> int \<times> int \<Rightarrow> method_db \<Rightarrow> digital_net result" where
  "DigitalNet_tuple rng sysseed data db =
    (case data of (gm, m, t) \<Rightarrow>
      DigitalNet rng gm m t
        (if db_t_scramble db \<noteq> 0 then db_t_scramble db else 64)
        (\<not> db_no_shift db) (\<not> db_no_scrambling db)
        (if db_random_seed db \<noteq> 0 then db_random_seed db else sysseed)
        (if db_natural db then DIGITAL_NET_NATURAL_ORDERING else DIGITAL_NET_GRAY_CODE_ORDERING)
        (db_msb_first db))"

definition DigitalNet_db ::
  "u64_rng \<Rightarrow> int \<Rightarrow> files \<Rightarrow> matrices \<Rightarrow> matrices \<Rightarrow> method_db \<Rightarrow> digital_net result" where
  "DigitalNet_db rng sysseed fs sobol joe_kuo db =
    rbind (net_get_data fs sobol joe_kuo db) (\<lambda>data. DigitalNet_tuple rng sysseed data db)"

section \<open>Points\<close>

definition reorder_natural :: "uint64 \<Rightarrow> uint64" where
  "reorder_natural k = binary2gray k"

definition reorder_gray_code :: "uint64 \<Rightarrow> uint64" where
  "reorder_gray_code k = k"

fun reorder :: "net_ordering \<Rightarrow> uint64 \<Rightarrow> uint64" where
  "reorder DIGITAL_NET_NATURAL_ORDERING k = reorder_natural k"
| "reorder DIGITAL_NET_GRAY_CODE_ORDERING k = reorder_gray_code k"

text \<open>The index parameter of \<^verbatim>\<open>next\<close> is an \<^verbatim>\<open>int\<close>: only the low 32 bits arrive.\<close>

definition dn_next :: "digital_net \<Rightarrow> nat \<Rightarrow> uint64 list \<Rightarrow> uint64 list result" where
  "dn_next net k cur =
    (let kk = of_nat k :: uint32 in
     if kk = 0 then Inr cur
     else let n = count_consecutive_trailing_zero_bits kk; m = scrambledGeneratingMatrices net in
       if cur = [] \<or> (n < gm_cols m \<and> length cur \<le> length (gm_rows m))
       then Inr (map_index (\<lambda>j c. c XOR (gm_rows m ! j ! n)) cur)
       else Inl (UndefinedBehaviour ''matrix read''))"

text \<open>
  One pass of the loop over the points: \<open>idx - nMin\<close> is a 64-bit difference that is passed as
  the \<^verbatim>\<open>int\<close> column index of an unchecked matrix access.
\<close>

definition dn_point_step ::
  "digital_net \<Rightarrow> nat \<Rightarrow> nat \<Rightarrow> uint64 list \<times> nat list list \<Rightarrow>
    (uint64 list \<times> nat list list) result" where
  "dn_point_step net nMin k st =
    (case st of (cur, cols) \<Rightarrow>
      rbind (dn_next net k cur) (\<lambda>cur'.
        let idx = reorder (ordering net) (of_nat k);
            col = sint (ucast (idx - of_nat nMin) :: uint32)
        in if cur' = [] then Inr (cur', cols)
           else if length cur' \<le> length (digitalShift net) \<and> 0 \<le> col \<and> col < int (length cols)
             then Inr (cur', cols[nat col :=
               map_index (\<lambda>j c. round53 (unat (c XOR digitalShift net ! j))) cur'])
             else Inl (UndefinedBehaviour ''matrix write'')))"

definition dn_unsafe_get_points ::
  "digital_net \<Rightarrow> nat \<Rightarrow> nat \<Rightarrow> points \<Rightarrow> points result" where
  "dn_unsafe_get_points net nMin nMax p =
    (if ordering net = DIGITAL_NET_NATURAL_ORDERING \<and> \<not> ispow2 (of_nat (length (pt_cols p)))
     then Inl (Abort METHOD_ERROR)
     else rbind (rfold (dn_next net) [0..<nMin] (replicate (pt_rows p) 0)) (\<lambda>cur.
       rbind (rfold (dn_point_step net nMin) [nMin..<nMax] (cur, pt_cols p)) (\<lambda>(cur', cols).
         Inr (p\<lparr>pt_cols := cols\<rparr>))))"

section \<open>Specification\<close>

text \<open>
  The point with binary index \<open>v\<close>: the product of the generating matrix with the digits of \<open>v\<close>
  over the two-element field, XORed with the shift and converted.
\<close>

definition net_raw :: "digital_net \<Rightarrow> nat \<Rightarrow> uint64 \<Rightarrow> uint64" where
  "net_raw net j v = hd (matmul_base2 (gm_rows (scrambledGeneratingMatrices net) ! j) [v])"

definition net_point :: "digital_net \<Rightarrow> nat \<Rightarrow> nat \<Rightarrow> nat" where
  "net_point net v j = round53 (unat (net_raw net j (of_nat v) XOR digitalShift net ! j))"

definition gray_nat :: "nat \<Rightarrow> nat" where
  "gray_nat k = unat (binary2gray (of_nat k))"

definition gray_point :: "digital_net \<Rightarrow> nat \<Rightarrow> nat \<Rightarrow> nat" where
  "gray_point net k j = net_point net (gray_nat k) j"

text \<open>The iteration's vector before index \<open>k\<close> is handled.\<close>

definition net_cur :: "digital_net \<Rightarrow> nat \<Rightarrow> nat \<Rightarrow> uint64 list" where
  "net_cur net r k =
    (if k = 0 then replicate r 0
     else map (\<lambda>j. net_raw net j (binary2gray (of_nat (k - 1)))) [0..<r])"

definition mat_wf :: "nat \<Rightarrow> nat \<Rightarrow> matrices \<Rightarrow> bool" where
  "mat_wf r c m \<longleftrightarrow> length (gm_rows m) = r \<and> gm_cols m = c \<and> (\<forall>row \<in> set (gm_rows m). length row = c)"

definition net_wf :: "digital_net \<Rightarrow> bool" where
  "net_wf net \<longleftrightarrow>
    1 \<le> mMax (dn_base net) \<and> 1 \<le> dMax (dn_base net) \<and>
    mat_wf (nat (dMax (dn_base net))) (nat (mMax (dn_base net))) (generatingMatrices net) \<and>
    mat_wf (nat (dMax (dn_base net))) (nat (mMax (dn_base net))) (scrambledGeneratingMatrices net) \<and>
    length (digitalShift net) = nat (dMax (dn_base net)) \<and>
    0 < tMax net \<and> tMax net \<le> tScramble net"

text \<open>The nets for which every request is answered in Gray code order.\<close>

definition gray_net :: "digital_net \<Rightarrow> bool" where
  "gray_net net \<longleftrightarrow> net_wf net \<and> mMax (dn_base net) \<le> 32 \<and>
    ordering net = DIGITAL_NET_GRAY_CODE_ORDERING"

text \<open>A two-dimensional example with four points.\<close>

definition example_matrices :: matrices where
  "example_matrices = \<lparr>gm_cols = 2, gm_rows = [[1, 2], [1, 3]]\<rparr>"

definition example_rng :: u64_rng where
  "example_rng seed i = of_int seed + of_nat i"

definition example_DigitalNet :: "net_ordering \<Rightarrow> digital_net result" where
  "example_DigitalNet ord =
    DigitalNet example_rng example_matrices 2 2 64 True True 7 ord False"

section \<open>The product with one vector\<close>

lemma fold_xor_linear:
  fixes A :: "'a::len word list"
  shows "fold (\<lambda>i r. r XOR (bitget (v XOR w) i * A ! i)) is (r1 XOR r2) =
   fold (\<lambda>i r. r XOR (bitget v i * A ! i)) is r1 XOR fold (\<lambda>i r. r XOR (bitget w i * A ! i)) is r2"
proof (induction "is" arbitrary: r1 r2)
  case Nil
  show ?case by simp
next
  case (Cons i "is")
  have "bitget (v XOR w) i * A ! i = (bitget v i * A ! i) XOR (bitget w i * A ! i)"
    by (simp add: bitget_eq bit_xor_iff of_bool_def)
  then have e: "(r1 XOR r2) XOR bitget (v XOR w) i * A ! i =
      (r1 XOR bitget v i * A ! i) XOR (r2 XOR bitget w i * A ! i)"
    by (simp add: ac_simps)
  show ?case
    using Cons.IH [of "r1 XOR bitget v i * A ! i" "r2 XOR bitget w i * A ! i"]
    by (simp only: fold_Cons comp_apply e)
qed

lemma net_raw_xor: "net_raw net j (v XOR w) = net_raw net j v XOR net_raw net j w"
  using fold_xor_linear [of v w "gm_rows (scrambledGeneratingMatrices net) ! j" _ 0 0]
  by (simp add: net_raw_def matmul_base2_def)

lemma net_raw_0 [simp]: "net_raw net j 0 = 0"
proof -
  have "net_raw net j 0 XOR net_raw net j 0 = net_raw net j 0"
    using net_raw_xor [of net j 0 0] by simp
  then show ?thesis by simp
qed

lemma net_raw_unit:
  assumes "n < 64" "n < length (gm_rows (scrambledGeneratingMatrices net) ! j)"
  shows "net_raw net j (push_bit n 1) = gm_rows (scrambledGeneratingMatrices net) ! j ! n"
proof (rule bit_word_eqI)
  fix b assume "b < LENGTH(64)"
  let ?A = "gm_rows (scrambledGeneratingMatrices net) ! j"
  have "net_raw net j (push_bit n 1) = matmul_base2 ?A [push_bit n 1] ! 0"
    by (simp add: net_raw_def hd_conv_nth flip: length_greater_0_conv)
  moreover have "{i. i < length ?A \<and> bit (push_bit n 1 :: uint64) i \<and> bit (?A ! i) b} =
      (if bit (?A ! n) b then {n} else {})"
    using assms by (auto simp: bit_simps)
  ultimately show "bit (net_raw net j (push_bit n 1)) b = bit (?A ! n) b"
    by (simp add: bit_matmul_base2)
qed

section \<open>The iteration computes the net in Gray code order\<close>

lemma length_net_cur [simp]: "length (net_cur net r k) = r"
  by (simp add: net_cur_def)

lemma bit_of_nat_narrow:
  assumes "k < 2 ^ 32"
  shows "bit (of_nat k :: uint64) i \<longleftrightarrow> bit (of_nat k :: uint32) i"
proof -
  have "take_bit 32 k = k" using assms by (simp add: take_bit_nat_eq_self)
  then have "bit k i \<Longrightarrow> i < 32" by (metis bit_take_bit_iff)
  then show ?thesis by (auto simp: bit_word_of_nat_iff)
qed

lemma net_row_length:
  assumes "net_wf net" "int j < dMax (dn_base net)"
  shows "length (gm_rows (scrambledGeneratingMatrices net) ! j) = nat (mMax (dn_base net))"
  using assms by (auto simp: net_wf_def mat_wf_def)

text \<open>One call of \<^verbatim>\<open>next\<close> advances the vector from index \<open>k - 1\<close> to index \<open>k\<close>.\<close>

lemma dn_next_net_cur:
  assumes wf: "net_wf net" and m: "mMax (dn_base net) \<le> 32"
    and k: "k < 2 ^ nat (mMax (dn_base net))" and r: "int r \<le> dMax (dn_base net)"
  shows "dn_next net k (net_cur net r k) = Inr (net_cur net r (Suc k))"
proof -
  let ?kk = "of_nat k :: uint32" and ?M = "scrambledGeneratingMatrices net"
  have "nat (mMax (dn_base net)) \<le> 32" using m by simp
  then have k32: "k < 2 ^ 32" using k
    by (meson less_le_trans one_le_numeral power_increasing)
  then have u: "unat ?kk = k" by (simp add: unat_of_nat_less)
  show ?thesis
  proof (cases "k = 0")
    case True
    then show ?thesis by (simp add: dn_next_def net_cur_def map_replicate_const)
  next
    case False
    then have nz: "?kk \<noteq> 0" using u by auto
    define c where "c = (LEAST i. bit ?kk i)"
    have "\<exists>i. bit ?kk i" using nz by (metis bit_eqI bit_0_eq bot_apply bot_bool_def)
    then have b: "bit ?kk c" unfolding c_def by (rule LeastI_ex)
    have l: "\<And>i. i < c \<Longrightarrow> \<not> bit ?kk i" unfolding c_def by (rule not_less_Least)
    have ctz: "count_consecutive_trailing_zero_bits ?kk = c"
      using nz by (simp add: count_trailing_correct c_def)
    have "bit k c" using b by (simp add: bit_word_of_nat_iff)
    moreover have "take_bit (nat (mMax (dn_base net))) k = k"
      using k by (simp add: take_bit_nat_eq_self)
    ultimately have cm: "c < nat (mMax (dn_base net))" by (metis bit_take_bit_iff)
    have gray: "binary2gray (of_nat k) = binary2gray (of_nat (k - 1)) XOR push_bit c 1"
    proof -
      have "of_nat k - 1 = (of_nat (k - 1) :: uint64)" using False by simp
      then show ?thesis
        using binary2gray_step [of "of_nat k" c] b l bit_of_nat_narrow [OF k32] by simp
    qed
    have c64: "c < 64" using cm m by simp
    have "net_cur net r (Suc k) ! j = net_cur net r k ! j XOR gm_rows ?M ! j ! c"
      if j: "j < r" for j
    proof -
      have "c < length (gm_rows ?M ! j)" using net_row_length [OF wf, of j] j r cm by simp
      then show ?thesis
        using j False c64 net_raw_unit [of c net j] by (simp add: net_cur_def gray net_raw_xor)
    qed
    then have "net_cur net r (Suc k) = map_index (\<lambda>j x. x XOR gm_rows ?M ! j ! c) (net_cur net r k)"
      by (intro nth_equalityI) simp_all
    moreover have "c < gm_cols ?M" "r \<le> length (gm_rows ?M)"
      using wf cm r by (auto simp: net_wf_def mat_wf_def)
    ultimately show ?thesis using nz by (simp add: dn_next_def Let_def ctz)
  qed
qed

lemma rfold_dn_next:
  assumes "net_wf net" "mMax (dn_base net) \<le> 32" "int r \<le> dMax (dn_base net)"
    and "n \<le> 2 ^ nat (mMax (dn_base net))"
  shows "rfold (dn_next net) [0..<n] (replicate r 0) = Inr (net_cur net r n)"
  using assms(4)
proof (induction n)
  case 0
  show ?case by (simp add: net_cur_def)
next
  case (Suc n)
  then show ?case
    using dn_next_net_cur [OF assms(1,2) _ assms(3), of n] by (simp add: rfold_append)
qed

lemma gray_nat_less: "k < 2 ^ m \<Longrightarrow> m \<le> 64 \<Longrightarrow> gray_nat k < 2 ^ m"
  unfolding gray_nat_def
  by (rule binary2gray_less)
    (simp_all add: unsigned_of_nat order.strict_trans1 [OF take_bit_nat_less_eq_self])

lemma gray_nat_inj: "inj_on gray_nat {0..<2 ^ m}" if "m \<le> 64"
proof (rule inj_onI)
  fix x y :: nat
  assume x: "x \<in> {0..<2 ^ m}" and y: "y \<in> {0..<2 ^ m}" and e: "gray_nat x = gray_nat y"
  have "(2::nat) ^ m \<le> 2 ^ 64" using that by (intro power_increasing) simp_all
  then have "unat (of_nat x :: uint64) = x" "unat (of_nat y :: uint64) = y"
    using x y by (auto intro!: unat_of_nat_less)
  moreover have "of_nat x = (of_nat y :: uint64)"
    using e by (simp only: gray_nat_def unsigned_word_eqI binary2gray_inj word_unat_eq_iff [symmetric])
  ultimately show "x = y" by argo
qed

lemma gray_nat_bij: "m \<le> 64 \<Longrightarrow> bij_betw gray_nat {0..<2 ^ m} {0..<2 ^ m}"
  unfolding bij_betw_def
  by (intro conjI gray_nat_inj endo_inj_surj) (auto simp: gray_nat_less)

text \<open>The loop over the points writes column \<open>f k\<close> for each index \<open>k\<close> in turn.\<close>

lemma dn_point_steps:
  assumes wf: "net_wf net" and m: "mMax (dn_base net) \<le> 32"
    and r: "0 < r" "int r \<le> dMax (dn_base net)"
    and ab: "a \<le> b" "b \<le> 2 ^ nat (mMax (dn_base net))"
    and f: "\<And>k. a \<le> k \<Longrightarrow> k < b \<Longrightarrow>
      sint (ucast (reorder (ordering net) (of_nat k) - of_nat nMin) :: uint32) = int (f k) \<and>
      f k < length cols"
  shows "rfold (dn_point_step net nMin) [a..<b] (net_cur net r a, cols) =
    Inr (net_cur net r b,
      foldl (\<lambda>cs k. cs[f k := map (net_point net (gray_nat k)) [0..<r]]) cols [a..<b])"
  using ab f
proof (induction b rule: dec_induct)
  case base
  show ?case by simp
next
  case (step b)
  let ?cs = "foldl (\<lambda>cs k. cs[f k := map (net_point net (gray_nat k)) [0..<r]]) cols [a..<b]"
  have ih: "rfold (dn_point_step net nMin) [a..<b] (net_cur net r a, cols) =
      Inr (net_cur net r b, ?cs)"
    using step by simp
  have n: "dn_next net b (net_cur net r b) = Inr (net_cur net r (Suc b))"
    using step.prems by (intro dn_next_net_cur wf m r) simp
  have col: "map_index (\<lambda>j c. round53 (unat (c XOR digitalShift net ! j))) (net_cur net r (Suc b)) =
      map (net_point net (gray_nat b)) [0..<r]"
    by (intro nth_equalityI) (simp_all add: net_cur_def net_point_def gray_nat_def)
  have ne: "net_cur net r (Suc b) \<noteq> []" using r by (metis length_net_cur list.size(3) less_irrefl)
  have sh: "r \<le> length (digitalShift net)" using wf r by (auto simp: net_wf_def)
  have "dn_point_step net nMin b (net_cur net r b, ?cs) =
      Inr (net_cur net r (Suc b), ?cs[f b := map (net_point net (gray_nat b)) [0..<r]])"
    using step.prems(2) [of b] step.hyps ne sh by (simp add: dn_point_step_def n Let_def col)
  then show ?case using ih step.hyps(1) by (simp add: rfold_append)
qed

text \<open>Gray code order: column \<open>i\<close> holds the net point with index \<open>gray (nMin + i)\<close>.\<close>

lemma rfold_dn_point_no_rows:
  "rfold (dn_point_step net nMin) ks ([], cols) = Inr ([], cols)"
  by (induction ks) (auto simp: dn_point_step_def dn_next_def Let_def map_index_def)

lemma dn_unsafe_gray:
  assumes wf: "net_wf net" "mMax (dn_base net) \<le> 32"
    and o: "ordering net = DIGITAL_NET_GRAY_CODE_ORDERING"
    and n: "nMin \<le> nMax" "nMax \<le> 2 ^ nat (mMax (dn_base net))"
    and p: "int (pt_rows p) \<le> dMax (dn_base net)" "length (pt_cols p) = nMax - nMin"
      "length (pt_cols p) < 2 ^ 31" "points_wf p"
  shows "dn_unsafe_get_points net nMin nMax p = Inr (fill_points (gray_point net) nMin nMax p)"
proof -
  have pre: "rfold (dn_next net) [0..<nMin] (replicate (pt_rows p) 0) =
      Inr (net_cur net (pt_rows p) nMin)"
    using n by (intro rfold_dn_next wf p) simp
  show ?thesis
  proof (cases "pt_rows p = 0")
    case True
    then have "net_cur net 0 nMin = []" by (metis length_0_conv length_net_cur)
    then have "dn_unsafe_get_points net nMin nMax p = Inr p"
      using pre True o by (simp add: dn_unsafe_get_points_def rfold_dn_point_no_rows)
    moreover have "fill_points (gray_point net) nMin nMax p = p"
      unfolding fill_points_def cols_of_no_rows [OF p(4) True p(2), symmetric] by simp
    ultimately show ?thesis by simp
  next
    case False
    have idx: "sint (ucast (reorder (ordering net) (of_nat k) - of_nat nMin) :: uint32) =
        int (k - nMin) \<and> k - nMin < length (pt_cols p)" if "nMin \<le> k" "k < nMax" for k
    proof -
      have "reorder (ordering net) (of_nat k) - of_nat nMin = (of_nat (k - nMin) :: uint64)"
        using that by (simp add: o reorder_gray_code_def of_nat_diff)
      moreover have "k - nMin < 2 ^ 31" using that p by simp
      ultimately show ?thesis using that p sint_index [of "k - nMin"] by simp
    qed
    show ?thesis
      using pre o dn_point_steps [OF wf _ p(1) n idx] False foldl_shift_eq_map [OF n(1) p(2)]
      by (simp add: dn_unsafe_get_points_def fill_points_def gray_point_def [abs_def])
  qed
qed

text \<open>Natural order from index 0: column \<open>i\<close> holds the net point with index \<open>i\<close>.\<close>

lemma dn_unsafe_natural:
  assumes wf: "net_wf net" "mMax (dn_base net) \<le> 32"
    and o: "ordering net = DIGITAL_NET_NATURAL_ORDERING"
    and m: "int m \<le> mMax (dn_base net)" "m < 31"
    and p: "0 < pt_rows p" "int (pt_rows p) \<le> dMax (dn_base net)" "length (pt_cols p) = 2 ^ m"
  shows "dn_unsafe_get_points net 0 (2 ^ m) p = Inr (fill_points (net_point net) 0 (2 ^ m) p)"
proof -
  let ?g = "\<lambda>k. map (net_point net k) [0..<pt_rows p]"
  let ?cs = "foldl (\<lambda>cs k. cs[gray_nat k := ?g (gray_nat k)]) (pt_cols p) [0..<2 ^ m]"
  have "of_nat (2 ^ m) = (push_bit m 1 :: uint32)" by (simp add: push_bit_eq_mult)
  then have pow: "ispow2 (of_nat (length (pt_cols p)))"
    unfolding ispow2_iff p(3) by (intro exI [of _ m]) (use m in simp)
  have b: "(2::nat) ^ m \<le> 2 ^ nat (mMax (dn_base net))" using m by (intro power_increasing) auto
  have idx: "sint (ucast (reorder (ordering net) (of_nat k) - of_nat 0) :: uint32) =
      int (gray_nat k) \<and> gray_nat k < length (pt_cols p)" if "0 \<le> k" "k < 2 ^ m" for k
  proof -
    have g: "gray_nat k < 2 ^ m" using that m by (intro gray_nat_less) auto
    also have "(2::nat) ^ m \<le> 2 ^ 31" using m by (intro power_increasing) auto
    finally have "sint (ucast (of_nat (gray_nat k) :: uint64) :: uint32) = int (gray_nat k)"
      by (rule sint_index)
    then show ?thesis using g p(3) by (simp add: o reorder_natural_def gray_nat_def)
  qed
  have "?cs = map ?g [0..<2 ^ m]"
  proof (rule nth_equalityI)
    fix i assume "i < length ?cs"
    then have "i \<in> gray_nat ` {0..<2 ^ m}"
      using p(3) m gray_nat_bij [of m] by (simp add: bij_betw_def)
    then obtain k where k: "i = gray_nat k" "k < 2 ^ m" by auto
    show "?cs ! i = map ?g [0..<2 ^ m] ! i"
      unfolding k(1) using k(2) gray_nat_inj [of m] m p(3) gray_nat_less [of _ m]
      by (subst foldl_update_nth) auto
  qed (simp add: p(3))
  then show ?thesis
    using dn_point_steps [OF wf p(1,2) _ b idx, of 0] pow
    by (simp add: dn_unsafe_get_points_def fill_points_def net_cur_def)
qed

section \<open>Randomization keeps the net well formed\<close>

lemma mat_wf_map_map: "mat_wf r c (m\<lparr>gm_rows := map (map f) (gm_rows m)\<rparr>) = mat_wf r c m"
  by (auto simp: mat_wf_def)

lemma digital_shift_simps [simp]:
  "dn_base (digital_shift rng seed net) = dn_base net"
  "generatingMatrices (digital_shift rng seed net) = generatingMatrices net"
  "scrambledGeneratingMatrices (digital_shift rng seed net) = scrambledGeneratingMatrices net"
  "tMax (digital_shift rng seed net) = tMax net"
  "tScramble (digital_shift rng seed net) = tScramble net"
  "ordering (digital_shift rng seed net) = ordering net"
  "length (digitalShift (digital_shift rng seed net)) = nat (dMax (dn_base net))"
  by (simp_all add: digital_shift_def Let_def)

lemma bitreverse_matrices_simps [simp]:
  "dn_base (bitreverse_generating_matrices net) = dn_base net"
  "generatingMatrices (bitreverse_generating_matrices net) = generatingMatrices net"
  "tMax (bitreverse_generating_matrices net) = tMax net"
  "tScramble (bitreverse_generating_matrices net) = tScramble net"
  "ordering (bitreverse_generating_matrices net) = ordering net"
  "digitalShift (bitreverse_generating_matrices net) = digitalShift net"
  "mat_wf r c (scrambledGeneratingMatrices (bitreverse_generating_matrices net)) =
    mat_wf r c (scrambledGeneratingMatrices net)"
  "gm_cols (scrambledGeneratingMatrices (bitreverse_generating_matrices net)) =
    gm_cols (scrambledGeneratingMatrices net)"
  by (simp_all add: bitreverse_generating_matrices_def Let_def mat_wf_map_map)

lemma scramble_keeps:
  assumes "scramble rng seed net = Inr net'"
    and "mat_wf (nat (dMax (dn_base net))) c (generatingMatrices net)"
  shows "dn_base net' = dn_base net \<and> generatingMatrices net' = generatingMatrices net \<and>
    tMax net' = tMax net \<and> tScramble net' = tScramble net \<and> ordering net' = ordering net \<and>
    digitalShift net' = digitalShift net \<and>
    mat_wf (nat (dMax (dn_base net))) c (scrambledGeneratingMatrices net')"
proof (cases "seed < 0")
  case True
  then show ?thesis using assms by (auto simp: scramble_def Let_def)
next
  case False
  let ?d = "nat (dMax (dn_base net))" and ?m = "nat (mMax (dn_base net))"
  have c: "gm_cols (generatingMatrices net) = c" using assms(2) by (simp add: mat_wf_def)
  have "mat_wf ?d c \<lparr>gm_cols = c, gm_rows = map (\<lambda>i. matmul_base2 (gm_rows sm ! i)
      (take ?m (gm_rows (generatingMatrices net) ! i)) @ replicate (c - ?m) 0) [0..<?d]\<rparr>"
    if "?m \<le> c" for sm
    using that assms(2) by (auto simp: mat_wf_def)
  then show ?thesis
    using assms False by (auto simp: scramble_def Let_def result_simps c split: if_splits)
qed

lemma scramble_fails_iff:
  assumes "0 < tMax net" "1 \<le> dMax (dn_base net)"
  shows "(\<exists>net'. scramble rng seed net = Inr net') \<longleftrightarrow>
    seed < 0 \<or> tScramble net \<le> 64 \<and> nat (mMax (dn_base net)) \<le> gm_cols (generatingMatrices net)"
  using assms
  by (auto simp: scramble_def get_linear_scrambling_matrices_def Let_def not_le)

lemma scramble_wf:
  assumes "net_wf net" "scramble rng seed net = Inr net'"
  shows "net_wf net'"
  using scramble_keeps [OF assms(2), of "nat (mMax (dn_base net))"] assms(1)
  by (simp add: net_wf_def)

lemma digital_shift_wf: "net_wf net \<Longrightarrow> net_wf (digital_shift rng seed net)"
  by (simp add: net_wf_def)

lemma randomize_ok:
  assumes "net_wf net" "tScramble net \<le> 64"
  shows "\<exists>net'. randomize rng seed1 seed2 net = Inr net' \<and> net_wf net' \<and>
    dn_base net' = dn_base net \<and> ordering net' = ordering net"
proof -
  let ?n = "digital_shift rng seed1 net"
  have wf: "net_wf ?n" using assms(1) by (rule digital_shift_wf)
  then have "\<exists>net'. scramble rng seed2 ?n = Inr net'"
    using assms by (subst scramble_fails_iff) (auto simp: net_wf_def mat_wf_def)
  then obtain net' where s: "scramble rng seed2 ?n = Inr net'" by blast
  then have "dn_base net' = dn_base ?n \<and> ordering net' = ordering ?n"
    using scramble_keeps [OF s, of "nat (mMax (dn_base net))"] wf by (simp add: net_wf_def)
  then show ?thesis using s scramble_wf [OF wf s] by (simp add: randomize_def)
qed

section \<open>The linear scramble\<close>

text \<open>Column \<open>k\<close> of a scrambling matrix has a unit diagonal and nothing above it.\<close>

lemma bit_scramble_entry:
  assumes "k < tS" "tS \<le> 64"
  shows "bit (scramble_entry r tS k) i \<longleftrightarrow> k \<le> i \<and> i < tS \<and> (i = k \<or> bit r (i - k))"
proof -
  have "(push_bit (tS - k - 1) 1 - 1) OR push_bit (tS - k - 1) 1 = (mask (tS - k) :: uint64)"
  proof -
    have "push_bit n 1 - 1 = (mask n :: uint64)" for n
      by (simp add: mask_eq_exp_minus_1 push_bit_eq_mult)
    then have "(push_bit (tS - k - 1) 1 - 1) OR push_bit (tS - k - 1) 1 =
        (mask (tS - k - 1) OR push_bit (tS - k - 1) 1 :: uint64)"
      by simp
    also have "\<dots> = mask (tS - k)"
      using assms by (intro bit_word_eqI) (auto simp: bit_simps)
    finally show ?thesis .
  qed
  then have "scramble_entry r tS k = push_bit k ((r AND mask (tS - k)) OR 1)"
    by (simp add: scramble_entry_def)
  then show ?thesis using assms by (auto simp: bit_simps)
qed

text \<open>Multiplying by a unit lower triangular matrix keeps the first non-zero digit of a column.\<close>

lemma scramble_first_digit:
  assumes S: "\<And>i n. i < length S \<Longrightarrow> n < i \<Longrightarrow> \<not> bit (S ! i) n"
    and D: "\<And>i. i < length S \<Longrightarrow> bit (S ! i) i"
    and k: "k < length B" and c: "c < length S" "bit (B ! k) c" "\<And>i. i < c \<Longrightarrow> \<not> bit (B ! k) i"
  shows "bit (matmul_base2 S B ! k) c" and "n < c \<Longrightarrow> \<not> bit (matmul_base2 S B ! k) n"
proof -
  have "{i. i < length S \<and> bit (B ! k) i \<and> bit (S ! i) c} = {c}"
    using S D c by (auto) (metis linorder_neqE_nat)
  then show "bit (matmul_base2 S B ! k) c" by (simp add: bit_matmul_base2 [OF k])
next
  assume n: "n < c"
  have "{i. i < length S \<and> bit (B ! k) i \<and> bit (S ! i) n} = {}"
    using S c n by (auto) (metis linorder_neqE_nat less_trans)
  then have "card {i. i < length S \<and> bit (B ! k) i \<and> bit (S ! i) n} = 0" by (simp only: card.empty)
  then show "\<not> bit (matmul_base2 S B ! k) n"
    by (simp only: bit_matmul_base2 [OF k] even_zero simp_thms)
qed

section \<open>Construction\<close>

lemma DigitalNet_result_wf:
  assumes gm: "mat_wf (length (gm_rows gm)) (gm_cols gm) gm"
    and net: "DigitalNet rng gm m t ts sh sc seed ord msb = Inr net"
  shows "net_wf net" and "ordering net = ord" and "mMax (dn_base net) = m"
    and "dMax (dn_base net) = int (length (gm_rows gm))" and "tScramble net = ts"
    and "tMax net = t"
proof -
  define net1 where "net1 = \<lparr>dn_base = \<lparr>mMax = m, dMax = int (length (gm_rows gm)), seedValue = seed\<rparr>,
    generatingMatrices = (if msb
      then gm\<lparr>gm_rows := map (map (\<lambda>v. bitreverse v (nat t))) (gm_rows gm)\<rparr> else gm),
    scrambledGeneratingMatrices = \<lparr>gm_cols = 0, gm_rows = []\<rparr>,
    tMax = t, tScramble = ts, digitalShiftFlag = sh, scramblingFlag = sc, digitalShift = [],
    ordering = ord, mostSignificantBitFirst = msb\<rparr>"
  define net2 where "net2 = digital_shift rng (if sh then seed else -1) net1"
  have g: "1 \<le> m" "gm_rows gm \<noteq> []" "t \<le> ts" "0 < t"
    and s: "scramble rng (if sc then seed else -1) net2 = Inr net"
    and c: "int (gm_cols (scrambledGeneratingMatrices net)) = m"
    using net
    by (auto simp: DigitalNet_def Let_def result_simps LowDiscrepancySequence_ok_iff
        net1_def net2_def not_le split: if_splits)
  have m2: "mat_wf (length (gm_rows gm)) (gm_cols gm) (generatingMatrices net2)"
    using gm by (simp add: net2_def net1_def mat_wf_map_map)
  have k: "dn_base net = dn_base net1 \<and> generatingMatrices net = generatingMatrices net2 \<and>
      tMax net = t \<and> tScramble net = ts \<and> ordering net = ord \<and>
      digitalShift net = digitalShift net2 \<and>
      mat_wf (length (gm_rows gm)) (gm_cols gm) (scrambledGeneratingMatrices net)"
    using scramble_keeps [OF s, of "gm_cols gm"] m2 by (simp add: net2_def net1_def)
  then show "ordering net = ord" "mMax (dn_base net) = m" "tScramble net = ts" "tMax net = t"
      "dMax (dn_base net) = int (length (gm_rows gm))"
    by (simp_all add: net1_def)
  have cm: "int (gm_cols gm) = m" using k c by (simp add: mat_wf_def)
  have l: "length (digitalShift net2) = length (gm_rows gm)" by (simp add: net2_def net1_def)
  show "net_wf net"
    using k g cm m2 l by (auto simp: net_wf_def net1_def Suc_le_eq)
qed

lemma DigitalNet_succeeds_iff:
  "(\<exists>net. DigitalNet rng gm m t ts sh sc seed ord msb = Inr net) \<longleftrightarrow>
    gm_rows gm \<noteq> [] \<and> 1 \<le> m \<and> 0 \<le> seed \<and> 0 < t \<and> t \<le> ts \<and> m = int (gm_cols gm) \<and>
    (sc \<longrightarrow> ts \<le> 64)"
  by (auto simp: DigitalNet_def Let_def result_simps LowDiscrepancySequence_ok_iff Suc_le_eq
      scramble_def get_linear_scrambling_matrices_def digital_shift_def
      bitreverse_generating_matrices_def not_le split: if_splits)

text \<open>Digital nets in Gray code order meet the contract of a low-discrepancy sequence.\<close>

lemma net_point_bound: "net_point net v j \<le> 2 ^ 64"
proof -
  let ?w = "net_raw net j (of_nat v) XOR digitalShift net ! j"
  have "unat ?w < 2 ^ 64" using unsigned_less [of ?w, where 'a = nat] by simp
  then show ?thesis unfolding net_point_def by (intro round53_le) auto
qed

interpretation gnet: low_discrepancy_sequence dn_base dn_unsafe_get_points gray_point gray_net
proof unfold_locales
  fix s nMin nMax p
  assume "gray_net s" "nMin \<le> nMax" "nMax \<le> 2 ^ nat (mMax (dn_base s))"
    "int (pt_rows p) \<le> dMax (dn_base s)" "length (pt_cols p) = nMax - nMin"
    "length (pt_cols p) < 2 ^ 31" "points_wf p"
  then show "dn_unsafe_get_points s nMin nMax p = Inr (fill_points (gray_point s) nMin nMax p)"
    by (intro dn_unsafe_gray) (simp_all add: gray_net_def)
next
  fix s k j
  show "gray_point s k j \<le> 2 ^ 64" by (simp only: gray_point_def net_point_bound)
next
  fix s
  assume "gray_net s"
  then show "0 \<le> mMax (dn_base s) \<and> mMax (dn_base s) < 64" by (simp add: gray_net_def net_wf_def)
qed

text \<open>The largest integers round up to the next power of two.\<close>

lemma nat_bits_64: "2 ^ 63 \<le> n \<Longrightarrow> n < 2 ^ 64 \<Longrightarrow> nat_bits n = 64"
  using nat_bits_le_iff [of n 63] nat_bits_le_iff [of n 64] by auto

lemma round53_top:
  assumes "n < 2 ^ 64"
  shows "round53 n = 2 ^ 64 \<longleftrightarrow> 2 ^ 64 - 1024 \<le> n"
proof (cases "n < 2 ^ 63")
  case True
  then have "round53 n \<le> 2 ^ 63" by (intro round53_le) auto
  then show ?thesis using True by auto
next
  case False
  define q r where "q = n div 2048" and "r = n mod 2048"
  have n: "n = q * 2048 + r" unfolding q_def r_def by (rule div_mult_mod_eq [symmetric])
  have r: "r < 2048" by (simp add: r_def)
  have "round53 n = (if r > 1024 \<or> (r = 1024 \<and> odd q) then (q + 1) * 2048 else q * 2048)"
    using False assms by (simp add: round53_def nat_bits_64 Let_def q_def r_def)
  moreover have "q < 2 ^ 53" using assms n by simp
  moreover have "odd q" if "q = 2 ^ 53 - 1" using that by simp
  ultimately show ?thesis using n r by (auto split: if_splits)
qed

lemma example_DigitalNet_ok:
  obtains net where "example_DigitalNet ord = Inr net"
proof -
  have "\<exists>net. example_DigitalNet ord = Inr net"
    by (simp add: example_DigitalNet_def DigitalNet_succeeds_iff example_matrices_def)
  then show thesis using that by blast
qed

lemma example_matrices_wf: "mat_wf (length (gm_rows example_matrices)) (gm_cols example_matrices)
    example_matrices"
  by (simp add: mat_wf_def example_matrices_def)

lemma example_net_facts:
  assumes "example_DigitalNet ord = Inr net"
  shows "net_wf net" "ordering net = ord" "mMax (dn_base net) = 2" "dMax (dn_base net) = 2"
    "tScramble net = 64" "tMax net = 2"
  using DigitalNet_result_wf [OF example_matrices_wf assms [unfolded example_DigitalNet_def]]
  by (simp_all add: example_matrices_def)

text \<open>An entry of a scrambled matrix.\<close>

lemma scrambled_entry:
  assumes "net_wf net" "scramble rng seed net = Inr net'" "0 \<le> seed"
    and d: "d < nat (dMax (dn_base net))" and k: "k < nat (mMax (dn_base net))"
  defines "S \<equiv> map (\<lambda>i. scramble_entry (rng seed (d * nat (tMax net) + i)) (nat (tScramble net)) i)
      [0..<nat (tMax net)]"
  shows "gm_rows (scrambledGeneratingMatrices net') ! d ! k =
      bitreverse64 (matmul_base2 S (gm_rows (generatingMatrices net) ! d) ! k)"
    and "nat (tScramble net) \<le> 64"
proof -
  let ?g = "generatingMatrices net" and ?m = "nat (mMax (dn_base net))"
  have g: "gm_cols ?g = ?m" "length (gm_rows ?g ! d) = ?m" "0 < nat (tMax net)"
    using assms(1) d by (auto simp: net_wf_def mat_wf_def)
  then show "nat (tScramble net) \<le> 64"
    using assms(2,3) d
    by (auto simp: scramble_def get_linear_scrambling_matrices_def Let_def split: if_splits)
  have "gm_rows (scrambledGeneratingMatrices net') ! d =
      map bitreverse64 (matmul_base2 S (take ?m (gm_rows ?g ! d)) @ replicate (gm_cols ?g - ?m) 0)"
    using assms(2,3) d g
    by (auto simp: scramble_def get_linear_scrambling_matrices_def Let_def S_def
        bitreverse_generating_matrices_def result_simps split: if_splits)
  then show "gm_rows (scrambledGeneratingMatrices net') ! d ! k =
      bitreverse64 (matmul_base2 S (gm_rows ?g ! d) ! k)"
    using g k by (simp add: nth_append)
qed

section \<open>Properties\<close>

text \<open>C26: Construction of a digital net succeeds exactly when the generating matrices have a
  row, the seed is not negative, \<open>0 < t_max \<le> t_scramble\<close>, \<open>m_max\<close> is positive and equal to
  the number of columns and, when scrambling is on, \<open>t_scramble\<close> fits the 64-bit words; and the
  object it then returns is well formed (matrices of \<open>dMax\<close> rows and \<open>mMax\<close> columns, a shift for
  every dimension), whatever the random numbers are.\<close>

theorem DigitalNet_establishes_wf:
  assumes "mat_wf (length (gm_rows gm)) (gm_cols gm) gm"
  shows "case DigitalNet rng gm m t ts sh sc seed ord msb of
      Inr net \<Rightarrow> net_wf net \<and> ordering net = ord \<and> mMax (dn_base net) = m \<and>
        gm_rows gm \<noteq> [] \<and> 0 \<le> seed \<and> t \<le> ts \<and> m = int (gm_cols gm) \<and> (sc \<longrightarrow> ts \<le> 64)
    | Inl e \<Rightarrow> \<not> (gm_rows gm \<noteq> [] \<and> 1 \<le> m \<and> 0 \<le> seed \<and> 0 < t \<and> t \<le> ts \<and>
        m = int (gm_cols gm) \<and> (sc \<longrightarrow> ts \<le> 64))"
proof (cases "DigitalNet rng gm m t ts sh sc seed ord msb")
  case (Inl e)
  then show ?thesis
    using DigitalNet_succeeds_iff [of rng gm m t ts sh sc seed ord msb] by auto
next
  case (Inr net)
  then show ?thesis
    using DigitalNet_succeeds_iff [of rng gm m t ts sh sc seed ord msb]
      DigitalNet_result_wf [OF assms Inr] by auto
qed

theorem DigitalNet_establishes_wf_witness:
  "\<exists>net. DigitalNet example_rng example_matrices 2 2 64 True True 7
      DIGITAL_NET_GRAY_CODE_ORDERING False = Inr net \<and> net_wf net"
proof -
  obtain net where n: "DigitalNet example_rng example_matrices 2 2 64 True True 7
      DIGITAL_NET_GRAY_CODE_ORDERING False = Inr net"
    by (rule example_DigitalNet_ok [unfolded example_DigitalNet_def])
  have "net_wf net"
    using DigitalNet_establishes_wf [OF example_matrices_wf, where rng = example_rng and m = 2
        and t = 2 and ts = 64 and sh = True and sc = True and seed = 7
        and ord = DIGITAL_NET_GRAY_CODE_ORDERING and msb = False, unfolded n]
    by simp
  then show ?thesis using n by blast
qed

text \<open>C21: The iterative construction is correct.  For a net in Gray code order,
  \<^verbatim>\<open>get_points(nMin, nMax)\<close> fills column \<open>i\<close> with the point whose coordinate \<open>j\<close> is the product
  over the two-element field of generating matrix \<open>j\<close> with the binary digits of the Gray code of
  \<open>nMin + i\<close>, XORed with the digital shift, for all ranges up to \<open>2 ^ mMax\<close>, although the code
  computes one XOR per dimension and index only.\<close>

theorem net_points_gray:
  assumes "DigitalNet rng gm m t ts sh sc seed DIGITAL_NET_GRAY_CODE_ORDERING msb = Inr net"
    and "mat_wf (length (gm_rows gm)) (gm_cols gm) gm" and "m \<le> 32"
    and "a \<le> b" and "b \<le> 2 ^ nat m" and "r \<le> length (gm_rows gm)"
    and "length cols = b - a" and "length cols < 2 ^ 31" and "\<forall>c \<in> set cols. length c = r"
  shows "get_points dn_base dn_unsafe_get_points net a b \<lparr>pt_rows = r, pt_cols = cols\<rparr> =
    Inr \<lparr>pt_rows = r, pt_cols = map (\<lambda>k. map (\<lambda>j. round53 (unat
      (net_raw net j (binary2gray (of_nat k)) XOR digitalShift net ! j))) [0..<r]) [a..<b]\<rparr>"
proof -
  have "gray_net net" using DigitalNet_result_wf [OF assms(2,1)] assms(3) by (simp add: gray_net_def)
  then have "get_points dn_base dn_unsafe_get_points net a b \<lparr>pt_rows = r, pt_cols = cols\<rparr> =
      Inr (fill_points (gray_point net) a b \<lparr>pt_rows = r, pt_cols = cols\<rparr>)"
    using assms DigitalNet_result_wf [OF assms(2,1)]
    by (intro gnet.get_points_fills) (simp_all add: points_wf_def)
  then show ?thesis by (simp add: fill_points_def gray_point_def [abs_def] net_point_def gray_nat_def)
qed

theorem net_points_gray_witness:
  "\<exists>net cols. example_DigitalNet DIGITAL_NET_GRAY_CODE_ORDERING = Inr net \<and>
    get_points dn_base dn_unsafe_get_points net 1 3 \<lparr>pt_rows = 2, pt_cols = [[0, 0], [0, 0]]\<rparr> =
      Inr \<lparr>pt_rows = 2, pt_cols = cols\<rparr> \<and> length cols = 2"
proof -
  obtain net where n: "example_DigitalNet DIGITAL_NET_GRAY_CODE_ORDERING = Inr net"
    by (rule example_DigitalNet_ok)
  show ?thesis
    using net_points_gray [OF n [unfolded example_DigitalNet_def] example_matrices_wf, of 1 3 2
        "[[0, 0], [0, 0]]"] n
    by (simp add: example_matrices_def)
qed

text \<open>C25: In natural order, the first \<open>2 ^ m\<close> points arrive sorted: column \<open>i\<close> holds the net
  point with index \<open>i\<close>, because the Gray code permutes the indices below \<open>2 ^ m\<close>.\<close>

theorem net_points_natural:
  assumes "DigitalNet rng gm mm t ts sh sc seed DIGITAL_NET_NATURAL_ORDERING msb = Inr net"
    and "mat_wf (length (gm_rows gm)) (gm_cols gm) gm" and "mm \<le> 32"
    and "int m \<le> mm" and "m < 31" and "0 < r" and "r \<le> length (gm_rows gm)"
    and "length cols = 2 ^ m"
  shows "get_points dn_base dn_unsafe_get_points net 0 (2 ^ m) \<lparr>pt_rows = r, pt_cols = cols\<rparr> =
    Inr \<lparr>pt_rows = r, pt_cols = map (\<lambda>i. map (net_point net i) [0..<r]) [0..<2 ^ m]\<rparr>"
proof -
  note w = DigitalNet_result_wf [OF assms(2,1)]
  have "(2::nat) ^ m \<le> 2 ^ 31" using assms(5) by (intro power_increasing) auto
  moreover have "(2::nat) ^ m \<le> 2 ^ nat mm" using assms(4) by (intro power_increasing) auto
  ultimately have "check_sizes (dn_base net) 0 (2 ^ m) \<lparr>pt_rows = r, pt_cols = cols\<rparr> = Inr ()"
    using assms w by (subst check_sizes_ok_iff) (auto simp: net_wf_def)
  moreover have "dn_unsafe_get_points net 0 (2 ^ m) \<lparr>pt_rows = r, pt_cols = cols\<rparr> =
      Inr (fill_points (net_point net) 0 (2 ^ m) \<lparr>pt_rows = r, pt_cols = cols\<rparr>)"
    using assms w by (intro dn_unsafe_natural) simp_all
  ultimately show ?thesis by (simp add: get_points_def fill_points_def)
qed

theorem net_points_natural_witness:
  "\<exists>net cols. example_DigitalNet DIGITAL_NET_NATURAL_ORDERING = Inr net \<and>
    get_points dn_base dn_unsafe_get_points net 0 2 \<lparr>pt_rows = 2, pt_cols = [[0, 0], [0, 0]]\<rparr> =
      Inr \<lparr>pt_rows = 2, pt_cols = cols\<rparr> \<and> length cols = 2"
proof -
  obtain net where n: "example_DigitalNet DIGITAL_NET_NATURAL_ORDERING = Inr net"
    by (rule example_DigitalNet_ok)
  show ?thesis
    using net_points_natural [OF n [unfolded example_DigitalNet_def] example_matrices_wf, of 1 2
        "[[0, 0], [0, 0]]"] n
    by (simp add: example_matrices_def)
qed

text \<open>Refinement in Gray code order is consistent: asking for the points \<open>a\<close> to \<open>b\<close> and then
  \<open>b\<close> to \<open>c\<close> yields the columns of the single request from \<open>a\<close> to \<open>c\<close>.\<close>

theorem net_refinement_consistent:
  assumes "net_wf net" "mMax (dn_base net) \<le> 32"
    "ordering net = DIGITAL_NET_GRAY_CODE_ORDERING"
    "a \<le> b" "b \<le> c" "c \<le> 2 ^ nat (mMax (dn_base net))" "int r \<le> dMax (dn_base net)"
    "length xs = b - a" "length ys = c - b" "length zs = c - a" "c - a < 2 ^ 31"
    "\<forall>x \<in> set (xs @ ys @ zs). length x = r"
  shows "\<exists>us vs.
    get_points dn_base dn_unsafe_get_points net a b \<lparr>pt_rows = r, pt_cols = xs\<rparr> =
      Inr \<lparr>pt_rows = r, pt_cols = us\<rparr> \<and>
    get_points dn_base dn_unsafe_get_points net b c \<lparr>pt_rows = r, pt_cols = ys\<rparr> =
      Inr \<lparr>pt_rows = r, pt_cols = vs\<rparr> \<and>
    get_points dn_base dn_unsafe_get_points net a c \<lparr>pt_rows = r, pt_cols = zs\<rparr> =
      Inr \<lparr>pt_rows = r, pt_cols = us @ vs\<rparr>"
  using assms by (intro gnet.get_points_extends) (simp_all add: gray_net_def)

theorem net_refinement_consistent_witness:
  "\<exists>net us vs. example_DigitalNet DIGITAL_NET_GRAY_CODE_ORDERING = Inr net \<and>
    get_points dn_base dn_unsafe_get_points net 0 1 \<lparr>pt_rows = 2, pt_cols = [[0, 0]]\<rparr> =
      Inr \<lparr>pt_rows = 2, pt_cols = us\<rparr> \<and>
    get_points dn_base dn_unsafe_get_points net 1 3 \<lparr>pt_rows = 2, pt_cols = [[0, 0], [0, 0]]\<rparr> =
      Inr \<lparr>pt_rows = 2, pt_cols = vs\<rparr> \<and>
    get_points dn_base dn_unsafe_get_points net 0 3
        \<lparr>pt_rows = 2, pt_cols = [[0, 0], [0, 0], [0, 0]]\<rparr> =
      Inr \<lparr>pt_rows = 2, pt_cols = us @ vs\<rparr>"
proof -
  obtain net where n: "example_DigitalNet DIGITAL_NET_GRAY_CODE_ORDERING = Inr net"
    by (rule example_DigitalNet_ok)
  note w = example_net_facts [OF n]
  show ?thesis
    using net_refinement_consistent [of net 0 1 3 2 "[[0, 0]]" "[[0, 0], [0, 0]]"
        "[[0, 0], [0, 0], [0, 0]]"] n w
    by (simp add: example_matrices_def)
qed

text \<open>\<^verbatim>\<open>randomize\<close> on a well-formed net whose \<open>tScramble\<close> fits the word width never fails,
  keeps the net well formed and changes neither its size limits nor its ordering.\<close>

theorem randomize_total:
  assumes "net_wf net" "tScramble net \<le> 64"
  shows "\<exists>net'. randomize rng seed1 seed2 net = Inr net' \<and> net_wf net' \<and>
    dn_base net' = dn_base net \<and> ordering net' = ordering net"
  using assms by (rule randomize_ok)

theorem randomize_total_witness:
  "\<exists>net net'. example_DigitalNet DIGITAL_NET_GRAY_CODE_ORDERING = Inr net \<and>
    randomize example_rng 3 4 net = Inr net' \<and> net_wf net'"
proof -
  obtain net where n: "example_DigitalNet DIGITAL_NET_GRAY_CODE_ORDERING = Inr net"
    by (rule example_DigitalNet_ok)
  show ?thesis
    using randomize_total [of net example_rng 3 4] n example_net_facts [OF n]
    by auto
qed

text \<open>The linear matrix scramble keeps the first non-zero digit: if digit \<open>c < tMax\<close> is the
  first one set in column \<open>k\<close> of generating matrix \<open>d\<close>, it is also the first one set in the
  scrambled column, where the bits are stored in reversed order.  In particular a scrambled
  column is never 0.\<close>

theorem scramble_keeps_first_digit:
  assumes "net_wf net" "scramble rng seed net = Inr net'" "0 \<le> seed"
    and "d < nat (dMax (dn_base net))" "k < nat (mMax (dn_base net))" "c < nat (tMax net)"
    and "bit (gm_rows (generatingMatrices net) ! d ! k) c"
    and "\<forall>i < c. \<not> bit (gm_rows (generatingMatrices net) ! d ! k) i"
  shows "bit (gm_rows (scrambledGeneratingMatrices net') ! d ! k) (63 - c) \<and>
    (\<forall>i < c. \<not> bit (gm_rows (scrambledGeneratingMatrices net') ! d ! k) (63 - i))"
proof -
  define S where "S = map (\<lambda>i. scramble_entry (rng seed (d * nat (tMax net) + i))
      (nat (tScramble net)) i) [0..<nat (tMax net)]"
  note e = scrambled_entry [OF assms(1-5), folded S_def]
  have t: "nat (tMax net) \<le> nat (tScramble net)" using assms(1) by (auto simp: net_wf_def)
  have c64: "c < 64" using assms(6) t e(2) by simp
  have kB: "k < length (gm_rows (generatingMatrices net) ! d)"
    using assms(1,4,5) by (auto simp: net_wf_def mat_wf_def)
  have S: "\<And>i n. i < length S \<Longrightarrow> n < i \<Longrightarrow> \<not> bit (S ! i) n"
    and D: "\<And>i. i < length S \<Longrightarrow> bit (S ! i) i"
    using t e(2) by (auto simp: S_def bit_scramble_entry)
  have c: "c < length S" using assms(6) by (simp add: S_def)
  note f = scramble_first_digit [OF S D kB c assms(7)]
  show ?thesis unfolding e(1) bit_bitreverse64 using f assms(8) c64 by auto
qed

theorem scramble_keeps_first_digit_witness:
  "\<exists>net net'. example_DigitalNet DIGITAL_NET_GRAY_CODE_ORDERING = Inr net \<and>
    scramble example_rng 5 net = Inr net' \<and>
    bit (gm_rows (scrambledGeneratingMatrices net') ! 1 ! 1) 63"
proof -
  obtain net where n: "example_DigitalNet DIGITAL_NET_GRAY_CODE_ORDERING = Inr net"
    by (rule example_DigitalNet_ok)
  note w = example_net_facts [OF n]
  obtain net' where s: "scramble example_rng 5 net = Inr net'"
    using scramble_fails_iff [of net example_rng 5] w by (auto simp: net_wf_def mat_wf_def)
  have "generatingMatrices net = example_matrices"
    using n by (auto simp: example_DigitalNet_def DigitalNet_def Let_def result_simps scramble_def
        digital_shift_def LowDiscrepancySequence_ok_iff example_matrices_def split: if_splits)
  then show ?thesis
    using scramble_keeps_first_digit [of net example_rng 5 net' 1 1 0] n s w
    by (auto simp: example_matrices_def)
qed

text \<open>Natural ordering does not support refinement by a block that is not aligned: after 8
  points, the request for points 8 to 11 passes every check of the code and then writes
  columns 4 to 7 of a matrix with 4 columns.\<close>

theorem net_natural_refinement_out_of_bounds:
  assumes "net_wf net" "4 \<le> mMax (dn_base net)" "mMax (dn_base net) \<le> 32"
    "ordering net = DIGITAL_NET_NATURAL_ORDERING" "0 < r" "int r \<le> dMax (dn_base net)"
    "length cols = 4"
  shows "get_points dn_base dn_unsafe_get_points net 8 12 \<lparr>pt_rows = r, pt_cols = cols\<rparr> =
    Inl (UndefinedBehaviour ''matrix write'')"
proof -
  let ?p = "\<lparr>pt_rows = r, pt_cols = cols\<rparr>"
  have "(2::nat) ^ 4 \<le> 2 ^ nat (mMax (dn_base net))" using assms(2) by (intro power_increasing) auto
  then have b: "(12::nat) \<le> 2 ^ nat (mMax (dn_base net))" by simp
  have ok: "check_sizes (dn_base net) 8 12 ?p = Inr ()"
    using assms b by (subst check_sizes_ok_iff) auto
  have pre: "rfold (dn_next net) [0..<8] (replicate r 0) = Inr (net_cur net r 8)"
    using b by (intro rfold_dn_next assms) simp
  have nx: "dn_next net 8 (net_cur net r 8) = Inr (net_cur net r (Suc 8))"
    using b by (intro dn_next_net_cur assms) simp
  have ne: "net_cur net r (Suc 8) \<noteq> []"
    using assms(5) by (metis length_net_cur list.size(3) less_irrefl)
  have "sint (ucast (reorder (ordering net) (of_nat 8) - of_nat 8) :: uint32) = 4"
    by (simp add: assms(4) reorder_natural_def binary2gray_def)
  then have "dn_point_step net 8 8 (net_cur net r 8, cols) = Inl (UndefinedBehaviour ''matrix write'')"
    using ne assms(7) unfolding dn_point_step_def by (simp add: nx Let_def)
  then have "rfold (dn_point_step net 8) [8..<12] (net_cur net r 8, cols) =
      Inl (UndefinedBehaviour ''matrix write'')"
    by (subst upt_conv_Cons) simp_all
  moreover have "ispow2 (of_nat (length cols))" by (simp add: assms(7) ispow2_def)
  ultimately show ?thesis by (simp add: get_points_def ok dn_unsafe_get_points_def pre)
qed

theorem net_natural_refinement_out_of_bounds_witness:
  "\<exists>net. DigitalNet example_rng \<lparr>gm_cols = 4, gm_rows = [[1, 2, 4, 8]]\<rparr> 4 4 64 True True 7
      DIGITAL_NET_NATURAL_ORDERING False = Inr net \<and>
    get_points dn_base dn_unsafe_get_points net 8 12
      \<lparr>pt_rows = 1, pt_cols = [[0], [0], [0], [0]]\<rparr> = Inl (UndefinedBehaviour ''matrix write'')"
proof -
  let ?gm = "\<lparr>gm_cols = 4, gm_rows = [[1, 2, 4, 8]]\<rparr>"
  have wf: "mat_wf (length (gm_rows ?gm)) (gm_cols ?gm) ?gm" by (simp add: mat_wf_def)
  obtain net where n: "DigitalNet example_rng ?gm 4 4 64 True True 7
      DIGITAL_NET_NATURAL_ORDERING False = Inr net"
    using DigitalNet_succeeds_iff [of example_rng ?gm 4 4 64 True True 7
        DIGITAL_NET_NATURAL_ORDERING False] by auto
  note w = DigitalNet_result_wf [OF wf n]
  show ?thesis
    using net_natural_refinement_out_of_bounds [of net 1 "[[0], [0], [0], [0]]"] n w by simp
qed

text \<open>Coordinates never exceed 1, and the value 1 itself is produced exactly when the
  shifted 64-bit integer is among the 1024 largest: its conversion to a double rounds up, so
  points lie in the closed unit interval only.\<close>

theorem net_coordinate_range:
  "net_point net v j \<le> 2 ^ 64 \<and>
    (net_point net v j = 2 ^ 64 \<longleftrightarrow>
      2 ^ 64 - 1024 \<le> unat (net_raw net j (of_nat v) XOR digitalShift net ! j))"
proof -
  let ?w = "net_raw net j (of_nat v) XOR digitalShift net ! j"
  have "unat ?w < 2 ^ 64" using unsigned_less [of ?w, where 'a = nat] by simp
  then show ?thesis using round53_top net_point_bound [of net v j] by (simp add: net_point_def)
qed

end
