(* ===== verification/Rank1_Lattice.thy ===== *)
theory Rank1_Lattice
  imports Low_Discrepancy "HOL-Library.Multiset"
begin

text \<open>
  Rank-1 lattice rules (\<^verbatim>\<open>src/Rank1Lattice.cpp\<close>, \<^verbatim>\<open>src/Rank1Lattice.hpp\<close>): how the generating
  vector is obtained, the constructors, the random shift and the generation of points in natural
  and in radical inverse order.  The uniform random numbers in \<open>[0, 1)\<close> and the two predefined
  vectors of \<^verbatim>\<open>low_discrepancy_data.hpp\<close> are parameters; a random number is given in units of
  \<open>2 ^ -64\<close> (the generator delivers multiples of \<open>2 ^ -32\<close>).
\<close>

unbundle bit_operations_syntax

section \<open>Data\<close>

datatype lattice_ordering =
  RANK_1_LATTICE_NATURAL_ORDERING | RANK_1_LATTICE_RADICAL_INVERSE_ORDERING

text \<open>The field \<open>scale_log\<close> stands for \<^verbatim>\<open>scale\<close>, which is always \<open>2 ^ - scale_log\<close>.\<close>

record rank1_lattice =
  r1_base :: lds
  generatingVector :: "uint32 list"
  randomShiftFlag :: bool
  randomShift :: "nat list"
  r1_ordering :: lattice_ordering
  scale_log :: nat

type_synonym unit_rng = "int \<Rightarrow> nat \<Rightarrow> nat"

section \<open>Generating vectors from the method specification\<close>

definition get_generating_vector_from_file ::
  "files \<Rightarrow> method_db \<Rightarrow> (uint32 list \<times> int) result" where
  "get_generating_vector_from_file fs db =
    rbind (rfold (\<lambda>line v. case stoull line of
                    None \<Rightarrow> Inl (Abort METHOD_ERROR)
                  | Some x \<Rightarrow> Inr (v @ [ucast x]))
             (file_lines fs (db_file db)) [])
      (\<lambda>v. Inr (v, db_m_max db))"

definition get_inline_generating_vector :: "method_db \<Rightarrow> (uint32 list \<times> int) result" where
  "get_inline_generating_vector db = Inr (map of_int (db_inline db), db_m_max db)"

definition get_default_generating_vector ::
  "uint32 list \<Rightarrow> uint32 list \<Rightarrow> method_db \<Rightarrow> (uint32 list \<times> int) result" where
  "get_default_generating_vector kuo_d3600_m20 cools_kuo_nuyens_d250_m20 db =
    (if db_alternative db then Inr (kuo_d3600_m20, 20) else Inr (cools_kuo_nuyens_d250_m20, 20))"

definition lattice_get_data ::
  "files \<Rightarrow> uint32 list \<Rightarrow> uint32 list \<Rightarrow> method_db \<Rightarrow> (uint32 list \<times> int) result" where
  "lattice_get_data fs kuo cools_kuo_nuyens db =
    (if db_file db \<noteq> [] then get_generating_vector_from_file fs db
     else if length (db_inline db) > 0 then get_inline_generating_vector db
     else if db_m_max db \<noteq> 0 then Inl (Abort METHOD_ERROR)
     else get_default_generating_vector kuo cools_kuo_nuyens db)"

section \<open>Construction and randomization\<close>

definition random_shift :: "unit_rng \<Rightarrow> int \<Rightarrow> rank1_lattice \<Rightarrow> rank1_lattice" where
  "random_shift rng seed lat =
    (let d = nat (dMax (r1_base lat)) in
     lat\<lparr>randomShift := (if seed < 0 then replicate d 0 else map (rng seed) [0..<d])\<rparr>)"

definition lattice_randomize :: "unit_rng \<Rightarrow> int \<Rightarrow> rank1_lattice \<Rightarrow> rank1_lattice" where
  "lattice_randomize rng sysseed lat = random_shift rng sysseed lat"

definition no_random_shift :: "unit_rng \<Rightarrow> rank1_lattice \<Rightarrow> rank1_lattice" where
  "no_random_shift rng lat = random_shift rng (-1) lat"

text \<open>\<^verbatim>\<open>1 << mMax\<close> is an \<^verbatim>\<open>int\<close>: from 31 on it leaves the range of the type.\<close>

definition Rank1Lattice ::
  "unit_rng \<Rightarrow> uint32 list \<Rightarrow> int \<Rightarrow> bool \<Rightarrow> int \<Rightarrow> lattice_ordering \<Rightarrow> rank1_lattice result" where
  "Rank1Lattice rng gv m shiftFlag seed ord =
    rbind (LowDiscrepancySequence m (int (length gv)) seed) (\<lambda>b.
      let lat = random_shift rng (if shiftFlag then seed else -1)
            \<lparr>r1_base = b, generatingVector = gv, randomShiftFlag = shiftFlag, randomShift = [],
             r1_ordering = ord, scale_log = 0\<rparr>
      in case ord of
           RANK_1_LATTICE_NATURAL_ORDERING \<Rightarrow>
             if m \<ge> 31 then Inl (UndefinedBehaviour ''shift'') else Inr (lat\<lparr>scale_log := nat m\<rparr>)
         | RANK_1_LATTICE_RADICAL_INVERSE_ORDERING \<Rightarrow> Inr (lat\<lparr>scale_log := 32\<rparr>))"

definition Rank1Lattice_vector ::
  "unit_rng \<Rightarrow> int \<Rightarrow> uint32 list \<Rightarrow> int \<Rightarrow> rank1_lattice result" where
  "Rank1Lattice_vector rng sysseed gv m =
    Rank1Lattice rng gv m True sysseed RANK_1_LATTICE_RADICAL_INVERSE_ORDERING"

definition Rank1Lattice_seed ::
  "unit_rng \<Rightarrow> uint32 list \<Rightarrow> int \<Rightarrow> rank1_lattice result" where
  "Rank1Lattice_seed rng cools_kuo_nuyens seed =
    Rank1Lattice rng cools_kuo_nuyens 20 True seed RANK_1_LATTICE_RADICAL_INVERSE_ORDERING"

definition Rank1Lattice_default ::
  "unit_rng \<Rightarrow> int \<Rightarrow> uint32 list \<Rightarrow> rank1_lattice result" where
  "Rank1Lattice_default rng sysseed cools_kuo_nuyens =
    Rank1Lattice rng cools_kuo_nuyens 20 True sysseed RANK_1_LATTICE_RADICAL_INVERSE_ORDERING"

definition Rank1Lattice_tuple ::
  "unit_rng \<Rightarrow> int \<Rightarrow> uint32 list \<times> int \<Rightarrow> method_db \<Rightarrow> rank1_lattice result" where
  "Rank1Lattice_tuple rng sysseed data db =
    Rank1Lattice rng (fst data) (snd data) (\<not> db_no_shift db)
      (if db_random_seed db \<noteq> 0 then db_random_seed db else sysseed)
      (if db_natural db then RANK_1_LATTICE_NATURAL_ORDERING
       else RANK_1_LATTICE_RADICAL_INVERSE_ORDERING)"

definition Rank1Lattice_db ::
  "unit_rng \<Rightarrow> int \<Rightarrow> files \<Rightarrow> uint32 list \<Rightarrow> uint32 list \<Rightarrow> method_db \<Rightarrow> rank1_lattice result" where
  "Rank1Lattice_db rng sysseed fs kuo cools_kuo_nuyens db =
    rbind (lattice_get_data fs kuo cools_kuo_nuyens db) (\<lambda>data. Rank1Lattice_tuple rng sysseed data db)"

section \<open>Points\<close>

definition lattice_reorder_natural :: "uint32 \<Rightarrow> uint32" where
  "lattice_reorder_natural k = k"

definition lattice_reorder_radical_inverse :: "uint32 \<Rightarrow> uint32" where
  "lattice_reorder_radical_inverse k = bitreverse32 k"

fun lattice_reorder :: "lattice_ordering \<Rightarrow> uint32 \<Rightarrow> uint32" where
  "lattice_reorder RANK_1_LATTICE_NATURAL_ORDERING k = lattice_reorder_natural k"
| "lattice_reorder RANK_1_LATTICE_RADICAL_INVERSE_ORDERING k = lattice_reorder_radical_inverse k"

text \<open>
  Coordinate \<open>j\<close> of point \<open>k\<close>: the product and the sum are rounded, the multiplication with
  the power of two and the subtraction of the floor are exact.
\<close>

definition lattice_coordinate :: "rank1_lattice \<Rightarrow> uint32 \<Rightarrow> nat \<Rightarrow> nat" where
  "lattice_coordinate lat k j =
    (let phik = unat (lattice_reorder (r1_ordering lat) k) * 2 ^ (64 - scale_log lat);
         point = round53 (round53 (phik * unat (generatingVector lat ! j)) + randomShift lat ! j)
     in point mod 2 ^ 64)"

definition r1_point_step ::
  "rank1_lattice \<Rightarrow> nat \<Rightarrow> nat \<Rightarrow> nat \<Rightarrow> nat list list \<Rightarrow> nat list list result" where
  "r1_point_step lat nMin rows k cols =
    (let col = sint (ucast (of_nat k - of_nat nMin :: uint64) :: uint32) in
     if rows = 0 then Inr cols
     else if rows \<le> length (generatingVector lat) \<and> rows \<le> length (randomShift lat) \<and>
         0 \<le> col \<and> col < int (length cols)
       then Inr (cols[nat col := map (lattice_coordinate lat (of_nat k)) [0..<rows]])
       else Inl (UndefinedBehaviour ''matrix write''))"

text \<open>
  The loop variable is a \<^verbatim>\<open>UInt32\<close>: it starts at \<open>nMin\<close> modulo \<open>2 ^ 32\<close>, and when \<open>nMax\<close> exceeds
  its range the condition \<^verbatim>\<open>k < nMax\<close> never fails; a loop without side effects that does not
  end is undefined.
\<close>

definition r1_unsafe_get_points ::
  "rank1_lattice \<Rightarrow> nat \<Rightarrow> nat \<Rightarrow> points \<Rightarrow> points result" where
  "r1_unsafe_get_points lat nMin nMax p =
    (if nMax \<ge> 2 ^ 32 then Inl (UndefinedBehaviour ''endless loop'')
     else rbind (rfold (r1_point_step lat nMin (pt_rows p)) [nMin mod 2 ^ 32..<nMax] (pt_cols p))
       (\<lambda>cols. Inr (p\<lparr>pt_cols := cols\<rparr>)))"

section \<open>Specification\<close>

definition lattice_point :: "rank1_lattice \<Rightarrow> nat \<Rightarrow> nat \<Rightarrow> nat" where
  "lattice_point lat k j = lattice_coordinate lat (of_nat k) j"

text \<open>Point \<open>i\<close> of the shifted rank-1 lattice with \<open>2 ^ m\<close> points, computed exactly.\<close>

definition exact_lattice_point :: "nat \<Rightarrow> uint32 list \<Rightarrow> nat list \<Rightarrow> nat \<Rightarrow> nat \<Rightarrow> nat" where
  "exact_lattice_point m z sh i j = (i * unat (z ! j) * 2 ^ (64 - m) + sh ! j) mod 2 ^ 64"

definition digit_reversal :: "nat \<Rightarrow> nat \<Rightarrow> nat" where
  "digit_reversal m k = unat (bitreverse (of_nat k :: uint32) m)"

definition lattice_wf :: "rank1_lattice \<Rightarrow> bool" where
  "lattice_wf lat \<longleftrightarrow>
    1 \<le> mMax (r1_base lat) \<and> mMax (r1_base lat) \<le> 31 \<and> 1 \<le> dMax (r1_base lat) \<and>
    length (generatingVector lat) = nat (dMax (r1_base lat)) \<and>
    length (randomShift lat) = nat (dMax (r1_base lat)) \<and>
    scale_log lat = (case r1_ordering lat of
        RANK_1_LATTICE_NATURAL_ORDERING \<Rightarrow> nat (mMax (r1_base lat))
      | RANK_1_LATTICE_RADICAL_INVERSE_ORDERING \<Rightarrow> 32)"

section \<open>The loop fills the matrix\<close>

lemma r1_point_steps:
  assumes "0 < r" "r \<le> length (generatingVector lat)" "r \<le> length (randomShift lat)"
    and "a \<le> b" "\<And>k. a \<le> k \<Longrightarrow> k < b \<Longrightarrow> k - a < length cols" "length cols < 2 ^ 31"
  shows "rfold (r1_point_step lat a r) [a..<b] cols =
    Inr (foldl (\<lambda>cs k. cs[k - a := map (lattice_point lat k) [0..<r]]) cols [a..<b])"
  using assms(4,5)
proof (induction b rule: dec_induct)
  case base
  show ?case by simp
next
  case (step b)
  let ?cs = "foldl (\<lambda>cs k. cs[k - a := map (lattice_point lat k) [0..<r]]) cols [a..<b]"
  have l: "b - a < length cols" using step.prems [of b] step.hyps by simp
  then have "sint (ucast (of_nat b - of_nat a :: uint64) :: uint32) = int (b - a)"
    using sint_index [of "b - a"] step.hyps assms(6) by (simp add: of_nat_diff)
  then have "r1_point_step lat a r b ?cs = Inr (?cs[b - a := map (lattice_point lat b) [0..<r]])"
    using l assms(1-3) unfolding r1_point_step_def Let_def
    by (simp only: length_foldl_update nat_int of_nat_less_iff) (simp add: lattice_point_def [abs_def])
  moreover have "rfold (r1_point_step lat a r) [a..<b] cols = Inr ?cs" using step by simp
  ultimately show ?case using step.hyps by (simp add: rfold_append)
qed

lemma rfold_r1_no_rows: "rfold (r1_point_step lat a 0) ks cols = Inr cols"
  by (induction ks) (auto simp: r1_point_step_def Let_def)

lemma r1_unsafe_fills:
  assumes wf: "lattice_wf lat" and n: "a \<le> b" "b \<le> 2 ^ nat (mMax (r1_base lat))"
    and p: "int (pt_rows p) \<le> dMax (r1_base lat)" "length (pt_cols p) = b - a"
      "length (pt_cols p) < 2 ^ 31" "points_wf p"
  shows "r1_unsafe_get_points lat a b p = Inr (fill_points (lattice_point lat) a b p)"
proof -
  have "(2::nat) ^ nat (mMax (r1_base lat)) \<le> 2 ^ 31"
    using wf by (intro power_increasing) (auto simp: lattice_wf_def)
  then have b: "b < 2 ^ 32" using n(2) by simp
  then have a: "a mod 2 ^ 32 = a" using n(1) by simp
  show ?thesis
  proof (cases "pt_rows p = 0")
    case True
    have "fill_points (lattice_point lat) a b p = p"
      unfolding fill_points_def cols_of_no_rows [OF p(4) True p(2), symmetric] by simp
    then show ?thesis using True b by (simp add: r1_unsafe_get_points_def rfold_r1_no_rows)
  next
    case False
    moreover have "pt_rows p \<le> length (generatingVector lat)" "pt_rows p \<le> length (randomShift lat)"
      using wf p(1) by (auto simp: lattice_wf_def)
    ultimately have "rfold (r1_point_step lat a (pt_rows p)) [a..<b] (pt_cols p) =
        Inr (foldl (\<lambda>cs k. cs[k - a := map (lattice_point lat k) [0..<pt_rows p]]) (pt_cols p) [a..<b])"
      using n(1) p by (intro r1_point_steps) auto
    then show ?thesis
      using b a foldl_shift_eq_map [OF n(1) p(2)]
      by (simp add: r1_unsafe_get_points_def fill_points_def)
  qed
qed

interpretation lat: low_discrepancy_sequence r1_base r1_unsafe_get_points lattice_point lattice_wf
proof unfold_locales
  fix s k j
  show "lattice_point s k j \<le> 2 ^ 64"
    by (simp add: lattice_point_def lattice_coordinate_def Let_def less_imp_le)
qed (auto simp: r1_unsafe_fills lattice_wf_def)

lemma Rank1Lattice_ok_iff:
  "Rank1Lattice rng gv m sh seed ord = Inr lat \<longleftrightarrow>
    gv \<noteq> [] \<and> 1 \<le> m \<and> 0 \<le> seed \<and> (ord = RANK_1_LATTICE_NATURAL_ORDERING \<longrightarrow> m < 31) \<and>
    lat = \<lparr>r1_base = \<lparr>mMax = m, dMax = int (length gv), seedValue = seed\<rparr>, generatingVector = gv,
           randomShiftFlag = sh,
           randomShift = (if sh then map (rng seed) [0..<length gv] else replicate (length gv) 0),
           r1_ordering = ord,
           scale_log = (case ord of RANK_1_LATTICE_NATURAL_ORDERING \<Rightarrow> nat m
                                  | RANK_1_LATTICE_RADICAL_INVERSE_ORDERING \<Rightarrow> 32)\<rparr>"
  by (cases ord) (auto simp: Rank1Lattice_def Let_def result_simps LowDiscrepancySequence_ok_iff
      random_shift_def Suc_le_eq not_le split: if_splits)

section \<open>Exactness of the floating-point computation\<close>

lemma round53_shift:
  assumes "a < 2 ^ 53"
  shows "round53 (a * 2 ^ e) = a * 2 ^ e"
proof (cases "nat_bits (a * 2 ^ e) \<le> 53")
  case True
  then show ?thesis by (simp add: round53_def)
next
  case False
  let ?n = "a * 2 ^ e" and ?E = "nat_bits (a * 2 ^ e) - 53"
  have "?n < 2 ^ (53 + e)" using assms by (simp add: power_add)
  then have "?E \<le> e" using nat_bits_le_iff [of ?n "53 + e"] by simp
  then have d: "2 ^ ?E dvd ?n" by (simp add: le_imp_power_dvd)
  then have "?n mod 2 ^ ?E = 0" "?n div 2 ^ ?E * 2 ^ ?E = ?n" by auto
  then show ?thesis using False unfolding round53_def Let_def by simp
qed

lemma lattice_rounding_exact:
  assumes i: "i < 2 ^ m" and z: "z < 2 ^ 20" and m: "m \<le> 32" and s: "s < 2 ^ 32"
  shows "round53 (round53 (i * z * 2 ^ (64 - m)) + s * 2 ^ 32) = i * z * 2 ^ (64 - m) + s * 2 ^ 32"
proof -
  have e: "(2::nat) ^ (64 - m) = 2 ^ (32 - m) * 2 ^ 32" unfolding power_add [symmetric] using m by simp
  have "i * z < 2 ^ m * 2 ^ 20" using i z by (intro mult_strict_mono) auto
  also have "(2::nat) ^ m * 2 ^ 20 \<le> 2 ^ 32 * 2 ^ 20" using m by (intro mult_right_mono power_increasing) auto
  finally have iz: "i * z < 2 ^ 53" by simp
  have "i * 2 ^ (32 - m) < 2 ^ m * 2 ^ (32 - m)" using i by (intro mult_strict_right_mono) auto
  also have "(2::nat) ^ m * 2 ^ (32 - m) = 2 ^ 32"
    unfolding power_add [symmetric] using m by simp
  finally have "i * 2 ^ (32 - m) * z \<le> 2 ^ 32 * 2 ^ 20" using z by (intro mult_mono) auto
  then have sum: "i * z * 2 ^ (32 - m) + s < 2 ^ 53" using s by (simp add: ac_simps)
  have "i * z * 2 ^ (64 - m) + s * 2 ^ 32 = (i * z * 2 ^ (32 - m) + s) * 2 ^ 32"
    by (simp add: e algebra_simps)
  then show ?thesis by (simp only: round53_shift [OF iz] round53_shift [OF sum])
qed

section \<open>Radical inverse order\<close>

lemma bitreverse32_split:
  fixes k :: uint32
  assumes "unat k < 2 ^ m" "m \<le> 32"
  shows "unat (bitreverse32 k) = unat (bitreverse k m) * 2 ^ (32 - m)"
    and "unat (bitreverse k m) < 2 ^ m"
proof -
  have "take_bit m k = k"
    using assms(1) by (intro word_unat_eq_iff [THEN iffD2])
      (simp add: unsigned_take_bit_eq take_bit_nat_eq_self)
  then have high: "\<not> bit k n" if "m \<le> n" for n using that by (metis bit_take_bit_iff leD)
  have "take_bit m (bitreverse k m) = bitreverse k m"
    using assms(2) by (intro bit_word_eqI) (auto simp: bit_take_bit_iff bit_bitreverse)
  then have "unat (bitreverse k m) = take_bit m (unat (bitreverse k m))"
    by (metis unsigned_take_bit_eq)
  then show less: "unat (bitreverse k m) < 2 ^ m" by (metis take_bit_nat_less_exp)
  have "bitreverse32 k = push_bit (32 - m) (bitreverse k m)"
  proof (rule bit_word_eqI)
    fix n assume n: "n < LENGTH(32)"
    show "bit (bitreverse32 k) n = bit (push_bit (32 - m) (bitreverse k m)) n"
    proof (cases "32 - m \<le> n")
      case True
      then have "m - 1 - (n - (32 - m)) = 31 - n" using n assms(2) by simp
      then show ?thesis
        using True n assms(2) by (auto simp: bit_bitreverse32 bit_bitreverse bit_push_bit_iff)
    next
      case False
      then show ?thesis using n high [of "31 - n"] by (auto simp: bit_bitreverse32 bit_push_bit_iff)
    qed
  qed
  then have "unat (bitreverse32 k) = take_bit 32 (unat (bitreverse k m) * 2 ^ (32 - m))"
    using unsigned_push_bit_eq [of "32 - m" "bitreverse k m", where 'a = nat]
    by (simp only: push_bit_eq_mult [where 'a = nat]) simp
  moreover have "unat (bitreverse k m) * 2 ^ (32 - m) < 2 ^ 32"
  proof -
    have "unat (bitreverse k m) * 2 ^ (32 - m) < 2 ^ m * 2 ^ (32 - m)"
      using less by (intro mult_strict_right_mono) auto
    also have "(2::nat) ^ m * 2 ^ (32 - m) = 2 ^ 32"
      unfolding power_add [symmetric] using assms(2) by simp
    finally show ?thesis .
  qed
  ultimately show "unat (bitreverse32 k) = unat (bitreverse k m) * 2 ^ (32 - m)"
    by (simp add: take_bit_nat_eq_self)
qed

lemma digit_reversal_less: "k < 2 ^ m \<Longrightarrow> m \<le> 32 \<Longrightarrow> digit_reversal m k < 2 ^ m"
  unfolding digit_reversal_def
  by (rule bitreverse32_split)
    (simp_all add: unsigned_of_nat order.strict_trans1 [OF take_bit_nat_less_eq_self])

lemma digit_reversal_involution:
  assumes "k < 2 ^ m" "m \<le> 32"
  shows "digit_reversal m (digit_reversal m k) = k"
proof -
  have "(2::nat) ^ m \<le> 2 ^ 32" using assms(2) by (intro power_increasing) auto
  then have k: "unat (of_nat k :: uint32) = k" using assms(1) by (intro unat_of_nat_less) simp
  have "take_bit m (of_nat k) = (of_nat k :: uint32)"
    by (rule word_unat_eq_iff [THEN iffD2])
      (simp add: unsigned_take_bit_eq k take_bit_nat_eq_self assms(1))
  then show ?thesis
    using bitreverse_bitreverse [of m "of_nat k :: uint32"] assms(2) k
    by (simp add: digit_reversal_def)
qed

lemma digit_reversal_bij: "m \<le> 32 \<Longrightarrow> bij_betw (digit_reversal m) {0..<2 ^ m} {0..<2 ^ m}"
  by (rule bij_betw_byWitness [of _ "digit_reversal m"])
    (auto simp: digit_reversal_involution digit_reversal_less)

text \<open>With generators below \<open>2 ^ 20\<close> and shifts that are multiples of \<open>2 ^ -32\<close> nothing is rounded.\<close>

lemma lattice_point_radical_exact:
  assumes o: "r1_ordering lat = RANK_1_LATTICE_RADICAL_INVERSE_ORDERING" "scale_log lat = 32"
    and k: "k < 2 ^ m" "m \<le> 32"
    and z: "unat (generatingVector lat ! j) < 2 ^ 20"
    and s: "randomShift lat ! j = s * 2 ^ 32" "s < 2 ^ 32"
  shows "lattice_point lat k j =
    exact_lattice_point m (generatingVector lat) (randomShift lat) (digit_reversal m k) j"
proof -
  let ?i = "digit_reversal m k" and ?z = "unat (generatingVector lat ! j)"
  have "(2::nat) ^ m \<le> 2 ^ 32" using k(2) by (intro power_increasing) auto
  then have "unat (of_nat k :: uint32) < 2 ^ m" using k(1) by (subst unat_of_nat_less) auto
  note sp = bitreverse32_split [OF this k(2), folded digit_reversal_def]
  have e: "(2::nat) ^ (64 - m) = 2 ^ (32 - m) * 2 ^ 32"
    unfolding power_add [symmetric] using k(2) by simp
  have "unat (lattice_reorder (r1_ordering lat) (of_nat k)) * 2 ^ (64 - scale_log lat) * ?z =
      ?i * ?z * 2 ^ (64 - m)"
    unfolding o lattice_reorder.simps lattice_reorder_radical_inverse_def sp(1) e
    by (simp add: ac_simps)
  then show ?thesis
    unfolding lattice_point_def lattice_coordinate_def Let_def exact_lattice_point_def
    using lattice_rounding_exact [OF sp(2) z k(2) s(2)] by (simp only: s(1))
qed

lemma mset_map_permuted:
  assumes "bij_betw f {0..<n} {0..<n}"
  shows "mset (map (\<lambda>k. g (f k)) [0..<n]) = mset (map g [0..<n])"
proof -
  have "mset (map f [0..<n]) = mset [0..<n]"
    using assms by (intro set_eq_iff_mset_eq_distinct [THEN iffD1])
      (auto simp: distinct_map bij_betw_def)
  then have "image_mset g (mset (map f [0..<n])) = image_mset g (mset [0..<n])" by simp
  then show ?thesis by (simp add: image_mset.compositionality comp_def)
qed

section \<open>Properties\<close>

text \<open>C22: In radical inverse order, the first \<open>2 ^ m\<close> points (for every \<open>m\<close> up to \<open>mMax\<close>) are,
  up to their order, exactly the points of the shifted rank-1 lattice with \<open>2 ^ m\<close> points; the
  double precision computation loses nothing as long as the entries of the generating vector are
  below \<open>2 ^ 20\<close> and the shifts are multiples of \<open>2 ^ -32\<close>, as for the predefined vectors and
  the random generator of the code.\<close>

theorem lattice_radical_inverse_points:
  assumes "Rank1Lattice rng gv mm sh seed RANK_1_LATTICE_RADICAL_INVERSE_ORDERING = Inr lat"
    and "mm \<le> 31" "int m \<le> mm" "m < 31" "r \<le> length gv"
    and "length cols = 2 ^ m" "\<forall>c \<in> set cols. length c = r"
    and "\<forall>z \<in> set gv. unat z < 2 ^ 20"
    and "\<forall>j. \<exists>s < 2 ^ 32. rng seed j = s * 2 ^ 32"
  shows "\<exists>out. get_points r1_base r1_unsafe_get_points lat 0 (2 ^ m)
      \<lparr>pt_rows = r, pt_cols = cols\<rparr> = Inr \<lparr>pt_rows = r, pt_cols = out\<rparr> \<and>
    mset out = mset (map (\<lambda>i. map (exact_lattice_point m gv (randomShift lat) i) [0..<r]) [0..<2 ^ m])"
proof -
  let ?g = "\<lambda>i. map (exact_lattice_point m gv (randomShift lat) i) [0..<r]"
  have lat: "gv \<noteq> []" "1 \<le> mm" "generatingVector lat = gv" "mMax (r1_base lat) = mm"
      "dMax (r1_base lat) = int (length gv)" "scale_log lat = 32"
      "r1_ordering lat = RANK_1_LATTICE_RADICAL_INVERSE_ORDERING"
      "randomShift lat = (if sh then map (rng seed) [0..<length gv] else replicate (length gv) 0)"
    using assms(1) by (simp_all add: Rank1Lattice_ok_iff)
  have wf: "lattice_wf lat"
    using lat assms(2) by (simp add: lattice_wf_def Suc_le_eq)
  have pm: "(2::nat) ^ m \<le> 2 ^ nat mm" "(2::nat) ^ m < 2 ^ 31"
    using assms(3) power_strict_increasing [OF assms(4), of "2::nat"]
    by (auto intro!: power_increasing)
  have ex: "lattice_point lat k j =
      exact_lattice_point m gv (randomShift lat) (digit_reversal m k) j" if "k < 2 ^ m" "j < r" for k j
  proof -
    have "\<exists>s < 2 ^ 32. randomShift lat ! j = s * 2 ^ 32"
      using lat(8) assms(5,9) that(2) by (auto intro: exI [of _ 0])
    then show ?thesis
      using lattice_point_radical_exact [OF lat(7,6) that(1), of j] assms(4,5,8) that(2) lat(3) by auto
  qed
  have "get_points r1_base r1_unsafe_get_points lat 0 (2 ^ m) \<lparr>pt_rows = r, pt_cols = cols\<rparr> =
      Inr (fill_points (lattice_point lat) 0 (2 ^ m) \<lparr>pt_rows = r, pt_cols = cols\<rparr>)"
    using wf pm lat assms(5-7) by (intro lat.get_points_fills) (simp_all add: points_wf_def)
  also have "\<dots> = Inr \<lparr>pt_rows = r, pt_cols = map (\<lambda>k. ?g (digit_reversal m k)) [0..<2 ^ m]\<rparr>"
    by (simp add: fill_points_def ex)
  finally show ?thesis
    using mset_map_permuted [OF digit_reversal_bij, of m ?g] assms(4) by simp
qed

theorem lattice_radical_inverse_points_witness:
  "\<exists>lat out. Rank1Lattice (\<lambda>seed j. 2 ^ 33) [1, 3] 2 True 7
      RANK_1_LATTICE_RADICAL_INVERSE_ORDERING = Inr lat \<and>
    get_points r1_base r1_unsafe_get_points lat 0 2 \<lparr>pt_rows = 2, pt_cols = [[0, 0], [0, 0]]\<rparr> =
      Inr \<lparr>pt_rows = 2, pt_cols = out\<rparr> \<and> length out = 2"
proof -
  obtain lat where l: "Rank1Lattice (\<lambda>seed j. 2 ^ 33) [1, 3] 2 True 7
      RANK_1_LATTICE_RADICAL_INVERSE_ORDERING = Inr lat"
    by (simp add: Rank1Lattice_ok_iff)
  have "\<exists>s < 2 ^ 32. (2 :: nat) ^ 33 = s * 2 ^ 32" by (rule exI [of _ 2]) simp
  from lattice_radical_inverse_points [OF l, of 1 2 "[[0, 0], [0, 0]]"] this
  obtain out where o: "get_points r1_base r1_unsafe_get_points lat 0 (2 ^ 1)
      \<lparr>pt_rows = 2, pt_cols = [[0, 0], [0, 0]]\<rparr> = Inr \<lparr>pt_rows = 2, pt_cols = out\<rparr>"
    and m: "mset out = mset (map (\<lambda>i. map (exact_lattice_point 1 [1, 3] (randomShift lat) i) [0..<2])
      [0..<2 ^ 1])"
    by auto
  from mset_eq_length [OF m] have "length out = 2" by simp
  then show ?thesis using l o by auto
qed

text \<open>Lattice points can be requested in blocks in either ordering: the columns for
  \<open>a\<close> to \<open>b\<close> followed by those for \<open>b\<close> to \<open>c\<close> are the columns for \<open>a\<close> to \<open>c\<close>.\<close>

theorem lattice_refinement_consistent:
  assumes "Rank1Lattice rng gv m sh seed ord = Inr lat" "m \<le> 31"
    "a \<le> b" "b \<le> c" "c \<le> 2 ^ nat m" "r \<le> length gv"
    "length xs = b - a" "length ys = c - b" "length zs = c - a" "c - a < 2 ^ 31"
    "\<forall>x \<in> set (xs @ ys @ zs). length x = r"
  shows "\<exists>us vs.
    get_points r1_base r1_unsafe_get_points lat a b \<lparr>pt_rows = r, pt_cols = xs\<rparr> =
      Inr \<lparr>pt_rows = r, pt_cols = us\<rparr> \<and>
    get_points r1_base r1_unsafe_get_points lat b c \<lparr>pt_rows = r, pt_cols = ys\<rparr> =
      Inr \<lparr>pt_rows = r, pt_cols = vs\<rparr> \<and>
    get_points r1_base r1_unsafe_get_points lat a c \<lparr>pt_rows = r, pt_cols = zs\<rparr> =
      Inr \<lparr>pt_rows = r, pt_cols = us @ vs\<rparr>"
proof -
  have "lattice_wf lat" "mMax (r1_base lat) = m" "dMax (r1_base lat) = int (length gv)"
    using assms(1,2)
    by (auto simp: Rank1Lattice_ok_iff lattice_wf_def Suc_le_eq split: lattice_ordering.splits)
  then show ?thesis using assms by (intro lat.get_points_extends) simp_all
qed

theorem lattice_refinement_consistent_witness:
  "\<exists>lat us vs. Rank1Lattice (\<lambda>seed j. 2 ^ 33) [1, 3] 2 True 7
      RANK_1_LATTICE_NATURAL_ORDERING = Inr lat \<and>
    get_points r1_base r1_unsafe_get_points lat 0 1 \<lparr>pt_rows = 1, pt_cols = [[0]]\<rparr> =
      Inr \<lparr>pt_rows = 1, pt_cols = us\<rparr> \<and>
    get_points r1_base r1_unsafe_get_points lat 1 2 \<lparr>pt_rows = 1, pt_cols = [[0]]\<rparr> =
      Inr \<lparr>pt_rows = 1, pt_cols = vs\<rparr> \<and>
    get_points r1_base r1_unsafe_get_points lat 0 2 \<lparr>pt_rows = 1, pt_cols = [[0], [0]]\<rparr> =
      Inr \<lparr>pt_rows = 1, pt_cols = us @ vs\<rparr>"
proof -
  obtain lat where l: "Rank1Lattice (\<lambda>seed j. 2 ^ 33) [1, 3] 2 True 7
      RANK_1_LATTICE_NATURAL_ORDERING = Inr lat"
    by (simp add: Rank1Lattice_ok_iff)
  from lattice_refinement_consistent [OF l, of 0 1 2 1 "[[0]]" "[[0]]" "[[0], [0]]"] l
  show ?thesis by auto
qed

end
