(* ===== verification/Active_Set.thy ===== *)
theory Active_Set
  imports Dakota_Prelude
begin

text \<open>
  \<^verbatim>\<open>ActiveSet\<close> (\<^verbatim>\<open>src/DakotaActiveSet.hpp\<close>, \<^verbatim>\<open>src/DakotaActiveSet.cpp\<close>): the request vector, one
  \<^verbatim>\<open>short\<close> per response function with bit 0 for the value, bit 1 for the gradient and bit 2 for
  the Hessian, and the vector of variable ids with respect to which derivatives are taken.
\<close>

unbundle bit_operations_syntax

section \<open>Data and operations\<close>

record active_set =
  requestVector :: "short list"
  derivVarsVector :: "nat list"

definition ActiveSet_default :: active_set where
  "ActiveSet_default = \<lparr>requestVector = [], derivVarsVector = []\<rparr>"

definition ActiveSet_vectors :: "short list \<Rightarrow> nat list \<Rightarrow> active_set" where
  "ActiveSet_vectors asv dvv = \<lparr>requestVector = asv, derivVarsVector = dvv\<rparr>"

text \<open>
  Inflating repeats the current pattern: after \<^verbatim>\<open>resize\<close>, entry \<open>i\<close> is overwritten in increasing
  order of \<open>i\<close> with entry \<open>i mod curr_fns\<close>.
\<close>

definition reshape_fns :: "nat \<Rightarrow> active_set \<Rightarrow> active_set" where
  "reshape_fns num_fns s =
    (let rv = requestVector s; curr = length rv in
     if curr \<noteq> num_fns then
       let rv' = vec_resize 0 num_fns rv in
       s\<lparr>requestVector :=
         (if curr \<noteq> 0 \<and> num_fns > curr
          then foldl (\<lambda>v i. v[i := v ! (i mod curr)]) rv' [curr..<num_fns] else rv')\<rparr>
     else s)"

definition reshape :: "nat \<Rightarrow> nat \<Rightarrow> active_set \<Rightarrow> active_set" where
  "reshape num_fns num_deriv_v s0 =
    (let s = reshape_fns num_fns s0 in
     if length (derivVarsVector s) \<noteq> num_deriv_v
     then s\<lparr>derivVarsVector := vec_resize 0 num_deriv_v (derivVarsVector s)\<rparr> else s)"

definition set_request_vector :: "short list \<Rightarrow> active_set \<Rightarrow> active_set" where
  "set_request_vector rv s = s\<lparr>requestVector := rv\<rparr>"

definition request_values :: "short \<Rightarrow> active_set \<Rightarrow> active_set" where
  "request_values v s = s\<lparr>requestVector := replicate (length (requestVector s)) v\<rparr>"

definition request_values_range :: "short \<Rightarrow> nat \<Rightarrow> nat \<Rightarrow> active_set \<Rightarrow> active_set result" where
  "request_values_range v a b s =
    (if a < b \<and> b > length (requestVector s) then Inl (UndefinedBehaviour ''vector write'')
     else Inr (s\<lparr>requestVector := foldl (\<lambda>rv i. rv[i := v]) (requestVector s) [a..<b]\<rparr>))"

definition request_value :: "nat \<Rightarrow> active_set \<Rightarrow> short result" where
  "request_value i s =
    (if i < length (requestVector s) then Inr (requestVector s ! i)
     else Inl (UndefinedBehaviour ''vector read''))"

definition set_request_value :: "short \<Rightarrow> nat \<Rightarrow> active_set \<Rightarrow> active_set result" where
  "set_request_value v i s =
    (if i < length (requestVector s) then Inr (s\<lparr>requestVector := (requestVector s)[i := v]\<rparr>)
     else Inl (UndefinedBehaviour ''vector write''))"

definition set_derivative_vector :: "nat list \<Rightarrow> active_set \<Rightarrow> active_set" where
  "set_derivative_vector dvv s = s\<lparr>derivVarsVector := dvv\<rparr>"

definition derivative_start_value :: "nat \<Rightarrow> active_set \<Rightarrow> active_set" where
  "derivative_start_value start s =
    s\<lparr>derivVarsVector := map (\<lambda>i. start + i) [0..<length (derivVarsVector s)]\<rparr>"

definition ActiveSet_sizes :: "nat \<Rightarrow> nat \<Rightarrow> active_set" where
  "ActiveSet_sizes num_fns num_deriv_vars =
    derivative_start_value 1 (request_values 1 (reshape num_fns num_deriv_vars ActiveSet_default))"

definition ActiveSet_fns :: "nat \<Rightarrow> active_set" where
  "ActiveSet_fns num_fns = request_values 1 (reshape_fns num_fns ActiveSet_default)"

definition active_set_eq :: "active_set \<Rightarrow> active_set \<Rightarrow> bool" where
  "active_set_eq s1 s2 \<longleftrightarrow>
    requestVector s1 = requestVector s2 \<and> derivVarsVector s1 = derivVarsVector s2"

section \<open>Request bits\<close>

text \<open>The tests \<^verbatim>\<open>asv[i] & 1\<close>, \<^verbatim>\<open>& 2\<close> and \<^verbatim>\<open>& 4\<close> of the code.\<close>

definition req_val :: "short \<Rightarrow> bool" where
  "req_val a \<longleftrightarrow> a AND 1 \<noteq> 0"

definition req_grad :: "short \<Rightarrow> bool" where
  "req_grad a \<longleftrightarrow> a AND 2 \<noteq> 0"

definition req_hess :: "short \<Rightarrow> bool" where
  "req_hess a \<longleftrightarrow> a AND 4 \<noteq> 0"

lemma and_two_power_iff:
  fixes a :: "'a::len word"
  shows "a AND 2 ^ n \<noteq> 0 \<longleftrightarrow> bit a n"
  by (simp add: and_exp_eq_0_iff_not_bit)

lemma req_val_bit: "req_val a \<longleftrightarrow> bit a 0"
  using and_two_power_iff [of a 0] by (simp add: req_val_def)

lemma req_grad_bit: "req_grad a \<longleftrightarrow> bit a 1"
  using and_two_power_iff [of a 1] by (simp add: req_grad_def)

lemma req_hess_bit: "req_hess a \<longleftrightarrow> bit a 2"
  using and_two_power_iff [of a 2] by (simp add: req_hess_def)

lemmas req_bits = req_val_bit req_grad_bit req_hess_bit

lemma req_0 [simp]: "\<not> req_val 0" "\<not> req_grad 0" "\<not> req_hess 0"
  by (simp_all add: req_bits)

section \<open>Facts\<close>

lemma active_set_eq_iff [simp]: "active_set_eq s t \<longleftrightarrow> s = t"
  by (auto simp: active_set_eq_def)

lemma foldl_pattern:
  assumes "0 < c" "c \<le> n" "n \<le> length v"
  shows "foldl (\<lambda>v i. v[i := v ! (i mod c)]) v [c..<n] =
    map (\<lambda>i. v ! (i mod c)) [0..<n] @ drop n v"
  using assms(2,3)
proof (induction n rule: dec_induct)
  case base
  have "map (\<lambda>i. v ! (i mod c)) [0..<c] = take c v"
    using base by (intro nth_equalityI) auto
  then show ?case by simp
next
  case (step n)
  have "n mod c < n" using assms(1) step.hyps(1) by (meson mod_less_divisor less_le_trans)
  then have "(map (\<lambda>i. v ! (i mod c)) [0..<n] @ drop n v) ! (n mod c) = v ! (n mod c)"
    by (simp add: nth_append)
  moreover have "drop n v = v ! n # drop (Suc n) v" using step.prems by (simp add: Cons_nth_drop_Suc)
  ultimately show ?case using step by (simp add: list_update_append)
qed

lemma requestVector_reshape_fns:
  "requestVector (reshape_fns n s) =
    (if requestVector s = [] then replicate n 0
     else map (\<lambda>i. requestVector s ! (i mod length (requestVector s))) [0..<n])"
proof -
  let ?rv = "requestVector s"
  have "foldl (\<lambda>v i. v[i := v ! (i mod length ?rv)]) (vec_resize 0 n ?rv) [length ?rv..<n] =
      map (\<lambda>i. vec_resize 0 n ?rv ! (i mod length ?rv)) [0..<n]" if "?rv \<noteq> []" "length ?rv < n"
    using foldl_pattern [of "length ?rv" n "vec_resize 0 n ?rv"] that by simp
  moreover have "vec_resize 0 n ?rv ! (i mod length ?rv) = ?rv ! (i mod length ?rv)"
    if "?rv \<noteq> []" "length ?rv < n" for i
    using that by (simp add: less_trans [OF mod_less_divisor])
  moreover have "vec_resize 0 n ?rv = map (\<lambda>i. ?rv ! (i mod length ?rv)) [0..<n]"
    if "n < length ?rv" using that by (intro nth_equalityI) auto
  moreover have "?rv = map (\<lambda>i. ?rv ! (i mod length ?rv)) [0..<length ?rv]"
    by (intro nth_equalityI) auto
  moreover have "vec_resize 0 n [] = replicate n (0::short)" by (simp add: vec_resize_def)
  ultimately show ?thesis
    by (auto simp: reshape_fns_def Let_def not_less le_less split: if_splits)
qed

lemma length_requestVector_reshape [simp]:
  "length (requestVector (reshape_fns n s)) = n" "length (requestVector (reshape n d s)) = n"
  "length (derivVarsVector (reshape n d s)) = d"
  "derivVarsVector (reshape_fns n s) = derivVarsVector s"
  "requestVector (reshape n d s) = requestVector (reshape_fns n s)"
  by (simp_all add: requestVector_reshape_fns reshape_def Let_def)
    (simp add: reshape_fns_def Let_def)

lemma ActiveSet_sizes_eq:
  "ActiveSet_sizes n d = \<lparr>requestVector = replicate n 1, derivVarsVector = [1..<Suc d]\<rparr>"
proof -
  have "map Suc [0..<d] = [Suc 0..<Suc d]" by (simp add: map_Suc_upt del: upt_Suc)
  then show ?thesis
    by (simp add: ActiveSet_sizes_def request_values_def derivative_start_value_def)
qed

lemma ActiveSet_fns_eq: "ActiveSet_fns n = \<lparr>requestVector = replicate n 1, derivVarsVector = []\<rparr>"
  by (simp add: ActiveSet_fns_def request_values_def ActiveSet_default_def)

lemma request_values_range_nth:
  assumes "request_values_range v a b s = Inr t" "i < length (requestVector s)"
  shows "requestVector t ! i = (if a \<le> i \<and> i < b then v else requestVector s ! i)"
proof -
  have t: "requestVector t = foldl (\<lambda>rv i. rv[i := v]) (requestVector s) [a..<b]"
    and b: "a < b \<longrightarrow> b \<le> length (requestVector s)"
    using assms(1) by (auto simp: request_values_range_def split: if_splits)
  show ?thesis
  proof (cases "a \<le> i \<and> i < b")
    case True
    then show ?thesis
      unfolding t using b foldl_update_nth [of "[a..<b]" id "requestVector s" i "\<lambda>_. v"] by auto
  next
    case False
    then show ?thesis
      unfolding t using foldl_update_other [of i id "[a..<b]" "\<lambda>_. v"] by auto
  qed
qed

end
