(* ===== verification/Pack_Buffer.thy ===== *)
theory Pack_Buffer
  imports Active_Set
begin

text \<open>
  Message buffers (\<^verbatim>\<open>src/MPIPackBuffer.cpp\<close>, \<^verbatim>\<open>src/MPIPackBuffer.hpp\<close>) and the stream operators of
  \<^verbatim>\<open>src/dakota_data_io.hpp\<close> that write containers, matrix columns and lower triangles to them.

  The contents of a buffer are a sequence of typed items: \<^verbatim>\<open>MPI_Pack\<close> and \<^verbatim>\<open>MPI_Unpack\<close> preserve
  the sequence and the types of the items, and reading an item as another type is undefined.  The
  growth of the storage is modelled separately, in bytes.  The locale \<open>stream_codec\<close> is the
  contract between a writer and its reader.
\<close>

section \<open>Storage\<close>

record pack_storage =
  pb_index :: nat
  pb_size :: nat

definition MPIPackBuffer :: "nat \<Rightarrow> pack_storage" where
  "MPIPackBuffer n = \<lparr>pb_index = 0, pb_size = n\<rparr>"

definition pb_reset :: "pack_storage \<Rightarrow> pack_storage" where
  "pb_reset b = b\<lparr>pb_index := 0\<rparr>"

definition pb_resize :: "nat \<Rightarrow> pack_storage \<Rightarrow> pack_storage" where
  "pb_resize newsize b =
    (if pb_index b + newsize \<ge> pb_size b then b\<lparr>pb_size := 2 * pb_size b\<rparr> else b)"

text \<open>\<^verbatim>\<open>MPI_Pack\<close> gets the buffer and its size and fails when the item does not fit.\<close>

definition pb_pack :: "nat \<Rightarrow> pack_storage \<Rightarrow> pack_storage result" where
  "pb_pack bytes b =
    (let b' = pb_resize bytes b in
     if pb_index b' + bytes \<le> pb_size b' then Inr (b'\<lparr>pb_index := pb_index b' + bytes\<rparr>)
     else Inl (UndefinedBehaviour ''MPI_Pack overflow''))"

section \<open>Items\<close>

datatype 'r item = PBool bool | PShort short | PSize nat | PReal 'r

type_synonym 'r buffer = "'r item list"

fun put_bool :: "bool \<Rightarrow> 'r buffer" where "put_bool b = [PBool b]"
fun put_short :: "short \<Rightarrow> 'r buffer" where "put_short b = [PShort b]"
fun put_size :: "nat \<Rightarrow> 'r buffer" where "put_size n = [PSize n]"
fun put_real :: "'r \<Rightarrow> 'r buffer" where "put_real x = [PReal x]"

fun get_bool :: "'r buffer \<Rightarrow> (bool \<times> 'r buffer) result" where
  "get_bool (PBool b # s) = Inr (b, s)"
| "get_bool s = Inl (UndefinedBehaviour ''MPI_Unpack'')"

fun get_short :: "'r buffer \<Rightarrow> (short \<times> 'r buffer) result" where
  "get_short (PShort b # s) = Inr (b, s)"
| "get_short s = Inl (UndefinedBehaviour ''MPI_Unpack'')"

fun get_size :: "'r buffer \<Rightarrow> (nat \<times> 'r buffer) result" where
  "get_size (PSize b # s) = Inr (b, s)"
| "get_size s = Inl (UndefinedBehaviour ''MPI_Unpack'')"

fun get_real :: "'r buffer \<Rightarrow> ('r \<times> 'r buffer) result" where
  "get_real (PReal b # s) = Inr (b, s)"
| "get_real s = Inl (UndefinedBehaviour ''MPI_Unpack'')"

text \<open>Arrays of doubles passed as \<^verbatim>\<open>double*\<close> are read and written the same way.\<close>

fun put_double :: "'r \<Rightarrow> 'r list" where "put_double x = [x]"

fun get_double :: "'r list \<Rightarrow> ('r \<times> 'r list) result" where
  "get_double (x # s) = Inr (x, s)"
| "get_double [] = Inl (UndefinedBehaviour ''array read'')"

section \<open>Sequences, containers, triangles\<close>

definition write_n :: "('a \<Rightarrow> 't list) \<Rightarrow> 'a list \<Rightarrow> 't list" where
  "write_n put xs = concat (map put xs)"

fun read_n :: "('t list \<Rightarrow> ('a \<times> 't list) result) \<Rightarrow> nat \<Rightarrow> 't list \<Rightarrow> ('a list \<times> 't list) result" where
  "read_n get 0 s = Inr ([], s)"
| "read_n get (Suc n) s =
    rbind (get s) (\<lambda>(x, s1). rbind (read_n get n s1) (\<lambda>(xs, s2). Inr (x # xs, s2)))"

definition write_container :: "('a \<Rightarrow> 'r buffer) \<Rightarrow> 'a list \<Rightarrow> 'r buffer" where
  "write_container put xs = put_size (length xs) @ write_n put xs"

definition container_read ::
  "('r buffer \<Rightarrow> ('a \<times> 'r buffer) result) \<Rightarrow> 'r buffer \<Rightarrow> ('a list \<times> 'r buffer) result" where
  "container_read get s = rbind (get_size s) (\<lambda>(len, s1). read_n get len s1)"

definition write_lower_triangle :: "('a \<Rightarrow> 't list) \<Rightarrow> 'a list list \<Rightarrow> 't list" where
  "write_lower_triangle put rows = concat (map (write_n put) rows)"

text \<open>Rows \<open>i\<close> to \<open>i + n - 1\<close>, row \<open>j\<close> with \<open>j + 1\<close> entries.\<close>

fun read_lower_triangle ::
  "('t list \<Rightarrow> ('a \<times> 't list) result) \<Rightarrow> nat \<Rightarrow> nat \<Rightarrow> 't list \<Rightarrow> ('a list list \<times> 't list) result" where
  "read_lower_triangle get i 0 s = Inr ([], s)"
| "read_lower_triangle get i (Suc n) s =
    rbind (read_n get (Suc i) s) (\<lambda>(row, s1).
      rbind (read_lower_triangle get (Suc i) n s1) (\<lambda>(rows, s2). Inr (row # rows, s2)))"

text \<open>
  Conditional blocks: items whose flag is set are written, and read over the current contents,
  in order; the others are skipped.
\<close>

definition write_flagged :: "('a \<Rightarrow> 't list) \<Rightarrow> (bool \<times> 'a) list \<Rightarrow> 't list" where
  "write_flagged put xs = concat (map (\<lambda>(flag, x). if flag then put x else []) xs)"

fun read_flagged ::
  "('t list \<Rightarrow> ('a \<times> 't list) result) \<Rightarrow> (bool \<times> 'a) list \<Rightarrow> 't list \<Rightarrow> ('a list \<times> 't list) result" where
  "read_flagged get [] s = Inr ([], s)"
| "read_flagged get ((flag, x) # xs) s =
    rbind (if flag then get s else Inr (x, s)) (\<lambda>(y, s1).
      rbind (read_flagged get xs s1) (\<lambda>(ys, s2). Inr (y # ys, s2)))"

definition ActiveSet_write :: "active_set \<Rightarrow> 'r buffer" where
  "ActiveSet_write s = write_container put_short (requestVector s) @
    write_container put_size (derivVarsVector s)"

definition ActiveSet_read :: "'r buffer \<Rightarrow> (active_set \<times> 'r buffer) result" where
  "ActiveSet_read s =
    rbind (container_read get_short s) (\<lambda>(rv, s1).
      rbind (container_read get_size s1) (\<lambda>(dvv, s2).
        Inr (\<lparr>requestVector = rv, derivVarsVector = dvv\<rparr>, s2)))"

section \<open>The contract of a writer and its reader\<close>

locale stream_codec =
  fixes put :: "'a \<Rightarrow> 't list" and get :: "'t list \<Rightarrow> ('a \<times> 't list) result"
    and ok :: "'a \<Rightarrow> bool"
  assumes get_put: "ok x \<Longrightarrow> get (put x @ s) = Inr (x, s)"
begin

lemma read_write_n: "list_all ok xs \<Longrightarrow> read_n get (length xs) (write_n put xs @ s) = Inr (xs, s)"
  by (induction xs) (simp_all add: write_n_def get_put)

lemma read_write_triangle:
  assumes "\<forall>j < length rows. length (rows ! j) = Suc (i + j) \<and> list_all ok (rows ! j)"
  shows "read_lower_triangle get i (length rows) (write_lower_triangle put rows @ s) = Inr (rows, s)"
  using assms
proof (induction rows arbitrary: i)
  case Nil
  show ?case by (simp add: write_lower_triangle_def)
next
  case (Cons row rows)
  have r: "length row = Suc i" "list_all ok row" using Cons.prems by force+
  have "\<forall>j < length rows. length (rows ! j) = Suc (Suc i + j) \<and> list_all ok (rows ! j)"
    using Cons.prems by force
  from Cons.IH [OF this] read_write_n [OF r(2), of "write_lower_triangle put rows @ s"] show ?case
    by (simp add: write_lower_triangle_def r(1) del: read_n.simps)
qed

lemma read_write_flagged:
  assumes "length fl = length xs" "length xs = length ys" "\<forall>i < length ys. fl ! i \<longrightarrow> ok (ys ! i)"
  shows "read_flagged get (zip fl xs) (write_flagged put (zip fl ys) @ s) =
    Inr (map_index (\<lambda>i y. if fl ! i then y else xs ! i) ys, s)"
  using assms
proof (induction fl xs ys rule: list_induct3)
  case Nil
  then show ?case by (simp add: write_flagged_def map_index_def)
next
  case (Cons f fl x xs y ys)
  have "\<forall>i < length ys. fl ! i \<longrightarrow> ok (ys ! i)" using Cons.prems by force
  then have ih: "read_flagged get (zip fl xs) (write_flagged put (zip fl ys) @ s) =
      Inr (map_index (\<lambda>i y. if fl ! i then y else xs ! i) ys, s)"
    using Cons.IH by simp
  have "f \<longrightarrow> ok y" using Cons.prems by force
  moreover have "write_flagged put (zip (f # fl) (y # ys)) =
      (if f then put y else []) @ write_flagged put (zip fl ys)"
    by (simp add: write_flagged_def)
  ultimately show ?case using ih by (cases f) (simp_all add: get_put cong: if_cong)
qed

lemma length_write_n: "(\<And>x. length (put x) = 1) \<Longrightarrow> length (write_n put xs) = length xs"
  by (induction xs) (simp_all add: write_n_def)

end

locale item_codec =
  fixes put :: "'a \<Rightarrow> 'r buffer" and get :: "'r buffer \<Rightarrow> ('a \<times> 'r buffer) result"
  assumes get_put_item: "get (put x @ s) = Inr (x, s)"
begin

lemma container_round_trip: "container_read get (write_container put xs @ s) = Inr (xs, s)"
proof -
  have "read_n get (length xs) (write_n put xs @ s) = Inr (xs, s)"
    by (induction xs) (simp_all add: write_n_def get_put_item)
  then show ?thesis by (simp add: container_read_def write_container_def)
qed

end

sublocale item_codec \<subseteq> stream_codec put get "\<lambda>_. True"
  by unfold_locales (simp add: get_put_item)

interpretation bool_item: item_codec put_bool get_bool
  by unfold_locales simp

interpretation short_item: item_codec put_short get_short
  by unfold_locales simp

interpretation size_item: item_codec put_size get_size
  by unfold_locales simp

interpretation real_item: item_codec put_real get_real
  by unfold_locales simp

interpretation double_array: stream_codec put_double get_double "\<lambda>_. True"
  by unfold_locales simp

interpretation active_set_item: item_codec ActiveSet_write ActiveSet_read
  by unfold_locales (simp add: ActiveSet_write_def ActiveSet_read_def
      short_item.container_round_trip size_item.container_round_trip)

section \<open>Properties\<close>

text \<open>Packing an item always succeeds as long as the item is no larger than the current
  capacity, and the index never passes the capacity; but the capacity is doubled only once, so
  an item larger than the doubled capacity does not fit.\<close>

theorem pb_pack_fits:
  assumes "pb_index b \<le> pb_size b"
  shows "(case pb_pack n b of
      Inr b' \<Rightarrow> pb_index b' = pb_index b + n \<and> pb_index b' \<le> pb_size b' \<and>
        pb_index b + n \<le> 2 * pb_size b
    | Inl e \<Rightarrow> pb_index b + n > 2 * pb_size b) \<and>
    (n \<le> pb_size b \<longrightarrow> (\<exists>b'. pb_pack n b = Inr b'))"
  using assms by (auto simp: pb_pack_def pb_resize_def Let_def)

theorem pb_pack_fits_witness:
  "(\<exists>b'. pb_pack 8 (MPIPackBuffer 1024) = Inr b') \<and>
    pb_pack 3000 (MPIPackBuffer 1024) = Inl (UndefinedBehaviour ''MPI_Pack overflow'')"
proof -
  have "\<exists>b'. pb_pack 8 (MPIPackBuffer 1024) = Inr b'"
    using pb_pack_fits [of "MPIPackBuffer 1024" 8] by (simp add: MPIPackBuffer_def)
  then show ?thesis by (simp add: pb_pack_def pb_resize_def MPIPackBuffer_def)
qed

text \<open>An active set that is packed into a message and unpacked on the other side is the same
  active set, and the reader stops exactly where the writer stopped.\<close>

theorem ActiveSet_message_round_trip:
  "ActiveSet_read (ActiveSet_write s @ rest) = Inr (s, rest)"
  by (rule active_set_item.get_put_item)

end
