(* ===== verification/Dakota_Response.thy ===== *)
theory Dakota_Response
  imports Pack_Buffer
begin

text \<open>
  \<^verbatim>\<open>Response\<close> (\<^verbatim>\<open>src/DakotaResponse.cpp\<close>, \<^verbatim>\<open>src/DakotaResponse.hpp\<close>): function values,
  gradients, Hessians and metadata of one evaluation with the active set that says which of them
  are meaningful.  The model is of the letter object; an envelope forwards every call to it.

  The numbers are of an arbitrary type with 0 and +, so every theorem holds for doubles: no law
  of arithmetic is assumed.  Gradients are one matrix with a column per function.  A symmetric
  matrix is stored as its lower triangle, row \<open>j\<close> holding the entries \<open>(j, 0)\<close> to \<open>(j, j)\<close>.
  \<^verbatim>\<open>sharedRespData\<close> (labels, field metadata) is not part of the record.
\<close>

unbundle bit_operations_syntax

section \<open>Dense matrices\<close>

record 'r rmat =
  m_rows :: nat
  m_cols :: "'r list list"

type_synonym 'r symmat = "'r list list"

definition mat_empty :: "'r rmat \<Rightarrow> bool" where
  "mat_empty m \<longleftrightarrow> m_rows m = 0 \<or> m_cols m = []"

definition mat_zero :: "nat \<Rightarrow> nat \<Rightarrow> 'r::zero rmat" where
  "mat_zero r c = \<lparr>m_rows = r, m_cols = replicate c (replicate r 0)\<rparr>"

text \<open>Teuchos \<^verbatim>\<open>reshape\<close> keeps the common block and fills the rest with 0.\<close>

definition mat_reshape :: "nat \<Rightarrow> nat \<Rightarrow> 'r::zero rmat \<Rightarrow> 'r rmat" where
  "mat_reshape r c m =
    \<lparr>m_rows = r, m_cols = map (vec_resize 0 r) (vec_resize [] c (m_cols m))\<rparr>"

definition sym_zero :: "nat \<Rightarrow> 'r::zero symmat" where
  "sym_zero n = map (\<lambda>j. replicate (Suc j) 0) [0..<n]"

definition sym_reshape :: "nat \<Rightarrow> 'r::zero symmat \<Rightarrow> 'r symmat" where
  "sym_reshape n h = map (\<lambda>j. if j < length h then h ! j else replicate (Suc j) 0) [0..<n]"

definition sym_fill :: "'r \<Rightarrow> 'r symmat \<Rightarrow> 'r symmat" where
  "sym_fill x h = map (map (\<lambda>_. x)) h"

definition sym_get :: "'r symmat \<Rightarrow> nat \<Rightarrow> nat \<Rightarrow> 'r" where
  "sym_get h r c = (if c \<le> r then h ! r ! c else h ! c ! r)"

definition sym_set :: "nat \<Rightarrow> nat \<Rightarrow> 'r \<Rightarrow> 'r symmat \<Rightarrow> 'r symmat" where
  "sym_set r c x h = (if c \<le> r then h[r := (h ! r)[c := x]] else h[c := (h ! c)[r := x]])"

section \<open>The response object\<close>

record 'r response =
  functionValues :: "'r list"
  functionGradients :: "'r rmat"
  functionHessians :: "'r symmat list"
  responseActiveSet :: active_set
  metaData :: "'r list"

definition resp_asv :: "'r response \<Rightarrow> short list" where
  "resp_asv r = requestVector (responseActiveSet r)"

definition resp_dvv :: "'r response \<Rightarrow> nat list" where
  "resp_dvv r = derivVarsVector (responseActiveSet r)"

definition copy_rep :: "'r response \<Rightarrow> 'r response \<Rightarrow> 'r response" where
  "copy_rep src r = r\<lparr>functionValues := functionValues src,
     functionGradients := functionGradients src, functionHessians := functionHessians src,
     responseActiveSet := responseActiveSet src, metaData := metaData src\<rparr>"

text \<open>
  \<^verbatim>\<open>shape_rep\<close> with \<^verbatim>\<open>initialize\<close>.  Without it the code leaves the new entries uninitialised;
  \<open>junk\<close> stands for whatever they hold.
\<close>

definition shape_rep :: "'r \<Rightarrow> active_set \<Rightarrow> bool \<Rightarrow> 'r::zero response \<Rightarrow> 'r response" where
  "shape_rep junk s initialize r =
    (let asv = requestVector s; num_fns = length asv; num_params = length (derivVarsVector s);
         grad_flag = list_ex req_grad asv; hess_flag = list_ex req_hess asv;
         x = (if initialize then 0 else junk)
     in r\<lparr>functionValues := replicate num_fns x,
          functionGradients := (if grad_flag
            then \<lparr>m_rows = num_params, m_cols = replicate num_fns (replicate num_params x)\<rparr>
            else functionGradients r),
          functionHessians := (if hess_flag
            then replicate num_fns (map (\<lambda>j. replicate (Suc j) x) [0..<num_params])
            else functionHessians r)\<rparr>)"

definition reshape_rep ::
  "nat \<Rightarrow> nat \<Rightarrow> bool \<Rightarrow> bool \<Rightarrow> 'r::zero response \<Rightarrow> 'r response" where
  "reshape_rep num_fns num_params grad_flag hess_flag r =
    r\<lparr>responseActiveSet :=
        (if length (resp_asv r) \<noteq> num_fns \<or> length (resp_dvv r) \<noteq> num_params
         then reshape num_fns num_params (responseActiveSet r) else responseActiveSet r),
      functionValues :=
        (if length (functionValues r) \<noteq> num_fns then vec_resize 0 num_fns (functionValues r)
         else functionValues r),
      functionGradients :=
        (if grad_flag then
           if m_rows (functionGradients r) \<noteq> num_params \<or>
              length (m_cols (functionGradients r)) \<noteq> num_fns
           then mat_reshape num_params num_fns (functionGradients r) else functionGradients r
         else if \<not> mat_empty (functionGradients r) then mat_zero 0 0 else functionGradients r),
      functionHessians :=
        (if hess_flag then
           map (\<lambda>hi. if length hi \<noteq> num_params then sym_reshape num_params hi else hi)
             (if length (functionHessians r) \<noteq> num_fns then vec_resize [] num_fns (functionHessians r)
              else functionHessians r)
         else [])\<rparr>"

definition reset :: "'r::zero response \<Rightarrow> 'r response" where
  "reset r = r\<lparr>functionValues := map (\<lambda>_. 0) (functionValues r),
     functionGradients := (functionGradients r)\<lparr>m_cols := map (map (\<lambda>_. 0)) (m_cols (functionGradients r))\<rparr>,
     functionHessians := map (sym_fill 0) (functionHessians r),
     metaData := map (\<lambda>_. 0) (metaData r)\<rparr>"

definition reset_inactive :: "'r::zero response \<Rightarrow> 'r response result" where
  "reset_inactive r =
    (let asv = resp_asv r; g = functionGradients r; h = functionHessians r in
     if (\<exists>i \<in> set [0..<length asv]. \<not> req_val (asv ! i) \<and> i \<ge> length (functionValues r)) \<or>
        length (m_cols g) > length asv \<or> length h > length asv
     then Inl (UndefinedBehaviour ''index'')
     else Inr (r\<lparr>
       functionValues := map_index (\<lambda>i x. if i < length asv \<and> \<not> req_val (asv ! i) then 0 else x)
         (functionValues r),
       functionGradients := g\<lparr>m_cols := map_index (\<lambda>i c. if \<not> req_grad (asv ! i)
         then map (\<lambda>_. 0) c else c) (m_cols g)\<rparr>,
       functionHessians := map_index (\<lambda>i hi. if \<not> req_hess (asv ! i) then sym_fill 0 hi else hi) h\<rparr>))"

definition resp_eq :: "'r response \<Rightarrow> 'r response \<Rightarrow> bool" where
  "resp_eq r1 r2 \<longleftrightarrow> active_set_eq (responseActiveSet r1) (responseActiveSet r2) \<and>
    functionValues r1 = functionValues r2 \<and> functionGradients r1 = functionGradients r2 \<and>
    functionHessians r1 = functionHessians r2"

section \<open>Changing the active set\<close>

definition active_set_request_vector :: "short list \<Rightarrow> 'r response \<Rightarrow> 'r response result" where
  "active_set_request_vector asrv r =
    (if length (resp_asv r) \<noteq> length asrv then Inl (Abort OTHER_ERROR)
     else Inr (r\<lparr>responseActiveSet := set_request_vector asrv (responseActiveSet r)\<rparr>))"

definition reshape_active_derivs :: "nat \<Rightarrow> 'r::zero response \<Rightarrow> 'r response result" where
  "reshape_active_derivs n r =
    (let num_fns = length (resp_asv r); g = functionGradients r; h = functionHessians r;
         r1 = (if \<not> mat_empty g then r\<lparr>functionGradients := mat_reshape n num_fns g\<rparr> else r)
     in if h = [] then Inr r1
        else if num_fns > length h then Inl (UndefinedBehaviour ''index'')
        else Inr (r1\<lparr>functionHessians := map_index (\<lambda>i hi. if i < num_fns then sym_reshape n hi else hi) h\<rparr>))"

definition active_set_derivative_vector ::
  "nat list \<Rightarrow> 'r::zero response \<Rightarrow> 'r response result" where
  "active_set_derivative_vector asdv r =
    rbind (if length (resp_dvv r) \<noteq> length asdv then reshape_active_derivs (length asdv) r else Inr r)
      (\<lambda>r1. Inr (r1\<lparr>responseActiveSet := set_derivative_vector asdv (responseActiveSet r1)\<rparr>))"

definition set_active_set :: "active_set \<Rightarrow> 'r::zero response \<Rightarrow> 'r response result" where
  "set_active_set s r =
    rbind (active_set_request_vector (requestVector s) r)
      (active_set_derivative_vector (derivVarsVector s))"

section \<open>Copying data between responses\<close>

text \<open>
  The three copying loops of \<^verbatim>\<open>update\<close>.  Values, gradients and Hessians of function \<open>i\<close> are
  assigned when the corresponding bit of the request is set; \<open>num_params\<close> entries per gradient and
  the leading triangle per Hessian.  Offsets serve \<^verbatim>\<open>update_partial\<close>.
\<close>

definition copy_values ::
  "nat \<Rightarrow> nat \<Rightarrow> nat \<Rightarrow> 'r list \<Rightarrow> 'r response \<Rightarrow> 'r response result" where
  "copy_values t n s src r =
    (let asv = resp_asv r; v = functionValues r in
     if \<exists>i \<in> set [0..<n]. req_val (asv ! (t + i)) \<and> (t + i \<ge> length v \<or> s + i \<ge> length src)
     then Inl (UndefinedBehaviour ''index'')
     else Inr (r\<lparr>functionValues :=
       map_index (\<lambda>i x. if t \<le> i \<and> i < t + n \<and> req_val (asv ! i) then src ! (s + (i - t)) else x) v\<rparr>))"

definition copy_prefix :: "nat \<Rightarrow> 'r list \<Rightarrow> 'r list \<Rightarrow> 'r list" where
  "copy_prefix n src dst = map_index (\<lambda>j x. if j < n then src ! j else x) dst"

definition copy_gradients ::
  "nat \<Rightarrow> nat \<Rightarrow> nat \<Rightarrow> 'r rmat \<Rightarrow> 'r response \<Rightarrow> 'r response result" where
  "copy_gradients t n s src r =
    (let asv = resp_asv r; g = functionGradients r; np = length (resp_dvv r) in
     if \<exists>i \<in> set [0..<n]. req_grad (asv ! (t + i)) \<and> 0 < np \<and>
         (t + i \<ge> length (m_cols g) \<or> s + i \<ge> length (m_cols src) \<or> np > m_rows g \<or> np > m_rows src)
     then Inl (UndefinedBehaviour ''index'')
     else Inr (r\<lparr>functionGradients := g\<lparr>m_cols :=
       map_index (\<lambda>i c. if t \<le> i \<and> i < t + n \<and> req_grad (asv ! i)
         then copy_prefix np (m_cols src ! (s + (i - t))) c else c) (m_cols g)\<rparr>\<rparr>))"

definition copy_triangle :: "nat \<Rightarrow> 'r symmat \<Rightarrow> 'r symmat \<Rightarrow> 'r symmat" where
  "copy_triangle n src dst = map_index (\<lambda>j row. if j < n then copy_prefix (Suc j) (src ! j) row else row) dst"

definition copy_hessians ::
  "nat \<Rightarrow> nat \<Rightarrow> nat \<Rightarrow> 'r symmat list \<Rightarrow> 'r response \<Rightarrow> 'r response result" where
  "copy_hessians t n s src r =
    (let asv = resp_asv r; h = functionHessians r; np = length (resp_dvv r) in
     if \<exists>i \<in> set [0..<n]. req_hess (asv ! (t + i)) \<and> 0 < np \<and>
         (t + i \<ge> length h \<or> s + i \<ge> length src \<or> np > length (h ! (t + i)) \<or> np > length (src ! (s + i)))
     then Inl (UndefinedBehaviour ''index'')
     else Inr (r\<lparr>functionHessians :=
       map_index (\<lambda>i hi. if t \<le> i \<and> i < t + n \<and> req_hess (asv ! i)
         then copy_triangle np (src ! (s + (i - t))) hi else hi) h\<rparr>))"

definition update_data ::
  "'r list \<Rightarrow> 'r rmat \<Rightarrow> 'r symmat list \<Rightarrow> active_set \<Rightarrow> 'r::zero response \<Rightarrow> 'r response result" where
  "update_data src_vals src_grads src_hess src_set r =
    (let asv = resp_asv r; num_fns = length asv; num_params = length (resp_dvv r);
         grad_flag = list_ex req_grad asv; hess_flag = list_ex req_hess asv
     in if length (requestVector src_set) < num_fns then Inl (Abort OTHER_ERROR)
        else if (grad_flag \<or> hess_flag) \<and> length (derivVarsVector src_set) < num_params
          then Inl (Abort OTHER_ERROR)
        else rbind (copy_values 0 num_fns 0 src_vals r) (\<lambda>r1.
          rbind (if grad_flag then
                   if length (m_cols src_grads) < num_fns then Inl (Abort OTHER_ERROR)
                   else copy_gradients 0 num_fns 0 src_grads r1
                 else Inr r1) (\<lambda>r2.
          rbind (if hess_flag then
                   if length src_hess < num_fns then Inl (Abort OTHER_ERROR)
                   else copy_hessians 0 num_fns 0 src_hess r2
                 else Inr r2) (\<lambda>r3.
          if \<not> active_set_eq (responseActiveSet r3) src_set then reset_inactive r3 else Inr r3))))"

definition update :: "'r response \<Rightarrow> bool \<Rightarrow> 'r::zero response \<Rightarrow> 'r response result" where
  "update src pull_metadata r =
    rbind (update_data (functionValues src) (functionGradients src) (functionHessians src)
             (responseActiveSet src) r)
      (\<lambda>r1. Inr (if pull_metadata then r1\<lparr>metaData := metaData src\<rparr> else r1))"

definition update_partial_data ::
  "nat \<Rightarrow> nat \<Rightarrow> 'r list \<Rightarrow> 'r rmat \<Rightarrow> 'r symmat list \<Rightarrow> active_set \<Rightarrow> nat \<Rightarrow>
    'r::zero response \<Rightarrow> 'r response result" where
  "update_partial_data t n src_vals src_grads src_hess src_set s r =
    (let asv = resp_asv r; num_fns = length asv; num_params = length (resp_dvv r);
         grad_flag = list_ex req_grad asv; hess_flag = list_ex req_hess asv
     in if n = 0 then Inr r
        else if t + n > num_fns \<or> s + n > length (requestVector src_set) then Inl (Abort OTHER_ERROR)
        else if (grad_flag \<or> hess_flag) \<and> length (derivVarsVector src_set) < num_params
          then Inl (Abort OTHER_ERROR)
        else rbind (copy_values t n s src_vals r) (\<lambda>r1.
          rbind (if grad_flag then
                   if length (m_cols src_grads) < s + n then Inl (Abort OTHER_ERROR)
                   else copy_gradients t n s src_grads r1
                 else Inr r1) (\<lambda>r2.
          rbind (if hess_flag then
                   if length src_hess < s + n then Inl (Abort OTHER_ERROR)
                   else copy_hessians t n s src_hess r2
                 else Inr r2) (\<lambda>r3.
          if \<not> active_set_eq (responseActiveSet r3) src_set then reset_inactive r3 else Inr r3))))"

definition update_partial ::
  "nat \<Rightarrow> nat \<Rightarrow> 'r response \<Rightarrow> nat \<Rightarrow> 'r::zero response \<Rightarrow> 'r response result" where
  "update_partial t n src s r =
    update_partial_data t n (functionValues src) (functionGradients src) (functionHessians src)
      (responseActiveSet src) s r"

definition set_metadata_from :: "'r list \<Rightarrow> nat \<Rightarrow> 'r response \<Rightarrow> 'r response result" where
  "set_metadata_from md start r =
    (if length (metaData r) < start + length md then Inl (Abort RESP_ERROR)
     else Inr (r\<lparr>metaData := map_index (\<lambda>i x. if start \<le> i \<and> i < start + length md
       then md ! (i - start) else x) (metaData r)\<rparr>))"

definition overlay :: "'r response \<Rightarrow> 'r::plus response \<Rightarrow> 'r response result" where
  "overlay src r =
    (let asv = resp_asv r; np = length (resp_dvv r); v = functionValues r;
         g = functionGradients r; h = functionHessians r;
         sg = functionGradients src; sh = functionHessians src
     in if (\<exists>i \<in> set [0..<length asv]. req_val (asv ! i) \<and>
              (i \<ge> length v \<or> i \<ge> length (functionValues src))) \<or>
           length (m_cols g) > length asv \<or> length h > length asv \<or>
           (\<exists>i \<in> set [0..<length (m_cols g)]. req_grad (asv ! i) \<and> 0 < np \<and>
              (i \<ge> length (m_cols sg) \<or> np > m_rows g \<or> np > m_rows sg)) \<or>
           (\<exists>i \<in> set [0..<length h]. req_hess (asv ! i) \<and> 0 < np \<and>
              (i \<ge> length sh \<or> np > length (h ! i) \<or> np > length (sh ! i)))
        then Inl (UndefinedBehaviour ''index'')
        else Inr (r\<lparr>
          functionValues := map_index (\<lambda>i x. if i < length asv \<and> req_val (asv ! i)
            then x + functionValues src ! i else x) v,
          functionGradients := g\<lparr>m_cols := map_index (\<lambda>i c. if req_grad (asv ! i)
            then map_index (\<lambda>j x. if j < np then x + m_cols sg ! i ! j else x) c else c) (m_cols g)\<rparr>,
          functionHessians := map_index (\<lambda>i hi. if req_hess (asv ! i)
            then map_index (\<lambda>j row. map_index (\<lambda>k x. if j < np then x + sh ! i ! j ! k else x) row) hi
            else hi) h\<rparr>))"

section \<open>Raw arrays and messages\<close>

definition data_size :: "'r response \<Rightarrow> nat result" where
  "data_size r =
    (let asv = resp_asv r; grad_size = length (resp_dvv r);
         hess_size = grad_size * (grad_size + 1) div 2
     in if length (functionValues r) > length asv then Inl (UndefinedBehaviour ''index'')
        else Inr (foldl (\<lambda>size i.
               size + (if req_val (asv ! i) then 1 else 0) +
               (if req_grad (asv ! i) then grad_size else 0) +
               (if req_hess (asv ! i) then hess_size else 0)) 0 [0..<length (functionValues r)]))"

text \<open>The blocks of a response that its request vector selects, each with its flag.\<close>

definition value_blocks :: "'r response \<Rightarrow> (bool \<times> 'r) list" where
  "value_blocks r = zip (map req_val (resp_asv r)) (functionValues r)"

definition gradient_blocks :: "'r response \<Rightarrow> (bool \<times> 'r list) list" where
  "gradient_blocks r = zip (map req_grad (resp_asv r))
    (map (take (length (resp_dvv r))) (m_cols (functionGradients r)))"

definition hessian_blocks :: "'r response \<Rightarrow> (bool \<times> 'r symmat) list" where
  "hessian_blocks r = zip (map req_hess (resp_asv r))
    (map (take (length (resp_dvv r))) (functionHessians r))"

text \<open>Bounds that the loops of \<^verbatim>\<open>read_data\<close> and \<^verbatim>\<open>write_data\<close> rely on.\<close>

definition blocks_in_bounds :: "'r response \<Rightarrow> bool" where
  "blocks_in_bounds r \<longleftrightarrow>
    (let asv = resp_asv r; np = length (resp_dvv r); g = functionGradients r; h = functionHessians r in
     length (functionValues r) \<le> length asv \<and> length (m_cols g) \<le> length asv \<and>
     length h \<le> length asv \<and>
     (\<forall>i \<in> set [0..<length (m_cols g)]. req_grad (asv ! i) \<longrightarrow> np \<le> m_rows g) \<and>
     (\<forall>i \<in> set [0..<length h]. req_hess (asv ! i) \<longrightarrow> np \<le> length (h ! i)))"

definition write_data :: "'r response \<Rightarrow> 'r list result" where
  "write_data r =
    (if \<not> blocks_in_bounds r then Inl (UndefinedBehaviour ''index'')
     else Inr (write_flagged put_double (value_blocks r) @
       write_flagged (write_n put_double) (gradient_blocks r) @
       write_flagged (write_lower_triangle put_double) (hessian_blocks r)))"

text \<open>Overwrite the leading entries of a block.\<close>

definition over_prefix :: "'a list \<Rightarrow> 'a list \<Rightarrow> 'a list" where
  "over_prefix new old = new @ drop (length new) old"

definition read_data :: "'r list \<Rightarrow> 'r response \<Rightarrow> 'r response result" where
  "read_data buf r =
    (let np = length (resp_dvv r); g = functionGradients r; h = functionHessians r in
     if \<not> blocks_in_bounds r then Inl (UndefinedBehaviour ''index'')
     else rbind (read_flagged get_double (value_blocks r) buf) (\<lambda>(vals, b1).
       rbind (read_flagged (read_n get_double np) (gradient_blocks r) b1) (\<lambda>(grads, b2).
       rbind (read_flagged (read_lower_triangle get_double 0 np) (hessian_blocks r) b2) (\<lambda>(hess, b3).
         Inr (r\<lparr>functionValues := vals,
                functionGradients := g\<lparr>m_cols := map2 over_prefix grads (m_cols g)\<rparr>,
                functionHessians := map2 over_prefix hess h\<rparr>)))))"

text \<open>
  \<^verbatim>\<open>write_rep\<close> and \<^verbatim>\<open>read_rep\<close> for message buffers: whether gradients and Hessians are allocated,
  the active set, the number of metadata items, then the requested blocks and the metadata.  The
  column and triangle operators transfer whole columns and triangles.
\<close>

definition write_rep :: "'r response \<Rightarrow> 'r buffer result" where
  "write_rep r =
    (let asv = resp_asv r; g = functionGradients r; h = functionHessians r in
     if (\<exists>i \<in> set [0..<length asv]. (req_val (asv ! i) \<and> i \<ge> length (functionValues r)) \<or>
          (req_grad (asv ! i) \<and> 0 < m_rows g \<and> i \<ge> length (m_cols g)) \<or>
          (req_hess (asv ! i) \<and> i \<ge> length h))
     then Inl (UndefinedBehaviour ''index'')
     else Inr (put_bool (\<not> mat_empty g) @ put_bool (h \<noteq> []) @ ActiveSet_write (responseActiveSet r) @
       put_size (length (metaData r)) @
       write_flagged put_real (zip (map req_val asv) (functionValues r)) @
       write_flagged (write_n put_real) (zip (map req_grad asv) (m_cols g)) @
       write_flagged (write_lower_triangle put_real) (zip (map req_hess asv) h) @
       write_container put_real (metaData r)))"

definition read_rep :: "'r buffer \<Rightarrow> 'r::zero response \<Rightarrow> ('r response \<times> 'r buffer) result" where
  "read_rep s0 r0 =
    rbind (get_bool s0) (\<lambda>(grad_flag, s1).
    rbind (get_bool s1) (\<lambda>(hess_flag, s2).
    rbind (ActiveSet_read s2) (\<lambda>(aset, s3).
    rbind (get_size s3) (\<lambda>(num_metadata, s4).
      let r1 = r0\<lparr>responseActiveSet := aset\<rparr>;
          asv = requestVector aset; num_fns = length asv; np = length (derivVarsVector aset);
          r2 = reset (reshape_rep num_fns np grad_flag hess_flag r1);
          g = functionGradients r2; h = functionHessians r2
      in if (\<exists>i \<in> set [0..<num_fns]. (req_grad (asv ! i) \<and> 0 < m_rows g \<and> i \<ge> length (m_cols g)) \<or>
              (req_hess (asv ! i) \<and> i \<ge> length h))
         then Inl (UndefinedBehaviour ''index'')
         else rbind (read_flagged get_real (zip (map req_val asv) (functionValues r2)) s4) (\<lambda>(vals, s5).
           rbind (read_flagged (read_n get_real (m_rows g)) (zip (map req_grad asv) (m_cols g)) s5)
             (\<lambda>(grads, s6).
           rbind (read_flagged (read_lower_triangle get_real 0 np) (zip (map req_hess asv) h) s6)
             (\<lambda>(hess, s7).
           rbind (container_read get_real s7) (\<lambda>(md, s8).
             Inr (r2\<lparr>functionValues := vals, functionGradients := g\<lparr>m_cols := over_prefix grads (m_cols g)\<rparr>,
                     functionHessians := hess, metaData := md\<rparr>, s8)))))))))"

section \<open>Derivatives for a subset of the variables\<close>

text \<open>
  The merge loop over two id vectors; the arguments are the remaining ids with the index of the
  next one.  An exhausted vector stands for the sentinel \<^verbatim>\<open>SZ_MAX\<close>, which no id reaches.
\<close>

fun map_dvv_loop ::
  "nat list \<Rightarrow> nat \<Rightarrow> nat list \<Rightarrow> nat \<Rightarrow> (nat list \<times> nat list) result" where
  "map_dvv_loop [] a [] c = Inr ([], [])"
| "map_dvv_loop (av # as) a [] c = map_dvv_loop as (Suc a) [] c"
| "map_dvv_loop [] a (cv # cs) c = Inl (Abort RESP_ERROR)"
| "map_dvv_loop (av # as) a (cv # cs) c =
    (if av < cv then map_dvv_loop as (Suc a) (cv # cs) c
     else if cv < av then Inl (Abort RESP_ERROR)
     else rbind (map_dvv_loop as (Suc a) cs (Suc c)) (\<lambda>(ai, ci). Inr (a # ai, c # ci)))"

definition map_dvv_indices :: "nat list \<Rightarrow> 'r response \<Rightarrow> (nat list \<times> nat list) result" where
  "map_dvv_indices assign_dvv r =
    rbind (map_dvv_loop assign_dvv 0 (resp_dvv r) 0) (\<lambda>(ai, ci).
      if length ci \<noteq> length (resp_dvv r) then Inl (Abort RESP_ERROR) else Inr (ai, ci))"

definition function_gradient_indices ::
  "'r list \<Rightarrow> nat \<Rightarrow> nat list \<Rightarrow> nat list \<Rightarrow> 'r response \<Rightarrow> 'r response result" where
  "function_gradient_indices assign_grad i ai ci r =
    (let g = functionGradients r in
     if ci \<noteq> [] \<and> (i \<ge> length (m_cols g) \<or> length ai < length ci \<or>
         (\<exists>k \<in> set [0..<length ci]. ci ! k \<ge> m_rows g \<or> ai ! k \<ge> length assign_grad))
     then Inl (UndefinedBehaviour ''index'')
     else Inr (r\<lparr>functionGradients := g\<lparr>m_cols := (m_cols g)[i :=
       foldl (\<lambda>c k. c[ci ! k := assign_grad ! (ai ! k)]) (m_cols g ! i) [0..<length ci]]\<rparr>\<rparr>))"

text \<open>\<^verbatim>\<open>Teuchos::setCol\<close> copies \<open>numRows\<close> entries.\<close>

definition function_gradient_dvv ::
  "'r list \<Rightarrow> nat \<Rightarrow> nat list \<Rightarrow> 'r response \<Rightarrow> 'r response result" where
  "function_gradient_dvv assign_grad i assign_dvv r =
    (let g = functionGradients r in
     if assign_dvv = resp_dvv r then
       if i \<ge> length (m_cols g) \<or> length assign_grad < m_rows g then Inl (UndefinedBehaviour ''index'')
       else Inr (r\<lparr>functionGradients := g\<lparr>m_cols := (m_cols g)[i := take (m_rows g) assign_grad]\<rparr>\<rparr>)
     else rbind (map_dvv_loop assign_dvv 0 (resp_dvv r) 0) (\<lambda>(ai, ci).
       function_gradient_indices assign_grad i ai ci r))"

definition function_hessian_indices ::
  "'r symmat \<Rightarrow> nat \<Rightarrow> nat list \<Rightarrow> nat list \<Rightarrow> 'r response \<Rightarrow> 'r response result" where
  "function_hessian_indices assign_hessian i ai ci r =
    (let h = functionHessians r in
     if ci \<noteq> [] \<and> (i \<ge> length h \<or> length ai < length ci \<or>
         (\<exists>k \<in> set [0..<length ci]. ci ! k \<ge> length (h ! i) \<or> ai ! k \<ge> length assign_hessian))
     then Inl (UndefinedBehaviour ''index'')
     else Inr (r\<lparr>functionHessians := h[i :=
       foldl (\<lambda>m (p, q). sym_set (ci ! p) (ci ! q) (sym_get assign_hessian (ai ! p) (ai ! q)) m) (h ! i)
         (concat (map (\<lambda>p. map (Pair p) [0..<Suc p]) [0..<length ci]))]\<rparr>))"

definition function_hessian_dvv ::
  "'r symmat \<Rightarrow> nat \<Rightarrow> nat list \<Rightarrow> 'r response \<Rightarrow> 'r response result" where
  "function_hessian_dvv assign_hessian i assign_dvv r =
    (if assign_dvv = resp_dvv r then
       if i \<ge> length (functionHessians r) then Inl (UndefinedBehaviour ''index'')
       else Inr (r\<lparr>functionHessians := (functionHessians r)[i := assign_hessian]\<rparr>)
     else rbind (map_dvv_indices assign_dvv r) (\<lambda>(ai, ci).
       function_hessian_indices assign_hessian i ai ci r))"

section \<open>Well-formed responses\<close>

definition tri_wf :: "nat \<Rightarrow> 'r symmat \<Rightarrow> bool" where
  "tri_wf n h \<longleftrightarrow> length h = n \<and> (\<forall>j < n. length (h ! j) = Suc j)"

text \<open>
  Array sizes agree with the active set: a value per function; gradients and Hessians, if
  allocated, with one block per function, sized by the derivative variables.
\<close>

definition resp_wf :: "'r response \<Rightarrow> bool" where
  "resp_wf r \<longleftrightarrow>
    (let nf = length (resp_asv r); np = length (resp_dvv r); g = functionGradients r in
     length (functionValues r) = nf \<and>
     (m_cols g = [] \<or> m_rows g = np \<and> length (m_cols g) = nf \<and> (\<forall>c \<in> set (m_cols g). length c = np)) \<and>
     (functionHessians r = [] \<or>
       length (functionHessians r) = nf \<and> (\<forall>h \<in> set (functionHessians r). tri_wf np h)))"

text \<open>The arrays are rectangular and triangular, of any size.\<close>

definition resp_shaped :: "'r response \<Rightarrow> bool" where
  "resp_shaped r \<longleftrightarrow>
    (\<forall>c \<in> set (m_cols (functionGradients r)). length c = m_rows (functionGradients r)) \<and>
    (\<forall>h \<in> set (functionHessians r). tri_wf (length h) h)"

text \<open>Requested derivatives are allocated.\<close>

definition resp_ready :: "'r response \<Rightarrow> bool" where
  "resp_ready r \<longleftrightarrow> resp_wf r \<and>
    (list_ex req_grad (resp_asv r) \<longrightarrow> m_cols (functionGradients r) \<noteq> []) \<and>
    (list_ex req_hess (resp_asv r) \<longrightarrow> functionHessians r \<noteq> [])"

text \<open>Data of function \<open>i\<close> that \<open>r\<close> asks for agrees with \<open>src\<close>.\<close>

definition agrees_where_requested :: "'r response \<Rightarrow> 'r response \<Rightarrow> nat \<Rightarrow> bool" where
  "agrees_where_requested r src i \<longleftrightarrow>
    (req_val (resp_asv r ! i) \<longrightarrow> functionValues r ! i = functionValues src ! i) \<and>
    (req_grad (resp_asv r ! i) \<longrightarrow> m_cols (functionGradients r) ! i =
      take (length (resp_dvv r)) (m_cols (functionGradients src) ! i)) \<and>
    (req_hess (resp_asv r ! i) \<longrightarrow> functionHessians r ! i =
      take (length (resp_dvv r)) (functionHessians src ! i))"

definition zero_where_not_requested :: "'r::zero response \<Rightarrow> nat \<Rightarrow> bool" where
  "zero_where_not_requested r i \<longleftrightarrow>
    (\<not> req_val (resp_asv r ! i) \<longrightarrow> functionValues r ! i = 0) \<and>
    (\<not> req_grad (resp_asv r ! i) \<and> i < length (m_cols (functionGradients r)) \<longrightarrow>
      (\<forall>x \<in> set (m_cols (functionGradients r) ! i). x = 0)) \<and>
    (\<not> req_hess (resp_asv r ! i) \<and> i < length (functionHessians r) \<longrightarrow>
      (\<forall>row \<in> set (functionHessians r ! i). \<forall>x \<in> set row. x = 0))"

text \<open>Two functions of two variables, with everything allocated.\<close>

definition example_response :: "short list \<Rightarrow> int response" where
  "example_response asv = \<lparr>functionValues = [5, 7],
     functionGradients = \<lparr>m_rows = 2, m_cols = [[1, 2], [3, 4]]\<rparr>,
     functionHessians = [[[1], [2, 3]], [[4], [5, 6]]],
     responseActiveSet = \<lparr>requestVector = asv, derivVarsVector = [1, 2]\<rparr>, metaData = [9]\<rparr>"

section \<open>Sizes\<close>

lemma copy_prefix_take:
  "length dst = n \<Longrightarrow> n \<le> length src \<Longrightarrow> copy_prefix n src dst = take n src"
  by (rule nth_equalityI) (simp_all add: copy_prefix_def)

lemma copy_triangle_take:
  assumes "tri_wf n dst" "tri_wf m src" "n \<le> m"
  shows "copy_triangle n src dst = take n src"
proof (rule nth_equalityI)
  show "length (copy_triangle n src dst) = length (take n src)"
    using assms by (simp add: copy_triangle_def tri_wf_def)
next
  fix j assume "j < length (copy_triangle n src dst)"
  then have j: "j < n" using assms by (simp add: copy_triangle_def tri_wf_def)
  then show "copy_triangle n src dst ! j = take n src ! j"
    using assms by (simp add: copy_triangle_def tri_wf_def copy_prefix_take)
qed

lemma tri_wf_take: "tri_wf m h \<Longrightarrow> n \<le> m \<Longrightarrow> tri_wf n (take n h)"
  by (simp add: tri_wf_def)

lemma tri_wf_sym_zero [simp]: "tri_wf n (sym_zero n)"
  by (simp add: tri_wf_def sym_zero_def)

lemma tri_wf_sym_reshape: "(\<And>j. j < length h \<Longrightarrow> length (h ! j) = Suc j) \<Longrightarrow> tri_wf n (sym_reshape n h)"
  by (simp add: tri_wf_def sym_reshape_def)

lemma tri_wf_sym_fill [simp]: "tri_wf n (sym_fill x h) = tri_wf n h"
  by (auto simp: tri_wf_def sym_fill_def)

lemma mat_reshape_sizes [simp]:
  "m_rows (mat_reshape r c m) = r" "length (m_cols (mat_reshape r c m)) = c"
  "col \<in> set (m_cols (mat_reshape r c m)) \<Longrightarrow> length col = r"
  by (auto simp: mat_reshape_def)

lemma resp_sel_update [simp]:
  "resp_asv (r\<lparr>functionValues := v\<rparr>) = resp_asv r" "resp_dvv (r\<lparr>functionValues := v\<rparr>) = resp_dvv r"
  "resp_asv (r\<lparr>functionGradients := g\<rparr>) = resp_asv r" "resp_dvv (r\<lparr>functionGradients := g\<rparr>) = resp_dvv r"
  "resp_asv (r\<lparr>functionHessians := h\<rparr>) = resp_asv r" "resp_dvv (r\<lparr>functionHessians := h\<rparr>) = resp_dvv r"
  "resp_asv (r\<lparr>metaData := md\<rparr>) = resp_asv r" "resp_dvv (r\<lparr>metaData := md\<rparr>) = resp_dvv r"
  "resp_asv (r\<lparr>responseActiveSet := s\<rparr>) = requestVector s"
  "resp_dvv (r\<lparr>responseActiveSet := s\<rparr>) = derivVarsVector s"
  by (simp_all add: resp_asv_def resp_dvv_def)

text \<open>Shaping from an active set gives a response that is ready for it.\<close>

lemma shape_rep_ready:
  assumes "responseActiveSet r = s" "m_cols (functionGradients r) = []" "functionHessians r = []"
  shows "resp_ready (shape_rep junk s initialize r)"
  using assms
  by (auto simp: resp_ready_def resp_wf_def shape_rep_def Let_def resp_asv_def resp_dvv_def tri_wf_def
      in_set_replicate list_ex_iff)

lemma reshape_rep_hessians:
  assumes old: "\<forall>hi \<in> set (functionHessians r). \<forall>j < length hi. length (hi ! j) = Suc j" and hf
  shows "\<forall>hi \<in> set (functionHessians (reshape_rep nf np gf hf r)). tri_wf np hi"
proof
  let ?r = "reshape_rep nf np gf hf r"
  let ?old = "if length (functionHessians r) \<noteq> nf then vec_resize [] nf (functionHessians r)
    else functionHessians r"
  fix hi assume hi: "hi \<in> set (functionHessians ?r)"
  have "functionHessians ?r = map (\<lambda>hi. if length hi \<noteq> np then sym_reshape np hi else hi) ?old"
    using assms(2) by (simp add: reshape_rep_def)
  with hi have "\<exists>h0 \<in> set ?old. hi = (if length h0 \<noteq> np then sym_reshape np h0 else h0)"
    by (simp only: set_map) blast
  then obtain h0 where h0: "h0 \<in> set ?old" "hi = (if length h0 \<noteq> np then sym_reshape np h0 else h0)"
    by blast
  from h0(1) have "h0 \<in> set (functionHessians r) \<union> {[]}"
    by (auto simp: vec_resize_def split: if_splits dest: in_set_takeD)
  then have "\<forall>j < length h0. length (h0 ! j) = Suc j" using old by auto
  then show "tri_wf np hi" unfolding h0(2) by (auto simp: tri_wf_sym_reshape) (simp add: tri_wf_def)
qed

lemma reshape_rep_wf:
  assumes r: "resp_wf r" and np: "gf \<or> resp_dvv r \<noteq> [] \<or> m_cols (functionGradients r) = []"
  shows "resp_wf (reshape_rep nf np gf hf r)"
    and "length (resp_asv (reshape_rep nf np gf hf r)) = nf"
    and "length (resp_dvv (reshape_rep nf np gf hf r)) = np"
    and "gf \<Longrightarrow> m_rows (functionGradients (reshape_rep nf np gf hf r)) = np \<and>
      length (m_cols (functionGradients (reshape_rep nf np gf hf r))) = nf"
    and "hf \<Longrightarrow> length (functionHessians (reshape_rep nf np gf hf r)) = nf"
proof -
  let ?r = "reshape_rep nf np gf hf r"
  have "responseActiveSet ?r = (if length (resp_asv r) \<noteq> nf \<or> length (resp_dvv r) \<noteq> np
      then reshape nf np (responseActiveSet r) else responseActiveSet r)"
    by (simp add: reshape_rep_def Let_def)
  then show a: "length (resp_asv ?r) = nf" and d: "length (resp_dvv ?r) = np"
    by (simp_all add: resp_asv_def resp_dvv_def)
  have v: "length (functionValues ?r) = nf" by (simp add: reshape_rep_def Let_def)
  show g: "gf \<Longrightarrow> m_rows (functionGradients ?r) = np \<and> length (m_cols (functionGradients ?r)) = nf"
    by (simp add: reshape_rep_def Let_def)
  show h: "hf \<Longrightarrow> length (functionHessians ?r) = nf" by (simp add: reshape_rep_def Let_def)
  have gc: "\<forall>c \<in> set (m_cols (functionGradients ?r)). length c = np" if gf
  proof -
    have "functionGradients ?r = (if m_rows (functionGradients r) \<noteq> np \<or>
        length (m_cols (functionGradients r)) \<noteq> nf then mat_reshape np nf (functionGradients r)
        else functionGradients r)"
      using that by (simp add: reshape_rep_def Let_def)
    then show ?thesis using r by (auto simp: resp_wf_def Let_def)
  qed
  have ng: "m_cols (functionGradients ?r) = []" if "\<not> gf"
  proof -
    have "functionGradients ?r = (if mat_empty (functionGradients r) then functionGradients r
        else mat_zero 0 0)"
      using that by (simp add: reshape_rep_def Let_def)
    then show ?thesis
      using r np that by (auto simp: resp_wf_def Let_def mat_empty_def mat_zero_def)
  qed
  have nh: "functionHessians ?r = []" if "\<not> hf"
    using that by (simp add: reshape_rep_def Let_def)
  have "\<forall>hi \<in> set (functionHessians r). \<forall>j < length hi. length (hi ! j) = Suc j"
    using r by (auto simp: resp_wf_def Let_def tri_wf_def)
  then have hc: "\<forall>hi \<in> set (functionHessians ?r). tri_wf np hi" if hf
    using that by (rule reshape_rep_hessians)
  show "resp_wf ?r"
    unfolding resp_wf_def Let_def a d using v g gc ng nh h hc by (cases gf; cases hf) simp_all
qed

lemma reset_wf: "resp_wf (reset r) = resp_wf r"
  by (auto simp: resp_wf_def Let_def reset_def resp_asv_def resp_dvv_def)

section \<open>Updating from another response\<close>

text \<open>A source that can serve a request: large enough, with the requested derivatives.\<close>

lemma list_ex_nth: "i < length xs \<Longrightarrow> P (xs ! i) \<Longrightarrow> list_ex P xs"
  by (auto simp: list_ex_iff)

lemma copy_values_ready:
  assumes "resp_wf r" "resp_wf src" "length (resp_asv r) \<le> length (resp_asv src)"
  shows "copy_values 0 (length (resp_asv r)) 0 (functionValues src) r =
    Inr (r\<lparr>functionValues := map_index (\<lambda>i x. if req_val (resp_asv r ! i)
      then functionValues src ! i else x) (functionValues r)\<rparr>)"
proof -
  have l: "length (functionValues r) = length (resp_asv r)"
    "length (functionValues src) = length (resp_asv src)"
    using assms by (simp_all add: resp_wf_def Let_def)
  then have "map_index (\<lambda>i x. if i < length (resp_asv r) \<and> req_val (resp_asv r ! i)
        then functionValues src ! i else x) (functionValues r) =
      map_index (\<lambda>i x. if req_val (resp_asv r ! i) then functionValues src ! i else x) (functionValues r)"
    by (intro map_index_cong) auto
  then show ?thesis using l assms(3) by (auto simp: copy_values_def Let_def cong: if_cong)
qed

lemma copy_gradients_ready:
  assumes "resp_wf r" "m_cols (functionGradients r) \<noteq> []"
    "resp_wf src" "m_cols (functionGradients src) \<noteq> []"
    "length (resp_asv r) \<le> length (resp_asv src)" "length (resp_dvv r) \<le> length (resp_dvv src)"
  shows "copy_gradients 0 (length (resp_asv r)) 0 (functionGradients src) r =
    Inr (r\<lparr>functionGradients := (functionGradients r)\<lparr>m_cols := map_index (\<lambda>i c.
      if req_grad (resp_asv r ! i)
      then take (length (resp_dvv r)) (m_cols (functionGradients src) ! i) else c)
        (m_cols (functionGradients r))\<rparr>\<rparr>)"
proof -
  let ?np = "length (resp_dvv r)" and ?g = "functionGradients r" and ?s = "functionGradients src"
  have l: "m_rows ?g = ?np" "length (m_cols ?g) = length (resp_asv r)"
    "\<forall>i < length (m_cols ?g). length (m_cols ?g ! i) = ?np"
    "m_rows ?s = length (resp_dvv src)" "length (m_cols ?s) = length (resp_asv src)"
    "\<forall>i < length (m_cols ?s). length (m_cols ?s ! i) = length (resp_dvv src)"
    using assms(1-4) by (auto simp: resp_wf_def Let_def)
  have "map_index (\<lambda>i c. if i < length (resp_asv r) \<and> req_grad (resp_asv r ! i)
        then copy_prefix ?np (m_cols ?s ! i) c else c) (m_cols ?g) =
      map_index (\<lambda>i c. if req_grad (resp_asv r ! i) then take ?np (m_cols ?s ! i) else c) (m_cols ?g)"
    using l assms(5,6) by (intro map_index_cong) (auto simp: copy_prefix_take)
  then show ?thesis using l assms(5,6) by (auto simp: copy_gradients_def Let_def cong: if_cong)
qed

lemma copy_hessians_ready:
  assumes "resp_wf r" "functionHessians r \<noteq> []" "resp_wf src" "functionHessians src \<noteq> []"
    "length (resp_asv r) \<le> length (resp_asv src)" "length (resp_dvv r) \<le> length (resp_dvv src)"
  shows "copy_hessians 0 (length (resp_asv r)) 0 (functionHessians src) r =
    Inr (r\<lparr>functionHessians := map_index (\<lambda>i h. if req_hess (resp_asv r ! i)
      then take (length (resp_dvv r)) (functionHessians src ! i) else h) (functionHessians r)\<rparr>)"
proof -
  let ?np = "length (resp_dvv r)" and ?h = "functionHessians r" and ?s = "functionHessians src"
  have l: "length ?h = length (resp_asv r)" "\<forall>i < length ?h. tri_wf ?np (?h ! i)"
    "length ?s = length (resp_asv src)" "\<forall>i < length ?s. tri_wf (length (resp_dvv src)) (?s ! i)"
    using assms(1-4) by (auto simp: resp_wf_def Let_def)
  then have n: "\<forall>i < length ?h. length (?h ! i) = ?np"
      "\<forall>i < length ?s. length (?s ! i) = length (resp_dvv src)"
    by (auto simp: tri_wf_def)
  have "map_index (\<lambda>i hi. if i < length (resp_asv r) \<and> req_hess (resp_asv r ! i)
        then copy_triangle ?np (?s ! i) hi else hi) ?h =
      map_index (\<lambda>i h. if req_hess (resp_asv r ! i) then take ?np (?s ! i) else h) ?h"
    using l assms(5,6) by (intro map_index_cong)
      (auto intro!: copy_triangle_take [where m = "length (resp_dvv src)"])
  then show ?thesis using l n assms(5,6) by (auto simp: copy_hessians_def Let_def cong: if_cong)
qed

lemma reset_inactive_ready:
  assumes "resp_wf r"
  shows "\<exists>r'. reset_inactive r = Inr r' \<and> resp_wf r' \<and> responseActiveSet r' = responseActiveSet r \<and>
    metaData r' = metaData r \<and>
    (\<forall>i < length (resp_asv r). zero_where_not_requested r' i \<and>
      (req_val (resp_asv r ! i) \<longrightarrow> functionValues r' ! i = functionValues r ! i) \<and>
      (req_grad (resp_asv r ! i) \<and> m_cols (functionGradients r) \<noteq> [] \<longrightarrow>
        m_cols (functionGradients r') ! i = m_cols (functionGradients r) ! i) \<and>
      (req_hess (resp_asv r ! i) \<and> functionHessians r \<noteq> [] \<longrightarrow>
        functionHessians r' ! i = functionHessians r ! i)) \<and>
    (m_cols (functionGradients r') = [] \<longleftrightarrow> m_cols (functionGradients r) = []) \<and>
    (functionHessians r' = [] \<longleftrightarrow> functionHessians r = [])"
proof -
  let ?asv = "resp_asv r" and ?g = "functionGradients r" and ?h = "functionHessians r"
  have l: "length (functionValues r) = length ?asv" "length (m_cols ?g) \<le> length ?asv"
      "length ?h \<le> length ?asv"
    using assms by (auto simp: resp_wf_def Let_def)
  define r' where "r' = r\<lparr>
       functionValues := map_index (\<lambda>i x. if i < length ?asv \<and> \<not> req_val (?asv ! i) then 0 else x)
         (functionValues r),
       functionGradients := ?g\<lparr>m_cols := map_index (\<lambda>i c. if \<not> req_grad (?asv ! i)
         then map (\<lambda>_. 0) c else c) (m_cols ?g)\<rparr>,
       functionHessians := map_index (\<lambda>i hi. if \<not> req_hess (?asv ! i) then sym_fill 0 hi else hi) ?h\<rparr>"
  have e: "reset_inactive r = Inr r'"
    using l by (auto simp: reset_inactive_def Let_def r'_def)
  have s: "resp_asv r' = ?asv" "resp_dvv r' = resp_dvv r" by (simp_all add: r'_def)
  have w: "resp_wf r'"
    using assms unfolding resp_wf_def Let_def s
    by (auto simp: r'_def all_set_conv_all_nth)
  have gl: "\<And>i. i < length ?asv \<Longrightarrow> m_cols ?g \<noteq> [] \<Longrightarrow> i < length (m_cols ?g)"
    and hl: "\<And>i. i < length ?asv \<Longrightarrow> ?h \<noteq> [] \<Longrightarrow> i < length ?h"
    using assms by (auto simp: resp_wf_def Let_def)
  have z: "zero_where_not_requested r' i" if "i < length ?asv" for i
    using that l unfolding zero_where_not_requested_def s
    by (auto simp: r'_def sym_fill_def)
  show ?thesis
    using e w z l gl hl by (auto simp: r'_def map_index_def)
qed


text \<open>The central fact on \<^verbatim>\<open>update\<close>.\<close>

lemma update_ready:
  assumes r: "resp_ready r" and src: "resp_wf src"
    and nf: "length (resp_asv r) \<le> length (resp_asv src)"
    and g: "list_ex req_grad (resp_asv r) \<Longrightarrow> m_cols (functionGradients src) \<noteq> []"
    and h: "list_ex req_hess (resp_asv r) \<Longrightarrow> functionHessians src \<noteq> []"
    and np: "list_ex req_grad (resp_asv r) \<or> list_ex req_hess (resp_asv r) \<Longrightarrow>
      length (resp_dvv r) \<le> length (resp_dvv src)"
  shows "\<exists>r'. update src pm r = Inr r' \<and> resp_ready r' \<and> responseActiveSet r' = responseActiveSet r \<and>
    metaData r' = (if pm then metaData src else metaData r) \<and>
    (\<forall>i < length (resp_asv r). agrees_where_requested r' src i \<and>
      (responseActiveSet r \<noteq> responseActiveSet src \<longrightarrow> zero_where_not_requested r' i))"
proof -
  let ?asv = "resp_asv r" and ?np = "length (resp_dvv r)"
  let ?gf = "list_ex req_grad ?asv" and ?hf = "list_ex req_hess ?asv"
  have wf: "resp_wf r" and rg: "?gf \<Longrightarrow> m_cols (functionGradients r) \<noteq> []"
    and rh: "?hf \<Longrightarrow> functionHessians r \<noteq> []" using r by (simp_all add: resp_ready_def)
  define r1 where "r1 = r\<lparr>functionValues := map_index (\<lambda>i x. if req_val (?asv ! i)
      then functionValues src ! i else x) (functionValues r)\<rparr>"
  define r2 where "r2 = (if ?gf then r1\<lparr>functionGradients := (functionGradients r)\<lparr>m_cols :=
      map_index (\<lambda>i c. if req_grad (?asv ! i) then take ?np (m_cols (functionGradients src) ! i) else c)
        (m_cols (functionGradients r))\<rparr>\<rparr> else r1)"
  define r3 where "r3 = (if ?hf then r2\<lparr>functionHessians := map_index (\<lambda>i h. if req_hess (?asv ! i)
      then take ?np (functionHessians src ! i) else h) (functionHessians r)\<rparr> else r2)"
  have s1: "resp_asv r1 = ?asv" "resp_dvv r1 = resp_dvv r" "functionGradients r1 = functionGradients r"
    "functionHessians r1 = functionHessians r" "responseActiveSet r1 = responseActiveSet r"
    by (simp_all add: r1_def)
  have s2: "resp_asv r2 = ?asv" "resp_dvv r2 = resp_dvv r" "functionHessians r2 = functionHessians r"
    "responseActiveSet r2 = responseActiveSet r" by (simp_all add: r2_def s1)
  have s3: "resp_asv r3 = ?asv" "resp_dvv r3 = resp_dvv r" "responseActiveSet r3 = responseActiveSet r"
    "metaData r3 = metaData r"
    by (simp_all add: r3_def s2) (simp add: r2_def r1_def)
  have w1: "resp_wf r1" using wf unfolding resp_wf_def Let_def s1 by (simp add: r1_def)
  have gl: "?gf \<Longrightarrow> length (m_cols (functionGradients src)) = length (resp_asv src) \<and>
      (\<forall>i < length (resp_asv src). length (m_cols (functionGradients src) ! i) = length (resp_dvv src))"
    using src g by (auto simp: resp_wf_def Let_def)
  have hl: "?hf \<Longrightarrow> length (functionHessians src) = length (resp_asv src) \<and>
      (\<forall>i < length (resp_asv src). tri_wf (length (resp_dvv src)) (functionHessians src ! i))"
    using src h by (auto simp: resp_wf_def Let_def)
  have ht: "?hf \<Longrightarrow> \<forall>i < length (resp_asv src). tri_wf ?np (take ?np (functionHessians src ! i))"
    using hl np tri_wf_take by blast
  have w2: "resp_wf r2"
    using w1 gl nf np unfolding resp_wf_def Let_def s1 s2
    by (auto simp: r2_def s1 all_set_conv_all_nth)
  have w3: "resp_wf r3"
    using w2 ht nf unfolding resp_wf_def Let_def s2 s3
    by (auto simp: r3_def s2 all_set_conv_all_nth)
  have c1: "copy_values 0 (length ?asv) 0 (functionValues src) r = Inr r1"
    using copy_values_ready [OF wf src nf] by (simp add: r1_def)
  have c2: "copy_gradients 0 (length ?asv) 0 (functionGradients src) r1 = Inr r2" if ?gf
    using copy_gradients_ready [OF w1 _ src g [OF that]] rg [OF that] nf np that
    by (simp add: s1 r2_def)
  have c3: "copy_hessians 0 (length ?asv) 0 (functionHessians src) r2 = Inr r3" if ?hf
    using copy_hessians_ready [OF w2 _ src h [OF that]] rh [OF that] nf np that
    by (simp add: s2 r3_def)
  define f where "f = (if responseActiveSet r \<noteq> responseActiveSet src then reset_inactive r3 else Inr r3)"
  have "update_data (functionValues src) (functionGradients src) (functionHessians src)
      (responseActiveSet src) r = f"
  proof -
    have a: "\<not> length (requestVector (responseActiveSet src)) < length ?asv"
      using nf by (simp add: resp_asv_def)
    have b: "\<not> ((?gf \<or> ?hf) \<and> length (derivVarsVector (responseActiveSet src)) < ?np)"
      using np by (auto simp: resp_dvv_def)
    have c: "?gf \<Longrightarrow> \<not> length (m_cols (functionGradients src)) < length ?asv"
      "?hf \<Longrightarrow> \<not> length (functionHessians src) < length ?asv" using gl hl nf by auto
    have e2: "(if ?gf then if length (m_cols (functionGradients src)) < length ?asv
        then Inl (Abort OTHER_ERROR) else copy_gradients 0 (length ?asv) 0 (functionGradients src) r1
        else Inr r1) = Inr r2"
      using c(1) c2 by (cases ?gf) (simp_all add: r2_def)
    have e3: "(if ?hf then if length (functionHessians src) < length ?asv
        then Inl (Abort OTHER_ERROR) else copy_hessians 0 (length ?asv) 0 (functionHessians src) r2
        else Inr r2) = Inr r3"
      using c(2) c3 by (cases ?hf) (simp_all add: r3_def)
    show ?thesis
      unfolding update_data_def Let_def f_def
      by (simp only: a b c1 e2 e3 if_False rbind.simps active_set_eq_iff s3)
  qed
  moreover obtain r4 where f: "f = Inr r4" and w4: "resp_wf r4"
    and s4: "responseActiveSet r4 = responseActiveSet r" "metaData r4 = metaData r"
    and z: "responseActiveSet r \<noteq> responseActiveSet src \<longrightarrow>
      (\<forall>i < length ?asv. zero_where_not_requested r4 i)"
    and keep: "\<forall>i < length ?asv. (req_val (?asv ! i) \<longrightarrow> functionValues r4 ! i = functionValues r3 ! i) \<and>
      (req_grad (?asv ! i) \<and> m_cols (functionGradients r3) \<noteq> [] \<longrightarrow>
        m_cols (functionGradients r4) ! i = m_cols (functionGradients r3) ! i) \<and>
      (req_hess (?asv ! i) \<and> functionHessians r3 \<noteq> [] \<longrightarrow>
        functionHessians r4 ! i = functionHessians r3 ! i)"
    and ne: "(m_cols (functionGradients r4) = [] \<longleftrightarrow> m_cols (functionGradients r3) = []) \<and>
      (functionHessians r4 = [] \<longleftrightarrow> functionHessians r3 = [])"
  proof (cases "responseActiveSet r \<noteq> responseActiveSet src")
    case True
    from reset_inactive_ready [OF w3, unfolded s3] obtain r' where r': "reset_inactive r3 = Inr r'"
      and p: "resp_wf r'" "responseActiveSet r' = responseActiveSet r" "metaData r' = metaData r"
      and q: "\<forall>i<length ?asv. zero_where_not_requested r' i \<and>
        (req_val (?asv ! i) \<longrightarrow> functionValues r' ! i = functionValues r3 ! i) \<and>
        (req_grad (?asv ! i) \<and> m_cols (functionGradients r3) \<noteq> [] \<longrightarrow>
          m_cols (functionGradients r') ! i = m_cols (functionGradients r3) ! i) \<and>
        (req_hess (?asv ! i) \<and> functionHessians r3 \<noteq> [] \<longrightarrow>
          functionHessians r' ! i = functionHessians r3 ! i)"
      and n: "(m_cols (functionGradients r') = [] \<longleftrightarrow> m_cols (functionGradients r3) = []) \<and>
        (functionHessians r' = [] \<longleftrightarrow> functionHessians r3 = [])"
      by blast
    show thesis
      by (rule that [of r', OF _ p _ _ n]) (use True r' q in \<open>simp_all add: f_def\<close>)
  next
    case False
    then show thesis by (intro that [of r3]) (simp_all add: f_def w3 s3)
  qed
  moreover have ag: "agrees_where_requested r4 src i" if i: "i < length ?asv" for i
  proof -
    have q: "req_grad (?asv ! i) \<Longrightarrow> ?gf" "req_hess (?asv ! i) \<Longrightarrow> ?hf" using i by (auto intro: list_ex_nth)
    have lv: "length (functionValues r) = length ?asv"
      "?gf \<Longrightarrow> length (m_cols (functionGradients r)) = length ?asv"
      "?hf \<Longrightarrow> length (functionHessians r) = length ?asv"
      using wf rg rh by (auto simp: resp_wf_def Let_def)
    have v3: "functionValues r3 = functionValues r1" "functionGradients r3 = functionGradients r2"
      by (simp_all add: r3_def r2_def)
    have "resp_asv r4 = ?asv" "resp_dvv r4 = resp_dvv r" by (simp_all add: resp_asv_def resp_dvv_def s4)
    then show ?thesis
      using keep i q rg rh lv by (auto simp: agrees_where_requested_def v3 r1_def r2_def r3_def)
  qed
  moreover have "resp_ready r4"
    using w4 ne rg rh by (auto simp: resp_ready_def resp_asv_def s4 r3_def r2_def s2 s1)
  ultimately have "update src pm r = Inr (if pm then r4\<lparr>metaData := metaData src\<rparr> else r4)"
    and "resp_ready (if pm then r4\<lparr>metaData := metaData src\<rparr> else r4)"
    and "\<And>i. agrees_where_requested (if pm then r4\<lparr>metaData := metaData src\<rparr> else r4) src i =
      agrees_where_requested r4 src i"
    and "\<And>i. zero_where_not_requested (if pm then r4\<lparr>metaData := metaData src\<rparr> else r4) i =
      zero_where_not_requested r4 i"
    by (simp_all add: update_def resp_ready_def resp_wf_def Let_def agrees_where_requested_def
        zero_where_not_requested_def)
  with ag z s4 show ?thesis by (intro exI conjI) (assumption | simp)+
qed

section \<open>Round trips\<close>

interpretation double_column: stream_codec "write_n put_double" "read_n get_double n"
  "\<lambda>c. length c = n" for n
  by unfold_locales (metis double_array.read_write_n list.pred_True)

interpretation double_triangle: stream_codec "write_lower_triangle put_double"
  "read_lower_triangle get_double 0 n" "tri_wf n" for n
proof unfold_locales
  fix h :: "'a symmat" and s
  assume "tri_wf n h"
  then show "read_lower_triangle get_double 0 n (write_lower_triangle put_double h @ s) = Inr (h, s)"
    using double_array.read_write_triangle [of h 0 s] by (simp add: tri_wf_def list.pred_True)
qed

interpretation real_column: stream_codec "write_n put_real" "read_n get_real n"
  "\<lambda>c. length c = n" for n
  by unfold_locales (metis real_item.read_write_n list.pred_True)

interpretation real_triangle: stream_codec "write_lower_triangle put_real"
  "read_lower_triangle get_real 0 n" "tri_wf n" for n
proof unfold_locales
  fix h :: "'a symmat" and s
  assume "tri_wf n h"
  then show "read_lower_triangle get_real 0 n (write_lower_triangle put_real h @ s) = Inr (h, s)"
    using real_item.read_write_triangle [of h 0 s] by (simp add: tri_wf_def list.pred_True)
qed

lemma length_write_flagged:
  "length (write_flagged put xs) = (\<Sum>(f, x) \<leftarrow> xs. if f then length (put x) else 0)"
  by (induction xs) (auto simp: write_flagged_def)

lemma sum_list_zip_upt:
  assumes "length fs = n" "length xs = n"
  shows "(\<Sum>(f, x) \<leftarrow> zip fs xs. if f then g x else 0) = (\<Sum>i \<leftarrow> [0..<n]. if fs ! i then g (xs ! i) else 0)"
proof -
  have "zip fs xs = map (\<lambda>i. (fs ! i, xs ! i)) [0..<n]"
    using assms by (intro nth_equalityI) simp_all
  then show ?thesis by (simp add: comp_def)
qed

lemma length_write_n_double [simp]: "length (write_n put_double c) = length c"
  by (simp add: double_array.length_write_n)

lemma length_write_triangle:
  assumes "tri_wf n h"
  shows "length (write_lower_triangle put_double h) = n * (n + 1) div 2"
proof -
  have "map length h = map Suc [0..<n]"
    using assms by (intro nth_equalityI) (auto simp: tri_wf_def)
  then have "length (write_lower_triangle put_double h) = sum_list (map Suc [0..<n])"
    by (simp add: write_lower_triangle_def length_concat comp_def)
  also have "\<dots> = n * (n + 1) div 2" by (induction n) auto
  finally show ?thesis .
qed

lemma foldl_sum_list: "foldl (\<lambda>s i. s + (f i :: nat)) a xs = a + sum_list (map f xs)"
  by (induction xs arbitrary: a) simp_all

lemma resp_ready_sizes:
  assumes "resp_ready r"
  shows "length (functionValues r) = length (resp_asv r)"
    and "list_ex req_grad (resp_asv r) \<Longrightarrow> length (m_cols (functionGradients r)) = length (resp_asv r) \<and>
      m_rows (functionGradients r) = length (resp_dvv r) \<and>
      (\<forall>c \<in> set (m_cols (functionGradients r)). length c = length (resp_dvv r))"
    and "list_ex req_hess (resp_asv r) \<Longrightarrow> length (functionHessians r) = length (resp_asv r) \<and>
      (\<forall>h \<in> set (functionHessians r). tri_wf (length (resp_dvv r)) h)"
    and "blocks_in_bounds r"
  using assms
  by (auto simp: resp_ready_def resp_wf_def blocks_in_bounds_def Let_def tri_wf_def all_set_conv_all_nth)

lemma no_flags:
  "\<not> list_ex P fs \<Longrightarrow> write_flagged put (zip (map P fs) xs) = []"
  "\<not> list_ex P fs \<Longrightarrow> length xs \<le> length fs \<Longrightarrow> read_flagged get (zip (map P fs) xs) s = Inr (xs, s)"
proof -
  assume n: "\<not> list_ex P fs"
  then have "\<forall>(f, x) \<in> set (zip (map P fs) xs). \<not> f"
    by (auto simp: list_ex_iff dest: set_zip_leftD)
  then show "write_flagged put (zip (map P fs) xs) = []" by (auto simp: write_flagged_def)
next
  assume "\<not> list_ex P fs" "length xs \<le> length fs"
  then show "read_flagged get (zip (map P fs) xs) s = Inr (xs, s)"
    by (induction xs arbitrary: fs) (auto simp: Suc_le_length_iff)
qed


context stream_codec
begin

lemma block_round_trip:
  assumes "list_ex P fs \<Longrightarrow> length xs = length fs \<and> length ys = length fs \<and> (\<forall>y \<in> set ys. ok y)"
    and "length xs \<le> length fs"
  shows "\<exists>zs. read_flagged get (zip (map P fs) xs) (write_flagged put (zip (map P fs) ys) @ s) = Inr (zs, s) \<and>
    length zs = length xs \<and> (\<forall>i < length zs. zs ! i = (if P (fs ! i) then ys ! i else xs ! i))"
proof (cases "list_ex P fs")
  case True
  then show ?thesis
    using assms(1) read_write_flagged [of "map P fs" xs ys s] by auto
next
  case False
  then have "\<not> P (fs ! i)" if "i < length xs" for i
    using that assms(2) by (meson list_ex_nth less_le_trans)
  then show ?thesis
    unfolding no_flags(1) [OF False] by (intro exI [of _ xs]) (simp add: no_flags(2) [OF False assms(2)])
qed

end

lemma length_blocks:
  assumes "list_ex P fs \<Longrightarrow> length ys = length fs \<and> (\<forall>y \<in> set ys. length (put y) = k)"
  shows "length (write_flagged put (zip (map P fs) ys)) = (\<Sum>i \<leftarrow> [0..<length fs]. if P (fs ! i) then k else 0)"
proof (cases "list_ex P fs")
  case True
  have "(\<Sum>i \<leftarrow> [0..<length fs]. if map P fs ! i then length (put (ys ! i)) else 0) =
      (\<Sum>i \<leftarrow> [0..<length fs]. if P (fs ! i) then k else 0)"
    using assms True by (intro arg_cong [where f = sum_list] map_cong) auto
  then show ?thesis using assms [OF True] by (simp add: length_write_flagged sum_list_zip_upt)
next
  case False
  then have "(\<Sum>i \<leftarrow> [0..<length fs]. if P (fs ! i) then k else 0) = 0"
    by (auto simp: list_ex_iff intro!: sum_list_0)
  then show ?thesis by (metis no_flags(1) [OF False] list.size(3))
qed

lemma write_data_length:
  assumes "resp_ready r" "write_data r = Inr buf"
  shows "data_size r = Inr (length buf)"
proof -
  let ?asv = "resp_asv r" and ?np = "length (resp_dvv r)"
  note z = resp_ready_sizes [OF assms(1)]
  let ?s = "\<lambda>P k. \<Sum>i \<leftarrow> [0..<length ?asv]. if P (?asv ! i) then k else (0::nat)"
  have "length (write_flagged put_double (value_blocks r)) = ?s req_val 1"
    unfolding value_blocks_def using z(1) by (intro length_blocks) auto
  moreover have "length (write_flagged (write_n put_double) (gradient_blocks r)) = ?s req_grad ?np"
    unfolding gradient_blocks_def using z(2) by (intro length_blocks) auto
  moreover have "length (write_flagged (write_lower_triangle put_double) (hessian_blocks r)) =
      ?s req_hess (?np * (?np + 1) div 2)"
    unfolding hessian_blocks_def
  proof (rule length_blocks)
    assume "list_ex req_hess ?asv"
    then have "length (functionHessians r) = length ?asv" "\<forall>h \<in> set (functionHessians r). tri_wf ?np h"
      using z(3) by auto
    moreover from this have "\<forall>h \<in> set (map (take ?np) (functionHessians r)). tri_wf ?np h"
      by (auto intro: tri_wf_take [OF _ order_refl])
    ultimately show "length (map (take ?np) (functionHessians r)) = length ?asv \<and>
        (\<forall>y \<in> set (map (take ?np) (functionHessians r)).
          length (write_lower_triangle put_double y) = ?np * (?np + 1) div 2)"
      using length_write_triangle by (metis length_map)
  qed
  ultimately have "length buf = ?s req_val 1 + ?s req_grad ?np + ?s req_hess (?np * (?np + 1) div 2)"
    using assms(2) z(4) by (auto simp: write_data_def)
  moreover have "data_size r = Inr (foldl (\<lambda>size i. size + ((if req_val (?asv ! i) then 1 else 0) +
      (if req_grad (?asv ! i) then ?np else 0) +
      (if req_hess (?asv ! i) then ?np * (?np + 1) div 2 else 0))) 0 [0..<length ?asv])"
    unfolding data_size_def Let_def z(1) by (simp only: add.assoc less_irrefl if_False)
  ultimately show ?thesis by (simp add: foldl_sum_list sum_list_addf)
qed

lemma read_write_data:
  assumes r: "resp_ready r" and t: "resp_ready t" and s: "responseActiveSet t = responseActiveSet r"
    and w: "write_data r = Inr buf"
  shows "\<exists>t'. read_data (buf @ rest) t = Inr t' \<and> responseActiveSet t' = responseActiveSet r \<and>
    (\<forall>i < length (resp_asv r). agrees_where_requested t' r i)"
proof -
  let ?asv = "resp_asv r" and ?dvv = "resp_dvv r" and ?np = "length (resp_dvv r)"
  have sel: "resp_asv t = ?asv" "resp_dvv t = ?dvv" using s by (simp_all add: resp_asv_def resp_dvv_def)
  note zr = resp_ready_sizes [OF r] and zt = resp_ready_sizes [OF t, unfolded sel]
  have le: "length (m_cols (functionGradients t)) \<le> length ?asv" "length (functionHessians t) \<le> length ?asv"
    using zt(4) by (simp_all add: blocks_in_bounds_def Let_def sel)
  let ?b2 = "write_flagged (write_n put_double) (gradient_blocks r)"
  let ?b3 = "write_flagged (write_lower_triangle put_double) (hessian_blocks r)"
  have buf: "buf = write_flagged put_double (value_blocks r) @ ?b2 @ ?b3"
    using w zr(4) by (simp add: write_data_def)
  obtain v where v: "read_flagged get_double (value_blocks t)
      (write_flagged put_double (value_blocks r) @ (?b2 @ ?b3 @ rest)) = Inr (v, ?b2 @ ?b3 @ rest)"
      "length v = length ?asv"
      "\<forall>i < length v. v ! i = (if req_val (?asv ! i) then functionValues r ! i else functionValues t ! i)"
    unfolding value_blocks_def sel
    using double_array.block_round_trip [of req_val ?asv "functionValues t" "functionValues r"
        "?b2 @ ?b3 @ rest"] zr(1) zt(1) by auto
  obtain g where g: "read_flagged (read_n get_double ?np) (gradient_blocks t)
      (?b2 @ (?b3 @ rest)) = Inr (g, ?b3 @ rest)"
      "length g = length (m_cols (functionGradients t))"
      "\<forall>i < length g. g ! i = (if req_grad (?asv ! i) then map (take ?np) (m_cols (functionGradients r)) ! i
        else map (take ?np) (m_cols (functionGradients t)) ! i)"
    unfolding gradient_blocks_def sel
    using double_column.block_round_trip [of req_grad ?asv "map (take ?np) (m_cols (functionGradients t))"
        "map (take ?np) (m_cols (functionGradients r))" ?np "?b3 @ rest"] zr(2) zt(2) le by auto
  have tr: "list_ex req_hess ?asv \<Longrightarrow> \<forall>h \<in> set (map (take ?np) (functionHessians r)). tri_wf ?np h"
    using zr(3) by (auto intro: tri_wf_take [OF _ order_refl])
  obtain h where h: "read_flagged (read_lower_triangle get_double 0 ?np) (hessian_blocks t)
      (?b3 @ rest) = Inr (h, rest)" "length h = length (functionHessians t)"
      "\<forall>i < length h. h ! i = (if req_hess (?asv ! i) then map (take ?np) (functionHessians r) ! i
        else map (take ?np) (functionHessians t) ! i)"
    unfolding hessian_blocks_def sel
    using double_triangle.block_round_trip [of req_hess ?asv "map (take ?np) (functionHessians t)"
        "map (take ?np) (functionHessians r)" ?np rest] zr(3) zt(3) le tr by auto
  define t' where "t' = t\<lparr>functionValues := v,
    functionGradients := (functionGradients t)\<lparr>m_cols := map2 over_prefix g (m_cols (functionGradients t))\<rparr>,
    functionHessians := map2 over_prefix h (functionHessians t)\<rparr>"
  have "read_data (buf @ rest) t = Inr t'"
    using v(1) g(1) h(1) zt(4) by (simp add: read_data_def Let_def buf sel t'_def)
  moreover have "agrees_where_requested t' r i" if i: "i < length ?asv" for i
  proof -
    have q: "req_grad (?asv ! i) \<Longrightarrow> list_ex req_grad ?asv" "req_hess (?asv ! i) \<Longrightarrow> list_ex req_hess ?asv"
      using i by (auto intro: list_ex_nth)
    have "req_grad (?asv ! i) \<Longrightarrow> over_prefix (take ?np (m_cols (functionGradients r) ! i))
        (m_cols (functionGradients t) ! i) = take ?np (m_cols (functionGradients r) ! i)"
      using q(1) zr(2) zt(2) i by (simp add: over_prefix_def)
    moreover have "req_hess (?asv ! i) \<Longrightarrow> over_prefix (take ?np (functionHessians r ! i))
        (functionHessians t ! i) = take ?np (functionHessians r ! i)"
      using q(2) zr(3) zt(3) i by (simp add: over_prefix_def tri_wf_def)
    ultimately show ?thesis
      using i v g h q zr zt by (auto simp: agrees_where_requested_def t'_def sel)
  qed
  ultimately show ?thesis using s by (intro exI [of _ t']) (simp add: t'_def)
qed

section \<open>Messages\<close>

lemma reset_reshape_zero:
  fixes r0 :: "'r::zero response" and nf np :: nat and gf hf :: bool
  assumes "resp_shaped r0"
  defines "r \<equiv> reset (reshape_rep nf np gf hf r0)"
  shows "functionValues r = replicate nf 0"
    and "gf \<Longrightarrow> functionGradients r = mat_zero np nf"
    and "\<not> gf \<Longrightarrow> mat_empty (functionGradients r)"
    and "functionHessians r = (if hf then replicate nf (sym_zero np) else [])"
proof -
  show "functionValues r = replicate nf 0"
    by (simp add: r_def reset_def reshape_rep_def map_replicate_const)
  show "\<not> gf \<Longrightarrow> mat_empty (functionGradients r)"
    by (auto simp: r_def reset_def reshape_rep_def mat_empty_def mat_zero_def)
  show "functionGradients r = mat_zero np nf" if gf
  proof -
    let ?g = "functionGradients (reshape_rep nf np gf hf r0)"
    have g: "m_rows ?g = np" "length (m_cols ?g) = nf" "\<forall>c \<in> set (m_cols ?g). length c = np"
      using that assms(1) by (auto simp: reshape_rep_def resp_shaped_def)
    have "map (map (\<lambda>_. 0)) (m_cols ?g) = replicate nf (replicate np 0)"
      using g(2,3) by (intro nth_equalityI) (auto simp: map_replicate_const)
    then show ?thesis using g(1)
      by (intro rmat.equality) (simp_all add: r_def reset_def mat_zero_def)
  qed
  show "functionHessians r = (if hf then replicate nf (sym_zero np) else [])"
  proof (cases hf)
    case True
    let ?h = "functionHessians (reshape_rep nf np gf hf r0)"
    have l: "length ?h = nf" using True by (simp add: reshape_rep_def)
    have "\<forall>hi \<in> set (functionHessians r0). \<forall>j < length hi. length (hi ! j) = Suc j"
      using assms(1) by (auto simp: resp_shaped_def tri_wf_def)
    then have "\<forall>h \<in> set ?h. tri_wf np h" using True by (rule reshape_rep_hessians)
    then have "sym_fill 0 h = sym_zero np" if "h \<in> set ?h" for h :: "'r symmat"
      using that by (intro nth_equalityI)
        (auto simp: sym_fill_def sym_zero_def tri_wf_def map_replicate_const)
    then have "map (sym_fill 0) ?h = replicate nf (sym_zero np)"
      using l by (intro nth_equalityI) auto
    then show ?thesis using True by (simp add: r_def reset_def)
  next
    case False
    then show ?thesis by (simp add: r_def reset_def reshape_rep_def)
  qed
qed

lemma message_round_trip:
  fixes r r0 :: "'r::zero response"
  assumes r: "resp_ready r" and r0: "resp_shaped r0"
    and np: "list_ex req_grad (resp_asv r) \<Longrightarrow> resp_dvv r \<noteq> []"
  shows "\<exists>buf r'. write_rep r = Inr buf \<and> read_rep (buf @ rest) r0 = Inr (r', rest) \<and>
    responseActiveSet r' = responseActiveSet r \<and> metaData r' = metaData r \<and>
    (\<forall>i < length (resp_asv r). agrees_where_requested r' r i \<and> zero_where_not_requested r' i)"
proof -
  let ?asv = "resp_asv r" and ?np = "length (resp_dvv r)" and ?nf = "length (resp_asv r)"
  let ?g = "functionGradients r" and ?h = "functionHessians r"
  let ?gf = "\<not> mat_empty ?g" and ?hf = "?h \<noteq> []"
  let ?gq = "list_ex req_grad ?asv" and ?hq = "list_ex req_hess ?asv"
  note z = resp_ready_sizes [OF r]
  have gf: "?gq \<Longrightarrow> ?gf" using r z(2) np by (auto simp: mat_empty_def resp_ready_def)
  have hf: "?hq \<Longrightarrow> ?hf" using r by (auto simp: resp_ready_def)
  have q: "\<And>i. i < ?nf \<Longrightarrow> req_grad (?asv ! i) \<Longrightarrow> ?gq" "\<And>i. i < ?nf \<Longrightarrow> req_hess (?asv ! i) \<Longrightarrow> ?hq"
    by (auto intro: list_ex_nth)
  define r2 where "r2 = reset (reshape_rep ?nf ?np ?gf ?hf (r0\<lparr>responseActiveSet := responseActiveSet r\<rparr>))"
  have "resp_shaped (r0\<lparr>responseActiveSet := responseActiveSet r\<rparr>)" using r0 by (simp add: resp_shaped_def)
  note z2 = reset_reshape_zero [OF this, where nf = ?nf and np = ?np and gf = ?gf and hf = ?hf, folded r2_def]
  have s2: "responseActiveSet r2 = responseActiveSet r"
    by (simp add: r2_def reset_def reshape_rep_def resp_asv_def resp_dvv_def)
  have g2: "?gf \<Longrightarrow> m_rows (functionGradients r2) = ?np \<and> length (m_cols (functionGradients r2)) = ?nf"
    using z2(2) by (simp add: mat_zero_def)
  let ?b1 = "write_flagged put_real (zip (map req_val ?asv) (functionValues r))"
  let ?b2 = "write_flagged (write_n put_real) (zip (map req_grad ?asv) (m_cols ?g))"
  let ?b3 = "write_flagged (write_lower_triangle put_real) (zip (map req_hess ?asv) ?h)"
  let ?b4 = "write_container put_real (metaData r)"
  define buf where "buf = put_bool ?gf @ put_bool ?hf @ ActiveSet_write (responseActiveSet r) @
    put_size (length (metaData r)) @ ?b1 @ ?b2 @ ?b3 @ ?b4"
  have nobad: "\<not> (\<exists>i \<in> set [0..<?nf]. (req_val (?asv ! i) \<and> i \<ge> length (functionValues r)) \<or>
      (req_grad (?asv ! i) \<and> 0 < m_rows ?g \<and> i \<ge> length (m_cols ?g)) \<or>
      (req_hess (?asv ! i) \<and> i \<ge> length ?h))"
    using z(1-3) q by (auto simp: not_le)
  then have w: "write_rep r = Inr buf"
    unfolding write_rep_def Let_def buf_def by (simp only: if_False)
  obtain v where v: "read_flagged get_real (zip (map req_val ?asv) (functionValues r2))
      (?b1 @ (?b2 @ ?b3 @ ?b4 @ rest)) = Inr (v, ?b2 @ ?b3 @ ?b4 @ rest)" "length v = ?nf"
      "\<forall>i < length v. v ! i = (if req_val (?asv ! i) then functionValues r ! i else functionValues r2 ! i)"
    using real_item.block_round_trip [of req_val ?asv "functionValues r2" "functionValues r"
        "?b2 @ ?b3 @ ?b4 @ rest"] z(1) z2(1) by auto
  define g0 where "g0 = (if ?gf then m_cols (functionGradients r2) else take ?nf (m_cols (functionGradients r2)))"
  have zg: "zip (map req_grad ?asv) (m_cols (functionGradients r2)) = zip (map req_grad ?asv) g0"
    by (intro nth_equalityI) (auto simp: g0_def)
  have "?gq \<Longrightarrow> length g0 = ?nf" "length g0 \<le> ?nf" using gf g2 by (auto simp: g0_def)
  then obtain gg where g: "read_flagged (read_n get_real ?np) (zip (map req_grad ?asv) g0)
      (?b2 @ (?b3 @ ?b4 @ rest)) = Inr (gg, ?b3 @ ?b4 @ rest)" "length gg = length g0"
      "\<forall>i < length gg. gg ! i = (if req_grad (?asv ! i) then m_cols ?g ! i else g0 ! i)"
    using real_column.block_round_trip [of req_grad ?asv g0 "m_cols ?g" ?np "?b3 @ ?b4 @ rest"] z(2)
    by auto
  have gr: "read_flagged (read_n get_real (m_rows (functionGradients r2)))
      (zip (map req_grad ?asv) (m_cols (functionGradients r2))) (?b2 @ (?b3 @ ?b4 @ rest)) =
      Inr (gg, ?b3 @ ?b4 @ rest)"
  proof (cases ?gq)
    case True
    then show ?thesis using g(1) g2 gf by (simp add: zg)
  next
    case False
    have "length g0 \<le> ?nf" using g2 by (auto simp: g0_def)
    then show ?thesis
      using g(1) unfolding zg no_flags(1) [OF False] by (simp add: no_flags(2) [OF False])
  qed
  have "length (functionHessians r2) \<le> ?nf" "?hq \<Longrightarrow> length (functionHessians r2) = ?nf"
    using z2(4) hf by auto
  then obtain hh where h: "read_flagged (read_lower_triangle get_real 0 ?np)
      (zip (map req_hess ?asv) (functionHessians r2)) (?b3 @ (?b4 @ rest)) = Inr (hh, ?b4 @ rest)"
      "length hh = length (functionHessians r2)"
      "\<forall>i < length hh. hh ! i = (if req_hess (?asv ! i) then ?h ! i else functionHessians r2 ! i)"
    using real_triangle.block_round_trip [of req_hess ?asv "functionHessians r2" ?h ?np "?b4 @ rest"] z(3)
    by auto
  define r' where "r' = r2\<lparr>functionValues := v, functionGradients := (functionGradients r2)\<lparr>m_cols :=
    over_prefix gg (m_cols (functionGradients r2))\<rparr>, functionHessians := hh, metaData := metaData r\<rparr>"
  have nobad2: "\<not> (\<exists>i \<in> set [0..<?nf]. (req_grad (?asv ! i) \<and> 0 < m_rows (functionGradients r2) \<and>
      i \<ge> length (m_cols (functionGradients r2))) \<or> (req_hess (?asv ! i) \<and> i \<ge> length (functionHessians r2)))"
    using q gf hf g2 z2(4) by (auto simp: not_le)
  have rd: "read_rep (buf @ rest) r0 = Inr (r', rest)"
  proof -
    have sel: "requestVector (responseActiveSet r) = ?asv" "derivVarsVector (responseActiveSet r) = resp_dvv r"
      by (simp_all add: resp_asv_def resp_dvv_def)
    have "ActiveSet_read (ActiveSet_write (responseActiveSet r) @ s) = Inr (responseActiveSet r, s)" for s :: "'r buffer"
      by (rule active_set_item.get_put_item)
    moreover have "container_read get_real (?b4 @ rest) = Inr (metaData r, rest)"
      by (rule real_item.container_round_trip)
    ultimately show ?thesis
      unfolding read_rep_def buf_def
      by (simp only: append.assoc put_bool.simps put_size.simps append.simps get_bool.simps get_size.simps
          rbind.simps prod.case Let_def sel r2_def [symmetric] nobad2 if_False v(1) gr h(1) r'_def)
  qed
  have sel': "resp_asv r' = ?asv" "resp_dvv r' = resp_dvv r" "responseActiveSet r' = responseActiveSet r"
    by (simp_all add: r'_def s2 resp_asv_def resp_dvv_def)
  have gl: "length gg = ?nf \<and> m_cols (functionGradients r') = gg" if ?gf
    using that g(2) g2 by (simp add: g0_def r'_def over_prefix_def)
  have gz: "m_cols (functionGradients r') ! i = (if req_grad (?asv ! i) then m_cols ?g ! i else replicate ?np 0)"
    if "i < ?nf" ?gf for i
    using that gl g(3) z2(2) by (simp add: g0_def mat_zero_def)
  have gn: "x = 0" if "\<not> ?gf" "c \<in> set (m_cols (functionGradients r'))" "x \<in> set c" for c x
  proof -
    have "\<not> ?gq" using gf that(1) by blast
    then have "\<forall>i < length gg. gg ! i = g0 ! i" using g(2,3) q(1) that(1) by (auto simp: g0_def)
    then have "gg = g0" using g(2) by (intro nth_equalityI) auto
    then have "m_cols (functionGradients r') = m_cols (functionGradients r2)"
      using that(1) by (simp add: r'_def over_prefix_def g0_def) (metis append_take_drop_id drop_all length_take min_def nat_le_linear)
    then show ?thesis using that(2,3) by (auto simp: r2_def reset_def)
  qed
  have "agrees_where_requested r' r i \<and> zero_where_not_requested r' i" if i: "i < ?nf" for i
  proof -
    have a: "req_val (?asv ! i) \<Longrightarrow> functionValues r' ! i = functionValues r ! i"
      "\<not> req_val (?asv ! i) \<Longrightarrow> functionValues r' ! i = 0"
      using v(2,3) i z2(1) by (simp_all add: r'_def)
    have b: "req_grad (?asv ! i) \<Longrightarrow> m_cols (functionGradients r') ! i = take ?np (m_cols ?g ! i)"
      using gz [OF i] q(1) [OF i] gf z(2) i by simp
    have b': "\<forall>x \<in> set (m_cols (functionGradients r') ! i). x = 0"
      if "\<not> req_grad (?asv ! i)" "i < length (m_cols (functionGradients r'))"
    proof (cases ?gf)
      case True
      then show ?thesis using gz [OF i] that by simp
    next
      case False
      then show ?thesis using gn [OF False] that(2) by (meson nth_mem)
    qed
    have c: "req_hess (?asv ! i) \<Longrightarrow> functionHessians r' ! i = take ?np (?h ! i)"
    proof -
      assume rh: "req_hess (?asv ! i)"
      then have hq: ?hq using q(2) [OF i] by blast
      then have "length (?h ! i) = ?np" "i < length hh" using z(3) h(2) z2(4) hf i by (auto simp: tri_wf_def)
      then show ?thesis using h(3) rh by (simp add: r'_def)
    qed
    have c': "\<forall>row \<in> set (functionHessians r' ! i). \<forall>x \<in> set row. x = 0"
      if "\<not> req_hess (?asv ! i)" "i < length (functionHessians r')"
      using that h(2,3) z2(4) by (auto simp: r'_def sym_zero_def split: if_splits)
    show ?thesis
      using a b b' c c' by (simp add: agrees_where_requested_def zero_where_not_requested_def sel')
  qed
  moreover have "metaData r' = metaData r" by (simp add: r'_def)
  ultimately show ?thesis using w rd sel'(3) by blast
qed

section \<open>Derivative index mapping\<close>

lemma map_dvv_loop_ok:
  assumes "map_dvv_loop as a cs c = Inr (ai, ci)"
  shows "ci = [c..<c + length cs] \<and> length ai = length cs \<and> sorted_wrt (<) ai \<and>
    (\<forall>k < length cs. a \<le> ai ! k \<and> ai ! k - a < length as \<and> as ! (ai ! k - a) = cs ! k)"
  using assms
proof (induction as a cs c arbitrary: ai ci rule: map_dvv_loop.induct)
  case (1 a c)
  then show ?case by simp
next
  case (2 av as a c)
  then have "ci = [] \<and> ai = []" by fastforce
  then show ?case by simp
next
  case (3 a cv cs c)
  then show ?case by simp
next
  case (4 av as a cv cs c)
  consider "av < cv" | "cv < av" | "av = cv" by linarith
  then show ?case
  proof cases
    case 1
    then have "map_dvv_loop as (Suc a) (cv # cs) c = Inr (ai, ci)" using 4(3) by simp
    from 4(1) [OF 1 this] show ?thesis by (auto simp: Suc_le_eq nth_Cons')
  next
    case 2
    then show ?thesis using 4(3) by simp
  next
    case 3
    then obtain ai' ci' where r: "map_dvv_loop as (Suc a) cs (Suc c) = Inr (ai', ci')"
      and e: "ai = a # ai'" "ci = c # ci'"
      using 4(3) by (auto simp: result_simps)
    have ih: "ci' = [Suc c..<Suc c + length cs]" "length ai' = length cs" "sorted_wrt (<) ai'"
      "\<forall>k < length cs. Suc a \<le> ai' ! k \<and> ai' ! k - Suc a < length as \<and> as ! (ai' ! k - Suc a) = cs ! k"
      using 4(2) [OF _ _ r] 3 by auto
    have "\<forall>x \<in> set ai'. a < x" using ih(2,4) by (auto simp: in_set_conv_nth Suc_le_eq)
    moreover have "ci = [c..<c + length (cv # cs)]"
      using ih(1) e(2) by (simp add: upt_conv_Cons [of c] del: upt_Suc)
    moreover have "a \<le> ai ! k \<and> ai ! k - a < length (av # as) \<and> (av # as) ! (ai ! k - a) = (cv # cs) ! k"
      if "k < length (cv # cs)" for k
    proof (cases k)
      case 0
      then show ?thesis using 3 e by simp
    next
      case (Suc k')
      then have "Suc a \<le> ai' ! k' \<and> ai' ! k' - Suc a < length as \<and> as ! (ai' ! k' - Suc a) = cs ! k'"
        using ih(4) that by simp
      moreover from this have "ai' ! k' - a = Suc (ai' ! k' - Suc a)" by linarith
      ultimately show ?thesis using e Suc by simp
    qed
    ultimately show ?thesis using ih(2,3) e by simp
  qed
qed

lemma map_dvv_loop_succeeds:
  assumes "sorted_wrt (<) as" "sorted_wrt (<) cs"
  shows "(\<exists>x. map_dvv_loop as a cs c = Inr x) \<longleftrightarrow> set cs \<subseteq> set as"
  using assms
proof (induction as a cs c rule: map_dvv_loop.induct)
  case (4 av as a cv cs c)
  consider "av < cv" | "cv < av" | "av = cv" by linarith
  then show ?case
  proof cases
    case 1
    then have "av \<notin> set (cv # cs)" using 4(4) by auto
    then show ?thesis using 4(1) [OF 1] 4(3,4) 1 by auto
  next
    case 2
    then have "cv \<notin> set (av # as)" using 4(3) by auto
    then show ?thesis using 2 by auto
  next
    case 3
    have "av \<notin> set cs" using 3 4(4) by auto
    then have "set (cv # cs) \<subseteq> set (av # as) \<longleftrightarrow> set cs \<subseteq> set as" using 3 by auto
    moreover have "(\<exists>x. map_dvv_loop as (Suc a) cs (Suc c) = Inr x) \<longleftrightarrow> set cs \<subseteq> set as"
      using 4(2) 3 4(3,4) by auto
    ultimately show ?thesis using 3 by (auto simp: result_simps)
  qed
qed auto

section \<open>Active set changes\<close>

lemma active_set_request_vector_wf:
  "resp_wf r \<Longrightarrow> active_set_request_vector v r = Inr r' \<Longrightarrow>
    resp_wf r' \<and> resp_asv r' = v \<and> resp_dvv r' = resp_dvv r"
  by (auto simp: active_set_request_vector_def set_request_vector_def resp_wf_def Let_def
      resp_asv_def resp_dvv_def split: if_splits)

lemma reshape_active_derivs_wf:
  assumes "resp_wf r" "resp_dvv r \<noteq> [] \<or> m_cols (functionGradients r) = []"
  shows "\<exists>r'. reshape_active_derivs n r = Inr r' \<and> responseActiveSet r' = responseActiveSet r \<and>
    length (functionValues r') = length (resp_asv r) \<and>
    (m_cols (functionGradients r') = [] \<or> m_rows (functionGradients r') = n \<and>
      length (m_cols (functionGradients r')) = length (resp_asv r) \<and>
      (\<forall>c \<in> set (m_cols (functionGradients r')). length c = n)) \<and>
    (functionHessians r' = [] \<or> length (functionHessians r') = length (resp_asv r) \<and>
      (\<forall>h \<in> set (functionHessians r'). tri_wf n h))"
proof -
  let ?g = "functionGradients r" and ?h = "functionHessians r"
  let ?nf = "length (resp_asv r)"
  define r1 where "r1 = (if \<not> mat_empty ?g then r\<lparr>functionGradients := mat_reshape n ?nf ?g\<rparr> else r)"
  have g: "m_cols (functionGradients r1) = [] \<or> m_rows (functionGradients r1) = n \<and>
      length (m_cols (functionGradients r1)) = ?nf \<and> (\<forall>c \<in> set (m_cols (functionGradients r1)). length c = n)"
    using assms by (auto simp: r1_def mat_empty_def resp_wf_def Let_def)
  have f: "functionHessians r1 = ?h" "responseActiveSet r1 = responseActiveSet r"
      "functionValues r1 = functionValues r" by (simp_all add: r1_def)
  have h: "?h = [] \<or> length ?h = ?nf \<and> (\<forall>i < ?nf. tri_wf (length (resp_dvv r)) (?h ! i))"
    using assms(1) by (auto simp: resp_wf_def Let_def)
  then have t: "?h = [] \<or> (\<forall>i < ?nf. tri_wf n (sym_reshape n (?h ! i)))"
    by (auto simp: tri_wf_def intro!: tri_wf_sym_reshape [unfolded tri_wf_def])
  have v: "length (functionValues r) = ?nf" using assms(1) by (simp add: resp_wf_def Let_def)
  show ?thesis
  proof (cases "?h = []")
    case True
    then have "reshape_active_derivs n r = Inr r1" by (simp add: reshape_active_derivs_def Let_def r1_def)
    then show ?thesis using g f v True by simp
  next
    case False
    let ?r2 = "r1\<lparr>functionHessians := map_index (\<lambda>i hi. if i < ?nf then sym_reshape n hi else hi) ?h\<rparr>"
    have "reshape_active_derivs n r = Inr ?r2"
      using False h by (simp add: reshape_active_derivs_def Let_def r1_def)
    moreover have "\<forall>x \<in> set (functionHessians ?r2). tri_wf n x"
      using False h t by (auto simp: all_set_conv_all_nth)
    ultimately show ?thesis using g f v False h by simp
  qed
qed

lemma set_active_set_keeps_wf:
  assumes r: "resp_wf r" "resp_dvv r \<noteq> [] \<or> m_cols (functionGradients r) = []"
  shows "case set_active_set s r of
      Inr r' \<Rightarrow> resp_wf r' \<and> responseActiveSet r' = s \<and> length (requestVector s) = length (resp_asv r)
    | Inl e \<Rightarrow> e = Abort OTHER_ERROR \<and> length (requestVector s) \<noteq> length (resp_asv r)"
proof (cases "length (requestVector s) = length (resp_asv r)")
  case False
  then show ?thesis by (simp add: set_active_set_def active_set_request_vector_def)
next
  case True
  define r1 where "r1 = r\<lparr>responseActiveSet := set_request_vector (requestVector s) (responseActiveSet r)\<rparr>"
  have a: "active_set_request_vector (requestVector s) r = Inr r1"
    using True by (simp add: active_set_request_vector_def r1_def)
  note w = active_set_request_vector_wf [OF r(1) a]
  have g1: "resp_dvv r1 \<noteq> [] \<or> m_cols (functionGradients r1) = []" using w r(2) by (simp add: r1_def)
  show ?thesis
  proof (cases "length (resp_dvv r1) = length (derivVarsVector s)")
    case t: True
    then have "set_active_set s r = Inr (r1\<lparr>responseActiveSet :=
        set_derivative_vector (derivVarsVector s) (responseActiveSet r1)\<rparr>)"
      by (simp add: set_active_set_def a active_set_derivative_vector_def)
    then show ?thesis using w t True
      by (auto simp: r1_def set_request_vector_def set_derivative_vector_def resp_wf_def Let_def)
  next
    case f: False
    obtain r2 where r2: "reshape_active_derivs (length (derivVarsVector s)) r1 = Inr r2"
      and p: "responseActiveSet r2 = responseActiveSet r1"
        "length (functionValues r2) = length (resp_asv r1)"
        "m_cols (functionGradients r2) = [] \<or> m_rows (functionGradients r2) = length (derivVarsVector s) \<and>
          length (m_cols (functionGradients r2)) = length (resp_asv r1) \<and>
          (\<forall>c \<in> set (m_cols (functionGradients r2)). length c = length (derivVarsVector s))"
        "functionHessians r2 = [] \<or> length (functionHessians r2) = length (resp_asv r1) \<and>
          (\<forall>h \<in> set (functionHessians r2). tri_wf (length (derivVarsVector s)) h)"
      using reshape_active_derivs_wf [of r1 "length (derivVarsVector s)"] w g1 by blast
    have "set_active_set s r = Inr (r2\<lparr>responseActiveSet :=
        set_derivative_vector (derivVarsVector s) (responseActiveSet r2)\<rparr>)"
      using f by (simp add: set_active_set_def a active_set_derivative_vector_def r2)
    moreover have "set_derivative_vector (derivVarsVector s) (responseActiveSet r2) = s"
      by (simp add: p(1) r1_def set_request_vector_def set_derivative_vector_def)
    ultimately show ?thesis using p w True by (simp add: resp_wf_def Let_def)
  qed
qed


lemma resp_ready_values:
  "length v = length (functionValues r) \<Longrightarrow> resp_ready (r\<lparr>functionValues := v\<rparr>) = resp_ready r"
  by (simp add: resp_ready_def resp_wf_def Let_def)

lemma example_response_ready:
  "length asv = 2 \<Longrightarrow> resp_ready (example_response asv) \<and> resp_asv (example_response asv) = asv \<and>
    resp_dvv (example_response asv) = [1, 2]"
  by (auto simp: resp_ready_def resp_wf_def Let_def example_response_def resp_asv_def resp_dvv_def
      tri_wf_def less_Suc_eq numeral_2_eq_2)

section \<open>Properties\<close>



text \<open>C20: A response sent in a message arrives.  If the sender's arrays are sized for its active set, and its
  derivative variables are not empty when it has gradients, the message can be written; a receiver whose gradient and
  Hessian arrays are well shaped, of any size, obtains the sender's active set and metadata, the requested
  values, gradients and Hessians, and zeros elsewhere (what was not requested is not sent), and consumes exactly
  the items that were written.\<close>

theorem response_message_round_trip:
  fixes r r0 :: "'r::zero response"
  assumes "resp_ready r" "resp_shaped r0"
    and "list_ex req_grad (resp_asv r) \<longrightarrow> resp_dvv r \<noteq> []"
  shows "\<exists>buf r'. write_rep r = Inr buf \<and> read_rep (buf @ rest) r0 = Inr (r', rest) \<and>
    responseActiveSet r' = responseActiveSet r \<and> metaData r' = metaData r \<and>
    (\<forall>i < length (resp_asv r). agrees_where_requested r' r i \<and> zero_where_not_requested r' i)"
  using assms by (intro message_round_trip) auto

theorem response_message_round_trip_witness:
  "\<exists>buf r'. write_rep (example_response [3, 4]) = Inr buf \<and>
    read_rep (buf @ [PBool True]) (example_response [0, 0]) = Inr (r', [PBool True]) \<and>
    metaData r' = [9]"
proof -
  have "resp_shaped (example_response [0, 0])"
    by (simp add: resp_shaped_def example_response_def tri_wf_def less_Suc_eq)
  from response_message_round_trip [OF _ this, of "example_response [3, 4]" "[PBool True]"]
    example_response_ready [of "[3, 4]"]
  show ?thesis by (auto simp: example_response_def)
qed

text \<open>C27: \<^verbatim>\<open>write_data\<close> fills exactly \<^verbatim>\<open>data_size\<close> entries of a raw array, and \<^verbatim>\<open>read_data\<close> of
  that array by a response with the same active set recovers every requested quantity.\<close>

theorem response_array_round_trip:
  assumes "resp_ready r" "resp_ready t" "responseActiveSet t = responseActiveSet r"
  shows "\<exists>buf t'. write_data r = Inr buf \<and> data_size r = Inr (length buf) \<and>
    read_data (buf @ rest) t = Inr t' \<and> responseActiveSet t' = responseActiveSet r \<and>
    (\<forall>i < length (resp_asv r). agrees_where_requested t' r i)"
proof -
  obtain buf where w: "write_data r = Inr buf"
    using resp_ready_sizes(4) [OF assms(1)] by (simp add: write_data_def)
  then show ?thesis
    using write_data_length [OF assms(1) w] read_write_data [OF assms w] by blast
qed

theorem response_array_round_trip_witness:
  "\<exists>buf t'. write_data (example_response [1, 6]) = Inr buf \<and> length buf = 6 \<and>
    read_data (buf @ []) ((example_response [1, 6])\<lparr>functionValues := [0, 0]\<rparr>) = Inr t' \<and>
    agrees_where_requested t' (example_response [1, 6]) 0"
proof -
  have "resp_ready ((example_response [1, 6])\<lparr>functionValues := [0, 0]\<rparr>)"
    using example_response_ready [of "[1, 6]"]
    by (subst resp_ready_values) (simp_all add: example_response_def)
  moreover have "data_size (example_response [1, 6]) = Inr 6"
    by (simp add: data_size_def example_response_def resp_asv_def resp_dvv_def req_val_def req_grad_def
        req_hess_def)
  ultimately show ?thesis
    using response_array_round_trip [of "example_response [1, 6]"
        "(example_response [1, 6])\<lparr>functionValues := [0, 0]\<rparr>" "[]"] example_response_ready [of "[1, 6]"]
    by fastforce
qed

text \<open>\<^verbatim>\<open>map_dvv_indices\<close> on increasing id vectors succeeds exactly when every required
  derivative variable is available; it then returns \<open>0, ..., n - 1\<close> as current indices, as its
  comment expects, and for each of them the position of the same id in the assigned vector.\<close>

theorem map_dvv_indices_matches:
  assumes "sorted_wrt (<) assign" "sorted_wrt (<) (resp_dvv r)"
  shows "case map_dvv_indices assign r of
      Inr (ai, ci) \<Rightarrow> set (resp_dvv r) \<subseteq> set assign \<and> ci = [0..<length (resp_dvv r)] \<and>
        length ai = length ci \<and> sorted_wrt (<) ai \<and>
        (\<forall>k < length ci. ai ! k < length assign \<and> assign ! (ai ! k) = resp_dvv r ! k)
    | Inl e \<Rightarrow> e = Abort RESP_ERROR \<and> \<not> set (resp_dvv r) \<subseteq> set assign"
proof (cases "map_dvv_loop assign 0 (resp_dvv r) 0")
  case (Inl e)
  have "e = Abort RESP_ERROR" if "map_dvv_loop as a cs c = Inl e" for as a cs c
    using that by (induction as a cs c rule: map_dvv_loop.induct) (auto simp: result_simps split: if_splits)
  then show ?thesis
    using Inl map_dvv_loop_succeeds [OF assms, of 0 0] by (simp add: map_dvv_indices_def)
next
  case (Inr p)
  then obtain ai ci where "map_dvv_loop assign 0 (resp_dvv r) 0 = Inr (ai, ci)" by (cases p) auto
  then show ?thesis
    using map_dvv_loop_ok [of assign 0 "resp_dvv r" 0 ai ci] map_dvv_loop_succeeds [OF assms, of 0 0]
    by (simp add: map_dvv_indices_def)
qed

theorem map_dvv_indices_matches_witness:
  "map_dvv_indices [1, 2, 5] (example_response [2, 2]) = Inr ([0, 1], [0, 1])"
proof -
  have "resp_dvv (example_response [2, 2]) = [1, 2]" by (simp add: example_response_def resp_dvv_def)
  then show ?thesis
    using map_dvv_indices_matches [of "[1, 2, 5]" "example_response [2, 2]"]
    by (simp add: map_dvv_indices_def)
qed

text \<open>Assigning a new active set to a response changes nothing but an error when the number
  of functions differs; otherwise the arrays are resized with the derivative variables and the
  response stays well formed for the new set.\<close>

theorem active_set_change_keeps_wf:
  assumes "resp_wf r" "resp_dvv r \<noteq> [] \<or> m_cols (functionGradients r) = []"
  shows "case set_active_set s r of
      Inr r' \<Rightarrow> resp_wf r' \<and> responseActiveSet r' = s \<and> length (requestVector s) = length (resp_asv r)
    | Inl e \<Rightarrow> e = Abort OTHER_ERROR \<and> length (requestVector s) \<noteq> length (resp_asv r)"
  using assms by (rule set_active_set_keeps_wf)

theorem active_set_change_keeps_wf_witness:
  "\<exists>r'. set_active_set \<lparr>requestVector = [1, 1], derivVarsVector = [3]\<rparr> (example_response [7, 7]) = Inr r' \<and>
    resp_wf r'"
  using active_set_change_keeps_wf [of "example_response [7, 7]"
      "\<lparr>requestVector = [1, 1], derivVarsVector = [3]\<rparr>"] example_response_ready [of "[7, 7]"]
  by (auto simp: resp_ready_def split: sum.splits)

end
