(* ===== verification/Ordered_Index.thy ===== *)
theory Ordered_Index
  imports Dakota_Prelude
begin

text \<open>
  The containers of the evaluation layer that are ordered by a key: the \<^verbatim>\<open>ordered_unique\<close> and
  \<^verbatim>\<open>ordered_non_unique\<close> indices of a Boost multi-index container and \<^verbatim>\<open>std::map\<close>.  They are lists
  in iteration order.  The locale \<open>unique_index\<close> is the interface that the evaluation queues
  offer to the schedulers, \<open>finite_map\<close> the one that the response maps offer; the facts that the
  clients use are proved once in them.
\<close>

section \<open>Operations\<close>

text \<open>An insertion into a unique index is rejected when the key is present.\<close>

definition uidx_find :: "('a \<Rightarrow> 'k) \<Rightarrow> 'k \<Rightarrow> 'a list \<Rightarrow> 'a option" where
  "uidx_find key k xs = find (\<lambda>x. key x = k) xs"

definition uidx_insert :: "('a \<Rightarrow> 'k::linorder) \<Rightarrow> 'a \<Rightarrow> 'a list \<Rightarrow> 'a list" where
  "uidx_insert key x xs = (if uidx_find key (key x) xs = None then insort_key key x xs else xs)"

definition uidx_erase :: "('a \<Rightarrow> 'k) \<Rightarrow> 'k \<Rightarrow> 'a list \<Rightarrow> 'a list" where
  "uidx_erase key k xs = filter (\<lambda>x. key x \<noteq> k) xs"

definition uidx_ok :: "('a \<Rightarrow> 'k::linorder) \<Rightarrow> 'a list \<Rightarrow> bool" where
  "uidx_ok key xs \<longleftrightarrow> sorted (map key xs) \<and> distinct (map key xs)"

text \<open>A non-unique index inserts at the upper bound of the key.\<close>

definition midx_insert :: "('a \<Rightarrow> 'k::linorder) \<Rightarrow> 'a \<Rightarrow> 'a list \<Rightarrow> 'a list" where
  "midx_insert key x xs =
    takeWhile (\<lambda>y. key y \<le> key x) xs @ x # dropWhile (\<lambda>y. key y \<le> key x) xs"

text \<open>\<^verbatim>\<open>m[k] = v\<close>, \<^verbatim>\<open>m.insert\<close> of a range (present keys win), \<^verbatim>\<open>m.erase(k)\<close>.\<close>

fun map_assign :: "'k::linorder \<Rightarrow> 'v \<Rightarrow> ('k \<times> 'v) list \<Rightarrow> ('k \<times> 'v) list" where
  "map_assign k v [] = [(k, v)]"
| "map_assign k v ((k', v') # m) =
    (if k < k' then (k, v) # (k', v') # m
     else if k = k' then (k, v) # m
     else (k', v') # map_assign k v m)"

definition map_insert_range ::
    "('k::linorder \<times> 'v) list \<Rightarrow> ('k \<times> 'v) list \<Rightarrow> ('k \<times> 'v) list" where
  "map_insert_range src m =
    foldl (\<lambda>m e. if map_of m (fst e) = None then map_assign (fst e) (snd e) m else m) m src"

definition map_erase :: "'k \<Rightarrow> ('k \<times> 'v) list \<Rightarrow> ('k \<times> 'v) list" where
  "map_erase k m = filter (\<lambda>e. fst e \<noteq> k) m"

section \<open>Interfaces\<close>

locale unique_index =
  fixes ins :: "'a \<Rightarrow> 's \<Rightarrow> 's"
    and look :: "'k \<Rightarrow> 's \<Rightarrow> 'a option"
    and del :: "'k \<Rightarrow> 's \<Rightarrow> 's"
    and key :: "'a \<Rightarrow> 'k"
    and elems :: "'s \<Rightarrow> 'a set"
    and ok :: "'s \<Rightarrow> bool"
  assumes ok_ins: "ok s \<Longrightarrow> ok (ins x s)"
    and ok_del: "ok s \<Longrightarrow> ok (del k s)"
    and look_sound: "look k s = Some x \<Longrightarrow> x \<in> elems s \<and> key x = k"
    and look_None: "look k s = None \<longleftrightarrow> k \<notin> key ` elems s"
    and unique: "ok s \<Longrightarrow> x \<in> elems s \<Longrightarrow> y \<in> elems s \<Longrightarrow> key x = key y \<Longrightarrow> x = y"
    and elems_ins: "elems (ins x s) = (if key x \<in> key ` elems s then elems s else insert x (elems s))"
    and elems_del: "elems (del k s) = {x \<in> elems s. key x \<noteq> k}"
begin

lemma look_iff:
  assumes "ok s"
  shows "look k s = Some x \<longleftrightarrow> x \<in> elems s \<and> key x = k"
proof
  assume "x \<in> elems s \<and> key x = k"
  then have m: "x \<in> elems s" "key x = k" by simp_all
  then have "look k s \<noteq> None" by (auto simp: look_None)
  then obtain y where y: "look k s = Some y" by auto
  then have "y = x" using unique [OF assms, of y x] look_sound [OF y] m by simp
  with y show "look k s = Some x" by simp
qed (rule look_sound)

lemma look_present: "k \<in> key ` elems s \<Longrightarrow> \<exists>x. look k s = Some x \<and> x \<in> elems s \<and> key x = k"
  using look_None [of k s] look_sound [of k s] by (cases "look k s") auto

lemma look_ins:
  assumes "ok s"
  shows "look k (ins x s) =
    (case look k s of Some y \<Rightarrow> Some y | None \<Rightarrow> if key x = k then Some x else None)"
proof (cases "look k s")
  case None
  show ?thesis
  proof (cases "key x = k")
    case True
    then have "look k (ins x s) = Some x"
      using None by (simp add: look_iff [OF ok_ins [OF assms]] elems_ins look_None)
    then show ?thesis using None True by simp
  next
    case False
    then have "look k (ins x s) = None" using None by (auto simp: look_None elems_ins)
    then show ?thesis using None False by simp
  qed
next
  case (Some y)
  then have "look k (ins x s) = Some y"
    using look_sound [OF Some] by (auto simp: look_iff [OF ok_ins [OF assms]] elems_ins)
  then show ?thesis using Some by simp
qed

lemma look_del:
  assumes "ok s"
  shows "look k (del j s) = (if k = j then None else look k s)"
proof (cases "k = j")
  case True
  then show ?thesis by (auto simp: look_None elems_del)
next
  case False
  then have "look k (del j s) = Some x \<longleftrightarrow> look k s = Some x" for x
    by (auto simp: look_iff [OF assms] look_iff [OF ok_del [OF assms]] elems_del)
  then show ?thesis using False by (cases "look k s"; cases "look k (del j s)") auto
qed

lemma keys_ins: "key ` elems (ins x s) = insert (key x) (key ` elems s)"
  by (auto simp: elems_ins)

lemma keys_del: "key ` elems (del k s) = key ` elems s - {k}"
  by (auto simp: elems_del)

end

locale finite_map =
  fixes put :: "'k \<Rightarrow> 'v \<Rightarrow> 's \<Rightarrow> 's"
    and get :: "'s \<Rightarrow> 'k \<Rightarrow> 'v option"
    and rem :: "'k \<Rightarrow> 's \<Rightarrow> 's"
  assumes get_put: "get (put k v s) = (get s)(k \<mapsto> v)"
    and get_rem: "get (rem k s) = (get s)(k := None)"
begin

text \<open>Storing a value for each of a list of keys, or removing each of a list of keys.\<close>

lemma dom_get_put [simp]: "dom (get (put k v s)) = insert k (dom (get s))"
  by (simp add: get_put)

lemma get_rem_list: "get (foldl (\<lambda>s k. rem k s) s ks) = (\<lambda>k. if k \<in> set ks then None else get s k)"
  by (induction ks arbitrary: s) (auto simp: get_rem fun_eq_iff)

lemma get_put_list:
  "get (foldl (\<lambda>s k. put k (f k) s) s ks) = (\<lambda>k. if k \<in> set ks then Some (f k) else get s k)"
  by (induction ks arbitrary: s) (auto simp: get_put fun_eq_iff)

end

section \<open>The lists implement the interfaces\<close>

lemma uidx_find_None: "uidx_find key k xs = None \<longleftrightarrow> k \<notin> key ` set xs"
  by (auto simp: uidx_find_def find_None_iff)

lemma uidx_find_Some: "uidx_find key k xs = Some x \<Longrightarrow> x \<in> set xs \<and> key x = k"
  by (auto simp: uidx_find_def find_Some_iff)

lemma uidx_ok_insert: "uidx_ok key xs \<Longrightarrow> uidx_ok key (uidx_insert key x xs)"
proof -
  have "distinct (map key (insort_key key x xs))" if "distinct (map key xs)" "key x \<notin> key ` set xs"
    using that by (induction xs) (auto simp: set_insort_key)
  then show "uidx_ok key xs \<Longrightarrow> uidx_ok key (uidx_insert key x xs)"
    by (auto simp: uidx_ok_def uidx_insert_def sorted_insort_key uidx_find_None)
qed

lemma uidx_ok_erase: "uidx_ok key xs \<Longrightarrow> uidx_ok key (uidx_erase key k xs)"
  by (simp add: uidx_ok_def uidx_erase_def sorted_filter distinct_map_filter)

lemma uidx_ok_unique:
  "uidx_ok key xs \<Longrightarrow> x \<in> set xs \<Longrightarrow> y \<in> set xs \<Longrightarrow> key x = key y \<Longrightarrow> x = y"
  by (auto simp: uidx_ok_def distinct_map inj_on_def)

lemma set_uidx_insert:
  "set (uidx_insert key x xs) = (if key x \<in> key ` set xs then set xs else insert x (set xs))"
  by (auto simp: uidx_insert_def uidx_find_None set_insort_key)

lemma set_uidx_erase: "set (uidx_erase key k xs) = {x \<in> set xs. key x \<noteq> k}"
  by (simp add: uidx_erase_def)

interpretation uidx: unique_index "uidx_insert key" "uidx_find key" "uidx_erase key" key set "uidx_ok key"
  for key :: "'a \<Rightarrow> 'k::linorder"
proof (unfold_locales, goal_cases)
  case (1 s x) then show ?case by (rule uidx_ok_insert)
next
  case (2 s k) then show ?case by (rule uidx_ok_erase)
next
  case (3 k s x) then show ?case by (rule uidx_find_Some)
next
  case (4 k s) show ?case by (rule uidx_find_None)
next
  case (5 s x y) then show ?case by (rule uidx_ok_unique)
next
  case (6 x s) show ?case by (rule set_uidx_insert)
next
  case (7 k s) show ?case by (rule set_uidx_erase)
qed

lemma length_uidx_insert:
  "length (uidx_insert key x xs) = (if key x \<in> key ` set xs then length xs else Suc (length xs))"
  by (simp add: uidx_insert_def uidx_find_None)

lemma length_uidx_erase:
  assumes "uidx_ok key xs"
  shows "length (uidx_erase key k xs) = length xs - (if k \<in> key ` set xs then 1 else 0)"
proof -
  have d: "distinct (map key xs)" "distinct xs"
    using assms by (auto simp: uidx_ok_def distinct_map)
  have "length (uidx_erase key k xs) = card (set (uidx_erase key k xs))"
    using d(2) by (metis distinct_card distinct_filter uidx_erase_def)
  also have "\<dots> = card (key ` set (uidx_erase key k xs))"
    using d(1) by (intro card_image [symmetric]) (auto simp: distinct_map inj_on_def set_uidx_erase)
  also have "key ` set (uidx_erase key k xs) = key ` set xs - {k}" by (rule uidx.keys_del)
  also have "card (key ` set xs) = length xs" using d(1)
    by (metis distinct_card length_map set_map)
  then have "card (key ` set xs - {k}) = length xs - (if k \<in> key ` set xs then 1 else 0)"
    by (simp add: card_Diff_singleton_if)
  finally show ?thesis .
qed

lemma uidx_ok_Nil [simp]: "uidx_ok key []"
  by (simp add: uidx_ok_def)

lemma map_of_map_assign [simp]: "map_of (map_assign k v m) = (map_of m)(k \<mapsto> v)"
  by (induction k v m rule: map_assign.induct) (auto simp: fun_eq_iff)

lemma map_of_map_erase [simp]: "map_of (map_erase k m) = (map_of m)(k := None)"
  by (induction m) (auto simp: map_erase_def fun_eq_iff)

interpretation omap: finite_map map_assign map_of map_erase
  by unfold_locales simp_all

lemma map_of_insert_range [simp]: "map_of (map_insert_range src m) = map_of src ++ map_of m"
proof -
  have "map_of (foldl (\<lambda>m e. if map_of m (fst e) = None then map_assign (fst e) (snd e) m else m) m src)
      = map_of src ++ map_of m" for m
  proof (induction src arbitrary: m)
    case (Cons e src)
    show ?case
    proof (cases "map_of m (fst e) = None")
      case True
      then show ?thesis by (simp add: Cons.IH fun_eq_iff map_add_def split: option.splits)
    next
      case False
      then show ?thesis by (auto simp: Cons.IH fun_eq_iff map_add_def split: option.splits)
    qed
  qed simp
  then show ?thesis by (simp add: map_insert_range_def)
qed

lemma set_midx_insert: "set (midx_insert key x xs) = insert x (set xs)"
proof -
  have "set xs = set (takeWhile P xs) \<union> set (dropWhile P xs)" for P
    by (metis set_append takeWhile_dropWhile_id)
  then show ?thesis by (auto simp: midx_insert_def)
qed

lemma sorted_midx_insert:
  assumes "sorted (map key xs)"
  shows "sorted (map key (midx_insert key x xs))"
proof -
  have t: "sorted (map key (takeWhile P xs))" and d: "sorted (map key (dropWhile P xs))" for P
    using assms by (metis map_append sorted_append takeWhile_dropWhile_id)+
  have gt: "key x < key y" if "y \<in> set (dropWhile (\<lambda>y. key y \<le> key x) xs)" for y
  proof (cases "dropWhile (\<lambda>y. key y \<le> key x) xs")
    case Nil
    with that show ?thesis by simp
  next
    case (Cons z zs)
    then have "\<not> key z \<le> key x" by (simp add: dropWhile_eq_Cons_conv)
    moreover have "key z \<le> key y" using that d [of "\<lambda>y. key y \<le> key x"] Cons by auto
    ultimately show ?thesis by simp
  qed
  have le: "key y \<le> key x" if "y \<in> set (takeWhile (\<lambda>y. key y \<le> key x) xs)" for y
    using that by (meson set_takeWhileD)
  show ?thesis
    using t d gt le by (fastforce simp: midx_insert_def sorted_append less_imp_le intro: order_trans)
qed

section \<open>Maps in key order\<close>

definition omap_ok :: "('k::linorder \<times> 'v) list \<Rightarrow> bool" where
  "omap_ok m \<longleftrightarrow> sorted_wrt (<) (map fst m)"

lemma omap_ok_Nil [simp]: "omap_ok []"
  by (simp add: omap_ok_def)

lemma keys_map_assign: "fst ` set (map_assign k v m) = insert k (fst ` set m)"
  by (induction k v m rule: map_assign.induct) auto

lemma omap_ok_assign: "omap_ok m \<Longrightarrow> omap_ok (map_assign k v m)"
proof (induction k v m rule: map_assign.induct)
  case (2 k v k' v' m)
  then have "omap_ok (map_assign k v m)" if "\<not> k < k'" "k \<noteq> k'" using that by (simp add: omap_ok_def)
  moreover have "\<forall>x \<in> fst ` set (map_assign k v m). k' < x" if "\<not> k < k'" "k \<noteq> k'"
    using that 2(2) by (auto simp: keys_map_assign omap_ok_def)
  ultimately show ?case using 2(2) by (auto simp: omap_ok_def)
qed (simp add: omap_ok_def)

lemma omap_ok_erase: "omap_ok m \<Longrightarrow> omap_ok (map_erase k m)"
  unfolding omap_ok_def map_erase_def by (induction m) auto

lemma omap_distinct: "omap_ok m \<Longrightarrow> distinct (map fst m)"
  by (simp add: omap_ok_def strict_sorted_iff)

lemma omap_iff: "omap_ok m \<Longrightarrow> map_of m k = Some v \<longleftrightarrow> (k, v) \<in> set m"
  by (simp add: omap_distinct)

text \<open>Assigning a key beyond all present ones appends it.\<close>

lemma map_assign_append: "\<forall>k' \<in> fst ` set m. k' < k \<Longrightarrow> map_assign k v m = m @ [(k, v)]"
  by (induction k v m rule: map_assign.induct) auto

lemma length_map_assign: "omap_ok m \<Longrightarrow> length (map_assign k v m) = (if k \<in> fst ` set m then length m else Suc (length m))"
proof -
  assume "omap_ok m"
  then have "length (map_assign k v m) = card (insert k (fst ` set m))" "length m = card (fst ` set m)"
    using omap_distinct [of m] omap_distinct [OF omap_ok_assign, of m k v] keys_map_assign [of k v m]
    by (metis distinct_card length_map list.set_map)+
  then show ?thesis by (auto simp: insert_absorb)
qed

lemma dom_map_of: "dom (map_of m) = fst ` set m"
  by (rule dom_map_of_conv_image_fst)

end
