(* ===== verification/PRP_Store.thy ===== *)
theory PRP_Store
  imports Dakota_Response Ordered_Index "HOL-Library.Char_ord" "HOL-Library.List_Lexorder"
    "HOL-Library.Product_Lexorder" "HOL-Library.Multiset"
begin

text \<open>
  Parameter/response pairs (\<^verbatim>\<open>src/ParamResponsePair.hpp\<close>), the variables they hold
  (\<^verbatim>\<open>src/DakotaVariables.cpp\<close>) and the two multi-index containers of \<^verbatim>\<open>src/PRPMultiIndex.hpp\<close>: the
  global evaluation cache, ordered by evaluation and interface id with repetitions, and the
  evaluation queue, ordered by unique evaluation id.

  A \<^verbatim>\<open>Response\<close> is a handle of a shared representation, so a pair holds a reference and the
  representations live in a heap; variables are copied wherever a pair outlives its caller and
  are values.  Values of type \<^verbatim>\<open>Real\<close> are compared with the equality of the type \<open>'r\<close>; a variable
  that is not a number does not occur.  Of the data that variables share, the record holds what the code here
  reads: the view, and the position of the active continuous variables.

  The hash functions of Boost and the buckets of the hashed index are the parameters \<open>hash_combine\<close> and
  \<open>bucket\<close> of a record \<open>hash_index\<close>; \<open>hash_contract\<close> says what a hashed index promises: a search looks at elements of
  the container only, and sees every element equal to the key if all of these have the hash value of the key.
\<close>

section \<open>Data\<close>

type_synonym rref = nat
type_synonym 'r heap = "rref \<Rightarrow> 'r response"

record 'r variables =
  variablesView :: "short \<times> short"
  allContinuousVars :: "'r list"
  allDiscreteIntVars :: "int list"
  allDiscreteStringVars :: "string list"
  allDiscreteRealVars :: "'r list"
  cv_start :: nat
  num_cv :: nat

record 'r prp =
  prpVariables :: "'r variables"
  prpResponse :: rref
  evalInterfaceIds :: "int \<times> string"

definition eval_id :: "'r prp \<Rightarrow> int" where
  "eval_id p = fst (evalInterfaceIds p)"

definition set_eval_id :: "int \<Rightarrow> 'r prp \<Rightarrow> 'r prp" where
  "set_eval_id i p = p\<lparr>evalInterfaceIds := (i, snd (evalInterfaceIds p))\<rparr>"

definition interface_id :: "'r prp \<Rightarrow> string" where
  "interface_id p = snd (evalInterfaceIds p)"

definition active_set_of :: "'r heap \<Rightarrow> 'r prp \<Rightarrow> active_set" where
  "active_set_of h p = responseActiveSet (h (prpResponse p))"

definition response_pair :: "'r prp \<Rightarrow> int \<times> rref" where
  "response_pair p = (fst (evalInterfaceIds p), prpResponse p)"

text \<open>The constructor that shares its arguments, used for search pairs and other temporaries, and
  the one for history uses (the caller supplies the copied representation).\<close>

definition ParamResponsePair_temp :: "'r variables \<Rightarrow> string \<Rightarrow> rref \<Rightarrow> 'r prp" where
  "ParamResponsePair_temp vars iface r =
    \<lparr>prpVariables = vars, prpResponse = r, evalInterfaceIds = (0, iface)\<rparr>"

definition ParamResponsePair :: "'r variables \<Rightarrow> string \<Rightarrow> rref \<Rightarrow> int \<Rightarrow> 'r prp" where
  "ParamResponsePair vars iface r i =
    \<lparr>prpVariables = vars, prpResponse = r, evalInterfaceIds = (i, iface)\<rparr>"

section \<open>Comparison\<close>

definition variables_eq :: "'r variables \<Rightarrow> 'r variables \<Rightarrow> bool" where
  "variables_eq v w \<longleftrightarrow>
    allContinuousVars v = allContinuousVars w \<and> allDiscreteIntVars v = allDiscreteIntVars w \<and>
    allDiscreteStringVars v = allDiscreteStringVars w \<and> allDiscreteRealVars v = allDiscreteRealVars w"

text \<open>Relative comparison of real vectors; \<open>dbl_min\<close> is the smallest normal number.\<close>

definition nearby_vec ::
    "'r \<Rightarrow> 'r list \<Rightarrow> 'r list \<Rightarrow> 'r::{one, minus, inverse, abs, ord} \<Rightarrow> bool" where
  "nearby_vec dbl_min rv1 rv2 rel_tol \<longleftrightarrow>
    length rv2 = length rv1 \<and>
    list_all (\<lambda>(a, b). if \<bar>a\<bar> < dbl_min then \<not> \<bar>b\<bar> > dbl_min else \<not> \<bar>1 - b / a\<bar> > rel_tol) (zip rv1 rv2)"

text \<open>The shortcut for two handles of one representation is left out: the cache holds copies of its
  variables, so that a search never compares a representation with itself.\<close>

definition nearby ::
    "'r \<Rightarrow> 'r variables \<Rightarrow> 'r variables \<Rightarrow> 'r::{one, minus, inverse, abs, ord} \<Rightarrow> bool" where
  "nearby dbl_min v w tol \<longleftrightarrow>
    nearby_vec dbl_min (allContinuousVars v) (allContinuousVars w) tol \<and>
    allDiscreteIntVars v = allDiscreteIntVars w \<and>
    allDiscreteStringVars v = allDiscreteStringVars w \<and> allDiscreteRealVars v = allDiscreteRealVars w"

definition prp_eq :: "'r heap \<Rightarrow> 'r prp \<Rightarrow> 'r prp \<Rightarrow> bool" where
  "prp_eq h p q \<longleftrightarrow> variables_eq (prpVariables p) (prpVariables q) \<and>
    interface_id p = interface_id q \<and>
    resp_eq (h (prpResponse p)) (h (prpResponse q))"

text \<open>Every bit of the search request is present in the stored request; if a derivative is among
  them, every derivative variable of the search is among the stored ones.\<close>

definition set_compare :: "'r heap \<Rightarrow> 'r prp \<Rightarrow> active_set \<Rightarrow> bool" where
  "set_compare h database_pr search_set =
    (let stored_set = active_set_of h database_pr;
         stored_asv = requestVector stored_set; search_asv = requestVector search_set
     in if length stored_asv \<noteq> length search_asv then False
        else if \<not> list_all (\<lambda>(st, se). and st se = se) (zip stored_asv search_asv) then False
        else if list_ex (\<lambda>se. and se 6 \<noteq> 0) search_asv
          then list_all (\<lambda>v. v \<in> set (derivVarsVector stored_set)) (derivVarsVector search_set)
        else True)"

definition id_vars_exact_compare :: "'r prp \<Rightarrow> 'r prp \<Rightarrow> bool" where
  "id_vars_exact_compare database_pr search_pr =
    (if interface_id search_pr \<noteq> interface_id database_pr then False
     else variables_eq (prpVariables search_pr) (prpVariables database_pr))"

section \<open>Lookups\<close>

text \<open>What is combined into a hash value, one call of \<^verbatim>\<open>boost::hash_combine\<close> for each.\<close>

datatype 'r hash_item = Hash_String string | Hash_View "short \<times> short" | Hash_Reals "'r list" | Hash_Ints "int list" |
  Hash_Strings "string list" | Hash_Value nat

record 'r hash_index =
  hash_combine :: "nat \<Rightarrow> 'r hash_item \<Rightarrow> nat"
  bucket :: "nat \<Rightarrow> 'r prp list \<Rightarrow> 'r prp list"

definition hash_value :: "(nat \<Rightarrow> 'r hash_item \<Rightarrow> nat) \<Rightarrow> 'r variables \<Rightarrow> nat" where
  "hash_value combine v = foldl combine 0
    [Hash_View (variablesView v), Hash_Reals (allContinuousVars v), Hash_Ints (allDiscreteIntVars v),
     Hash_Strings (allDiscreteStringVars v), Hash_Reals (allDiscreteRealVars v)]"

definition hash_value_prp :: "(nat \<Rightarrow> 'r hash_item \<Rightarrow> nat) \<Rightarrow> 'r prp \<Rightarrow> nat" where
  "hash_value_prp combine p =
    foldl combine 0 [Hash_String (interface_id p), Hash_Value (hash_value combine (prpVariables p))]"

text \<open>\<^verbatim>\<open>equal_range\<close> of the hashed index: the elements of the bucket of the key that are equal to it.\<close>

definition hashed_equal_range :: "'r hash_index \<Rightarrow> 'r prp list \<Rightarrow> 'r prp \<Rightarrow> 'r prp list" where
  "hashed_equal_range ix c search_pr =
    filter (\<lambda>e. id_vars_exact_compare e search_pr) (bucket ix (hash_value_prp (hash_combine ix) search_pr) c)"

definition hash_contract :: "'r hash_index \<Rightarrow> 'r prp list \<Rightarrow> bool" where
  "hash_contract ix c \<longleftrightarrow>
    (\<forall>k. set (bucket ix k c) \<subseteq> set c) \<and>
    (\<forall>key. (\<forall>e \<in> set c. id_vars_exact_compare e key \<longrightarrow>
          hash_value_prp (hash_combine ix) e = hash_value_prp (hash_combine ix) key) \<longrightarrow>
        (\<forall>e \<in> set c. id_vars_exact_compare e key \<longrightarrow> e \<in> set (bucket ix (hash_value_prp (hash_combine ix) key) c)))"

definition lookup_by_val_pr ::
    "'r heap \<Rightarrow> 'r hash_index \<Rightarrow> 'r prp list \<Rightarrow> 'r prp \<Rightarrow> active_set \<Rightarrow> 'r prp option" where
  "lookup_by_val_pr h ix c search_pr search_set =
    find (\<lambda>e. set_compare h e search_set) (hashed_equal_range ix c search_pr)"

definition lookup_by_val ::
    "'r heap \<Rightarrow> 'r hash_index \<Rightarrow> 'r prp list \<Rightarrow> string \<Rightarrow> 'r variables \<Rightarrow> active_set
      \<Rightarrow> 'r prp option" where
  "lookup_by_val h ix c iface vars search_set =
    lookup_by_val_pr h ix c (ParamResponsePair_temp vars iface 0) search_set"

definition lookup_by_nearby_val ::
    "'r \<Rightarrow> 'r heap \<Rightarrow> 'r prp list \<Rightarrow> string \<Rightarrow> 'r variables \<Rightarrow> active_set \<Rightarrow>
      'r::{one, minus, inverse, abs, ord} \<Rightarrow> 'r prp option" where
  "lookup_by_nearby_val dbl_min h c iface vars search_set tol =
    find (\<lambda>e. interface_id e = iface \<and> nearby dbl_min (prpVariables e) vars tol \<and>
      set_compare h e search_set) c"

definition lookup_by_ids :: "'r prp list \<Rightarrow> int \<times> string \<Rightarrow> 'r prp option result" where
  "lookup_by_ids c search_ids =
    (if fst search_ids > 0 then Inr (find (\<lambda>e. evalInterfaceIds e = search_ids) c)
     else Inl (Abort (-1)))"

definition lookup_by_ids_pr ::
    "'r heap \<Rightarrow> 'r prp list \<Rightarrow> int \<times> string \<Rightarrow> 'r prp \<Rightarrow> active_set \<Rightarrow> 'r prp option" where
  "lookup_by_ids_pr h c search_ids search_pr search_set =
    (if fst search_ids > 0 then find (\<lambda>e. evalInterfaceIds e = search_ids) c
     else (case filter (\<lambda>e. evalInterfaceIds e = search_ids) c of
         [] \<Rightarrow> None
       | [e] \<Rightarrow> Some e
       | entries \<Rightarrow> find (\<lambda>e. variables_eq (prpVariables e) (prpVariables search_pr) \<and>
           set_compare h e search_set) entries))"

section \<open>Containers\<close>

text \<open>The queue: an index ordered by unique evaluation id.\<close>

definition queue_insert :: "'r prp \<Rightarrow> 'r prp list \<Rightarrow> 'r prp list" where
  "queue_insert = uidx_insert eval_id"

definition lookup_by_eval_id :: "int \<Rightarrow> 'r prp list \<Rightarrow> 'r prp option" where
  "lookup_by_eval_id = uidx_find eval_id"

definition queue_erase :: "int \<Rightarrow> 'r prp list \<Rightarrow> 'r prp list" where
  "queue_erase = uidx_erase eval_id"

definition queue_ok :: "'r prp list \<Rightarrow> bool" where
  "queue_ok = uidx_ok eval_id"

definition queue_lookup_by_val ::
    "'r heap \<Rightarrow> 'r hash_index \<Rightarrow> 'r prp list \<Rightarrow> string \<Rightarrow> 'r variables \<Rightarrow> active_set
      \<Rightarrow> 'r prp option" where
  "queue_lookup_by_val h ix q iface vars search_set =
    find (\<lambda>e. set_compare h e search_set)
      (hashed_equal_range ix q (ParamResponsePair_temp vars iface 0))"

text \<open>The cache: an index ordered by evaluation and interface id, with repetitions.\<close>

definition cache_insert :: "'r prp \<Rightarrow> 'r prp list \<Rightarrow> 'r prp list" where
  "cache_insert = midx_insert evalInterfaceIds"

definition cache_erase :: "'r prp \<Rightarrow> 'r prp list \<Rightarrow> 'r prp list" where
  "cache_erase = remove1"

interpretation queue: unique_index queue_insert lookup_by_eval_id queue_erase eval_id set queue_ok
  unfolding queue_insert_def lookup_by_eval_id_def queue_erase_def queue_ok_def
  by (rule uidx.unique_index_axioms)

lemma queue_ok_Nil [simp]: "queue_ok []"
  by (simp add: queue_ok_def)

lemma eval_id_set_eval_id [simp]: "eval_id (set_eval_id i p) = i"
  by (simp add: eval_id_def set_eval_id_def)

lemma eval_id_ParamResponsePair [simp]: "eval_id (ParamResponsePair v s r i) = i"
  by (simp add: eval_id_def ParamResponsePair_def)

lemma prpResponse_ParamResponsePair [simp]: "prpResponse (ParamResponsePair v s r i) = r"
  by (simp add: ParamResponsePair_def)

lemma prpResponse_set_eval_id [simp]: "prpResponse (set_eval_id i p) = prpResponse p"
  by (simp add: set_eval_id_def)

lemma set_cache_insert [simp]: "set (cache_insert p c) = insert p (set c)"
  by (simp add: cache_insert_def set_midx_insert)

section \<open>What a lookup finds\<close>

text \<open>The request of a search is answered by a stored active set.\<close>

definition set_covers :: "active_set \<Rightarrow> active_set \<Rightarrow> bool" where
  "set_covers stored search \<longleftrightarrow>
    length (requestVector stored) = length (requestVector search) \<and>
    (\<forall>i < length (requestVector search).
      (req_val (requestVector search ! i) \<longrightarrow> req_val (requestVector stored ! i)) \<and>
      (req_grad (requestVector search ! i) \<longrightarrow> req_grad (requestVector stored ! i)) \<and>
      (req_hess (requestVector search ! i) \<longrightarrow> req_hess (requestVector stored ! i))) \<and>
    (list_ex req_grad (requestVector search) \<or> list_ex req_hess (requestVector search) \<longrightarrow>
      set (derivVarsVector search) \<subseteq> set (derivVarsVector stored))"

lemma and_eq_right_iff: "and a b = b \<longleftrightarrow> (\<forall>n. bit b n \<longrightarrow> bit a n)"
  for a b :: short
proof
  assume "and a b = b"
  then show "\<forall>n. bit b n \<longrightarrow> bit a n" by (metis bit_and_iff)
qed (auto simp: bit_eq_iff bit_and_iff)

lemma and_6_iff: "and (a :: short) 6 \<noteq> 0 \<longleftrightarrow> req_grad a \<or> req_hess a"
proof -
  have six: "(6 :: short) = or 2 4" by simp
  have "and a 6 = or (and a 2) (and a 4)"
    unfolding six by (rule bit.conj_disj_distrib)
  then have "and a 6 \<noteq> 0 \<longleftrightarrow> and a 2 \<noteq> 0 \<or> and a 4 \<noteq> 0" by (simp add: or_eq_0_iff)
  then show ?thesis by (simp add: req_grad_def req_hess_def)
qed

lemma set_compare_covers:
  assumes "set_compare h e s"
  shows "set_covers (active_set_of h e) s"
proof -
  let ?st = "active_set_of h e"
  have len: "length (requestVector ?st) = length (requestVector s)"
    and bits: "list_all (\<lambda>(st, se). and st se = se) (zip (requestVector ?st) (requestVector s))"
    and dv: "list_ex (\<lambda>se. and se 6 \<noteq> 0) (requestVector s) \<Longrightarrow>
      list_all (\<lambda>v. v \<in> set (derivVarsVector ?st)) (derivVarsVector s)"
    using assms by (auto simp: set_compare_def Let_def split: if_splits)
  have "and (requestVector ?st ! i) (requestVector s ! i) = requestVector s ! i"
    if "i < length (requestVector s)" for i
    using bits that len by (auto simp: list_all_length)
  then have "bit (requestVector s ! i) n \<Longrightarrow> bit (requestVector ?st ! i) n"
    if "i < length (requestVector s)" for i n
    using that by (metis and_eq_right_iff)
  moreover have "set (derivVarsVector s) \<subseteq> set (derivVarsVector ?st)"
    if "list_ex req_grad (requestVector s) \<or> list_ex req_hess (requestVector s)"
  proof -
    have "list_ex (\<lambda>se. and se 6 \<noteq> 0) (requestVector s)"
      using that by (auto simp: list_ex_iff and_6_iff)
    then show ?thesis using dv by (auto simp: list_all_iff)
  qed
  ultimately show ?thesis using len by (auto simp: set_covers_def req_bits)
qed

text \<open>Conversely, a set that covers a request of the three bits is accepted.\<close>

definition plain_request :: "active_set \<Rightarrow> bool" where
  "plain_request s \<longleftrightarrow> (\<forall>b \<in> set (requestVector s). and b 7 = b)"

lemma plain_bit:
  fixes b :: short
  assumes "and b 7 = b" "bit b n"
  shows "n = 0 \<or> n = 1 \<or> n = 2"
proof -
  have "(7 :: short) = mask 3" by (simp add: mask_eq_exp_minus_1)
  then have "bit (mask 3 :: short) n" using assms by (metis bit_and_iff)
  then show ?thesis by (auto simp: bit_mask_iff)
qed

lemma covers_set_compare:
  assumes "set_covers (active_set_of h e) s" "plain_request s"
  shows "set_compare h e s"
proof -
  let ?st = "active_set_of h e"
  have len: "length (requestVector ?st) = length (requestVector s)" using assms(1) by (simp add: set_covers_def)
  have "and (requestVector ?st ! i) (requestVector s ! i) = requestVector s ! i" if i: "i < length (requestVector s)" for i
    unfolding and_eq_right_iff
  proof (intro allI impI)
    fix n assume n: "bit (requestVector s ! i) n"
    have "and (requestVector s ! i) 7 = requestVector s ! i" using assms(2) i by (simp add: plain_request_def)
    then have "n = 0 \<or> n = 1 \<or> n = 2" using n by (rule plain_bit)
    then show "bit (requestVector ?st ! i) n" using assms(1) i n by (auto simp: set_covers_def req_bits)
  qed
  moreover have "list_all (\<lambda>v. v \<in> set (derivVarsVector ?st)) (derivVarsVector s)"
    if "list_ex (\<lambda>se. and se 6 \<noteq> 0) (requestVector s)"
    using that assms(1) by (auto simp: set_covers_def list_ex_iff and_6_iff list_all_iff)
  ultimately show ?thesis using len by (simp add: set_compare_def Let_def list_all_length)
qed

lemma same_key:
  "id_vars_exact_compare e (ParamResponsePair_temp vars iface a) \<longleftrightarrow>
    interface_id e = iface \<and> variables_eq vars (prpVariables e)"
  by (auto simp: id_vars_exact_compare_def ParamResponsePair_temp_def interface_id_def)

lemma same_hash:
  assumes "interface_id e = iface" "variables_eq vars (prpVariables e)" "variablesView (prpVariables e) = variablesView vars"
  shows "hash_value_prp combine e = hash_value_prp combine (ParamResponsePair_temp vars iface a)"
  using assms by (simp add: hash_value_prp_def hash_value_def variables_eq_def ParamResponsePair_temp_def interface_id_def)

lemma hashed_find_sound:
  assumes "find (\<lambda>e. set_compare h e s) (hashed_equal_range ix c (ParamResponsePair_temp vars iface 0)) = Some e"
    and "hash_contract ix c"
  shows "e \<in> set c \<and> interface_id e = iface \<and> variables_eq vars (prpVariables e) \<and> set_compare h e s"
proof -
  let ?key = "ParamResponsePair_temp vars iface 0"
  have "e \<in> set (bucket ix (hash_value_prp (hash_combine ix) ?key) c)" "id_vars_exact_compare e ?key" "set_compare h e s"
    using assms(1) by (auto simp: find_Some_iff hashed_equal_range_def dest: nth_mem)
  then show ?thesis using assms(2) by (auto simp: same_key hash_contract_def)
qed

lemma hashed_find_complete:
  assumes "find (\<lambda>e. set_compare h e s) (hashed_equal_range ix c (ParamResponsePair_temp vars iface 0)) = None"
    and "hash_contract ix c" and e: "e \<in> set c" "interface_id e = iface" "variables_eq vars (prpVariables e)"
    and views: "\<forall>e \<in> set c. interface_id e = iface \<and> variables_eq vars (prpVariables e) \<longrightarrow>
      variablesView (prpVariables e) = variablesView vars"
  shows "\<not> set_compare h e s"
proof -
  let ?key = "ParamResponsePair_temp vars iface 0"
  have "\<forall>e \<in> set c. id_vars_exact_compare e ?key \<longrightarrow> hash_value_prp (hash_combine ix) e = hash_value_prp (hash_combine ix) ?key"
    using views same_hash by (metis same_key)
  then have "e \<in> set (bucket ix (hash_value_prp (hash_combine ix) ?key) c)"
    using assms(2) e by (simp add: hash_contract_def same_key)
  then have "e \<in> set (hashed_equal_range ix c ?key)" using e by (simp add: hashed_equal_range_def same_key)
  then show ?thesis using assms(1) by (auto simp: find_None_iff)
qed

lemma set_covers_dvv_length:
  assumes "set_covers (responseActiveSet src) (responseActiveSet r)" "distinct (resp_dvv r)"
    and "list_ex req_grad (resp_asv r) \<or> list_ex req_hess (resp_asv r)"
  shows "length (resp_dvv r) \<le> length (resp_dvv src)"
proof -
  have "set (resp_dvv r) \<subseteq> set (resp_dvv src)"
    using assms(1,3) unfolding set_covers_def resp_asv_def resp_dvv_def by blast
  then have "card (set (resp_dvv r)) \<le> card (set (resp_dvv src))" by (simp add: card_mono)
  then show ?thesis using assms(2) card_length [of "resp_dvv src"] by (simp add: distinct_card)
qed

text \<open>A stored response that covers the request of \<open>r\<close> can be copied into it.\<close>

lemma update_from_covering:
  assumes r: "resp_ready r" "distinct (resp_dvv r)" and src: "resp_ready src"
    and cov: "set_covers (responseActiveSet src) (responseActiveSet r)"
  shows "\<exists>r'. update src pm r = Inr r' \<and> resp_ready r' \<and> responseActiveSet r' = responseActiveSet r \<and>
    metaData r' = (if pm then metaData src else metaData r) \<and>
    (\<forall>i < length (resp_asv r). agrees_where_requested r' src i \<and>
      (responseActiveSet r \<noteq> responseActiveSet src \<longrightarrow> zero_where_not_requested r' i))"
proof (rule update_ready)
  have len: "length (resp_asv src) = length (resp_asv r)"
    using cov by (simp add: set_covers_def resp_asv_def)
  have "list_ex req_grad (resp_asv src)" if "list_ex req_grad (resp_asv r)"
    using that cov len by (fastforce simp: list_ex_length set_covers_def resp_asv_def)
  then show "list_ex req_grad (resp_asv r) \<Longrightarrow> m_cols (functionGradients src) \<noteq> []"
    using src by (simp add: resp_ready_def)
  have "list_ex req_hess (resp_asv src)" if "list_ex req_hess (resp_asv r)"
    using that cov len by (fastforce simp: list_ex_length set_covers_def resp_asv_def)
  then show "list_ex req_hess (resp_asv r) \<Longrightarrow> functionHessians src \<noteq> []"
    using src by (simp add: resp_ready_def)
  show "length (resp_asv r) \<le> length (resp_asv src)" using len by simp
  show "resp_wf src" using src by (simp add: resp_ready_def)
qed (use set_covers_dvv_length [OF cov r(2)] r in auto)

section \<open>Properties\<close>

text \<open>One function of the variables 1 and 2, stored with its gradient.\<close>

definition example_vars :: "int variables" where
  "example_vars = \<lparr>variablesView = (1, 0), allContinuousVars = [3, 4], allDiscreteIntVars = [], allDiscreteStringVars = [],
     allDiscreteRealVars = [], cv_start = 0, num_cv = 2\<rparr>"

definition example_stored :: "int response" where
  "example_stored = \<lparr>functionValues = [5], functionGradients = \<lparr>m_rows = 2, m_cols = [[10, 20]]\<rparr>,
     functionHessians = [], responseActiveSet = \<lparr>requestVector = [3], derivVarsVector = [1, 2]\<rparr>,
     metaData = []\<rparr>"

definition example_request :: "short list \<Rightarrow> nat list \<Rightarrow> int response" where
  "example_request asv dvv = \<lparr>functionValues = [0],
     functionGradients = \<lparr>m_rows = length dvv, m_cols = [replicate (length dvv) 0]\<rparr>,
     functionHessians = [], responseActiveSet = \<lparr>requestVector = asv, derivVarsVector = dvv\<rparr>,
     metaData = []\<rparr>"

definition example_cache :: "int prp list" where
  "example_cache = [ParamResponsePair example_vars ''sim'' 0 1]"

text \<open>A hashed index in which every element is filed under its own hash value.\<close>

definition separate_buckets :: "(nat \<Rightarrow> 'r hash_item \<Rightarrow> nat) \<Rightarrow> 'r hash_index" where
  "separate_buckets combine = \<lparr>hash_combine = combine, bucket = (\<lambda>k. filter (\<lambda>p. hash_value_prp combine p = k))\<rparr>"

lemma separate_buckets_contract: "hash_contract (separate_buckets combine) c"
  by (auto simp: hash_contract_def separate_buckets_def)

text \<open>A hashed index with one bucket.\<close>

lemma one_bucket_contract [simp]: "hash_contract \<lparr>hash_combine = combine, bucket = (\<lambda>_ c. c)\<rparr> c"
  by (simp add: hash_contract_def)

text \<open>A hash of the lengths that also tells two views apart.\<close>

fun example_combine :: "nat \<Rightarrow> 'r hash_item \<Rightarrow> nat" where
  "example_combine seed (Hash_String s) = 31 * seed + length s"
| "example_combine seed (Hash_View v) = 31 * seed + (if v = (1, 0) then 1 else 2)"
| "example_combine seed (Hash_Reals xs) = 31 * seed + length xs"
| "example_combine seed (Hash_Ints xs) = 31 * seed + length xs"
| "example_combine seed (Hash_Strings xs) = 31 * seed + length xs"
| "example_combine seed (Hash_Value k) = 31 * seed + k"

abbreviation example_index :: "int hash_index" where
  "example_index \<equiv> separate_buckets example_combine"

lemmas example_lookup_simps = lookup_by_val_def lookup_by_val_pr_def hashed_equal_range_def example_cache_def example_vars_def
  id_vars_exact_compare_def ParamResponsePair_temp_def ParamResponsePair_def interface_id_def variables_eq_def
  set_compare_def active_set_of_def example_stored_def separate_buckets_def hash_value_prp_def hash_value_def

text \<open>C18: A lookup by value in the evaluation cache, for any hash and any arrangement of buckets that keeps the
  contract of a hashed index.  A returned pair is in the cache, was computed by the same interface at the
  same variable values, and its active set covers the request.  Conversely, if the pairs of the cache with that
  interface and those values have the view of the searched variables, and only values, gradients and
  Hessians are requested, then no result means that none of these pairs covers the request.  (The hash
  depends on the view and equality does not: see \<open>lookup_misses_other_view\<close>.)\<close>

theorem lookup_by_val_correct:
  assumes "hash_contract ix c"
  shows "case lookup_by_val h ix c iface vars search_set of
      Some e \<Rightarrow> e \<in> set c \<and> interface_id e = iface \<and> variables_eq vars (prpVariables e) \<and>
        set_covers (active_set_of h e) search_set
    | None \<Rightarrow> plain_request search_set \<longrightarrow>
        (\<forall>e \<in> set c. interface_id e = iface \<and> variables_eq vars (prpVariables e) \<longrightarrow>
          variablesView (prpVariables e) = variablesView vars) \<longrightarrow>
        \<not> (\<exists>e \<in> set c. interface_id e = iface \<and> variables_eq vars (prpVariables e) \<and>
          set_covers (active_set_of h e) search_set)"
proof (cases "lookup_by_val h ix c iface vars search_set")
  case None
  then have "find (\<lambda>e. set_compare h e search_set) (hashed_equal_range ix c (ParamResponsePair_temp vars iface 0)) = None"
    by (simp add: lookup_by_val_def lookup_by_val_pr_def)
  from hashed_find_complete [OF this assms] show ?thesis using None covers_set_compare by fastforce
next
  case (Some e)
  then have "e \<in> set c \<and> interface_id e = iface \<and> variables_eq vars (prpVariables e) \<and>
      set_compare h e search_set"
    using hashed_find_sound [OF _ assms] by (simp add: lookup_by_val_def lookup_by_val_pr_def)
  then show ?thesis using Some set_compare_covers by auto
qed

theorem lookup_by_val_correct_witness:
  "lookup_by_val (\<lambda>_. example_stored) example_index example_cache ''sim'' example_vars
      \<lparr>requestVector = [1], derivVarsVector = [2]\<rparr> = Some (hd example_cache) \<and>
    set_covers (active_set_of (\<lambda>_. example_stored) (hd example_cache)) \<lparr>requestVector = [1], derivVarsVector = [2]\<rparr> \<and>
    lookup_by_val (\<lambda>_. example_stored) example_index example_cache ''sim'' example_vars
      \<lparr>requestVector = [4], derivVarsVector = [2]\<rparr> = None \<and>
    \<not> set_covers (active_set_of (\<lambda>_. example_stored) (hd example_cache)) \<lparr>requestVector = [4], derivVarsVector = [2]\<rparr>"
proof -
  have hit: "lookup_by_val (\<lambda>_. example_stored) example_index example_cache ''sim'' example_vars
      \<lparr>requestVector = [1], derivVarsVector = [2]\<rparr> = Some (hd example_cache)"
    and miss: "lookup_by_val (\<lambda>_. example_stored) example_index example_cache ''sim'' example_vars
      \<lparr>requestVector = [4], derivVarsVector = [2]\<rparr> = None"
    by (simp_all add: example_lookup_simps)
  note c = lookup_by_val_correct [OF separate_buckets_contract [of example_combine example_cache],
    where h = "\<lambda>_. example_stored" and iface = "''sim''" and vars = example_vars]
  show ?thesis
    using c [of "\<lparr>requestVector = [1], derivVarsVector = [2]\<rparr>"] c [of "\<lparr>requestVector = [4], derivVarsVector = [2]\<rparr>"] hit miss
    by (simp add: example_cache_def plain_request_def ParamResponsePair_def interface_id_def variables_eq_def)
qed

text \<open>A pair that equals the searched variables in all values, for the same interface, and covers the request is
  missed if its view is another one: \<^verbatim>\<open>operator==\<close> ignores the view, \<^verbatim>\<open>hash_value\<close> does not.\<close>

lemma lookup_misses_other_view:
  "let vars = example_vars\<lparr>variablesView := (2, 0)\<rparr>; st = \<lparr>requestVector = [1], derivVarsVector = [2]\<rparr>; p = hd example_cache in
   hash_contract example_index example_cache \<and> p \<in> set example_cache \<and> interface_id p = ''sim'' \<and>
   variables_eq vars (prpVariables p) \<and> set_compare (\<lambda>_. example_stored) p st \<and>
   lookup_by_val (\<lambda>_. example_stored) example_index example_cache ''sim'' vars st = None"
  unfolding Let_def
  by (rule conjI, rule separate_buckets_contract) (simp add: example_lookup_simps)

text \<open>A cache hit answers the request.  If a lookup for the active set of a response that is
  sized for its request returns a pair, then \<^verbatim>\<open>update\<close> from the stored response succeeds, keeps
  the active set, and copies every requested value, gradient and Hessian: the size checks in
  \<^verbatim>\<open>update\<close> cannot abort after a hit.\<close>

theorem cache_hit_retrieves_request:
  assumes "lookup_by_val h ix c iface vars (responseActiveSet r) = Some e"
    and "resp_ready r" "distinct (resp_dvv r)" "resp_ready (h (prpResponse e))"
  shows "\<exists>r'. update (h (prpResponse e)) True r = Inr r' \<and>
    responseActiveSet r' = responseActiveSet r \<and> metaData r' = metaData (h (prpResponse e)) \<and>
    (\<forall>i < length (resp_asv r). agrees_where_requested r' (h (prpResponse e)) i)"
proof -
  have "set_compare h e (responseActiveSet r)"
    using assms(1) by (auto simp: lookup_by_val_def lookup_by_val_pr_def find_Some_iff)
  then have "set_covers (responseActiveSet (h (prpResponse e))) (responseActiveSet r)"
    using set_compare_covers by (fastforce simp: active_set_of_def)
  from update_from_covering [OF assms(2-4) this, of True] show ?thesis by auto
qed

lemma example_lookup:
  "v \<in> {1, 2} \<Longrightarrow> lookup_by_val (\<lambda>_. example_stored) example_index example_cache ''sim'' example_vars
      \<lparr>requestVector = [2], derivVarsVector = [v]\<rparr> = Some (hd example_cache)"
  by (auto simp: example_lookup_simps)

lemma example_ready:
  "resp_ready example_stored" "resp_ready (example_request [2] [v])"
  by (simp_all add: resp_ready_def resp_wf_def example_stored_def example_request_def resp_asv_def
      resp_dvv_def req_hess_def)

theorem cache_hit_retrieves_request_witness:
  "\<exists>r'. update example_stored True (example_request [2] [1]) = Inr r' \<and>
    agrees_where_requested r' example_stored 0"
  using cache_hit_retrieves_request [of "\<lambda>_. example_stored" example_index example_cache "''sim''" example_vars
      "example_request [2] [1]" "hd example_cache"] example_lookup [of 1] example_ready
  by (auto simp: example_request_def resp_asv_def resp_dvv_def)

text \<open>A cache hit can return the derivative with respect to another variable.  A pair stored
  with derivative variables 1 and 2 answers a request for the gradient with respect to variable 2
  alone, but \<^verbatim>\<open>update\<close> copies by position, so the gradient returned for variable 2 is the stored
  derivative with respect to variable 1.  The index mapping \<^verbatim>\<open>map_dvv_indices\<close> of the same class,
  which \<^verbatim>\<open>update\<close> does not use, selects the other entry.\<close>

theorem cache_hit_mixes_derivative_variables:
  "lookup_by_val (\<lambda>_. example_stored) example_index example_cache ''sim'' example_vars
     (responseActiveSet (example_request [2] [2])) = Some (hd example_cache) \<and>
   (\<exists>r'. update example_stored True (example_request [2] [2]) = Inr r' \<and>
     resp_dvv r' = [2] \<and> m_cols (functionGradients r') ! 0 = [10]) \<and>
   map_dvv_indices (resp_dvv example_stored) (example_request [2] [2]) = Inr ([1], [0])"
proof (intro conjI)
  show "lookup_by_val (\<lambda>_. example_stored) example_index example_cache ''sim'' example_vars
     (responseActiveSet (example_request [2] [2])) = Some (hd example_cache)"
    using example_lookup [of 2] by (simp add: example_request_def)
  have "set_covers (responseActiveSet example_stored) (responseActiveSet (example_request [2] [2]))"
    by (simp add: set_covers_def example_stored_def example_request_def req_val_def req_grad_def req_hess_def)
  from update_from_covering [OF example_ready(2) _ example_ready(1) this, of True]
  obtain r' where "update example_stored True (example_request [2] [2]) = Inr r'"
    and set: "responseActiveSet r' = responseActiveSet (example_request [2] [2])"
    and "agrees_where_requested r' example_stored 0"
    by (auto simp: example_request_def resp_asv_def resp_dvv_def)
  moreover from this have "m_cols (functionGradients r') ! 0 = [10]"
    by (simp add: agrees_where_requested_def set example_request_def resp_asv_def resp_dvv_def
        req_grad_def example_stored_def)
  ultimately show "\<exists>r'. update example_stored True (example_request [2] [2]) = Inr r' \<and>
     resp_dvv r' = [2] \<and> m_cols (functionGradients r') ! 0 = [10]"
    by (auto simp: resp_dvv_def example_request_def)
  show "map_dvv_indices (resp_dvv example_stored) (example_request [2] [2]) = Inr ([1], [0])"
    by (simp add: map_dvv_indices_def example_stored_def example_request_def resp_dvv_def)
qed

end
