(* ===== verification/Interface_Mapping.thy ===== *)
theory Interface_Mapping
  imports PRP_Store
begin

text \<open>
  The base class of all interfaces (\<^verbatim>\<open>src/DakotaInterface.cpp\<close>): evaluation counters, the response
  maps that are handed to the models, and the merge of algebraic (AMPL) and simulation responses.

  The AMPL solver library is a parameter: \<open>ampl_val t x\<close>, \<open>ampl_grad t x\<close> and \<open>ampl_hess t x\<close> are
  the value, gradient and Hessian of the function with type tag \<open>t\<close> at \<open>x\<close> (\<^verbatim>\<open>objval\<close> and
  \<^verbatim>\<open>conival\<close>, \<^verbatim>\<open>objgrd\<close> and \<^verbatim>\<open>congrd\<close>, \<^verbatim>\<open>fullhes\<close>), the first two with \<^verbatim>\<open>None\<close> for a reported
  error.  Console output and label bookkeeping are left out.
\<close>

section \<open>State of an interface\<close>

record algebraic_data =
  algebraicVarTags :: "string list"
  algebraicACVIndices :: "nat list"
  algebraicACVIds :: "nat list"
  algebraicFnTags :: "string list"
  algebraicFnTypes :: "int list"
  algebraicFnIndices :: "nat list"

record 'r interface_base =
  heap :: "'r heap"
  nextRef :: rref
  evalIdCntr :: int
  newEvalIdCntr :: int
  evalIdRefPt :: int
  newEvalIdRefPt :: int
  fineGrainEvalCounters :: bool
  fnValCounter :: "int list"
  fnGradCounter :: "int list"
  fnHessCounter :: "int list"
  newFnValCounter :: "int list"
  newFnGradCounter :: "int list"
  newFnHessCounter :: "int list"
  fnValRefPt :: "int list"
  fnGradRefPt :: "int list"
  fnHessRefPt :: "int list"
  newFnValRefPt :: "int list"
  newFnGradRefPt :: "int list"
  newFnHessRefPt :: "int list"
  rawResponseMap :: "(int \<times> rref) list"
  cachedResponseMap :: "(int \<times> rref) list"
  algebraicData :: algebraic_data

text \<open>The heap of response representations: a fresh representation, and an update in place.\<close>

definition new_response :: "'r response \<Rightarrow> ('r, 'm) interface_base_scheme \<Rightarrow>
    rref \<times> ('r, 'm) interface_base_scheme" where
  "new_response r s = (nextRef s, s\<lparr>heap := (heap s)(nextRef s := r), nextRef := Suc (nextRef s)\<rparr>)"

definition set_response :: "rref \<Rightarrow> 'r response \<Rightarrow> ('r, 'm) interface_base_scheme \<Rightarrow>
    ('r, 'm) interface_base_scheme" where
  "set_response a r s = s\<lparr>heap := (heap s)(a := r)\<rparr>"

text \<open>A response built for an active set, with \<open>num_md\<close> metadata fields.\<close>

definition Response_for_set :: "nat \<Rightarrow> active_set \<Rightarrow> 'r::zero response" where
  "Response_for_set num_md s =
    (shape_rep 0 s True \<lparr>functionValues = [], functionGradients = mat_zero 0 0, functionHessians = [],
       responseActiveSet = s, metaData = []\<rparr>)\<lparr>metaData := replicate num_md 0\<rparr>"

section \<open>Counters and response maps\<close>

definition init_evaluation_counters :: "nat \<Rightarrow> ('r, 'm) interface_base_scheme \<Rightarrow> ('r, 'm) interface_base_scheme" where
  "init_evaluation_counters num_fns s =
    (if length (fnValCounter s) \<noteq> num_fns
     then let z = replicate num_fns 0 in
       s\<lparr>fnValCounter := z, fnGradCounter := z, fnHessCounter := z,
         newFnValCounter := z, newFnGradCounter := z, newFnHessCounter := z,
         fnValRefPt := z, fnGradRefPt := z, fnHessRefPt := z,
         newFnValRefPt := z, newFnGradRefPt := z, newFnHessRefPt := z\<rparr>
     else s)"

definition fine_grained_evaluation_counters ::
    "nat \<Rightarrow> ('r, 'm) interface_base_scheme \<Rightarrow> ('r, 'm) interface_base_scheme" where
  "fine_grained_evaluation_counters num_fns s =
    (if \<not> fineGrainEvalCounters s
     then (init_evaluation_counters num_fns s)\<lparr>fineGrainEvalCounters := True\<rparr> else s)"

definition set_evaluation_reference ::
    "('r, 'm) interface_base_scheme \<Rightarrow> ('r, 'm) interface_base_scheme" where
  "set_evaluation_reference s =
    (let s1 = s\<lparr>evalIdRefPt := evalIdCntr s, newEvalIdRefPt := newEvalIdCntr s\<rparr> in
     if fineGrainEvalCounters s
     then s1\<lparr>fnValRefPt := fnValCounter s, newFnValRefPt := newFnValCounter s,
       fnGradRefPt := fnGradCounter s, newFnGradRefPt := newFnGradCounter s,
       fnHessRefPt := fnHessCounter s, newFnHessRefPt := newFnHessCounter s\<rparr>
     else s1)"

definition cache_unmatched_response ::
    "int \<Rightarrow> ('r, 'm) interface_base_scheme \<Rightarrow> ('r, 'm) interface_base_scheme" where
  "cache_unmatched_response raw_id s =
    (case map_of (rawResponseMap s) raw_id of
       None \<Rightarrow> s
     | Some r \<Rightarrow> s\<lparr>cachedResponseMap := map_insert_range [(raw_id, r)] (cachedResponseMap s),
         rawResponseMap := map_erase raw_id (rawResponseMap s)\<rparr>)"

definition cache_unmatched_responses ::
    "('r, 'm) interface_base_scheme \<Rightarrow> ('r, 'm) interface_base_scheme" where
  "cache_unmatched_responses s =
    s\<lparr>cachedResponseMap := map_insert_range (rawResponseMap s) (cachedResponseMap s), rawResponseMap := []\<rparr>"

section \<open>Algebraic mappings\<close>

text \<open>\<^verbatim>\<open>find_index\<close>: the first position of a value, \<^verbatim>\<open>_NPOS\<close> is \<^verbatim>\<open>None\<close>.\<close>

fun find_index :: "'a list \<Rightarrow> 'a \<Rightarrow> nat option" where
  "find_index [] x = None"
| "find_index (y # ys) x = (if y = x then Some 0 else map_option Suc (find_index ys x))"

definition init_algebraic_mappings ::
    "string list \<Rightarrow> nat list \<Rightarrow> string list \<Rightarrow> algebraic_data \<Rightarrow> algebraic_data result" where
  "init_algebraic_mappings acv_labels acv_ids fn_labels a =
    (let vi = map (find_index acv_labels) (algebraicVarTags a);
         fi = map (find_index fn_labels) (algebraicFnTags a)
     in if None \<in> set vi then Inl (Abort INTERFACE_ERROR)
        else if None \<in> set fi then Inl (Abort INTERFACE_ERROR)
        else Inr (a\<lparr>algebraicACVIndices := map the vi, algebraicACVIds := map (\<lambda>i. acv_ids ! the i) vi,
          algebraicFnIndices := map the fi\<rparr>))"

text \<open>Split of a request: the algebraic part is over the algebraic functions and variables.\<close>

definition asv_mapping :: "algebraic_data \<Rightarrow> active_set \<Rightarrow> (active_set \<times> active_set) result" where
  "asv_mapping a total_set =
    (let total_asv = requestVector total_set;
         num_alg_fns = length (algebraicFnTags a); num_alg_vars = length (algebraicVarTags a)
     in if \<exists>i \<in> set [0..<num_alg_fns]. i \<ge> length (algebraicFnIndices a) \<or>
            algebraicFnIndices a ! i \<ge> length total_asv
        then Inl (UndefinedBehaviour ''index'')
        else Inr
          (derivative_start_value 1 (set_derivative_vector (replicate num_alg_vars 0)
             (set_request_vector (map (\<lambda>i. total_asv ! (algebraicFnIndices a ! i)) [0..<num_alg_fns])
                ActiveSet_default)),
           set_derivative_vector (derivVarsVector total_set)
             (set_request_vector total_asv ActiveSet_default)))"

text \<open>The converse: requests of the algebraic set are stored at the positions of the functions.\<close>

definition asv_mapping_total :: "algebraic_data \<Rightarrow> active_set \<Rightarrow> active_set \<Rightarrow> active_set result" where
  "asv_mapping_total a algebraic_set total_set =
    rfold (\<lambda>i t. if i \<ge> length (requestVector algebraic_set) \<or> i \<ge> length (algebraicFnIndices a)
        then Inl (UndefinedBehaviour ''index'')
        else set_request_value (requestVector algebraic_set ! i) (algebraicFnIndices a ! i) t)
      [0..<length (algebraicFnTags a)] total_set"

text \<open>Evaluation of algebraic function \<open>i\<close> into a response.\<close>

definition algebraic_function ::
  "(int \<Rightarrow> 'r list \<Rightarrow> 'r option) \<Rightarrow> (int \<Rightarrow> 'r list \<Rightarrow> 'r list option) \<Rightarrow> (int \<Rightarrow> 'r list \<Rightarrow> 'r symmat) \<Rightarrow>
    int list \<Rightarrow> short list \<Rightarrow> 'r list \<Rightarrow> nat \<Rightarrow> 'r response \<Rightarrow> 'r response result" where
  "algebraic_function ampl_val ampl_grad ampl_hess fn_types asv nl_vars i r =
    (let t = fn_types ! i in
     if i \<ge> length fn_types then Inl (UndefinedBehaviour ''index'') else
     rbind
      (if req_val (asv ! i) then
         case ampl_val t nl_vars of
           None \<Rightarrow> Inl (Abort INTERFACE_ERROR)
         | Some v \<Rightarrow> if i \<ge> length (functionValues r) then Inl (UndefinedBehaviour ''index'')
             else Inr (r\<lparr>functionValues := (functionValues r)[i := v]\<rparr>)
       else Inr r) (\<lambda>r1.
     rbind
      (if and (asv ! i) 6 \<noteq> 0 then
         if nl_vars \<noteq> [] \<and>
           (i \<ge> length (m_cols (functionGradients r1)) \<or> m_rows (functionGradients r1) < length nl_vars)
         then Inl (UndefinedBehaviour ''gradient not allocated'')
         else case ampl_grad t nl_vars of
           None \<Rightarrow> Inl (Abort INTERFACE_ERROR)
         | Some g \<Rightarrow> Inr (r1\<lparr>functionGradients := (functionGradients r1)\<lparr>m_cols :=
             (m_cols (functionGradients r1))[i := copy_prefix (length nl_vars) g (m_cols (functionGradients r1) ! i)]\<rparr>\<rparr>)
       else Inr r1) (\<lambda>r2.
      if req_hess (asv ! i) then
        if i \<ge> length (functionHessians r2) \<or> length (functionHessians r2 ! i) < length nl_vars
        then Inl (UndefinedBehaviour ''index'')
        else Inr (r2\<lparr>functionHessians := (functionHessians r2)[i :=
          copy_triangle (length nl_vars) (ampl_hess t nl_vars) (functionHessians r2 ! i)]\<rparr>)
      else Inr r2)))"

definition algebraic_mappings ::
  "(int \<Rightarrow> 'r list \<Rightarrow> 'r option) \<Rightarrow> (int \<Rightarrow> 'r list \<Rightarrow> 'r list option) \<Rightarrow> (int \<Rightarrow> 'r list \<Rightarrow> 'r symmat) \<Rightarrow>
    algebraic_data \<Rightarrow> 'r variables \<Rightarrow> active_set \<Rightarrow> 'r::zero response \<Rightarrow> 'r response result" where
  "algebraic_mappings ampl_val ampl_grad ampl_hess a vars algebraic_set r =
    (let num_alg_fns = length (requestVector algebraic_set);
         num_alg_vars = length (derivVarsVector algebraic_set);
         acv = allContinuousVars vars
     in if \<exists>i \<in> set [0..<num_alg_vars]. i \<ge> length (algebraicACVIndices a) \<or>
            algebraicACVIndices a ! i \<ge> length acv
        then Inl (UndefinedBehaviour ''index'')
        else let nl_vars = map (\<lambda>i. acv ! (algebraicACVIndices a ! i)) [0..<num_alg_vars] in
          rbind (reset_inactive r)
            (rfold (algebraic_function ampl_val ampl_grad ampl_hess (algebraicFnTypes a)
               (requestVector algebraic_set) nl_vars) [0..<num_alg_fns]))"

section \<open>Merging responses\<close>

text \<open>\<^verbatim>\<open>function_value\<close>, \<^verbatim>\<open>function_gradient\<close> and \<^verbatim>\<open>function_hessian\<close> of a response assign one value,
  one column (as many entries as the matrix has rows) and one matrix.\<close>

definition set_function_value :: "'r \<Rightarrow> nat \<Rightarrow> 'r response \<Rightarrow> 'r response result" where
  "set_function_value v i t =
    (if i \<ge> length (functionValues t) then Inl (UndefinedBehaviour ''index'')
     else Inr (t\<lparr>functionValues := (functionValues t)[i := v]\<rparr>))"

definition set_function_gradient :: "'r list \<Rightarrow> nat \<Rightarrow> 'r response \<Rightarrow> 'r response result" where
  "set_function_gradient c i t =
    (let g = functionGradients t in
     if i \<ge> length (m_cols g) \<or> length c < m_rows g then Inl (UndefinedBehaviour ''index'')
     else Inr (t\<lparr>functionGradients := g\<lparr>m_cols := (m_cols g)[i := take (m_rows g) c]\<rparr>\<rparr>))"

definition set_function_hessian :: "'r symmat \<Rightarrow> nat \<Rightarrow> 'r response \<Rightarrow> 'r response result" where
  "set_function_hessian h i t =
    (if i \<ge> length (functionHessians t) then Inl (UndefinedBehaviour ''index'')
     else Inr (t\<lparr>functionHessians := (functionHessians t)[i := h]\<rparr>))"

text \<open>Reading entry \<open>i\<close> of an array.\<close>

definition read_entry :: "'a list \<Rightarrow> nat \<Rightarrow> 'a result" where
  "read_entry xs i = (if i < length xs then Inr (xs ! i) else Inl (UndefinedBehaviour ''index''))"

text \<open>The core contribution to function \<open>i\<close>.\<close>

definition merge_core :: "'r response \<Rightarrow> nat \<Rightarrow> 'r response \<Rightarrow> 'r response result" where
  "merge_core core i t =
    (let asv = resp_asv core in
     rbind (if req_val (asv ! i)
        then rbind (read_entry (functionValues core) i) (\<lambda>v. set_function_value v i t)
        else Inr t) (\<lambda>t1.
     rbind (if req_grad (asv ! i)
        then rbind (read_entry (m_cols (functionGradients core)) i) (\<lambda>c. set_function_gradient c i t1)
        else Inr t1) (\<lambda>t2.
      if req_hess (asv ! i)
        then rbind (read_entry (functionHessians core) i) (\<lambda>h. set_function_hessian h i t2)
        else Inr t2)))"

text \<open>The algebraic contribution: added at the mapped function and, for derivatives, at the mapped
  derivative variables; unmapped variables are skipped.\<close>

definition add_gradient :: "nat option list \<Rightarrow> 'r list \<Rightarrow> 'r::plus list \<Rightarrow> 'r list" where
  "add_gradient idx g c =
    foldl (\<lambda>c j. case idx ! j of None \<Rightarrow> c | Some d \<Rightarrow> c[d := c ! d + g ! j]) c [0..<length idx]"

definition add_hessian :: "nat option list \<Rightarrow> 'r symmat \<Rightarrow> 'r::plus symmat \<Rightarrow> 'r symmat" where
  "add_hessian idx h m =
    foldl (\<lambda>m (j, k). case (idx ! j, idx ! k) of
        (Some dj, Some dk) \<Rightarrow> sym_set dj dk (sym_get m dj dk + sym_get h j k) m
      | _ \<Rightarrow> m) m (concat (map (\<lambda>j. map (Pair j) [0..<Suc j]) [0..<length idx]))"

definition mapped_below :: "nat option list \<Rightarrow> nat \<Rightarrow> bool" where
  "mapped_below idx n = list_all (\<lambda>d. case d of None \<Rightarrow> True | Some d \<Rightarrow> d < n) idx"

definition merge_algebraic ::
  "nat list \<Rightarrow> nat option list \<Rightarrow> 'r response \<Rightarrow> nat \<Rightarrow> 'r::plus response \<Rightarrow> 'r response result" where
  "merge_algebraic fn_indices idx alg i t =
    (let asv = resp_asv alg; num_alg_vars = length (resp_dvv alg) in
     rbind (read_entry fn_indices i) (\<lambda>f.
     rbind (if req_val (asv ! i)
        then rbind (read_entry (functionValues alg) i) (\<lambda>v.
          rbind (read_entry (functionValues t) f) (\<lambda>w. set_function_value (w + v) f t))
        else Inr t) (\<lambda>t1.
     rbind (if req_grad (asv ! i)
        then rbind (read_entry (m_cols (functionGradients alg)) i) (\<lambda>g.
          rbind (read_entry (m_cols (functionGradients t1)) f) (\<lambda>c.
            if length idx < num_alg_vars \<or> length g < num_alg_vars \<or> \<not> mapped_below idx (length c)
            then Inl (UndefinedBehaviour ''index'')
            else set_function_gradient (add_gradient idx g c) f t1))
        else Inr t1) (\<lambda>t2.
      if req_hess (asv ! i)
        then rbind (read_entry (functionHessians alg) i) (\<lambda>h.
          rbind (read_entry (functionHessians t2) f) (\<lambda>m.
            if length idx < num_alg_vars \<or> length h < num_alg_vars \<or> \<not> mapped_below idx (length m)
            then Inl (UndefinedBehaviour ''index'')
            else set_function_hessian (add_hessian idx h m) f t2))
        else Inr t2))))"

text \<open>
  \<^verbatim>\<open>response_mapping\<close>.  The core and the total response may be the same object; \<^verbatim>\<open>reset_inactive\<close>
  keeps the entries that the core contribution then assigns, so the value that \<open>core\<close> had before
  the call gives the same result.
\<close>

definition response_mapping ::
  "bool \<Rightarrow> algebraic_data \<Rightarrow> 'r response \<Rightarrow> 'r response \<Rightarrow> 'r::{zero, plus} response \<Rightarrow> 'r response result" where
  "response_mapping coreMappings a alg core tot =
    (let total_asv = resp_asv tot; grad_flag = list_ex req_grad total_asv;
         hess_flag = list_ex req_hess total_asv;
         num_alg_fns = length (resp_asv alg); num_alg_vars = length (resp_dvv alg)
     in rbind
       (if coreMappings
        then rbind (reset_inactive tot) (rfold (merge_core core) [0..<length (resp_asv core)])
        else Inr (reset tot)) (\<lambda>t.
        if num_alg_fns > length total_asv then Inl (Abort (-1))
        else if (grad_flag \<or> hess_flag) \<and> num_alg_vars > length (resp_dvv tot) then Inl (Abort (-1))
        else if (grad_flag \<or> hess_flag) \<and> num_alg_vars > length (algebraicACVIds a)
          then Inl (UndefinedBehaviour ''index'')
        else let idx = (if grad_flag \<or> hess_flag
               then map (\<lambda>i. find_index (resp_dvv tot) (algebraicACVIds a ! i)) [0..<num_alg_vars] else [])
          in rfold (merge_algebraic (algebraicFnIndices a) idx alg) [0..<num_alg_fns] t))"

section \<open>What the merge computes\<close>

lemma find_index_None: "find_index xs x = None \<longleftrightarrow> x \<notin> set xs"
  by (induction xs) auto

lemma find_index_Some: "find_index xs x = Some i \<Longrightarrow> i < length xs \<and> xs ! i = x"
  by (induction xs arbitrary: i) (auto split: if_splits)

lemma find_index_nth: "distinct xs \<Longrightarrow> i < length xs \<Longrightarrow> find_index xs (xs ! i) = Some i"
  by (induction xs arbitrary: i) (auto simp: nth_Cons split: nat.splits)

lemma find_index_take:
  assumes "distinct xs" "k < length xs"
  shows "find_index (take (Suc k) xs) x = (if xs ! k = x then Some k else find_index (take k xs) x)"
  using assms
proof (induction xs arbitrary: k)
  case (Cons y ys)
  then show ?case by (cases k) auto
qed simp

text \<open>The three requested parts of function \<open>f\<close> of two responses are equal.\<close>

definition same_requested :: "'r response \<Rightarrow> 'r response \<Rightarrow> nat \<Rightarrow> bool" where
  "same_requested t core f \<longleftrightarrow>
    (req_val (resp_asv core ! f) \<longrightarrow> functionValues t ! f = functionValues core ! f) \<and>
    (req_grad (resp_asv core ! f) \<longrightarrow> m_cols (functionGradients t) ! f = m_cols (functionGradients core) ! f) \<and>
    (req_hess (resp_asv core ! f) \<longrightarrow> functionHessians t ! f = functionHessians core ! f)"

lemma ready_grads:
  assumes "resp_ready r" "i < length (resp_asv r)" "req_grad (resp_asv r ! i)"
  shows "length (m_cols (functionGradients r)) = length (resp_asv r)"
    "m_rows (functionGradients r) = length (resp_dvv r)"
    "f < length (resp_asv r) \<Longrightarrow> length (m_cols (functionGradients r) ! f) = length (resp_dvv r)"
proof -
  have ne: "m_cols (functionGradients r) \<noteq> []"
    using assms list_ex_nth [of i "resp_asv r" req_grad] by (simp add: resp_ready_def)
  have wf: "resp_wf r" using assms(1) by (simp add: resp_ready_def)
  show l: "length (m_cols (functionGradients r)) = length (resp_asv r)"
    "m_rows (functionGradients r) = length (resp_dvv r)"
    using wf ne by (auto simp: resp_wf_def Let_def)
  show "length (m_cols (functionGradients r) ! f) = length (resp_dvv r)" if "f < length (resp_asv r)"
    using wf ne that l by (auto simp: resp_wf_def Let_def)
qed

lemma ready_hess:
  assumes "resp_ready r" "i < length (resp_asv r)" "req_hess (resp_asv r ! i)"
  shows "length (functionHessians r) = length (resp_asv r)"
    "f < length (resp_asv r) \<Longrightarrow> tri_wf (length (resp_dvv r)) (functionHessians r ! f)"
proof -
  have ne: "functionHessians r \<noteq> []"
    using assms list_ex_nth [of i "resp_asv r" req_hess] by (simp add: resp_ready_def)
  have wf: "resp_wf r" using assms(1) by (simp add: resp_ready_def)
  show l: "length (functionHessians r) = length (resp_asv r)" using wf ne by (auto simp: resp_wf_def Let_def)
  show "tri_wf (length (resp_dvv r)) (functionHessians r ! f)" if "f < length (resp_asv r)"
    using wf ne that l by (auto simp: resp_wf_def Let_def)
qed

lemma ready_values: "resp_ready r \<Longrightarrow> length (functionValues r) = length (resp_asv r)"
  by (simp add: resp_ready_def resp_wf_def Let_def)

text \<open>Replacing one block by a block of the same shape keeps a response ready.\<close>

lemma ready_update_value:
  assumes "resp_ready t" "i < length (resp_asv t)"
  shows "set_function_value v i t = Inr (t\<lparr>functionValues := (functionValues t)[i := v]\<rparr>)"
    "resp_ready (t\<lparr>functionValues := (functionValues t)[i := v]\<rparr>)"
  using assms ready_values [OF assms(1)]
  by (simp_all add: set_function_value_def resp_ready_def resp_wf_def Let_def resp_asv_def resp_dvv_def)

lemma ready_update_column:
  assumes "resp_ready t" "i < length (resp_asv t)" "req_grad (resp_asv t ! i)" "length c = length (resp_dvv t)"
  shows "set_function_gradient c i t =
      Inr (t\<lparr>functionGradients := (functionGradients t)\<lparr>m_cols := (m_cols (functionGradients t))[i := c]\<rparr>\<rparr>)"
    "resp_ready (t\<lparr>functionGradients := (functionGradients t)\<lparr>m_cols := (m_cols (functionGradients t))[i := c]\<rparr>\<rparr>)"
  using assms ready_grads(1,2) [OF assms(1-3)]
  by (auto simp: set_function_gradient_def resp_ready_def resp_wf_def Let_def resp_asv_def resp_dvv_def
      dest!: subsetD [OF set_update_subset_insert])

lemma ready_update_hessian:
  assumes "resp_ready t" "i < length (resp_asv t)" "req_hess (resp_asv t ! i)" "tri_wf (length (resp_dvv t)) h"
  shows "set_function_hessian h i t = Inr (t\<lparr>functionHessians := (functionHessians t)[i := h]\<rparr>)"
    "resp_ready (t\<lparr>functionHessians := (functionHessians t)[i := h]\<rparr>)"
  using assms ready_hess(1) [OF assms(1-3)]
  by (auto simp: set_function_hessian_def resp_ready_def resp_wf_def Let_def resp_asv_def resp_dvv_def
      dest!: subsetD [OF set_update_subset_insert])

lemma read_entry_Inr [simp]: "i < length xs \<Longrightarrow> read_entry xs i = Inr (xs ! i)"
  by (simp add: read_entry_def)

text \<open>The result of replacing the three requested parts of function \<open>i\<close> of \<open>t\<close>.\<close>

definition replace_parts :: "short \<Rightarrow> nat \<Rightarrow> 'r \<Rightarrow> 'r list \<Rightarrow> 'r symmat \<Rightarrow> 'r response \<Rightarrow> 'r response" where
  "replace_parts a i v c h t = t\<lparr>
     functionValues := (if req_val a then (functionValues t)[i := v] else functionValues t),
     functionGradients := (if req_grad a then (functionGradients t)\<lparr>m_cols := (m_cols (functionGradients t))[i := c]\<rparr>
       else functionGradients t),
     functionHessians := (if req_hess a then (functionHessians t)[i := h] else functionHessians t)\<rparr>"

lemma set_parts:
  assumes t: "resp_ready t" and i: "i < length (resp_asv t)" and a: "a = resp_asv t ! i"
    and c: "req_grad a \<Longrightarrow> length c = length (resp_dvv t)"
    and h: "req_hess a \<Longrightarrow> tri_wf (length (resp_dvv t)) h"
  shows "rbind (if req_val a then set_function_value v i t else Inr t) (\<lambda>t1.
     rbind (if req_grad a then set_function_gradient c i t1 else Inr t1) (\<lambda>t2.
      if req_hess a then set_function_hessian h i t2 else Inr t2)) = Inr (replace_parts a i v c h t)"
    "resp_ready (replace_parts a i v c h t)"
proof -
  define t1 where "t1 = (if req_val a then t\<lparr>functionValues := (functionValues t)[i := v]\<rparr> else t)"
  define t2 where "t2 = (if req_grad a then t1\<lparr>functionGradients := (functionGradients t1)\<lparr>m_cols :=
    (m_cols (functionGradients t1))[i := c]\<rparr>\<rparr> else t1)"
  define t3 where "t3 = (if req_hess a then t2\<lparr>functionHessians := (functionHessians t2)[i := h]\<rparr> else t2)"
  have 1: "resp_ready t1" "(if req_val a then set_function_value v i t else Inr t) = Inr t1"
    using ready_update_value [OF t i] t by (auto simp: t1_def)
  have s1: "resp_asv t1 = resp_asv t" "resp_dvv t1 = resp_dvv t" by (auto simp: t1_def resp_asv_def resp_dvv_def)
  have 2: "resp_ready t2" "(if req_grad a then set_function_gradient c i t1 else Inr t1) = Inr t2"
    using ready_update_column [OF 1(1), of i c] 1(1) i a c by (auto simp: t2_def s1)
  have s2: "resp_asv t2 = resp_asv t" "resp_dvv t2 = resp_dvv t" using s1 by (auto simp: t2_def resp_asv_def resp_dvv_def)
  have 3: "resp_ready t3" "(if req_hess a then set_function_hessian h i t2 else Inr t2) = Inr t3"
    using ready_update_hessian [OF 2(1), of i h] 2(1) i a h by (auto simp: t3_def s2)
  have "t3 = replace_parts a i v c h t" by (simp add: t3_def t2_def t1_def replace_parts_def)
  then show "rbind (if req_val a then set_function_value v i t else Inr t) (\<lambda>t1.
     rbind (if req_grad a then set_function_gradient c i t1 else Inr t1) (\<lambda>t2.
      if req_hess a then set_function_hessian h i t2 else Inr t2)) = Inr (replace_parts a i v c h t)"
    "resp_ready (replace_parts a i v c h t)"
    using 1(2) 2(2) 3 by simp_all
qed

lemma merge_core_step:
  assumes t: "resp_ready t" and core: "resp_ready core"
    and set: "responseActiveSet t = responseActiveSet core" and i: "i < length (resp_asv core)"
  shows "\<exists>v. merge_core core i t = Inr v \<and> resp_ready v \<and> responseActiveSet v = responseActiveSet core \<and>
    same_requested v core i \<and> (\<forall>f. f \<noteq> i \<longrightarrow> same_requested t core f \<longrightarrow> same_requested v core f)"
proof -
  let ?a = "resp_asv core ! i" and ?c = "m_cols (functionGradients core) ! i"
    and ?h = "functionHessians core ! i" and ?v = "functionValues core ! i"
  have s: "resp_asv t = resp_asv core" "resp_dvv t = resp_dvv core"
    using set by (simp_all add: resp_asv_def resp_dvv_def)
  have i': "i < length (resp_asv t)" using i s by simp
  note g = ready_grads [OF core i] and h = ready_hess [OF core i]
  note parts = set_parts [of t i ?a ?c ?h ?v, OF t i']
  have "merge_core core i t = rbind (if req_val ?a then set_function_value ?v i t else Inr t) (\<lambda>t1.
     rbind (if req_grad ?a then set_function_gradient ?c i t1 else Inr t1) (\<lambda>t2.
      if req_hess ?a then set_function_hessian ?h i t2 else Inr t2))"
    using g(1) h(1) ready_values [OF core] i by (simp add: merge_core_def Let_def cong: if_cong)
  then have step: "merge_core core i t = Inr (replace_parts ?a i ?v ?c ?h t)"
    and ready: "resp_ready (replace_parts ?a i ?v ?c ?h t)"
    using parts g(3) [OF _ i] h(2) [OF _ i] s by simp_all
  have "same_requested (replace_parts ?a i ?v ?c ?h t) core i"
    using i s ready_values [OF t] ready_grads(1) [OF t i'] ready_hess(1) [OF t i']
    by (auto simp: same_requested_def replace_parts_def)
  moreover have "same_requested t core f \<Longrightarrow> same_requested (replace_parts ?a i ?v ?c ?h t) core f" if "f \<noteq> i" for f
    using that by (auto simp: same_requested_def replace_parts_def)
  moreover have "responseActiveSet (replace_parts ?a i ?v ?c ?h t) = responseActiveSet core"
    using set by (simp add: replace_parts_def)
  ultimately show ?thesis using step ready by blast
qed

text \<open>An addition at mapped positions, no position twice, adds each entry once.\<close>

lemma add_gradient_nth:
  assumes "\<And>j k. j < length idx \<Longrightarrow> k < length idx \<Longrightarrow> idx ! j = idx ! k \<Longrightarrow> idx ! j \<noteq> None \<Longrightarrow> j = k"
  shows "length (add_gradient idx g c) = length c \<and>
    (\<forall>d < length c. add_gradient idx g c ! d =
      (case find_index idx (Some d) of None \<Rightarrow> c ! d | Some j \<Rightarrow> c ! d + g ! j))"
proof -
  let ?step = "\<lambda>c j. case idx ! j of None \<Rightarrow> c | Some d \<Rightarrow> c[d := c ! d + g ! j]"
  have "length (foldl ?step c [0..<k]) = length c \<and>
    (\<forall>d < length c. foldl ?step c [0..<k] ! d =
      (case find_index (take k idx) (Some d) of None \<Rightarrow> c ! d | Some j \<Rightarrow> c ! d + g ! j))"
    if "k \<le> length idx" for k
    using that
  proof (induction k)
    case (Suc k)
    then have IH: "length (foldl ?step c [0..<k]) = length c"
      "\<And>d. d < length c \<Longrightarrow> foldl ?step c [0..<k] ! d =
        (case find_index (take k idx) (Some d) of None \<Rightarrow> c ! d | Some j \<Rightarrow> c ! d + g ! j)" by auto
    have tk: "take (Suc k) idx = take k idx @ [idx ! k]" using Suc.prems by (simp add: take_Suc_conv_app_nth)
    have app: "find_index (xs @ [y]) x = (case find_index xs x of Some i \<Rightarrow> Some i
        | None \<Rightarrow> if y = x then Some (length xs) else None)" for xs y x
      by (induction xs) (auto split: option.splits)
    have fresh: "find_index (take k idx) (Some d) = None" if "idx ! k = Some d" for d
    proof (rule ccontr)
      assume "find_index (take k idx) (Some d) \<noteq> None"
      then obtain j where "find_index (take k idx) (Some d) = Some j" by auto
      then have "j < k" "idx ! j = Some d" using find_index_Some [of "take k idx" "Some d" j] Suc.prems by auto
      then show False using assms [of j k] that Suc.prems by auto
    qed
    show ?case
    proof (cases "idx ! k")
      case None
      then show ?thesis using IH by (auto simp: tk app split: option.splits)
    next
      case (Some d')
      then show ?thesis
        using IH fresh [OF Some] Suc.prems by (auto simp: tk app nth_list_update split: option.splits)
    qed
  qed simp
  then show ?thesis by (simp add: add_gradient_def)
qed

lemma length_sym_set [simp]: "length (sym_set j k v m) = length m"
  by (simp add: sym_set_def)

lemma tri_wf_sym_set:
  assumes "tri_wf n m"
  shows "tri_wf n (sym_set j k v m)"
proof -
  have "length (m[p := (m ! p)[q := v]] ! i) = Suc i" if "i < n" for p q i
    using assms that by (cases "i = p") (auto simp: tri_wf_def)
  then show ?thesis using assms by (simp add: tri_wf_def sym_set_def)
qed

lemma tri_wf_add_hessian: "tri_wf n m \<Longrightarrow> tri_wf n (add_hessian idx h m)"
proof -
  have "tri_wf n (foldl (\<lambda>m (j, k). case (idx ! j, idx ! k) of
        (Some dj, Some dk) \<Rightarrow> sym_set dj dk (sym_get m dj dk + sym_get h j k) m | _ \<Rightarrow> m) m ps)"
    if "tri_wf n m" for ps
    using that
    by (induction ps arbitrary: m) (auto simp: tri_wf_sym_set split: option.splits prod.splits)
  then show "tri_wf n m \<Longrightarrow> tri_wf n (add_hessian idx h m)" by (simp add: add_hessian_def)
qed

text \<open>The pair of derivative variables of the algebraic function that is added at an entry of the triangle.\<close>

definition hessian_source :: "nat option list \<Rightarrow> nat \<Rightarrow> nat \<Rightarrow> (nat \<times> nat) option" where
  "hessian_source idx d e = (case (find_index idx (Some d), find_index idx (Some e)) of
      (Some j, Some k) \<Rightarrow> Some (max j k, min j k) | _ \<Rightarrow> None)"

lemma sym_get_commute: "sym_get m d e = sym_get m e d"
  by (cases "d = e") (auto simp: sym_get_def)

lemma sym_get_set:
  assumes "tri_wf n m" "r < n" "c < n" "d < n" "e < n"
  shows "sym_get (sym_set r c x m) d e = (if d = r \<and> e = c \<or> d = c \<and> e = r then x else sym_get m d e)"
proof -
  have "length m = n" "length (m ! r) = Suc r" "length (m ! c) = Suc c" using assms by (simp_all add: tri_wf_def)
  then show ?thesis using assms by (auto simp: sym_get_def sym_set_def nth_list_update)
qed

definition injective_map :: "nat option list \<Rightarrow> bool" where
  "injective_map idx \<longleftrightarrow> (\<forall>j < length idx. \<forall>k < length idx. idx ! j = idx ! k \<longrightarrow> idx ! j \<noteq> None \<longrightarrow> j = k)"

lemma find_index_mapped:
  assumes "injective_map idx"
  shows "find_index idx (Some d) = Some j \<longleftrightarrow> j < length idx \<and> idx ! j = Some d"
proof
  assume j: "j < length idx \<and> idx ! j = Some d"
  then obtain i where i: "find_index idx (Some d) = Some i" by (cases "find_index idx (Some d)") (auto simp: find_index_None in_set_conv_nth)
  then show "find_index idx (Some d) = Some j"
    using find_index_Some [OF i] j assms by (auto simp: injective_map_def)
qed (rule find_index_Some)

lemma hessian_source_iff:
  assumes "injective_map idx" "k \<le> j" "j < length idx"
  shows "hessian_source idx d e = Some (j, k) \<longleftrightarrow>
    (idx ! j = Some d \<and> idx ! k = Some e) \<or> (idx ! j = Some e \<and> idx ! k = Some d)"
proof
  assume "hessian_source idx d e = Some (j, k)"
  then obtain p q where "find_index idx (Some d) = Some p" "find_index idx (Some e) = Some q" "j = max p q" "k = min p q"
    by (auto simp: hessian_source_def split: option.splits)
  then show "(idx ! j = Some d \<and> idx ! k = Some e) \<or> (idx ! j = Some e \<and> idx ! k = Some d)"
    using find_index_mapped [OF assms(1)] by (cases "p \<le> q") (auto simp: max_def min_def)
next
  assume "(idx ! j = Some d \<and> idx ! k = Some e) \<or> (idx ! j = Some e \<and> idx ! k = Some d)"
  then have "(find_index idx (Some d) = Some j \<and> find_index idx (Some e) = Some k) \<or>
      (find_index idx (Some e) = Some j \<and> find_index idx (Some d) = Some k)"
    using find_index_mapped [OF assms(1)] assms(2,3) by auto
  then show "hessian_source idx d e = Some (j, k)" using assms(2) by (auto simp: hessian_source_def max_def min_def)
qed

definition add_hessian_entry :: "nat option list \<Rightarrow> 'r symmat \<Rightarrow> nat \<times> nat \<Rightarrow> 'r::plus symmat \<Rightarrow> 'r symmat" where
  "add_hessian_entry idx h jk m = (case jk of (j, k) \<Rightarrow> case (idx ! j, idx ! k) of
        (Some dj, Some dk) \<Rightarrow> sym_set dj dk (sym_get m dj dk + sym_get h j k) m | _ \<Rightarrow> m)"

lemma tri_wf_add_entry: "tri_wf n m \<Longrightarrow> tri_wf n (add_hessian_entry idx h jk m)"
  by (auto simp: add_hessian_entry_def tri_wf_sym_set split: option.splits prod.splits)

lemma add_hessian_entry_get:
  assumes "tri_wf n m" "injective_map idx" "mapped_below idx n" "k \<le> j" "j < length idx" "d < n" "e < n"
  shows "sym_get (add_hessian_entry idx h (j, k) m) d e =
    (if hessian_source idx d e = Some (j, k) then sym_get m d e + sym_get h j k else sym_get m d e)"
proof (cases "\<exists>dj dk. idx ! j = Some dj \<and> idx ! k = Some dk")
  case True
  then obtain dj dk where jk: "idx ! j = Some dj" "idx ! k = Some dk" by blast
  have below: "x < n" if "i < length idx" "idx ! i = Some x" for i x
    using assms(3) that by (auto simp: mapped_below_def list_all_length split: option.splits)
  have "dj < n" "dk < n" using below [OF assms(5) jk(1)] below [OF _ jk(2)] assms(4,5) by simp_all
  then have g: "sym_get (add_hessian_entry idx h (j, k) m) d e =
      (if d = dj \<and> e = dk \<or> d = dk \<and> e = dj then sym_get m dj dk + sym_get h j k else sym_get m d e)"
    using sym_get_set [OF assms(1) _ _ assms(6,7), of dj dk] jk by (simp add: add_hessian_entry_def)
  have src: "hessian_source idx d e = Some (j, k) \<longleftrightarrow> d = dj \<and> e = dk \<or> d = dk \<and> e = dj"
    unfolding hessian_source_iff [OF assms(2,4,5)] jk by auto
  show ?thesis
  proof (cases "d = dj \<and> e = dk \<or> d = dk \<and> e = dj")
    case True
    then have e: "sym_get m d e = sym_get m dj dk" by (metis sym_get_commute)
    show ?thesis unfolding g src if_P [OF True] e by (rule refl)
  next
    case False
    show ?thesis unfolding g src if_not_P [OF False] by (rule refl)
  qed
next
  case False
  then have "hessian_source idx d e \<noteq> Some (j, k)" unfolding hessian_source_iff [OF assms(2,4,5)] by blast
  moreover have "add_hessian_entry idx h (j, k) m = m"
    using False by (cases "idx ! j"; cases "idx ! k") (simp_all add: add_hessian_entry_def)
  ultimately show ?thesis by simp
qed

lemma add_hessian_get:
  assumes "tri_wf n m" "injective_map idx" "mapped_below idx n" "d < n" "e < n"
  shows "sym_get (add_hessian idx h m) d e =
    (case hessian_source idx d e of None \<Rightarrow> sym_get m d e | Some (j, k) \<Rightarrow> sym_get m d e + sym_get h j k)"
proof -
  have fold: "sym_get (foldl (\<lambda>m jk. add_hessian_entry idx h jk m) m ps) d e =
      (case hessian_source idx d e of None \<Rightarrow> sym_get m d e
       | Some (j, k) \<Rightarrow> if (j, k) \<in> set ps then sym_get m d e + sym_get h j k else sym_get m d e)"
    if "tri_wf n m" "distinct ps" "\<forall>(j, k) \<in> set ps. k \<le> j \<and> j < length idx" for m ps
    using that
  proof (induction ps arbitrary: m)
    case (Cons jk ps)
    obtain j k where jk: "jk = (j, k)" "k \<le> j" "j < length idx" using Cons.prems(3) by (cases jk) auto
    show ?case
      using Cons.IH [OF tri_wf_add_entry [OF Cons.prems(1), of idx h jk]] Cons.prems
        add_hessian_entry_get [OF Cons.prems(1) assms(2,3) jk(2,3) assms(4,5), of h] jk(1)
      by (auto split: option.splits)
  qed (auto split: option.splits)
  let ?ps = "concat (map (\<lambda>j. map (Pair j) [0..<Suc j]) [0..<length idx])"
  have set_ps: "set ?ps = {(j, k). k \<le> j \<and> j < length idx}"
    unfolding set_concat set_map image_image set_upt by (auto simp del: upt_Suc simp: less_Suc_eq_le)
  have "distinct (concat (map (\<lambda>j. map (Pair j) [0..<Suc j]) [0..<l]))" for l
    by (induction l) (auto simp: distinct_map inj_on_def)
  then have "distinct ?ps" .
  moreover have "(j, k) \<in> set ?ps" if "hessian_source idx d e = Some (j, k)" for j k
    unfolding set_ps using that find_index_Some [of idx] by (fastforce simp: hessian_source_def split: option.splits)
  moreover have "add_hessian idx h m = foldl (\<lambda>m jk. add_hessian_entry idx h jk m) m ?ps"
    by (simp add: add_hessian_def add_hessian_entry_def split_def)
  ultimately show ?thesis using fold [OF assms(1), of ?ps] set_ps by (auto split: option.splits)
qed

text \<open>The derivative index map of \<^verbatim>\<open>response_mapping\<close> hits no position twice and stays in range.\<close>

lemma dvv_index_inj:
  assumes "distinct ids" "n \<le> length ids" "idx = map (\<lambda>i. find_index dvv (ids ! i)) [0..<n]"
    and "j < length idx" "k < length idx" "idx ! j = idx ! k" "idx ! j \<noteq> None"
  shows "j = k"
proof -
  have jk: "j < n" "k < n" using assms by auto
  obtain d where d: "idx ! j = Some d" using assms(7) by auto
  then have "find_index dvv (ids ! j) = Some d" "find_index dvv (ids ! k) = Some d"
    using assms(3,6) jk by auto
  then have "ids ! j = ids ! k" using find_index_Some by metis
  then show ?thesis using assms(1,2) jk by (simp add: nth_eq_iff_index_eq)
qed

lemma mapped_below_dvv: "mapped_below (map (\<lambda>i. find_index dvv (f i)) xs) (length dvv)"
  by (auto simp: mapped_below_def list_all_iff dest: find_index_Some split: option.splits)

text \<open>What the total response holds for function \<open>f\<close> when the first \<open>k\<close> algebraic functions have
  been added: the core data, plus the algebraic data of the function mapped to \<open>f\<close>, if any.\<close>

definition merged_value :: "nat list \<Rightarrow> 'r response \<Rightarrow> 'r::plus response \<Rightarrow> nat \<Rightarrow> 'r" where
  "merged_value fn_indices alg core f =
    (case find_index fn_indices f of None \<Rightarrow> functionValues core ! f
     | Some i \<Rightarrow> functionValues core ! f + functionValues alg ! i)"

definition merged_gradient ::
    "nat list \<Rightarrow> nat option list \<Rightarrow> 'r response \<Rightarrow> 'r::plus response \<Rightarrow> nat \<Rightarrow> nat \<Rightarrow> 'r" where
  "merged_gradient fn_indices idx alg core f d =
    (let c = m_cols (functionGradients core) ! f ! d in
     case find_index fn_indices f of None \<Rightarrow> c
     | Some i \<Rightarrow> (case find_index idx (Some d) of None \<Rightarrow> c
         | Some j \<Rightarrow> c + m_cols (functionGradients alg) ! i ! j))"

definition merged_hessian ::
    "nat list \<Rightarrow> nat option list \<Rightarrow> 'r response \<Rightarrow> 'r::plus response \<Rightarrow> nat \<Rightarrow> nat \<Rightarrow> nat \<Rightarrow> 'r" where
  "merged_hessian fn_indices idx alg core f d e =
    (let c = sym_get (functionHessians core ! f) d e in
     case find_index fn_indices f of None \<Rightarrow> c
     | Some i \<Rightarrow> (case (find_index idx (Some d), find_index idx (Some e)) of
           (Some j, Some k) \<Rightarrow> c + sym_get (functionHessians alg ! i) j k | _ \<Rightarrow> c))"

definition merged_upto ::
    "nat list \<Rightarrow> nat option list \<Rightarrow> 'r response \<Rightarrow> 'r::plus response \<Rightarrow> 'r response \<Rightarrow> bool" where
  "merged_upto fn_indices idx alg core t \<longleftrightarrow>
    (\<forall>f < length (resp_asv core).
      (req_val (resp_asv core ! f) \<longrightarrow> functionValues t ! f = merged_value fn_indices alg core f) \<and>
      (req_grad (resp_asv core ! f) \<longrightarrow> (\<forall>d < length (resp_dvv core).
        m_cols (functionGradients t) ! f ! d = merged_gradient fn_indices idx alg core f d)) \<and>
      (req_hess (resp_asv core ! f) \<longrightarrow> (\<forall>d < length (resp_dvv core). \<forall>e < length (resp_dvv core).
        sym_get (functionHessians t ! f) d e = merged_hessian fn_indices idx alg core f d e)))"

text \<open>The sizes under which the algebraic part fits into the total request.\<close>

definition algebraic_fits :: "nat list \<Rightarrow> nat option list \<Rightarrow> 'r response \<Rightarrow> 'r response \<Rightarrow> bool" where
  "algebraic_fits fn_indices idx alg core \<longleftrightarrow>
    length (resp_asv alg) = length fn_indices \<and> distinct fn_indices \<and>
    (\<forall>i < length fn_indices. fn_indices ! i < length (resp_asv core) \<and>
      resp_asv alg ! i = resp_asv core ! (fn_indices ! i)) \<and>
    (list_ex req_grad (resp_asv core) \<or> list_ex req_hess (resp_asv core) \<longrightarrow>
      length idx = length (resp_dvv alg) \<and> mapped_below idx (length (resp_dvv core))) \<and>
    injective_map idx"

definition algebraic_target ::
    "nat list \<Rightarrow> nat option list \<Rightarrow> 'r response \<Rightarrow> nat \<Rightarrow> 'r::plus response \<Rightarrow> 'r response" where
  "algebraic_target fn_indices idx alg i t = replace_parts (resp_asv alg ! i) (fn_indices ! i)
      (functionValues t ! (fn_indices ! i) + functionValues alg ! i)
      (add_gradient idx (m_cols (functionGradients alg) ! i) (m_cols (functionGradients t) ! (fn_indices ! i)))
      (add_hessian idx (functionHessians alg ! i) (functionHessians t ! (fn_indices ! i))) t"

lemma algebraic_fits_sizes:
  assumes t: "resp_ready t" and set: "responseActiveSet t = responseActiveSet core"
    and fits: "algebraic_fits fn_indices idx alg core" and i: "i < length (resp_asv alg)"
  shows "fn_indices ! i < length (resp_asv t)" "resp_asv alg ! i = resp_asv t ! (fn_indices ! i)"
    "req_grad (resp_asv alg ! i) \<or> req_hess (resp_asv alg ! i) \<Longrightarrow> length idx = length (resp_dvv alg) \<and>
      mapped_below idx (length (resp_dvv t))"
    "req_grad (resp_asv alg ! i) \<Longrightarrow> length (m_cols (functionGradients t)) = length (resp_asv t) \<and>
      length (m_cols (functionGradients t) ! (fn_indices ! i)) = length (resp_dvv t)"
    "req_hess (resp_asv alg ! i) \<Longrightarrow> length (functionHessians t) = length (resp_asv t) \<and>
      tri_wf (length (resp_dvv t)) (functionHessians t ! (fn_indices ! i))"
proof -
  have s: "resp_asv t = resp_asv core" "resp_dvv t = resp_dvv core"
    using set by (simp_all add: resp_asv_def resp_dvv_def)
  show f: "fn_indices ! i < length (resp_asv t)" and a: "resp_asv alg ! i = resp_asv t ! (fn_indices ! i)"
    using fits i s by (auto simp: algebraic_fits_def)
  show "length idx = length (resp_dvv alg) \<and> mapped_below idx (length (resp_dvv t))"
    if "req_grad (resp_asv alg ! i) \<or> req_hess (resp_asv alg ! i)"
    using fits that f a s list_ex_nth [of "fn_indices ! i" "resp_asv core"] by (auto simp: algebraic_fits_def)
  show "length (m_cols (functionGradients t)) = length (resp_asv t) \<and>
      length (m_cols (functionGradients t) ! (fn_indices ! i)) = length (resp_dvv t)"
    if "req_grad (resp_asv alg ! i)"
    using ready_grads(1,3) [OF t f] that a f by auto
  show "length (functionHessians t) = length (resp_asv t) \<and>
      tri_wf (length (resp_dvv t)) (functionHessians t ! (fn_indices ! i))"
    if "req_hess (resp_asv alg ! i)"
    using ready_hess [OF t f] that a f by auto
qed

lemma algebraic_column:
  assumes "algebraic_fits fn_indices idx alg core"
  shows "length (add_gradient idx g c) = length c \<and> (\<forall>d < length c. add_gradient idx g c ! d =
      (case find_index idx (Some d) of None \<Rightarrow> c ! d | Some j \<Rightarrow> c ! d + g ! j))"
  using assms by (intro add_gradient_nth) (auto simp: algebraic_fits_def injective_map_def)

lemma algebraic_triangle:
  assumes t: "resp_ready t" and set: "responseActiveSet t = responseActiveSet core"
    and fits: "algebraic_fits fn_indices idx alg core" and i: "i < length (resp_asv alg)" and h: "req_hess (resp_asv alg ! i)"
    and d: "d < length (resp_dvv t)" "e < length (resp_dvv t)"
  shows "sym_get (add_hessian idx (functionHessians alg ! i) (functionHessians t ! (fn_indices ! i))) d e =
    (case (find_index idx (Some d), find_index idx (Some e)) of
       (Some j, Some k) \<Rightarrow> sym_get (functionHessians t ! (fn_indices ! i)) d e + sym_get (functionHessians alg ! i) j k
     | _ \<Rightarrow> sym_get (functionHessians t ! (fn_indices ! i)) d e)"
proof -
  note sz = algebraic_fits_sizes [OF t set fits i]
  have inj: "injective_map idx" using fits by (simp add: algebraic_fits_def)
  have below: "mapped_below idx (length (resp_dvv t))" using sz(3) h by blast
  have tri: "tri_wf (length (resp_dvv t)) (functionHessians t ! (fn_indices ! i))" using sz(5) [OF h] by blast
  show ?thesis
    unfolding add_hessian_get [OF tri inj below d]
    by (auto simp: hessian_source_def max_def min_def sym_get_commute split: option.splits)
qed

lemma merge_algebraic_parts:
  assumes t: "resp_ready t" and alg: "resp_ready alg" and set: "responseActiveSet t = responseActiveSet core"
    and fits: "algebraic_fits fn_indices idx alg core" and i: "i < length (resp_asv alg)"
  defines "f \<equiv> fn_indices ! i" and "a \<equiv> resp_asv alg ! i"
  shows "merge_algebraic fn_indices idx alg i t =
    rbind (if req_val a then set_function_value (functionValues t ! f + functionValues alg ! i) f t else Inr t) (\<lambda>t1.
     rbind (if req_grad a then set_function_gradient
        (add_gradient idx (m_cols (functionGradients alg) ! i) (m_cols (functionGradients t) ! f)) f t1 else Inr t1) (\<lambda>t2.
      if req_hess a then set_function_hessian
        (add_hessian idx (functionHessians alg ! i) (functionHessians t ! f)) f t2 else Inr t2))"
proof -
  let ?f = "fn_indices ! i" and ?a = "resp_asv alg ! i"
  let ?v = "functionValues t ! ?f + functionValues alg ! i"
  let ?c = "add_gradient idx (m_cols (functionGradients alg) ! i) (m_cols (functionGradients t) ! ?f)"
  let ?h = "add_hessian idx (functionHessians alg ! i) (functionHessians t ! ?f)"
  note sz = algebraic_fits_sizes [OF t set fits i]
  have len: "length (resp_asv alg) = length fn_indices" using fits by (simp add: algebraic_fits_def)
  note ag = ready_grads [OF alg i] and ah = ready_hess [OF alg i]
  have fi: "read_entry fn_indices i = Inr ?f" using i len by simp
  have v: "(if req_val ?a then rbind (read_entry (functionValues alg) i) (\<lambda>v.
        rbind (read_entry (functionValues t) ?f) (\<lambda>w. set_function_value (w + v) ?f t)) else Inr t) =
      (if req_val ?a then set_function_value ?v ?f t else Inr t)"
    using ready_values [OF alg] ready_values [OF t] i sz(1) by simp
  have g: "(if req_grad ?a then rbind (read_entry (m_cols (functionGradients alg)) i) (\<lambda>g.
        rbind (read_entry (m_cols (functionGradients t1)) ?f) (\<lambda>c.
          if length idx < length (resp_dvv alg) \<or> length g < length (resp_dvv alg) \<or> \<not> mapped_below idx (length c)
          then Inl (UndefinedBehaviour ''index'')
          else set_function_gradient (add_gradient idx g c) ?f t1)) else Inr t1) =
      (if req_grad ?a then set_function_gradient ?c ?f t1 else Inr t1)"
    if "functionGradients t1 = functionGradients t" for t1
    using ag(1) ag(3) [OF _ i] sz i that by simp
  have h: "(if req_hess ?a then rbind (read_entry (functionHessians alg) i) (\<lambda>h.
        rbind (read_entry (functionHessians t2) ?f) (\<lambda>m.
          if length idx < length (resp_dvv alg) \<or> length h < length (resp_dvv alg) \<or> \<not> mapped_below idx (length m)
          then Inl (UndefinedBehaviour ''index'')
          else set_function_hessian (add_hessian idx h m) ?f t2)) else Inr t2) =
      (if req_hess ?a then set_function_hessian ?h ?f t2 else Inr t2)"
    if "functionHessians t2 = functionHessians t" for t2
    using ah(1) ah(2) [OF _ i] sz i that by (simp add: tri_wf_def)
  have gt: "functionGradients t1 = functionGradients t \<and> functionHessians t1 = functionHessians t"
    if "(if req_val ?a then set_function_value ?v ?f t else Inr t) = Inr t1" for t1
    using that by (auto simp: set_function_value_def split: if_splits)
  have ht: "functionHessians t2 = functionHessians t1"
    if "(if req_grad ?a then set_function_gradient ?c ?f t1 else Inr t1) = Inr t2" for t1 t2
    using that by (auto simp: set_function_gradient_def Let_def split: if_splits)
  show ?thesis
    unfolding merge_algebraic_def f_def a_def Let_def fi rbind.simps v
    apply (rule rbind_cong [OF refl])
    subgoal premises p for t1
      unfolding g [OF gt [OF p, THEN conjunct1]]
      apply (rule rbind_cong [OF refl])
      subgoal premises q for t2
        by (rule h) (use ht [OF q] gt [OF p] in simp)
      done
    done
qed

lemma merge_algebraic_target:
  assumes t: "resp_ready t" and alg: "resp_ready alg" and set: "responseActiveSet t = responseActiveSet core"
    and fits: "algebraic_fits fn_indices idx alg core" and i: "i < length (resp_asv alg)"
  shows "merge_algebraic fn_indices idx alg i t = Inr (algebraic_target fn_indices idx alg i t)"
    "resp_ready (algebraic_target fn_indices idx alg i t)"
proof -
  note sz = algebraic_fits_sizes [OF t set fits i]
  have c: "length (add_gradient idx (m_cols (functionGradients alg) ! i)
      (m_cols (functionGradients t) ! (fn_indices ! i))) = length (resp_dvv t)" if "req_grad (resp_asv alg ! i)"
    using algebraic_column [OF fits] sz(4) [OF that] by metis
  have h: "tri_wf (length (resp_dvv t)) (add_hessian idx (functionHessians alg ! i)
      (functionHessians t ! (fn_indices ! i)))" if "req_hess (resp_asv alg ! i)"
    using tri_wf_add_hessian sz(5) [OF that] by blast
  note parts = set_parts [OF t sz(1,2) c h]
  show "merge_algebraic fn_indices idx alg i t = Inr (algebraic_target fn_indices idx alg i t)"
    unfolding algebraic_target_def merge_algebraic_parts [OF assms] by (rule parts(1))
  show "resp_ready (algebraic_target fn_indices idx alg i t)"
    unfolding algebraic_target_def by (rule parts(2))
qed

lemma merged_upto_target:
  assumes t: "resp_ready t" and set: "responseActiveSet t = responseActiveSet core"
    and fits: "algebraic_fits fn_indices idx alg core" and i: "i < length (resp_asv alg)"
    and m: "merged_upto (take i fn_indices) idx alg core t"
  shows "merged_upto (take (Suc i) fn_indices) idx alg core (algebraic_target fn_indices idx alg i t)"
  unfolding merged_upto_def
proof (intro allI impI conjI)
  let ?f = "fn_indices ! i"
  fix f assume fl: "f < length (resp_asv core)"
  have s: "resp_asv t = resp_asv core" "resp_dvv t = resp_dvv core"
    using set by (simp_all add: resp_asv_def resp_dvv_def)
  have dist: "distinct fn_indices" and i': "i < length fn_indices" using fits i by (auto simp: algebraic_fits_def)
  note sz = algebraic_fits_sizes [OF t set fits i] and at = algebraic_target_def replace_parts_def
  have fi: "find_index (take (Suc i) fn_indices) f = (if ?f = f then Some i else find_index (take i fn_indices) f)"
    by (rule find_index_take [OF dist i'])
  have fresh: "find_index (take i fn_indices) ?f = None"
    using dist i' by (auto simp: find_index_None in_set_conv_nth nth_eq_iff_index_eq)
  note old = m [unfolded merged_upto_def, rule_format, OF fl]
  {
    assume rv: "req_val (resp_asv core ! f)"
    show "functionValues (algebraic_target fn_indices idx alg i t) ! f =
        merged_value (take (Suc i) fn_indices) alg core f"
      using old rv fi fresh sz(2) ready_values [OF t] s fl
      by (cases "?f = f") (auto simp: merged_value_def at)
  }
  fix d assume rg: "req_grad (resp_asv core ! f)" and d: "d < length (resp_dvv core)"
  show "m_cols (functionGradients (algebraic_target fn_indices idx alg i t)) ! f ! d =
      merged_gradient (take (Suc i) fn_indices) idx alg core f d"
  proof (cases "?f = f")
    case True
    then have ra: "req_grad (resp_asv alg ! i)" using sz(2) rg s by simp
    have "m_cols (functionGradients t) ! f ! d = m_cols (functionGradients core) ! f ! d"
      using old rg d fresh True by (auto simp: merged_gradient_def)
    then show ?thesis
      using True ra fi algebraic_column [OF fits, of "m_cols (functionGradients alg) ! i" "m_cols (functionGradients t) ! f"]
        sz(4) [OF ra] d fl s
      by (auto simp: merged_gradient_def at split: option.splits)
  next
    case False
    then show ?thesis using old rg d fi by (auto simp: merged_gradient_def at)
  qed
next
  let ?f = "fn_indices ! i"
  fix f d e assume fl: "f < length (resp_asv core)" and rh: "req_hess (resp_asv core ! f)"
    and d: "d < length (resp_dvv core)" "e < length (resp_dvv core)"
  have s: "resp_asv t = resp_asv core" "resp_dvv t = resp_dvv core"
    using set by (simp_all add: resp_asv_def resp_dvv_def)
  have dist: "distinct fn_indices" and i': "i < length fn_indices" using fits i by (auto simp: algebraic_fits_def)
  note sz = algebraic_fits_sizes [OF t set fits i] and at = algebraic_target_def replace_parts_def
  have fi: "find_index (take (Suc i) fn_indices) f = (if ?f = f then Some i else find_index (take i fn_indices) f)"
    by (rule find_index_take [OF dist i'])
  have fresh: "find_index (take i fn_indices) ?f = None"
    using dist i' by (auto simp: find_index_None in_set_conv_nth nth_eq_iff_index_eq)
  have old: "sym_get (functionHessians t ! f) d e = merged_hessian (take i fn_indices) idx alg core f d e"
    using m fl rh d by (simp add: merged_upto_def)
  show "sym_get (functionHessians (algebraic_target fn_indices idx alg i t) ! f) d e =
      merged_hessian (take (Suc i) fn_indices) idx alg core f d e"
  proof (cases "?f = f")
    case True
    then have ra: "req_hess (resp_asv alg ! i)" using sz(2) rh s by simp
    have l: "f < length (functionHessians t)" using sz(5) [OF ra] fl s by simp
    have "sym_get (functionHessians t ! f) d e = sym_get (functionHessians core ! f) d e"
      using old fresh True by (simp add: merged_hessian_def)
    then show ?thesis
      using True ra fi l algebraic_triangle [OF t set fits i ra, of d e] d s
      by (auto simp: merged_hessian_def at split: option.splits)
  next
    case False
    then show ?thesis using old fi by (auto simp: merged_hessian_def at)
  qed
qed

lemma core_merged:
  assumes tot: "resp_ready tot" and core: "resp_ready core" and set: "responseActiveSet tot = responseActiveSet core"
  shows "\<exists>t. rbind (reset_inactive tot) (rfold (merge_core core) [0..<length (resp_asv core)]) = Inr t \<and>
    resp_ready t \<and> responseActiveSet t = responseActiveSet core \<and>
    (\<forall>f < length (resp_asv core). same_requested t core f)"
proof -
  obtain t0 where t0: "reset_inactive tot = Inr t0" "resp_ready t0" "responseActiveSet t0 = responseActiveSet core"
  proof -
    have wf: "resp_wf tot" using tot by (simp add: resp_ready_def)
    then obtain t0 where "reset_inactive tot = Inr t0" "resp_wf t0" "responseActiveSet t0 = responseActiveSet tot"
      "m_cols (functionGradients t0) = [] \<longleftrightarrow> m_cols (functionGradients tot) = []"
      "functionHessians t0 = [] \<longleftrightarrow> functionHessians tot = []"
      using reset_inactive_ready [of tot] by blast
    then show ?thesis using that [of t0] tot set by (simp add: resp_ready_def resp_asv_def)
  qed
  have "\<exists>t. rfold (merge_core core) [0..<length (resp_asv core)] t0 = Inr t \<and>
    (resp_ready t \<and> responseActiveSet t = responseActiveSet core \<and>
     (\<forall>f < length (resp_asv core). same_requested t core f))"
  proof (rule rfold_upt [where P = "\<lambda>k t. resp_ready t \<and> responseActiveSet t = responseActiveSet core \<and>
      (\<forall>f < k. same_requested t core f)"])
    show "\<exists>v. merge_core core i u = Inr v \<and> resp_ready v \<and> responseActiveSet v = responseActiveSet core \<and>
        (\<forall>f < Suc i. same_requested v core f)"
      if "i < length (resp_asv core)" and "resp_ready u \<and> responseActiveSet u = responseActiveSet core \<and>
        (\<forall>f < i. same_requested u core f)" for i u
      using merge_core_step [of u core i] that core by (force simp: less_Suc_eq)
  qed (use t0 in auto)
  then show ?thesis using t0(1) by simp
qed

lemma algebraic_merged:
  assumes t: "resp_ready t" and alg: "resp_ready alg" and set: "responseActiveSet t = responseActiveSet core"
    and fits: "algebraic_fits fn_indices idx alg core"
    and c: "\<forall>f < length (resp_asv core). same_requested t core f"
  shows "\<exists>v. rfold (merge_algebraic fn_indices idx alg) [0..<length (resp_asv alg)] t = Inr v \<and>
    resp_ready v \<and> responseActiveSet v = responseActiveSet core \<and> merged_upto fn_indices idx alg core v"
proof -
  have "\<exists>v. rfold (merge_algebraic fn_indices idx alg) [0..<length (resp_asv alg)] t = Inr v \<and>
    (resp_ready v \<and> responseActiveSet v = responseActiveSet core \<and>
     merged_upto (take (length (resp_asv alg)) fn_indices) idx alg core v)"
  proof (rule rfold_upt [where P = "\<lambda>k t. resp_ready t \<and> responseActiveSet t = responseActiveSet core \<and>
      merged_upto (take k fn_indices) idx alg core t"])
    show "resp_ready t \<and> responseActiveSet t = responseActiveSet core \<and> merged_upto (take 0 fn_indices) idx alg core t"
      using t set c by (simp add: merged_upto_def merged_value_def merged_gradient_def merged_hessian_def same_requested_def)
    show "\<exists>v. merge_algebraic fn_indices idx alg i u = Inr v \<and> resp_ready v \<and>
        responseActiveSet v = responseActiveSet core \<and> merged_upto (take (Suc i) fn_indices) idx alg core v"
      if "i < length (resp_asv alg)" and "resp_ready u \<and> responseActiveSet u = responseActiveSet core \<and>
        merged_upto (take i fn_indices) idx alg core u" for i u
      using merge_algebraic_target [of u alg core fn_indices idx i] merged_upto_target [of u core fn_indices idx alg i]
        that alg fits by (auto simp: algebraic_target_def replace_parts_def)
  qed
  moreover have "take (length (resp_asv alg)) fn_indices = fn_indices"
    using fits by (simp add: algebraic_fits_def)
  ultimately show ?thesis by simp
qed

section \<open>Properties\<close>

text \<open>The algebraic set that \<^verbatim>\<open>asv_mapping\<close> makes of a request, and the map of its variables.\<close>

definition derivative_index_map :: "algebraic_data \<Rightarrow> 'r response \<Rightarrow> 'r response \<Rightarrow> nat option list" where
  "derivative_index_map a alg core =
    (if list_ex req_grad (resp_asv core) \<or> list_ex req_hess (resp_asv core)
     then map (\<lambda>i. find_index (resp_dvv core) (algebraicACVIds a ! i)) [0..<length (resp_dvv alg)] else [])"

text \<open>C23: Merging simulation and algebraic responses.  For responses that are sized for their
  requests, an algebraic request that is the total request at distinct function indices, and
  distinct algebraic variables, \<^verbatim>\<open>response_mapping\<close> succeeds, and each requested value of the result
  is the simulation value, plus the algebraic value when an algebraic function is mapped to it;
  each requested gradient entry is the simulation entry, plus the algebraic entry when both
  the function and the derivative variable are mapped; and each requested Hessian entry is the simulation
  entry, plus the algebraic entry when the function and both derivative variables are mapped.\<close>

theorem response_mapping_merges:
  assumes "resp_ready core" "resp_ready tot" "resp_ready alg" "responseActiveSet tot = responseActiveSet core"
    and "distinct (algebraicFnIndices a)" "length (resp_asv alg) = length (algebraicFnIndices a)"
    and "\<forall>i < length (algebraicFnIndices a). algebraicFnIndices a ! i < length (resp_asv core) \<and>
      resp_asv alg ! i = resp_asv core ! (algebraicFnIndices a ! i)"
    and "distinct (algebraicACVIds a)" "length (resp_dvv alg) \<le> length (algebraicACVIds a)"
    and "length (resp_dvv alg) \<le> length (resp_dvv core)"
  shows "\<exists>t. response_mapping True a alg core tot = Inr t \<and> resp_ready t \<and>
    responseActiveSet t = responseActiveSet core \<and>
    (\<forall>f < length (resp_asv core).
      (req_val (resp_asv core ! f) \<longrightarrow>
        functionValues t ! f = merged_value (algebraicFnIndices a) alg core f) \<and>
      (req_grad (resp_asv core ! f) \<longrightarrow> (\<forall>d < length (resp_dvv core).
        m_cols (functionGradients t) ! f ! d =
          merged_gradient (algebraicFnIndices a) (derivative_index_map a alg core) alg core f d)) \<and>
      (req_hess (resp_asv core ! f) \<longrightarrow> (\<forall>d < length (resp_dvv core). \<forall>e < length (resp_dvv core).
        sym_get (functionHessians t ! f) d e =
          merged_hessian (algebraicFnIndices a) (derivative_index_map a alg core) alg core f d e)))"
proof -
  let ?idx = "derivative_index_map a alg core"
  have s: "resp_asv tot = resp_asv core" "resp_dvv tot = resp_dvv core"
    using assms(4) by (simp_all add: resp_asv_def resp_dvv_def)
  have inj: "j = k" if "j < length ?idx" "k < length ?idx" "?idx ! j = ?idx ! k" "?idx ! j \<noteq> None" for j k
    using dvv_index_inj [OF assms(8,9), of ?idx "resp_dvv core" j k] that
    by (auto simp: derivative_index_map_def split: if_splits)
  then have fits: "algebraic_fits (algebraicFnIndices a) ?idx alg core"
    using assms(5-7) mapped_below_dvv by (auto simp: algebraic_fits_def derivative_index_map_def injective_map_def)
  have "card (set (algebraicFnIndices a)) \<le> card {..<length (resp_asv core)}"
    using assms(7) by (intro card_mono) (auto simp: in_set_conv_nth)
  then have nf: "length (algebraicFnIndices a) \<le> length (resp_asv core)"
    using assms(5) by (simp add: distinct_card)
  obtain t where t: "rbind (reset_inactive tot) (rfold (merge_core core) [0..<length (resp_asv core)]) = Inr t"
      "resp_ready t" "responseActiveSet t = responseActiveSet core" "\<forall>f < length (resp_asv core). same_requested t core f"
    using core_merged [OF assms(2,1,4)] by blast
  obtain v where "rfold (merge_algebraic (algebraicFnIndices a) ?idx alg) [0..<length (resp_asv alg)] t = Inr v"
      "resp_ready v" "responseActiveSet v = responseActiveSet core" "merged_upto (algebraicFnIndices a) ?idx alg core v"
    using algebraic_merged [OF t(2) assms(3) t(3) fits t(4)] by blast
  moreover from this have "response_mapping True a alg core tot = Inr v"
    using t(1) nf assms(6,9,10)
    by (cases "list_ex req_grad (resp_asv core)"; cases "list_ex req_hess (resp_asv core)")
      (simp_all add: response_mapping_def Let_def s derivative_index_map_def)
  ultimately show ?thesis by (auto simp: merged_upto_def)
qed

definition example_algebraic :: algebraic_data where
  "example_algebraic = \<lparr>algebraicVarTags = [''x2''], algebraicACVIndices = [1], algebraicACVIds = [2],
     algebraicFnTags = [''g''], algebraicFnTypes = [1], algebraicFnIndices = [1]\<rparr>"

definition example_alg_response :: "int response" where
  "example_alg_response = \<lparr>functionValues = [100], functionGradients = \<lparr>m_rows = 1, m_cols = [[50]]\<rparr>,
     functionHessians = [[[8]]], responseActiveSet = \<lparr>requestVector = [7], derivVarsVector = [1]\<rparr>, metaData = []\<rparr>"

theorem response_mapping_merges_witness:
  "\<exists>t. response_mapping True example_algebraic example_alg_response (example_response [7, 7])
      (example_response [7, 7]) = Inr t \<and>
    functionValues t ! 0 = 5 \<and> functionValues t ! 1 = 107 \<and>
    m_cols (functionGradients t) ! 1 ! 0 = 3 \<and> m_cols (functionGradients t) ! 1 ! 1 = 54 \<and>
    sym_get (functionHessians t ! 1) 1 1 = sym_get (functionHessians (example_response [7, 7]) ! 1) 1 1 + 8 \<and>
    sym_get (functionHessians t ! 1) 0 1 = sym_get (functionHessians (example_response [7, 7]) ! 1) 0 1"
proof -
  let ?core = "example_response [7, 7]" and ?alg = example_alg_response
  have alg: "resp_ready ?alg"
    by (simp add: resp_ready_def resp_wf_def example_alg_response_def resp_asv_def resp_dvv_def tri_wf_def)
  have eqs: "resp_asv ?core = [7, 7]" "resp_dvv ?core = [1, 2]" "resp_asv ?alg = [7]" "resp_dvv ?alg = [1]"
    by (simp_all add: example_response_def example_alg_response_def resp_asv_def resp_dvv_def)
  have idx: "derivative_index_map example_algebraic ?alg ?core = [Some 1]"
    by (simp add: derivative_index_map_def eqs example_algebraic_def req_grad_def)
  obtain t where t: "response_mapping True example_algebraic ?alg ?core ?core = Inr t"
    and f: "\<And>f. f < 2 \<Longrightarrow> functionValues t ! f = merged_value [1] ?alg ?core f \<and>
      (\<forall>d < 2. m_cols (functionGradients t) ! f ! d = merged_gradient [1] [Some 1] ?alg ?core f d) \<and>
      (\<forall>d < 2. \<forall>e < 2. sym_get (functionHessians t ! f) d e = merged_hessian [1] [Some 1] ?alg ?core f d e)"
    using response_mapping_merges [of ?core ?core ?alg example_algebraic, unfolded idx] alg example_response_ready [of "[7, 7]"]
    by (fastforce simp: eqs example_algebraic_def less_2_cases_iff req_val_def req_grad_def req_hess_def)
  have "functionValues t ! 0 = 5" "functionValues t ! 1 = 107"
    using f [of 0] f [of 1] by (simp_all add: merged_value_def example_response_def example_alg_response_def)
  note vals = this
  have "m_cols (functionGradients t) ! 1 ! 0 = 3" "m_cols (functionGradients t) ! 1 ! 1 = 54"
    using f [of 1] by (simp_all add: merged_gradient_def example_response_def example_alg_response_def)
  moreover have "sym_get (functionHessians t ! 1) 1 1 = sym_get (functionHessians ?core ! 1) 1 1 + 8"
      "sym_get (functionHessians t ! 1) 0 1 = sym_get (functionHessians ?core ! 1) 0 1"
    using f [of 1] by (simp_all add: merged_hessian_def) (simp_all add: example_alg_response_def sym_get_def)
  ultimately show ?thesis using vals t by blast
qed

text \<open>A loop in which some pass cannot succeed does not succeed.\<close>

lemma rfold_blocked:
  assumes "x \<in> set xs" "P s" "\<And>y u v. P u \<Longrightarrow> f y u = Inr v \<Longrightarrow> P v" "\<And>u. P u \<Longrightarrow> \<not> is_ok (f x u)"
  shows "\<not> is_ok (rfold f xs s)"
  using assms(1,2)
proof (induction xs arbitrary: s)
  case (Cons y ys)
  show ?case
  proof (cases "f y s")
    case (Inr v)
    then have "y \<noteq> x" "P v" using Cons.prems(2) assms(3) [OF _ Inr] assms(4) by fastforce+
    then show ?thesis using Cons Inr by auto
  qed simp
qed simp

lemma set_request_value_length:
  "set_request_value v i s = Inr s' \<Longrightarrow> length (requestVector s') = length (requestVector s)"
  by (auto simp: set_request_value_def split: if_splits)

text \<open>With algebraic mappings alone, \<^verbatim>\<open>synchronize\<close> rebuilds the total request from the
  algebraic one: it copies the algebraic active set and stores each request at the index that the
  function has in the complete response.  The copy has one entry per algebraic function, so as
  soon as an algebraic function has an index beyond their number (for instance a single algebraic
  function that is the second response), the store is outside the vector.\<close>

theorem algebraic_only_request_out_of_bounds:
  assumes "asv_mapping a total_set = Inr (algebraic_set, core_set)"
    and "i < length (algebraicFnTags a)" "algebraicFnIndices a ! i \<ge> length (algebraicFnTags a)"
  shows "\<not> is_ok (asv_mapping_total a algebraic_set algebraic_set)"
  unfolding asv_mapping_total_def
proof (rule rfold_blocked [where x = i and P = "\<lambda>t. length (requestVector t) = length (algebraicFnTags a)"])
  show "length (requestVector algebraic_set) = length (algebraicFnTags a)"
    using assms(1) by (auto simp: asv_mapping_def Let_def set_request_vector_def set_derivative_vector_def
        derivative_start_value_def split: if_splits)
qed (use assms(2,3) in \<open>auto simp: set_request_value_def split: if_splits\<close>)

theorem algebraic_only_request_out_of_bounds_witness:
  "\<exists>alg core. asv_mapping example_algebraic \<lparr>requestVector = [1, 1], derivVarsVector = [1, 2]\<rparr> = Inr (alg, core) \<and>
    \<not> is_ok (asv_mapping_total example_algebraic alg alg)"
proof -
  obtain alg core where m: "asv_mapping example_algebraic
      \<lparr>requestVector = [1, 1], derivVarsVector = [1, 2]\<rparr> = Inr (alg, core)"
    by (simp add: asv_mapping_def example_algebraic_def)
  with algebraic_only_request_out_of_bounds [OF m, of 0] show ?thesis by (auto simp: example_algebraic_def)
qed

lemma Response_for_set_no_gradient:
  "\<not> list_ex req_grad (requestVector s) \<Longrightarrow> m_cols (functionGradients (Response_for_set n s)) = []"
  by (simp add: Response_for_set_def shape_rep_def Let_def mat_zero_def)

text \<open>An algebraic Hessian request without any gradient request cannot be served.  The
  evaluation of a Hessian first evaluates the gradient into the response, but the response that
  \<^verbatim>\<open>map\<close> builds for the request has gradient storage only if a gradient is requested, so the
  gradient is written to memory that is not there.\<close>

theorem algebraic_hessian_needs_gradient_storage:
  assumes "\<not> list_ex req_grad (requestVector s)" "i < length (requestVector s)" "req_hess (requestVector s ! i)"
    and "derivVarsVector s \<noteq> []"
  shows "\<not> is_ok (algebraic_mappings ampl_val ampl_grad ampl_hess a vars s (Response_for_set n s :: 'a::zero response))"
proof -
  let ?r = "Response_for_set n s :: 'a response"
  have step: "m_cols (functionGradients v) = []"
    if "m_cols (functionGradients u) = []" "algebraic_function ampl_val ampl_grad ampl_hess types asv x j u = Inr v"
    for u v types asv x j
    using that by (auto simp: algebraic_function_def Let_def result_simps split: if_splits option.splits)
  have blocked: "\<not> is_ok (rfold (algebraic_function ampl_val ampl_grad ampl_hess (algebraicFnTypes a)
      (requestVector s) x) [0..<length (requestVector s)] u)" if "m_cols (functionGradients u) = []" "x \<noteq> []" for u x
  proof (rule rfold_blocked [where x = i and P = "\<lambda>u. m_cols (functionGradients u) = []"])
    fix u :: "'a response" assume "m_cols (functionGradients u) = []"
    then show "\<not> is_ok (algebraic_function ampl_val ampl_grad ampl_hess (algebraicFnTypes a) (requestVector s) x i u)"
      using assms(3) and_6_iff [of "requestVector s ! i"] that(2)
      by (auto simp: algebraic_function_def Let_def split: option.splits)
  qed (use that step assms(2) in auto)
  show ?thesis
  proof (cases "reset_inactive ?r")
    case (Inr u)
    then have "m_cols (functionGradients u) = []"
      using Response_for_set_no_gradient [OF assms(1), of n, where 'a = 'a]
      by (auto simp: reset_inactive_def Let_def split: if_splits)
    then show ?thesis using blocked [of u] Inr assms(4) by (simp add: algebraic_mappings_def Let_def)
  qed (simp add: algebraic_mappings_def Let_def)
qed

theorem algebraic_hessian_needs_gradient_storage_witness:
  "\<not> is_ok (algebraic_mappings (\<lambda>_ x. Some (hd x)) (\<lambda>_ _. Some [1]) (\<lambda>_ _. [[0]]) example_algebraic example_vars
    \<lparr>requestVector = [5], derivVarsVector = [1]\<rparr> (Response_for_set 0 \<lparr>requestVector = [5], derivVarsVector = [1]\<rparr>))"
  using algebraic_hessian_needs_gradient_storage [of "\<lparr>requestVector = [5], derivVarsVector = [1]\<rparr>" 0]
  by (simp add: req_grad_def req_hess_def)

end
