(* ===== verification/App_State.thy ===== *)
theory App_State
  imports Interface_Mapping Complex_Main
begin

text \<open>
  State and parameters of an application interface (\<^verbatim>\<open>src/ApplicationInterface.hpp\<close>), and the capture
  of simulation failures (\<^verbatim>\<open>src/ApplicationInterface.cpp\<close>: \<^verbatim>\<open>manage_failure\<close>, \<^verbatim>\<open>get_source_pair\<close>,
  \<^verbatim>\<open>continuation\<close>).

  The record \<open>app_config\<close> holds the settings that do not change during a run, and the virtual
  functions that a derived interface supplies: \<open>derived_map\<close> runs one simulation and reports whether
  it threw \<^verbatim>\<open>FunctionEvalFailure\<close>, \<open>derived_map_asynch\<close> starts one, \<open>wait_local_evaluations\<close> and
  \<open>test_local_evaluations\<close> report completed ones with their responses.  The message-passing library is
  given by \<open>mpi_send\<close>, \<open>mpi_waitsome\<close>, \<open>mpi_waitall\<close> and \<open>mpi_test\<close>: a wait or a test is told which
  receives are pending and returns the completed ones with their messages.  They all act on the outside world
  of type \<open>'w\<close>, so a simulator may behave differently on every call.

  Evaluation ids are unbounded integers here; the code counts them in an \<^verbatim>\<open>int\<close>.  An iterator into
  a queue is the rest of the queue from that position, or, where it is stored, the evaluation id
  of the element it points to.

  The three arrays \<^verbatim>\<open>sendBuffers\<close>, \<^verbatim>\<open>recvBuffers\<close> and \<^verbatim>\<open>recvRequests\<close> are allocated and released together:
  \<open>msgBuffers\<close> is \<open>None\<close> for null pointers and otherwise holds, for each index, the job whose response
  is awaited there, if any, and the contents of the receive buffer.
\<close>

section \<open>Configuration\<close>

type_synonym 'r job = "int \<times> 'r variables \<times> 'r response"

text \<open>A job that was sent to an evaluation server and whose response is awaited: buffer index, server id,
  and the message, with the evaluation id as its tag.\<close>

type_synonym 'r request = "nat \<times> int \<times> int \<times> 'r variables \<times> active_set"

record ('r, 'w) app_config =
  interfaceId :: string
  coreMappings :: bool
  algebraicMappings :: bool
  acv_labels :: "string list"
  acv_ids :: "nat list"
  function_labels :: "string list"
  num_metadata :: nat
  asvControlFlag :: bool
  evalCacheFlag :: bool
  nearbyDuplicateDetect :: bool
  nearbyTolerance :: 'r
  dbl_min :: 'r
  restartFileFlag :: bool
  gradientType :: string
  hessianType :: string
  gradMixedAnalyticIds :: "nat list"
  hessMixedAnalyticIds :: "nat list"
  failAction :: string
  failRetryLimit :: int
  failRecoveryFnVals :: "'r list"
  continuationEps :: 'r
  ieMessagePass :: bool
  ieDedMasterFlag :: bool
  multiProcEvalFlag :: bool
  directInterface :: bool
  peerStaticScheduling :: bool
  asynchLocalEvalConcurrency :: nat
  asynchLocalEvalStatic :: bool
  numEvalServers :: nat
  prp_index :: "'r hash_index"
  ampl_val :: "int \<Rightarrow> 'r list \<Rightarrow> 'r option"
  ampl_grad :: "int \<Rightarrow> 'r list \<Rightarrow> 'r list option"
  ampl_hess :: "int \<Rightarrow> 'r list \<Rightarrow> 'r symmat"
  derived_map :: "'r variables \<Rightarrow> active_set \<Rightarrow> int \<Rightarrow> 'w \<Rightarrow> 'r response \<Rightarrow> bool \<times> 'w \<times> 'r response"
  derived_map_asynch :: "'r job \<Rightarrow> 'w \<Rightarrow> 'w"
  wait_local_evaluations :: "'r job list \<Rightarrow> 'w \<Rightarrow> ((int \<times> 'r response) list \<times> 'w) result"
  test_local_evaluations :: "'r job list \<Rightarrow> 'w \<Rightarrow> ((int \<times> 'r response) list \<times> 'w) result"
  mpi_send :: "'r request \<Rightarrow> 'w \<Rightarrow> 'w"
  mpi_waitsome :: "'r request list \<Rightarrow> 'w \<Rightarrow> ((nat \<times> int \<times> 'r buffer) list \<times> 'w) result"
  mpi_waitall :: "'r request list \<Rightarrow> 'w \<Rightarrow> ((nat \<times> int \<times> 'r buffer) list \<times> 'w) result"
  mpi_test :: "'r request \<Rightarrow> 'w \<Rightarrow> ('r buffer option \<times> 'w) result"

section \<open>State\<close>

record ('r, 'w) app_state = "'r interface_base" +
  world :: 'w
  currEvalId :: int
  defaultASV :: "short list"
  data_pairs :: "'r prp list"
  restart_log :: "('r variables \<times> 'r response \<times> int \<times> string) list"
  historyDuplicateMap :: "(int \<times> rref) list"
  beforeSynchDuplicateMap :: "(int \<times> int \<times> rref) list"
  beforeSynchCorePRPQueue :: "'r prp list"
  beforeSynchAlgPRPQueue :: "'r prp list"
  asynchLocalActivePRPQueue :: "'r prp list"
  msgPassRunningMap :: "(int \<times> int \<times> nat) list"
  localServerAssigned :: "bool list"
  msgBuffers :: "((int \<times> int \<times> 'r variables \<times> active_set) option \<times> 'r buffer) list option"
  nowaitEvalIdRef :: int
  headerFlag :: bool

text \<open>A response handle is followed to its representation.\<close>

abbreviation resp_at :: "('r, 'm) interface_base_scheme \<Rightarrow> rref \<Rightarrow> 'r response" where
  "resp_at s a \<equiv> heap s a"

text \<open>\<^verbatim>\<open>ParallelLibrary::write_restart\<close> writes the current contents of a pair.\<close>

definition write_restart :: "'r prp \<Rightarrow> ('r, 'w) app_state \<Rightarrow> ('r, 'w) app_state" where
  "write_restart p s = s\<lparr>restart_log := restart_log s @
     [(prpVariables p, resp_at s (prpResponse p), evalInterfaceIds p)]\<rparr>"

text \<open>A finished pair goes to the cache and to the restart file, if they are in use.\<close>

definition record_pair :: "('r, 'w) app_config \<Rightarrow> 'r prp \<Rightarrow> ('r, 'w) app_state \<Rightarrow> ('r, 'w) app_state" where
  "record_pair c p s =
    (let s1 = (if evalCacheFlag c then s\<lparr>data_pairs := cache_insert p (data_pairs s)\<rparr> else s)
     in if restartFileFlag c then write_restart p s1 else s1)"

section \<open>Variables\<close>

definition continuous_variables :: "'r variables \<Rightarrow> 'r list" where
  "continuous_variables v = take (num_cv v) (drop (cv_start v) (allContinuousVars v))"

definition set_continuous_variables :: "'r list \<Rightarrow> 'r variables \<Rightarrow> 'r variables" where
  "set_continuous_variables pt v = v\<lparr>allContinuousVars :=
     map_index (\<lambda>i x. if cv_start v \<le> i \<and> i < cv_start v + length pt then pt ! (i - cv_start v) else x)
       (allContinuousVars v)\<rparr>"

section \<open>Failure capture\<close>

text \<open>One call of \<open>derived_map\<close> on a response; the flag tells whether the simulation failed.\<close>

definition call_derived_map ::
    "('r, 'w) app_config \<Rightarrow> 'r variables \<Rightarrow> active_set \<Rightarrow> rref \<Rightarrow> int \<Rightarrow> ('r, 'w) app_state \<Rightarrow>
      bool \<times> ('r, 'w) app_state" where
  "call_derived_map c vars st a i s =
    (case derived_map c vars st i (world s) (resp_at s a) of
       (failed, w, r) \<Rightarrow> (failed, (set_response a r s)\<lparr>world := w\<rparr>))"

text \<open>The loop of the retry action; \<open>retries\<close> counts the attempts made so far.\<close>

function retry_loop ::
    "('r, 'w) app_config \<Rightarrow> int \<Rightarrow> 'r variables \<Rightarrow> active_set \<Rightarrow> rref \<Rightarrow> int \<Rightarrow> ('r, 'w) app_state \<Rightarrow>
      ('r, 'w) app_state result" where
  "retry_loop c retries vars st a i s =
    (case call_derived_map c vars st a i s of
       (failed, s1) \<Rightarrow>
         if failed then
           if retries + 1 \<ge> failRetryLimit c then Inl (Abort INTERFACE_ERROR)
           else retry_loop c (retries + 1) vars st a i s1
         else Inr s1)"
  by pat_completeness auto
termination
  by (relation "measure (\<lambda>(c, retries, _). nat (failRetryLimit c - retries))") auto

declare retry_loop.simps [simp del]

definition recover :: "('r, 'w) app_config \<Rightarrow> rref \<Rightarrow> ('r::zero, 'w) app_state \<Rightarrow> ('r, 'w) app_state result" where
  "recover c a s =
    (if length (failRecoveryFnVals c) \<noteq> length (functionValues (resp_at s a)) then Inl (Abort (-1))
     else Inr (set_response a ((reset (resp_at s a))\<lparr>functionValues := failRecoveryFnVals c\<rparr>) s))"

text \<open>\<^verbatim>\<open>get_source_pair\<close> computes the nearest pair and then returns the last one; the search has no
  effect on the result and is left out.\<close>

definition get_source_pair :: "('r, 'w) app_state \<Rightarrow> 'r prp result" where
  "get_source_pair s = (if data_pairs s = [] then Inl (Abort (-1)) else Inr (last (data_pairs s)))"

text \<open>The loop of the continuation action: halve the step after a failure, at most ten times; advance
  after a success until the target is reached.\<close>

fun continuation_loop ::
    "nat \<Rightarrow> ('r, 'w) app_config \<Rightarrow> 'r variables \<Rightarrow> active_set \<Rightarrow> rref \<Rightarrow> int \<Rightarrow> 'r list \<Rightarrow> 'r list \<Rightarrow>
      'r::{zero, one, plus, minus, inverse, abs, ord} list \<Rightarrow> int \<Rightarrow> ('r, 'w) app_state \<Rightarrow> ('r, 'w) app_state result" where
  "continuation_loop 0 c current_vars st a i target_pt current_pt delta failures s = Inl OutOfFuel"
| "continuation_loop (Suc n) c current_vars st a i target_pt current_pt delta failures s =
    (case call_derived_map c (set_continuous_variables current_pt current_vars) st a i s of
       (failed, s1) \<Rightarrow>
         if failed then
           if failures + 1 > 10 then Inl (Abort INTERFACE_ERROR)
           else let delta' = map (\<lambda>d. d / (1 + 1)) delta in
             continuation_loop n c current_vars st a i target_pt (map2 (-) current_pt delta') delta'
               (failures + 1) s1
         else if current_pt = target_pt then Inr s1
         else continuation_loop n c current_vars st a i target_pt
           (map2 (\<lambda>x t. if \<bar>1 - x / t\<bar> < continuationEps c then t else x)
             (map2 (+) current_pt delta) target_pt) delta failures s1)"

definition continuation ::
    "nat \<Rightarrow> ('r, 'w) app_config \<Rightarrow> 'r variables \<Rightarrow> active_set \<Rightarrow> rref \<Rightarrow> 'r prp \<Rightarrow> int \<Rightarrow>
      ('r::{zero, one, plus, minus, inverse, abs, ord}, 'w) app_state \<Rightarrow> ('r, 'w) app_state result" where
  "continuation fuel c target_vars st a source_pair i s =
    (let source_vars = prpVariables source_pair; source_pt = continuous_variables source_vars;
         target_pt = continuous_variables target_vars
     in if length target_pt < length source_pt then Inl (UndefinedBehaviour ''index'')
        else let delta = map2 (\<lambda>t x. (t - x) / (1 + 1)) target_pt source_pt in
          continuation_loop fuel c source_vars st a i target_pt (map2 (+) source_pt delta) delta 1 s)"

definition manage_failure ::
    "nat \<Rightarrow> ('r, 'w) app_config \<Rightarrow> 'r variables \<Rightarrow> active_set \<Rightarrow> rref \<Rightarrow> int \<Rightarrow>
      ('r::{zero, one, plus, minus, inverse, abs, ord}, 'w) app_state \<Rightarrow> ('r, 'w) app_state result" where
  "manage_failure fuel c vars st a failed_eval_id s =
    (if failAction c = ''retry'' then retry_loop c 0 vars st a failed_eval_id s
     else if failAction c = ''recover'' then recover c a s
     else if failAction c = ''continuation'' then
       rbind (get_source_pair s) (\<lambda>p. continuation fuel c vars st a p failed_eval_id s)
     else Inl (Abort INTERFACE_ERROR))"

section \<open>An example interface\<close>

text \<open>One function of one variable.  The simulator is the identity; it fails while the world counter
  is positive and decrements it.  All running jobs complete at the next test or wait.\<close>

definition sample_response :: "short list \<Rightarrow> rat \<Rightarrow> rat response" where
  "sample_response asv v = \<lparr>functionValues = [v], functionGradients = \<lparr>m_rows = 1, m_cols = [[0]]\<rparr>,
     functionHessians = [], responseActiveSet = \<lparr>requestVector = asv, derivVarsVector = [1]\<rparr>, metaData = []\<rparr>"

definition sample_set :: active_set where
  "sample_set = \<lparr>requestVector = [1], derivVarsVector = [1]\<rparr>"

definition sample_vars :: "rat \<Rightarrow> rat variables" where
  "sample_vars x = \<lparr>variablesView = (1, 0), allContinuousVars = [x], allDiscreteIntVars = [], allDiscreteStringVars = [],
     allDiscreteRealVars = [], cv_start = 0, num_cv = 1\<rparr>"

definition sample_eval :: "rat variables \<Rightarrow> rat response \<Rightarrow> rat response" where
  "sample_eval v r = r\<lparr>functionValues := [hd (allContinuousVars v)]\<rparr>"

text \<open>A server that evaluates the identity and sends the value, without derivatives or metadata.\<close>

definition sample_answer :: "rat request \<Rightarrow> nat \<times> int \<times> rat buffer" where
  "sample_answer req = (case req of (i, server, tag, v, st) \<Rightarrow> (i, tag,
     [PBool True, PShort 0, PBool False, PBool False] @ ActiveSet_write st @
     [PSize 0, PReal (hd (allContinuousVars v)), PSize 0]))"

definition sample_config :: "string \<Rightarrow> (rat, nat) app_config" where
  "sample_config action = \<lparr>interfaceId = ''sim'', coreMappings = True, algebraicMappings = False,
     acv_labels = [''x''], acv_ids = [1], function_labels = [''f''], num_metadata = 0,
     asvControlFlag = True, evalCacheFlag = True, nearbyDuplicateDetect = False, nearbyTolerance = 0,
     dbl_min = 0, restartFileFlag = True, gradientType = ''none'', hessianType = ''none'',
     gradMixedAnalyticIds = [], hessMixedAnalyticIds = [],
     failAction = action, failRetryLimit = 3, failRecoveryFnVals = [42], continuationEps = 0,
     ieMessagePass = False, ieDedMasterFlag = False, multiProcEvalFlag = False, directInterface = False,
     peerStaticScheduling = False, asynchLocalEvalConcurrency = 2, asynchLocalEvalStatic = False,
     numEvalServers = 1, prp_index = \<lparr>hash_combine = (\<lambda>seed _. seed), bucket = (\<lambda>_ c. c)\<rparr>,
     ampl_val = (\<lambda>_ _. None), ampl_grad = (\<lambda>_ _. None), ampl_hess = (\<lambda>_ _. []),
     derived_map = (\<lambda>v st i w r. if w > 0 then (True, w - 1, r) else (False, w, sample_eval v r)),
     derived_map_asynch = (\<lambda>_ w. w),
     wait_local_evaluations = (\<lambda>jobs w. Inr (map (\<lambda>(i, v, r). (i, sample_eval v r)) jobs, w)),
     test_local_evaluations = (\<lambda>jobs w. Inr (map (\<lambda>(i, v, r). (i, sample_eval v r)) jobs, w)),
     mpi_send = (\<lambda>_ w. w), mpi_waitsome = (\<lambda>reqs w. Inr (map sample_answer reqs, w)),
     mpi_waitall = (\<lambda>reqs w. Inr (map sample_answer reqs, w)),
     mpi_test = (\<lambda>req w. Inr (Some (snd (snd (sample_answer req))), w))\<rparr>"

definition sample_state :: "nat \<Rightarrow> (rat, nat) app_state" where
  "sample_state w = \<lparr>heap = (\<lambda>_. sample_response [1] 0), nextRef = 1,
     evalIdCntr = 0, newEvalIdCntr = 0, evalIdRefPt = 0, newEvalIdRefPt = 0, fineGrainEvalCounters = False,
     fnValCounter = [], fnGradCounter = [], fnHessCounter = [], newFnValCounter = [], newFnGradCounter = [],
     newFnHessCounter = [], fnValRefPt = [], fnGradRefPt = [], fnHessRefPt = [], newFnValRefPt = [],
     newFnGradRefPt = [], newFnHessRefPt = [], rawResponseMap = [], cachedResponseMap = [],
     algebraicData = \<lparr>algebraicVarTags = [], algebraicACVIndices = [], algebraicACVIds = [],
       algebraicFnTags = [], algebraicFnTypes = [], algebraicFnIndices = []\<rparr>,
     world = w, currEvalId = 0, defaultASV = [], data_pairs = [], restart_log = [], historyDuplicateMap = [],
     beforeSynchDuplicateMap = [], beforeSynchCorePRPQueue = [], beforeSynchAlgPRPQueue = [],
     asynchLocalActivePRPQueue = [], msgPassRunningMap = [], localServerAssigned = [],
     msgBuffers = None, nowaitEvalIdRef = 0, headerFlag = True\<rparr>"

lemmas sample_defs = sample_config_def sample_answer_def sample_state_def sample_response_def sample_vars_def sample_eval_def

section \<open>Properties of failure capture\<close>

text \<open>The state after \<open>k\<close> further attempts, and whether the next attempt fails.\<close>

fun after_attempts ::
    "('r, 'w) app_config \<Rightarrow> 'r variables \<Rightarrow> active_set \<Rightarrow> rref \<Rightarrow> int \<Rightarrow> nat \<Rightarrow> ('r, 'w) app_state \<Rightarrow> ('r, 'w) app_state" where
  "after_attempts c vars st a i 0 s = s"
| "after_attempts c vars st a i (Suc k) s = after_attempts c vars st a i k (snd (call_derived_map c vars st a i s))"

definition attempt_fails ::
    "('r, 'w) app_config \<Rightarrow> 'r variables \<Rightarrow> active_set \<Rightarrow> rref \<Rightarrow> int \<Rightarrow> ('r, 'w) app_state \<Rightarrow> nat \<Rightarrow> bool" where
  "attempt_fails c vars st a i s k = fst (call_derived_map c vars st a i (after_attempts c vars st a i k s))"

lemma attempt_fails_Suc:
  "attempt_fails c vars st a i s (Suc k) = attempt_fails c vars st a i (snd (call_derived_map c vars st a i s)) k"
  by (simp add: attempt_fails_def)

text \<open>What \<open>n\<close> attempts can lead to.\<close>

definition retry_outcome ::
    "('r, 'w) app_config \<Rightarrow> 'r variables \<Rightarrow> active_set \<Rightarrow> rref \<Rightarrow> int \<Rightarrow> nat \<Rightarrow> ('r, 'w) app_state \<Rightarrow>
      ('r, 'w) app_state result \<Rightarrow> bool" where
  "retry_outcome c vars st a i n s res \<longleftrightarrow> (case res of
      Inr s' \<Rightarrow> \<exists>k < n. (\<forall>j < k. attempt_fails c vars st a i s j) \<and> \<not> attempt_fails c vars st a i s k \<and>
        s' = after_attempts c vars st a i (Suc k) s
    | Inl e \<Rightarrow> e = Abort INTERFACE_ERROR \<and> (\<forall>j < n. attempt_fails c vars st a i s j))"

lemma retry_outcome_failed:
  assumes cd: "call_derived_map c vars st a i s = (True, s1)" and "retry_outcome c vars st a i n s1 res"
  shows "retry_outcome c vars st a i (Suc n) s res"
proof -
  have f0: "attempt_fails c vars st a i s 0" by (simp add: attempt_fails_def cd)
  have sh: "attempt_fails c vars st a i s (Suc k) = attempt_fails c vars st a i s1 k" for k
    by (simp add: attempt_fails_Suc cd)
  have all: "(\<forall>j < Suc k. attempt_fails c vars st a i s j) \<longleftrightarrow> (\<forall>j < k. attempt_fails c vars st a i s1 j)" for k
    using f0 sh by (auto simp: less_Suc_eq_0_disj)
  show ?thesis
  proof (cases res)
    case (Inl e)
    then show ?thesis using assms(2) all by (simp add: retry_outcome_def)
  next
    case (Inr s')
    then obtain k where k: "k < n" "\<forall>j < k. attempt_fails c vars st a i s1 j" "\<not> attempt_fails c vars st a i s1 k"
      "s' = after_attempts c vars st a i (Suc k) s1" using assms(2) by (auto simp: retry_outcome_def)
    then have "Suc k < Suc n \<and> (\<forall>j < Suc k. attempt_fails c vars st a i s j) \<and>
        \<not> attempt_fails c vars st a i s (Suc k) \<and> s' = after_attempts c vars st a i (Suc (Suc k)) s"
      using all sh by (simp add: cd)
    then show ?thesis unfolding retry_outcome_def Inr sum.case by blast
  qed
qed

lemma retry_loop_spec:
  assumes "n = (if retries \<ge> failRetryLimit c then 1 else nat (failRetryLimit c - retries))"
  shows "retry_outcome c vars st a i n s (retry_loop c retries vars st a i s)"
  using assms
proof (induction n arbitrary: retries s)
  case 0
  then show ?case by (simp split: if_splits)
next
  case (Suc n)
  obtain failed s1 where cd: "call_derived_map c vars st a i s = (failed, s1)" by (cases "call_derived_map c vars st a i s")
  have f0: "attempt_fails c vars st a i s 0 = failed" by (simp add: attempt_fails_def cd)
  consider "\<not> failed" | "failed" "retries + 1 \<ge> failRetryLimit c" | "failed" "retries + 1 < failRetryLimit c"
    by linarith
  then show ?case
  proof cases
    case 1
    then have "retry_loop c retries vars st a i s = Inr s1" by (subst retry_loop.simps) (simp add: cd)
    then show ?thesis using 1 f0 by (auto simp: cd retry_outcome_def intro!: exI [of _ 0])
  next
    case 2
    then have "n = 0" using Suc.prems by (auto split: if_splits)
    moreover have "retry_loop c retries vars st a i s = Inl (Abort INTERFACE_ERROR)"
      using 2 by (subst retry_loop.simps) (simp add: cd)
    ultimately show ?thesis using 2 f0 by (simp add: retry_outcome_def)
  next
    case 3
    then have "n = (if retries + 1 \<ge> failRetryLimit c then 1 else nat (failRetryLimit c - (retries + 1)))"
      using Suc.prems by (auto split: if_splits)
    from Suc.IH [OF this, of s1] have "retry_outcome c vars st a i (Suc n) s (retry_loop c (retries + 1) vars st a i s1)"
      using retry_outcome_failed cd 3(1) by simp
    moreover have "retry_loop c retries vars st a i s = retry_loop c (retries + 1) vars st a i s1"
      using 3 by (subst retry_loop.simps) (simp add: cd)
    ultimately show ?thesis by simp
  qed
qed

text \<open>C24: With the failure action retry, a failed evaluation is attempted again up to the limit (at
  least once): the handler returns exactly when one of these attempts succeeds, with the state
  after the first successful one, and aborts exactly when all of them fail.\<close>

theorem manage_failure_retry:
  assumes "failAction c = ''retry''"
  shows "case manage_failure fuel c vars st a i s of
      Inr s' \<Rightarrow> \<exists>k < max 1 (nat (failRetryLimit c)). (\<forall>j < k. attempt_fails c vars st a i s j) \<and>
        \<not> attempt_fails c vars st a i s k \<and> s' = after_attempts c vars st a i (Suc k) s
    | Inl e \<Rightarrow> e = Abort INTERFACE_ERROR \<and>
        (\<forall>j < max 1 (nat (failRetryLimit c)). attempt_fails c vars st a i s j)"
proof -
  have "max 1 (nat (failRetryLimit c)) = (if 0 \<ge> failRetryLimit c then 1 else nat (failRetryLimit c - 0))" by auto
  from retry_loop_spec [OF this, of vars st a i s] show ?thesis
    using assms by (simp add: manage_failure_def retry_outcome_def del: One_nat_def)
qed

theorem manage_failure_retry_witness:
  "\<exists>k < 3. manage_failure 0 (sample_config ''retry'') (sample_vars 7) sample_set 0 1 (sample_state 2) =
    Inr (after_attempts (sample_config ''retry'') (sample_vars 7) sample_set 0 1 (Suc k) (sample_state 2))"
proof (cases "manage_failure 0 (sample_config ''retry'') (sample_vars 7) sample_set 0 1 (sample_state 2)")
  case (Inl e)
  have "\<not> attempt_fails (sample_config ''retry'') (sample_vars 7) sample_set 0 1 (sample_state 2) 2"
    by (simp add: attempt_fails_def numeral_2_eq_2 call_derived_map_def set_response_def sample_defs)
  then show ?thesis
    using manage_failure_retry [where c = "sample_config ''retry''" and fuel = 0 and vars = "sample_vars 7"
      and st = sample_set and a = 0 and i = 1 and s = "sample_state 2"] Inl
    by (auto simp: sample_config_def)
next
  case (Inr s')
  then show ?thesis
    using manage_failure_retry [where c = "sample_config ''retry''" and fuel = 0 and vars = "sample_vars 7"
      and st = sample_set and a = 0 and i = 1 and s = "sample_state 2"]
    by (auto simp: sample_config_def)
qed

text \<open>With the failure action recover, no simulation is run: the response receives the recovery
  values, its derivatives and metadata are zero, its active set and everything else stay, and a
  recovery vector of the wrong length aborts.\<close>

theorem manage_failure_recover:
  assumes "failAction c = ''recover''"
  shows "case manage_failure fuel c vars st a i s of
      Inr s' \<Rightarrow> length (failRecoveryFnVals c) = length (functionValues (resp_at s a)) \<and>
        functionValues (resp_at s' a) = failRecoveryFnVals c \<and>
        responseActiveSet (resp_at s' a) = responseActiveSet (resp_at s a) \<and>
        (\<forall>col \<in> set (m_cols (functionGradients (resp_at s' a))). \<forall>x \<in> set col. x = 0) \<and>
        (\<forall>h \<in> set (functionHessians (resp_at s' a)). \<forall>row \<in> set h. \<forall>x \<in> set row. x = 0) \<and>
        (\<forall>b. b \<noteq> a \<longrightarrow> resp_at s' b = resp_at s b) \<and> world s' = world s
    | Inl e \<Rightarrow> e = Abort (-1) \<and> length (failRecoveryFnVals c) \<noteq> length (functionValues (resp_at s a))"
  using assms by (auto simp: manage_failure_def recover_def set_response_def reset_def sym_fill_def)

theorem manage_failure_recover_witness:
  "\<exists>s'. manage_failure 0 (sample_config ''recover'') (sample_vars 7) sample_set 0 1 (sample_state 2) = Inr s' \<and>
    functionValues (resp_at s' 0) = [42]"
proof (cases "manage_failure 0 (sample_config ''recover'') (sample_vars 7) sample_set 0 1 (sample_state 2)")
  case (Inl e)
  then show ?thesis
    using manage_failure_recover [where c = "sample_config ''recover''" and fuel = 0 and vars = "sample_vars 7"
      and st = sample_set and a = 0 and i = 1 and s = "sample_state 2"]
    by (simp add: sample_defs)
next
  case (Inr s')
  then show ?thesis
    using manage_failure_recover [where c = "sample_config ''recover''" and fuel = 0 and vars = "sample_vars 7"
      and st = sample_set and a = 0 and i = 1 and s = "sample_state 2"]
    by (simp add: sample_defs)
qed

lemma continuation_loop_reaches_target:
  assumes "continuation_loop n c cv st a i target_pt current_pt delta failures s = Inr s'"
  shows "\<exists>s0. call_derived_map c (set_continuous_variables target_pt cv) st a i s0 = (False, s')"
  using assms
  by (induction n c cv st a i target_pt current_pt delta failures s rule: continuation_loop.induct)
    (auto simp: Let_def split: prod.splits if_splits)



lemma continuation_loop_all_fail:
  assumes "\<And>v j w r. fst (derived_map c v st j w r)" and "int n > 10 - failures" "failures \<le> 10"
  shows "continuation_loop n c cv st a i target_pt current_pt delta failures s = Inl (Abort INTERFACE_ERROR)"
  using assms(2,3)
proof (induction n arbitrary: current_pt delta failures s)
  case (Suc n)
  have "fst (call_derived_map c (set_continuous_variables current_pt cv) st a i s)"
    using assms(1) by (auto simp: call_derived_map_def split: prod.splits) (metis fst_conv)
  then show ?case using Suc by (auto simp: Let_def split: prod.splits)
qed simp

text \<open>Interval halving is bounded: when every simulation fails, the continuation gives up with
  an interface error after ten attempts.\<close>

theorem continuation_gives_up:
  assumes "\<And>v j w r. fst (derived_map c v st j w r)" and "fuel \<ge> 10"
    and "length (continuous_variables (prpVariables source_pair)) \<le> length (continuous_variables target_vars)"
  shows "continuation fuel c target_vars st a source_pair i s = Inl (Abort INTERFACE_ERROR)"
  using continuation_loop_all_fail [of c st 1 fuel] assms by (simp add: continuation_def Let_def)

theorem continuation_gives_up_witness:
  "continuation 10 ((sample_config ''continuation'')\<lparr>derived_map := \<lambda>v st i w r. (True, w, r)\<rparr>) (sample_vars 8) sample_set 0
     (ParamResponsePair (sample_vars 4) ''sim'' 0 1) 2 (sample_state 0) = Inl (Abort INTERFACE_ERROR)"
  by (rule continuation_gives_up) (simp_all add: sample_defs continuous_variables_def ParamResponsePair_def)

end
