(* ===== verification/Local_Scheduler.thy ===== *)
theory Local_Scheduler
  imports App_State
begin

text \<open>
  Scheduling of evaluations on the local processor (\<^verbatim>\<open>src/ApplicationInterface.cpp\<close>:
  \<^verbatim>\<open>asynchronous_local_evaluations\<close> and its helpers, the nonblocking variants, and
  \<^verbatim>\<open>synchronous_local_evaluations\<close>).

  A job is launched by putting its pair into the active queue; the pair shares its response with the
  queue it came from, so a completed simulation is visible in both.  With a static schedule and a
  limited concurrency a job may only run on the logical server given by its evaluation id.  The
  number of evaluation servers is positive, and the broadcast of a job to the other processors of a
  multiprocessor partition is not modelled.
\<close>

section \<open>Servers\<close>

definition static_limited :: "('r, 'w) app_config \<Rightarrow> bool" where
  "static_limited c \<longleftrightarrow> asynchLocalEvalStatic c \<and> asynchLocalEvalConcurrency c > 1"

definition static_servers :: "('r, 'w) app_config \<Rightarrow> nat" where
  "static_servers c = asynchLocalEvalConcurrency c * numEvalServers c"

text \<open>\<^verbatim>\<open>(fn_eval_id - 1) % static_servers\<close>, with the conversion to \<^verbatim>\<open>size_t\<close>.\<close>

definition server_index :: "('r, 'w) app_config \<Rightarrow> int \<Rightarrow> nat" where
  "server_index c i = nat ((i - 1) mod 2 ^ 64) mod static_servers c"

section \<open>Launching and completing one job\<close>

definition job_of :: "('r, 'w) app_state \<Rightarrow> 'r prp \<Rightarrow> 'r job" where
  "job_of s p = (eval_id p, prpVariables p, resp_at s (prpResponse p))"

definition launch_asynch_local ::
    "('r, 'w) app_config \<Rightarrow> 'r prp \<Rightarrow> ('r, 'w) app_state \<Rightarrow> ('r, 'w) app_state" where
  "launch_asynch_local c p s =
    s\<lparr>world := derived_map_asynch c (job_of s p) (world s),
      asynchLocalActivePRPQueue := queue_insert p (asynchLocalActivePRPQueue s)\<rparr>"

definition set_server :: "('r, 'w) app_config \<Rightarrow> int \<Rightarrow> bool \<Rightarrow> ('r, 'w) app_state \<Rightarrow> ('r, 'w) app_state" where
  "set_server c i b s = s\<lparr>localServerAssigned := (localServerAssigned s)[server_index c i := b]\<rparr>"

definition process_asynch_local ::
    "('r, 'w) app_config \<Rightarrow> int \<Rightarrow> ('r, 'w) app_state \<Rightarrow> ('r, 'w) app_state result" where
  "process_asynch_local c fn_eval_id s =
    (case lookup_by_eval_id fn_eval_id (asynchLocalActivePRPQueue s) of
       None \<Rightarrow> Inl (Abort (-1))
     | Some p \<Rightarrow>
         let s1 = record_pair c p
               (s\<lparr>rawResponseMap := map_assign fn_eval_id (prpResponse p) (rawResponseMap s)\<rparr>);
             s2 = s1\<lparr>asynchLocalActivePRPQueue := queue_erase fn_eval_id (asynchLocalActivePRPQueue s1)\<rparr>
         in Inr (if static_limited c then set_server c fn_eval_id False s2 else s2))"

definition process_synch_local ::
    "('r, 'w) app_config \<Rightarrow> 'r prp \<Rightarrow> ('r, 'w) app_state \<Rightarrow> ('r, 'w) app_state" where
  "process_synch_local c p s =
    record_pair c p (s\<lparr>rawResponseMap := map_assign (eval_id p) (prpResponse p) (rawResponseMap s)\<rparr>)"

text \<open>The responses that a completion test reports are stored in the active pairs they belong to.\<close>

definition store_completion :: "(int \<times> 'r response) \<Rightarrow> ('r, 'w) app_state \<Rightarrow> ('r, 'w) app_state" where
  "store_completion e s =
    (case lookup_by_eval_id (fst e) (asynchLocalActivePRPQueue s) of
       None \<Rightarrow> s | Some p \<Rightarrow> set_response (prpResponse p) (snd e) s)"

text \<open>\<^verbatim>\<open>completionSet\<close> after \<^verbatim>\<open>wait_local_evaluations\<close> or \<^verbatim>\<open>test_local_evaluations\<close>: a set in increasing order.\<close>

definition collect_completions ::
    "('r job list \<Rightarrow> 'w \<Rightarrow> ((int \<times> 'r response) list \<times> 'w) result) \<Rightarrow> ('r, 'w) app_state \<Rightarrow>
      (int list \<times> ('r, 'w) app_state) result" where
  "collect_completions wait s =
    rbind (wait (map (job_of s) (asynchLocalActivePRPQueue s)) (world s)) (\<lambda>(done, w).
      Inr (remdups (sort (map fst done)), (foldl (\<lambda>s e. store_completion e s) s done)\<lparr>world := w\<rparr>))"

section \<open>Blocking schedule\<close>

fun assign_loop ::
    "('r, 'w) app_config \<Rightarrow> nat \<Rightarrow> nat \<Rightarrow> nat \<Rightarrow> 'r prp list \<Rightarrow> ('r, 'w) app_state \<Rightarrow>
      'r prp list \<times> ('r, 'w) app_state" where
  "assign_loop c i num_sends num_active [] s = ([], s)"
| "assign_loop c i num_sends num_active (p # ps) s =
    (if static_limited c then
       if \<not> localServerAssigned s ! server_index c (eval_id p) then
         let s1 = launch_asynch_local c p (set_server c (eval_id p) True s) in
         if num_active + 1 = asynchLocalEvalConcurrency c then (p # ps, s1)
         else assign_loop c (Suc i) num_sends (num_active + 1) ps s1
       else if num_active = asynchLocalEvalConcurrency c then (p # ps, s)
       else assign_loop c (Suc i) num_sends num_active ps s
     else if i < num_sends then assign_loop c (Suc i) num_sends num_active ps (launch_asynch_local c p s)
     else (p # ps, s))"

definition assign_asynch_local_queue ::
    "('r, 'w) app_config \<Rightarrow> 'r prp list \<Rightarrow> ('r, 'w) app_state \<Rightarrow> ('r prp list \<times> ('r, 'w) app_state) result" where
  "assign_asynch_local_queue c local_prp_queue s =
    (if asynchLocalActivePRPQueue s \<noteq> [] then Inl (Abort (-1))
     else let s1 = (if static_limited c then s\<lparr>localServerAssigned := replicate (static_servers c) False\<rparr> else s);
              num_jobs = length local_prp_queue;
              num_sends = (if asynchLocalEvalConcurrency c \<noteq> 0
                then min (asynchLocalEvalConcurrency c) num_jobs else num_jobs)
       in Inr (assign_loop c 0 num_sends 0 local_prp_queue s1))"

fun backfill_loop ::
    "('r, 'w) app_config \<Rightarrow> nat \<Rightarrow> nat \<Rightarrow> nat \<Rightarrow> 'r prp list \<Rightarrow> ('r, 'w) app_state \<Rightarrow>
      nat \<times> 'r prp list \<times> ('r, 'w) app_state" where
  "backfill_loop c completed i num_active [] s = (num_active, [], s)"
| "backfill_loop c completed i num_active (p # ps) s =
    (if static_limited c then
       if lookup_by_eval_id (eval_id p) (asynchLocalActivePRPQueue s) = None \<and>
          map_of (rawResponseMap s) (eval_id p) = None \<and>
          \<not> localServerAssigned s ! server_index c (eval_id p) then
         let s1 = launch_asynch_local c p (set_server c (eval_id p) True s) in
         if num_active + 1 = asynchLocalEvalConcurrency c then (num_active + 1, p # ps, s1)
         else backfill_loop c completed (Suc i) (num_active + 1) ps s1
       else backfill_loop c completed (Suc i) num_active ps s
     else if i < completed
       then backfill_loop c completed (Suc i) (num_active + 1) ps (launch_asynch_local c p s)
     else (num_active, p # ps, s))"

fun local_loop ::
    "nat \<Rightarrow> ('r, 'w) app_config \<Rightarrow> 'r prp list \<Rightarrow> nat \<Rightarrow> nat \<Rightarrow> 'r prp list \<Rightarrow> ('r, 'w) app_state \<Rightarrow>
      ('r, 'w) app_state result" where
  "local_loop fuel c local_prp_queue recv_cntr num_active local_prp_iter s =
    (if recv_cntr < length local_prp_queue then
       case fuel of
         0 \<Rightarrow> Inl OutOfFuel
       | Suc n \<Rightarrow>
           rbind (collect_completions (wait_local_evaluations c) s) (\<lambda>(completionSet, s1).
           rbind (rfold (process_asynch_local c) completionSet s1) (\<lambda>s2.
             let completed = length completionSet in
             case backfill_loop c completed 0 (num_active - completed)
                 (if static_limited c then local_prp_queue else local_prp_iter) s2 of
               (num_active', local_prp_iter', s3) \<Rightarrow>
                 local_loop n c local_prp_queue (recv_cntr + completed) num_active' local_prp_iter' s3))
     else Inr s)"

declare local_loop.simps [simp del]

definition asynchronous_local_evaluations ::
    "nat \<Rightarrow> ('r, 'w) app_config \<Rightarrow> 'r prp list \<Rightarrow> ('r, 'w) app_state \<Rightarrow> ('r, 'w) app_state result" where
  "asynchronous_local_evaluations fuel c local_prp_queue s =
    rbind (assign_asynch_local_queue c local_prp_queue s) (\<lambda>(local_prp_iter, s1).
      local_loop fuel c local_prp_queue 0 (length (asynchLocalActivePRPQueue s1)) local_prp_iter s1)"

section \<open>Nonblocking schedule\<close>

fun assign_nowait_loop ::
    "('r, 'w) app_config \<Rightarrow> nat \<Rightarrow> 'r prp list \<Rightarrow> ('r, 'w) app_state \<Rightarrow> 'r prp list \<times> ('r, 'w) app_state" where
  "assign_nowait_loop c num_active [] s = ([], s)"
| "assign_nowait_loop c num_active (p # ps) s =
    (if asynchLocalEvalConcurrency c \<noteq> 0 \<and> num_active \<ge> asynchLocalEvalConcurrency c then (p # ps, s)
     else if lookup_by_eval_id (eval_id p) (asynchLocalActivePRPQueue s) = None then
       if static_limited c then
         if \<not> localServerAssigned s ! server_index c (eval_id p) then
           assign_nowait_loop c (num_active + 1) ps (launch_asynch_local c p (set_server c (eval_id p) True s))
         else assign_nowait_loop c num_active ps s
       else assign_nowait_loop c (num_active + 1) ps (launch_asynch_local c p s)
     else assign_nowait_loop c num_active ps s)"

definition assign_asynch_local_queue_nowait ::
    "('r, 'w) app_config \<Rightarrow> 'r prp list \<Rightarrow> ('r, 'w) app_state \<Rightarrow> 'r prp list \<times> ('r, 'w) app_state" where
  "assign_asynch_local_queue_nowait c local_prp_queue s =
    (let s1 = (if static_limited c \<and> length (localServerAssigned s) \<noteq> static_servers c
               then s\<lparr>localServerAssigned := replicate (static_servers c) False\<rparr> else s)
     in assign_nowait_loop c (length (asynchLocalActivePRPQueue s)) local_prp_queue s1)"

fun test_backfill_loop ::
    "('r, 'w) app_config \<Rightarrow> nat \<Rightarrow> 'r prp list \<Rightarrow> ('r, 'w) app_state \<Rightarrow> 'r prp list \<times> ('r, 'w) app_state" where
  "test_backfill_loop c num_active [] s = ([], s)"
| "test_backfill_loop c num_active (p # ps) s =
    (if lookup_by_eval_id (eval_id p) (asynchLocalActivePRPQueue s) = None \<and>
        map_of (msgPassRunningMap s) (eval_id p) = None \<and>
        map_of (rawResponseMap s) (eval_id p) = None then
       if static_limited c \<and> localServerAssigned s ! server_index c (eval_id p)
       then test_backfill_loop c num_active ps s
       else
         let s1 = launch_asynch_local c p (if static_limited c then set_server c (eval_id p) True s else s) in
         if asynchLocalEvalConcurrency c \<noteq> 0 \<and> num_active + 1 \<ge> asynchLocalEvalConcurrency c then (ps, s1)
         else test_backfill_loop c (num_active + 1) ps s1
     else test_backfill_loop c num_active ps s)"

definition test_local_backfill ::
    "('r, 'w) app_config \<Rightarrow> 'r prp list \<Rightarrow> 'r prp list \<Rightarrow> ('r, 'w) app_state \<Rightarrow>
      (nat \<times> 'r prp list \<times> ('r, 'w) app_state) result" where
  "test_local_backfill c assign_queue assign_iter s =
    rbind (collect_completions (test_local_evaluations c) s) (\<lambda>(completionSet, s1).
    rbind (rfold (process_asynch_local c) completionSet s1) (\<lambda>s2.
      let completed = length completionSet in
      if completed \<noteq> 0 then
        Inr (completed, test_backfill_loop c (length (asynchLocalActivePRPQueue s2))
          (if static_limited c then assign_queue else assign_iter) s2)
      else Inr (completed, assign_iter, s2)))"

text \<open>The difference \<^verbatim>\<open>num_target - num_active\<close> is unsigned: it is nonzero unless both are equal.\<close>

definition asynchronous_local_evaluations_nowait ::
    "('r, 'w) app_config \<Rightarrow> 'r prp list \<Rightarrow> ('r, 'w) app_state \<Rightarrow> ('r, 'w) app_state result" where
  "asynchronous_local_evaluations_nowait c local_prp_queue s =
    (let num_jobs = length local_prp_queue;
         num_target = (if asynchLocalEvalConcurrency c \<noteq> 0
           then min (asynchLocalEvalConcurrency c) num_jobs else num_jobs);
         num_active = length (asynchLocalActivePRPQueue s);
         (local_prp_iter, s1) = (if num_target \<noteq> num_active
           then assign_asynch_local_queue_nowait c local_prp_queue s else (local_prp_queue, s))
     in rbind (test_local_backfill c local_prp_queue local_prp_iter s1) (\<lambda>(_, _, s2). Inr s2))"

section \<open>Synchronous schedule\<close>

definition synchronous_local_evaluation ::
    "nat \<Rightarrow> ('r, 'w) app_config \<Rightarrow> 'r prp \<Rightarrow> ('r::{zero, one, plus, minus, inverse, abs, ord}, 'w) app_state \<Rightarrow>
      ('r, 'w) app_state result" where
  "synchronous_local_evaluation fuel c p s =
    (let st = active_set_of (heap s) p; a = prpResponse p; s0 = s\<lparr>currEvalId := eval_id p\<rparr> in
     case call_derived_map c (prpVariables p) st a (eval_id p) s0 of
       (failed, s1) \<Rightarrow>
         rbind (if failed then manage_failure fuel c (prpVariables p) st a (eval_id p) s1 else Inr s1)
           (\<lambda>s2. Inr (process_synch_local c p s2)))"

definition synchronous_local_evaluations ::
    "nat \<Rightarrow> ('r, 'w) app_config \<Rightarrow> 'r prp list \<Rightarrow> ('r::{zero, one, plus, minus, inverse, abs, ord}, 'w) app_state \<Rightarrow>
      ('r, 'w) app_state result" where
  "synchronous_local_evaluations fuel c local_prp_queue =
    rfold (synchronous_local_evaluation fuel c) local_prp_queue"

section \<open>What a schedule keeps\<close>

text \<open>
  A schedule of the jobs \<open>q\<close> changes only the responses of these jobs and the entries of their
  evaluation ids; active sets stay, and a response that is sized for its request stays so.
\<close>

definition sched_frame :: "'r prp list \<Rightarrow> ('r, 'w) app_state \<Rightarrow> ('r, 'w) app_state \<Rightarrow> bool" where
  "sched_frame q s s' \<longleftrightarrow>
    beforeSynchCorePRPQueue s' = beforeSynchCorePRPQueue s \<and> beforeSynchAlgPRPQueue s' = beforeSynchAlgPRPQueue s \<and>
    historyDuplicateMap s' = historyDuplicateMap s \<and> beforeSynchDuplicateMap s' = beforeSynchDuplicateMap s \<and>
    cachedResponseMap s' = cachedResponseMap s \<and> evalIdCntr s' = evalIdCntr s \<and> nextRef s' = nextRef s \<and>
    algebraicData s' = algebraicData s \<and> msgPassRunningMap s' = msgPassRunningMap s \<and>
    msgBuffers s' = msgBuffers s \<and>
    (\<forall>a. a \<notin> prpResponse ` set q \<longrightarrow> resp_at s' a = resp_at s a) \<and>
    (\<forall>a. responseActiveSet (resp_at s' a) = responseActiveSet (resp_at s a)) \<and>
    (\<forall>a. resp_ready (resp_at s a) \<longrightarrow> resp_ready (resp_at s' a)) \<and>
    (\<forall>i. i \<notin> eval_id ` set q \<longrightarrow> map_of (rawResponseMap s') i = map_of (rawResponseMap s) i) \<and>
    set (data_pairs s) \<subseteq> set (data_pairs s') \<and> set (data_pairs s') \<subseteq> set (data_pairs s) \<union> set q"

lemma sched_frame_refl [simp]: "sched_frame q s s"
  by (simp add: sched_frame_def)

lemma sched_frame_trans: "sched_frame q s t \<Longrightarrow> sched_frame q t u \<Longrightarrow> sched_frame q s u"
  unfolding sched_frame_def by auto

lemma sched_frame_mono: "sched_frame q s t \<Longrightarrow> set q \<subseteq> set q' \<Longrightarrow> sched_frame q' s t"
  unfolding sched_frame_def by blast

abbreviation active :: "('r, 'w) app_state \<Rightarrow> 'r prp list" where
  "active s \<equiv> asynchLocalActivePRPQueue s"

lemma launch_simps [simp]:
  "active (launch_asynch_local c p s) = queue_insert p (active s)"
  "rawResponseMap (launch_asynch_local c p s) = rawResponseMap s"
  "localServerAssigned (launch_asynch_local c p s) = localServerAssigned s"
  "heap (launch_asynch_local c p s) = heap s"
  "sched_frame q s (launch_asynch_local c p s)"
  by (simp_all add: launch_asynch_local_def sched_frame_def)

lemma set_server_simps [simp]:
  "active (set_server c i b s) = active s"
  "rawResponseMap (set_server c i b s) = rawResponseMap s"
  "localServerAssigned (set_server c i b s) = (localServerAssigned s)[server_index c i := b]"
  "heap (set_server c i b s) = heap s"
  "sched_frame q s (set_server c i b s)"
  by (simp_all add: set_server_def sched_frame_def)

lemma record_pair_simps [simp]:
  "active (record_pair c p s) = active s"
  "rawResponseMap (record_pair c p s) = rawResponseMap s"
  "localServerAssigned (record_pair c p s) = localServerAssigned s"
  "heap (record_pair c p s) = heap s"
  "p \<in> set q \<Longrightarrow> sched_frame q s (record_pair c p s)"
  by (auto simp: record_pair_def write_restart_def Let_def sched_frame_def)

lemma server_index_less: "0 < static_servers c \<Longrightarrow> server_index c i < static_servers c"
  by (simp add: server_index_def)

section \<open>Completions\<close>

text \<open>
  The contract of \<^verbatim>\<open>wait_local_evaluations\<close>: called with running jobs, at least one and at most as many
  as the concurrency limit allows, it returns at least one completion; completions belong to
  running jobs, and the response of a completion has the active set of its job and is sized for
  it.  \<^verbatim>\<open>test_local_evaluations\<close> may return no completion, and may be called without running jobs.
\<close>

definition completions_valid :: "'r job list \<Rightarrow> (int \<times> 'r response) list \<Rightarrow> bool" where
  "completions_valid jobs done \<longleftrightarrow> (\<forall>(i, r) \<in> set done. resp_ready r \<and>
    (\<exists>v r0. (i, v, r0) \<in> set jobs \<and> responseActiveSet r = responseActiveSet r0))"

definition within_limit :: "('r, 'w) app_config \<Rightarrow> nat \<Rightarrow> bool" where
  "within_limit c n \<longleftrightarrow> asynchLocalEvalConcurrency c = 0 \<or> n \<le> asynchLocalEvalConcurrency c"

definition wait_contract :: "('r, 'w) app_config \<Rightarrow> bool" where
  "wait_contract c \<longleftrightarrow> (\<forall>jobs w. jobs \<noteq> [] \<longrightarrow> within_limit c (length jobs) \<longrightarrow>
    (\<exists>done w'. wait_local_evaluations c jobs w = Inr (done, w') \<and> done \<noteq> [] \<and> completions_valid jobs done))"

definition test_contract :: "('r, 'w) app_config \<Rightarrow> bool" where
  "test_contract c \<longleftrightarrow> (\<forall>jobs w. within_limit c (length jobs) \<longrightarrow>
    (\<exists>done w'. test_local_evaluations c jobs w = Inr (done, w') \<and> completions_valid jobs done))"

lemma store_completions:
  assumes "queue_ok (active s)" "set (active s) \<subseteq> set q" "completions_valid jobs done"
    and "\<And>i v r0. (i, v, r0) \<in> set jobs \<Longrightarrow> \<exists>p \<in> set (active s). eval_id p = i \<and>
      responseActiveSet r0 = responseActiveSet (resp_at s (prpResponse p))"
  shows "let s' = foldl (\<lambda>s e. store_completion e s) s done in
    active s' = active s \<and> rawResponseMap s' = rawResponseMap s \<and>
    localServerAssigned s' = localServerAssigned s \<and> sched_frame q s s'"
  using assms
proof (induction "done" arbitrary: s)
  case (Cons e es)
  obtain i r where e: "e = (i, r)" by (cases e)
  have valid: "resp_ready r" "completions_valid jobs es" using Cons.prems(3) by (auto simp: completions_valid_def e)
  obtain v r0 where "(i, v, r0) \<in> set jobs" "responseActiveSet r = responseActiveSet r0"
    using Cons.prems(3) by (auto simp: completions_valid_def e)
  then obtain p where p: "p \<in> set (active s)" "eval_id p = i"
    "responseActiveSet r = responseActiveSet (resp_at s (prpResponse p))" using Cons.prems(4) by metis
  then have "lookup_by_eval_id i (active s) = Some p" using queue.look_iff [OF Cons.prems(1)] by simp
  then have st: "store_completion e s = set_response (prpResponse p) r s" by (simp add: store_completion_def e)
  have fr: "sched_frame q s (store_completion e s)"
    using p valid Cons.prems(2) by (auto simp: st sched_frame_def set_response_def)
  have sel: "active (store_completion e s) = active s" "rawResponseMap (store_completion e s) = rawResponseMap s"
    "localServerAssigned (store_completion e s) = localServerAssigned s"
    by (simp_all add: st set_response_def)
  have "responseActiveSet (resp_at (store_completion e s) a) = responseActiveSet (resp_at s a)" for a
    using fr by (simp add: sched_frame_def)
  then show ?case
    using Cons.IH [of "store_completion e s"] Cons.prems valid(2) sched_frame_trans [OF fr] by (simp add: sel Let_def)
qed (simp add: Let_def)

text \<open>Collecting completions leaves the queues alone and yields ids of running jobs.\<close>

lemma collect_completions_ok:
  assumes "queue_ok (active s)" "set (active s) \<subseteq> set q"
    and "wait (map (job_of s) (active s)) (world s) = Inr (done, w)"
    and "completions_valid (map (job_of s) (active s)) done"
  shows "\<exists>s1. collect_completions wait s = Inr (remdups (sort (map fst done)), s1) \<and>
    active s1 = active s \<and> rawResponseMap s1 = rawResponseMap s \<and>
    localServerAssigned s1 = localServerAssigned s \<and> sched_frame q s s1 \<and>
    fst ` set done \<subseteq> eval_id ` set (active s)"
proof -
  let ?t = "foldl (\<lambda>s e. store_completion e s) s done"
  have t: "active ?t = active s" "rawResponseMap ?t = rawResponseMap s"
      "localServerAssigned ?t = localServerAssigned s" "sched_frame q s ?t"
    using store_completions [OF assms(1,2,4)] by (auto simp: job_of_def Let_def)
  have "sched_frame q s (?t\<lparr>world := w\<rparr>)" using t(4) by (simp add: sched_frame_def)
  moreover have "fst ` set done \<subseteq> eval_id ` set (active s)"
    using assms(4) by (fastforce simp: completions_valid_def job_of_def)
  ultimately show ?thesis using assms(3) t by (auto simp: collect_completions_def)
qed

section \<open>The bookkeeping invariant\<close>

text \<open>With a static schedule, the servers marked busy are exactly those of the running jobs, and no
  two running jobs share a server.\<close>

definition servers_ok :: "('r, 'w) app_config \<Rightarrow> ('r, 'w) app_state \<Rightarrow> bool" where
  "servers_ok c s \<longleftrightarrow> length (localServerAssigned s) = static_servers c \<and>
    inj_on (\<lambda>p. server_index c (eval_id p)) (set (active s)) \<and>
    (\<forall>k < static_servers c. localServerAssigned s ! k \<longleftrightarrow> (\<exists>p \<in> set (active s). server_index c (eval_id p) = k))"

text \<open>
  Jobs of \<open>q\<close> are running (in the active queue), done (in the response map, with their own response)
  or waiting, and not two of these at once.
\<close>

definition jobs_ok :: "'r prp list \<Rightarrow> ('r, 'w) app_state \<Rightarrow> bool" where
  "jobs_ok q s \<longleftrightarrow> queue_ok (active s) \<and> set (active s) \<subseteq> set q \<and>
    (\<forall>p \<in> set (active s). map_of (rawResponseMap s) (eval_id p) = None) \<and>
    (\<forall>p \<in> set q. \<forall>a. map_of (rawResponseMap s) (eval_id p) = Some a \<longrightarrow> a = prpResponse p)"

definition finished :: "'r prp list \<Rightarrow> ('r, 'w) app_state \<Rightarrow> 'r prp list" where
  "finished q s = filter (\<lambda>p. map_of (rawResponseMap s) (eval_id p) \<noteq> None) q"

definition waiting :: "'r prp list \<Rightarrow> ('r, 'w) app_state \<Rightarrow> 'r prp list" where
  "waiting q s = filter (\<lambda>p. lookup_by_eval_id (eval_id p) (active s) = None \<and>
     map_of (rawResponseMap s) (eval_id p) = None) q"

lemma queue_ok_distinct: "queue_ok q \<Longrightarrow> distinct q"
  by (auto simp: queue_ok_def uidx_ok_def distinct_map)

lemma queue_ok_filter: "queue_ok q \<Longrightarrow> queue_ok (filter P q)"
  by (auto simp: queue_ok_def uidx_ok_def distinct_map_filter sorted_filter)

text \<open>Every job is accounted for.\<close>

lemma jobs_partition:
  assumes q: "queue_ok q" and j: "jobs_ok q s"
  shows "length q = length (finished q s) + length (active s) + length (waiting q s)"
proof -
  have run: "lookup_by_eval_id (eval_id p) (active s) \<noteq> None \<longleftrightarrow> p \<in> set (active s)" if "p \<in> set q" for p
  proof
    assume "lookup_by_eval_id (eval_id p) (active s) \<noteq> None"
    then obtain x where x: "x \<in> set (active s)" "eval_id x = eval_id p" by (auto simp: queue.look_None)
    moreover from this have "x \<in> set q" using j by (auto simp: jobs_ok_def)
    ultimately have "x = p" using queue.unique [OF q _ that] by blast
    then show "p \<in> set (active s)" using x by simp
  qed (simp add: queue.look_None)
  have "set (active s) = set (filter (\<lambda>p. p \<in> set (active s)) q)" using j by (auto simp: jobs_ok_def)
  moreover have "distinct (active s)" "distinct (filter (\<lambda>p. p \<in> set (active s)) q)"
    using j q by (auto simp: jobs_ok_def dest: queue_ok_distinct)
  ultimately have a: "length (active s) = length (filter (\<lambda>p. p \<in> set (active s)) q)"
    by (metis distinct_card)
  have f: "finished q s = filter (\<lambda>p. p \<notin> set (active s) \<and> map_of (rawResponseMap s) (eval_id p) \<noteq> None) q"
    using j by (auto simp: finished_def jobs_ok_def intro!: filter_cong)
  have w: "waiting q s = filter (\<lambda>p. p \<notin> set (active s) \<and> map_of (rawResponseMap s) (eval_id p) = None) q"
    unfolding waiting_def by (rule filter_cong [OF refl]) (metis run)
  have "length (filter A xs) + length (filter (\<lambda>p. \<not> A p \<and> B p) xs) + length (filter (\<lambda>p. \<not> A p \<and> \<not> B p) xs) = length xs"
    for A B :: "'a prp \<Rightarrow> bool" and xs by (induction xs) auto
  from this [of "\<lambda>p. p \<in> set (active s)" q "\<lambda>p. map_of (rawResponseMap s) (eval_id p) \<noteq> None"]
  show ?thesis unfolding a f w by simp
qed

lemma all_finished:
  assumes q: "queue_ok q" and j: "jobs_ok q s" and n: "length (finished q s) \<ge> length q"
  shows "active s = [] \<and> (\<forall>p \<in> set q. map_of (rawResponseMap s) (eval_id p) = Some (prpResponse p))"
proof -
  have "length (finished q s) = length q" "active s = []" using jobs_partition [OF q j] n by auto
  then have "map_of (rawResponseMap s) (eval_id p) \<noteq> None" if "p \<in> set q" for p
    unfolding finished_def using that length_filter_less [of p q "\<lambda>p. map_of (rawResponseMap s) (eval_id p) \<noteq> None"]
    by fastforce
  then show ?thesis using j \<open>active s = []\<close> by (fastforce simp: jobs_ok_def)
qed

text \<open>Completing one running job.\<close>

lemma process_step:
  assumes j: "jobs_ok q s" and i: "i \<in> eval_id ` set (active s)"
  shows "\<exists>s' p. process_asynch_local c i s = Inr s' \<and> p \<in> set (active s) \<and> eval_id p = i \<and>
    active s' = queue_erase i (active s) \<and>
    map_of (rawResponseMap s') = (map_of (rawResponseMap s))(i \<mapsto> prpResponse p) \<and>
    localServerAssigned s' = (if static_limited c then (localServerAssigned s)[server_index c i := False]
      else localServerAssigned s) \<and>
    sched_frame q s s'"
proof -
  obtain p where p: "lookup_by_eval_id i (active s) = Some p" "p \<in> set (active s)" "eval_id p = i"
    using queue.look_present [OF i] by blast
  have pq: "p \<in> set q" using p(2) j by (auto simp: jobs_ok_def)
  let ?s0 = "s\<lparr>rawResponseMap := map_assign i (prpResponse p) (rawResponseMap s)\<rparr>"
  let ?s1 = "record_pair c p ?s0"
  let ?s2 = "?s1\<lparr>asynchLocalActivePRPQueue := queue_erase i (active ?s1)\<rparr>"
  let ?s3 = "if static_limited c then set_server c i False ?s2 else ?s2"
  have "sched_frame q s ?s0" using pq p(3) by (auto simp: sched_frame_def)
  moreover have "sched_frame q ?s0 ?s1" using pq by simp
  moreover have "sched_frame q ?s1 ?s2" by (simp add: sched_frame_def)
  moreover have "sched_frame q ?s2 ?s3" by simp
  ultimately have "sched_frame q s ?s3" by (blast intro: sched_frame_trans)
  moreover have "process_asynch_local c i s = Inr ?s3" using p by (simp add: process_asynch_local_def Let_def)
  ultimately show ?thesis using p by (intro exI [of _ ?s3] exI [of _ p]) simp
qed

lemma process_step_ok:
  assumes q: "queue_ok q" and j: "jobs_ok q s" and i: "i \<in> eval_id ` set (active s)"
    and sv: "static_limited c \<longrightarrow> servers_ok c s \<and> 0 < static_servers c"
  shows "\<exists>s'. process_asynch_local c i s = Inr s' \<and> jobs_ok q s' \<and> (static_limited c \<longrightarrow> servers_ok c s') \<and>
    active s' = queue_erase i (active s) \<and> waiting q s' = waiting q s \<and> sched_frame q s s'"
proof -
  obtain s' p where s': "process_asynch_local c i s = Inr s'" "p \<in> set (active s)" "eval_id p = i"
    "active s' = queue_erase i (active s)"
    "map_of (rawResponseMap s') = (map_of (rawResponseMap s))(i \<mapsto> prpResponse p)"
    "localServerAssigned s' = (if static_limited c then (localServerAssigned s)[server_index c i := False]
      else localServerAssigned s)" "sched_frame q s s'"
    using process_step [OF j i] by blast
  have aok: "queue_ok (active s)" and sub: "set (active s) \<subseteq> set q" using j by (auto simp: jobs_ok_def)
  have "jobs_ok q s'"
    unfolding jobs_ok_def s'(4,5)
  proof (intro conjI ballI allI impI)
    show "queue_ok (queue_erase i (active s))" by (rule queue.ok_del [OF aok])
    show "set (queue_erase i (active s)) \<subseteq> set q" using sub by (auto simp: queue.elems_del)
    show "((map_of (rawResponseMap s))(i \<mapsto> prpResponse p)) (eval_id x) = None" if "x \<in> set (queue_erase i (active s))" for x
      using that j by (simp add: queue.elems_del jobs_ok_def)
    show "a = prpResponse x" if "x \<in> set q" "((map_of (rawResponseMap s))(i \<mapsto> prpResponse p)) (eval_id x) = Some a" for x a
    proof (cases "eval_id x = i")
      case True
      then have "x = p" using queue.unique [OF q that(1)] sub s'(2,3) by auto
      then show ?thesis using that(2) True by simp
    next
      case False
      then show ?thesis using that j by (simp add: jobs_ok_def)
    qed
  qed
  moreover have "waiting q s' = waiting q s"
    unfolding waiting_def
  proof (rule filter_cong [OF refl])
    fix x assume "x \<in> set q"
    show "(lookup_by_eval_id (eval_id x) (active s') = None \<and> map_of (rawResponseMap s') (eval_id x) = None) =
      (lookup_by_eval_id (eval_id x) (active s) = None \<and> map_of (rawResponseMap s) (eval_id x) = None)"
      unfolding s'(4,5) using i by (auto simp: queue.look_None queue.elems_del)
  qed
  moreover have "servers_ok c s'" if "static_limited c"
  proof -
    have ok: "servers_ok c s" "server_index c i < static_servers c"
      using sv that server_index_less by auto
    have other: "server_index c (eval_id x) \<noteq> server_index c i" if "x \<in> set (active s)" "eval_id x \<noteq> i" for x
      using ok(1) that s'(2,3) by (auto simp: servers_ok_def dest!: inj_onD)
    have "inj_on (\<lambda>p. server_index c (eval_id p)) (set (queue_erase i (active s)))"
      using ok(1) by (auto simp: servers_ok_def queue.elems_del intro: inj_on_subset)
    moreover have "localServerAssigned s' ! k \<longleftrightarrow> (\<exists>p \<in> set (queue_erase i (active s)). server_index c (eval_id p) = k)"
      if k: "k < static_servers c" for k
    proof (cases "k = server_index c i")
      case True
      then show ?thesis using ok other that by (auto simp: s'(6) servers_ok_def queue.elems_del \<open>static_limited c\<close>)
    next
      case False
      then show ?thesis using ok that s'(3) by (auto simp: s'(6) servers_ok_def queue.elems_del)
    qed
    moreover have "length (localServerAssigned s') = static_servers c" using ok(1) by (simp add: s'(6) servers_ok_def)
    ultimately show ?thesis unfolding servers_ok_def s'(4) by blast
  qed
  ultimately show ?thesis using s' by blast
qed

section \<open>Steps of a schedule\<close>

text \<open>The state of a schedule: consistent bookkeeping, and no more running jobs than allowed.\<close>

definition sched_ok :: "('r, 'w) app_config \<Rightarrow> 'r prp list \<Rightarrow> ('r, 'w) app_state \<Rightarrow> bool" where
  "sched_ok c q s \<longleftrightarrow> jobs_ok q s \<and> (static_limited c \<longrightarrow> servers_ok c s) \<and> within_limit c (length (active s))"

definition servers_exist :: "('r, 'w) app_config \<Rightarrow> bool" where
  "servers_exist c \<longleftrightarrow> (static_limited c \<longrightarrow> 0 < static_servers c)"

lemma length_queue_erase: "queue_ok q \<Longrightarrow> i \<in> eval_id ` set q \<Longrightarrow> length (queue_erase i q) = length q - 1"
  unfolding queue_ok_def queue_erase_def by (simp add: length_uidx_erase)

lemma length_queue_insert: "lookup_by_eval_id (eval_id p) q = None \<Longrightarrow> length (queue_insert p q) = Suc (length q)"
  unfolding queue_insert_def lookup_by_eval_id_def by (simp add: length_uidx_insert uidx_find_None)

text \<open>All reported completions are processed.\<close>

lemma process_all:
  assumes q: "queue_ok q" and c: "servers_exist c"
    and "jobs_ok q s" "static_limited c \<longrightarrow> servers_ok c s" "set ids \<subseteq> eval_id ` set (active s)" "distinct ids"
  shows "\<exists>s'. rfold (process_asynch_local c) ids s = Inr s' \<and> jobs_ok q s' \<and>
    (static_limited c \<longrightarrow> servers_ok c s') \<and> length (active s') + length ids = length (active s) \<and>
    waiting q s' = waiting q s \<and> sched_frame q s s'"
  using assms(3-)
proof (induction ids arbitrary: s)
  case Nil
  then show ?case by simp
next
  case (Cons i ids)
  have i: "i \<in> eval_id ` set (active s)" using Cons.prems(3) by simp
  obtain s1 where s1: "process_asynch_local c i s = Inr s1" "jobs_ok q s1" "static_limited c \<longrightarrow> servers_ok c s1"
      "active s1 = queue_erase i (active s)" "waiting q s1 = waiting q s" "sched_frame q s s1"
    using process_step_ok [OF q Cons.prems(1) i, of c] Cons.prems(2) c by (auto simp: servers_exist_def)
  have aok: "queue_ok (active s)" using Cons.prems(1) by (simp add: jobs_ok_def)
  have "set ids \<subseteq> eval_id ` set (active s1)"
    unfolding s1(4) queue.keys_del using Cons.prems(3,4) by auto
  then obtain s2 where "rfold (process_asynch_local c) ids s1 = Inr s2" "jobs_ok q s2" "static_limited c \<longrightarrow> servers_ok c s2"
      "length (active s2) + length ids = length (active s1)" "waiting q s2 = waiting q s1" "sched_frame q s1 s2"
    using Cons.IH [OF s1(2,3)] Cons.prems(4) by auto
  moreover have "length (active s) \<noteq> 0" using i by auto
  ultimately show ?case
    using s1 length_queue_erase [OF aok i] by (auto intro: sched_frame_trans)
qed

text \<open>One waiting job is launched.\<close>

definition launch :: "('r, 'w) app_config \<Rightarrow> 'r prp \<Rightarrow> ('r, 'w) app_state \<Rightarrow> ('r, 'w) app_state" where
  "launch c p s = launch_asynch_local c p (if static_limited c then set_server c (eval_id p) True s else s)"

lemma waiting_subset: "p \<in> set (waiting q s) \<Longrightarrow> p \<in> set q"
  by (simp add: waiting_def)

lemma jobs_ok_launch:
  assumes q: "queue_ok q" and j: "jobs_ok q s" and p: "p \<in> set (waiting q s)"
  shows "jobs_ok q (launch c p s)" "length (active (launch c p s)) = Suc (length (active s))"
    "waiting q (launch c p s) = filter (\<lambda>x. x \<noteq> p) (waiting q s)" "sched_frame q s (launch c p s)"
proof -
  have a: "active (launch c p s) = queue_insert p (active s)" "rawResponseMap (launch c p s) = rawResponseMap s"
    by (simp_all add: launch_def)
  have p': "p \<in> set q" "lookup_by_eval_id (eval_id p) (active s) = None" "map_of (rawResponseMap s) (eval_id p) = None"
    using p by (auto simp: waiting_def)
  have aok: "queue_ok (active s)" using j by (simp add: jobs_ok_def)
  have els: "set (queue_insert p (active s)) = insert p (set (active s))"
    using p'(2) by (simp add: queue.elems_ins queue.look_None)
  show "jobs_ok q (launch c p s)"
    unfolding jobs_ok_def a using j p' queue.ok_ins [OF aok, of p] by (auto simp: els jobs_ok_def)
  show "length (active (launch c p s)) = Suc (length (active s))"
    unfolding a using p'(2) by (rule length_queue_insert)
  show "waiting q (launch c p s) = filter (\<lambda>x. x \<noteq> p) (waiting q s)"
    unfolding waiting_def a filter_filter
  proof (rule filter_cong [OF refl])
    fix x assume x: "x \<in> set q"
    have "eval_id x = eval_id p \<longleftrightarrow> x = p" using queue.unique [OF q x p'(1)] by auto
    then show "(lookup_by_eval_id (eval_id x) (queue_insert p (active s)) = None \<and> map_of (rawResponseMap s) (eval_id x) = None) \<longleftrightarrow>
      (lookup_by_eval_id (eval_id x) (active s) = None \<and> map_of (rawResponseMap s) (eval_id x) = None) \<and> x \<noteq> p"
      by (auto simp: queue.look_None els)
  qed
  show "sched_frame q s (launch c p s)"
    unfolding launch_def by (rule sched_frame_trans [OF _ launch_simps(5)]) simp
qed

lemma servers_ok_launch:
  assumes "static_limited c" "servers_ok c s" "0 < static_servers c"
    and "\<not> localServerAssigned s ! server_index c (eval_id p)" "lookup_by_eval_id (eval_id p) (active s) = None"
  shows "servers_ok c (launch c p s)"
proof -
  have els: "set (active (launch c p s)) = insert p (set (active s))"
    using assms(5) by (simp add: launch_def queue.elems_ins queue.look_None)
  have lsa: "localServerAssigned (launch c p s) = (localServerAssigned s)[server_index c (eval_id p) := True]"
    using assms(1) by (simp add: launch_def)
  have k: "server_index c (eval_id p) < static_servers c" by (rule server_index_less [OF assms(3)])
  have free: "server_index c (eval_id x) \<noteq> server_index c (eval_id p)" if "x \<in> set (active s)" for x
    using assms(2,4) k that by (auto simp: servers_ok_def)
  have inj: "inj_on (\<lambda>p. server_index c (eval_id p)) (insert p (set (active s)))"
  proof (rule inj_onI)
    fix x y assume "x \<in> insert p (set (active s))" "y \<in> insert p (set (active s))"
      and e: "server_index c (eval_id x) = server_index c (eval_id y)"
    then consider "x = p" "y = p" | "x = p" "y \<in> set (active s)" | "y = p" "x \<in> set (active s)"
      | "x \<in> set (active s)" "y \<in> set (active s)" by blast
    then show "x = y"
      using e free [of x] free [of y] assms(2) by cases (auto simp: servers_ok_def dest: inj_onD)
  qed
  moreover have "(localServerAssigned s)[server_index c (eval_id p) := True] ! n \<longleftrightarrow>
      (\<exists>x \<in> insert p (set (active s)). server_index c (eval_id x) = n)" if "n < static_servers c" for n
    using assms(2) k that by (cases "n = server_index c (eval_id p)") (auto simp: servers_ok_def)
  ultimately show ?thesis using assms(2) unfolding servers_ok_def els lsa by simp
qed

text \<open>The loops in terms of \<open>launch\<close>.\<close>

lemma assign_loop_launch:
  "\<not> static_limited c \<Longrightarrow> assign_loop c i n m (p # ps) s =
    (if i < n then assign_loop c (Suc i) n m ps (launch c p s) else (p # ps, s))"
  "static_limited c \<Longrightarrow> assign_loop c i n m (p # ps) s =
    (if \<not> localServerAssigned s ! server_index c (eval_id p) then
       if m + 1 = asynchLocalEvalConcurrency c then (p # ps, launch c p s)
       else assign_loop c (Suc i) n (m + 1) ps (launch c p s)
     else if m = asynchLocalEvalConcurrency c then (p # ps, s)
     else assign_loop c (Suc i) n m ps s)"
  by (simp_all add: launch_def Let_def)

lemma backfill_loop_launch:
  "\<not> static_limited c \<Longrightarrow> backfill_loop c k i m (p # ps) s =
    (if i < k then backfill_loop c k (Suc i) (m + 1) ps (launch c p s) else (m, p # ps, s))"
  "static_limited c \<Longrightarrow> backfill_loop c k i m (p # ps) s =
    (if (lookup_by_eval_id (eval_id p) (active s) = None \<and> map_of (rawResponseMap s) (eval_id p) = None) \<and>
        \<not> localServerAssigned s ! server_index c (eval_id p) then
       if m + 1 = asynchLocalEvalConcurrency c then (m + 1, p # ps, launch c p s)
       else backfill_loop c k (Suc i) (m + 1) ps (launch c p s)
     else backfill_loop c k (Suc i) m ps s)"
  by (simp_all add: launch_def Let_def)

declare assign_loop.simps(2) [simp del] backfill_loop.simps(2) [simp del]

text \<open>Without a static schedule, both passes launch a prefix of the waiting jobs.\<close>

lemma waiting_Cons:
  assumes "queue_ok q" "waiting q s = p # ps"
  shows "filter (\<lambda>x. x \<noteq> p) (waiting q s) = ps"
proof -
  have "distinct (waiting q s)" using queue_ok_distinct [OF assms(1)] by (simp add: waiting_def)
  then have "p \<notin> set ps" by (simp add: assms(2))
  then have "filter (\<lambda>x. x \<noteq> p) ps = ps" by (intro filter_True) auto
  then show ?thesis by (simp add: assms(2))
qed

lemma launch_head:
  assumes "queue_ok q" "jobs_ok q s" "waiting q s = p # ps"
  shows "jobs_ok q (launch c p s)" "length (active (launch c p s)) = Suc (length (active s))"
    "waiting q (launch c p s) = ps" "sched_frame q s (launch c p s)"
  using jobs_ok_launch [OF assms(1,2), of p c] waiting_Cons [OF assms(1,3)] assms(3) by auto

lemma assign_loop_dynamic:
  assumes "queue_ok q" "\<not> static_limited c" "jobs_ok q s" "waiting q s = ps" "i \<le> n"
  shows "\<exists>s'. assign_loop c i n m ps s = (waiting q s', s') \<and> jobs_ok q s' \<and> sched_frame q s s' \<and>
    length (active s') = length (active s) + min (n - i) (length ps)"
  using assms(3-)
proof (induction ps arbitrary: i s)
  case Nil
  then show ?case by auto
next
  case (Cons p ps)
  show ?case
  proof (cases "i < n")
    case True
    note l = launch_head [OF assms(1) Cons.prems(1,2), of c]
    obtain s' where "assign_loop c (Suc i) n m ps (launch c p s) = (waiting q s', s')" "jobs_ok q s'"
        "sched_frame q (launch c p s) s'" "length (active s') = length (active (launch c p s)) + min (n - Suc i) (length ps)"
      using Cons.IH [OF l(1,3), of "Suc i"] True by auto
    then show ?thesis using True assms(2) l by (auto simp: assign_loop_launch backfill_loop_launch intro: sched_frame_trans)
  next
    case False
    then show ?thesis using Cons.prems assms(2) by (auto simp: assign_loop_launch backfill_loop_launch)
  qed
qed

lemma backfill_loop_dynamic:
  assumes "queue_ok q" "\<not> static_limited c" "jobs_ok q s" "waiting q s = ps" "i \<le> n"
  shows "\<exists>s'. backfill_loop c n i m ps s = (m + min (n - i) (length ps), waiting q s', s') \<and> jobs_ok q s' \<and>
    sched_frame q s s' \<and> length (active s') = length (active s) + min (n - i) (length ps)"
  using assms(3-)
proof (induction ps arbitrary: i m s)
  case Nil
  then show ?case by auto
next
  case (Cons p ps)
  show ?case
  proof (cases "i < n")
    case True
    note l = launch_head [OF assms(1) Cons.prems(1,2), of c]
    obtain s' where "backfill_loop c n (Suc i) (m + 1) ps (launch c p s) =
          (m + 1 + min (n - Suc i) (length ps), waiting q s', s')" "jobs_ok q s'"
        "sched_frame q (launch c p s) s'" "length (active s') = length (active (launch c p s)) + min (n - Suc i) (length ps)"
      using Cons.IH [OF l(1,3), of "Suc i" "m + 1"] True by auto
    then show ?thesis using True assms(2) l by (auto simp: assign_loop_launch backfill_loop_launch intro: sched_frame_trans)
  next
    case False
    then show ?thesis using Cons.prems assms(2) by (auto simp: assign_loop_launch backfill_loop_launch)
  qed
qed

text \<open>With a static schedule, both passes launch waiting jobs on free servers up to the limit, and
  launch something if nothing is running and something waits.\<close>

lemma launch_static:
  assumes "queue_ok q" "servers_exist c" "static_limited c" "jobs_ok q s" "servers_ok c s"
    and "p \<in> set (waiting q s)" "\<not> localServerAssigned s ! server_index c (eval_id p)"
  shows "jobs_ok q (launch c p s)" "servers_ok c (launch c p s)" "length (active (launch c p s)) = Suc (length (active s))"
    "waiting q (launch c p s) = filter (\<lambda>x. x \<noteq> p) (waiting q s)" "sched_frame q s (launch c p s)"
  using jobs_ok_launch [OF assms(1,4,6), of c] servers_ok_launch [OF assms(3,5) _ assms(7)] assms(2,3,6)
  by (auto simp: servers_exist_def waiting_def)

lemma free_server:
  assumes "servers_exist c" "static_limited c" "servers_ok c s" "active s = []"
  shows "\<not> localServerAssigned s ! server_index c i"
  using assms server_index_less [of c i] by (auto simp: servers_exist_def servers_ok_def)

lemma assign_loop_static:
  assumes "queue_ok q" "servers_exist c" "static_limited c"
    and "jobs_ok q s" "servers_ok c s" "set ps \<subseteq> set (waiting q s)" "distinct ps"
    and "length (active s) < asynchLocalEvalConcurrency c" "m = length (active s)"
  shows "\<exists>it s'. assign_loop c i n m ps s = (it, s') \<and> jobs_ok q s' \<and> servers_ok c s' \<and> sched_frame q s s' \<and>
    length (active s') \<le> asynchLocalEvalConcurrency c \<and> (active s' = [] \<longrightarrow> ps = [])"
  using assms(4-)
proof (induction ps arbitrary: i m s)
  case Nil
  then show ?case by auto
next
  case (Cons p ps)
  show ?case
  proof (cases "localServerAssigned s ! server_index c (eval_id p)")
    case False
    have p: "p \<in> set (waiting q s)" using Cons.prems(3) by simp
    note l = launch_static [OF assms(1-3) Cons.prems(1,2) p False]
    have ps: "set ps \<subseteq> set (waiting q (launch c p s))" using Cons.prems(3,4) by (auto simp: l(4))
    have ne: "active (launch c p s) \<noteq> []" using l(3) by auto
    show ?thesis
    proof (cases "m + 1 = asynchLocalEvalConcurrency c")
      case True
      then show ?thesis using False assms(3) l ne Cons.prems(6) by (auto simp: assign_loop_launch backfill_loop_launch)
    next
      case m: False
      obtain it s' where s': "assign_loop c (Suc i) n (m + 1) ps (launch c p s) = (it, s')" "jobs_ok q s'" "servers_ok c s'"
          "sched_frame q (launch c p s) s'" "length (active s') \<le> asynchLocalEvalConcurrency c"
          "active s' = [] \<longrightarrow> ps = []"
        using Cons.IH [OF l(1,2) ps, of "m + 1" "Suc i"] Cons.prems(4-6) m l(3) by auto
      moreover have "active s' \<noteq> []" if "ps = []" using s'(1) ne that by auto
      ultimately show ?thesis using False m assms(3) l(5) by (auto simp: assign_loop_launch backfill_loop_launch intro: sched_frame_trans)
    qed
  next
    case True
    then have "active s \<noteq> []" using free_server [OF assms(2,3) Cons.prems(2)] by blast
    moreover obtain it s' where s': "assign_loop c (Suc i) n m ps s = (it, s')" "jobs_ok q s'" "servers_ok c s'"
        "sched_frame q s s'" "length (active s') \<le> asynchLocalEvalConcurrency c" "active s' = [] \<longrightarrow> ps = []"
      using Cons.IH [OF Cons.prems(1,2), of m "Suc i"] Cons.prems by auto
    moreover have "active s' \<noteq> []" if "ps = []" using s'(1) that calculation(1) by auto
    ultimately show ?thesis using True Cons.prems assms(3) by (auto simp: assign_loop_launch)
  qed
qed

lemma backfill_loop_static:
  assumes "queue_ok q" "servers_exist c" "static_limited c"
    and "jobs_ok q s" "servers_ok c s" "set ps \<subseteq> set q"
    and "length (active s) < asynchLocalEvalConcurrency c" "m = length (active s)"
  shows "\<exists>it s'. backfill_loop c k i m ps s = (length (active s'), it, s') \<and> jobs_ok q s' \<and> servers_ok c s' \<and>
    sched_frame q s s' \<and> length (active s') \<le> asynchLocalEvalConcurrency c \<and> length (active s) \<le> length (active s') \<and>
    (active s' = [] \<longrightarrow> s' = s \<and> set ps \<inter> set (waiting q s) = {})"
  using assms(4-)
proof (induction ps arbitrary: i m s)
  case Nil
  then show ?case by auto
next
  case (Cons p ps)
  let ?free = "lookup_by_eval_id (eval_id p) (active s) = None \<and> map_of (rawResponseMap s) (eval_id p) = None"
  show ?case
  proof (cases "?free \<and> \<not> localServerAssigned s ! server_index c (eval_id p)")
    case True
    then have p: "p \<in> set (waiting q s)" using Cons.prems(3) by (auto simp: waiting_def)
    note l = launch_static [OF assms(1-3) Cons.prems(1,2) p conjunct2 [OF True]]
    show ?thesis
    proof (cases "m + 1 = asynchLocalEvalConcurrency c")
      case m: True
      then show ?thesis using True assms(3) l Cons.prems(5) by (auto simp: assign_loop_launch backfill_loop_launch)
    next
      case m: False
      obtain it s' where "backfill_loop c k (Suc i) (m + 1) ps (launch c p s) = (length (active s'), it, s')"
          "jobs_ok q s'" "servers_ok c s'" "sched_frame q (launch c p s) s'"
          "length (active s') \<le> asynchLocalEvalConcurrency c" "length (active (launch c p s)) \<le> length (active s')"
        using Cons.IH [OF l(1,2), of "m + 1" "Suc i"] Cons.prems(3-5) m l(3) by auto
      moreover from this have "active s' \<noteq> []" using l(3) by auto
      ultimately show ?thesis using True m assms(3) l(3,5) by (auto simp: assign_loop_launch backfill_loop_launch intro: sched_frame_trans)
    qed
  next
    case False
    have p: "p \<notin> set (waiting q s)" if "active s = []"
      using False free_server [OF assms(2,3) Cons.prems(2) that] by (auto simp: waiting_def)
    obtain it s' where "backfill_loop c k (Suc i) m ps s = (length (active s'), it, s')" "jobs_ok q s'" "servers_ok c s'"
        "sched_frame q s s'" "length (active s') \<le> asynchLocalEvalConcurrency c" "length (active s) \<le> length (active s')"
        "active s' = [] \<longrightarrow> s' = s \<and> set ps \<inter> set (waiting q s) = {}"
      using Cons.IH [OF Cons.prems(1,2), of m "Suc i"] Cons.prems by auto
    moreover from this have "active s = []" if "active s' = []" using that by auto
    ultimately show ?thesis using False p assms(3) by (auto simp: backfill_loop_launch)
  qed
qed

section \<open>The blocking schedule completes every job\<close>

lemma raw_assign_loop: "rawResponseMap (snd (assign_loop c i n m ps s)) = rawResponseMap s"
proof (induction ps arbitrary: i m s)
  case (Cons p ps)
  then show ?case by (cases "static_limited c") (simp_all add: assign_loop_launch launch_def)
qed simp

lemma raw_backfill_loop: "rawResponseMap (snd (snd (backfill_loop c k i m ps s))) = rawResponseMap s"
proof (induction ps arbitrary: i m s)
  case (Cons p ps)
  then show ?case by (cases "static_limited c") (simp_all add: backfill_loop_launch launch_def)
qed simp

lemma finished_cong: "rawResponseMap s' = rawResponseMap s \<Longrightarrow> finished q s' = finished q s"
  by (simp add: finished_def)

text \<open>What holds between two passes of the loop.\<close>

definition between_passes ::
    "('r, 'w) app_config \<Rightarrow> 'r prp list \<Rightarrow> nat \<Rightarrow> nat \<Rightarrow> 'r prp list \<Rightarrow> ('r, 'w) app_state \<Rightarrow> bool" where
  "between_passes c q recv na it s \<longleftrightarrow> sched_ok c q s \<and> recv = length (finished q s) \<and> na = length (active s) \<and>
    (active s = [] \<longrightarrow> waiting q s = []) \<and> (\<not> static_limited c \<longrightarrow> it = waiting q s)"

text \<open>The backfill after \<open>k\<close> completions.\<close>

lemma backfill_ok:
  assumes q: "queue_ok q" and c: "servers_exist c" and j: "jobs_ok q s" and sv: "static_limited c \<longrightarrow> servers_ok c s"
    and it: "\<not> static_limited c \<longrightarrow> it = waiting q s" and lim: "within_limit c (length (active s) + k)" and k: "0 < k"
  shows "\<exists>na it' s'. backfill_loop c k 0 (length (active s)) (if static_limited c then q else it) s = (na, it', s') \<and>
    between_passes c q (length (finished q s)) na it' s' \<and> sched_frame q s s'"
proof (cases "static_limited c")
  case False
  then obtain s' where s': "backfill_loop c k 0 (length (active s)) it s =
      (length (active s) + min k (length it), waiting q s', s')" "jobs_ok q s'" "sched_frame q s s'"
      "length (active s') = length (active s) + min k (length it)"
    using backfill_loop_dynamic [OF q False j, of it 0 k "length (active s)"] it by auto
  have fin: "finished q s' = finished q s"
    by (rule finished_cong) (use raw_backfill_loop [of c k 0 "length (active s)" it s] s'(1) in simp)
  have "waiting q s' = []" if "active s' = []"
  proof -
    have "it = []" "active s = []" using that s'(4) k by (auto simp: min_def split: if_splits)
    then show ?thesis using jobs_partition [OF q j] jobs_partition [OF q s'(2)] fin that it False by simp
  qed
  moreover have "within_limit c (length (active s'))" using lim s'(4) by (auto simp: within_limit_def)
  ultimately show ?thesis using s' fin False by (auto simp: between_passes_def sched_ok_def)
next
  case True
  have "length (active s) < asynchLocalEvalConcurrency c"
    using lim k True by (auto simp: within_limit_def static_limited_def)
  then obtain it' s' where s': "backfill_loop c k 0 (length (active s)) q s = (length (active s'), it', s')"
      "jobs_ok q s'" "servers_ok c s'" "sched_frame q s s'" "length (active s') \<le> asynchLocalEvalConcurrency c"
      "active s' = [] \<longrightarrow> s' = s \<and> set q \<inter> set (waiting q s) = {}"
    using backfill_loop_static [OF q c True j _ subset_refl, of "length (active s)" k 0] sv True by blast
  have "finished q s' = finished q s"
    by (rule finished_cong) (use raw_backfill_loop [of c k 0 "length (active s)" q s] s'(1) in simp)
  moreover have "waiting q s' = []" if "active s' = []"
    using that s'(6) waiting_subset [of _ q s] by (cases "waiting q s") auto
  ultimately show ?thesis using s' True by (auto simp: between_passes_def sched_ok_def within_limit_def)
qed

text \<open>Collecting and processing completions; a wait completes at least one running job.\<close>

lemma collect_and_process:
  assumes q: "queue_ok q" and c: "servers_exist c" and s: "sched_ok c q s"
    and d: "wait (map (job_of s) (active s)) (world s) = Inr (d, w)" "completions_valid (map (job_of s) (active s)) d"
  shows "\<exists>ids s1 s2. collect_completions wait s = Inr (ids, s1) \<and>
    rfold (process_asynch_local c) ids s1 = Inr s2 \<and> (ids = [] \<longrightarrow> d = []) \<and> jobs_ok q s2 \<and>
    (static_limited c \<longrightarrow> servers_ok c s2) \<and> length (active s2) + length ids = length (active s) \<and>
    waiting q s2 = waiting q s \<and> length (finished q s2) = length (finished q s) + length ids \<and> sched_frame q s s2"
proof -
  have j: "jobs_ok q s" using s by (simp add: sched_ok_def)
  let ?ids = "remdups (sort (map fst d))"
  obtain s1 where s1: "collect_completions wait s = Inr (?ids, s1)" "active s1 = active s"
      "rawResponseMap s1 = rawResponseMap s" "localServerAssigned s1 = localServerAssigned s" "sched_frame q s s1"
      "fst ` set d \<subseteq> eval_id ` set (active s)"
    using collect_completions_ok [where s = s and q = q and wait = wait, OF _ _ d] j by (auto simp: jobs_ok_def)
  have j1: "jobs_ok q s1" "static_limited c \<longrightarrow> servers_ok c s1" "waiting q s1 = waiting q s"
    using s j s1 by (simp_all add: jobs_ok_def sched_ok_def servers_ok_def waiting_def)
  obtain s2 where s2: "rfold (process_asynch_local c) ?ids s1 = Inr s2" "jobs_ok q s2" "static_limited c \<longrightarrow> servers_ok c s2"
      "length (active s2) + length ?ids = length (active s1)" "waiting q s2 = waiting q s1" "sched_frame q s1 s2"
    using process_all [OF q c j1(1,2), of ?ids] s1(2,6) by auto
  have "length (finished q s2) = length (finished q s) + length ?ids"
    using jobs_partition [OF q j] jobs_partition [OF q s2(2)] s2(4,5) s1(2) j1(3) by simp
  moreover have "?ids = [] \<longrightarrow> d = []" by (metis Nil_is_map_conv length_0_conv length_sort remdups_eq_nil_iff)
  ultimately show ?thesis
    using s1(1,2) s2 j1(3) sched_frame_trans [OF s1(5) s2(6)]
    by (intro exI [of _ ?ids] exI [of _ s1] exI [of _ s2]) simp
qed

lemma wait_and_process:
  assumes q: "queue_ok q" and c: "servers_exist c" and w: "wait_contract c" and s: "sched_ok c q s" and a: "active s \<noteq> []"
  shows "\<exists>ids s1 s2. collect_completions (wait_local_evaluations c) s = Inr (ids, s1) \<and>
    rfold (process_asynch_local c) ids s1 = Inr s2 \<and> ids \<noteq> [] \<and> jobs_ok q s2 \<and>
    (static_limited c \<longrightarrow> servers_ok c s2) \<and> length (active s2) + length ids = length (active s) \<and>
    waiting q s2 = waiting q s \<and> length (finished q s2) = length (finished q s) + length ids \<and> sched_frame q s s2"
proof -
  let ?jobs = "map (job_of s) (active s)"
  have "?jobs \<noteq> []" "within_limit c (length ?jobs)" using a s by (auto simp: sched_ok_def)
  then obtain d w' where d: "wait_local_evaluations c ?jobs (world s) = Inr (d, w')" "d \<noteq> []" "completions_valid ?jobs d"
    using w unfolding wait_contract_def by blast
  from collect_and_process [where wait = "wait_local_evaluations c", OF q c s d(1,3)] d(2) show ?thesis by blast
qed

lemma local_loop_completes:
  assumes q: "queue_ok q" and c: "servers_exist c" and w: "wait_contract c"
    and "between_passes c q recv na it s" "length q \<le> fuel + recv"
  shows "\<exists>s'. local_loop fuel c q recv na it s = Inr s' \<and> active s' = [] \<and> sched_frame q s s' \<and>
    (\<forall>p \<in> set q. map_of (rawResponseMap s') (eval_id p) = Some (prpResponse p))"
  using assms(4,5)
proof (induction fuel arbitrary: recv na it s)
  case 0
  then have "\<not> recv < length q" "jobs_ok q s" "recv = length (finished q s)"
    by (auto simp: between_passes_def sched_ok_def)
  then show ?case using all_finished [OF q, of s] by (subst local_loop.simps) auto
next
  case (Suc n)
  have s: "sched_ok c q s" "jobs_ok q s" "recv = length (finished q s)" "na = length (active s)"
    using Suc.prems(1) by (auto simp: between_passes_def sched_ok_def)
  show ?case
  proof (cases "recv < length q")
    case False
    then show ?thesis using all_finished [OF q s(2)] s(3) by (subst local_loop.simps) auto
  next
    case True
    have "active s \<noteq> []" using True s jobs_partition [OF q s(2)] Suc.prems(1) by (auto simp: between_passes_def)
    then obtain ids s1 s2 where p: "collect_completions (wait_local_evaluations c) s = Inr (ids, s1)"
        "rfold (process_asynch_local c) ids s1 = Inr s2" "ids \<noteq> []" "jobs_ok q s2" "static_limited c \<longrightarrow> servers_ok c s2"
        "length (active s2) + length ids = length (active s)" "waiting q s2 = waiting q s"
        "length (finished q s2) = length (finished q s) + length ids" "sched_frame q s s2"
      using wait_and_process [OF q c w s(1)] by blast
    obtain na' it' s3 where b: "backfill_loop c (length ids) 0 (length (active s2)) (if static_limited c then q else it) s2 =
        (na', it', s3)" "between_passes c q (length (finished q s2)) na' it' s3" "sched_frame q s2 s3"
      using backfill_ok [OF q c p(4,5), of it "length ids"] Suc.prems(1) s(1) p(3,6,7)
      by (auto simp: between_passes_def sched_ok_def)
    have "length q \<le> n + (recv + length ids)" using Suc.prems(2) p(3) by (cases ids) auto
    then obtain s' where r: "local_loop n c q (recv + length ids) na' it' s3 = Inr s'" "active s' = []" "sched_frame q s3 s'"
        "\<forall>p \<in> set q. map_of (rawResponseMap s') (eval_id p) = Some (prpResponse p)"
      using Suc.IH [of "recv + length ids" na' it' s3] b(2) p(8) s(3) by auto
    have "na - length ids = length (active s2)" using p(6) s(4) by simp
    then have "local_loop (Suc n) c q recv na it s = Inr s'"
      using True p(1,2) b(1) r(1) by (subst local_loop.simps) simp
    then show ?thesis using r p(9) b(3) by (blast intro: sched_frame_trans)
  qed
qed

lemma assign_ok:
  assumes q: "queue_ok q" and c: "servers_exist c" and a: "active s = []"
    and raw: "\<forall>p \<in> set q. map_of (rawResponseMap s) (eval_id p) = None"
  shows "\<exists>it s'. assign_asynch_local_queue c q s = Inr (it, s') \<and>
    between_passes c q 0 (length (active s')) it s' \<and> sched_frame q s s'"
proof -
  let ?s = "if static_limited c then s\<lparr>localServerAssigned := replicate (static_servers c) False\<rparr> else s"
  let ?n = "if asynchLocalEvalConcurrency c \<noteq> 0 then min (asynchLocalEvalConcurrency c) (length q) else length q"
  have s: "active ?s = []" "rawResponseMap ?s = rawResponseMap s" "sched_frame q s ?s"
    using a by (auto simp: sched_frame_def)
  have j: "jobs_ok q ?s" using raw by (auto simp: jobs_ok_def a)
  have w: "waiting q ?s = q" using raw by (auto simp: waiting_def a lookup_by_eval_id_def uidx_find_def intro!: filter_True)
  have f0: "length (finished q t) = 0" if "rawResponseMap t = rawResponseMap s" for t :: "('a, 'b) app_state"
    using that raw by (simp add: finished_def filter_empty_conv)
  have def: "assign_asynch_local_queue c q s = Inr (assign_loop c 0 ?n 0 q ?s)"
    using a by (simp add: assign_asynch_local_queue_def Let_def)
  show ?thesis
  proof (cases "static_limited c")
    case False
    obtain s' where s': "assign_loop c 0 ?n 0 q ?s = (waiting q s', s')" "jobs_ok q s'" "sched_frame q ?s s'"
        "length (active s') = length (active ?s) + min (?n - 0) (length q)"
      using assign_loop_dynamic [OF q False j w, of 0 ?n 0] by blast
    have r: "rawResponseMap s' = rawResponseMap s" using raw_assign_loop [of c 0 ?n 0 q ?s] s'(1) s(2) by simp
    have l: "length (active s') = ?n" using s'(4) s(1) by simp
    then have "waiting q s' = []" if "active s' = []"
      using that by (auto simp: waiting_def min_def split: if_splits)
    moreover have "within_limit c (length (active s'))" using l by (auto simp: within_limit_def)
    ultimately show ?thesis
      using def s'(1,2) sched_frame_trans [OF s(3) s'(3)] f0 [OF r] False by (auto simp: between_passes_def sched_ok_def)
  next
    case True
    have sv: "servers_ok c ?s" using True a by (simp add: servers_ok_def)
    obtain it s' where s': "assign_loop c 0 ?n 0 q ?s = (it, s')" "jobs_ok q s'" "servers_ok c s'" "sched_frame q ?s s'"
        "length (active s') \<le> asynchLocalEvalConcurrency c" "active s' = [] \<longrightarrow> q = []"
      using assign_loop_static [OF q c True j sv, of q 0 0 ?n] w s(1) True queue_ok_distinct [OF q]
      by (auto simp: static_limited_def)
    have r: "rawResponseMap s' = rawResponseMap s" using raw_assign_loop [of c 0 ?n 0 q ?s] s'(1) s(2) by simp
    have "within_limit c (length (active s'))" using s'(5) by (simp add: within_limit_def)
    moreover have "waiting q s' = []" if "active s' = []" using s'(6) that by (simp add: waiting_def)
    ultimately show ?thesis
      using def s'(1-3) sched_frame_trans [OF s(3) s'(4)] f0 [OF r] True by (auto simp: between_passes_def sched_ok_def)
  qed
qed

lemma asynchronous_local_completes:
  assumes "queue_ok q" "servers_exist c" "wait_contract c" "active s = []" "length q \<le> fuel"
    and "\<forall>p \<in> set q. map_of (rawResponseMap s) (eval_id p) = None"
  shows "\<exists>s'. asynchronous_local_evaluations fuel c q s = Inr s' \<and> active s' = [] \<and> sched_frame q s s' \<and>
    (\<forall>p \<in> set q. map_of (rawResponseMap s') (eval_id p) = Some (prpResponse p))"
proof -
  obtain it s1 where s1: "assign_asynch_local_queue c q s = Inr (it, s1)"
      "between_passes c q 0 (length (active s1)) it s1" "sched_frame q s s1"
    using assign_ok [OF assms(1,2,4,6)] by blast
  obtain s' where "local_loop fuel c q 0 (length (active s1)) it s1 = Inr s'" "active s' = []" "sched_frame q s1 s'"
      "\<forall>p \<in> set q. map_of (rawResponseMap s') (eval_id p) = Some (prpResponse p)"
    using local_loop_completes [OF assms(1-3) s1(2)] assms(5) by auto
  then show ?thesis using s1 by (auto simp: asynchronous_local_evaluations_def intro: sched_frame_trans)
qed

section \<open>Synchronous schedule\<close>

text \<open>The contract of a simulator that does not fail: it keeps the active set of the response and its size.\<close>

definition synch_contract :: "('r, 'w) app_config \<Rightarrow> bool" where
  "synch_contract c \<longleftrightarrow> (\<forall>v st i w r. case derived_map c v st i w r of (failed, w', r') \<Rightarrow>
     \<not> failed \<and> responseActiveSet r' = responseActiveSet r \<and> (resp_ready r \<longrightarrow> resp_ready r'))"

lemma synchronous_step:
  assumes "synch_contract c" "p \<in> set q"
  shows "\<exists>s'. synchronous_local_evaluation fuel c p s = Inr s' \<and> sched_frame q s s' \<and> active s' = active s \<and>
    rawResponseMap s' = map_assign (eval_id p) (prpResponse p) (rawResponseMap s)"
proof -
  let ?s0 = "s\<lparr>currEvalId := eval_id p\<rparr>" and ?a = "prpResponse p"
  obtain f w r where d: "derived_map c (prpVariables p) (active_set_of (heap s) p) (eval_id p) (world s) (resp_at s ?a) = (f, w, r)"
    by (metis prod_cases3)
  with assms(1) have r: "\<not> f" "responseActiveSet r = responseActiveSet (resp_at s ?a)"
      "resp_ready (resp_at s ?a) \<longrightarrow> resp_ready r"
    by (auto simp: synch_contract_def split: prod.splits) metis+
  let ?s1 = "(set_response ?a r ?s0)\<lparr>world := w\<rparr>"
  let ?s2 = "?s1\<lparr>rawResponseMap := map_assign (eval_id p) ?a (rawResponseMap s)\<rparr>"
  have "synchronous_local_evaluation fuel c p s = Inr (record_pair c p ?s2)"
    using d r(1) by (simp add: synchronous_local_evaluation_def call_derived_map_def process_synch_local_def Let_def set_response_def)
  moreover have "sched_frame q s ?s2" using assms(2) r by (auto simp: sched_frame_def set_response_def)
  moreover have "sched_frame q ?s2 (record_pair c p ?s2)" using assms(2) by simp
  moreover have "active (record_pair c p ?s2) = active s" by (simp add: set_response_def)
  ultimately show ?thesis by (auto intro: sched_frame_trans)
qed

lemma synchronous_local_completes:
  assumes "synch_contract c" "set ps \<subseteq> set q" "distinct (map eval_id ps)"
  shows "\<exists>s'. synchronous_local_evaluations fuel c ps s = Inr s' \<and> sched_frame q s s' \<and> active s' = active s \<and>
    (\<forall>p \<in> set ps. map_of (rawResponseMap s') (eval_id p) = Some (prpResponse p)) \<and>
    (\<forall>i. i \<notin> eval_id ` set ps \<longrightarrow> map_of (rawResponseMap s') i = map_of (rawResponseMap s) i)"
  using assms(2-) unfolding synchronous_local_evaluations_def
proof (induction ps arbitrary: s)
  case (Cons p ps)
  obtain s1 where s1: "synchronous_local_evaluation fuel c p s = Inr s1" "sched_frame q s s1" "active s1 = active s"
      "rawResponseMap s1 = map_assign (eval_id p) (prpResponse p) (rawResponseMap s)"
    using synchronous_step [OF assms(1), of p q fuel s] Cons.prems(1) by auto
  obtain s2 where s2: "rfold (synchronous_local_evaluation fuel c) ps s1 = Inr s2" "sched_frame q s1 s2" "active s2 = active s1"
      "\<forall>p \<in> set ps. map_of (rawResponseMap s2) (eval_id p) = Some (prpResponse p)"
      "\<forall>i. i \<notin> eval_id ` set ps \<longrightarrow> map_of (rawResponseMap s2) i = map_of (rawResponseMap s1) i"
    using Cons.IH [of s1] Cons.prems by auto
  have "map_of (rawResponseMap s2) (eval_id p) = Some (prpResponse p)" using s2(5) s1(4) Cons.prems(2) by auto
  then show ?case using s1 s2 sched_frame_trans [OF s1(2) s2(2)] by auto
qed simp

section \<open>The interface of a blocking schedule\<close>

text \<open>
  What \<^verbatim>\<open>synchronize\<close> relies on: under its precondition, a schedule of a queue none of whose ids is in
  the response map returns with every job of the queue in the map, under its own response, and
  keeps everything else.
\<close>

locale blocking_scheduler =
  fixes run :: "'r prp list \<Rightarrow> ('r, 'w) app_state \<Rightarrow> ('r, 'w) app_state result"
    and pre :: "'r prp list \<Rightarrow> ('r, 'w) app_state \<Rightarrow> bool"
  assumes completes: "pre q s \<Longrightarrow> queue_ok q \<Longrightarrow> \<forall>p \<in> set q. map_of (rawResponseMap s) (eval_id p) = None \<Longrightarrow>
    \<exists>s'. run q s = Inr s' \<and> active s' = active s \<and> sched_frame q s s' \<and>
      (\<forall>p \<in> set q. map_of (rawResponseMap s') (eval_id p) = Some (prpResponse p))"
begin

lemma dom_raw:
  assumes "pre q s" "queue_ok q" "\<forall>p \<in> set q. map_of (rawResponseMap s) (eval_id p) = None"
  shows "\<exists>s'. run q s = Inr s' \<and>
    dom (map_of (rawResponseMap s')) = dom (map_of (rawResponseMap s)) \<union> eval_id ` set q"
proof -
  obtain s' where s': "run q s = Inr s'" "sched_frame q s s'"
      "\<forall>p \<in> set q. map_of (rawResponseMap s') (eval_id p) = Some (prpResponse p)"
    using completes [OF assms] by blast
  have "i \<in> dom (map_of (rawResponseMap s')) \<longleftrightarrow> i \<in> dom (map_of (rawResponseMap s)) \<union> eval_id ` set q" for i
  proof (cases "i \<in> eval_id ` set q")
    case True
    then show ?thesis using s'(3) by force
  next
    case False
    then show ?thesis using s'(2) by (simp add: sched_frame_def domIff)
  qed
  then show ?thesis using s'(1) by blast
qed

end

interpretation asynch_local: blocking_scheduler "asynchronous_local_evaluations fuel c"
    "\<lambda>q s. servers_exist c \<and> wait_contract c \<and> active s = [] \<and> length q \<le> fuel"
  for fuel c
  by unfold_locales (use asynchronous_local_completes in metis)

interpretation synch_local: blocking_scheduler "synchronous_local_evaluations fuel c" "\<lambda>q s. synch_contract c"
  for fuel and c :: "('r::{zero, one, plus, minus, inverse, abs, ord}, 'w) app_config"
proof unfold_locales
  fix q :: "'r prp list" and s :: "('r, 'w) app_state"
  assume "synch_contract c" "queue_ok q"
  then show "\<exists>s'. synchronous_local_evaluations fuel c q s = Inr s' \<and> active s' = active s \<and> sched_frame q s s' \<and>
      (\<forall>p \<in> set q. map_of (rawResponseMap s') (eval_id p) = Some (prpResponse p))"
    using synchronous_local_completes [of c q q fuel s] by (auto simp: queue_ok_def uidx_ok_def)
qed

section \<open>The nonblocking schedule\<close>

lemma assign_nowait_launch:
  "assign_nowait_loop c m (p # ps) s =
    (if asynchLocalEvalConcurrency c \<noteq> 0 \<and> m \<ge> asynchLocalEvalConcurrency c then (p # ps, s)
     else if lookup_by_eval_id (eval_id p) (active s) = None \<and>
        (static_limited c \<longrightarrow> \<not> localServerAssigned s ! server_index c (eval_id p))
       then assign_nowait_loop c (m + 1) ps (launch c p s)
     else assign_nowait_loop c m ps s)"
  by (simp add: launch_def)

lemma test_backfill_launch:
  "test_backfill_loop c m (p # ps) s =
    (if (lookup_by_eval_id (eval_id p) (active s) = None \<and> map_of (rawResponseMap s) (eval_id p) = None) \<and>
        map_of (msgPassRunningMap s) (eval_id p) = None \<and>
        (static_limited c \<longrightarrow> \<not> localServerAssigned s ! server_index c (eval_id p)) then
       if asynchLocalEvalConcurrency c \<noteq> 0 \<and> m + 1 \<ge> asynchLocalEvalConcurrency c then (ps, launch c p s)
       else test_backfill_loop c (m + 1) ps (launch c p s)
     else test_backfill_loop c m ps s)"
  by (auto simp: launch_def Let_def)

declare assign_nowait_loop.simps(2) [simp del] test_backfill_loop.simps(2) [simp del]

lemma launch_sched:
  assumes "queue_ok q" "servers_exist c" "jobs_ok q s" "static_limited c \<longrightarrow> servers_ok c s" "p \<in> set (waiting q s)"
    and "static_limited c \<longrightarrow> \<not> localServerAssigned s ! server_index c (eval_id p)"
  shows "jobs_ok q (launch c p s)" "static_limited c \<longrightarrow> servers_ok c (launch c p s)"
    "length (active (launch c p s)) = Suc (length (active s))"
    "waiting q (launch c p s) = filter (\<lambda>x. x \<noteq> p) (waiting q s)" "sched_frame q s (launch c p s)"
    "rawResponseMap (launch c p s) = rawResponseMap s" "msgPassRunningMap (launch c p s) = msgPassRunningMap s"
  using jobs_ok_launch [OF assms(1,3,5), of c] servers_ok_launch [of c s p] assms
  by (auto simp: servers_exist_def waiting_def) (auto simp: launch_def launch_asynch_local_def set_server_def)

lemma assign_nowait_ok:
  assumes q: "queue_ok q" and c: "servers_exist c"
    and "sched_ok c q s" "set ps \<subseteq> set q" "\<forall>p \<in> set q. map_of (rawResponseMap s) (eval_id p) = None"
    and "m = length (active s)"
  shows "\<exists>it s'. assign_nowait_loop c m ps s = (it, s') \<and> sched_ok c q s' \<and> sched_frame q s s' \<and>
    rawResponseMap s' = rawResponseMap s \<and> set it \<subseteq> set ps \<and> length (active s) \<le> length (active s') \<and>
    (\<not> static_limited c \<longrightarrow> set ps \<inter> set (waiting q s') \<subseteq> set it) \<and> set (waiting q s') \<subseteq> set (waiting q s) \<and>
    (active s' = [] \<longrightarrow> ps = [])"
  using assms(3-)
proof (induction ps arbitrary: m s)
  case Nil
  then show ?case by auto
next
  case (Cons p ps)
  have s: "jobs_ok q s" "static_limited c \<longrightarrow> servers_ok c s" using Cons.prems(1) by (auto simp: sched_ok_def)
  let ?full = "asynchLocalEvalConcurrency c \<noteq> 0 \<and> m \<ge> asynchLocalEvalConcurrency c"
  let ?go = "lookup_by_eval_id (eval_id p) (active s) = None \<and>
        (static_limited c \<longrightarrow> \<not> localServerAssigned s ! server_index c (eval_id p))"
  consider "?full" | "\<not> ?full" "?go" | "\<not> ?full" "\<not> ?go" by blast
  then show ?case
  proof cases
    case 1
    then have "active s \<noteq> []" using Cons.prems(4) by auto
    then show ?thesis using 1 Cons.prems(1) by (simp add: assign_nowait_launch)
  next
    case 2
    have p: "p \<in> set (waiting q s)" using 2(2) Cons.prems(2,3) by (auto simp: waiting_def)
    note l = launch_sched [OF q c s p conjunct2 [OF 2(2)]]
    have "sched_ok c q (launch c p s)"
      using l(1-3) 2(1) Cons.prems(4) by (auto simp: sched_ok_def within_limit_def)
    then obtain it s' where "assign_nowait_loop c (m + 1) ps (launch c p s) = (it, s')" "sched_ok c q s'"
        "sched_frame q (launch c p s) s'" "rawResponseMap s' = rawResponseMap s" "set it \<subseteq> set ps"
        "length (active (launch c p s)) \<le> length (active s')"
        "\<not> static_limited c \<longrightarrow> set ps \<inter> set (waiting q s') \<subseteq> set it" "set (waiting q s') \<subseteq> set (waiting q (launch c p s))"
      using Cons.IH [of "launch c p s" "m + 1"] Cons.prems l(3,6) by auto
    moreover from this have "active s' \<noteq> []" using l(3) by auto
    ultimately show ?thesis
      using 2 l(3-5) unfolding assign_nowait_launch by (auto intro: sched_frame_trans)
  next
    case 3
    obtain it s' where s': "assign_nowait_loop c m ps s = (it, s')" "sched_ok c q s'" "sched_frame q s s'"
        "rawResponseMap s' = rawResponseMap s" "set it \<subseteq> set ps" "length (active s) \<le> length (active s')"
        "\<not> static_limited c \<longrightarrow> set ps \<inter> set (waiting q s') \<subseteq> set it" "set (waiting q s') \<subseteq> set (waiting q s)"
      using Cons.IH [OF Cons.prems(1), of m] Cons.prems by auto
    have "active s \<noteq> []"
    proof
      assume "active s = []"
      then show False using 3(2) free_server [OF c _ _ \<open>active s = []\<close>, of "eval_id p"] s(2)
        by (auto simp: lookup_by_eval_id_def uidx_find_def)
    qed
    moreover have "p \<notin> set (waiting q s')" if "\<not> static_limited c"
      using 3(2) s'(8) that by (auto simp: waiting_def)
    ultimately show ?thesis using 3 s' unfolding assign_nowait_launch by auto
  qed
qed

lemma test_backfill_ok:
  assumes q: "queue_ok q" and c: "servers_exist c"
    and "jobs_ok q s" "static_limited c \<longrightarrow> servers_ok c s" "set ps \<subseteq> set q"
    and "within_limit c (Suc (length (active s)))" "m = length (active s)" "msgPassRunningMap s = []"
  shows "\<exists>it s'. test_backfill_loop c m ps s = (it, s') \<and> sched_ok c q s' \<and> sched_frame q s s' \<and>
    rawResponseMap s' = rawResponseMap s \<and> (active s' = [] \<longrightarrow> s' = s \<and> set ps \<inter> set (waiting q s) = {})"
  using assms(3-)
proof (induction ps arbitrary: m s)
  case Nil
  then show ?case by (auto simp: sched_ok_def within_limit_def)
next
  case (Cons p ps)
  let ?go = "(lookup_by_eval_id (eval_id p) (active s) = None \<and> map_of (rawResponseMap s) (eval_id p) = None) \<and>
      (static_limited c \<longrightarrow> \<not> localServerAssigned s ! server_index c (eval_id p))"
  show ?case
  proof (cases ?go)
    case True
    have p: "p \<in> set (waiting q s)" using True Cons.prems(3) by (auto simp: waiting_def)
    note l = launch_sched [OF q c Cons.prems(1,2) p conjunct2 [OF True]]
    have ne: "active (launch c p s) \<noteq> []" using l(3) by auto
    show ?thesis
    proof (cases "asynchLocalEvalConcurrency c \<noteq> 0 \<and> m + 1 \<ge> asynchLocalEvalConcurrency c")
      case full: True
      have "sched_ok c q (launch c p s)" using l(1-3) Cons.prems(4) by (simp add: sched_ok_def)
      then show ?thesis using full True Cons.prems(6) l ne unfolding test_backfill_launch by simp
    next
      case more: False
      have lim: "within_limit c (Suc (length (active (launch c p s))))"
        using more l(3) Cons.prems(5) by (auto simp: within_limit_def)
      obtain it s' where s': "test_backfill_loop c (m + 1) ps (launch c p s) = (it, s')" "sched_ok c q s'"
          "sched_frame q (launch c p s) s'" "rawResponseMap s' = rawResponseMap s"
          "active s' = [] \<longrightarrow> s' = launch c p s"
        using Cons.IH [OF l(1,2) _ lim, of "m + 1"] Cons.prems(3,5,6) l(3,6,7) by auto
      then have "active s' \<noteq> []" using ne by auto
      moreover have "sched_frame q s s'" by (rule sched_frame_trans [OF l(5) s'(3)])
      ultimately show ?thesis using more True Cons.prems(6) s'(1,2,4) unfolding test_backfill_launch by auto
    qed
  next
    case False
    have "p \<notin> set (waiting q s)" if "active s = []"
      using False free_server [OF c _ _ that, of "eval_id p"] Cons.prems(2) by (auto simp: waiting_def)
    moreover obtain it s' where "test_backfill_loop c m ps s = (it, s')" "sched_ok c q s'" "sched_frame q s s'"
        "rawResponseMap s' = rawResponseMap s" "active s' = [] \<longrightarrow> s' = s \<and> set ps \<inter> set (waiting q s) = {}"
      using Cons.IH [OF Cons.prems(1,2) _ Cons.prems(4)] Cons.prems by auto
    ultimately show ?thesis using False Cons.prems(6) unfolding test_backfill_launch by auto
  qed
qed

lemma test_local_backfill_ok:
  assumes q: "queue_ok q" and c: "servers_exist c" and t: "test_contract c" and s: "sched_ok c q s"
    and it: "set it \<subseteq> set q" "\<not> static_limited c \<longrightarrow> set (waiting q s) \<subseteq> set it" and m: "msgPassRunningMap s = []"
    and a: "active s \<noteq> []"
  shows "\<exists>n it' s'. test_local_backfill c q it s = Inr (n, it', s') \<and> sched_ok c q s' \<and> sched_frame q s s' \<and>
    length (finished q s') = length (finished q s) + n \<and> (active s' = [] \<longrightarrow> waiting q s' = [])"
proof -
  let ?jobs = "map (job_of s) (active s)"
  have lim: "within_limit c (length (active s))" using s by (simp add: sched_ok_def)
  then obtain d w' where d: "test_local_evaluations c ?jobs (world s) = Inr (d, w')" "completions_valid ?jobs d"
    using t unfolding test_contract_def by (metis length_map)
  obtain ids s1 s2 where p: "collect_completions (test_local_evaluations c) s = Inr (ids, s1)"
      "rfold (process_asynch_local c) ids s1 = Inr s2" "jobs_ok q s2" "static_limited c \<longrightarrow> servers_ok c s2"
      "length (active s2) + length ids = length (active s)" "waiting q s2 = waiting q s"
      "length (finished q s2) = length (finished q s) + length ids" "sched_frame q s s2"
    using collect_and_process [where wait = "test_local_evaluations c", OF q c s d] by blast
  show ?thesis
  proof (cases "ids = []")
    case True
    then have "sched_ok c q s2" "active s2 \<noteq> []" using p(3-5) lim a by (auto simp: sched_ok_def)
    then show ?thesis using p(1,2,7,8) True by (auto simp: test_local_backfill_def)
  next
    case False
    let ?ps = "if static_limited c then q else it"
    have "within_limit c (Suc (length (active s2)))"
      using lim p(5) False by (cases ids) (auto simp: within_limit_def)
    moreover have "msgPassRunningMap s2 = []" using p(8) m by (simp add: sched_frame_def)
    moreover have "set ?ps \<subseteq> set q" using it(1) by simp
    ultimately obtain it' s' where s': "test_backfill_loop c (length (active s2)) ?ps s2 = (it', s')" "sched_ok c q s'"
        "sched_frame q s2 s'" "rawResponseMap s' = rawResponseMap s2"
        "active s' = [] \<longrightarrow> s' = s2 \<and> set ?ps \<inter> set (waiting q s2) = {}"
      using test_backfill_ok [OF q c p(3,4), of ?ps "length (active s2)"] by blast
    have "waiting q s' = []" if "active s' = []"
    proof -
      have "set (waiting q s2) \<subseteq> set ?ps" using p(6) it(2) by (cases "static_limited c") (simp_all add: waiting_def)
      moreover note e = mp [OF s'(5) that]
      ultimately have "set (waiting q s2) = {}" by (simp add: Int_absorb1)
      then show ?thesis using conjunct1 [OF e] by simp
    qed
    moreover have "length (finished q s') = length (finished q s) + length ids"
      using p(7) finished_cong [OF s'(4), of q] by simp
    moreover have "sched_frame q s s'" by (rule sched_frame_trans [OF p(8) s'(3)])
    ultimately show ?thesis using False p(1,2) s'(1,2) by (auto simp: test_local_backfill_def Let_def)
  qed
qed

text \<open>A schedule that may be entered by a nonblocking pass: the busy servers are known, or not yet used.\<close>

definition servers_known :: "('r, 'w) app_config \<Rightarrow> ('r, 'w) app_state \<Rightarrow> bool" where
  "servers_known c s \<longleftrightarrow> (static_limited c \<longrightarrow>
    servers_ok c s \<or> active s = [] \<and> length (localServerAssigned s) \<noteq> static_servers c)"

lemma asynchronous_local_nowait_ok:
  assumes q: "queue_ok q" "q \<noteq> []" and c: "servers_exist c" and t: "test_contract c"
    and j: "jobs_ok q s" and lim: "within_limit c (length (active s))" and sv: "servers_known c s"
    and raw: "\<forall>p \<in> set q. map_of (rawResponseMap s) (eval_id p) = None" and m: "msgPassRunningMap s = []"
  shows "\<exists>s'. asynchronous_local_evaluations_nowait c q s = Inr s' \<and> sched_ok c q s' \<and> sched_frame q s s' \<and>
    (active s' = [] \<longrightarrow> waiting q s' = [])"
proof -
  let ?target = "if asynchLocalEvalConcurrency c \<noteq> 0 then min (asynchLocalEvalConcurrency c) (length q) else length q"
  let ?s = "if static_limited c \<and> length (localServerAssigned s) \<noteq> static_servers c
    then s\<lparr>localServerAssigned := replicate (static_servers c) False\<rparr> else s"
  let ?r = "if ?target \<noteq> length (active s) then assign_asynch_local_queue_nowait c q s else (q, s)"
  have s0: "active ?s = active s" "rawResponseMap ?s = rawResponseMap s" "sched_frame q s ?s" "jobs_ok q ?s"
    using j by (auto simp: sched_frame_def jobs_ok_def)
  have "static_limited c \<longrightarrow> servers_ok c ?s" using sv by (auto simp: servers_known_def servers_ok_def)
  then have ok: "sched_ok c q ?s" using s0 lim by (simp add: sched_ok_def)
  obtain it s1 where a: "assign_nowait_loop c (length (active ?s)) q ?s = (it, s1)" "sched_ok c q s1" "sched_frame q ?s s1"
      "set it \<subseteq> set q" "\<not> static_limited c \<longrightarrow> set q \<inter> set (waiting q s1) \<subseteq> set it" "active s1 = [] \<longrightarrow> q = []"
    using assign_nowait_ok [OF q(1) c ok subset_refl _ refl] raw s0(2) by auto
  have tpos: "?target > 0" using q(2) by auto
  have "\<exists>it s1. ?r = (it, s1) \<and> sched_ok c q s1 \<and> sched_frame q s s1 \<and> set it \<subseteq> set q \<and>
      (\<not> static_limited c \<longrightarrow> set (waiting q s1) \<subseteq> set it) \<and> active s1 \<noteq> []"
  proof (cases "?target = length (active s)")
    case True
    then have "active s \<noteq> []" using tpos by auto
    moreover from this have "sched_ok c q s" using sv j lim by (auto simp: servers_known_def sched_ok_def)
    ultimately show ?thesis using True waiting_subset [of _ q s] by auto
  next
    case False
    have "assign_asynch_local_queue_nowait c q s = (it, s1)"
      using a(1) s0(1) by (simp add: assign_asynch_local_queue_nowait_def Let_def)
    then show ?thesis
      using False a(2-6) q(2) sched_frame_trans [OF s0(3) a(3)] waiting_subset [of _ q s1] by auto
  qed
  then obtain it s1 where r: "?r = (it, s1)" "sched_ok c q s1" "sched_frame q s s1" "set it \<subseteq> set q"
      "\<not> static_limited c \<longrightarrow> set (waiting q s1) \<subseteq> set it" "active s1 \<noteq> []" by blast
  have "msgPassRunningMap s1 = []" using r(3) m by (simp add: sched_frame_def)
  then obtain n it' s' where "test_local_backfill c q it s1 = Inr (n, it', s')" "sched_ok c q s'" "sched_frame q s1 s'"
      "active s' = [] \<longrightarrow> waiting q s' = []"
    using test_local_backfill_ok [OF q(1) c t r(2,4,5) _ r(6)] by blast
  then show ?thesis
    using r(1) sched_frame_trans [OF r(3)] by (auto simp: asynchronous_local_evaluations_nowait_def Let_def)
qed


section \<open>Properties\<close>

text \<open>Two queued jobs of the example interface.\<close>

definition sample_queue :: "rat prp list" where
  "sample_queue = [ParamResponsePair (sample_vars 3) ''sim'' 0 1, ParamResponsePair (sample_vars 5) ''sim'' 1 2]"

lemma sample_queue_ok: "queue_ok sample_queue"
  by (simp add: queue_ok_def uidx_ok_def sample_queue_def ParamResponsePair_def eval_id_def)

lemma sample_eval_keeps: "resp_ready r \<Longrightarrow> length (resp_asv r) = 1 \<Longrightarrow> resp_ready (sample_eval v r)"
  by (simp add: resp_ready_def resp_wf_def sample_eval_def Let_def resp_asv_def resp_dvv_def)

text \<open>A simulator that returns the queued response unchanged satisfies the contracts.\<close>

definition idle_config :: "(rat, nat) app_config" where
  "idle_config = (sample_config ''abort'')\<lparr>
     wait_local_evaluations := (\<lambda>jobs w. Inr (map (\<lambda>(i, v, r). (i, Response_for_set 0 (responseActiveSet r))) (take 1 jobs), w)),
     test_local_evaluations := (\<lambda>jobs w. Inr (map (\<lambda>(i, v, r). (i, Response_for_set 0 (responseActiveSet r))) (take 1 jobs), w))\<rparr>"

lemma Response_for_set_ready: "resp_ready (Response_for_set n s)" "responseActiveSet (Response_for_set n s) = s"
  by (auto simp: Response_for_set_def shape_rep_def resp_ready_def resp_wf_def resp_asv_def resp_dvv_def Let_def
      mat_zero_def tri_wf_def list_ex_iff nth_append)

lemma idle_contracts: "wait_contract idle_config" "test_contract idle_config" "servers_exist idle_config"
proof -
  have v: "completions_valid jobs (map (\<lambda>(i, v, r). (i, Response_for_set 0 (responseActiveSet r))) (take 1 jobs))" for jobs :: "rat job list"
    by (auto simp: completions_valid_def Response_for_set_ready dest!: in_set_takeD) blast
  show "wait_contract idle_config" using v by (auto simp: wait_contract_def idle_config_def)
  show "test_contract idle_config" using v by (auto simp: test_contract_def idle_config_def)
  show "servers_exist idle_config"
    by (simp add: servers_exist_def static_limited_def idle_config_def sample_config_def)
qed

text \<open>C14: The blocking local schedule completes.  If the simulator reports at least one completion
  whenever it is asked to wait for a nonempty set of jobs within the concurrency limit, then
  \<^verbatim>\<open>asynchronous_local_evaluations\<close> returns after at most as many waits as there are jobs, no job is
  left running, and every job of the queue has its response in the response map.  The waits are
  never called with no job or with more jobs than the limit: otherwise the contract would say
  nothing about them.  Static and dynamic schedules are both covered.\<close>

theorem asynchronous_local_evaluations_completes:
  assumes "queue_ok q" "servers_exist c" "wait_contract c" "active s = []" "length q \<le> fuel"
    and "\<forall>p \<in> set q. map_of (rawResponseMap s) (eval_id p) = None"
  shows "\<exists>s'. asynchronous_local_evaluations fuel c q s = Inr s' \<and> active s' = [] \<and>
    (\<forall>p \<in> set q. map_of (rawResponseMap s') (eval_id p) = Some (prpResponse p)) \<and>
    (\<forall>i. i \<notin> eval_id ` set q \<longrightarrow> map_of (rawResponseMap s') i = map_of (rawResponseMap s) i)"
  using asynch_local.completes [of c s q fuel] assms by (auto simp: sched_frame_def)

theorem asynchronous_local_evaluations_completes_witness:
  "\<exists>s'. asynchronous_local_evaluations 2 idle_config sample_queue (sample_state 0) = Inr s' \<and>
    map_of (rawResponseMap s') 1 = Some 0 \<and> map_of (rawResponseMap s') 2 = Some 1"
proof -
  have "\<exists>s'. asynchronous_local_evaluations 2 idle_config sample_queue (sample_state 0) = Inr s' \<and> active s' = [] \<and>
    (\<forall>p \<in> set sample_queue. map_of (rawResponseMap s') (eval_id p) = Some (prpResponse p)) \<and>
    (\<forall>i. i \<notin> eval_id ` set sample_queue \<longrightarrow> map_of (rawResponseMap s') i = map_of (rawResponseMap (sample_state 0)) i)"
    by (rule asynchronous_local_evaluations_completes)
      (fact sample_queue_ok idle_contracts | simp add: sample_state_def sample_queue_def)+
  then show ?thesis by (auto simp: sample_queue_def ParamResponsePair_def eval_id_def)
qed

text \<open>A blocking schedule cannot follow a nonblocking one that left jobs running: with any active
  job, \<^verbatim>\<open>asynchronous_local_evaluations\<close> aborts, whatever its queue.\<close>

theorem blocking_schedule_refuses_active_jobs:
  assumes "active s \<noteq> []"
  shows "asynchronous_local_evaluations fuel c q s = Inl (Abort (-1))"
  using assms by (simp add: asynchronous_local_evaluations_def assign_asynch_local_queue_def)

theorem blocking_schedule_refuses_active_jobs_witness:
  "asynchronous_local_evaluations 2 idle_config sample_queue
    (launch_asynch_local idle_config (hd sample_queue) (sample_state 0)) = Inl (Abort (-1))"
  by (rule blocking_schedule_refuses_active_jobs)
    (simp add: sample_state_def queue_insert_def uidx_insert_def uidx_find_def)



end
