(* ===== verification/Message_Scheduler.thy ===== *)
theory Message_Scheduler
  imports Local_Scheduler
begin

text \<open>
  Scheduling of evaluations on message-passing servers (\<^verbatim>\<open>src/ApplicationInterface.cpp\<close>:
  \<^verbatim>\<open>master_dynamic_schedule_evaluations\<close>, \<^verbatim>\<open>peer_static_schedule_evaluations\<close>,
  \<^verbatim>\<open>peer_dynamic_schedule_evaluations\<close> and their nonblocking variants, with \<^verbatim>\<open>send_evaluation\<close>,
  \<^verbatim>\<open>receive_evaluation\<close> and \<^verbatim>\<open>test_receives_backfill\<close>).

  A receive is posted into an indexed buffer; posting a second receive into a buffer whose receive
  is pending is an error of the message-passing library and undefined behaviour here.  Testing a
  completed (null) request reports completion again, and the exhausted buffer then cannot be
  unpacked.  Servers and buffers are counted below \<open>2 ^ 16\<close>, the range of the sets of buffer indices.
\<close>

section \<open>Messages\<close>

definition empty_response :: "'r::zero response" where
  "empty_response = \<lparr>functionValues = [], functionGradients = mat_zero 0 0, functionHessians = [],
     responseActiveSet = ActiveSet_default, metaData = []\<rparr>"

text \<open>\<^verbatim>\<open>Response::read\<close> into an empty handle; the response types are 0, 1 and 2.\<close>

definition Response_read :: "'r buffer \<Rightarrow> ('r::zero response option \<times> 'r buffer) result" where
  "Response_read s =
    rbind (get_bool s) (\<lambda>(has_rep, s1).
      if has_rep then
        rbind (get_short s1) (\<lambda>(type, s2).
          if type \<in> {0, 1, 2} then rbind (read_rep s2 empty_response) (\<lambda>(r, s3). Inr (Some r, s3))
          else Inl (UndefinedBehaviour ''null response''))
      else Inr (None, s1))"

definition Response_write :: "short \<Rightarrow> 'r response option \<Rightarrow> 'r buffer result" where
  "Response_write type h =
    (case h of
       None \<Rightarrow> Inr (put_bool False)
     | Some r \<Rightarrow> rbind (write_rep r) (\<lambda>b. Inr (put_bool True @ put_short type @ b)))"

definition send_evaluation ::
    "('r, 'w) app_config \<Rightarrow> 'r prp \<Rightarrow> nat \<Rightarrow> int \<Rightarrow> ('r, 'w) app_state \<Rightarrow> ('r, 'w) app_state result" where
  "send_evaluation c p buff_index server_id s =
    (case msgBuffers s of
       None \<Rightarrow> Inl (UndefinedBehaviour ''null pointer'')
     | Some bs \<Rightarrow>
         if buff_index \<ge> length bs then Inl (UndefinedBehaviour ''index'')
         else if fst (bs ! buff_index) \<noteq> None then Inl (UndefinedBehaviour ''buffer in use'')
         else let rq = (server_id, eval_id p, prpVariables p, active_set_of (heap s) p) in
           Inr (s\<lparr>msgBuffers := Some (bs[buff_index := (Some rq, [])]),
             world := mpi_send c (buff_index, rq) (world s)\<rparr>))"

definition receive_evaluation ::
    "('r, 'w) app_config \<Rightarrow> 'r prp \<Rightarrow> nat \<Rightarrow> ('r::zero, 'w) app_state \<Rightarrow> ('r, 'w) app_state result" where
  "receive_evaluation c p buff_index s =
    (case msgBuffers s of
       None \<Rightarrow> Inl (UndefinedBehaviour ''null pointer'')
     | Some bs \<Rightarrow>
         if buff_index \<ge> length bs then Inl (UndefinedBehaviour ''index'')
         else rbind (Response_read (snd (bs ! buff_index))) (\<lambda>(remote, rest).
           let a = prpResponse p;
               s1 = s\<lparr>msgBuffers := Some (bs[buff_index := (fst (bs ! buff_index), rest)]),
                 rawResponseMap := map_assign (eval_id p) a (rawResponseMap s)\<rparr>
           in case remote of
                None \<Rightarrow> Inl (UndefinedBehaviour ''null response'')
              | Some r \<Rightarrow> rbind (update r True (resp_at s1 a)) (\<lambda>raw.
                  Inr (record_pair c p (set_response a raw s1)))))"

text \<open>The pending receives, and the completion of one of them.\<close>

definition pending :: "('r, 'w) app_state \<Rightarrow> 'r request list" where
  "pending s = (case msgBuffers s of None \<Rightarrow> [] | Some bs \<Rightarrow>
     List.map_filter (\<lambda>i. map_option (Pair i) (fst (bs ! i))) [0..<length bs])"

definition complete_receive :: "nat \<Rightarrow> 'r buffer \<Rightarrow> ('r, 'w) app_state \<Rightarrow> ('r, 'w) app_state" where
  "complete_receive i buf s =
    (case msgBuffers s of None \<Rightarrow> s | Some bs \<Rightarrow> s\<lparr>msgBuffers := Some (bs[i := (None, buf)])\<rparr>)"

text \<open>\<^verbatim>\<open>ParallelLibrary::waitsome\<close> and \<^verbatim>\<open>waitall\<close>: the completed indices with their tags.\<close>

definition wait_receives ::
    "('r request list \<Rightarrow> 'w \<Rightarrow> ((nat \<times> int \<times> 'r buffer) list \<times> 'w) result) \<Rightarrow> ('r, 'w) app_state \<Rightarrow>
      ((nat \<times> int) list \<times> ('r, 'w) app_state) result" where
  "wait_receives wait s =
    rbind (wait (pending s) (world s)) (\<lambda>(done, w).
      Inr (map (\<lambda>(i, tag, buf). (i, tag)) done,
        (foldl (\<lambda>s (i, tag, buf). complete_receive i buf s) s done)\<lparr>world := w\<rparr>))"

definition test_request ::
    "('r, 'w) app_config \<Rightarrow> nat \<Rightarrow> ('r, 'w) app_state \<Rightarrow> (bool \<times> ('r, 'w) app_state) result" where
  "test_request c i s =
    (case msgBuffers s of
       None \<Rightarrow> Inl (UndefinedBehaviour ''null pointer'')
     | Some bs \<Rightarrow>
         if i \<ge> length bs then Inl (UndefinedBehaviour ''index'')
         else case fst (bs ! i) of
           None \<Rightarrow> Inr (True, s)
         | Some rq \<Rightarrow> rbind (mpi_test c (i, rq) (world s)) (\<lambda>(m, w).
             Inr (case m of
                 None \<Rightarrow> (False, s\<lparr>world := w\<rparr>)
               | Some buf \<Rightarrow> (True, complete_receive i buf (s\<lparr>world := w\<rparr>)))))"

definition allocate_buffers :: "nat \<Rightarrow> ('r, 'w) app_state \<Rightarrow> ('r, 'w) app_state" where
  "allocate_buffers n s = s\<lparr>msgBuffers := Some (replicate n (None, []))\<rparr>"

definition release_buffers :: "('r, 'w) app_state \<Rightarrow> ('r, 'w) app_state" where
  "release_buffers s = s\<lparr>msgBuffers := None\<rparr>"

section \<open>Dynamic schedule by a dedicated master\<close>

definition capacity_of :: "('r, 'w) app_config \<Rightarrow> nat" where
  "capacity_of c = (if asynchLocalEvalConcurrency c > 1
     then numEvalServers c * asynchLocalEvalConcurrency c else numEvalServers c)"

fun send_first_pass ::
    "('r, 'w) app_config \<Rightarrow> nat \<Rightarrow> nat \<Rightarrow> 'r prp list \<Rightarrow> ('r, 'w) app_state \<Rightarrow>
      ('r prp list \<times> ('r, 'w) app_state) result" where
  "send_first_pass c i num_sends [] s = Inr ([], s)"
| "send_first_pass c i num_sends (p # ps) s =
    (if i < num_sends then
       rbind (send_evaluation c p i (int (i mod numEvalServers c + 1)) s) (send_first_pass c (Suc i) num_sends ps)
     else Inr (p # ps, s))"

text \<open>The inner loop over the completions of one wait: receive, and send the next job to the same server.\<close>

fun master_backfill ::
    "('r, 'w) app_config \<Rightarrow> (nat \<times> int) list \<Rightarrow> 'r prp list \<Rightarrow> ('r::zero, 'w) app_state \<Rightarrow>
      ('r prp list \<times> ('r, 'w) app_state) result" where
  "master_backfill c [] prp_iter s = Inr (prp_iter, s)"
| "master_backfill c ((index, tag) # done) prp_iter s =
    (case lookup_by_eval_id tag (beforeSynchCorePRPQueue s) of
       None \<Rightarrow> Inl (UndefinedBehaviour ''end iterator'')
     | Some p \<Rightarrow> rbind (receive_evaluation c p index s) (\<lambda>s1.
         case prp_iter of
           [] \<Rightarrow> master_backfill c done [] s1
         | p' # ps \<Rightarrow> rbind (send_evaluation c p' index (int (index mod numEvalServers c + 1)) s1)
             (master_backfill c done ps)))"

fun master_loop ::
    "nat \<Rightarrow> ('r, 'w) app_config \<Rightarrow> nat \<Rightarrow> nat \<Rightarrow> 'r prp list \<Rightarrow> ('r::zero, 'w) app_state \<Rightarrow>
      ('r, 'w) app_state result" where
  "master_loop fuel c num_jobs recv_cntr prp_iter s =
    (if recv_cntr < num_jobs then
       case fuel of
         0 \<Rightarrow> Inl OutOfFuel
       | Suc n \<Rightarrow> rbind (wait_receives (mpi_waitsome c) s) (\<lambda>(done, s1).
           rbind (master_backfill c done prp_iter s1) (\<lambda>(prp_iter', s2).
             master_loop n c num_jobs (recv_cntr + length done) prp_iter' s2))
     else Inr s)"

declare master_loop.simps [simp del]

fun receive_in_order ::
    "('r, 'w) app_config \<Rightarrow> nat \<Rightarrow> 'r prp list \<Rightarrow> ('r::zero, 'w) app_state \<Rightarrow> ('r, 'w) app_state result" where
  "receive_in_order c i [] s = Inr s"
| "receive_in_order c i (p # ps) s = rbind (receive_evaluation c p i s) (receive_in_order c (Suc i) ps)"

definition master_dynamic_schedule_evaluations ::
    "nat \<Rightarrow> ('r, 'w) app_config \<Rightarrow> ('r::zero, 'w) app_state \<Rightarrow> ('r, 'w) app_state result" where
  "master_dynamic_schedule_evaluations fuel c s =
    (let q = beforeSynchCorePRPQueue s; num_jobs = length q; num_sends = min (capacity_of c) num_jobs in
     rbind (send_first_pass c 0 num_sends q (allocate_buffers num_sends s)) (\<lambda>(prp_iter, s1).
     rbind
       (if num_sends < num_jobs then master_loop fuel c num_jobs 0 prp_iter s1
        else rbind (wait_receives (mpi_waitall c) s1) (\<lambda>(_, s2). receive_in_order c 0 q s2)) (\<lambda>s3.
     Inr (release_buffers s3))))"

section \<open>Static schedule among peers\<close>

text \<open>Round-robin assignment of the jobs with numbers \<open>i\<close>, \<open>i + 1\<close>, \<dots>: the remote ones are sent, and
  noted in the running map if \<open>track\<close>; the others form the local queue.\<close>

fun assign_round_robin ::
    "bool \<Rightarrow> ('r, 'w) app_config \<Rightarrow> nat \<Rightarrow> nat \<Rightarrow> 'r prp list \<Rightarrow> 'r prp list \<Rightarrow> ('r, 'w) app_state \<Rightarrow>
      ('r prp list \<times> ('r, 'w) app_state) result" where
  "assign_round_robin track c i buff_index [] local_prp_queue s = Inr (local_prp_queue, s)"
| "assign_round_robin track c i buff_index (p # ps) local_prp_queue s =
    (let server_id = i mod numEvalServers c in
     if server_id \<noteq> 0 then
       rbind (send_evaluation c p buff_index (int server_id) s) (\<lambda>s1.
         assign_round_robin track c (Suc i) (Suc buff_index) ps local_prp_queue
           (if track then s1\<lparr>msgPassRunningMap :=
              map_assign (eval_id p) (int server_id, buff_index) (msgPassRunningMap s1)\<rparr> else s1))
     else assign_round_robin track c (Suc i) buff_index ps (queue_insert p local_prp_queue) s)"

fun receive_round_robin ::
    "('r, 'w) app_config \<Rightarrow> nat \<Rightarrow> nat \<Rightarrow> 'r prp list \<Rightarrow> ('r::zero, 'w) app_state \<Rightarrow> ('r, 'w) app_state result" where
  "receive_round_robin c i buff_index [] s = Inr s"
| "receive_round_robin c i buff_index (p # ps) s =
    (if i mod numEvalServers c \<noteq> 0 then
       rbind (receive_evaluation c p buff_index s) (receive_round_robin c (Suc i) (Suc buff_index) ps)
     else receive_round_robin c (Suc i) buff_index ps s)"

definition peer_static_schedule_evaluations ::
    "nat \<Rightarrow> ('r, 'w) app_config \<Rightarrow> ('r::{zero, one, plus, minus, inverse, abs, ord}, 'w) app_state \<Rightarrow>
      ('r, 'w) app_state result" where
  "peer_static_schedule_evaluations fuel c s =
    (let q = beforeSynchCorePRPQueue s; num_jobs = length q;
         num_peer1_jobs = num_jobs div numEvalServers c; num_sends = num_jobs - num_peer1_jobs in
     rbind (assign_round_robin False c 1 0 q [] (allocate_buffers num_sends s)) (\<lambda>(local_prp_queue, s1).
     rbind
       (if asynchLocalEvalConcurrency c > 1 then asynchronous_local_evaluations fuel c local_prp_queue s1
        else synchronous_local_evaluations fuel c local_prp_queue s1) (\<lambda>s2.
     rbind
       (if num_sends \<noteq> 0 then
          rbind (wait_receives (mpi_waitall c) s2) (\<lambda>(_, s3). receive_round_robin c 1 0 q s3)
        else Inr s2) (\<lambda>s4.
     Inr (release_buffers s4)))))"

section \<open>Dynamic schedule among peers\<close>

definition is_running :: "('r, 'w) app_state \<Rightarrow> 'r prp \<Rightarrow> bool" where
  "is_running s p \<longleftrightarrow> map_of (msgPassRunningMap s) (eval_id p) \<noteq> None \<or>
     lookup_by_eval_id (eval_id p) (asynchLocalActivePRPQueue s) \<noteq> None \<or>
     map_of (rawResponseMap s) (eval_id p) \<noteq> None"

text \<open>The loop over the running map; \<open>removals\<close> maps a completed id to the id of its replacement, or 0.\<close>

fun test_receives_loop ::
    "('r, 'w) app_config \<Rightarrow> (int \<times> int \<times> nat) list \<Rightarrow> (int \<times> int) list \<Rightarrow> 'r prp list \<Rightarrow> ('r::zero, 'w) app_state \<Rightarrow>
      ((int \<times> int) list \<times> 'r prp list \<times> ('r, 'w) app_state) result" where
  "test_receives_loop c [] removals assign_iter s = Inr (removals, assign_iter, s)"
| "test_receives_loop c ((fn_eval_id, server_id, buff_index) # running) removals assign_iter s =
    rbind (test_request c buff_index s) (\<lambda>(mpi_test_flag, s1).
      if mpi_test_flag then
        case lookup_by_eval_id fn_eval_id (beforeSynchCorePRPQueue s1) of
          None \<Rightarrow> Inl (UndefinedBehaviour ''end iterator'')
        | Some p \<Rightarrow> rbind (receive_evaluation c p buff_index s1) (\<lambda>s2.
            case dropWhile (is_running s2) assign_iter of
              [] \<Rightarrow> test_receives_loop c running (map_assign fn_eval_id 0 removals) [] s2
            | p' # ps \<Rightarrow> rbind (send_evaluation c p' buff_index server_id s2)
                (test_receives_loop c running (map_assign fn_eval_id (eval_id p') removals) ps))
      else test_receives_loop c running removals assign_iter s1)"

definition apply_removal ::
    "int \<times> int \<Rightarrow> (int \<times> int \<times> nat) list \<Rightarrow> (int \<times> int \<times> nat) list result" where
  "apply_removal e m =
    (case e of (remove_id, replace_id) \<Rightarrow>
       if replace_id \<noteq> 0 then
         case map_of m remove_id of
           None \<Rightarrow> Inl (UndefinedBehaviour ''end iterator'')
         | Some v \<Rightarrow> Inr (map_erase remove_id (map_assign replace_id v m))
       else Inr (map_erase remove_id m))"

definition test_receives_backfill ::
    "('r, 'w) app_config \<Rightarrow> 'r prp list \<Rightarrow> ('r::zero, 'w) app_state \<Rightarrow>
      (nat \<times> 'r prp list \<times> ('r, 'w) app_state) result" where
  "test_receives_backfill c assign_iter s =
    rbind (test_receives_loop c (msgPassRunningMap s) [] assign_iter s) (\<lambda>(removals, assign_iter', s1).
    rbind (rfold apply_removal removals (msgPassRunningMap s1)) (\<lambda>m.
      Inr (length removals, assign_iter', s1\<lparr>msgPassRunningMap := m\<rparr>)))"

fun peer_dynamic_loop ::
    "nat \<Rightarrow> ('r, 'w) app_config \<Rightarrow> nat \<Rightarrow> nat \<Rightarrow> 'r prp list \<Rightarrow> ('r::zero, 'w) app_state \<Rightarrow>
      ('r, 'w) app_state result" where
  "peer_dynamic_loop fuel c num_jobs recv_cntr assign_iter s =
    (if recv_cntr < num_jobs then
       case fuel of
         0 \<Rightarrow> Inl OutOfFuel
       | Suc n \<Rightarrow> rbind (test_receives_backfill c assign_iter s) (\<lambda>(receives, assign_iter1, s1).
           rbind (test_local_backfill c (beforeSynchCorePRPQueue s1) assign_iter1 s1) (\<lambda>(completed, assign_iter2, s2).
             peer_dynamic_loop n c num_jobs (recv_cntr + receives + completed) assign_iter2 s2))
     else Inr s)"

declare peer_dynamic_loop.simps [simp del]

definition peer_dynamic_schedule_evaluations ::
    "nat \<Rightarrow> ('r, 'w) app_config \<Rightarrow> ('r::zero, 'w) app_state \<Rightarrow> ('r, 'w) app_state result" where
  "peer_dynamic_schedule_evaluations fuel c s =
    (let q = beforeSynchCorePRPQueue s; num_jobs = length q;
         server_capacity = max 1 (asynchLocalEvalConcurrency c);
         total_capacity = numEvalServers c * server_capacity;
         num_assign = min total_capacity num_jobs;
         num_local_assign = num_assign div numEvalServers c;
         num_remote_assign = num_assign - num_local_assign in
     rbind (assign_round_robin True c 1 0 (take num_assign q) [] (allocate_buffers num_remote_assign s))
       (\<lambda>(local_prp_queue, s1).
     rbind (assign_asynch_local_queue c local_prp_queue s1) (\<lambda>(_, s2).
     rbind (peer_dynamic_loop fuel c num_jobs 0 (drop num_assign q) s2) (\<lambda>s3.
     Inr (release_buffers s3)))))"

section \<open>Pending receives\<close>

text \<open>The tags of the pending receives of a buffer array.\<close>

definition ptags :: "((int \<times> int \<times> 'r variables \<times> active_set) option \<times> 'r buffer) list \<Rightarrow> int list" where
  "ptags bs = List.map_filter (\<lambda>b. map_option (\<lambda>(server, tag, _). tag) (fst b)) bs"

definition tag_of :: "(int \<times> int \<times> 'r variables \<times> active_set) option \<Rightarrow> int multiset" where
  "tag_of rq = (case rq of None \<Rightarrow> {#} | Some (server, tag, _) \<Rightarrow> {#tag#})"

lemma ptags_simps [simp]:
  "ptags [] = []" "ptags (b # bs) = (case fst b of None \<Rightarrow> ptags bs | Some (server, tag, _) \<Rightarrow> tag # ptags bs)"
  by (auto simp: ptags_def map_filter_simps split: option.splits)

lemma mset_ptags_Cons: "mset (ptags (b # bs)) = tag_of (fst b) + mset (ptags bs)"
  by (auto simp: tag_of_def split: option.splits)

lemma ptags_replicate [simp]: "ptags (replicate n (None, x)) = []"
  by (induction n) auto

lemma ptags_update:
  "i < length bs \<Longrightarrow> mset (ptags (bs[i := b])) + tag_of (fst (bs ! i)) = mset (ptags bs) + tag_of (fst b)"
proof (induction bs arbitrary: i)
  case (Cons a bs)
  show ?case
  proof (cases i)
    case 0
    then show ?thesis by (simp add: mset_ptags_Cons del: ptags_simps)
  next
    case (Suc j)
    then show ?thesis using Cons.IH [of j] Cons.prems
      by (simp add: mset_ptags_Cons add.assoc del: ptags_simps)
  qed
qed simp

lemma in_set_map_filter: "x \<in> set (List.map_filter f xs) \<longleftrightarrow> (\<exists>y \<in> set xs. f y = Some x)"
  by (induction xs) (auto simp: map_filter_simps split: option.splits)

lemma set_pending:
  "r \<in> set (pending s) \<longleftrightarrow> (\<exists>bs. msgBuffers s = Some bs \<and> fst r < length bs \<and> fst (bs ! fst r) = Some (snd r))"
  by (cases r; cases "msgBuffers s") (auto simp: pending_def in_set_map_filter)

lemma ptags_Nil_iff: "ptags bs = [] \<longleftrightarrow> (\<forall>i < length bs. fst (bs ! i) = None)"
proof -
  have "ptags bs = [] \<longleftrightarrow> (\<forall>b \<in> set bs. fst b = None)" by (induction bs) (auto split: option.splits)
  then show ?thesis by (simp add: all_set_conv_all_nth)
qed

lemma pending_Nil: "msgBuffers s = Some bs \<Longrightarrow> pending s = [] \<longleftrightarrow> ptags bs = []"
  by (auto simp: pending_def ptags_Nil_iff map_filter_def filter_empty_conv simp del: not_None_eq not_Some_eq)

text \<open>A message that decodes to a response for the active set \<open>st\<close>.\<close>

definition answers :: "'r::zero buffer \<Rightarrow> active_set \<Rightarrow> bool" where
  "answers buf st \<longleftrightarrow> (\<exists>r rest. Response_read buf = Inr (Some r, rest) \<and> resp_ready r \<and> responseActiveSet r = st)"

text \<open>The jobs without a response.\<close>

definition unfinished :: "'r prp list \<Rightarrow> ('r, 'w) app_state \<Rightarrow> 'r prp list" where
  "unfinished q s = filter (\<lambda>p. map_of (rawResponseMap s) (eval_id p) = None) q"

text \<open>Every pending request is for the active set of its job; the messages of the arrived jobs \<open>arr\<close>
  (buffer index and evaluation id) answer them.\<close>

definition request_ok :: "'r prp list \<Rightarrow> ('r prp \<Rightarrow> active_set) \<Rightarrow>
    (int \<times> int \<times> 'r variables \<times> active_set) option \<Rightarrow> bool" where
  "request_ok q sets rq = (case rq of None \<Rightarrow> True | Some (srv, tag, v, st) \<Rightarrow>
     \<forall>p \<in> set q. eval_id p = tag \<longrightarrow> st = sets p)"

definition requests_ok :: "'r prp list \<Rightarrow> ('r prp \<Rightarrow> active_set) \<Rightarrow>
    ((int \<times> int \<times> 'r variables \<times> active_set) option \<times> 'r buffer) list \<Rightarrow> bool" where
  "requests_ok q sets bs \<longleftrightarrow> (\<forall>b \<in> set bs. request_ok q sets (fst b))"

definition arrivals_ok :: "'r prp list \<Rightarrow> ('r prp \<Rightarrow> active_set) \<Rightarrow>
    ((int \<times> int \<times> 'r variables \<times> active_set) option \<times> 'r::zero buffer) list \<Rightarrow> (nat \<times> int) list \<Rightarrow> bool" where
  "arrivals_ok q sets bs arr \<longleftrightarrow> distinct (map fst arr) \<and>
     (\<forall>(i, tag) \<in> set arr. i < length bs \<and> fst (bs ! i) = None \<and>
       (\<forall>p \<in> set q. eval_id p = tag \<longrightarrow> answers (snd (bs ! i)) (sets p)))"

text \<open>
  The books of a message-passing schedule of \<open>q\<close> with \<open>n\<close> buffers: the unfinished jobs are the arrived
  ones \<open>arr\<close>, the pending ones and the ones with ids \<open>R\<close>, each exactly once.
\<close>

definition msgs_ok ::
    "'r prp list \<Rightarrow> nat \<Rightarrow> (nat \<times> int) list \<Rightarrow> int multiset \<Rightarrow> ('r::zero, 'w) app_state \<Rightarrow> bool" where
  "msgs_ok q n arr R s \<longleftrightarrow> (\<exists>bs. msgBuffers s = Some bs \<and> length bs = n \<and>
     mset (map snd arr) + mset (ptags bs) + R = mset (map eval_id (unfinished q s)) \<and>
     requests_ok q (active_set_of (heap s)) bs \<and> arrivals_ok q (active_set_of (heap s)) bs arr)"

lemma requests_ok_update:
  "requests_ok q sets bs \<Longrightarrow> request_ok q sets (fst b) \<Longrightarrow> requests_ok q sets (bs[i := b])"
  unfolding requests_ok_def using set_update_subset_insert [of bs i b] by auto

lemma request_ok_None [simp]: "request_ok q sets None"
  by (simp add: request_ok_def)

lemma arrivals_ok_update:
  assumes "arrivals_ok q sets bs arr" "i \<notin> fst ` set arr"
  shows "arrivals_ok q sets (bs[i := b]) arr"
proof -
  have "bs[i := b] ! fst e = bs ! fst e" if "e \<in> set arr" for e
    using that assms(2) by (metis image_eqI nth_list_update_neq)
  then show ?thesis using assms(1) by (auto simp: arrivals_ok_def case_prod_unfold)
qed

lemma arrivals_ok_Cons:
  "arrivals_ok q sets bs ((i, tag) # arr) \<longleftrightarrow> arrivals_ok q sets bs arr \<and> i \<notin> fst ` set arr \<and> i < length bs \<and>
    fst (bs ! i) = None \<and> (\<forall>p \<in> set q. eval_id p = tag \<longrightarrow> answers (snd (bs ! i)) (sets p))"
  by (auto simp: arrivals_ok_def)

text \<open>What sending and receiving keeps.\<close>

definition msg_frame :: "'r prp list \<Rightarrow> ('r, 'w) app_state \<Rightarrow> ('r, 'w) app_state \<Rightarrow> bool" where
  "msg_frame q s s' \<longleftrightarrow> sched_frame q (s\<lparr>msgBuffers := None\<rparr>) (s'\<lparr>msgBuffers := None\<rparr>) \<and>
     active s' = active s"

definition all_ready :: "'r prp list \<Rightarrow> ('r, 'w) app_state \<Rightarrow> bool" where
  "all_ready q s \<longleftrightarrow> (\<forall>p \<in> set q. resp_ready (resp_at s (prpResponse p)))"

lemma msg_frame_refl [simp]: "msg_frame q s s"
  by (simp add: msg_frame_def)

lemma msg_frame_trans: "msg_frame q s t \<Longrightarrow> msg_frame q t u \<Longrightarrow> msg_frame q s u"
  unfolding msg_frame_def by (auto intro: sched_frame_trans)

lemma msg_frame_mono: "msg_frame q s t \<Longrightarrow> set q \<subseteq> set q' \<Longrightarrow> msg_frame q' s t"
  unfolding msg_frame_def by (auto intro: sched_frame_mono)

lemma msg_frame_sched: "sched_frame q s s' \<Longrightarrow> active s' = active s \<Longrightarrow> msg_frame q s s'"
  by (simp add: msg_frame_def sched_frame_def)

lemma msg_frame_ready: "msg_frame q s s' \<Longrightarrow> all_ready q s \<Longrightarrow> all_ready q s'"
  by (simp add: msg_frame_def sched_frame_def all_ready_def)

lemma msg_frame_queue: "msg_frame q s s' \<Longrightarrow> beforeSynchCorePRPQueue s' = beforeSynchCorePRPQueue s"
  by (simp add: msg_frame_def sched_frame_def)

lemma msg_frame_sets: "msg_frame q s s' \<Longrightarrow> active_set_of (heap s') = active_set_of (heap s)"
  by (simp add: msg_frame_def sched_frame_def active_set_of_def fun_eq_iff)

lemma msg_frame_buffers [simp]: "msg_frame q s (s'\<lparr>msgBuffers := b\<rparr>) = msg_frame q s s'"
    "msg_frame q (s\<lparr>msgBuffers := b\<rparr>) s' = msg_frame q s s'"
  by (simp_all add: msg_frame_def)

lemma msg_frame_world [simp]: "msg_frame q s (s'\<lparr>world := w\<rparr>) = msg_frame q s s'"
  by (simp add: msg_frame_def sched_frame_def)

lemma distinct_ids: "queue_ok q \<Longrightarrow> distinct (map eval_id q)"
  by (simp add: queue_ok_def uidx_ok_def)

lemma unfinished_ids:
  assumes "queue_ok q"
  shows "distinct (map eval_id (unfinished q s))"
    "set (map eval_id (unfinished q s)) = {i \<in> eval_id ` set q. map_of (rawResponseMap s) i = None}"
  using distinct_ids [OF assms] by (auto simp: unfinished_def distinct_map_filter)

text \<open>One more job is finished.\<close>

lemma unfinished_finish:
  assumes q: "queue_ok q" "p \<in> set q" and n: "map_of (rawResponseMap s) (eval_id p) = None"
    and r: "rawResponseMap s' = map_assign (eval_id p) a (rawResponseMap s)"
  shows "mset (map eval_id (unfinished q s)) = add_mset (eval_id p) (mset (map eval_id (unfinished q s')))"
proof -
  let ?u = "map eval_id (unfinished q s)"
  have "set (map eval_id (unfinished q s')) = set ?u - {eval_id p}"
    unfolding unfinished_ids(2) [OF q(1)] using r by auto
  then have "mset (map eval_id (unfinished q s')) = mset_set (set ?u - {eval_id p})"
    using unfinished_ids(1) [OF q(1), of s'] by (metis mset_set_set)
  moreover have "mset ?u = mset_set (set ?u)" using unfinished_ids(1) [OF q(1), of s] by (metis mset_set_set)
  moreover have "eval_id p \<in> set ?u" unfolding unfinished_ids(2) [OF q(1)] using q(2) n by simp
  ultimately show ?thesis by (metis List.finite_set mset_set.remove)
qed

section \<open>Sending and receiving\<close>

lemma send_evaluation_ok:
  assumes m: "msgs_ok q n arr (add_mset (eval_id p) R) s" "queue_ok q" "p \<in> set q"
    and i: "i < n" "i \<notin> fst ` set arr" and b: "msgBuffers s = Some bs" "fst (bs ! i) = None"
  shows "\<exists>s'. send_evaluation c p i srv s = Inr s' \<and> msgs_ok q n arr R s' \<and> msg_frame q s s' \<and>
    rawResponseMap s' = rawResponseMap s \<and>
    msgBuffers s' = Some (bs[i := (Some (srv, eval_id p, prpVariables p, active_set_of (heap s) p), [])])"
proof -
  let ?rq = "(srv, eval_id p, prpVariables p, active_set_of (heap s) p)"
  let ?s' = "s\<lparr>msgBuffers := Some (bs[i := (Some ?rq, [])]), world := mpi_send c (i, ?rq) (world s)\<rparr>"
  have l: "length bs = n" using m(1) b(1) by (auto simp: msgs_ok_def)
  have e: "send_evaluation c p i srv s = Inr ?s'" using b i l by (simp add: send_evaluation_def Let_def)
  have "mset (ptags (bs[i := (Some ?rq, [])])) = add_mset (eval_id p) (mset (ptags bs))"
    using ptags_update [of i bs "(Some ?rq, [])"] i(1) l b(2) by (simp add: tag_of_def)
  then have t: "mset (ptags (bs[i := (Some ?rq, [])])) = add_mset (eval_id p) (mset (ptags bs))" .
  moreover have "requests_ok q (active_set_of (heap s)) (bs[i := (Some ?rq, [])])"
    using m(1) b(1) queue.unique [OF m(2)] m(3)
    by (intro requests_ok_update) (auto simp: msgs_ok_def request_ok_def)
  moreover have "arrivals_ok q (active_set_of (heap s)) (bs[i := (Some ?rq, [])]) arr"
    using m(1) b(1) i(2) by (intro arrivals_ok_update) (auto simp: msgs_ok_def)
  ultimately have "msgs_ok q n arr R ?s'"
    using m(1) b(1) l by (simp add: msgs_ok_def unfinished_def)
  then show ?thesis using e by simp
qed

lemma receive_evaluation_ok:
  assumes m: "msgs_ok q n ((i, eval_id p) # arr) R s" "queue_ok q" "p \<in> set q" and r: "all_ready q s"
    and b: "msgBuffers s = Some bs"
  shows "\<exists>s' rest. receive_evaluation c p i s = Inr s' \<and> msgs_ok q n arr R s' \<and> msg_frame q s s' \<and>
    rawResponseMap s' = map_assign (eval_id p) (prpResponse p) (rawResponseMap s) \<and>
    map_of (rawResponseMap s) (eval_id p) = None \<and> msgBuffers s' = Some (bs[i := (None, rest)])"
proof -
  let ?a = "prpResponse p"
  have l: "length bs = n" "i < n" "fst (bs ! i) = None" "answers (snd (bs ! i)) (active_set_of (heap s) p)"
      "i \<notin> fst ` set arr"
    using m b by (auto simp: msgs_ok_def arrivals_ok_Cons)
  then obtain x rest where x: "Response_read (snd (bs ! i)) = Inr (Some x, rest)" "resp_ready x"
      "responseActiveSet x = responseActiveSet (resp_at s ?a)" by (auto simp: answers_def active_set_of_def)
  have "\<exists>r'. update x True (resp_at s ?a) = Inr r' \<and> resp_ready r' \<and> responseActiveSet r' = responseActiveSet (resp_at s ?a)"
  proof -
    have a: "resp_asv x = resp_asv (resp_at s ?a)" "resp_dvv x = resp_dvv (resp_at s ?a)"
      using x(3) by (simp_all add: resp_asv_def resp_dvv_def)
    have "resp_ready (resp_at s ?a)" using r m(3) by (simp add: all_ready_def)
    then show ?thesis using update_ready [of "resp_at s ?a" x True] x(2) a by (auto simp: resp_ready_def)
  qed
  then obtain raw where u: "update x True (resp_at s ?a) = Inr raw" "resp_ready raw"
      "responseActiveSet raw = responseActiveSet (resp_at s ?a)" by blast
  let ?s1 = "s\<lparr>msgBuffers := Some (bs[i := (None, rest)]), rawResponseMap := map_assign (eval_id p) ?a (rawResponseMap s)\<rparr>"
  let ?s2 = "set_response ?a raw ?s1"
  have "receive_evaluation c p i s = Inr (record_pair c p ?s2)"
    using b l x(1) u(1) by (simp add: receive_evaluation_def Let_def)
  moreover have "msg_frame q s ?s2" using u(2,3) m(3) by (auto simp: msg_frame_def sched_frame_def set_response_def)
  moreover have "msg_frame q ?s2 (record_pair c p ?s2)"
    using m(3) by (auto simp: msg_frame_def sched_frame_def record_pair_def write_restart_def Let_def)
  moreover have "map_of (rawResponseMap s) (eval_id p) = None"
  proof -
    have "mset (map eval_id (unfinished q s)) = add_mset (eval_id p) (mset (map snd arr) + mset (ptags bs) + R)"
      using m(1) b by (simp add: msgs_ok_def)
    then have "eval_id p \<in> set (map eval_id (unfinished q s))" by (metis set_mset_mset union_single_eq_member)
    then show ?thesis using unfinished_ids [OF m(2), of s] by auto
  qed
  ultimately have f: "receive_evaluation c p i s = Inr (record_pair c p ?s2)" "msg_frame q s (record_pair c p ?s2)"
      and none: "map_of (rawResponseMap s) (eval_id p) = None" by (auto intro: msg_frame_trans)
  have buf: "msgBuffers (record_pair c p ?s2) = Some (bs[i := (None, rest)])"
      "rawResponseMap (record_pair c p ?s2) = rawResponseMap ?s1"
    by (simp_all add: record_pair_def write_restart_def Let_def set_response_def)
  have "mset (ptags (bs[i := (None, rest)])) = mset (ptags bs)"
    using ptags_update [of i bs "(None, rest)"] l(1-3) by (simp add: tag_of_def)
  moreover have "mset (map eval_id (unfinished q s)) = add_mset (eval_id p) (mset (map eval_id (unfinished q (record_pair c p ?s2))))"
    using buf(2) by (intro unfinished_finish [OF m(2,3) none]) simp
  moreover have "requests_ok q (active_set_of (heap s)) (bs[i := (None, rest)])"
    "arrivals_ok q (active_set_of (heap s)) (bs[i := (None, rest)]) arr"
    using m(1) b l(5) by (auto simp: msgs_ok_def arrivals_ok_Cons intro!: requests_ok_update arrivals_ok_update)
  ultimately have "msgs_ok q n arr R (record_pair c p ?s2)"
    using m(1) b l(1) buf(1) msg_frame_sets [OF f(2)] by (simp add: msgs_ok_def)
  then show ?thesis using f none buf by auto
qed


text \<open>The contract of the message-passing library and the servers: completed receives were pending, and
  a message decodes to a response sized for the active set that was sent.\<close>

definition receives_valid :: "'r::zero request list \<Rightarrow> (nat \<times> int \<times> 'r buffer) list \<Rightarrow> bool" where
  "receives_valid reqs done \<longleftrightarrow> distinct (map fst done) \<and>
    (\<forall>(i, tag, buf) \<in> set done. \<exists>srv v st. (i, srv, tag, v, st) \<in> set reqs \<and> answers buf st)"

definition waitsome_contract :: "('r::zero, 'w) app_config \<Rightarrow> bool" where
  "waitsome_contract c \<longleftrightarrow> (\<forall>reqs w. reqs \<noteq> [] \<longrightarrow>
    (\<exists>done w'. mpi_waitsome c reqs w = Inr (done, w') \<and> done \<noteq> [] \<and> receives_valid reqs done))"

definition waitall_contract :: "('r::zero, 'w) app_config \<Rightarrow> bool" where
  "waitall_contract c \<longleftrightarrow> (\<forall>reqs w. \<exists>done w'. mpi_waitall c reqs w = Inr (done, w') \<and>
    receives_valid reqs done \<and> fst ` set reqs \<subseteq> fst ` set done)"

lemma complete_receive_ok:
  assumes m: "msgs_ok q n arr R s" and r: "(i, srv, tag, v, st) \<in> set (pending s)" "answers buf st"
  shows "msgs_ok q n (arr @ [(i, tag)]) R (complete_receive i buf s)"
    "set (pending (complete_receive i buf s)) = {x \<in> set (pending s). fst x \<noteq> i}"
    "msg_frame q s (complete_receive i buf s)" "rawResponseMap (complete_receive i buf s) = rawResponseMap s"
proof -
  obtain bs where b: "msgBuffers s = Some bs" "length bs = n"
      "mset (map snd arr) + mset (ptags bs) + R = mset (map eval_id (unfinished q s))"
      "requests_ok q (active_set_of (heap s)) bs" "arrivals_ok q (active_set_of (heap s)) bs arr"
    using m by (auto simp: msgs_ok_def)
  have i: "i < n" "fst (bs ! i) = Some (srv, tag, v, st)" using r(1) b(1,2) by (auto simp: set_pending)
  have s': "complete_receive i buf s = s\<lparr>msgBuffers := Some (bs[i := (None, buf)])\<rparr>" by (simp add: complete_receive_def b(1))
  have ni: "i \<notin> fst ` set arr" using b(5) i(2) by (auto simp: arrivals_ok_def)
  have "request_ok q (active_set_of (heap s)) (fst (bs ! i))" using b(2,4) i(1) by (simp add: requests_ok_def)
  then have "\<forall>p \<in> set q. eval_id p = tag \<longrightarrow> answers buf (active_set_of (heap s) p)"
    using i(2) r(2) by (auto simp: request_ok_def)
  then have "arrivals_ok q (active_set_of (heap s)) (bs[i := (None, buf)]) ((i, tag) # arr)"
    using arrivals_ok_update [OF b(5) ni] ni i(1) b(2) by (simp add: arrivals_ok_Cons)
  then have "arrivals_ok q (active_set_of (heap s)) (bs[i := (None, buf)]) (arr @ [(i, tag)])"
    by (auto simp: arrivals_ok_def)
  moreover have "add_mset tag (mset (ptags (bs[i := (None, buf)]))) = mset (ptags bs)"
    using ptags_update [of i bs "(None, buf)"] i b(2) by (simp add: tag_of_def)
  moreover have "requests_ok q (active_set_of (heap s)) (bs[i := (None, buf)])"
    using b(4) by (intro requests_ok_update) auto
  ultimately show "msgs_ok q n (arr @ [(i, tag)]) R (complete_receive i buf s)"
    using b(2,3) by (simp add: msgs_ok_def s' unfinished_def)
      (metis (no_types, lifting) add_mset_add_single union_mset_add_mset_left union_mset_add_mset_right)
  show "set (pending (complete_receive i buf s)) = {x \<in> set (pending s). fst x \<noteq> i}"
    using b(1,2) i by (auto simp: set_pending s' nth_list_update split: if_splits)
  show "msg_frame q s (complete_receive i buf s)" "rawResponseMap (complete_receive i buf s) = rawResponseMap s"
    by (simp_all add: s')
qed

lemma receives_valid_tail:
  assumes "receives_valid reqs (e # es)" "set reqs' = {x \<in> set reqs. fst x \<noteq> fst e}"
  shows "receives_valid reqs' es"
  unfolding receives_valid_def
proof (intro conjI ballI)
  show "distinct (map fst es)" using assms(1) by (simp add: receives_valid_def)
  fix x assume x: "x \<in> set es"
  obtain i tag buf where e: "x = (i, tag, buf)" by (metis prod_cases3)
  have "i \<noteq> fst e" using assms(1) x e by (force simp: receives_valid_def)
  moreover obtain srv v st where "(i, srv, tag, v, st) \<in> set reqs" "answers buf st"
    using assms(1) x e by (auto simp: receives_valid_def)
  ultimately show "case x of (i, tag, buf) \<Rightarrow> \<exists>srv v st. (i, srv, tag, v, st) \<in> set reqs' \<and> answers buf st"
    using e assms(2) by auto
qed

lemma msgs_world [simp]:
  "msgs_ok q n arr R (s\<lparr>world := w\<rparr>) = msgs_ok q n arr R s" "pending (s\<lparr>world := w\<rparr>) = pending s"
  by (simp_all add: msgs_ok_def pending_def unfinished_def)

lemma complete_receives_ok:
  assumes "msgs_ok q n arr R s" "receives_valid (pending s) done"
  shows "let s' = foldl (\<lambda>s (i, tag, buf). complete_receive i buf s) s done in
    msgs_ok q n (arr @ map (\<lambda>(i, tag, buf). (i, tag)) done) R s' \<and> msg_frame q s s' \<and>
    rawResponseMap s' = rawResponseMap s \<and> set (pending s') = {x \<in> set (pending s). fst x \<notin> fst ` set done}"
  using assms
proof (induction "done" arbitrary: s arr)
  case (Cons e es)
  obtain i tag buf where e: "e = (i, tag, buf)" by (metis prod_cases3)
  then obtain srv v st where r: "(i, srv, tag, v, st) \<in> set (pending s)" "answers buf st"
    using Cons.prems(2) by (auto simp: receives_valid_def)
  let ?s1 = "complete_receive i buf s"
  note c = complete_receive_ok [OF Cons.prems(1) r]
  have "receives_valid (pending ?s1) es" by (rule receives_valid_tail [OF Cons.prems(2)]) (simp add: c(2) e)
  from Cons.IH [OF c(1) this] show ?case
    using c by (auto simp: e Let_def intro: msg_frame_trans)
qed simp

lemma wait_receives_ok:
  assumes "msgs_ok q n [] R s" "wait (pending s) (world s) = Inr (done, w)" "receives_valid (pending s) done"
  shows "\<exists>s'. wait_receives wait s = Inr (map (\<lambda>(i, tag, buf). (i, tag)) done, s') \<and>
    msgs_ok q n (map (\<lambda>(i, tag, buf). (i, tag)) done) R s' \<and> msg_frame q s s' \<and>
    rawResponseMap s' = rawResponseMap s \<and> set (pending s') = {x \<in> set (pending s). fst x \<notin> fst ` set done}"
  using complete_receives_ok [OF assms(1,3)] assms(2)
  by (simp add: wait_receives_def Let_def)


section \<open>Sending a list of jobs\<close>

text \<open>The first passes send a list of jobs, with their servers, into consecutive buffers.\<close>

fun send_list ::
    "('r, 'w) app_config \<Rightarrow> nat \<Rightarrow> ('r prp \<times> int) list \<Rightarrow> ('r, 'w) app_state \<Rightarrow> ('r, 'w) app_state result" where
  "send_list c i [] s = Inr s"
| "send_list c i (x # xs) s = rbind (send_evaluation c (fst x) i (snd x) s) (send_list c (Suc i) xs)"

definition tag_at :: "('r, 'w) app_state \<Rightarrow> nat \<Rightarrow> int option" where
  "tag_at s j = map_option (\<lambda>(srv, tag, _). tag) (fst (the (msgBuffers s) ! j))"

lemma tag_at_None: "tag_at s j = None \<longleftrightarrow> fst (the (msgBuffers s) ! j) = None"
  by (simp add: tag_at_def)

lemma send_list_ok:
  assumes "queue_ok q" "fst ` set xs \<subseteq> set q" "msgs_ok q n [] (mset (map (\<lambda>x. eval_id (fst x)) xs) + R) s"
    and "i + length xs \<le> n" "\<forall>j. i \<le> j \<longrightarrow> j < i + length xs \<longrightarrow> tag_at s j = None"
  shows "\<exists>s'. send_list c i xs s = Inr s' \<and> msgs_ok q n [] R s' \<and> msg_frame q s s' \<and>
    rawResponseMap s' = rawResponseMap s \<and> (\<forall>k < length xs. tag_at s' (i + k) = Some (eval_id (fst (xs ! k)))) \<and>
    (\<forall>j. j < i \<or> i + length xs \<le> j \<longrightarrow> tag_at s' j = tag_at s j)"
  using assms(2-)
proof (induction xs arbitrary: i s)
  case (Cons x xs)
  obtain bs where bs: "msgBuffers s = Some bs" "length bs = n" using Cons.prems(2) by (auto simp: msgs_ok_def)
  have "fst x \<in> set q" "i < n" "fst (bs ! i) = None"
    using Cons.prems(1,3,4) bs by (auto simp: tag_at_None [symmetric]) (simp add: tag_at_def)
  then obtain s1 where s1: "send_evaluation c (fst x) i (snd x) s = Inr s1"
      "msgs_ok q n [] (mset (map (\<lambda>x. eval_id (fst x)) xs) + R) s1" "msg_frame q s s1" "rawResponseMap s1 = rawResponseMap s"
      "msgBuffers s1 = Some (bs[i := (Some (snd x, eval_id (fst x), prpVariables (fst x), active_set_of (heap s) (fst x)), [])])"
    using send_evaluation_ok [of q n "[]" "fst x" "mset (map (\<lambda>x. eval_id (fst x)) xs) + R" s i bs c "snd x"]
      Cons.prems(2) assms(1) bs by auto
  have f: "tag_at s1 j = (if j = i then Some (eval_id (fst x)) else tag_at s j)" for j
    using s1(5) \<open>i < n\<close> bs by (simp add: tag_at_def nth_list_update)
  obtain s' where s': "send_list c (Suc i) xs s1 = Inr s'" "msgs_ok q n [] R s'" "msg_frame q s1 s'"
      "rawResponseMap s' = rawResponseMap s1" "\<forall>k < length xs. tag_at s' (Suc i + k) = Some (eval_id (fst (xs ! k)))"
      "\<forall>j. j < Suc i \<or> Suc i + length xs \<le> j \<longrightarrow> tag_at s' j = tag_at s1 j"
    using Cons.IH [of s1 "Suc i"] Cons.prems s1(2) f by auto
  have "tag_at s' (i + k) = Some (eval_id (fst ((x # xs) ! k)))" if "k < length (x # xs)" for k
    using that s'(5,6) f [of i] by (cases k) auto
  moreover have "tag_at s' j = tag_at s j" if "j < i \<or> i + length (x # xs) \<le> j" for j
    using that s'(6) f [of j] by auto
  ultimately show ?case using s1(1,3,4) s'(1-4) by (auto intro: msg_frame_trans)
qed simp

text \<open>Receiving the messages of consecutive buffers.\<close>

lemma msgs_ok_perm:
  assumes "msgs_ok q n arr R s" "mset arr = mset arr'"
  shows "msgs_ok q n arr' R s"
proof -
  have "mset (map snd arr) = mset (map snd arr')" "set arr = set arr'" "mset (map fst arr) = mset (map fst arr')"
    using assms(2) mset_eq_setD [OF assms(2)] by simp_all
  moreover from this have "distinct (map fst arr) = distinct (map fst arr')" by (metis mset_eq_imp_distinct_iff)
  ultimately show ?thesis using assms(1) by (simp add: msgs_ok_def arrivals_ok_def)
qed

section \<open>The master schedule\<close>

lemma send_first_pass_list:
  "send_first_pass c i n ps s = rbind
    (send_list c i (map_index (\<lambda>k p. (p, int ((i + k) mod numEvalServers c + 1))) (take (n - i) ps)) s)
    (\<lambda>s'. Inr (drop (n - i) ps, s'))"
proof (induction ps arbitrary: i s)
  case (Cons p ps)
  show ?case
  proof (cases "i < n")
    case True
    then have "n - i = Suc (n - Suc i)" by simp
    then show ?thesis using True Cons.IH
      by (auto simp: rbind_assoc intro!: rbind_cong)
  qed simp
qed simp

text \<open>A finished job keeps its own response.\<close>

definition own_responses :: "'r prp list \<Rightarrow> ('r, 'w) app_state \<Rightarrow> bool" where
  "own_responses q s \<longleftrightarrow>
    (\<forall>p \<in> set q. \<forall>a. map_of (rawResponseMap s) (eval_id p) = Some a \<longrightarrow> a = prpResponse p)"

lemma own_responses_finish:
  assumes "own_responses q s" "queue_ok q" "p \<in> set q"
    "rawResponseMap s' = map_assign (eval_id p) (prpResponse p) (rawResponseMap s)"
  shows "own_responses q s'"
  using assms queue.unique [OF assms(2)] by (auto simp: own_responses_def)

lemma master_backfill_ok:
  assumes q: "queue_ok q"
    and "msgs_ok q n arr (mset (map eval_id it)) s" "all_ready q s" "own_responses q s" "set it \<subseteq> set q"
    and "beforeSynchCorePRPQueue s = q"
    and "it = [] \<or> (\<forall>j < n. fst (the (msgBuffers s) ! j) = None \<longrightarrow> j \<in> fst ` set arr)"
  shows "\<exists>s'. master_backfill c arr it s = Inr (drop (length arr) it, s') \<and>
    msgs_ok q n [] (mset (map eval_id (drop (length arr) it))) s' \<and> msg_frame q s s' \<and> own_responses q s' \<and>
    length (unfinished q s) = length (unfinished q s') + length arr \<and>
    (drop (length arr) it = [] \<or> (\<forall>j < n. fst (the (msgBuffers s') ! j) \<noteq> None))"
  using assms(2-)
proof (induction arr arbitrary: it s)
  case Nil
  then show ?case by auto
next
  case (Cons e arr)
  obtain i tag where e: "e = (i, tag)" by (cases e)
  obtain bs where bs: "msgBuffers s = Some bs" "length bs = n" using Cons.prems(1) by (auto simp: msgs_ok_def)
  have "tag \<in> eval_id ` set q"
  proof -
    have "tag \<in># mset (map eval_id (unfinished q s))"
      using Cons.prems(1) bs(1) unfolding msgs_ok_def e by (metis list.simps(9) mset.simps(2) option.inject snd_conv union_iff union_mset_add_mset_left union_single_eq_member)
    then show ?thesis by (auto simp: unfinished_def)
  qed
  then obtain p where p: "p \<in> set q" "eval_id p = tag" by auto
  have look: "lookup_by_eval_id tag (beforeSynchCorePRPQueue s) = Some p"
    using p Cons.prems(5) queue.look_iff [OF q] by simp
  obtain s1 rest where s1: "receive_evaluation c p i s = Inr s1" "msgs_ok q n arr (mset (map eval_id it)) s1" "msg_frame q s s1"
      "rawResponseMap s1 = map_assign (eval_id p) (prpResponse p) (rawResponseMap s)"
      "map_of (rawResponseMap s) (eval_id p) = None" "msgBuffers s1 = Some (bs[i := (None, rest)])"
    using receive_evaluation_ok [of q n i p arr "mset (map eval_id it)" s bs c] Cons.prems(1,2) q p bs(1) e by auto
  have u: "length (unfinished q s) = Suc (length (unfinished q s1))"
    using unfinished_finish [OF q p(1) s1(5,4)] by (metis length_map size_add_mset size_mset)
  have i: "i < n" "i \<notin> fst ` set arr" using Cons.prems(1) bs by (auto simp: msgs_ok_def e arrivals_ok_Cons)
  have q1: "all_ready q s1" "own_responses q s1" "beforeSynchCorePRPQueue s1 = q"
    using msg_frame_ready [OF s1(3) Cons.prems(2)] own_responses_finish [OF Cons.prems(3) q p(1) s1(4)] Cons.prems(5)
    msg_frame_queue [OF s1(3)] by auto
  show ?case
  proof (cases it)
    case Nil
    from Cons.IH [of "[]" s1] s1(2) q1 Nil obtain s' where "master_backfill c arr [] s1 = Inr ([], s')"
        "msgs_ok q n [] {#} s'" "msg_frame q s1 s'" "own_responses q s'"
        "length (unfinished q s1) = length (unfinished q s') + length arr" by auto
    then show ?thesis using Nil look s1(1,3) u msg_frame_trans [OF s1(3)] by (simp add: e)
  next
    case it: (Cons p' ps)
    have "p' \<in> set q" "fst (bs[i := (None, rest)] ! i) = None" using it Cons.prems(4) i(1) bs(2) by auto
    then obtain s2 where s2: "send_evaluation c p' i (int (i mod numEvalServers c + 1)) s1 = Inr s2"
        "msgs_ok q n arr (mset (map eval_id ps)) s2" "msg_frame q s1 s2" "rawResponseMap s2 = rawResponseMap s1"
        "msgBuffers s2 = Some ((bs[i := (None, rest)])[i := (Some (int (i mod numEvalServers c + 1), eval_id p', prpVariables p', active_set_of (heap s1) p'), [])])"
      using send_evaluation_ok [of q n arr p' "mset (map eval_id ps)" s1 i "bs[i := (None, rest)]" c] s1(2,6) q i it by auto
    have "\<forall>j < n. fst (the (msgBuffers s2) ! j) = None \<longrightarrow> j \<in> fst ` set arr"
      using Cons.prems(6) it s2(5) bs i by (auto simp: e nth_list_update split: if_splits)
    moreover have "all_ready q s2" "own_responses q s2" "beforeSynchCorePRPQueue s2 = q"
      using msg_frame_ready [OF s2(3) q1(1)] q1(2,3) s2(4) msg_frame_queue [OF s2(3)] by (auto simp: own_responses_def)
    ultimately obtain s' where "master_backfill c arr ps s2 = Inr (drop (length arr) ps, s')"
        "msgs_ok q n [] (mset (map eval_id (drop (length arr) ps))) s'" "msg_frame q s2 s'" "own_responses q s'"
        "length (unfinished q s2) = length (unfinished q s') + length arr"
        "drop (length arr) ps = [] \<or> (\<forall>j < n. fst (the (msgBuffers s') ! j) \<noteq> None)"
      using Cons.IH [of ps s2] s2(2) Cons.prems(4) it by auto
    moreover have "unfinished q s2 = unfinished q s1" by (simp add: unfinished_def s2(4))
    ultimately show ?thesis
      using it look s1(1) s2(1) u msg_frame_trans [OF msg_frame_trans [OF s1(3) s2(3)]] by (auto simp: e)
  qed
qed


lemma unfinished_Nil: "unfinished q s = [] \<longleftrightarrow> (\<forall>p \<in> set q. map_of (rawResponseMap s) (eval_id p) \<noteq> None)"
  by (auto simp: unfinished_def filter_empty_conv)

lemma pending_exists:
  assumes "msgs_ok q n [] (mset (map eval_id it)) s" "unfinished q s \<noteq> []"
    and "it = [] \<or> (\<forall>j < n. fst (the (msgBuffers s) ! j) \<noteq> None)" "0 < n"
  shows "pending s \<noteq> []"
proof -
  obtain bs where bs: "msgBuffers s = Some bs" "length bs = n"
      "mset (ptags bs) + mset (map eval_id it) = mset (map eval_id (unfinished q s))"
    using assms(1) by (auto simp: msgs_ok_def)
  show ?thesis
  proof (cases "it = []")
    case True
    then show ?thesis using bs assms(2) by (auto simp: pending_Nil)
  next
    case False
    then show ?thesis using assms(3,4) bs by (auto simp: pending_Nil ptags_Nil_iff)
  qed
qed

lemma master_loop_ok:
  assumes q: "queue_ok q" and c: "waitsome_contract c" and n: "0 < n"
    and "msgs_ok q n [] (mset (map eval_id it)) s" "all_ready q s" "own_responses q s" "set it \<subseteq> set q"
    and "beforeSynchCorePRPQueue s = q" "it = [] \<or> (\<forall>j < n. fst (the (msgBuffers s) ! j) \<noteq> None)"
    and "recv + length (unfinished q s) = length q" "length (unfinished q s) \<le> fuel"
  shows "\<exists>s'. master_loop fuel c (length q) recv it s = Inr s' \<and> msg_frame q s s' \<and>
    (\<forall>p \<in> set q. map_of (rawResponseMap s') (eval_id p) = Some (prpResponse p))"
  using assms(4-)
proof (induction fuel arbitrary: it s recv)
  case 0
  then have "unfinished q s = []" "recv = length q" by auto
  then show ?case using 0(3) by (auto simp: master_loop.simps unfinished_Nil own_responses_def)
next
  case (Suc fuel)
  show ?case
  proof (cases "unfinished q s = []")
    case True
    then have "recv = length q" using Suc.prems(7) by simp
    then show ?thesis using True Suc.prems(3) by (auto simp: master_loop.simps unfinished_Nil own_responses_def)
  next
    case False
    have "pending s \<noteq> []" by (rule pending_exists [OF Suc.prems(1) False Suc.prems(6) n])
    then obtain d w where d: "mpi_waitsome c (pending s) (world s) = Inr (d, w)" "d \<noteq> []" "receives_valid (pending s) d"
      using c unfolding waitsome_contract_def by blast
    let ?arr = "map (\<lambda>(i, tag, buf). (i, tag)) d"
    obtain s1 where s1: "wait_receives (mpi_waitsome c) s = Inr (?arr, s1)"
        "msgs_ok q n ?arr (mset (map eval_id it)) s1" "msg_frame q s s1" "rawResponseMap s1 = rawResponseMap s"
        "set (pending s1) = {x \<in> set (pending s). fst x \<notin> fst ` set d}"
      using wait_receives_ok [where wait = "mpi_waitsome c", OF Suc.prems(1) d(1,3)] by blast
    have "j \<in> fst ` set ?arr" if j: "fst (the (msgBuffers s1) ! j) = None" "it \<noteq> []" "j < n" for j
    proof -
      obtain bs where bs: "msgBuffers s = Some bs" "length bs = n" using Suc.prems(1) by (auto simp: msgs_ok_def)
      obtain rq where "fst (bs ! j) = Some rq" using j Suc.prems(6) bs by auto
      then have "(j, rq) \<in> set (pending s)" using j(3) bs by (simp add: set_pending)
      moreover have "(j, rq) \<notin> set (pending s1)" using j(1) by (auto simp: set_pending)
      ultimately have "j \<in> fst ` set d" using s1(5) by auto
      then show ?thesis by force
    qed
    then have g: "it = [] \<or> (\<forall>j < n. fst (the (msgBuffers s1) ! j) = None \<longrightarrow> j \<in> fst ` set ?arr)" by blast
    have q1: "own_responses q s1" "beforeSynchCorePRPQueue s1 = q"
      using Suc.prems(3,5) s1(4) msg_frame_queue [OF s1(3)] by (simp_all add: own_responses_def)
    obtain s2 where s2: "master_backfill c ?arr it s1 = Inr (drop (length ?arr) it, s2)"
        "msgs_ok q n [] (mset (map eval_id (drop (length ?arr) it))) s2" "msg_frame q s1 s2" "own_responses q s2"
        "length (unfinished q s1) = length (unfinished q s2) + length ?arr"
        "drop (length ?arr) it = [] \<or> (\<forall>j < n. fst (the (msgBuffers s2) ! j) \<noteq> None)"
      using master_backfill_ok [OF q s1(2) msg_frame_ready [OF s1(3) Suc.prems(2)] q1(1) Suc.prems(4) q1(2) g, of c] by blast
    have f: "msg_frame q s s2" by (rule msg_frame_trans [OF s1(3) s2(3)])
    have u: "length (unfinished q s) = length (unfinished q s2) + length ?arr"
      using s2(5) s1(4) by (simp add: unfinished_def)
    have "0 < length ?arr" using d(2) by simp
    obtain s' where "master_loop fuel c (length q) (recv + length ?arr) (drop (length ?arr) it) s2 = Inr s'" "msg_frame q s2 s'"
        "\<forall>p \<in> set q. map_of (rawResponseMap s') (eval_id p) = Some (prpResponse p)"
      using Suc.IH [OF s2(2) msg_frame_ready [OF f Suc.prems(2)] s2(4) _ _ s2(6), of "recv + length ?arr"]
        Suc.prems(4,5,7,8) u \<open>0 < length ?arr\<close> msg_frame_queue [OF f] by (auto dest: in_set_dropD)
    moreover have "recv < length q" using Suc.prems(7) False by (cases "unfinished q s") auto
    ultimately show ?thesis
      using s1(1) s2(1) msg_frame_trans [OF f] by (subst master_loop.simps) auto
  qed
qed


lemma receive_in_order_ok:
  assumes q: "queue_ok q"
    and "set ps \<subseteq> set q" "msgs_ok q n (zip [i..<i + length ps] (map eval_id ps)) R s" "all_ready q s" "own_responses q s"
    and "pending s = []"
  shows "\<exists>s'. receive_in_order c i ps s = Inr s' \<and> msgs_ok q n [] R s' \<and> msg_frame q s s' \<and> own_responses q s' \<and>
    pending s' = []"
  using assms(2-)
proof (induction ps arbitrary: i s)
  case (Cons p ps)
  obtain bs where bs: "msgBuffers s = Some bs" using Cons.prems(2) by (auto simp: msgs_ok_def)
  have u: "[i..<i + length (p # ps)] = i # [Suc i..<Suc i + length ps]" by (simp add: upt_conv_Cons del: upt_Suc)
  have p: "p \<in> set q" using Cons.prems(1) by simp
  obtain s1 rest where s1: "receive_evaluation c p i s = Inr s1"
      "msgs_ok q n (zip [Suc i..<Suc i + length ps] (map eval_id ps)) R s1" "msg_frame q s s1"
      "rawResponseMap s1 = map_assign (eval_id p) (prpResponse p) (rawResponseMap s)"
      "msgBuffers s1 = Some (bs[i := (None, rest)])"
    using receive_evaluation_ok [OF _ q p Cons.prems(3) bs, of n i "zip [Suc i..<Suc i + length ps] (map eval_id ps)" R c]
      Cons.prems(2) unfolding u by (auto simp del: upt_Suc)
  have "fst (bs[i := (None, rest)] ! j) = None" if "j < length bs" for j
    using that Cons.prems(5) by (cases "j = i") (auto simp: pending_Nil [OF bs] ptags_Nil_iff nth_list_update)
  then have "pending s1 = []" by (simp add: pending_Nil [OF s1(5)] ptags_Nil_iff)
  then obtain s' where "receive_in_order c (Suc i) ps s1 = Inr s'" "msgs_ok q n [] R s'" "msg_frame q s1 s'"
      "own_responses q s'" "pending s' = []"
    using Cons.IH [of "Suc i" s1] Cons.prems(1) s1(2) msg_frame_ready [OF s1(3) Cons.prems(3)]
      own_responses_finish [OF Cons.prems(4) q p s1(4)] by auto
  then show ?case using s1(1) msg_frame_trans [OF s1(3)] by auto
qed auto

text \<open>After all jobs of consecutive buffers arrived.\<close>

lemma all_arrived:
  assumes d: "receives_valid (pending s) d" "fst ` set (pending s) \<subseteq> fst ` set d"
    and b: "msgBuffers s = Some bs" "length bs = length ps"
    and t: "\<forall>k < length ps. tag_at s k = Some (eval_id (ps ! k))"
  shows "mset (map (\<lambda>(i, tag, buf). (i, tag)) d) = mset (zip [0..<length ps] (map eval_id ps))"
proof -
  let ?arr = "map (\<lambda>(i, tag, buf). (i, tag)) d" and ?z = "zip [0..<length ps] (map eval_id ps)"
  have tag: "i < length ps \<and> tag = eval_id (ps ! i)" if it: "(i, tag) \<in> set ?arr" for i tag
  proof -
    obtain buf where "(i, tag, buf) \<in> set d" using it by auto
    then obtain srv v st where "(i, srv, tag, v, st) \<in> set (pending s)" using d(1) unfolding receives_valid_def by fast
    then have "i < length ps" "tag_at s i = Some tag" using b by (auto simp: set_pending tag_at_def)
    then show ?thesis using t by simp
  qed
  have "(i, eval_id (ps ! i)) \<in> set ?arr" if i: "i < length ps" for i
  proof -
    obtain rq where "fst (bs ! i) = Some rq" using t i b by (fastforce simp: tag_at_def)
    then have "(i, rq) \<in> set (pending s)" using i b by (simp add: set_pending)
    then have "i \<in> fst ` set d" using d(2) by force
    then obtain tag where "(i, tag) \<in> set ?arr" by force
    then show ?thesis using tag by auto
  qed
  moreover have z: "(i, t) \<in> set ?z \<longleftrightarrow> i < length ps \<and> t = eval_id (ps ! i)" for i t
    by (auto simp: set_zip intro!: exI [of _ i])
  ultimately have "(i, t) \<in> set ?arr \<longleftrightarrow> (i, t) \<in> set ?z" for i t using tag [of i t] z [of i t] by blast
  then have "set ?arr = set ?z" by (intro set_eqI) (metis surj_pair)
  moreover have "map fst ?arr = map fst d" by auto
  then have "distinct (map fst ?arr)" using d(1) by (simp only: receives_valid_def)
  then have "distinct ?arr" by (rule distinct_map [THEN iffD1, THEN conjunct1])
  moreover have "distinct ?z" by (simp add: distinct_zipI1)
  ultimately show ?thesis using set_eq_iff_mset_eq_distinct by blast
qed

lemma wait_all_and_receive:
  assumes q: "queue_ok q" and c: "waitall_contract c" and ps: "set ps \<subseteq> set q"
    and m: "msgs_ok q (length ps) [] R s" and t: "\<forall>k < length ps. tag_at s k = Some (eval_id (ps ! k))"
    and r: "all_ready q s" "own_responses q s"
  shows "\<exists>arr s1 s'. wait_receives (mpi_waitall c) s = Inr (arr, s1) \<and> receive_in_order c 0 ps s1 = Inr s' \<and>
    msgs_ok q (length ps) [] R s' \<and> msg_frame q s s' \<and> own_responses q s' \<and> pending s' = []"
proof -
  obtain bs where bs: "msgBuffers s = Some bs" "length bs = length ps" using m by (auto simp: msgs_ok_def)
  obtain d w where d: "mpi_waitall c (pending s) (world s) = Inr (d, w)" "receives_valid (pending s) d"
      "fst ` set (pending s) \<subseteq> fst ` set d" using c unfolding waitall_contract_def by blast
  let ?arr = "map (\<lambda>(i, tag, buf). (i, tag)) d"
  obtain s1 where s1: "wait_receives (mpi_waitall c) s = Inr (?arr, s1)" "msgs_ok q (length ps) ?arr R s1" "msg_frame q s s1"
      "rawResponseMap s1 = rawResponseMap s" "set (pending s1) = {x \<in> set (pending s). fst x \<notin> fst ` set d}"
    using wait_receives_ok [where wait = "mpi_waitall c", OF m d(1,2)] by blast
  have "msgs_ok q (length ps) (zip [0..<0 + length ps] (map eval_id ps)) R s1"
    using msgs_ok_perm [OF s1(2) all_arrived [OF d(2,3) bs t]] by simp
  moreover have "set (pending s1) = {}" using s1(5) d(3) by (simp add: image_subset_iff)
  ultimately obtain s' where "receive_in_order c 0 ps s1 = Inr s'" "msgs_ok q (length ps) [] R s'" "msg_frame q s1 s'"
      "own_responses q s'" "pending s' = []"
    using receive_in_order_ok [OF q ps, of "length ps" 0 R s1 c] msg_frame_ready [OF s1(3) r(1)] r(2) s1(4)
    by (auto simp: own_responses_def)
  then show ?thesis using s1(1) msg_frame_trans [OF s1(3)] by blast
qed

lemma none_unfinished:
  assumes "msgs_ok q n [] {#} s" "pending s = []" "own_responses q s"
  shows "\<forall>p \<in> set q. map_of (rawResponseMap s) (eval_id p) = Some (prpResponse p)"
proof -
  have "unfinished q s = []" using assms(1,2) by (auto simp: msgs_ok_def pending_Nil)
  then show ?thesis using assms(3) by (auto simp: unfinished_Nil own_responses_def)
qed

lemma allocate_ok:
  assumes "\<forall>p \<in> set q. map_of (rawResponseMap s) (eval_id p) = None"
  shows "msgs_ok q n [] (mset (map eval_id q)) (allocate_buffers n s)" "msg_frame q s (allocate_buffers n s)"
    "tag_at (allocate_buffers n s) j = None \<or> n \<le> j" "own_responses q (allocate_buffers n s)"
  using assms
  by (auto simp: msgs_ok_def allocate_buffers_def unfinished_def requests_ok_def arrivals_ok_def tag_at_def own_responses_def
      cong: filter_cong)

lemma release_frame:
  "msg_frame q s s' \<Longrightarrow> msgBuffers s = None \<Longrightarrow> sched_frame q s (release_buffers s') \<and> active (release_buffers s') = active s"
  by (simp add: msg_frame_def release_buffers_def sched_frame_def)

definition servers_positive :: "('r, 'w) app_config \<Rightarrow> bool" where
  "servers_positive c \<longleftrightarrow> 0 < numEvalServers c"

lemma master_dynamic_completes:
  assumes c: "servers_positive c" "waitsome_contract c" "waitall_contract c"
    and q: "beforeSynchCorePRPQueue s = q" "queue_ok q" "\<forall>p \<in> set q. map_of (rawResponseMap s) (eval_id p) = None"
    and s: "all_ready q s" "msgBuffers s = None" "length q \<le> fuel"
  shows "\<exists>s'. master_dynamic_schedule_evaluations fuel c s = Inr s' \<and> active s' = active s \<and> sched_frame q s s' \<and>
    (\<forall>p \<in> set q. map_of (rawResponseMap s') (eval_id p) = Some (prpResponse p))"
proof -
  define n where "n = min (capacity_of c) (length q)"
  let ?xs = "map_index (\<lambda>k p. (p, int ((0 + k) mod numEvalServers c + 1))) (take (n - 0) q)"
  let ?s0 = "allocate_buffers n s"
  note a = allocate_ok [OF q(3), of n]
  have l: "length ?xs = n" "n \<le> length q" by (simp_all add: n_def)
  have x: "map (\<lambda>x. eval_id (fst x)) ?xs = map eval_id (take n q)" "fst ` set ?xs \<subseteq> set q"
    by (auto simp: map_index_def in_set_conv_nth dest!: in_set_takeD intro!: nth_equalityI)
  have "mset (map eval_id q) = mset (map (\<lambda>x. eval_id (fst x)) ?xs) + mset (map eval_id (drop n q))"
    unfolding x(1) by (metis append_take_drop_id map_append mset_append)
  moreover have "\<forall>j. 0 \<le> j \<longrightarrow> j < 0 + length ?xs \<longrightarrow> tag_at ?s0 j = None" using a(3) l(1) by (metis add_0 leD)
  ultimately obtain s1 where s1: "send_list c 0 ?xs ?s0 = Inr s1" "msgs_ok q n [] (mset (map eval_id (drop n q))) s1"
      "msg_frame q ?s0 s1" "rawResponseMap s1 = rawResponseMap ?s0"
      "\<forall>k < n. tag_at s1 (0 + k) = Some (eval_id (fst (?xs ! k)))"
    using send_list_ok [OF q(2) x(2), of n "mset (map eval_id (drop n q))" ?s0 0 c] a(1) l(1) by auto
  have f1: "msg_frame q s s1" by (rule msg_frame_trans [OF a(2) s1(3)])
  have r1: "all_ready q s1" "own_responses q s1" "beforeSynchCorePRPQueue s1 = q"
    using msg_frame_ready [OF f1 s(1)] a(4) s1(4) msg_frame_queue [OF f1] q(1) by (auto simp: own_responses_def)
  have t1: "\<forall>k < n. tag_at s1 k = Some (eval_id (q ! k))" using s1(5) l by simp
  have fp: "send_first_pass c 0 n q ?s0 = Inr (drop n q, s1)" using s1(1) by (simp add: send_first_pass_list)
  have run: "master_dynamic_schedule_evaluations fuel c s = rbind
      (if n < length q then master_loop fuel c (length q) 0 (drop n q) s1
       else rbind (wait_receives (mpi_waitall c) s1) (\<lambda>(_, s2). receive_in_order c 0 q s2)) (\<lambda>s3. Inr (release_buffers s3))"
    using fp q(1) by (simp add: master_dynamic_schedule_evaluations_def n_def Let_def)
  have un: "unfinished q s1 = q" using q(3) s1(4) by (simp add: unfinished_def allocate_buffers_def)
  show ?thesis
  proof (cases "n < length q")
    case True
    then have "0 < n" using c(1) by (auto simp: n_def capacity_of_def servers_positive_def)
    moreover have "\<forall>j < n. fst (the (msgBuffers s1) ! j) \<noteq> None" using t1 by (auto simp: tag_at_None [symmetric])
    ultimately obtain s' where "master_loop fuel c (length q) 0 (drop n q) s1 = Inr s'" "msg_frame q s1 s'"
        "\<forall>p \<in> set q. map_of (rawResponseMap s') (eval_id p) = Some (prpResponse p)"
      using master_loop_ok [OF q(2) c(2) _ s1(2) r1(1,2) _ r1(3), of 0 fuel] un s(3) set_drop_subset [of n q] by auto
    then show ?thesis using run True release_frame [OF msg_frame_trans [OF f1] s(2)] by (auto simp: release_buffers_def)
  next
    case False
    then have n: "n = length q" using l(2) by simp
    then obtain arr s2 s' where "wait_receives (mpi_waitall c) s1 = Inr (arr, s2)" "receive_in_order c 0 q s2 = Inr s'"
        "msgs_ok q (length q) [] {#} s'" "msg_frame q s1 s'" "own_responses q s'" "pending s' = []"
      using wait_all_and_receive [OF q(2) c(3) subset_refl _ _ r1(1,2), of "{#}"] s1(2) t1 by auto
    moreover from this have "\<forall>p \<in> set q. map_of (rawResponseMap s') (eval_id p) = Some (prpResponse p)"
      using none_unfinished by blast
    ultimately show ?thesis
      using run False release_frame [OF msg_frame_trans [OF f1] s(2)] by (auto simp: release_buffers_def)
  qed
qed


section \<open>The static schedule among peers\<close>

text \<open>The remote jobs of a round-robin assignment, with their servers, and the local ones.\<close>

fun remote_jobs :: "nat \<Rightarrow> nat \<Rightarrow> 'r prp list \<Rightarrow> ('r prp \<times> int) list" where
  "remote_jobs n i [] = []"
| "remote_jobs n i (p # ps) =
    (if i mod n \<noteq> 0 then (p, int (i mod n)) # remote_jobs n (Suc i) ps else remote_jobs n (Suc i) ps)"

fun local_jobs :: "nat \<Rightarrow> nat \<Rightarrow> 'r prp list \<Rightarrow> 'r prp list" where
  "local_jobs n i [] = []"
| "local_jobs n i (p # ps) = (if i mod n \<noteq> 0 then local_jobs n (Suc i) ps else p # local_jobs n (Suc i) ps)"

lemma round_robin_parts:
  "mset ps = mset (map fst (remote_jobs n i ps)) + mset (local_jobs n i ps)"
  by (induction ps arbitrary: i) auto

lemma length_local_jobs: "0 < n \<Longrightarrow> length (local_jobs n (Suc i) ps) = (i + length ps) div n - i div n"
proof (induction ps arbitrary: i)
  case (Cons p ps)
  have "i div n \<le> Suc i div n" "Suc i div n \<le> (Suc i + length ps) div n" by (simp_all add: div_le_mono)
  then show ?case using Cons.IH [of "Suc i"] Cons.prems by (auto simp: div_Suc)
qed simp

lemma assign_round_robin_list:
  "assign_round_robin False c i b ps lq s =
    rbind (send_list c b (remote_jobs (numEvalServers c) i ps) s)
      (\<lambda>s'. Inr (foldl (\<lambda>lq p. queue_insert p lq) lq (local_jobs (numEvalServers c) i ps), s'))"
  by (induction ps arbitrary: i b lq s) (auto simp: Let_def rbind_assoc intro!: rbind_cong)

lemma receive_round_robin_list:
  "receive_round_robin c i b ps s = receive_in_order c b (map fst (remote_jobs (numEvalServers c) i ps)) s"
  by (induction ps arbitrary: i b s) (auto intro!: rbind_cong)

lemma queue_inserts:
  assumes "queue_ok lq" "distinct (map eval_id (lq @ ps))"
  shows "queue_ok (foldl (\<lambda>lq p. queue_insert p lq) lq ps) \<and>
    mset (foldl (\<lambda>lq p. queue_insert p lq) lq ps) = mset lq + mset ps"
  using assms
proof (induction ps arbitrary: lq)
  case (Cons p ps)
  have "eval_id p \<notin> eval_id ` set lq" using Cons.prems(2) by auto
  then have m: "mset (queue_insert p lq) = add_mset p (mset lq)"
    by (simp add: queue_insert_def uidx_insert_def uidx_find_None)
  then have "mset (map eval_id (queue_insert p lq @ ps)) = mset (map eval_id (lq @ p # ps))" by simp
  then have "distinct (map eval_id (queue_insert p lq @ ps))" using Cons.prems(2) mset_eq_imp_distinct_iff by blast
  from Cons.IH [OF queue.ok_ins [OF Cons.prems(1)] this] m show ?case by simp
qed simp

text \<open>A schedule of other jobs keeps the books of the messages.\<close>

lemma msgs_ok_other:
  assumes m: "msgs_ok q n [] R s" and f: "sched_frame ql s s'" and d: "eval_id ` set ql \<inter> eval_id ` set q = {}"
  shows "msgs_ok q n [] R s'" "tag_at s' = tag_at s"
proof -
  have "map_of (rawResponseMap s') (eval_id p) = map_of (rawResponseMap s) (eval_id p)" if "p \<in> set q" for p
  proof -
    have "eval_id p \<notin> eval_id ` set ql" using d that by blast
    then show ?thesis using f by (simp add: sched_frame_def)
  qed
  then have "unfinished q s' = unfinished q s" by (simp add: unfinished_def cong: filter_cong)
  moreover have "active_set_of (heap s') = active_set_of (heap s)" "msgBuffers s' = msgBuffers s"
    using f by (simp_all add: sched_frame_def active_set_of_def fun_eq_iff)
  ultimately show "msgs_ok q n [] R s'" "tag_at s' = tag_at s"
    using m by (simp_all add: msgs_ok_def tag_at_def [abs_def])
qed

text \<open>The precondition of a local schedule of the jobs \<open>q\<close>.\<close>

definition local_pre :: "nat \<Rightarrow> ('r, 'w) app_config \<Rightarrow> 'r prp list \<Rightarrow> ('r, 'w) app_state \<Rightarrow> bool" where
  "local_pre fuel c q s \<longleftrightarrow> (if asynchLocalEvalConcurrency c > 1
     then servers_exist c \<and> wait_contract c \<and> active s = [] \<and> length q \<le> fuel else synch_contract c)"

definition local_evaluations ::
    "nat \<Rightarrow> ('r, 'w) app_config \<Rightarrow> 'r prp list \<Rightarrow> ('r::{zero, one, plus, minus, inverse, abs, ord}, 'w) app_state \<Rightarrow>
      ('r, 'w) app_state result" where
  "local_evaluations fuel c q s = (if asynchLocalEvalConcurrency c > 1
     then asynchronous_local_evaluations fuel c q s else synchronous_local_evaluations fuel c q s)"

interpretation peer_local: blocking_scheduler "local_evaluations fuel c" "local_pre fuel c"
  for fuel and c :: "('r::{zero, one, plus, minus, inverse, abs, ord}, 'w) app_config"
  by unfold_locales
    (use asynch_local.completes [where c = c and fuel = fuel] synch_local.completes [where c = c and fuel = fuel]
     in \<open>auto simp: local_pre_def local_evaluations_def split: if_splits\<close>)


lemma queue_ok_remote: "queue_ok ps \<Longrightarrow> queue_ok (map fst (remote_jobs n i ps))"
proof (induction ps arbitrary: i)
  case (Cons p ps)
  have "set (map fst (remote_jobs n (Suc i) ps)) \<subseteq> set ps"
    using round_robin_parts [of ps n "Suc i"] by (metis mset_subset_eq_add_left set_mset_mono set_mset_mset)
  then show ?case using Cons.IH [of "Suc i"] Cons.prems by (fastforce simp: queue_ok_def uidx_ok_def)
qed simp

lemma sched_frame_ready: "sched_frame ql s s' \<Longrightarrow> all_ready q s \<Longrightarrow> all_ready q s'"
  by (simp add: sched_frame_def all_ready_def)

lemma peer_static_completes:
  assumes c: "servers_positive c" "waitall_contract c" "local_pre fuel c q s"
    and q: "beforeSynchCorePRPQueue s = q" "queue_ok q" "\<forall>p \<in> set q. map_of (rawResponseMap s) (eval_id p) = None"
    and s: "all_ready q s" "msgBuffers s = None"
  shows "\<exists>s'. peer_static_schedule_evaluations fuel c s = Inr s' \<and> active s' = active s \<and> sched_frame q s s' \<and>
    (\<forall>p \<in> set q. map_of (rawResponseMap s') (eval_id p) = Some (prpResponse p))"
proof -
  let ?n = "numEvalServers c"
  define xs where "xs = remote_jobs ?n 1 q"
  define qr where "qr = map fst xs"
  define ll where "ll = local_jobs ?n 1 q"
  define lq where "lq = foldl (\<lambda>lq p. queue_insert p lq) [] ll"
  have parts: "mset q = mset qr + mset ll" unfolding qr_def xs_def ll_def by (rule round_robin_parts)
  have "distinct (map eval_id (qr @ ll))"
    using distinct_ids [OF q(2)] parts by (metis mset_append mset_eq_imp_distinct_iff mset_map)
  then have dl: "distinct (map eval_id ([] @ ll))" "eval_id ` set qr \<inter> eval_id ` set ll = {}" by auto
  have lq: "queue_ok lq" "set lq = set ll" "length lq = length ll"
    using queue_inserts [OF queue_ok_Nil dl(1)] unfolding lq_def by (auto dest: mset_eq_setD mset_eq_length)
  have sq: "set q = set qr \<union> set lq" using mset_eq_setD [of q "qr @ ll"] parts lq(2) by simp
  have okr: "queue_ok qr" unfolding qr_def xs_def by (rule queue_ok_remote [OF q(2)])
  have len: "length q - length q div ?n = length xs"
    using c(1) length_local_jobs [of ?n 0 q] mset_eq_length [of q "qr @ ll"] parts
    by (simp add: servers_positive_def ll_def qr_def)
  let ?s0 = "allocate_buffers (length xs) s"
  have rawr: "\<forall>p \<in> set qr. map_of (rawResponseMap s) (eval_id p) = None" using q(3) sq by auto
  note a = allocate_ok [OF rawr, of "length xs"]
  have "mset (map eval_id qr) = mset (map (\<lambda>x. eval_id (fst x)) xs)" by (simp add: qr_def comp_def)
  moreover have "\<forall>j. 0 \<le> j \<longrightarrow> j < 0 + length xs \<longrightarrow> tag_at ?s0 j = None" using a(3) by (metis add_0 leD)
  ultimately obtain s1 where s1: "send_list c 0 xs ?s0 = Inr s1" "msgs_ok qr (length xs) [] {#} s1"
      "msg_frame qr ?s0 s1" "rawResponseMap s1 = rawResponseMap ?s0"
      "\<forall>k < length xs. tag_at s1 (0 + k) = Some (eval_id (fst (xs ! k)))"
    using send_list_ok [OF okr, of xs "length xs" "{#}" ?s0 0 c] a(1) by (auto simp: qr_def)
  have f1: "msg_frame qr s s1" by (rule msg_frame_trans [OF a(2) s1(3)])
  have r1: "all_ready q s1" "active s1 = active s" "rawResponseMap s1 = rawResponseMap s"
    using f1 s(1) s1(4) by (auto simp: all_ready_def msg_frame_def sched_frame_def allocate_buffers_def)
  have "local_pre fuel c lq s1"
    using c(3) r1(2) mset_eq_length [of q "qr @ ll"] parts lq(3) by (auto simp: local_pre_def split: if_splits)
  then obtain s2 where s2: "local_evaluations fuel c lq s1 = Inr s2" "active s2 = active s1" "sched_frame lq s1 s2"
      "\<forall>p \<in> set lq. map_of (rawResponseMap s2) (eval_id p) = Some (prpResponse p)"
    using peer_local.completes [of fuel c lq s1] lq(1) q(3) sq r1(3) by auto
  have m2: "msgs_ok qr (length xs) [] {#} s2" "tag_at s2 = tag_at s1"
    using msgs_ok_other [OF s1(2) s2(3)] dl(2) lq(2) by auto
  have "map_of (rawResponseMap s2) (eval_id p) = None" if "p \<in> set qr" for p
  proof -
    have "eval_id p \<notin> eval_id ` set lq" using that dl(2) lq(2) by blast
    then show ?thesis using s2(3) rawr r1(3) that by (simp add: sched_frame_def)
  qed
  then have own: "own_responses qr s2" by (simp add: own_responses_def)
  have rd: "all_ready qr s2" using sched_frame_ready [OF s2(3) r1(1)] sq by (simp add: all_ready_def)
  obtain arr s3 s4 where s4: "wait_receives (mpi_waitall c) s2 = Inr (arr, s3)" "receive_in_order c 0 qr s3 = Inr s4"
      "msgs_ok qr (length qr) [] {#} s4" "msg_frame qr s2 s4" "own_responses qr s4" "pending s4 = []"
    using wait_all_and_receive [OF okr c(2) subset_refl _ _ rd own, of "{#}"] m2 s1(5) by (auto simp: qr_def)
  let ?s5 = "if length xs \<noteq> 0 then s4 else s2"
  have run: "peer_static_schedule_evaluations fuel c s = Inr (release_buffers ?s5)"
    unfolding peer_static_schedule_evaluations_def Let_def q(1) len assign_round_robin_list receive_round_robin_list
    using s1(1) s2(1) s4(1,2) by (simp add: xs_def qr_def lq_def ll_def local_evaluations_def)
  have f5: "msg_frame qr s2 ?s5" using s4(4) by simp
  have all: "map_of (rawResponseMap ?s5) (eval_id p) = Some (prpResponse p)" if "p \<in> set q" for p
  proof (cases "p \<in> set qr")
    case True
    then have "length xs \<noteq> 0" by (auto simp: qr_def)
    then show ?thesis using none_unfinished [OF s4(3,6,5)] True by simp
  next
    case False
    then have p: "p \<in> set lq" "eval_id p \<notin> eval_id ` set qr" using that sq dl(2) lq(2) by blast+
    then have "map_of (rawResponseMap ?s5) (eval_id p) = map_of (rawResponseMap s2) (eval_id p)"
      using f5 unfolding msg_frame_def sched_frame_def by simp
    then show ?thesis using s2(4) p(1) by simp
  qed
  have "msg_frame q s1 s2" using msg_frame_sched [OF s2(3,2)] sq by (auto intro: msg_frame_mono)
  then have "msg_frame q s ?s5"
    using msg_frame_mono [OF f1] msg_frame_mono [OF f5] sq msg_frame_trans by (metis sup_ge1)
  note release_frame [OF this s(2)]
  then show ?thesis using run all by (simp add: release_buffers_def)
qed


section \<open>The interface of the message-passing schedules\<close>

text \<open>What the books of a message-passing schedule require at its start.\<close>

definition remote_pre :: "'r prp list \<Rightarrow> ('r, 'w) app_state \<Rightarrow> bool" where
  "remote_pre q s \<longleftrightarrow> beforeSynchCorePRPQueue s = q \<and> all_ready q s \<and> msgBuffers s = None"

interpretation master_dynamic: blocking_scheduler "\<lambda>q. master_dynamic_schedule_evaluations fuel c"
    "\<lambda>q s. servers_positive c \<and> waitsome_contract c \<and> waitall_contract c \<and> remote_pre q s \<and> length q \<le> fuel"
  for fuel and c :: "('r::zero, 'w) app_config"
  by unfold_locales (use master_dynamic_completes in \<open>fastforce simp: remote_pre_def\<close>)

interpretation peer_static: blocking_scheduler "\<lambda>q. peer_static_schedule_evaluations fuel c"
    "\<lambda>q s. servers_positive c \<and> waitall_contract c \<and> local_pre fuel c q s \<and> remote_pre q s"
  for fuel and c :: "('r::{zero, one, plus, minus, inverse, abs, ord}, 'w) app_config"
  by unfold_locales (use peer_static_completes in \<open>fastforce simp: remote_pre_def\<close>)

end
