(* ===== verification/Message_Tracking.thy ===== *)
theory Message_Tracking
  imports Message_Scheduler
begin

text \<open>
  The map of running remote jobs (\<^verbatim>\<open>msgPassRunningMap\<close>) and \<^verbatim>\<open>test_receives_backfill\<close>, shared by the
  dynamic peer schedule and the nonblocking schedules: after every pass the map holds exactly the
  pending receives, each with its server and its buffer.
\<close>

section \<open>The running map\<close>

definition running_ok :: "nat \<Rightarrow> (int \<times> int \<times> nat) list \<Rightarrow> ('r, 'w) app_state \<Rightarrow> bool" where
  "running_ok n m s \<longleftrightarrow> omap_ok m \<and> (\<forall>i srv b. map_of m i = Some (srv, b) \<longleftrightarrow>
     b < n \<and> (\<exists>v st. fst (the (msgBuffers s) ! b) = Some (srv, i, v, st)))"

text \<open>Contract of a test: a completed receive carries an answer.\<close>

definition mpi_test_contract :: "('r::zero, 'w) app_config \<Rightarrow> bool" where
  "mpi_test_contract c \<longleftrightarrow> (\<forall>b srv tag v st w. \<exists>m w'. mpi_test c (b, srv, tag, v, st) w = Inr (m, w') \<and>
     (\<forall>buf. m = Some buf \<longrightarrow> answers buf st))"
lemma set_ptags: "msgBuffers s = Some bs \<Longrightarrow> set (ptags bs) = {i. \<exists>b < length bs. tag_at s b = Some i}"
proof -
  assume s: "msgBuffers s = Some bs"
  have "i \<in> set (ptags bs) \<longleftrightarrow> (\<exists>y \<in> set bs. map_option (\<lambda>(srv, tag, _). tag) (fst y) = Some i)" for i
    by (simp add: ptags_def in_set_map_filter)
  also have "\<dots> i \<longleftrightarrow> (\<exists>b < length bs. tag_at s b = Some i)" for i
    unfolding tag_at_def s option.sel by (metis in_set_conv_nth)
  finally show ?thesis by blast
qed

lemma running_domain:
  assumes "running_ok n m s"
  shows "fst ` set m = {i. \<exists>b < n. tag_at s b = Some i}"
proof -
  have "i \<in> fst ` set m \<longleftrightarrow> (\<exists>srv b. map_of m i = Some (srv, b))" for i
    unfolding dom_map_of [symmetric] by (auto simp: dom_def)
  also have "\<dots> i \<longleftrightarrow> (\<exists>b < n. tag_at s b = Some i)" for i
    using assms unfolding running_ok_def by (auto simp: tag_at_def)
  finally show ?thesis by auto
qed

lemma running_books:
  assumes q: "queue_ok q" and m: "msgs_ok q n [] R s" "running_ok n m s"
  shows "mset (map fst m) + R = mset (map eval_id (unfinished q s))"
proof -
  obtain bs where bs: "msgBuffers s = Some bs" "length bs = n" "mset (ptags bs) + R = mset (map eval_id (unfinished q s))"
    using m(1) by (auto simp: msgs_ok_def)
  have "distinct (ptags bs)"
    using unfinished_ids(1) [OF q, of s] bs(3) by (metis distinct_append ex_mset mset_append mset_eq_imp_distinct_iff)
  moreover have "distinct (map fst m)" using m(2) by (simp add: running_ok_def omap_distinct)
  moreover have "set (ptags bs) = set (map fst m)" using set_ptags [OF bs(1)] running_domain [OF m(2)] bs(2) by simp
  ultimately have "mset (ptags bs) = mset (map fst m)" using set_eq_iff_mset_eq_distinct by blast
  then show ?thesis using bs(3) by simp
qed

lemma running_in_queue:
  assumes "queue_ok q" "msgs_ok q n [] R s" "running_ok n m s" "map_of m i = Some x"
  shows "i \<in> eval_id ` set q"
proof -
  have "i \<in> set (map fst m)" using assms(4) by (metis domI dom_map_of list.set_map)
  then have "i \<in> set (map eval_id (unfinished q s))" using running_books [OF assms(1-3)] by (metis set_mset_mset union_iff)
  then show ?thesis by (auto simp: unfinished_def)
qed

lemma books_disjoint:
  assumes "queue_ok q" "msgs_ok q n [] R s" "running_ok n m s" "i \<in># R"
  shows "i \<notin> fst ` set m" "i \<in> eval_id ` set q" "map_of (rawResponseMap s) i = None"
proof -
  obtain ks where ks: "mset ks = R" using ex_mset by blast
  have b: "mset (map fst m @ ks) = mset (map eval_id (unfinished q s))" using running_books [OF assms(1-3)] ks by simp
  then have "distinct (map fst m @ ks)" using unfinished_ids(1) [OF assms(1), of s] mset_eq_imp_distinct_iff by blast
  then show "i \<notin> fst ` set m" using assms(4) ks by auto
  have "i \<in> set (map eval_id (unfinished q s))" using mset_eq_setD [OF b] assms(4) ks by auto
  then show "i \<in> eval_id ` set q" "map_of (rawResponseMap s) i = None" using unfinished_ids(2) [OF assms(1), of s] by auto
qed

text \<open>The running map after a completed job was removed, or replaced by another job in the same buffer.\<close>

lemma running_remove:
  assumes r: "running_ok n m s" and i: "map_of m i = Some (srv, b)"
    and s': "msgBuffers s = Some bs" "length bs = n" "msgBuffers s' = Some (bs[b := (None, x)])"
  shows "running_ok n (map_erase i m) s'"
  unfolding running_ok_def
proof (intro conjI allI)
  show "omap_ok (map_erase i m)" using r by (simp add: running_ok_def omap_ok_erase)
  fix j srv' b'
  have R: "map_of m j = Some (srv', b') \<longleftrightarrow> b' < n \<and> (\<exists>v st. fst (bs ! b') = Some (srv', j, v, st))" for j srv' b'
    using r s'(1) unfolding running_ok_def by simp
  have b: "b < n" using i R by blast
  show "map_of (map_erase i m) j = Some (srv', b') \<longleftrightarrow>
      b' < n \<and> (\<exists>v st. fst (the (msgBuffers s') ! b') = Some (srv', j, v, st))"
  proof (cases "b' = b")
    case True
    have "j = i" if j: "map_of m j = Some (srv', b)"
    proof -
      obtain v st v' st' where "fst (bs ! b) = Some (srv', j, v, st)" "fst (bs ! b) = Some (srv, i, v', st')"
        using j i R by blast
      then show ?thesis by simp
    qed
    then show ?thesis using True b s'(2,3) by auto
  next
    case False
    then have "map_of m i \<noteq> Some (srv', b')" using i by simp
    then show ?thesis using R [of j srv' b'] False s'(3) by auto
  qed
qed

lemma running_add:
  assumes r: "running_ok n m s" and i: "i \<notin> fst ` set m"
    and s': "msgBuffers s = Some bs" "length bs = n" "b < n" "fst (bs ! b) = None"
      "msgBuffers s' = Some (bs[b := (Some (srv, i, v, st), x)])"
  shows "running_ok n (map_assign i (srv, b) m) s'"
  unfolding running_ok_def
proof (intro conjI allI)
  show "omap_ok (map_assign i (srv, b) m)" using r by (simp add: running_ok_def omap_ok_assign)
  fix j srv' b'
  have R: "map_of m j = Some (srv', b') \<longleftrightarrow> b' < n \<and> (\<exists>v st. fst (bs ! b') = Some (srv', j, v, st))" for j srv' b'
    using r s'(1) unfolding running_ok_def by simp
  have "map_of m i = None" using i by (simp add: map_of_eq_None_iff)
  then show "map_of (map_assign i (srv, b) m) j = Some (srv', b') \<longleftrightarrow>
      b' < n \<and> (\<exists>v st. fst (the (msgBuffers s') ! b') = Some (srv', j, v, st))"
    using R [of j srv' b'] s' by (cases "b' = b") (auto simp: nth_list_update)
qed


section \<open>One pass over the running jobs\<close>

lemma test_request_ok:
  assumes m: "msgs_ok q n [] R s" "running_ok n vm s" and c: "mpi_test_contract c" and i: "map_of vm i = Some (srv, b)"
    and bs: "msgBuffers s = Some bs"
  shows "\<exists>flag s'. test_request c b s = Inr (flag, s') \<and> msg_frame q s s' \<and> rawResponseMap s' = rawResponseMap s \<and>
    (if flag then msgs_ok q n [(b, i)] R s' \<and> (\<exists>buf. msgBuffers s' = Some (bs[b := (None, buf)]))
     else msgs_ok q n [] R s' \<and> msgBuffers s' = Some bs)"
proof -
  have l: "length bs = n" using m(1) bs by (auto simp: msgs_ok_def)
  have "b < n \<and> (\<exists>v st. fst (the (msgBuffers s) ! b) = Some (srv, i, v, st))"
    using m(2) i unfolding running_ok_def by blast
  then obtain v st where b: "b < n" "fst (bs ! b) = Some (srv, i, v, st)" using bs by auto
  obtain x w where x: "mpi_test c (b, srv, i, v, st) (world s) = Inr (x, w)" "\<forall>buf. x = Some buf \<longrightarrow> answers buf st"
    using c unfolding mpi_test_contract_def by blast
  show ?thesis
  proof (cases x)
    case None
    then have "test_request c b s = Inr (False, s\<lparr>world := w\<rparr>)" using b bs l x(1) by (simp add: test_request_def)
    then show ?thesis using m(1) bs by (intro exI [of _ False] exI [of _ "s\<lparr>world := w\<rparr>"]) simp
  next
    case (Some buf)
    let ?s = "s\<lparr>world := w\<rparr>"
    have p: "(b, srv, i, v, st) \<in> set (pending ?s)" using b bs l by (simp add: set_pending)
    have "msgs_ok q n [] R ?s" using m(1) by simp
    note r = complete_receive_ok [OF this p, of buf]
    have "test_request c b s = Inr (True, complete_receive b buf ?s)" using b bs l x(1) Some by (simp add: test_request_def)
    moreover have "msgBuffers (complete_receive b buf ?s) = Some (bs[b := (None, buf)])" using bs by (simp add: complete_receive_def)
    moreover have "msg_frame q s (complete_receive b buf ?s)" using r(3) x(2) Some by (simp add: msg_frame_def sched_frame_def)
    ultimately show ?thesis using r x(2) Some by auto
  qed
qed

text \<open>What a pass leaves of the queue positions: a job that was skipped is not waiting any more.\<close>

definition skipped_ok :: "'r prp list \<Rightarrow> 'r prp list \<Rightarrow> int multiset \<Rightarrow> ('r, 'w) app_state \<Rightarrow> bool" where
  "skipped_ok it it' R s \<longleftrightarrow> (\<exists>k. it' = drop k it) \<and>
     (\<forall>p \<in> set it - set it'. eval_id p \<in># R \<longrightarrow> lookup_by_eval_id (eval_id p) (active s) \<noteq> None)"

lemma skipped_refl [simp]: "skipped_ok it it R s"
  unfolding skipped_ok_def by (auto intro: exI [of _ 0])

lemma skipped_trans:
  assumes "skipped_ok it it1 R1 s1" "skipped_ok it1 it2 R2 s2" "R2 \<subseteq># R1" "active s2 = active s1"
  shows "skipped_ok it it2 R2 s2"
proof -
  obtain k l where "it1 = drop k it" "it2 = drop l it1" using assms(1,2) by (auto simp: skipped_ok_def)
  then have "it2 = drop (l + k) it" by simp
  moreover have "eval_id p \<in># R2 \<longrightarrow> lookup_by_eval_id (eval_id p) (active s2) \<noteq> None" if "p \<in> set it - set it2" for p
    using that assms mset_subset_eqD unfolding skipped_ok_def by (metis Diff_iff)
  ultimately show ?thesis unfolding skipped_ok_def by blast
qed


lemma running_ok_cong: "running_ok n m s \<Longrightarrow> map_of m' = map_of m \<Longrightarrow> omap_ok m' \<Longrightarrow> running_ok n m' s"
  by (simp add: running_ok_def)

text \<open>
  The state of a pass: \<open>m0\<close> is the map at its start, \<open>rs\<close> the entries still to be tested, \<open>vm\<close> the map that
  the removals noted so far lead to, \<open>R\<close> the ids that are neither finished nor pending.
\<close>

definition pass_inv ::
    "'r prp list \<Rightarrow> nat \<Rightarrow> (int \<times> int \<times> nat) list \<Rightarrow> (int \<times> int \<times> nat) list \<Rightarrow> (int \<times> int) list \<Rightarrow>
      (int \<times> int \<times> nat) list \<Rightarrow> int multiset \<Rightarrow> 'r prp list \<Rightarrow> ('r::zero, 'w) app_state \<Rightarrow> bool" where
  "pass_inv q n m0 rs rem vm R it s \<longleftrightarrow> msgs_ok q n [] R s \<and> running_ok n vm s \<and>
     rfold apply_removal rem m0 = Inr vm \<and> msgPassRunningMap s = m0 \<and> omap_ok m0 \<and>
     (\<exists>pre. m0 = pre @ rs \<and> fst ` set rem \<subseteq> fst ` set pre) \<and>
     (\<forall>e \<in> set rs. map_of vm (fst e) = Some (snd e)) \<and> (\<forall>i \<in> fst ` set m0. i \<notin># R) \<and>
     all_ready q s \<and> own_responses q s \<and> set it \<subseteq> set q \<and> distinct it \<and>
     (\<forall>p \<in> set it. eval_id p \<in> fst ` set vm \<longrightarrow> eval_id p \<in> fst ` set m0) \<and> beforeSynchCorePRPQueue s = q"

lemma msg_frame_running: "msg_frame q s s' \<Longrightarrow> msgPassRunningMap s' = msgPassRunningMap s"
  by (simp add: msg_frame_def sched_frame_def)

text \<open>A test that reports no completion.\<close>

lemma pass_skip:
  assumes i: "pass_inv q n m0 (e # rs) rem vm R it s"
    and s': "msg_frame q s s'" "rawResponseMap s' = rawResponseMap s" "msgs_ok q n [] R s'" "msgBuffers s' = msgBuffers s"
  shows "pass_inv q n m0 rs rem vm R it s'"
proof -
  have "\<exists>pre. m0 = pre @ rs \<and> fst ` set rem \<subseteq> fst ` set pre"
  proof -
    obtain pre where "m0 = pre @ e # rs" "fst ` set rem \<subseteq> fst ` set pre" using i by (auto simp: pass_inv_def)
    then show ?thesis by (intro exI [of _ "pre @ [e]"]) auto
  qed
  then show ?thesis
    using i s'(2-) msg_frame_ready [OF s'(1)] msg_frame_queue [OF s'(1)] msg_frame_running [OF s'(1)]
    by (simp add: pass_inv_def running_ok_def own_responses_def)
qed

text \<open>A completed job that is not replaced.\<close>

lemma pass_remove:
  assumes i: "pass_inv q n m0 ((i, srv, b) # rs) rem vm R it s" and bs: "msgBuffers s = Some bs"
    and s': "msg_frame q s s'" "msgs_ok q n [] R s'" "own_responses q s'" "msgBuffers s' = Some (bs[b := (None, x)])"
    and it: "\<exists>k. it' = drop k it"
  shows "pass_inv q n m0 rs (rem @ [(i, 0)]) (map_erase i vm) R it' s'" "map_assign i 0 rem = rem @ [(i, 0)]"
proof -
  obtain pre where pre: "m0 = pre @ (i, srv, b) # rs" "fst ` set rem \<subseteq> fst ` set pre" using i by (auto simp: pass_inv_def)
  have "omap_ok m0" using i by (simp add: pass_inv_def)
  then have o: "\<forall>k \<in> fst ` set pre. k < i" "i \<notin> fst ` set rs" by (auto simp: pre(1) omap_ok_def sorted_wrt_append)
  show "map_assign i 0 rem = rem @ [(i, 0)]" using pre(2) o(1) by (intro map_assign_append) blast
  have vm: "map_of vm i = Some (srv, b)" using i by (auto simp: pass_inv_def)
  have "length bs = n" using i bs by (auto simp: pass_inv_def msgs_ok_def)
  then have "running_ok n (map_erase i vm) s'" using running_remove [OF _ vm bs _ s'(4)] i by (auto simp: pass_inv_def)
  moreover have "rfold apply_removal (rem @ [(i, 0)]) m0 = Inr (map_erase i vm)"
    using i by (auto simp: pass_inv_def rfold_append apply_removal_def)
  moreover have "\<exists>pre. m0 = pre @ rs \<and> fst ` set (rem @ [(i, 0)]) \<subseteq> fst ` set pre"
    using pre by (intro exI [of _ "pre @ [(i, srv, b)]"]) auto
  moreover have "\<forall>e \<in> set rs. map_of (map_erase i vm) (fst e) = Some (snd e)"
    using i o(2) by (auto simp: pass_inv_def image_iff)
  moreover have sub: "set it' \<subseteq> set it" using it by (auto dest: in_set_dropD)
  then have "set it' \<subseteq> set q" "distinct it'" using it i by (auto simp: pass_inv_def)
  moreover have "\<forall>p \<in> set it'. eval_id p \<in> fst ` set (map_erase i vm) \<longrightarrow> eval_id p \<in> fst ` set m0"
  proof -
    have "fst ` set (map_erase i vm) \<subseteq> fst ` set vm" by (auto simp: map_erase_def)
    moreover have "\<forall>p \<in> set it. eval_id p \<in> fst ` set vm \<longrightarrow> eval_id p \<in> fst ` set m0" using i by (simp add: pass_inv_def)
    ultimately show ?thesis using sub by blast
  qed
  ultimately show "pass_inv q n m0 rs (rem @ [(i, 0)]) (map_erase i vm) R it' s'"
    using i s'(2,3) msg_frame_ready [OF s'(1)] msg_frame_queue [OF s'(1)] msg_frame_running [OF s'(1)]
    unfolding pass_inv_def by simp
qed


text \<open>A completed job whose buffer and server are given to the next waiting job.\<close>

lemma pass_replace:
  assumes q: "queue_ok q" "0 < eval_id p" and i: "pass_inv q n m0 ((i, srv, b) # rs) rem vm R it s" and bs: "msgBuffers s = Some bs"
    and it: "\<exists>k. p # ps = drop k it" and p: "eval_id p \<notin> fst ` set m0"
    and s1: "msg_frame q s s1" "own_responses q s1" "msgBuffers s1 = Some (bs[b := (None, x)])"
    and s2: "msg_frame q s1 s2" "msgs_ok q n [] (R - {#eval_id p#}) s2" "rawResponseMap s2 = rawResponseMap s1"
      "msgBuffers s2 = Some (bs[b := (None, x), b := (Some (srv, eval_id p, v, st), y)])"
  shows "pass_inv q n m0 rs (rem @ [(i, eval_id p)]) (map_erase i (map_assign (eval_id p) (srv, b) vm)) (R - {#eval_id p#}) ps s2"
    "map_assign i (eval_id p) rem = rem @ [(i, eval_id p)]"
proof -
  let ?vm = "map_erase i (map_assign (eval_id p) (srv, b) vm)"
  obtain pre where pre: "m0 = pre @ (i, srv, b) # rs" "fst ` set rem \<subseteq> fst ` set pre" using i by (auto simp: pass_inv_def)
  have "omap_ok m0" using i by (simp add: pass_inv_def)
  then have o: "\<forall>k \<in> fst ` set pre. k < i" "i \<notin> fst ` set rs" by (auto simp: pre(1) omap_ok_def sorted_wrt_append)
  show "map_assign i (eval_id p) rem = rem @ [(i, eval_id p)]" using pre(2) o(1) by (intro map_assign_append) blast
  have vm: "map_of vm i = Some (srv, b)" "running_ok n vm s" using i by (auto simp: pass_inv_def)
  have n: "length bs = n" "b < n" using i bs vm by (auto simp: pass_inv_def msgs_ok_def running_ok_def)
  have pit: "p \<in> set it" using it by (metis in_set_dropD list.set_intros(1))
  then have pvm: "eval_id p \<notin> fst ` set vm" using i p by (auto simp: pass_inv_def)
  have ne: "eval_id p \<noteq> i" using p pre(1) by auto
  have "running_ok n (map_erase i vm) s1" by (rule running_remove [OF vm(2,1) bs n(1) s1(3)])
  then have "running_ok n (map_assign (eval_id p) (srv, b) (map_erase i vm)) s2"
    using pvm n by (intro running_add [OF _ _ s1(3) _ _ _ s2(4)]) (auto simp: map_erase_def)
  then have "running_ok n ?vm s2"
    using vm(2) ne by (elim running_ok_cong) (auto simp: running_ok_def fun_eq_iff omap_ok_assign omap_ok_erase)
  moreover have "rfold apply_removal (rem @ [(i, eval_id p)]) m0 = Inr ?vm"
    using i q(2) vm(1) by (auto simp: pass_inv_def rfold_append apply_removal_def)
  moreover have "\<exists>pre. m0 = pre @ rs \<and> fst ` set (rem @ [(i, eval_id p)]) \<subseteq> fst ` set pre"
    using pre by (intro exI [of _ "pre @ [(i, srv, b)]"]) auto
  moreover have "\<forall>e \<in> set rs. map_of ?vm (fst e) = Some (snd e)"
  proof
    fix e assume e: "e \<in> set rs"
    then have "fst e \<noteq> i" "fst e \<noteq> eval_id p" using o(2) p pre(1) by force+
    then show "map_of ?vm (fst e) = Some (snd e)" using i e by (auto simp: pass_inv_def)
  qed
  moreover have "set ps \<subseteq> set it" "distinct ps" "p \<notin> set ps"
  proof -
    obtain k where k: "p # ps = drop k it" using it by blast
    have "distinct (p # ps)" unfolding k using i by (auto simp: pass_inv_def)
    then show "distinct ps" "p \<notin> set ps" by auto
    show "set ps \<subseteq> set it" using k by (metis in_set_dropD list.set_intros(2) subsetI)
  qed
  moreover have "eval_id p' \<in> fst ` set m0" if p': "p' \<in> set ps" "eval_id p' \<in> fst ` set ?vm" for p'
  proof -
    have "p' \<in> set it" using p' calculation(5) by blast
    moreover have "p' \<in> set q" "p \<in> set q" using calculation pit i by (auto simp: pass_inv_def)
    moreover have "p' \<noteq> p" using p'(1) \<open>p \<notin> set ps\<close> by auto
    ultimately have "eval_id p' \<noteq> eval_id p" using queue.unique [OF q(1)] by blast
    then have "eval_id p' \<in> fst ` set vm" using p'(2) keys_map_assign [of "eval_id p" "(srv, b)" vm] by (auto simp: map_erase_def)
    then show ?thesis using i \<open>p' \<in> set it\<close> by (auto simp: pass_inv_def)
  qed
  moreover have "\<forall>i \<in> fst ` set m0. i \<notin># R - {#eval_id p#}" using i by (auto simp: pass_inv_def dest: in_diffD)
  moreover have "all_ready q s2" "beforeSynchCorePRPQueue s2 = q" "msgPassRunningMap s2 = m0"
    using i msg_frame_trans [OF s1(1) s2(1)] msg_frame_ready msg_frame_queue msg_frame_running unfolding pass_inv_def by metis+
  ultimately show "pass_inv q n m0 rs (rem @ [(i, eval_id p)]) ?vm (R - {#eval_id p#}) ps s2"
    using i s1(2) s2(2,3) \<open>omap_ok m0\<close> unfolding pass_inv_def own_responses_def by auto
qed


text \<open>The position of the next job: the skipped ones are running or finished.\<close>

lemma dropWhile_drop: "\<exists>k. dropWhile P xs = drop k xs"
  by (metis dropWhile_eq_drop)

lemma next_job:
  assumes q: "queue_ok q" and i: "msgs_ok q n [] R s2" "msgPassRunningMap s2 = m0" "\<forall>i \<in> fst ` set m0. i \<notin># R"
    and it: "set it \<subseteq> set q" "it1 = dropWhile (is_running s2) it" and R: "mset (map eval_id (unfinished q s2)) = P + R"
  shows "skipped_ok it it1 R s2"
proof -
  have "eval_id p \<in># R \<longrightarrow> lookup_by_eval_id (eval_id p) (active s2) \<noteq> None" if p: "p \<in> set it - set it1" for p
  proof
    assume r: "eval_id p \<in># R"
    have "is_running s2 p" using p unfolding it(2) by (metis Diff_iff Un_iff set_append set_takeWhileD takeWhile_dropWhile_id)
    moreover have "eval_id p \<in> set (map eval_id (unfinished q s2))"
      using R r by (metis set_mset_mset union_iff)
    then have "map_of (rawResponseMap s2) (eval_id p) = None" by (auto simp: unfinished_def)
    moreover have "map_of (msgPassRunningMap s2) (eval_id p) = None" using i(2,3) r by (auto simp: map_of_eq_None_iff)
    ultimately show "lookup_by_eval_id (eval_id p) (active s2) \<noteq> None" by (auto simp: is_running_def)
  qed
  then show ?thesis using dropWhile_drop [of "is_running s2" it] it(2) unfolding skipped_ok_def by blast
qed

lemma msgs_ok_split: "msgs_ok q n [] R s \<Longrightarrow> \<exists>P. mset (map eval_id (unfinished q s)) = P + R"
  by (metis msgs_ok_def)

lemma skipped_send:
  assumes "eval_id p \<notin># R - {#eval_id p#}" "skipped_ok it it1 R s2" "msg_frame q s2 s3" "it1 = p # ps"
  shows "skipped_ok it ps (R - {#eval_id p#}) s3"
proof -
  obtain k where "p # ps = drop k it" using assms(2,4) by (auto simp: skipped_ok_def)
  then have "ps = drop (Suc k) it" by (metis drop_Suc list.sel(3) tl_drop)
  moreover have "active s3 = active s2" using assms(3) by (simp add: msg_frame_def)
  ultimately show ?thesis using assms(1,2,4) unfolding skipped_ok_def by (auto dest: in_diffD)
qed

lemma test_receives_loop_ok:
  assumes q: "queue_ok q" "\<forall>p \<in> set q. 0 < eval_id p" and c: "mpi_test_contract c"
    and "pass_inv q n m0 rs rem vm R it s"
  shows "\<exists>rem' it' s' vm' R'. test_receives_loop c rs rem it s = Inr (rem', it', s') \<and>
    pass_inv q n m0 [] rem' vm' R' it' s' \<and> msg_frame q s s' \<and> R' \<subseteq># R \<and> skipped_ok it it' R' s' \<and>
    length (unfinished q s) + length rem = length (unfinished q s') + length rem' \<and>
    (it' = [] \<or> size R' + length rem' = size R + length rem) \<and>
    (\<forall>p \<in> set (active s). count R' (eval_id p) = count R (eval_id p))"
  using assms(4)
proof (induction rs arbitrary: rem vm R it s)
  case Nil
  then show ?case
    by (intro exI [of _ rem] exI [of _ it] exI [of _ s] exI [of _ vm] exI [of _ R]) simp
next
  case (Cons e rs)
  obtain i srv b where e: "e = (i, srv, b)" by (metis prod_cases3)
  note inv = Cons.prems [unfolded e]
  obtain bs where bs: "msgBuffers s = Some bs" "length bs = n" using inv by (auto simp: pass_inv_def msgs_ok_def)
  have m: "msgs_ok q n [] R s" "running_ok n vm s" "map_of vm i = Some (srv, b)" using inv by (auto simp: pass_inv_def)
  obtain flag s1 where t: "test_request c b s = Inr (flag, s1)" "msg_frame q s s1" "rawResponseMap s1 = rawResponseMap s"
      "if flag then msgs_ok q n [(b, i)] R s1 \<and> (\<exists>buf. msgBuffers s1 = Some (bs[b := (None, buf)]))
       else msgs_ok q n [] R s1 \<and> msgBuffers s1 = Some bs"
    using test_request_ok [OF m(1,2) c m(3) bs(1)] by blast
  have u1: "unfinished q s1 = unfinished q s" using t(3) by (simp add: unfinished_def)
  show ?case
  proof (cases flag)
    case False
    then have "pass_inv q n m0 rs rem vm R it s1" using pass_skip [OF inv t(2,3)] t(4) bs(1) by simp
    from Cons.IH [OF this] obtain rem' it' s' vm' R' where IH: "test_receives_loop c rs rem it s1 = Inr (rem', it', s')"
        "pass_inv q n m0 [] rem' vm' R' it' s'" "msg_frame q s1 s'" "R' \<subseteq># R" "skipped_ok it it' R' s'"
        "length (unfinished q s1) + length rem = length (unfinished q s') + length rem'"
        "it' = [] \<or> size R' + length rem' = size R + length rem"
        "\<forall>p \<in> set (active s1). count R' (eval_id p) = count R (eval_id p)" by blast
    moreover have "active s1 = active s" using t(2) by (simp add: msg_frame_def)
    ultimately show ?thesis using False t(1) msg_frame_trans [OF t(2) IH(3)] u1 e by auto
  next
    case True
    then obtain buf where s1: "msgs_ok q n [(b, i)] R s1" "msgBuffers s1 = Some (bs[b := (None, buf)])" using t(4) by auto
    have "i \<in> eval_id ` set q" by (rule running_in_queue [OF q(1) m])
    then obtain p where p: "p \<in> set q" "eval_id p = i" by auto
    have r1: "all_ready q s1" "own_responses q s1" "beforeSynchCorePRPQueue s1 = q"
      using inv t(3) msg_frame_ready [OF t(2)] msg_frame_queue [OF t(2)] by (auto simp: pass_inv_def own_responses_def)
    have look: "lookup_by_eval_id i (beforeSynchCorePRPQueue s1) = Some p" using p r1(3) queue.look_iff [OF q(1)] by simp
    obtain s2 rest where s2: "receive_evaluation c p b s1 = Inr s2" "msgs_ok q n [] R s2" "msg_frame q s1 s2"
        "rawResponseMap s2 = map_assign (eval_id p) (prpResponse p) (rawResponseMap s1)"
        "map_of (rawResponseMap s1) (eval_id p) = None" "msgBuffers s2 = Some (bs[b := (None, rest)])"
      using receive_evaluation_ok [OF _ q(1) p(1) r1(1) s1(2), of n b "[]" R c] s1(1) p(2) by auto
    have f2: "msg_frame q s s2" by (rule msg_frame_trans [OF t(2) s2(3)])
    have own2: "own_responses q s2" by (rule own_responses_finish [OF r1(2) q(1) p(1) s2(4)])
    have u2: "length (unfinished q s) = Suc (length (unfinished q s2))"
      using unfinished_finish [OF q(1) p(1) s2(5,4)] u1 by (metis length_map size_add_mset size_mset)
    let ?it = "dropWhile (is_running s2) it"
    have m2: "msgPassRunningMap s2 = m0" using msg_frame_running [OF f2] inv by (simp add: pass_inv_def)
    have sk: "skipped_ok it ?it R s2"
      using next_job [OF q(1) s2(2) m2 _ _ refl] msgs_ok_split [OF s2(2)] inv by (auto simp: pass_inv_def)
    show ?thesis
    proof (cases ?it)
      case Nil
      have st: "pass_inv q n m0 rs (rem @ [(i, 0)]) (map_erase i vm) R [] s2" "map_assign i 0 rem = rem @ [(i, 0)]"
        using pass_remove [OF inv bs(1) f2 s2(2) own2 s2(6), of "[]"] by (metis drop_all order_refl)+
      from Cons.IH [OF st(1)] obtain rem' it' s' vm' R' where IH: "test_receives_loop c rs (rem @ [(i, 0)]) [] s2 = Inr (rem', it', s')"
          "pass_inv q n m0 [] rem' vm' R' it' s'" "msg_frame q s2 s'" "R' \<subseteq># R" "skipped_ok [] it' R' s'"
          "length (unfinished q s2) + length (rem @ [(i, 0)]) = length (unfinished q s') + length rem'"
          "\<forall>p \<in> set (active s2). count R' (eval_id p) = count R (eval_id p)" by blast
      have "it' = []" using IH(5) by (auto simp: skipped_ok_def)
      moreover have "active s' = active s2" using IH(3) by (simp add: msg_frame_def)
      then have "skipped_ok it it' R' s'" using skipped_trans [OF sk [unfolded Nil] IH(5,4)] by simp
      moreover have "test_receives_loop c (e # rs) rem it s = Inr (rem', it', s')"
        using t(1) True look s2(1) IH(1) st(2) by (simp add: e Nil del: dropWhile_eq_Nil_conv)
      moreover have "active s2 = active s" using f2 by (simp add: msg_frame_def)
      ultimately show ?thesis using IH(2,4,6,7) u2 msg_frame_trans [OF f2 IH(3)] by auto
    next
      case nx: (Cons p' ps)
      have nr: "\<not> is_running s2 p'" using nx by (metis hd_dropWhile list.distinct(1) list.sel(1))
      have p': "p' \<in> set it" "p' \<in> set q" "eval_id p' \<notin> fst ` set m0"
      proof -
        show "p' \<in> set it" using nx by (metis list.set_intros(1) set_dropWhileD)
        then show "p' \<in> set q" using inv by (auto simp: pass_inv_def)
        show "eval_id p' \<notin> fst ` set m0" using nr m2 by (simp add: is_running_def map_of_eq_None_iff)
      qed
      have dr: "\<exists>k. p' # ps = drop k it" using dropWhile_drop [of "is_running s2" it] nx by metis
      have rm: "running_ok n (map_erase i vm) s2"
        using pass_remove(1) [OF inv bs(1) f2 s2(2) own2 s2(6), of it] by (metis drop0 pass_inv_def)
      have "eval_id p' \<in># R"
      proof -
        have "eval_id p' \<notin> fst ` set vm" using p' inv by (auto simp: pass_inv_def)
        then have "eval_id p' \<notin># mset (map fst (map_erase i vm))" by (auto simp: map_erase_def)
        moreover have "eval_id p' \<in># mset (map eval_id (unfinished q s2))"
          using p'(2) nr by (auto simp: unfinished_def is_running_def)
        ultimately show ?thesis using running_books [OF q(1) s2(2) rm] by (metis union_iff)
      qed
      then have "R = add_mset (eval_id p') (R - {#eval_id p'#})" by simp
      moreover have "fst (bs[b := (None, rest)] ! b) = None" "b < n" using bs(2) m(2,3) by (auto simp: running_ok_def)
      ultimately obtain s3 where s3: "send_evaluation c p' b srv s2 = Inr s3" "msgs_ok q n [] (R - {#eval_id p'#}) s3"
          "msg_frame q s2 s3" "rawResponseMap s3 = rawResponseMap s2"
          "msgBuffers s3 = Some (bs[b := (None, rest), b := (Some (srv, eval_id p', prpVariables p', active_set_of (heap s2) p'), [])])"
        using send_evaluation_ok [OF _ q(1) p'(2) _ _ s2(6), of n "[]" "R - {#eval_id p'#}" b c srv] s2(2) by auto
      have pos: "0 < eval_id p'" using q(2) p'(2) by blast
      note st = pass_replace [OF q(1) pos inv bs(1) dr p'(3) f2 own2 s2(6) s3(3,2,4,5)]
      from Cons.IH [OF st(1)] obtain rem' it' s' vm' R' where IH: "test_receives_loop c rs (rem @ [(i, eval_id p')]) ps s3 = Inr (rem', it', s')"
          "pass_inv q n m0 [] rem' vm' R' it' s'" "msg_frame q s3 s'" "R' \<subseteq># R - {#eval_id p'#}" "skipped_ok ps it' R' s'"
          "length (unfinished q s3) + length (rem @ [(i, eval_id p')]) = length (unfinished q s') + length rem'"
          "it' = [] \<or> size R' + length rem' = size (R - {#eval_id p'#}) + length (rem @ [(i, eval_id p')])"
          "\<forall>p \<in> set (active s3). count R' (eval_id p) = count (R - {#eval_id p'#}) (eval_id p)" by blast
      have f3: "msg_frame q s s3" by (rule msg_frame_trans [OF f2 s3(3)])
      have "eval_id p' \<notin># R - {#eval_id p'#}"
      proof
        assume "eval_id p' \<in># R - {#eval_id p'#}"
        moreover have "running_ok n (map_erase i (map_assign (eval_id p') (srv, b) vm)) s3" using st(1) by (simp add: pass_inv_def)
        ultimately have "eval_id p' \<notin> dom (map_of (map_erase i (map_assign (eval_id p') (srv, b) vm)))"
          using books_disjoint(1) [OF q(1) s3(2)] unfolding dom_map_of by blast
        then have "eval_id p' = i" by (auto simp: domIff split: if_splits)
        then show False using p'(3) inv by (auto simp: pass_inv_def)
      qed
      then have sk3: "skipped_ok it ps (R - {#eval_id p'#}) s3" using sk s3(3) nx by (rule skipped_send)
      have "skipped_ok it it' R' s'" using skipped_trans [OF sk3 IH(5,4)] IH(3) by (simp add: msg_frame_def)
      moreover have "test_receives_loop c (e # rs) rem it s = Inr (rem', it', s')"
        using t(1) True look s2(1) nx s3(1) IH(1) st(2) by (simp add: e)
      moreover have "unfinished q s3 = unfinished q s2" using s3(4) by (simp add: unfinished_def)
      moreover have "size (R - {#eval_id p'#}) + 1 = size R" using \<open>eval_id p' \<in># R\<close> by (metis Suc_eq_plus1 size_Suc_Diff1)
      moreover have "R' \<subseteq># R" using IH(4) by (metis diff_subset_eq_self subset_mset.order_trans)
      moreover have "count R' (eval_id x) = count R (eval_id x)" if x: "x \<in> set (active s)" for x
      proof -
        have "active s3 = active s" "active s2 = active s" using f3 f2 by (simp_all add: msg_frame_def)
        moreover have "eval_id p' \<notin> eval_id ` set (active s2)" using nr queue.look_None by (auto simp: is_running_def)
        ultimately show ?thesis using IH(8) x by (auto simp: count_diff)
      qed
      ultimately show ?thesis
        using IH(2,6,7) u2 msg_frame_trans [OF f3 IH(3)]
        by (intro exI [of _ rem'] exI [of _ it'] exI [of _ s'] exI [of _ vm'] exI [of _ R']) auto
    qed
  qed
qed


section \<open>The books between two passes\<close>

definition books_ok :: "'r prp list \<Rightarrow> nat \<Rightarrow> int multiset \<Rightarrow> ('r::zero, 'w) app_state \<Rightarrow> bool" where
  "books_ok q n R s \<longleftrightarrow> msgs_ok q n [] R s \<and> running_ok n (msgPassRunningMap s) s \<and> all_ready q s \<and>
     own_responses q s \<and> beforeSynchCorePRPQueue s = q"

definition track_frame :: "'r prp list \<Rightarrow> ('r, 'w) app_state \<Rightarrow> ('r, 'w) app_state \<Rightarrow> bool" where
  "track_frame q s s' \<longleftrightarrow> msg_frame q (s\<lparr>msgPassRunningMap := []\<rparr>) (s'\<lparr>msgPassRunningMap := []\<rparr>)"

lemma track_frame_refl [simp]: "track_frame q s s"
  by (simp add: track_frame_def)

lemma track_frame_trans: "track_frame q s t \<Longrightarrow> track_frame q t u \<Longrightarrow> track_frame q s u"
  unfolding track_frame_def by (rule msg_frame_trans)

lemma track_frame_msg: "msg_frame q s s' \<Longrightarrow> track_frame q s s'"
  by (simp add: track_frame_def msg_frame_def sched_frame_def)

lemma track_frame_running [simp]:
  "track_frame q s (s'\<lparr>msgPassRunningMap := m\<rparr>) = track_frame q s s'"
  "track_frame q (s\<lparr>msgPassRunningMap := m\<rparr>) s' = track_frame q s s'"
  by (simp_all add: track_frame_def)

lemma track_frame_keeps:
  assumes "track_frame q s s'"
  shows "active s' = active s" "all_ready q s \<Longrightarrow> all_ready q s'" "beforeSynchCorePRPQueue s' = beforeSynchCorePRPQueue s"
    "i \<notin> eval_id ` set q \<Longrightarrow> map_of (rawResponseMap s') i = map_of (rawResponseMap s) i"
  using assms by (simp_all add: track_frame_def msg_frame_def sched_frame_def all_ready_def)

lemma msgs_ok_running [simp]:
  "msgs_ok q n arr R (s\<lparr>msgPassRunningMap := m\<rparr>) = msgs_ok q n arr R s" "running_ok n m' (s\<lparr>msgPassRunningMap := m\<rparr>) = running_ok n m' s"
  "unfinished q (s\<lparr>msgPassRunningMap := m\<rparr>) = unfinished q s"
  by (simp_all add: msgs_ok_def running_ok_def unfinished_def)

lemma test_receives_backfill_ok:
  assumes q: "queue_ok q" "\<forall>p \<in> set q. 0 < eval_id p" and c: "mpi_test_contract c"
    and b: "books_ok q n R s" and it: "set it \<subseteq> set q" "distinct it"
  shows "\<exists>r it' s' R'. test_receives_backfill c it s = Inr (r, it', s') \<and> books_ok q n R' s' \<and> track_frame q s s' \<and>
    R' \<subseteq># R \<and> skipped_ok it it' R' s' \<and> length (unfinished q s) = length (unfinished q s') + r \<and>
    (it' = [] \<or> size R' + r = size R) \<and> (\<forall>p \<in> set (active s). count R' (eval_id p) = count R (eval_id p))"
proof -
  let ?m = "msgPassRunningMap s"
  have m: "msgs_ok q n [] R s" "running_ok n ?m s" using b by (auto simp: books_ok_def)
  have o: "omap_ok ?m" using m(2) by (simp add: running_ok_def)
  have "i \<notin># R" if "i \<in> fst ` set ?m" for i using that books_disjoint(1) [OF q(1) m] by blast
  moreover have "\<forall>e \<in> set ?m. map_of ?m (fst e) = Some (snd e)" using omap_iff [OF o] by auto
  ultimately have "pass_inv q n ?m ?m [] ?m R it s" using b it o by (simp add: pass_inv_def books_ok_def)
  from test_receives_loop_ok [OF q c this] obtain rem' it' s' vm' R' where
      l: "test_receives_loop c ?m [] it s = Inr (rem', it', s')" "pass_inv q n ?m [] rem' vm' R' it' s'" "msg_frame q s s'"
        "R' \<subseteq># R" "skipped_ok it it' R' s'" "length (unfinished q s) = length (unfinished q s') + length rem'"
        "it' = [] \<or> size R' + length rem' = size R"
        "\<forall>p \<in> set (active s). count R' (eval_id p) = count R (eval_id p)" by auto
  have v: "rfold apply_removal rem' (msgPassRunningMap s') = Inr vm'" using l(2) by (simp add: pass_inv_def)
  have "test_receives_backfill c it s = Inr (length rem', it', s'\<lparr>msgPassRunningMap := vm'\<rparr>)"
    using l(1) v by (simp add: test_receives_backfill_def)
  moreover have "books_ok q n R' (s'\<lparr>msgPassRunningMap := vm'\<rparr>)"
    using l(2) by (simp add: books_ok_def pass_inv_def all_ready_def own_responses_def)
  moreover have "skipped_ok it it' R' (s'\<lparr>msgPassRunningMap := vm'\<rparr>)" using l(5) by (simp add: skipped_ok_def)
  ultimately show ?thesis
    using l(4,6-) track_frame_msg [OF l(3)]
    by (intro exI [of _ "length rem'"] exI [of _ it'] exI [of _ "s'\<lparr>msgPassRunningMap := vm'\<rparr>"] exI [of _ R']) simp
qed

end
