(* ===== verification/Peer_Dynamic.thy ===== *)
theory Peer_Dynamic
  imports Message_Tracking
begin

text \<open>
  The dynamic schedule among peers (\<^verbatim>\<open>peer_dynamic_schedule_evaluations\<close>): the first peer sends jobs to
  the others, runs some itself and polls both kinds in turn, replacing every completed job by the
  next waiting one.  The theory shows that it completes if every poll of a running job that reports
  no completion brings the simulation closer to its end.
\<close>

section \<open>Local jobs in the books\<close>

abbreviation ids :: "'r prp list \<Rightarrow> int multiset" where
  "ids q \<equiv> mset (map eval_id q)"

lemma unfinished_parts:
  assumes q: "queue_ok q" and j: "jobs_ok q s"
  shows "ids (unfinished q s) = ids (active s) + ids (waiting q s)"
proof -
  have "distinct (map eval_id (active s))" "distinct (map eval_id (waiting q s))"
    using j distinct_ids [OF q] by (auto simp: jobs_ok_def waiting_def distinct_map_filter distinct_ids)
  moreover have "eval_id ` set (active s) \<inter> eval_id ` set (waiting q s) = {}"
    by (auto simp: waiting_def queue.look_None) (metis imageI)
  ultimately have "distinct (map eval_id (active s @ waiting q s))" by auto
  moreover have "set (map eval_id (active s @ waiting q s)) = set (map eval_id (unfinished q s))"
    using j by (auto simp: unfinished_def waiting_def jobs_ok_def queue.look_None)
  ultimately have "ids (active s @ waiting q s) = ids (unfinished q s)"
    using set_eq_iff_mset_eq_distinct unfinished_ids(1) [OF q, of s] by blast
  then show ?thesis by simp
qed

text \<open>Local completions and launches keep the books of the remote jobs.\<close>

lemma books_local:
  assumes q: "queue_ok q" and j: "jobs_ok q s" "jobs_ok q s'" and f: "sched_frame q s s'"
    and b: "books_ok q n (ids (active s) + W) s" and w: "ids (waiting q s) + W' = ids (waiting q s') + W"
  shows "books_ok q n (ids (active s') + W') s'"
proof -
  obtain bs where bs: "msgBuffers s = Some bs" "length bs = n"
      "mset (ptags bs) + (ids (active s) + W) = ids (unfinished q s)"
      "requests_ok q (active_set_of (heap s)) bs" "arrivals_ok q (active_set_of (heap s)) bs []"
    using b by (auto simp: books_ok_def msgs_ok_def)
  have "mset (ptags bs) + W = ids (waiting q s)" using bs(3) unfinished_parts [OF q j(1)] by (simp add: ac_simps)
  then have "mset (ptags bs) + W' = ids (waiting q s')" using w by (metis add.assoc add.commute add_right_cancel)
  then have "mset (ptags bs) + (ids (active s') + W') = ids (unfinished q s')"
    using unfinished_parts [OF q j(2)] by (simp add: ac_simps)
  moreover have "active_set_of (heap s') = active_set_of (heap s)"
    using f by (simp add: sched_frame_def active_set_of_def fun_eq_iff)
  ultimately have "msgs_ok q n [] (ids (active s') + W') s'" using bs f by (simp add: msgs_ok_def sched_frame_def)
  moreover have "running_ok n (msgPassRunningMap s') s'"
    using b f by (simp add: books_ok_def running_ok_def sched_frame_def)
  ultimately show ?thesis using b f j(2) sched_frame_ready [OF f]
    by (simp add: books_ok_def own_responses_def jobs_ok_def sched_frame_def)
qed

lemma idle_job:
  assumes q: "queue_ok q" and j: "jobs_ok q s" and b: "books_ok q n (ids (active s) + W) s" and p: "p \<in> set q"
  shows "eval_id p \<in># W \<longleftrightarrow> p \<in> set (waiting q s) \<and> map_of (msgPassRunningMap s) (eval_id p) = None"
proof -
  let ?m = "map fst (msgPassRunningMap s)"
  have "mset ?m + (ids (active s) + W) = ids (unfinished q s)"
    using b running_books [OF q] by (auto simp: books_ok_def)
  then have w: "mset ?m + W = ids (waiting q s)" using unfinished_parts [OF q j] by (simp add: ac_simps)
  obtain ks where ks: "mset ks = W" using ex_mset by blast
  have e: "mset (?m @ ks) = ids (waiting q s)" using w ks by simp
  moreover have "distinct (map eval_id (waiting q s))" using distinct_ids [OF q] by (simp add: waiting_def distinct_map_filter)
  ultimately have d: "distinct (?m @ ks)" by (metis mset_eq_imp_distinct_iff)
  have "set (?m @ ks) = set (map eval_id (waiting q s))" using mset_eq_setD [OF e] by simp
  then have "eval_id p \<in> set ks \<longleftrightarrow> eval_id p \<in> eval_id ` set (waiting q s) \<and> eval_id p \<notin> set ?m" using d by auto
  moreover have "eval_id p \<in> eval_id ` set (waiting q s) \<longleftrightarrow> p \<in> set (waiting q s)"
    using queue.unique [OF q p] waiting_subset [of _ q s] by blast
  moreover have "eval_id p \<in># W \<longleftrightarrow> eval_id p \<in> set ks" using ks by auto
  ultimately show ?thesis by (simp add: map_of_eq_None_iff)
qed

lemma launch_books:
  assumes q: "queue_ok q" and j: "jobs_ok q s" and b: "books_ok q n (ids (active s) + W) s" and p: "p \<in> set q" "eval_id p \<in># W"
  shows "books_ok q n (ids (active (launch c p s)) + (W - {#eval_id p#})) (launch c p s)" "jobs_ok q (launch c p s)"
    "length (active (launch c p s)) = Suc (length (active s))" "sched_frame q s (launch c p s)"
    "rawResponseMap (launch c p s) = rawResponseMap s"
proof -
  have w: "p \<in> set (waiting q s)" using idle_job [OF q j b p(1)] p(2) by blast
  note l = jobs_ok_launch [OF q j w, of c]
  show "jobs_ok q (launch c p s)" "length (active (launch c p s)) = Suc (length (active s))" "sched_frame q s (launch c p s)"
    using l by auto
  show "rawResponseMap (launch c p s) = rawResponseMap s" by (simp add: launch_def)
  have "distinct (waiting q s)" using queue_ok_distinct [OF q] by (simp add: waiting_def)
  then have "waiting q (launch c p s) = remove1 p (waiting q s)"
    unfolding l(3) by (simp add: distinct_remove1_removeAll removeAll_filter_not_eq eq_commute)
  then have "mset (waiting q s) = add_mset p (mset (waiting q (launch c p s)))" using w by simp
  then have "ids (waiting q s) + (W - {#eval_id p#}) = ids (waiting q (launch c p s)) + W"
    using p(2) by (simp add: insert_DiffM)
  then show "books_ok q n (ids (active (launch c p s)) + (W - {#eval_id p#})) (launch c p s)"
    by (rule books_local [OF q j l(1,4) b])
qed
section \<open>A pass over the local jobs\<close>

text \<open>The state between two passes: the ids \<open>W\<close> of the waiting jobs are those of jobs from the assignment
  position \<open>it\<close> on.\<close>

definition dyn_inv ::
    "('r, 'w) app_config \<Rightarrow> 'r prp list \<Rightarrow> nat \<Rightarrow> int multiset \<Rightarrow> 'r prp list \<Rightarrow> ('r::zero, 'w) app_state \<Rightarrow> bool" where
  "dyn_inv c q n W it s \<longleftrightarrow> books_ok q n (ids (active s) + W) s \<and> jobs_ok q s \<and> within_limit c (length (active s)) \<and>
     set it \<subseteq> set q \<and> distinct it \<and> set_mset W \<subseteq> eval_id ` set it"

lemma test_backfill_books:
  assumes q: "queue_ok q" and ns: "\<not> static_limited c"
    and "books_ok q n (ids (active s) + W) s" "jobs_ok q s" "within_limit c (Suc (length (active s)))" "m = length (active s)"
      "set ps \<subseteq> set q" "distinct ps" "set_mset W \<subseteq> eval_id ` set ps"
  shows "\<exists>it s' W'. test_backfill_loop c m ps s = (it, s') \<and> dyn_inv c q n W' it s' \<and> W' \<subseteq># W \<and> sched_frame q s s' \<and>
    rawResponseMap s' = rawResponseMap s \<and> (active s' = [] \<longrightarrow> W' = {#})"
  using assms(3-)
proof (induction ps arbitrary: m s W)
  case Nil
  then show ?case by (auto simp: dyn_inv_def within_limit_def)
next
  case (Cons p ps)
  have p: "p \<in> set q" using Cons.prems(5) by simp
  have idle: "eval_id p \<in># W \<longleftrightarrow> (lookup_by_eval_id (eval_id p) (active s) = None \<and> map_of (rawResponseMap s) (eval_id p) = None) \<and>
      map_of (msgPassRunningMap s) (eval_id p) = None"
    using idle_job [OF q Cons.prems(2,1) p] p by (auto simp: waiting_def)
  show ?case
  proof (cases "eval_id p \<in># W")
    case True
    let ?s = "launch c p s" and ?W = "W - {#eval_id p#}"
    note l = launch_books [OF q Cons.prems(2,1) p True, of c]
    have ne: "active ?s \<noteq> []" using l(3) by auto
    have nW: "eval_id p \<notin># ?W"
    proof -
      have "p \<notin> set (waiting q ?s)" using jobs_ok_launch(3) [OF q Cons.prems(2)] idle_job [OF q Cons.prems(2,1) p] True by auto
      then show ?thesis using idle_job [OF q l(2,1) p] by blast
    qed
    have sub: "set_mset ?W \<subseteq> eval_id ` set ps" using Cons.prems(7) nW by (auto dest: in_diffD)
    show ?thesis
    proof (cases "asynchLocalEvalConcurrency c \<noteq> 0 \<and> m + 1 \<ge> asynchLocalEvalConcurrency c")
      case full: True
      have "dyn_inv c q n ?W ps ?s" using l(1-3) Cons.prems(3,5,6) sub by (simp add: dyn_inv_def)
      then show ?thesis
        using full True idle ns ne l(4,5) unfolding test_backfill_launch by (intro exI [of _ ps] exI [of _ ?s] exI [of _ ?W]) simp
    next
      case more: False
      have lim: "within_limit c (Suc (length (active ?s)))" using more l(3) Cons.prems(4) by (auto simp: within_limit_def)
      obtain it s' W' where "test_backfill_loop c (m + 1) ps ?s = (it, s')" "dyn_inv c q n W' it s'" "W' \<subseteq># ?W"
          "sched_frame q ?s s'" "rawResponseMap s' = rawResponseMap ?s" "active s' = [] \<longrightarrow> W' = {#}"
        using Cons.IH [OF l(1,2) lim, of "m + 1"] Cons.prems(4-6) l(3) sub by auto
      moreover have "?W \<subseteq># W" by simp
      ultimately show ?thesis
        using more True idle ns l(4,5) sched_frame_trans [OF l(4)] unfolding test_backfill_launch
        by (intro exI [of _ it] exI [of _ s'] exI [of _ W']) (auto intro: subset_mset.order_trans)
    qed
  next
    case False
    have "set_mset W \<subseteq> eval_id ` set ps" using Cons.prems(7) False by auto
    then obtain it s' W' where "test_backfill_loop c m ps s = (it, s')" "dyn_inv c q n W' it s'" "W' \<subseteq># W"
        "sched_frame q s s'" "rawResponseMap s' = rawResponseMap s" "active s' = [] \<longrightarrow> W' = {#}"
      using Cons.IH [OF Cons.prems(1-4)] Cons.prems(5,6) by auto
    then show ?thesis using False idle ns unfolding test_backfill_launch by auto
  qed
qed

lemma unfinished_finished: "length (finished q s) + length (unfinished q s) = length q"
  unfolding finished_def unfinished_def using sum_length_filter_compl [of "\<lambda>p. map_of (rawResponseMap s) (eval_id p) = None" q]
  by simp

lemma test_local_backfill_books:
  assumes q: "queue_ok q" and ns: "\<not> static_limited c" and t: "test_contract c" and i: "dyn_inv c q n W it s"
  shows "\<exists>k it' s' W'. test_local_backfill c q it s = Inr (k, it', s') \<and> dyn_inv c q n W' it' s' \<and> W' \<subseteq># W \<and> sched_frame q s s' \<and>
    length (unfinished q s) = length (unfinished q s') + k \<and> (active s' = [] \<longrightarrow> active s = [] \<or> W' = {#}) \<and>
    (\<exists>d w. test_local_evaluations c (map (job_of s) (active s)) (world s) = Inr (d, w) \<and>
      (k = 0 \<longrightarrow> d = [] \<and> world s' = w \<and> active s' = active s))"
proof -
  let ?jobs = "map (job_of s) (active s)"
  have j: "books_ok q n (ids (active s) + W) s" "jobs_ok q s" "within_limit c (length (active s))" "set it \<subseteq> set q" "distinct it"
      "set_mset W \<subseteq> eval_id ` set it" using i by (auto simp: dyn_inv_def)
  obtain d w where d: "test_local_evaluations c ?jobs (world s) = Inr (d, w)" "completions_valid ?jobs d"
    using t j(3) unfolding test_contract_def by (metis length_map)
  have "servers_exist c" "sched_ok c q s" using ns j by (auto simp: servers_exist_def sched_ok_def)
  then obtain ks s1 s2 where p: "collect_completions (test_local_evaluations c) s = Inr (ks, s1)"
      "rfold (process_asynch_local c) ks s1 = Inr s2" "ks = [] \<longrightarrow> d = []" "jobs_ok q s2"
      "length (active s2) + length ks = length (active s)" "waiting q s2 = waiting q s"
      "length (finished q s2) = length (finished q s) + length ks" "sched_frame q s s2"
    using collect_and_process [where wait = "test_local_evaluations c", OF q _ _ d] by blast
  have b2: "books_ok q n (ids (active s2) + W) s2" using books_local [OF q j(2) p(4,8) j(1)] p(6) by simp
  have u2: "length (unfinished q s) = length (unfinished q s2) + length ks"
    using p(7) unfinished_finished [of q s] unfinished_finished [of q s2] by simp
  show ?thesis
  proof (cases "ks = []")
    case True
    then have "d = []" using p(3) by simp
    then have s1: "s1 = s\<lparr>world := w\<rparr>" using p(1) d(1) by (simp add: collect_completions_def)
    have s2: "s2 = s1" using p(2) True by simp
    have "test_local_backfill c q it s = Inr (0, it, s2)" using p(1,2) True by (simp add: test_local_backfill_def)
    moreover have "dyn_inv c q n W it s2" using b2 p(4) j s1 s2 by (simp add: dyn_inv_def)
    ultimately show ?thesis using p(8) u2 True d(1) \<open>d = []\<close> s1 s2
      by (intro exI [of _ 0] exI [of _ it] exI [of _ s2] exI [of _ W]) auto
  next
    case False
    have lim: "within_limit c (Suc (length (active s2)))"
      using j(3) p(5) False by (cases ks) (auto simp: within_limit_def)
    obtain it' s' W' where l: "test_backfill_loop c (length (active s2)) it s2 = (it', s')" "dyn_inv c q n W' it' s'" "W' \<subseteq># W"
        "sched_frame q s2 s'" "rawResponseMap s' = rawResponseMap s2" "active s' = [] \<longrightarrow> W' = {#}"
      using test_backfill_books [OF q ns b2 p(4) lim refl j(4-6)] by blast
    have "test_local_backfill c q it s = Inr (length ks, it', s')"
      using p(1,2) False ns l(1) by (simp add: test_local_backfill_def Let_def)
    moreover have "length (unfinished q s) = length (unfinished q s') + length ks" using u2 l(5) by (simp add: unfinished_def)
    ultimately show ?thesis using l sched_frame_trans [OF p(8) l(4)] d(1) False
      by (intro exI [of _ "length ks"] exI [of _ it'] exI [of _ s'] exI [of _ W']) auto
  qed
qed
section \<open>A pass over the remote jobs\<close>

lemma length_books:
  assumes "queue_ok q" "books_ok q n R s"
  shows "length (msgPassRunningMap s) + size R = length (unfinished q s)"
  using running_books [OF assms(1), of n R s "msgPassRunningMap s"] assms(2)
  by (metis books_ok_def length_map size_mset size_union)

lemma books_distinct:
  assumes "queue_ok q" "books_ok q n R s"
  shows "count R i \<le> 1"
proof -
  have "msgs_ok q n [] R s" using assms(2) by (simp add: books_ok_def)
  then obtain P where "ids (unfinished q s) = P + R" using msgs_ok_split by blast
  then have "count R i \<le> count (ids (unfinished q s)) i" by simp
  also have "\<dots> \<le> 1" using unfinished_ids(1) [OF assms(1), of s] by (simp add: distinct_count_atmost_1)
  finally show ?thesis .
qed

lemma test_receives_dyn:
  assumes q: "queue_ok q" "\<forall>p \<in> set q. 0 < eval_id p" and c: "mpi_test_contract c" and i: "dyn_inv c q n W it s"
  shows "\<exists>r it' s' W'. test_receives_backfill c it s = Inr (r, it', s') \<and> dyn_inv c q n W' it' s' \<and> W' \<subseteq># W \<and>
    track_frame q s s' \<and> length (unfinished q s) = length (unfinished q s') + r \<and>
    (W' = {#} \<or> length (msgPassRunningMap s') = length (msgPassRunningMap s))"
proof -
  let ?A = "ids (active s)"
  have j: "books_ok q n (?A + W) s" "jobs_ok q s" "within_limit c (length (active s))" "set it \<subseteq> set q" "distinct it"
      "set_mset W \<subseteq> eval_id ` set it" using i by (auto simp: dyn_inv_def)
  obtain r it' s' R' where t: "test_receives_backfill c it s = Inr (r, it', s')" "books_ok q n R' s'" "track_frame q s s'"
      "R' \<subseteq># ?A + W" "skipped_ok it it' R' s'" "length (unfinished q s) = length (unfinished q s') + r"
      "it' = [] \<or> size R' + r = size (?A + W)" "\<forall>p \<in> set (active s). count R' (eval_id p) = count (?A + W) (eval_id p)"
    using test_receives_backfill_ok [OF q c j(1,4,5)] by blast
  have act: "active s' = active s" by (rule track_frame_keeps(1) [OF t(3)])
  have "?A \<subseteq># R'"
  proof (rule mset_subset_eqI)
    fix a
    show "count ?A a \<le> count R' a"
    proof (cases "a \<in> eval_id ` set (active s)")
      case True
      then show ?thesis using t(8) by auto
    next
      case False
      then have "count ?A a = 0" by (auto simp: count_eq_zero_iff)
      then show ?thesis by simp
    qed
  qed
  then obtain W' where W': "R' = ?A + W'" by (metis subset_mset.le_iff_add)
  then have sub: "W' \<subseteq># W" using t(4) by simp
  have "map_of (rawResponseMap s') (eval_id p) = None" if "p \<in> set (active s)" for p
  proof -
    have "eval_id p \<in># R'" using that W' by auto
    then show ?thesis using books_disjoint(3) [OF q(1)] t(2) unfolding books_ok_def by blast
  qed
  then have j': "jobs_ok q s'" using j(2) t(2) act by (simp add: jobs_ok_def books_ok_def own_responses_def)
  have it': "set it' \<subseteq> set it" "distinct it'" using t(5) j(5) by (auto simp: skipped_ok_def dest: in_set_dropD)
  have cover: "set_mset W' \<subseteq> eval_id ` set it'"
  proof
    fix a assume a: "a \<in># W'"
    then obtain p where p: "p \<in> set it" "eval_id p = a" using j(6) mset_subset_eqD [OF sub] by blast
    show "a \<in> eval_id ` set it'"
    proof (rule ccontr)
      assume "a \<notin> eval_id ` set it'"
      then have "lookup_by_eval_id a (active s') \<noteq> None" using t(5) p a W' by (auto simp: skipped_ok_def)
      then have "a \<in># ?A" by (auto simp: act queue.look_None)
      then have "0 < count ?A a" "0 < count W' a" using a by (simp_all only: count_greater_zero_iff)
      then have "count R' a \<ge> 2" unfolding W' count_union by linarith
      then show False using books_distinct [OF q(1) t(2), of a] by simp
    qed
  qed
  have "dyn_inv c q n W' it' s'" using t(2) W' act j' j(3,4) it' cover by (auto simp: dyn_inv_def)
  moreover have "W' = {#} \<or> length (msgPassRunningMap s') = length (msgPassRunningMap s)"
  proof (cases "it' = []")
    case True
    then show ?thesis using cover by auto
  next
    case False
    then show ?thesis using t(6,7) length_books [OF q(1) j(1)] length_books [OF q(1) t(2)] by simp
  qed
  ultimately show ?thesis using t(1,3,6) sub by blast
qed

section \<open>Progress of polling\<close>

text \<open>Every poll without a completion brings the running jobs closer to their end: \<open>togo\<close> of the world
  decreases.\<close>

definition polls_progress :: "('r, 'w) app_config \<Rightarrow> ('w \<Rightarrow> nat) \<Rightarrow> bool" where
  "polls_progress c togo \<longleftrightarrow>
    (\<forall>rq w w'. mpi_test c rq w = Inr (None, w') \<longrightarrow> togo w' < togo w) \<and>
    (\<forall>jobs w w'. test_local_evaluations c jobs w = Inr ([], w') \<longrightarrow> togo w' \<le> togo w \<and> (jobs \<noteq> [] \<longrightarrow> togo w' < togo w))"

lemma test_receives_step:
  assumes "test_receives_loop c ((i, srv, b) # rs) rem it s = Inr res"
  shows "\<exists>flag s1. test_request c b s = Inr (flag, s1) \<and>
    (if flag then \<exists>k it1 s3. test_receives_loop c rs (map_assign i k rem) it1 s3 = Inr res
     else test_receives_loop c rs rem it s1 = Inr res)"
proof -
  obtain flag s1 where t: "test_request c b s = Inr (flag, s1)" using assms by (auto simp: result_simps)
  show ?thesis
  proof (cases flag)
    case False
    then show ?thesis using assms t by (intro exI [of _ flag] exI [of _ s1]) simp
  next
    case True
    obtain p where p: "lookup_by_eval_id i (beforeSynchCorePRPQueue s1) = Some p"
      using assms t True by (auto split: option.splits)
    obtain s2 where s2: "receive_evaluation c p b s1 = Inr s2" using assms t True p by (auto simp: result_simps)
    have "\<exists>k it1 s3. test_receives_loop c rs (map_assign i k rem) it1 s3 = Inr res"
    proof (cases "dropWhile (is_running s2) it")
      case Nil
      then show ?thesis using assms t True p s2 by (auto simp del: dropWhile_eq_Nil_conv)
    next
      case (Cons p' ps)
      then obtain s3 where "send_evaluation c p' b srv s2 = Inr s3" using assms t True p s2 by (auto simp: result_simps)
      then show ?thesis using assms t True p s2 Cons by auto
    qed
    then show ?thesis using t True by (intro exI [of _ flag] exI [of _ s1]) simp
  qed
qed

lemma map_assign_ne: "map_assign k v m \<noteq> []"
  using keys_map_assign [of k v m] by auto

lemma removals_grow: "test_receives_loop c rs rem it s = Inr (rem', it', s') \<Longrightarrow> rem \<noteq> [] \<Longrightarrow> rem' \<noteq> []"
proof (induction rs arbitrary: rem it s)
  case (Cons e rs)
  obtain i srv b where e: "e = (i, srv, b)" by (metis prod_cases3)
  show ?case
    using test_receives_step [OF Cons.prems(1) [unfolded e]] Cons.IH Cons.prems(2) map_assign_ne by (metis (full_types))
qed simp

lemma test_receives_idle:
  assumes p: "polls_progress c togo"
    and "test_receives_loop c rs [] it s = Inr ([], it', s')" "\<forall>e \<in> set rs. fst (the (msgBuffers s) ! snd (snd e)) \<noteq> None"
  shows "togo (world s') \<le> togo (world s) \<and> (rs \<noteq> [] \<longrightarrow> togo (world s') < togo (world s)) \<and> active s' = active s"
  using assms(2-)
proof (induction rs arbitrary: s)
  case (Cons e rs)
  obtain i srv b where e: "e = (i, srv, b)" by (metis prod_cases3)
  obtain flag s1 where t: "test_request c b s = Inr (flag, s1)"
      "if flag then \<exists>k it1 s3. test_receives_loop c rs (map_assign i k []) it1 s3 = Inr ([], it', s')
       else test_receives_loop c rs [] it s1 = Inr ([], it', s')"
    using test_receives_step [OF Cons.prems(1) [unfolded e]] by blast
  have nf: "\<not> flag" using t(2) removals_grow map_assign_ne by (metis (full_types))
  have "fst (the (msgBuffers s) ! b) \<noteq> None" using Cons.prems(2) by (simp add: e)
  then have s1: "togo (world s1) < togo (world s)" "msgBuffers s1 = msgBuffers s" "active s1 = active s"
    using t(1) p nf by (auto simp: test_request_def polls_progress_def result_simps split: option.splits if_splits)
  have "test_receives_loop c rs [] it s1 = Inr ([], it', s')" using t(2) nf by simp
  from Cons.IH [OF this] Cons.prems(2) s1 show ?case by auto
qed simp


section \<open>The loop\<close>

definition dyn_frame :: "'r prp list \<Rightarrow> ('r, 'w) app_state \<Rightarrow> ('r, 'w) app_state \<Rightarrow> bool" where
  "dyn_frame q s s' \<longleftrightarrow> sched_frame q (s\<lparr>msgBuffers := None, msgPassRunningMap := []\<rparr>) (s'\<lparr>msgBuffers := None, msgPassRunningMap := []\<rparr>)"

lemma dyn_frame_refl [simp]: "dyn_frame q s s"
  by (simp add: dyn_frame_def)

lemma dyn_frame_trans: "dyn_frame q s t \<Longrightarrow> dyn_frame q t u \<Longrightarrow> dyn_frame q s u"
  unfolding dyn_frame_def by (rule sched_frame_trans)

lemma dyn_frame_track: "track_frame q s s' \<Longrightarrow> dyn_frame q s s'"
  by (simp add: dyn_frame_def track_frame_def msg_frame_def sched_frame_def)

lemma dyn_frame_sched: "sched_frame q s s' \<Longrightarrow> dyn_frame q s s'"
  by (simp add: dyn_frame_def sched_frame_def)

lemma test_receives_quiet:
  assumes p: "polls_progress c togo" and b: "books_ok q n R s" and t: "test_receives_backfill c it s = Inr (0, it', s')"
  shows "togo (world s') \<le> togo (world s) \<and> (msgPassRunningMap s \<noteq> [] \<longrightarrow> togo (world s') < togo (world s)) \<and> active s' = active s"
proof -
  let ?m = "msgPassRunningMap s"
  obtain s1 m where s1: "test_receives_loop c ?m [] it s = Inr ([], it', s1)" "s' = s1\<lparr>msgPassRunningMap := m\<rparr>"
    using t by (auto simp: test_receives_backfill_def result_simps)
  have r: "running_ok n ?m s" using b by (simp add: books_ok_def)
  have "fst (the (msgBuffers s) ! snd (snd e)) \<noteq> None" if "e \<in> set ?m" for e
  proof -
    have "map_of ?m (fst e) = Some (fst (snd e), snd (snd e))" using r that omap_iff [of ?m] by (auto simp: running_ok_def)
    then have "\<exists>v st. fst (the (msgBuffers s) ! snd (snd e)) = Some (fst (snd e), fst e, v, st)"
      using r unfolding running_ok_def by blast
    then show ?thesis by auto
  qed
  then show ?thesis using test_receives_idle [OF p s1(1)] s1(2) by auto
qed

lemma peer_dynamic_loop_completes:
  assumes q: "queue_ok q" "\<forall>p \<in> set q. 0 < eval_id p" and ns: "\<not> static_limited c"
    and c: "mpi_test_contract c" "test_contract c" "polls_progress c togo"
    and "dyn_inv c q n W it s" "W = {#} \<or> msgPassRunningMap s \<noteq> [] \<or> active s \<noteq> []" "recv + length (unfinished q s) = length q"
  shows "\<exists>N s'. (\<forall>fuel \<ge> N. peer_dynamic_loop fuel c (length q) recv it s = Inr s') \<and> dyn_frame q s s' \<and> active s' = [] \<and>
    msgPassRunningMap s' = [] \<and> (\<forall>p \<in> set q. map_of (rawResponseMap s') (eval_id p) = Some (prpResponse p))"
  using assms(7-)
proof (induction "(length (unfinished q s), togo (world s))" arbitrary: W it s recv rule: wf_induct_rule
    [OF wf_lex_prod [OF wf_less wf_less]])
  case (1 s W it recv)
  have b: "books_ok q n (ids (active s) + W) s" using 1(2) by (simp add: dyn_inv_def)
  show ?case
  proof (cases "unfinished q s = []")
    case True
    then have "msgPassRunningMap s = []" "active s = []" using length_books [OF q(1) b] by auto
    moreover have "\<forall>p \<in> set q. map_of (rawResponseMap s) (eval_id p) = Some (prpResponse p)"
      using True b by (auto simp: unfinished_Nil books_ok_def own_responses_def)
    moreover have "recv = length q" using 1(4) True by simp
    ultimately show ?thesis by (intro exI [of _ 0] exI [of _ s]) (simp add: peer_dynamic_loop.simps)
  next
    case False
    obtain r it1 s1 W1 where r: "test_receives_backfill c it s = Inr (r, it1, s1)" "dyn_inv c q n W1 it1 s1" "W1 \<subseteq># W"
        "track_frame q s s1" "length (unfinished q s) = length (unfinished q s1) + r"
        "W1 = {#} \<or> length (msgPassRunningMap s1) = length (msgPassRunningMap s)"
      using test_receives_dyn [OF q c(1) 1(2)] by blast
    obtain k it2 s2 W2 d w where l: "test_local_backfill c q it1 s1 = Inr (k, it2, s2)" "dyn_inv c q n W2 it2 s2" "W2 \<subseteq># W1"
        "sched_frame q s1 s2" "length (unfinished q s1) = length (unfinished q s2) + k"
        "active s2 = [] \<longrightarrow> active s1 = [] \<or> W2 = {#}"
        "test_local_evaluations c (map (job_of s1) (active s1)) (world s1) = Inr (d, w)"
        "k = 0 \<longrightarrow> d = [] \<and> world s2 = w \<and> active s2 = active s1"
      using test_local_backfill_books [OF q(1) ns c(2) r(2)] by blast
    have a1: "active s1 = active s" by (rule track_frame_keeps(1) [OF r(4)])
    have q1: "beforeSynchCorePRPQueue s1 = q" using r(2) by (simp add: dyn_inv_def books_ok_def)
    have m2: "msgPassRunningMap s2 = msgPassRunningMap s1" using l(4) by (simp add: sched_frame_def)
    have prog: "W2 = {#} \<or> msgPassRunningMap s2 \<noteq> [] \<or> active s2 \<noteq> []"
    proof (rule ccontr)
      assume "\<not> ?thesis"
      then have n: "W2 \<noteq> {#}" "msgPassRunningMap s1 = []" "active s1 = []" using l(6) m2 by auto
      then have "W1 \<noteq> {#}" using l(3) by auto
      then have "msgPassRunningMap s = []" "W \<noteq> {#}" using r(3,6) n(2) by auto
      then show False using 1(3) n(3) a1 by auto
    qed
    have less: "length (unfinished q s2) < length (unfinished q s) \<or>
        length (unfinished q s2) = length (unfinished q s) \<and> togo (world s2) < togo (world s)"
    proof (cases "r = 0 \<and> k = 0")
      case True
      have "togo (world s1) \<le> togo (world s) \<and> (msgPassRunningMap s \<noteq> [] \<longrightarrow> togo (world s1) < togo (world s))"
        using test_receives_quiet [OF c(3) b, of it it1 s1] r(1) True by simp
      moreover have "togo (world s2) \<le> togo (world s1) \<and> (active s1 \<noteq> [] \<longrightarrow> togo (world s2) < togo (world s1))"
        using c(3) l(7,8) True unfolding polls_progress_def by (metis list.map_disc_iff)
      moreover have "msgPassRunningMap s \<noteq> [] \<or> active s \<noteq> []"
        using 1(3) False length_books [OF q(1) b] by auto
      ultimately have "togo (world s2) < togo (world s)" using a1 by auto
      then show ?thesis using True r(5) l(5) by simp
    next
      case False
      then show ?thesis using r(5) l(5) by auto
    qed
    have "recv + r + k + length (unfinished q s2) = length q" using 1(4) r(5) l(5) by simp
    from 1(1) [OF _ l(2) prog this] less obtain N s' where N: "\<forall>fuel \<ge> N. peer_dynamic_loop fuel c (length q) (recv + r + k) it2 s2 = Inr s'"
        "dyn_frame q s2 s'" "active s' = []" "msgPassRunningMap s' = []"
        "\<forall>p \<in> set q. map_of (rawResponseMap s') (eval_id p) = Some (prpResponse p)"
      by auto
    have "peer_dynamic_loop fuel c (length q) recv it s = Inr s'" if f: "fuel \<ge> Suc N" for fuel
    proof -
      obtain m where m: "fuel = Suc m" "m \<ge> N" using f by (cases fuel) auto
      have "recv < length q" using 1(4) False by (cases "unfinished q s") auto
      then show ?thesis using m N(1) r(1) l(1) q1 by (subst peer_dynamic_loop.simps) simp
    qed
    moreover have "dyn_frame q s s'"
      using dyn_frame_trans [OF dyn_frame_trans [OF dyn_frame_track [OF r(4)] dyn_frame_sched [OF l(4)]] N(2)] .
    ultimately show ?thesis using N(3-) by blast
  qed
qed
section \<open>The first pass\<close>

lemma assign_tracked_ok:
  assumes q: "queue_ok q" and "set ps \<subseteq> set q" "books_ok q n (ids ps + R) s"
    and "b + length (remote_jobs (numEvalServers c) i ps) \<le> n" "\<forall>j. b \<le> j \<longrightarrow> j < n \<longrightarrow> tag_at s j = None"
  shows "\<exists>s'. assign_round_robin True c i b ps lq s =
      Inr (foldl (\<lambda>lq p. queue_insert p lq) lq (local_jobs (numEvalServers c) i ps), s') \<and>
    books_ok q n (ids (local_jobs (numEvalServers c) i ps) + R) s' \<and> track_frame q s s' \<and> rawResponseMap s' = rawResponseMap s"
  using assms(2-)
proof (induction ps arbitrary: i b lq s R)
  case (Cons p ps)
  let ?n = "numEvalServers c"
  have p: "p \<in> set q" using Cons.prems(1) by simp
  have bk: "books_ok q n (add_mset (eval_id p) (ids ps + R)) s" using Cons.prems(2) by simp
  show ?case
  proof (cases "i mod ?n = 0")
    case True
    have "books_ok q n (ids ps + add_mset (eval_id p) R) s" using bk by simp
    from Cons.IH [OF _ this, of b "Suc i" "queue_insert p lq"] Cons.prems True show ?thesis by simp
  next
    case False
    obtain bs where bs: "msgBuffers s = Some bs" "length bs = n" using bk by (auto simp: books_ok_def msgs_ok_def)
    have b: "b < n" "tag_at s b = None" using Cons.prems(3,4) False by auto
    then have bn: "fst (bs ! b) = None" using bs by (simp add: tag_at_def)
    have m: "msgs_ok q n [] (add_mset (eval_id p) (ids ps + R)) s" "running_ok n (msgPassRunningMap s) s" using bk by (auto simp: books_ok_def)
    obtain s1 where s1: "send_evaluation c p b (int (i mod ?n)) s = Inr s1" "msgs_ok q n [] (ids ps + R) s1" "msg_frame q s s1"
        "rawResponseMap s1 = rawResponseMap s"
        "msgBuffers s1 = Some (bs[b := (Some (int (i mod ?n), eval_id p, prpVariables p, active_set_of (heap s) p), [])])"
      using send_evaluation_ok [OF m(1) q p b(1) _ bs(1) bn] by auto
    let ?m = "map_assign (eval_id p) (int (i mod ?n), b) (msgPassRunningMap s)"
    have "eval_id p \<notin> fst ` set (msgPassRunningMap s)" using books_disjoint(1) [OF q m, of "eval_id p"] by simp
    from running_add [OF m(2) this bs b(1) bn s1(5)] have r: "running_ok n ?m s1" .
    have bk1: "books_ok q n (ids ps + R) (s1\<lparr>msgPassRunningMap := ?m\<rparr>)"
      using s1(2,4) r bk msg_frame_ready [OF s1(3)] msg_frame_queue [OF s1(3)]
      by (simp add: books_ok_def all_ready_def own_responses_def)
    have "tag_at (s1\<lparr>msgPassRunningMap := ?m\<rparr>) j = None" if "Suc b \<le> j" "j < n" for j
      using that Cons.prems(4) s1(5) bs(1) by (auto simp: tag_at_def)
    then obtain s' where "assign_round_robin True c (Suc i) (Suc b) ps lq (s1\<lparr>msgPassRunningMap := ?m\<rparr>) =
          Inr (foldl (\<lambda>lq p. queue_insert p lq) lq (local_jobs ?n (Suc i) ps), s')"
        "books_ok q n (ids (local_jobs ?n (Suc i) ps) + R) s'" "track_frame q (s1\<lparr>msgPassRunningMap := ?m\<rparr>) s'"
        "rawResponseMap s' = rawResponseMap (s1\<lparr>msgPassRunningMap := ?m\<rparr>)"
      using Cons.IH [OF _ bk1, of "Suc b" "Suc i" lq] Cons.prems False by auto
    moreover have "msgPassRunningMap s1 = msgPassRunningMap s" by (rule msg_frame_running [OF s1(3)])
    ultimately show ?thesis using False s1(1,4) track_frame_trans [OF track_frame_msg [OF s1(3)]] by simp
  qed
qed simp

lemma assign_all_ok:
  assumes q: "queue_ok q" and ns: "\<not> static_limited c"
    and "set ps \<subseteq> set q" "books_ok q n (ids (active s) + (ids ps + W)) s" "jobs_ok q s" "i + length ps \<le> k"
  shows "\<exists>s'. assign_loop c i k na ps s = ([], s') \<and> books_ok q n (ids (active s') + W) s' \<and> jobs_ok q s' \<and>
    length (active s') = length (active s) + length ps \<and> sched_frame q s s' \<and> rawResponseMap s' = rawResponseMap s"
  using assms(3-)
proof (induction ps arbitrary: i s)
  case Nil
  then show ?case by simp
next
  case (Cons p ps)
  have p: "p \<in> set q" "eval_id p \<in># ids (p # ps) + W" using Cons.prems(1) by simp_all
  note l = launch_books [OF q Cons.prems(3,2) p, of c]
  have "books_ok q n (ids (active (launch c p s)) + (ids ps + W)) (launch c p s)" using l(1) by simp
  from Cons.IH [OF _ this l(2), of "Suc i"] Cons.prems(1,4) obtain s' where
      "assign_loop c (Suc i) k na ps (launch c p s) = ([], s')" "books_ok q n (ids (active s') + W) s'" "jobs_ok q s'"
      "length (active s') = length (active (launch c p s)) + length ps" "sched_frame q (launch c p s) s'"
      "rawResponseMap s' = rawResponseMap (launch c p s)" by auto
  then show ?case
    using ns l(3,5) Cons.prems(4) sched_frame_trans [OF l(4)] by (simp add: launch_def assign_loop.simps)
qed

definition dynamic_pre :: "('r::zero, 'w) app_config \<Rightarrow> 'r prp list \<Rightarrow> ('r, 'w) app_state \<Rightarrow> bool" where
  "dynamic_pre c q s \<longleftrightarrow> servers_positive c \<and> \<not> asynchLocalEvalStatic c \<and> mpi_test_contract c \<and> test_contract c \<and>
     active s = [] \<and> msgPassRunningMap s = [] \<and> remote_pre q s \<and> (\<forall>p \<in> set q. 0 < eval_id p)"

lemma peer_dynamic_completes:
  assumes c: "dynamic_pre c q s" "polls_progress c togo"
    and q: "queue_ok q" "\<forall>p \<in> set q. map_of (rawResponseMap s) (eval_id p) = None"
  shows "\<exists>N s'. (\<forall>fuel \<ge> N. peer_dynamic_schedule_evaluations fuel c s = Inr s') \<and> active s' = active s \<and> sched_frame q s s' \<and>
    (\<forall>p \<in> set q. map_of (rawResponseMap s') (eval_id p) = Some (prpResponse p))"
proof -
  let ?n = "numEvalServers c"
  define cap where "cap = max 1 (asynchLocalEvalConcurrency c)"
  define na where "na = min (?n * cap) (length q)"
  define nr where "nr = na - na div ?n"
  define ll where "ll = local_jobs ?n 1 (take na q)"
  define lq where "lq = foldl (\<lambda>lq p. queue_insert p lq) [] ll"
  have pre: "0 < ?n" "\<not> static_limited c" "mpi_test_contract c" "test_contract c" "active s = []" "msgPassRunningMap s = []"
      "beforeSynchCorePRPQueue s = q" "all_ready q s" "msgBuffers s = None" "\<forall>p \<in> set q. 0 < eval_id p"
    using c(1) by (auto simp: dynamic_pre_def servers_positive_def static_limited_def remote_pre_def)
  have len: "length ll = na div ?n" "length (take na q) = na"
    using length_local_jobs [OF pre(1), of 0 "take na q"] by (simp_all add: ll_def na_def)
  have parts: "mset (take na q) = mset (map fst (remote_jobs ?n 1 (take na q))) + mset ll" unfolding ll_def by (rule round_robin_parts)
  have lr: "length (remote_jobs ?n 1 (take na q)) = nr"
    using mset_eq_length [of "take na q" "map fst (remote_jobs ?n 1 (take na q)) @ ll"] parts len by (simp add: nr_def)
  have setl: "set ll \<subseteq> set (take na q)" using mset_eq_setD [of "take na q" "map fst (remote_jobs ?n 1 (take na q)) @ ll"] parts by auto
  let ?s0 = "allocate_buffers nr s"
  note a = allocate_ok [OF q(2), of nr]
  have idq: "ids q = ids (take na q) + ids (drop na q)" by (metis append_take_drop_id map_append mset_append)
  have "books_ok q nr (ids (take na q) + ids (drop na q)) ?s0"
    using a pre(6-8) unfolding books_ok_def idq [symmetric]
    by (auto simp: allocate_buffers_def running_ok_def all_ready_def)
  moreover have "\<forall>j. 0 \<le> j \<longrightarrow> j < nr \<longrightarrow> tag_at ?s0 j = None" using a(3) by (metis leD)
  ultimately obtain s1 where s1: "assign_round_robin True c 1 0 (take na q) [] ?s0 = Inr (lq, s1)"
      "books_ok q nr (ids ll + ids (drop na q)) s1" "track_frame q ?s0 s1" "rawResponseMap s1 = rawResponseMap ?s0"
    using assign_tracked_ok [OF q(1), of "take na q" nr "ids (drop na q)" ?s0 0 c 1 "[]"] lr set_take_subset [of na q]
    by (auto simp: lq_def ll_def)
  have a1: "active s1 = []" using track_frame_keeps(1) [OF s1(3)] pre(5) by (simp add: allocate_buffers_def)
  have j1: "jobs_ok q s1" using q(2) s1(4) a1 by (simp add: jobs_ok_def allocate_buffers_def)
  have dl: "distinct (map eval_id ([] @ ll))"
  proof -
    have "distinct (map eval_id (take na q))" using distinct_ids [OF q(1)] by (metis distinct_take take_map)
    moreover have "ids (take na q) = ids (map fst (remote_jobs ?n 1 (take na q)) @ ll)" using parts by (simp add: multiset.map_comp)
    ultimately have "distinct (map eval_id (map fst (remote_jobs ?n 1 (take na q)) @ ll))" by (metis mset_eq_imp_distinct_iff)
    then show ?thesis by simp
  qed
  have lq: "queue_ok lq" "set lq = set ll" "length lq = length ll" "mset lq = mset ll"
    using queue_inserts [OF queue_ok_Nil dl] unfolding lq_def by (auto dest: mset_eq_setD mset_eq_length)
  have lim: "length lq \<le> cap"
    using len(1) lq(3) pre(1) div_le_mono [of na "?n * cap" ?n] by (simp add: na_def)
  let ?k = "if asynchLocalEvalConcurrency c \<noteq> 0 then min (asynchLocalEvalConcurrency c) (length lq) else length lq"
  have k: "0 + length lq \<le> ?k" using lim by (auto simp: cap_def)
  have "books_ok q nr (ids (active s1) + (ids lq + ids (drop na q))) s1" using s1(2) a1 lq(4) by simp
  then obtain s2 where s2: "assign_loop c 0 ?k 0 lq s1 = ([], s2)" "books_ok q nr (ids (active s2) + ids (drop na q)) s2"
      "jobs_ok q s2" "length (active s2) = length lq" "sched_frame q s1 s2" "rawResponseMap s2 = rawResponseMap s1"
    using assign_all_ok [OF q(1) pre(2), of lq nr s1 "ids (drop na q)" 0 ?k 0] j1 k lq(2) setl a1 set_take_subset [of na q] by auto
  have as: "assign_asynch_local_queue c lq s1 = Inr ([], s2)"
    using a1 pre(2) s2(1) by (simp add: assign_asynch_local_queue_def Let_def)
  have inv: "dyn_inv c q nr (ids (drop na q)) (drop na q) s2"
    using s2(2-4) lim queue_ok_distinct [OF q(1)] set_drop_subset [of na q]
    by (auto simp: dyn_inv_def within_limit_def cap_def)
  have u: "unfinished q s2 = q" using q(2) s1(4) s2(6) by (simp add: unfinished_def allocate_buffers_def)
  have prog: "ids (drop na q) = {#} \<or> msgPassRunningMap s2 \<noteq> [] \<or> active s2 \<noteq> []"
  proof (rule ccontr)
    assume n: "\<not> ?thesis"
    then have "length (drop na q) = length q" using length_books [OF q(1) s2(2)] u by simp
    then have "na = 0 \<or> q = []" by (cases q) auto
    then have "q = []" using pre(1) by (auto simp: na_def cap_def min_def split: if_splits)
    then show False using n by simp
  qed
  obtain N s' where N: "\<forall>fuel \<ge> N. peer_dynamic_loop fuel c (length q) 0 (drop na q) s2 = Inr s'" "dyn_frame q s2 s'" "active s' = []"
      "msgPassRunningMap s' = []" "\<forall>p \<in> set q. map_of (rawResponseMap s') (eval_id p) = Some (prpResponse p)"
    using peer_dynamic_loop_completes [OF q(1) pre(10,2-4) c(2) inv prog, of 0] u by auto
  have "peer_dynamic_schedule_evaluations fuel c s = Inr (release_buffers s')" if "fuel \<ge> N" for fuel
    using s1(1) as N(1) that pre(7)
    by (simp add: peer_dynamic_schedule_evaluations_def Let_def cap_def na_def nr_def)
  moreover have "sched_frame q s (release_buffers s')"
  proof -
    have "dyn_frame q s ?s0" by (simp add: dyn_frame_def allocate_buffers_def)
    then have "dyn_frame q s s'"
      using dyn_frame_track [OF s1(3)] dyn_frame_sched [OF s2(5)] N(2) dyn_frame_trans by blast
    then show ?thesis using pre(6,9) N(4) by (simp add: dyn_frame_def sched_frame_def release_buffers_def)
  qed
  ultimately show ?thesis using N(3,5) pre(5) by (intro exI [of _ N] exI [of _ "release_buffers s'"]) (simp add: release_buffers_def)
qed


text \<open>The number of polls depends on the simulations: \<open>fuel\<close> is enough when more does not change the result.\<close>

definition enough_polls :: "nat \<Rightarrow> ('r::zero, 'w) app_config \<Rightarrow> ('r, 'w) app_state \<Rightarrow> bool" where
  "enough_polls fuel c s \<longleftrightarrow>
    (\<forall>more \<ge> fuel. peer_dynamic_schedule_evaluations more c s = peer_dynamic_schedule_evaluations fuel c s)"

lemma enough_polls_exist:
  assumes "dynamic_pre c q s" "polls_progress c togo" "queue_ok q" "\<forall>p \<in> set q. map_of (rawResponseMap s) (eval_id p) = None"
  shows "\<exists>N. \<forall>fuel \<ge> N. enough_polls fuel c s"
proof -
  obtain N s' where "\<forall>fuel \<ge> N. peer_dynamic_schedule_evaluations fuel c s = Inr s'"
    using peer_dynamic_completes [OF assms] by blast
  then show ?thesis by (intro exI [of _ N]) (simp add: enough_polls_def)
qed

interpretation peer_dynamic: blocking_scheduler "\<lambda>q. peer_dynamic_schedule_evaluations fuel c"
    "\<lambda>q s. dynamic_pre c q s \<and> polls_progress c togo \<and> enough_polls fuel c s"
  for fuel and c :: "('r::zero, 'w) app_config" and togo
proof
  fix q :: "'r prp list" and s :: "('r, 'w) app_state"
  assume a: "dynamic_pre c q s \<and> polls_progress c togo \<and> enough_polls fuel c s" "queue_ok q"
    "\<forall>p \<in> set q. map_of (rawResponseMap s) (eval_id p) = None"
  then obtain N s' where s': "\<forall>fuel \<ge> N. peer_dynamic_schedule_evaluations fuel c s = Inr s'" "active s' = active s"
      "sched_frame q s s'" "\<forall>p \<in> set q. map_of (rawResponseMap s') (eval_id p) = Some (prpResponse p)"
    using peer_dynamic_completes [of c q s togo] by blast
  have "peer_dynamic_schedule_evaluations (max N fuel) c s = peer_dynamic_schedule_evaluations fuel c s"
    by (rule enough_polls_def [THEN iffD1, rule_format]) (use a(1) in auto)
  moreover have "peer_dynamic_schedule_evaluations (max N fuel) c s = Inr s'" using s'(1) by simp
  ultimately have "peer_dynamic_schedule_evaluations fuel c s = Inr s'" by simp
  then show "\<exists>s'. peer_dynamic_schedule_evaluations fuel c s = Inr s' \<and> active s' = active s \<and> sched_frame q s s' \<and>
      (\<forall>p \<in> set q. map_of (rawResponseMap s') (eval_id p) = Some (prpResponse p))"
    using s'(2-) by blast
qed

end
