(* ===== verification/Message_Nowait.thy ===== *)
theory Message_Nowait
  imports Peer_Dynamic
begin

text \<open>
  The nonblocking message-passing schedulers of \<^verbatim>\<open>src/ApplicationInterface.cpp\<close>:
  \<^verbatim>\<open>master_dynamic_schedule_evaluations_nowait\<close>, \<^verbatim>\<open>peer_static_schedule_evaluations_nowait\<close> and
  \<^verbatim>\<open>peer_dynamic_schedule_evaluations_nowait\<close>.  The receive buffers stay allocated between calls as
  long as a remote job is running, and the running map tells the server and the buffer of each.
\<close>

section \<open>Server loads and buffer slots\<close>

text \<open>\<^verbatim>\<open>server_jobs\<close>: for each server the buffer indices of its running jobs.\<close>

definition collect_server_jobs :: "nat \<Rightarrow> (int \<times> int \<times> nat) list \<Rightarrow> nat list list result" where
  "collect_server_jobs n running =
    rfold (\<lambda>(_, server_id, buff_index) jobs.
        let k = nat (server_id - 1) in
        if server_id < 1 \<or> k \<ge> length jobs then Inl (UndefinedBehaviour ''index'')
        else Inr (jobs[k := List.insert buff_index (jobs ! k)]))
      running (replicate n [])"

text \<open>The first server with the least load: position and load of the best so far, position of the
  next one, and the loads of the remaining ones.\<close>

fun min_load_loop :: "nat \<Rightarrow> nat \<Rightarrow> nat \<Rightarrow> nat list \<Rightarrow> nat \<times> nat" where
  "min_load_loop min_index min_load k [] = (min_index, min_load)"
| "min_load_loop min_index min_load k (load # loads) =
    (if min_load = 0 then (min_index, min_load)
     else if load < min_load then min_load_loop k load (Suc k) loads
     else min_load_loop min_index min_load (Suc k) loads)"

text \<open>The first buffer index of a server that is not in use.\<close>

definition free_slot :: "('r, 'w) app_config \<Rightarrow> nat \<Rightarrow> nat list \<Rightarrow> nat option" where
  "free_slot c k used = find (\<lambda>b. b \<notin> set used)
    [k * asynchLocalEvalConcurrency c..<Suc k * asynchLocalEvalConcurrency c]"

text \<open>Send a job and note it in the running map.\<close>

definition send_tracked ::
    "('r, 'w) app_config \<Rightarrow> 'r prp \<Rightarrow> nat \<Rightarrow> int \<Rightarrow> ('r, 'w) app_state \<Rightarrow> ('r, 'w) app_state result" where
  "send_tracked c p buff_index server_id s =
    rbind (send_evaluation c p buff_index server_id s) (\<lambda>s1.
      Inr (s1\<lparr>msgPassRunningMap := map_assign (eval_id p) (server_id, buff_index) (msgPassRunningMap s1)\<rparr>))"

definition release_if_idle :: "('r, 'w) app_state \<Rightarrow> ('r, 'w) app_state" where
  "release_if_idle s = (if msgPassRunningMap s = [] then release_buffers s else s)"

section \<open>Dedicated master\<close>

text \<open>The first pass over \<open>n\<close> servers: job \<open>i\<close> goes to server \<open>i mod n\<close>, slot \<open>i div n\<close>.\<close>

fun stratified_first_pass ::
    "('r, 'w) app_config \<Rightarrow> nat \<Rightarrow> nat \<Rightarrow> nat \<Rightarrow> 'r prp list \<Rightarrow> ('r, 'w) app_state \<Rightarrow>
      ('r prp list \<times> ('r, 'w) app_state) result" where
  "stratified_first_pass c n i num_running [] s = Inr ([], s)"
| "stratified_first_pass c n i num_running (p # ps) s =
    (if i < num_running then
       rbind (send_tracked c p (i mod n * asynchLocalEvalConcurrency c + i div n) (int (i mod n + 1)) s)
         (stratified_first_pass c n (Suc i) num_running ps)
     else Inr (p # ps, s))"

fun master_fill_gaps ::
    "('r, 'w) app_config \<Rightarrow> nat \<Rightarrow> nat list list \<Rightarrow> 'r prp list \<Rightarrow> ('r, 'w) app_state \<Rightarrow>
      ('r prp list \<times> ('r, 'w) app_state) result" where
  "master_fill_gaps c num_running jobs [] s = Inr ([], s)"
| "master_fill_gaps c num_running jobs (p # ps) s =
    (if num_running < capacity_of c then
       if map_of (msgPassRunningMap s) (eval_id p) = None then
         case map length jobs of
           [] \<Rightarrow> Inl (UndefinedBehaviour ''index'')
         | load # loads \<Rightarrow>
             let k = fst (min_load_loop 0 load 1 loads) in
             case free_slot c k (jobs ! k) of
               None \<Rightarrow> Inl (Abort (-1))
             | Some b \<Rightarrow> rbind (send_tracked c p b (int (k + 1)) s)
                 (master_fill_gaps c (Suc num_running) (jobs[k := List.insert b (jobs ! k)]) ps)
       else master_fill_gaps c num_running jobs ps s
     else Inr (p # ps, s))"

definition master_dynamic_schedule_evaluations_nowait ::
    "('r, 'w) app_config \<Rightarrow> ('r::zero, 'w) app_state \<Rightarrow> ('r, 'w) app_state result" where
  "master_dynamic_schedule_evaluations_nowait c s =
    (let q = beforeSynchCorePRPQueue s; num_jobs = length q; num_running = length (msgPassRunningMap s);
         capacity = capacity_of c;
         s0 = (if msgBuffers s = None then allocate_buffers capacity s else s) in
     rbind
       (if num_running = 0 then stratified_first_pass c (numEvalServers c) 0 (min capacity num_jobs) q s0
        else if num_jobs \<noteq> num_running \<and> num_running < capacity then
          rbind (collect_server_jobs (numEvalServers c) (msgPassRunningMap s0))
            (\<lambda>jobs. master_fill_gaps c num_running jobs q s0)
        else Inr (q, s0)) (\<lambda>(assign_iter, s1).
     rbind (test_receives_backfill c assign_iter s1) (\<lambda>(_, _, s2).
     Inr (release_if_idle s2))))"

section \<open>Peers\<close>

definition local_capacity_of :: "('r, 'w) app_config \<Rightarrow> nat" where
  "local_capacity_of c = (if asynchLocalEvalConcurrency c > 1 then asynchLocalEvalConcurrency c else 1)"

definition remote_capacity_of :: "('r, 'w) app_config \<Rightarrow> nat" where
  "remote_capacity_of c = capacity_of c - local_capacity_of c"

text \<open>The remainder of C++ truncates towards zero.\<close>

definition crem :: "int \<Rightarrow> int \<Rightarrow> int" where
  "crem a b = (if a < 0 then - ((- a) mod b) else a mod b)"

text \<open>State of a backfill loop: local and remote counts, server loads, the local queue, and whether it
  received a new job.\<close>

record 'r backfill =
  num_local_running :: nat
  num_remote_running :: nat
  server_jobs :: "nat list list"
  local_prp_queue :: "'r prp list"
  backfill_local :: bool

definition add_local :: "'r prp \<Rightarrow> 'r backfill \<Rightarrow> 'r backfill" where
  "add_local p b = b\<lparr>local_prp_queue := queue_insert p (local_prp_queue b),
     num_local_running := num_local_running b + 1, backfill_local := True\<rparr>"

definition send_to_server ::
    "('r, 'w) app_config \<Rightarrow> 'r prp \<Rightarrow> nat \<Rightarrow> 'r backfill \<Rightarrow> ('r, 'w) app_state \<Rightarrow>
      ('r backfill \<times> ('r, 'w) app_state) result" where
  "send_to_server c p k b s =
    (case free_slot c k (server_jobs b ! k) of
       None \<Rightarrow> Inl (Abort (-1))
     | Some buff_index \<Rightarrow> rbind (send_tracked c p buff_index (int (k + 1)) s) (\<lambda>s1.
         Inr (b\<lparr>server_jobs := (server_jobs b)[k := List.insert buff_index (server_jobs b ! k)],
           num_remote_running := num_remote_running b + 1\<rparr>, s1)))"

text \<open>The placement of one new job: the static rule by evaluation id, and the dynamic rule by load.\<close>

definition place_static ::
    "('r, 'w) app_config \<Rightarrow> 'r prp \<Rightarrow> 'r backfill \<Rightarrow> ('r, 'w) app_state \<Rightarrow>
      ('r backfill \<times> ('r, 'w) app_state) result" where
  "place_static c p b s =
    (let server_id = crem (eval_id p - nowaitEvalIdRef s + 1) (int (numEvalServers c)) in
     if server_id = 0 \<and> num_local_running b < local_capacity_of c then Inr (add_local p b, s)
     else if server_id \<noteq> 0 then
       if server_id < 0 \<or> nat (server_id - 1) \<ge> length (server_jobs b) then Inl (UndefinedBehaviour ''index'')
       else if length (server_jobs b ! nat (server_id - 1)) < local_capacity_of c
         then send_to_server c p (nat (server_id - 1)) b s
       else Inr (b, s)
     else Inr (b, s))"

definition place_dynamic ::
    "('r, 'w) app_config \<Rightarrow> 'r prp \<Rightarrow> 'r backfill \<Rightarrow> ('r, 'w) app_state \<Rightarrow>
      ('r backfill \<times> ('r, 'w) app_state) result" where
  "place_dynamic c p b s =
    (case map length (server_jobs b) of
       [] \<Rightarrow> Inl (UndefinedBehaviour ''index'')
     | load # loads \<Rightarrow>
         (case min_load_loop 0 load 1 loads of (min_index, min_load) \<Rightarrow>
            if num_local_running b < min_load then
              if num_local_running b < local_capacity_of c then Inr (add_local p b, s) else Inr (b, s)
            else if num_remote_running b < remote_capacity_of c then send_to_server c p min_index b s
            else Inr (b, s)))"

fun peer_fill_gaps ::
    "('r, 'w) app_config \<Rightarrow> ('r prp \<Rightarrow> 'r backfill \<Rightarrow> ('r, 'w) app_state \<Rightarrow> ('r backfill \<times> ('r, 'w) app_state) result) \<Rightarrow>
      'r prp list \<Rightarrow> 'r backfill \<Rightarrow> ('r, 'w) app_state \<Rightarrow>
      ('r prp list \<times> 'r backfill \<times> ('r, 'w) app_state) result" where
  "peer_fill_gaps c place [] b s = Inr ([], b, s)"
| "peer_fill_gaps c place (p # ps) b s =
    (if num_local_running b < local_capacity_of c \<or> num_remote_running b < remote_capacity_of c then
       if map_of (msgPassRunningMap s) (eval_id p) \<noteq> None then peer_fill_gaps c place ps b s
       else if lookup_by_eval_id (eval_id p) (asynchLocalActivePRPQueue s) \<noteq> None then
         peer_fill_gaps c place ps (b\<lparr>local_prp_queue := queue_insert p (local_prp_queue b)\<rparr>) s
       else rbind (place p b s) (\<lambda>(b', s'). peer_fill_gaps c place ps b' s')
     else Inr (p # ps, b, s))"

definition gaps_start :: "('r, 'w) app_config \<Rightarrow> ('r, 'w) app_state \<Rightarrow> 'r backfill result" where
  "gaps_start c s =
    rbind (collect_server_jobs (numEvalServers c - 1) (msgPassRunningMap s)) (\<lambda>jobs.
      Inr \<lparr>num_local_running = length (asynchLocalActivePRPQueue s),
        num_remote_running = length (msgPassRunningMap s), server_jobs = jobs,
        local_prp_queue = [], backfill_local = False\<rparr>)"

definition synch_local :: "('r, 'w) app_config \<Rightarrow> bool" where
  "synch_local c \<longleftrightarrow> multiProcEvalFlag c \<or> directInterface c"

text \<open>Jobs at the start of an empty schedule: how many run locally and how many remotely.\<close>

definition initial_local :: "('r, 'w) app_config \<Rightarrow> nat \<Rightarrow> nat" where
  "initial_local c num_jobs = min (local_capacity_of c) (num_jobs div numEvalServers c)"

definition initial_remote :: "('r, 'w) app_config \<Rightarrow> nat \<Rightarrow> nat" where
  "initial_remote c num_jobs = min (remote_capacity_of c) (num_jobs - num_jobs div numEvalServers c)"

definition peer_static_schedule_evaluations_nowait ::
    "nat \<Rightarrow> ('r, 'w) app_config \<Rightarrow> ('r::{zero, one, plus, minus, inverse, abs, ord}, 'w) app_state \<Rightarrow>
      ('r, 'w) app_state result" where
  "peer_static_schedule_evaluations_nowait fuel c s =
    (let q = beforeSynchCorePRPQueue s; num_jobs = length q;
         num_remote = length (msgPassRunningMap s); num_local = length (asynchLocalActivePRPQueue s);
         num_running = num_remote + num_local; remote_capacity = remote_capacity_of c;
         s0 = (if msgBuffers s = None then allocate_buffers remote_capacity s else s) in
     rbind
       (if num_running = 0 then
          let n = initial_local c num_jobs + initial_remote c num_jobs in
          case q of
            [] \<Rightarrow> Inl (UndefinedBehaviour ''end iterator'')
          | p # _ \<Rightarrow>
              rbind (assign_round_robin True c 1 0 (take n q) [] (s0\<lparr>nowaitEvalIdRef := eval_id p\<rparr>))
                (\<lambda>(local_q, s1).
              rbind (if synch_local c then synchronous_local_evaluations fuel c local_q s1
                 else rbind (assign_asynch_local_queue c local_q s1) (\<lambda>(_, s2). Inr s2)) (\<lambda>s2.
              Inr (initial_local c num_jobs, initial_remote c num_jobs, drop n q, s2)))
        else if num_jobs \<noteq> num_running \<and> num_running < capacity_of c then
          rbind (gaps_start c s0) (\<lambda>b0.
          rbind (peer_fill_gaps c (place_static c) q b0 s0) (\<lambda>(assign_iter, b, s1).
          rbind (if \<not> backfill_local b then Inr s1
             else if synch_local c then synchronous_local_evaluations fuel c (local_prp_queue b) s1
             else Inr (snd (assign_asynch_local_queue_nowait c (local_prp_queue b) s1))) (\<lambda>s2.
          Inr (num_local_running b, num_remote_running b, assign_iter, s2))))
        else Inr (num_local, num_remote, q, s0)) (\<lambda>(local_running, remote_running, assign_iter, s1).
     rbind (if remote_running \<noteq> 0
        then rbind (test_receives_backfill c assign_iter s1) (\<lambda>(_, it, s2). Inr (it, s2))
        else Inr (assign_iter, s1)) (\<lambda>(assign_iter1, s2).
     rbind (if \<not> synch_local c \<and> local_running \<noteq> 0
        then rbind (test_local_backfill c (beforeSynchCorePRPQueue s2) assign_iter1 s2) (\<lambda>(_, _, s3). Inr s3)
        else Inr s2) (\<lambda>s3.
     Inr (release_if_idle s3)))))"

definition peer_dynamic_schedule_evaluations_nowait ::
    "('r, 'w) app_config \<Rightarrow> ('r::zero, 'w) app_state \<Rightarrow> ('r, 'w) app_state result" where
  "peer_dynamic_schedule_evaluations_nowait c s =
    (let q = beforeSynchCorePRPQueue s; num_jobs = length q;
         num_remote = length (msgPassRunningMap s); num_local = length (asynchLocalActivePRPQueue s);
         num_running = num_remote + num_local; remote_capacity = remote_capacity_of c;
         s0 = (if msgBuffers s = None then allocate_buffers remote_capacity s else s) in
     rbind
       (if num_running = 0 then
          let l = initial_local c num_jobs; r = initial_remote c num_jobs in
          rbind (stratified_first_pass c (numEvalServers c - 1) 0 r (drop l q) s0) (\<lambda>(assign_iter, s1).
          rbind (assign_asynch_local_queue c (take l q) s1) (\<lambda>(_, s2).
          Inr (l, r, assign_iter, s2)))
        else if num_jobs \<noteq> num_running \<and> num_running < capacity_of c then
          rbind (gaps_start c s0) (\<lambda>b0.
          rbind (peer_fill_gaps c (place_dynamic c) q b0 s0) (\<lambda>(assign_iter, b, s1).
          Inr (num_local_running b, num_remote_running b, assign_iter,
            if backfill_local b then snd (assign_asynch_local_queue_nowait c (local_prp_queue b) s1) else s1)))
        else Inr (num_local, num_remote, q, s0)) (\<lambda>(local_running, remote_running, assign_iter, s1).
     rbind (if remote_running \<noteq> 0
        then rbind (test_receives_backfill c assign_iter s1) (\<lambda>(_, it, s2). Inr (it, s2))
        else Inr (assign_iter, s1)) (\<lambda>(assign_iter1, s2).
     rbind (if local_running \<noteq> 0
        then rbind (test_local_backfill c (beforeSynchCorePRPQueue s2) assign_iter1 s2) (\<lambda>(_, _, s3). Inr s3)
        else Inr s2) (\<lambda>s3.
     Inr (release_if_idle s3)))))"

section \<open>Safety of the master's schedule\<close>

text \<open>Every running job uses one of the buffers set apart for its server.\<close>

definition slots_ok :: "nat \<Rightarrow> (int \<times> int \<times> nat) list \<Rightarrow> bool" where
  "slots_ok conc m \<longleftrightarrow> (\<forall>(i, srv, b) \<in> set m. srv = int (b div conc) + 1)"

lemma send_tracked_ok:
  assumes q: "queue_ok q" "p \<in> set q" and bk: "books_ok q n (add_mset (eval_id p) R) s" and b: "b < n" "tag_at s b = None"
  shows "\<exists>s'. send_tracked c p b srv s = Inr s' \<and> books_ok q n R s' \<and> track_frame q s s' \<and> rawResponseMap s' = rawResponseMap s \<and>
    msgPassRunningMap s' = map_assign (eval_id p) (srv, b) (msgPassRunningMap s) \<and>
    eval_id p \<notin> fst ` set (msgPassRunningMap s) \<and>
    (\<forall>j. tag_at s' j = (if j = b then Some (eval_id p) else tag_at s j))"
proof -
  obtain bs where bs: "msgBuffers s = Some bs" "length bs = n" using bk by (auto simp: books_ok_def msgs_ok_def)
  have bn: "fst (bs ! b) = None" using b bs by (simp add: tag_at_def)
  have m: "msgs_ok q n [] (add_mset (eval_id p) R) s" "running_ok n (msgPassRunningMap s) s" using bk by (auto simp: books_ok_def)
  obtain s1 where s1: "send_evaluation c p b srv s = Inr s1" "msgs_ok q n [] R s1" "msg_frame q s s1"
      "rawResponseMap s1 = rawResponseMap s"
      "msgBuffers s1 = Some (bs[b := (Some (srv, eval_id p, prpVariables p, active_set_of (heap s) p), [])])"
    using send_evaluation_ok [OF m(1) q b(1) _ bs(1) bn] by auto
  let ?m = "map_assign (eval_id p) (srv, b) (msgPassRunningMap s)"
  have nr: "eval_id p \<notin> fst ` set (msgPassRunningMap s)" using books_disjoint(1) [OF q(1) m, of "eval_id p"] by simp
  from running_add [OF m(2) this bs b(1) bn s1(5)] have r: "running_ok n ?m s1" .
  have "books_ok q n R (s1\<lparr>msgPassRunningMap := ?m\<rparr>)"
    using s1(2,4) r bk msg_frame_ready [OF s1(3)] msg_frame_queue [OF s1(3)]
    by (simp add: books_ok_def all_ready_def own_responses_def)
  moreover have "tag_at (s1\<lparr>msgPassRunningMap := ?m\<rparr>) j = (if j = b then Some (eval_id p) else tag_at s j)" for j
    using s1(5) bs b(1) by (simp add: tag_at_def)
  moreover have "msgPassRunningMap s1 = msgPassRunningMap s" by (rule msg_frame_running [OF s1(3)])
  ultimately show ?thesis
    using s1(1,4) nr track_frame_msg [OF s1(3)] by (intro exI [of _ "s1\<lparr>msgPassRunningMap := ?m\<rparr>"]) (simp add: send_tracked_def)
qed

lemma set_map_assign_subset: "set (map_assign k v m) \<subseteq> insert (k, v) (set m)"
  by (induction k v m rule: map_assign.induct) auto

lemma slots_ok_assign: "slots_ok conc m \<Longrightarrow> srv = int (b div conc) + 1 \<Longrightarrow> slots_ok conc (map_assign i (srv, b) m)"
  using set_map_assign_subset [of i "(srv, b)" m] by (fastforce simp: slots_ok_def)

lemma slots_ok_erase: "slots_ok conc m \<Longrightarrow> slots_ok conc (map_erase i m)"
  by (auto simp: slots_ok_def map_erase_def)

lemma slots_ok_removals:
  assumes "slots_ok conc m" "rfold apply_removal rem m = Inr m'"
  shows "slots_ok conc m'"
  using assms
proof (induction rem arbitrary: m)
  case (Cons e rem)
  obtain i k where e: "e = (i, k)" by (cases e)
  obtain m1 where m1: "apply_removal e m = Inr m1" "rfold apply_removal rem m1 = Inr m'"
    using Cons.prems(2) by (auto simp: result_simps)
  have "srv = int (b div conc) + 1" if "map_of m i = Some (srv, b)" for srv b
    using map_of_SomeD [OF that] Cons.prems(1) by (auto simp: slots_ok_def)
  then have "slots_ok conc m1"
    using m1(1) Cons.prems(1)
    by (auto simp: apply_removal_def e intro!: slots_ok_erase slots_ok_assign split: if_splits option.splits)
  then show ?case using Cons.IH m1(2) by blast
qed simp

text \<open>The slot of job \<open>i\<close> in the first pass.\<close>

abbreviation slot :: "nat \<Rightarrow> nat \<Rightarrow> nat \<Rightarrow> nat" where
  "slot n conc i \<equiv> i mod n * conc + i div n"

lemma slot_props:
  assumes "i < n * conc" "0 < n"
  shows "slot n conc i div conc = i mod n" "slot n conc i mod conc = i div n" "slot n conc i < n * conc"
proof -
  have d: "i div n < conc" using assms by (simp add: less_mult_imp_div_less mult.commute)
  then show "slot n conc i div conc = i mod n" "slot n conc i mod conc = i div n" by simp_all
  have "Suc (i mod n) * conc \<le> n * conc" using assms(2) by (intro mult_le_mono1) (simp add: Suc_leI)
  then show "slot n conc i < n * conc" using d by simp
qed

lemma slot_inj:
  assumes "i < n * conc" "j < n * conc" "0 < n" "slot n conc i = slot n conc j"
  shows "i = j"
  using slot_props [OF assms(1,3)] slot_props [OF assms(2,3)] assms(4) by (metis div_mult_mod_eq)

lemma stratified_first_pass_ok:
  assumes q: "queue_ok q" and n: "0 < n" "k \<le> n * asynchLocalEvalConcurrency c"
    and "set ps \<subseteq> set q" "books_ok q (n * asynchLocalEvalConcurrency c) (ids (take (k - i) ps) + R) s"
    and "slots_ok (asynchLocalEvalConcurrency c) (msgPassRunningMap s)"
    and "\<forall>j. i \<le> j \<longrightarrow> j < n * asynchLocalEvalConcurrency c \<longrightarrow> tag_at s (slot n (asynchLocalEvalConcurrency c) j) = None"
  shows "\<exists>s'. stratified_first_pass c n i k ps s = Inr (drop (k - i) ps, s') \<and>
    books_ok q (n * asynchLocalEvalConcurrency c) R s' \<and> slots_ok (asynchLocalEvalConcurrency c) (msgPassRunningMap s') \<and>
    track_frame q s s' \<and> rawResponseMap s' = rawResponseMap s"
  using assms(4-)
proof (induction ps arbitrary: i s)
  case Nil
  then show ?case by simp
next
  case (Cons p ps)
  let ?conc = "asynchLocalEvalConcurrency c"
  show ?case
  proof (cases "i < k")
    case False
    then show ?thesis using Cons.prems by simp
  next
    case True
    then have i: "i < n * ?conc" using n(2) by simp
    note sl = slot_props [OF i n(1)]
    have e: "k - i = Suc (k - Suc i)" using True by simp
    have p: "p \<in> set q" using Cons.prems(1) by simp
    have "books_ok q (n * ?conc) (add_mset (eval_id p) (ids (take (k - Suc i) ps) + R)) s" using Cons.prems(2) unfolding e by simp
    moreover have "tag_at s (slot n ?conc i) = None" using Cons.prems(4) i by blast
    ultimately obtain s1 where s1: "send_tracked c p (slot n ?conc i) (int (i mod n + 1)) s = Inr s1"
        "books_ok q (n * ?conc) (ids (take (k - Suc i) ps) + R) s1" "track_frame q s s1" "rawResponseMap s1 = rawResponseMap s"
        "msgPassRunningMap s1 = map_assign (eval_id p) (int (i mod n + 1), slot n ?conc i) (msgPassRunningMap s)"
        "\<forall>j. tag_at s1 j = (if j = slot n ?conc i then Some (eval_id p) else tag_at s j)"
      using send_tracked_ok [OF q p _ sl(3)] by blast
    have "slots_ok ?conc (msgPassRunningMap s1)" unfolding s1(5) using Cons.prems(3) sl(1) by (intro slots_ok_assign) simp_all
    moreover have "tag_at s1 (slot n ?conc j) = None" if "Suc i \<le> j" "j < n * ?conc" for j
      using s1(6) slot_inj [OF that(2) i n(1)] Cons.prems(4) that by auto
    ultimately obtain s' where "stratified_first_pass c n (Suc i) k ps s1 = Inr (drop (k - Suc i) ps, s')"
        "books_ok q (n * ?conc) R s'" "slots_ok ?conc (msgPassRunningMap s')" "track_frame q s1 s'" "rawResponseMap s' = rawResponseMap s1"
      using Cons.IH [OF _ s1(2)] Cons.prems(1) by auto
    then show ?thesis using True s1(1,4) e track_frame_trans [OF s1(3)] by simp
  qed
qed

text \<open>The loads of the servers, as read off the pending receives.\<close>

definition loads_ok :: "nat \<Rightarrow> nat \<Rightarrow> nat list list \<Rightarrow> ('r, 'w) app_state \<Rightarrow> bool" where
  "loads_ok n conc jobs s \<longleftrightarrow> length jobs = n \<and> (\<forall>k < n. distinct (jobs ! k) \<and>
     (\<forall>b. b \<in> set (jobs ! k) \<longleftrightarrow> b < n * conc \<and> b div conc = k \<and> tag_at s b \<noteq> None))"

definition collected :: "nat \<Rightarrow> nat \<Rightarrow> (int \<times> int \<times> nat) list \<Rightarrow> nat list list \<Rightarrow> bool" where
  "collected n conc m jobs \<longleftrightarrow> length jobs = n \<and> (\<forall>k < n. distinct (jobs ! k) \<and>
     (\<forall>b. b \<in> set (jobs ! k) \<longleftrightarrow> b div conc = k \<and> (\<exists>i srv. (i, srv, b) \<in> set m)))"

lemma collect_step:
  assumes j: "collected n conc m0 jobs" and e: "srv = int (b div conc) + 1" "b div conc < n"
  shows "collected n conc (m0 @ [(i, srv, b)]) (jobs[b div conc := List.insert b (jobs ! (b div conc))])"
  using assms unfolding collected_def by (auto simp: nth_list_update)

lemma collect_loop:
  assumes "collected n conc m0 jobs" "slots_ok conc m" "\<forall>(i, srv, b) \<in> set m. b div conc < n"
  shows "\<exists>jobs'. rfold (\<lambda>(_, server_id, buff_index) jobs. let k = nat (server_id - 1) in
        if server_id < 1 \<or> k \<ge> length jobs then Inl (UndefinedBehaviour ''index'')
        else Inr (jobs[k := List.insert buff_index (jobs ! k)])) m jobs = Inr jobs' \<and> collected n conc (m0 @ m) jobs'"
  using assms
proof (induction m arbitrary: m0 jobs)
  case (Cons e m)
  obtain i srv b where e: "e = (i, srv, b)" by (metis prod_cases3)
  have s: "srv = int (b div conc) + 1" "b div conc < n" "slots_ok conc m" "length jobs = n"
    using Cons.prems by (auto simp: e slots_ok_def collected_def)
  note c = collect_step [OF Cons.prems(1) s(1,2), of i]
  from Cons.IH [OF c s(3)] Cons.prems(3) show ?case using s by (auto simp: e Let_def)
qed simp

lemma collect_server_jobs_ok:
  assumes r: "running_ok (n * conc) m s" and sl: "slots_ok conc m" and c: "0 < conc"
  shows "\<exists>jobs. collect_server_jobs n m = Inr jobs \<and> loads_ok n conc jobs s"
proof -
  have b: "b < n * conc" "tag_at s b = Some i" if "(i, srv, b) \<in> set m" for i srv b
  proof -
    have "map_of m i = Some (srv, b)" using r that omap_iff [of m] unfolding running_ok_def by blast
    then show "b < n * conc" "tag_at s b = Some i" using r by (auto simp: running_ok_def tag_at_def)
  qed
  have "collected n conc [] (replicate n [])" by (simp add: collected_def)
  moreover have "\<forall>(i, srv, b) \<in> set m. b div conc < n" using b(1) by (auto simp: less_mult_imp_div_less)
  ultimately obtain jobs where j: "collect_server_jobs n m = Inr jobs" "collected n conc m jobs"
    using collect_loop [of n conc "[]" "replicate n []" m] sl unfolding collect_server_jobs_def by auto
  have "(\<exists>i srv. (i, srv, b) \<in> set m) \<longleftrightarrow> b < n * conc \<and> tag_at s b \<noteq> None" for b
  proof
    assume "b < n * conc \<and> tag_at s b \<noteq> None"
    then obtain srv i v st where "b < n * conc" "fst (the (msgBuffers s) ! b) = Some (srv, i, v, st)" by (auto simp: tag_at_def)
    then have "map_of m i = Some (srv, b)" using r unfolding running_ok_def by blast
    then show "\<exists>i srv. (i, srv, b) \<in> set m" by (blast dest: map_of_SomeD)
  qed (use b in force)
  then have "loads_ok n conc jobs s" using j(2) unfolding loads_ok_def collected_def by auto
  then show ?thesis using j(1) by blast
qed

lemma min_load_loop_ok:
  assumes "mi < k" "k \<le> length L" "ml = L ! mi" "\<forall>j < k. ml \<le> L ! j" "rest = drop k L"
  shows "case min_load_loop mi ml k rest of (r, l) \<Rightarrow> r < length L \<and> l = L ! r \<and> (\<forall>j < length L. l \<le> L ! j)"
  using assms
proof (induction mi ml k rest rule: min_load_loop.induct)
  case (1 mi ml k)
  then show ?case by auto
next
  case (2 mi ml k load rest)
  have k: "k < length L" using 2(7) by (metis drop_all list.distinct(1) not_le)
  then have d: "load = L ! k" "rest = drop (Suc k) L" using 2(7) by (metis Cons_nth_drop_Suc list.inject)+
  consider "ml = 0" | "ml \<noteq> 0" "load < ml" | "ml \<noteq> 0" "\<not> load < ml" by blast
  then show ?case
  proof cases
    case 1
    then show ?thesis using 2(3-6) by auto
  next
    case c: 2
    then have "\<forall>j < Suc k. load \<le> L ! j" using 2(6) d(1) by (auto simp: less_Suc_eq)
    from 2(1) [OF c _ _ d(1) this d(2)] k c show ?thesis by simp
  next
    case c: 3
    then have "\<forall>j < Suc k. ml \<le> L ! j" using 2(6) d(1) by (auto simp: less_Suc_eq)
    from 2(2) [OF c _ _ 2(5) this d(2)] k 2(3) c show ?thesis by simp
  qed
qed

text \<open>While fewer jobs are running than there are buffers, the least loaded server has a free one.\<close>

lemma pending_count:
  assumes r: "running_ok n m s" and "\<forall>b < n. tag_at s b \<noteq> None"
  shows "n \<le> length m"
proof -
  have "inj_on (tag_at s) {0..<n}"
  proof (rule inj_onI)
    fix a b assume ab: "a \<in> {0..<n}" "b \<in> {0..<n}" "tag_at s a = tag_at s b"
    then obtain srv i v st srv' v' st' where "fst (the (msgBuffers s) ! a) = Some (srv, i, v, st)"
        "fst (the (msgBuffers s) ! b) = Some (srv', i, v', st')"
      using assms(2) by (fastforce simp: tag_at_def)
    then have "map_of m i = Some (srv, a)" "map_of m i = Some (srv', b)" using r ab(1,2) by (auto simp: running_ok_def)
    then show "a = b" by simp
  qed
  then have "n = card (tag_at s ` {0..<n})" by (simp add: card_image)
  also have "\<dots> \<le> card (Some ` fst ` set m)"
  proof (rule card_mono)
    show "tag_at s ` {0..<n} \<subseteq> Some ` fst ` set m" using assms(2) unfolding running_domain [OF r] by auto blast
  qed simp
  also have "\<dots> \<le> card (set m)" by (metis card_image_le finite_imageI List.finite_set order_trans)
  also have "\<dots> \<le> length m" by (rule card_length)
  finally show ?thesis .
qed

lemma free_slot_Some:
  assumes "free_slot c k used = Some b"
  shows "k * asynchLocalEvalConcurrency c \<le> b" "b < Suc k * asynchLocalEvalConcurrency c" "b \<notin> set used"
  using assms by (auto simp: free_slot_def find_Some_iff)

lemma free_slot_exists:
  assumes r: "running_ok (n * conc) m s" "length m < n * conc" and l: "loads_ok n conc jobs s" and c: "conc = asynchLocalEvalConcurrency c"
    and k: "k < n" "\<forall>j < n. length (jobs ! k) \<le> length (jobs ! j)"
  shows "\<exists>b. free_slot c k (jobs ! k) = Some b"
proof (rule ccontr)
  assume "\<not> ?thesis"
  then have "\<forall>b. k * conc \<le> b \<and> b < Suc k * conc \<longrightarrow> b \<in> set (jobs ! k)"
    by (auto simp: free_slot_def find_None_iff c)
  then have "{k * conc..<Suc k * conc} \<subseteq> set (jobs ! k)" by auto
  then have "card {k * conc..<Suc k * conc} \<le> card (set (jobs ! k))" by (intro card_mono) auto
  then have full: "conc \<le> length (jobs ! k)" using card_length [of "jobs ! k"] by simp
  have "tag_at s b \<noteq> None" if b: "b < n * conc" for b
  proof -
    let ?j = "b div conc"
    have j: "?j < n" using b by (simp add: less_mult_imp_div_less)
    have c0: "0 < conc" using b by (cases conc) auto
    have sub: "set (jobs ! ?j) \<subseteq> {?j * conc..<Suc ?j * conc}"
    proof
      fix x assume "x \<in> set (jobs ! ?j)"
      then have "x div conc = ?j" using l j by (auto simp: loads_ok_def)
      then show "x \<in> {?j * conc..<Suc ?j * conc}" using c0 by (metis atLeastLessThan_iff dividend_less_div_times div_times_less_eq_dividend mult_Suc add.commute)
    qed
    have "card (set (jobs ! ?j)) = length (jobs ! ?j)" using l j by (simp add: loads_ok_def distinct_card)
    then have "card {?j * conc..<Suc ?j * conc} \<le> card (set (jobs ! ?j))" using full k(2) j by (simp add: order_trans)
    then have "set (jobs ! ?j) = {?j * conc..<Suc ?j * conc}" using sub card_seteq by blast
    moreover have "b \<in> {?j * conc..<Suc ?j * conc}" using c0 by (simp add: dividend_less_div_times add.commute)
    ultimately have "b \<in> set (jobs ! ?j)" by blast
    then show ?thesis using l j by (auto simp: loads_ok_def)
  qed
  then show False using pending_count [OF r(1)] r(2) by auto
qed

lemma least_load:
  assumes "jobs \<noteq> []" "map length jobs = load # loads" "min_load_loop 0 load 1 loads = (k, l)"
  shows "k < length jobs" "\<forall>j < length jobs. length (jobs ! k) \<le> length (jobs ! j)"
proof -
  have l: "length jobs = Suc (length loads)" using assms(2) by (metis length_map length_Cons)
  have "case min_load_loop 0 load 1 loads of (r, l) \<Rightarrow> r < length (map length jobs) \<and> l = map length jobs ! r \<and>
      (\<forall>j < length (map length jobs). l \<le> map length jobs ! j)"
    by (rule min_load_loop_ok) (use assms(2) l in auto)
  then show "k < length jobs" "\<forall>j < length jobs. length (jobs ! k) \<le> length (jobs ! j)" using assms(3) by auto
qed

lemma loads_ok_send:
  assumes l: "loads_ok n conc jobs s" and b: "k < n" "b < n * conc" "b div conc = k"
    and t: "\<forall>j. tag_at s' j = (if j = b then Some i else tag_at s j)"
  shows "loads_ok n conc (jobs[k := List.insert b (jobs ! k)]) s'"
  using assms unfolding loads_ok_def by (auto simp: nth_list_update)

lemma capacity_product: "1 \<le> asynchLocalEvalConcurrency c \<Longrightarrow> capacity_of c = numEvalServers c * asynchLocalEvalConcurrency c"
  by (simp add: capacity_of_def)

lemma not_running_idle:
  assumes q: "queue_ok q" "p \<in> set q" and b: "books_ok q n R s" and p: "map_of (rawResponseMap s) (eval_id p) = None"
    "map_of (msgPassRunningMap s) (eval_id p) = None"
  shows "eval_id p \<in># R"
proof -
  have "eval_id p \<in># ids (unfinished q s)" using q(2) p(1) by (simp add: unfinished_def)
  moreover have "mset (map fst (msgPassRunningMap s)) + R = ids (unfinished q s)" using running_books [OF q(1)] b unfolding books_ok_def by blast
  ultimately have "eval_id p \<in># mset (map fst (msgPassRunningMap s)) + R" by (simp only:)
  moreover have "eval_id p \<notin> fst ` set (msgPassRunningMap s)" using p(2) by (simp add: map_of_eq_None_iff)
  ultimately show ?thesis by simp
qed

text \<open>A part of the schedule that sends the jobs before position \<open>it\<close> of \<open>ps\<close>.\<close>

definition sent_upto ::
    "('r, 'w) app_config \<Rightarrow> 'r prp list \<Rightarrow> 'r prp list \<Rightarrow> ('r::zero, 'w) app_state \<Rightarrow> 'r prp list \<Rightarrow> ('r, 'w) app_state \<Rightarrow> bool" where
  "sent_upto c q ps s it s' \<longleftrightarrow> (\<exists>R. books_ok q (capacity_of c) R s') \<and>
     slots_ok (asynchLocalEvalConcurrency c) (msgPassRunningMap s') \<and> track_frame q s s' \<and>
     rawResponseMap s' = rawResponseMap s \<and> (\<exists>j. it = drop j ps) \<and>
     fst ` set (msgPassRunningMap s) \<subseteq> fst ` set (msgPassRunningMap s') \<and>
     (\<forall>p \<in> set ps - set it. eval_id p \<in> fst ` set (msgPassRunningMap s'))"

lemma sent_upto_skip:
  assumes "sent_upto c q ps s1 it s'" "track_frame q s s1" "rawResponseMap s1 = rawResponseMap s"
    "insert (eval_id p) (fst ` set (msgPassRunningMap s)) \<subseteq> fst ` set (msgPassRunningMap s1)"
  shows "sent_upto c q (p # ps) s it s'"
proof -
  obtain j where "it = drop j ps" using assms(1) by (auto simp: sent_upto_def)
  then have "it = drop (Suc j) (p # ps)" by simp
  then show ?thesis
    using assms track_frame_trans [OF assms(2), of s'] unfolding sent_upto_def by (auto simp del: drop_Suc_Cons)
qed

lemma master_fill_gaps_ok:
  assumes q: "queue_ok q" "\<forall>p \<in> set q. map_of (rawResponseMap s) (eval_id p) = None"
    and c: "1 \<le> asynchLocalEvalConcurrency c" "0 < numEvalServers c"
    and "set ps \<subseteq> set q" "books_ok q (capacity_of c) R s" "slots_ok (asynchLocalEvalConcurrency c) (msgPassRunningMap s)"
    and "loads_ok (numEvalServers c) (asynchLocalEvalConcurrency c) jobs s" "m = length (msgPassRunningMap s)"
  shows "\<exists>it s'. master_fill_gaps c m jobs ps s = Inr (it, s') \<and> sent_upto c q ps s it s'"
  using q(2) assms(5-)
proof (induction ps arbitrary: m jobs s R)
  case Nil
  then show ?case by (auto simp: sent_upto_def)
next
  case (Cons p ps)
  let ?n = "numEvalServers c" and ?conc = "asynchLocalEvalConcurrency c"
  have cap: "capacity_of c = ?n * ?conc" by (rule capacity_product [OF c(1)])
  have p: "p \<in> set q" "set ps \<subseteq> set q" using Cons.prems(2) by auto
  have rk: "running_ok (?n * ?conc) (msgPassRunningMap s) s" using Cons.prems(3) cap by (simp add: books_ok_def)
  consider "\<not> m < capacity_of c" | "m < capacity_of c" "map_of (msgPassRunningMap s) (eval_id p) \<noteq> None" |
    "m < capacity_of c" "map_of (msgPassRunningMap s) (eval_id p) = None" by blast
  then show ?case
  proof cases
    case 1
    have "sent_upto c q (p # ps) s (p # ps) s"
      using Cons.prems(3,4) by (auto simp: sent_upto_def intro: exI [of _ 0])
    then show ?thesis using 1 by simp
  next
    case 2
    then have "eval_id p \<in> fst ` set (msgPassRunningMap s)" by (metis map_of_eq_None_iff)
    then have i: "insert (eval_id p) (fst ` set (msgPassRunningMap s)) \<subseteq> fst ` set (msgPassRunningMap s)" by simp
    show ?thesis using 2 Cons.IH [OF Cons.prems(1) p(2) Cons.prems(3-)] sent_upto_skip [OF _ track_frame_refl refl i] by auto
  next
    case 3
    have ne: "jobs \<noteq> []" "length jobs = ?n" using Cons.prems(5) c(2) by (auto simp: loads_ok_def)
    then obtain load loads where ml: "map length jobs = load # loads" by (cases jobs) auto
    obtain k l where kl: "min_load_loop 0 load 1 loads = (k, l)" by fastforce
    note k = least_load [OF ne(1) ml kl, unfolded ne(2)]
    obtain b where b: "free_slot c k (jobs ! k) = Some b"
      using free_slot_exists [OF rk _ Cons.prems(5) refl k] 3(1) Cons.prems(6) cap by auto
    note fb = free_slot_Some [OF b]
    have bd: "b div ?conc = k" using fb(1,2) by (intro div_nat_eqI) (simp_all add: mult.commute)
    have bn: "b < ?n * ?conc" using fb(2) k(1) by (metis Suc_leI less_le_trans mult_le_mono1)
    have tb: "tag_at s b = None" using fb(3) Cons.prems(5) k(1) bn bd by (auto simp: loads_ok_def)
    have "eval_id p \<in># R" by (rule not_running_idle [OF q(1) p(1) Cons.prems(3)]) (use Cons.prems(1) p(1) 3(2) in auto)
    then have "books_ok q (capacity_of c) (add_mset (eval_id p) (R - {#eval_id p#})) s" using Cons.prems(3) by simp
    from send_tracked_ok [OF q(1) p(1) this _ tb] obtain s1 where s1: "send_tracked c p b (int (k + 1)) s = Inr s1"
        "books_ok q (capacity_of c) (R - {#eval_id p#}) s1" "track_frame q s s1" "rawResponseMap s1 = rawResponseMap s"
        "msgPassRunningMap s1 = map_assign (eval_id p) (int (k + 1), b) (msgPassRunningMap s)"
        "eval_id p \<notin> fst ` set (msgPassRunningMap s)"
        "\<forall>j. tag_at s1 j = (if j = b then Some (eval_id p) else tag_at s j)"
      using bn cap by metis
    have m1: "Suc m = length (msgPassRunningMap s1)" "insert (eval_id p) (fst ` set (msgPassRunningMap s)) \<subseteq> fst ` set (msgPassRunningMap s1)"
      using s1(5,6) Cons.prems(6) rk length_map_assign [of "msgPassRunningMap s"] keys_map_assign [of "eval_id p" "(int (k + 1), b)" "msgPassRunningMap s"]
      by (simp_all add: running_ok_def)
    have sl: "slots_ok ?conc (msgPassRunningMap s1)" unfolding s1(5) using Cons.prems(4) bd by (intro slots_ok_assign) simp_all
    have "\<forall>p \<in> set q. map_of (rawResponseMap s1) (eval_id p) = None" using Cons.prems(1) s1(4) by simp
    from Cons.IH [OF this p(2) s1(2) sl loads_ok_send [OF Cons.prems(5) k(1) bn bd s1(7)] m1(1)] obtain it s' where
        "master_fill_gaps c (Suc m) (jobs[k := List.insert b (jobs ! k)]) ps s1 = Inr (it, s')" "sent_upto c q ps s1 it s'" by blast
    then show ?thesis using 3 ml kl b s1(1) sent_upto_skip [OF _ s1(3,4) m1(2)] by (auto simp: Let_def)
  qed
qed

lemma running_kept:
  "msgPassRunningMap (record_pair c p s) = msgPassRunningMap s" "msgPassRunningMap (set_response a x s) = msgPassRunningMap s"
  "msgPassRunningMap (complete_receive i buf s) = msgPassRunningMap s"
  by (simp_all add: record_pair_def write_restart_def set_response_def Let_def complete_receive_def split: option.split)

lemma test_request_running: "test_request c b s = Inr (flag, s1) \<Longrightarrow> msgPassRunningMap s1 = msgPassRunningMap s"
  by (auto simp: test_request_def running_kept result_simps split: option.splits if_splits)

lemma receive_running:
  assumes "receive_evaluation c p b s1 = Inr s2"
  shows "msgPassRunningMap s2 = msgPassRunningMap s1"
proof -
  obtain bs where bs: "msgBuffers s1 = Some bs" "b < length bs" using assms by (auto simp: receive_evaluation_def split: option.splits if_splits)
  obtain remote rest where r: "Response_read (snd (bs ! b)) = Inr (remote, rest)"
    using assms bs by (auto simp: receive_evaluation_def result_simps)
  obtain x where "remote = Some x" using assms bs r by (cases remote) (auto simp: receive_evaluation_def Let_def)
  then show ?thesis using assms bs r by (auto simp: receive_evaluation_def Let_def rbind_Inr_iff running_kept)
qed

lemma send_running: "send_evaluation c p b srv s2 = Inr s3 \<Longrightarrow> msgPassRunningMap s3 = msgPassRunningMap s2"
  by (auto simp: send_evaluation_def Let_def split: option.splits if_splits)

lemma test_receives_loop_running:
  "test_receives_loop c running rem it s = Inr (rem', it', s') \<Longrightarrow> msgPassRunningMap s' = msgPassRunningMap s"
proof (induction running arbitrary: rem it s)
  case (Cons e running)
  obtain i srv b where e: "e = (i, srv, b)" by (metis prod_cases3)
  note l = Cons.prems [unfolded e test_receives_loop.simps]
  obtain flag s1 where s1: "test_request c b s = Inr (flag, s1)" using l by (auto simp: rbind_Inr_iff)
  show ?case
  proof (cases flag)
    case False
    then show ?thesis using l s1 Cons.IH test_request_running [OF s1] by simp
  next
    case True
    then obtain p s2 where p: "lookup_by_eval_id i (beforeSynchCorePRPQueue s1) = Some p" "receive_evaluation c p b s1 = Inr s2"
      using l s1 by (auto simp: rbind_Inr_iff split: option.splits)
    note m2 = receive_running [OF p(2)] test_request_running [OF s1]
    show ?thesis
    proof (cases "dropWhile (is_running s2) it")
      case Nil
      then show ?thesis using l s1 p True m2 Cons.IH by (simp del: dropWhile_eq_Nil_conv)
    next
      case nx: (Cons p' ps)
      then obtain s3 where "send_evaluation c p' b srv s2 = Inr s3"
          "test_receives_loop c running (map_assign i (eval_id p') rem) ps s3 = Inr (rem', it', s')"
        using l s1 p True by (auto simp: rbind_Inr_iff)
      then show ?thesis using Cons.IH send_running m2 by metis
    qed
  qed
qed simp

lemma test_receives_backfill_slots:
  assumes "test_receives_backfill c it s = Inr (r, it', s')" "slots_ok conc (msgPassRunningMap s)"
  shows "slots_ok conc (msgPassRunningMap s')"
proof -
  obtain rem s1 where "test_receives_loop c (msgPassRunningMap s) [] it s = Inr (rem, it', s1)"
      "rfold apply_removal rem (msgPassRunningMap s1) = Inr (msgPassRunningMap s')"
    using assms(1) by (auto simp: test_receives_backfill_def rbind_Inr_iff)
  then show ?thesis using test_receives_loop_running slots_ok_removals assms(2) by metis
qed


text \<open>
  The state between two calls: either nothing is running and no buffer is allocated, or the buffers
  hold the running jobs, each in a slot of its server.
\<close>

definition master_books :: "('r, 'w) app_config \<Rightarrow> 'r prp list \<Rightarrow> ('r::zero, 'w) app_state \<Rightarrow> bool" where
  "master_books c q s \<longleftrightarrow> beforeSynchCorePRPQueue s = q \<and> all_ready q s \<and> active s = [] \<and>
     (if msgPassRunningMap s = [] then msgBuffers s = None
      else (\<exists>R. books_ok q (capacity_of c) R s) \<and> slots_ok (asynchLocalEvalConcurrency c) (msgPassRunningMap s))"

lemma master_first_pass:
  assumes q: "queue_ok q" "\<forall>p \<in> set q. map_of (rawResponseMap s) (eval_id p) = None"
    and c: "1 \<le> asynchLocalEvalConcurrency c" "0 < numEvalServers c"
    and m: "msgPassRunningMap s = []" "beforeSynchCorePRPQueue s = q" "all_ready q s"
  shows "\<exists>it s'. stratified_first_pass c (numEvalServers c) 0 (min (capacity_of c) (length q)) q (allocate_buffers (capacity_of c) s) =
      Inr (it, s') \<and> sent_upto c q q (allocate_buffers (capacity_of c) s) it s' \<and> (q \<noteq> [] \<longrightarrow> msgPassRunningMap s' \<noteq> [])"
proof -
  let ?n = "numEvalServers c" and ?conc = "asynchLocalEvalConcurrency c" and ?k = "min (capacity_of c) (length q)"
  let ?s0 = "allocate_buffers (capacity_of c) s"
  have cap: "capacity_of c = ?n * ?conc" by (rule capacity_product [OF c(1)])
  note a = allocate_ok [OF q(2), of "capacity_of c"]
  have idq: "ids (take ?k q) + ids (drop ?k q) = ids q" by (metis append_take_drop_id map_append mset_append)
  have "books_ok q (capacity_of c) (ids (take (?k - 0) q) + ids (drop ?k q)) ?s0"
    using a(1,4) m unfolding diff_zero idq by (auto simp: books_ok_def running_ok_def allocate_buffers_def all_ready_def)
  moreover have "slots_ok ?conc (msgPassRunningMap ?s0)" using m(1) by (simp add: slots_ok_def allocate_buffers_def)
  moreover have "\<forall>j. 0 \<le> j \<longrightarrow> j < ?n * ?conc \<longrightarrow> tag_at ?s0 (slot ?n ?conc j) = None"
    using a(3) slot_props(3) [OF _ c(2)] cap by (metis leD)
  ultimately obtain s' where s': "stratified_first_pass c ?n 0 ?k q ?s0 = Inr (drop ?k q, s')"
      "books_ok q (capacity_of c) (ids (drop ?k q)) s'" "slots_ok ?conc (msgPassRunningMap s')"
      "track_frame q ?s0 s'" "rawResponseMap s' = rawResponseMap ?s0"
    using stratified_first_pass_ok [OF q(1) c(2), of ?k c q 0 "ids (drop ?k q)" ?s0] cap by auto
  have u: "unfinished q s' = q" using q(2) s'(5) by (simp add: unfinished_def allocate_buffers_def)
  have "eval_id p \<in> fst ` set (msgPassRunningMap s')" if p: "p \<in> set q - set (drop ?k q)" for p
  proof (rule ccontr)
    assume "\<not> ?thesis"
    then have "eval_id p \<in># ids (drop ?k q)"
      using p q(2) s'(5) by (intro not_running_idle [OF q(1) _ s'(2)]) (auto simp: allocate_buffers_def map_of_eq_None_iff)
    then obtain p' where p': "p' \<in> set (drop ?k q)" "eval_id p' = eval_id p" by auto
    then have "p' = p" using queue.unique [OF q(1)] p by (meson DiffD1 in_set_dropD)
    then show False using p' p by auto
  qed
  then have "sent_upto c q q ?s0 (drop ?k q) s'"
    using s' m(1) by (auto simp: sent_upto_def allocate_buffers_def)
  moreover have "msgPassRunningMap s' \<noteq> []" if "q \<noteq> []"
  proof
    assume "msgPassRunningMap s' = []"
    then have "length (drop ?k q) = length q" using length_books [OF q(1) s'(2)] u by simp
    moreover have "0 < ?k" "?k \<le> length q" using that c cap by simp_all
    ultimately show False unfolding length_drop by linarith
  qed
  ultimately show ?thesis using s'(1) by blast
qed


lemma sent_upto_refl: "books_ok q (capacity_of c) R s \<Longrightarrow> slots_ok (asynchLocalEvalConcurrency c) (msgPassRunningMap s) \<Longrightarrow> sent_upto c q q s q s"
  unfolding sent_upto_def by (auto intro: exI [of _ 0])

text \<open>The second pass, after the first one has sent the jobs before \<open>it\<close>.\<close>

lemma master_second_pass:
  assumes q: "queue_ok q" "\<forall>p \<in> set q. 0 < eval_id p" and c: "mpi_test_contract c"
    and s: "sent_upto c q q s0 it s" "active s0 = []" "msgPassRunningMap s \<noteq> []"
  shows "\<exists>r it' s'. test_receives_backfill c it s = Inr (r, it', s') \<and> (\<exists>R. books_ok q (capacity_of c) R s') \<and>
    slots_ok (asynchLocalEvalConcurrency c) (msgPassRunningMap s') \<and> track_frame q s s' \<and>
    (msgPassRunningMap s' = [] \<longrightarrow> unfinished q s' = [])"
proof -
  obtain R where R: "books_ok q (capacity_of c) R s" using s(1) by (auto simp: sent_upto_def)
  have a: "active s = []" using s(1,2) track_frame_keeps(1) by (fastforce simp: sent_upto_def)
  have it: "set it \<subseteq> set q" "distinct it"
    using s(1) queue_ok_distinct [OF q(1)] by (auto simp: sent_upto_def dest: in_set_dropD)
  obtain r it' s' R' where r: "test_receives_backfill c it s = Inr (r, it', s')" "books_ok q (capacity_of c) R' s'" "track_frame q s s'"
      "R' \<subseteq># R" "skipped_ok it it' R' s'" "length (unfinished q s) = length (unfinished q s') + r" "it' = [] \<or> size R' + r = size R"
    using test_receives_backfill_ok [OF q c R it] by blast
  have sl: "slots_ok (asynchLocalEvalConcurrency c) (msgPassRunningMap s')"
    by (rule test_receives_backfill_slots [OF r(1)]) (use s(1) in \<open>simp add: sent_upto_def\<close>)
  have "unfinished q s' = []" if e: "msgPassRunningMap s' = []"
  proof (cases "it' = []")
    case True
    have "i \<notin># R'" for i
    proof
      assume i: "i \<in># R'"
      then have "i \<in># R" using r(4) by (rule mset_subset_eqD [rotated])
      moreover have m: "msgs_ok q (capacity_of c) [] R s" "running_ok (capacity_of c) (msgPassRunningMap s) s"
        using R by (auto simp: books_ok_def)
      ultimately have i': "i \<notin> fst ` set (msgPassRunningMap s)" "i \<in> eval_id ` set q" using books_disjoint [OF q(1) m] by auto
      then obtain p where p: "p \<in> set q" "eval_id p = i" by blast
      then have "p \<in> set it" using i'(1) s(1) by (auto simp: sent_upto_def)
      moreover have "active s' = []" using track_frame_keeps(1) [OF r(3)] a by simp
      ultimately show False using r(5) True p(2) i by (auto simp: skipped_ok_def lookup_by_eval_id_def uidx_find_def)
    qed
    then have "R' = {#}" by (metis multiset_nonemptyE)
    then show ?thesis using length_books [OF q(1) r(2)] e by simp
  next
    case False
    then have "length (unfinished q s') + r = size R" using r(7) length_books [OF q(1) r(2)] e by simp
    then have "length (msgPassRunningMap s) = 0" using length_books [OF q(1) R] r(6) by simp
    then show ?thesis using s(3) by simp
  qed
  then show ?thesis using r(1-3) sl by blast
qed

lemma master_nowait_ok:
  assumes q: "queue_ok q" "q \<noteq> []" "\<forall>p \<in> set q. 0 < eval_id p" "\<forall>p \<in> set q. map_of (rawResponseMap s) (eval_id p) = None"
    and c: "1 \<le> asynchLocalEvalConcurrency c" "0 < numEvalServers c" "mpi_test_contract c"
    and s: "master_books c q s"
  shows "\<exists>s'. master_dynamic_schedule_evaluations_nowait c s = Inr s' \<and> master_books c q s' \<and> own_responses q s' \<and>
    track_frame q s s' \<and> (msgPassRunningMap s' = [] \<longrightarrow> unfinished q s' = [])"
proof -
  let ?n = "numEvalServers c" and ?k = "min (capacity_of c) (length q)"
  have bq: "beforeSynchCorePRPQueue s = q" "all_ready q s" "active s = []" using s by (auto simp: master_books_def)
  define s0 where "s0 = (if msgBuffers s = None then allocate_buffers (capacity_of c) s else s)"
  have s0: "track_frame q s s0" "active s0 = []" "msgPassRunningMap s0 = msgPassRunningMap s" "beforeSynchCorePRPQueue s0 = q"
    using bq by (auto simp: s0_def allocate_buffers_def track_frame_def msg_frame_def)
  define first where "first = (if length (msgPassRunningMap s) = 0 then stratified_first_pass c ?n 0 ?k q s0
      else if length q \<noteq> length (msgPassRunningMap s) \<and> length (msgPassRunningMap s) < capacity_of c then
        rbind (collect_server_jobs ?n (msgPassRunningMap s0)) (\<lambda>jobs. master_fill_gaps c (length (msgPassRunningMap s)) jobs q s0)
      else Inr (q, s0))"
  have "\<exists>it s1. first = Inr (it, s1) \<and> sent_upto c q q s0 it s1 \<and> msgPassRunningMap s1 \<noteq> []"
  proof (cases "msgPassRunningMap s = []")
    case True
    then have "s0 = allocate_buffers (capacity_of c) s" using s by (auto simp: s0_def master_books_def)
    then show ?thesis using master_first_pass [OF q(1,4) c(1,2) True bq(1,2)] True q(2) by (auto simp: first_def)
  next
    case False
    then obtain R where R: "books_ok q (capacity_of c) R s" "slots_ok (asynchLocalEvalConcurrency c) (msgPassRunningMap s)"
      using s by (auto simp: master_books_def)
    then have e: "s0 = s" by (auto simp: s0_def books_ok_def msgs_ok_def)
    have rk: "running_ok (?n * asynchLocalEvalConcurrency c) (msgPassRunningMap s) s"
      using R(1) capacity_product [OF c(1)] by (simp add: books_ok_def)
    obtain jobs where j: "collect_server_jobs ?n (msgPassRunningMap s) = Inr jobs" "loads_ok ?n (asynchLocalEvalConcurrency c) jobs s"
      using collect_server_jobs_ok [OF rk R(2)] c(1) by auto
    obtain it s1 where g: "master_fill_gaps c (length (msgPassRunningMap s)) jobs q s = Inr (it, s1)" "sent_upto c q q s it s1"
      using master_fill_gaps_ok [OF q(1,4) c(1,2) subset_refl R j(2) refl] by blast
    have "msgPassRunningMap s1 \<noteq> []" using g(2) False by (auto simp: sent_upto_def)
    then show ?thesis using g j(1) False sent_upto_refl [OF R] by (simp add: first_def e)
  qed
  then obtain it s1 where f: "first = Inr (it, s1)" "sent_upto c q q s0 it s1" "msgPassRunningMap s1 \<noteq> []" by blast
  obtain r it' s2 where t: "test_receives_backfill c it s1 = Inr (r, it', s2)" "\<exists>R. books_ok q (capacity_of c) R s2"
      "slots_ok (asynchLocalEvalConcurrency c) (msgPassRunningMap s2)" "track_frame q s1 s2"
      "msgPassRunningMap s2 = [] \<longrightarrow> unfinished q s2 = []"
    using master_second_pass [OF q(1,3) c(3) f(2) s0(2) f(3)] by blast
  have run: "master_dynamic_schedule_evaluations_nowait c s = Inr (release_if_idle s2)"
    using f(1) t(1) unfolding master_dynamic_schedule_evaluations_nowait_def Let_def bq(1) s0_def [symmetric] first_def by simp
  have fr: "track_frame q s s2" using s0(1) f(2) t(4) by (auto simp: sent_upto_def intro: track_frame_trans)
  have "track_frame q s (release_if_idle s2)" using fr by (simp add: release_if_idle_def release_buffers_def track_frame_def msg_frame_def)
  moreover have "own_responses q s2" "all_ready q s2" "beforeSynchCorePRPQueue s2 = q" using t(2) by (auto simp: books_ok_def)
  moreover have "active s2 = []" using track_frame_keeps(1) [OF fr] bq(3) by simp
  ultimately show ?thesis using run t
    by (intro exI [of _ "release_if_idle s2"])
      (auto simp: release_if_idle_def release_buffers_def master_books_def own_responses_def all_ready_def unfinished_def)
qed

end
