(* ===== verification/App_Interface.thy ===== *)
theory App_Interface
  imports Message_Nowait
begin

text \<open>
  The evaluation service that the models use (\<^verbatim>\<open>src/ApplicationInterface.cpp\<close>): \<^verbatim>\<open>map\<close> performs or queues
  an evaluation, \<^verbatim>\<open>synchronize\<close> completes all queued evaluations, \<^verbatim>\<open>synchronize_nowait\<close> reports the
  completed ones.  Duplicates of cached and of queued evaluations are answered without a simulation.

  A response passed to \<^verbatim>\<open>map\<close> is the handle of its representation.  Console output and labels are left
  out.  The arrays of the detailed counters have equal lengths.
\<close>

section \<open>Counters and requests\<close>

definition count_requests :: "(short \<Rightarrow> bool) \<Rightarrow> short list \<Rightarrow> int list \<Rightarrow> int list" where
  "count_requests req asv counter =
    map_index (\<lambda>i n. if i < length asv \<and> req (asv ! i) then n + 1 else n) counter"

definition count_evaluation :: "short list \<Rightarrow> ('r, 'w) app_state \<Rightarrow> ('r, 'w) app_state" where
  "count_evaluation asv s =
    (if fineGrainEvalCounters s then
       let s1 = init_evaluation_counters (length asv) s in
       s1\<lparr>fnValCounter := count_requests req_val asv (fnValCounter s1),
         fnGradCounter := count_requests req_grad asv (fnGradCounter s1),
         fnHessCounter := count_requests req_hess asv (fnHessCounter s1)\<rparr>
     else s)"

definition count_new_evaluation :: "short list \<Rightarrow> ('r, 'w) app_state \<Rightarrow> ('r, 'w) app_state" where
  "count_new_evaluation asv s =
    (let s1 = s\<lparr>newEvalIdCntr := newEvalIdCntr s + 1\<rparr> in
     if fineGrainEvalCounters s then
       s1\<lparr>newFnValCounter := count_requests req_val asv (newFnValCounter s1),
         newFnGradCounter := count_requests req_grad asv (newFnGradCounter s1),
         newFnHessCounter := count_requests req_hess asv (newFnHessCounter s1)\<rparr>
     else s1)"

text \<open>The bits of mixed analytic derivatives; ids count from 1.\<close>

definition add_bit :: "short \<Rightarrow> nat list \<Rightarrow> short list \<Rightarrow> short list result" where
  "add_bit b fn_ids = rfold (\<lambda>i asv. if i = 0 \<or> i > length asv then Inl (UndefinedBehaviour ''index'')
      else Inr (asv[i - 1 := or (asv ! (i - 1)) b])) fn_ids"

definition init_default_asv :: "('r, 'w) app_config \<Rightarrow> nat \<Rightarrow> ('r, 'w) app_state \<Rightarrow> ('r, 'w) app_state result" where
  "init_default_asv c num_fns s =
    (if \<not> asvControlFlag c \<and> length (defaultASV s) \<noteq> num_fns then
       let v1 = (1 :: short); v2 = (if gradientType c = ''analytic'' then or v1 2 else v1);
           v3 = (if hessianType c = ''analytic'' then or v2 4 else v2) in
       rbind (if gradientType c = ''mixed'' then add_bit 2 (gradMixedAnalyticIds c) (replicate num_fns v3)
          else Inr (replicate num_fns v3)) (\<lambda>asv.
       rbind (if hessianType c = ''mixed'' then add_bit 4 (hessMixedAnalyticIds c) asv else Inr asv) (\<lambda>asv'.
         Inr (s\<lparr>defaultASV := asv'\<rparr>)))
     else Inr s)"

section \<open>Duplicates\<close>

definition duplication_detect ::
    "('r, 'w) app_config \<Rightarrow> 'r variables \<Rightarrow> rref \<Rightarrow> bool \<Rightarrow>
      ('r::{zero, one, minus, inverse, abs, ord}, 'w) app_state \<Rightarrow> (bool \<times> ('r, 'w) app_state) result" where
  "duplication_detect c vars a asynch_flag s =
    (let st = responseActiveSet (resp_at s a);
         hit = (if nearbyDuplicateDetect c
           then lookup_by_nearby_val (dbl_min c) (heap s) (data_pairs s) (interfaceId c) vars st (nearbyTolerance c)
           else lookup_by_val (heap s) (prp_index c) (data_pairs s) (interfaceId c) vars st) in
     case hit of
       Some p \<Rightarrow>
         rbind (update (resp_at s (prpResponse p)) True (resp_at s a)) (\<lambda>r.
           let s1 = set_response a r s;
               s2 = (if eval_id p \<le> 0
                 then s1\<lparr>data_pairs := cache_insert (set_eval_id (evalIdCntr s1) p) (cache_erase p (data_pairs s1))\<rparr>
                 else s1)
           in if asynch_flag then
                (case new_response (resp_at s2 a) s2 of (b, s3) \<Rightarrow>
                   Inr (True, s3\<lparr>historyDuplicateMap := map_assign (evalIdCntr s3) b (historyDuplicateMap s3)\<rparr>))
              else Inr (True, s2))
     | None \<Rightarrow>
         if asynch_flag then
           case queue_lookup_by_val (heap s) (prp_index c) (beforeSynchCorePRPQueue s) (interfaceId c) vars st of
             Some p \<Rightarrow> (case new_response (resp_at s a) s of (b, s1) \<Rightarrow>
               Inr (True, s1\<lparr>beforeSynchDuplicateMap :=
                 map_assign (evalIdCntr s1) (eval_id p, b) (beforeSynchDuplicateMap s1)\<rparr>))
           | None \<Rightarrow> Inr (False, s)
         else Inr (False, s))"

section \<open>Evaluation requests\<close>

text \<open>The algebraic part of a request, and the handle and active set of the simulation part.\<close>

definition split_request ::
    "('r, 'w) app_config \<Rightarrow> 'r variables \<Rightarrow> active_set \<Rightarrow> rref \<Rightarrow> bool \<Rightarrow> ('r::zero, 'w) app_state \<Rightarrow>
      (rref option \<times> (active_set \<times> rref) option \<times> ('r, 'w) app_state) result" where
  "split_request c vars st a asynch_flag s =
    (if algebraicMappings c then
       rbind (if evalIdCntr s = 1
          then rbind (init_algebraic_mappings (acv_labels c) (acv_ids c) (function_labels c) (algebraicData s))
            (\<lambda>d. Inr (s\<lparr>algebraicData := d\<rparr>))
          else Inr s) (\<lambda>s1.
       rbind (asv_mapping (algebraicData s1) st) (\<lambda>(algebraic_set, core_set).
       case new_response (Response_for_set (num_metadata c) algebraic_set) s1 of (alg, s2) \<Rightarrow>
       rbind (if asynch_flag then
            case new_response (resp_at s2 alg) s2 of (b, s3) \<Rightarrow>
              Inr (s3\<lparr>beforeSynchAlgPRPQueue :=
                queue_insert (ParamResponsePair vars (interfaceId c) b (evalIdCntr s3)) (beforeSynchAlgPRPQueue s3)\<rparr>)
          else rbind (algebraic_mappings (ampl_val c) (ampl_grad c) (ampl_hess c) (algebraicData s2) vars algebraic_set (resp_at s2 alg))
            (\<lambda>r. Inr (set_response alg r s2))) (\<lambda>s3.
       if coreMappings c then
         case new_response (resp_at s3 a) s3 of (core, s4) \<Rightarrow>
           rbind (set_active_set core_set (resp_at s4 core)) (\<lambda>r.
             Inr (Some alg, Some (core_set, core), set_response core r s4))
       else Inr (Some alg, None, s3))))
     else Inr (None, if coreMappings c then Some (st, a) else None, s))"

text \<open>A simulation that is not a duplicate: queued, or run here.\<close>

definition new_evaluation ::
    "nat \<Rightarrow> ('r, 'w) app_config \<Rightarrow> 'r variables \<Rightarrow> nat \<Rightarrow> active_set \<Rightarrow> rref \<Rightarrow> bool \<Rightarrow>
      ('r::{zero, one, plus, minus, inverse, abs, ord}, 'w) app_state \<Rightarrow> ('r, 'w) app_state result" where
  "new_evaluation fuel c vars num_fns core_set core asynch_flag s =
    rbind (if \<not> asvControlFlag c then
        rbind (init_default_asv c num_fns s) (\<lambda>s1.
          let core_set1 = set_request_vector (defaultASV s1) core_set in
          rbind (set_active_set core_set1 (resp_at s1 core)) (\<lambda>r. Inr (core_set1, set_response core r s1)))
      else Inr (core_set, s)) (\<lambda>(core_set2, s2).
    if asynch_flag then
      case new_response (resp_at s2 core) s2 of (b, s3) \<Rightarrow>
        Inr (s3\<lparr>beforeSynchCorePRPQueue :=
          queue_insert (ParamResponsePair vars (interfaceId c) b (evalIdCntr s3)) (beforeSynchCorePRPQueue s3)\<rparr>)
    else
      let s3 = s2\<lparr>currEvalId := evalIdCntr s2\<rparr> in
      case call_derived_map c vars core_set2 core (currEvalId s3) s3 of (failed, s4) \<Rightarrow>
      rbind (if failed then manage_failure fuel c vars core_set2 core (currEvalId s4) s4 else Inr s4) (\<lambda>s5.
        if evalCacheFlag c then
          case new_response (resp_at s5 core) s5 of (b, s6) \<Rightarrow>
            Inr (record_pair c (ParamResponsePair vars (interfaceId c) b (currEvalId s6)) s6)
        else Inr (record_pair c (ParamResponsePair vars (interfaceId c) core (currEvalId s5)) s5)))"

definition core_evaluation ::
    "nat \<Rightarrow> ('r, 'w) app_config \<Rightarrow> 'r variables \<Rightarrow> nat \<Rightarrow> active_set \<Rightarrow> rref \<Rightarrow> bool \<Rightarrow>
      ('r::{zero, one, plus, minus, inverse, abs, ord}, 'w) app_state \<Rightarrow> (bool \<times> ('r, 'w) app_state) result" where
  "core_evaluation fuel c vars num_fns core_set core asynch_flag s =
    rbind (if evalCacheFlag c then duplication_detect c vars core asynch_flag s else Inr (False, s)) (\<lambda>(duplicate, s1).
      if duplicate then Inr (True, s1)
      else rbind (new_evaluation fuel c vars num_fns core_set core asynch_flag s1) (\<lambda>s2. Inr (False, s2)))"

definition map_evaluation ::
    "nat \<Rightarrow> ('r, 'w) app_config \<Rightarrow> 'r variables \<Rightarrow> active_set \<Rightarrow> rref \<Rightarrow> bool \<Rightarrow>
      ('r::{zero, one, plus, minus, inverse, abs, ord}, 'w) app_state \<Rightarrow> ('r, 'w) app_state result" where
  "map_evaluation fuel c vars st a asynch_flag s =
    (let asv = requestVector st;
         s1 = count_evaluation asv (s\<lparr>evalIdCntr := evalIdCntr s + 1\<rparr>) in
     rbind (set_active_set st (resp_at s1 a)) (\<lambda>r.
     rbind (split_request c vars st a asynch_flag (set_response a r s1)) (\<lambda>(alg, core, s2).
     rbind (case core of None \<Rightarrow> Inr (False, s2)
        | Some (core_set, core_resp) \<Rightarrow> core_evaluation fuel c vars (length asv) core_set core_resp asynch_flag s2)
       (\<lambda>(duplicate, s3).
     let s4 = (if duplicate then s3 else count_new_evaluation asv s3) in
     if asynch_flag then Inr s4
     else case alg of None \<Rightarrow> Inr s4
       | Some alg_resp \<Rightarrow>
           rbind (response_mapping (coreMappings c) (algebraicData s4) (resp_at s4 alg_resp)
             (case core of None \<Rightarrow> resp_at s4 a | Some (_, core_resp) \<Rightarrow> resp_at s4 core_resp) (resp_at s4 a))
             (\<lambda>r'. Inr (set_response a r' s4))))))"

section \<open>Schedules\<close>

text \<open>When the first peer cannot poll its own jobs.\<close>

definition static_peers :: "('r, 'w) app_config \<Rightarrow> bool" where
  "static_peers c \<longleftrightarrow> asynchLocalEvalStatic c \<or> multiProcEvalFlag c \<or> directInterface c \<or> peerStaticScheduling c"

definition blocking_schedule ::
    "nat \<Rightarrow> ('r, 'w) app_config \<Rightarrow> ('r::{zero, one, plus, minus, inverse, abs, ord}, 'w) app_state \<Rightarrow>
      ('r, 'w) app_state result" where
  "blocking_schedule fuel c s =
    (if ieMessagePass c then
       if ieDedMasterFlag c then master_dynamic_schedule_evaluations fuel c s
       else if static_peers c then peer_static_schedule_evaluations fuel c s
       else peer_dynamic_schedule_evaluations fuel c s
     else asynchronous_local_evaluations fuel c (beforeSynchCorePRPQueue s) s)"

definition nonblocking_schedule ::
    "nat \<Rightarrow> ('r, 'w) app_config \<Rightarrow> ('r::{zero, one, plus, minus, inverse, abs, ord}, 'w) app_state \<Rightarrow>
      ('r, 'w) app_state result" where
  "nonblocking_schedule fuel c s =
    (if ieMessagePass c then
       if ieDedMasterFlag c then master_dynamic_schedule_evaluations_nowait c s
       else if static_peers c then peer_static_schedule_evaluations_nowait fuel c s
       else peer_dynamic_schedule_evaluations_nowait c s
     else asynchronous_local_evaluations_nowait c (beforeSynchCorePRPQueue s) s)"

section \<open>Blocking synchronization\<close>

text \<open>A duplicate of a queued evaluation takes its data from the pair its iterator points to.\<close>

definition finish_duplicate ::
    "int \<times> int \<times> rref \<Rightarrow> ('r::zero, 'w) app_state \<Rightarrow> ('r, 'w) app_state result" where
  "finish_duplicate e s =
    (case e of (i, target, b) \<Rightarrow>
       case lookup_by_eval_id target (beforeSynchCorePRPQueue s) of
         None \<Rightarrow> Inl (UndefinedBehaviour ''dangling iterator'')
       | Some p \<Rightarrow> rbind (update (resp_at s (prpResponse p)) True (resp_at s b)) (\<lambda>r.
           Inr (set_response b r (s\<lparr>rawResponseMap := map_assign i b (rawResponseMap s)\<rparr>))))"

text \<open>The algebraic contribution to one evaluation: added to its simulation response, or alone.\<close>

definition algebraic_evaluation :: "('r, 'w) app_config \<Rightarrow> 'r prp \<Rightarrow> ('r::zero, 'w) app_state \<Rightarrow> ('r, 'w) app_state result" where
  "algebraic_evaluation c p s =
    rbind (algebraic_mappings (ampl_val c) (ampl_grad c) (ampl_hess c) (algebraicData s) (prpVariables p)
        (active_set_of (heap s) p) (resp_at s (prpResponse p)))
      (\<lambda>r. Inr (set_response (prpResponse p) r s))"

definition merge_response :: "rref \<Rightarrow> rref \<Rightarrow> ('r::{zero, plus}, 'w) app_state \<Rightarrow> ('r, 'w) app_state result" where
  "merge_response alg b s =
    rbind (response_mapping True (algebraicData s) (resp_at s alg) (resp_at s b) (resp_at s b))
      (\<lambda>r. Inr (set_response b r s))"

definition algebraic_response ::
    "('r, 'w) app_config \<Rightarrow> 'r prp \<Rightarrow> ('r::{zero, plus}, 'w) app_state \<Rightarrow> ('r, 'w) app_state result" where
  "algebraic_response c p s =
    rbind (asv_mapping_total (algebraicData s) (active_set_of (heap s) p) (active_set_of (heap s) p)) (\<lambda>total_set.
    case new_response (Response_for_set (num_metadata c) total_set) s of (tot, s1) \<Rightarrow>
    rbind (response_mapping False (algebraicData s1) (resp_at s1 (prpResponse p)) (resp_at s1 tot) (resp_at s1 tot)) (\<lambda>r.
      Inr ((set_response tot r s1)\<lparr>rawResponseMap := map_assign (eval_id p) tot (rawResponseMap s1)\<rparr>)))"

definition overlay_algebraic ::
    "('r, 'w) app_config \<Rightarrow> 'r prp \<Rightarrow> ('r::{zero, plus}, 'w) app_state \<Rightarrow> ('r, 'w) app_state result" where
  "overlay_algebraic c p s =
    rbind (algebraic_evaluation c p s) (\<lambda>s1.
      if coreMappings c then
        case map_of (rawResponseMap s1) (eval_id p) of
          None \<Rightarrow> Inl (UndefinedBehaviour ''null response'')
        | Some b \<Rightarrow> merge_response (prpResponse p) b s1
      else algebraic_response c p s1)"

definition take_cached :: "('r, 'w) app_state \<Rightarrow> ('r, 'w) app_state" where
  "take_cached s = (if cachedResponseMap s \<noteq> []
     then s\<lparr>rawResponseMap := cachedResponseMap s, cachedResponseMap := rawResponseMap s\<rparr> else s)"

definition take_history :: "('r, 'w) app_state \<Rightarrow> ('r, 'w) app_state" where
  "take_history s =
    (if historyDuplicateMap s \<noteq> [] then
       if rawResponseMap s = []
       then s\<lparr>rawResponseMap := historyDuplicateMap s, historyDuplicateMap := rawResponseMap s\<rparr>
       else s\<lparr>rawResponseMap := map_insert_range (historyDuplicateMap s) (rawResponseMap s), historyDuplicateMap := []\<rparr>
     else s)"

definition synchronize ::
    "nat \<Rightarrow> ('r, 'w) app_config \<Rightarrow> ('r::{zero, one, plus, minus, inverse, abs, ord}, 'w) app_state \<Rightarrow>
      ('r, 'w) app_state result" where
  "synchronize fuel c s =
    (let queue_duplicates = length (beforeSynchDuplicateMap s);
         s1 = take_history (take_cached (s\<lparr>rawResponseMap := []\<rparr>)) in
     rbind (if coreMappings c \<and> beforeSynchCorePRPQueue s1 \<noteq> [] then blocking_schedule fuel c s1 else Inr s1) (\<lambda>s2.
     rbind (if queue_duplicates \<noteq> 0 then
          rbind (rfold finish_duplicate (beforeSynchDuplicateMap s2) s2) (\<lambda>s3. Inr (s3\<lparr>beforeSynchDuplicateMap := []\<rparr>))
        else Inr s2) (\<lambda>s3.
     let s4 = s3\<lparr>beforeSynchCorePRPQueue := []\<rparr> in
     if algebraicMappings c then
       rbind (rfold (overlay_algebraic c) (beforeSynchAlgPRPQueue s4) s4) (\<lambda>s5. Inr (s5\<lparr>beforeSynchAlgPRPQueue := []\<rparr>))
     else Inr s4)))"

section \<open>Nonblocking synchronization\<close>

definition test_duplicate ::
    "int \<times> int \<times> rref \<Rightarrow> ('r::zero, 'w) app_state \<Rightarrow> ('r, 'w) app_state result" where
  "test_duplicate e s =
    (case e of (i, target, b) \<Rightarrow>
       case lookup_by_eval_id target (beforeSynchCorePRPQueue s) of
         None \<Rightarrow> Inl (UndefinedBehaviour ''dangling iterator'')
       | Some p \<Rightarrow>
           if map_of (rawResponseMap s) (eval_id p) \<noteq> None then
             rbind (update (resp_at s (prpResponse p)) True (resp_at s b)) (\<lambda>r.
               let s1 = set_response b r s in Inr (s1\<lparr>rawResponseMap := map_assign i b (rawResponseMap s1)\<rparr>))
           else Inr s)"

definition merge_completed ::
    "('r, 'w) app_config \<Rightarrow> int \<times> rref \<Rightarrow> ('r::{zero, plus}, 'w) app_state \<Rightarrow> ('r, 'w) app_state result" where
  "merge_completed c e s =
    (case e of (i, b) \<Rightarrow>
       case lookup_by_eval_id i (beforeSynchAlgPRPQueue s) of
         None \<Rightarrow> Inl (UndefinedBehaviour ''end iterator'')
       | Some p \<Rightarrow> rbind (algebraic_evaluation c p s) (\<lambda>s1.
           rbind (merge_response (prpResponse p) b s1) (\<lambda>s2.
             Inr (s2\<lparr>beforeSynchAlgPRPQueue := queue_erase i (beforeSynchAlgPRPQueue s2)\<rparr>))))"

definition merge_algebraic_nowait ::
    "('r, 'w) app_config \<Rightarrow> ('r::{zero, plus}, 'w) app_state \<Rightarrow> ('r, 'w) app_state result" where
  "merge_algebraic_nowait c s =
    (if coreMappings c \<and> algebraicMappings c then rfold (merge_completed c) (rawResponseMap s) s
     else if algebraicMappings c then
       rbind (rfold (\<lambda>p s. rbind (algebraic_evaluation c p s) (algebraic_response c p)) (beforeSynchAlgPRPQueue s) s)
         (\<lambda>s1. Inr (s1\<lparr>beforeSynchAlgPRPQueue := []\<rparr>))
     else Inr s)"

definition clear_completed :: "int \<Rightarrow> ('r, 'w) app_state \<Rightarrow> ('r, 'w) app_state" where
  "clear_completed i s =
    s\<lparr>beforeSynchCorePRPQueue := queue_erase i (beforeSynchCorePRPQueue s),
      beforeSynchDuplicateMap := map_erase i (beforeSynchDuplicateMap s)\<rparr>"

definition add_cached_nowait :: "nat \<Rightarrow> nat \<Rightarrow> ('r, 'w) app_state \<Rightarrow> ('r, 'w) app_state" where
  "add_cached_nowait cached_eval hist_duplicates s =
    (let s1 = (if cached_eval \<noteq> 0
         then s\<lparr>rawResponseMap := map_insert_range (cachedResponseMap s) (rawResponseMap s), cachedResponseMap := [],
           headerFlag := True\<rparr> else s)
     in if hist_duplicates \<noteq> 0
        then s1\<lparr>rawResponseMap := map_insert_range (historyDuplicateMap s1) (rawResponseMap s1), historyDuplicateMap := [],
          headerFlag := True\<rparr> else s1)"

definition synchronize_nowait ::
    "nat \<Rightarrow> ('r, 'w) app_config \<Rightarrow> ('r::{zero, one, plus, minus, inverse, abs, ord}, 'w) app_state \<Rightarrow>
      ('r, 'w) app_state result" where
  "synchronize_nowait fuel c s =
    (let s0 = s\<lparr>rawResponseMap := []\<rparr>; cached_eval = length (cachedResponseMap s0);
         hist_duplicates = length (historyDuplicateMap s0); queue_duplicates = length (beforeSynchDuplicateMap s0) in
     rbind (if coreMappings c then
          rbind (if beforeSynchCorePRPQueue s0 \<noteq> [] then nonblocking_schedule fuel c s0 else Inr s0)
            (\<lambda>s1. Inr (s1\<lparr>headerFlag := (rawResponseMap s1 \<noteq> [])\<rparr>))
        else Inr s0) (\<lambda>s1.
     rbind (if queue_duplicates \<noteq> 0 \<and> rawResponseMap s1 \<noteq> []
        then rfold test_duplicate (beforeSynchDuplicateMap s1) s1 else Inr s1) (\<lambda>s2.
     rbind (merge_algebraic_nowait c (add_cached_nowait cached_eval hist_duplicates s2)) (\<lambda>s3.
     Inr (if coreMappings c then foldl (\<lambda>s e. clear_completed (fst e) s) s3 (rawResponseMap s3) else s3)))))"

end
