(* ===== verification/App_Service.thy ===== *)
theory App_Service
  imports App_Interface
begin

text \<open>
  The invariant of the evaluation service and what \<^verbatim>\<open>map\<close>, \<^verbatim>\<open>synchronize\<close> and \<^verbatim>\<open>synchronize_nowait\<close> do to
  the set of outstanding evaluations.  The theory treats interfaces with simulations only; the
  algebraic contribution is the subject of the theory on interface mappings.
\<close>

section \<open>Invariant\<close>

text \<open>The evaluations that were requested and not yet returned.\<close>

definition outstanding :: "('r, 'w) app_state \<Rightarrow> int set" where
  "outstanding s = eval_id ` set (beforeSynchCorePRPQueue s) \<union> fst ` set (historyDuplicateMap s) \<union>
     fst ` set (beforeSynchDuplicateMap s) \<union> fst ` set (cachedResponseMap s)"

definition duplicate_refs :: "('r, 'w) app_state \<Rightarrow> rref set" where
  "duplicate_refs s = (\<lambda>e. snd (snd e)) ` set (beforeSynchDuplicateMap s)"

definition stored_refs :: "('r, 'w) app_state \<Rightarrow> rref set" where
  "stored_refs s = prpResponse ` (set (beforeSynchCorePRPQueue s) \<union> set (data_pairs s)) \<union>
     snd ` set (historyDuplicateMap s) \<union> snd ` set (cachedResponseMap s) \<union> duplicate_refs s"

definition ids_ok :: "('r, 'w) app_state \<Rightarrow> bool" where
  "ids_ok s \<longleftrightarrow> queue_ok (beforeSynchCorePRPQueue s) \<and> omap_ok (historyDuplicateMap s) \<and>
     omap_ok (beforeSynchDuplicateMap s) \<and> omap_ok (cachedResponseMap s) \<and>
     eval_id ` set (beforeSynchCorePRPQueue s) \<inter>
       (fst ` set (historyDuplicateMap s) \<union> fst ` set (beforeSynchDuplicateMap s) \<union> fst ` set (cachedResponseMap s)) = {} \<and>
     fst ` set (historyDuplicateMap s) \<inter> (fst ` set (beforeSynchDuplicateMap s) \<union> fst ` set (cachedResponseMap s)) = {} \<and>
     fst ` set (beforeSynchDuplicateMap s) \<inter> fst ` set (cachedResponseMap s) = {} \<and>
     0 \<le> evalIdCntr s \<and> (\<forall>i \<in> outstanding s. 0 < i \<and> i \<le> evalIdCntr s)"

text \<open>A duplicate has a response of its own, and points to a queued pair that covers its request.\<close>

definition duplicate_ok :: "('r, 'w) app_state \<Rightarrow> int \<times> int \<times> rref \<Rightarrow> bool" where
  "duplicate_ok s e \<longleftrightarrow> (case e of (i, target, b) \<Rightarrow>
     b \<notin> prpResponse ` set (beforeSynchCorePRPQueue s) \<and> resp_ready (resp_at s b) \<and> distinct (resp_dvv (resp_at s b)) \<and>
     (\<exists>p \<in> set (beforeSynchCorePRPQueue s). eval_id p = target \<and>
       set_covers (responseActiveSet (resp_at s (prpResponse p))) (responseActiveSet (resp_at s b))))"

definition app_ok :: "('r, 'w) app_state \<Rightarrow> bool" where
  "app_ok s \<longleftrightarrow> ids_ok s \<and> (\<forall>a \<in> stored_refs s. a < nextRef s) \<and>
     (\<forall>e \<in> set (beforeSynchDuplicateMap s). duplicate_ok s e) \<and>
     distinct (map (\<lambda>e. snd (snd e)) (beforeSynchDuplicateMap s)) \<and>
     (\<forall>p \<in> set (beforeSynchCorePRPQueue s) \<union> set (data_pairs s). resp_ready (resp_at s (prpResponse p)))"

text \<open>The fields that the invariant is about.\<close>

definition same_books :: "('r, 'w) app_state \<Rightarrow> ('r, 'w) app_state \<Rightarrow> bool" where
  "same_books s s' \<longleftrightarrow> beforeSynchCorePRPQueue s' = beforeSynchCorePRPQueue s \<and>
     historyDuplicateMap s' = historyDuplicateMap s \<and> beforeSynchDuplicateMap s' = beforeSynchDuplicateMap s \<and>
     cachedResponseMap s' = cachedResponseMap s"

lemma app_ok_frame:
  assumes ok: "app_ok s" and b: "same_books s s'" "evalIdCntr s \<le> evalIdCntr s'" "nextRef s \<le> nextRef s'"
    and d: "prpResponse ` set (data_pairs s') \<subseteq> prpResponse ` set (data_pairs s)"
    and h: "\<forall>a \<in> stored_refs s. resp_at s' a = resp_at s a"
  shows "app_ok s'" "outstanding s' = outstanding s" "stored_refs s' \<subseteq> stored_refs s"
proof -
  show o: "outstanding s' = outstanding s" using b(1) by (simp add: same_books_def outstanding_def)
  show st: "stored_refs s' \<subseteq> stored_refs s" using b(1) d by (auto simp: same_books_def stored_refs_def duplicate_refs_def)
  have i: "ids_ok s'" using ok b o by (auto simp: app_ok_def ids_ok_def same_books_def)
  have "duplicate_ok s' e" if e: "e \<in> set (beforeSynchDuplicateMap s)" for e
  proof -
    have "snd (snd e) \<in> stored_refs s" using e by (auto simp: stored_refs_def duplicate_refs_def)
    moreover have "prpResponse p \<in> stored_refs s" if "p \<in> set (beforeSynchCorePRPQueue s)" for p
      using that by (simp add: stored_refs_def)
    moreover have "duplicate_ok s e" using ok e by (simp add: app_ok_def)
    ultimately show ?thesis using b(1) h by (auto simp: duplicate_ok_def same_books_def)
  qed
  moreover have "resp_ready (resp_at s' (prpResponse p))" if "p \<in> set (beforeSynchCorePRPQueue s') \<union> set (data_pairs s')" for p
  proof -
    have "prpResponse p \<in> prpResponse ` (set (beforeSynchCorePRPQueue s) \<union> set (data_pairs s))"
      using that b(1) d by (auto simp: same_books_def)
    then show ?thesis using ok h by (fastforce simp: app_ok_def stored_refs_def)
  qed
  ultimately show "app_ok s'"
    using ok i st b unfolding app_ok_def same_books_def by (metis (no_types, lifting) dual_order.strict_trans1 subsetD)
qed

section \<open>Submitting an evaluation\<close>

lemma set_append_new: "omap_ok m \<Longrightarrow> \<forall>k' \<in> fst ` set m. k' < k \<Longrightarrow> omap_ok (m @ [(k, v)])"
  using omap_ok_assign [of m k v] by (simp add: map_assign_append)

text \<open>The id of a new evaluation is larger than all outstanding ones.\<close>

definition fresh_id :: "('r, 'w) app_state \<Rightarrow> bool" where
  "fresh_id s \<longleftrightarrow> 0 < evalIdCntr s \<and> (\<forall>i \<in> outstanding s. i < evalIdCntr s)"

lemma submit_history:
  assumes "app_ok s" "fresh_id s" "b < nextRef s"
  shows "app_ok (s\<lparr>historyDuplicateMap := map_assign (evalIdCntr s) b (historyDuplicateMap s)\<rparr>)"
    "outstanding (s\<lparr>historyDuplicateMap := map_assign (evalIdCntr s) b (historyDuplicateMap s)\<rparr>) = insert (evalIdCntr s) (outstanding s)"
proof -
  let ?h = "historyDuplicateMap s" and ?i = "evalIdCntr s"
  have lt: "\<forall>k' \<in> fst ` set ?h. k' < ?i" using assms(2) by (auto simp: fresh_id_def outstanding_def)
  note m = map_assign_append [OF lt, of b]
  show o: "outstanding (s\<lparr>historyDuplicateMap := map_assign ?i b ?h\<rparr>) = insert ?i (outstanding s)"
    unfolding m by (auto simp: outstanding_def)
  have "ids_ok (s\<lparr>historyDuplicateMap := map_assign ?i b ?h\<rparr>)"
    using assms set_append_new [OF _ lt, of b] unfolding ids_ok_def app_ok_def o m
    by (auto simp: fresh_id_def outstanding_def)
  then show "app_ok (s\<lparr>historyDuplicateMap := map_assign ?i b ?h\<rparr>)"
    using assms(1,3) unfolding app_ok_def m by (auto simp: stored_refs_def duplicate_refs_def duplicate_ok_def)
qed

lemma submit_duplicate:
  assumes "app_ok s" "fresh_id s" "b < nextRef s" "b \<notin> stored_refs s"
    and "resp_ready (resp_at s b)" "distinct (resp_dvv (resp_at s b))" "p \<in> set (beforeSynchCorePRPQueue s)"
    and "set_covers (responseActiveSet (resp_at s (prpResponse p))) (responseActiveSet (resp_at s b))"
  shows "app_ok (s\<lparr>beforeSynchDuplicateMap := map_assign (evalIdCntr s) (eval_id p, b) (beforeSynchDuplicateMap s)\<rparr>)"
    "outstanding (s\<lparr>beforeSynchDuplicateMap := map_assign (evalIdCntr s) (eval_id p, b) (beforeSynchDuplicateMap s)\<rparr>) = insert (evalIdCntr s) (outstanding s)"
proof -
  let ?d = "beforeSynchDuplicateMap s" and ?i = "evalIdCntr s"
  have lt: "\<forall>k' \<in> fst ` set ?d. k' < ?i" using assms(2) by (auto simp: fresh_id_def outstanding_def)
  note m = map_assign_append [OF lt, of "(eval_id p, b)"]
  show o: "outstanding (s\<lparr>beforeSynchDuplicateMap := map_assign ?i (eval_id p, b) ?d\<rparr>) = insert ?i (outstanding s)"
    unfolding m by (auto simp: outstanding_def)
  have "ids_ok (s\<lparr>beforeSynchDuplicateMap := map_assign ?i (eval_id p, b) ?d\<rparr>)"
    using assms(1,2) set_append_new [OF _ lt, of "(eval_id p, b)"] unfolding ids_ok_def app_ok_def o m
    by (auto simp: fresh_id_def outstanding_def)
  moreover have "b \<notin> prpResponse ` set (beforeSynchCorePRPQueue s)" "b \<notin> (\<lambda>e. snd (snd e)) ` set ?d"
    using assms(4) by (auto simp: stored_refs_def duplicate_refs_def)
  ultimately show "app_ok (s\<lparr>beforeSynchDuplicateMap := map_assign ?i (eval_id p, b) ?d\<rparr>)"
    using assms unfolding app_ok_def m by (auto simp: stored_refs_def duplicate_refs_def duplicate_ok_def)
qed

lemma submit_queue:
  assumes "app_ok s" "fresh_id s" "b < nextRef s" "b \<notin> stored_refs s" "resp_ready (resp_at s b)"
  shows "app_ok (s\<lparr>beforeSynchCorePRPQueue := queue_insert (ParamResponsePair vars iface b (evalIdCntr s)) (beforeSynchCorePRPQueue s)\<rparr>)"
    "outstanding (s\<lparr>beforeSynchCorePRPQueue := queue_insert (ParamResponsePair vars iface b (evalIdCntr s)) (beforeSynchCorePRPQueue s)\<rparr>) = insert (evalIdCntr s) (outstanding s)"
proof -
  let ?p = "ParamResponsePair vars iface b (evalIdCntr s)" and ?q = "beforeSynchCorePRPQueue s"
  have e: "eval_id ?p = evalIdCntr s" "prpResponse ?p = b" by (simp_all add: ParamResponsePair_def eval_id_def)
  have "eval_id ?p \<notin> eval_id ` set ?q" using assms(2) by (auto simp: fresh_id_def outstanding_def e)
  then have q: "set (queue_insert ?p ?q) = insert ?p (set ?q)" by (simp add: queue.elems_ins)
  show o: "outstanding (s\<lparr>beforeSynchCorePRPQueue := queue_insert ?p ?q\<rparr>) = insert (evalIdCntr s) (outstanding s)"
    by (auto simp: outstanding_def q e)
  have "ids_ok (s\<lparr>beforeSynchCorePRPQueue := queue_insert ?p ?q\<rparr>)"
    using assms(1,2) queue.ok_ins [of ?q ?p] unfolding ids_ok_def app_ok_def o
    by (auto simp: fresh_id_def outstanding_def q e)
  moreover have "(j, t, b) \<notin> set (beforeSynchDuplicateMap s)" for j t
    using assms(4) by (force simp: stored_refs_def duplicate_refs_def)
  ultimately show "app_ok (s\<lparr>beforeSynchCorePRPQueue := queue_insert ?p ?q\<rparr>)"
    using assms unfolding app_ok_def by (auto simp: stored_refs_def duplicate_refs_def duplicate_ok_def q e)
qed


text \<open>A request that the response of the caller can hold.\<close>

definition request_fits :: "active_set \<Rightarrow> 'r::zero response \<Rightarrow> bool" where
  "request_fits st r \<longleftrightarrow> (\<exists>r'. set_active_set st r = Inr r' \<and> resp_ready r' \<and> responseActiveSet r' = st \<and> distinct (derivVarsVector st))"

lemma app_ok_new:
  assumes "app_ok s"
  shows "app_ok (s\<lparr>heap := (heap s)(nextRef s := r), nextRef := Suc (nextRef s)\<rparr>)"
    "outstanding (s\<lparr>heap := (heap s)(nextRef s := r), nextRef := Suc (nextRef s)\<rparr>) = outstanding s"
    "nextRef s \<notin> stored_refs (s\<lparr>heap := (heap s)(nextRef s := r), nextRef := Suc (nextRef s)\<rparr>)"
proof -
  let ?s' = "s\<lparr>heap := (heap s)(nextRef s := r), nextRef := Suc (nextRef s)\<rparr>"
  have lt: "\<forall>a \<in> stored_refs s. a < nextRef s" using assms by (simp add: app_ok_def)
  then have h: "\<forall>a \<in> stored_refs s. resp_at ?s' a = resp_at s a" by auto
  have f: "same_books s ?s'" "evalIdCntr s \<le> evalIdCntr ?s'" "nextRef s \<le> nextRef ?s'"
      "prpResponse ` set (data_pairs ?s') \<subseteq> prpResponse ` set (data_pairs s)"
    by (auto simp: same_books_def)
  note a = app_ok_frame [OF assms f h]
  show "app_ok ?s'" "outstanding ?s' = outstanding s" by (rule a)+
  show "nextRef s \<notin> stored_refs ?s'" using a(3) lt by blast
qed

text \<open>The books of the schedules, which a request does not touch.\<close>

definition same_schedule :: "('r, 'w) app_state \<Rightarrow> ('r, 'w) app_state \<Rightarrow> bool" where
  "same_schedule s s' \<longleftrightarrow> active s' = active s \<and> msgPassRunningMap s' = msgPassRunningMap s \<and> msgBuffers s' = msgBuffers s \<and>
     localServerAssigned s' = localServerAssigned s \<and> world s' = world s"

text \<open>What a submission leaves alone: the schedule, and the queued jobs with their responses.\<close>

definition submitted :: "int \<Rightarrow> ('r, 'w) app_state \<Rightarrow> ('r, 'w) app_state \<Rightarrow> bool" where
  "submitted i s s' \<longleftrightarrow> same_schedule s s' \<and> set (beforeSynchCorePRPQueue s) \<subseteq> set (beforeSynchCorePRPQueue s') \<and>
     (\<forall>p \<in> set (beforeSynchCorePRPQueue s'). p \<in> set (beforeSynchCorePRPQueue s) \<or> eval_id p = i) \<and>
     (\<forall>p \<in> set (beforeSynchCorePRPQueue s). resp_at s' (prpResponse p) = resp_at s (prpResponse p))"

lemma submitted_trans:
  assumes "submitted i s t" "submitted i t u"
  shows "submitted i s u"
proof -
  have "set (beforeSynchCorePRPQueue s) \<subseteq> set (beforeSynchCorePRPQueue t)" using assms(1) by (simp add: submitted_def)
  then have "resp_at u (prpResponse p) = resp_at s (prpResponse p)" if "p \<in> set (beforeSynchCorePRPQueue s)" for p
    using that assms unfolding submitted_def by (metis subsetD)
  then show ?thesis using assms by (auto simp: submitted_def same_schedule_def)
qed

lemma submitted_frame:
  assumes "same_schedule s s'" "same_books s s'" "\<forall>b \<in> stored_refs s. resp_at s' b = resp_at s b"
  shows "submitted i s s'"
  using assms by (auto simp: submitted_def same_books_def stored_refs_def)

lemma submitted_new:
  assumes "app_ok s"
  shows "submitted i s (s\<lparr>heap := (heap s)(nextRef s := r), nextRef := Suc (nextRef s)\<rparr>)"
proof -
  have "\<forall>a \<in> stored_refs s. a < nextRef s" using assms by (simp add: app_ok_def)
  then show ?thesis by (intro submitted_frame) (auto simp: same_schedule_def same_books_def)
qed

lemma duplication_detect_ok:
  assumes ok: "app_ok s" "fresh_id s" and a: "a < nextRef s" "a \<notin> stored_refs s" "resp_ready (resp_at s a)" "distinct (resp_dvv (resp_at s a))"
    and h: "\<forall>q. hash_contract (prp_index c) q"
  shows "\<exists>dup s'. duplication_detect c vars a True s = Inr (dup, s') \<and> app_ok s' \<and>
    (if dup then outstanding s' = insert (evalIdCntr s) (outstanding s) \<and> evalIdCntr s' = evalIdCntr s \<and>
       submitted (evalIdCntr s) s s' else s' = s)"
proof -
  let ?st = "responseActiveSet (resp_at s a)" and ?i = "evalIdCntr s"
  define hit where "hit = (if nearbyDuplicateDetect c
    then lookup_by_nearby_val (dbl_min c) (heap s) (data_pairs s) (interfaceId c) vars ?st (nearbyTolerance c)
    else lookup_by_val (heap s) (prp_index c) (data_pairs s) (interfaceId c) vars ?st)"
  have hit: "p \<in> set (data_pairs s) \<and> set_compare (heap s) p ?st" if "hit = Some p" for p
  proof (cases "nearbyDuplicateDetect c")
    case True
    then show ?thesis using that by (auto simp: hit_def lookup_by_nearby_val_def find_Some_iff dest: nth_mem)
  next
    case False
    then have "find (\<lambda>e. set_compare (heap s) e ?st)
        (hashed_equal_range (prp_index c) (data_pairs s) (ParamResponsePair_temp vars (interfaceId c) 0)) = Some p"
      using that by (simp add: hit_def lookup_by_val_def lookup_by_val_pr_def)
    from hashed_find_sound [OF this] h show ?thesis by simp
  qed
  show ?thesis
  proof (cases hit)
    case (Some p)
    then have p: "p \<in> set (data_pairs s)" "set_compare (heap s) p ?st" using hit by auto
    have "resp_ready (resp_at s (prpResponse p))" using ok(1) p(1) by (auto simp: app_ok_def)
    moreover have "set_covers (responseActiveSet (resp_at s (prpResponse p))) ?st"
      using set_compare_covers [OF p(2)] by (simp add: active_set_of_def)
    ultimately obtain r where r: "update (resp_at s (prpResponse p)) True (resp_at s a) = Inr r"
      using update_from_covering [OF a(3,4)] by blast
    define s2 where "s2 = (if eval_id p \<le> 0
        then (set_response a r s)\<lparr>data_pairs := cache_insert (set_eval_id ?i p) (cache_erase p (data_pairs s))\<rparr> else set_response a r s)"
    have "set (remove1 p (data_pairs s)) \<subseteq> set (data_pairs s)" by (rule set_remove1_subset)
    then have d: "prpResponse ` set (data_pairs s2) \<subseteq> prpResponse ` set (data_pairs s)"
      using p(1) by (auto simp: s2_def cache_erase_def set_eval_id_def set_response_def)
    have f: "same_books s s2" "evalIdCntr s2 = ?i" "nextRef s2 = nextRef s" "\<forall>b \<in> stored_refs s. resp_at s2 b = resp_at s b"
      using a(2) by (auto simp: s2_def same_books_def set_response_def)
    have k2: "app_ok s2" "outstanding s2 = outstanding s" using app_ok_frame [OF ok(1) f(1) _ _ d f(4)] f(2,3) by auto
    let ?s3 = "s2\<lparr>heap := (heap s2)(nextRef s2 := resp_at s2 a), nextRef := Suc (nextRef s2)\<rparr>"
    note k3 = app_ok_new [OF k2(1), of "resp_at s2 a"]
    have "fresh_id ?s3" using ok(2) k3(2) k2(2) f(2) by (simp add: fresh_id_def)
    note k4 = submit_history [OF k3(1) this, of "nextRef s"]
    have "duplication_detect c vars a True s =
        Inr (True, ?s3\<lparr>historyDuplicateMap := map_assign (evalIdCntr ?s3) (nextRef s2) (historyDuplicateMap ?s3)\<rparr>)"
      using Some r unfolding duplication_detect_def hit_def by (simp add: Let_def new_response_def s2_def set_response_def)
    moreover have "submitted ?i s ?s3"
    proof (rule submitted_trans)
      show "submitted ?i s s2"
        using f(1,4) by (intro submitted_frame) (simp_all add: same_schedule_def s2_def set_response_def)
    qed (rule submitted_new [OF k2(1)])
    ultimately show ?thesis using k4 f(2,3) k3(2) k2(2) by (auto simp: submitted_def same_schedule_def)
  next
    case None
    show ?thesis
    proof (cases "queue_lookup_by_val (heap s) (prp_index c) (beforeSynchCorePRPQueue s) (interfaceId c) vars ?st")
      case N: None
      then show ?thesis using None ok(1) unfolding duplication_detect_def hit_def
        by (intro exI [of _ False] exI [of _ s]) (simp add: Let_def)
    next
      case (Some p)
      then have p: "p \<in> set (beforeSynchCorePRPQueue s)" "set_compare (heap s) p ?st"
        using hashed_find_sound h unfolding queue_lookup_by_val_def by blast+
      let ?s1 = "s\<lparr>heap := (heap s)(nextRef s := resp_at s a), nextRef := Suc (nextRef s)\<rparr>"
      note k1 = app_ok_new [OF ok(1), of "resp_at s a"]
      have "prpResponse p \<in> stored_refs s" using p(1) by (simp add: stored_refs_def)
      then have pr: "prpResponse p \<noteq> nextRef s" using ok(1) unfolding app_ok_def by (metis less_irrefl)
      have "fresh_id ?s1" using ok(2) k1(2) by (simp add: fresh_id_def)
      note k2 = submit_duplicate [OF k1(1) this _ k1(3), of p]
      have "duplication_detect c vars a True s =
          Inr (True, ?s1\<lparr>beforeSynchDuplicateMap := map_assign (evalIdCntr ?s1) (eval_id p, nextRef s) (beforeSynchDuplicateMap ?s1)\<rparr>)"
        using None Some unfolding duplication_detect_def hit_def by (simp add: Let_def new_response_def)
      moreover have "submitted ?i s ?s1" by (rule submitted_new [OF ok(1)])
      ultimately show ?thesis
        using k2 k1(2) p pr a(3,4) set_compare_covers [OF p(2)] by (auto simp: active_set_of_def submitted_def same_schedule_def)
    qed
  qed
qed


lemma request_fits_ready:
  assumes "request_fits st r"
  shows "\<exists>r'. set_active_set st r = Inr r' \<and> resp_ready r' \<and> distinct (resp_dvv r')"
  using assms by (auto simp: request_fits_def resp_dvv_def)

definition simulations_only :: "('r, 'w) app_config \<Rightarrow> bool" where
  "simulations_only c \<longleftrightarrow> coreMappings c \<and> \<not> algebraicMappings c \<and> asvControlFlag c \<and> (\<forall>q. hash_contract (prp_index c) q)"

lemma count_evaluation_keeps:
  "app_ok (count_evaluation asv s) = app_ok s" "outstanding (count_evaluation asv s) = outstanding s"
  "evalIdCntr (count_evaluation asv s) = evalIdCntr s" "heap (count_evaluation asv s) = heap s" "nextRef (count_evaluation asv s) = nextRef s"
  "stored_refs (count_evaluation asv s) = stored_refs s" "submitted i s (count_evaluation asv s)"
  by (auto simp: count_evaluation_def init_evaluation_counters_def Let_def app_ok_def ids_ok_def outstanding_def stored_refs_def
      duplicate_refs_def duplicate_ok_def submitted_def same_schedule_def)

lemma count_new_evaluation_keeps:
  "app_ok (count_new_evaluation asv s) = app_ok s" "outstanding (count_new_evaluation asv s) = outstanding s"
  "evalIdCntr (count_new_evaluation asv s) = evalIdCntr s" "submitted i s (count_new_evaluation asv s)"
  by (auto simp: count_new_evaluation_def Let_def app_ok_def ids_ok_def outstanding_def stored_refs_def
      duplicate_refs_def duplicate_ok_def submitted_def same_schedule_def)

lemma core_evaluation_asynch_ok:
  assumes ok: "app_ok s" "fresh_id s" and c: "simulations_only c"
    and a: "a < nextRef s" "a \<notin> stored_refs s" "resp_ready (resp_at s a)" "distinct (resp_dvv (resp_at s a))"
  shows "\<exists>dup s'. core_evaluation fuel c vars n st a True s = Inr (dup, s') \<and> app_ok s' \<and>
    outstanding s' = insert (evalIdCntr s) (outstanding s) \<and> evalIdCntr s' = evalIdCntr s \<and> submitted (evalIdCntr s) s s'"
proof -
  have h: "\<forall>q. hash_contract (prp_index c) q" using c by (simp add: simulations_only_def)
  have "\<exists>dup s1. (if evalCacheFlag c then duplication_detect c vars a True s else Inr (False, s)) = Inr (dup, s1) \<and> app_ok s1 \<and>
      (if dup then outstanding s1 = insert (evalIdCntr s) (outstanding s) \<and> evalIdCntr s1 = evalIdCntr s \<and> submitted (evalIdCntr s) s s1 else s1 = s)"
    using duplication_detect_ok [OF ok a h, of vars] ok(1) by (cases "evalCacheFlag c") auto
  then obtain dup s1 where d: "(if evalCacheFlag c then duplication_detect c vars a True s else Inr (False, s)) = Inr (dup, s1)" "app_ok s1"
      "if dup then outstanding s1 = insert (evalIdCntr s) (outstanding s) \<and> evalIdCntr s1 = evalIdCntr s \<and> submitted (evalIdCntr s) s s1 else s1 = s"
    by blast
  let ?s2 = "s\<lparr>heap := (heap s)(nextRef s := resp_at s a), nextRef := Suc (nextRef s)\<rparr>"
  let ?p = "ParamResponsePair vars (interfaceId c) (nextRef s) (evalIdCntr s)"
  let ?s3 = "?s2\<lparr>beforeSynchCorePRPQueue := queue_insert ?p (beforeSynchCorePRPQueue s)\<rparr>"
  note k2 = app_ok_new [OF ok(1), of "resp_at s a"]
  have "fresh_id ?s2" using ok(2) k2(2) by (simp add: fresh_id_def)
  note k3 = submit_queue [OF k2(1) this _ k2(3), of vars "interfaceId c"]
  have k: "app_ok ?s3" "outstanding ?s3 = insert (evalIdCntr s) (outstanding s)" using k3 k2(2) a(3) by auto
  have n: "new_evaluation fuel c vars n st a True s = Inr ?s3"
    using c by (simp add: new_evaluation_def simulations_only_def new_response_def)
  show ?thesis
  proof (cases dup)
    case True
    then show ?thesis using d by (auto simp: core_evaluation_def)
  next
    case False
    have "submitted (evalIdCntr s) s ?s3"
    proof -
      have "eval_id ?p \<notin> eval_id ` set (beforeSynchCorePRPQueue s)"
        using ok(2) by (auto simp: fresh_id_def outstanding_def ParamResponsePair_def eval_id_def)
      then have "set (queue_insert ?p (beforeSynchCorePRPQueue s)) = insert ?p (set (beforeSynchCorePRPQueue s))"
        by (simp add: queue.elems_ins)
      then show ?thesis using submitted_new [OF ok(1), of "evalIdCntr s" "resp_at s a"]
        by (auto simp: submitted_def same_schedule_def ParamResponsePair_def eval_id_def)
    qed
    then show ?thesis using False d(1,3) n k by (auto simp: core_evaluation_def)
  qed
qed

lemma map_asynch_ok:
  assumes ok: "app_ok s" and c: "simulations_only c" and a: "a < nextRef s" "a \<notin> stored_refs s" "request_fits st (resp_at s a)"
  shows "\<exists>s'. map_evaluation fuel c vars st a True s = Inr s' \<and> app_ok s' \<and> evalIdCntr s' = evalIdCntr s + 1 \<and>
    outstanding s' = insert (evalIdCntr s + 1) (outstanding s) \<and> submitted (evalIdCntr s + 1) s s'"
proof -
  let ?s0 = "s\<lparr>evalIdCntr := evalIdCntr s + 1\<rparr>" and ?asv = "requestVector st"
  obtain r where r: "set_active_set st (resp_at s a) = Inr r" "resp_ready r" "distinct (resp_dvv r)"
    using request_fits_ready [OF a(3)] by blast
  have f0: "same_books s ?s0" "evalIdCntr s \<le> evalIdCntr ?s0" "nextRef s \<le> nextRef ?s0"
      "prpResponse ` set (data_pairs ?s0) \<subseteq> prpResponse ` set (data_pairs s)" "\<forall>a \<in> stored_refs s. resp_at ?s0 a = resp_at s a"
    by (auto simp: same_books_def)
  note k0 = app_ok_frame [OF ok f0]
  let ?s1 = "count_evaluation ?asv ?s0"
  define s2 where "s2 = set_response a r ?s1"
  have a1: "a \<notin> stored_refs ?s1" using k0(3) a(2) count_evaluation_keeps(6) by blast
  have f2: "same_books ?s1 s2" "evalIdCntr ?s1 \<le> evalIdCntr s2" "nextRef ?s1 \<le> nextRef s2"
      "prpResponse ` set (data_pairs s2) \<subseteq> prpResponse ` set (data_pairs ?s1)" "\<forall>b \<in> stored_refs ?s1. resp_at s2 b = resp_at ?s1 b"
    using a1 by (auto simp: same_books_def set_response_def s2_def)
  have "app_ok ?s1" using k0(1) by (simp add: count_evaluation_keeps)
  note k2 = app_ok_frame [OF this f2]
  have e2: "evalIdCntr s2 = evalIdCntr s + 1" "nextRef s2 = nextRef s" "outstanding s2 = outstanding s" "resp_at s2 a = r"
    using k2(2) k0(2) by (simp_all add: set_response_def count_evaluation_keeps s2_def)
  have fr: "fresh_id s2" using ok e2(1,3) by (auto simp: fresh_id_def app_ok_def ids_ok_def)
  have a2: "a < nextRef s2" "a \<notin> stored_refs s2" using a(1) e2(2) k2(3) a1 by auto
  obtain dup s3 where s3: "core_evaluation fuel c vars (length ?asv) st a True s2 = Inr (dup, s3)" "app_ok s3"
      "outstanding s3 = insert (evalIdCntr s + 1) (outstanding s)" "evalIdCntr s3 = evalIdCntr s + 1" "submitted (evalIdCntr s + 1) s2 s3"
    using core_evaluation_asynch_ok [OF k2(1) fr c a2, of fuel vars "length ?asv" st] r(2,3) e2 by auto
  let ?s4 = "if dup then s3 else count_new_evaluation ?asv s3"
  have "map_evaluation fuel c vars st a True s = Inr ?s4"
    using r(1) s3(1) c by (simp add: map_evaluation_def Let_def count_evaluation_keeps split_request_def simulations_only_def s2_def)
  moreover have "app_ok ?s4" "evalIdCntr ?s4 = evalIdCntr s + 1" "outstanding ?s4 = insert (evalIdCntr s + 1) (outstanding s)"
    using s3 by (simp_all add: count_new_evaluation_keeps)
  moreover have "submitted (evalIdCntr s + 1) s ?s4"
  proof -
    let ?i = "evalIdCntr s + 1"
    have "submitted ?i s ?s0" using f0(1,5) by (intro submitted_frame) (simp_all add: same_schedule_def)
    moreover have "submitted ?i ?s1 s2"
      using f2(1,5) by (intro submitted_frame) (simp_all add: same_schedule_def s2_def set_response_def)
    ultimately have "submitted ?i s s3"
      using count_evaluation_keeps(7) [of ?i ?s0 ?asv] s3(5) submitted_trans by blast
    then show ?thesis using count_new_evaluation_keeps(4) [of ?i s3 ?asv] submitted_trans by auto
  qed
  ultimately show ?thesis by blast
qed

section \<open>Answering duplicates\<close>

text \<open>The response \<open>b\<close> of a duplicate carries the requested data of the pair \<open>p\<close>.\<close>

definition answered :: "('r, 'w) app_state \<Rightarrow> 'r prp \<Rightarrow> rref \<Rightarrow> bool" where
  "answered s p b \<longleftrightarrow> (\<forall>i < length (resp_asv (resp_at s b)). agrees_where_requested (resp_at s b) (resp_at s (prpResponse p)) i)"

lemma duplicate_update:
  assumes "duplicate_ok s (i, t, b)" "queue_ok (beforeSynchCorePRPQueue s)" "all_ready (beforeSynchCorePRPQueue s) s"
  shows "\<exists>p r. p \<in> set (beforeSynchCorePRPQueue s) \<and> eval_id p = t \<and> lookup_by_eval_id t (beforeSynchCorePRPQueue s) = Some p \<and>
    update (resp_at s (prpResponse p)) True (resp_at s b) = Inr r \<and> resp_ready r \<and> b \<noteq> prpResponse p \<and>
    (\<forall>i < length (resp_asv r). agrees_where_requested r (resp_at s (prpResponse p)) i)"
proof -
  obtain p where p: "p \<in> set (beforeSynchCorePRPQueue s)" "eval_id p = t"
      "set_covers (responseActiveSet (resp_at s (prpResponse p))) (responseActiveSet (resp_at s b))"
    and b: "b \<notin> prpResponse ` set (beforeSynchCorePRPQueue s)" "resp_ready (resp_at s b)" "distinct (resp_dvv (resp_at s b))"
    using assms(1) by (auto simp: duplicate_ok_def)
  have "resp_ready (resp_at s (prpResponse p))" using assms(3) p(1) by (simp add: all_ready_def)
  from update_from_covering [OF b(2,3) this p(3), of True] obtain r where
      "update (resp_at s (prpResponse p)) True (resp_at s b) = Inr r" "resp_ready r" "responseActiveSet r = responseActiveSet (resp_at s b)"
      "\<forall>i < length (resp_asv (resp_at s b)). agrees_where_requested r (resp_at s (prpResponse p)) i" by blast
  moreover from this have "resp_asv r = resp_asv (resp_at s b)" by (simp add: resp_asv_def)
  ultimately show ?thesis using p(1,2) b(1) queue.look_iff [OF assms(2)] by (intro exI [of _ p] exI [of _ r]) auto
qed

text \<open>What a pass over duplicates leaves of the state.\<close>

definition duplicates_done :: "(int \<times> int \<times> rref) list \<Rightarrow> ('r, 'w) app_state \<Rightarrow> ('r, 'w) app_state \<Rightarrow> bool" where
  "duplicates_done es s s' \<longleftrightarrow> (\<exists>R h. s' = s\<lparr>heap := h, rawResponseMap := R\<rparr>) \<and>
     (\<forall>i. map_of (rawResponseMap s') i = (case map_of es i of None \<Rightarrow> map_of (rawResponseMap s) i | Some (t, b) \<Rightarrow> Some b)) \<and>
     (\<forall>x. x \<notin> (\<lambda>e. snd (snd e)) ` set es \<longrightarrow> resp_at s' x = resp_at s x) \<and>
     (\<forall>x. resp_ready (resp_at s x) \<longrightarrow> resp_ready (resp_at s' x)) \<and>
     (\<forall>(i, t, b) \<in> set es. \<forall>p \<in> set (beforeSynchCorePRPQueue s). eval_id p = t \<longrightarrow> answered s' p b)"

lemma duplicates_done_Nil: "duplicates_done [] s s"
proof -
  have "s = s\<lparr>heap := heap s, rawResponseMap := rawResponseMap s\<rparr>" by simp
  then show ?thesis unfolding duplicates_done_def by (intro conjI) (blast | simp)+
qed

lemma duplicates_done_Cons:
  assumes e: "duplicate_ok s (i, t, b)" and p: "p \<in> set (beforeSynchCorePRPQueue s)" "eval_id p = t" "queue_ok (beforeSynchCorePRPQueue s)"
    and r: "resp_ready r" "\<forall>i < length (resp_asv r). agrees_where_requested r (resp_at s (prpResponse p)) i"
    and k: "i \<notin> fst ` set es" "b \<notin> (\<lambda>e. snd (snd e)) ` set es" "\<forall>e \<in> set es. duplicate_ok s e"
    and d: "duplicates_done es (set_response b r (s\<lparr>rawResponseMap := map_assign i b (rawResponseMap s)\<rparr>)) s'"
  shows "duplicates_done ((i, t, b) # es) s s'"
proof -
  let ?s1 = "set_response b r (s\<lparr>rawResponseMap := map_assign i b (rawResponseMap s)\<rparr>)"
  have q: "b \<notin> prpResponse ` set (beforeSynchCorePRPQueue s)" using e by (simp add: duplicate_ok_def)
  have es: "snd (snd x) \<notin> prpResponse ` set (beforeSynchCorePRPQueue s)" if "x \<in> set es" for x
    using k(3) that by (force simp: duplicate_ok_def)
  have "map_of es i = None" using k(1) by (simp add: map_of_eq_None_iff)
  moreover have "answered s' p' b" if "p' \<in> set (beforeSynchCorePRPQueue s)" "eval_id p' = t" for p'
  proof -
    have "p' = p" using queue.unique [OF p(3)] that p(1,2) by blast
    moreover have "resp_at s' b = r" using d k(2) by (simp add: duplicates_done_def set_response_def)
    moreover have "resp_at s' (prpResponse p) = resp_at s (prpResponse p)"
    proof -
      have "prpResponse p \<notin> (\<lambda>e. snd (snd e)) ` set es" using es p(1) by force
      moreover have "prpResponse p \<noteq> b" using q p(1) by force
      ultimately show ?thesis using d by (simp add: duplicates_done_def set_response_def)
    qed
    ultimately show ?thesis using r(2) by (simp add: answered_def)
  qed
  ultimately show ?thesis
    using d r(1) unfolding duplicates_done_def by (auto simp: set_response_def split: option.splits)
qed

lemma duplicate_ok_step:
  assumes "duplicate_ok s (j, t', b')" "b' \<noteq> b" "b \<notin> prpResponse ` set (beforeSynchCorePRPQueue s)"
  shows "duplicate_ok (set_response b r (s\<lparr>rawResponseMap := R\<rparr>)) (j, t', b')"
proof -
  have "resp_at (set_response b r (s\<lparr>rawResponseMap := R\<rparr>)) (prpResponse p) = resp_at s (prpResponse p)"
    if "p \<in> set (beforeSynchCorePRPQueue s)" for p
    using that assms(3) by (auto simp: set_response_def)
  then show ?thesis using assms(1,2) by (auto simp: duplicate_ok_def set_response_def)
qed

lemma finish_duplicates_ok:
  assumes "\<forall>e \<in> set es. duplicate_ok s e" "distinct (map fst es)" "distinct (map (\<lambda>e. snd (snd e)) es)"
    and "queue_ok (beforeSynchCorePRPQueue s)" "all_ready (beforeSynchCorePRPQueue s) s"
  shows "\<exists>s'. rfold finish_duplicate es s = Inr s' \<and> duplicates_done es s s'"
  using assms
proof (induction es arbitrary: s)
  case Nil
  then show ?case by (simp add: duplicates_done_Nil)
next
  case (Cons e es)
  obtain i t b where e: "e = (i, t, b)" by (metis prod_cases3)
  have d: "duplicate_ok s (i, t, b)" using Cons.prems(1) e by simp
  obtain p r where p: "p \<in> set (beforeSynchCorePRPQueue s)" "eval_id p = t" "lookup_by_eval_id t (beforeSynchCorePRPQueue s) = Some p"
      "update (resp_at s (prpResponse p)) True (resp_at s b) = Inr r" "resp_ready r"
      "\<forall>i < length (resp_asv r). agrees_where_requested r (resp_at s (prpResponse p)) i"
    using duplicate_update [OF d Cons.prems(4,5)] by blast
  let ?s1 = "set_response b r (s\<lparr>rawResponseMap := map_assign i b (rawResponseMap s)\<rparr>)"
  have bq: "b \<notin> prpResponse ` set (beforeSynchCorePRPQueue s)" using d by (simp add: duplicate_ok_def)
  have k: "i \<notin> fst ` set es" "b \<notin> (\<lambda>e. snd (snd e)) ` set es" using Cons.prems(2,3) e by auto
  have "duplicate_ok ?s1 e'" if e': "e' \<in> set es" for e'
  proof -
    obtain j t' b' where "e' = (j, t', b')" by (metis prod_cases3)
    moreover from this have "b' \<noteq> b" using k(2) e' by force
    ultimately show ?thesis using duplicate_ok_step [OF _ _ bq] Cons.prems(1) e' by simp
  qed
  moreover have "all_ready (beforeSynchCorePRPQueue ?s1) ?s1"
    using Cons.prems(5) p(5) by (auto simp: all_ready_def set_response_def)
  ultimately obtain s' where s': "rfold finish_duplicate es ?s1 = Inr s'" "duplicates_done es ?s1 s'"
    using Cons.IH [of ?s1] Cons.prems(2-4) by (auto simp: set_response_def)
  have "duplicates_done ((i, t, b) # es) s s'"
    by (rule duplicates_done_Cons [OF d p(1,2) Cons.prems(4) p(5,6) k _ s'(2)]) (use Cons.prems(1) in simp)
  moreover have "finish_duplicate e s = Inr ?s1" using p(3,4) by (simp add: e finish_duplicate_def)
  ultimately show ?case using s'(1) by (simp add: e)
qed


lemma duplicate_lookup:
  assumes "duplicate_ok s (i, t, b)"
  shows "\<exists>p. lookup_by_eval_id t (beforeSynchCorePRPQueue s) = Some p \<and> eval_id p = t"
  using assms queue.look_present [of t "beforeSynchCorePRPQueue s"] by (auto simp: duplicate_ok_def)

text \<open>The nonblocking variant finishes the duplicates whose original is completed.\<close>

lemma test_duplicate_eq:
  assumes "lookup_by_eval_id t (beforeSynchCorePRPQueue s) = Some p" "eval_id p = t"
  shows "test_duplicate (i, t, b) s = (if map_of (rawResponseMap s) t \<noteq> None then finish_duplicate (i, t, b) s else Inr s)"
proof -
  have "(set_response b r s)\<lparr>rawResponseMap := R\<rparr> = set_response b r (s\<lparr>rawResponseMap := R\<rparr>)"
    "rawResponseMap (set_response b r s) = rawResponseMap s" for r R by (simp_all add: set_response_def)
  then show ?thesis using assms by (simp add: test_duplicate_def finish_duplicate_def Let_def)
qed

lemma finish_duplicate_keeps:
  "finish_duplicate e s = Inr s' \<Longrightarrow> beforeSynchCorePRPQueue s' = beforeSynchCorePRPQueue s \<and>
    (j \<noteq> fst e \<longrightarrow> map_of (rawResponseMap s') j = map_of (rawResponseMap s) j)"
  by (auto simp: finish_duplicate_def set_response_def rbind_Inr_iff split: prod.splits option.splits)

lemma test_duplicates_eq:
  assumes "\<forall>(i, t, b) \<in> set es. lookup_by_eval_id t q \<noteq> None" "\<forall>e \<in> set es. fst e \<notin> T" "\<forall>(i, t, b) \<in> set es. t \<in> T"
    and "beforeSynchCorePRPQueue s = q" "\<forall>t \<in> T. map_of (rawResponseMap s) t \<noteq> None \<longleftrightarrow> D t"
  shows "rfold test_duplicate es s = rfold finish_duplicate (filter (\<lambda>(i, t, b). D t) es) s"
  using assms
proof (induction es arbitrary: s)
  case (Cons e es)
  obtain i t b where e: "e = (i, t, b)" by (metis prod_cases3)
  obtain p where "lookup_by_eval_id t (beforeSynchCorePRPQueue s) = Some p" using Cons.prems(1,4) e by auto
  moreover from this have "eval_id p = t" using queue.look_sound by blast
  ultimately have s: "test_duplicate e s = (if D t then finish_duplicate e s else Inr s)"
    using test_duplicate_eq [of t s p i b] Cons.prems(3,5) e by simp
  show ?case
  proof (cases "D t")
    case False
    then show ?thesis using Cons s by (simp add: e)
  next
    case True
    show ?thesis
    proof (cases "finish_duplicate e s")
      case (Inl err)
      then show ?thesis using s True by (simp add: e)
    next
      case (Inr s1)
      note k = finish_duplicate_keeps [OF Inr]
      have "\<forall>t \<in> T. map_of (rawResponseMap s1) t \<noteq> None \<longleftrightarrow> D t"
      proof
        fix t assume t: "t \<in> T"
        then have "t \<noteq> fst e" using Cons.prems(2) by auto
        then show "map_of (rawResponseMap s1) t \<noteq> None \<longleftrightarrow> D t" using k Cons.prems(5) t by simp
      qed
      then have "rfold test_duplicate es s1 = rfold finish_duplicate (filter (\<lambda>(i, t, b). D t) es) s1"
        using Cons.prems(1-4) k by (intro Cons.IH) auto
      then show ?thesis using s True Inr by (simp add: e)
    qed
  qed
qed simp

section \<open>Schedules as one interface\<close>

definition schedule_pre ::
    "nat \<Rightarrow> ('r, 'w) app_config \<Rightarrow> ('w \<Rightarrow> nat) \<Rightarrow> 'r prp list \<Rightarrow> ('r::zero, 'w) app_state \<Rightarrow> bool" where
  "schedule_pre fuel c togo q s \<longleftrightarrow> beforeSynchCorePRPQueue s = q \<and>
    (if ieMessagePass c then
       if ieDedMasterFlag c then
         servers_positive c \<and> waitsome_contract c \<and> waitall_contract c \<and> remote_pre q s \<and> length q \<le> fuel
       else if static_peers c then servers_positive c \<and> waitall_contract c \<and> local_pre fuel c q s \<and> remote_pre q s
       else dynamic_pre c q s \<and> polls_progress c togo \<and> enough_polls fuel c s
     else servers_exist c \<and> wait_contract c \<and> active s = [] \<and> length q \<le> fuel)"

text \<open>Whatever the configuration selects is a blocking scheduler.\<close>

interpretation any_schedule: blocking_scheduler "\<lambda>q. blocking_schedule fuel c" "schedule_pre fuel c togo"
  for fuel and c :: "('r::{zero, one, plus, minus, inverse, abs, ord}, 'w) app_config" and togo
proof
  fix q :: "'r prp list" and s :: "('r, 'w) app_state"
  assume "schedule_pre fuel c togo q s" "queue_ok q" "\<forall>p \<in> set q. map_of (rawResponseMap s) (eval_id p) = None"
  then show "\<exists>s'. blocking_schedule fuel c s = Inr s' \<and> active s' = active s \<and> sched_frame q s s' \<and>
      (\<forall>p \<in> set q. map_of (rawResponseMap s') (eval_id p) = Some (prpResponse p))"
    using master_dynamic.completes [of c q s fuel] peer_static.completes [of c fuel q s]
      peer_dynamic.completes [of c q s togo fuel] asynch_local.completes [of c s q fuel]
    unfolding schedule_pre_def blocking_schedule_def by (auto split: if_splits)
qed

section \<open>Blocking synchronization\<close>

lemma collect_answers:
  assumes "ids_ok s"
  shows "\<exists>R. take_history (take_cached (s\<lparr>rawResponseMap := []\<rparr>)) =
      s\<lparr>rawResponseMap := R, historyDuplicateMap := [], cachedResponseMap := []\<rparr> \<and>
    map_of R = map_of (historyDuplicateMap s) ++ map_of (cachedResponseMap s)"
proof -
  let ?R = "if historyDuplicateMap s = [] then cachedResponseMap s else if cachedResponseMap s = [] then historyDuplicateMap s
      else map_insert_range (historyDuplicateMap s) (cachedResponseMap s)"
  have "take_history (take_cached (s\<lparr>rawResponseMap := []\<rparr>)) =
      s\<lparr>rawResponseMap := ?R, historyDuplicateMap := [], cachedResponseMap := []\<rparr>"
    by (simp add: take_history_def take_cached_def)
  moreover have "map_of ?R = map_of (historyDuplicateMap s) ++ map_of (cachedResponseMap s)" by simp
  ultimately show ?thesis by blast
qed

lemma synchronize_ok:
  assumes ok: "app_ok s" and c: "simulations_only c"
    and pre: "\<And>R. beforeSynchCorePRPQueue s \<noteq> [] \<Longrightarrow>
      schedule_pre fuel c togo (beforeSynchCorePRPQueue s) (s\<lparr>rawResponseMap := R, historyDuplicateMap := [], cachedResponseMap := []\<rparr>)"
  shows "\<exists>s'. synchronize fuel c s = Inr s' \<and> app_ok s' \<and> outstanding s' = {} \<and> evalIdCntr s' = evalIdCntr s \<and>
    fst ` set (rawResponseMap s') = outstanding s \<and>
    (\<forall>p \<in> set (beforeSynchCorePRPQueue s). map_of (rawResponseMap s') (eval_id p) = Some (prpResponse p)) \<and>
    (\<forall>(i, t, b) \<in> set (beforeSynchDuplicateMap s). map_of (rawResponseMap s') i = Some b \<and>
      (\<forall>p \<in> set (beforeSynchCorePRPQueue s). eval_id p = t \<longrightarrow> answered s' p b))"
proof -
  let ?Q = "beforeSynchCorePRPQueue s" and ?H = "historyDuplicateMap s" and ?D = "beforeSynchDuplicateMap s" and ?C = "cachedResponseMap s"
  have ids: "ids_ok s" "queue_ok ?Q" "distinct (map fst ?D)" using ok by (auto simp: app_ok_def ids_ok_def omap_distinct)
  obtain R where R: "take_history (take_cached (s\<lparr>rawResponseMap := []\<rparr>)) = s\<lparr>rawResponseMap := R, historyDuplicateMap := [], cachedResponseMap := []\<rparr>"
      "map_of R = map_of ?H ++ map_of ?C" using collect_answers [OF ids(1)] by blast
  define s1 where "s1 = s\<lparr>rawResponseMap := R, historyDuplicateMap := [], cachedResponseMap := []\<rparr>"
  have domR: "dom (map_of R) = fst ` set ?H \<union> fst ` set ?C" unfolding R(2) dom_map_add dom_map_of by auto
  have n1: "\<forall>p \<in> set ?Q. map_of (rawResponseMap s1) (eval_id p) = None"
  proof
    fix p assume "p \<in> set ?Q"
    then have "eval_id p \<in> eval_id ` set ?Q" by simp
    moreover have "eval_id ` set ?Q \<inter> (fst ` set ?H \<union> fst ` set ?D \<union> fst ` set ?C) = {}" using ids(1) unfolding ids_ok_def by (elim conjE)
    ultimately have "eval_id p \<notin> dom (map_of R)" unfolding domR by blast
    then show "map_of (rawResponseMap s1) (eval_id p) = None" by (simp add: s1_def domIff)
  qed
  have "\<exists>s2. (if coreMappings c \<and> ?Q \<noteq> [] then blocking_schedule fuel c s1 else Inr s1) = Inr s2 \<and> sched_frame ?Q s1 s2 \<and>
      (\<forall>p \<in> set ?Q. map_of (rawResponseMap s2) (eval_id p) = Some (prpResponse p))"
  proof (cases "?Q = []")
    case False
    then show ?thesis using any_schedule.completes [OF pre [OF False, of R, folded s1_def] ids(2) n1] c by (auto simp: simulations_only_def)
  qed simp
  then obtain s2 where s2: "(if coreMappings c \<and> ?Q \<noteq> [] then blocking_schedule fuel c s1 else Inr s1) = Inr s2" "sched_frame ?Q s1 s2"
      "\<forall>p \<in> set ?Q. map_of (rawResponseMap s2) (eval_id p) = Some (prpResponse p)" by blast
  have f2: "beforeSynchCorePRPQueue s2 = ?Q" "beforeSynchDuplicateMap s2 = ?D" "historyDuplicateMap s2 = []" "cachedResponseMap s2 = []"
      "evalIdCntr s2 = evalIdCntr s" "nextRef s2 = nextRef s"
    using s2(2) by (simp_all add: sched_frame_def s1_def)
  have h2: "\<forall>a. a \<notin> prpResponse ` set ?Q \<longrightarrow> resp_at s2 a = resp_at s a"
      "\<forall>a. responseActiveSet (resp_at s2 a) = responseActiveSet (resp_at s a)" "\<forall>a. resp_ready (resp_at s a) \<longrightarrow> resp_ready (resp_at s2 a)"
      "set (data_pairs s2) \<subseteq> set (data_pairs s) \<union> set ?Q"
    using s2(2) by (simp_all add: sched_frame_def s1_def)
  have rd2: "all_ready (beforeSynchCorePRPQueue s2) s2" using ok h2(3) f2(1) by (simp add: app_ok_def all_ready_def)
  have "\<forall>e \<in> set ?D. duplicate_ok s2 e"
  proof
    fix e assume "e \<in> set ?D"
    then have "duplicate_ok s e" using ok by (simp add: app_ok_def)
    then show "duplicate_ok s2 e" using h2(1,2) f2(1) by (auto simp: duplicate_ok_def)
  qed
  then obtain s3 where s3: "rfold finish_duplicate ?D s2 = Inr s3" "duplicates_done ?D s2 s3"
    using finish_duplicates_ok [of ?D s2] ids(2,3) ok rd2 f2(1) by (auto simp: app_ok_def)
  let ?s' = "s3\<lparr>beforeSynchDuplicateMap := [], beforeSynchCorePRPQueue := []\<rparr>"
  obtain R3 h3 where e3: "s3 = s2\<lparr>heap := h3, rawResponseMap := R3\<rparr>" using s3(2) unfolding duplicates_done_def by blast
  have run: "synchronize fuel c s = Inr ?s'"
  proof -
    have q1: "beforeSynchCorePRPQueue s1 = ?Q" by (simp add: s1_def)
    have "synchronize fuel c s = rbind (if coreMappings c \<and> ?Q \<noteq> [] then blocking_schedule fuel c s1 else Inr s1) (\<lambda>s2.
        rbind (if length ?D \<noteq> 0 then rbind (rfold finish_duplicate (beforeSynchDuplicateMap s2) s2)
            (\<lambda>s3. Inr (s3\<lparr>beforeSynchDuplicateMap := []\<rparr>)) else Inr s2) (\<lambda>s3. Inr (s3\<lparr>beforeSynchCorePRPQueue := []\<rparr>)))"
      unfolding synchronize_def Let_def R(1) s1_def [symmetric] q1 using c by (simp add: simulations_only_def)
    then have e: "synchronize fuel c s = rbind (if length ?D \<noteq> 0 then Inr (s3\<lparr>beforeSynchDuplicateMap := []\<rparr>) else Inr s2)
        (\<lambda>s3. Inr (s3\<lparr>beforeSynchCorePRPQueue := []\<rparr>))"
      unfolding s2(1) rbind.simps f2(2) s3(1) .
    have "s2\<lparr>beforeSynchCorePRPQueue := []\<rparr> = ?s'" if "?D = []"
      by (rule app_state.equality) (use s3(1) that f2(2) in simp_all)
    then show ?thesis unfolding e by (cases "?D = []") simp_all
  qed
  have raw: "map_of (rawResponseMap s3) i = (case map_of ?D i of None \<Rightarrow> map_of (rawResponseMap s2) i | Some (t, b) \<Rightarrow> Some b)" for i
    using s3(2) by (simp add: duplicates_done_def)
  have raw2: "dom (map_of (rawResponseMap s2)) = eval_id ` set ?Q \<union> fst ` set ?H \<union> fst ` set ?C"
  proof -
    have "i \<in> dom (map_of (rawResponseMap s2)) \<longleftrightarrow> i \<in> eval_id ` set ?Q \<union> dom (map_of R)" for i
      using s2(2,3) by (cases "i \<in> eval_id ` set ?Q") (force simp: sched_frame_def s1_def domIff)+
    then show ?thesis using domR by blast
  qed
  have "dom (map_of (rawResponseMap ?s')) = dom (map_of (rawResponseMap s2)) \<union> dom (map_of ?D)"
    by (auto simp: raw dom_def split: option.splits)
  then have dom: "fst ` set (rawResponseMap ?s') = outstanding s" using raw2 unfolding dom_map_of outstanding_def by auto
  have "map_of ?D (eval_id p) = None" if "p \<in> set ?Q" for p
    using ids(1) that by (auto simp: ids_ok_def map_of_eq_None_iff)
  then have own: "\<forall>p \<in> set ?Q. map_of (rawResponseMap ?s') (eval_id p) = Some (prpResponse p)" using raw s2(3) by simp
  have dup: "map_of (rawResponseMap ?s') i = Some b \<and> (\<forall>p \<in> set ?Q. eval_id p = t \<longrightarrow> answered ?s' p b)"
    if "(i, t, b) \<in> set ?D" for i t b
  proof -
    have "map_of ?D i = Some (t, b)" using that ids(3) by simp
    then show ?thesis using raw s3(2) that f2(1) by (fastforce simp: duplicates_done_def answered_def)
  qed
  have out: "outstanding ?s' = {}" using f2 by (simp add: outstanding_def e3)
  have "app_ok ?s'"
  proof -
    have i: "ids_ok ?s'" using ok f2 out by (simp add: app_ok_def ids_ok_def e3 queue_ok_Nil)
    have lt: "prpResponse p < nextRef s \<and> resp_ready (resp_at s (prpResponse p))" if "p \<in> set (data_pairs s) \<union> set ?Q" for p
      using ok that by (auto simp: app_ok_def stored_refs_def)
    have "prpResponse p < nextRef ?s' \<and> resp_ready (resp_at ?s' (prpResponse p))" if "p \<in> set (data_pairs ?s')" for p
      using lt [of p] that h2(3,4) s3(2) f2(6) by (auto simp: e3 duplicates_done_def)
    then show ?thesis using i f2 by (auto simp: app_ok_def stored_refs_def duplicate_refs_def e3)
  qed
  then show ?thesis using run out dom own dup f2(5) by (intro exI [of _ ?s']) (auto simp: e3)
qed

end
