(* ===== verification/Peer_Nowait.thy ===== *)
theory Peer_Nowait
  imports Message_Nowait
begin

text \<open>
  Safety of the nonblocking dynamic schedule among peers (\<^verbatim>\<open>peer_dynamic_schedule_evaluations_nowait\<close>).
  The first peer runs jobs itself and keeps a block of buffers for each other peer.  A call fills the gaps of both
  kinds, the local jobs by way of a queue that is launched at the end, and then polls and replaces what completed.
  No job is passed over: while one of the two kinds has room, the least loaded peer finds a buffer or the
  first peer takes the job.
\<close>

section \<open>Free buffers\<close>

lemma remote_capacity_product:
  assumes "1 \<le> asynchLocalEvalConcurrency c"
  shows "local_capacity_of c = asynchLocalEvalConcurrency c"
    "remote_capacity_of c = (numEvalServers c - 1) * asynchLocalEvalConcurrency c"
  using assms by (simp_all add: local_capacity_of_def remote_capacity_of_def capacity_product diff_mult_distrib)

text \<open>The buffers of the jobs of one server.\<close>

lemma load_block:
  assumes l: "loads_ok n conc jobs s" and k: "k < n" and c: "0 < conc"
  shows "set (jobs ! k) \<subseteq> {k * conc..<Suc k * conc}" "length (jobs ! k) \<le> conc"
proof -
  show sub: "set (jobs ! k) \<subseteq> {k * conc..<Suc k * conc}"
  proof
    fix b assume "b \<in> set (jobs ! k)"
    then have "b div conc = k" using l k by (auto simp: loads_ok_def)
    then show "b \<in> {k * conc..<Suc k * conc}" using c by (auto simp: dividend_less_div_times add.commute)
  qed
  have "length (jobs ! k) = card (set (jobs ! k))" using l k by (simp add: loads_ok_def distinct_card)
  also have "\<dots> \<le> card {k * conc..<Suc k * conc}" by (intro card_mono sub) simp
  finally show "length (jobs ! k) \<le> conc" by simp
qed

lemma load_free:
  assumes l: "loads_ok n conc jobs s" and k: "k < n" and less: "length (jobs ! k) < conc"
  shows "\<exists>b < n * conc. tag_at s b = None"
proof -
  have "\<not> {k * conc..<Suc k * conc} \<subseteq> set (jobs ! k)"
  proof
    assume "{k * conc..<Suc k * conc} \<subseteq> set (jobs ! k)"
    then have "card {k * conc..<Suc k * conc} \<le> card (set (jobs ! k))" by (intro card_mono) simp_all
    then show False using less card_length [of "jobs ! k"] by simp
  qed
  then obtain b where "b \<in> {k * conc..<Suc k * conc}" "b \<notin> set (jobs ! k)" by blast
  then have b: "k * conc \<le> b" "b < Suc k * conc" "b \<notin> set (jobs ! k)" by simp_all
  have d: "b div conc = k" using b(1,2) by (intro div_nat_eqI) (simp_all add: mult.commute)
  have n: "b < n * conc" using b(2) k by (metis Suc_leI less_le_trans mult_le_mono1)
  then show ?thesis using b(3) d l k by (auto simp: loads_ok_def)
qed

text \<open>With a free buffer, fewer jobs are running than there are buffers.\<close>

lemma running_not_full:
  assumes r: "running_ok n m s" and b: "b < n" "tag_at s b = None"
  shows "length m < n"
proof -
  let ?f = "\<lambda>e :: int \<times> int \<times> nat. snd (snd e)"
  have d: "distinct (map fst m)" using r omap_distinct by (auto simp: running_ok_def)
  have of: "map_of m i = Some (srv, x)" if "(i, srv, x) \<in> set m" for i srv x using that d by simp
  have at: "x < n \<and> tag_at s x = Some i" if "(i, srv, x) \<in> set m" for i srv x
    using of [OF that] r unfolding running_ok_def tag_at_def by auto
  have "inj_on ?f (set m)"
  proof (rule inj_onI)
    fix e e' assume e: "e \<in> set m" "e' \<in> set m" "?f e = ?f e'"
    obtain i srv x i' srv' x' where ee: "e = (i, srv, x)" "e' = (i', srv', x')" by (metis prod_cases3)
    have x: "x' = x" using e(3) ee by simp
    then have "i' = i" using at e(1,2) ee by (metis option.inject)
    then show "e = e'" using of e(1,2) ee x by (metis option.inject prod.inject)
  qed
  then have "length m = card (?f ` set m)" using d by (simp add: card_image distinct_card distinct_map)
  also have "\<dots> \<le> card ({0..<n} - {b})"
  proof (rule card_mono)
    show "?f ` set m \<subseteq> {0..<n} - {b}"
    proof
      fix y assume "y \<in> ?f ` set m"
      then obtain i srv where "(i, srv, y) \<in> set m" by force
      then show "y \<in> {0..<n} - {b}" using at b(2) by fastforce
    qed
  qed simp
  also have "\<dots> < n" using b(1) by simp
  finally show ?thesis .
qed

section \<open>Launching the local queue\<close>

lemma counted_distinct: "(\<And>i. count (mset xs) i \<le> 1) \<Longrightarrow> distinct xs"
proof (induction xs)
  case (Cons x xs)
  have "count (mset xs) x = 0" using Cons.prems [of x] by simp
  moreover have "count (mset xs) i \<le> 1" for i
  proof -
    have "count (mset xs) i \<le> count (mset (x # xs)) i" by simp
    then show ?thesis using Cons.prems [of i] by (rule le_trans)
  qed
  ultimately show ?case using Cons.IH by simp
qed simp

text \<open>The local queue holds running jobs and the new ones \<open>L\<close>, for which there is room.\<close>

lemma assign_nowait_books:
  assumes q: "queue_ok q" and ns: "\<not> static_limited c"
    and "books_ok q n (ids (active s) + (ids L + W)) s" "jobs_ok q s" "length (active s) + length L \<le> asynchLocalEvalConcurrency c"
      "set L \<subseteq> set ps" "set ps \<subseteq> set (active s) \<union> set L" "set L \<subseteq> set q"
  shows "\<exists>it s'. assign_nowait_loop c (length (active s)) ps s = (it, s') \<and> books_ok q n (ids (active s') + W) s' \<and> jobs_ok q s' \<and>
    length (active s') = length (active s) + length L \<and> sched_frame q s s' \<and> rawResponseMap s' = rawResponseMap s"
  using assms(3-)
proof (induction ps arbitrary: s L)
  case Nil
  then show ?case by auto
next
  case (Cons p ps)
  let ?m = "length (active s)" and ?conc = "asynchLocalEvalConcurrency c"
  have idle: "p \<in> set (waiting q s)" if "p \<in> set L" for p
  proof -
    have "p \<in> set q" "eval_id p \<in># ids L + W" using that Cons.prems(6) by auto
    then show ?thesis using idle_job [OF q Cons.prems(2,1)] by blast
  qed
  consider "?conc \<noteq> 0 \<and> ?m \<ge> ?conc" | "\<not> (?conc \<noteq> 0 \<and> ?m \<ge> ?conc)" "p \<in> set L" |
    "\<not> (?conc \<noteq> 0 \<and> ?m \<ge> ?conc)" "p \<notin> set L" by blast
  then show ?case
  proof cases
    case 1
    then have "L = []" using Cons.prems(3) by (cases L) auto
    then show ?thesis using 1 Cons.prems(1,2) by (simp add: assign_nowait_launch)
  next
    case 2
    have p: "p \<in> set q" "lookup_by_eval_id (eval_id p) (active s) = None" using idle [OF 2(2)] by (auto simp: waiting_def)
    have "eval_id p \<in># ids L + W" using 2(2) by auto
    note l = launch_books [OF q Cons.prems(2,1) p(1) this, of c]
    have "mset L = add_mset p (mset (remove1 p L))" using 2(2) by simp
    then have "ids L = add_mset (eval_id p) (ids (remove1 p L))" by (metis image_mset_add_mset mset_map)
    then have rL: "ids L + W - {#eval_id p#} = ids (remove1 p L) + W" by simp
    have "distinct (map eval_id L)"
    proof (rule counted_distinct)
      show "count (ids L) i \<le> 1" for i using books_distinct [OF q Cons.prems(1), of i] unfolding count_union by linarith
    qed
    then have dL: "distinct L" by (simp add: distinct_map)
    have as: "set (active (launch c p s)) = insert p (set (active s))"
      using p(2) by (simp add: launch_def queue.elems_ins queue.look_None)
    have "set (remove1 p L) = set L - {p}" using dL by simp
    then have sub: "set (remove1 p L) \<subseteq> set ps" "set ps \<subseteq> set (active (launch c p s)) \<union> set (remove1 p L)" "set (remove1 p L) \<subseteq> set q"
      using Cons.prems(4,5,6) as by auto
    have len: "length (remove1 p L) = length L - 1" "0 < length L" using 2(2) by (auto simp: length_remove1)
    have "books_ok q n (ids (active (launch c p s)) + (ids (remove1 p L) + W)) (launch c p s)" using l(1) rL by simp
    from Cons.IH [OF this l(2) _ sub] obtain it s' where s': "assign_nowait_loop c (length (active (launch c p s))) ps (launch c p s) = (it, s')"
        "books_ok q n (ids (active s') + W) s'" "jobs_ok q s'" "length (active s') = length (active (launch c p s)) + length (remove1 p L)"
        "sched_frame q (launch c p s) s'" "rawResponseMap s' = rawResponseMap (launch c p s)"
      using l(3) len Cons.prems(3) by auto
    show ?thesis
      using 2(1) p(2) ns s' l(3,5) len sched_frame_trans [OF l(4) s'(5)] by (simp add: assign_nowait_launch)
  next
    case 3
    then have "p \<in> set (active s)" using Cons.prems(5) by auto
    then have "lookup_by_eval_id (eval_id p) (active s) \<noteq> None" by (auto simp: queue.look_None)
    moreover have "set L \<subseteq> set ps" "set ps \<subseteq> set (active s) \<union> set L" using 3(2) Cons.prems(4,5) by auto
    ultimately have "assign_nowait_loop c ?m (p # ps) s = assign_nowait_loop c ?m ps s"
        "set L \<subseteq> set ps" "set ps \<subseteq> set (active s) \<union> set L"
      using 3(1) by (simp_all only: assign_nowait_launch) simp_all
    then show ?thesis using Cons.IH [OF Cons.prems(1-3) _ _ Cons.prems(6)] by simp
  qed
qed

section \<open>Filling the gaps\<close>

text \<open>
  The state of the loop: \<open>L\<close> are the new local jobs, \<open>W\<close> the ids of the jobs that are still waiting.
\<close>

definition gaps_ok ::
    "('r, 'w) app_config \<Rightarrow> 'r prp list \<Rightarrow> 'r prp list \<Rightarrow> int multiset \<Rightarrow> 'r backfill \<Rightarrow> ('r::zero, 'w) app_state \<Rightarrow> bool" where
  "gaps_ok c q L W b s \<longleftrightarrow>
     books_ok q (remote_capacity_of c) (ids (active s) + (ids L + W)) s \<and> jobs_ok q s \<and>
     slots_ok (asynchLocalEvalConcurrency c) (msgPassRunningMap s) \<and>
     loads_ok (numEvalServers c - 1) (asynchLocalEvalConcurrency c) (server_jobs b) s \<and>
     num_local_running b = length (active s) + length L \<and> num_local_running b \<le> local_capacity_of c \<and>
     num_remote_running b = length (msgPassRunningMap s) \<and> (backfill_local b \<longleftrightarrow> L \<noteq> []) \<and>
     set L \<subseteq> set q \<and> set L \<subseteq> set (local_prp_queue b) \<and> set (local_prp_queue b) \<subseteq> set (active s) \<union> set L \<and>
     (\<forall>p \<in> set q. map_of (rawResponseMap s) (eval_id p) = None)"

lemma books_count:
  assumes "queue_ok q" "books_ok q n (A + B) s" "i \<in># A"
  shows "i \<notin># B"
proof
  assume "i \<in># B"
  then have "2 \<le> count (A + B) i" using assms(3) by (metis One_nat_def add_le_mono count_greater_eq_one_iff count_union one_add_one)
  then show False using books_distinct [OF assms(1,2), of i] by simp
qed

lemma books_remove:
  assumes "queue_ok q" "books_ok q n (A + W) s" "i \<in># W"
  shows "i \<notin># W - {#i#}"
proof -
  have "count W i \<le> 1" using books_distinct [OF assms(1,2), of i] by simp
  then show ?thesis by (simp add: not_in_iff)
qed

text \<open>A waiting job is placed: it becomes a new local job, or it is sent.\<close>

lemma place_dynamic_ok:
  assumes q: "queue_ok q" "p \<in> set q" and c: "1 \<le> asynchLocalEvalConcurrency c" "2 \<le> numEvalServers c"
    and g: "gaps_ok c q L W b s" and w: "eval_id p \<in># W" "lookup_by_eval_id (eval_id p) (active s) = None"
    and room: "num_local_running b < local_capacity_of c \<or> num_remote_running b < remote_capacity_of c"
  shows "\<exists>b' s' L'. place_dynamic c p b s = Inr (b', s') \<and> gaps_ok c q L' (W - {#eval_id p#}) b' s' \<and> set L' \<subseteq> insert p (set L) \<and>
    track_frame q s s' \<and> length (msgPassRunningMap s) \<le> length (msgPassRunningMap s')"
proof -
  let ?n = "numEvalServers c - 1" and ?conc = "asynchLocalEvalConcurrency c" and ?W = "W - {#eval_id p#}"
  note cap = remote_capacity_product [OF c(1)]
  have bk: "books_ok q (remote_capacity_of c) (ids (active s) + (ids L + W)) s"
    and ld: "loads_ok ?n ?conc (server_jobs b) s" and nl: "num_local_running b = length (active s) + length L"
    and nr: "num_remote_running b = length (msgPassRunningMap s)" using g by (auto simp: gaps_ok_def)
  have rk: "running_ok (?n * ?conc) (msgPassRunningMap s) s" using bk cap by (simp add: books_ok_def)
  have c0: "0 < ?conc" "0 < ?n" using c by simp_all
  have ne: "server_jobs b \<noteq> []" "length (server_jobs b) = ?n" using ld c0(2) by (auto simp: loads_ok_def)
  then obtain load loads where ml: "map length (server_jobs b) = load # loads" by (cases "server_jobs b") auto
  obtain k l where kl: "min_load_loop 0 load 1 loads = (k, l)" by fastforce
  note k = least_load [OF ne(1) ml kl, unfolded ne(2)]
  have lk: "l = length (server_jobs b ! k)"
  proof -
    have "case min_load_loop 0 load 1 loads of (r, l) \<Rightarrow> r < length (map length (server_jobs b)) \<and> l = map length (server_jobs b) ! r \<and>
        (\<forall>j < length (map length (server_jobs b)). l \<le> map length (server_jobs b) ! j)"
      by (rule min_load_loop_ok) (use ml ne in auto)
    then show ?thesis using kl k(1) ne(2) by simp
  qed
  note full = load_block(2) [OF ld k(1) c0(1)]
  have eW: "ids L + W = add_mset (eval_id p) (ids L + ?W)" using w(1) by simp
  show ?thesis
  proof (cases "num_local_running b < l")
    case True
    then have less: "num_local_running b < local_capacity_of c" using full lk cap(1) by simp
    then have "place_dynamic c p b s = Inr (add_local p b, s)" using True ml kl by (simp add: place_dynamic_def)
    moreover have "gaps_ok c q (p # L) ?W (add_local p b) s"
    proof -
      have "eval_id p \<notin># ids L"
      proof
        assume "eval_id p \<in># ids L"
        moreover have "books_ok q (remote_capacity_of c) (ids L + (ids (active s) + W)) s" using bk by (simp add: ac_simps)
        ultimately show False using books_count [OF q(1), of _ "ids L"] w(1) by fastforce
      qed
      then have "eval_id p \<notin> eval_id ` set (local_prp_queue b)" using g w(2) by (auto simp: gaps_ok_def queue.look_None)
      then have "set (local_prp_queue (add_local p b)) = insert p (set (local_prp_queue b))" by (simp add: add_local_def queue.elems_ins)
      moreover have "books_ok q (remote_capacity_of c) (ids (active s) + (ids (p # L) + ?W)) s"
      proof -
        have "ids (p # L) + ?W = ids L + W" unfolding eW by simp
        then show ?thesis using bk by (simp only:)
      qed
      ultimately show ?thesis using g q(2) less unfolding gaps_ok_def by (auto simp: add_local_def)
    qed
    ultimately show ?thesis by (intro exI [of _ "add_local p b"] exI [of _ s] exI [of _ "p # L"]) auto
  next
    case False
    have less: "length (msgPassRunningMap s) < ?n * ?conc"
    proof (cases "num_remote_running b < remote_capacity_of c")
      case False
      then have "length (server_jobs b ! k) < ?conc" using room \<open>\<not> num_local_running b < l\<close> lk cap(1) by linarith
      then show ?thesis using load_free [OF ld k(1)] running_not_full [OF rk] by blast
    qed (use nr cap in simp)
    obtain x where x: "free_slot c k (server_jobs b ! k) = Some x" using free_slot_exists [OF rk less ld refl k] by blast
    note fx = free_slot_Some [OF x]
    have xd: "x div ?conc = k" using fx(1,2) by (intro div_nat_eqI) (simp_all add: mult.commute)
    have xn: "x < ?n * ?conc" using fx(2) k(1) by (metis Suc_leI less_le_trans mult_le_mono1)
    have tx: "tag_at s x = None" using fx(3) ld k(1) xn xd by (auto simp: loads_ok_def)
    have "books_ok q (remote_capacity_of c) (add_mset (eval_id p) (ids (active s) + (ids L + ?W))) s"
    proof -
      have "add_mset (eval_id p) (ids (active s) + (ids L + ?W)) = ids (active s) + (ids L + W)" unfolding eW by simp
      then show ?thesis using bk by (simp only:)
    qed
    from send_tracked_ok [OF q this _ tx] obtain s1 where s1: "send_tracked c p x (int (k + 1)) s = Inr s1"
        "books_ok q (remote_capacity_of c) (ids (active s) + (ids L + ?W)) s1" "track_frame q s s1" "rawResponseMap s1 = rawResponseMap s"
        "msgPassRunningMap s1 = map_assign (eval_id p) (int (k + 1), x) (msgPassRunningMap s)"
        "eval_id p \<notin> fst ` set (msgPassRunningMap s)"
        "\<forall>j. tag_at s1 j = (if j = x then Some (eval_id p) else tag_at s j)"
      using xn cap by metis
    let ?b = "b\<lparr>server_jobs := (server_jobs b)[k := List.insert x (server_jobs b ! k)], num_remote_running := num_remote_running b + 1\<rparr>"
    have "num_remote_running b < remote_capacity_of c" using less nr cap by simp
    then have "place_dynamic c p b s = Inr (?b, s1)"
      using False ml kl x s1(1) by (simp add: place_dynamic_def send_to_server_def)
    moreover have "active s1 = active s" using track_frame_keeps(1) [OF s1(3)] .
    moreover have len: "length (msgPassRunningMap s1) = Suc (length (msgPassRunningMap s))"
      using s1(5,6) rk length_map_assign [of "msgPassRunningMap s"] by (simp add: running_ok_def)
    moreover have "slots_ok ?conc (msgPassRunningMap s1)"
      unfolding s1(5) using g xd by (intro slots_ok_assign) (simp_all add: gaps_ok_def)
    moreover have "loads_ok ?n ?conc ((server_jobs b)[k := List.insert x (server_jobs b ! k)]) s1"
      by (rule loads_ok_send [OF ld k(1) xn xd s1(7)])
    ultimately have "gaps_ok c q L ?W ?b s1" using g s1(2,4) by (simp add: gaps_ok_def jobs_ok_def)
    then show ?thesis using \<open>place_dynamic c p b s = Inr (?b, s1)\<close> s1(3) len
      by (intro exI [of _ ?b] exI [of _ s1] exI [of _ L]) auto
  qed
qed


lemma peer_fill_gaps_ok:
  assumes q: "queue_ok q" and c: "1 \<le> asynchLocalEvalConcurrency c" "2 \<le> numEvalServers c"
    and "gaps_ok c q L W b s" "set ps \<subseteq> set q" "distinct ps" "set_mset W \<subseteq> eval_id ` set ps" "set L \<inter> set ps = {}"
  shows "\<exists>it b' s' L' W'. peer_fill_gaps c (place_dynamic c) ps b s = Inr (it, b', s') \<and> gaps_ok c q L' W' b' s' \<and>
    set it \<subseteq> set ps \<and> distinct it \<and> set_mset W' \<subseteq> eval_id ` set it \<and> track_frame q s s' \<and>
    length (msgPassRunningMap s) \<le> length (msgPassRunningMap s')"
  using assms(4-)
proof (induction ps arbitrary: b s L W)
  case Nil
  then show ?case by auto
next
  case (Cons p ps)
  let ?room = "num_local_running b < local_capacity_of c \<or> num_remote_running b < remote_capacity_of c"
  have p: "p \<in> set q" "p \<notin> set ps" "set ps \<subseteq> set q" "distinct ps" using Cons.prems(2,3) by auto
  have bk: "books_ok q (remote_capacity_of c) (ids (active s) + (ids L + W)) s" using Cons.prems(1) by (simp add: gaps_ok_def)
  have skip: "set_mset W \<subseteq> eval_id ` set ps" if "eval_id p \<notin># W" using that Cons.prems(4) by auto
  consider "\<not> ?room" | "?room" "map_of (msgPassRunningMap s) (eval_id p) \<noteq> None" |
    "?room" "map_of (msgPassRunningMap s) (eval_id p) = None" "lookup_by_eval_id (eval_id p) (active s) \<noteq> None" |
    "?room" "map_of (msgPassRunningMap s) (eval_id p) = None" "lookup_by_eval_id (eval_id p) (active s) = None" by blast
  then show ?case
  proof cases
    case 1
    then show ?thesis using Cons.prems
      by (intro exI [of _ "p # ps"] exI [of _ b] exI [of _ s] exI [of _ L] exI [of _ W]) simp
  next
    case 2
    have "eval_id p \<notin># W"
    proof
      assume "eval_id p \<in># W"
      then have "eval_id p \<in># ids (active s) + (ids L + W)" by simp
      then have "eval_id p \<notin> fst ` set (msgPassRunningMap s)" using books_disjoint(1) [OF q] bk unfolding books_ok_def by blast
      then show False using 2(2) by (simp add: map_of_eq_None_iff)
    qed
    from Cons.IH [OF Cons.prems(1) p(3,4) skip [OF this]] Cons.prems(5) obtain it b' s' L' W' where
        "peer_fill_gaps c (place_dynamic c) ps b s = Inr (it, b', s')" "gaps_ok c q L' W' b' s'" "set it \<subseteq> set ps" "distinct it"
        "set_mset W' \<subseteq> eval_id ` set it" "track_frame q s s'" "length (msgPassRunningMap s) \<le> length (msgPassRunningMap s')" by auto
    then show ?thesis using 2 by (intro exI [of _ it] exI [of _ b'] exI [of _ s'] exI [of _ L'] exI [of _ W']) auto
  next
    case 3
    then obtain p' where p': "p' \<in> set (active s)" "eval_id p' = eval_id p" by (auto simp: queue.look_None)
    moreover have "set (active s) \<subseteq> set q" using Cons.prems(1) by (simp add: gaps_ok_def jobs_ok_def)
    ultimately have a: "p \<in> set (active s)" using queue.unique [OF q p(1)] by (metis subsetD)
    then have "eval_id p \<in># ids (active s)" by simp
    then have nW: "eval_id p \<notin># W" using books_count [OF q bk] by auto
    have "gaps_ok c q L W (b\<lparr>local_prp_queue := queue_insert p (local_prp_queue b)\<rparr>) s"
      using Cons.prems(1) a by (auto simp: gaps_ok_def queue.elems_ins)
    from Cons.IH [OF this p(3,4) skip [OF nW]] Cons.prems(5) obtain it b' s' L' W' where
        "peer_fill_gaps c (place_dynamic c) ps (b\<lparr>local_prp_queue := queue_insert p (local_prp_queue b)\<rparr>) s = Inr (it, b', s')"
        "gaps_ok c q L' W' b' s'" "set it \<subseteq> set ps" "distinct it"
        "set_mset W' \<subseteq> eval_id ` set it" "track_frame q s s'" "length (msgPassRunningMap s) \<le> length (msgPassRunningMap s')" by auto
    then show ?thesis using 3 by (intro exI [of _ it] exI [of _ b'] exI [of _ s'] exI [of _ L'] exI [of _ W']) auto
  next
    case 4
    have "eval_id p \<in># ids (active s) + (ids L + W)"
      by (rule not_running_idle [OF q p(1) bk]) (use Cons.prems(1) p(1) 4(2) in \<open>auto simp: gaps_ok_def\<close>)
    moreover have "eval_id p \<notin># ids (active s)" using 4(3) by (auto simp: queue.look_None)
    moreover have "eval_id p \<notin># ids L"
    proof
      assume "eval_id p \<in># ids L"
      then obtain p' where p': "p' \<in> set L" "eval_id p' = eval_id p" by auto
      moreover have "set L \<subseteq> set q" using Cons.prems(1) by (simp add: gaps_ok_def)
      ultimately have "p \<in> set L" using queue.unique [OF q p(1)] by (metis subsetD)
      then show False using Cons.prems(5) by auto
    qed
    ultimately have w: "eval_id p \<in># W" by simp
    obtain b1 s1 L1 where 1: "place_dynamic c p b s = Inr (b1, s1)" "gaps_ok c q L1 (W - {#eval_id p#}) b1 s1" "set L1 \<subseteq> insert p (set L)"
        "track_frame q s s1" "length (msgPassRunningMap s) \<le> length (msgPassRunningMap s1)"
      using place_dynamic_ok [OF q p(1) c Cons.prems(1) w 4(3,1)] by blast
    have bk': "books_ok q (remote_capacity_of c) (ids (active s) + ids L + W) s" using bk by (simp add: add.assoc)
    have "set_mset (W - {#eval_id p#}) \<subseteq> eval_id ` set ps"
      using Cons.prems(4) books_remove [OF q bk' w] by (auto dest: in_diffD)
    moreover have "set L1 \<inter> set ps = {}" using 1(3) Cons.prems(5) p(2) by auto
    ultimately obtain it b' s' L' W' where
        "peer_fill_gaps c (place_dynamic c) ps b1 s1 = Inr (it, b', s')" "gaps_ok c q L' W' b' s'" "set it \<subseteq> set ps" "distinct it"
        "set_mset W' \<subseteq> eval_id ` set it" "track_frame q s1 s'" "length (msgPassRunningMap s1) \<le> length (msgPassRunningMap s')"
      using Cons.IH [OF 1(2) p(3,4)] by blast
    then show ?thesis using 4 1(1,5) track_frame_trans [OF 1(4)]
      by (intro exI [of _ it] exI [of _ b'] exI [of _ s'] exI [of _ L'] exI [of _ W']) auto
  qed
qed

section \<open>One call\<close>

definition peer_nowait_config :: "('r::zero, 'w) app_config \<Rightarrow> bool" where
  "peer_nowait_config c \<longleftrightarrow> 1 \<le> asynchLocalEvalConcurrency c \<and> 2 \<le> numEvalServers c \<and> \<not> static_limited c \<and>
     mpi_test_contract c \<and> test_contract c"

text \<open>The state between two calls.\<close>

definition peer_books :: "('r, 'w) app_config \<Rightarrow> 'r prp list \<Rightarrow> ('r::zero, 'w) app_state \<Rightarrow> bool" where
  "peer_books c q s \<longleftrightarrow> beforeSynchCorePRPQueue s = q \<and> all_ready q s \<and> jobs_ok q s \<and> within_limit c (length (active s)) \<and>
     (if msgPassRunningMap s = [] then msgBuffers s = None
      else (\<exists>W. books_ok q (remote_capacity_of c) (ids (active s) + W) s) \<and> slots_ok (asynchLocalEvalConcurrency c) (msgPassRunningMap s))"

text \<open>The state after the jobs are assigned: no job before the position \<open>it\<close> is waiting.\<close>

definition placed ::
    "('r, 'w) app_config \<Rightarrow> 'r prp list \<Rightarrow> ('r::zero, 'w) app_state \<Rightarrow> nat \<Rightarrow> nat \<Rightarrow> 'r prp list \<Rightarrow> ('r, 'w) app_state \<Rightarrow> bool" where
  "placed c q s l r it s' \<longleftrightarrow> (\<exists>W. dyn_inv c q (remote_capacity_of c) W it s') \<and>
     slots_ok (asynchLocalEvalConcurrency c) (msgPassRunningMap s') \<and> dyn_frame q s s' \<and>
     l = length (active s') \<and> r = length (msgPassRunningMap s') \<and> (l \<noteq> 0 \<or> r \<noteq> 0)"

lemma first_pass_ok:
  assumes q: "queue_ok q" "q \<noteq> []" "\<forall>p \<in> set q. map_of (rawResponseMap s) (eval_id p) = None"
    and c: "peer_nowait_config c" and s: "peer_books c q s" "msgPassRunningMap s = []" "active s = []"
  defines "l \<equiv> initial_local c (length q)" and "r \<equiv> initial_remote c (length q)"
  shows "\<exists>it s1 it' s2. stratified_first_pass c (numEvalServers c - 1) 0 r (drop l q) (allocate_buffers (remote_capacity_of c) s) = Inr (it, s1) \<and>
    assign_asynch_local_queue c (take l q) s1 = Inr (it', s2) \<and> placed c q s l r it s2"
proof -
  let ?n = "numEvalServers c - 1" and ?conc = "asynchLocalEvalConcurrency c" and ?N = "length q"
  let ?s0 = "allocate_buffers (remote_capacity_of c) s" and ?ps = "drop l q"
  have cf: "1 \<le> ?conc" "2 \<le> numEvalServers c" "\<not> static_limited c" using c by (auto simp: peer_nowait_config_def)
  note cap = remote_capacity_product [OF cf(1)]
  have l: "l \<le> ?conc" "l \<le> ?N div numEvalServers c" by (simp_all add: l_def initial_local_def cap)
  have N: "?N div numEvalServers c < ?N" using q(2) cf(2) by (simp add: div_less_dividend)
  have r: "r \<le> ?n * ?conc" "r \<le> ?N - l" using l(2) by (simp_all add: r_def initial_remote_def cap diff_le_mono2)
  have r0: "r \<noteq> 0" using N cf by (simp add: r_def initial_remote_def cap)
  have sq: "beforeSynchCorePRPQueue s = q" "all_ready q s" using s(1) by (auto simp: peer_books_def)
  note a = allocate_ok [OF q(3), of "remote_capacity_of c"]
  have idq: "ids q = ids (take (r - 0) ?ps) + (ids (take l q) + ids (drop r ?ps))"
  proof -
    have "ids q = ids (take l q) + ids ?ps" by (metis append_take_drop_id map_append mset_append)
    moreover have "ids ?ps = ids (take r ?ps) + ids (drop r ?ps)" by (metis append_take_drop_id map_append mset_append)
    ultimately show ?thesis by simp
  qed
  have "books_ok q (?n * ?conc) (ids (take (r - 0) ?ps) + (ids (take l q) + ids (drop r ?ps))) ?s0"
    unfolding idq [symmetric] using a(1,4) s(2) sq cap by (auto simp: books_ok_def running_ok_def allocate_buffers_def all_ready_def)
  moreover have "slots_ok ?conc (msgPassRunningMap ?s0)" using s(2) by (simp add: slots_ok_def allocate_buffers_def)
  moreover have "\<forall>j. 0 \<le> j \<longrightarrow> j < ?n * ?conc \<longrightarrow> tag_at ?s0 (slot ?n ?conc j) = None"
    using a(3) slot_props(3) [of _ ?n ?conc] cf(2) cap by (metis leD neq0_conv mult_is_0 not_less_zero)
  moreover have "set ?ps \<subseteq> set q" by (rule set_drop_subset)
  ultimately obtain s1 where s1: "stratified_first_pass c ?n 0 r ?ps ?s0 = Inr (drop r ?ps, s1)"
      "books_ok q (?n * ?conc) (ids (take l q) + ids (drop r ?ps)) s1" "slots_ok ?conc (msgPassRunningMap s1)"
      "track_frame q ?s0 s1" "rawResponseMap s1 = rawResponseMap ?s0"
    using stratified_first_pass_ok [OF q(1) _ r(1), of ?ps "0" "ids (take l q) + ids (drop r ?ps)" ?s0] cf(2) by auto
  have a1: "active s1 = []" using track_frame_keeps(1) [OF s1(4)] s(3) by (simp add: allocate_buffers_def)
  have j1: "jobs_ok q s1" using q(3) s1(5) a1 by (simp add: jobs_ok_def allocate_buffers_def)
  have len: "length (take l q) = l" using l(2) N by simp
  let ?k = "if ?conc \<noteq> 0 then min ?conc (length (take l q)) else length (take l q)"
  have k: "0 + length (take l q) \<le> ?k" using l(1) len by simp
  have "books_ok q (?n * ?conc) (ids (active s1) + (ids (take l q) + ids (drop r ?ps))) s1" using s1(2) a1 by simp
  then obtain s2 where s2: "assign_loop c 0 ?k 0 (take l q) s1 = ([], s2)" "books_ok q (?n * ?conc) (ids (active s2) + ids (drop r ?ps)) s2"
      "jobs_ok q s2" "length (active s2) = l" "sched_frame q s1 s2" "rawResponseMap s2 = rawResponseMap s1"
    using assign_all_ok [OF q(1) cf(3) set_take_subset _ j1 k, where W = "ids (drop r ?ps)"] len a1 by auto
  have as: "assign_asynch_local_queue c (take l q) s1 = Inr ([], s2)"
    using a1 cf(3) s2(1) by (simp add: assign_asynch_local_queue_def Let_def del: length_take)
  have "dyn_inv c q (remote_capacity_of c) (ids (drop r ?ps)) (drop r ?ps) s2"
    using s2(2-4) l(1) queue_ok_distinct [OF q(1)] set_drop_subset [of r ?ps] set_drop_subset [of l q] cap
    by (auto simp: dyn_inv_def within_limit_def)
  moreover have "slots_ok ?conc (msgPassRunningMap s2)" using s1(3) s2(5) by (simp add: sched_frame_def)
  moreover have "dyn_frame q s s2"
  proof -
    have "dyn_frame q s ?s0" by (simp add: dyn_frame_def allocate_buffers_def)
    then show ?thesis using dyn_frame_track [OF s1(4)] dyn_frame_sched [OF s2(5)] dyn_frame_trans by blast
  qed
  moreover have "r = length (msgPassRunningMap s2)"
  proof -
    have "unfinished q s2 = q" using q(3) s1(5) s2(6) by (simp add: unfinished_def allocate_buffers_def)
    moreover have "length (drop r ?ps) = ?N - l - r" by simp
    ultimately show ?thesis using length_books [OF q(1) s2(2)] s2(4) r(2) l(2) N by simp
  qed
  ultimately have "placed c q s l r (drop r ?ps) s2" using s2(4) r0 by (auto simp: placed_def)
  then show ?thesis using s1(1) as by blast
qed

text \<open>Some jobs are running: with the buffers allocated, the books hold.\<close>

lemma start_books:
  assumes q: "queue_ok q" "\<forall>p \<in> set q. map_of (rawResponseMap s) (eval_id p) = None" and s: "peer_books c q s"
  defines "s0 \<equiv> if msgBuffers s = None then allocate_buffers (remote_capacity_of c) s else s"
  shows "\<exists>W. books_ok q (remote_capacity_of c) (ids (active s) + W) s0" "slots_ok (asynchLocalEvalConcurrency c) (msgPassRunningMap s)"
    "jobs_ok q s0" "dyn_frame q s s0" "active s0 = active s" "msgPassRunningMap s0 = msgPassRunningMap s" "rawResponseMap s0 = rawResponseMap s"
proof -
  have b: "beforeSynchCorePRPQueue s = q" "all_ready q s" "jobs_ok q s" using s by (auto simp: peer_books_def)
  show f: "active s0 = active s" "msgPassRunningMap s0 = msgPassRunningMap s" "rawResponseMap s0 = rawResponseMap s" "dyn_frame q s s0"
    by (simp_all add: s0_def allocate_buffers_def dyn_frame_def)
  show "jobs_ok q s0" using b(3) f by (simp add: jobs_ok_def)
  show "\<exists>W. books_ok q (remote_capacity_of c) (ids (active s) + W) s0"
  proof (cases "msgPassRunningMap s = []")
    case False
    then obtain W where W: "books_ok q (remote_capacity_of c) (ids (active s) + W) s" using s by (auto simp: peer_books_def)
    then have "s0 = s" by (auto simp: s0_def books_ok_def msgs_ok_def)
    then show ?thesis using W by blast
  next
    case True
    then have e: "s0 = allocate_buffers (remote_capacity_of c) s" using s by (auto simp: s0_def peer_books_def)
    have "unfinished q s = q" using q(2) by (simp add: unfinished_def)
    then have "ids q = ids (active s) + ids (waiting q s)" using unfinished_parts [OF q(1) b(3)] by simp
    moreover have "books_ok q (remote_capacity_of c) (ids q) s0"
      unfolding e using allocate_ok [OF q(2), of "remote_capacity_of c"] True b(1,2)
      by (auto simp: books_ok_def running_ok_def allocate_buffers_def all_ready_def)
    ultimately show ?thesis by auto
  qed
  show "slots_ok (asynchLocalEvalConcurrency c) (msgPassRunningMap s)"
    using s by (cases "msgPassRunningMap s = []") (auto simp: peer_books_def slots_ok_def)
qed

lemma gaps_pass_ok:
  fixes s :: "('r::zero, 'w) app_state"
  assumes q: "queue_ok q" "\<forall>p \<in> set q. map_of (rawResponseMap s) (eval_id p) = None"
    and c: "peer_nowait_config c" and s: "peer_books c q s" "msgPassRunningMap s \<noteq> [] \<or> active s \<noteq> []"
  defines "s0 \<equiv> if msgBuffers s = None then allocate_buffers (remote_capacity_of c) s else s"
  shows "\<exists>b0 it b s1. gaps_start c s0 = Inr b0 \<and> peer_fill_gaps c (place_dynamic c) q b0 s0 = Inr (it, b, s1) \<and>
    placed c q s (num_local_running b) (num_remote_running b) it
      (if backfill_local b then snd (assign_asynch_local_queue_nowait c (local_prp_queue b) s1) else s1)"
proof -
  let ?n = "numEvalServers c - 1" and ?conc = "asynchLocalEvalConcurrency c" and ?rc = "remote_capacity_of c"
  have cf: "1 \<le> ?conc" "2 \<le> numEvalServers c" "\<not> static_limited c" using c by (auto simp: peer_nowait_config_def)
  note cap = remote_capacity_product [OF cf(1)]
  note sb = start_books [OF q s(1), folded s0_def]
  obtain W where W: "books_ok q ?rc (ids (active s) + W) s0" using sb(1) by blast
  have "running_ok (?n * ?conc) (msgPassRunningMap s0) s0" using W cap by (simp add: books_ok_def)
  from collect_server_jobs_ok [OF this] sb(2,6) cf(1) obtain jobs where
    jobs: "collect_server_jobs ?n (msgPassRunningMap s0) = Inr jobs" "loads_ok ?n ?conc jobs s0" by auto
  define b0 :: "'r backfill" where "b0 = \<lparr>num_local_running = length (active s0), num_remote_running = length (msgPassRunningMap s0), server_jobs = jobs,
    local_prp_queue = [], backfill_local = False\<rparr>"
  have st: "gaps_start c s0 = Inr b0" using jobs(1) by (simp add: gaps_start_def b0_def)
  have lim: "length (active s) \<le> ?conc" using s(1) cf(1) by (auto simp: peer_books_def within_limit_def)
  have g0: "gaps_ok c q [] W b0 s0"
    using W sb(2,3,5-7) jobs(2) lim cap q(2) by (simp add: gaps_ok_def b0_def)
  have cover: "set_mset W \<subseteq> eval_id ` set q"
  proof
    fix i assume "i \<in># W"
    then show "i \<in> eval_id ` set q" using books_disjoint(2) [OF q(1), of ?rc "ids (active s) + W" s0] W by (auto simp: books_ok_def)
  qed
  obtain it b s1 L W1 where g: "peer_fill_gaps c (place_dynamic c) q b0 s0 = Inr (it, b, s1)" "gaps_ok c q L W1 b s1"
      "set it \<subseteq> set q" "distinct it" "set_mset W1 \<subseteq> eval_id ` set it" "track_frame q s0 s1"
      "length (msgPassRunningMap s0) \<le> length (msgPassRunningMap s1)"
    using peer_fill_gaps_ok [OF q(1) cf(1,2) g0 subset_refl queue_ok_distinct [OF q(1)] cover] by auto
  let ?m = "length (active s1)"
  have a1: "active s1 = active s" using track_frame_keeps(1) [OF g(6)] sb(5) by simp
  have gp: "books_ok q ?rc (ids (active s1) + (ids L + W1)) s1" "jobs_ok q s1" "slots_ok ?conc (msgPassRunningMap s1)"
      "num_local_running b = ?m + length L" "?m + length L \<le> ?conc" "num_remote_running b = length (msgPassRunningMap s1)"
      "backfill_local b \<longleftrightarrow> L \<noteq> []" "set L \<subseteq> set q" "set L \<subseteq> set (local_prp_queue b)" "set (local_prp_queue b) \<subseteq> set (active s1) \<union> set L"
    using g(2) cap by (auto simp: gaps_ok_def)
  obtain it' s2 where s2: "assign_nowait_loop c ?m (local_prp_queue b) s1 = (it', s2)" "books_ok q ?rc (ids (active s2) + W1) s2"
      "jobs_ok q s2" "length (active s2) = ?m + length L" "sched_frame q s1 s2" "rawResponseMap s2 = rawResponseMap s1"
    using assign_nowait_books [OF q(1) cf(3) gp(1,2,5,9,10,8)] by blast
  define s3 where "s3 = (if backfill_local b then snd (assign_asynch_local_queue_nowait c (local_prp_queue b) s1) else s1)"
  have s3: "books_ok q ?rc (ids (active s3) + W1) s3" "jobs_ok q s3" "length (active s3) = ?m + length L" "sched_frame q s1 s3"
    using s2 gp(1,2,7) cf(3) by (auto simp: s3_def assign_asynch_local_queue_nowait_def Let_def)
  have m3: "msgPassRunningMap s3 = msgPassRunningMap s1" using s3(4) by (simp add: sched_frame_def)
  have "dyn_inv c q ?rc W1 it s3" using s3(1-3) gp(5) g(3-5) by (simp add: dyn_inv_def within_limit_def)
  moreover have "dyn_frame q s s3"
    using sb(4) dyn_frame_track [OF g(6)] dyn_frame_sched [OF s3(4)] dyn_frame_trans by blast
  moreover have "?m + length L \<noteq> 0 \<or> length (msgPassRunningMap s1) \<noteq> 0" using s(2) a1 g(7) sb(6) by auto
  ultimately have "placed c q s (num_local_running b) (num_remote_running b) it s3"
    using gp(3,4,6) s3(3) m3 by (auto simp: placed_def)
  then show ?thesis using st g(1) by (auto simp: s3_def)
qed

text \<open>The tests of the running jobs, and the release of the buffers.\<close>

lemma test_pass_ok:
  assumes q: "queue_ok q" "\<forall>p \<in> set q. 0 < eval_id p" and c: "peer_nowait_config c" and s: "placed c q s l r it s1"
  shows "\<exists>it1 s2 s3. (if r \<noteq> 0 then rbind (test_receives_backfill c it s1) (\<lambda>(_, it, s2). Inr (it, s2)) else Inr (it, s1)) = Inr (it1, s2) \<and>
    (if l \<noteq> 0 then rbind (test_local_backfill c (beforeSynchCorePRPQueue s2) it1 s2) (\<lambda>(_, _, s3). Inr s3) else Inr s2) = Inr s3 \<and>
    peer_books c q (release_if_idle s3) \<and> own_responses q s3 \<and> dyn_frame q s (release_if_idle s3) \<and>
    (msgPassRunningMap s3 = [] \<and> active s3 = [] \<longrightarrow> unfinished q s3 = [])"
proof -
  let ?rc = "remote_capacity_of c" and ?conc = "asynchLocalEvalConcurrency c"
  have ct: "\<not> static_limited c" "mpi_test_contract c" "test_contract c" using c by (auto simp: peer_nowait_config_def)
  obtain W where W: "dyn_inv c q ?rc W it s1" using s by (auto simp: placed_def)
  have p: "slots_ok ?conc (msgPassRunningMap s1)" "dyn_frame q s s1" "l = length (active s1)" "r = length (msgPassRunningMap s1)" "l \<noteq> 0 \<or> r \<noteq> 0"
    using s by (auto simp: placed_def)
  obtain it1 s2 W1 where r: "(if r \<noteq> 0 then rbind (test_receives_backfill c it s1) (\<lambda>(_, it, s2). Inr (it, s2)) else Inr (it, s1)) = Inr (it1, s2)"
      "dyn_inv c q ?rc W1 it1 s2" "W1 \<subseteq># W" "track_frame q s1 s2" "slots_ok ?conc (msgPassRunningMap s2)"
      "W1 = {#} \<or> length (msgPassRunningMap s2) = r"
  proof (cases "r = 0")
    case True
    then show thesis using that [of it s1 W] W p by simp
  next
    case False
    obtain k it1 s2 W1 where t: "test_receives_backfill c it s1 = Inr (k, it1, s2)" "dyn_inv c q ?rc W1 it1 s2" "W1 \<subseteq># W"
        "track_frame q s1 s2" "W1 = {#} \<or> length (msgPassRunningMap s2) = length (msgPassRunningMap s1)"
      using test_receives_dyn [OF q ct(2) W] by blast
    show thesis using that [of it1 s2 W1] t False test_receives_backfill_slots [OF t(1) p(1)] p(4) by simp
  qed
  have a2: "active s2 = active s1" by (rule track_frame_keeps(1) [OF r(4)])
  have q2: "beforeSynchCorePRPQueue s2 = q" using r(2) by (simp add: dyn_inv_def books_ok_def)
  obtain s3 it2 W2 where l: "(if l \<noteq> 0 then rbind (test_local_backfill c q it1 s2) (\<lambda>(_, _, s3). Inr s3) else Inr s2) = Inr s3"
      "dyn_inv c q ?rc W2 it2 s3" "W2 \<subseteq># W1" "sched_frame q s2 s3" "active s3 = [] \<longrightarrow> l = 0 \<or> W2 = {#}"
  proof (cases "l = 0")
    case True
    then show thesis using that [of s2 W1 it1] r(2) by simp
  next
    case False
    obtain k it2 s3 W2 where t: "test_local_backfill c q it1 s2 = Inr (k, it2, s3)" "dyn_inv c q ?rc W2 it2 s3" "W2 \<subseteq># W1"
        "sched_frame q s2 s3" "active s3 = [] \<longrightarrow> active s2 = [] \<or> W2 = {#}"
      using test_local_backfill_books [OF q(1) ct(1,3) r(2)] by blast
    show thesis using that [of s3 W2 it2] t False a2 p(3) by auto
  qed
  have m3: "msgPassRunningMap s3 = msgPassRunningMap s2" using l(4) by (simp add: sched_frame_def)
  have b3: "books_ok q ?rc (ids (active s3) + W2) s3" "jobs_ok q s3" "within_limit c (length (active s3))"
    using l(2) by (auto simp: dyn_inv_def)
  have "unfinished q s3 = []" if "msgPassRunningMap s3 = []" "active s3 = []"
  proof -
    have "W2 = {#}"
    proof (rule ccontr)
      assume "W2 \<noteq> {#}"
      then have "l = 0" "W1 \<noteq> {#}" using l(3,5) that(2) by auto
      then have "r = 0" using r(6) that(1) m3 by simp
      then show False using p(5) \<open>l = 0\<close> by simp
    qed
    then show ?thesis using length_books [OF q(1) b3(1)] that by simp
  qed
  moreover have "peer_books c q (release_if_idle s3)"
    using b3 r(5) m3
    by (auto simp: peer_books_def release_if_idle_def release_buffers_def books_ok_def all_ready_def jobs_ok_def own_responses_def)
  moreover have "dyn_frame q s (release_if_idle s3)"
  proof -
    have "dyn_frame q s s3" using p(2) dyn_frame_track [OF r(4)] dyn_frame_sched [OF l(4)] dyn_frame_trans by blast
    then show ?thesis by (simp add: release_if_idle_def release_buffers_def dyn_frame_def)
  qed
  moreover have "(if l \<noteq> 0 then rbind (test_local_backfill c (beforeSynchCorePRPQueue s2) it1 s2) (\<lambda>(_, _, s3). Inr s3) else Inr s2) = Inr s3"
    using l(1) by (simp only: q2)
  moreover have "own_responses q s3" using b3(1) by (simp add: books_ok_def)
  ultimately show ?thesis using r(1) by blast
qed

lemma peer_nowait_ok:
  assumes q: "queue_ok q" "q \<noteq> []" "\<forall>p \<in> set q. 0 < eval_id p" "\<forall>p \<in> set q. map_of (rawResponseMap s) (eval_id p) = None"
    and c: "peer_nowait_config c" and s: "peer_books c q s"
  shows "\<exists>s'. peer_dynamic_schedule_evaluations_nowait c s = Inr s' \<and> peer_books c q s' \<and> own_responses q s' \<and> dyn_frame q s s' \<and>
    (msgPassRunningMap s' = [] \<and> active s' = [] \<longrightarrow> unfinished q s' = [])"
proof -
  let ?N = "length q" and ?m = "length (msgPassRunningMap s)" and ?a = "length (active s)"
  have bq: "beforeSynchCorePRPQueue s = q" using s by (simp add: peer_books_def)
  define s0 where "s0 = (if msgBuffers s = None then allocate_buffers (remote_capacity_of c) s else s)"
  note sb = start_books [OF q(1,4) s, folded s0_def]
  define first where "first = (if ?m + ?a = 0 then
        let l = initial_local c ?N; r = initial_remote c ?N in
        rbind (stratified_first_pass c (numEvalServers c - 1) 0 r (drop l q) s0) (\<lambda>(assign_iter, s1).
        rbind (assign_asynch_local_queue c (take l q) s1) (\<lambda>(_, s2). Inr (l, r, assign_iter, s2)))
      else if ?N \<noteq> ?m + ?a \<and> ?m + ?a < capacity_of c then
        rbind (gaps_start c s0) (\<lambda>b0. rbind (peer_fill_gaps c (place_dynamic c) q b0 s0) (\<lambda>(assign_iter, b, s1).
        Inr (num_local_running b, num_remote_running b, assign_iter,
          if backfill_local b then snd (assign_asynch_local_queue_nowait c (local_prp_queue b) s1) else s1)))
      else Inr (?a, ?m, q, s0))"
  have "\<exists>l r it s1. first = Inr (l, r, it, s1) \<and> placed c q s l r it s1"
  proof (cases "?m + ?a = 0")
    case True
    then have e: "msgPassRunningMap s = []" "active s = []" by auto
    then have "s0 = allocate_buffers (remote_capacity_of c) s" using s by (auto simp: s0_def peer_books_def)
    then show ?thesis using first_pass_ok [OF q(1,2,4) c s e] True by (auto simp: first_def Let_def)
  next
    case False
    then have ne: "msgPassRunningMap s \<noteq> [] \<or> active s \<noteq> []" by auto
    show ?thesis
    proof (cases "?N \<noteq> ?m + ?a \<and> ?m + ?a < capacity_of c")
      case True
      obtain b0 it b s1 where g: "gaps_start c s0 = Inr b0" "peer_fill_gaps c (place_dynamic c) q b0 s0 = Inr (it, b, s1)"
          "placed c q s (num_local_running b) (num_remote_running b) it
            (if backfill_local b then snd (assign_asynch_local_queue_nowait c (local_prp_queue b) s1) else s1)"
        using gaps_pass_ok [OF q(1,4) c s ne, folded s0_def] by blast
      have "first = Inr (num_local_running b, num_remote_running b, it,
          if backfill_local b then snd (assign_asynch_local_queue_nowait c (local_prp_queue b) s1) else s1)"
        unfolding first_def if_not_P [OF False] if_P [OF True] by (simp add: g(1,2))
      then show ?thesis using g(3) by blast
    next
      case full: False
      obtain W where W: "books_ok q (remote_capacity_of c) (ids (active s) + W) s0" using sb(1) by blast
      then have "set_mset W \<subseteq> eval_id ` set q"
        using books_disjoint(2) [OF q(1), of "remote_capacity_of c" "ids (active s) + W" s0] by (auto simp: books_ok_def)
      then have "dyn_inv c q (remote_capacity_of c) W q s0"
        using W sb(3,5) s queue_ok_distinct [OF q(1)] by (simp add: dyn_inv_def peer_books_def)
      then have "placed c q s ?a ?m q s0" using sb(2,4-6) False by (auto simp: placed_def)
      moreover have "first = Inr (?a, ?m, q, s0)" unfolding first_def using False full by auto
      ultimately show ?thesis by blast
    qed
  qed
  then obtain l r it s1 where f: "first = Inr (l, r, it, s1)" "placed c q s l r it s1" by blast
  obtain it1 s2 s3 where t: "(if r \<noteq> 0 then rbind (test_receives_backfill c it s1) (\<lambda>(_, it, s2). Inr (it, s2)) else Inr (it, s1)) = Inr (it1, s2)"
      "(if l \<noteq> 0 then rbind (test_local_backfill c (beforeSynchCorePRPQueue s2) it1 s2) (\<lambda>(_, _, s3). Inr s3) else Inr s2) = Inr s3"
      "peer_books c q (release_if_idle s3)" "own_responses q s3" "dyn_frame q s (release_if_idle s3)"
      "msgPassRunningMap s3 = [] \<and> active s3 = [] \<longrightarrow> unfinished q s3 = []"
    using test_pass_ok [OF q(1,3) c f(2)] by blast
  have "peer_dynamic_schedule_evaluations_nowait c s = Inr (release_if_idle s3)"
    unfolding peer_dynamic_schedule_evaluations_nowait_def Let_def bq s0_def [symmetric]
    using f(1) t(1,2) unfolding first_def Let_def by simp
  then show ?thesis using t(3-6) by (auto simp: release_if_idle_def release_buffers_def own_responses_def unfinished_def)
qed

end
