(* ===== verification/Nowait_Service.thy ===== *)
theory Nowait_Service
  imports App_Service Peer_Nowait
begin

text \<open>
  Nonblocking synchronization.  A nonblocking scheduler keeps an invariant over its queue, in which
  completed jobs are removed and new ones are added between two calls; the local schedule, the schedule of a
  dedicated master and the dynamic schedule among peers are such schedulers.  (The static schedule among peers is
  not: it reuses pending buffers, see the theory Nowait_Properties.)
\<close>

section \<open>The interface of a nonblocking scheduler\<close>

locale nonblocking_scheduler =
  fixes run :: "'r prp list \<Rightarrow> ('r::zero, 'w) app_state \<Rightarrow> ('r, 'w) app_state result"
    and inv :: "'r prp list \<Rightarrow> ('r, 'w) app_state \<Rightarrow> bool"
  assumes step: "inv q s \<Longrightarrow> queue_ok q \<Longrightarrow> q \<noteq> [] \<Longrightarrow> beforeSynchCorePRPQueue s = q \<Longrightarrow> all_ready q s \<Longrightarrow>
      \<forall>p \<in> set q. 0 < eval_id p \<Longrightarrow> \<forall>p \<in> set q. map_of (rawResponseMap s) (eval_id p) = None \<Longrightarrow>
      \<exists>s'. run q s = Inr s' \<and> inv q s' \<and> dyn_frame q s s' \<and> own_responses q s'"
    and resume: "inv q s \<Longrightarrow> queue_ok q \<Longrightarrow> queue_ok q' \<Longrightarrow> set (unfinished q s) \<subseteq> set q' \<Longrightarrow>
      \<forall>p \<in> set q'. p \<in> set (unfinished q s) \<or> eval_id p \<notin> eval_id ` set q \<Longrightarrow>
      \<forall>p \<in> set q'. map_of (rawResponseMap s') (eval_id p) = None \<Longrightarrow> all_ready q' s' \<Longrightarrow>
      beforeSynchCorePRPQueue s' = q' \<Longrightarrow> same_schedule s s' \<Longrightarrow>
      \<forall>p \<in> set q. responseActiveSet (resp_at s' (prpResponse p)) = responseActiveSet (resp_at s (prpResponse p)) \<Longrightarrow> inv q' s'"
begin

text \<open>The completed jobs are jobs of the queue.\<close>

lemma step_completes:
  assumes "inv q s" "queue_ok q" "q \<noteq> []" "beforeSynchCorePRPQueue s = q" "all_ready q s" "\<forall>p \<in> set q. 0 < eval_id p" "rawResponseMap s = []"
  shows "\<exists>s'. run q s = Inr s' \<and> inv q s' \<and> dyn_frame q s s' \<and> own_responses q s' \<and> fst ` set (rawResponseMap s') \<subseteq> eval_id ` set q"
proof -
  obtain s' where s': "run q s = Inr s'" "inv q s'" "dyn_frame q s s'" "own_responses q s'"
    using step [OF assms(1-6)] assms(7) by auto
  have "i \<in> eval_id ` set q" if "i \<in> dom (map_of (rawResponseMap s'))" for i
  proof (rule ccontr)
    assume "i \<notin> eval_id ` set q"
    then have "map_of (rawResponseMap s') i = None" using s'(3) assms(7) by (simp add: dyn_frame_def sched_frame_def)
    then show False using that by (simp add: domIff)
  qed
  then have "fst ` set (rawResponseMap s') \<subseteq> eval_id ` set q" unfolding dom_map_of by blast
  then show ?thesis using s' by blast
qed

end

section \<open>The local schedule\<close>

text \<open>The running jobs stay in the queue when it changes.\<close>

lemma jobs_ok_resume:
  assumes j: "jobs_ok q s" and u: "set (unfinished q s) \<subseteq> set q'"
    and r: "\<forall>p \<in> set q'. map_of (rawResponseMap s') (eval_id p) = None" and e: "active s' = active s"
  shows "jobs_ok q' s'"
proof -
  have "set (active s) \<subseteq> set (unfinished q s)" using j by (auto simp: jobs_ok_def unfinished_def)
  then have "set (active s') \<subseteq> set q'" using u e by auto
  then show ?thesis using j e r by (auto simp: jobs_ok_def)
qed

definition local_nowait_inv :: "('r, 'w) app_config \<Rightarrow> 'r prp list \<Rightarrow> ('r, 'w) app_state \<Rightarrow> bool" where
  "local_nowait_inv c q s \<longleftrightarrow> servers_exist c \<and> test_contract c \<and> jobs_ok q s \<and> within_limit c (length (active s)) \<and>
     servers_known c s \<and> msgPassRunningMap s = []"

interpretation local_nowait: nonblocking_scheduler "asynchronous_local_evaluations_nowait c" "local_nowait_inv c"
  for c :: "('r::zero, 'w) app_config"
proof
  fix q :: "'r prp list" and s :: "('r, 'w) app_state"
  assume i: "local_nowait_inv c q s" and q: "queue_ok q" "q \<noteq> []" and r: "\<forall>p \<in> set q. map_of (rawResponseMap s) (eval_id p) = None"
  obtain s' where s': "asynchronous_local_evaluations_nowait c q s = Inr s'" "sched_ok c q s'" "sched_frame q s s'"
    using asynchronous_local_nowait_ok [OF q _ _ _ _ _ r, of c] i by (auto simp: local_nowait_inv_def)
  then show "\<exists>s'. asynchronous_local_evaluations_nowait c q s = Inr s' \<and> local_nowait_inv c q s' \<and> dyn_frame q s s' \<and> own_responses q s'"
    using i dyn_frame_sched [OF s'(3)]
    by (auto simp: local_nowait_inv_def sched_ok_def servers_known_def sched_frame_def own_responses_def jobs_ok_def)
next
  fix q q' :: "'r prp list" and s s' :: "('r, 'w) app_state"
  assume i: "local_nowait_inv c q s" and u: "set (unfinished q s) \<subseteq> set q'"
    and r: "\<forall>p \<in> set q'. map_of (rawResponseMap s') (eval_id p) = None" and e: "same_schedule s s'"
  have "jobs_ok q' s'" by (rule jobs_ok_resume [OF _ u r]) (use i e in \<open>simp_all add: local_nowait_inv_def same_schedule_def\<close>)
  then show "local_nowait_inv c q' s'"
    using i e by (simp add: local_nowait_inv_def same_schedule_def servers_known_def servers_ok_def)
qed

section \<open>The schedule of a dedicated master\<close>

definition master_nowait_inv :: "('r::zero, 'w) app_config \<Rightarrow> 'r prp list \<Rightarrow> ('r, 'w) app_state \<Rightarrow> bool" where
  "master_nowait_inv c q s \<longleftrightarrow> 1 \<le> asynchLocalEvalConcurrency c \<and> 0 < numEvalServers c \<and> mpi_test_contract c \<and> master_books c q s"

lemma books_resume:
  assumes b: "books_ok q n R s" and q: "queue_ok q" "queue_ok q'" and u: "set (unfinished q s) \<subseteq> set q'"
    and new: "\<forall>p \<in> set q'. p \<in> set (unfinished q s) \<or> eval_id p \<notin> eval_id ` set q"
    and s': "\<forall>p \<in> set q'. map_of (rawResponseMap s') (eval_id p) = None" "all_ready q' s'" "beforeSynchCorePRPQueue s' = q'"
      "msgPassRunningMap s' = msgPassRunningMap s" "msgBuffers s' = msgBuffers s"
      "\<forall>p \<in> set q. responseActiveSet (resp_at s' (prpResponse p)) = responseActiveSet (resp_at s (prpResponse p))"
  shows "\<exists>R'. books_ok q' n R' s'"
proof -
  obtain bs where bs: "msgBuffers s = Some bs" "length bs = n" "mset (ptags bs) + R = ids (unfinished q s)"
      "requests_ok q (active_set_of (heap s)) bs"
    using b by (auto simp: books_ok_def msgs_ok_def)
  have un: "unfinished q' s' = q'" using s'(1) by (simp add: unfinished_def)
  have tq: "set (ptags bs) \<subseteq> eval_id ` set (unfinished q s)"
  proof -
    have "set_mset (mset (ptags bs)) \<subseteq> set_mset (ids (unfinished q s))" using bs(3) by (metis set_mset_union Un_upper1)
    then show ?thesis by simp
  qed
  have "mset (ptags bs) \<subseteq># ids q'"
  proof -
    have d: "distinct (ptags bs)" using unfinished_ids(1) [OF q(1), of s] bs(3) by (metis distinct_append ex_mset mset_append mset_eq_imp_distinct_iff)
    have "mset (ptags bs) = mset_set (set (ptags bs))" using d by (simp add: mset_set_set)
    also have "\<dots> \<subseteq># mset_set (eval_id ` set q')" using tq u by (intro subset_imp_msubset_mset_set) auto
    also have "\<dots> = ids q'" using distinct_ids [OF q(2)] by (metis list.set_map mset_set_set)
    finally show ?thesis .
  qed
  then have "mset (ptags bs) + (ids q' - mset (ptags bs)) = ids (unfinished q' s')" using un by simp
  moreover have "request_ok q' (active_set_of (heap s')) (fst x)" if x: "x \<in> set bs" for x
  proof (cases "fst x")
    case (Some rq)
    obtain srv tag v st where rq: "rq = (srv, tag, v, st)" by (metis prod_cases4)
    have "tag \<in> set (ptags bs)"
      using x Some rq unfolding ptags_def by (force simp: in_set_map_filter)
    then obtain p0 where p0: "p0 \<in> set (unfinished q s)" "eval_id p0 = tag" using tq by auto
    have "st = active_set_of (heap s') p" if p: "p \<in> set q'" "eval_id p = tag" for p
    proof -
      have "p = p0" using queue.unique [OF q(2) p(1)] p0 u p(2) by blast
      moreover have "p0 \<in> set q" using p0(1) by (simp add: unfinished_def)
      moreover have "request_ok q (active_set_of (heap s)) (fst x)" using bs(4) x by (simp add: requests_ok_def)
      ultimately show ?thesis using Some rq p0(2) s'(6) by (simp add: request_ok_def active_set_of_def)
    qed
    then show ?thesis using Some rq by (simp add: request_ok_def)
  qed simp
  ultimately have "msgs_ok q' n [] (ids q' - mset (ptags bs)) s'"
    using bs(1,2) s'(5) by (auto simp: msgs_ok_def requests_ok_def arrivals_ok_def)
  moreover have "running_ok n (msgPassRunningMap s') s'" using b s'(4,5) by (simp add: books_ok_def running_ok_def)
  ultimately show ?thesis using s'(1-3) by (intro exI [of _ "ids q' - mset (ptags bs)"]) (simp add: books_ok_def own_responses_def)
qed

interpretation master_nowait: nonblocking_scheduler "\<lambda>q. master_dynamic_schedule_evaluations_nowait c" "master_nowait_inv c"
  for c :: "('r::zero, 'w) app_config"
proof
  fix q :: "'r prp list" and s :: "('r, 'w) app_state"
  assume i: "master_nowait_inv c q s" and q: "queue_ok q" "q \<noteq> []" "\<forall>p \<in> set q. 0 < eval_id p"
    "\<forall>p \<in> set q. map_of (rawResponseMap s) (eval_id p) = None"
  then show "\<exists>s'. master_dynamic_schedule_evaluations_nowait c s = Inr s' \<and> master_nowait_inv c q s' \<and> dyn_frame q s s' \<and> own_responses q s'"
    using master_nowait_ok [OF q, of c] dyn_frame_track unfolding master_nowait_inv_def by blast
next
  fix q q' :: "'r prp list" and s s' :: "('r, 'w) app_state"
  assume i: "master_nowait_inv c q s" and a: "queue_ok q" "queue_ok q'" "set (unfinished q s) \<subseteq> set q'"
    "\<forall>p \<in> set q'. p \<in> set (unfinished q s) \<or> eval_id p \<notin> eval_id ` set q" "\<forall>p \<in> set q'. map_of (rawResponseMap s') (eval_id p) = None"
    "all_ready q' s'" "beforeSynchCorePRPQueue s' = q'" and e: "same_schedule s s'"
    and h: "\<forall>p \<in> set q. responseActiveSet (resp_at s' (prpResponse p)) = responseActiveSet (resp_at s (prpResponse p))"
  have f: "msgPassRunningMap s' = msgPassRunningMap s" "msgBuffers s' = msgBuffers s" using e by (simp_all add: same_schedule_def)
  have "\<exists>R'. books_ok q' (capacity_of c) R' s'" if "\<exists>R. books_ok q (capacity_of c) R s"
    using that books_resume [OF _ a f h] by blast
  then show "master_nowait_inv c q' s'"
    using i a e by (auto simp: master_nowait_inv_def master_books_def same_schedule_def)
qed

section \<open>The dynamic schedule among peers\<close>

definition peer_nowait_inv :: "('r::zero, 'w) app_config \<Rightarrow> 'r prp list \<Rightarrow> ('r, 'w) app_state \<Rightarrow> bool" where
  "peer_nowait_inv c q s \<longleftrightarrow> peer_nowait_config c \<and> peer_books c q s"

text \<open>The jobs that run locally are not among those that run on another peer, before and after the queue changes.\<close>

lemma local_books_resume:
  assumes b: "books_ok q n (ids (active s) + W) s" and q: "queue_ok q" "queue_ok q'" and u: "set (unfinished q s) \<subseteq> set q'"
    and new: "\<forall>p \<in> set q'. p \<in> set (unfinished q s) \<or> eval_id p \<notin> eval_id ` set q"
    and s': "\<forall>p \<in> set q'. map_of (rawResponseMap s') (eval_id p) = None" "all_ready q' s'" "beforeSynchCorePRPQueue s' = q'"
      "msgPassRunningMap s' = msgPassRunningMap s" "msgBuffers s' = msgBuffers s"
      "\<forall>p \<in> set q. responseActiveSet (resp_at s' (prpResponse p)) = responseActiveSet (resp_at s (prpResponse p))"
    and j: "jobs_ok q' s'" "active s' = active s"
  shows "\<exists>W'. books_ok q' n (ids (active s') + W') s'"
proof -
  obtain R' where R': "books_ok q' n R' s'" using books_resume [OF b q u new s'] by blast
  have r: "mset (map fst (msgPassRunningMap s)) + (ids (active s) + W) = ids (unfinished q s)"
    "mset (map fst (msgPassRunningMap s)) + R' = ids (unfinished q' s')"
    using running_books [OF q(1)] running_books [OF q(2)] b R' s'(4) by (auto simp: books_ok_def)
  have "ids (active s) \<subseteq># R'"
  proof (rule mset_subset_eqI)
    fix i
    show "count (ids (active s)) i \<le> count R' i"
    proof (cases "i \<in># ids (active s)")
      case True
      have "count (ids (unfinished q s)) i \<le> 1" using unfinished_ids(1) [OF q(1), of s] by (simp add: distinct_count_atmost_1)
      moreover have "0 < count (ids (active s)) i" using True by (simp only: count_greater_zero_iff)
      ultimately have "count (mset (map fst (msgPassRunningMap s))) i = 0"
        using arg_cong [OF r(1), of "\<lambda>m. count m i"] unfolding count_union by linarith
      then have "count R' i = count (ids (unfinished q' s')) i" using arg_cong [OF r(2), of "\<lambda>m. count m i"] unfolding count_union by linarith
      then show ?thesis using unfinished_parts [OF q(2) j(1)] j(2) by simp
    next
      case False
      then show ?thesis by (simp only: not_in_iff)
    qed
  qed
  then obtain W' where "R' = ids (active s') + W'" using j(2) by (metis subset_mset.le_iff_add)
  then show ?thesis using R' by blast
qed

interpretation peer_nowait: nonblocking_scheduler "\<lambda>q. peer_dynamic_schedule_evaluations_nowait c" "peer_nowait_inv c"
  for c :: "('r::zero, 'w) app_config"
proof
  fix q :: "'r prp list" and s :: "('r, 'w) app_state"
  assume i: "peer_nowait_inv c q s" and q: "queue_ok q" "q \<noteq> []" "\<forall>p \<in> set q. 0 < eval_id p"
    "\<forall>p \<in> set q. map_of (rawResponseMap s) (eval_id p) = None"
  then show "\<exists>s'. peer_dynamic_schedule_evaluations_nowait c s = Inr s' \<and> peer_nowait_inv c q s' \<and> dyn_frame q s s' \<and> own_responses q s'"
    using peer_nowait_ok [OF q, of c] unfolding peer_nowait_inv_def by blast
next
  fix q q' :: "'r prp list" and s s' :: "('r, 'w) app_state"
  assume i: "peer_nowait_inv c q s" and a: "queue_ok q" "queue_ok q'" "set (unfinished q s) \<subseteq> set q'"
    "\<forall>p \<in> set q'. p \<in> set (unfinished q s) \<or> eval_id p \<notin> eval_id ` set q" "\<forall>p \<in> set q'. map_of (rawResponseMap s') (eval_id p) = None"
    "all_ready q' s'" "beforeSynchCorePRPQueue s' = q'" and e: "same_schedule s s'"
    and h: "\<forall>p \<in> set q. responseActiveSet (resp_at s' (prpResponse p)) = responseActiveSet (resp_at s (prpResponse p))"
  have f: "msgPassRunningMap s' = msgPassRunningMap s" "msgBuffers s' = msgBuffers s" "active s' = active s"
    using e by (simp_all add: same_schedule_def)
  have pb: "peer_books c q s" using i by (simp add: peer_nowait_inv_def)
  have j: "jobs_ok q' s'" by (rule jobs_ok_resume [OF _ a(3,5) f(3)]) (use pb in \<open>simp add: peer_books_def\<close>)
  have "\<exists>W'. books_ok q' (remote_capacity_of c) (ids (active s') + W') s'" if "\<exists>W. books_ok q (remote_capacity_of c) (ids (active s) + W) s"
    using that local_books_resume [OF _ a f(1,2) h j f(3)] by blast
  then show "peer_nowait_inv c q' s'" using i a(6,7) f j by (auto simp: peer_nowait_inv_def peer_books_def)
qed

section \<open>The selected schedule\<close>

text \<open>The static schedule among peers is excluded.\<close>

definition nowait_inv :: "('r::zero, 'w) app_config \<Rightarrow> 'r prp list \<Rightarrow> ('r, 'w) app_state \<Rightarrow> bool" where
  "nowait_inv c q s \<longleftrightarrow> (if ieMessagePass c then if ieDedMasterFlag c then master_nowait_inv c q s else \<not> static_peers c \<and> peer_nowait_inv c q s
     else local_nowait_inv c q s)"

interpretation any_nowait: nonblocking_scheduler "\<lambda>q. nonblocking_schedule fuel c" "nowait_inv c"
  for fuel and c :: "('r::{zero, one, plus, minus, inverse, abs, ord}, 'w) app_config"
proof
  fix q :: "'r prp list" and s :: "('r, 'w) app_state"
  assume "nowait_inv c q s" "queue_ok q" "q \<noteq> []" "beforeSynchCorePRPQueue s = q" "all_ready q s" "\<forall>p \<in> set q. 0 < eval_id p"
    "\<forall>p \<in> set q. map_of (rawResponseMap s) (eval_id p) = None"
  then show "\<exists>s'. nonblocking_schedule fuel c s = Inr s' \<and>
      nowait_inv c q s' \<and> dyn_frame q s s' \<and> own_responses q s'"
    using local_nowait.step [of c q s] master_nowait.step [of c q s] peer_nowait.step [of c q s]
    by (cases "ieMessagePass c"; cases "ieDedMasterFlag c") (simp_all add: nowait_inv_def nonblocking_schedule_def)
next
  fix q q' :: "'r prp list" and s s' :: "('r, 'w) app_state"
  assume a: "nowait_inv c q s" "queue_ok q" "queue_ok q'" "set (unfinished q s) \<subseteq> set q'"
    "\<forall>p \<in> set q'. p \<in> set (unfinished q s) \<or> eval_id p \<notin> eval_id ` set q" "\<forall>p \<in> set q'. map_of (rawResponseMap s') (eval_id p) = None"
    "all_ready q' s'" "beforeSynchCorePRPQueue s' = q'" "same_schedule s s'"
    "\<forall>p \<in> set q. responseActiveSet (resp_at s' (prpResponse p)) = responseActiveSet (resp_at s (prpResponse p))"
  show "nowait_inv c q' s'"
    using a(1) local_nowait.resume [OF _ a(2-)] master_nowait.resume [OF _ a(2-)] peer_nowait.resume [OF _ a(2-)]
    by (cases "ieMessagePass c"; cases "ieDedMasterFlag c") (simp_all add: nowait_inv_def)
qed

section \<open>Nonblocking synchronization\<close>

definition service_ok :: "('r::zero, 'w) app_config \<Rightarrow> ('r, 'w) app_state \<Rightarrow> bool" where
  "service_ok c s \<longleftrightarrow> app_ok s \<and> nowait_inv c (beforeSynchCorePRPQueue s) (s\<lparr>rawResponseMap := []\<rparr>)"

lemma clear_completed_all:
  "foldl (\<lambda>s e. clear_completed (fst e) s) s es = s\<lparr>beforeSynchCorePRPQueue := filter (\<lambda>p. eval_id p \<notin> fst ` set es) (beforeSynchCorePRPQueue s),
     beforeSynchDuplicateMap := filter (\<lambda>d. fst d \<notin> fst ` set es) (beforeSynchDuplicateMap s)\<rparr>"
proof (induction es arbitrary: s)
  case (Cons e es)
  show ?case unfolding foldl.simps Cons.IH
    by (simp add: clear_completed_def queue_erase_def uidx_erase_def map_erase_def)
qed simp

lemma add_cached_nowait_eq:
  "\<exists>R f. add_cached_nowait (length (cachedResponseMap s)) (length (historyDuplicateMap s)) s =
      s\<lparr>rawResponseMap := R, cachedResponseMap := [], historyDuplicateMap := [], headerFlag := f\<rparr> \<and>
    map_of R = map_of (historyDuplicateMap s) ++ (map_of (cachedResponseMap s) ++ map_of (rawResponseMap s))"
proof -
  let ?R1 = "if cachedResponseMap s = [] then rawResponseMap s else map_insert_range (cachedResponseMap s) (rawResponseMap s)"
  let ?R = "if historyDuplicateMap s = [] then ?R1 else map_insert_range (historyDuplicateMap s) ?R1"
  let ?f = "if cachedResponseMap s = [] \<and> historyDuplicateMap s = [] then headerFlag s else True"
  have "add_cached_nowait (length (cachedResponseMap s)) (length (historyDuplicateMap s)) s =
      s\<lparr>rawResponseMap := ?R, cachedResponseMap := [], historyDuplicateMap := [], headerFlag := ?f\<rparr>"
    by (simp add: add_cached_nowait_def Let_def)
  moreover have "map_of ?R = map_of (historyDuplicateMap s) ++ (map_of (cachedResponseMap s) ++ map_of (rawResponseMap s))" by simp
  ultimately show ?thesis by blast
qed

text \<open>The schedule and the duplicates it completes.\<close>

lemma nowait_schedule_part:
  assumes ok: "service_ok c s" and c: "simulations_only c"
  shows "\<exists>s1. (if beforeSynchCorePRPQueue s \<noteq> [] then nonblocking_schedule fuel c (s\<lparr>rawResponseMap := []\<rparr>) else Inr (s\<lparr>rawResponseMap := []\<rparr>)) = Inr s1 \<and>
    nowait_inv c (beforeSynchCorePRPQueue s) s1 \<and> dyn_frame (beforeSynchCorePRPQueue s) (s\<lparr>rawResponseMap := []\<rparr>) s1 \<and>
    own_responses (beforeSynchCorePRPQueue s) s1 \<and> fst ` set (rawResponseMap s1) \<subseteq> eval_id ` set (beforeSynchCorePRPQueue s)"
proof (cases "beforeSynchCorePRPQueue s = []")
  case True
  then show ?thesis using ok by (auto simp: service_ok_def own_responses_def)
next
  case False
  let ?q = "beforeSynchCorePRPQueue s" and ?s0 = "s\<lparr>rawResponseMap := []\<rparr>"
  have "queue_ok ?q" "all_ready ?q ?s0" "\<forall>p \<in> set ?q. 0 < eval_id p" "nowait_inv c ?q ?s0"
    using ok by (auto simp: service_ok_def app_ok_def ids_ok_def all_ready_def outstanding_def)
  then show ?thesis using any_nowait.step_completes [of c ?q ?s0 fuel] False by auto
qed

definition completed_duplicates :: "('r, 'w) app_state \<Rightarrow> (int \<times> int \<times> rref) list" where
  "completed_duplicates s = filter (\<lambda>(i, t, b). map_of (rawResponseMap s) t \<noteq> None) (beforeSynchDuplicateMap s)"

lemma nowait_duplicates_part:
  assumes d: "\<forall>e \<in> set (beforeSynchDuplicateMap s). duplicate_ok s e" "distinct (map fst (beforeSynchDuplicateMap s))"
      "distinct (map (\<lambda>e. snd (snd e)) (beforeSynchDuplicateMap s))"
    and q: "queue_ok (beforeSynchCorePRPQueue s)" "all_ready (beforeSynchCorePRPQueue s) s"
      "eval_id ` set (beforeSynchCorePRPQueue s) \<inter> fst ` set (beforeSynchDuplicateMap s) = {}"
  shows "\<exists>s'. (if length (beforeSynchDuplicateMap s) \<noteq> 0 \<and> rawResponseMap s \<noteq> [] then rfold test_duplicate (beforeSynchDuplicateMap s) s
      else Inr s) = Inr s' \<and> duplicates_done (completed_duplicates s) s s'"
proof -
  let ?D = "beforeSynchDuplicateMap s" and ?Q = "beforeSynchCorePRPQueue s" and ?es = "completed_duplicates s"
  have "\<forall>(i, t, b) \<in> set ?D. lookup_by_eval_id t ?Q \<noteq> None \<and> t \<in> eval_id ` set ?Q"
    using d(1) duplicate_lookup by (fastforce simp: duplicate_ok_def)
  then have eq: "rfold test_duplicate ?D s = rfold finish_duplicate ?es s"
    unfolding completed_duplicates_def using q(3) by (intro test_duplicates_eq [where q = ?Q and T = "eval_id ` set ?Q"]) auto
  have "distinct (map fst ?es)" "distinct (map (\<lambda>e. snd (snd e)) ?es)"
    using d(2,3) by (auto simp: completed_duplicates_def distinct_map_filter)
  moreover have "\<forall>e \<in> set ?es. duplicate_ok s e" using d(1) by (simp add: completed_duplicates_def)
  ultimately obtain s' where "rfold finish_duplicate ?es s = Inr s'" "duplicates_done ?es s s'"
    using finish_duplicates_ok [of ?es s] q(1,2) by blast
  moreover have "?es = []" if "rawResponseMap s = [] \<or> ?D = []"
    using that by (auto simp: completed_duplicates_def)
  ultimately show ?thesis using eq duplicates_done_Nil by (cases "rawResponseMap s = [] \<or> ?D = []") auto
qed

text \<open>The state after the completed evaluations were taken out of the books.\<close>

definition without_completed :: "('r, 'w) app_state \<Rightarrow> ('r, 'w) app_state" where
  "without_completed s = s\<lparr>
     beforeSynchCorePRPQueue := filter (\<lambda>p. eval_id p \<notin> fst ` set (rawResponseMap s)) (beforeSynchCorePRPQueue s),
     beforeSynchDuplicateMap := filter (\<lambda>d. fst d \<notin> fst ` set (rawResponseMap s)) (beforeSynchDuplicateMap s)\<rparr>"

lemma keys_filter: "g ` set (filter (\<lambda>x. g x \<notin> K) xs) = g ` set xs - K" by auto

lemma omap_ok_filter: "omap_ok m \<Longrightarrow> omap_ok (filter P m)"
  unfolding omap_ok_def by (induction m) auto

text \<open>What the parts of a nonblocking synchronization do: \<open>s1\<close> is the state after the schedule, \<open>s2\<close> the
  one after the duplicates, \<open>R\<close> the answers with the cached ones.\<close>

definition nowait_parts ::
    "('r::zero, 'w) app_config \<Rightarrow> ('r, 'w) app_state \<Rightarrow> ('r, 'w) app_state \<Rightarrow> ('r, 'w) app_state \<Rightarrow> (int \<times> rref) list \<Rightarrow> bool" where
  "nowait_parts c s s1 s2 R \<longleftrightarrow> nowait_inv c (beforeSynchCorePRPQueue s) s1 \<and> dyn_frame (beforeSynchCorePRPQueue s) (s\<lparr>rawResponseMap := []\<rparr>) s1 \<and>
     own_responses (beforeSynchCorePRPQueue s) s1 \<and> fst ` set (rawResponseMap s1) \<subseteq> eval_id ` set (beforeSynchCorePRPQueue s) \<and>
     (\<exists>x. duplicates_done (completed_duplicates s1) (s1\<lparr>headerFlag := x\<rparr>) s2) \<and>
     map_of R = map_of (historyDuplicateMap s) ++ (map_of (cachedResponseMap s) ++ map_of (rawResponseMap s2))"

lemma nowait_frame:
  assumes "dyn_frame q (s\<lparr>rawResponseMap := []\<rparr>) s1"
  shows "beforeSynchCorePRPQueue s1 = beforeSynchCorePRPQueue s" "beforeSynchDuplicateMap s1 = beforeSynchDuplicateMap s"
    "historyDuplicateMap s1 = historyDuplicateMap s" "cachedResponseMap s1 = cachedResponseMap s"
    "evalIdCntr s1 = evalIdCntr s" "nextRef s1 = nextRef s" "set (data_pairs s1) \<subseteq> set (data_pairs s) \<union> set q"
    "\<forall>a. a \<notin> prpResponse ` set q \<longrightarrow> resp_at s1 a = resp_at s a" "\<forall>a. resp_ready (resp_at s a) \<longrightarrow> resp_ready (resp_at s1 a)"
    "\<forall>a. responseActiveSet (resp_at s1 a) = responseActiveSet (resp_at s a)"
  using assms by (simp_all add: dyn_frame_def sched_frame_def)

lemma app_ok_parts:
  assumes "app_ok s"
  shows "eval_id ` set (beforeSynchCorePRPQueue s) \<inter> (fst ` set (historyDuplicateMap s) \<union> fst ` set (beforeSynchDuplicateMap s) \<union> fst ` set (cachedResponseMap s)) = {}"
    "fst ` set (historyDuplicateMap s) \<inter> (fst ` set (beforeSynchDuplicateMap s) \<union> fst ` set (cachedResponseMap s)) = {}"
    "fst ` set (beforeSynchDuplicateMap s) \<inter> fst ` set (cachedResponseMap s) = {}"
    "queue_ok (beforeSynchCorePRPQueue s)" "omap_ok (beforeSynchDuplicateMap s)" "all_ready (beforeSynchCorePRPQueue s) s"
    "distinct (map fst (beforeSynchDuplicateMap s))" "distinct (map (\<lambda>e. snd (snd e)) (beforeSynchDuplicateMap s))"
  using assms by (simp_all add: app_ok_def ids_ok_def all_ready_def omap_distinct)

lemma nowait_run:
  assumes ok: "service_ok c s" and c: "simulations_only c"
  shows "\<exists>s1 s2 R x. synchronize_nowait fuel c s = Inr (without_completed
      (s2\<lparr>rawResponseMap := R, cachedResponseMap := [], historyDuplicateMap := [], headerFlag := x\<rparr>)) \<and> nowait_parts c s s1 s2 R"
proof -
  let ?Q = "beforeSynchCorePRPQueue s" and ?H = "historyDuplicateMap s" and ?D = "beforeSynchDuplicateMap s" and ?C = "cachedResponseMap s"
  have ao: "app_ok s" using ok by (simp add: service_ok_def)
  note dj = app_ok_parts [OF ao]
  obtain s1 where s1: "(if ?Q \<noteq> [] then nonblocking_schedule fuel c (s\<lparr>rawResponseMap := []\<rparr>) else Inr (s\<lparr>rawResponseMap := []\<rparr>)) = Inr s1"
      "nowait_inv c ?Q s1" "dyn_frame ?Q (s\<lparr>rawResponseMap := []\<rparr>) s1" "own_responses ?Q s1" "fst ` set (rawResponseMap s1) \<subseteq> eval_id ` set ?Q"
    using nowait_schedule_part [OF ok c] by blast
  note f1 = nowait_frame [OF s1(3)]
  define s1h where "s1h = s1\<lparr>headerFlag := (rawResponseMap s1 \<noteq> [])\<rparr>"
  have d1: "duplicate_ok s1h e" if "e \<in> set ?D" for e
  proof -
    have "duplicate_ok s e" using ao that by (simp add: app_ok_def)
    then show ?thesis using f1(1,8,10) by (auto simp: duplicate_ok_def s1h_def)
  qed
  have hq: "beforeSynchCorePRPQueue s1h = ?Q" "beforeSynchDuplicateMap s1h = ?D" "all_ready ?Q s1h" "eval_id ` set ?Q \<inter> fst ` set ?D = {}"
    using f1(1,2,9) dj(1,6) by (auto simp: s1h_def all_ready_def)
  obtain s2 where s2: "(if length ?D \<noteq> 0 \<and> rawResponseMap s1h \<noteq> [] then rfold test_duplicate ?D s1h else Inr s1h) = Inr s2"
      "duplicates_done (completed_duplicates s1h) s1h s2"
    using nowait_duplicates_part [of s1h, unfolded hq(1,2)] d1 dj(4,7,8) hq(3,4) by blast
  obtain R2 h2 where e2: "s2 = s1h\<lparr>heap := h2, rawResponseMap := R2\<rparr>" using s2(2) unfolding duplicates_done_def by blast
  obtain R x where s3: "add_cached_nowait (length ?C) (length ?H) s2 = s2\<lparr>rawResponseMap := R, cachedResponseMap := [], historyDuplicateMap := [], headerFlag := x\<rparr>"
      "map_of R = map_of ?H ++ (map_of ?C ++ map_of (rawResponseMap s2))"
    using add_cached_nowait_eq [of s2] f1(3,4) by (auto simp: e2 s1h_def)
  define s3' where "s3' = s2\<lparr>rawResponseMap := R, cachedResponseMap := [], historyDuplicateMap := [], headerFlag := x\<rparr>"
  have "synchronize_nowait fuel c s = Inr (without_completed s3')"
  proof -
    have "synchronize_nowait fuel c s = rbind (if length ?D \<noteq> 0 \<and> rawResponseMap s1h \<noteq> [] then rfold test_duplicate (beforeSynchDuplicateMap s1h) s1h else Inr s1h)
        (\<lambda>s2. rbind (merge_algebraic_nowait c (add_cached_nowait (length ?C) (length ?H) s2))
          (\<lambda>s3. Inr (foldl (\<lambda>s e. clear_completed (fst e) s) s3 (rawResponseMap s3))))"
      using s1(1) c unfolding synchronize_nowait_def Let_def by (simp add: simulations_only_def s1h_def)
    also have "\<dots> = rbind (merge_algebraic_nowait c s3') (\<lambda>s3. Inr (foldl (\<lambda>s e. clear_completed (fst e) s) s3 (rawResponseMap s3)))"
      unfolding hq(2) s2(1) rbind.simps s3(1) s3'_def by (rule refl)
    also have "\<dots> = Inr (without_completed s3')"
      using c unfolding clear_completed_all without_completed_def by (simp add: simulations_only_def merge_algebraic_nowait_def)
    finally show ?thesis .
  qed
  moreover have "nowait_parts c s s1 s2 R"
    using s1(2-5) s2(2) s3(2) unfolding nowait_parts_def s1h_def by (auto simp: completed_duplicates_def)
  ultimately show ?thesis unfolding s3'_def by blast
qed


lemma nowait_answers:
  assumes ok: "app_ok s" and p: "nowait_parts c s s1 s2 R"
  shows "dom (map_of R) = fst ` set (rawResponseMap s1) \<union> fst ` set (completed_duplicates s1) \<union>
      fst ` set (historyDuplicateMap s) \<union> fst ` set (cachedResponseMap s)"
    "\<forall>q \<in> set (beforeSynchCorePRPQueue s). map_of R (eval_id q) = map_of (rawResponseMap s1) (eval_id q)"
    "\<forall>(i, t, b) \<in> set (completed_duplicates s1). map_of R i = Some b"
    "\<forall>(i, t, b) \<in> set (beforeSynchDuplicateMap s). i \<in> dom (map_of R) \<longleftrightarrow> t \<in> dom (map_of R)"
proof -
  let ?Q = "beforeSynchCorePRPQueue s" and ?H = "historyDuplicateMap s" and ?D = "beforeSynchDuplicateMap s" and ?C = "cachedResponseMap s"
  let ?es = "completed_duplicates s1"
  note dj = app_ok_parts [OF ok]
  note f1 = nowait_frame [of ?Q s s1]
  have D1: "beforeSynchDuplicateMap s1 = ?D" using p f1(2) by (simp add: nowait_parts_def)
  have es: "set ?es \<subseteq> set ?D" "distinct (map fst ?es)" using dj(7) D1 by (auto simp: completed_duplicates_def distinct_map_filter)
  have raw2: "map_of (rawResponseMap s2) i = (case map_of ?es i of None \<Rightarrow> map_of (rawResponseMap s1) i | Some (t, b) \<Rightarrow> Some b)" for i
  proof -
    obtain x where "duplicates_done ?es (s1\<lparr>headerFlag := x\<rparr>) s2" using p by (auto simp: nowait_parts_def)
    then show ?thesis by (simp add: duplicates_done_def split: option.split)
  qed
  have R: "map_of R = map_of ?H ++ (map_of ?C ++ map_of (rawResponseMap s2))" using p by (simp add: nowait_parts_def)
  have "dom (map_of (rawResponseMap s2)) = dom (map_of (rawResponseMap s1)) \<union> dom (map_of ?es)"
    by (auto simp: raw2 dom_def split: option.splits)
  then show dom: "dom (map_of R) = fst ` set (rawResponseMap s1) \<union> fst ` set ?es \<union> fst ` set ?H \<union> fst ` set ?C"
    unfolding R dom_map_add dom_map_of by auto
  have nHC: "map_of R i = map_of (rawResponseMap s2) i" if "i \<notin> fst ` set ?H \<union> fst ` set ?C" for i
  proof -
    have "map_of ?H i = None" "map_of ?C i = None" using that by (auto simp: map_of_eq_None_iff)
    then show ?thesis unfolding R by (simp add: map_add_def split: option.splits)
  qed
  show "\<forall>q \<in> set ?Q. map_of R (eval_id q) = map_of (rawResponseMap s1) (eval_id q)"
  proof
    fix q assume "q \<in> set ?Q"
    then have "eval_id q \<notin> fst ` set ?H \<union> fst ` set ?C" "eval_id q \<notin> fst ` set ?es" using dj(1) es(1) by blast+
    then show "map_of R (eval_id q) = map_of (rawResponseMap s1) (eval_id q)" using nHC raw2 by (simp add: map_of_eq_None_iff [symmetric])
  qed
  have "map_of R i = Some b" if e: "(i, t, b) \<in> set ?es" for i t b
  proof -
    have "(i, t, b) \<in> set ?D" using e es(1) by blast
    then have "i \<in> fst ` set ?D" by force
    then have "i \<notin> fst ` set ?H \<union> fst ` set ?C" using dj(2,3) by blast
    then show ?thesis using nHC raw2 [of i] e es(2) by simp
  qed
  then show "\<forall>(i, t, b) \<in> set ?es. map_of R i = Some b" by blast
  show "\<forall>(i, t, b) \<in> set ?D. i \<in> dom (map_of R) \<longleftrightarrow> t \<in> dom (map_of R)"
  proof (clarify)
    fix i t b assume e: "(i, t, b) \<in> set ?D"
    then have iD: "i \<in> fst ` set ?D" by force
    have "duplicate_ok s (i, t, b)" using ok e by (simp add: app_ok_def)
    then have tQ: "t \<in> eval_id ` set ?Q" by (auto simp: duplicate_ok_def)
    have "fst ` set (rawResponseMap s1) \<subseteq> eval_id ` set ?Q" using p by (simp add: nowait_parts_def)
    then have "i \<notin> fst ` set (rawResponseMap s1)" using iD dj(1) by (meson UnI1 UnI2 disjoint_iff subsetD)
    moreover have "i \<notin> fst ` set ?H" using iD dj(2) by (meson UnI1 disjoint_iff)
    moreover have "i \<notin> fst ` set ?C" using iD dj(3) by (meson disjoint_iff)
    ultimately have "i \<in> dom (map_of R) \<longleftrightarrow> i \<in> fst ` set ?es" unfolding dom by simp
    also have "\<dots> \<longleftrightarrow> t \<in> fst ` set (rawResponseMap s1)"
    proof -
      have "i \<in> fst ` set ?es \<longleftrightarrow> (i, t, b) \<in> set ?es"
      proof
        assume "i \<in> fst ` set ?es"
        then obtain t' b' where x: "(i, t', b') \<in> set ?es" by force
        then have "(i, t', b') \<in> set ?D" using es(1) by blast
        then have "t' = t" "b' = b" using e dj(7) eq_key_imp_eq_value by fastforce+
        then show "(i, t, b) \<in> set ?es" using x by simp
      qed force
      also have "\<dots> \<longleftrightarrow> t \<in> fst ` set (rawResponseMap s1)"
        using e D1 by (simp add: completed_duplicates_def map_of_eq_None_iff)
      finally show ?thesis .
    qed
    also have "\<dots> \<longleftrightarrow> t \<in> dom (map_of R)"
    proof -
      have "t \<notin> fst ` set ?es" "t \<notin> fst ` set ?H" "t \<notin> fst ` set ?C" using tQ dj(1) es(1) by blast+
      then show ?thesis unfolding dom by blast
    qed
    finally show "i \<in> dom (map_of R) \<longleftrightarrow> t \<in> dom (map_of R)" .
  qed
qed


lemma stored_of_parts:
  assumes p: "nowait_parts c s s1 s2 R" and ok: "app_ok s"
  shows "beforeSynchCorePRPQueue s2 = beforeSynchCorePRPQueue s" "beforeSynchDuplicateMap s2 = beforeSynchDuplicateMap s"
    "evalIdCntr s2 = evalIdCntr s" "nextRef s2 = nextRef s" "data_pairs s2 = data_pairs s1" "same_schedule s1 s2"
    "set (data_pairs s1) \<subseteq> set (data_pairs s) \<union> set (beforeSynchCorePRPQueue s)"
    "\<forall>a. resp_ready (resp_at s a) \<longrightarrow> resp_ready (resp_at s2 a)"
    "\<forall>p \<in> set (beforeSynchCorePRPQueue s). resp_at s2 (prpResponse p) = resp_at s1 (prpResponse p)"
    "\<forall>a. a \<notin> prpResponse ` set (beforeSynchCorePRPQueue s) \<longrightarrow> a \<notin> (\<lambda>e. snd (snd e)) ` set (completed_duplicates s1) \<longrightarrow> resp_at s2 a = resp_at s a"
    "\<forall>(i, t, b) \<in> set (completed_duplicates s1). \<forall>p \<in> set (beforeSynchCorePRPQueue s). eval_id p = t \<longrightarrow> answered s2 p b"
proof -
  let ?Q = "beforeSynchCorePRPQueue s"
  note f1 = nowait_frame [of ?Q s s1]
  have fr: "dyn_frame ?Q (s\<lparr>rawResponseMap := []\<rparr>) s1" using p by (simp add: nowait_parts_def)
  obtain x where d: "duplicates_done (completed_duplicates s1) (s1\<lparr>headerFlag := x\<rparr>) s2" using p by (auto simp: nowait_parts_def)
  obtain R2 h2 where e: "s2 = s1\<lparr>headerFlag := x, heap := h2, rawResponseMap := R2\<rparr>" using d unfolding duplicates_done_def by blast
  show "beforeSynchCorePRPQueue s2 = ?Q" "beforeSynchDuplicateMap s2 = beforeSynchDuplicateMap s"
    "evalIdCntr s2 = evalIdCntr s" "nextRef s2 = nextRef s" "data_pairs s2 = data_pairs s1" "same_schedule s1 s2"
    using f1(1,2,5,6) [OF fr] by (simp_all add: e same_schedule_def)
  show "set (data_pairs s1) \<subseteq> set (data_pairs s) \<union> set ?Q" by (rule f1(7) [OF fr])
  show "\<forall>a. resp_ready (resp_at s a) \<longrightarrow> resp_ready (resp_at s2 a)" using f1(9) [OF fr] d by (simp add: duplicates_done_def)
  have "snd (snd e) \<notin> prpResponse ` set ?Q" if "e \<in> set (completed_duplicates s1)" for e
  proof -
    have "e \<in> set (beforeSynchDuplicateMap s)" using that f1(2) [OF fr] by (simp add: completed_duplicates_def)
    then have "duplicate_ok s e" using ok by (simp add: app_ok_def)
    then show ?thesis by (auto simp: duplicate_ok_def split: prod.splits)
  qed
  then have "prpResponse p \<notin> (\<lambda>e. snd (snd e)) ` set (completed_duplicates s1)" if "p \<in> set ?Q" for p using that by force
  then show "\<forall>p \<in> set ?Q. resp_at s2 (prpResponse p) = resp_at s1 (prpResponse p)" using d by (simp add: duplicates_done_def)
  show "\<forall>a. a \<notin> prpResponse ` set ?Q \<longrightarrow> a \<notin> (\<lambda>e. snd (snd e)) ` set (completed_duplicates s1) \<longrightarrow> resp_at s2 a = resp_at s a"
    using d f1(8) [OF fr] by (simp add: duplicates_done_def)
  show "\<forall>(i, t, b) \<in> set (completed_duplicates s1). \<forall>p \<in> set ?Q. eval_id p = t \<longrightarrow> answered s2 p b"
    using d f1(1) [OF fr] by (auto simp: duplicates_done_def)
qed

text \<open>What is left is well formed: the duplicates that remain point to jobs that remain.\<close>

lemma nowait_rest_ok:
  assumes ok: "app_ok s" and p: "nowait_parts c s s1 s2 R"
    and s': "s' = without_completed (s2\<lparr>rawResponseMap := R, cachedResponseMap := [], historyDuplicateMap := [], headerFlag := x\<rparr>)"
  shows "outstanding s' = outstanding s - fst ` set R" "app_ok s'"
proof -
  let ?Q = "beforeSynchCorePRPQueue s" and ?D = "beforeSynchDuplicateMap s" and ?K = "fst ` set R"
  note dj = app_ok_parts [OF ok] and st = stored_of_parts [OF p ok] and an = nowait_answers [OF ok p, unfolded dom_map_of]
  have f: "beforeSynchCorePRPQueue s' = filter (\<lambda>p. eval_id p \<notin> ?K) ?Q" "beforeSynchDuplicateMap s' = filter (\<lambda>d. fst d \<notin> ?K) ?D"
    "historyDuplicateMap s' = []" "cachedResponseMap s' = []" "evalIdCntr s' = evalIdCntr s" "nextRef s' = nextRef s" "data_pairs s' = data_pairs s1"
    "resp_at s' = resp_at s2"
    using st(1-5) by (auto simp: s' without_completed_def)
  have HC: "fst ` set (historyDuplicateMap s) \<union> fst ` set (cachedResponseMap s) \<subseteq> ?K" using an(1) by blast
  show out: "outstanding s' = outstanding s - ?K"
    using HC unfolding outstanding_def f(1-4) keys_filter list.set image_empty by blast
  have "ids_ok s'"
    using ok dj queue_ok_filter [OF dj(4)] omap_ok_filter [OF dj(5)] unfolding app_ok_def ids_ok_def out f(1-5)
    by (auto simp: omap_ok_def)
  moreover have "duplicate_ok s' (i, t, b)" if e: "(i, t, b) \<in> set ?D" "i \<notin> ?K" for i t b
  proof -
    have d: "duplicate_ok s (i, t, b)" using ok e(1) by (simp add: app_ok_def)
    have tK: "t \<notin> ?K" using an(4) e by blast
    have "b \<notin> (\<lambda>e. snd (snd e)) ` set (completed_duplicates s1)"
    proof
      assume "b \<in> (\<lambda>e. snd (snd e)) ` set (completed_duplicates s1)"
      then obtain j u where j: "(j, u, b) \<in> set (completed_duplicates s1)" by force
      then have "(j, u, b) \<in> set (beforeSynchDuplicateMap s1)" by (simp add: completed_duplicates_def)
      moreover have "beforeSynchDuplicateMap s1 = ?D" using p nowait_frame(2) [of ?Q s s1] by (simp add: nowait_parts_def)
      ultimately have "(j, u, b) \<in> set ?D" by simp
      then have "(j, u, b) = (i, t, b)" using e(1) dj(8) inj_onD [of "\<lambda>e. snd (snd e)" "set ?D" "(j, u, b)" "(i, t, b)"] by (simp add: distinct_map)
      then have "i \<in> fst ` set (completed_duplicates s1)" using j by force
      then have "i \<in> ?K" using an(1) by simp
      then show False using e(2) by simp
    qed
    then have b: "resp_at s2 b = resp_at s b" using st(10) d by (simp add: duplicate_ok_def)
    have "responseActiveSet (resp_at s2 (prpResponse q)) = responseActiveSet (resp_at s (prpResponse q))" if "q \<in> set ?Q" for q
      using st(9) that p nowait_frame(10) [of ?Q s s1] by (simp add: nowait_parts_def)
    then show ?thesis using d b tK by (auto simp: duplicate_ok_def f(1) f(8))
  qed
  moreover have "distinct (map (\<lambda>e. snd (snd e)) (beforeSynchDuplicateMap s'))" using dj(8) by (simp add: f(2) distinct_map_filter)
  moreover have "resp_ready (resp_at s' (prpResponse q)) \<and> prpResponse q < nextRef s" if "q \<in> set (beforeSynchCorePRPQueue s') \<union> set (data_pairs s')" for q
  proof -
    have "q \<in> set ?Q \<union> set (data_pairs s)" using that st(7) by (auto simp: f(1,7))
    then show ?thesis using ok st(8) by (auto simp: app_ok_def stored_refs_def f(8))
  qed
  moreover have "snd (snd e) < nextRef s" if "e \<in> set ?D" for e
    using ok that by (auto simp: app_ok_def stored_refs_def duplicate_refs_def)
  ultimately show "app_ok s'" by (auto simp: app_ok_def stored_refs_def duplicate_refs_def f)
qed

lemma nowait_resume:
  fixes c :: "('r::{zero, one, plus, minus, inverse, abs, ord}, 'w) app_config"
  assumes ok: "app_ok s" and p: "nowait_parts c s s1 s2 R"
    and s': "s' = without_completed (s2\<lparr>rawResponseMap := R, cachedResponseMap := [], historyDuplicateMap := [], headerFlag := x\<rparr>)"
  shows "nowait_inv c (beforeSynchCorePRPQueue s') (s'\<lparr>rawResponseMap := []\<rparr>)"
proof -
  let ?Q = "beforeSynchCorePRPQueue s" and ?q = "beforeSynchCorePRPQueue s'" and ?t = "s'\<lparr>rawResponseMap := []\<rparr>"
  note dj = app_ok_parts [OF ok] and st = stored_of_parts [OF p ok] and an = nowait_answers [OF ok p]
  have q: "?q = filter (\<lambda>p. eval_id p \<notin> fst ` set R) ?Q" using st(1) by (simp add: s' without_completed_def)
  have un: "p \<in> set ?q \<longleftrightarrow> p \<in> set (unfinished ?Q s1)" for p
    using an(2) by (auto simp: q unfinished_def dom_map_of [symmetric] domIff)
  have "resp_at ?t = resp_at s2" by (rule ext) (simp add: s' without_completed_def)
  then have h: "all_ready ?q ?t" "\<forall>p \<in> set ?Q. responseActiveSet (resp_at ?t (prpResponse p)) = responseActiveSet (resp_at s1 (prpResponse p))"
    using st(8,9) dj(6) by (auto simp: all_ready_def q)
  have "same_schedule s1 ?t" using st(6) by (simp add: same_schedule_def s' without_completed_def)
  moreover have "nowait_inv c ?Q s1" using p by (simp add: nowait_parts_def)
  moreover have "queue_ok ?q" using queue_ok_filter [OF dj(4)] q by simp
  moreover have "set (unfinished ?Q s1) \<subseteq> set ?q" "\<forall>p \<in> set ?q. p \<in> set (unfinished ?Q s1) \<or> eval_id p \<notin> eval_id ` set ?Q"
    using un by blast+
  moreover have "\<forall>p \<in> set ?q. map_of (rawResponseMap ?t) (eval_id p) = None" "beforeSynchCorePRPQueue ?t = ?q" by simp_all
  ultimately show ?thesis using any_nowait.resume [where s' = ?t and q' = ?q, OF _ dj(4)] h by blast
qed

lemma completed_if_returned:
  assumes ok: "app_ok s" and p: "nowait_parts c s s1 s2 R" and e: "(i, t, b) \<in> set (beforeSynchDuplicateMap s)" and i: "i \<in> fst ` set R"
  shows "(i, t, b) \<in> set (completed_duplicates s1)"
proof -
  note an = nowait_answers [OF ok p]
  have "duplicate_ok s (i, t, b)" using ok e by (simp add: app_ok_def)
  then obtain q where "q \<in> set (beforeSynchCorePRPQueue s)" "eval_id q = t" by (auto simp: duplicate_ok_def)
  then have "map_of R t = map_of (rawResponseMap s1) t" using an(2) by blast
  moreover have "t \<in> dom (map_of R)" using an(4) e i unfolding dom_map_of by blast
  ultimately have "map_of (rawResponseMap s1) t \<noteq> None" by (simp add: domIff del: not_None_eq)
  moreover have "beforeSynchDuplicateMap s1 = beforeSynchDuplicateMap s"
    using p nowait_frame(2) [of "beforeSynchCorePRPQueue s" s s1] by (simp add: nowait_parts_def)
  ultimately show ?thesis using e by (simp add: completed_duplicates_def)
qed

text \<open>The answers that a nonblocking synchronization may give.\<close>

definition nowait_result :: "('r, 'w) app_state \<Rightarrow> ('r, 'w) app_state \<Rightarrow> bool" where
  "nowait_result s s' \<longleftrightarrow> (let K = fst ` set (rawResponseMap s') in
     K \<subseteq> outstanding s \<and> outstanding s' = outstanding s - K \<and> evalIdCntr s' = evalIdCntr s \<and>
     fst ` set (historyDuplicateMap s) \<union> fst ` set (cachedResponseMap s) \<subseteq> K \<and>
     (\<forall>p \<in> set (beforeSynchCorePRPQueue s). eval_id p \<in> K \<longrightarrow> map_of (rawResponseMap s') (eval_id p) = Some (prpResponse p)) \<and>
     (\<forall>(i, t, b) \<in> set (beforeSynchDuplicateMap s). (i \<in> K \<longleftrightarrow> t \<in> K) \<and>
       (i \<in> K \<longrightarrow> map_of (rawResponseMap s') i = Some b \<and>
         (\<forall>p \<in> set (beforeSynchCorePRPQueue s). eval_id p = t \<longrightarrow> answered s' p b))))"

lemma nowait_result_ok:
  assumes ok: "app_ok s" and p: "nowait_parts c s s1 s2 R"
    and s': "s' = without_completed (s2\<lparr>rawResponseMap := R, cachedResponseMap := [], historyDuplicateMap := [], headerFlag := x\<rparr>)"
  shows "nowait_result s s'"
proof -
  let ?Q = "beforeSynchCorePRPQueue s" and ?D = "beforeSynchDuplicateMap s" and ?K = "fst ` set R"
  note st = stored_of_parts [OF p ok] and an = nowait_answers [OF ok p]
  have f: "rawResponseMap s' = R" "evalIdCntr s' = evalIdCntr s" "resp_at s' = resp_at s2"
    using st(3) by (auto simp: s' without_completed_def)
  have es: "set (completed_duplicates s1) \<subseteq> set ?D"
    using p nowait_frame(2) [of ?Q s s1] by (auto simp: completed_duplicates_def nowait_parts_def)
  have "fst ` set (rawResponseMap s1) \<subseteq> eval_id ` set ?Q" using p by (simp add: nowait_parts_def)
  then have K: "?K \<subseteq> outstanding s" "fst ` set (historyDuplicateMap s) \<union> fst ` set (cachedResponseMap s) \<subseteq> ?K"
    using an(1) image_mono [OF es, of fst] unfolding dom_map_of outstanding_def by auto
  have own: "map_of R (eval_id q) = Some (prpResponse q)" if q: "q \<in> set ?Q" "eval_id q \<in> ?K" for q
  proof -
    obtain b where b: "map_of R (eval_id q) = Some b" using q(2) unfolding dom_map_of [symmetric] by blast
    then have "map_of (rawResponseMap s1) (eval_id q) = Some b" using an(2) q(1) by simp
    moreover have "own_responses ?Q s1" using p by (simp add: nowait_parts_def)
    ultimately show ?thesis using b q(1) by (auto simp: own_responses_def)
  qed
  have dup: "(i \<in> ?K \<longleftrightarrow> t \<in> ?K) \<and> (i \<in> ?K \<longrightarrow> map_of R i = Some b \<and> (\<forall>q \<in> set ?Q. eval_id q = t \<longrightarrow> answered s' q b))"
    if e: "(i, t, b) \<in> set ?D" for i t b
  proof (intro conjI impI)
    show "i \<in> ?K \<longleftrightarrow> t \<in> ?K" using an(4) e unfolding dom_map_of by blast
    assume i: "i \<in> ?K"
    have "(i, t, b) \<in> set (completed_duplicates s1)" by (rule completed_if_returned [OF ok p e i])
    then show "map_of R i = Some b" "\<forall>q \<in> set ?Q. eval_id q = t \<longrightarrow> answered s' q b"
      using an(3) st(11) by (auto simp: answered_def f(3))
  qed
  have "outstanding s' = outstanding s - ?K" by (rule nowait_rest_ok(1) [OF ok p s'])
  moreover have "\<forall>p \<in> set ?Q. eval_id p \<in> ?K \<longrightarrow> map_of R (eval_id p) = Some (prpResponse p)" using own by blast
  moreover have "\<forall>(i, t, b) \<in> set ?D. (i \<in> ?K \<longleftrightarrow> t \<in> ?K) \<and>
      (i \<in> ?K \<longrightarrow> map_of R i = Some b \<and> (\<forall>p \<in> set ?Q. eval_id p = t \<longrightarrow> answered s' p b))" using dup by blast
  ultimately show ?thesis unfolding nowait_result_def Let_def f(1,2) using K by (intro conjI) (assumption | rule refl)+
qed

theorem synchronize_nowait_ok:
  assumes "service_ok c s" "simulations_only c"
  shows "\<exists>s'. synchronize_nowait fuel c s = Inr s' \<and> service_ok c s' \<and> nowait_result s s'"
proof -
  have ok: "app_ok s" using assms(1) by (simp add: service_ok_def)
  obtain s1 s2 R x where r: "synchronize_nowait fuel c s = Inr (without_completed
      (s2\<lparr>rawResponseMap := R, cachedResponseMap := [], historyDuplicateMap := [], headerFlag := x\<rparr>))" "nowait_parts c s s1 s2 R"
    using nowait_run [OF assms, of fuel] by blast
  then show ?thesis
    using nowait_rest_ok(2) [OF ok r(2) refl] nowait_resume [OF ok r(2) refl] nowait_result_ok [OF ok r(2) refl]
    unfolding service_ok_def by blast
qed

section \<open>Submission\<close>

theorem map_service_ok:
  fixes c :: "('r::{zero, one, plus, minus, inverse, abs, ord}, 'w) app_config"
  assumes ok: "service_ok c s" and c: "simulations_only c" and a: "a < nextRef s" "a \<notin> stored_refs s" "request_fits st (resp_at s a)"
  shows "\<exists>s'. map_evaluation fuel c vars st a True s = Inr s' \<and> service_ok c s' \<and> evalIdCntr s' = evalIdCntr s + 1 \<and>
    outstanding s' = insert (evalIdCntr s + 1) (outstanding s)"
proof -
  let ?Q = "beforeSynchCorePRPQueue s"
  have ao: "app_ok s" "nowait_inv c ?Q (s\<lparr>rawResponseMap := []\<rparr>)" using ok by (simp_all add: service_ok_def)
  obtain s' where s': "map_evaluation fuel c vars st a True s = Inr s'" "app_ok s'" "evalIdCntr s' = evalIdCntr s + 1"
      "outstanding s' = insert (evalIdCntr s + 1) (outstanding s)" "submitted (evalIdCntr s + 1) s s'"
    using map_asynch_ok [OF ao(1) c a, of fuel vars] by blast
  let ?q = "beforeSynchCorePRPQueue s'" and ?t = "s'\<lparr>rawResponseMap := []\<rparr>"
  have "\<forall>i \<in> outstanding s. i \<le> evalIdCntr s" using ao(1) by (simp add: app_ok_def ids_ok_def)
  then have "evalIdCntr s + 1 \<notin> outstanding s" by (metis zle_add1_eq_le less_irrefl)
  then have new: "evalIdCntr s + 1 \<notin> eval_id ` set ?Q" by (simp add: outstanding_def)
  have un: "unfinished ?Q (s\<lparr>rawResponseMap := []\<rparr>) = ?Q" by (simp add: unfinished_def)
  have "nowait_inv c ?q ?t"
  proof (rule any_nowait.resume [OF ao(2) app_ok_parts(4) [OF ao(1)] app_ok_parts(4) [OF s'(2)]], unfold un)
    show "set ?Q \<subseteq> set ?q" "\<forall>p \<in> set ?q. p \<in> set ?Q \<or> eval_id p \<notin> eval_id ` set ?Q"
      using s'(5) new by (auto simp: submitted_def)
    show "all_ready ?q ?t" using app_ok_parts(6) [OF s'(2)] by (simp add: all_ready_def)
    show "same_schedule (s\<lparr>rawResponseMap := []\<rparr>) ?t" using s'(5) by (simp add: submitted_def same_schedule_def)
    show "\<forall>p \<in> set ?Q. responseActiveSet (resp_at ?t (prpResponse p)) =
        responseActiveSet (resp_at (s\<lparr>rawResponseMap := []\<rparr>) (prpResponse p))"
      using s'(5) by (simp add: submitted_def)
  qed simp_all
  then show ?thesis using s' by (auto simp: service_ok_def)
qed

end
