(* ===== verification/Message_Properties.thy ===== *)
theory Message_Properties
  imports Peer_Dynamic
begin

text \<open>
  The properties of the blocking message-passing schedules, obtained from the interpretations of
  the scheduler interface, and an example with three servers that answer every request with zeros.
\<close>

section \<open>A server that answers with zeros\<close>

definition zero_message :: "active_set \<Rightarrow> 'r::zero buffer" where
  "zero_message st =
    (let asv = requestVector st; nf = length asv; np = length (derivVarsVector st);
         gf = list_ex req_grad asv; hf = list_ex req_hess asv in
     put_bool True @ put_short 0 @ put_bool gf @ put_bool hf @ ActiveSet_write st @ put_size 0 @
     write_flagged put_real (zip (map req_val asv) (replicate nf 0)) @
     write_flagged (write_n put_real) (zip (map req_grad asv) (if gf then replicate nf (replicate np 0) else [])) @
     write_flagged (write_lower_triangle put_real) (zip (map req_hess asv) (if hf then replicate nf (sym_zero np) else [])) @
     write_container put_real [])"

lemma read_back:
  assumes "\<exists>zs. read_flagged get fs s = Inr (zs, t) \<and> length zs = length xs \<and>
      (\<forall>i < length zs. zs ! i = (if P i then xs ! i else xs ! i))"
  shows "read_flagged get fs s = Inr (xs, t)"
proof -
  obtain zs where "read_flagged get fs s = Inr (zs, t)" "length zs = length xs" "\<forall>i < length zs. zs ! i = xs ! i"
    using assms by auto
  then show ?thesis using nth_equalityI [of zs xs] by simp
qed

lemma tri_wf_zero: "tri_wf n (sym_zero n)"
  by (simp add: tri_wf_def sym_zero_def)

lemma zero_message_answers: "answers (zero_message st) st"
proof -
  let ?asv = "requestVector st" and ?np = "length (derivVarsVector st)" and ?nf = "length (requestVector st)"
  let ?gf = "list_ex req_grad ?asv" and ?hf = "list_ex req_hess ?asv"
  define r2 :: "'a response" where "r2 = reset (reshape_rep ?nf ?np ?gf ?hf (empty_response\<lparr>responseActiveSet := st\<rparr>))"
  have "resp_shaped (empty_response\<lparr>responseActiveSet := st\<rparr> :: 'a response)" by (simp add: resp_shaped_def empty_response_def mat_zero_def)
  note z = reset_reshape_zero [OF this, where nf = ?nf and np = ?np and gf = ?gf and hf = ?hf, folded r2_def]
  have s2: "responseActiveSet r2 = st" by (simp add: r2_def reset_def reshape_rep_def resp_asv_def resp_dvv_def)
  have g0: "functionGradients r2 = (if ?gf then mat_zero ?np ?nf else mat_zero 0 0)"
    using z(2) by (auto simp: r2_def reset_def reshape_rep_def empty_response_def mat_zero_def)
  let ?g = "m_cols (functionGradients r2)" and ?h = "functionHessians r2"
  have g: "?g = (if ?gf then replicate ?nf (replicate ?np 0) else [])" unfolding g0 by (simp add: mat_zero_def)
  let ?b4 = "write_container put_real ([] :: 'a list)"
  let ?b3 = "write_flagged (write_lower_triangle put_real) (zip (map req_hess ?asv) ?h)"
  let ?b2 = "write_flagged (write_n put_real) (zip (map req_grad ?asv) ?g)"
  let ?b1 = "write_flagged put_real (zip (map req_val ?asv) (functionValues r2))"
  have v1: "read_flagged get_real (zip (map req_val ?asv) (functionValues r2)) (?b1 @ (?b2 @ ?b3 @ ?b4)) =
      Inr (functionValues r2, ?b2 @ ?b3 @ ?b4)"
    by (rule read_back, rule real_item.block_round_trip) (simp_all add: z(1))
  have v2: "read_flagged (read_n get_real ?np) (zip (map req_grad ?asv) ?g) (?b2 @ (?b3 @ ?b4)) = Inr (?g, ?b3 @ ?b4)"
    by (rule read_back, rule real_column.block_round_trip) (auto simp: g)
  have rows: "m_rows (functionGradients r2) = ?np \<or> \<not> ?gf" unfolding g0 by (simp add: mat_zero_def)
  have v2': "read_flagged (read_n get_real (m_rows (functionGradients r2))) (zip (map req_grad ?asv) ?g) (?b2 @ (?b3 @ ?b4)) =
      Inr (?g, ?b3 @ ?b4)"
    using rows v2 by (cases ?gf) (auto simp: g)
  have v3: "read_flagged (read_lower_triangle get_real 0 ?np) (zip (map req_hess ?asv) ?h) (?b3 @ ?b4) = Inr (?h, ?b4)"
    by (rule read_back, rule real_triangle.block_round_trip) (auto simp: z(4) tri_wf_zero)
  have v4: "container_read get_real ?b4 = Inr ([], [])" using real_item.container_round_trip [of "[]" "[]"] by simp
  have nobad: "\<not> (\<exists>i \<in> set [0..<?nf]. (req_grad (?asv ! i) \<and> 0 < m_rows (functionGradients r2) \<and> i \<ge> length ?g) \<or>
      (req_hess (?asv ! i) \<and> i \<ge> length ?h))"
    by (auto simp: g z(4) list_ex_nth)
  have "zero_message st = put_bool True @ put_short 0 @ put_bool ?gf @ put_bool ?hf @ ActiveSet_write st @ put_size 0 @
      ?b1 @ ?b2 @ ?b3 @ ?b4"
    by (simp add: zero_message_def Let_def g z(1,4))
  moreover have "ActiveSet_read (ActiveSet_write st @ s) = Inr (st, s)" for s :: "'a buffer"
    by (rule active_set_item.get_put_item)
  ultimately have "Response_read (zero_message st) = Inr (Some (r2\<lparr>functionValues := functionValues r2,
      functionGradients := (functionGradients r2)\<lparr>m_cols := over_prefix ?g ?g\<rparr>, functionHessians := ?h, metaData := []\<rparr>), [])"
    using nobad by (auto simp: Response_read_def read_rep_def Let_def r2_def [symmetric] v1 v2' v3 v4)
  moreover have "resp_ready (r2\<lparr>functionValues := functionValues r2,
      functionGradients := (functionGradients r2)\<lparr>m_cols := over_prefix ?g ?g\<rparr>, functionHessians := ?h, metaData := []\<rparr>)"
    using rows by (auto simp: resp_ready_def resp_wf_def Let_def resp_asv_def resp_dvv_def s2 g z(1,4) tri_wf_zero over_prefix_def)
  ultimately show ?thesis by (simp add: answers_def s2)
qed


definition server_answer :: "'r::zero request \<Rightarrow> nat \<times> int \<times> 'r buffer" where
  "server_answer rq = (case rq of (i, srv, tag, v, st) \<Rightarrow> (i, tag, zero_message st))"

fun one_per_index :: "(nat \<times> 'x) list \<Rightarrow> (nat \<times> 'x) list" where
  "one_per_index [] = []"
| "one_per_index (x # xs) = (if fst x \<in> fst ` set xs then one_per_index xs else x # one_per_index xs)"

text \<open>Three servers with the given local concurrency; a wait returns one completion, a test succeeds.\<close>

definition server_config :: "nat \<Rightarrow> (rat, nat) app_config" where
  "server_config conc = idle_config\<lparr>ieMessagePass := True, numEvalServers := 3, asynchLocalEvalConcurrency := conc,
     derived_map := (\<lambda>v st i w r. (False, w, Response_for_set 0 (responseActiveSet r))),
     mpi_waitsome := (\<lambda>reqs w. Inr (map server_answer (take 1 reqs), w)),
     mpi_waitall := (\<lambda>reqs w. Inr (map server_answer (one_per_index reqs), w)),
     mpi_test := (\<lambda>rq w. Inr (Some (snd (snd (server_answer rq))), w))\<rparr>"

lemma one_per_index_props:
  "set (one_per_index xs) \<subseteq> set xs" "distinct (map fst (one_per_index xs))" "fst ` set (one_per_index xs) = fst ` set xs"
  by (induction xs) auto

lemma server_answer_fst: "map fst (map server_answer xs) = map fst xs"
  by (simp add: server_answer_def split: prod.splits)

lemma answers_valid:
  fixes reqs :: "'r::zero request list"
  assumes "set xs \<subseteq> set reqs" "distinct (map fst xs)"
  shows "receives_valid reqs (map server_answer xs)"
  unfolding receives_valid_def
proof (intro conjI ballI)
  show "distinct (map fst (map server_answer xs))" unfolding server_answer_fst by (rule assms(2))
  fix x :: "nat \<times> int \<times> 'r buffer"
  assume "x \<in> set (map server_answer xs)"
  then obtain y where y: "y \<in> set xs" "x = server_answer y" by auto
  obtain i srv tag v st where "y = (i, srv, tag, v, st)" by (cases y) auto
  then have "(i, srv, tag, v, st) \<in> set reqs" "x = (i, tag, zero_message st)" using y assms(1) by (auto simp: server_answer_def)
  then show "case x of (i, tag, buf) \<Rightarrow> \<exists>srv v st. (i, srv, tag, v, st) \<in> set reqs \<and> answers buf st"
    using zero_message_answers by auto
qed

lemma server_contracts:
  "waitsome_contract (server_config n)" "waitall_contract (server_config n)" "mpi_test_contract (server_config n)"
  "servers_positive (server_config n)" "servers_exist (server_config n)" "wait_contract (server_config n)"
  "test_contract (server_config n)" "synch_contract (server_config n)"
proof -
  have "receives_valid reqs (map server_answer (take 1 reqs))" for reqs :: "rat request list"
    by (rule answers_valid) (cases reqs; simp)+
  then show "waitsome_contract (server_config n)" by (simp add: waitsome_contract_def server_config_def)
  have "fst ` set (map server_answer xs) = fst ` set xs" for xs :: "rat request list"
    using server_answer_fst [of xs] by (metis set_map)
  then show "waitall_contract (server_config n)"
    by (simp add: waitall_contract_def server_config_def answers_valid one_per_index_props)
  show "mpi_test_contract (server_config n)"
    by (simp add: mpi_test_contract_def server_config_def server_answer_def zero_message_answers)
  show "servers_positive (server_config n)" by (simp add: servers_positive_def server_config_def)
  show "servers_exist (server_config n)" 
    by (simp add: servers_exist_def static_limited_def static_servers_def server_config_def)
  have v: "completions_valid jobs (map (\<lambda>(i, v, r). (i, Response_for_set 0 (responseActiveSet r))) (take 1 jobs))" for jobs :: "rat job list"
    by (auto simp: completions_valid_def Response_for_set_ready dest!: in_set_takeD) blast
  show "wait_contract (server_config n)" using v by (auto simp: wait_contract_def server_config_def idle_config_def)
  show "test_contract (server_config n)" using v by (auto simp: test_contract_def server_config_def idle_config_def)
  show "synch_contract (server_config n)" by (simp add: synch_contract_def server_config_def Response_for_set_ready)
qed

section \<open>Properties\<close>

text \<open>A state with two queued jobs and no schedule in progress.\<close>

definition queued_state :: "(rat, nat) app_state" where
  "queued_state = (sample_state 0)\<lparr>beforeSynchCorePRPQueue := sample_queue\<rparr>"

lemma queued_state_props:
  "rawResponseMap queued_state = []" "active queued_state = []" "msgPassRunningMap queued_state = []"
  "remote_pre sample_queue queued_state" "\<forall>p \<in> set sample_queue. 0 < eval_id p"
proof -
  have "resp_ready (resp_at queued_state b)" for b
    by (simp add: queued_state_def sample_defs resp_ready_def resp_wf_def resp_asv_def resp_dvv_def req_hess_def)
  then show "remote_pre sample_queue queued_state"
    by (simp add: remote_pre_def all_ready_def) (simp add: queued_state_def sample_state_def)
qed (simp_all add: queued_state_def sample_state_def sample_queue_def ParamResponsePair_def eval_id_def)

text \<open>C16: The dedicated master completes every job.  If a wait for pending receives reports at least one
  of them, each with a message that answers its request, then the schedule returns with the response
  of every queued job in the response map, whatever the order in which the servers answer; it never
  uses a buffer whose receive is pending and never receives more than the jobs it sent.\<close>

theorem master_dynamic_schedule_completes:
  assumes "queue_ok q" "servers_positive c" "waitsome_contract c" "waitall_contract c" "remote_pre q s" "length q \<le> fuel"
    and "\<forall>p \<in> set q. map_of (rawResponseMap s) (eval_id p) = None"
  shows "\<exists>s'. master_dynamic_schedule_evaluations fuel c s = Inr s' \<and> msgBuffers s' = None \<and>
    (\<forall>p \<in> set q. map_of (rawResponseMap s') (eval_id p) = Some (prpResponse p)) \<and>
    (\<forall>i. i \<notin> eval_id ` set q \<longrightarrow> map_of (rawResponseMap s') i = map_of (rawResponseMap s) i)"
  using master_dynamic.completes [of c q s fuel] assms by (auto simp: sched_frame_def remote_pre_def)

theorem master_dynamic_schedule_completes_witness:
  "\<exists>s'. master_dynamic_schedule_evaluations 2 (server_config 1) queued_state = Inr s' \<and>
    map_of (rawResponseMap s') 1 = Some 0 \<and> map_of (rawResponseMap s') 2 = Some 1"
proof -
  have "length sample_queue \<le> 2" by (simp add: sample_queue_def)
  from master_dynamic_schedule_completes [OF sample_queue_ok server_contracts(4,1,2) queued_state_props(4) this, of 1]
  show ?thesis by (auto simp: queued_state_props(1) sample_queue_def ParamResponsePair_def eval_id_def)
qed

text \<open>The static schedule among peers completes every job: the jobs whose position is a multiple of the
  number of servers run on this processor, with the local schedule given by the concurrency, all
  others on the peer given by the remainder, and the schedule returns with the response of every
  queued job.\<close>

theorem peer_static_schedule_completes:
  assumes "queue_ok q" "servers_positive c" "waitall_contract c" "local_pre fuel c q s" "remote_pre q s"
    and "\<forall>p \<in> set q. map_of (rawResponseMap s) (eval_id p) = None"
  shows "\<exists>s'. peer_static_schedule_evaluations fuel c s = Inr s' \<and> msgBuffers s' = None \<and>
    (\<forall>p \<in> set q. map_of (rawResponseMap s') (eval_id p) = Some (prpResponse p)) \<and>
    (\<forall>i. i \<notin> eval_id ` set q \<longrightarrow> map_of (rawResponseMap s') i = map_of (rawResponseMap s) i)"
  using peer_static.completes [of c fuel q s] assms by (auto simp: sched_frame_def remote_pre_def)

theorem peer_static_schedule_completes_witness:
  "(\<exists>s'. peer_static_schedule_evaluations 0 (server_config 1) queued_state = Inr s' \<and>
     map_of (rawResponseMap s') 1 = Some 0 \<and> map_of (rawResponseMap s') 2 = Some 1) \<and>
   (\<exists>s'. peer_static_schedule_evaluations 2 (server_config 2) queued_state = Inr s' \<and>
     map_of (rawResponseMap s') 1 = Some 0 \<and> map_of (rawResponseMap s') 2 = Some 1)"
proof -
  have l: "local_pre 0 (server_config 1) sample_queue queued_state" "local_pre 2 (server_config 2) sample_queue queued_state"
    by (simp_all add: local_pre_def server_contracts queued_state_props(2) sample_queue_def)
      (simp_all add: server_config_def)
  note t = peer_static_schedule_completes [OF sample_queue_ok server_contracts(4,2) _ queued_state_props(4)]
  show ?thesis using t [OF l(1)] t [OF l(2)]
    by (auto simp: queued_state_props(1) sample_queue_def ParamResponsePair_def eval_id_def)
qed

text \<open>C15: The dynamic schedule among peers completes every job.  Its loop polls; if every poll without a
  completion brings the running jobs closer to their end, then there is a number of polls after
  which it has returned, with the response of every queued job and with no job, buffer or server
  left in use.\<close>

theorem peer_dynamic_schedule_completes:
  assumes "queue_ok q" "dynamic_pre c q s" "polls_progress c togo"
    and "\<forall>p \<in> set q. map_of (rawResponseMap s) (eval_id p) = None"
  shows "\<exists>N s'. (\<forall>fuel \<ge> N. peer_dynamic_schedule_evaluations fuel c s = Inr s') \<and>
    active s' = [] \<and> msgPassRunningMap s' = [] \<and> msgBuffers s' = None \<and>
    (\<forall>p \<in> set q. map_of (rawResponseMap s') (eval_id p) = Some (prpResponse p))"
proof -
  obtain N s' where "\<forall>fuel \<ge> N. peer_dynamic_schedule_evaluations fuel c s = Inr s'" "active s' = active s"
      "sched_frame q s s'" "\<forall>p \<in> set q. map_of (rawResponseMap s') (eval_id p) = Some (prpResponse p)"
    using peer_dynamic_completes [OF assms(2,3,1,4)] by blast
  then show ?thesis
    using assms(2) by (intro exI [of _ N] exI [of _ s']) (simp add: sched_frame_def dynamic_pre_def remote_pre_def)
qed

theorem peer_dynamic_schedule_completes_witness:
  "\<exists>N s'. (\<forall>fuel \<ge> N. peer_dynamic_schedule_evaluations fuel (server_config 1) queued_state = Inr s') \<and>
    map_of (rawResponseMap s') 1 = Some 0 \<and> map_of (rawResponseMap s') 2 = Some 1"
proof -
  have d: "dynamic_pre (server_config 1) sample_queue queued_state"
    unfolding dynamic_pre_def using queued_state_props server_contracts
    by (simp add: server_config_def idle_config_def sample_config_def)
  have p: "polls_progress (server_config 1) (\<lambda>_. 0)"
    by (auto simp: polls_progress_def server_config_def idle_config_def)
  obtain N s' where N: "\<forall>fuel \<ge> N. peer_dynamic_schedule_evaluations fuel (server_config 1) queued_state = Inr s'"
      "\<forall>p \<in> set sample_queue. map_of (rawResponseMap s') (eval_id p) = Some (prpResponse p)"
    using peer_dynamic_schedule_completes [OF sample_queue_ok d p] queued_state_props(1) by auto
  then show ?thesis
    by (intro exI [of _ N] exI [of _ s']) (simp add: sample_queue_def ParamResponsePair_def eval_id_def)
qed

end
