(* ===== verification/Nowait_Properties.thy ===== *)
theory Nowait_Properties
  imports Peer_Nowait Message_Properties
begin

text \<open>
  Properties of the nonblocking message-passing schedules: the dedicated master and the dynamic schedule among
  peers never run out of buffers and never reuse one whose receive is pending; the static schedule among peers does.
\<close>

section \<open>The static schedule among peers\<close>

text \<open>Three servers with two jobs each.  Only the job with id 4 completes.\<close>

definition collision_config :: "(rat, nat) app_config" where
  "collision_config = (server_config 2)\<lparr>peerStaticScheduling := True,
     test_local_evaluations := (\<lambda>jobs w. Inr ([], w)),
     mpi_test := (\<lambda>(b, srv, tag, v, st) w. Inr (if tag = 4 then Some (zero_message st) else None, w))\<rparr>"

definition job :: "int \<Rightarrow> rat prp" where
  "job i = ParamResponsePair (sample_vars (of_int i)) ''sim'' (nat i) i"

definition six_jobs :: "(rat, nat) app_state" where
  "six_jobs = (sample_state 0)\<lparr>beforeSynchCorePRPQueue := map job [1, 2, 3, 4, 5, 6]\<rparr>"

text \<open>What \<^verbatim>\<open>synchronize_nowait\<close> does after a schedule: the completed jobs leave the queue; then a new
  job is added.\<close>

definition next_queue :: "rat prp \<Rightarrow> (rat, nat) app_state \<Rightarrow> (rat, nat) app_state" where
  "next_queue p s = s\<lparr>rawResponseMap := [], beforeSynchCorePRPQueue := queue_insert p (unfinished (beforeSynchCorePRPQueue s) s)\<rparr>"

text \<open>The nonblocking static schedule among peers reuses a buffer whose receive is pending.  Its first
  pass numbers the buffers consecutively over all peers, but a later call looks for a free buffer in
  the block of the peer.  With three servers of two jobs each and the jobs 1 to 6 assigned, after job
  4 completed a new job 7 for the first peer is sent through buffer 1, in which the response of job 2
  from the second peer is still expected.\<close>

lemma peer_static_nowait_reuses_pending_buffer:
  "\<exists>s. peer_static_schedule_evaluations_nowait 0 collision_config six_jobs = Inr s \<and>
    msgPassRunningMap s = [(1, 1, 0), (2, 2, 1), (5, 2, 3)] \<and>
    peer_static_schedule_evaluations_nowait 0 collision_config (next_queue (job 7) s) =
      Inl (UndefinedBehaviour ''buffer in use'')"
proof -
  have "case peer_static_schedule_evaluations_nowait 0 collision_config six_jobs of Inl _ \<Rightarrow> False | Inr s \<Rightarrow>
      msgPassRunningMap s = [(1, 1, 0), (2, 2, 1), (5, 2, 3)] \<and>
      (case peer_static_schedule_evaluations_nowait 0 collision_config (next_queue (job 7) s) of
         Inl (UndefinedBehaviour m) \<Rightarrow> m = ''buffer in use'' | _ \<Rightarrow> False)"
    by code_simp
  then show ?thesis by (auto split: sum.splits dakota_error.splits)
qed

section \<open>The dynamic schedule among peers\<close>

text \<open>C30: The nonblocking dynamic schedule among peers is safe and makes progress, for at least two peers with a positive
  concurrency, no static assignment of local jobs and tests that keep their contracts.  Between calls every job that runs on
  another peer owns one buffer in the block of that peer, and the jobs of the first peer stay within its
  concurrency.  From such a state, with any queue that contains the running jobs, a call returns: it finds a buffer for
  every job it sends, never one whose receive is pending, and never aborts; it leaves such a state again; every
  completed job has its own response; and if no job is running afterwards then all jobs are completed and the buffers are
  released.\<close>

theorem peer_dynamic_nowait_safe:
  assumes "queue_ok q" "q \<noteq> []" "\<forall>p \<in> set q. 0 < eval_id p" "\<forall>p \<in> set q. map_of (rawResponseMap s) (eval_id p) = None"
    and "peer_nowait_config c" "peer_books c q s"
  shows "\<exists>s'. peer_dynamic_schedule_evaluations_nowait c s = Inr s' \<and> peer_books c q s' \<and>
    length (asynchLocalActivePRPQueue s') \<le> asynchLocalEvalConcurrency c \<and>
    (\<forall>p \<in> set q. map_of (rawResponseMap s') (eval_id p) \<in> {None, Some (prpResponse p)}) \<and>
    (msgPassRunningMap s' = [] \<and> asynchLocalActivePRPQueue s' = [] \<longrightarrow> msgBuffers s' = None \<and>
      (\<forall>p \<in> set q. map_of (rawResponseMap s') (eval_id p) = Some (prpResponse p)))"
proof -
  obtain s' where s': "peer_dynamic_schedule_evaluations_nowait c s = Inr s'" "peer_books c q s'" "own_responses q s'"
      "msgPassRunningMap s' = [] \<and> active s' = [] \<longrightarrow> unfinished q s' = []"
    using peer_nowait_ok [OF assms] by blast
  have o: "map_of (rawResponseMap s') (eval_id p) \<in> {None, Some (prpResponse p)}" if "p \<in> set q" for p
    using s'(3) that by (cases "map_of (rawResponseMap s') (eval_id p)") (auto simp: own_responses_def)
  moreover have "map_of (rawResponseMap s') (eval_id p) = Some (prpResponse p)" if "msgPassRunningMap s' = [] \<and> active s' = []" "p \<in> set q" for p
    using s'(4) o [OF that(2)] that by (auto simp: unfinished_def filter_empty_conv)
  moreover have "length (active s') \<le> asynchLocalEvalConcurrency c"
    using s'(2) assms(5) by (auto simp: peer_books_def within_limit_def peer_nowait_config_def)
  ultimately show ?thesis using s'(1,2) by (intro exI [of _ s']) (auto simp: peer_books_def)
qed

lemma peer_books_empty: "msgPassRunningMap s = [] \<Longrightarrow> remote_pre q s \<Longrightarrow> active s = [] \<Longrightarrow> rawResponseMap s = [] \<Longrightarrow> peer_books c q s"
  by (simp add: peer_books_def remote_pre_def jobs_ok_def within_limit_def)

lemma server_peer_config: "peer_nowait_config (server_config 2)"
  using server_contracts(3) [of 2] server_contracts(7) [of 2]
  by (simp add: peer_nowait_config_def server_config_def idle_config_def sample_config_def static_limited_def)

theorem peer_dynamic_nowait_safe_witness:
  "\<exists>s'. peer_dynamic_schedule_evaluations_nowait (server_config 2) queued_state = Inr s' \<and>
    peer_books (server_config 2) sample_queue s'"
proof -
  have "sample_queue \<noteq> []" by (simp add: sample_queue_def)
  note * = peer_dynamic_nowait_safe [OF sample_queue_ok this queued_state_props(5) _ server_peer_config]
  show ?thesis using * [of queued_state] peer_books_empty [OF queued_state_props(3,4,2)] queued_state_props(1) by auto
qed

section \<open>The dedicated master\<close>

lemma books_empty: "msgPassRunningMap s = [] \<Longrightarrow> remote_pre q s \<Longrightarrow> active s = [] \<Longrightarrow> master_books c q s"
  by (simp add: master_books_def remote_pre_def)

text \<open>C17: The nonblocking schedule of the master is safe and makes progress.  Between calls every running job
  owns one buffer in the block of its server.  From such a state, with any queue that contains the
  running jobs, a call returns: it finds a buffer for every job it sends, never one whose receive is
  pending, and never aborts; it leaves such a state again; every completed job has its own response;
  and if no job is running afterwards then all jobs are completed and the buffers are released.\<close>

theorem master_nowait_safe:
  assumes "queue_ok q" "q \<noteq> []" "\<forall>p \<in> set q. 0 < eval_id p" "\<forall>p \<in> set q. map_of (rawResponseMap s) (eval_id p) = None"
    and "1 \<le> asynchLocalEvalConcurrency c" "0 < numEvalServers c" "mpi_test_contract c" "master_books c q s"
  shows "\<exists>s'. master_dynamic_schedule_evaluations_nowait c s = Inr s' \<and> master_books c q s' \<and>
    (\<forall>p \<in> set q. map_of (rawResponseMap s') (eval_id p) \<in> {None, Some (prpResponse p)}) \<and>
    (msgPassRunningMap s' = [] \<longrightarrow> msgBuffers s' = None \<and>
      (\<forall>p \<in> set q. map_of (rawResponseMap s') (eval_id p) = Some (prpResponse p)))"
proof -
  obtain s' where s': "master_dynamic_schedule_evaluations_nowait c s = Inr s'" "master_books c q s'" "own_responses q s'"
      "msgPassRunningMap s' = [] \<longrightarrow> unfinished q s' = []"
    using master_nowait_ok [OF assms] by blast
  have o: "map_of (rawResponseMap s') (eval_id p) \<in> {None, Some (prpResponse p)}" if "p \<in> set q" for p
    using s'(3) that by (cases "map_of (rawResponseMap s') (eval_id p)") (auto simp: own_responses_def)
  moreover have "map_of (rawResponseMap s') (eval_id p) = Some (prpResponse p)" if "msgPassRunningMap s' = []" "p \<in> set q" for p
    using s'(4) o [OF that(2)] that by (auto simp: unfinished_def filter_empty_conv)
  ultimately show ?thesis using s'(1,2) by (intro exI [of _ s']) (auto simp: master_books_def)
qed

theorem master_nowait_safe_witness:
  "\<exists>s'. master_dynamic_schedule_evaluations_nowait (server_config 2) queued_state = Inr s' \<and>
    master_books (server_config 2) sample_queue s'"
proof -
  have "sample_queue \<noteq> []" "1 \<le> asynchLocalEvalConcurrency (server_config 2)" "0 < numEvalServers (server_config 2)"
    by (simp_all add: sample_queue_def server_config_def)
  note * = master_nowait_safe [OF sample_queue_ok this(1) queued_state_props(5) _ this(2,3) server_contracts(3)]
  show ?thesis using * [of queued_state] books_empty [OF queued_state_props(3,4,2)] queued_state_props(1) by auto
qed

end
