(* ===== verification/Service_Properties.thy ===== *)
theory Service_Properties
  imports Nowait_Service Nowait_Properties
begin

text \<open>
  The evaluation service as its clients see it: iterators submit evaluations with \<^verbatim>\<open>map\<close> and collect
  them with \<^verbatim>\<open>synchronize\<close> or \<^verbatim>\<open>synchronize_nowait\<close>.  The abstract service is a counter and the set of
  outstanding ids; the interface refines it.

  Scope: the evaluations are simulations (no algebraic mappings, whose merge goes wrong in both synchronizations), and the
  nonblocking schedule is the local one, the one of a dedicated master or the dynamic one among peers.  The static
  schedule among peers is excluded because it reuses pending buffers (\<^verbatim>\<open>peer_static_nowait_reuses_pending_buffer\<close> of
  the theory Nowait_Properties).  Peers are at least two, with a positive concurrency and no static assignment of local
  jobs; the tests for completed jobs keep their contracts.  Blocking synchronization is covered for all four schedules.
\<close>

section \<open>The abstract service\<close>

text \<open>A submission takes the next id; a collection delivers some of the outstanding ids.\<close>

datatype service_event = Submitted | Delivered "int list"

inductive service_step :: "int \<times> int set \<Rightarrow> service_event \<Rightarrow> int \<times> int set \<Rightarrow> bool" where
  submit: "service_step (n, P) Submitted (n + 1, insert (n + 1) P)"
| deliver: "distinct ks \<Longrightarrow> set ks \<subseteq> P \<Longrightarrow> service_step (n, P) (Delivered ks) (n, P - set ks)"

inductive_cases submittedE: "service_step s Submitted s'"
inductive_cases deliveredE: "service_step s (Delivered ks) s'"

inductive service_trace :: "int \<times> int set \<Rightarrow> service_event list \<Rightarrow> int \<times> int set \<Rightarrow> bool" where
  stop: "service_trace s [] s"
| more: "service_step s e s' \<Longrightarrow> service_trace s' es s'' \<Longrightarrow> service_trace s (e # es) s''"

fun deliveries :: "service_event list \<Rightarrow> int list" where
  "deliveries [] = []"
| "deliveries (Submitted # es) = deliveries es"
| "deliveries (Delivered ks # es) = ks @ deliveries es"

fun submissions :: "service_event list \<Rightarrow> nat" where
  "submissions [] = 0"
| "submissions (Submitted # es) = Suc (submissions es)"
| "submissions (Delivered ks # es) = submissions es"

text \<open>No id is delivered twice, and every id is delivered or still outstanding.\<close>

lemma service_trace_exactly_once:
  assumes "service_trace s es s'" "\<forall>i \<in> snd s. i \<le> fst s"
  shows "fst s' = fst s + int (submissions es) \<and> distinct (deliveries es) \<and> set (deliveries es) \<inter> snd s' = {} \<and>
    set (deliveries es) \<union> snd s' = snd s \<union> {fst s + 1 .. fst s'}"
  using assms
proof (induction rule: service_trace.induct)
  case (more s e s1 es s2)
  note step = more.hyps(1)
  show ?case
  proof (cases e)
    case Submitted
    then have s1: "s1 = (fst s + 1, insert (fst s + 1) (snd s))" using step unfolding Submitted by (auto elim!: submittedE)
    then have "\<forall>i \<in> snd s1. i \<le> fst s1" using more.prems by auto
    note ih = more.IH [OF this]
    have "insert (fst s + 1) (snd s) \<union> {fst s + 1 + 1 .. fst s2} = snd s \<union> {fst s + 1 .. fst s2}"
      using ih s1 by auto
    then show ?thesis using ih Submitted by (simp add: s1)
  next
    case (Delivered ks)
    then have d: "distinct ks" "set ks \<subseteq> snd s" "s1 = (fst s, snd s - set ks)"
      using step unfolding Delivered by (auto elim!: deliveredE)
    then have "\<forall>i \<in> snd s1. i \<le> fst s1" using more.prems by auto
    note ih = more.IH [OF this]
    have old: "i \<le> fst s" if "i \<in> set ks" for i using that d(2) more.prems by auto
    then have "set ks \<inter> (snd s1 \<union> {fst s + 1 .. fst s2}) = {}" using d(3) by fastforce
    moreover have "set (deliveries es) \<union> snd s2 = snd s1 \<union> {fst s + 1 .. fst s2}" using ih d(3) by simp
    ultimately have "set ks \<inter> set (deliveries es) = {}" "set ks \<inter> snd s2 = {}" by blast+
    then show ?thesis using ih d Delivered by auto
  qed
qed auto

section \<open>Clients\<close>

text \<open>A client allocates a response for each submission.\<close>

datatype 'r command = Submit "'r variables" active_set "'r response" | Poll

fun command_ok :: "'r::zero command \<Rightarrow> bool" where
  "command_ok (Submit vars st r) = request_fits st r"
| "command_ok Poll = True"

fun run_command ::
    "nat \<Rightarrow> ('r, 'w) app_config \<Rightarrow> 'r::{zero, one, plus, minus, inverse, abs, ord} command \<Rightarrow> ('r, 'w) app_state \<Rightarrow>
      (service_event \<times> ('r, 'w) app_state) result" where
  "run_command fuel c (Submit vars st r) s =
    (case new_response r s of (a, s1) \<Rightarrow> rbind (map_evaluation fuel c vars st a True s1) (\<lambda>s2. Inr (Submitted, s2)))"
| "run_command fuel c Poll s =
    rbind (synchronize_nowait fuel c s) (\<lambda>s1. Inr (Delivered (remdups (map fst (rawResponseMap s1))), s1))"

fun run_commands ::
    "nat \<Rightarrow> ('r, 'w) app_config \<Rightarrow> 'r::{zero, one, plus, minus, inverse, abs, ord} command list \<Rightarrow> ('r, 'w) app_state \<Rightarrow>
      (service_event list \<times> ('r, 'w) app_state) result" where
  "run_commands fuel c [] s = Inr ([], s)"
| "run_commands fuel c (cmd # cmds) s =
    rbind (run_command fuel c cmd s) (\<lambda>(e, s1). rbind (run_commands fuel c cmds s1) (\<lambda>(es, s2). Inr (e # es, s2)))"

definition service_view :: "('r, 'w) app_state \<Rightarrow> int \<times> int set" where
  "service_view s = (evalIdCntr s, outstanding s)"

text \<open>A response that the client allocates is not stored by the service.\<close>

lemma service_ok_new:
  fixes c :: "('r::{zero, one, plus, minus, inverse, abs, ord}, 'w) app_config"
  assumes ok: "service_ok c s" and n: "new_response r s = (a, s1)"
  shows "service_ok c s1" "a < nextRef s1" "a \<notin> stored_refs s1" "resp_at s1 a = r" "service_view s1 = service_view s"
proof -
  let ?Q = "beforeSynchCorePRPQueue s"
  have s1: "s1 = s\<lparr>heap := (heap s)(nextRef s := r), nextRef := Suc (nextRef s)\<rparr>" "a = nextRef s"
    using n by (auto simp: new_response_def)
  have ao: "app_ok s" "nowait_inv c ?Q (s\<lparr>rawResponseMap := []\<rparr>)" using ok by (simp_all add: service_ok_def)
  note k = app_ok_new [OF ao(1), of r, folded s1(1)]
  show "a \<notin> stored_refs s1" using k(3) s1(2) by simp
  show "a < nextRef s1" "resp_at s1 a = r" by (simp_all add: s1)
  show "service_view s1 = service_view s" using k(2) by (simp add: service_view_def s1(1))
  have q1: "beforeSynchCorePRPQueue s1 = ?Q" by (simp add: s1(1))
  have un: "unfinished ?Q (s\<lparr>rawResponseMap := []\<rparr>) = ?Q" by (simp add: unfinished_def)
  have "nowait_inv c ?Q (s1\<lparr>rawResponseMap := []\<rparr>)"
  proof (rule any_nowait.resume [OF ao(2) app_ok_parts(4) [OF ao(1)] app_ok_parts(4) [OF ao(1)]], unfold un)
    show "all_ready ?Q (s1\<lparr>rawResponseMap := []\<rparr>)" using app_ok_parts(6) [OF k(1)] q1 by (simp add: all_ready_def)
    show "same_schedule (s\<lparr>rawResponseMap := []\<rparr>) (s1\<lparr>rawResponseMap := []\<rparr>)" by (simp add: same_schedule_def s1(1))
    have "submitted 0 s s1" unfolding s1(1) by (rule submitted_new [OF ao(1)])
    then show "\<forall>p \<in> set ?Q. responseActiveSet (resp_at (s1\<lparr>rawResponseMap := []\<rparr>) (prpResponse p)) =
        responseActiveSet (resp_at (s\<lparr>rawResponseMap := []\<rparr>) (prpResponse p))"
      by (simp add: submitted_def)
  qed (simp_all add: q1)
  then show "service_ok c s1" using k(1) q1 by (simp add: service_ok_def)
qed

lemma run_command_refines:
  fixes c :: "('r::{zero, one, plus, minus, inverse, abs, ord}, 'w) app_config"
  assumes ok: "service_ok c s" and c: "simulations_only c" and cmd: "command_ok cmd"
  shows "\<exists>e s'. run_command fuel c cmd s = Inr (e, s') \<and> service_ok c s' \<and> service_step (service_view s) e (service_view s')"
proof (cases cmd)
  case (Submit vars st r)
  obtain a s1 where n: "new_response r s = (a, s1)" by (cases "new_response r s")
  note k = service_ok_new [OF ok n]
  obtain s2 where "map_evaluation fuel c vars st a True s1 = Inr s2" "service_ok c s2"
      "evalIdCntr s2 = evalIdCntr s1 + 1" "outstanding s2 = insert (evalIdCntr s1 + 1) (outstanding s1)"
    using map_service_ok [OF k(1) c k(2,3), of st fuel vars] k(4) cmd Submit by auto
  then show ?thesis using n k(5) service_step.submit by (auto simp: Submit service_view_def)
next
  case Poll
  obtain s' where s': "synchronize_nowait fuel c s = Inr s'" "service_ok c s'" "nowait_result s s'"
    using synchronize_nowait_ok [OF ok c] by blast
  let ?ids = "remdups (map fst (rawResponseMap s'))"
  have "set ?ids \<subseteq> outstanding s" "outstanding s' = outstanding s - set ?ids" "evalIdCntr s' = evalIdCntr s"
    using s'(3) by (simp_all add: nowait_result_def Let_def)
  then have "service_step (service_view s) (Delivered ?ids) (service_view s')"
    using service_step.deliver [of ?ids "outstanding s" "evalIdCntr s"] by (simp add: service_view_def)
  then show ?thesis using s'(1,2) by (auto simp: Poll)
qed


lemma run_commands_refine:
  fixes c :: "('r::{zero, one, plus, minus, inverse, abs, ord}, 'w) app_config"
  assumes "service_ok c s" "simulations_only c" "\<forall>cmd \<in> set cmds. command_ok cmd"
  shows "\<exists>es s'. run_commands fuel c cmds s = Inr (es, s') \<and> service_ok c s' \<and>
    service_trace (service_view s) es (service_view s') \<and> submissions es = length (filter (\<lambda>cmd. cmd \<noteq> Poll) cmds)"
  using assms
proof (induction cmds arbitrary: s)
  case (Cons cmd cmds)
  obtain e s1 where e: "run_command fuel c cmd s = Inr (e, s1)" "service_ok c s1" "service_step (service_view s) e (service_view s1)"
    using run_command_refines [OF Cons.prems(1,2), of cmd fuel] Cons.prems(3) by auto
  obtain es s2 where es: "run_commands fuel c cmds s1 = Inr (es, s2)" "service_ok c s2"
      "service_trace (service_view s1) es (service_view s2)" "submissions es = length (filter (\<lambda>cmd. cmd \<noteq> Poll) cmds)"
    using Cons.IH [OF e(2) Cons.prems(2)] Cons.prems(3) by auto
  have "submissions (e # es) = length (filter (\<lambda>cmd. cmd \<noteq> Poll) (cmd # cmds))"
    using e(1) es(4) by (cases cmd) (auto simp: rbind_Inr_iff split: prod.splits)
  then show ?case using e es service_trace.more by (intro exI [of _ "e # es"] exI [of _ s2]) auto
qed (auto intro: service_trace.stop)

section \<open>A service without evaluations\<close>

definition idle_service :: "('r, 'w) app_state \<Rightarrow> bool" where
  "idle_service s \<longleftrightarrow> beforeSynchCorePRPQueue s = [] \<and> historyDuplicateMap s = [] \<and> beforeSynchDuplicateMap s = [] \<and>
     cachedResponseMap s = [] \<and> data_pairs s = [] \<and> evalIdCntr s = 0 \<and> active s = [] \<and> msgPassRunningMap s = [] \<and>
     msgBuffers s = None \<and> localServerAssigned s = []"

text \<open>The configurations in the scope of the nonblocking service.\<close>

definition nowait_config :: "('r::zero, 'w) app_config \<Rightarrow> bool" where
  "nowait_config c \<longleftrightarrow> simulations_only c \<and>
     (if ieMessagePass c then
        if ieDedMasterFlag c then 1 \<le> asynchLocalEvalConcurrency c \<and> 0 < numEvalServers c \<and> mpi_test_contract c
        else \<not> static_peers c \<and> peer_nowait_config c
      else servers_exist c \<and> test_contract c)"

lemma idle_service_ok:
  assumes "idle_service s" "nowait_config c"
  shows "service_ok c s" "service_view s = (0, {})"
proof -
  have "app_ok s" using assms(1)
    by (simp add: app_ok_def ids_ok_def idle_service_def outstanding_def stored_refs_def duplicate_refs_def omap_ok_def queue_ok_Nil)
  moreover have "nowait_inv c (beforeSynchCorePRPQueue s) (s\<lparr>rawResponseMap := []\<rparr>)"
    using assms by (auto simp: nowait_inv_def idle_service_def nowait_config_def local_nowait_inv_def master_nowait_inv_def
      peer_nowait_inv_def peer_books_def master_books_def all_ready_def jobs_ok_def within_limit_def servers_known_def servers_exist_def queue_ok_Nil)
  ultimately show "service_ok c s" by (simp add: service_ok_def)
  show "service_view s = (0, {})" using assms(1) by (simp add: service_view_def idle_service_def outstanding_def)
qed

section \<open>Properties\<close>


text \<open>Jobs 1 and 2 are queued, 3 is a duplicate of 2, and 4 was answered from the cache.\<close>

definition mixed_state :: "(rat, nat) app_state" where
  "mixed_state = (sample_state 0)\<lparr>beforeSynchCorePRPQueue := sample_queue, beforeSynchDuplicateMap := [(3, 2, 2)],
     historyDuplicateMap := [(4, 3)], evalIdCntr := 4, nextRef := 4\<rparr>"

lemma mixed_state_ok: "app_ok mixed_state" "outstanding mixed_state = {1, 2, 3, 4}"
proof -
  have r: "resp_ready (resp_at mixed_state b)" "distinct (resp_dvv (resp_at mixed_state b))" for b
    by (simp_all add: mixed_state_def sample_defs resp_ready_def resp_wf_def resp_asv_def resp_dvv_def req_hess_def)
  have "set_covers (responseActiveSet (resp_at mixed_state 1)) (responseActiveSet (resp_at mixed_state 2))"
    by (simp add: mixed_state_def sample_defs set_covers_def)
  then have "duplicate_ok mixed_state (3, 2, 2)"
    using r by (simp add: duplicate_ok_def mixed_state_def sample_queue_def ParamResponsePair_def eval_id_def)
  moreover show o: "outstanding mixed_state = {1, 2, 3, 4}"
    by (auto simp: outstanding_def mixed_state_def sample_queue_def ParamResponsePair_def eval_id_def sample_state_def)
  moreover have "ids_ok mixed_state"
    unfolding ids_ok_def o using sample_queue_ok
    by (auto simp: mixed_state_def sample_queue_def ParamResponsePair_def eval_id_def sample_state_def omap_ok_def)
  ultimately show "app_ok mixed_state"
    using r by (simp add: app_ok_def stored_refs_def duplicate_refs_def)
      (simp add: mixed_state_def sample_queue_def ParamResponsePair_def sample_state_def)
qed

lemma server_simulations: "simulations_only (server_config n)"
  by (simp add: simulations_only_def server_config_def idle_config_def sample_config_def)

text \<open>Three servers behind a dedicated master.\<close>

definition master_config :: "nat \<Rightarrow> (rat, nat) app_config" where
  "master_config n = (server_config n)\<lparr>ieDedMasterFlag := True\<rparr>"

lemma master_config_contracts:
  "servers_positive (master_config n)" "waitsome_contract (master_config n)" "waitall_contract (master_config n)"
  "mpi_test_contract (master_config n)" "simulations_only (master_config n)" "ieMessagePass (master_config n)"
  "ieDedMasterFlag (master_config n)" "numEvalServers (master_config n) = 3" "asynchLocalEvalConcurrency (master_config n) = n"
  using server_contracts [of n] server_simulations [of n]
  by (simp_all add: master_config_def servers_positive_def waitsome_contract_def waitall_contract_def mpi_test_contract_def
    simulations_only_def server_config_def)




text \<open>C2: The application interface refines the abstract service.  For an interface with simulations only (no algebraic
  mappings, active set vectors in control), under the local schedule, the one of a dedicated master or the dynamic one
  among peers, any sequence of asynchronous submissions and nonblocking synchronizations runs without an error, from any
  state that satisfies the invariant, and what the client observes is a trace of the service that takes the next id for
  a submission and delivers some outstanding ids at a synchronization.\<close>

theorem interface_refines_service:
  fixes c :: "('r::{zero, one, plus, minus, inverse, abs, ord}, 'w) app_config"
  assumes "service_ok c s" "simulations_only c" "\<forall>cmd \<in> set cmds. command_ok cmd"
  shows "\<exists>es s'. run_commands fuel c cmds s = Inr (es, s') \<and> service_ok c s' \<and>
    service_trace (service_view s) es (service_view s')"
  using run_commands_refine [OF assms, of fuel] by blast

definition sample_commands :: "rat command list" where
  "sample_commands = [Submit (sample_vars 1) sample_set (sample_response [1] 0), Submit (sample_vars 2) sample_set (sample_response [1] 0),
     Poll, Submit (sample_vars 1) sample_set (sample_response [1] 0), Poll, Poll]"

lemma sample_commands_ok: "\<forall>cmd \<in> set sample_commands. command_ok cmd"
proof -
  have "case set_active_set sample_set (sample_response [1] 0) of Inl _ \<Rightarrow> False
      | Inr r \<Rightarrow> resp_ready r \<and> responseActiveSet r = sample_set"
    by code_simp
  then have "request_fits sample_set (sample_response [1] 0)"
    by (auto simp: request_fits_def sample_set_def split: sum.splits)
  then show ?thesis by (simp add: sample_commands_def)
qed

lemma sample_service: "idle_service (sample_state 0)" "nowait_config idle_config" "nowait_config (master_config 2)" "nowait_config (server_config 2)"
proof -
  show "idle_service (sample_state 0)" by (simp add: idle_service_def sample_state_def)
  have "test_contract idle_config" using server_contracts(7) [of 2]
    by (simp add: test_contract_def server_config_def within_limit_def idle_config_def sample_config_def)
  then show "nowait_config idle_config"
    by (simp add: nowait_config_def servers_exist_def static_limited_def simulations_only_def idle_config_def sample_config_def)
  show "nowait_config (master_config 2)" by (simp add: nowait_config_def master_config_contracts)
  show "nowait_config (server_config 2)" using server_peer_config server_simulations [of 2]
    by (simp add: nowait_config_def static_peers_def server_config_def idle_config_def sample_config_def)
qed

theorem interface_refines_service_witness:
  "\<exists>es s'. run_commands 0 idle_config sample_commands (sample_state 0) = Inr (es, s') \<and> service_trace (0, {}) es (service_view s')"
  using interface_refines_service [OF idle_service_ok(1) [OF sample_service(1,2)] _ sample_commands_ok, of 0]
    idle_service_ok(2) [OF sample_service(1,2)] sample_service(2) by (auto simp: nowait_config_def)

text \<open>C1: Every evaluation is delivered exactly once.  For an interface with simulations only (no algebraic mappings,
  active set vectors in control), under the local schedule, the one of a dedicated master or the dynamic one among peers,
  from a service without evaluations, after any sequence of submissions and nonblocking synchronizations the ids 1 to the
  number of submissions are partitioned into those that were delivered, each by one synchronization, and those that are
  still outstanding.\<close>

theorem evaluations_delivered_exactly_once:
  fixes c :: "('r::{zero, one, plus, minus, inverse, abs, ord}, 'w) app_config"
  assumes "idle_service s" "nowait_config c" "\<forall>cmd \<in> set cmds. command_ok cmd"
  shows "\<exists>es s'. run_commands fuel c cmds s = Inr (es, s') \<and> distinct (deliveries es) \<and>
    set (deliveries es) \<inter> outstanding s' = {} \<and>
    set (deliveries es) \<union> outstanding s' = {1 .. int (length (filter (\<lambda>cmd. cmd \<noteq> Poll) cmds))}"
proof -
  have "simulations_only c" using assms(2) by (simp add: nowait_config_def)
  then obtain es s' where es: "run_commands fuel c cmds s = Inr (es, s')" "service_trace (service_view s) es (service_view s')"
      "submissions es = length (filter (\<lambda>cmd. cmd \<noteq> Poll) cmds)"
    using run_commands_refine [OF idle_service_ok(1) [OF assms(1,2)] _ assms(3), of fuel] by blast
  then show ?thesis
    using service_trace_exactly_once [OF es(2)] idle_service_ok(2) [OF assms(1,2)] by (auto simp: service_view_def)
qed

theorem evaluations_delivered_exactly_once_witness:
  "\<exists>es s'. run_commands 0 (server_config 2) sample_commands (sample_state 0) = Inr (es, s') \<and> distinct (deliveries es) \<and>
    set (deliveries es) \<union> outstanding s' = {1, 2, 3}"
proof -
  have "{1 .. int (length (filter (\<lambda>cmd. cmd \<noteq> Poll) sample_commands))} = {1, 2, 3}" by (auto simp: sample_commands_def)
  then show ?thesis
    using evaluations_delivered_exactly_once [OF sample_service(1,4) sample_commands_ok, of 0] by auto
qed

end
