(* ===== verification/Finite_Difference.thy ===== *)
theory Finite_Difference
  imports Interface_Mapping
begin

text \<open>
  Steps of finite differences (\<^verbatim>\<open>src/DakotaModel.cpp\<close>: \<^verbatim>\<open>initialize_h\<close>, \<^verbatim>\<open>FDstep1\<close>, \<^verbatim>\<open>FDstep2\<close>,
  \<^verbatim>\<open>forward_grad_step\<close>, \<^verbatim>\<open>initialize_x0_bounds\<close>) and the split of a request into what the simulation
  delivers and what is estimated (\<^verbatim>\<open>manage_asv\<close>).

  Real arithmetic is that of an ordered field, without rounding.  A bound is an option; \<open>None\<close> is the
  infinite bound on its side.  \<^verbatim>\<open>DBL_MIN\<close> enters through its square root, a parameter, as do \<^verbatim>\<open>std::sqrt\<close> and
  \<^verbatim>\<open>Pecos::is_small\<close>.
\<close>

unbundle bit_operations_syntax

section \<open>Settings\<close>

datatype var_type = NORMAL_UNCERTAIN | LOGNORMAL_UNCERTAIN | EXPONENTIAL_UNCERTAIN | GAMMA_UNCERTAIN |
  FRECHET_UNCERTAIN | WEIBULL_UNCERTAIN | GUMBEL_UNCERTAIN | OTHER_TYPE

datatype deriv_view = Active | Inactive | All_Variables

text \<open>The active and the inactive continuous variables are consecutive entries of all continuous variables;
  ids, types and bounds are given for all.\<close>

record 'r model_config =
  numFns :: nat
  numDerivVars :: nat
  ignoreBounds :: bool
  centralHess :: bool
  supportsEstimDerivs :: bool
  auto_corrected_surrogate :: bool
  intervalType :: string
  gradient_type :: string
  hessian_type :: string
  quasiHessType :: string
  methodSource :: string
  fdGradStepType :: string
  fdHessStepType :: string
  fdGradStepSize :: "'r list"
  fdHessByFnStepSize :: "'r list"
  fdHessByGradStepSize :: "'r list"
  gradIdAnalytic :: "nat list"
  gradIdNumerical :: "nat list"
  hessIdAnalytic :: "nat list"
  hessIdNumerical :: "nat list"
  hessIdQuasi :: "nat list"
  sqrt_DBL_MIN :: 'r
  square_root :: "'r \<Rightarrow> 'r"
  is_small :: "'r \<Rightarrow> bool"
  icv_start :: nat
  num_icv :: nat
  all_cv_ids :: "nat list"
  all_cv_types :: "var_type list"
  all_cv_lower_bounds :: "'r option list"
  all_cv_upper_bounds :: "'r option list"
  distribution_bounds :: "nat \<Rightarrow> 'r option \<times> 'r option"

definition MODEL_ERROR :: int where "MODEL_ERROR = -6"

section \<open>Steps\<close>

definition below :: "'r::linordered_field \<Rightarrow> 'r option \<Rightarrow> bool" where
  "below x lb \<longleftrightarrow> (case lb of None \<Rightarrow> False | Some l \<Rightarrow> x < l)"

definition above :: "'r::linordered_field \<Rightarrow> 'r option \<Rightarrow> bool" where
  "above x ub \<longleftrightarrow> (case ub of None \<Rightarrow> False | Some u \<Rightarrow> u < x)"

text \<open>The initial step.  A relative step to infinite bounds would be infinite.\<close>

definition initialize_h ::
    "'r::linordered_field model_config \<Rightarrow> 'r \<Rightarrow> 'r option \<Rightarrow> 'r option \<Rightarrow> 'r \<Rightarrow> string \<Rightarrow> 'r result" where
  "initialize_h c x lb ub step_size step_type =
    (if step_type = ''absolute'' then Inr (max step_size (sqrt_DBL_MIN c))
     else if step_type = ''bounds'' then
       (case (lb, ub) of (Some l, Some u) \<Rightarrow> Inr (step_size * max (u - l) (sqrt_DBL_MIN c))
        | _ \<Rightarrow> Inl (UndefinedBehaviour ''infinite step''))
     else Inr (step_size * max \<bar>x\<bar> (1 / 100)))"

text \<open>The first step, away from zero; the flag is \<^verbatim>\<open>shortStep\<close>.  A step is short only if both bounds are
  exceeded, so they are finite then.\<close>

definition FDstep1 ::
    "'r::linordered_field model_config \<Rightarrow> 'r \<Rightarrow> 'r option \<Rightarrow> 'r option \<Rightarrow> 'r \<Rightarrow> 'r \<times> bool" where
  "FDstep1 c x0 lb ub h_mag =
    (case (if x0 < 0 then
             if \<not> ignoreBounds c \<and> below (x0 + - h_mag) lb then
               if \<not> above (x0 + h_mag) ub then (h_mag, False) else (- h_mag, True)
             else (- h_mag, False)
           else
             if \<not> ignoreBounds c \<and> above (x0 + h_mag) ub then
               if \<not> below (x0 - h_mag) lb then (- h_mag, False) else (h_mag, True)
             else (h_mag, False)) of
       (h, short) \<Rightarrow>
         if short then
           (case (lb, ub) of
              (Some l, Some u) \<Rightarrow> (let h1 = x0 - l; h2 = u - x0 in if h1 < h2 then h2 else - h1)
            | _ \<Rightarrow> h, True)
         else (h, False))"

text \<open>The second step of a central difference.\<close>

definition FDstep2 ::
    "'r::linordered_field model_config \<Rightarrow> 'r \<Rightarrow> 'r option \<Rightarrow> 'r option \<Rightarrow> 'r \<Rightarrow> bool \<Rightarrow> 'r \<times> bool" where
  "FDstep2 c x0 lb ub h short =
    (let h2 = - h in
     if short then (1 / 2 * h, True)
     else if \<not> ignoreBounds c then
       if h2 < 0 then
         if below (x0 + h2) lb then
           (if \<not> above (x0 + (h + h)) ub then h + h
            else if \<not> above (x0 + 3 / 2 * h) ub then 3 / 2 * h else 1 / 2 * h, True)
         else (h2, False)
       else
         if above (x0 + h2) ub then
           (if \<not> below (x0 + (h + h)) lb then h + h
            else if \<not> below (x0 + 3 / 2 * h) lb then 3 / 2 * h else 1 / 2 * h, True)
         else (h2, False)
     else (h2, False))"

text \<open>A step size per variable, or one for all, told apart by the length of the vector.\<close>

definition select_step :: "'r list \<Rightarrow> nat \<Rightarrow> nat \<Rightarrow> 'r result" where
  "select_step sizes num_deriv_vars xj_index =
    (let k = (if length sizes = num_deriv_vars then xj_index else 0)
     in if k < length sizes then Inr (sizes ! k) else Inl (UndefinedBehaviour ''vector read''))"

definition forward_grad_step ::
    "'r::linordered_field model_config \<Rightarrow> nat \<Rightarrow> nat \<Rightarrow> 'r \<Rightarrow> 'r option \<Rightarrow> 'r option \<Rightarrow> ('r \<times> bool) result" where
  "forward_grad_step c num_deriv_vars xj_index x0_j lb_j ub_j =
    rbind (select_step (fdGradStepSize c) num_deriv_vars xj_index) (\<lambda>fdgss.
    rbind (initialize_h c x0_j lb_j ub_j fdgss (fdGradStepType c)) (\<lambda>h.
      Inr (FDstep1 c x0_j lb_j ub_j h)))"

section \<open>Variables and bounds\<close>

definition slice :: "nat \<Rightarrow> nat \<Rightarrow> 'a list \<Rightarrow> 'a list" where
  "slice start n xs = take n (drop start xs)"

definition view_range :: "'r model_config \<Rightarrow> 'r variables \<Rightarrow> deriv_view \<Rightarrow> nat \<times> nat" where
  "view_range c v vw = (case vw of Active \<Rightarrow> (cv_start v, num_cv v) | Inactive \<Rightarrow> (icv_start c, num_icv c)
     | All_Variables \<Rightarrow> (0, length (allContinuousVars v)))"

definition view_slice :: "'r model_config \<Rightarrow> 'r variables \<Rightarrow> deriv_view \<Rightarrow> 'a list \<Rightarrow> 'a list" where
  "view_slice c v vw xs = (case view_range c v vw of (start, n) \<Rightarrow> slice start n xs)"

text \<open>\<^verbatim>\<open>continuous_variables(x)\<close>, \<^verbatim>\<open>inactive_continuous_variables(x)\<close>, \<^verbatim>\<open>all_continuous_variables(x)\<close>.\<close>

definition put_view :: "'r model_config \<Rightarrow> deriv_view \<Rightarrow> 'r list \<Rightarrow> 'r variables \<Rightarrow> 'r variables" where
  "put_view c vw x v = (let start = fst (view_range c v vw) in
     v\<lparr>allContinuousVars := map_index (\<lambda>i y. if start \<le> i \<and> i < start + length x then x ! (i - start) else y)
       (allContinuousVars v)\<rparr>)"

text \<open>Which variables a request differentiates by.\<close>

definition select_view :: "'r model_config \<Rightarrow> 'r variables \<Rightarrow> nat list \<Rightarrow> deriv_view" where
  "select_view c v dvv =
    (if dvv = view_slice c v Active (all_cv_ids c) then Active
     else if dvv = view_slice c v Inactive (all_cv_ids c) then Inactive else All_Variables)"

definition fd_bounds :: "'r model_config \<Rightarrow> nat \<Rightarrow> var_type \<Rightarrow> 'r option \<Rightarrow> 'r option \<Rightarrow> 'r option \<times> 'r option" where
  "fd_bounds c var_id vt lower upper =
    (if vt \<in> {NORMAL_UNCERTAIN, LOGNORMAL_UNCERTAIN} then distribution_bounds c (var_id - 1)
     else if vt \<in> {EXPONENTIAL_UNCERTAIN, GAMMA_UNCERTAIN, FRECHET_UNCERTAIN, WEIBULL_UNCERTAIN} then (lower, None)
     else if vt = GUMBEL_UNCERTAIN then (None, None)
     else (lower, upper))"

text \<open>The view, the values, the bounds of the derivative variables, and the ids of the view.\<close>

definition initialize_x0_bounds ::
    "'r model_config \<Rightarrow> 'r variables \<Rightarrow> nat list \<Rightarrow>
      (deriv_view \<times> 'r list \<times> ('r option \<times> 'r option) list \<times> nat list) result" where
  "initialize_x0_bounds c v dvv =
    (let vw = select_view c v dvv; x0 = view_slice c v vw (allContinuousVars v);
         lower = view_slice c v vw (all_cv_lower_bounds c); upper = view_slice c v vw (all_cv_upper_bounds c);
         cv_ids = view_slice c v vw (all_cv_ids c); cv_types = view_slice c v vw (all_cv_types c)
     in if ignoreBounds c then Inr (vw, x0, map (\<lambda>_. (None, None)) dvv, cv_ids)
        else rbind (rfold (\<lambda>d bs. case find_index cv_ids d of
               None \<Rightarrow> Inl (UndefinedBehaviour ''array read'')
             | Some k \<Rightarrow> Inr (bs @ [fd_bounds c d (cv_types ! k) (lower ! k) (upper ! k)])) dvv [])
          (\<lambda>bs. Inr (vw, x0, bs, cv_ids)))"

section \<open>Splitting a request\<close>

text \<open>The four outputs for one function: what the simulation computes, and the requests of finite
  difference gradients, finite difference Hessians and quasi-Newton Hessians; then whether derivatives
  are estimated.\<close>

definition analytic_gradient :: "'r model_config \<Rightarrow> nat \<Rightarrow> bool" where
  "analytic_gradient c i \<longleftrightarrow> gradient_type c = ''analytic'' \<or> gradient_type c = ''mixed'' \<and> i + 1 \<in> set (gradIdAnalytic c)"

definition quasi_hessian :: "'r model_config \<Rightarrow> nat \<Rightarrow> bool" where
  "quasi_hessian c i \<longleftrightarrow> hessian_type c = ''quasi'' \<or> hessian_type c = ''mixed'' \<and> i + 1 \<in> set (hessIdQuasi c)"

definition manage_gradient_request :: "'r model_config \<Rightarrow> nat \<Rightarrow> short \<Rightarrow> (short \<times> short \<times> bool) result" where
  "manage_gradient_request c i map_asv =
    rbind (if analytic_gradient c i then Inr (or map_asv 2, 0, False)
       else if methodSource c = ''dakota'' \<and> (gradient_type c = ''numerical'' \<or>
           gradient_type c = ''mixed'' \<and> i + 1 \<in> set (gradIdNumerical c))
         then Inr (if intervalType c = ''forward'' then or map_asv 1 else map_asv, 1, True)
       else Inl (Abort MODEL_ERROR))
      (\<lambda>(m, g, use). Inr (m, g, use \<or> \<not> auto_corrected_surrogate c \<and> quasi_hessian c i))"

definition manage_hessian_request :: "'r model_config \<Rightarrow> nat \<Rightarrow> short \<Rightarrow> (short \<times> short \<times> short \<times> bool) result" where
  "manage_hessian_request c i map_asv =
    (if hessian_type c = ''analytic'' \<or> hessian_type c = ''mixed'' \<and> i + 1 \<in> set (hessIdAnalytic c)
       then Inr (or map_asv 4, 0, 0, False)
     else if hessian_type c = ''numerical'' \<or> hessian_type c = ''mixed'' \<and> i + 1 \<in> set (hessIdNumerical c)
       then if analytic_gradient c i then Inr (or map_asv 2, 2, 0, True) else Inr (or map_asv 1, 1, 0, True)
     else if quasi_hessian c i then Inr (map_asv, 0, 2, True)
     else Inl (Abort MODEL_ERROR))"

definition manage_asv_function ::
    "'r model_config \<Rightarrow> nat \<Rightarrow> short \<Rightarrow> (short \<times> short \<times> short \<times> short \<times> bool) result" where
  "manage_asv_function c i asv_in =
    rbind (if req_grad asv_in then manage_gradient_request c i (if req_val asv_in then 1 else 0)
       else Inr (if req_val asv_in then 1 else 0, 0, False)) (\<lambda>(m, g, use_g).
    rbind (if req_hess asv_in then manage_hessian_request c i m else Inr (m, 0, 0, False)) (\<lambda>(m', h, q, use_h).
      Inr (m', g, h, q, use_g \<or> use_h)))"

text \<open>Whether the step of some variable has to be shortened or both steps lie on one side.\<close>

definition any_short_step :: "'r::linordered_field model_config \<Rightarrow> 'r variables \<Rightarrow> nat list \<Rightarrow> bool result" where
  "any_short_step c v dvv =
    rbind (initialize_x0_bounds c v dvv) (\<lambda>(vw, x0, bs, cv_ids).
      rfold (\<lambda>j acc. case find_index cv_ids (dvv ! j) of
          None \<Rightarrow> Inl (UndefinedBehaviour ''vector read'')
        | Some k \<Rightarrow> (case bs ! j of (lb, ub) \<Rightarrow>
            rbind (forward_grad_step c (length dvv) k (x0 ! k) lb ub) (\<lambda>(h, short).
              Inr (acc \<or> (if intervalType c = ''central'' then snd (FDstep2 c (x0 ! k) lb ub h short) else short)))))
        [0..<length dvv] False)"

definition manage_asv ::
    "'r::linordered_field model_config \<Rightarrow> 'r variables \<Rightarrow> active_set \<Rightarrow>
      (bool \<times> short list \<times> short list \<times> short list \<times> short list) result" where
  "manage_asv c v original_set =
    (let asv = requestVector original_set; dvv = derivVarsVector original_set; zeros = replicate (numFns c) 0;
         pad = (\<lambda>xs. xs @ replicate (numFns c - length asv) 0) in
     if \<not> supportsEstimDerivs c then Inr (False, zeros, zeros, zeros, zeros)
     else if length asv > numFns c then Inl (UndefinedBehaviour ''vector write'')
     else rbind (rfold (\<lambda>(i, a) rs. rbind (manage_asv_function c i a) (\<lambda>r. Inr (rs @ [r]))) (enumerate 0 asv) []) (\<lambda>rs.
       let maps = pad (map fst rs); fd_grad = pad (map (fst \<circ> snd) rs); fd_hess = pad (map (fst \<circ> snd \<circ> snd) rs);
           quasi = pad (map (fst \<circ> snd \<circ> snd \<circ> snd) rs); use = list_ex (snd \<circ> snd \<circ> snd \<circ> snd) rs in
       if list_ex (\<lambda>g. g \<noteq> 0) fd_grad \<and> \<not> ignoreBounds c then
         rbind (any_short_step c v dvv) (\<lambda>short.
           Inr (use, map2 (\<lambda>m g. if req_val g \<and> short then or m 1 else m) maps fd_grad, fd_grad, fd_hess, quasi))
       else Inr (use, maps, fd_grad, fd_hess, quasi)))"

section \<open>Steps respect the bounds\<close>

definition in_bounds :: "'r::linordered_field \<Rightarrow> 'r option \<Rightarrow> 'r option \<Rightarrow> bool" where
  "in_bounds x lb ub \<longleftrightarrow> \<not> below x lb \<and> \<not> above x ub"

definition proper_bounds :: "'r::linordered_field option \<Rightarrow> 'r option \<Rightarrow> bool" where
  "proper_bounds lb ub \<longleftrightarrow> (case (lb, ub) of (Some l, Some u) \<Rightarrow> l < u | _ \<Rightarrow> True)"

lemma in_bounds_simps [simp]:
  "in_bounds x None None" "in_bounds x (Some l) None \<longleftrightarrow> l \<le> x" "in_bounds x None (Some u) \<longleftrightarrow> x \<le> u"
  "in_bounds x (Some l) (Some u) \<longleftrightarrow> l \<le> x \<and> x \<le> u"
  by (auto simp: in_bounds_def below_def above_def)

lemma bound_simps [simp]:
  "\<not> below x None" "below x (Some l) \<longleftrightarrow> x < l" "\<not> above x None" "above x (Some u) \<longleftrightarrow> u < x"
  by (simp_all add: below_def above_def)

lemma FDstep1_nonzero:
  assumes "0 < h_mag" "proper_bounds lb ub" "FDstep1 c x lb ub h_mag = (h, short)"
  shows "h \<noteq> 0"
  using assms by (cases lb; cases ub) (auto simp: FDstep1_def proper_bounds_def Let_def split: if_splits)

lemma FDstep1_within:
  assumes "0 < h_mag" "\<not> ignoreBounds c" "in_bounds x lb ub" "FDstep1 c x lb ub h_mag = (h, short)"
  shows "in_bounds (x + h) lb ub"
  using assms by (cases lb; cases ub) (auto simp: FDstep1_def Let_def split: if_splits)

lemma FDstep2_distinct:
  assumes "h \<noteq> 0" "FDstep2 c x lb ub h short = (h2, short2)"
  shows "h2 \<noteq> 0" "h2 \<noteq> h" "short2 \<longleftrightarrow> h + h2 \<noteq> 0" "\<not> short2 \<longrightarrow> h2 = - h"
  using assms by (auto simp: FDstep2_def Let_def split: if_splits)

lemma FDstep2_within:
  assumes "\<not> ignoreBounds c" "in_bounds x lb ub" "in_bounds (x + h) lb ub" "FDstep2 c x lb ub h short = (h2, short2)"
  shows "in_bounds (x + h2) lb ub"
proof -
  have *: "in_bounds (x + 1 / 2 * h) lb ub"
    using assms(2,3) by (cases lb; cases ub) auto
  show ?thesis using assms * by (cases lb; cases ub) (auto simp: FDstep2_def Let_def split: if_splits)
qed

end
