(* ===== verification/Quasi_Newton.thy ===== *)
theory Quasi_Newton
  imports Finite_Difference
begin

text \<open>
  Quasi-Newton Hessians (\<^verbatim>\<open>src/DakotaModel.cpp\<close>: \<^verbatim>\<open>update_quasi_hessians\<close>): from two gradients of a response
  function, a secant update of an approximate Hessian by the symmetric rank one or the BFGS formula.
  A division by zero, which would put infinities or NaN into the Hessian, is an error value.
\<close>

section \<open>State and vectors\<close>

record 'r quasi_state =
  xPrev :: "'r list list"
  fnGradsPrev :: "'r rmat"
  quasiHessians :: "'r symmat list"
  numQuasiUpdates :: "nat list"

definition dot :: "'r::comm_ring_1 list \<Rightarrow> 'r list \<Rightarrow> 'r" where
  "dot u v = sum_list (map2 (*) u v)"

definition sym_vec :: "'r::comm_ring_1 symmat \<Rightarrow> 'r list \<Rightarrow> 'r list" where
  "sym_vec b v = map (\<lambda>j. sum_list (map (\<lambda>k. sym_get b j k * v ! k) [0..<length v])) [0..<length v]"

text \<open>The loops over the stored half of a matrix.\<close>

definition sym_add :: "(nat \<Rightarrow> nat \<Rightarrow> 'r) \<Rightarrow> 'r::plus symmat \<Rightarrow> 'r symmat" where
  "sym_add f b = map_index (\<lambda>j row. map_index (\<lambda>k x. x + f j k) row) b"

definition sym_set_diagonal :: "'r \<Rightarrow> 'r symmat \<Rightarrow> 'r symmat" where
  "sym_set_diagonal x b = map_index (\<lambda>j row. row[j := x]) b"

definition quotient :: "'r::field \<Rightarrow> 'r result" where
  "quotient denom = (if denom = 0 then Inl (UndefinedBehaviour ''division by zero'') else Inr (1 / denom))"

section \<open>Updates\<close>

definition initial_scaling :: "'r::linordered_field model_config \<Rightarrow> 'r list \<Rightarrow> 'r list \<Rightarrow> 'r" where
  "initial_scaling c s y =
    (let scaling1 = dot y s; norm_y_sq = dot y y in
     if is_small c (square_root c norm_y_sq) then 0
     else if is_small c (square_root c \<bar>scaling1\<bar>) then 1 else norm_y_sq / scaling1)"

definition sr1_update ::
    "'r::linordered_field model_config \<Rightarrow> 'r list \<Rightarrow> 'r list \<Rightarrow> 'r symmat \<Rightarrow> 'r symmat result" where
  "sr1_update c s y b =
    (let ymBs = map2 (-) y (sym_vec b s); scaling = dot ymBs s; norm_s = square_root c (dot s s);
         norm_ymBs = square_root c (dot ymBs ymBs)
     in if \<bar>scaling\<bar> > 1 / 10 ^ 6 * norm_s * norm_ymBs
        then rbind (quotient scaling) (\<lambda>q. Inr (sym_add (\<lambda>j k. ymBs ! j * ymBs ! k * q) b))
        else Inr b)"

text \<open>The BFGS formula for a step with product \<open>Bs\<close> and yield \<open>r\<close>.\<close>

definition bfgs_formula :: "'r::linordered_field list \<Rightarrow> 'r list \<Rightarrow> 'r \<Rightarrow> 'r \<Rightarrow> 'r symmat \<Rightarrow> 'r symmat result" where
  "bfgs_formula r Bs scaling1 scaling2 b =
    rbind (quotient scaling1) (\<lambda>q1. rbind (quotient scaling2) (\<lambda>q2.
      Inr (sym_add (\<lambda>j k. r ! j * r ! k * q1 - Bs ! j * Bs ! k * q2) b)))"

text \<open>The yield of the damped formula lies between the product and the true yield.\<close>

definition damped_yield :: "'r::linordered_field \<Rightarrow> 'r \<Rightarrow> 'r list \<Rightarrow> 'r list \<Rightarrow> 'r list" where
  "damped_yield scaling1 scaling2 y Bs =
    (let theta = 8 / 10 * scaling2 / (scaling2 - scaling1) in map2 (\<lambda>yj bj. theta * yj + (1 - theta) * bj) y Bs)"

definition bfgs_update ::
    "'r::linordered_field model_config \<Rightarrow> 'r list \<Rightarrow> 'r list \<Rightarrow> 'r symmat \<Rightarrow> 'r symmat result" where
  "bfgs_update c s y b =
    (let damped = (quasiHessType c = ''damped_bfgs''); Bs = sym_vec b s; scaling1 = dot y s; scaling2 = dot s Bs
     in if \<not> damped \<and> \<bar>scaling1\<bar> > 1 / 10 ^ 6 * \<bar>scaling2\<bar> \<or> damped \<and> scaling1 \<ge> 2 / 10 * scaling2
        then bfgs_formula y Bs scaling1 scaling2 b
        else if damped then
          rbind (quotient (scaling2 - scaling1)) (\<lambda>_.
            let r = damped_yield scaling1 scaling2 y Bs in bfgs_formula r Bs (dot r s) scaling2 b)
        else Inr b)"

text \<open>The update of one function: \<open>x\<close> and \<open>grad\<close> are the new point and gradient.\<close>

definition update_quasi_hessian ::
    "'r::linordered_field model_config \<Rightarrow> 'r list \<Rightarrow> 'r list \<Rightarrow> nat \<Rightarrow> 'r list \<Rightarrow> 'r list \<Rightarrow> 'r symmat \<Rightarrow>
      ('r symmat \<times> bool) result" where
  "update_quasi_hessian c x grad updates x_prev grad_prev b =
    (if updates = 0 then Inr (b, True)
     else let s = map2 (-) x x_prev; y = map2 (-) grad grad_prev; norm_s = square_root c (dot s s) in
       if is_small c norm_s then Inr (b, False)
       else let b1 = (if updates = 1 then sym_set_diagonal (initial_scaling c s y) b else b) in
         rbind (if quasiHessType c = ''sr1'' then sr1_update c s y b1 else bfgs_update c s y b1)
           (\<lambda>b2. Inr (b2, True)))"

definition init_quasi_hessians :: "'r model_config \<Rightarrow> ('r::zero, 'm) quasi_state_scheme \<Rightarrow> ('r, 'm) quasi_state_scheme" where
  "init_quasi_hessians c s =
    (if numQuasiUpdates s = [] then
       s\<lparr>xPrev := vec_resize [] (numFns c) (xPrev s),
         fnGradsPrev := mat_reshape (numDerivVars c) (numFns c) (fnGradsPrev s),
         quasiHessians := map_index (\<lambda>i h. if quasi_hessian c i then sym_zero (numDerivVars c) else h)
           (vec_resize [] (numFns c) (quasiHessians s)),
         numQuasiUpdates := replicate (numFns c) 0\<rparr>
     else s)"

definition update_quasi_function ::
    "'r::linordered_field model_config \<Rightarrow> 'r list \<Rightarrow> 'r rmat \<Rightarrow> short list \<Rightarrow> nat \<Rightarrow> ('r, 'm) quasi_state_scheme \<Rightarrow>
      ('r, 'm) quasi_state_scheme result" where
  "update_quasi_function c x fn_grads orig_asv i s =
    (if i \<ge> length orig_asv \<or> req_grad (orig_asv ! i) \<and> i \<ge> length (m_cols fn_grads) then Inl (UndefinedBehaviour ''index'')
     else if quasiHessians s ! i \<noteq> [] \<and> req_grad (orig_asv ! i) then
       rbind (update_quasi_hessian c x (m_cols fn_grads ! i) (numQuasiUpdates s ! i) (xPrev s ! i)
           (m_cols (fnGradsPrev s) ! i) (quasiHessians s ! i)) (\<lambda>(b, store).
         let s1 = s\<lparr>quasiHessians := (quasiHessians s)[i := b]\<rparr> in
         Inr (if store then s1\<lparr>xPrev := (xPrev s1)[i := x],
             fnGradsPrev := (fnGradsPrev s1)\<lparr>m_cols := (m_cols (fnGradsPrev s1))[i := m_cols fn_grads ! i]\<rparr>,
             numQuasiUpdates := (numQuasiUpdates s1)[i := Suc (numQuasiUpdates s1 ! i)]\<rparr>
           else s1))
     else Inr s)"

definition update_quasi_hessians ::
    "'r::linordered_field model_config \<Rightarrow> 'r list \<Rightarrow> 'r response \<Rightarrow> active_set \<Rightarrow> ('r, 'm) quasi_state_scheme \<Rightarrow>
      ('r, 'm) quasi_state_scheme result" where
  "update_quasi_hessians c x r original_set s =
    rfold (update_quasi_function c x (functionGradients r) (requestVector original_set))
      [0..<numFns c] (init_quasi_hessians c s)"

section \<open>Matrices as quadratic forms\<close>

lemma dot_sum: "length v = length u \<Longrightarrow> dot u v = (\<Sum>i<length u. u ! i * v ! i)"
  unfolding dot_def by (induction u v rule: list_induct2') (simp_all add: sum.lessThan_Suc_shift del: sum.lessThan_Suc)

lemma length_sym_vec [simp]: "length (sym_vec b v) = length v"
  by (simp add: sym_vec_def)

lemma nth_sym_vec: "j < length v \<Longrightarrow> sym_vec b v ! j = (\<Sum>k<length v. sym_get b j k * v ! k)"
  by (simp add: sym_vec_def interv_sum_list_conv_sum_set_nat atLeast0LessThan)

lemma sym_get_sym: "sym_get b j k = sym_get b k j"
  by (simp add: sym_get_def)

lemma tri_wf_sym_add: "tri_wf n b \<Longrightarrow> tri_wf n (sym_add f b)"
  by (auto simp: tri_wf_def sym_add_def)

lemma sym_get_add:
  assumes "tri_wf n b" "j < n" "k < n" "\<And>j k. f j k = f k j"
  shows "sym_get (sym_add f b) j k = sym_get b j k + f j k"
  using assms(1-3) assms(4) [of j k] by (auto simp: tri_wf_def sym_add_def sym_get_def)

text \<open>The product of the updated matrix with a vector.\<close>

lemma sym_vec_add:
  assumes "tri_wf n b" "length v = n" "\<And>j k. f j k = f k j"
  shows "sym_vec (sym_add f b) v = map (\<lambda>j. sym_vec b v ! j + (\<Sum>k<n. f j k * v ! k)) [0..<n]"
proof (rule nth_equalityI)
  fix j assume "j < length (sym_vec (sym_add f b) v)"
  then have j: "j < n" using assms(2) by simp
  have "sym_vec (sym_add f b) v ! j = (\<Sum>k<n. (sym_get b j k + f j k) * v ! k)"
    using j assms(2) sym_get_add [OF assms(1) j _ assms(3)] by (simp add: nth_sym_vec)
  also have "\<dots> = sym_vec b v ! j + (\<Sum>k<n. f j k * v ! k)"
    using j assms(2) by (simp add: nth_sym_vec distrib_right sum.distrib)
  finally show "sym_vec (sym_add f b) v ! j = map (\<lambda>j. sym_vec b v ! j + (\<Sum>k<n. f j k * v ! k)) [0..<n] ! j"
    using j by simp
qed (use assms(2) in simp)

lemma dot_commute: "dot u v = dot v u"
  unfolding dot_def by (induction u v rule: list_induct2') (simp_all add: mult.commute)

text \<open>The quadratic form is symmetric.\<close>

lemma dot_sym_vec:
  assumes "length u = n" "length v = n"
  shows "dot u (sym_vec b v) = dot v (sym_vec b u)"
proof -
  have "dot u (sym_vec b v) = (\<Sum>j<n. \<Sum>k<n. u ! j * (sym_get b j k * v ! k))"
    using assms by (simp add: dot_sum nth_sym_vec sum_distrib_left)
  also have "\<dots> = (\<Sum>k<n. \<Sum>j<n. u ! j * (sym_get b j k * v ! k))" by (rule sum.swap)
  also have "\<dots> = (\<Sum>k<n. \<Sum>j<n. v ! k * (sym_get b k j * u ! j))"
    by (intro sum.cong refl) (simp add: sym_get_sym [of b] mult.commute mult.left_commute)
  also have "\<dots> = dot v (sym_vec b u)" using assms by (simp add: dot_sum nth_sym_vec sum_distrib_left)
  finally show ?thesis .
qed

text \<open>The BFGS formula as a product: \<open>B z + r (r'z)/(r's) - Bs (Bs'z)/(s'Bs)\<close>.\<close>

lemma bfgs_product:
  fixes b :: "'r::linordered_field symmat"
  assumes b: "tri_wf n b" and len: "length r = n" "length Bs = n" "length z = n"
    and e: "bfgs_formula r Bs s1 s2 b = Inr b'"
  shows "s1 \<noteq> 0" "s2 \<noteq> 0" "tri_wf n b'"
    "\<forall>j < n. sym_vec b' z ! j = sym_vec b z ! j + r ! j * dot r z / s1 - Bs ! j * dot Bs z / s2"
proof -
  let ?f = "\<lambda>j k. r ! j * r ! k * (1 / s1) - Bs ! j * Bs ! k * (1 / s2)"
  show nz: "s1 \<noteq> 0" "s2 \<noteq> 0" using e by (auto simp: bfgs_formula_def quotient_def split: if_splits)
  then have b': "b' = sym_add ?f b" using e by (simp add: bfgs_formula_def quotient_def)
  then show "tri_wf n b'" using tri_wf_sym_add b by simp
  have s: "?f j k = ?f k j" for j k by (simp add: mult.commute)
  show "\<forall>j < n. sym_vec b' z ! j = sym_vec b z ! j + r ! j * dot r z / s1 - Bs ! j * dot Bs z / s2"
  proof (intro allI impI)
    fix j assume j: "j < n"
    have "(\<Sum>k<n. ?f j k * z ! k) = (\<Sum>k<n. r ! j * (r ! k * z ! k) / s1 - Bs ! j * (Bs ! k * z ! k) / s2)"
      by (intro sum.cong refl) (simp add: algebra_simps)
    also have "\<dots> = r ! j * dot r z / s1 - Bs ! j * dot Bs z / s2"
      using len by (simp add: sum_subtractf dot_sum sum_distrib_left sum_divide_distrib)
    finally show "sym_vec b' z ! j = sym_vec b z ! j + r ! j * dot r z / s1 - Bs ! j * dot Bs z / s2"
      using sym_vec_add [OF b len(3) s] j by (simp add: b')
  qed
qed

lemma bfgs_secant:
  fixes b :: "'r::linordered_field symmat"
  assumes b: "tri_wf n b" "length r = n" "length s = n"
    and e: "bfgs_formula r (sym_vec b s) (dot r s) (dot s (sym_vec b s)) b = Inr b'"
  shows "tri_wf n b'" "sym_vec b' s = r"
proof -
  have l: "length (sym_vec b s) = n" using b(3) by simp
  note p = bfgs_product [OF b(1,2) l b(3) e]
  show "tri_wf n b'" by (rule p(3))
  show "sym_vec b' s = r"
  proof (rule nth_equalityI)
    fix j assume "j < length (sym_vec b' s)"
    then have j: "j < n" using b(3) by simp
    have "sym_vec b' s ! j = sym_vec b s ! j + r ! j * dot r s / dot r s - sym_vec b s ! j * dot (sym_vec b s) s / dot s (sym_vec b s)"
      using p(4) j by blast
    then show "sym_vec b' s ! j = r ! j" using p(1,2) by (simp add: dot_commute [of s])
  qed (use b in simp)
qed

section \<open>Positive definiteness\<close>

definition pos_def :: "nat \<Rightarrow> 'r::linordered_field symmat \<Rightarrow> bool" where
  "pos_def n b \<longleftrightarrow> tri_wf n b \<and> (\<forall>z. length z = n \<longrightarrow> (\<exists>j < n. z ! j \<noteq> 0) \<longrightarrow> 0 < dot z (sym_vec b z))"

lemma dot_linear:
  fixes u :: "'r::linordered_field list"
  assumes "length u = n" "length v = n" "length w = n"
  shows "dot u (map2 (\<lambda>x y. x - a * y) v w) = dot u v - a * dot u w"
  using assms by (simp add: dot_sum sum_subtractf sum_distrib_left algebra_simps)

lemma sym_vec_linear:
  fixes b :: "'r::linordered_field symmat"
  assumes "length v = n" "length w = n"
  shows "sym_vec b (map2 (\<lambda>x y. x - a * y) v w) = map2 (\<lambda>x y. x - a * y) (sym_vec b v) (sym_vec b w)"
  using assms by (intro nth_equalityI)
    (auto simp: nth_sym_vec sum_subtractf sum_distrib_left algebra_simps intro!: sum.cong)

text \<open>The form of \<open>z - a s\<close>, with \<open>a\<close> the coefficient of \<open>z\<close> along \<open>s\<close>.\<close>

lemma form_residual:
  fixes b :: "'r::linordered_field symmat"
  assumes l: "length z = n" "length s = n" and s: "dot s (sym_vec b s) \<noteq> 0"
  defines "a \<equiv> dot s (sym_vec b z) / dot s (sym_vec b s)"
  shows "dot (map2 (\<lambda>x y. x - a * y) z s) (sym_vec b (map2 (\<lambda>x y. x - a * y) z s)) =
    dot z (sym_vec b z) - (dot s (sym_vec b z))\<^sup>2 / dot s (sym_vec b s)"
proof -
  let ?w = "map2 (\<lambda>x y. x - a * y) z s" and ?B = "sym_vec b"
  have w: "length ?w = n" using l by simp
  have "dot ?w (?B ?w) = dot ?w (?B z) - a * dot ?w (?B s)"
    unfolding sym_vec_linear [OF l] using l by (intro dot_linear [where n = n]) simp_all
  also have "dot ?w (?B z) = dot z (?B z) - a * dot s (?B z)"
    using dot_linear [of "?B z" n z s a] l by (simp add: dot_commute)
  also have "dot ?w (?B s) = dot z (?B s) - a * dot s (?B s)"
    using dot_linear [of "?B s" n z s a] l by (simp add: dot_commute)
  also have "dot z (?B s) = dot s (?B z)" by (rule dot_sym_vec [OF l])
  finally show ?thesis using s by (simp add: a_def field_simps power2_eq_square)
qed

lemma bfgs_form:
  fixes b :: "'r::linordered_field symmat"
  assumes b: "tri_wf n b" "length r = n" "length s = n" "length z = n"
    and e: "bfgs_formula r (sym_vec b s) (dot r s) (dot s (sym_vec b s)) b = Inr b'"
  shows "dot z (sym_vec b' z) = dot z (sym_vec b z) + (dot r z)\<^sup>2 / dot r s - (dot s (sym_vec b z))\<^sup>2 / dot s (sym_vec b s)"
proof -
  let ?Bs = "sym_vec b s"
  have l: "length ?Bs = n" using b(3) by simp
  note p = bfgs_product [OF b(1,2) l b(4) e]
  have "dot z (sym_vec b' z) = (\<Sum>j<n. z ! j * (sym_vec b z ! j + r ! j * dot r z / dot r s - ?Bs ! j * dot ?Bs z / dot s ?Bs))"
    using p(4) b(4) by (simp add: dot_sum)
  also have "\<dots> = (\<Sum>j<n. z ! j * sym_vec b z ! j) + dot r z / dot r s * (\<Sum>j<n. z ! j * r ! j)
      - dot ?Bs z / dot s ?Bs * (\<Sum>j<n. z ! j * ?Bs ! j)"
    by (simp add: sum.distrib sum_subtractf sum_distrib_left algebra_simps)
  also have "\<dots> = dot z (sym_vec b z) + dot r z / dot r s * dot z r - dot ?Bs z / dot s ?Bs * dot z ?Bs"
    using b l by (simp add: dot_sum)
  also have "dot z r = dot r z" by (rule dot_commute)
  also have "dot z ?Bs = dot s (sym_vec b z)" by (rule dot_sym_vec [OF b(4,3)])
  also have "dot ?Bs z = dot s (sym_vec b z)" using dot_sym_vec [OF b(4,3)] by (simp add: dot_commute)
  finally show ?thesis by (simp add: power2_eq_square)
qed

lemma sum_scale: "(\<Sum>j<n. f j * (a * g j)) = a * (\<Sum>j<n. f j * g j :: 'r::linordered_field)"
  unfolding sum_distrib_left by (intro sum.cong refl) (rule mult.left_commute)

lemma bfgs_pos_def:
  fixes b :: "'r::linordered_field symmat"
  assumes b: "pos_def n b" and l: "length r = n" "length s = n" and s: "\<exists>j < n. s ! j \<noteq> 0" and rs: "0 < dot r s"
    and e: "bfgs_formula r (sym_vec b s) (dot r s) (dot s (sym_vec b s)) b = Inr b'"
  shows "pos_def n b'"
  unfolding pos_def_def
proof (intro conjI allI impI)
  have w: "tri_wf n b" using b by (simp add: pos_def_def)
  show "tri_wf n b'" by (rule bfgs_secant(1) [OF w l e])
  fix z :: "'r list"
  assume z: "length z = n" "\<exists>j < n. z ! j \<noteq> 0"
  have q: "0 < dot s (sym_vec b s)" using b l(2) s by (simp add: pos_def_def)
  let ?a = "dot s (sym_vec b z) / dot s (sym_vec b s)"
  let ?w = "map2 (\<lambda>x y. x - ?a * y) z s"
  have F: "dot ?w (sym_vec b ?w) = dot z (sym_vec b z) - (dot s (sym_vec b z))\<^sup>2 / dot s (sym_vec b s)"
    using form_residual [OF z(1) l(2)] q by simp
  have form: "dot z (sym_vec b' z) = dot ?w (sym_vec b ?w) + (dot r z)\<^sup>2 / dot r s"
    unfolding F using bfgs_form [OF w l z(1) e] by simp
  show "0 < dot z (sym_vec b' z)"
  proof (cases "\<exists>j < n. ?w ! j \<noteq> 0")
    case True
    moreover have "length ?w = n" using z(1) l(2) by simp
    ultimately have "0 < dot ?w (sym_vec b ?w)" using b unfolding pos_def_def by blast
    then show ?thesis unfolding form using rs by (simp add: add_pos_nonneg)
  next
    case False
    have za: "z ! j = ?a * s ! j" if "j < n" for j
    proof -
      have "?w ! j = z ! j - ?a * s ! j" using that z(1) l(2) by simp
      then show ?thesis using False that by simp
    qed
    then have "?a \<noteq> 0" using z(2) by auto
    moreover have "dot r z = ?a * dot r s"
    proof -
      have "dot r z = (\<Sum>j<n. r ! j * (?a * s ! j))" using za z(1) l by (simp add: dot_sum)
      also have "\<dots> = ?a * dot r s" using l sum_scale [of "\<lambda>j. r ! j" ?a] by (simp add: dot_sum)
      finally show ?thesis .
    qed
    ultimately have "0 < (dot r z)\<^sup>2 / dot r s" using rs by simp
    moreover have "dot ?w (sym_vec b ?w) = 0"
    proof -
      have "?w ! j = 0" if "j < n" for j using False that by blast
      then have "(\<Sum>j<n. ?w ! j * sym_vec b ?w ! j) = 0" by (intro sum.neutral) simp
      then show ?thesis using z(1) l(2) by (simp add: dot_sum)
    qed
    ultimately show ?thesis unfolding form by simp
  qed
qed

section \<open>Secant conditions\<close>

lemma dot_mix:
  fixes s :: "'r::linordered_field list"
  assumes "length y = n" "length v = n" "length s = n"
  shows "dot (map2 (\<lambda>yj bj. t * yj + u * bj) y v) s = t * dot y s + u * dot v s"
  using assms by (simp add: dot_sum sum.distrib sum_distrib_left algebra_simps)

lemma sr1_secant:
  fixes b :: "'r::linordered_field symmat"
  assumes b: "tri_wf n b" "length y = n" "length s = n" and e: "sr1_update c s y b = Inr b'"
    and "\<bar>dot (map2 (-) y (sym_vec b s)) s\<bar> > 1 / 10 ^ 6 * square_root c (dot s s) *
      square_root c (dot (map2 (-) y (sym_vec b s)) (map2 (-) y (sym_vec b s)))"
  shows "tri_wf n b'" "sym_vec b' s = y"
proof -
  let ?u = "map2 (-) y (sym_vec b s)"
  let ?f = "\<lambda>j k. ?u ! j * ?u ! k * (1 / dot ?u s)"
  have nz: "dot ?u s \<noteq> 0" and b': "b' = sym_add ?f b"
    using e assms(5) by (auto simp: sr1_update_def Let_def quotient_def split: if_splits)
  show "tri_wf n b'" using tri_wf_sym_add b(1) b' by simp
  have s: "?f j k = ?f k j" for j k by (simp add: mult.commute)
  show "sym_vec b' s = y"
  proof (rule nth_equalityI)
    fix j assume "j < length (sym_vec b' s)"
    then have j: "j < n" using b(3) by simp
    have "(\<Sum>k<n. ?f j k * s ! k) = (\<Sum>k<n. ?u ! k * (?u ! j / dot ?u s * s ! k))"
      by (intro sum.cong refl) (simp add: mult.commute mult.left_commute)
    also have "\<dots> = ?u ! j / dot ?u s * (\<Sum>k<n. ?u ! k * s ! k)" by (rule sum_scale)
    also have "(\<Sum>k<n. ?u ! k * s ! k) = dot ?u s" using b by (simp add: dot_sum)
    finally have "sym_vec b' s ! j = sym_vec b s ! j + ?u ! j"
      using sym_vec_add [OF b(1,3) s] j nz by (simp add: b')
    then show "sym_vec b' s ! j = y ! j" using j b(2,3) by simp
  qed (use b in simp)
qed

text \<open>What the BFGS update does, branch by branch.\<close>

lemma mix_difference: "t * a + (1 - t) * b = b - t * (b - a :: 'r::linordered_field)"
  by (simp add: algebra_simps)

lemma damped_yield_dot:
  fixes s :: "'r::linordered_field list"
  assumes l: "length y = n" "length s = n" and ne: "dot y s \<noteq> dot s (sym_vec b s)"
  defines "s1 \<equiv> dot y s" and "s2 \<equiv> dot s (sym_vec b s)"
  shows "length (damped_yield s1 s2 y (sym_vec b s)) = n" "dot (damped_yield s1 s2 y (sym_vec b s)) s = 2 / 10 * s2"
proof -
  let ?t = "8 / 10 * s2 / (s2 - s1)"
  show "length (damped_yield s1 s2 y (sym_vec b s)) = n" using l by (simp add: damped_yield_def Let_def)
  have "dot (damped_yield s1 s2 y (sym_vec b s)) s = ?t * s1 + (1 - ?t) * s2"
    using dot_mix [OF l(1) _ l(2), of "sym_vec b s" ?t "1 - ?t"] l
    by (simp add: damped_yield_def Let_def s1_def s2_def dot_commute)
  also have "\<dots> = s2 - ?t * (s2 - s1)" by (rule mix_difference)
  also have "?t * (s2 - s1) = 8 / 10 * s2"
    using ne unfolding s1_def s2_def by (subst times_divide_eq_left, subst nonzero_mult_div_cancel_right) simp_all
  finally show "dot (damped_yield s1 s2 y (sym_vec b s)) s = 2 / 10 * s2" by simp
qed

lemma bfgs_update_cases:
  assumes "bfgs_update c s y b = Inr b'"
  obtains (formula) "quasiHessType c \<noteq> ''damped_bfgs'' \<and> \<bar>dot y s\<bar> > 1 / 10 ^ 6 * \<bar>dot s (sym_vec b s)\<bar> \<or>
      quasiHessType c = ''damped_bfgs'' \<and> dot y s \<ge> 2 / 10 * dot s (sym_vec b s)"
      "bfgs_formula y (sym_vec b s) (dot y s) (dot s (sym_vec b s)) b = Inr b'"
    | (damped) "quasiHessType c = ''damped_bfgs''" "dot y s < 2 / 10 * dot s (sym_vec b s)"
      "dot y s \<noteq> dot s (sym_vec b s)"
      "bfgs_formula (damped_yield (dot y s) (dot s (sym_vec b s)) y (sym_vec b s)) (sym_vec b s)
        (dot (damped_yield (dot y s) (dot s (sym_vec b s)) y (sym_vec b s)) s) (dot s (sym_vec b s)) b = Inr b'"
    | (skipped) "quasiHessType c \<noteq> ''damped_bfgs''" "\<bar>dot y s\<bar> \<le> 1 / 10 ^ 6 * \<bar>dot s (sym_vec b s)\<bar>" "b' = b"
proof (cases "quasiHessType c = ''damped_bfgs''")
  case True
  show ?thesis
  proof (cases "dot y s \<ge> 2 / 10 * dot s (sym_vec b s)")
    case ge: True
    then show ?thesis using formula True assms by (simp add: bfgs_update_def Let_def)
  next
    case False
    then have "rbind (quotient (dot s (sym_vec b s) - dot y s)) (\<lambda>_.
        bfgs_formula (damped_yield (dot y s) (dot s (sym_vec b s)) y (sym_vec b s)) (sym_vec b s)
          (dot (damped_yield (dot y s) (dot s (sym_vec b s)) y (sym_vec b s)) s) (dot s (sym_vec b s)) b) = Inr b'"
      using True assms by (simp add: bfgs_update_def Let_def)
    moreover from this have "dot s (sym_vec b s) - dot y s \<noteq> 0" by (auto simp: quotient_def)
    ultimately show ?thesis using damped True False by (simp add: quotient_def)
  qed
next
  case False
  show ?thesis
  proof (cases "\<bar>dot y s\<bar> > 1 / 10 ^ 6 * \<bar>dot s (sym_vec b s)\<bar>")
    case gt: True
    then show ?thesis using formula False assms by (simp add: bfgs_update_def Let_def)
  next
    case le: False
    then show ?thesis using skipped False assms by (simp add: bfgs_update_def Let_def)
  qed
qed

lemma bfgs_update_secant:
  fixes b :: "'r::linordered_field symmat"
  assumes b: "tri_wf n b" "length y = n" "length s = n" and e: "bfgs_update c s y b = Inr b'"
  defines "s1 \<equiv> dot y s" and "s2 \<equiv> dot s (sym_vec b s)"
  shows "tri_wf n b'" "b' = b \<or> sym_vec b' s = y \<or> sym_vec b' s = damped_yield s1 s2 y (sym_vec b s)"
    "quasiHessType c \<noteq> ''damped_bfgs'' \<Longrightarrow> \<bar>s1\<bar> > 1 / 10 ^ 6 * \<bar>s2\<bar> \<Longrightarrow> sym_vec b' s = y"
    "quasiHessType c = ''damped_bfgs'' \<Longrightarrow> s1 \<ge> 2 / 10 * s2 \<Longrightarrow> sym_vec b' s = y"
    "quasiHessType c = ''damped_bfgs'' \<Longrightarrow> s1 < 2 / 10 * s2 \<Longrightarrow> sym_vec b' s = damped_yield s1 s2 y (sym_vec b s)"
proof -
  let ?r = "damped_yield s1 s2 y (sym_vec b s)"
  have lr: "length ?r = n" using b by (simp add: damped_yield_def Let_def)
  have g: "tri_wf n b' \<and> sym_vec b' s = q" if q: "length q = n" "bfgs_formula q (sym_vec b s) (dot q s) s2 b = Inr b'" for q
    using bfgs_secant [OF b(1) q(1) b(3) q(2) [unfolded s2_def]] ..
  have y: "tri_wf n b' \<and> sym_vec b' s = y" if "bfgs_formula y (sym_vec b s) s1 s2 b = Inr b'"
    by (rule g [OF b(2) that [unfolded s1_def]])
  note r = g [OF lr]
  consider "tri_wf n b'" "sym_vec b' s = y" "quasiHessType c = ''damped_bfgs'' \<longrightarrow> \<not> s1 < 2 / 10 * s2"
    | "tri_wf n b'" "sym_vec b' s = ?r" "quasiHessType c = ''damped_bfgs''" "s1 < 2 / 10 * s2"
    | "b' = b" "quasiHessType c \<noteq> ''damped_bfgs''" "\<not> \<bar>s1\<bar> > 1 / 10 ^ 6 * \<bar>s2\<bar>"
    using e
  proof (cases rule: bfgs_update_cases)
    case formula
    have "quasiHessType c = ''damped_bfgs'' \<longrightarrow> \<not> s1 < 2 / 10 * s2"
      using formula(1) unfolding s1_def s2_def by (metis leD)
    then show ?thesis using y formula(2) that(1) unfolding s1_def s2_def by blast
  next
    case damped
    then show ?thesis using r that(2) unfolding s1_def s2_def by blast
  next
    case skipped
    then show ?thesis using that(3) unfolding s1_def s2_def by (metis leD)
  qed
  note cases = this
  show "tri_wf n b'" using cases b(1) by blast
  show "b' = b \<or> sym_vec b' s = y \<or> sym_vec b' s = ?r" using cases by blast
  show "sym_vec b' s = y" if "quasiHessType c \<noteq> ''damped_bfgs''" "\<bar>s1\<bar> > 1 / 10 ^ 6 * \<bar>s2\<bar>"
    using cases that by blast
  show "sym_vec b' s = y" if "quasiHessType c = ''damped_bfgs''" "s1 \<ge> 2 / 10 * s2"
    using cases that by (metis leD)
  show "sym_vec b' s = ?r" if "quasiHessType c = ''damped_bfgs''" "s1 < 2 / 10 * s2"
    using cases that by blast
qed

text \<open>The damped update always exists on a positive definite matrix, and keeps it so.\<close>

lemma damped_bfgs_pos_def:
  fixes b :: "'r::linordered_field symmat"
  assumes b: "pos_def n b" and l: "length y = n" "length s = n" and s: "\<exists>j < n. s ! j \<noteq> 0"
    and c: "quasiHessType c = ''damped_bfgs''"
  shows "\<exists>b'. bfgs_update c s y b = Inr b' \<and> pos_def n b'"
proof -
  let ?s1 = "dot y s" and ?s2 = "dot s (sym_vec b s)"
  let ?r = "damped_yield ?s1 ?s2 y (sym_vec b s)"
  have q: "0 < ?s2" using b l(2) s by (simp add: pos_def_def)
  have ex: "\<exists>b'. bfgs_formula r (sym_vec b s) (dot r s) ?s2 b = Inr b' \<and> pos_def n b'" if r: "length r = n" "0 < dot r s" for r
  proof -
    obtain b' where "bfgs_formula r (sym_vec b s) (dot r s) ?s2 b = Inr b'"
      using r(2) q by (auto simp: bfgs_formula_def quotient_def)
    then show ?thesis using bfgs_pos_def [OF b r(1) l(2) s r(2)] by blast
  qed
  show ?thesis
  proof (cases "?s1 \<ge> 2 / 10 * ?s2")
    case True
    then have "0 < ?s1" using q by simp
    then show ?thesis using ex [OF l(1)] True c by (simp add: bfgs_update_def Let_def)
  next
    case False
    then have lt: "?s1 < ?s2" using q by simp
    then have ne: "?s1 \<noteq> ?s2" by simp
    note r = damped_yield_dot [OF l ne]
    have "0 < dot ?r s" using r(2) q by simp
    then show ?thesis using ex [OF r(1)] False c lt by (simp add: bfgs_update_def Let_def quotient_def)
  qed
qed

end
