(* ===== verification/Quasi_Properties.thy ===== *)
theory Quasi_Properties
  imports Complex_Main Quasi_Newton
begin

text \<open>
  What the quasi-Newton update of one function guarantees: positive definiteness under the damped formula, the
  secant condition, and two inputs on which the code divides by zero.
\<close>
section \<open>Scaled identities\<close>

lemma sym_get_scaled:
  "j < n \<Longrightarrow> k < n \<Longrightarrow> sym_get (sym_set_diagonal x (sym_zero n)) j k = (if j = k then x else 0)"
  by (auto simp: sym_get_def sym_set_diagonal_def sym_zero_def nth_list_update simp del: upt_Suc replicate_Suc)

lemma tri_wf_set_diagonal: "tri_wf n b \<Longrightarrow> tri_wf n (sym_set_diagonal x b)"
  by (auto simp: tri_wf_def sym_set_diagonal_def)

lemma sym_vec_scaled:
  fixes x :: "'r::linordered_field"
  assumes "length v = n"
  shows "sym_vec (sym_set_diagonal x (sym_zero n)) v = map ((*) x) v"
proof (rule nth_equalityI)
  fix j assume "j < length (sym_vec (sym_set_diagonal x (sym_zero n)) v)"
  then have j: "j < n" using assms by simp
  have "sym_vec (sym_set_diagonal x (sym_zero n)) v ! j = (\<Sum>k<n. if k = j then x * v ! j else 0)"
    unfolding nth_sym_vec [OF j [folded assms]] assms by (rule sum.cong) (use j in \<open>simp_all add: sym_get_scaled\<close>)
  then show "sym_vec (sym_set_diagonal x (sym_zero n)) v ! j = map ((*) x) v ! j" using j assms by simp
qed (use assms in simp)

lemma dot_positive:
  fixes z :: "'r::linordered_field list"
  assumes "j < length z" "z ! j \<noteq> 0"
  shows "0 < dot z z"
proof -
  have "0 < z ! j * z ! j" using assms(2) by (simp add: zero_less_mult_iff) (metis neqE)
  also have "\<dots> \<le> (\<Sum>i<length z. z ! i * z ! i)"
    using assms(1) by (intro member_le_sum) simp_all
  finally show ?thesis by (simp add: dot_sum)
qed

lemma dot_scaled: "length v = length u \<Longrightarrow> dot u (map ((*) x) v) = x * dot u (v :: 'r::linordered_field list)"
  by (simp add: dot_sum sum_distrib_left mult.left_commute)

lemma scaled_pos_def:
  fixes x :: "'r::linordered_field"
  assumes "0 < x"
  shows "pos_def n (sym_set_diagonal x (sym_zero n))"
  unfolding pos_def_def
  using assms by (auto simp: tri_wf_set_diagonal tri_wf_sym_zero sym_vec_scaled dot_scaled intro!: mult_pos_pos dot_positive)

lemma dot_zero:
  fixes z :: "'r::linordered_field list"
  assumes "length z = n" "\<forall>j < n. z ! j = 0" "length u = n"
  shows "dot z u = 0" "dot u z = 0"
  using assms by (simp_all add: dot_sum)

lemma dot_nonzero:
  fixes z :: "'r::linordered_field list"
  assumes "length z = n" "length u = n" "dot z u \<noteq> 0"
  shows "\<exists>j < n. z ! j \<noteq> 0" "\<exists>j < n. u ! j \<noteq> 0"
  using dot_zero [of z n u] dot_zero [of u n z] assms by auto
section \<open>Positive definiteness\<close>

text \<open>The Hessian is zero until the second gradient and positive definite afterwards.\<close>

definition quasi_ok :: "nat \<Rightarrow> nat \<Rightarrow> 'r::linordered_field symmat \<Rightarrow> bool" where
  "quasi_ok n updates b \<longleftrightarrow> (if updates \<le> 1 then b = sym_zero n else pos_def n b)"

lemma initial_scaling_positive:
  fixes s :: "'r::linordered_field list"
  assumes "length y = n" "length s = n" "0 < dot y s" "\<not> is_small c (square_root c (dot y y))"
  shows "0 < initial_scaling c s y"
proof -
  obtain j where "j < length y" "y ! j \<noteq> 0" using dot_nonzero(1) [of y n s] assms by auto
  then have "0 < dot y y" by (rule dot_positive)
  then show ?thesis using assms(3,4) by (simp add: initial_scaling_def Let_def)
qed

text \<open>C7: Damped BFGS keeps a quasi-Newton Hessian positive definite.  For as long as the first update has positive
  curvature, an update of a function's Hessian returns, and the Hessian is zero before two gradients have been
  seen and positive definite from then on, whatever the curvature of later steps.\<close>

theorem damped_bfgs_keeps_positive_definite:
  fixes b :: "'r::linordered_field symmat"
  assumes c: "quasiHessType c = ''damped_bfgs''" "is_small c (square_root c 0)"
    and l: "length x = n" "length x_prev = n" "length grad = n" "length grad_prev = n" and b: "quasi_ok n updates b"
    and first: "updates = 1 \<Longrightarrow> 0 < dot (map2 (-) grad grad_prev) (map2 (-) x x_prev) \<and>
      \<not> is_small c (square_root c (dot (map2 (-) grad grad_prev) (map2 (-) grad grad_prev)))"
  shows "\<exists>b' store. update_quasi_hessian c x grad updates x_prev grad_prev b = Inr (b', store) \<and>
    quasi_ok n (if store then Suc updates else updates) b'"
proof (cases "updates = 0 \<or> is_small c (square_root c (dot (map2 (-) x x_prev) (map2 (-) x x_prev)))")
  case True
  then show ?thesis using b by (auto simp: update_quasi_hessian_def quasi_ok_def Let_def)
next
  case False
  let ?s = "map2 (-) x x_prev" and ?y = "map2 (-) grad grad_prev"
  let ?b = "if updates = 1 then sym_set_diagonal (initial_scaling c ?s ?y) b else b"
  have len: "length ?s = n" "length ?y = n" using l by simp_all
  have "pos_def n ?b"
    using b first initial_scaling_positive [OF len(2,1)] False by (auto simp: quasi_ok_def intro: scaled_pos_def)
  moreover have "\<exists>j < n. ?s ! j \<noteq> 0"
  proof (rule ccontr)
    assume "\<not> (\<exists>j < n. ?s ! j \<noteq> 0)"
    then have "dot ?s ?s = 0" using dot_zero(1) [OF len(1)] len by blast
    then show False using False c(2) by simp
  qed
  ultimately obtain b' where "bfgs_update c ?s ?y ?b = Inr b'" "pos_def n b'"
    using damped_bfgs_pos_def [OF _ len(2,1) _ c(1)] by blast
  then show ?thesis
    using False c(1) by (intro exI [of _ b'] exI [of _ True]) (simp add: update_quasi_hessian_def Let_def quasi_ok_def)
qed

text \<open>C33: What an update makes of the secant condition, for each formula.  From the second evaluation on, if a step was
  taken and the update succeeds: SR1 and undamped BFGS map the step to the yield of the gradients, if the test that protects
  the division passes, and otherwise leave the approximation (scaled before the first update) as it is; damped BFGS
  maps the step to the yield, if the curvature condition holds, and otherwise to the damped yield.\<close>

theorem quasi_newton_secant:
  fixes b :: "'r::linordered_field symmat"
  assumes b: "tri_wf n b" and l: "length x = n" "length x_prev = n" "length grad = n" "length grad_prev = n"
    and u: "0 < updates" and e: "update_quasi_hessian c x grad updates x_prev grad_prev b = Inr (b', True)"
  defines "s \<equiv> map2 (-) x x_prev" and "y \<equiv> map2 (-) grad grad_prev"
  defines "b0 \<equiv> (if updates = 1 then sym_set_diagonal (initial_scaling c s y) b else b)"
  defines "Bs \<equiv> sym_vec b0 s" and "r \<equiv> map2 (-) y (sym_vec b0 s)"
  shows "tri_wf n b' \<and>
    (if quasiHessType c = ''sr1'' then
       if \<bar>dot r s\<bar> > 1 / 10 ^ 6 * square_root c (dot s s) * square_root c (dot r r) then sym_vec b' s = y else b' = b0
     else if quasiHessType c = ''damped_bfgs'' then
       sym_vec b' s = (if dot y s \<ge> 2 / 10 * dot s Bs then y else damped_yield (dot y s) (dot s Bs) y Bs)
     else if \<bar>dot y s\<bar> > 1 / 10 ^ 6 * \<bar>dot s Bs\<bar> then sym_vec b' s = y else b' = b0)"
proof -
  have w: "tri_wf n b0" using b by (simp add: b0_def tri_wf_set_diagonal)
  have len: "length y = n" "length s = n" using l by (simp_all add: s_def y_def)
  have up: "(if quasiHessType c = ''sr1'' then sr1_update c s y b0 else bfgs_update c s y b0) = Inr b'"
    using e u unfolding update_quasi_hessian_def Let_def s_def [symmetric] y_def [symmetric] b0_def [symmetric]
    by (auto simp: result_simps split: if_split_asm)
  show ?thesis
  proof (cases "quasiHessType c = ''sr1''")
    case True
    then have su: "sr1_update c s y b0 = Inr b'" using up by simp
    show ?thesis
    proof (cases "\<bar>dot r s\<bar> > 1 / 10 ^ 6 * square_root c (dot s s) * square_root c (dot r r)")
      case t: True
      then show ?thesis using sr1_secant [OF w len su t [unfolded r_def]] True by simp
    next
      case False
      then have "b' = b0" using su by (simp add: sr1_update_def r_def Let_def)
      then show ?thesis using False True w by simp
    qed
  next
    case ns: False
    then have bu: "bfgs_update c s y b0 = Inr b'" using up by simp
    note sec = bfgs_update_secant [OF w len bu, folded Bs_def]
    show ?thesis
    proof (cases "quasiHessType c = ''damped_bfgs''")
      case True
      then show ?thesis using sec(1,4,5) ns by simp
    next
      case False
      moreover have "\<not> \<bar>dot y s\<bar> > 1 / 10 ^ 6 * \<bar>dot s Bs\<bar> \<Longrightarrow> b' = b0"
        using bfgs_update_cases [OF bu, folded Bs_def] False by metis
      ultimately show ?thesis using sec(1,3) ns by simp
    qed
  qed
qed

section \<open>Divisions by zero\<close>

lemma dot_replicate_zero: "dot (replicate n 0) u = (0 :: 'r::linordered_field)"
  unfolding dot_def by (induction n arbitrary: u) (auto simp: zip_Cons1 split: list.splits)

lemma sym_vec_zero: "length v = n \<Longrightarrow> sym_vec (sym_set_diagonal 0 (sym_zero n)) v = replicate n (0 :: 'r::linordered_field)"
  by (intro nth_equalityI) (simp_all add: sym_vec_scaled)

lemma diagonal_zero: "sym_set_diagonal 0 (sym_zero n) = (sym_zero n :: 'r::linordered_field symmat)"
  by (auto simp: sym_set_diagonal_def sym_zero_def nth_list_update simp del: upt_Suc replicate_Suc intro!: nth_equalityI)

text \<open>C34: A first step without yield stalls BFGS, although the code calls a zero yield acceptable: the Hessian keeps the
  zero matrix, and the next step that has curvature divides by the zero product \<open>s'Bs\<close>.  The damped formula divides
  by zero at once.\<close>

theorem zero_yield_breaks_bfgs:
  fixes x :: "'r::linordered_field list"
  assumes c: "quasiHessType c \<noteq> ''sr1''" "is_small c (square_root c 0)"
    and l: "length x = n" "length x_prev = n" "length grad = n" "length x_next = n" "length grad_next = n"
    and step: "\<not> is_small c (square_root c (dot (map2 (-) x x_prev) (map2 (-) x x_prev)))"
      "\<not> is_small c (square_root c (dot (map2 (-) x_next x) (map2 (-) x_next x)))"
    and curvature: "dot (map2 (-) grad_next grad) (map2 (-) x_next x) \<noteq> 0"
  shows "update_quasi_hessian c x grad 1 x_prev grad (sym_zero n) =
      (if quasiHessType c = ''damped_bfgs'' then Inl (UndefinedBehaviour ''division by zero'') else Inr (sym_zero n, True)) \<and>
    (quasiHessType c \<noteq> ''damped_bfgs'' \<longrightarrow>
      update_quasi_hessian c x_next grad_next 2 x grad (sym_zero n) = Inl (UndefinedBehaviour ''division by zero''))"
proof -
  let ?s = "map2 (-) x x_prev"
  have ls: "length ?s = n" "length (map2 (-) x_next x) = n" using l by simp_all
  have y: "map2 (-) grad grad = replicate n 0" using l(3) by (intro nth_equalityI) simp_all
  have sc: "initial_scaling c ?s (replicate n 0) = 0" using c(2) by (simp add: initial_scaling_def Let_def dot_replicate_zero)
  have p: "sym_vec (sym_zero n) v = replicate n (0 :: 'r)" if "length v = n" for v :: "'r list"
    using sym_vec_zero [OF that] by (simp add: diagonal_zero)
  have d: "dot v (replicate n 0) = (0 :: 'r)" for v by (subst dot_commute) (rule dot_replicate_zero)
  have "bfgs_update c ?s (replicate n 0) (sym_zero n) = (if quasiHessType c = ''damped_bfgs''
      then Inl (UndefinedBehaviour ''division by zero'') else Inr (sym_zero n))"
    by (simp add: bfgs_update_def Let_def p [OF ls(1)] dot_replicate_zero d bfgs_formula_def quotient_def)
  moreover have "quasiHessType c \<noteq> ''damped_bfgs'' \<Longrightarrow>
      bfgs_update c (map2 (-) x_next x) (map2 (-) grad_next grad) (sym_zero n) = Inl (UndefinedBehaviour ''division by zero'')"
    using curvature by (simp add: bfgs_update_def Let_def p [OF ls(2)] dot_replicate_zero d bfgs_formula_def quotient_def)
  ultimately show ?thesis using c step by (simp add: update_quasi_hessian_def Let_def y sc diagonal_zero)
qed

text \<open>The damped formula does not safeguard a first update of negative curvature whose yield opposes the step (as every
  one does in one dimension): the initial scaling is negative, the product \<open>s'Bs\<close> equals \<open>y's\<close>, and the damping
  factor divides by their difference.\<close>

theorem damped_bfgs_opposed_yield:
  fixes x :: "'r::linordered_field list"
  assumes c: "quasiHessType c = ''damped_bfgs''" and l: "length x = n" "length x_prev = n"
    and a: "0 < a" "map2 (-) grad grad_prev = map ((*) (- a)) (map2 (-) x x_prev)" and s: "map2 (-) x x_prev \<noteq> replicate n 0"
    and big: "\<not> is_small c (square_root c (dot (map2 (-) x x_prev) (map2 (-) x x_prev)))"
      "\<not> is_small c (square_root c (dot (map2 (-) grad grad_prev) (map2 (-) grad grad_prev)))"
      "\<not> is_small c (square_root c \<bar>dot (map2 (-) grad grad_prev) (map2 (-) x x_prev)\<bar>)"
  shows "update_quasi_hessian c x grad 1 x_prev grad_prev (sym_zero n) = Inl (UndefinedBehaviour ''division by zero'')"
proof -
  let ?s = "map2 (-) x x_prev" and ?y = "map2 (-) grad grad_prev"
  have ls: "length ?s = n" using l by simp
  have ly: "length ?y = n" unfolding a(2) length_map [of "(*) (- a)"] by (rule ls)
  obtain j where "j < length ?s" "?s ! j \<noteq> 0" using s ls by (metis length_replicate nth_equalityI nth_replicate)
  then have ss: "0 < dot ?s ?s" by (rule dot_positive)
  have ys: "dot ?y ?s = - a * dot ?s ?s" unfolding a(2) by (subst dot_commute, rule dot_scaled) simp
  have yy: "dot ?y ?y = a * a * dot ?s ?s" 
    using dot_scaled [of ?s ?y "- a"] ly ls unfolding a(2) [symmetric] ys by (simp add: mult.assoc)
  have sc: "initial_scaling c ?s ?y = - a" using big ss a(1) by (simp add: initial_scaling_def Let_def yy ys)
  have p: "sym_vec (sym_set_diagonal (- a) (sym_zero n)) ?s = map ((*) (- a)) ?s" by (rule sym_vec_scaled [OF ls])
  have s2: "dot ?s (map ((*) (- a)) ?s) = - a * dot ?s ?s" by (rule dot_scaled) simp
  have neg: "\<not> 2 / 10 * (- a * dot ?s ?s) \<le> - a * dot ?s ?s"
    using mult_pos_pos [OF a(1) ss] by simp
  have "bfgs_update c ?s ?y (sym_set_diagonal (- a) (sym_zero n)) = Inl (UndefinedBehaviour ''division by zero'')"
    unfolding bfgs_update_def Let_def p s2 ys using c neg by (simp add: quotient_def)
  then show ?thesis using c big(1) by (simp add: update_quasi_hessian_def Let_def sc)
qed


section \<open>Witnesses\<close>

definition quasi_config :: "string \<Rightarrow> rat model_config" where
  "quasi_config t = \<lparr>numFns = 1, numDerivVars = 2, ignoreBounds = True, centralHess = False, supportsEstimDerivs = True,
    auto_corrected_surrogate = False, intervalType = ''central'', gradient_type = ''analytic'', hessian_type = ''quasi'',
    quasiHessType = t, methodSource = ''dakota'', fdGradStepType = ''relative'', fdHessStepType = ''relative'',
    fdGradStepSize = [1 / 10], fdHessByFnStepSize = [1 / 10], fdHessByGradStepSize = [1 / 10], gradIdAnalytic = [],
    gradIdNumerical = [], hessIdAnalytic = [], hessIdNumerical = [], hessIdQuasi = [], sqrt_DBL_MIN = 1 / 1000,
    square_root = (\<lambda>x. x), is_small = (\<lambda>x. x = 0), icv_start = 0, num_icv = 0, all_cv_ids = [1, 2],
    all_cv_types = [OTHER_TYPE, OTHER_TYPE], all_cv_lower_bounds = [None, None], all_cv_upper_bounds = [None, None],
    distribution_bounds = (\<lambda>_. (None, None))\<rparr>"

lemma quasi_config_sel:
  "quasiHessType (quasi_config t) = t" "square_root (quasi_config t) x = x" "is_small (quasi_config t) x \<longleftrightarrow> x = 0"
  by (simp_all add: quasi_config_def)

text \<open>A step along the first axis whose gradient changes in both components.\<close>

theorem damped_bfgs_keeps_positive_definite_witness:
  "\<exists>b' store. update_quasi_hessian (quasi_config ''damped_bfgs'') [1, 0] [2, 1] 1 [0, 0] [0, 0 :: rat] (sym_zero 2) = Inr (b', store) \<and>
    quasi_ok 2 (if store then Suc 1 else 1) b'"
  by (rule damped_bfgs_keeps_positive_definite) (simp_all add: quasi_config_sel quasi_ok_def dot_def)

theorem quasi_newton_secant_witness:
  "\<exists>b' b''. update_quasi_hessian (quasi_config ''sr1'') [1, 0] [2, 1] 1 [0, 0] [0, 0 :: rat] (sym_zero 2) = Inr (b', True) \<and>
    sym_vec b' [1, 0] = [2, 1] \<and>
    update_quasi_hessian (quasi_config ''damped_bfgs'') [1, 0] [2, 1] 1 [0, 0] [0, 0 :: rat] (sym_zero 2) = Inr (b'', True) \<and>
    sym_vec b'' [1, 0] = [2, 1]"
proof -
  let ?b = "[[2], [1, 1 / 2 :: rat]]" and ?d = "[[2], [1, 3 :: rat]]"
  have e: "update_quasi_hessian (quasi_config ''sr1'') [1, 0] [2, 1] 1 [0, 0] [0, 0 :: rat] (sym_zero 2) = Inr (?b, True)"
    and d: "update_quasi_hessian (quasi_config ''damped_bfgs'') [1, 0] [2, 1] 1 [0, 0] [0, 0 :: rat] (sym_zero 2) = Inr (?d, True)"
    by code_simp+
  have len: "length [1, 0 :: rat] = 2" "length [0, 0 :: rat] = 2" "length [2, 1 :: rat] = 2" by simp_all
  have s: "sym_vec (sym_set_diagonal (initial_scaling (quasi_config t) [1, 0] [2, 1]) (sym_zero 2)) [1, 0] = [5 / 2, 0 :: rat]" for t
    by code_simp
  have "sym_vec ?b [1, 0] = [2, 1]"
    using quasi_newton_secant [OF tri_wf_sym_zero len(1,2,3,2) _ e] by (simp add: quasi_config_sel s [simplified] dot_def)
  moreover have "sym_vec ?d [1, 0] = [2, 1]"
    using quasi_newton_secant [OF tri_wf_sym_zero len(1,2,3,2) _ d] by (simp add: quasi_config_sel s [simplified] dot_def)
  ultimately show ?thesis using e d by blast
qed

theorem zero_yield_breaks_bfgs_witness:
  "update_quasi_hessian (quasi_config ''bfgs'') [1] [5] 1 [0] [5 :: rat] (sym_zero 1) = Inr (sym_zero 1, True) \<and>
   update_quasi_hessian (quasi_config ''bfgs'') [2] [7] 2 [1] [5 :: rat] (sym_zero 1) = Inl (UndefinedBehaviour ''division by zero'')"
  using zero_yield_breaks_bfgs [of "quasi_config ''bfgs''" "[1]" 1 "[0]" "[5]" "[2]" "[7]"]
  by (simp add: quasi_config_sel dot_def)

theorem damped_bfgs_opposed_yield_witness:
  "update_quasi_hessian (quasi_config ''damped_bfgs'') [1] [-3] 1 [0] [0 :: rat] (sym_zero 1) = Inl (UndefinedBehaviour ''division by zero'')"
  by (rule damped_bfgs_opposed_yield [where a = 3]) (simp_all add: quasi_config_sel dot_def)

end
