(* ===== verification/Derivative_Estimation.thy ===== *)
theory Derivative_Estimation
  imports Quasi_Newton
begin

text \<open>
  Estimation of derivatives by finite differences (\<^verbatim>\<open>src/DakotaModel.cpp\<close>: \<^verbatim>\<open>estimate_derivatives\<close>,
  \<^verbatim>\<open>synchronize_derivatives\<close>, \<^verbatim>\<open>update_response\<close>, \<^verbatim>\<open>db_lookup\<close>).

  The virtual functions by which a model reaches its simulation are a record of functions over an
  abstract state.  Every loop of the code is a fold over the same indices; the points at which the
  simulation is evaluated are written from the centre \<open>x0\<close>, which is what the code's vector \<open>x\<close> holds when an
  entry is not displaced.  A division by zero is an error value.
\<close>

section \<open>State\<close>

record ('r, 'd) derived_model =
  derived_evaluate :: "active_set \<Rightarrow> 'r variables \<Rightarrow> 'd \<Rightarrow> ('r response \<times> 'd) result"
  derived_evaluate_nowait :: "active_set \<Rightarrow> 'r variables \<Rightarrow> 'd \<Rightarrow> 'd result"
  derived_evaluation_id :: "'d \<Rightarrow> int"
  derived_synchronize :: "'d \<Rightarrow> ((int \<times> 'r response) list \<times> 'd) result"
  derived_synchronize_nowait :: "'d \<Rightarrow> ((int \<times> 'r response) list \<times> 'd) result"
  derived_master_overload :: "'d \<Rightarrow> bool"
  cache_lookup :: "'r variables \<Rightarrow> active_set \<Rightarrow> 'd \<Rightarrow> 'r response option"

text \<open>The deltas and the responses found in the cache are queues between the submission and the
  synchronization of evaluations; a map with integer keys is the list of its entries by key.\<close>

record ('r, 'd) model_state = "'r quasi_state" +
  currentVariables :: "'r variables"
  currentResponse :: "'r response"
  derived_state :: 'd
  deltaList :: "'r list"
  initialMapList :: "bool list"
  dbCaptureList :: "bool list"
  dbResponseList :: "'r response list"

text \<open>The arrays that the estimation fills.\<close>

record 'r fd_work =
  new_fn_grads :: "'r rmat"
  new_fn_hessians :: "'r symmat list"
  fd_fg :: "'r list list"
  fd_dx :: "'r list"
  fd_fx :: "'r list list"
  map_counter :: nat

text \<open>What stays fixed during the loop over the derivative variables.\<close>

record 'r fd_context =
  fd_grad_asv :: "short list"
  fd_hess_asv :: "short list"
  fd_set :: active_set
  fd_view :: deriv_view
  fd_x0 :: "'r list"
  fd_bound_pairs :: "('r option \<times> 'r option) list"
  fd_ids :: "nat list"
  initial_map_response :: "'r response"

definition num_deriv_vars :: "'r fd_context \<Rightarrow> nat" where
  "num_deriv_vars k = length (derivVarsVector (fd_set k))"

definition asv_flag :: "short list \<Rightarrow> bool" where
  "asv_flag asv = list_ex (\<lambda>a. a \<noteq> 0) asv"

section \<open>Access to responses\<close>

definition fn_values :: "'r model_config \<Rightarrow> 'r response \<Rightarrow> 'r list result" where
  "fn_values c r = (if length (functionValues r) < numFns c then Inl (UndefinedBehaviour ''vector read'')
     else Inr (functionValues r))"

definition fn_gradients :: "'r model_config \<Rightarrow> nat \<Rightarrow> 'r response \<Rightarrow> 'r list list result" where
  "fn_gradients c n r =
    (if length (m_cols (functionGradients r)) < numFns c \<or> m_rows (functionGradients r) < n
     then Inl (UndefinedBehaviour ''matrix read'') else Inr (m_cols (functionGradients r)))"

definition db_lookup ::
    "('r, 'd) derived_model \<Rightarrow> active_set \<Rightarrow> 'r::zero response \<Rightarrow> ('r, 'd, 'm) model_state_scheme \<Rightarrow> 'r response option result" where
  "db_lookup D search_set found s =
    (case cache_lookup D (currentVariables s) search_set (derived_state s) of
       None \<Rightarrow> Inr None
     | Some r \<Rightarrow> rbind (set_active_set search_set found) (\<lambda>f. rbind (update r True f) (\<lambda>f'. Inr (Some f'))))"

section \<open>Difference formulas\<close>

text \<open>Row \<open>j\<close> of the gradients, and entry \<open>(j, k)\<close> of the Hessians, of the functions that \<open>p\<close> selects.\<close>

definition grad_row :: "nat \<Rightarrow> (nat \<Rightarrow> bool) \<Rightarrow> (nat \<Rightarrow> 'r) \<Rightarrow> 'r rmat \<Rightarrow> 'r rmat" where
  "grad_row j p f m = m\<lparr>m_cols := map_index (\<lambda>i col. if p i then col[j := f i] else col) (m_cols m)\<rparr>"

definition hess_entry :: "nat \<Rightarrow> nat \<Rightarrow> (nat \<Rightarrow> bool) \<Rightarrow> (nat \<Rightarrow> 'r) \<Rightarrow> 'r symmat list \<Rightarrow> 'r symmat list" where
  "hess_entry j k p f hs = map_index (\<lambda>i h. if p i then sym_set j k (f i) h else h) hs"

definition checked_div :: "'r::linordered_field \<Rightarrow> 'a \<Rightarrow> 'a result" where
  "checked_div denom x = (if denom = 0 then Inl (UndefinedBehaviour ''division by zero'') else Inr x)"

definition forward_difference ::
    "short list \<Rightarrow> 'r::linordered_field \<Rightarrow> 'r list \<Rightarrow> 'r list \<Rightarrow> nat \<Rightarrow> 'r rmat \<Rightarrow> 'r rmat result" where
  "forward_difference asv h v0 v1 j m =
    checked_div h (grad_row j (\<lambda>i. asv ! i \<noteq> 0) (\<lambda>i. (v1 ! i - v0 ! i) / h) m)"

definition central_difference ::
    "bool \<Rightarrow> 'r::linordered_field \<Rightarrow> 'r \<Rightarrow> 'r list \<Rightarrow> 'r list \<Rightarrow> 'r list \<Rightarrow> nat \<Rightarrow> 'r rmat \<Rightarrow> 'r rmat result" where
  "central_difference short h h2 v0 v1 v2 j m =
    (if short then let h12 = h * h; h22 = h2 * h2; h1 = h * h2 * (h2 - h) in
       checked_div h1 (grad_row j (\<lambda>_. True) (\<lambda>i. (h22 * (v1 ! i - v0 ! i) - h12 * (v2 ! i - v0 ! i)) / h1) m)
     else let h1 = h - h2 in
       checked_div h1 (grad_row j (\<lambda>_. True) (\<lambda>i. (v1 ! i - v2 ! i) / h1) m))"

definition central_diagonal ::
    "short list \<Rightarrow> 'r::linordered_field \<Rightarrow> 'r list \<Rightarrow> 'r list \<Rightarrow> 'r list \<Rightarrow> nat \<Rightarrow> 'r symmat list \<Rightarrow> 'r symmat list result" where
  "central_diagonal asv h v0 vp vm j hs =
    checked_div (4 * h * h)
      (hess_entry j j (\<lambda>i. req_val (asv ! i)) (\<lambda>i. (vp ! i - 2 * v0 ! i + vm ! i) / (4 * h * h)) hs)"

definition central_off_diagonal ::
    "'r::linordered_field \<Rightarrow> 'r list \<Rightarrow> 'r list \<Rightarrow> 'r list \<Rightarrow> 'r list \<Rightarrow> nat \<Rightarrow> nat \<Rightarrow> 'r symmat list \<Rightarrow> 'r symmat list result" where
  "central_off_diagonal h vpp vpm vmp vmm j k hs =
    checked_div (4 * h * h)
      (hess_entry j k (\<lambda>_. True) (\<lambda>i. (vpp ! i - vpm ! i - vmp ! i + vmm ! i) / (4 * h * h)) hs)"

definition two_step_diagonal ::
    "short list \<Rightarrow> 'r::linordered_field \<Rightarrow> 'r \<Rightarrow> 'r list \<Rightarrow> 'r list \<Rightarrow> 'r list \<Rightarrow> nat \<Rightarrow> 'r symmat list \<Rightarrow> 'r symmat list result" where
  "two_step_diagonal asv h1 h2 v0 v1 v2 j hs =
    (if h1 + h2 = 0 then let denom = h1 * h1 in
       checked_div denom (hess_entry j j (\<lambda>i. req_val (asv ! i)) (\<lambda>i. (v1 ! i - 2 * v0 ! i + v2 ! i) / denom) hs)
     else let hdiff = h1 - h2; denom = 1 / 2 * h1 * h2 * hdiff in
       checked_div denom
         (hess_entry j j (\<lambda>i. req_val (asv ! i)) (\<lambda>i. (h2 * v1 ! i + hdiff * v0 ! i - h1 * v2 ! i) / denom) hs))"

definition two_step_off_diagonal ::
    "'r::linordered_field \<Rightarrow> 'r \<Rightarrow> 'r list \<Rightarrow> 'r list \<Rightarrow> 'r list \<Rightarrow> 'r list \<Rightarrow> nat \<Rightarrow> nat \<Rightarrow> 'r symmat list \<Rightarrow> 'r symmat list result" where
  "two_step_off_diagonal h1 h2 v0 v1 f2 v12 j k hs =
    (let denom = h1 * h2 in
     checked_div denom (hess_entry j k (\<lambda>_. True) (\<lambda>i. (v12 ! i - v1 ! i - f2 ! i + v0 ! i) / denom) hs))"

text \<open>The differences of gradients: function \<open>i\<close> has its rows at \<open>ifg\<close>, \<open>n\<close> rows per selected function.\<close>

definition fg_index :: "short list \<Rightarrow> nat \<Rightarrow> nat \<Rightarrow> nat" where
  "fg_index asv n i = length (filter req_grad (take i asv)) * n"

definition gradient_difference ::
    "short list \<Rightarrow> nat \<Rightarrow> 'r::linordered_field \<Rightarrow> 'r list list \<Rightarrow> 'r list list \<Rightarrow> nat \<Rightarrow> 'r list list \<Rightarrow> 'r list list result" where
  "gradient_difference asv n h g0 g1 j fg =
    checked_div h (fold (\<lambda>i fg. if req_grad (asv ! i)
        then fg[fg_index asv n i + j := map (\<lambda>k. (g1 ! i ! k - g0 ! i ! k) / h) [0..<n]] else fg)
      [0..<length asv] fg)"

definition symmetrize :: "nat \<Rightarrow> nat \<Rightarrow> 'r::linordered_field list list \<Rightarrow> 'r symmat \<Rightarrow> 'r symmat" where
  "symmetrize ifg n fg h = fold (\<lambda>j h. sym_set j j (fg ! (ifg + j) ! j)
      (fold (\<lambda>k h. sym_set j k (1 / 2 * (fg ! (ifg + j) ! k + fg ! (ifg + k) ! j)) h) [0..<j] h)) [0..<n] h"

definition symmetrize_all :: "short list \<Rightarrow> nat \<Rightarrow> 'r::linordered_field list list \<Rightarrow> 'r symmat list \<Rightarrow> 'r symmat list" where
  "symmetrize_all asv n fg hs =
    map_index (\<lambda>i h. if i < length asv \<and> req_grad (asv ! i) then symmetrize (fg_index asv n i) n fg h else h) hs"

section \<open>Evaluation of points\<close>

text \<open>The variables are moved to \<open>x\<close> and the evaluation is run or submitted.\<close>

definition evaluate_here ::
    "bool \<Rightarrow> ('r, 'd) derived_model \<Rightarrow> active_set \<Rightarrow> ('r, 'd, 'm) model_state_scheme \<Rightarrow> ('r, 'd, 'm) model_state_scheme result" where
  "evaluate_here asynch D rset s =
    (if asynch then
       rbind (derived_evaluate_nowait D rset (currentVariables s) (derived_state s)) (\<lambda>d. Inr (s\<lparr>derived_state := d\<rparr>))
     else
       rbind (derived_evaluate D rset (currentVariables s) (derived_state s)) (\<lambda>(r, d).
         Inr (s\<lparr>currentResponse := r, derived_state := d\<rparr>)))"

definition fd_evaluate ::
    "bool \<Rightarrow> 'r model_config \<Rightarrow> ('r, 'd) derived_model \<Rightarrow> 'r fd_context \<Rightarrow> short list \<Rightarrow> 'r list \<Rightarrow>
      'r fd_work \<times> ('r, 'd, 'm) model_state_scheme \<Rightarrow> ('r fd_work \<times> ('r, 'd, 'm) model_state_scheme) result" where
  "fd_evaluate asynch c D k asv x ws =
    (case ws of (w, s) \<Rightarrow>
       rbind (evaluate_here asynch D (set_request_vector asv (fd_set k))
           (s\<lparr>currentVariables := put_view c (fd_view k) x (currentVariables s)\<rparr>)) (\<lambda>s1.
         Inr (w\<lparr>map_counter := Suc (map_counter w)\<rparr>, s1)))"

definition push_delta :: "bool \<Rightarrow> 'r \<Rightarrow> 'r fd_work \<times> ('r, 'd, 'm) model_state_scheme \<Rightarrow> 'r fd_work \<times> ('r, 'd, 'm) model_state_scheme" where
  "push_delta asynch h ws = (case ws of (w, s) \<Rightarrow> (w, if asynch then s\<lparr>deltaList := deltaList s @ [h]\<rparr> else s))"

text \<open>After a synchronous evaluation: its function values, those of the initial map, and a change of the
  arrays.\<close>

definition sync_values :: "bool \<Rightarrow> 'r model_config \<Rightarrow> 'r fd_work \<times> ('r, 'd, 'm) model_state_scheme \<Rightarrow> 'r list result" where
  "sync_values asynch c ws = (if asynch then Inr [] else fn_values c (currentResponse (snd ws)))"

definition base_values :: "bool \<Rightarrow> 'r model_config \<Rightarrow> 'r fd_context \<Rightarrow> 'r list result" where
  "base_values asynch c k = (if asynch then Inr [] else fn_values c (initial_map_response k))"

definition sync_grads ::
    "bool \<Rightarrow> ('r rmat \<Rightarrow> 'r rmat result) \<Rightarrow> 'r fd_work \<times> 's \<Rightarrow> ('r fd_work \<times> 's) result" where
  "sync_grads asynch f ws = (case ws of (w, s) \<Rightarrow>
     if asynch then Inr ws else rbind (f (new_fn_grads w)) (\<lambda>m. Inr (w\<lparr>new_fn_grads := m\<rparr>, s)))"

definition sync_hessians ::
    "bool \<Rightarrow> ('r symmat list \<Rightarrow> 'r symmat list result) \<Rightarrow> 'r fd_work \<times> 's \<Rightarrow> ('r fd_work \<times> 's) result" where
  "sync_hessians asynch f ws = (case ws of (w, s) \<Rightarrow>
     if asynch then Inr ws else rbind (f (new_fn_hessians w)) (\<lambda>m. Inr (w\<lparr>new_fn_hessians := m\<rparr>, s)))"

section \<open>The loop over the derivative variables\<close>

definition fd_gradient ::
    "bool \<Rightarrow> 'r::linordered_field model_config \<Rightarrow> ('r, 'd) derived_model \<Rightarrow> 'r fd_context \<Rightarrow> nat \<Rightarrow> nat \<Rightarrow>
      'r fd_work \<times> ('r, 'd, 'm) model_state_scheme \<Rightarrow> ('r fd_work \<times> ('r, 'd, 'm) model_state_scheme) result" where
  "fd_gradient asynch c D k j xj ws =
    (let x0 = fd_x0 k; asv = fd_grad_asv k in case fd_bound_pairs k ! j of (lb, ub) \<Rightarrow>
     rbind (forward_grad_step c (num_deriv_vars k) xj (x0 ! xj) lb ub) (\<lambda>(h, short).
     rbind (fd_evaluate asynch c D k asv (x0[xj := x0 ! xj + h]) (push_delta asynch h ws)) (\<lambda>ws1.
     rbind (sync_values asynch c ws1) (\<lambda>v1.
     rbind (base_values asynch c k) (\<lambda>v0.
     rbind (if intervalType c = ''forward'' then sync_grads asynch (forward_difference asv h v0 v1 j) ws1 else Inr ws1) (\<lambda>ws2.
       if intervalType c = ''central'' then
         case FDstep2 c (x0 ! xj) lb ub h short of (h2, short2) \<Rightarrow>
         rbind (fd_evaluate asynch c D k asv (x0[xj := x0 ! xj + h2]) (push_delta asynch h2 ws2)) (\<lambda>ws3.
         rbind (sync_values asynch c ws3) (\<lambda>v2.
           sync_grads asynch (central_difference short2 h h2 v0 v1 v2 j) ws3))
       else Inr ws2))))))"

text \<open>Second differences of function values, with steps on both sides and no regard to bounds.\<close>

definition fd_hessian_off_diagonal ::
    "bool \<Rightarrow> 'r::linordered_field model_config \<Rightarrow> ('r, 'd) derived_model \<Rightarrow> 'r fd_context \<Rightarrow> 'r \<Rightarrow> nat \<Rightarrow> nat \<Rightarrow> nat \<Rightarrow>
      'r fd_work \<times> ('r, 'd, 'm) model_state_scheme \<Rightarrow> ('r fd_work \<times> ('r, 'd, 'm) model_state_scheme) result" where
  "fd_hessian_off_diagonal asynch c D k h j xj l ws =
    (case find_index (fd_ids k) (derivVarsVector (fd_set k) ! l) of
       None \<Rightarrow> Inl (UndefinedBehaviour ''vector write'')
     | Some xl \<Rightarrow> if xl \<ge> length (fd_x0 k) then Inl (UndefinedBehaviour ''vector write'') else
       let x0 = fd_x0 k; asv = fd_hess_asv k; pt = (\<lambda>dj dl. x0[xj := x0 ! xj + dj, xl := x0 ! xl + dl]) in
       rbind (fd_evaluate asynch c D k asv (pt h h) ws) (\<lambda>ws1.
       rbind (sync_values asynch c ws1) (\<lambda>vpp.
       rbind (fd_evaluate asynch c D k asv (pt h (- h)) ws1) (\<lambda>ws2.
       rbind (sync_values asynch c ws2) (\<lambda>vpm.
       rbind (fd_evaluate asynch c D k asv (pt (- h) h) ws2) (\<lambda>ws3.
       rbind (sync_values asynch c ws3) (\<lambda>vmp.
       rbind (fd_evaluate asynch c D k asv (pt (- h) (- h)) ws3) (\<lambda>ws4.
       rbind (sync_values asynch c ws4) (\<lambda>vmm.
         sync_hessians asynch (central_off_diagonal h vpp vpm vmp vmm j l) ws4)))))))))"

definition fd_hessian_central ::
    "bool \<Rightarrow> 'r::linordered_field model_config \<Rightarrow> ('r, 'd) derived_model \<Rightarrow> 'r fd_context \<Rightarrow> nat \<Rightarrow> nat \<Rightarrow>
      'r fd_work \<times> ('r, 'd, 'm) model_state_scheme \<Rightarrow> ('r fd_work \<times> ('r, 'd, 'm) model_state_scheme) result" where
  "fd_hessian_central asynch c D k j xj ws =
    (let x0 = fd_x0 k; asv = fd_hess_asv k in
     rbind (select_step (fdHessByFnStepSize c) (num_deriv_vars k) xj) (\<lambda>fdhbfss.
     let h_mag = fdhbfss * max \<bar>x0 ! xj\<bar> (1 / 100); h = (if x0 ! xj < 0 then - h_mag else h_mag) in
     rbind (fd_evaluate asynch c D k asv (x0[xj := x0 ! xj + 2 * h]) (push_delta asynch h ws)) (\<lambda>ws1.
     rbind (sync_values asynch c ws1) (\<lambda>vp.
     rbind (fd_evaluate asynch c D k asv (x0[xj := x0 ! xj - 2 * h]) ws1) (\<lambda>ws2.
     rbind (sync_values asynch c ws2) (\<lambda>vm.
     rbind (base_values asynch c k) (\<lambda>v0.
     rbind (sync_hessians asynch (central_diagonal asv h v0 vp vm j) ws2) (\<lambda>ws3.
       rfold (fd_hessian_off_diagonal asynch c D k h j xj) [Suc j..<num_deriv_vars k] ws3))))))))"

text \<open>Second differences that respect the bounds.  The first step and the values there are kept for the
  mixed terms with later variables.\<close>

definition fd_hessian_mixed ::
    "bool \<Rightarrow> 'r::linordered_field model_config \<Rightarrow> ('r, 'd) derived_model \<Rightarrow> 'r fd_context \<Rightarrow> 'r \<Rightarrow> 'r list \<Rightarrow> nat \<Rightarrow> nat \<Rightarrow> nat \<Rightarrow>
      'r fd_work \<times> ('r, 'd, 'm) model_state_scheme \<Rightarrow> ('r fd_work \<times> ('r, 'd, 'm) model_state_scheme) result" where
  "fd_hessian_mixed asynch c D k h1 v1 j xj l ws =
    (case find_index (fd_ids k) (derivVarsVector (fd_set k) ! l) of
       None \<Rightarrow> Inl (UndefinedBehaviour ''vector write'')
     | Some xl \<Rightarrow> if xl \<ge> length (fd_x0 k) then Inl (UndefinedBehaviour ''vector write'') else
       let x0 = fd_x0 k; h2 = fd_dx (fst ws) ! l in
       rbind (fd_evaluate asynch c D k (fd_hess_asv k) (x0[xj := x0 ! xj + h1, xl := x0 ! xl + h2]) ws) (\<lambda>ws1.
       rbind (sync_values asynch c ws1) (\<lambda>v12.
       rbind (base_values asynch c k) (\<lambda>v0.
         if \<not> asynch \<and> length (fd_fx (fst ws1) ! l) < numFns c then Inl (UndefinedBehaviour ''vector read'')
         else sync_hessians asynch (two_step_off_diagonal h1 h2 v0 v1 (fd_fx (fst ws1) ! l) v12 j l) ws1))))"

definition fd_hessian_two_step ::
    "bool \<Rightarrow> 'r::linordered_field model_config \<Rightarrow> ('r, 'd) derived_model \<Rightarrow> 'r fd_context \<Rightarrow> nat \<Rightarrow> nat \<Rightarrow>
      'r fd_work \<times> ('r, 'd, 'm) model_state_scheme \<Rightarrow> ('r fd_work \<times> ('r, 'd, 'm) model_state_scheme) result" where
  "fd_hessian_two_step asynch c D k j xj ws =
    (let x0 = fd_x0 k; asv = fd_hess_asv k in case fd_bound_pairs k ! j of (lb, ub) \<Rightarrow>
     rbind (select_step (fdHessByFnStepSize c) (num_deriv_vars k) xj) (\<lambda>fdhbfss.
     rbind (initialize_h c (x0 ! xj) lb ub (2 * fdhbfss) (fdHessStepType c)) (\<lambda>h_mag.
     case FDstep1 c (x0 ! xj) lb ub h_mag of (h1, short) \<Rightarrow>
     case FDstep2 c (x0 ! xj) lb ub h1 short of (h2, short2) \<Rightarrow>
     case push_delta asynch h2 (push_delta asynch h1 ws) of (w, s) \<Rightarrow>
     rbind (fd_evaluate asynch c D k asv (x0[xj := x0 ! xj + h1]) (w\<lparr>fd_dx := (fd_dx w)[j := h1]\<rparr>, s)) (\<lambda>ws1.
     rbind (sync_values asynch c ws1) (\<lambda>v1.
     case (if asynch then ws1 else ((fst ws1)\<lparr>fd_fx := (fd_fx (fst ws1))[j := v1]\<rparr>, snd ws1)) of ws1' \<Rightarrow>
     rbind (fd_evaluate asynch c D k asv (x0[xj := x0 ! xj + h2]) ws1') (\<lambda>ws2.
     rbind (sync_values asynch c ws2) (\<lambda>v2.
     rbind (base_values asynch c k) (\<lambda>v0.
     rbind (sync_hessians asynch (two_step_diagonal asv h1 h2 v0 v1 v2 j) ws2) (\<lambda>ws3.
       rfold (fd_hessian_mixed asynch c D k h1 v1 j xj) [0..<j] ws3)))))))))"

text \<open>First differences of gradients.\<close>

definition fd_hessian_by_gradient ::
    "bool \<Rightarrow> 'r::linordered_field model_config \<Rightarrow> ('r, 'd) derived_model \<Rightarrow> 'r fd_context \<Rightarrow> nat \<Rightarrow> nat \<Rightarrow>
      'r fd_work \<times> ('r, 'd, 'm) model_state_scheme \<Rightarrow> ('r fd_work \<times> ('r, 'd, 'm) model_state_scheme) result" where
  "fd_hessian_by_gradient asynch c D k j xj ws =
    (let x0 = fd_x0 k; asv = fd_hess_asv k; n = num_deriv_vars k in case fd_bound_pairs k ! j of (lb, ub) \<Rightarrow>
     rbind (select_step (fdHessByGradStepSize c) n xj) (\<lambda>fdhbgss.
     rbind (initialize_h c (x0 ! xj) lb ub fdhbgss (fdHessStepType c)) (\<lambda>h_mag.
     case FDstep1 c (x0 ! xj) lb ub h_mag of (h, short) \<Rightarrow>
     rbind (fd_evaluate asynch c D k asv (x0[xj := x0 ! xj + h]) (push_delta asynch h ws)) (\<lambda>ws1.
       if asynch then Inr ws1
       else rbind (fn_gradients c n (currentResponse (snd ws1))) (\<lambda>g1.
         rbind (fn_gradients c n (initial_map_response k)) (\<lambda>g0.
         rbind (gradient_difference asv n h g0 g1 j (fd_fg (fst ws1))) (\<lambda>fg.
           Inr ((fst ws1)\<lparr>fd_fg := fg\<rparr>, snd ws1))))))))"

text \<open>Bounds that leave no room for a step.\<close>

definition fixed_bounds :: "'r::linordered_field option \<times> 'r option \<Rightarrow> bool" where
  "fixed_bounds b = (case b of (Some l, Some u) \<Rightarrow> l \<ge> u | _ \<Rightarrow> False)"

definition fd_variable ::
    "bool \<Rightarrow> 'r::linordered_field model_config \<Rightarrow> ('r, 'd) derived_model \<Rightarrow> 'r fd_context \<Rightarrow> nat \<Rightarrow>
      'r fd_work \<times> ('r, 'd, 'm) model_state_scheme \<Rightarrow> ('r fd_work \<times> ('r, 'd, 'm) model_state_scheme) result" where
  "fd_variable asynch c D k j ws =
    (let grad = asv_flag (fd_grad_asv k) in
     case find_index (fd_ids k) (derivVarsVector (fd_set k) ! j) of
       None \<Rightarrow> Inl (UndefinedBehaviour ''vector read'')
     | Some xj \<Rightarrow>
       if xj \<ge> length (fd_x0 k) then Inl (UndefinedBehaviour ''vector read'')
       else if grad \<and> \<not> ignoreBounds c \<and> fixed_bounds (fd_bound_pairs k ! j) then
         sync_grads asynch (\<lambda>m. Inr (grad_row j (\<lambda>i. fd_grad_asv k ! i \<noteq> 0) (\<lambda>i. 0) m)) (push_delta asynch 0 ws)
       else
         rbind (if grad then fd_gradient asynch c D k j xj ws else Inr ws) (\<lambda>ws1.
         rbind (if list_ex req_val (fd_hess_asv k) then
             if centralHess c then fd_hessian_central asynch c D k j xj ws1 else fd_hessian_two_step asynch c D k j xj ws1
           else Inr ws1) (\<lambda>ws2.
           if list_ex req_grad (fd_hess_asv k) then fd_hessian_by_gradient asynch c D k j xj ws2 else Inr ws2)))"

definition initial_work :: "'r::zero model_config \<Rightarrow> nat \<Rightarrow> short list \<Rightarrow> 'r fd_work" where
  "initial_work c n hess_asv =
    \<lparr>new_fn_grads = mat_zero n (numFns c), new_fn_hessians = replicate (numFns c) (sym_zero n),
     fd_fg = replicate (length (filter req_grad hess_asv) * n) (replicate n 0),
     fd_dx = replicate n 0, fd_fx = replicate n [], map_counter = 0\<rparr>"

section \<open>Assembly of the response\<close>

text \<open>A matrix with the columns of some functions replaced.\<close>

definition merge_gradients :: "'r model_config \<Rightarrow> short list \<Rightarrow> 'r rmat \<Rightarrow> 'r rmat \<Rightarrow> 'r rmat result" where
  "merge_gradients c grad_asv new_grads partial =
    (if length (m_cols partial) < numFns c \<or> m_rows partial \<noteq> m_rows new_grads
     then Inl (UndefinedBehaviour ''matrix write'')
     else Inr (partial\<lparr>m_cols := map_index (\<lambda>i col. if i < numFns c \<and> grad_asv ! i \<noteq> 0 then m_cols new_grads ! i else col)
       (m_cols partial)\<rparr>))"

definition merge_hessians ::
    "'r model_config \<Rightarrow> short list \<Rightarrow> short list \<Rightarrow> 'r symmat list \<Rightarrow> 'r symmat list \<Rightarrow> 'r symmat list \<Rightarrow> 'r symmat list result" where
  "merge_hessians c hess_asv quasi_asv new_hessians quasi partial =
    (if length partial < numFns c \<or> asv_flag quasi_asv \<and> length quasi < numFns c
     then Inl (UndefinedBehaviour ''vector write'')
     else Inr (map_index (\<lambda>i h. if i < numFns c then
         if quasi_asv ! i \<noteq> 0 then quasi ! i else if hess_asv ! i \<noteq> 0 then new_hessians ! i else h
       else h) partial))"

definition updates_quasi_hessians :: "'r model_config \<Rightarrow> active_set \<Rightarrow> 'r variables \<Rightarrow> bool" where
  "updates_quasi_hessians c original_set v \<longleftrightarrow>
    supportsEstimDerivs c \<and> \<not> auto_corrected_surrogate c \<and>
    derivVarsVector original_set = view_slice c v Active (all_cv_ids c) \<and>
    (hessian_type c = ''quasi'' \<or> hessian_type c = ''mixed'' \<and> hessIdQuasi c \<noteq> [])"

text \<open>The gradients and the Hessians that are written, if any are.\<close>

definition written_gradients :: "'r::zero model_config \<Rightarrow> short list \<Rightarrow> 'r response \<Rightarrow> 'r rmat \<Rightarrow> 'r rmat option result" where
  "written_gradients c grad_asv r0 new_grads =
    (let map_asv = take (numFns c) (resp_asv r0); map_grad = list_ex req_grad map_asv in
     if asv_flag map_asv then
       if asv_flag grad_asv then
         rbind (merge_gradients c grad_asv new_grads
             (if map_grad then functionGradients r0 else mat_zero (m_rows new_grads) (length (m_cols new_grads))))
           (\<lambda>g. Inr (Some g))
       else Inr (if map_grad then Some (functionGradients r0) else None)
     else Inr (if asv_flag grad_asv then Some new_grads else None))"

definition written_hessians ::
    "'r model_config \<Rightarrow> short list \<Rightarrow> short list \<Rightarrow> 'r response \<Rightarrow> 'r symmat list \<Rightarrow> 'r symmat list \<Rightarrow>
      'r symmat list option result" where
  "written_hessians c hess_asv quasi_asv r0 new_hessians quasi =
    (let map_asv = take (numFns c) (resp_asv r0); map_hess = list_ex req_hess map_asv in
     if asv_flag map_asv \<or> hessian_type c = ''mixed'' then
       if asv_flag hess_asv \<or> asv_flag quasi_asv then
         rbind (merge_hessians c hess_asv quasi_asv new_hessians quasi
             (if map_hess then functionHessians r0 else replicate (numFns c) []))
           (\<lambda>h. Inr (Some h))
       else Inr (if map_hess then Some (functionHessians r0) else None)
     else Inr (if asv_flag hess_asv then Some new_hessians else if asv_flag quasi_asv then Some quasi else None))"

text \<open>The response to the iterator; \<open>None\<close> is an empty handle.\<close>

definition update_response ::
    "'r::linordered_field model_config \<Rightarrow> 'r variables \<Rightarrow> 'r response option \<Rightarrow> short list \<Rightarrow> short list \<Rightarrow> short list \<Rightarrow>
      active_set \<Rightarrow> 'r response \<Rightarrow> 'r rmat \<Rightarrow> 'r symmat list \<Rightarrow> ('r, 'd, 'm) model_state_scheme \<Rightarrow>
      ('r response \<times> ('r, 'd, 'm) model_state_scheme) result" where
  "update_response c vars new_response_handle grad_asv hess_asv quasi_asv original_set r0 new_grads new_hessians s =
    (let n = (case new_response_handle of None \<Rightarrow> currentResponse s | Some r \<Rightarrow> r);
         n1 = (if list_ex req_val (take (numFns c) (resp_asv r0)) then n\<lparr>functionValues := functionValues r0\<rparr> else n) in
     if length (resp_asv r0) < numFns c then Inl (UndefinedBehaviour ''vector read'') else
     rbind (written_gradients c grad_asv r0 new_grads) (\<lambda>g.
     let n2 = (case g of None \<Rightarrow> n1 | Some g \<Rightarrow> n1\<lparr>functionGradients := g\<rparr>) in
     rbind (if updates_quasi_hessians c original_set (currentVariables s)
         then update_quasi_hessians c (view_slice c vars Active (allContinuousVars vars)) n2 original_set s else Inr s) (\<lambda>s1.
     rbind (written_hessians c hess_asv quasi_asv r0 new_hessians (quasiHessians s1)) (\<lambda>h.
     let n3 = (case h of None \<Rightarrow> n2 | Some h \<Rightarrow> n2\<lparr>functionHessians := h\<rparr>) in
     rbind (active_set_request_vector (requestVector original_set) n3) (\<lambda>n4.
     rbind (reset_inactive n4) (\<lambda>n5. Inr (n5, s1)))))))"

section \<open>Estimation\<close>

text \<open>The request of the initial map exceeds the original one in values or gradients.\<close>

definition augmented :: "short list \<Rightarrow> short list \<Rightarrow> bool" where
  "augmented map_asv orig_asv \<longleftrightarrow>
    (\<exists>i \<in> set [0..<length map_asv]. req_val (map_asv ! i) \<and> \<not> req_val (orig_asv ! i) \<or>
       req_grad (map_asv ! i) \<and> \<not> req_grad (orig_asv ! i))"

text \<open>The initial map: its response, the state and the number of evaluations.\<close>

definition estimate_initial_map ::
    "bool \<Rightarrow> ('r::linordered_field, 'd) derived_model \<Rightarrow> short list \<Rightarrow> active_set \<Rightarrow> ('r, 'd, 'm) model_state_scheme \<Rightarrow>
      ('r response \<times> nat \<times> ('r, 'd, 'm) model_state_scheme) result" where
  "estimate_initial_map asynch D map_asv original_set s =
    (let new_set = set_request_vector map_asv original_set;
         r0 = Response_for_set (length (metaData (currentResponse s))) new_set in
     rbind (if augmented map_asv (requestVector original_set) then db_lookup D new_set r0 s else Inr None) (\<lambda>found.
     let initial_map = (asv_flag map_asv \<and> found = None);
         s1 = (if asynch then s\<lparr>initialMapList := initialMapList s @ [initial_map],
             dbCaptureList := dbCaptureList s @ [found \<noteq> None],
             dbResponseList := dbResponseList s @ (case found of None \<Rightarrow> [] | Some r \<Rightarrow> [r])\<rparr> else s);
         r1 = (case found of None \<Rightarrow> r0 | Some r \<Rightarrow> r) in
     if initial_map then
       rbind (evaluate_here asynch D new_set s1) (\<lambda>s2.
         if asynch then Inr (r1, 1, s2)
         else rbind (update (currentResponse s2) False r1) (\<lambda>r2. Inr (r2, 1, s2)))
     else Inr (r1, 0, s1)))"

definition estimate_derivatives ::
    "bool \<Rightarrow> 'r::linordered_field model_config \<Rightarrow> ('r, 'd) derived_model \<Rightarrow> short list \<Rightarrow> short list \<Rightarrow> short list \<Rightarrow>
      short list \<Rightarrow> active_set \<Rightarrow> ('r, 'd, 'm) model_state_scheme \<Rightarrow> (nat \<times> ('r, 'd, 'm) model_state_scheme) result" where
  "estimate_derivatives asynch c D map_asv grad_asv hess_asv quasi_asv original_set s =
    (if \<exists>i \<in> set [0..<length map_asv]. map_asv ! i \<noteq> 0 \<and> length (requestVector original_set) \<le> i
     then Inl (UndefinedBehaviour ''vector read'') else
     rbind (estimate_initial_map asynch D map_asv original_set s) (\<lambda>(r0, count, s1).
     rbind (if asv_flag grad_asv \<or> asv_flag hess_asv then
         rbind (initialize_x0_bounds c (currentVariables s1) (derivVarsVector original_set)) (\<lambda>(vw, x0, bs, cv_ids).
         let k = \<lparr>fd_grad_asv = grad_asv, fd_hess_asv = hess_asv, fd_set = original_set, fd_view = vw, fd_x0 = x0,
               fd_bound_pairs = bs, fd_ids = cv_ids, initial_map_response = r0\<rparr> in
         rbind (rfold (fd_variable asynch c D k) [0..<num_deriv_vars k]
             (initial_work c (num_deriv_vars k) hess_asv, s1)) (\<lambda>(w, s2).
           Inr (w, s2\<lparr>currentVariables := put_view c vw x0 (currentVariables s2)\<rparr>)))
       else Inr (initial_work c (length (derivVarsVector original_set)) hess_asv, s1)) (\<lambda>(w, s3).
     if asynch then Inr (count + map_counter w, s3)
     else let n = length (derivVarsVector original_set);
              hs = symmetrize_all hess_asv n (fd_fg w) (new_fn_hessians w) in
       rbind (update_response c (currentVariables s3) (Some (currentResponse s3)) grad_asv hess_asv quasi_asv original_set
           r0 (new_fn_grads w) hs s3) (\<lambda>(r, s4).
         Inr (count + map_counter w, s4\<lparr>currentResponse := r\<rparr>)))))"

section \<open>Synchronization\<close>

text \<open>The responses still to be read and the queue of deltas are consumed in the order of submission.\<close>

definition pop_delta :: "('r, 'd, 'm) model_state_scheme \<Rightarrow> ('r \<times> ('r, 'd, 'm) model_state_scheme) result" where
  "pop_delta s = (case deltaList s of [] \<Rightarrow> Inl (UndefinedBehaviour ''list front'')
     | h # hs \<Rightarrow> Inr (h, s\<lparr>deltaList := hs\<rparr>))"

fun next_response :: "'r response list \<Rightarrow> ('r response \<times> 'r response list) result" where
  "next_response [] = Inl (UndefinedBehaviour ''map end'')"
| "next_response (r # rs) = Inr (r, rs)"

definition next_values :: "'r model_config \<Rightarrow> 'r response list \<Rightarrow> ('r list \<times> 'r response list) result" where
  "next_values c rs = rbind (next_response rs) (\<lambda>(r, rs'). rbind (fn_values c r) (\<lambda>v. Inr (v, rs')))"

type_synonym ('r, 's) sync_state = "'r fd_work \<times> 'r response list \<times> 's"

definition collect_gradient ::
    "'r::linordered_field model_config \<Rightarrow> 'r fd_context \<Rightarrow> nat \<Rightarrow> ('r, ('r, 'd, 'm) model_state_scheme) sync_state \<Rightarrow>
      ('r, ('r, 'd, 'm) model_state_scheme) sync_state result" where
  "collect_gradient c k j st =
    (case st of (w, rs, s) \<Rightarrow>
     rbind (pop_delta s) (\<lambda>(h, s1).
     if h = 0 then Inr (w\<lparr>new_fn_grads := grad_row j (\<lambda>_. True) (\<lambda>_. 0) (new_fn_grads w)\<rparr>, rs, s1)
     else
       rbind (next_values c rs) (\<lambda>(v1, rs1).
       rbind (fn_values c (initial_map_response k)) (\<lambda>v0.
       if intervalType c = ''central'' then
         rbind (next_values c rs1) (\<lambda>(v2, rs2).
         rbind (pop_delta s1) (\<lambda>(h2, s2).
         rbind (central_difference (h + h2 \<noteq> 0) h h2 v0 v1 v2 j (new_fn_grads w)) (\<lambda>m.
           Inr (w\<lparr>new_fn_grads := m\<rparr>, rs2, s2))))
       else
         rbind (forward_difference (fd_grad_asv k) h v0 v1 j (new_fn_grads w)) (\<lambda>m.
           Inr (w\<lparr>new_fn_grads := m\<rparr>, rs1, s1))))))"

definition collect_off_diagonal ::
    "'r::linordered_field model_config \<Rightarrow> 'r \<Rightarrow> nat \<Rightarrow> nat \<Rightarrow> ('r, 's) sync_state \<Rightarrow> ('r, 's) sync_state result" where
  "collect_off_diagonal c h j l st =
    (case st of (w, rs, s) \<Rightarrow>
     rbind (next_values c rs) (\<lambda>(vpp, rs1).
     rbind (next_values c rs1) (\<lambda>(vpm, rs2).
     rbind (next_values c rs2) (\<lambda>(vmp, rs3).
     rbind (next_values c rs3) (\<lambda>(vmm, rs4).
     rbind (central_off_diagonal h vpp vpm vmp vmm j l (new_fn_hessians w)) (\<lambda>hs.
       Inr (w\<lparr>new_fn_hessians := hs\<rparr>, rs4, s)))))))"

definition collect_hessian_central ::
    "'r::linordered_field model_config \<Rightarrow> 'r fd_context \<Rightarrow> nat \<Rightarrow> ('r, ('r, 'd, 'm) model_state_scheme) sync_state \<Rightarrow>
      ('r, ('r, 'd, 'm) model_state_scheme) sync_state result" where
  "collect_hessian_central c k j st =
    (case st of (w, rs, s) \<Rightarrow>
     rbind (pop_delta s) (\<lambda>(h, s1).
     rbind (next_values c rs) (\<lambda>(vp, rs1).
     rbind (next_values c rs1) (\<lambda>(vm, rs2).
     rbind (fn_values c (initial_map_response k)) (\<lambda>v0.
     rbind (central_diagonal (fd_hess_asv k) h v0 vp vm j (new_fn_hessians w)) (\<lambda>hs.
       rfold (collect_off_diagonal c h j) [Suc j..<num_deriv_vars k] (w\<lparr>new_fn_hessians := hs\<rparr>, rs2, s1)))))))"

definition collect_mixed ::
    "'r::linordered_field model_config \<Rightarrow> 'r fd_context \<Rightarrow> 'r \<Rightarrow> 'r list \<Rightarrow> nat \<Rightarrow> nat \<Rightarrow> ('r, 's) sync_state \<Rightarrow>
      ('r, 's) sync_state result" where
  "collect_mixed c k h1 v1 j l st =
    (case st of (w, rs, s) \<Rightarrow>
     let h2 = fd_dx w ! l; f2 = fd_fx w ! l in
     rbind (next_values c rs) (\<lambda>(v12, rs1).
     rbind (fn_values c (initial_map_response k)) (\<lambda>v0.
     rbind (two_step_off_diagonal h1 h2 v0 v1 f2 v12 j l (new_fn_hessians w)) (\<lambda>hs.
       Inr (w\<lparr>new_fn_hessians := hs\<rparr>, rs1, s)))))"

definition collect_hessian_two_step ::
    "'r::linordered_field model_config \<Rightarrow> 'r fd_context \<Rightarrow> nat \<Rightarrow> ('r, ('r, 'd, 'm) model_state_scheme) sync_state \<Rightarrow>
      ('r, ('r, 'd, 'm) model_state_scheme) sync_state result" where
  "collect_hessian_two_step c k j st =
    (case st of (w, rs, s) \<Rightarrow>
     rbind (pop_delta s) (\<lambda>(h1, s1).
     rbind (pop_delta s1) (\<lambda>(h2, s2).
     rbind (next_values c rs) (\<lambda>(v1, rs1).
     rbind (next_values c rs1) (\<lambda>(v2, rs2).
     rbind (fn_values c (initial_map_response k)) (\<lambda>v0.
     rbind (two_step_diagonal (fd_hess_asv k) h1 h2 v0 v1 v2 j (new_fn_hessians w)) (\<lambda>hs.
       rfold (collect_mixed c k h1 v1 j) [0..<j]
         (w\<lparr>new_fn_hessians := hs, fd_dx := (fd_dx w)[j := h1], fd_fx := (fd_fx w)[j := v1]\<rparr>, rs2, s2))))))))"

definition collect_hessian_by_gradient ::
    "'r::linordered_field model_config \<Rightarrow> 'r fd_context \<Rightarrow> nat \<Rightarrow> ('r, ('r, 'd, 'm) model_state_scheme) sync_state \<Rightarrow>
      ('r, ('r, 'd, 'm) model_state_scheme) sync_state result" where
  "collect_hessian_by_gradient c k j st =
    (case st of (w, rs, s) \<Rightarrow> let n = num_deriv_vars k in
     rbind (pop_delta s) (\<lambda>(h, s1).
     rbind (next_response rs) (\<lambda>(r, rs1).
     rbind (fn_gradients c n r) (\<lambda>g1.
     rbind (fn_gradients c n (initial_map_response k)) (\<lambda>g0.
     rbind (gradient_difference (fd_hess_asv k) n h g0 g1 j (fd_fg w)) (\<lambda>fg.
       Inr (w\<lparr>fd_fg := fg\<rparr>, rs1, s1)))))))"

definition collect_variable ::
    "'r::linordered_field model_config \<Rightarrow> 'r fd_context \<Rightarrow> nat \<Rightarrow> ('r, ('r, 'd, 'm) model_state_scheme) sync_state \<Rightarrow>
      ('r, ('r, 'd, 'm) model_state_scheme) sync_state result" where
  "collect_variable c k j st =
     rbind (if asv_flag (fd_grad_asv k) then collect_gradient c k j st else Inr st) (\<lambda>st1.
     rbind (if list_ex req_val (fd_hess_asv k) then
         if centralHess c then collect_hessian_central c k j st1 else collect_hessian_two_step c k j st1
       else Inr st1) (\<lambda>st2.
       if list_ex req_grad (fd_hess_asv k) then collect_hessian_by_gradient c k j st2 else Inr st2))"

text \<open>The response of the initial map: the first response, the one found in the cache, or zeros.\<close>

definition recall_initial_map ::
    "'r::zero model_config \<Rightarrow> active_set \<Rightarrow> 'r response list \<Rightarrow> ('r, 'd, 'm) model_state_scheme \<Rightarrow>
      ('r response \<times> 'r response list \<times> ('r, 'd, 'm) model_state_scheme) result" where
  "recall_initial_map c original_set rs s =
    (case (initialMapList s, dbCaptureList s) of
       (initial_map # is, db_capture # ds) \<Rightarrow>
         let s1 = s\<lparr>initialMapList := is, dbCaptureList := ds\<rparr> in
         if initial_map then rbind (next_response rs) (\<lambda>(r, rs1). Inr (r, rs1, s1))
         else if db_capture then
           (case dbResponseList s1 of [] \<Rightarrow> Inl (UndefinedBehaviour ''list front'')
            | r # dbs \<Rightarrow> Inr (r, rs, s1\<lparr>dbResponseList := dbs\<rparr>))
         else Inr (Response_for_set (length (metaData (currentResponse s)))
             (set_request_vector (replicate (numFns c) 0) original_set), rs, s1)
     | _ \<Rightarrow> Inl (UndefinedBehaviour ''list front''))"

definition synchronize_derivatives ::
    "'r::linordered_field model_config \<Rightarrow> 'r variables \<Rightarrow> 'r response list \<Rightarrow> 'r response option \<Rightarrow> short list \<Rightarrow>
      short list \<Rightarrow> short list \<Rightarrow> active_set \<Rightarrow> ('r, 'd, 'm) model_state_scheme \<Rightarrow>
      ('r response \<times> ('r, 'd, 'm) model_state_scheme) result" where
  "synchronize_derivatives c vars fd_responses new_response_handle grad_asv hess_asv quasi_asv original_set s =
    (let n = length (derivVarsVector original_set) in
     rbind (recall_initial_map c original_set fd_responses s) (\<lambda>(r0, rs, s1).
     rbind (if asv_flag grad_asv \<or> asv_flag hess_asv then
         let k = \<lparr>fd_grad_asv = grad_asv, fd_hess_asv = hess_asv, fd_set = original_set, fd_view = Active, fd_x0 = [],
               fd_bound_pairs = [], fd_ids = [], initial_map_response = r0\<rparr> in
         rfold (collect_variable c k) [0..<n] (initial_work c n hess_asv, rs, s1)
       else Inr (initial_work c n hess_asv, rs, s1)) (\<lambda>(w, rs', s2).
       update_response c vars new_response_handle grad_asv hess_asv quasi_asv original_set r0 (new_fn_grads w)
         (symmetrize_all hess_asv n (fd_fg w) (new_fn_hessians w)) s2)))"

section \<open>Synchronous and asynchronous estimation\<close>

text \<open>A simulation that answers every request by \<open>f\<close>, whether evaluated or submitted; \<open>out\<close> are the
  requests submitted and not yet synchronized.\<close>

definition simulates ::
    "('r, 'd) derived_model \<Rightarrow> (active_set \<Rightarrow> 'r variables \<Rightarrow> 'r response) \<Rightarrow>
      ('d \<Rightarrow> (active_set \<times> 'r variables) list) \<Rightarrow> bool" where
  "simulates D f out \<longleftrightarrow>
    (\<forall>q v d. \<exists>d'. derived_evaluate D q v d = Inr (f q v, d') \<and> out d' = out d) \<and>
    (\<forall>q v d. \<exists>d'. derived_evaluate_nowait D q v d = Inr d' \<and> out d' = out d @ [(q, v)]) \<and>
    (\<forall>d. \<exists>m d'. derived_synchronize D d = Inr (m, d') \<and> map snd m = map (\<lambda>(q, v). f q v) (out d) \<and> out d' = [])"

definition after_evaluate :: "('r, 'd) derived_model \<Rightarrow> active_set \<Rightarrow> 'r variables \<Rightarrow> 'd \<Rightarrow> 'd" where
  "after_evaluate D q v d = snd (projr (derived_evaluate D q v d))"

definition after_submit :: "('r, 'd) derived_model \<Rightarrow> active_set \<Rightarrow> 'r variables \<Rightarrow> 'd \<Rightarrow> 'd" where
  "after_submit D q v d = projr (derived_evaluate_nowait D q v d)"

lemma simulates_evaluate: "simulates D f out \<Longrightarrow> derived_evaluate D q v d = Inr (f q v, after_evaluate D q v d)"
  unfolding simulates_def after_evaluate_def by (metis snd_conv sum.sel(2))

lemma simulates_submit: "simulates D f out \<Longrightarrow> derived_evaluate_nowait D q v d = Inr (after_submit D q v d)"
  unfolding simulates_def after_submit_def by (metis sum.sel(2))

lemma simulates_evaluate_outstanding: "simulates D f out \<Longrightarrow> out (after_evaluate D q v d) = out d"
  unfolding simulates_def after_evaluate_def by (metis snd_conv sum.sel(2))

lemma simulates_outstanding: "simulates D f out \<Longrightarrow> out (after_submit D q v d) = out d @ [(q, v)]"
  unfolding simulates_def after_submit_def by (metis sum.sel(2))

text \<open>A synchronous step \<open>S\<close>, its asynchronous counterpart \<open>A\<close> and the step \<open>C\<close> that collects its results:
  if \<open>S\<close> succeeds, \<open>A\<close> appends deltas and requests, from whose answers \<open>C\<close> fills the arrays as \<open>S\<close> did.\<close>

definition run_matches ::
    "(active_set \<Rightarrow> 'r variables \<Rightarrow> 'r response) \<Rightarrow> ('d \<Rightarrow> (active_set \<times> 'r variables) list) \<Rightarrow>
     (('r, ('r, 'd, 'm) model_state_scheme) sync_state \<Rightarrow> ('r, ('r, 'd, 'm) model_state_scheme) sync_state result) \<Rightarrow>
     'r fd_work \<times> ('r, 'd, 'm) model_state_scheme \<Rightarrow> 'r fd_work \<times> ('r, 'd, 'm) model_state_scheme \<Rightarrow>
     'r fd_work \<times> ('r, 'd, 'm) model_state_scheme \<Rightarrow> ('r fd_work \<times> ('r, 'd, 'm) model_state_scheme) result \<Rightarrow> bool" where
  "run_matches f out C ws ws' wsa ra \<longleftrightarrow> (case (ws, ws', wsa) of ((w, s), (w', s'), (wa, sa)) \<Rightarrow>
    (\<exists>ds qs wa' d' r d.
      ra = Inr (wa', sa\<lparr>currentVariables := currentVariables s', derived_state := d', deltaList := deltaList sa @ ds\<rparr>) \<and>
      out d' = out (derived_state sa) @ qs \<and> fd_dx wa' = fd_dx w' \<and>
      map_counter wa' + map_counter w = map_counter wa + map_counter w' \<and>
      s' = s\<lparr>currentVariables := currentVariables s', currentResponse := r, derived_state := d\<rparr> \<and>
      (\<forall>rs t m. C (w\<lparr>map_counter := m\<rparr>, map (\<lambda>(q, v). f q v) qs @ rs, t\<lparr>deltaList := ds @ deltaList t\<rparr>) =
        Inr (w'\<lparr>map_counter := m\<rparr>, rs, t))))"

definition step_matches ::
    "(active_set \<Rightarrow> 'r variables \<Rightarrow> 'r response) \<Rightarrow> ('d \<Rightarrow> (active_set \<times> 'r variables) list) \<Rightarrow>
     ('r fd_work \<times> ('r, 'd, 'm) model_state_scheme \<Rightarrow> ('r fd_work \<times> ('r, 'd, 'm) model_state_scheme) result) \<Rightarrow>
     ('r fd_work \<times> ('r, 'd, 'm) model_state_scheme \<Rightarrow> ('r fd_work \<times> ('r, 'd, 'm) model_state_scheme) result) \<Rightarrow>
     (('r, ('r, 'd, 'm) model_state_scheme) sync_state \<Rightarrow> ('r, ('r, 'd, 'm) model_state_scheme) sync_state result) \<Rightarrow>
     bool" where
  "step_matches f out S A C \<longleftrightarrow>
    (\<forall>w s ws' wa sa. S (w, s) = Inr ws' \<longrightarrow> currentVariables sa = currentVariables s \<longrightarrow> fd_dx wa = fd_dx w \<longrightarrow>
      run_matches f out C (w, s) ws' (wa, sa) (A (wa, sa)))"

lemma run_matches_intro:
  assumes "ra = Inr (wa', sa\<lparr>currentVariables := currentVariables s', derived_state := d', deltaList := deltaList sa @ ds\<rparr>)"
    and "out d' = out (derived_state sa) @ qs" "fd_dx wa' = fd_dx w'"
    and "map_counter wa' + map_counter w = map_counter wa + map_counter w'"
    and "s' = s\<lparr>currentVariables := currentVariables s', currentResponse := r, derived_state := d\<rparr>"
    and "\<And>rs t m. C (w\<lparr>map_counter := m\<rparr>, map (\<lambda>(q, v). f q v) qs @ rs, t\<lparr>deltaList := ds @ deltaList t\<rparr>) =
        Inr (w'\<lparr>map_counter := m\<rparr>, rs, t)"
  shows "run_matches f out C (w, s) (w', s') (wa, sa) ra"
  unfolding run_matches_def prod.case using assms by blast

lemma step_matches_skip:
  fixes f :: "active_set \<Rightarrow> 'r variables \<Rightarrow> 'r response" and out :: "'d \<Rightarrow> (active_set \<times> 'r variables) list"
  shows "step_matches f out Inr Inr Inr"
  unfolding step_matches_def
proof (intro allI impI)
  fix ws' and w wa :: "'r fd_work" and s sa :: "('r, 'd, 'm) model_state_scheme"
  assume a: "Inr (w, s) = Inr ws'" "currentVariables sa = currentVariables s" "fd_dx wa = fd_dx w"
  then have ws': "ws' = (w, s)" by simp
  show "run_matches f out Inr (w, s) ws' (wa, sa) (Inr (wa, sa))"
    unfolding ws'
    by (rule run_matches_intro [where wa' = wa and ds = "[]" and qs = "[]" and d' = "derived_state sa" and r = "currentResponse s" and d = "derived_state s"])
      (simp_all add: a(3) flip: a(2))
qed

text \<open>Steps in sequence.\<close>

lemma step_matches_bind:
  fixes f :: "active_set \<Rightarrow> 'r variables \<Rightarrow> 'r response" and out :: "'d \<Rightarrow> (active_set \<times> 'r variables) list"
    and S1 :: "'r fd_work \<times> ('r, 'd, 'm) model_state_scheme \<Rightarrow> ('r fd_work \<times> ('r, 'd, 'm) model_state_scheme) result"
  assumes "step_matches f out S1 A1 C1" "step_matches f out S2 A2 C2"
  shows "step_matches f out (\<lambda>ws. rbind (S1 ws) S2) (\<lambda>ws. rbind (A1 ws) A2) (\<lambda>st. rbind (C1 st) C2)"
  unfolding step_matches_def
proof (intro allI impI)
  fix ws' and w wa :: "'r fd_work" and s sa :: "('r, 'd, 'm) model_state_scheme"
  assume r: "rbind (S1 (w, s)) S2 = Inr ws'" and a: "currentVariables sa = currentVariables s" "fd_dx wa = fd_dx w"
  obtain w' s' where ws': "ws' = (w', s')" by (cases ws')
  obtain w1 s1 where 1: "S1 (w, s) = Inr (w1, s1)" and 2: "S2 (w1, s1) = Inr (w', s')"
    using r ws' by (auto simp: result_simps)
  obtain ds1 qs1 wa1 d1 r1 e1 where A1: "A1 (wa, sa) = Inr (wa1, sa\<lparr>currentVariables := currentVariables s1, derived_state := d1,
          deltaList := deltaList sa @ ds1\<rparr>)" "out d1 = out (derived_state sa) @ qs1" "fd_dx wa1 = fd_dx w1"
        "map_counter wa1 + map_counter w = map_counter wa + map_counter w1"
    and s1: "s1 = s\<lparr>currentVariables := currentVariables s1, currentResponse := r1, derived_state := e1\<rparr>"
    and C1: "\<And>rs t m. C1 (w\<lparr>map_counter := m\<rparr>, map (\<lambda>(q, v). f q v) qs1 @ rs, t\<lparr>deltaList := ds1 @ deltaList t\<rparr>) =
          Inr (w1\<lparr>map_counter := m\<rparr>, rs, t)"
    using assms(1) [unfolded step_matches_def, rule_format, OF 1 a] unfolding run_matches_def prod.case by blast
  let ?sa1 = "sa\<lparr>currentVariables := currentVariables s1, derived_state := d1, deltaList := deltaList sa @ ds1\<rparr>"
  have a1: "currentVariables ?sa1 = currentVariables s1" by simp
  obtain ds2 qs2 wa2 d2 r2 e2 where A2: "A2 (wa1, ?sa1) = Inr (wa2, ?sa1\<lparr>currentVariables := currentVariables s', derived_state := d2,
          deltaList := deltaList ?sa1 @ ds2\<rparr>)" "out d2 = out (derived_state ?sa1) @ qs2" "fd_dx wa2 = fd_dx w'"
        "map_counter wa2 + map_counter w1 = map_counter wa1 + map_counter w'"
    and s2: "s' = s1\<lparr>currentVariables := currentVariables s', currentResponse := r2, derived_state := e2\<rparr>"
    and C2: "\<And>rs t m. C2 (w1\<lparr>map_counter := m\<rparr>, map (\<lambda>(q, v). f q v) qs2 @ rs, t\<lparr>deltaList := ds2 @ deltaList t\<rparr>) =
          Inr (w'\<lparr>map_counter := m\<rparr>, rs, t)"
    using assms(2) [unfolded step_matches_def, rule_format, OF 2 a1 A1(3)] unfolding run_matches_def prod.case by blast
  show "run_matches f out (\<lambda>st. rbind (C1 st) C2) (w, s) ws' (wa, sa) (rbind (A1 (wa, sa)) A2)"
    unfolding ws'
  proof (rule run_matches_intro [where ds = "ds1 @ ds2" and qs = "qs1 @ qs2" and d' = d2 and r = r2 and d = e2 and wa' = wa2])
    show "rbind (A1 (wa, sa)) A2 = Inr (wa2, sa\<lparr>currentVariables := currentVariables s', derived_state := d2,
        deltaList := deltaList sa @ (ds1 @ ds2)\<rparr>)"
      using A1(1) A2(1) by simp
    show "s' = s\<lparr>currentVariables := currentVariables s', currentResponse := r2, derived_state := e2\<rparr>"
      by (subst s2, subst s1) simp
    show "rbind (C1 (w\<lparr>map_counter := m\<rparr>, map (\<lambda>(q, v). f q v) (qs1 @ qs2) @ rs, t\<lparr>deltaList := (ds1 @ ds2) @ deltaList t\<rparr>)) C2 =
        Inr (w'\<lparr>map_counter := m\<rparr>, rs, t)" for rs t m
      using C1 [of m "map (\<lambda>(q, v). f q v) qs2 @ rs" "t\<lparr>deltaList := ds2 @ deltaList t\<rparr>"] C2 [of m rs t] by simp
  qed (use A1 A2 in simp_all)
qed

lemma step_matches_fold:
  assumes "\<And>x. x \<in> set xs \<Longrightarrow> step_matches f out (S x) (A x) (C x)"
  shows "step_matches f out (rfold S xs) (rfold A xs) (rfold C xs)"
  using assms
proof (induction xs)
  case Nil
  have "rfold g [] = Inr" for g :: "'x \<Rightarrow> 's \<Rightarrow> 's result" by (rule ext) simp
  then show ?case using step_matches_skip by simp
next
  case (Cons x xs)
  have fold_eq: "rfold g (x # xs) = (\<lambda>s. rbind (g x s) (rfold g xs))" for g :: "_ \<Rightarrow> 's \<Rightarrow> 's result" by (rule ext) simp
  have x: "step_matches f out (S x) (A x) (C x)" by (rule Cons.prems) simp
  have xs: "step_matches f out (rfold S xs) (rfold A xs) (rfold C xs)" by (rule Cons.IH) (simp add: Cons.prems)
  show ?case unfolding fold_eq by (rule step_matches_bind [OF x xs])
qed

lemma step_matchesI:
  fixes f :: "active_set \<Rightarrow> 'r variables \<Rightarrow> 'r response" and out :: "'d \<Rightarrow> (active_set \<times> 'r variables) list"
    and S :: "'r fd_work \<times> ('r, 'd, 'm) model_state_scheme \<Rightarrow> ('r fd_work \<times> ('r, 'd, 'm) model_state_scheme) result"
  assumes "\<And>w s w' s' wa sa. S (w, s) = Inr (w', s') \<Longrightarrow> currentVariables sa = currentVariables s \<Longrightarrow> fd_dx wa = fd_dx w \<Longrightarrow>
    run_matches f out C (w, s) (w', s') (wa, sa) (A (wa, sa))"
  shows "step_matches f out S A C"
  unfolding step_matches_def using assms by (metis surj_pair)

lemma fd_evaluate_sync:
  "simulates D f out \<Longrightarrow> fd_evaluate False c D k asv x (w, s) =
    Inr (w\<lparr>map_counter := Suc (map_counter w)\<rparr>,
      s\<lparr>currentVariables := put_view c (fd_view k) x (currentVariables s),
        currentResponse := f (set_request_vector asv (fd_set k)) (put_view c (fd_view k) x (currentVariables s)),
        derived_state := after_evaluate D (set_request_vector asv (fd_set k)) (put_view c (fd_view k) x (currentVariables s)) (derived_state s)\<rparr>)"
  by (simp add: fd_evaluate_def evaluate_here_def simulates_evaluate)

lemma fd_evaluate_asynch:
  "simulates D f out \<Longrightarrow> fd_evaluate True c D k asv x (w, s) =
    Inr (w\<lparr>map_counter := Suc (map_counter w)\<rparr>,
      s\<lparr>currentVariables := put_view c (fd_view k) x (currentVariables s),
        derived_state := after_submit D (set_request_vector asv (fd_set k)) (put_view c (fd_view k) x (currentVariables s)) (derived_state s)\<rparr>)"
  by (simp add: fd_evaluate_def evaluate_here_def simulates_submit)

text \<open>The contexts of the three steps.\<close>

definition contexts_match :: "'r fd_context \<Rightarrow> 'r fd_context \<Rightarrow> 'r fd_context \<Rightarrow> bool" where
  "contexts_match k ka kc \<longleftrightarrow>
    fd_grad_asv ka = fd_grad_asv k \<and> fd_hess_asv ka = fd_hess_asv k \<and> fd_set ka = fd_set k \<and> fd_view ka = fd_view k \<and>
    fd_x0 ka = fd_x0 k \<and> fd_bound_pairs ka = fd_bound_pairs k \<and> fd_ids ka = fd_ids k \<and>
    fd_grad_asv kc = fd_grad_asv k \<and> fd_hess_asv kc = fd_hess_asv k \<and> fd_set kc = fd_set k \<and>
    functionValues (initial_map_response kc) = functionValues (initial_map_response k) \<and>
    functionGradients (initial_map_response kc) = functionGradients (initial_map_response k)"

lemma contexts_matchD:
  assumes "contexts_match k ka kc"
  shows "fd_grad_asv ka = fd_grad_asv k" "fd_hess_asv ka = fd_hess_asv k" "fd_set ka = fd_set k" "fd_view ka = fd_view k"
    "fd_x0 ka = fd_x0 k" "fd_bound_pairs ka = fd_bound_pairs k" "fd_ids ka = fd_ids k"
    "fd_grad_asv kc = fd_grad_asv k" "fd_hess_asv kc = fd_hess_asv k" "fd_set kc = fd_set k"
    "fn_values c (initial_map_response kc) = fn_values c (initial_map_response k)"
    "fn_gradients c n (initial_map_response kc) = fn_gradients c n (initial_map_response k)"
    "num_deriv_vars ka = num_deriv_vars k" "num_deriv_vars kc = num_deriv_vars k"
  using assms by (simp_all add: contexts_match_def fn_values_def fn_gradients_def num_deriv_vars_def)

lemmas sync_defs = sync_values_def base_values_def sync_grads_def sync_hessians_def push_delta_def prod.case if_True if_False
  not_True_eq_False not_False_eq_True simp_thms
lemmas collect_defs = pop_delta_def next_values_def

lemma rbind_cases: "rbind m f = Inr y \<Longrightarrow> (\<And>x. m = Inr x \<Longrightarrow> f x = Inr y \<Longrightarrow> P) \<Longrightarrow> P"
  by (cases m) auto

lemma fd_gradient_matches:
  assumes D: "simulates D f out" and k: "contexts_match k ka kc"
    and i: "intervalType c \<in> {''forward'', ''central''}"
  shows "step_matches f out (fd_gradient False c D k j xj) (fd_gradient True c D ka j xj) (collect_gradient c kc j)"
proof (rule step_matchesI, goal_cases)
  case (1 w s w' s' wa sa)
  note S = 1(1) and cv = 1(2) and dx = 1(3)
  obtain lb ub where b: "fd_bound_pairs k ! j = (lb, ub)" by (cases "fd_bound_pairs k ! j")
  obtain h short where st: "forward_grad_step c (num_deriv_vars k) xj (fd_x0 k ! xj) lb ub = Inr (h, short)"
    using S unfolding fd_gradient_def Let_def b by (auto elim: rbind_cases)
  let ?q = "set_request_vector (fd_grad_asv k) (fd_set k)" and ?cv = "currentVariables s"
  let ?x = "\<lambda>h. (fd_x0 k)[xj := fd_x0 k ! xj + h]"
  let ?v1 = "put_view c (fd_view k) (?x h) ?cv"
  let ?d1 = "after_submit D ?q ?v1 (derived_state sa)"
  note S' = S [unfolded fd_gradient_def Let_def b prod.case st rbind.simps sync_defs fd_evaluate_sync [OF D] fst_conv snd_conv
    model_state.simps]
  note A_simps = fd_gradient_def Let_def contexts_matchD [OF k] b st cv sync_defs fd_evaluate_asynch [OF D]
  note C_simps = collect_gradient_def Let_def collect_defs contexts_matchD [OF k]
  show ?case
  proof (cases "intervalType c = ''forward''")
    case True
    then have nc: "intervalType c \<noteq> ''central''" by simp
    obtain v1 v0 m where v: "fn_values c (f ?q ?v1) = Inr v1" "fn_values c (initial_map_response k) = Inr v0"
        "forward_difference (fd_grad_asv k) h v0 v1 j (new_fn_grads w) = Inr m"
      and w': "w' = w\<lparr>map_counter := Suc (map_counter w), new_fn_grads := m\<rparr>"
      and s': "s' = s\<lparr>currentVariables := ?v1, currentResponse := f ?q ?v1,
        derived_state := after_evaluate D ?q ?v1 (derived_state s)\<rparr>"
      using S' True by (auto simp: result_simps)
    have h: "h \<noteq> 0" using v(3) by (auto simp: forward_difference_def checked_div_def)
    show ?thesis
    proof (rule run_matches_intro [where ds = "[h]" and qs = "[(?q, ?v1)]" and d' = ?d1
          and wa' = "wa\<lparr>map_counter := Suc (map_counter wa)\<rparr>"])
      show "fd_gradient True c D ka j xj (wa, sa) = Inr (wa\<lparr>map_counter := Suc (map_counter wa)\<rparr>,
        sa\<lparr>currentVariables := currentVariables s', derived_state := ?d1, deltaList := deltaList sa @ [h]\<rparr>)"
        using True by (simp add: A_simps s')
      show "collect_gradient c kc j (w\<lparr>map_counter := n\<rparr>, map (\<lambda>(q, v). f q v) [(?q, ?v1)] @ rs, t\<lparr>deltaList := [h] @ deltaList t\<rparr>) =
        Inr (w'\<lparr>map_counter := n\<rparr>, rs, t)" for rs t n
        using h v nc by (simp add: C_simps w')
    qed (use simulates_outstanding [OF D] dx in \<open>simp_all add: s' w'\<close>)
  next
    case False
    then have ct: "intervalType c = ''central''" using i by blast
    obtain h2 short2 where st2: "FDstep2 c (fd_x0 k ! xj) lb ub h short = (h2, short2)"
      by (cases "FDstep2 c (fd_x0 k ! xj) lb ub h short")
    let ?v2 = "put_view c (fd_view k) (?x h2) ?v1"
    let ?d2 = "after_submit D ?q ?v2 ?d1"
    note S2 = S' [unfolded st2 prod.case Let_def]
    obtain v1 v0 v2 m where v: "fn_values c (f ?q ?v1) = Inr v1" "fn_values c (initial_map_response k) = Inr v0"
        "fn_values c (f ?q ?v2) = Inr v2" "central_difference short2 h h2 v0 v1 v2 j (new_fn_grads w) = Inr m"
      and w': "w' = w\<lparr>map_counter := Suc (Suc (map_counter w)), new_fn_grads := m\<rparr>"
      and s': "s' = s\<lparr>currentVariables := ?v2, currentResponse := f ?q ?v2,
        derived_state := after_evaluate D ?q ?v2 (after_evaluate D ?q ?v1 (derived_state s))\<rparr>"
      using S2 ct by (auto simp: result_simps fd_evaluate_sync [OF D])
    have "h2 = 0" if "h = 0"
      using st2 that by (auto simp: FDstep2_def Let_def split: if_splits)
    then have h: "h \<noteq> 0"
      using v(4) by (auto simp: central_difference_def checked_div_def Let_def split: if_splits)
    have sh: "(h + h2 \<noteq> 0) = short2" using FDstep2_distinct(3) [OF h st2] by simp
    show ?thesis
    proof (rule run_matches_intro [where ds = "[h, h2]" and qs = "[(?q, ?v1), (?q, ?v2)]" and d' = ?d2
          and wa' = "wa\<lparr>map_counter := Suc (Suc (map_counter wa))\<rparr>"])
      show "fd_gradient True c D ka j xj (wa, sa) = Inr (wa\<lparr>map_counter := Suc (Suc (map_counter wa))\<rparr>,
        sa\<lparr>currentVariables := currentVariables s', derived_state := ?d2, deltaList := deltaList sa @ [h, h2]\<rparr>)"
        using ct by (simp add: A_simps s' st2)
      show "collect_gradient c kc j (w\<lparr>map_counter := n\<rparr>, map (\<lambda>(q, v). f q v) [(?q, ?v1), (?q, ?v2)] @ rs,
        t\<lparr>deltaList := [h, h2] @ deltaList t\<rparr>) = Inr (w'\<lparr>map_counter := n\<rparr>, rs, t)" for rs t n
        using h v ct by (simp add: C_simps w' sh)
    qed (use simulates_outstanding [OF D] dx in \<open>simp_all add: s' w'\<close>)
  qed
qed

lemma fd_off_diagonal_matches:
  assumes D: "simulates D f out" and k: "contexts_match k ka kc"
  shows "step_matches f out (fd_hessian_off_diagonal False c D k h j xj l) (fd_hessian_off_diagonal True c D ka h j xj l)
    (collect_off_diagonal c h j l)"
proof (rule step_matchesI, goal_cases)
  case (1 w s w' s' wa sa)
  note S = 1(1) and cv = 1(2) and dx = 1(3)
  obtain xl where xl: "find_index (fd_ids k) (derivVarsVector (fd_set k) ! l) = Some xl" "\<not> length (fd_x0 k) \<le> xl"
    using S unfolding fd_hessian_off_diagonal_def by (auto split: option.splits if_splits)
  let ?q = "set_request_vector (fd_hess_asv k) (fd_set k)" and ?x0 = "fd_x0 k"
  let ?x = "\<lambda>dj dl. ?x0[xj := ?x0 ! xj + dj, xl := ?x0 ! xl + dl]"
  let ?v1 = "put_view c (fd_view k) (?x h h) (currentVariables s)"
  let ?v2 = "put_view c (fd_view k) (?x h (- h)) ?v1"
  let ?v3 = "put_view c (fd_view k) (?x (- h) h) ?v2"
  let ?v4 = "put_view c (fd_view k) (?x (- h) (- h)) ?v3"
  let ?d1 = "after_submit D ?q ?v1 (derived_state sa)"
  let ?d2 = "after_submit D ?q ?v2 ?d1" let ?d3 = "after_submit D ?q ?v3 ?d2" let ?d4 = "after_submit D ?q ?v4 ?d3"
  obtain f1 f2 f3 f4 m e where v: "fn_values c (f ?q ?v1) = Inr f1" "fn_values c (f ?q ?v2) = Inr f2"
      "fn_values c (f ?q ?v3) = Inr f3" "fn_values c (f ?q ?v4) = Inr f4"
      "central_off_diagonal h f1 f2 f3 f4 j l (new_fn_hessians w) = Inr m"
    and w': "w' = w\<lparr>map_counter := Suc (Suc (Suc (Suc (map_counter w)))), new_fn_hessians := m\<rparr>"
    and s': "s' = s\<lparr>currentVariables := ?v4, currentResponse := f ?q ?v4, derived_state := e\<rparr>"
    using S xl by (simp add: fd_hessian_off_diagonal_def Let_def sync_defs fd_evaluate_sync [OF D] result_simps) auto
  show ?case
  proof (rule run_matches_intro [where ds = "[]" and qs = "[(?q, ?v1), (?q, ?v2), (?q, ?v3), (?q, ?v4)]" and d' = ?d4
        and wa' = "wa\<lparr>map_counter := Suc (Suc (Suc (Suc (map_counter wa))))\<rparr>"])
    show "fd_hessian_off_diagonal True c D ka h j xj l (wa, sa) = Inr (wa\<lparr>map_counter := Suc (Suc (Suc (Suc (map_counter wa))))\<rparr>,
        sa\<lparr>currentVariables := currentVariables s', derived_state := ?d4, deltaList := deltaList sa @ []\<rparr>)"
      using xl by (simp add: fd_hessian_off_diagonal_def Let_def contexts_matchD [OF k] cv sync_defs fd_evaluate_asynch [OF D] s')
    show "collect_off_diagonal c h j l (w\<lparr>map_counter := n\<rparr>, map (\<lambda>(q, v). f q v) [(?q, ?v1), (?q, ?v2), (?q, ?v3), (?q, ?v4)] @ rs,
        t\<lparr>deltaList := [] @ deltaList t\<rparr>) = Inr (w'\<lparr>map_counter := n\<rparr>, rs, t)" for rs t n
      using v by (simp add: collect_off_diagonal_def collect_defs w')
  qed (use simulates_outstanding [OF D] dx in \<open>simp_all add: s' w'\<close>)
qed

text \<open>A run that is continued by further steps.\<close>

lemma run_matches_continue:
  fixes f :: "active_set \<Rightarrow> 'r variables \<Rightarrow> 'r response" and out :: "'d \<Rightarrow> (active_set \<times> 'r variables) list"
    and s :: "('r, 'd, 'm) model_state_scheme"
  assumes 2: "St (w1, s1) = Inr (w', s')" "step_matches f out St At Ct"
    and ra: "ra = At (wm, sa\<lparr>deltaList := deltaList sa @ ds, currentVariables := currentVariables s1, derived_state := dm\<rparr>)"
    and A1: "out dm = out (derived_state sa) @ qs" "fd_dx wm = fd_dx w1"
        "map_counter wm + map_counter w = map_counter wa + map_counter w1"
    and s1: "s1 = s\<lparr>currentVariables := currentVariables s1, currentResponse := r1, derived_state := e1\<rparr>"
    and C: "\<And>rs t m. C (w\<lparr>map_counter := m\<rparr>, map (\<lambda>(q, v). f q v) qs @ rs, t\<lparr>deltaList := ds @ deltaList t\<rparr>) =
        Ct (w1\<lparr>map_counter := m\<rparr>, rs, t)"
  shows "run_matches f out C (w, s) (w', s') (wa, sa) ra"
proof -
  let ?sa1 = "sa\<lparr>deltaList := deltaList sa @ ds, currentVariables := currentVariables s1, derived_state := dm\<rparr>"
  have a1: "currentVariables ?sa1 = currentVariables s1" by simp
  obtain ds2 qs2 wa2 d2 r2 e2 where At: "At (wm, ?sa1) = Inr (wa2, ?sa1\<lparr>currentVariables := currentVariables s', derived_state := d2,
          deltaList := deltaList ?sa1 @ ds2\<rparr>)" "out d2 = out (derived_state ?sa1) @ qs2" "fd_dx wa2 = fd_dx w'"
        "map_counter wa2 + map_counter w1 = map_counter wm + map_counter w'"
    and s2: "s' = s1\<lparr>currentVariables := currentVariables s', currentResponse := r2, derived_state := e2\<rparr>"
    and Ct: "\<And>rs t m. Ct (w1\<lparr>map_counter := m\<rparr>, map (\<lambda>(q, v). f q v) qs2 @ rs, t\<lparr>deltaList := ds2 @ deltaList t\<rparr>) =
          Inr (w'\<lparr>map_counter := m\<rparr>, rs, t)"
    using 2(2) [unfolded step_matches_def, rule_format, OF 2(1) a1 A1(2)] unfolding run_matches_def prod.case by blast
  show ?thesis
  proof (rule run_matches_intro [where ds = "ds @ ds2" and qs = "qs @ qs2" and d' = d2 and r = r2 and d = e2 and wa' = wa2])
    show "ra = Inr (wa2, sa\<lparr>currentVariables := currentVariables s', derived_state := d2, deltaList := deltaList sa @ (ds @ ds2)\<rparr>)"
      using At(1) ra by simp
    show "s' = s\<lparr>currentVariables := currentVariables s', currentResponse := r2, derived_state := e2\<rparr>"
      by (subst s2, subst s1) simp
    show "C (w\<lparr>map_counter := m\<rparr>, map (\<lambda>(q, v). f q v) (qs @ qs2) @ rs, t\<lparr>deltaList := (ds @ ds2) @ deltaList t\<rparr>) =
        Inr (w'\<lparr>map_counter := m\<rparr>, rs, t)" for rs t m
      using C [of m "map (\<lambda>(q, v). f q v) qs2 @ rs" "t\<lparr>deltaList := ds2 @ deltaList t\<rparr>"] Ct [of m rs t] by simp
  qed (use A1 At in simp_all)
qed

text \<open>The counter is updated first.\<close>

lemma counter_first:
  "map_counter_update g (new_fn_hessians_update f w) = new_fn_hessians_update f (map_counter_update g w)"
  "map_counter_update g (fd_dx_update e w) = fd_dx_update e (map_counter_update g w)"
  "map_counter_update g (fd_fx_update d w) = fd_fx_update d (map_counter_update g w)"
  by simp_all

lemma fd_hessian_central_matches:
  assumes D: "simulates D f out" and k: "contexts_match k ka kc"
  shows "step_matches f out (fd_hessian_central False c D k j xj) (fd_hessian_central True c D ka j xj)
    (collect_hessian_central c kc j)"
proof (rule step_matchesI, goal_cases)
  case (1 w s w' s' wa sa)
  note S = 1(1) and cv = 1(2) and dx = 1(3)
  obtain ss where ss: "select_step (fdHessByFnStepSize c) (num_deriv_vars k) xj = Inr ss"
    using S unfolding fd_hessian_central_def Let_def by (auto elim: rbind_cases)
  define h where "h = (if fd_x0 k ! xj < 0 then - (ss * max \<bar>fd_x0 k ! xj\<bar> (1 / 100)) else ss * max \<bar>fd_x0 k ! xj\<bar> (1 / 100))"
  let ?q = "set_request_vector (fd_hess_asv k) (fd_set k)" and ?x0 = "fd_x0 k"
  let ?v1 = "put_view c (fd_view k) (?x0[xj := ?x0 ! xj + 2 * h]) (currentVariables s)"
  let ?v2 = "put_view c (fd_view k) (?x0[xj := ?x0 ! xj - 2 * h]) ?v1"
  let ?d1 = "after_submit D ?q ?v1 (derived_state sa)"
  let ?d2 = "after_submit D ?q ?v2 ?d1"
  let ?w1 = "\<lambda>m. w\<lparr>map_counter := Suc (Suc (map_counter w)), new_fn_hessians := m\<rparr>"
  let ?s1 = "\<lambda>e. s\<lparr>currentVariables := ?v2, currentResponse := f ?q ?v2, derived_state := e\<rparr>"
  obtain f1 f2 v0 m e where v: "fn_values c (f ?q ?v1) = Inr f1" "fn_values c (f ?q ?v2) = Inr f2"
      "fn_values c (initial_map_response k) = Inr v0" "central_diagonal (fd_hess_asv k) h v0 f1 f2 j (new_fn_hessians w) = Inr m"
    and tail: "rfold (fd_hessian_off_diagonal False c D k h j xj) [Suc j..<num_deriv_vars k] (?w1 m, ?s1 e) = Inr (w', s')"
    using S by (simp add: fd_hessian_central_def Let_def ss flip: h_def) (auto simp: sync_defs fd_evaluate_sync [OF D] result_simps)
  have fold: "step_matches f out (rfold (fd_hessian_off_diagonal False c D k h j xj) [Suc j..<num_deriv_vars k])
      (rfold (fd_hessian_off_diagonal True c D ka h j xj) [Suc j..<num_deriv_vars k])
      (rfold (collect_off_diagonal c h j) [Suc j..<num_deriv_vars k])"
    by (intro step_matches_fold fd_off_diagonal_matches [OF D k])
  show ?case
  proof (rule run_matches_continue [where ds = "[h]" and qs = "[(?q, ?v1), (?q, ?v2)]" and dm = ?d2 and Ct = "rfold (collect_off_diagonal c h j) [Suc j..<num_deriv_vars k]",
      OF tail fold, where wm = "wa\<lparr>map_counter := Suc (Suc (map_counter wa))\<rparr>"])
    show "fd_hessian_central True c D ka j xj (wa, sa) = rfold (fd_hessian_off_diagonal True c D ka h j xj) [Suc j..<num_deriv_vars k]
        (wa\<lparr>map_counter := Suc (Suc (map_counter wa))\<rparr>, sa\<lparr>deltaList := deltaList sa @ [h],
          currentVariables := currentVariables (?s1 e), derived_state := ?d2\<rparr>)"
      by (simp add: fd_hessian_central_def Let_def contexts_matchD [OF k] ss cv flip: h_def)
        (simp add: sync_defs cv contexts_matchD [OF k] fd_evaluate_asynch [OF D])
    show "collect_hessian_central c kc j (w\<lparr>map_counter := n\<rparr>, map (\<lambda>(q, v). f q v) [(?q, ?v1), (?q, ?v2)] @ rs,
        t\<lparr>deltaList := [h] @ deltaList t\<rparr>) = rfold (collect_off_diagonal c h j) [Suc j..<num_deriv_vars k]
          ((?w1 m)\<lparr>map_counter := n\<rparr>, rs, t)" for rs t n
      using v by (simp add: collect_hessian_central_def collect_defs contexts_matchD [OF k] counter_first)
  qed (use simulates_outstanding [OF D] dx in simp_all)
qed

lemma fd_mixed_matches:
  assumes D: "simulates D f out" and k: "contexts_match k ka kc"
  shows "step_matches f out (fd_hessian_mixed False c D k h1 v1 j xj l) (fd_hessian_mixed True c D ka h1 u j xj l)
    (collect_mixed c kc h1 v1 j l)"
proof (rule step_matchesI, goal_cases)
  case (1 w s w' s' wa sa)
  note S = 1(1) and cv = 1(2) and dx = 1(3)
  obtain xl where xl: "find_index (fd_ids k) (derivVarsVector (fd_set k) ! l) = Some xl" "\<not> length (fd_x0 k) \<le> xl"
    using S unfolding fd_hessian_mixed_def by (auto split: option.splits if_splits)
  let ?q = "set_request_vector (fd_hess_asv k) (fd_set k)" and ?x0 = "fd_x0 k"
  let ?v = "put_view c (fd_view k) (?x0[xj := ?x0 ! xj + h1, xl := ?x0 ! xl + fd_dx w ! l]) (currentVariables s)"
  let ?d = "after_submit D ?q ?v (derived_state sa)"
  obtain v12 v0 m e where v: "fn_values c (f ?q ?v) = Inr v12" "fn_values c (initial_map_response k) = Inr v0"
      "two_step_off_diagonal h1 (fd_dx w ! l) v0 v1 (fd_fx w ! l) v12 j l (new_fn_hessians w) = Inr m"
    and w': "w' = w\<lparr>map_counter := Suc (map_counter w), new_fn_hessians := m\<rparr>"
    and s': "s' = s\<lparr>currentVariables := ?v, currentResponse := f ?q ?v, derived_state := e\<rparr>"
    using S xl by (simp add: fd_hessian_mixed_def Let_def sync_defs fd_evaluate_sync [OF D] result_simps split: if_splits) auto
  show ?case
  proof (rule run_matches_intro [where ds = "[]" and qs = "[(?q, ?v)]" and d' = ?d
        and wa' = "wa\<lparr>map_counter := Suc (map_counter wa)\<rparr>"])
    show "fd_hessian_mixed True c D ka h1 u j xj l (wa, sa) = Inr (wa\<lparr>map_counter := Suc (map_counter wa)\<rparr>,
        sa\<lparr>currentVariables := currentVariables s', derived_state := ?d, deltaList := deltaList sa @ []\<rparr>)"
      using xl by (simp add: fd_hessian_mixed_def Let_def contexts_matchD [OF k] cv dx sync_defs fd_evaluate_asynch [OF D] s')
    show "collect_mixed c kc h1 v1 j l (w\<lparr>map_counter := n\<rparr>, map (\<lambda>(q, v). f q v) [(?q, ?v)] @ rs,
        t\<lparr>deltaList := [] @ deltaList t\<rparr>) = Inr (w'\<lparr>map_counter := n\<rparr>, rs, t)" for rs t n
      using v by (simp add: collect_mixed_def collect_defs contexts_matchD [OF k] w')
  qed (use simulates_outstanding [OF D] dx in \<open>simp_all add: s' w'\<close>)
qed

lemma fd_hessian_two_step_matches:
  assumes D: "simulates D f out" and k: "contexts_match k ka kc"
  shows "step_matches f out (fd_hessian_two_step False c D k j xj) (fd_hessian_two_step True c D ka j xj)
    (collect_hessian_two_step c kc j)"
proof (rule step_matchesI, goal_cases)
  case (1 w s w' s' wa sa)
  note S = 1(1) and cv = 1(2) and dx = 1(3)
  obtain lb ub where b: "fd_bound_pairs k ! j = (lb, ub)" by (cases "fd_bound_pairs k ! j")
  obtain ss where ss: "select_step (fdHessByFnStepSize c) (num_deriv_vars k) xj = Inr ss"
    using S unfolding fd_hessian_two_step_def Let_def b prod.case by (auto elim: rbind_cases)
  obtain hm where hm: "initialize_h c (fd_x0 k ! xj) lb ub (2 * ss) (fdHessStepType c) = Inr hm"
    using S unfolding fd_hessian_two_step_def Let_def b prod.case ss rbind.simps by (auto elim: rbind_cases)
  obtain h1 short where h1: "FDstep1 c (fd_x0 k ! xj) lb ub hm = (h1, short)" by (cases "FDstep1 c (fd_x0 k ! xj) lb ub hm")
  obtain h2 short2 where h2: "FDstep2 c (fd_x0 k ! xj) lb ub h1 short = (h2, short2)"
    by (cases "FDstep2 c (fd_x0 k ! xj) lb ub h1 short")
  let ?q = "set_request_vector (fd_hess_asv k) (fd_set k)" and ?x0 = "fd_x0 k"
  let ?v1 = "put_view c (fd_view k) (?x0[xj := ?x0 ! xj + h1]) (currentVariables s)"
  let ?v2 = "put_view c (fd_view k) (?x0[xj := ?x0 ! xj + h2]) ?v1"
  let ?d1 = "after_submit D ?q ?v1 (derived_state sa)"
  let ?d2 = "after_submit D ?q ?v2 ?d1"
  let ?w1 = "\<lambda>m f1. w\<lparr>fd_dx := (fd_dx w)[j := h1], fd_fx := (fd_fx w)[j := f1], map_counter := Suc (Suc (map_counter w)),
    new_fn_hessians := m\<rparr>"
  let ?s1 = "\<lambda>e. s\<lparr>currentVariables := ?v2, currentResponse := f ?q ?v2, derived_state := e\<rparr>"
  obtain f1 f2 v0 m e where v: "fn_values c (f ?q ?v1) = Inr f1" "fn_values c (f ?q ?v2) = Inr f2"
      "fn_values c (initial_map_response k) = Inr v0" "two_step_diagonal (fd_hess_asv k) h1 h2 v0 f1 f2 j (new_fn_hessians w) = Inr m"
    and tail: "rfold (fd_hessian_mixed False c D k h1 f1 j xj) [0..<j] (?w1 m f1, ?s1 e) = Inr (w', s')"
    using S by (simp add: fd_hessian_two_step_def Let_def b ss hm h1 h2 sync_defs fd_evaluate_sync [OF D] result_simps) auto
  have fold: "step_matches f out (rfold (fd_hessian_mixed False c D k h1 f1 j xj) [0..<j])
      (rfold (fd_hessian_mixed True c D ka h1 [] j xj) [0..<j]) (rfold (collect_mixed c kc h1 f1 j) [0..<j])"
    by (intro step_matches_fold fd_mixed_matches [OF D k])
  show ?case
  proof (rule run_matches_continue [where ds = "[h1, h2]" and qs = "[(?q, ?v1), (?q, ?v2)]" and dm = ?d2,
      OF tail fold, where wm = "wa\<lparr>fd_dx := (fd_dx wa)[j := h1], map_counter := Suc (Suc (map_counter wa))\<rparr>"])
    show "fd_hessian_two_step True c D ka j xj (wa, sa) = rfold (fd_hessian_mixed True c D ka h1 [] j xj) [0..<j]
        (wa\<lparr>fd_dx := (fd_dx wa)[j := h1], map_counter := Suc (Suc (map_counter wa))\<rparr>, sa\<lparr>deltaList := deltaList sa @ [h1, h2],
          currentVariables := currentVariables (?s1 e), derived_state := ?d2\<rparr>)"
      by (simp add: fd_hessian_two_step_def Let_def contexts_matchD [OF k] b ss hm h1 h2 cv sync_defs fd_evaluate_asynch [OF D])
    show "collect_hessian_two_step c kc j (w\<lparr>map_counter := n\<rparr>, map (\<lambda>(q, v). f q v) [(?q, ?v1), (?q, ?v2)] @ rs,
        t\<lparr>deltaList := [h1, h2] @ deltaList t\<rparr>) = rfold (collect_mixed c kc h1 f1 j) [0..<j] ((?w1 m f1)\<lparr>map_counter := n\<rparr>, rs, t)"
      for rs t n
    proof -
      have eq: "(?w1 m f1)\<lparr>map_counter := n\<rparr> = w\<lparr>map_counter := n, new_fn_hessians := m, fd_dx := (fd_dx w)[j := h1], fd_fx := (fd_fx w)[j := f1]\<rparr>"
        by simp
      show ?thesis unfolding eq using v by (simp add: collect_hessian_two_step_def collect_defs contexts_matchD [OF k])
    qed
  qed (use simulates_outstanding [OF D] dx in simp_all)
qed


lemma fd_hessian_by_gradient_matches:
  assumes D: "simulates D f out" and k: "contexts_match k ka kc"
  shows "step_matches f out (fd_hessian_by_gradient False c D k j xj) (fd_hessian_by_gradient True c D ka j xj)
    (collect_hessian_by_gradient c kc j)"
proof (rule step_matchesI, goal_cases)
  case (1 w s w' s' wa sa)
  note S = 1(1) and cv = 1(2) and dx = 1(3)
  obtain lb ub where b: "fd_bound_pairs k ! j = (lb, ub)" by (cases "fd_bound_pairs k ! j")
  obtain ss where ss: "select_step (fdHessByGradStepSize c) (num_deriv_vars k) xj = Inr ss"
    using S unfolding fd_hessian_by_gradient_def Let_def b prod.case by (auto elim: rbind_cases)
  obtain hm where hm: "initialize_h c (fd_x0 k ! xj) lb ub ss (fdHessStepType c) = Inr hm"
    using S unfolding fd_hessian_by_gradient_def Let_def b prod.case ss rbind.simps by (auto elim: rbind_cases)
  obtain h short where h: "FDstep1 c (fd_x0 k ! xj) lb ub hm = (h, short)" by (cases "FDstep1 c (fd_x0 k ! xj) lb ub hm")
  let ?q = "set_request_vector (fd_hess_asv k) (fd_set k)" and ?x0 = "fd_x0 k" and ?n = "num_deriv_vars k"
  let ?v = "put_view c (fd_view k) (?x0[xj := ?x0 ! xj + h]) (currentVariables s)"
  let ?d = "after_submit D ?q ?v (derived_state sa)"
  obtain g1 g0 m e where v: "fn_gradients c ?n (f ?q ?v) = Inr g1" "fn_gradients c ?n (initial_map_response k) = Inr g0"
      "gradient_difference (fd_hess_asv k) ?n h g0 g1 j (fd_fg w) = Inr m"
    and w': "w' = w\<lparr>map_counter := Suc (map_counter w), fd_fg := m\<rparr>"
    and s': "s' = s\<lparr>currentVariables := ?v, currentResponse := f ?q ?v, derived_state := e\<rparr>"
    using S by (simp add: fd_hessian_by_gradient_def Let_def b ss hm h sync_defs fd_evaluate_sync [OF D] result_simps) auto
  show ?case
  proof (rule run_matches_intro [where ds = "[h]" and qs = "[(?q, ?v)]" and d' = ?d
        and wa' = "wa\<lparr>map_counter := Suc (map_counter wa)\<rparr>"])
    show "fd_hessian_by_gradient True c D ka j xj (wa, sa) = Inr (wa\<lparr>map_counter := Suc (map_counter wa)\<rparr>,
        sa\<lparr>currentVariables := currentVariables s', derived_state := ?d, deltaList := deltaList sa @ [h]\<rparr>)"
      by (simp add: fd_hessian_by_gradient_def Let_def b ss hm h contexts_matchD [OF k] cv sync_defs fd_evaluate_asynch [OF D] s')
    show "collect_hessian_by_gradient c kc j (w\<lparr>map_counter := n\<rparr>, map (\<lambda>(q, v). f q v) [(?q, ?v)] @ rs,
        t\<lparr>deltaList := [h] @ deltaList t\<rparr>) = Inr (w'\<lparr>map_counter := n\<rparr>, rs, t)" for rs t n
      using v by (simp add: collect_hessian_by_gradient_def Let_def collect_defs contexts_matchD [OF k] w')
  qed (use simulates_outstanding [OF D] dx in \<open>simp_all add: s' w'\<close>)
qed

lemma step_matches_if:
  "(b \<Longrightarrow> step_matches f out S1 A1 C1) \<Longrightarrow> (\<not> b \<Longrightarrow> step_matches f out S2 A2 C2) \<Longrightarrow>
    step_matches f out (\<lambda>ws. if b then S1 ws else S2 ws) (\<lambda>ws. if b then A1 ws else A2 ws) (\<lambda>st. if b then C1 st else C2 st)"
  by (cases b) simp_all

lemma step_matches_error: "(\<And>ws. \<exists>e. S ws = Inl e) \<Longrightarrow> step_matches f out S A C"
  by (rule step_matchesI) (metis Inl_Inr_False)

text \<open>One variable, with room for a step if gradients are differenced.\<close>

lemma fd_variable_matches:
  fixes out :: "'d \<Rightarrow> (active_set \<times> 'r::linordered_field variables) list"
  assumes D: "simulates D f out" and k: "contexts_match k ka kc"
    and i: "intervalType c \<in> {''forward'', ''central''}"
    and room: "asv_flag (fd_grad_asv k) \<Longrightarrow> \<not> ignoreBounds c \<Longrightarrow> \<not> fixed_bounds (fd_bound_pairs k ! j)"
  shows "step_matches f out (fd_variable False c D k j :: _ \<Rightarrow> ('r fd_work \<times> ('r, 'd, 'm) model_state_scheme) result)
    (fd_variable True c D ka j) (collect_variable c kc j)"
proof (cases "\<exists>xj. find_index (fd_ids k) (derivVarsVector (fd_set k) ! j) = Some xj \<and> xj < length (fd_x0 k)")
  case False
  have "\<exists>e. fd_variable False c D k j ws = Inl e" for ws :: "'r fd_work \<times> ('r, 'd, 'm) model_state_scheme"
    using False by (auto simp: fd_variable_def Let_def split: option.splits)
  then show ?thesis by (rule step_matches_error)
next
  case True
  then obtain xj where xj: "find_index (fd_ids k) (derivVarsVector (fd_set k) ! j) = Some xj" "\<not> length (fd_x0 k) \<le> xj"
    by (meson not_le)
  have fixed: "(asv_flag (fd_grad_asv k) \<and> \<not> ignoreBounds c \<and> fixed_bounds (fd_bound_pairs k ! j)) = False"
    using room by blast
  have var: "fd_variable a c D ka' j = (\<lambda>ws. rbind (if asv_flag (fd_grad_asv k) then fd_gradient a c D ka' j xj ws else Inr ws) (\<lambda>ws1.
      rbind (if list_ex req_val (fd_hess_asv k) then
          if centralHess c then fd_hessian_central a c D ka' j xj ws1 else fd_hessian_two_step a c D ka' j xj ws1
        else Inr ws1) (\<lambda>ws2.
        if list_ex req_grad (fd_hess_asv k) then fd_hessian_by_gradient a c D ka' j xj ws2 else Inr ws2)))"
    if "ka' = k \<or> ka' = ka" for a and ka' :: "'r fd_context"
    using that xj fixed contexts_matchD(1-7) [OF k] unfolding fd_variable_def Let_def by (intro ext) auto
  have col: "collect_variable c kc j = (\<lambda>ws. rbind (if asv_flag (fd_grad_asv k) then collect_gradient c kc j ws else Inr ws) (\<lambda>ws1.
      rbind (if list_ex req_val (fd_hess_asv k) then
          if centralHess c then collect_hessian_central c kc j ws1 else collect_hessian_two_step c kc j ws1
        else Inr ws1) (\<lambda>ws2.
        if list_ex req_grad (fd_hess_asv k) then collect_hessian_by_gradient c kc j ws2 else Inr ws2)))"
    unfolding collect_variable_def contexts_matchD(8,9) [OF k] ..
  show ?thesis
    unfolding var [OF disjI1 [OF refl]] var [OF disjI2 [OF refl]] col
    by (intro step_matches_bind step_matches_if step_matches_skip fd_gradient_matches [OF D k i] fd_hessian_central_matches [OF D k]
      fd_hessian_two_step_matches [OF D k] fd_hessian_by_gradient_matches [OF D k])
qed

section \<open>Assembly from the same data\<close>

text \<open>The quasi-Newton part of one state in another.\<close>

definition with_quasi :: "('r, 'm) quasi_state_scheme \<Rightarrow> ('r, 'n) quasi_state_scheme \<Rightarrow> ('r, 'n) quasi_state_scheme" where
  "with_quasi s t = t\<lparr>xPrev := xPrev s, fnGradsPrev := fnGradsPrev s, quasiHessians := quasiHessians s,
     numQuasiUpdates := numQuasiUpdates s\<rparr>"

lemma with_quasi_sel [simp]:
  "xPrev (with_quasi s t) = xPrev s" "fnGradsPrev (with_quasi s t) = fnGradsPrev s"
  "quasiHessians (with_quasi s t) = quasiHessians s" "numQuasiUpdates (with_quasi s t) = numQuasiUpdates s"
  "with_quasi s s = s" "with_quasi s (with_quasi t u) = with_quasi s u"
  by (simp_all add: with_quasi_def)

lemma init_quasi_hessians_with: "init_quasi_hessians c (with_quasi s t) = with_quasi (init_quasi_hessians c s) t"
  by (simp add: init_quasi_hessians_def with_quasi_def)

lemma update_quasi_function_with:
  assumes "update_quasi_function c x g asv i s = Inr s1" "list_ex req_grad asv \<Longrightarrow> g' = g"
  shows "update_quasi_function c x g' asv i (with_quasi s t) = Inr (with_quasi s1 t)"
proof (cases "i < length asv \<and> req_grad (asv ! i)")
  case True
  then have "list_ex req_grad asv" using list_ex_nth by blast
  then have g: "g' = g" by (rule assms(2))
  have b: "\<not> (length asv \<le> i \<or> req_grad (asv ! i) \<and> length (m_cols g) \<le> i)"
    using assms(1) by (auto simp: update_quasi_function_def)
  show ?thesis
  proof (cases "quasiHessians s ! i \<noteq> [] \<and> req_grad (asv ! i)")
    case u: True
    obtain b store where h: "update_quasi_hessian c x (m_cols g ! i) (numQuasiUpdates s ! i) (xPrev s ! i)
        (m_cols (fnGradsPrev s) ! i) (quasiHessians s ! i) = Inr (b, store)"
      using assms(1) b u by (auto simp: update_quasi_function_def result_simps)
    show ?thesis using assms(1) b u h unfolding g by (auto simp: update_quasi_function_def Let_def with_quasi_def)
  next
    case False
    then show ?thesis using assms(1) b unfolding g by (auto simp: update_quasi_function_def)
  qed
next
  case False
  then show ?thesis using assms(1) by (auto simp: update_quasi_function_def split: if_splits)
qed

lemma update_quasi_hessians_with:
  assumes "update_quasi_hessians c x r q s = Inr s1"
    and "list_ex req_grad (requestVector q) \<Longrightarrow> functionGradients r' = functionGradients r"
  shows "update_quasi_hessians c x r' q (with_quasi s t) = Inr (with_quasi s1 t)"
proof -
  have "rfold (update_quasi_function c x (functionGradients r') (requestVector q)) is (with_quasi u t) = Inr (with_quasi s1 t)"
    if "rfold (update_quasi_function c x (functionGradients r) (requestVector q)) is u = Inr s1" for "is" u
    using that
  proof (induction "is" arbitrary: u)
    case (Cons i "is")
    from Cons.prems obtain v where v: "update_quasi_function c x (functionGradients r) (requestVector q) i u = Inr v"
      and rest: "rfold (update_quasi_function c x (functionGradients r) (requestVector q)) is v = Inr s1"
      by (auto simp: result_simps)
    show ?case using update_quasi_function_with [OF v assms(2), of t] Cons.IH [OF rest] by simp
  qed simp
  then show ?thesis using assms(1) by (simp add: update_quasi_hessians_def init_quasi_hessians_with)
qed

lemma update_quasi_hessians_frame: "update_quasi_hessians c x r q s = Inr s1 \<Longrightarrow> s1 = with_quasi s1 s"
  using update_quasi_hessians_with [of c x r q s s1 r s] by simp

text \<open>Two responses with the same requested data.\<close>

definition same_answers :: "active_set \<Rightarrow> 'r response \<Rightarrow> 'r response \<Rightarrow> bool" where
  "same_answers q r r' \<longleftrightarrow> resp_asv r = requestVector q \<and> resp_asv r' = requestVector q \<and>
    (list_ex req_val (requestVector q) \<longrightarrow> functionValues r = functionValues r') \<and>
    (list_ex req_grad (requestVector q) \<longrightarrow> functionGradients r = functionGradients r') \<and>
    (list_ex req_hess (requestVector q) \<longrightarrow> functionHessians r = functionHessians r')"

text \<open>Every requested kind of data has a source.\<close>

definition sources_cover :: "'r model_config \<Rightarrow> short list \<Rightarrow> short list \<Rightarrow> short list \<Rightarrow> short list \<Rightarrow> short list \<Rightarrow> bool" where
  "sources_cover c asv map_asv grad_asv hess_asv quasi_asv \<longleftrightarrow>
    (list_ex req_val asv \<longrightarrow> list_ex req_val (take (numFns c) map_asv)) \<and>
    (list_ex req_grad asv \<longrightarrow> list_ex req_grad (take (numFns c) map_asv) \<or> asv_flag grad_asv) \<and>
    (list_ex req_hess asv \<longrightarrow> list_ex req_hess (take (numFns c) map_asv) \<or> asv_flag hess_asv \<or> asv_flag quasi_asv)"

lemma req_nonzero: "req_val a \<Longrightarrow> a \<noteq> 0" "req_grad a \<Longrightarrow> a \<noteq> 0" "req_hess a \<Longrightarrow> a \<noteq> 0"
  by (auto simp: req_val_def req_grad_def req_hess_def)

lemma list_ex_asv_flag: "list_ex req_val asv \<Longrightarrow> asv_flag asv" "list_ex req_grad asv \<Longrightarrow> asv_flag asv"
    "list_ex req_hess asv \<Longrightarrow> asv_flag asv"
  unfolding asv_flag_def list_ex_iff using req_nonzero by blast+

lemma written_gradients_some:
  assumes "written_gradients c g r0 ng = Inr x" "list_ex req_grad (take (numFns c) (resp_asv r0)) \<or> asv_flag g"
  shows "x \<noteq> None"
  using assms list_ex_asv_flag(2) [of "take (numFns c) (resp_asv r0)"]
  by (auto simp: written_gradients_def Let_def result_simps split: if_splits)

lemma written_hessians_some:
  assumes "written_hessians c h q r0 nh qh = Inr x" "list_ex req_hess (take (numFns c) (resp_asv r0)) \<or> asv_flag h \<or> asv_flag q"
  shows "x \<noteq> None"
  using assms list_ex_asv_flag(3) [of "take (numFns c) (resp_asv r0)"]
  by (auto simp: written_hessians_def Let_def result_simps split: if_splits)

lemma reset_inactive_ok:
  "is_ok (reset_inactive r) \<longleftrightarrow> (\<forall>i < length (resp_asv r). \<not> req_val (resp_asv r ! i) \<longrightarrow> i < length (functionValues r)) \<and>
    length (m_cols (functionGradients r)) \<le> length (resp_asv r) \<and> length (functionHessians r) \<le> length (resp_asv r)"
  by (auto simp: reset_inactive_def Let_def not_le not_less)

lemma reset_inactive_same:
  assumes "reset_inactive r = Inr x" "reset_inactive r' = Inr x'" "resp_asv r' = resp_asv r"
  shows "resp_asv x = resp_asv r" "resp_asv x' = resp_asv r"
    "functionValues r' = functionValues r \<Longrightarrow> functionValues x' = functionValues x"
    "functionGradients r' = functionGradients r \<Longrightarrow> functionGradients x' = functionGradients x"
    "functionHessians r' = functionHessians r \<Longrightarrow> functionHessians x' = functionHessians x"
  using assms by (auto simp: reset_inactive_def Let_def resp_asv_def split: if_splits)

text \<open>The base of the assembly does not matter for what is requested.\<close>

lemma update_response_same:
  fixes s t :: "('r::linordered_field, 'd, 'm) model_state_scheme"
  assumes U: "update_response c vars (Some b) g h q orig r0 ng nh s = Inr (r, s1)"
    and cover: "sources_cover c (requestVector orig) (resp_asv r0) g h q"
    and b: "length (resp_asv b') = length (requestVector orig)" "length (functionValues b') = length (requestVector orig)"
      "length (m_cols (functionGradients b')) \<le> length (requestVector orig)" "length (functionHessians b') \<le> length (requestVector orig)"
    and r0: "resp_asv r0' = resp_asv r0" "functionValues r0' = functionValues r0" "functionGradients r0' = functionGradients r0"
      "functionHessians r0' = functionHessians r0"
    and cv: "currentVariables t = currentVariables s"
  shows "\<exists>r'. update_response c vars (Some b') g h q orig r0' ng nh (with_quasi s t) = Inr (r', with_quasi s1 t) \<and>
    same_answers orig r' r"
proof -
  let ?asv = "requestVector orig" and ?map = "take (numFns c) (resp_asv r0)"
  define val where "val = (\<lambda>n :: 'r response. if list_ex req_val ?map then n\<lparr>functionValues := functionValues r0\<rparr> else n)"
  define grd where "grd = (\<lambda>x (n :: 'r response). case x of None \<Rightarrow> val n | Some g \<Rightarrow> val n\<lparr>functionGradients := g\<rparr>)"
  define hes where "hes = (\<lambda>x y (n :: 'r response). case y of None \<Rightarrow> grd x n | Some h \<Rightarrow> grd x n\<lparr>functionHessians := h\<rparr>)"
  have unfold: "update_response c vars (Some b0) g h q orig rr ng nh u = rbind (written_gradients c g r0 ng) (\<lambda>x.
      rbind (if updates_quasi_hessians c orig (currentVariables u)
         then update_quasi_hessians c (view_slice c vars Active (allContinuousVars vars)) (grd x b0) orig u else Inr u) (\<lambda>s1.
      rbind (written_hessians c h q r0 nh (quasiHessians s1)) (\<lambda>y.
      rbind (active_set_request_vector ?asv (hes x y b0)) (\<lambda>n4. rbind (reset_inactive n4) (\<lambda>n5. Inr (n5, s1))))))"
    if "rr = r0 \<or> rr = r0'" "\<not> length (resp_asv r0) < numFns c" for b0 rr and u :: "('r, 'd, 'm) model_state_scheme"
  proof -
    have rr: "resp_asv rr = resp_asv r0" "functionValues rr = functionValues r0" "functionGradients rr = functionGradients r0"
      "functionHessians rr = functionHessians r0"
      using that(1) r0 by blast+
    have g: "written_gradients c g rr ng = written_gradients c g r0 ng" unfolding written_gradients_def rr ..
    have h: "written_hessians c h q rr nh z = written_hessians c h q r0 nh z" for z unfolding written_hessians_def rr ..
    have f: "(length (resp_asv r0) < numFns c) = False" using that(2) by simp
    show ?thesis unfolding update_response_def Let_def val_def grd_def hes_def g h rr option.case f if_False ..
  qed
  have len: "\<not> length (resp_asv r0) < numFns c" using U by (auto simp: update_response_def Let_def)
  obtain x y n4 where x: "written_gradients c g r0 ng = Inr x"
    and qn: "(if updates_quasi_hessians c orig (currentVariables s)
         then update_quasi_hessians c (view_slice c vars Active (allContinuousVars vars)) (grd x b) orig s else Inr s) = Inr s1"
    and y: "written_hessians c h q r0 nh (quasiHessians s1) = Inr y"
    and n4: "active_set_request_vector ?asv (hes x y b) = Inr n4" "reset_inactive n4 = Inr r"
    using U [unfolded unfold [OF disjI1 [OF refl] len]] by (auto simp: result_simps)
  have parts: "resp_asv (hes x y n) = resp_asv n" "functionValues (hes x y n) = (if list_ex req_val ?map then functionValues r0 else functionValues n)"
      "functionGradients (hes x y n) = (case x of None \<Rightarrow> functionGradients n | Some g \<Rightarrow> g)"
      "functionGradients (grd x n) = (case x of None \<Rightarrow> functionGradients n | Some g \<Rightarrow> g)"
      "functionHessians (hes x y n) = (case y of None \<Rightarrow> functionHessians n | Some h \<Rightarrow> h)" for n
    by (simp_all add: hes_def grd_def val_def resp_asv_def split: option.splits)
  have some_x: "x \<noteq> None" if "list_ex req_grad ?asv"
    using written_gradients_some [OF x] cover that by (simp add: sources_cover_def)
  have some_y: "y \<noteq> None" if "list_ex req_hess ?asv"
    using written_hessians_some [OF y] cover that by (simp add: sources_cover_def)
  have "functionGradients (grd x b') = functionGradients (grd x b)" if "list_ex req_grad ?asv"
    using some_x [OF that] parts by auto
  then have qn': "(if updates_quasi_hessians c orig (currentVariables (with_quasi s t))
         then update_quasi_hessians c (view_slice c vars Active (allContinuousVars vars)) (grd x b') orig (with_quasi s t)
         else Inr (with_quasi s t)) = Inr (with_quasi s1 t)"
    using qn cv update_quasi_hessians_with [of c _ "grd x b" orig s s1 "grd x b'" t]
    by (auto simp: with_quasi_def split: if_splits)
  define m4 where "m4 = hes x y b'\<lparr>responseActiveSet := set_request_vector ?asv (responseActiveSet (hes x y b'))\<rparr>"
  have m4: "active_set_request_vector ?asv (hes x y b') = Inr m4" using b(1) parts(1) by (simp add: active_set_request_vector_def m4_def)
  have n4': "n4 = hes x y b\<lparr>responseActiveSet := set_request_vector ?asv (responseActiveSet (hes x y b))\<rparr>"
    using n4(1) by (auto simp: active_set_request_vector_def split: if_splits)
  have asv: "resp_asv n4 = ?asv" "resp_asv m4 = ?asv" by (simp_all add: n4' m4_def resp_asv_def set_request_vector_def)
  have fields: "functionValues m4 = (if list_ex req_val ?map then functionValues r0 else functionValues b')"
      "functionValues n4 = (if list_ex req_val ?map then functionValues r0 else functionValues b)"
      "functionGradients m4 = (case x of None \<Rightarrow> functionGradients b' | Some g \<Rightarrow> g)"
      "functionGradients n4 = (case x of None \<Rightarrow> functionGradients b | Some g \<Rightarrow> g)"
      "functionHessians m4 = (case y of None \<Rightarrow> functionHessians b' | Some h \<Rightarrow> h)"
      "functionHessians n4 = (case y of None \<Rightarrow> functionHessians b | Some h \<Rightarrow> h)"
    using parts by (simp_all add: n4' m4_def)
  have "is_ok (reset_inactive n4)" using n4(2) by simp
  then have "is_ok (reset_inactive m4)"
    using b fields asv unfolding reset_inactive_ok by (auto split: if_splits option.splits)
  then obtain r' where r': "reset_inactive m4 = Inr r'" by (cases "reset_inactive m4") auto
  note same = reset_inactive_same [OF n4(2) r', unfolded asv, OF refl]
  have "same_answers orig r' r"
    unfolding same_answers_def using same some_x some_y fields cover
    by (auto simp: sources_cover_def)
  moreover have "update_response c vars (Some b') g h q orig r0' ng nh (with_quasi s t) = Inr (r', with_quasi s1 t)"
    unfolding unfold [OF disjI2 [OF refl] len] x rbind.simps qn' with_quasi_sel y m4 r' ..
  ultimately show ?thesis by blast
qed

section \<open>Asynchronous estimation equals synchronous estimation\<close>

text \<open>A delivered response holds its request, and zeros where nothing was requested, so that copying it
  into an empty response for the request changes nothing but the metadata.\<close>

definition clean_responses :: "(active_set \<Rightarrow> 'r variables \<Rightarrow> 'r::zero response) \<Rightarrow> bool" where
  "clean_responses f \<longleftrightarrow> (\<forall>q v n. \<exists>r. update (f q v) False (Response_for_set n q) = Inr r \<and>
    r\<lparr>metaData := metaData (f q v)\<rparr> = f q v)"

text \<open>No derivative variable is fixed by its bounds.\<close>

definition room_for_steps :: "'r::linordered_field model_config \<Rightarrow> 'r variables \<Rightarrow> active_set \<Rightarrow> bool" where
  "room_for_steps c v q \<longleftrightarrow> (case initialize_x0_bounds c v (derivVarsVector q) of
     Inr (vw, x0, bs, ids) \<Rightarrow> ignoreBounds c \<or> length (derivVarsVector q) \<le> length bs \<and> list_all (\<lambda>b. \<not> fixed_bounds b) bs
   | Inl e \<Rightarrow> True)"

definition same_data :: "'r response \<Rightarrow> 'r response \<Rightarrow> bool" where
  "same_data r r' \<longleftrightarrow> resp_asv r' = resp_asv r \<and> functionValues r' = functionValues r \<and>
    functionGradients r' = functionGradients r \<and> functionHessians r' = functionHessians r"

lemma same_data_refl [simp]: "same_data r r"
  by (simp add: same_data_def)

lemma not_asv_flag: "\<not> asv_flag asv \<Longrightarrow> asv = replicate (length asv) 0"
  by (induction asv) (auto simp: asv_flag_def)

lemma augmented_flag: "augmented map_asv asv \<Longrightarrow> asv_flag map_asv"
  using req_nonzero unfolding augmented_def asv_flag_def list_ex_iff by (metis atLeastLessThan_iff nth_mem set_upt)

lemma update_keeps_set:
  assumes "update src pm r = Inr r'"
  shows "responseActiveSet r' = responseActiveSet r"
proof -
  have v: "copy_values t n u x a = Inr b \<Longrightarrow> responseActiveSet b = responseActiveSet a"
    and g: "copy_gradients t n u y a = Inr b \<Longrightarrow> responseActiveSet b = responseActiveSet a"
    and h: "copy_hessians t n u z a = Inr b \<Longrightarrow> responseActiveSet b = responseActiveSet a"
    and i: "reset_inactive a = Inr b \<Longrightarrow> responseActiveSet b = responseActiveSet a" for t n u x y z and a b :: "'a response"
    by (auto simp: copy_values_def copy_gradients_def copy_hessians_def reset_inactive_def Let_def split: if_splits)
  from assms show ?thesis
    unfolding update_def update_data_def Let_def
    by (elim rbind_cases) (auto elim!: rbind_cases dest!: v g h i split: if_splits)
qed

lemma set_active_set_asv: "set_active_set q r = Inr r' \<Longrightarrow> resp_asv r' = requestVector q"
  unfolding set_active_set_def active_set_request_vector_def active_set_derivative_vector_def reshape_active_derivs_def Let_def
  by (elim rbind_cases)
    (auto simp: resp_asv_def set_request_vector_def set_derivative_vector_def split: if_splits elim!: rbind_cases)

lemma Response_for_set_asv [simp]: "resp_asv (Response_for_set n q) = requestVector q"
  by (simp add: Response_for_set_def shape_rep_def Let_def resp_asv_def)

lemma db_lookup_asv: "db_lookup D q r s = Inr (Some r') \<Longrightarrow> resp_asv r' = requestVector q"
  unfolding db_lookup_def
  by (auto simp: result_simps resp_asv_def split: option.splits dest!: set_active_set_asv update_keeps_set)

lemma initial_map_matches:
  fixes s :: "('r::linordered_field, 'd, 'm) model_state_scheme"
  assumes D: "simulates D f out" and f: "clean_responses f" and len: "length map_asv = numFns c"
    and empty: "initialMapList s = []" "dbCaptureList s = []" "dbResponseList s = []" "out (derived_state s) = []"
    and S: "estimate_initial_map False D map_asv orig s = Inr (r0, n, s1)"
  obtains ra im dc dr d qs r e rc where
    "estimate_initial_map True D map_asv orig s = Inr (ra, n,
      s\<lparr>initialMapList := im, dbCaptureList := dc, dbResponseList := dr, derived_state := d\<rparr>)"
    "out d = qs" "s1 = s\<lparr>currentResponse := r, derived_state := e\<rparr>" "resp_asv r0 = map_asv"
    "same_data r0 rc"
    "\<And>rs t :: ('r, 'd, 'm) model_state_scheme. currentResponse t = currentResponse s \<Longrightarrow>
      recall_initial_map c orig (map (\<lambda>(q, v). f q v) qs @ rs)
        (t\<lparr>initialMapList := im, dbCaptureList := dc, dbResponseList := dr\<rparr>) =
        Inr (rc, rs, t\<lparr>initialMapList := [], dbCaptureList := [], dbResponseList := []\<rparr>)"
proof -
  let ?q = "set_request_vector map_asv orig" and ?cv = "currentVariables s"
  let ?init = "Response_for_set (length (metaData (currentResponse s))) ?q :: 'r response"
  obtain found where found: "(if augmented map_asv (requestVector orig) then db_lookup D ?q ?init s else Inr None) = Inr found"
    using S unfolding estimate_initial_map_def Let_def by (auto elim: rbind_cases)
  note S' = S [unfolded estimate_initial_map_def Let_def found rbind.simps]
  have q: "requestVector ?q = map_asv" by (simp add: set_request_vector_def)
  show thesis
  proof (cases "asv_flag map_asv \<and> found = None")
    case True
    let ?fr = "f ?q ?cv"
    obtain r2 where r2: "update ?fr False ?init = Inr r2" and eq: "r0 = r2" "n = 1"
        "s1 = s\<lparr>currentResponse := ?fr, derived_state := after_evaluate D ?q ?cv (derived_state s)\<rparr>"
      using S' True by (auto simp: evaluate_here_def simulates_evaluate [OF D] result_simps)
    have m: "r2\<lparr>metaData := metaData ?fr\<rparr> = ?fr" using f r2 unfolding clean_responses_def by (metis Inr_inject)
    have "same_data r2 (r2\<lparr>metaData := metaData ?fr\<rparr>)" by (simp add: same_data_def resp_asv_def)
    then have same: "same_data r0 ?fr" using eq m by simp
    have asv: "resp_asv r0 = map_asv" using update_keeps_set [OF r2] eq q Response_for_set_asv [of _ ?q] by (simp add: resp_asv_def)
    show ?thesis
    proof (rule that [where im = "[True]" and dc = "[False]" and dr = "[]" and d = "after_submit D ?q ?cv (derived_state s)"
          and qs = "[(?q, ?cv)]" and rc = ?fr, OF _ _ eq(3) asv same])
      show "estimate_initial_map True D map_asv orig s = Inr (?init, n, s\<lparr>initialMapList := [True], dbCaptureList := [False],
          dbResponseList := [], derived_state := after_submit D ?q ?cv (derived_state s)\<rparr>)"
        using True found empty eq by (simp add: estimate_initial_map_def Let_def evaluate_here_def simulates_submit [OF D])
      show "out (after_submit D ?q ?cv (derived_state s)) = [(?q, ?cv)]" using simulates_outstanding [OF D] empty by simp
      show "recall_initial_map c orig (map (\<lambda>(q, v). f q v) [(?q, ?cv)] @ rs)
        (t\<lparr>initialMapList := [True], dbCaptureList := [False], dbResponseList := []\<rparr>) =
        Inr (?fr, rs, t\<lparr>initialMapList := [], dbCaptureList := [], dbResponseList := []\<rparr>)" for rs t
        by (simp add: recall_initial_map_def Let_def)
    qed
  next
    case no_map: False
    have eq: "n = 0" "s1 = s\<lparr>currentResponse := currentResponse s, derived_state := derived_state s\<rparr>"
        "r0 = (case found of None \<Rightarrow> ?init | Some r \<Rightarrow> r)"
      using S' no_map by auto
    show ?thesis
    proof (cases found)
      case (Some r)
      then have "db_lookup D ?q ?init s = Inr (Some r)" using found by (auto split: if_splits)
      from db_lookup_asv [OF this] have asv: "resp_asv r0 = map_asv" using eq Some q by simp
      show ?thesis
      proof (rule that [where im = "[False]" and dc = "[True]" and dr = "[r]" and d = "derived_state s" and qs = "[]" and rc = r, OF _ _ eq(2) asv])
        show "estimate_initial_map True D map_asv orig s = Inr (r, n, s\<lparr>initialMapList := [False], dbCaptureList := [True],
            dbResponseList := [r], derived_state := derived_state s\<rparr>)"
          using Some found empty eq by (simp add: estimate_initial_map_def Let_def)
        show "recall_initial_map c orig (map (\<lambda>(q, v). f q v) [] @ rs)
          (t\<lparr>initialMapList := [False], dbCaptureList := [True], dbResponseList := [r]\<rparr>) =
          Inr (r, rs, t\<lparr>initialMapList := [], dbCaptureList := [], dbResponseList := []\<rparr>)" for rs t
          by (simp add: recall_initial_map_def Let_def)
      qed (use empty Some eq in simp_all)
    next
      case None
      then have "map_asv = replicate (numFns c) 0" using no_map not_asv_flag [of map_asv] len by simp
      then have r0: "r0 = Response_for_set (length (metaData (currentResponse s))) (set_request_vector (replicate (numFns c) 0) orig)"
        using None eq by simp
      have asv: "resp_asv r0 = map_asv" using eq None q by simp
      show ?thesis
      proof (rule that [where im = "[False]" and dc = "[False]" and dr = "[]" and d = "derived_state s" and qs = "[]" and rc = r0, OF _ _ eq(2) asv same_data_refl])
        show "estimate_initial_map True D map_asv orig s = Inr (?init, n, s\<lparr>initialMapList := [False], dbCaptureList := [False],
            dbResponseList := [], derived_state := derived_state s\<rparr>)"
          using None no_map found empty eq by (simp add: estimate_initial_map_def Let_def)
        show "recall_initial_map c orig (map (\<lambda>(q, v). f q v) [] @ rs)
          (t\<lparr>initialMapList := [False], dbCaptureList := [False], dbResponseList := []\<rparr>) =
          Inr (r0, rs, t\<lparr>initialMapList := [], dbCaptureList := [], dbResponseList := []\<rparr>)"
          if "currentResponse t = currentResponse s" for rs t
          using that r0 by (simp add: recall_initial_map_def Let_def)
      qed (use empty in simp)
    qed
  qed
qed

definition response_fits :: "nat \<Rightarrow> 'r response \<Rightarrow> bool" where
  "response_fits n r \<longleftrightarrow> length (resp_asv r) = n \<and> length (functionValues r) = n \<and>
    length (m_cols (functionGradients r)) \<le> n \<and> length (functionHessians r) \<le> n"

definition nothing_pending :: "('d \<Rightarrow> (active_set \<times> 'r variables) list) \<Rightarrow> ('r, 'd, 'm) model_state_scheme \<Rightarrow> bool" where
  "nothing_pending out s \<longleftrightarrow> deltaList s = [] \<and> initialMapList s = [] \<and> dbCaptureList s = [] \<and> dbResponseList s = [] \<and>
    out (derived_state s) = []"

lemma with_quasi_eq:
  "xPrev s = xPrev t \<Longrightarrow> fnGradsPrev s = fnGradsPrev t \<Longrightarrow> quasiHessians s = quasiHessians t \<Longrightarrow>
    numQuasiUpdates s = numQuasiUpdates t \<Longrightarrow> with_quasi s t = t"
  by (simp add: with_quasi_def)

text \<open>The synchronous loop, the submissions, and the collection of the answers.\<close>

lemma loop_matches:
  fixes s1 sa :: "('r::linordered_field, 'd, 'm) model_state_scheme"
  assumes D: "simulates D f out" and i: "intervalType c \<in> {''forward'', ''central''}"
    and room: "room_for_steps c (currentVariables s1) orig"
    and b: "initialize_x0_bounds c (currentVariables s1) (derivVarsVector orig) = Inr (vw, x0, bs, ids)"
    and same: "same_data r0 rc" and cv: "currentVariables sa = currentVariables s1"
    and L: "rfold (fd_variable False c D \<lparr>fd_grad_asv = g, fd_hess_asv = h, fd_set = orig, fd_view = vw, fd_x0 = x0,
               fd_bound_pairs = bs, fd_ids = ids, initial_map_response = r0\<rparr>) [0..<length (derivVarsVector orig)]
             (initial_work c (length (derivVarsVector orig)) h, s1) = Inr (w, s2)"
  obtains wa ds qs d r e where
    "rfold (fd_variable True c D \<lparr>fd_grad_asv = g, fd_hess_asv = h, fd_set = orig, fd_view = vw, fd_x0 = x0,
               fd_bound_pairs = bs, fd_ids = ids, initial_map_response = ra\<rparr>) [0..<length (derivVarsVector orig)]
             (initial_work c (length (derivVarsVector orig)) h, sa) =
      Inr (wa, sa\<lparr>currentVariables := currentVariables s2, derived_state := d, deltaList := deltaList sa @ ds\<rparr>)"
    "out d = out (derived_state sa) @ qs" "map_counter wa = map_counter w"
    "s2 = s1\<lparr>currentVariables := currentVariables s2, currentResponse := r, derived_state := e\<rparr>"
    "\<And>rs t :: ('r, 'd, 'm) model_state_scheme. rfold (collect_variable c \<lparr>fd_grad_asv = g, fd_hess_asv = h, fd_set = orig,
        fd_view = Active, fd_x0 = [], fd_bound_pairs = [], fd_ids = [], initial_map_response = rc\<rparr>)
        [0..<length (derivVarsVector orig)]
        (initial_work c (length (derivVarsVector orig)) h, map (\<lambda>(q, v). f q v) qs @ rs, t\<lparr>deltaList := ds @ deltaList t\<rparr>) =
      Inr (w\<lparr>map_counter := 0\<rparr>, rs, t)"
proof -
  let ?k = "\<lparr>fd_grad_asv = g, fd_hess_asv = h, fd_set = orig, fd_view = vw, fd_x0 = x0,
               fd_bound_pairs = bs, fd_ids = ids, initial_map_response = r0\<rparr>"
  let ?ka = "?k\<lparr>initial_map_response := ra\<rparr>"
  let ?kc = "\<lparr>fd_grad_asv = g, fd_hess_asv = h, fd_set = orig, fd_view = Active, fd_x0 = [],
               fd_bound_pairs = [], fd_ids = [], initial_map_response = rc\<rparr>"
  let ?w = "initial_work c (length (derivVarsVector orig)) h" and ?n = "length (derivVarsVector orig)"
  have k: "contexts_match ?k ?ka ?kc" using same by (simp add: contexts_match_def same_data_def)
  have "step_matches f out (rfold (fd_variable False c D ?k) [0..<?n] :: _ \<Rightarrow> ('r fd_work \<times> ('r, 'd, 'm) model_state_scheme) result)
      (rfold (fd_variable True c D ?ka) [0..<?n]) (rfold (collect_variable c ?kc) [0..<?n])"
  proof (rule step_matches_fold, rule fd_variable_matches [OF D k i])
    fix j assume "j \<in> set [0..<?n]" "\<not> ignoreBounds c"
    then show "\<not> fixed_bounds (fd_bound_pairs ?k ! j)" using room b by (simp add: room_for_steps_def list_all_length)
  qed
  then have "run_matches f out (rfold (collect_variable c ?kc) [0..<?n]) (?w, s1) (w, s2) (?w, sa)
      (rfold (fd_variable True c D ?ka) [0..<?n] (?w, sa))"
    using L cv unfolding step_matches_def by blast
  then obtain ds qs wa d r e where *: "rfold (fd_variable True c D ?ka) [0..<?n] (?w, sa) =
        Inr (wa, sa\<lparr>currentVariables := currentVariables s2, derived_state := d, deltaList := deltaList sa @ ds\<rparr>)"
      "out d = out (derived_state sa) @ qs" "map_counter wa + map_counter ?w = map_counter ?w + map_counter w"
      "s2 = s1\<lparr>currentVariables := currentVariables s2, currentResponse := r, derived_state := e\<rparr>"
    and C: "\<And>rs (t :: ('r, 'd, 'm) model_state_scheme) m. rfold (collect_variable c ?kc) [0..<?n] (?w\<lparr>map_counter := m\<rparr>, map (\<lambda>(q, v). f q v) qs @ rs,
        t\<lparr>deltaList := ds @ deltaList t\<rparr>) = Inr (w\<lparr>map_counter := m\<rparr>, rs, t)"
    unfolding run_matches_def prod.case by blast
  have w0: "?w\<lparr>map_counter := 0\<rparr> = ?w" "map_counter ?w = 0" by (simp_all add: initial_work_def)
  show thesis
    by (rule that [of wa ds d qs e r]) (use * C [of 0] w0 in simp_all)
qed


lemma rbind_ok: "rbind m f = Inr y \<Longrightarrow> \<exists>x. m = Inr x"
  by (cases m) auto

lemma update_response_frame:
  assumes "update_response c vars b g h q orig r0 ng nh s = Inr (r, s1)"
  shows "s1 = with_quasi s1 s"
  using assms unfolding update_response_def Let_def
  by (auto simp: result_simps dest: update_quasi_hessians_frame split: if_splits)

lemma with_quasi_frame [simp]:
  fixes t :: "('r, 'd, 'm) model_state_scheme"
  shows "currentVariables (with_quasi s t) = currentVariables t" "currentResponse (with_quasi s t) = currentResponse t"
    "derived_state (with_quasi s t) = derived_state t" "deltaList (with_quasi s t) = deltaList t"
    "initialMapList (with_quasi s t) = initialMapList t" "dbCaptureList (with_quasi s t) = dbCaptureList t"
    "dbResponseList (with_quasi s t) = dbResponseList t"
  by (simp_all add: with_quasi_def)

lemma estimation_matches:
  fixes s :: "('r::linordered_field, 'd, 'm) model_state_scheme"
  assumes D: "simulates D f out" and f: "clean_responses f" and i: "intervalType c \<in> {''forward'', ''central''}"
    and room: "room_for_steps c (currentVariables s) orig" and len: "length map_asv = numFns c"
    and cover: "sources_cover c (requestVector orig) map_asv g h q"
    and fits: "response_fits (length (requestVector orig)) (currentResponse s)"
    and pending: "nothing_pending out s"
    and S: "estimate_derivatives False c D map_asv g h q orig s = Inr (n, s')"
  shows "\<exists>sa m d r t. estimate_derivatives True c D map_asv g h q orig s = Inr (n, sa) \<and>
    derived_synchronize D (derived_state sa) = Inr (m, d) \<and>
    synchronize_derivatives c (currentVariables sa) (map snd m) (Some (currentResponse sa)) g h q orig
      (sa\<lparr>derived_state := d\<rparr>) = Inr (r, t) \<and>
    same_answers orig r (currentResponse s') \<and> currentVariables t = currentVariables s' \<and> with_quasi s' t = t \<and>
    nothing_pending out t"
proof -
  let ?dvv = "derivVarsVector orig" and ?flag = "asv_flag g \<or> asv_flag h"
  let ?n = "length ?dvv" and ?w = "initial_work c (length (derivVarsVector orig)) h"
  have p: "deltaList s = []" "initialMapList s = []" "dbCaptureList s = []" "dbResponseList s = []" "out (derived_state s) = []"
    using pending by (simp_all add: nothing_pending_def)
  have guard: "(\<exists>i \<in> set [0..<length map_asv]. map_asv ! i \<noteq> 0 \<and> length (requestVector orig) \<le> i) = False"
    using S unfolding estimate_derivatives_def by (meson Inl_Inr_False)
  note est = estimate_derivatives_def [of _ c D map_asv g h q orig s, unfolded guard if_False]
  note S1 = S [unfolded estimate_derivatives_def guard if_False if_True not_False_eq_True]
  obtain r0 cnt s1 where S0: "estimate_initial_map False D map_asv orig s = Inr (r0, cnt, s1)"
    using S1 by (auto elim: rbind_cases)
  obtain ra im dc dr d0 qs0 r1 e1 rc where A0: "estimate_initial_map True D map_asv orig s = Inr (ra, cnt,
      s\<lparr>initialMapList := im, dbCaptureList := dc, dbResponseList := dr, derived_state := d0\<rparr>)"
    and out0: "out d0 = qs0" and s1: "s1 = s\<lparr>currentResponse := r1, derived_state := e1\<rparr>" and asv: "resp_asv r0 = map_asv"
    and same: "same_data r0 rc"
    and recall: "\<And>rs t :: ('r, 'd, 'm) model_state_scheme. currentResponse t = currentResponse s \<Longrightarrow>
      recall_initial_map c orig (map (\<lambda>(q, v). f q v) qs0 @ rs)
        (t\<lparr>initialMapList := im, dbCaptureList := dc, dbResponseList := dr\<rparr>) =
        Inr (rc, rs, t\<lparr>initialMapList := [], dbCaptureList := [], dbResponseList := []\<rparr>)"
    using initial_map_matches [OF D f len p(2-5) S0] by metis
  let ?sa1 = "s\<lparr>initialMapList := im, dbCaptureList := dc, dbResponseList := dr, derived_state := d0\<rparr>"
  have cv1: "currentVariables s1 = currentVariables s" by (subst s1) simp
  define collect where "collect = (\<lambda>st :: ('r, ('r, 'd, 'm) model_state_scheme) sync_state. if ?flag then
      rfold (collect_variable c \<lparr>fd_grad_asv = g, fd_hess_asv = h, fd_set = orig, fd_view = Active, fd_x0 = [],
          fd_bound_pairs = [], fd_ids = [], initial_map_response = rc\<rparr>) [0..<?n] st else Inr st)"
  obtain w s3 d1 ds qs r3 e3 where A: "estimate_derivatives True c D map_asv g h q orig s =
        Inr (cnt + map_counter w, ?sa1\<lparr>currentVariables := currentVariables s3, derived_state := d1, deltaList := ds\<rparr>)"
    and out1: "out d1 = qs0 @ qs"
    and s3: "s3 = s\<lparr>currentVariables := currentVariables s3, currentResponse := r3, derived_state := e3\<rparr>"
    and C: "\<And>rs (t :: ('r, 'd, 'm) model_state_scheme). collect (?w, map (\<lambda>(q, v). f q v) qs @ rs, t\<lparr>deltaList := ds @ deltaList t\<rparr>) =
        Inr (w\<lparr>map_counter := 0\<rparr>, rs, t)"
    and U: "rbind (update_response c (currentVariables s3) (Some (currentResponse s3)) g h q orig r0 (new_fn_grads w)
        (symmetrize_all h ?n (fd_fg w) (new_fn_hessians w)) s3) (\<lambda>(r, s4).
         Inr (cnt + map_counter w, s4\<lparr>currentResponse := r\<rparr>)) = Inr (n, s')"
  proof (cases ?flag)
    case False
    have "map_counter ?w = 0" "?w\<lparr>map_counter := 0\<rparr> = ?w" by (simp_all add: initial_work_def)
    then show thesis
      using that [of ?w "[]" d0 s1 "[]" e1 r1] A0 out0 s1 p cv1 S1 [unfolded S0] False
      by (simp add: est collect_def Let_def)
  next
    case True
    note S2 = S1 [unfolded S0 rbind.simps prod.case eqTrueI [OF True] if_True if_False rbind_assoc]
    obtain vw x0 bs ids where b: "initialize_x0_bounds c (currentVariables s1) ?dvv = Inr (vw, x0, bs, ids)"
      using rbind_ok [OF S2] by (metis surj_pair)
    let ?k = "\<lambda>r. \<lparr>fd_grad_asv = g, fd_hess_asv = h, fd_set = orig, fd_view = vw, fd_x0 = x0,
        fd_bound_pairs = bs, fd_ids = ids, initial_map_response = r\<rparr>"
    have nk: "num_deriv_vars (?k r) = ?n" for r by (simp add: num_deriv_vars_def)
    obtain w s2 where L: "rfold (fd_variable False c D (?k r0)) [0..<?n] (?w, s1) = Inr (w, s2)"
      using rbind_ok [OF S2 [unfolded b rbind.simps prod.case Let_def nk rbind_assoc]] by (metis surj_pair)
    have rm: "room_for_steps c (currentVariables s1) orig" and cva: "currentVariables ?sa1 = currentVariables s1"
      using room cv1 by simp_all
    obtain wa ds qs d r e where LA: "rfold (fd_variable True c D (?k ra)) [0..<?n] (?w, ?sa1) =
        Inr (wa, ?sa1\<lparr>currentVariables := currentVariables s2, derived_state := d, deltaList := deltaList ?sa1 @ ds\<rparr>)"
      and o: "out d = out (derived_state ?sa1) @ qs" and cnt: "map_counter wa = map_counter w"
      and s2: "s2 = s1\<lparr>currentVariables := currentVariables s2, currentResponse := r, derived_state := e\<rparr>"
      and C: "\<And>rs t :: ('r, 'd, 'm) model_state_scheme. rfold (collect_variable c \<lparr>fd_grad_asv = g, fd_hess_asv = h, fd_set = orig,
        fd_view = Active, fd_x0 = [], fd_bound_pairs = [], fd_ids = [], initial_map_response = rc\<rparr>) [0..<?n]
        (?w, map (\<lambda>(q, v). f q v) qs @ rs, t\<lparr>deltaList := ds @ deltaList t\<rparr>) = Inr (w\<lparr>map_counter := 0\<rparr>, rs, t)"
      by (rule loop_matches [OF D i rm b same cva L, where ra = ra]) (rule that)
    let ?s3 = "s2\<lparr>currentVariables := put_view c vw x0 (currentVariables s2)\<rparr>"
    show thesis
    proof (rule that [of w ds d ?s3 qs e r])
      show "estimate_derivatives True c D map_asv g h q orig s = Inr (cnt + map_counter w,
          ?sa1\<lparr>currentVariables := currentVariables ?s3, derived_state := d, deltaList := ds\<rparr>)"
        using A0 True b LA cnt p cv1 by (simp add: est Let_def nk)
      show "out d = qs0 @ qs" using o out0 by simp
      show "?s3 = s\<lparr>currentVariables := currentVariables ?s3, currentResponse := r, derived_state := e\<rparr>"
        by (subst s2, subst s1) simp
      show "collect (?w, map (\<lambda>(q, v). f q v) qs @ rs, t\<lparr>deltaList := ds @ deltaList t\<rparr>) = Inr (w\<lparr>map_counter := 0\<rparr>, rs, t)" for rs t
        using C True by (simp add: collect_def)
    qed (use S1 [unfolded S0] True b L in \<open>simp add: Let_def nk\<close>)
  qed
  obtain r s4 where U': "update_response c (currentVariables s3) (Some (currentResponse s3)) g h q orig r0 (new_fn_grads w)
        (symmetrize_all h ?n (fd_fg w) (new_fn_hessians w)) s3 = Inr (r, s4)"
    and s': "s' = s4\<lparr>currentResponse := r\<rparr>" and n: "n = cnt + map_counter w"
    using U by (auto elim!: rbind_cases)
  obtain m d2 where m: "derived_synchronize D d1 = Inr (m, d2)" "map snd m = map (\<lambda>(q, v). f q v) (out d1)" "out d2 = []"
    using D unfolding simulates_def by blast
  define sa where "sa = ?sa1\<lparr>currentVariables := currentVariables s3, derived_state := d1, deltaList := ds\<rparr>"
  define t1 where "t1 = sa\<lparr>derived_state := d2, initialMapList := [], dbCaptureList := [], dbResponseList := []\<rparr>"
  define t2 where "t2 = t1\<lparr>deltaList := []\<rparr>"
  have rec: "recall_initial_map c orig (map snd m) (sa\<lparr>derived_state := d2\<rparr>) = Inr (rc, map (\<lambda>(q, v). f q v) qs, t1)"
  proof -
    let ?t = "s\<lparr>currentVariables := currentVariables s3, derived_state := d2, deltaList := ds\<rparr>"
    have e: "sa\<lparr>derived_state := d2\<rparr> = ?t\<lparr>initialMapList := im, dbCaptureList := dc, dbResponseList := dr\<rparr>"
      by (simp add: sa_def)
    have e1: "t1 = ?t\<lparr>initialMapList := [], dbCaptureList := [], dbResponseList := []\<rparr>" by (simp add: t1_def sa_def)
    have e2: "map snd m = map (\<lambda>(q, v). f q v) qs0 @ map (\<lambda>(q, v). f q v) qs" using m(2) out1 by simp
    show ?thesis unfolding e e1 e2 by (rule recall) simp
  qed
  have col: "collect (?w, map (\<lambda>(q, v). f q v) qs, t1) = Inr (w\<lparr>map_counter := 0\<rparr>, [], t2)"
  proof -
    have e: "t1 = t2\<lparr>deltaList := ds @ deltaList t2\<rparr>" by (simp add: t2_def t1_def sa_def)
    show ?thesis using C [of "[]" t2] unfolding e [symmetric] by simp
  qed
  have q2: "with_quasi s3 t2 = t2" by (rule with_quasi_eq; subst s3) (simp_all add: t2_def t1_def sa_def)
  have cv2: "currentVariables t2 = currentVariables s3" by (simp add: t2_def t1_def sa_def)
  from update_response_same [OF U', of "currentResponse sa" rc t2]
  obtain r' where r': "update_response c (currentVariables s3) (Some (currentResponse sa)) g h q orig rc (new_fn_grads w)
        (symmetrize_all h ?n (fd_fg w) (new_fn_hessians w)) (with_quasi s3 t2) = Inr (r', with_quasi s4 t2)"
      "same_answers orig r' r"
    using cover asv same fits cv2 by (auto simp: same_data_def response_fits_def sa_def)
  have sync: "synchronize_derivatives c (currentVariables sa) (map snd m) (Some (currentResponse sa)) g h q orig
      (sa\<lparr>derived_state := d2\<rparr>) = Inr (r', with_quasi s4 t2)"
    unfolding synchronize_derivatives_def Let_def rec rbind.simps prod.case
    using col r'(1) q2 by (cases ?flag) (simp_all add: collect_def sa_def)
  have "s4 = with_quasi s4 s3" by (rule update_response_frame [OF U'])
  then have "currentVariables s4 = currentVariables s3" by (metis with_quasi_frame(1))
  then have fin: "currentVariables (with_quasi s4 t2) = currentVariables s'" "with_quasi s' (with_quasi s4 t2) = with_quasi s4 t2"
      "nothing_pending out (with_quasi s4 t2)" "same_answers orig r' (currentResponse s')"
    using r'(2) m(3) by (simp_all add: s' cv2 nothing_pending_def t2_def t1_def sa_def with_quasi_def)
  show ?thesis
    using A [folded sa_def] m(1) sync fin n by (intro exI [of _ sa] exI [of _ m] exI [of _ d2] exI [of _ r'] exI conjI) (simp_all add: sa_def)
qed

end
