(* ===== verification/Model_Evaluation.thy ===== *)
theory Model_Evaluation
  imports Derivative_Estimation
begin

text \<open>
  The evaluation interface of a model (\<^verbatim>\<open>src/DakotaModel.cpp\<close>: \<^verbatim>\<open>evaluate\<close>, \<^verbatim>\<open>evaluate_nowait\<close>,
  \<^verbatim>\<open>synchronize\<close>, \<^verbatim>\<open>synchronize_nowait\<close>, \<^verbatim>\<open>cache_unmatched_response\<close>, \<^verbatim>\<open>cache_unmatched_responses\<close>).

  The maps are lists of entries by increasing key.  Graphics and the evaluations database, which only
  record, are off.
\<close>

section \<open>State\<close>

record ('r, 'd) model_letter = "('r, 'd) model_state" +
  modelEvalCntr :: int
  estDerivsFlag :: bool
  asvList :: "short list list"
  setList :: "active_set list"
  rawEvalIdMap :: "(int \<times> int) list"
  numFDEvalsMap :: "(int \<times> int) list"
  varsMap :: "(int \<times> 'r variables) list"
  responseMap :: "(int \<times> 'r response) list"
  cachedModelResponses :: "(int \<times> 'r response) list"

section \<open>Synchronous evaluation\<close>

text \<open>\<^verbatim>\<open>derived_synchronize().begin()->second\<close> after one submission.\<close>

definition submit_and_wait ::
    "('r, 'd) derived_model \<Rightarrow> active_set \<Rightarrow> ('r, 'd, 'm) model_state_scheme \<Rightarrow> ('r, 'd, 'm) model_state_scheme result" where
  "submit_and_wait D rset s =
    rbind (evaluate_here True D rset s) (\<lambda>s1.
    rbind (derived_synchronize D (derived_state s1)) (\<lambda>(m, d).
      case m of [] \<Rightarrow> Inl (UndefinedBehaviour ''map end'')
      | (i, r) # _ \<Rightarrow> Inr (s1\<lparr>currentResponse := r, derived_state := d\<rparr>)))"

definition evaluate_default :: "('r, 'd) derived_model \<Rightarrow> ('r, 'd) model_letter \<Rightarrow> ('r, 'd) model_letter result" where
  "evaluate_default D s =
    (let s1 = s\<lparr>modelEvalCntr := modelEvalCntr s + 1\<rparr>;
         temp_set = request_values 1 (responseActiveSet (currentResponse s1)) in
     if derived_master_overload D (derived_state s1) then submit_and_wait D temp_set s1
     else evaluate_here False D temp_set s1)"

text \<open>The flag is \<^verbatim>\<open>asynchEvalFlag\<close>.\<close>

definition evaluate_set ::
    "bool \<Rightarrow> 'r::linordered_field model_config \<Rightarrow> ('r, 'd) derived_model \<Rightarrow> active_set \<Rightarrow> ('r, 'd) model_letter \<Rightarrow>
      ('r, 'd) model_letter result" where
  "evaluate_set asynch c D q s =
    (let s1 = s\<lparr>modelEvalCntr := modelEvalCntr s + 1\<rparr> in
     rbind (manage_asv c (currentVariables s1) q) (\<lambda>(use_est_deriv, map_asv, grad_asv, hess_asv, quasi_asv).
     if use_est_deriv then
       rbind (estimate_derivatives asynch c D map_asv grad_asv hess_asv quasi_asv q s1) (\<lambda>(n, s2).
       if asynch then
         rbind (derived_synchronize D (derived_state s2)) (\<lambda>(m, d).
         rbind (synchronize_derivatives c (currentVariables s2) (map snd m) (Some (currentResponse s2)) grad_asv hess_asv
             quasi_asv q (s2\<lparr>derived_state := d\<rparr>)) (\<lambda>(r, s3).
           Inr (s3\<lparr>currentResponse := r\<rparr>)))
       else Inr s2)
     else if derived_master_overload D (derived_state s1) then submit_and_wait D q s1
     else evaluate_here False D q s1))"

section \<open>Asynchronous evaluation\<close>

definition evaluate_nowait_default :: "('r, 'd) derived_model \<Rightarrow> ('r, 'd) model_letter \<Rightarrow> ('r, 'd) model_letter result" where
  "evaluate_nowait_default D s =
    (let s1 = s\<lparr>modelEvalCntr := modelEvalCntr s + 1\<rparr>; eval_id = modelEvalCntr s1;
         temp_set = request_values 1 (responseActiveSet (currentResponse s1)) in
     rbind (evaluate_here True D temp_set s1) (\<lambda>s2.
       Inr (s2\<lparr>rawEvalIdMap := map_assign (derived_evaluation_id D (derived_state s2)) eval_id (rawEvalIdMap s2),
         numFDEvalsMap := map_assign eval_id (- 1) (numFDEvalsMap s2)\<rparr>)))"

definition evaluate_nowait_set ::
    "'r::linordered_field model_config \<Rightarrow> ('r, 'd) derived_model \<Rightarrow> active_set \<Rightarrow> ('r, 'd) model_letter \<Rightarrow>
      ('r, 'd) model_letter result" where
  "evaluate_nowait_set c D q s =
    (let eval_id = modelEvalCntr s + 1;
         s1 = s\<lparr>modelEvalCntr := eval_id,
           rawEvalIdMap := map_assign (derived_evaluation_id D (derived_state s) + 1) eval_id (rawEvalIdMap s)\<rparr> in
     rbind (manage_asv c (currentVariables s1) q) (\<lambda>(use_est_deriv, map_asv, grad_asv, hess_asv, quasi_asv).
     if use_est_deriv then
       let s2 = s1\<lparr>estDerivsFlag := True, asvList := asvList s1 @ [grad_asv, hess_asv, quasi_asv], setList := setList s1 @ [q]\<rparr> in
       rbind (estimate_derivatives True c D map_asv grad_asv hess_asv quasi_asv q s2) (\<lambda>(n, s3).
         Inr (s3\<lparr>numFDEvalsMap := map_assign eval_id (int n) (numFDEvalsMap s3),
           varsMap := map_assign eval_id (currentVariables s3) (varsMap s3)\<rparr>))
     else
       rbind (evaluate_here True D q s1) (\<lambda>s2.
         Inr (s2\<lparr>numFDEvalsMap := map_assign eval_id (- 1) (numFDEvalsMap s2)\<rparr>))))"

section \<open>Synchronization\<close>

text \<open>The responses of one evaluation, merged: they are consecutive from its first raw id.\<close>

definition merge_one ::
    "'r::linordered_field model_config \<Rightarrow> (int \<times> 'r response) list \<Rightarrow> int \<Rightarrow> int \<Rightarrow> ('r, 'd) model_letter \<Rightarrow>
      ('r, 'd) model_letter result" where
  "merge_one c rest model_id num_fd_evals s =
    (if length rest < nat num_fd_evals then Inl (UndefinedBehaviour ''advance past end'')
     else case (map_of (varsMap s) model_id, asvList s, setList s) of
       (Some v, grad_asv # hess_asv # quasi_asv # asvs, q # qs) \<Rightarrow>
         rbind (synchronize_derivatives c v (map snd (take (nat num_fd_evals) rest)) (map_of (responseMap s) model_id)
             grad_asv hess_asv quasi_asv q (s\<lparr>asvList := asvs, setList := qs\<rparr>)) (\<lambda>(r, s1).
           Inr (s1\<lparr>responseMap := map_assign model_id r (responseMap s1), varsMap := map_erase model_id (varsMap s1)\<rparr>))
     | _ \<Rightarrow> Inl (UndefinedBehaviour ''list front''))"

text \<open>The two maps are traversed in step; an entry whose responses are not there stays in both.\<close>

fun merge_responses ::
    "'r::linordered_field model_config \<Rightarrow> (int \<times> 'r response) list \<Rightarrow> (int \<times> int) list \<Rightarrow> (int \<times> int) list \<Rightarrow>
      ('r, 'd) model_letter \<Rightarrow> ((int \<times> int) list \<times> (int \<times> int) list \<times> ('r, 'd) model_letter) result" where
  "merge_responses c raw (e # is) (fd # fds) s =
    (case dropWhile (\<lambda>x. fst x \<noteq> fst e) raw of
       [] \<Rightarrow> rbind (merge_responses c raw is fds s) (\<lambda>(is', fds', s'). Inr (e # is', fd # fds', s'))
     | (raw_id, r) # rest \<Rightarrow>
         rbind (if snd fd \<ge> 0 then merge_one c ((raw_id, r) # rest) (fst fd) (snd fd) s
           else Inr (s\<lparr>responseMap := map_assign (fst fd) r (responseMap s)\<rparr>)) (merge_responses c raw is fds))"
| "merge_responses c raw is fds s = Inr (is, fds, s)"

text \<open>Without derivative estimation a response is filed under the id of the model.\<close>

definition rekey_one :: "int \<times> 'r response \<Rightarrow> ('r, 'd) model_letter \<Rightarrow> ('r, 'd) model_letter" where
  "rekey_one e s =
    (case map_of (rawEvalIdMap s) (fst e) of
       None \<Rightarrow> s
     | Some model_id \<Rightarrow> s\<lparr>responseMap := map_assign model_id (snd e) (responseMap s),
         rawEvalIdMap := map_erase (fst e) (rawEvalIdMap s), numFDEvalsMap := map_erase model_id (numFDEvalsMap s)\<rparr>)"

definition insert_cached :: "('r, 'd) model_letter \<Rightarrow> ('r, 'd) model_letter" where
  "insert_cached s = s\<lparr>responseMap := map_insert_range (cachedModelResponses s) (responseMap s), cachedModelResponses := []\<rparr>"

definition model_synchronize ::
    "'r::linordered_field model_config \<Rightarrow> ('r, 'd) derived_model \<Rightarrow> ('r, 'd) model_letter \<Rightarrow> ('r, 'd) model_letter result" where
  "model_synchronize c D s =
    rbind (derived_synchronize D (derived_state s)) (\<lambda>(raw, d).
    let s1 = s\<lparr>responseMap := [], derived_state := d\<rparr> in
    rbind (if estDerivsFlag s1 then
        rbind (merge_responses c raw (rawEvalIdMap s1) (numFDEvalsMap s1) s1) (\<lambda>(is, fds, s2).
          Inr (s2\<lparr>rawEvalIdMap := is, numFDEvalsMap := fds, estDerivsFlag := False\<rparr>))
      else Inr (fold rekey_one raw s1)) (\<lambda>s3.
      Inr (insert_cached s3)))"

definition model_synchronize_nowait :: "('r, 'd) derived_model \<Rightarrow> ('r, 'd) model_letter \<Rightarrow> ('r, 'd) model_letter result" where
  "model_synchronize_nowait D s =
    (let s1 = s\<lparr>responseMap := []\<rparr> in
     if estDerivsFlag s1 then Inl (Abort MODEL_ERROR)
     else rbind (derived_synchronize_nowait D (derived_state s1)) (\<lambda>(raw, d).
       Inr (insert_cached (fold rekey_one raw (s1\<lparr>derived_state := d\<rparr>)))))"

definition model_cache_unmatched_response :: "int \<Rightarrow> ('r, 'd) model_letter \<Rightarrow> ('r, 'd) model_letter" where
  "model_cache_unmatched_response raw_id s =
    (case map_of (responseMap s) raw_id of
       None \<Rightarrow> s
     | Some r \<Rightarrow> s\<lparr>cachedModelResponses := map_insert_range [(raw_id, r)] (cachedModelResponses s),
         responseMap := map_erase raw_id (responseMap s)\<rparr>)"

definition model_cache_unmatched_responses :: "('r, 'd) model_letter \<Rightarrow> ('r, 'd) model_letter" where
  "model_cache_unmatched_responses s =
    s\<lparr>cachedModelResponses := map_insert_range (responseMap s) (cachedModelResponses s), responseMap := []\<rparr>"

section \<open>The split of a request is complete\<close>

lemma rfold_collect:
  assumes "rfold (\<lambda>(i, a) rs. rbind (f i a) (\<lambda>r. Inr (rs @ [r]))) (enumerate n xs) rs0 = Inr rs"
  shows "\<exists>zs. rs = rs0 @ zs \<and> length zs = length xs \<and> (\<forall>i < length xs. f (n + i) (xs ! i) = Inr (zs ! i))"
  using assms
proof (induction xs arbitrary: n rs0)
  case (Cons x xs)
  then obtain r where r: "f n x = Inr r"
    and rest: "rfold (\<lambda>(i, a) rs. rbind (f i a) (\<lambda>r. Inr (rs @ [r]))) (enumerate (Suc n) xs) (rs0 @ [r]) = Inr rs"
    by (auto simp: result_simps)
  obtain zs where zs: "rs = (rs0 @ [r]) @ zs" "length zs = length xs" "\<forall>i < length xs. f (Suc n + i) (xs ! i) = Inr (zs ! i)"
    using Cons.IH [OF rest] by blast
  have "f (n + i) ((x # xs) ! i) = Inr ((r # zs) ! i)" if "i < length (x # xs)" for i
    using that zs(3) r by (cases i) auto
  then show ?case using zs(1,2) by (intro exI [of _ "r # zs"]) simp
qed simp

lemma req_or [simp]:
  "req_val (or a 1)" "req_val (or a 2) = req_val a" "req_val (or a 4) = req_val a"
  "req_grad (or a 1) = req_grad a" "req_grad (or a 2)" "req_grad (or a 4) = req_grad a"
  "req_hess (or a 1) = req_hess a" "req_hess (or a 2) = req_hess a" "req_hess (or a 4)"
  "\<not> req_grad 1" "\<not> req_hess 1" "req_val 1" "req_grad 2" "\<not> req_val 2" "\<not> req_hess 2"
  by (simp_all add: req_bits bit_or_iff bit_simps)

lemma manage_gradient_request_cases:
  assumes "manage_gradient_request c i m0 = Inr (m, g, u)"
  shows "if analytic_gradient c i then m = or m0 2 \<and> g = 0 else g = 1 \<and> (m = m0 \<or> m = or m0 1)"
  using assms unfolding manage_gradient_request_def by (cases "analytic_gradient c i") (auto split: if_splits)

lemma manage_hessian_request_cases:
  assumes "manage_hessian_request c i m0 = Inr (m, h, q, u)"
  shows "m = or m0 4 \<and> h = 0 \<and> q = 0 \<or> (m = or m0 2 \<and> h = 2 \<or> m = or m0 1 \<and> h = 1) \<and> q = 0 \<or> m = m0 \<and> h = 0 \<and> q = 2"
  using assms unfolding manage_hessian_request_def by (simp split: if_splits)

lemma req_3 [simp]: "req_val 3" "req_grad 3" "\<not> req_hess 3"
  by (simp_all add: req_val_def req_grad_def req_hess_def)

text \<open>Each requested gradient and Hessian has exactly one source, and the simulation computes every
  requested value.\<close>

lemma manage_asv_function_sources:
  assumes "manage_asv_function c i a = Inr (m, g, h, q, u)"
  shows "(req_val a \<longrightarrow> req_val m) \<and>
    (if req_grad a then if analytic_gradient c i then req_grad m \<and> g = 0 else g = 1 else g = 0) \<and>
    (if req_hess a then req_hess m \<and> h = 0 \<and> q = 0 \<or> \<not> req_hess m \<and> (h = 1 \<or> h = 2) \<and> q = 0 \<or> \<not> req_hess m \<and> h = 0 \<and> q = 2
     else h = 0 \<and> q = 0 \<and> \<not> req_hess m)"
proof -
  let ?v = "if req_val a then 1 else 0 :: short"
  obtain m1 u1 where 1: "(if req_grad a then manage_gradient_request c i ?v else Inr (?v, 0, False)) = Inr (m1, g, u1)"
    and 2: "\<exists>u2. (if req_hess a then manage_hessian_request c i m1 else Inr (m1, 0, 0, False)) = Inr (m, h, q, u2)"
    using assms unfolding manage_asv_function_def by (auto simp: result_simps)
  have v: "req_val ?v = req_val a" "\<not> req_hess ?v" by simp_all
  have m1: "req_val a \<longrightarrow> req_val m1" "\<not> req_hess m1"
      "if req_grad a then if analytic_gradient c i then req_grad m1 \<and> g = 0 else g = 1 else g = 0"
  proof -
    have "m1 = ?v \<or> m1 = or ?v 1 \<or> m1 = or ?v 2"
      "if req_grad a then if analytic_gradient c i then m1 = or ?v 2 \<and> g = 0 else g = 1 else g = 0"
      using 1 manage_gradient_request_cases [of c i ?v m1 g u1] by (auto split: if_split_asm)
    then show "req_val a \<longrightarrow> req_val m1" "\<not> req_hess m1"
      "if req_grad a then if analytic_gradient c i then req_grad m1 \<and> g = 0 else g = 1 else g = 0"
      using v by (auto split: if_splits)
  qed
  show ?thesis
  proof (cases "req_hess a")
    case True
    then obtain u2 where "manage_hessian_request c i m1 = Inr (m, h, q, u2)" using 2 by auto
    from manage_hessian_request_cases [OF this] show ?thesis using m1 True by (elim disjE conjE) simp_all
  next
    case False
    then have "m = m1" "h = 0" "q = 0" using 2 by auto
    then show ?thesis using m1 False by simp
  qed
qed

lemma manage_asv_entries:
  assumes "manage_asv c v q = Inr (use, m, g, h, qh)" "supportsEstimDerivs c"
  obtains rs short where "length rs = length (requestVector q)" "length (requestVector q) \<le> numFns c"
    "\<And>i. i < length rs \<Longrightarrow> manage_asv_function c i (requestVector q ! i) = Inr (rs ! i)"
    "length m = numFns c" "length g = numFns c" "length h = numFns c" "length qh = numFns c"
    "use \<longleftrightarrow> (\<exists>i < length rs. snd (snd (snd (snd (rs ! i)))))"
    "\<And>i. i < length rs \<Longrightarrow> g ! i = fst (snd (rs ! i)) \<and> h ! i = fst (snd (snd (rs ! i))) \<and>
      qh ! i = fst (snd (snd (snd (rs ! i)))) \<and>
      m ! i = (if req_val (g ! i) \<and> short then or (fst (rs ! i)) 1 else fst (rs ! i))"
proof -
  let ?asv = "requestVector q"
  have len: "length ?asv \<le> numFns c" using assms by (auto simp: manage_asv_def Let_def split: if_splits)
  obtain rs where rs: "rfold (\<lambda>(i, a) rs. rbind (manage_asv_function c i a) (\<lambda>r. Inr (rs @ [r]))) (enumerate 0 ?asv) [] = Inr rs"
    using assms len by (cases "rfold (\<lambda>(i, a) rs. rbind (manage_asv_function c i a) (\<lambda>r. Inr (rs @ [r]))) (enumerate 0 ?asv) []")
      (simp_all add: manage_asv_def Let_def)
  have f: "length rs = length ?asv" "\<forall>i < length ?asv. manage_asv_function c i (?asv ! i) = Inr (rs ! i)"
    using rfold_collect [OF rs] by auto
  let ?pad = "\<lambda>xs. xs @ replicate (numFns c - length ?asv) (0 :: short)"
  let ?m = "?pad (map fst rs)" and ?g = "?pad (map (fst \<circ> snd) rs)"
  have g: "g = ?g" "h = ?pad (map (fst \<circ> snd \<circ> snd) rs)" "qh = ?pad (map (fst \<circ> snd \<circ> snd \<circ> snd) rs)"
      "use = list_ex (snd \<circ> snd \<circ> snd \<circ> snd) rs"
    and m: "\<exists>short. m = map2 (\<lambda>m g. if req_val g \<and> short then or m 1 else m) ?m ?g"
  proof -
    have nd: "(\<lambda>rs. let maps = ?pad (map fst rs); fd_grad = ?pad (map (fst \<circ> snd) rs); fd_hess = ?pad (map (fst \<circ> snd \<circ> snd) rs);
           quasi = ?pad (map (fst \<circ> snd \<circ> snd \<circ> snd) rs); use = list_ex (snd \<circ> snd \<circ> snd \<circ> snd) rs in
       if list_ex (\<lambda>g. g \<noteq> 0) fd_grad \<and> \<not> ignoreBounds c then
         rbind (any_short_step c v (derivVarsVector q)) (\<lambda>short.
           Inr (use, map2 (\<lambda>m g. if req_val g \<and> short then or m 1 else m) maps fd_grad, fd_grad, fd_hess, quasi))
       else Inr (use, maps, fd_grad, fd_hess, quasi)) rs = Inr (use, m, g, h, qh)"
      using assms len rs by (simp add: manage_asv_def Let_def)
    have e: "map2 (\<lambda>m g. if req_val g \<and> False then or m 1 else m) ?m ?g = ?m"
      by (rule nth_equalityI) (simp_all add: nth_append)
    show "g = ?g" "h = ?pad (map (fst \<circ> snd \<circ> snd) rs)" "qh = ?pad (map (fst \<circ> snd \<circ> snd \<circ> snd) rs)"
      "use = list_ex (snd \<circ> snd \<circ> snd \<circ> snd) rs"
      using nd unfolding Let_def by (auto simp: result_simps split: if_split_asm)
    show "\<exists>short. m = map2 (\<lambda>m g. if req_val g \<and> short then or m 1 else m) ?m ?g"
    proof (cases "list_ex (\<lambda>g. g \<noteq> 0) ?g \<and> \<not> ignoreBounds c")
      case True
      then show ?thesis using nd unfolding Let_def by (auto simp: result_simps simp del: map_append)
    next
      case False
      then show ?thesis using nd e unfolding Let_def by (intro exI [of _ False]) (auto simp del: map_append)
    qed
  qed
  obtain short where short: "m = map2 (\<lambda>m g. if req_val g \<and> short then or m 1 else m) ?m ?g" using m by blast
  show thesis
  proof (rule that [of rs short])
    show "use \<longleftrightarrow> (\<exists>i < length rs. snd (snd (snd (snd (rs ! i)))))" using g(4) by (simp add: list_ex_length)
    show "g ! i = fst (snd (rs ! i)) \<and> h ! i = fst (snd (snd (rs ! i))) \<and> qh ! i = fst (snd (snd (snd (rs ! i)))) \<and>
      m ! i = (if req_val (g ! i) \<and> short then or (fst (rs ! i)) 1 else fst (rs ! i))" if "i < length rs" for i
      using that f(1) len unfolding short g(1-3) by (simp add: nth_append)
  qed (use f len in \<open>simp_all add: short g\<close>)
qed

lemma manage_asv_unsupported:
  "manage_asv c v q = Inr (True, m, g, h, qh) \<Longrightarrow> supportsEstimDerivs c"
  by (auto simp: manage_asv_def Let_def split: if_splits)

lemma manage_asv_cover:
  assumes "manage_asv c v q = Inr (True, m, g, h, qh)"
  shows "sources_cover c (requestVector q) m g h qh" "length m = numFns c"
proof -
  obtain rs short where rs: "length rs = length (requestVector q)" "length (requestVector q) \<le> numFns c"
    and f: "\<And>i. i < length rs \<Longrightarrow> manage_asv_function c i (requestVector q ! i) = Inr (rs ! i)"
    and len: "length m = numFns c" "length g = numFns c" "length h = numFns c" "length qh = numFns c"
    and e: "\<And>i. i < length rs \<Longrightarrow> g ! i = fst (snd (rs ! i)) \<and> h ! i = fst (snd (snd (rs ! i))) \<and>
      qh ! i = fst (snd (snd (snd (rs ! i)))) \<and>
      m ! i = (if req_val (g ! i) \<and> short then or (fst (rs ! i)) 1 else fst (rs ! i))"
    using manage_asv_entries [OF assms manage_asv_unsupported [OF assms]] by metis
  have s: "(req_val (requestVector q ! i) \<longrightarrow> req_val (m ! i)) \<and>
      (req_grad (requestVector q ! i) \<longrightarrow> req_grad (m ! i) \<or> g ! i \<noteq> 0) \<and>
      (req_hess (requestVector q ! i) \<longrightarrow> req_hess (m ! i) \<or> h ! i \<noteq> 0 \<or> qh ! i \<noteq> 0)" if "i < length (requestVector q)" for i
  proof -
    have i: "i < length rs" using that rs by simp
    obtain m0 g0 h0 q0 u where r: "rs ! i = (m0, g0, h0, q0, u)" by (metis surj_pair)
    show ?thesis using manage_asv_function_sources [OF f [OF i, unfolded r]] e [OF i] unfolding r by (auto split: if_splits)
  qed
  have ex: "list_ex P (requestVector q) \<Longrightarrow> (\<And>i. i < length (requestVector q) \<Longrightarrow> P (requestVector q ! i) \<Longrightarrow> Q i) \<Longrightarrow>
      \<exists>i < numFns c. Q i" for P Q
    unfolding list_ex_length using rs(2) by (meson less_le_trans)
  have flag: "asv_flag xs" if "i < length xs" "xs ! i \<noteq> 0" for i and xs :: "short list"
    using that unfolding asv_flag_def list_ex_length by blast
  show "sources_cover c (requestVector q) m g h qh"
    unfolding sources_cover_def
  proof (intro conjI impI)
    assume "list_ex req_val (requestVector q)"
    from ex [OF this, of "\<lambda>i. req_val (m ! i)"] show "list_ex req_val (take (numFns c) m)" using s len by (auto simp: list_ex_length)
  next
    assume "list_ex req_grad (requestVector q)"
    from ex [OF this, of "\<lambda>i. req_grad (m ! i) \<or> g ! i \<noteq> 0"] show "list_ex req_grad (take (numFns c) m) \<or> asv_flag g"
      using s len flag [of _ g] by (auto simp: list_ex_length)
  next
    assume "list_ex req_hess (requestVector q)"
    from ex [OF this, of "\<lambda>i. req_hess (m ! i) \<or> h ! i \<noteq> 0 \<or> qh ! i \<noteq> 0"]
    show "list_ex req_hess (take (numFns c) m) \<or> asv_flag h \<or> asv_flag qh"
      using s len flag [of _ h] flag [of _ qh] by (auto simp: list_ex_length)
  qed
  show "length m = numFns c" by (rule len(1))
qed

section \<open>The evaluation flag\<close>

lemma submit_and_wait_pending:
  assumes D: "simulates D f out" and "submit_and_wait D q s = Inr s'" "nothing_pending out s"
  shows "nothing_pending out s'"
proof -
  obtain m d where "derived_synchronize D (after_submit D q (currentVariables s) (derived_state s)) = Inr (m, d)" "out d = []"
    using D unfolding simulates_def by blast
  then show ?thesis using assms(2,3)
    by (auto simp: submit_and_wait_def evaluate_here_def simulates_submit [OF D] nothing_pending_def split: list.splits)
qed

text \<open>C5: An asynchronous evaluation delivers what a synchronous one does.  For a simulation that answers a request in the
  same way whether it is evaluated or submitted, and derivative variables that are not fixed by their bounds: if the
  synchronous evaluation of a request succeeds, with its differences taken one by one, then submitting
  all of them and collecting the answers succeeds too; every kind of data that is requested is the same, as are
  the variables and the quasi-Newton history; and nothing is left pending.\<close>

theorem asynchronous_evaluation_equals_synchronous:
  assumes D: "simulates D f out" and f: "clean_responses f" and i: "intervalType c \<in> {''forward'', ''central''}"
    and room: "room_for_steps c (currentVariables s) q"
    and fits: "response_fits (length (requestVector q)) (currentResponse s)" and pending: "nothing_pending out s"
    and S: "evaluate_set False c D q s = Inr s'"
  shows "\<exists>t. evaluate_set True c D q s = Inr t \<and>
    (currentResponse t = currentResponse s' \<or> same_answers q (currentResponse t) (currentResponse s')) \<and>
    currentVariables t = currentVariables s' \<and> with_quasi s' t = t \<and> nothing_pending out t"
proof -
  let ?s1 = "s\<lparr>modelEvalCntr := modelEvalCntr s + 1\<rparr>"
  obtain u m g h qh where man: "manage_asv c (currentVariables ?s1) q = Inr (u, m, g, h, qh)"
    using S unfolding evaluate_set_def Let_def by (auto elim: rbind_cases)
  have p1: "nothing_pending out ?s1" using pending by (simp add: nothing_pending_def)
  show ?thesis
  proof (cases u)
    case True
    note man' = man [unfolded eqTrueI [OF True]]
    obtain n where E: "estimate_derivatives False c D m g h qh q ?s1 = Inr (n, s')"
      using S man' by (auto simp: evaluate_set_def Let_def result_simps)
    have "room_for_steps c (currentVariables ?s1) q" "response_fits (length (requestVector q)) (currentResponse ?s1)"
      using room fits by simp_all
    from estimation_matches [OF D f i this(1) manage_asv_cover(2,1) [OF man'] this(2) p1 E]
    obtain sa mm d r t where
      A: "estimate_derivatives True c D m g h qh q ?s1 = Inr (n, sa)" "derived_synchronize D (derived_state sa) = Inr (mm, d)"
        "synchronize_derivatives c (currentVariables sa) (map snd mm) (Some (currentResponse sa)) g h qh q
          (sa\<lparr>derived_state := d\<rparr>) = Inr (r, t)"
      and R: "same_answers q r (currentResponse s')" "currentVariables t = currentVariables s'" "with_quasi s' t = t"
        "nothing_pending out t"
      by blast
    have "evaluate_set True c D q s = Inr (t\<lparr>currentResponse := r\<rparr>)"
      using man' A by (simp add: evaluate_set_def Let_def)
    moreover have "with_quasi s' (t\<lparr>currentResponse := r\<rparr>) = t\<lparr>currentResponse := r\<rparr>"
    proof -
      have "with_quasi s' (t\<lparr>currentResponse := r\<rparr>) = (with_quasi s' t)\<lparr>currentResponse := r\<rparr>" by (simp add: with_quasi_def)
      then show ?thesis using R(3) by simp
    qed
    ultimately show ?thesis using R by (intro exI [of _ "t\<lparr>currentResponse := r\<rparr>"]) (simp add: nothing_pending_def)
  next
    case False
    have same: "evaluate_set True c D q s = Inr s'" using S man False by (simp add: evaluate_set_def Let_def)
    have "nothing_pending out s'"
    proof (cases "derived_master_overload D (derived_state ?s1)")
      case True
      then have "submit_and_wait D q ?s1 = Inr s'" using S man False by (simp add: evaluate_set_def Let_def)
      then show ?thesis using p1 by (rule submit_and_wait_pending [OF D])
    next
      case no_overload: False
      then have "evaluate_here False D q ?s1 = Inr s'" using S man False by (simp add: evaluate_set_def Let_def)
      then show ?thesis
        using p1 by (auto simp: evaluate_here_def simulates_evaluate [OF D] nothing_pending_def simulates_evaluate_outstanding [OF D])
    qed
    then show ?thesis using same by auto
  qed
qed

end
