(* ===== verification/Estimation_Accuracy.thy ===== *)
theory Estimation_Accuracy
  imports Model_Evaluation
begin

text \<open>
  Accuracy of the difference formulas and of the estimated gradients: they are exact for functions that are
  quadratic along the differenced variables, whichever steps the bounds leave.
\<close>

section \<open>Formulas\<close>

text \<open>The values of function \<open>i\<close> at displacement \<open>t\<close> of one variable.\<close>

definition quadratic_at :: "(nat \<Rightarrow> 'r::linordered_field) \<Rightarrow> (nat \<Rightarrow> 'r) \<Rightarrow> (nat \<Rightarrow> 'r) \<Rightarrow> 'r \<Rightarrow> nat \<Rightarrow> 'r" where
  "quadratic_at a b c t i = a i + b i * t + c i * (t * t)"

lemma grad_row_cong: "(\<And>i. i < length (m_cols m) \<Longrightarrow> f i = g i) \<Longrightarrow> grad_row j p f m = grad_row j p g m"
  unfolding grad_row_def by (intro arg_cong [where f = "\<lambda>xs. m\<lparr>m_cols := xs\<rparr>"] map_index_cong) simp

lemma hess_entry_cong: "(\<And>i. i < length hs \<Longrightarrow> f i = g i) \<Longrightarrow> hess_entry j k p f hs = hess_entry j k p g hs"
  unfolding hess_entry_def by (intro map_index_cong) simp

lemma forward_difference_linear:
  assumes "h \<noteq> 0" "\<And>i. i < length (m_cols m) \<Longrightarrow> v1 ! i = v0 ! i + b i * h"
  shows "forward_difference asv h v0 v1 j m = Inr (grad_row j (\<lambda>i. asv ! i \<noteq> 0) b m)"
  using assms by (auto simp: forward_difference_def checked_div_def intro!: grad_row_cong)

lemma short_central_formula:
  fixes h :: "'r::linordered_field"
  assumes "h \<noteq> 0" "h2 \<noteq> 0" "h2 \<noteq> h"
  shows "(h2 * h2 * (b * h + c * (h * h)) - h * h * (b * h2 + c * (h2 * h2))) / (h * h2 * (h2 - h)) = b"
  using assms by (simp add: field_simps)

lemma central_difference_quadratic:
  assumes h: "h \<noteq> 0" "h2 \<noteq> 0" "h2 \<noteq> h" "\<not> short \<longrightarrow> h2 = - h"
    and v: "\<And>i. i < length (m_cols m) \<Longrightarrow> v1 ! i = quadratic_at a b c h i"
      "\<And>i. i < length (m_cols m) \<Longrightarrow> v2 ! i = quadratic_at a b c h2 i"
      "\<And>i. short \<Longrightarrow> i < length (m_cols m) \<Longrightarrow> v0 ! i = a i"
  shows "central_difference short h h2 v0 v1 v2 j m = Inr (grad_row j (\<lambda>_. True) b m)"
proof (cases short)
  case True
  have "grad_row j (\<lambda>_. True) (\<lambda>i. (h2 * h2 * (v1 ! i - v0 ! i) - h * h * (v2 ! i - v0 ! i)) / (h * h2 * (h2 - h))) m =
      grad_row j (\<lambda>_. True) b m"
    by (rule grad_row_cong) (simp add: v True quadratic_at_def short_central_formula [OF h(1-3)])
  then show ?thesis using h True by (simp add: central_difference_def Let_def checked_div_def)
next
  case False
  then have h2: "h2 = - h" using h(4) by simp
  have "grad_row j (\<lambda>_. True) (\<lambda>i. (v1 ! i - v2 ! i) / (h - h2)) m = grad_row j (\<lambda>_. True) b m"
    by (rule grad_row_cong) (use h(1) in \<open>simp add: v h2 quadratic_at_def field_simps\<close>)
  then show ?thesis using h False by (simp add: central_difference_def Let_def checked_div_def h2)
qed

text \<open>Second differences along one variable, and mixed ones.\<close>

lemma two_step_diagonal_quadratic:
  assumes h: "h1 \<noteq> 0" "h2 \<noteq> 0" "h2 \<noteq> h1"
    and v: "\<And>i. i < length hs \<Longrightarrow> v1 ! i = quadratic_at a b c h1 i" "\<And>i. i < length hs \<Longrightarrow> v2 ! i = quadratic_at a b c h2 i"
      "\<And>i. i < length hs \<Longrightarrow> v0 ! i = a i"
  shows "two_step_diagonal asv h1 h2 v0 v1 v2 j hs = Inr (hess_entry j j (\<lambda>i. req_val (asv ! i)) (\<lambda>i. 2 * c i) hs)"
proof (cases "h1 + h2 = 0")
  case True
  then have h2: "h2 = - h1" by (simp add: eq_neg_iff_add_eq_0 add.commute)
  have "hess_entry j j (\<lambda>i. req_val (asv ! i)) (\<lambda>i. (v1 ! i - 2 * v0 ! i + v2 ! i) / (h1 * h1)) hs =
      hess_entry j j (\<lambda>i. req_val (asv ! i)) (\<lambda>i. 2 * c i) hs"
    by (rule hess_entry_cong) (use h(1) in \<open>simp add: v h2 quadratic_at_def field_simps\<close>)
  then show ?thesis using h True by (simp add: two_step_diagonal_def Let_def checked_div_def)
next
  case False
  have "hess_entry j j (\<lambda>i. req_val (asv ! i)) (\<lambda>i. (h2 * v1 ! i + (h1 - h2) * v0 ! i - h1 * v2 ! i) / (1 / 2 * h1 * h2 * (h1 - h2))) hs =
      hess_entry j j (\<lambda>i. req_val (asv ! i)) (\<lambda>i. 2 * c i) hs"
  proof (rule hess_entry_cong)
    fix i assume i: "i < length hs"
    have n: "h2 * v1 ! i + (h1 - h2) * v0 ! i - h1 * v2 ! i = c i * h1 * h2 * (h1 - h2)"
      using i by (simp add: v quadratic_at_def algebra_simps)
    show "(h2 * v1 ! i + (h1 - h2) * v0 ! i - h1 * v2 ! i) / (1 / 2 * h1 * h2 * (h1 - h2)) = 2 * c i"
    proof -
      define y where "y = h1 * h2 * (h1 - h2)"
      have e: "c i * h1 * h2 * (h1 - h2) = c i * y" "1 / 2 * h1 * h2 * (h1 - h2) = 1 / 2 * y"
        by (simp_all add: y_def mult.assoc)
      have "y \<noteq> 0" using h by (simp add: y_def)
      then show ?thesis unfolding n e by simp
    qed
  qed
  then show ?thesis using h False by (simp add: two_step_diagonal_def Let_def checked_div_def)
qed

lemma two_step_off_diagonal_bilinear:
  assumes h: "h1 \<noteq> 0" "h2 \<noteq> 0"
    and v: "\<And>i. i < length hs \<Longrightarrow> v12 ! i = v1 ! i + f2 ! i - v0 ! i + d i * h1 * h2"
  shows "two_step_off_diagonal h1 h2 v0 v1 f2 v12 j k hs = Inr (hess_entry j k (\<lambda>_. True) d hs)"
proof -
  have "hess_entry j k (\<lambda>_. True) (\<lambda>i. (v12 ! i - v1 ! i - f2 ! i + v0 ! i) / (h1 * h2)) hs = hess_entry j k (\<lambda>_. True) d hs"
    by (rule hess_entry_cong) (use h in \<open>simp add: v\<close>)
  then show ?thesis using h by (simp add: two_step_off_diagonal_def Let_def checked_div_def)
qed

section \<open>Views\<close>

definition view_ok :: "'r model_config \<Rightarrow> deriv_view \<Rightarrow> nat \<Rightarrow> 'r variables \<Rightarrow> bool" where
  "view_ok c vw n v \<longleftrightarrow> snd (view_range c v vw) = n \<and> fst (view_range c v vw) + n \<le> length (allContinuousVars v)"

lemma put_view_range: "view_range c (put_view c vw' x v) vw = view_range c v vw"
  by (cases vw) (simp_all add: view_range_def put_view_def Let_def)

lemma put_view_ok: "view_ok c vw n v \<Longrightarrow> view_ok c vw n (put_view c vw' x v)"
  by (simp add: view_ok_def put_view_range) (simp add: put_view_def Let_def)

lemma view_slice_put:
  assumes "view_ok c vw n v" "length x = n"
  shows "view_slice c (put_view c vw x v) vw (allContinuousVars (put_view c vw x v)) = x"
proof -
  obtain start where r: "view_range c v vw = (start, n)" "start + n \<le> length (allContinuousVars v)"
    using assms(1) by (cases "view_range c v vw") (simp add: view_ok_def)
  show ?thesis
    unfolding view_slice_def put_view_range r prod.case slice_def
    by (rule nth_equalityI) (use r assms(2) in \<open>simp_all add: put_view_def Let_def\<close>)
qed

lemma length_view_slice: "view_ok c vw n v \<Longrightarrow> length (view_slice c v vw (allContinuousVars v)) = n"
  by (cases "view_range c v vw") (simp add: view_ok_def view_slice_def slice_def)

lemma initialize_x0: "initialize_x0_bounds c v dvv = Inr (vw, x0, bs, ids) \<Longrightarrow> x0 = view_slice c v vw (allContinuousVars v)"
  unfolding initialize_x0_bounds_def Let_def by (auto simp: result_simps split: if_splits)

section \<open>Estimated gradients\<close>

text \<open>What the simulation computes: function \<open>i\<close> is \<open>Q i\<close> of the derivative variables, and along every
  variable a quadratic with slope \<open>G i\<close> at the centre.\<close>

definition computes :: "'r model_config \<Rightarrow> deriv_view \<Rightarrow> (nat \<Rightarrow> 'r list \<Rightarrow> 'r) \<Rightarrow> (active_set \<Rightarrow> 'r variables \<Rightarrow> 'r response) \<Rightarrow> bool" where
  "computes c vw Q f \<longleftrightarrow> (\<forall>q v. response_fits (length (requestVector q)) (f q v) \<and>
    (\<forall>i < length (requestVector q). req_val (requestVector q ! i) \<longrightarrow>
      functionValues (f q v) ! i = Q i (view_slice c v vw (allContinuousVars v))))"

definition quadratic_along :: "(nat \<Rightarrow> 'r::linordered_field list \<Rightarrow> 'r) \<Rightarrow> (nat \<Rightarrow> nat \<Rightarrow> 'r) \<Rightarrow> (nat \<Rightarrow> nat \<Rightarrow> 'r) \<Rightarrow> 'r list \<Rightarrow> bool" where
  "quadratic_along Q G C x \<longleftrightarrow> (\<forall>i j t. j < length x \<longrightarrow>
    Q i (x[j := x ! j + t]) = quadratic_at (\<lambda>i. Q i x) (\<lambda>i. G i j) (\<lambda>i. C i j) t i)"

text \<open>A variable that can be stepped.\<close>

definition can_step :: "'r::linordered_field model_config \<Rightarrow> nat \<Rightarrow> 'r list \<Rightarrow> nat \<Rightarrow> 'r option \<times> 'r option \<Rightarrow> bool" where
  "can_step c n x0 xj b \<longleftrightarrow> xj < length x0 \<and> proper_bounds (fst b) (snd b) \<and>
    (case select_step (fdGradStepSize c) n xj of Inl e \<Rightarrow> False
     | Inr sz \<Rightarrow> (case initialize_h c (x0 ! xj) (fst b) (snd b) sz (fdGradStepType c) of Inl e \<Rightarrow> False | Inr h \<Rightarrow> 0 < h))"

lemma can_stepE:
  assumes "can_step c n x0 xj (lb, ub)"
  obtains h short where "forward_grad_step c n xj (x0 ! xj) lb ub = Inr (h, short)" "h \<noteq> 0" "\<not> fixed_bounds (lb, ub)"
proof -
  obtain sz hm where s: "select_step (fdGradStepSize c) n xj = Inr sz"
    and h: "initialize_h c (x0 ! xj) lb ub sz (fdGradStepType c) = Inr hm" "0 < hm" and p: "proper_bounds lb ub"
    using assms by (auto simp: can_step_def split: sum.splits)
  obtain h' short where st: "FDstep1 c (x0 ! xj) lb ub hm = (h', short)" by (cases "FDstep1 c (x0 ! xj) lb ub hm")
  have "h' \<noteq> 0" using FDstep1_nonzero [OF h(2) p st] .
  moreover have "\<not> fixed_bounds (lb, ub)" using p by (auto simp: fixed_bounds_def proper_bounds_def split: option.splits)
  ultimately show thesis using that [of h' short] s h st by (simp add: forward_grad_step_def)
qed

lemma fn_values_computed:
  assumes "computes c vw Q f" "length (requestVector q) = numFns c"
  shows "fn_values c (f q v) = Inr (functionValues (f q v))" "length (functionValues (f q v)) = numFns c"
  using assms by (auto simp: computes_def response_fits_def fn_values_def)

lemma fd_gradient_exact:
  assumes D: "simulates D f out" and f: "computes c (fd_view k) Q f" and quad: "quadratic_along Q G C (fd_x0 k)"
    and c: "intervalType c = ''central''"
    and asv: "length (fd_grad_asv k) = numFns c" "\<And>i. i < numFns c \<Longrightarrow> req_val (fd_grad_asv k ! i)"
    and b: "fd_bound_pairs k ! j = (lb, ub)" and step: "can_step c (num_deriv_vars k) (fd_x0 k) xj (lb, ub)"
    and view: "view_ok c (fd_view k) (length (fd_x0 k)) (currentVariables s)"
    and r0: "length (functionValues (initial_map_response k)) = numFns c"
      "\<And>i. i < numFns c \<Longrightarrow> functionValues (initial_map_response k) ! i = Q i (fd_x0 k)"
    and m: "length (m_cols (new_fn_grads w)) = numFns c"
  obtains s' where "fd_gradient False c D k j xj (w, s) =
      Inr (w\<lparr>map_counter := Suc (Suc (map_counter w)), new_fn_grads := grad_row j (\<lambda>_. True) (\<lambda>i. G i xj) (new_fn_grads w)\<rparr>, s')"
    "view_ok c (fd_view k) (length (fd_x0 k)) (currentVariables s')"
    "\<exists>q v. currentResponse s' = f q v \<and> length (requestVector q) = numFns c"
proof -
  let ?x0 = "fd_x0 k" and ?q = "set_request_vector (fd_grad_asv k) (fd_set k)" and ?vw = "fd_view k"
  have xj: "xj < length ?x0" using step by (simp add: can_step_def)
  obtain h short where st: "forward_grad_step c (num_deriv_vars k) xj (?x0 ! xj) lb ub = Inr (h, short)" and h: "h \<noteq> 0"
    using can_stepE [OF step] by metis
  obtain h2 short2 where st2: "FDstep2 c (?x0 ! xj) lb ub h short = (h2, short2)"
    by (cases "FDstep2 c (?x0 ! xj) lb ub h short")
  note d = FDstep2_distinct [OF h st2]
  let ?v1 = "put_view c ?vw (?x0[xj := ?x0 ! xj + h]) (currentVariables s)"
  let ?v2 = "put_view c ?vw (?x0[xj := ?x0 ! xj + h2]) ?v1"
  have q: "length (requestVector ?q) = numFns c" "requestVector ?q = fd_grad_asv k" using asv(1) by (simp_all add: set_request_vector_def)
  have v1: "view_ok c ?vw (length ?x0) ?v1" and v2: "view_ok c ?vw (length ?x0) ?v2" using view by (simp_all add: put_view_ok)
  have val: "functionValues (f ?q (put_view c ?vw (?x0[xj := ?x0 ! xj + t]) v)) ! i = quadratic_at (\<lambda>i. Q i ?x0) (\<lambda>i. G i xj) (\<lambda>i. C i xj) t i"
    if "i < numFns c" "view_ok c ?vw (length ?x0) v" for t v i
  proof -
    have "functionValues (f ?q (put_view c ?vw (?x0[xj := ?x0 ! xj + t]) v)) ! i = Q i (?x0[xj := ?x0 ! xj + t])"
      using f asv(2) q that view_slice_put [OF that(2), of "?x0[xj := ?x0 ! xj + t]"] by (simp add: computes_def)
    then show ?thesis using quad xj by (simp add: quadratic_along_def)
  qed
  have cd: "central_difference short2 h h2 (functionValues (initial_map_response k)) (functionValues (f ?q ?v1))
      (functionValues (f ?q ?v2)) j (new_fn_grads w) = Inr (grad_row j (\<lambda>_. True) (\<lambda>i. G i xj) (new_fn_grads w))"
    using h d val [OF _ view] val [OF _ v1] r0 m by (intro central_difference_quadratic) auto
  have r0v: "fn_values c (initial_map_response k) = Inr (functionValues (initial_map_response k))" using r0 by (simp add: fn_values_def)
  show thesis
  proof (rule that)
    show "fd_gradient False c D k j xj (w, s) =
      Inr (w\<lparr>map_counter := Suc (Suc (map_counter w)), new_fn_grads := grad_row j (\<lambda>_. True) (\<lambda>i. G i xj) (new_fn_grads w)\<rparr>,
        s\<lparr>currentVariables := ?v2, currentResponse := f ?q ?v2,
          derived_state := after_evaluate D ?q ?v2 (after_evaluate D ?q ?v1 (derived_state s))\<rparr>)"
      using c cd by (simp add: fd_gradient_def Let_def b st st2 sync_defs fd_evaluate_sync [OF D] fn_values_computed [OF f q(1)] r0v)
  qed (use v2 q(1) in auto)
qed

text \<open>The position of a derivative variable in the view.\<close>

definition position :: "'r fd_context \<Rightarrow> nat \<Rightarrow> nat" where
  "position k j = the (find_index (fd_ids k) (derivVarsVector (fd_set k) ! j))"

definition all_can_step :: "'r::linordered_field model_config \<Rightarrow> 'r fd_context \<Rightarrow> bool" where
  "all_can_step c k \<longleftrightarrow> (\<forall>j < num_deriv_vars k. find_index (fd_ids k) (derivVarsVector (fd_set k) ! j) \<noteq> None \<and>
    can_step c (num_deriv_vars k) (fd_x0 k) (position k j) (fd_bound_pairs k ! j))"

text \<open>The columns of the gradient matrix after \<open>j\<close> variables.\<close>

definition gradient_columns :: "(nat \<Rightarrow> nat \<Rightarrow> 'r::zero) \<Rightarrow> 'r fd_context \<Rightarrow> nat \<Rightarrow> nat \<Rightarrow> 'r list list" where
  "gradient_columns G k n j = map (\<lambda>i. map (\<lambda>l. G i (position k l)) [0..<j] @ replicate (num_deriv_vars k - j) 0) [0..<n]"

lemma gradient_columns_step:
  assumes "j < num_deriv_vars k" "m_cols m = gradient_columns G k n j"
  shows "m_cols (grad_row j (\<lambda>_. True) (\<lambda>i. G i (position k j)) m) = gradient_columns G k n (Suc j)"
proof (rule nth_equalityI)
  fix i assume "i < length (m_cols (grad_row j (\<lambda>_. True) (\<lambda>i. G i (position k j)) m))"
  then have i: "i < n" using assms(2) by (simp add: grad_row_def gradient_columns_def)
  have "num_deriv_vars k - j = Suc (num_deriv_vars k - Suc j)" using assms(1) by simp
  then show "m_cols (grad_row j (\<lambda>_. True) (\<lambda>i. G i (position k j)) m) ! i = gradient_columns G k n (Suc j) ! i"
    using i assms by (simp add: grad_row_def gradient_columns_def list_update_append)
qed (use assms in \<open>simp add: grad_row_def gradient_columns_def\<close>)

lemma gradient_loop_exact:
  assumes D: "simulates D f out" and f: "computes c (fd_view k) Q f" and quad: "quadratic_along Q G C (fd_x0 k)"
    and c: "intervalType c = ''central''"
    and asv: "length (fd_grad_asv k) = numFns c" "\<And>i. i < numFns c \<Longrightarrow> req_val (fd_grad_asv k ! i)" "0 < numFns c"
      "\<not> list_ex req_val (fd_hess_asv k)" "\<not> list_ex req_grad (fd_hess_asv k)"
    and step: "all_can_step c k"
    and view: "view_ok c (fd_view k) (length (fd_x0 k)) (currentVariables s)"
    and r0: "length (functionValues (initial_map_response k)) = numFns c"
      "\<And>i. i < numFns c \<Longrightarrow> functionValues (initial_map_response k) ! i = Q i (fd_x0 k)"
    and cr: "\<exists>q v. currentResponse s = f q v \<and> length (requestVector q) = numFns c"
  shows "\<exists>w' s'. rfold (fd_variable False c D k) [0..<num_deriv_vars k]
      (initial_work c (num_deriv_vars k) (fd_hess_asv k), s) = Inr (w', s') \<and>
    m_rows (new_fn_grads w') = num_deriv_vars k \<and>
    m_cols (new_fn_grads w') = gradient_columns G k (numFns c) (num_deriv_vars k) \<and>
    view_ok c (fd_view k) (length (fd_x0 k)) (currentVariables s') \<and>
    (\<exists>q v. currentResponse s' = f q v \<and> length (requestVector q) = numFns c)"
proof -
  let ?n = "num_deriv_vars k"
  define P where "P = (\<lambda>j (ws :: 'a fd_work \<times> ('a, 'b, 'c) model_state_scheme). m_rows (new_fn_grads (fst ws)) = ?n \<and>
    m_cols (new_fn_grads (fst ws)) = gradient_columns G k (numFns c) j \<and>
    view_ok c (fd_view k) (length (fd_x0 k)) (currentVariables (snd ws)) \<and>
    (\<exists>q v. currentResponse (snd ws) = f q v \<and> length (requestVector q) = numFns c))"
  have flag: "asv_flag (fd_grad_asv k)"
    using asv(1) asv(2) [OF asv(3)] asv(3) req_nonzero(1) unfolding asv_flag_def list_ex_length by metis
  have "\<exists>t. rfold (fd_variable False c D k) [0..<?n] (initial_work c ?n (fd_hess_asv k), s) = Inr t \<and> P ?n t"
  proof (rule rfold_upt)
    have "mat_zero ?n (numFns c) = \<lparr>m_rows = ?n, m_cols = gradient_columns G k (numFns c) 0\<rparr>"
      by (simp add: mat_zero_def gradient_columns_def map_replicate_trivial)
    then show "P 0 (initial_work c ?n (fd_hess_asv k), s)" using view cr by (simp add: P_def initial_work_def)
  next
    fix j u assume j: "j < ?n" and p: "P j u"
    obtain w s1 where u: "u = (w, s1)" by (cases u)
    obtain lb ub where b: "fd_bound_pairs k ! j = (lb, ub)" by (cases "fd_bound_pairs k ! j")
    have st: "can_step c ?n (fd_x0 k) (position k j) (lb, ub)"
      and pos: "find_index (fd_ids k) (derivVarsVector (fd_set k) ! j) = Some (position k j)"
      using step j b by (auto simp: all_can_step_def position_def)
    have nf: "\<not> fixed_bounds (lb, ub)" using can_stepE [OF st] by metis
    have x: "\<not> length (fd_x0 k) \<le> position k j" using st by (simp add: can_step_def)
    have m: "length (m_cols (new_fn_grads w)) = numFns c" "view_ok c (fd_view k) (length (fd_x0 k)) (currentVariables s1)"
      using p u by (simp_all add: P_def gradient_columns_def)
    obtain s2 where g: "fd_gradient False c D k j (position k j) (w, s1) = Inr (w\<lparr>map_counter := Suc (Suc (map_counter w)),
          new_fn_grads := grad_row j (\<lambda>_. True) (\<lambda>i. G i (position k j)) (new_fn_grads w)\<rparr>, s2)"
      and v: "view_ok c (fd_view k) (length (fd_x0 k)) (currentVariables s2)"
        "\<exists>q v. currentResponse s2 = f q v \<and> length (requestVector q) = numFns c"
      using fd_gradient_exact [OF D f quad c asv(1,2) b st m(2) r0 m(1)] by metis
    have "fd_variable False c D k j u = Inr (w\<lparr>map_counter := Suc (Suc (map_counter w)),
        new_fn_grads := grad_row j (\<lambda>_. True) (\<lambda>i. G i (position k j)) (new_fn_grads w)\<rparr>, s2)"
      using flag pos x nf asv(4,5) g by (simp add: fd_variable_def u b)
    moreover have "P (Suc j) (w\<lparr>map_counter := Suc (Suc (map_counter w)),
        new_fn_grads := grad_row j (\<lambda>_. True) (\<lambda>i. G i (position k j)) (new_fn_grads w)\<rparr>, s2)"
      using p u v gradient_columns_step [OF j, of "new_fn_grads w" G "numFns c"] by (simp add: P_def) (simp add: grad_row_def)
    ultimately show "\<exists>v. fd_variable False c D k j u = Inr v \<and> P (Suc j) v" by blast
  qed
  then show ?thesis unfolding P_def by force
qed

section \<open>Exact gradients\<close>

text \<open>The request of values and gradients, with numerical gradients and without quasi-Newton Hessians.\<close>

definition numerical_gradients :: "'r model_config \<Rightarrow> active_set \<Rightarrow> bool" where
  "numerical_gradients c q \<longleftrightarrow> requestVector q = replicate (numFns c) 3 \<and> 0 < numFns c \<and> intervalType c = ''central'' \<and>
    gradient_type c = ''numerical'' \<and> hessian_type c \<notin> {''quasi'', ''mixed''}"

lemma manage_asv_numerical:
  assumes man: "manage_asv c v q = Inr (True, m, g, h, qh)" and n: "numerical_gradients c q"
  shows "m = replicate (numFns c) 1" "g = replicate (numFns c) 1" "h = replicate (numFns c) 0" "qh = replicate (numFns c) 0"
proof -
  obtain rs short where rs: "length rs = length (requestVector q)"
    and f: "\<And>i. i < length rs \<Longrightarrow> manage_asv_function c i (requestVector q ! i) = Inr (rs ! i)"
    and len: "length m = numFns c" "length g = numFns c" "length h = numFns c" "length qh = numFns c"
    and e: "\<And>i. i < length rs \<Longrightarrow> g ! i = fst (snd (rs ! i)) \<and> h ! i = fst (snd (snd (rs ! i))) \<and>
      qh ! i = fst (snd (snd (snd (rs ! i)))) \<and>
      m ! i = (if req_val (g ! i) \<and> short then or (fst (rs ! i)) 1 else fst (rs ! i))"
    using manage_asv_entries [OF man manage_asv_unsupported [OF man]] by metis
  have "m ! i = 1 \<and> g ! i = 1 \<and> h ! i = 0 \<and> qh ! i = 0" if "i < numFns c" for i
  proof -
    have i: "i < length rs" using that rs n by (simp add: numerical_gradients_def)
    have "\<exists>u. (1, 1, 0, 0, u) = rs ! i"
      using f [OF i] n that
      by (auto simp: numerical_gradients_def manage_asv_function_def manage_gradient_request_def analytic_gradient_def
        quasi_hessian_def split: if_splits)
    then obtain u where "rs ! i = (1, 1, 0, 0, u)" by metis
    then show ?thesis using e [OF i] by simp
  qed
  then show "m = replicate (numFns c) 1" "g = replicate (numFns c) 1" "h = replicate (numFns c) 0" "qh = replicate (numFns c) 0"
    using len by (auto intro!: nth_equalityI)
qed

lemma asv_flag_replicate [simp]: "asv_flag (replicate n a) \<longleftrightarrow> 0 < n \<and> a \<noteq> 0"
  by (auto simp: asv_flag_def list_ex_length)

lemma list_ex_replicate [simp]: "list_ex P (replicate n a) \<longleftrightarrow> 0 < n \<and> P a"
  by (auto simp: list_ex_length)

text \<open>Assembly: the values of the initial map, and the differenced gradients in all columns.\<close>

lemma update_response_numerical:
  assumes n: "numerical_gradients c q" and r0: "resp_asv r0 = replicate (numFns c) 1" "length (functionValues r0) = numFns c"
    and g: "m_rows ng = n" "length (m_cols ng) = numFns c" and b: "response_fits (numFns c) b"
  shows "\<exists>r. update_response c v (Some b) (replicate (numFns c) 1) (replicate (numFns c) 0) (replicate (numFns c) 0) q r0 ng nh s =
    Inr (r, s) \<and> functionValues r = functionValues r0 \<and> m_cols (functionGradients r) = m_cols ng"
proof -
  let ?N = "numFns c"
  have N: "0 < ?N" using n by (simp add: numerical_gradients_def)
  have mg: "merge_gradients c (replicate ?N 1) ng (mat_zero (m_rows ng) (length (m_cols ng))) =
      Inr (mat_zero (m_rows ng) ?N\<lparr>m_cols := m_cols ng\<rparr>)"
    using g by (simp add: merge_gradients_def mat_zero_def) (rule nth_equalityI; simp)
  have wg: "written_gradients c (replicate ?N 1) r0 ng = Inr (Some (mat_zero (m_rows ng) ?N\<lparr>m_cols := m_cols ng\<rparr>))"
    using mg N r0 by (simp add: written_gradients_def Let_def)
  have wh: "written_hessians c (replicate ?N 0) (replicate ?N 0) r0 nh z = Inr None" for z
    using N r0 by (simp add: written_hessians_def Let_def)
  have uq: "\<not> updates_quasi_hessians c q w" for w using n by (simp add: updates_quasi_hessians_def numerical_gradients_def)
  let ?b = "b\<lparr>functionValues := functionValues r0, functionGradients := mat_zero (m_rows ng) ?N\<lparr>m_cols := m_cols ng\<rparr>,
    responseActiveSet := set_request_vector (requestVector q) (responseActiveSet b)\<rparr>"
  have asv: "resp_asv ?b = replicate ?N 3" using n by (simp add: resp_asv_def set_request_vector_def numerical_gradients_def)
  have ok: "is_ok (reset_inactive ?b)" unfolding reset_inactive_ok asv using g b r0 by (simp add: response_fits_def)
  then obtain r where r: "reset_inactive ?b = Inr r" by (cases "reset_inactive ?b") auto
  have keep: "functionValues r = functionValues r0" "m_cols (functionGradients r) = m_cols ng"
    using r asv g r0 unfolding reset_inactive_def Let_def
    by (auto split: if_splits intro!: map_index_id)
  have "update_response c v (Some b) (replicate ?N 1) (replicate ?N 0) (replicate ?N 0) q r0 ng nh s = Inr (r, s)"
    using N r0 wg wh uq r b n
    by (simp add: update_response_def Let_def active_set_request_vector_def response_fits_def numerical_gradients_def resp_asv_def)
  then show ?thesis using keep by blast
qed

definition steps_possible ::
    "'r::linordered_field model_config \<Rightarrow> 'r list \<Rightarrow> ('r option \<times> 'r option) list \<Rightarrow> nat list \<Rightarrow> nat list \<Rightarrow> bool" where
  "steps_possible c x0 bs ids dvv \<longleftrightarrow> (\<forall>j < length dvv. find_index ids (dvv ! j) \<noteq> None \<and>
    can_step c (length dvv) x0 (the (find_index ids (dvv ! j))) (bs ! j))"

text \<open>C6: Central differences are exact for functions that are quadratic along each derivative variable, also at and near
  bounds.  A request of values and gradients is answered by the values at the centre and by the true partial
  derivatives, one column per derivative variable, whatever steps the bounds leave.\<close>

theorem central_gradients_exact:
  assumes D: "simulates D f out" and f: "clean_responses f" "computes c vw Q f" and quad: "quadratic_along Q G C x0"
    and n: "numerical_gradients c q" and man: "manage_asv c (currentVariables s) q = Inr (True, m, g, h, qh)"
    and b: "initialize_x0_bounds c (currentVariables s) (derivVarsVector q) = Inr (vw, x0, bs, ids)"
    and view: "view_ok c vw (length x0) (currentVariables s)"
    and steps: "steps_possible c x0 bs ids (derivVarsVector q)"
  shows "\<exists>s'. evaluate_set False c D q s = Inr s' \<and>
    functionValues (currentResponse s') = map (\<lambda>i. Q i x0) [0..<numFns c] \<and>
    m_cols (functionGradients (currentResponse s')) =
      map (\<lambda>i. map (\<lambda>d. G i (the (find_index ids d))) (derivVarsVector q)) [0..<numFns c]"
proof -
  let ?N = "numFns c" and ?dvv = "derivVarsVector q" and ?s1 = "s\<lparr>modelEvalCntr := modelEvalCntr s + 1\<rparr>"
  let ?q0 = "set_request_vector (replicate ?N 1) q" and ?cv = "currentVariables s"
  note mg = manage_asv_numerical [OF man n]
  have N: "0 < ?N" and asv: "requestVector q = replicate ?N 3" and ct: "intervalType c = ''central''"
    using n by (simp_all add: numerical_gradients_def)
  have q0: "requestVector ?q0 = replicate ?N 1" "length (requestVector ?q0) = ?N" by (simp_all add: set_request_vector_def)
  have x0: "x0 = view_slice c ?cv vw (allContinuousVars ?cv)" by (rule initialize_x0 [OF b])
  obtain r0 where r0: "update (f ?q0 ?cv) False (Response_for_set (length (metaData (currentResponse s))) ?q0) = Inr r0"
    and r0': "r0\<lparr>metaData := metaData (f ?q0 ?cv)\<rparr> = f ?q0 ?cv"
    using f(1) unfolding clean_responses_def by metis
  have vals: "functionValues r0 = functionValues (f ?q0 ?cv)" "resp_asv r0 = replicate ?N 1"
    using arg_cong [OF r0', of functionValues] update_keeps_set [OF r0] Response_for_set_asv [of _ ?q0] q0
    by (simp_all add: resp_asv_def)
  have v0: "length (functionValues r0) = ?N" "\<And>i. i < ?N \<Longrightarrow> functionValues r0 ! i = Q i x0"
    using f(2) q0 vals(1) by (simp_all add: computes_def response_fits_def x0)
  let ?s2 = "?s1\<lparr>currentResponse := f ?q0 ?cv, derived_state := after_evaluate D ?q0 ?cv (derived_state s)\<rparr>"
  have "\<not> augmented (replicate ?N 1) (requestVector q)" by (auto simp: augmented_def asv)
  then have init: "estimate_initial_map False D (replicate ?N 1) q ?s1 = Inr (r0, 1, ?s2)"
    using N r0 by (simp add: estimate_initial_map_def Let_def evaluate_here_def simulates_evaluate [OF D])
  define k where "k = \<lparr>fd_grad_asv = replicate ?N 1, fd_hess_asv = replicate ?N 0, fd_set = q, fd_view = vw, fd_x0 = x0,
               fd_bound_pairs = bs, fd_ids = ids, initial_map_response = r0\<rparr>"
  have nk: "num_deriv_vars k = length ?dvv" by (simp add: num_deriv_vars_def k_def)
  have step: "all_can_step c k" using steps by (simp add: all_can_step_def steps_possible_def nk position_def) (simp add: k_def)
  have "\<exists>w' s'. rfold (fd_variable False c D k) [0..<num_deriv_vars k] (initial_work c (num_deriv_vars k) (fd_hess_asv k), ?s2) =
        Inr (w', s') \<and> m_rows (new_fn_grads w') = num_deriv_vars k \<and>
    m_cols (new_fn_grads w') = gradient_columns G k (numFns c) (num_deriv_vars k) \<and>
    view_ok c (fd_view k) (length (fd_x0 k)) (currentVariables s') \<and>
    (\<exists>q v. currentResponse s' = f q v \<and> length (requestVector q) = numFns c)"
  proof (rule gradient_loop_exact [OF D _ _ ct])
    show "\<exists>q v. currentResponse ?s2 = f q v \<and> length (requestVector q) = ?N" using q0(2) by auto
  qed (use f(2) quad N step view v0 in \<open>simp_all add: k_def\<close>)
  then obtain w s3 where loop: "rfold (fd_variable False c D k) [0..<length ?dvv] (initial_work c (length ?dvv) (replicate ?N 0), ?s2) = Inr (w, s3)"
    and w: "m_rows (new_fn_grads w) = length ?dvv" "m_cols (new_fn_grads w) = gradient_columns G k ?N (length ?dvv)"
    and cr: "\<exists>q v. currentResponse s3 = f q v \<and> length (requestVector q) = ?N"
    unfolding nk by (auto simp: k_def)
  let ?s4 = "s3\<lparr>currentVariables := put_view c vw x0 (currentVariables s3)\<rparr>"
  have fits: "response_fits ?N (currentResponse ?s4)" 
  proof -
    obtain p v where p: "currentResponse s3 = f p v" "length (requestVector p) = ?N" using cr by blast
    have "response_fits (length (requestVector p)) (f p v)" using f(2) by (simp add: computes_def)
    then show ?thesis using p by simp
  qed
  have lc: "length (m_cols (new_fn_grads w)) = ?N" by (simp add: w gradient_columns_def)
  obtain r where r: "update_response c (currentVariables ?s4) (Some (currentResponse ?s4)) (replicate ?N 1) (replicate ?N 0)
        (replicate ?N 0) q r0 (new_fn_grads w)
        (symmetrize_all (replicate ?N 0) (length ?dvv) (fd_fg w) (new_fn_hessians w)) ?s4 = Inr (r, ?s4)"
    and rr: "functionValues r = functionValues r0" "m_cols (functionGradients r) = m_cols (new_fn_grads w)"
    using update_response_numerical [OF n vals(2) v0(1) w(1) lc fits] by blast
  have "estimate_derivatives False c D (replicate ?N 1) (replicate ?N 1) (replicate ?N 0) (replicate ?N 0) q ?s1 =
      Inr (1 + map_counter w, ?s4\<lparr>currentResponse := r\<rparr>)"
    using init b loop r N nk by (simp add: estimate_derivatives_def asv Let_def k_def [symmetric])
  then have "evaluate_set False c D q s = Inr (?s4\<lparr>currentResponse := r\<rparr>)"
    using man by (simp add: evaluate_set_def Let_def mg)
  moreover have "functionValues r = map (\<lambda>i. Q i x0) [0..<?N]" unfolding rr(1) using v0 by (intro nth_equalityI) simp_all
  moreover have "m_cols (functionGradients r) = map (\<lambda>i. map (\<lambda>d. G i (the (find_index ids d))) ?dvv) [0..<?N]"
  proof -
    have pos: "position k l = the (find_index ids (?dvv ! l))" for l by (simp add: position_def k_def)
    have "map (\<lambda>l. G i (the (find_index ids (?dvv ! l)))) [0..<length ?dvv] = map (\<lambda>d. G i (the (find_index ids d))) ?dvv" for i
      by (rule nth_equalityI) simp_all
    then show ?thesis unfolding rr(2) w(2) gradient_columns_def nk pos by simp
  qed
  ultimately show ?thesis by (intro exI [of _ "?s4\<lparr>currentResponse := r\<rparr>"]) simp
qed

end
