(* ===== verification/Simulation_Model.thy ===== *)
theory Simulation_Model
  imports Model_Evaluation
begin

text \<open>
  Models over an interface: rekeying of responses (\<^verbatim>\<open>src/DakotaModel.hpp\<close>: \<^verbatim>\<open>rekey_response_map\<close>,
  \<^verbatim>\<open>rekey_synch\<close>) and \<^verbatim>\<open>SimulationModel\<close> (\<^verbatim>\<open>src/SimulationModel.hpp\<close>, \<^verbatim>\<open>src/SimulationModel.cpp\<close>) with its evaluations.
  The solution levels of a hierarchical simulation are not modelled.

  The interface is reached through the operations that the model calls; its response map is read and
  written in place.  The evaluations database is off.
\<close>

section \<open>Rekeying\<close>

text \<open>The ids are compared as \<^verbatim>\<open>size_t\<close>.\<close>

definition size_t :: "int \<Rightarrow> int" where
  "size_t i = i mod 2 ^ 64"

text \<open>One traversal of an id map and a response map; what stays in each, and the responses under their
  new ids.\<close>

fun rekey_traverse ::
    "(int \<times> int) list \<Rightarrow> (int \<times> 'v) list \<Rightarrow> (int \<times> 'v) list \<Rightarrow> (int \<times> int) list \<times> (int \<times> 'v) list \<times> (int \<times> 'v) list" where
  "rekey_traverse [] rs acc = ([], rs, acc)"
| "rekey_traverse ids [] acc = (ids, [], acc)"
| "rekey_traverse ((k, m) # ids) ((r, v) # rs) acc =
    (if size_t k < size_t r then case rekey_traverse ids ((r, v) # rs) acc of (ids', rs', acc') \<Rightarrow> ((k, m) # ids', rs', acc')
     else if size_t k > size_t r then case rekey_traverse ((k, m) # ids) rs acc of (ids', rs', acc') \<Rightarrow> (ids', (r, v) # rs', acc')
     else rekey_traverse ids rs (map_assign m v acc))"

record ('r, 'i) interface_ops =
  interface_map :: "'r variables \<Rightarrow> active_set \<Rightarrow> 'i \<Rightarrow> ('r response \<times> 'i) result"
  interface_map_nowait :: "'r variables \<Rightarrow> active_set \<Rightarrow> 'i \<Rightarrow> 'i result"
  evaluation_id :: "'i \<Rightarrow> int"
  interface_synchronize :: "'i \<Rightarrow> 'i result"
  interface_synchronize_nowait :: "'i \<Rightarrow> 'i result"
  response_map :: "'i \<Rightarrow> (int \<times> 'r response) list"
  set_response_map :: "(int \<times> 'r response) list \<Rightarrow> 'i \<Rightarrow> 'i"
  cache_unmatched :: "'i \<Rightarrow> 'i"
  iterator_eval_dedicated_master :: "'i \<Rightarrow> bool"
  multi_proc_eval :: "'i \<Rightarrow> bool"

text \<open>The responses are shared unless a deep copy is asked for; a copy has the same value.\<close>

definition rekey_response_map ::
    "('r, 'i) interface_ops \<Rightarrow> (int \<times> int) list \<Rightarrow> 'i \<Rightarrow> (int \<times> int) list \<times> (int \<times> 'r response) list \<times> 'i" where
  "rekey_response_map I id_map m =
    (case rekey_traverse id_map (response_map I m) [] of (ids, rest, rekeyed) \<Rightarrow>
       let m1 = set_response_map I rest m in
       (ids, rekeyed, if rest \<noteq> [] then cache_unmatched I m1 else m1))"

definition rekey_synch ::
    "('r, 'i) interface_ops \<Rightarrow> bool \<Rightarrow> (int \<times> int) list \<Rightarrow> 'i \<Rightarrow> ((int \<times> int) list \<times> (int \<times> 'r response) list \<times> 'i) result" where
  "rekey_synch I block id_map m =
    rbind (if block then interface_synchronize I m else interface_synchronize_nowait I m) (\<lambda>m1.
      Inr (rekey_response_map I id_map m1))"

section \<open>Evaluations\<close>

record ('r, 'i) simulation_state =
  simModelEvalCntr :: nat
  simIdMap :: "(int \<times> int) list"
  simResponseMap :: "(int \<times> 'r response) list"
  userDefinedInterface :: 'i

definition sim_derived_evaluate ::
    "('r, 'i) interface_ops \<Rightarrow> active_set \<Rightarrow> 'r variables \<Rightarrow> ('r, 'i) simulation_state \<Rightarrow>
      ('r response \<times> ('r, 'i) simulation_state) result" where
  "sim_derived_evaluate I rset v s =
    rbind (interface_map I v rset (userDefinedInterface s)) (\<lambda>(r, m).
      Inr (r, s\<lparr>simModelEvalCntr := Suc (simModelEvalCntr s), userDefinedInterface := m\<rparr>))"

definition sim_derived_evaluate_nowait ::
    "('r, 'i) interface_ops \<Rightarrow> active_set \<Rightarrow> 'r variables \<Rightarrow> ('r, 'i) simulation_state \<Rightarrow> ('r, 'i) simulation_state result" where
  "sim_derived_evaluate_nowait I rset v s =
    rbind (interface_map_nowait I v rset (userDefinedInterface s)) (\<lambda>m.
      let n = Suc (simModelEvalCntr s) in
      Inr (s\<lparr>simModelEvalCntr := n, userDefinedInterface := m,
        simIdMap := map_assign (evaluation_id I m) (int n) (simIdMap s)\<rparr>))"

definition sim_synchronize ::
    "('r, 'i) interface_ops \<Rightarrow> bool \<Rightarrow> ('r, 'i) simulation_state \<Rightarrow>
      ((int \<times> 'r response) list \<times> ('r, 'i) simulation_state) result" where
  "sim_synchronize I block s =
    rbind (rekey_synch I block (simIdMap s) (userDefinedInterface s)) (\<lambda>(ids, rekeyed, m).
      Inr (rekeyed, s\<lparr>simIdMap := ids, simResponseMap := rekeyed, userDefinedInterface := m\<rparr>))"

definition simulation_model ::
    "('r, 'i) interface_ops \<Rightarrow> ('r variables \<Rightarrow> active_set \<Rightarrow> 'i \<Rightarrow> 'r response option) \<Rightarrow>
      ('r, ('r, 'i) simulation_state) derived_model" where
  "simulation_model I lookup =
    \<lparr>derived_evaluate = sim_derived_evaluate I, derived_evaluate_nowait = sim_derived_evaluate_nowait I,
     derived_evaluation_id = (\<lambda>s. int (simModelEvalCntr s)),
     derived_synchronize = sim_synchronize I True, derived_synchronize_nowait = sim_synchronize I False,
     derived_master_overload = (\<lambda>s. iterator_eval_dedicated_master I (userDefinedInterface s) \<and> multi_proc_eval I (userDefinedInterface s)),
     cache_lookup = (\<lambda>v q s. lookup v q (userDefinedInterface s))\<rparr>"

section \<open>Rekeying files every matched response and nothing else\<close>

lemma size_t_small: "0 \<le> i \<Longrightarrow> i < 2 ^ 64 \<Longrightarrow> size_t i = i"
  by (simp add: size_t_def)

definition small_keys :: "(int \<times> 'v) list \<Rightarrow> bool" where
  "small_keys m \<longleftrightarrow> omap_ok m \<and> (\<forall>k \<in> fst ` set m. 0 \<le> k \<and> k < 2 ^ 64)"

lemma small_keys_Cons:
  "small_keys ((k, v) # m) \<longleftrightarrow> 0 \<le> k \<and> k < 2 ^ 64 \<and> (\<forall>k' \<in> fst ` set m. k < k') \<and> small_keys m"
  by (auto simp: small_keys_def omap_ok_def)

text \<open>The reference: every response is looked up in the id map.\<close>

definition rekey_lookup :: "(int \<times> int) list \<Rightarrow> (int \<times> 'v) list \<Rightarrow> (int \<times> 'v) list \<Rightarrow> (int \<times> 'v) list" where
  "rekey_lookup ids rs acc = fold (\<lambda>(r, v) acc. case map_of ids r of None \<Rightarrow> acc | Some m \<Rightarrow> map_assign m v acc) rs acc"

definition unmatched :: "(int \<times> 'v) list \<Rightarrow> (int \<times> 'w) list \<Rightarrow> (int \<times> 'w) list" where
  "unmatched xs ys = filter (\<lambda>e. fst e \<notin> fst ` set xs) ys"

lemma unmatched_smaller: "(\<forall>k \<in> fst ` set xs. fst y < k) \<Longrightarrow> unmatched xs (y # ys) = y # unmatched xs ys"
  by (auto simp: unmatched_def)

lemma unmatched_drop: "(\<forall>k \<in> fst ` set ys. fst x < k) \<Longrightarrow> unmatched (x # xs) ys = unmatched xs ys"
  unfolding unmatched_def by (rule filter_cong) auto

lemma rekey_lookup_drop:
  "(\<forall>r \<in> fst ` set rs. k < r) \<Longrightarrow> rekey_lookup ((k, m) # ids) rs acc = rekey_lookup ids rs acc"
  unfolding rekey_lookup_def by (rule fold_cong) (auto split: prod.splits)

lemma rekey_lookup_none: "(\<forall>k \<in> fst ` set ids. r < k) \<Longrightarrow> rekey_lookup ids ((r, v) # rs) acc = rekey_lookup ids rs acc"
proof -
  assume "\<forall>k \<in> fst ` set ids. r < k"
  then have "map_of ids r = None" by (auto simp: map_of_eq_None_iff)
  then show ?thesis by (simp add: rekey_lookup_def)
qed

lemma rekey_traverse_lookup:
  "small_keys ids \<Longrightarrow> small_keys rs \<Longrightarrow> rekey_traverse ids rs acc = (unmatched rs ids, unmatched ids rs, rekey_lookup ids rs acc)"
proof (induction ids rs acc rule: rekey_traverse.induct)
  case (1 rs acc)
  have "fold (\<lambda>(r, v) acc. acc) rs acc = acc" by (induction rs) auto
  then show ?case by (simp add: unmatched_def rekey_lookup_def)
next
  case (2 e ids acc)
  then show ?case by (simp add: unmatched_def rekey_lookup_def)
next
  case (3 k m ids r v rs acc)
  have s: "size_t k = k" "size_t r = r" and i: "small_keys ids" "small_keys rs"
    and lt: "\<forall>x \<in> fst ` set ids. k < x" "\<forall>x \<in> fst ` set rs. r < x"
    using 3(4,5) by (simp_all add: small_keys_Cons size_t_small)
  consider "k < r" | "r < k" | "k = r" by linarith
  then show ?case
  proof cases
    case 1
    then have b: "\<forall>x \<in> fst ` set ((r, v) # rs). k < x" using lt by auto
    then show ?thesis using 1 s 3(1) [OF _ i(1) 3(5)]
      by (simp add: unmatched_smaller rekey_lookup_drop [OF b] unmatched_drop [where x = "(k, m)", simplified])
  next
    case 2
    then have b: "\<forall>x \<in> fst ` set ((k, m) # ids). r < x" using lt by auto
    then show ?thesis using 2 s 3(2) [OF _ _ 3(4) i(2)]
      by (simp add: unmatched_smaller rekey_lookup_none [OF b] unmatched_drop [where x = "(r, v)", simplified])
  next
    case eq: 3
    have "rekey_lookup ((k, m) # ids) ((r, v) # rs) acc = rekey_lookup ids rs (map_assign m v acc)"
      using eq lt(2) rekey_lookup_drop [of rs k m ids "map_assign m v acc"] by (simp add: rekey_lookup_def)
    moreover have "unmatched ((r, v) # rs) ((k, m) # ids) = unmatched rs ids" "unmatched ((k, m) # ids) ((r, v) # rs) = unmatched ids rs"
      using eq lt unmatched_drop [of ids "(r, v)" rs] unmatched_drop [of rs "(k, m)" ids] by (simp_all add: unmatched_def)
    ultimately show ?thesis using eq s 3(3) [OF _ _ i] by simp
  qed
qed

end
