(* ===== verification/Model_Properties.thy ===== *)
theory Model_Properties
  imports Complex_Main Estimation_Accuracy Simulation_Model
begin

text \<open>
  The evaluation of models at a concrete simulation: what the theorems on derivative estimation, on quasi-Newton
  Hessians and on rekeying say there.
\<close>

section \<open>A simulation\<close>

text \<open>A simulation given by its functions; its state is the list of outstanding requests.\<close>

definition answer :: "(nat \<Rightarrow> 'r variables \<Rightarrow> 'r) \<Rightarrow> active_set \<Rightarrow> 'r variables \<Rightarrow> 'r::zero response" where
  "answer F q v = (Response_for_set 0 q)\<lparr>functionValues :=
    map_index (\<lambda>i a. if req_val a then F i v else 0) (requestVector q)\<rparr>"

definition direct_simulation :: "(nat \<Rightarrow> 'r variables \<Rightarrow> 'r::zero) \<Rightarrow> ('r, (active_set \<times> 'r variables) list) derived_model" where
  "direct_simulation F =
    \<lparr>derived_evaluate = (\<lambda>q v d. Inr (answer F q v, d)),
     derived_evaluate_nowait = (\<lambda>q v d. Inr (d @ [(q, v)])),
     derived_evaluation_id = (\<lambda>d. int (length d)),
     derived_synchronize = (\<lambda>d. Inr (map_index (\<lambda>i (q, v). (int i + 1, answer F q v)) d, [])),
     derived_synchronize_nowait = (\<lambda>d. Inr (map_index (\<lambda>i (q, v). (int i + 1, answer F q v)) d, [])),
     derived_master_overload = (\<lambda>_. False),
     cache_lookup = (\<lambda>_ _ _. None)\<rparr>"

lemma direct_simulates: "simulates (direct_simulation F) (answer F) (\<lambda>d. d)"
  by (auto simp: simulates_def direct_simulation_def intro!: nth_equalityI split: prod.split)
lemma copy_prefix_same: "n \<le> length xs \<Longrightarrow> copy_prefix n xs xs = xs"
  by (auto simp: copy_prefix_def intro!: nth_equalityI)

lemma copy_triangle_same: "tri_wf n h \<Longrightarrow> copy_triangle n h h = h"
  by (auto simp: copy_triangle_def tri_wf_def copy_prefix_def intro!: nth_equalityI)

lemma update_answer:
  fixes F :: "nat \<Rightarrow> 'r variables \<Rightarrow> 'r::zero"
  shows "update (answer F q v) False (Response_for_set n q) = Inr ((answer F q v)\<lparr>metaData := replicate n 0\<rparr>)"
proof -
  let ?asv = "requestVector q" and ?np = "length (derivVarsVector q)"
  let ?R = "Response_for_set n q :: 'r response" and ?vals = "functionValues (answer F q v)"
  have f: "resp_asv ?R = ?asv" "resp_dvv ?R = derivVarsVector q" "responseActiveSet ?R = q"
      "functionValues ?R = replicate (length ?asv) 0"
      "functionGradients (answer F q v) = functionGradients ?R" "functionHessians (answer F q v) = functionHessians ?R"
      "responseActiveSet (answer F q v) = q" "metaData ?R = replicate n 0" "metaData (answer F q v) = []"
    by (simp_all add: answer_def Response_for_set_def shape_rep_def Let_def resp_asv_def resp_dvv_def)
  have v: "?vals = map_index (\<lambda>i a. if req_val a then F i v else 0) ?asv" by (simp add: answer_def)
  have g: "list_ex req_grad ?asv \<Longrightarrow> functionGradients ?R = \<lparr>m_rows = ?np, m_cols = replicate (length ?asv) (replicate ?np 0)\<rparr>"
    and h: "list_ex req_hess ?asv \<Longrightarrow> functionHessians ?R = replicate (length ?asv) (map (\<lambda>j. replicate (Suc j) 0) [0..<?np])"
    by (simp_all add: Response_for_set_def shape_rep_def Let_def)
  let ?R1 = "?R\<lparr>functionValues := ?vals\<rparr>"
  have s1: "resp_asv ?R1 = ?asv" "resp_dvv ?R1 = derivVarsVector q" using f(1,2) by (simp_all add: resp_asv_def resp_dvv_def)
  have 1: "copy_values 0 (length ?asv) 0 ?vals ?R = Inr ?R1"
  proof -
    have e: "map_index (\<lambda>i x. if 0 \<le> i \<and> i < 0 + length ?asv \<and> req_val (?asv ! i) then ?vals ! (0 + (i - 0)) else x) (functionValues ?R) = ?vals"
      unfolding f(4) v by (rule nth_equalityI) simp_all
    have "length (functionValues ?R) = length ?asv" "length ?vals = length ?asv" using f(4) v by simp_all
    then show ?thesis unfolding copy_values_def Let_def f(1) unfolding e by auto
  qed
  have 2: "copy_gradients 0 (length ?asv) 0 (functionGradients ?R) ?R1 = Inr ?R1" if "list_ex req_grad ?asv"
  proof -
    have "m_cols (functionGradients ?R) = map_index (\<lambda>i c. if 0 \<le> i \<and> i < 0 + length ?asv \<and> req_grad (?asv ! i)
        then copy_prefix ?np (m_cols (functionGradients ?R) ! (0 + (i - 0))) c else c) (m_cols (functionGradients ?R))"
      unfolding g [OF that] by (rule nth_equalityI) (simp_all add: copy_prefix_same)
    then show ?thesis unfolding copy_gradients_def Let_def s1 using g [OF that] by simp
  qed
  have 3: "copy_hessians 0 (length ?asv) 0 (functionHessians ?R) ?R1 = Inr ?R1" if "list_ex req_hess ?asv"
  proof -
    have t: "tri_wf ?np (map (\<lambda>j. replicate (Suc j) 0) [0..<?np])" by (simp add: tri_wf_def)
    have "functionHessians ?R = map_index (\<lambda>i hi. if 0 \<le> i \<and> i < 0 + length ?asv \<and> req_hess (?asv ! i)
        then copy_triangle ?np (functionHessians ?R ! (0 + (i - 0))) hi else hi) (functionHessians ?R)"
      unfolding h [OF that] by (rule nth_equalityI) (simp_all add: copy_triangle_same [OF t] del: upt_Suc replicate_Suc)
    then show ?thesis unfolding copy_hessians_def Let_def s1 using h [OF that] by simp
  qed
  have lg: "list_ex req_grad ?asv \<Longrightarrow> length (m_cols (functionGradients ?R)) = length ?asv"
    and lh: "list_ex req_hess ?asv \<Longrightarrow> length (functionHessians ?R) = length ?asv"
    using g h by simp_all
  have "update_data ?vals (functionGradients ?R) (functionHessians ?R) q ?R = Inr ?R1"
    unfolding update_data_def Let_def f(1,2) using 1 2 3 lg lh f(3) by (simp add: active_set_eq_def)
  moreover have "?R1 = (answer F q v)\<lparr>metaData := replicate n 0\<rparr>" by (simp add: answer_def Response_for_set_def shape_rep_def Let_def)
  ultimately show ?thesis unfolding update_def f by simp
qed

lemma answer_clean: "clean_responses (answer F)"
  unfolding clean_responses_def update_answer by simp

lemma answer_fits: "response_fits (length (requestVector q)) (answer F q v)"
  by (simp add: response_fits_def answer_def Response_for_set_def shape_rep_def Let_def resp_asv_def mat_zero_def)

definition demo_config :: "rat model_config" where
  "demo_config = \<lparr>numFns = 1, numDerivVars = 1, ignoreBounds = False, centralHess = False, supportsEstimDerivs = True,
    auto_corrected_surrogate = False, intervalType = ''central'', gradient_type = ''numerical'', hessian_type = ''none'',
    quasiHessType = ''bfgs'', methodSource = ''dakota'', fdGradStepType = ''relative'', fdHessStepType = ''relative'',
    fdGradStepSize = [1 / 10], fdHessByFnStepSize = [1 / 10], fdHessByGradStepSize = [1 / 10], gradIdAnalytic = [],
    gradIdNumerical = [], hessIdAnalytic = [], hessIdNumerical = [], hessIdQuasi = [], sqrt_DBL_MIN = 1 / 1000,
    square_root = (\<lambda>x. x), is_small = (\<lambda>_. False), icv_start = 0, num_icv = 0, all_cv_ids = [1], all_cv_types = [OTHER_TYPE],
    all_cv_lower_bounds = [Some 0], all_cv_upper_bounds = [Some 3], distribution_bounds = (\<lambda>_. (None, None))\<rparr>"

definition demo_request :: active_set where
  "demo_request = \<lparr>requestVector = [3], derivVarsVector = [1]\<rparr>"

definition demo_start :: "(rat, (active_set \<times> rat variables) list) model_letter" where
  "demo_start = \<lparr>xPrev = [], fnGradsPrev = mat_zero 0 0, quasiHessians = [], numQuasiUpdates = [],
    currentVariables = \<lparr>variablesView = (1, 0), allContinuousVars = [3], allDiscreteIntVars = [], allDiscreteStringVars = [], allDiscreteRealVars = [],
      cv_start = 0, num_cv = 1\<rparr>,
    currentResponse = Response_for_set 0 demo_request, derived_state = [], deltaList = [], initialMapList = [],
    dbCaptureList = [], dbResponseList = [], modelEvalCntr = 0, estDerivsFlag = False, asvList = [], setList = [],
    rawEvalIdMap = [], numFDEvalsMap = [], varsMap = [], responseMap = [], cachedModelResponses = []\<rparr>"

definition square_fn :: "nat \<Rightarrow> rat variables \<Rightarrow> rat" where
  "square_fn i v = (let x = hd (view_slice demo_config v Active (allContinuousVars v)) in x * x)"

section \<open>Evaluations\<close>

theorem asynchronous_evaluation_equals_synchronous_witness:
  "\<exists>s' t. evaluate_set False demo_config (direct_simulation square_fn) demo_request demo_start = Inr s' \<and>
    evaluate_set True demo_config (direct_simulation square_fn) demo_request demo_start = Inr t \<and>
    (currentResponse t = currentResponse s' \<or> same_answers demo_request (currentResponse t) (currentResponse s')) \<and>
    nothing_pending (\<lambda>d. d) t"
proof -
  have "is_ok (evaluate_set False demo_config (direct_simulation square_fn) demo_request demo_start)" by code_simp
  then obtain s' where S: "evaluate_set False demo_config (direct_simulation square_fn) demo_request demo_start = Inr s'"
    by (cases "evaluate_set False demo_config (direct_simulation square_fn) demo_request demo_start") auto
  have "intervalType demo_config \<in> {''forward'', ''central''}" by (simp add: demo_config_def)
  moreover have "room_for_steps demo_config (currentVariables demo_start) demo_request" by code_simp
  moreover have "response_fits (length (requestVector demo_request)) (currentResponse demo_start)" by code_simp
  moreover have "nothing_pending (\<lambda>d. d) demo_start" by (simp add: nothing_pending_def demo_start_def)
  ultimately show ?thesis
    using asynchronous_evaluation_equals_synchronous [OF direct_simulates answer_clean _ _ _ _ S] S by metis
qed

theorem central_gradients_exact_witness:
  "\<exists>s'. evaluate_set False demo_config (direct_simulation square_fn) demo_request demo_start = Inr s' \<and>
    functionValues (currentResponse s') = [9] \<and> m_cols (functionGradients (currentResponse s')) = [[6]]"
proof -
  define Q :: "nat \<Rightarrow> rat list \<Rightarrow> rat" where "Q = (\<lambda>i x. hd x * hd x)"
  have "computes demo_config Active Q (answer square_fn)"
    unfolding computes_def using answer_fits by (auto simp: answer_def Q_def square_fn_def Let_def)
  moreover have "quadratic_along Q (\<lambda>i j. 6) (\<lambda>i j. 1) [3]"
    by (simp add: quadratic_along_def quadratic_at_def Q_def algebra_simps)
  moreover have "numerical_gradients demo_config demo_request"
    by (simp add: numerical_gradients_def demo_config_def demo_request_def)
  moreover have "manage_asv demo_config (currentVariables demo_start) demo_request = Inr (True, [1], [1], [0], [0])" by code_simp
  moreover have "initialize_x0_bounds demo_config (currentVariables demo_start) (derivVarsVector demo_request) =
      Inr (Active, [3], [(Some 0, Some 3)], [1])" by code_simp
  moreover have "view_ok demo_config Active (length [3 :: rat]) (currentVariables demo_start)" by code_simp
  moreover have "steps_possible demo_config [3] [(Some 0, Some 3)] [1] (derivVarsVector demo_request)"
    by (simp add: steps_possible_def can_step_def demo_request_def demo_config_def proper_bounds_def select_step_def initialize_h_def Let_def)
  ultimately have "\<exists>s'. evaluate_set False demo_config (direct_simulation square_fn) demo_request demo_start = Inr s' \<and>
    functionValues (currentResponse s') = map (\<lambda>i. Q i [3]) [0..<numFns demo_config] \<and>
    m_cols (functionGradients (currentResponse s')) =
      map (\<lambda>i. map (\<lambda>d. 6) (derivVarsVector demo_request)) [0..<numFns demo_config]"
    by (rule central_gradients_exact [OF direct_simulates answer_clean])
  then show ?thesis by (simp add: demo_config_def demo_request_def Q_def)
qed
section \<open>Steps\<close>

text \<open>C31: The two steps of a finite difference stay within the bounds and can be divided by.  From a point inside proper
  bounds, with a positive step size, neither step is zero, they differ, both displaced points satisfy the bounds
  unless bounds are ignored, and the second step mirrors the first unless it is reported as short.\<close>

theorem difference_steps_respect_bounds:
  fixes x :: "'r::linordered_field"
  assumes "initialize_h c x lb ub step_size step_type = Inr h_mag" and "0 < step_size" "0 < sqrt_DBL_MIN c"
    and b: "proper_bounds lb ub" "in_bounds x lb ub"
    and h: "FDstep1 c x lb ub h_mag = (h, short)" and h2: "FDstep2 c x lb ub h short = (h2, short2)"
  shows "h \<noteq> 0 \<and> h2 \<noteq> 0 \<and> h2 \<noteq> h \<and> (\<not> short \<longrightarrow> \<bar>h\<bar> = h_mag) \<and> (\<not> short2 \<longrightarrow> h2 = - h) \<and>
    (\<not> ignoreBounds c \<longrightarrow> in_bounds (x + h) lb ub \<and> in_bounds (x + h2) lb ub)"
proof -
  have "0 < h_mag"
    using assms(1-3) by (auto simp: initialize_h_def less_max_iff_disj intro!: mult_pos_pos split: if_splits option.splits)
  moreover have "\<not> short \<Longrightarrow> \<bar>h\<bar> = h_mag"
    using h \<open>0 < h_mag\<close> by (auto simp: FDstep1_def Let_def split: if_splits)
  ultimately show ?thesis
    using FDstep1_nonzero [OF _ b(1) h] FDstep2_distinct [OF _ h2] FDstep1_within [OF _ _ b(2) h] FDstep2_within [OF _ b(2) _ h2]
    by blast
qed

text \<open>At the upper bound of a range whose width is less than two steps.\<close>

theorem difference_steps_respect_bounds_witness:
  "FDstep1 demo_config 3 (Some 0) (Some 3) 2 = (- 2, False) \<and> FDstep2 demo_config 3 (Some 0) (Some 3) (- 2) False = (- 3, True) \<and>
    in_bounds (3 + - 2) (Some 0) (Some (3 :: rat)) \<and> in_bounds (3 + - 3) (Some 0) (Some (3 :: rat))"
proof -
  have h: "FDstep1 demo_config 3 (Some 0) (Some 3) 2 = (- 2, False)" "FDstep2 demo_config 3 (Some 0) (Some 3) (- 2) False = (- 3, True)"
    by (simp_all add: FDstep1_def FDstep2_def demo_config_def)
  have "initialize_h demo_config 3 (Some 0) (Some 3) 2 ''absolute'' = Inr 2" by (simp add: initialize_h_def demo_config_def)
  from difference_steps_respect_bounds [OF this _ _ _ _ h] h show ?thesis
    by (simp add: demo_config_def proper_bounds_def)
qed

text \<open>A single step size with a single derivative variable that is not the first of its view is read out of bounds: the
  length of the vector does not tell the two uses apart.\<close>

lemma single_step_size_out_of_bounds:
  "length (fdGradStepSize c) = 1 \<Longrightarrow> 0 < xj_index \<Longrightarrow>
    forward_grad_step c 1 xj_index x lb ub = Inl (UndefinedBehaviour ''vector read'')"
  by (simp add: forward_grad_step_def select_step_def Let_def)

section \<open>Splitting a request\<close>

lemma manage_asv_function_exact:
  assumes "manage_asv_function c i a = Inr (m, g, h, qh, u)"
  shows "(g = 0 \<and> h \<noteq> 1 \<longrightarrow> req_val m = req_val a) \<and>
    (req_grad m \<longleftrightarrow> analytic_gradient c i \<and> (req_grad a \<or> h = 2)) \<and>
    g = (if req_grad a \<and> \<not> analytic_gradient c i then 1 else 0) \<and> (h = 2 \<longrightarrow> analytic_gradient c i)"
proof -
  let ?v = "if req_val a then 1 else 0 :: short"
  obtain m1 u1 where 1: "(if req_grad a then manage_gradient_request c i ?v else Inr (?v, 0, False)) = Inr (m1, g, u1)"
    and 2: "\<exists>u2. (if req_hess a then manage_hessian_request c i m1 else Inr (m1, 0, 0, False)) = Inr (m, h, qh, u2)"
    using assms unfolding manage_asv_function_def by (auto simp: result_simps)
  have "(g = 0 \<longrightarrow> req_val m1 = req_val a) \<and> (req_grad m1 \<longleftrightarrow> analytic_gradient c i \<and> req_grad a) \<and>
      g = (if req_grad a \<and> \<not> analytic_gradient c i then 1 else 0)"
    using 1 by (auto simp: manage_gradient_request_def split: if_splits)
  moreover have "(h \<noteq> 1 \<longrightarrow> req_val m = req_val m1) \<and> (req_grad m \<longleftrightarrow> req_grad m1 \<or> h = 2) \<and> (h = 2 \<longrightarrow> analytic_gradient c i)"
    using 2 by (auto simp: manage_hessian_request_def split: if_splits)
  ultimately show ?thesis by auto
qed



section \<open>Rekeying\<close>

lemma map_of_rekey_lookup:
  assumes ids: "(k, i) \<in> set ids" "distinct (map fst ids)" "distinct (map snd ids)" and rs: "distinct (map fst rs)"
  shows "map_of (rekey_lookup ids rs acc) i = (case map_of rs k of None \<Rightarrow> map_of acc i | Some v \<Rightarrow> Some v)"
  using rs
proof (induction rs arbitrary: acc)
  case (Cons e rs)
  obtain r v where e: "e = (r, v)" by (cases e)
  have step: "rekey_lookup ids ((r, v) # rs) acc =
      rekey_lookup ids rs (case map_of ids r of None \<Rightarrow> acc | Some m \<Rightarrow> map_assign m v acc)"
    by (simp add: rekey_lookup_def)
  have "map_of ids r = Some i \<longleftrightarrow> r = k"
  proof
    assume "map_of ids r = Some i"
    then have "(r, i) \<in> set ids" by (rule map_of_SomeD)
    then show "r = k" using ids(1,3) by (metis eq_key_imp_eq_value in_set_conv_nth distinct_map inj_onD prod.inject snd_conv)
  qed (use ids in simp)
  moreover have "r = k \<Longrightarrow> map_of rs k = None" using Cons.prems e by (auto simp: map_of_eq_None_iff)
  ultimately show ?case
    using Cons.IH [of "case map_of ids r of None \<Rightarrow> acc | Some m \<Rightarrow> map_assign m v acc"] Cons.prems
    by (auto simp: e step split: option.splits)
qed (simp add: rekey_lookup_def)

text \<open>C8: A synchronization of a simulation model files every answer of its interface under the id of the model.  Each
  evaluation of the model whose answer has arrived gets it and leaves the id map; the others stay there; and answers
  to evaluations of other models on the same interface are handed back to the interface for later.\<close>

theorem simulation_model_rekeys_responses:
  fixes I :: "('r, 'i) interface_ops"
  assumes m: "(if block then interface_synchronize I else interface_synchronize_nowait I) (userDefinedInterface s) = Inr m"
    and k: "small_keys (simIdMap s)" "small_keys (response_map I m)" "distinct (map snd (simIdMap s))"
  defines "others \<equiv> unmatched (simIdMap s) (response_map I m)"
  shows "\<exists>rs s'. sim_synchronize I block s = Inr (rs, s') \<and>
    (\<forall>(raw_id, i) \<in> set (simIdMap s). map_of rs i = map_of (response_map I m) raw_id) \<and>
    simIdMap s' = unmatched (response_map I m) (simIdMap s) \<and>
    userDefinedInterface s' = (if others = [] then set_response_map I others m else cache_unmatched I (set_response_map I others m))"
proof -
  let ?rs = "rekey_lookup (simIdMap s) (response_map I m) []"
  have t: "rekey_traverse (simIdMap s) (response_map I m) [] = (unmatched (response_map I m) (simIdMap s), others, ?rs)"
    unfolding others_def by (rule rekey_traverse_lookup [OF k(1,2)])
  have d: "distinct (map fst (simIdMap s))" "distinct (map fst (response_map I m))"
    using k(1,2) by (simp_all add: small_keys_def omap_ok_def strict_sorted_iff)
  have "map_of ?rs i = map_of (response_map I m) raw_id" if "(raw_id, i) \<in> set (simIdMap s)" for raw_id i
    using map_of_rekey_lookup [OF that d(1) k(3) d(2), of "[]"] by (simp split: option.splits)
  moreover have "rekey_response_map I (simIdMap s) m = (unmatched (response_map I m) (simIdMap s), ?rs,
      if others = [] then set_response_map I others m else cache_unmatched I (set_response_map I others m))"
    by (simp add: rekey_response_map_def t Let_def)
  ultimately show ?thesis
    using m by (cases block) (auto simp: sim_synchronize_def rekey_synch_def)
qed

text \<open>An interface whose state is its response map, shared by two models: the ids 1 and 3 are of one of them.\<close>

definition mailbox :: "(rat, (int \<times> rat response) list \<times> (int \<times> rat response) list) interface_ops" where
  "mailbox = \<lparr>interface_map = (\<lambda>v q d. Inr (Response_for_set 0 q, d)), interface_map_nowait = (\<lambda>v q d. Inr d),
     evaluation_id = (\<lambda>d. 0), interface_synchronize = (\<lambda>d. Inr d), interface_synchronize_nowait = (\<lambda>d. Inr d),
     response_map = fst, set_response_map = (\<lambda>m d. (m, snd d)), cache_unmatched = (\<lambda>d. ([], fst d @ snd d)),
     iterator_eval_dedicated_master = (\<lambda>_. False), multi_proc_eval = (\<lambda>_. False)\<rparr>"

definition two_models :: "(rat, (int \<times> rat response) list \<times> (int \<times> rat response) list) simulation_state" where
  "two_models = (let r = (\<lambda>n. (Response_for_set 0 demo_request)\<lparr>functionValues := [n]\<rparr>) in
    \<lparr>simModelEvalCntr = 2, simIdMap = [(1, 1), (3, 2)], simResponseMap = [],
      userDefinedInterface = ([(1, r 10), (2, r 20), (3, r 30)], [])\<rparr>)"

theorem simulation_model_rekeys_responses_witness:
  "\<exists>rs s'. sim_synchronize mailbox True two_models = Inr (rs, s') \<and>
    map_option functionValues (map_of rs 2) = Some [30] \<and> simIdMap s' = [] \<and> map fst (snd (userDefinedInterface s')) = [2]"
proof -
  have "small_keys (simIdMap two_models)" "small_keys (response_map mailbox (userDefinedInterface two_models))"
    "distinct (map snd (simIdMap two_models))"
    by (simp_all add: small_keys_def omap_ok_def two_models_def mailbox_def Let_def)
  then show ?thesis
    using simulation_model_rekeys_responses [of True mailbox two_models "userDefinedInterface two_models"]
    by (auto simp: mailbox_def two_models_def Let_def unmatched_def)
qed

end
