(* ===== verification/Variable_Views.thy ===== *)
theory Variable_Views
  imports Dakota_Prelude
begin

text \<open>
  Counts, views and indices of variables (\<^verbatim>\<open>src/SharedVariablesData.hpp\<close>, \<^verbatim>\<open>src/SharedVariablesData.cpp\<close>).

  Variables come in four groups (design, aleatory uncertain, epistemic uncertain, state) and in four
  kinds (continuous, discrete integer, discrete string, discrete real).  The order of all
  variables is by group and, in a group, by kind; the arrays of one kind hold the groups in the same order.
  A discrete integer or real variable can be relaxed, and is then counted and stored as continuous.  A view
  selects groups.  An index out of range in a bit array is an error value.
\<close>

section \<open>State\<close>

datatype var_view = EMPTY_VIEW | RELAXED_ALL | MIXED_ALL | RELAXED_DESIGN | RELAXED_UNCERTAIN |
  RELAXED_ALEATORY_UNCERTAIN | RELAXED_EPISTEMIC_UNCERTAIN | RELAXED_STATE | MIXED_DESIGN | MIXED_UNCERTAIN |
  MIXED_ALEATORY_UNCERTAIN | MIXED_EPISTEMIC_UNCERTAIN | MIXED_STATE

text \<open>Numbers of continuous, discrete integer, string and real variables.\<close>

type_synonym counts = "nat \<times> nat \<times> nat \<times> nat"

text \<open>\<^verbatim>\<open>variablesCompsTotals\<close> by group; the entries of a group are consecutive in the code.\<close>

record comps_totals =
  total_design :: counts
  total_aleatory :: counts
  total_epistemic :: counts
  total_state :: counts

record shared_variables =
  variablesCompsTotals :: comps_totals
  variablesView :: "var_view \<times> var_view"
  allRelaxedDiscreteInt :: "bool list"
  allRelaxedDiscreteReal :: "bool list"

definition VARS_ERROR :: int where "VARS_ERROR = -11"

section \<open>Counts\<close>

definition bit_count :: "bool list \<Rightarrow> nat" where
  "bit_count b = length (filter (\<lambda>x. x) b)"

definition any_relaxed :: "shared_variables \<Rightarrow> bool" where
  "any_relaxed s \<longleftrightarrow> True \<in> set (allRelaxedDiscreteInt s) \<or> True \<in> set (allRelaxedDiscreteReal s)"

text \<open>The bits set in a range of a bit array.\<close>

definition count_range :: "bool list \<Rightarrow> nat \<Rightarrow> nat \<Rightarrow> nat result" where
  "count_range b offset n = (if n \<noteq> 0 \<and> length b < offset + n then Inl (UndefinedBehaviour ''bit read'')
     else Inr (bit_count (take n (drop offset b))))"

definition relax_counts :: "shared_variables \<Rightarrow> counts \<Rightarrow> nat \<Rightarrow> nat \<Rightarrow> counts result" where
  "relax_counts s c offset_di offset_dr = (case c of (num_cv, num_div, num_dsv, num_drv) \<Rightarrow>
     rbind (count_range (allRelaxedDiscreteInt s) offset_di num_div) (\<lambda>num_relax_int.
     rbind (count_range (allRelaxedDiscreteReal s) offset_dr num_drv) (\<lambda>num_relax_real.
       Inr (num_cv + num_relax_int + num_relax_real, num_div - num_relax_int, num_dsv, num_drv - num_relax_real))))"

definition add_counts :: "counts \<Rightarrow> counts \<Rightarrow> counts" where
  "add_counts c d = (case (c, d) of ((c1, c2, c3, c4), (d1, d2, d3, d4)) \<Rightarrow> (c1 + d1, c2 + d2, c3 + d3, c4 + d4))"

definition num_int :: "counts \<Rightarrow> nat" where "num_int c = fst (snd c)"
definition num_real :: "counts \<Rightarrow> nat" where "num_real c = snd (snd (snd c))"

definition design_counts :: "shared_variables \<Rightarrow> counts result" where
  "design_counts s = (let t = variablesCompsTotals s in
     if any_relaxed s then relax_counts s (total_design t) 0 0 else Inr (total_design t))"

definition aleatory_uncertain_counts :: "shared_variables \<Rightarrow> counts result" where
  "aleatory_uncertain_counts s = (let t = variablesCompsTotals s in
     if any_relaxed s then relax_counts s (total_aleatory t) (num_int (total_design t)) (num_real (total_design t))
     else Inr (total_aleatory t))"

definition epistemic_uncertain_counts :: "shared_variables \<Rightarrow> counts result" where
  "epistemic_uncertain_counts s = (let t = variablesCompsTotals s in
     if any_relaxed s then relax_counts s (total_epistemic t)
       (num_int (total_design t) + num_int (total_aleatory t)) (num_real (total_design t) + num_real (total_aleatory t))
     else Inr (total_epistemic t))"

definition uncertain_counts :: "shared_variables \<Rightarrow> counts result" where
  "uncertain_counts s = (let t = variablesCompsTotals s; c = add_counts (total_aleatory t) (total_epistemic t) in
     if any_relaxed s then relax_counts s c (num_int (total_design t)) (num_real (total_design t)) else Inr c)"

definition state_counts :: "shared_variables \<Rightarrow> counts result" where
  "state_counts s = (let t = variablesCompsTotals s in
     if any_relaxed s then relax_counts s (total_state t)
       (num_int (total_design t) + num_int (total_aleatory t) + num_int (total_epistemic t))
       (num_real (total_design t) + num_real (total_aleatory t) + num_real (total_epistemic t))
     else Inr (total_state t))"

text \<open>The sums over the groups, before relaxation.\<close>

definition total_counts :: "comps_totals \<Rightarrow> counts" where
  "total_counts t = add_counts (add_counts (add_counts (total_design t) (total_aleatory t)) (total_epistemic t)) (total_state t)"

definition all_counts :: "shared_variables \<Rightarrow> counts" where
  "all_counts s = (case total_counts (variablesCompsTotals s) of (num_acv, num_adiv, num_adsv, num_adrv) \<Rightarrow>
     if any_relaxed s then
       let num_relax_int = bit_count (allRelaxedDiscreteInt s); num_relax_real = bit_count (allRelaxedDiscreteReal s) in
       (num_acv + num_relax_int + num_relax_real, num_adiv - num_relax_int, num_adsv, num_adrv - num_relax_real)
     else (num_acv, num_adiv, num_adsv, num_adrv))"

text \<open>\<^verbatim>\<open>acv()\<close>, \<^verbatim>\<open>adiv()\<close>, \<^verbatim>\<open>adsv()\<close>, \<^verbatim>\<open>adrv()\<close>.\<close>

definition acv :: "shared_variables \<Rightarrow> nat" where
  "acv s = fst (total_counts (variablesCompsTotals s)) + bit_count (allRelaxedDiscreteInt s) + bit_count (allRelaxedDiscreteReal s)"

definition adiv :: "shared_variables \<Rightarrow> nat" where
  "adiv s = num_int (total_counts (variablesCompsTotals s)) - bit_count (allRelaxedDiscreteInt s)"

definition adsv :: "shared_variables \<Rightarrow> nat" where
  "adsv s = fst (snd (snd (total_counts (variablesCompsTotals s))))"

definition adrv :: "shared_variables \<Rightarrow> nat" where
  "adrv s = num_real (total_counts (variablesCompsTotals s)) - bit_count (allRelaxedDiscreteReal s)"

section \<open>Views\<close>

text \<open>The selected groups: continuous and discrete design, aleatory, epistemic and state variables.\<close>

type_synonym subsets = "bool \<times> bool \<times> bool \<times> bool \<times> bool \<times> bool \<times> bool \<times> bool"

definition view_subsets :: "var_view \<Rightarrow> subsets" where
  "view_subsets v =
    (if v \<in> {RELAXED_ALL, MIXED_ALL} then (True, True, True, True, True, True, True, True)
     else if v \<in> {RELAXED_UNCERTAIN, MIXED_UNCERTAIN} then (False, False, True, True, True, True, False, False)
     else if v \<in> {RELAXED_ALEATORY_UNCERTAIN, MIXED_ALEATORY_UNCERTAIN} then (False, False, True, True, False, False, False, False)
     else if v \<in> {RELAXED_EPISTEMIC_UNCERTAIN, MIXED_EPISTEMIC_UNCERTAIN} then (False, False, False, False, True, True, False, False)
     else if v \<in> {RELAXED_DESIGN, MIXED_DESIGN} then (True, True, False, False, False, False, False, False)
     else if v \<in> {RELAXED_STATE, MIXED_STATE} then (False, False, False, False, False, False, True, True)
     else (False, False, False, False, False, False, False, False))"

definition active_subsets :: "shared_variables \<Rightarrow> subsets" where
  "active_subsets s = view_subsets (fst (variablesView s))"

definition inactive_subsets :: "shared_variables \<Rightarrow> subsets" where
  "inactive_subsets s = view_subsets (snd (variablesView s))"

definition complement_subsets :: "shared_variables \<Rightarrow> subsets" where
  "complement_subsets s = (case active_subsets s of (cdv, ddv, cauv, dauv, ceuv, deuv, csv, dsv) \<Rightarrow>
     (\<not> cdv, \<not> ddv, \<not> cauv, \<not> dauv, \<not> ceuv, \<not> deuv, \<not> csv, \<not> dsv))"
text \<open>Starts and counts of a view that skips the variables \<open>p\<close> and has the variables \<open>c\<close>; the relaxed ones are
  sought in the first \<open>n_di\<close> and \<open>n_dr\<close> discrete variables of the view.\<close>

definition relaxed_range :: "shared_variables \<Rightarrow> counts \<Rightarrow> counts \<Rightarrow> nat \<Rightarrow> nat \<Rightarrow> (counts \<times> counts) result" where
  "relaxed_range s p c n_di n_dr = (case (p, c) of ((p_cv, p_div, p_dsv, p_drv), (c_cv, c_div, c_dsv, c_drv)) \<Rightarrow>
     rbind (count_range (allRelaxedDiscreteInt s) 0 p_div) (\<lambda>start_relax_di.
     rbind (count_range (allRelaxedDiscreteInt s) p_div n_di) (\<lambda>count_relax_di.
     rbind (count_range (allRelaxedDiscreteReal s) 0 p_drv) (\<lambda>start_relax_dr.
     rbind (count_range (allRelaxedDiscreteReal s) p_drv n_dr) (\<lambda>count_relax_dr.
       Inr ((p_cv + start_relax_di + start_relax_dr, p_div - start_relax_di, p_dsv, p_drv - start_relax_dr),
         (c_cv + count_relax_di + count_relax_dr, c_div - count_relax_di, c_dsv, c_drv - count_relax_dr)))))))"

definition zero_counts :: counts where "zero_counts = (0, 0, 0, 0)"

definition view_start_counts :: "shared_variables \<Rightarrow> var_view \<Rightarrow> (counts \<times> counts) result" where
  "view_start_counts s view =
    (let t = variablesCompsTotals s; d = total_design t; a = total_aleatory t; e = total_epistemic t; st = total_state t;
         relaxed = (\<lambda>p c. relaxed_range s p c (num_int c) (num_real c)) in
     case view of
       EMPTY_VIEW \<Rightarrow> Inr (zero_counts, zero_counts)
     | MIXED_ALL \<Rightarrow> Inr (zero_counts, total_counts t)
     | MIXED_DESIGN \<Rightarrow> Inr (zero_counts, d)
     | MIXED_ALEATORY_UNCERTAIN \<Rightarrow> Inr (d, a)
     | MIXED_EPISTEMIC_UNCERTAIN \<Rightarrow> Inr (add_counts d a, e)
     | MIXED_UNCERTAIN \<Rightarrow> Inr (d, add_counts a e)
     | MIXED_STATE \<Rightarrow> Inr (add_counts (add_counts d a) e, st)
     | RELAXED_ALL \<Rightarrow> relaxed_range s zero_counts (total_counts t) (num_int d) (num_real d)
     | RELAXED_DESIGN \<Rightarrow> relaxed zero_counts d
     | RELAXED_ALEATORY_UNCERTAIN \<Rightarrow> relaxed d a
     | RELAXED_EPISTEMIC_UNCERTAIN \<Rightarrow> relaxed (add_counts d a) e
     | RELAXED_UNCERTAIN \<Rightarrow> relaxed d (add_counts a e)
     | RELAXED_STATE \<Rightarrow> relaxed (add_counts (add_counts d a) e) st)"

text \<open>The totals of the active and of the inactive view.\<close>

definition select_totals :: "comps_totals \<Rightarrow> bool \<Rightarrow> bool \<Rightarrow> bool \<Rightarrow> bool \<Rightarrow> comps_totals" where
  "select_totals t d a e st =
    \<lparr>total_design = if d then total_design t else zero_counts, total_aleatory = if a then total_aleatory t else zero_counts,
     total_epistemic = if e then total_epistemic t else zero_counts, total_state = if st then total_state t else zero_counts\<rparr>"

definition initialize_active_components :: "shared_variables \<Rightarrow> comps_totals result" where
  "initialize_active_components s =
    (let v = fst (variablesView s); t = variablesCompsTotals s in
     if v \<in> {MIXED_ALL, RELAXED_ALL} then Inr t
     else if v \<in> {MIXED_DESIGN, RELAXED_DESIGN} then Inr (select_totals t True False False False)
     else if v \<in> {MIXED_ALEATORY_UNCERTAIN, RELAXED_ALEATORY_UNCERTAIN} then Inr (select_totals t False True False False)
     else if v \<in> {MIXED_EPISTEMIC_UNCERTAIN, RELAXED_EPISTEMIC_UNCERTAIN} then Inr (select_totals t False False True False)
     else if v \<in> {MIXED_UNCERTAIN, RELAXED_UNCERTAIN} then Inr (select_totals t False True True False)
     else if v \<in> {MIXED_STATE, RELAXED_STATE} then Inr (select_totals t False False False True)
     else Inl (Abort OTHER_ERROR))"

definition initialize_inactive_components :: "shared_variables \<Rightarrow> comps_totals result" where
  "initialize_inactive_components s =
    (let v = snd (variablesView s); t = variablesCompsTotals s in
     if v \<in> {MIXED_ALL, RELAXED_ALL} then Inl (Abort OTHER_ERROR)
     else if v \<in> {MIXED_DESIGN, RELAXED_DESIGN} then Inr (select_totals t True False False False)
     else if v \<in> {MIXED_ALEATORY_UNCERTAIN, RELAXED_ALEATORY_UNCERTAIN} then Inr (select_totals t False True False False)
     else if v \<in> {MIXED_EPISTEMIC_UNCERTAIN, RELAXED_EPISTEMIC_UNCERTAIN} then Inr (select_totals t False False True False)
     else if v \<in> {MIXED_UNCERTAIN, RELAXED_UNCERTAIN} then Inr (select_totals t False True True False)
     else if v \<in> {MIXED_STATE, RELAXED_STATE} then Inr (select_totals t False False False True)
     else Inr (select_totals t False False False False))"

section \<open>Indices\<close>

datatype var_kind = CV | DIV | DSV | DRV

text \<open>The variables of a group before, of, and after a kind.\<close>

fun before_kind :: "var_kind \<Rightarrow> counts \<Rightarrow> nat" where
  "before_kind CV (n_cv, n_div, n_dsv, n_drv) = 0"
| "before_kind DIV (n_cv, n_div, n_dsv, n_drv) = n_cv"
| "before_kind DSV (n_cv, n_div, n_dsv, n_drv) = n_cv + n_div"
| "before_kind DRV (n_cv, n_div, n_dsv, n_drv) = n_cv + n_div + n_dsv"

fun of_kind :: "var_kind \<Rightarrow> counts \<Rightarrow> nat" where
  "of_kind CV (n_cv, n_div, n_dsv, n_drv) = n_cv"
| "of_kind DIV (n_cv, n_div, n_dsv, n_drv) = n_div"
| "of_kind DSV (n_cv, n_div, n_dsv, n_drv) = n_dsv"
| "of_kind DRV (n_cv, n_div, n_dsv, n_drv) = n_drv"

fun after_kind :: "var_kind \<Rightarrow> counts \<Rightarrow> nat" where
  "after_kind CV (n_cv, n_div, n_dsv, n_drv) = n_div + n_dsv + n_drv"
| "after_kind DIV (n_cv, n_div, n_dsv, n_drv) = n_dsv + n_drv"
| "after_kind DSV (n_cv, n_div, n_dsv, n_drv) = n_drv"
| "after_kind DRV (n_cv, n_div, n_dsv, n_drv) = 0"

text \<open>The scan that the four conversions to the order of all variables share.  The index counts the variables of
  the selected groups; the offset is that of the others passed so far.\<close>

fun index_to_all :: "var_kind \<Rightarrow> (bool \<times> counts result) list \<Rightarrow> nat \<Rightarrow> nat \<Rightarrow> nat \<Rightarrow> nat result" where
  "index_to_all k [] offset bound i = Inl (Abort VARS_ERROR)"
| "index_to_all k ((sel, g) # gs) offset bound i =
    rbind g (\<lambda>c. let offset1 = offset + before_kind k c in
      if sel then
        let bound1 = bound + of_kind k c in
        if i < bound1 then Inr (offset1 + i) else index_to_all k gs (offset1 + after_kind k c) bound1 i
      else index_to_all k gs (offset1 + of_kind k c + after_kind k c) bound i)"

definition groups :: "shared_variables \<Rightarrow> bool \<Rightarrow> bool \<Rightarrow> bool \<Rightarrow> bool \<Rightarrow> (bool \<times> counts result) list" where
  "groups s d a e st = [(d, design_counts s), (a, aleatory_uncertain_counts s), (e, epistemic_uncertain_counts s), (st, state_counts s)]"

definition cv_index_to_all_index :: "shared_variables \<Rightarrow> nat \<Rightarrow> bool \<Rightarrow> bool \<Rightarrow> bool \<Rightarrow> bool \<Rightarrow> nat result" where
  "cv_index_to_all_index s i cdv cauv ceuv csv = index_to_all CV (groups s cdv cauv ceuv csv) 0 0 i"

definition div_index_to_all_index :: "shared_variables \<Rightarrow> nat \<Rightarrow> bool \<Rightarrow> bool \<Rightarrow> bool \<Rightarrow> bool \<Rightarrow> nat result" where
  "div_index_to_all_index s i ddv dauv deuv dsv = index_to_all DIV (groups s ddv dauv deuv dsv) 0 0 i"

definition dsv_index_to_all_index :: "shared_variables \<Rightarrow> nat \<Rightarrow> bool \<Rightarrow> bool \<Rightarrow> bool \<Rightarrow> bool \<Rightarrow> nat result" where
  "dsv_index_to_all_index s i ddv dauv deuv dsv = index_to_all DSV (groups s ddv dauv deuv dsv) 0 0 i"

definition drv_index_to_all_index :: "shared_variables \<Rightarrow> nat \<Rightarrow> bool \<Rightarrow> bool \<Rightarrow> bool \<Rightarrow> bool \<Rightarrow> nat result" where
  "drv_index_to_all_index s i ddv dauv deuv dsv = index_to_all DRV (groups s ddv dauv deuv dsv) 0 0 i"
text \<open>The scan of the conversions to the order of the active variables; a group selects its continuous and its discrete
  variables.\<close>

fun index_to_active :: "var_kind \<Rightarrow> (bool \<times> bool \<times> counts result) list \<Rightarrow> nat \<Rightarrow> nat \<Rightarrow> nat \<Rightarrow> nat result" where
  "index_to_active k [] offset bound i = Inl (Abort VARS_ERROR)"
| "index_to_active k ((csel, dsel, g) # gs) offset bound i =
    rbind g (\<lambda>c.
      if k = CV then
        let rest = offset + (if dsel then after_kind CV c else 0) in
        if csel then
          let bound1 = bound + of_kind CV c in
          if i < bound1 then Inr (offset + i) else index_to_active k gs rest bound1 i
        else index_to_active k gs rest bound i
      else
        let offset1 = offset + (if csel then of_kind CV c else 0) in
        if dsel then
          let offset2 = offset1 + (before_kind k c - of_kind CV c); bound1 = bound + of_kind k c in
          if i < bound1 then Inr (offset2 + i) else index_to_active k gs (offset2 + after_kind k c) bound1 i
        else index_to_active k gs offset1 bound i)"

definition active_groups :: "shared_variables \<Rightarrow> (bool \<times> bool \<times> counts result) list" where
  "active_groups s = (case active_subsets s of (cdv, ddv, cauv, dauv, ceuv, deuv, csv, dsv) \<Rightarrow>
    [(cdv, ddv, design_counts s), (cauv, dauv, aleatory_uncertain_counts s), (ceuv, deuv, epistemic_uncertain_counts s),
     (csv, dsv, state_counts s)])"

definition cv_index_to_active_index :: "shared_variables \<Rightarrow> nat \<Rightarrow> nat result" where
  "cv_index_to_active_index s i = index_to_active CV (active_groups s) 0 0 i"

definition div_index_to_active_index :: "shared_variables \<Rightarrow> nat \<Rightarrow> nat result" where
  "div_index_to_active_index s i = index_to_active DIV (active_groups s) 0 0 i"

definition dsv_index_to_active_index :: "shared_variables \<Rightarrow> nat \<Rightarrow> nat result" where
  "dsv_index_to_active_index s i = index_to_active DSV (active_groups s) 0 0 i"

definition drv_index_to_active_index :: "shared_variables \<Rightarrow> nat \<Rightarrow> nat result" where
  "drv_index_to_active_index s i = index_to_active DRV (active_groups s) 0 0 i"

text \<open>The scan of the conversions from the complement of the active variables to all variables of a kind.\<close>

fun index_to_kind :: "var_kind \<Rightarrow> (bool \<times> counts result) list \<Rightarrow> nat \<Rightarrow> nat \<Rightarrow> nat \<Rightarrow> nat result" where
  "index_to_kind k [] offset bound i = Inl (Abort VARS_ERROR)"
| "index_to_kind k ((sel, g) # gs) offset bound i =
    rbind g (\<lambda>c.
      if sel then
        let bound1 = bound + of_kind k c in
        if i < bound1 then Inr (offset + i) else index_to_kind k gs offset bound1 i
      else index_to_kind k gs (offset + of_kind k c) bound i)"

definition ccv_index_to_acv_index :: "shared_variables \<Rightarrow> nat \<Rightarrow> nat result" where
  "ccv_index_to_acv_index s i = (case complement_subsets s of (cdv, ddv, cauv, dauv, ceuv, deuv, csv, dsv) \<Rightarrow>
    index_to_kind CV (groups s cdv cauv ceuv csv) 0 0 i)"

text \<open>This one asks for the counts of the design variables only.\<close>

definition cdiv_index_to_adiv_index :: "shared_variables \<Rightarrow> nat \<Rightarrow> nat result" where
  "cdiv_index_to_adiv_index s i = (case complement_subsets s of (cdv, ddv, cauv, dauv, ceuv, deuv, csv, dsv) \<Rightarrow>
    index_to_kind DIV (map (\<lambda>sel. (sel, design_counts s)) [ddv, dauv, deuv, dsv]) 0 0 i)"

definition cdsv_index_to_adsv_index :: "shared_variables \<Rightarrow> nat \<Rightarrow> nat result" where
  "cdsv_index_to_adsv_index s i = (case complement_subsets s of (cdv, ddv, cauv, dauv, ceuv, deuv, csv, dsv) \<Rightarrow>
    index_to_kind DSV (groups s ddv dauv deuv dsv) 0 0 i)"

definition cdrv_index_to_adrv_index :: "shared_variables \<Rightarrow> nat \<Rightarrow> nat result" where
  "cdrv_index_to_adrv_index s i = (case complement_subsets s of (cdv, ddv, cauv, dauv, ceuv, deuv, csv, dsv) \<Rightarrow>
    index_to_kind DRV (groups s ddv dauv deuv dsv) 0 0 i)"

text \<open>The conversions of the handle, for the active, the inactive and the complementary variables and for all.\<close>

datatype var_selection = Active_Variables | Inactive_Variables | Complement_Variables | Every_Variable

definition selected :: "shared_variables \<Rightarrow> var_selection \<Rightarrow> subsets" where
  "selected s w = (case w of Active_Variables \<Rightarrow> active_subsets s | Inactive_Variables \<Rightarrow> inactive_subsets s
     | Complement_Variables \<Rightarrow> complement_subsets s | Every_Variable \<Rightarrow> (True, True, True, True, True, True, True, True))"

definition view_index_to_all_index :: "shared_variables \<Rightarrow> var_selection \<Rightarrow> var_kind \<Rightarrow> nat \<Rightarrow> nat result" where
  "view_index_to_all_index s w k i = (case selected s w of (cdv, ddv, cauv, dauv, ceuv, deuv, csv, dsv) \<Rightarrow>
    (case k of CV \<Rightarrow> cv_index_to_all_index s i cdv cauv ceuv csv | DIV \<Rightarrow> div_index_to_all_index s i ddv dauv deuv dsv
     | DSV \<Rightarrow> dsv_index_to_all_index s i ddv dauv deuv dsv | DRV \<Rightarrow> drv_index_to_all_index s i ddv dauv deuv dsv))"

section \<open>Masks\<close>

definition set_bits_from :: "nat \<Rightarrow> nat \<Rightarrow> bool list \<Rightarrow> bool list result" where
  "set_bits_from start n bits = (if n \<noteq> 0 \<and> length bits < start + n then Inl (UndefinedBehaviour ''bit write'')
     else Inr (map_index (\<lambda>i b. b \<or> start \<le> i \<and> i < start + n) bits))"

definition empty_mask :: "shared_variables \<Rightarrow> bool list" where
  "empty_mask s = (case all_counts s of (num_cv, num_div, num_dsv, num_drv) \<Rightarrow>
     replicate (num_cv + num_div + num_dsv + num_drv) False)"

fun kind_mask :: "var_kind \<Rightarrow> (bool \<times> counts result) list \<Rightarrow> nat \<Rightarrow> bool list \<Rightarrow> bool list result" where
  "kind_mask k [] all_index bits = Inr bits"
| "kind_mask k ((sel, g) # gs) all_index bits =
    rbind g (\<lambda>c. let start = all_index + before_kind k c in
      rbind (if sel then set_bits_from start (of_kind k c) bits else Inr bits)
        (kind_mask k gs (start + of_kind k c + after_kind k c)))"

definition cv_to_all_mask :: "shared_variables \<Rightarrow> bool \<Rightarrow> bool \<Rightarrow> bool \<Rightarrow> bool \<Rightarrow> bool list result" where
  "cv_to_all_mask s cdv cauv ceuv csv = kind_mask CV (groups s cdv cauv ceuv csv) 0 (empty_mask s)"

definition div_to_all_mask :: "shared_variables \<Rightarrow> bool \<Rightarrow> bool \<Rightarrow> bool \<Rightarrow> bool \<Rightarrow> bool list result" where
  "div_to_all_mask s ddv dauv deuv dsv = kind_mask DIV (groups s ddv dauv deuv dsv) 0 (empty_mask s)"

definition dsv_to_all_mask :: "shared_variables \<Rightarrow> bool \<Rightarrow> bool \<Rightarrow> bool \<Rightarrow> bool \<Rightarrow> bool list result" where
  "dsv_to_all_mask s ddv dauv deuv dsv = kind_mask DSV (groups s ddv dauv deuv dsv) 0 (empty_mask s)"

definition drv_to_all_mask :: "shared_variables \<Rightarrow> bool \<Rightarrow> bool \<Rightarrow> bool \<Rightarrow> bool \<Rightarrow> bool list result" where
  "drv_to_all_mask s ddv dauv deuv dsv = kind_mask DRV (groups s ddv dauv deuv dsv) 0 (empty_mask s)"

fun group_mask :: "(bool \<times> bool \<times> counts result) list \<Rightarrow> nat \<Rightarrow> bool list \<Rightarrow> bool list result" where
  "group_mask [] all_index bits = Inr bits"
| "group_mask ((csel, dsel, g) # gs) all_index bits =
    rbind g (\<lambda>c. let num_cv = of_kind CV c; num_dv = after_kind CV c in
      rbind (if csel then set_bits_from all_index num_cv bits else Inr bits) (\<lambda>m.
      rbind (if dsel then set_bits_from (all_index + num_cv) num_dv m else Inr m)
        (group_mask gs (all_index + num_cv + num_dv))))"

definition active_to_all_mask :: "shared_variables \<Rightarrow> bool list result" where
  "active_to_all_mask s = group_mask (active_groups s) 0 (empty_mask s)"

definition view_to_all_mask :: "shared_variables \<Rightarrow> var_selection \<Rightarrow> var_kind \<Rightarrow> bool list result" where
  "view_to_all_mask s w k = (case selected s w of (cdv, ddv, cauv, dauv, ceuv, deuv, csv, dsv) \<Rightarrow>
    (case k of CV \<Rightarrow> cv_to_all_mask s cdv cauv ceuv csv | DIV \<Rightarrow> div_to_all_mask s ddv dauv deuv dsv
     | DSV \<Rightarrow> dsv_to_all_mask s ddv dauv deuv dsv | DRV \<Rightarrow> drv_to_all_mask s ddv dauv deuv dsv))"
section \<open>Positions in the order of all variables\<close>

text \<open>The reference: the positions of the selected variables of a kind, and of all active variables, as lists.\<close>

fun group_size :: "counts \<Rightarrow> nat" where
  "group_size (n_cv, n_div, n_dsv, n_drv) = n_cv + n_div + n_dsv + n_drv"

lemma group_size_split: "before_kind k c + of_kind k c + after_kind k c = group_size c"
  by (cases c; cases k) simp_all

fun kind_positions :: "var_kind \<Rightarrow> (bool \<times> counts) list \<Rightarrow> nat \<Rightarrow> nat list" where
  "kind_positions k [] off = []"
| "kind_positions k ((sel, c) # gs) off =
    (if sel then [off + before_kind k c ..< off + before_kind k c + of_kind k c] else []) @ kind_positions k gs (off + group_size c)"

fun active_positions :: "(bool \<times> bool \<times> counts) list \<Rightarrow> nat \<Rightarrow> nat list" where
  "active_positions [] off = []"
| "active_positions ((csel, dsel, c) # gs) off =
    (if csel then [off ..< off + of_kind CV c] else []) @ (if dsel then [off + of_kind CV c ..< off + group_size c] else []) @
    active_positions gs (off + group_size c)"

definition counted :: "(bool \<times> counts) list \<Rightarrow> (bool \<times> counts result) list" where
  "counted = map (\<lambda>(sel, c). (sel, Inr c))"

definition counted2 :: "(bool \<times> bool \<times> counts) list \<Rightarrow> (bool \<times> bool \<times> counts result) list" where
  "counted2 = map (\<lambda>(csel, dsel, c). (csel, dsel, Inr c))"

lemma counted_simps [simp]:
  "counted [] = []" "counted ((sel, c) # gs) = (sel, Inr c) # counted gs"
  "counted2 [] = []" "counted2 ((csel, dsel, c) # hs) = (csel, dsel, Inr c) # counted2 hs"
  by (simp_all add: counted_def counted2_def)

lemma index_to_all_positions:
  "bound \<le> i \<Longrightarrow> index_to_all k (counted gs) offset bound i =
    (if i - bound < length (kind_positions k gs (offset + bound)) then Inr (kind_positions k gs (offset + bound) ! (i - bound))
     else Inl (Abort VARS_ERROR))"
proof (induction gs arbitrary: offset bound)
  case (Cons e gs)
  obtain sel c where e: "e = (sel, c)" by (cases e)
  note sz = group_size_split [of k c]
  have q: "offset + before_kind k c + after_kind k c + (bound + of_kind k c) = offset + bound + group_size c"
    "offset + before_kind k c + of_kind k c + after_kind k c + bound = offset + bound + group_size c"
    using sz by simp_all
  note IH1 = Cons.IH [of "bound + of_kind k c" "offset + before_kind k c + after_kind k c", unfolded q]
    and IH2 = Cons.IH [of bound "offset + before_kind k c + of_kind k c + after_kind k c", unfolded q]
  consider (found) "sel" "i < bound + of_kind k c" | (further) "sel" "bound + of_kind k c \<le> i" | (skipped) "\<not> sel"
    by linarith
  then show ?case
  proof cases
    case found
    then show ?thesis using Cons.prems by (simp add: e nth_append less_diff_conv2 add.commute add.left_commute)
  next
    case further
    then obtain j where j: "i = bound + of_kind k c + j" using le_Suc_ex by blast
    then have "i - bound = of_kind k c + j" by simp
    then show ?thesis using IH1 further by (simp add: e j nth_append)
  next
    case skipped
    then show ?thesis using IH2 Cons.prems by (simp add: e)
  qed
qed simp

lemma kind_positions_bounds: "a \<in> set (kind_positions k gs off) \<Longrightarrow> off \<le> a \<and> a < off + sum_list (map (group_size \<circ> snd) gs)"
proof (induction gs arbitrary: off)
  case (Cons e gs)
  obtain sel c where e: "e = (sel, c)" by (cases e)
  have "before_kind k c + of_kind k c \<le> group_size c" using group_size_split [of k c] by simp
  moreover have "off + before_kind k c \<le> a \<and> a < off + before_kind k c + of_kind k c \<or> a \<in> set (kind_positions k gs (off + group_size c))"
    using Cons.prems by (auto simp: e split: if_splits)
  ultimately show ?case using Cons.IH [of "off + group_size c"] by (auto simp: e)
qed simp

lemma active_positions_bounds: "a \<in> set (active_positions gs off) \<Longrightarrow> off \<le> a \<and> a < off + sum_list (map (group_size \<circ> snd \<circ> snd) gs)"
proof (induction gs arbitrary: off)
  case (Cons e gs)
  obtain x y c where e: "e = (x, y, c)" by (cases e)
  have "of_kind CV c \<le> group_size c" using group_size_split [of CV c] by simp
  moreover have "off \<le> a \<and> a < off + of_kind CV c \<or> off + of_kind CV c \<le> a \<and> a < off + group_size c \<or>
      a \<in> set (active_positions gs (off + group_size c))"
    using Cons.prems by (auto simp: e split: if_splits)
  ultimately show ?case using Cons.IH [of "off + group_size c"] by (auto simp: e)
qed simp

lemma kind_positions_sorted: "sorted_wrt (<) (kind_positions k gs off)"
proof (induction gs arbitrary: off)
  case (Cons e gs)
  obtain sel c where e: "e = (sel, c)" by (cases e)
  have "before_kind k c + of_kind k c \<le> group_size c" using group_size_split [of k c] by simp
  then show ?case using Cons.IH by (auto simp: e sorted_wrt_append dest!: kind_positions_bounds)
qed simp

lemma active_positions_sorted: "sorted_wrt (<) (active_positions gs off)"
proof (induction gs arbitrary: off)
  case (Cons e gs)
  obtain x y c where e: "e = (x, y, c)" by (cases e)
  have "of_kind CV c \<le> group_size c" using group_size_split [of CV c] by simp
  then show ?case using Cons.IH by (auto simp: e sorted_wrt_append dest!: active_positions_bounds)
qed simp

section \<open>Masks select the positions\<close>

definition mark :: "nat set \<Rightarrow> bool list \<Rightarrow> bool list" where
  "mark A bits = map_index (\<lambda>i b. b \<or> i \<in> A) bits"

lemma mark_mark [simp]: "mark A (mark B bits) = mark (A \<union> B) bits"
  by (auto simp: mark_def intro!: nth_equalityI)

lemma length_mark [simp]: "length (mark A bits) = length bits"
  by (simp add: mark_def)

lemma mark_empty [simp]: "mark {} bits = bits"
  by (auto simp: mark_def intro!: nth_equalityI)

lemma set_bits_from_mark: "start + n \<le> length bits \<Longrightarrow> set_bits_from start n bits = Inr (mark {start ..< start + n} bits)"
  by (auto simp: set_bits_from_def mark_def intro!: nth_equalityI)

lemma interval_collect: "{x. (a :: nat) \<le> x \<and> x < b} = {a ..< b}"
  by auto

lemma kind_mask_mark:
  "off + sum_list (map (group_size \<circ> snd) gs) \<le> length bits \<Longrightarrow>
    kind_mask k (counted gs) off bits = Inr (mark (set (kind_positions k gs off)) bits)"
proof (induction gs arbitrary: off bits)
  case (Cons e gs)
  obtain sel c where e: "e = (sel, c)" by (cases e)
  have sz: "off + before_kind k c + of_kind k c + after_kind k c = off + group_size c"
    "off + before_kind k c + of_kind k c \<le> length bits"
    using group_size_split [of k c] Cons.prems by (simp_all add: e)
  show ?case
    using Cons.IH [of "off + group_size c" "mark {off + before_kind k c ..< off + before_kind k c + of_kind k c} bits"]
      Cons.IH [of "off + group_size c" bits] Cons.prems
    by (simp add: e Let_def set_bits_from_mark sz interval_collect Un_commute add.assoc [symmetric])
qed simp

lemma group_mask_mark:
  "off + sum_list (map (group_size \<circ> snd \<circ> snd) gs) \<le> length bits \<Longrightarrow>
    group_mask (counted2 gs) off bits = Inr (mark (set (active_positions gs off)) bits)"
proof (induction gs arbitrary: off bits)
  case (Cons e gs)
  obtain x y c where e: "e = (x, y, c)" by (cases e)
  have sz: "off + of_kind CV c + after_kind CV c = off + group_size c" "off + group_size c \<le> length bits"
    "off + of_kind CV c \<le> length bits"
    using group_size_split [of CV c] Cons.prems by (simp_all add: e) (cases c; simp)+
  let ?m1 = "if x then mark {off ..< off + of_kind CV c} bits else bits"
  let ?m2 = "if y then mark {off + of_kind CV c ..< off + group_size c} ?m1 else ?m1"
  have "group_mask (counted2 (e # gs)) off bits = group_mask (counted2 gs) (off + group_size c) ?m2"
    using sz(2,3) by (simp add: e Let_def set_bits_from_mark sz(1))
  also have "\<dots> = Inr (mark (set (active_positions gs (off + group_size c))) ?m2)"
    using Cons.prems by (intro Cons.IH) (simp add: e)
  finally show ?case by (simp add: e interval_collect Un_commute Un_left_commute)
qed simp

text \<open>The set bits of a mask, in order.\<close>

definition set_positions :: "bool list \<Rightarrow> nat list" where
  "set_positions m = filter (\<lambda>a. m ! a) [0..<length m]"

lemma set_positions_mark:
  assumes "sorted_wrt (<) ps" "\<forall>a \<in> set ps. a < n"
  shows "set_positions (mark (set ps) (replicate n False)) = ps"
proof (rule sorted_distinct_set_unique)
  show "sorted ps" "distinct ps" using assms(1) by (simp_all add: strict_sorted_iff)
  show "set (set_positions (mark (set ps) (replicate n False))) = set ps"
    using assms(2) by (auto simp: set_positions_def mark_def)
qed (simp_all add: set_positions_def sorted_wrt_filter)
section \<open>Indices into the active variables\<close>

definition kind_selection :: "var_kind \<Rightarrow> (bool \<times> bool \<times> counts) list \<Rightarrow> (bool \<times> counts) list" where
  "kind_selection k = map (\<lambda>(csel, dsel, c). (if k = CV then csel else dsel, c))"

text \<open>A scan that has passed the active variables \<open>offset + bound\<close> finds the rank of the variable among the rest.\<close>

definition finds_rank :: "nat result \<Rightarrow> nat \<Rightarrow> nat list \<Rightarrow> nat list \<Rightarrow> nat \<Rightarrow> bool" where
  "finds_rank res passed ps as i \<longleftrightarrow>
    (if i < length ps then \<exists>r < length as. res = Inr (passed + r) \<and> as ! r = ps ! i else res = Inl (Abort VARS_ERROR))"

lemma finds_rank_skip:
  assumes "finds_rank res (passed + length xs) ps as i"
  shows "finds_rank res passed ps (xs @ as) i"
proof (cases "i < length ps")
  case True
  then obtain r where "r < length as" "res = Inr (passed + length xs + r)" "as ! r = ps ! i" using assms by (auto simp: finds_rank_def)
  then show ?thesis using True by (auto simp: finds_rank_def nth_append intro!: exI [of _ "length xs + r"])
qed (use assms in \<open>simp add: finds_rank_def\<close>)

lemma finds_rank_later:
  "finds_rank res passed ps as j \<Longrightarrow> finds_rank res passed (qs @ ps) as (length qs + j)"
  by (simp add: finds_rank_def nth_append)

lemma index_to_active_ranks:
  "bound \<le> i \<Longrightarrow> finds_rank (index_to_active k (counted2 hs) offset bound i) (offset + bound)
    (kind_positions k (kind_selection k hs) off) (active_positions hs off) (i - bound)"
proof (induction hs arbitrary: offset bound off)
  case Nil
  then show ?case by (simp add: finds_rank_def kind_selection_def)
next
  case (Cons e hs)
  obtain x y c where e: "e = (x, y, c)" by (cases e)
  let ?cv = "of_kind CV c" and ?b = "before_kind k c" and ?n = "of_kind k c" and ?a = "after_kind k c"
  let ?xs = "if x then [off ..< off + ?cv] else []" and ?ys = "if y then [off + ?cv ..< off + group_size c] else []"
  let ?P = "kind_positions k (kind_selection k hs) (off + group_size c)" and ?A = "active_positions hs (off + group_size c)"
  let ?sel = "if k = CV then x else y"
  let ?qs = "if ?sel then [off + ?b ..< off + ?b + ?n] else []"
  have P: "kind_positions k (kind_selection k (e # hs)) off = ?qs @ ?P" by (simp add: kind_selection_def e)
  have A: "active_positions (e # hs) off = (?xs @ ?ys) @ ?A" by (simp add: e)
  note sz = group_size_split [of k c] group_size_split [of CV c]
  have cv: "before_kind CV c = 0" "k \<noteq> CV \<Longrightarrow> ?cv \<le> ?b" by (cases c; cases k; simp)+
  have lens: "length ?xs = (if x then ?cv else 0)" "length ?ys = (if y then after_kind CV c else 0)"
    using sz(2) cv(1) by auto
  show ?case
  proof (cases "?sel \<and> i < bound + ?n")
    case True
    let ?r = "(if k = CV then 0 else length ?xs + (?b - ?cv)) + (i - bound)"
    have res: "index_to_active k (counted2 (e # hs)) offset bound i = Inr (offset + bound + ?r)"
      using True Cons.prems by (auto simp: e Let_def split: if_splits)
    have i: "i - bound < ?n" using True Cons.prems by linarith
    have r: "?r < length (?xs @ ?ys)" "(?xs @ ?ys) ! ?r = off + ?b + (i - bound)"
    proof -
      have "?r < length (?xs @ ?ys) \<and> (?xs @ ?ys) ! ?r = off + ?b + (i - bound)"
      proof (cases "k = CV")
        case True
        then have "x" using \<open>?sel \<and> i < bound + ?n\<close> by simp
        then show ?thesis using True i cv(1) by (simp add: nth_append)
      next
        case False
        then have y: "y" using True by simp
        have b: "?b - ?cv + (i - bound) < group_size c - ?cv" "?cv + (?b - ?cv + (i - bound)) = ?b + (i - bound)"
          using i sz cv(2) [OF False] by linarith+
        then have "?ys ! (?b - ?cv + (i - bound)) = off + ?b + (i - bound)" using y by (simp add: add.assoc)
        moreover have "?b + (i - bound) < group_size c" using i sz by linarith
        ultimately show ?thesis using False b y by (simp add: nth_append add.assoc)
      qed
      then show "?r < length (?xs @ ?ys)" "(?xs @ ?ys) ! ?r = off + ?b + (i - bound)" by blast+
    qed
    have "?qs ! (i - bound) = off + ?b + (i - bound)" "i - bound < length ?qs" using True i by simp_all
    then have "(?qs @ ?P) ! (i - bound) = off + ?b + (i - bound)" "i - bound < length (?qs @ ?P)"
      by (simp_all add: nth_append del: length_upt)
    moreover have "((?xs @ ?ys) @ ?A) ! ?r = off + ?b + (i - bound)" "?r < length ((?xs @ ?ys) @ ?A)"
      using r by (simp_all only: nth_append length_append if_True)
    ultimately show ?thesis
      unfolding P A finds_rank_def res by (intro if_P [THEN iffD2] exI [of _ ?r]) auto
  next
    case False
    let ?o = "offset + (if k = CV then if y then after_kind CV c else 0 else (if x then ?cv else 0) + (if y then (?b - ?cv) + ?a else 0))"
    let ?bd = "if ?sel then bound + ?n else bound"
    have res: "index_to_active k (counted2 (e # hs)) offset bound i = index_to_active k (counted2 hs) ?o ?bd i"
      using False by (auto simp: e Let_def add.assoc)
    have "?bd \<le> i" using False Cons.prems by auto
    from Cons.IH [OF this, of ?o "off + group_size c"]
    have "finds_rank (index_to_active k (counted2 hs) ?o ?bd i) (?o + ?bd) ?P ?A (i - ?bd)" .
    moreover have "?o + ?bd = offset + bound + length (?xs @ ?ys)"
      unfolding length_append lens using sz cv by (cases "k = CV") auto
    moreover have "i - bound = length ?qs + (i - ?bd)" using False Cons.prems by auto
    ultimately show ?thesis unfolding P A res using finds_rank_skip finds_rank_later by metis
  qed
qed

end
