(* ===== verification/View_Properties.thy ===== *)
theory View_Properties
  imports Variable_Views
begin

text \<open>
  What the counts, masks and index conversions of \<open>Variable_Views\<close> promise.

  The reference is the list of positions of a selection of variables in the order of all variables.  A mask
  marks these positions, an index conversion returns the entry of the list at the index, and the slice of a
  view is the part of the list of all variables that belongs to the view.
\<close>

section \<open>Groups after relaxation\<close>

text \<open>The bit arrays have a bit for every discrete variable, or none is relaxed.\<close>

definition relaxation_ok :: "shared_variables \<Rightarrow> bool" where
  "relaxation_ok s \<longleftrightarrow> (any_relaxed s \<longrightarrow>
    length (allRelaxedDiscreteInt s) = num_int (total_counts (variablesCompsTotals s)) \<and>
    length (allRelaxedDiscreteReal s) = num_real (total_counts (variablesCompsTotals s)))"

definition bits_in :: "bool list \<Rightarrow> nat \<Rightarrow> nat \<Rightarrow> nat" where
  "bits_in b off n = bit_count (take n (drop off b))"

lemma bits_in_le: "bits_in b off n \<le> n"
proof -
  have "bits_in b off n \<le> length (take n (drop off b))" unfolding bits_in_def bit_count_def by (rule length_filter_le)
  then show ?thesis by simp
qed

lemma bits_in_add: "bits_in b off m + bits_in b (off + m) n = bits_in b off (m + n)"
  by (simp add: bits_in_def bit_count_def take_add add.commute)

lemma bits_in_all: "bits_in b 0 (length b) = bit_count b"
  by (simp add: bits_in_def)

lemma no_bits: "True \<notin> set b \<Longrightarrow> bit_count b = 0"
  by (auto simp: bit_count_def filter_empty_conv)

lemma count_range_bits: "off + n \<le> length b \<Longrightarrow> count_range b off n = Inr (bits_in b off n)"
  by (simp add: count_range_def bits_in_def)

text \<open>The counts of a group whose discrete variables start at two offsets of the bit arrays.\<close>

definition relaxed_counts :: "shared_variables \<Rightarrow> counts \<Rightarrow> nat \<Rightarrow> nat \<Rightarrow> counts" where
  "relaxed_counts s c oi odr = (case c of (cv, di, ds, dr) \<Rightarrow>
    let ri = bits_in (allRelaxedDiscreteInt s) oi di; rr = bits_in (allRelaxedDiscreteReal s) odr dr in (cv + ri + rr, di - ri, ds, dr - rr))"

definition group_counts :: "shared_variables \<Rightarrow> counts \<Rightarrow> counts \<Rightarrow> counts" where
  "group_counts s before c = (if any_relaxed s then relaxed_counts s c (num_int before) (num_real before) else c)"

lemma num_add [simp]: "num_int (add_counts c d) = num_int c + num_int d" "num_real (add_counts c d) = num_real c + num_real d"
  by (simp_all add: num_int_def num_real_def add_counts_def split: prod.splits)

lemma group_size_add [simp]: "group_size (add_counts c d) = group_size c + group_size d"
  by (cases c; cases d) (simp add: add_counts_def)

lemma of_kind_add [simp]: "of_kind k (add_counts c d) = of_kind k c + of_kind k d"
  by (cases c; cases d; cases k) (simp_all add: add_counts_def)

lemma num_zero [simp]: "num_int zero_counts = 0" "num_real zero_counts = 0" "group_size zero_counts = 0" "of_kind k zero_counts = 0"
  by (cases k; simp add: zero_counts_def num_int_def num_real_def)+

lemma relaxed_counts_add:
  "add_counts (relaxed_counts s c oi odr) (relaxed_counts s d (oi + num_int c) (odr + num_real c)) =
    relaxed_counts s (add_counts c d) oi odr"
proof -
  obtain c1 c2 c3 c4 d1 d2 d3 d4 where cd: "c = (c1, c2, c3, c4)" "d = (d1, d2, d3, d4)" by (metis surj_pair)
  have *: "m - bits_in x o1 m + (n - bits_in x (o1 + m) n) = m + n - bits_in x o1 (m + n)" for x o1 m n
    using bits_in_le [of x o1 m] bits_in_le [of x "o1 + m" n] bits_in_add [of x o1 m n] by linarith
  show ?thesis
    by (simp add: cd num_int_def num_real_def relaxed_counts_def Let_def add_counts_def *) (simp add: bits_in_add [symmetric])
qed

lemma group_counts_add:
  "add_counts (group_counts s b c) (group_counts s (add_counts b c) d) = group_counts s b (add_counts c d)"
  by (simp add: group_counts_def relaxed_counts_add)
lemma add_zero_counts [simp]: "add_counts zero_counts c = c"
  by (cases c) (simp add: add_counts_def zero_counts_def)

lemma group_size_kinds: "group_size c = of_kind CV c + of_kind DIV c + of_kind DSV c + of_kind DRV c"
  by (cases c) simp

lemma group_counts_size: "group_size (group_counts s b c) = group_size c"
  using bits_in_le [of "allRelaxedDiscreteInt s" "num_int b"] bits_in_le [of "allRelaxedDiscreteReal s" "num_real b"]
  by (cases c) (simp add: group_counts_def relaxed_counts_def Let_def)

lemma relax_counts_ok:
  assumes "relaxation_ok s" "any_relaxed s" "oi + num_int c \<le> num_int (total_counts (variablesCompsTotals s))"
    "odr + num_real c \<le> num_real (total_counts (variablesCompsTotals s))"
  shows "relax_counts s c oi odr = Inr (relaxed_counts s c oi odr)"
  using assms by (cases c) (simp add: relaxation_ok_def relax_counts_def relaxed_counts_def num_int_def num_real_def count_range_bits Let_def)

definition variable_groups :: "shared_variables \<Rightarrow> counts list" where
  "variable_groups s = (let t = variablesCompsTotals s in
    [group_counts s zero_counts (total_design t), group_counts s (total_design t) (total_aleatory t),
     group_counts s (add_counts (total_design t) (total_aleatory t)) (total_epistemic t),
     group_counts s (add_counts (add_counts (total_design t) (total_aleatory t)) (total_epistemic t)) (total_state t)])"

lemma group_counts_ok:
  assumes "relaxation_ok s"
  shows "design_counts s = Inr (variable_groups s ! 0)" "aleatory_uncertain_counts s = Inr (variable_groups s ! 1)"
    "epistemic_uncertain_counts s = Inr (variable_groups s ! 2)" "state_counts s = Inr (variable_groups s ! 3)"
  using assms by (simp_all add: design_counts_def aleatory_uncertain_counts_def epistemic_uncertain_counts_def state_counts_def
    variable_groups_def group_counts_def Let_def relax_counts_ok total_counts_def eval_nat_numeral)

lemma groups_counted: "relaxation_ok s \<Longrightarrow> groups s d a e st = counted (zip [d, a, e, st] (variable_groups s))"
  by (simp add: groups_def group_counts_ok) (simp add: variable_groups_def Let_def eval_nat_numeral)

lemma active_groups_counted:
  "relaxation_ok s \<Longrightarrow> active_subsets s = (cdv, ddv, cauv, dauv, ceuv, deuv, csv, dsv) \<Longrightarrow>
    active_groups s = counted2 (zip [cdv, cauv, ceuv, csv] (zip [ddv, dauv, deuv, dsv] (variable_groups s)))"
  by (simp add: active_groups_def group_counts_ok) (simp add: variable_groups_def Let_def eval_nat_numeral)

lemma length_variable_groups [simp]: "length (variable_groups s) = 4"
  by (simp add: variable_groups_def Let_def)

lemma all_counts_ok: "relaxation_ok s \<Longrightarrow> all_counts s = group_counts s zero_counts (total_counts (variablesCompsTotals s))"
  using bits_in_all [of "allRelaxedDiscreteInt s"] bits_in_all [of "allRelaxedDiscreteReal s"]
  by (cases "total_counts (variablesCompsTotals s)")
    (auto simp: all_counts_def group_counts_def relaxed_counts_def relaxation_ok_def Let_def num_int_def num_real_def zero_counts_def)

lemma groups_add_up:
  assumes "relaxation_ok s"
  shows "sum_list (map (of_kind k) (variable_groups s)) = of_kind k (all_counts s)"
proof -
  let ?t = "variablesCompsTotals s"
  have "all_counts s = add_counts (add_counts (add_counts (variable_groups s ! 0) (variable_groups s ! 1)) (variable_groups s ! 2)) (variable_groups s ! 3)"
    unfolding all_counts_ok [OF assms] total_counts_def
    by (simp add: variable_groups_def Let_def eval_nat_numeral group_counts_add [symmetric])
  then have "of_kind k (all_counts s) = of_kind k (variable_groups s ! 0) + of_kind k (variable_groups s ! 1) + of_kind k (variable_groups s ! 2) + of_kind k (variable_groups s ! 3)"
    by simp
  then show ?thesis by (simp add: variable_groups_def Let_def eval_nat_numeral)
qed

lemma group_sizes_add_up: "relaxation_ok s \<Longrightarrow> sum_list (map group_size (variable_groups s)) = group_size (all_counts s)"
  by (simp add: group_size_kinds [abs_def] sum_list_addf groups_add_up)
section \<open>Positions of a selection\<close>

definition kind_flags :: "shared_variables \<Rightarrow> var_selection \<Rightarrow> var_kind \<Rightarrow> bool list" where
  "kind_flags s w k = (case selected s w of (cdv, ddv, cauv, dauv, ceuv, deuv, csv, dsv) \<Rightarrow>
    if k = CV then [cdv, cauv, ceuv, csv] else [ddv, dauv, deuv, dsv])"

definition positions :: "shared_variables \<Rightarrow> var_selection \<Rightarrow> var_kind \<Rightarrow> nat list" where
  "positions s w k = kind_positions k (zip (kind_flags s w k) (variable_groups s)) 0"

lemma length_kind_flags [simp]: "length (kind_flags s w k) = 4"
  by (simp add: kind_flags_def split: prod.splits)

lemma view_index_positions:
  assumes "relaxation_ok s"
  shows "view_index_to_all_index s w k i =
    (if i < length (positions s w k) then Inr (positions s w k ! i) else Inl (Abort VARS_ERROR))"
proof -
  obtain cdv ddv cauv dauv ceuv deuv csv dsv where sel: "selected s w = (cdv, ddv, cauv, dauv, ceuv, deuv, csv, dsv)"
    by (metis surj_pair)
  show ?thesis
    by (cases k) (simp_all add: view_index_to_all_index_def sel positions_def kind_flags_def groups_counted [OF assms]
      cv_index_to_all_index_def div_index_to_all_index_def dsv_index_to_all_index_def drv_index_to_all_index_def
      index_to_all_positions)
qed

lemma group_sizes_zip: "length fs = 4 \<Longrightarrow> map (group_size \<circ> snd) (zip fs (variable_groups s)) = map group_size (variable_groups s)"
  by (simp add: map_map [symmetric] del: map_map)

lemma empty_mask_length: "empty_mask s = replicate (group_size (all_counts s)) False"
  by (cases "all_counts s") (simp add: empty_mask_def)

lemma kind_mask_positions:
  assumes "relaxation_ok s" "length fs = 4"
  shows "kind_mask k (counted (zip fs (variable_groups s))) 0 (empty_mask s) =
    Inr (mark (set (kind_positions k (zip fs (variable_groups s)) 0)) (replicate (group_size (all_counts s)) False))"
  unfolding empty_mask_length using assms by (intro kind_mask_mark) (simp add: group_sizes_zip group_sizes_add_up)

lemma view_mask_positions:
  assumes "relaxation_ok s"
  shows "view_to_all_mask s w k = Inr (mark (set (positions s w k)) (replicate (group_size (all_counts s)) False))"
proof -
  obtain cdv ddv cauv dauv ceuv deuv csv dsv where sel: "selected s w = (cdv, ddv, cauv, dauv, ceuv, deuv, csv, dsv)"
    by (metis surj_pair)
  show ?thesis
    by (cases k) (simp_all add: view_to_all_mask_def sel positions_def kind_flags_def groups_counted [OF assms]
      cv_to_all_mask_def div_to_all_mask_def dsv_to_all_mask_def drv_to_all_mask_def kind_mask_positions [OF assms])
qed

lemma positions_bounds: "relaxation_ok s \<Longrightarrow> a \<in> set (positions s w k) \<Longrightarrow> a < group_size (all_counts s)"
  using kind_positions_bounds [of a k "zip (kind_flags s w k) (variable_groups s)" 0]
  by (simp add: positions_def group_sizes_zip group_sizes_add_up)

lemma positions_sorted: "sorted_wrt (<) (positions s w k)"
  by (simp add: positions_def kind_positions_sorted)

text \<open>C10: The index conversions and the masks describe the same selection of variables.  For every view (active,
  inactive, complement, all) and kind, the mask exists, has a bit per variable, and the conversion maps index
  \<open>i\<close> to the position of the \<open>i\<close>-th bit set; an index past the last bit aborts.\<close>

theorem indices_enumerate_masks:
  assumes "relaxation_ok s"
  shows "\<exists>m. view_to_all_mask s w k = Inr m \<and> length m = group_size (all_counts s) \<and>
    (\<forall>i. view_index_to_all_index s w k i =
      (if i < length (set_positions m) then Inr (set_positions m ! i) else Inl (Abort VARS_ERROR)))"
  using set_positions_mark [OF positions_sorted [of s w k]] positions_bounds [OF assms, of _ w k]
  by (simp add: view_mask_positions [OF assms] view_index_positions [OF assms])
section \<open>Indices into the active variables\<close>

definition index_to_active_index :: "shared_variables \<Rightarrow> var_kind \<Rightarrow> nat \<Rightarrow> nat result" where
  "index_to_active_index s k i = (case k of CV \<Rightarrow> cv_index_to_active_index s i | DIV \<Rightarrow> div_index_to_active_index s i
     | DSV \<Rightarrow> dsv_index_to_active_index s i | DRV \<Rightarrow> drv_index_to_active_index s i)"

text \<open>The positions of all active variables.\<close>

definition active_order :: "shared_variables \<Rightarrow> nat list" where
  "active_order s = active_positions
    (zip (kind_flags s Active_Variables CV) (zip (kind_flags s Active_Variables DIV) (variable_groups s))) 0"

lemma four_elements: "length xs = 4 \<Longrightarrow> \<exists>a b c d. xs = [a, b, c, d]"
  by (auto simp: eval_nat_numeral length_Suc_conv)

lemma active_groups_flags:
  assumes "relaxation_ok s"
  shows "active_groups s = counted2 (zip (kind_flags s Active_Variables CV) (zip (kind_flags s Active_Variables DIV) (variable_groups s)))"
proof -
  obtain cdv ddv cauv dauv ceuv deuv csv dsv where sel: "active_subsets s = (cdv, ddv, cauv, dauv, ceuv, deuv, csv, dsv)"
    by (metis surj_pair)
  show ?thesis by (simp add: active_groups_counted [OF assms sel] kind_flags_def selected_def sel)
qed

lemma kind_selection_flags:
  "kind_selection k (zip (kind_flags s Active_Variables CV) (zip (kind_flags s Active_Variables DIV) (variable_groups s))) =
    zip (kind_flags s Active_Variables k) (variable_groups s)"
proof -
  obtain a b c d where "variable_groups s = [a, b, c, d]" using four_elements [OF length_variable_groups] by blast
  then show ?thesis by (simp add: kind_selection_def kind_flags_def split: prod.splits)
qed

lemma active_mask_positions:
  assumes "relaxation_ok s"
  shows "active_to_all_mask s = Inr (mark (set (active_order s)) (replicate (group_size (all_counts s)) False))"
proof -
  have "map (group_size \<circ> snd \<circ> snd) (zip fs (zip gs (variable_groups s))) = map group_size (variable_groups s)"
    if "length fs = 4" "length gs = 4" for fs gs :: "bool list"
    using that by (simp add: map_map [symmetric] del: map_map)
  then show ?thesis
    unfolding active_to_all_mask_def active_groups_flags [OF assms] active_order_def empty_mask_length
    by (intro group_mask_mark) (simp add: group_sizes_add_up [OF assms])
qed

lemma active_order_bounds: "relaxation_ok s \<Longrightarrow> a \<in> set (active_order s) \<Longrightarrow> a < group_size (all_counts s)"
proof -
  assume s: "relaxation_ok s" and a: "a \<in> set (active_order s)"
  have "map (group_size \<circ> snd \<circ> snd) (zip fs (zip gs (variable_groups s))) = map group_size (variable_groups s)"
    if "length fs = 4" "length gs = 4" for fs gs :: "bool list"
    using that by (simp add: map_map [symmetric] del: map_map)
  with active_positions_bounds [OF a [unfolded active_order_def]] show ?thesis by (simp add: group_sizes_add_up [OF s])
qed

lemma index_to_active_index_rank:
  assumes "relaxation_ok s"
  shows "finds_rank (index_to_active_index s k i) 0 (positions s Active_Variables k) (active_order s) i"
proof -
  have "index_to_active_index s k i = index_to_active k (active_groups s) 0 0 i"
    by (cases k) (simp_all add: index_to_active_index_def cv_index_to_active_index_def div_index_to_active_index_def
      dsv_index_to_active_index_def drv_index_to_active_index_def)
  moreover have "positions s Active_Variables k = kind_positions k (kind_selection k
      (zip (kind_flags s Active_Variables CV) (zip (kind_flags s Active_Variables DIV) (variable_groups s)))) 0"
    by (simp only: positions_def kind_selection_flags)
  ultimately show ?thesis
    using index_to_active_ranks [of 0 i k _ 0 0] by (simp add: active_groups_flags [OF assms] active_order_def)
qed

lemma rank_in_mask:
  assumes ps: "sorted_wrt (<) ps" "\<forall>a \<in> set ps. a < n" and r: "r < length ps"
  shows "length (filter (\<lambda>b. b) (take (ps ! r) (mark (set ps) (replicate n False)))) = r"
proof -
  let ?m = "mark (set ps) (replicate n False)"
  have a: "ps ! r < n" using ps(2) r by simp
  have "{i. i < length (take (ps ! r) ?m) \<and> take (ps ! r) ?m ! i} = (!) ps ` {..<r}"
  proof (intro set_eqI iffI)
    fix i assume "i \<in> {i. i < length (take (ps ! r) ?m) \<and> take (ps ! r) ?m ! i}"
    then have *: "i < ps ! r" "take (ps ! r) ?m ! i" by simp_all
    have "i \<in> set ps" using *(2) a unfolding nth_take [OF *(1)] mark_def by (simp add: order.strict_trans [OF *(1) a])
    then obtain j where j: "j < length ps" "ps ! j = i" by (auto simp: in_set_conv_nth)
    have "\<not> r \<le> j"
      using sorted_wrt_nth_less [OF ps(1), of r j] j *(1) by (cases "r = j") auto
    then show "i \<in> (!) ps ` {..<r}" using j by auto
  next
    fix i assume "i \<in> (!) ps ` {..<r}"
    then obtain j where "j < r" "i = ps ! j" by auto
    moreover have "ps ! j < ps ! r" using sorted_wrt_nth_less [OF ps(1)] \<open>j < r\<close> r by simp
    ultimately show "i \<in> {i. i < length (take (ps ! r) ?m) \<and> take (ps ! r) ?m ! i}" using a r by (simp add: mark_def)
  qed
  moreover have "inj_on ((!) ps) {..<r}" using ps(1) r by (intro inj_on_nth) (auto simp: strict_sorted_iff)
  ultimately show ?thesis by (simp add: length_filter_conv_card card_image)
qed

text \<open>C35: The index of an active variable is its rank among the active variables: the mask of the active variables has
  as many bits set before the variable as the conversion returns.  An index past the last active variable of the kind
  aborts.\<close>

theorem active_index_is_rank:
  assumes "relaxation_ok s"
  shows "\<exists>m. active_to_all_mask s = Inr m \<and>
    (\<forall>k i. case view_index_to_all_index s Active_Variables k i of
        Inr a \<Rightarrow> a < length m \<and> m ! a \<and> index_to_active_index s k i = Inr (length (filter (\<lambda>b. b) (take a m)))
      | Inl e \<Rightarrow> index_to_active_index s k i = Inl (Abort VARS_ERROR))"
proof -
  let ?m = "mark (set (active_order s)) (replicate (group_size (all_counts s)) False)"
  have "sorted_wrt (<) (active_order s)" by (simp add: active_order_def active_positions_sorted)
  then have rank: "length (filter (\<lambda>b. b) (take (active_order s ! r) ?m)) = r" if "r < length (active_order s)" for r
    using active_order_bounds [OF assms] that by (intro rank_in_mask) auto
  have bits: "active_order s ! r < length ?m \<and> ?m ! (active_order s ! r)" if "r < length (active_order s)" for r
    using active_order_bounds [OF assms] that by (simp add: mark_def)
  have "case view_index_to_all_index s Active_Variables k i of
      Inr a \<Rightarrow> a < length ?m \<and> ?m ! a \<and> index_to_active_index s k i = Inr (length (filter (\<lambda>b. b) (take a ?m)))
    | Inl e \<Rightarrow> index_to_active_index s k i = Inl (Abort VARS_ERROR)" for k i
  proof (cases "i < length (positions s Active_Variables k)")
    case True
    then obtain r where "r < length (active_order s)" "index_to_active_index s k i = Inr r"
        "active_order s ! r = positions s Active_Variables k ! i"
      using index_to_active_index_rank [OF assms, of k i] by (auto simp: finds_rank_def)
    then show ?thesis using True rank [of r] bits [of r] by (simp add: view_index_positions [OF assms])
  next
    case False
    then show ?thesis using index_to_active_index_rank [OF assms, of k i]
      by (simp add: view_index_positions [OF assms] finds_rank_def)
  qed
  then show ?thesis unfolding active_mask_positions [OF assms] by blast
qed
section \<open>Indices of the complement\<close>

lemma index_to_kind_ranks:
  "bound \<le> i \<Longrightarrow> finds_rank (index_to_kind k (counted gs) offset bound i) (offset + bound) (kind_positions k gs off)
    (kind_positions k (map (\<lambda>(sel, c). (True, c)) gs) off) (i - bound)"
proof (induction gs arbitrary: offset bound off)
  case (Cons e gs)
  obtain sel c where e: "e = (sel, c)" by (cases e)
  let ?n = "of_kind k c" and ?q = "[off + before_kind k c ..< off + before_kind k c + of_kind k c]"
  let ?A = "kind_positions k (map (\<lambda>(sel, c). (True, c)) gs) (off + group_size c)"
  have A: "kind_positions k (map (\<lambda>(sel, c). (True, c)) (e # gs)) off = ?q @ ?A" by (simp add: e)
  consider (found) "sel" "i < bound + ?n" | (further) "sel" "bound + ?n \<le> i" | (skipped) "\<not> sel" by linarith
  then show ?case
  proof cases
    case found
    then show ?thesis unfolding A using Cons.prems by (auto simp: e finds_rank_def nth_append intro!: exI [of _ "i - bound"])
  next
    case further
    have "finds_rank (index_to_kind k (counted gs) offset (bound + ?n) i) (offset + bound + length ?q)
        (kind_positions k gs (off + group_size c)) ?A (i - (bound + ?n))"
      using Cons.IH [OF further(2), of offset "off + group_size c"] by (simp add: add.assoc)
    from finds_rank_later [OF finds_rank_skip [OF this], of ?q] show ?thesis
      unfolding A using further by (simp add: e)
  next
    case skipped
    have "finds_rank (index_to_kind k (counted gs) (offset + ?n) bound i) (offset + bound + length ?q)
        (kind_positions k gs (off + group_size c)) ?A (i - bound)"
      using Cons.IH [OF Cons.prems, of "offset + ?n" "off + group_size c"] by (simp add: ac_simps)
    from finds_rank_skip [OF this] show ?thesis unfolding A using skipped by (simp add: e)
  qed
qed (simp add: finds_rank_def)

definition complement_index :: "shared_variables \<Rightarrow> var_kind \<Rightarrow> nat \<Rightarrow> nat result" where
  "complement_index s k i = (case k of CV \<Rightarrow> ccv_index_to_acv_index s i | DIV \<Rightarrow> cdiv_index_to_adiv_index s i
     | DSV \<Rightarrow> cdsv_index_to_adsv_index s i | DRV \<Rightarrow> cdrv_index_to_adrv_index s i)"

lemma complement_index_scan:
  assumes "relaxation_ok s" "k \<noteq> DIV"
  shows "complement_index s k i =
    index_to_kind k (counted (zip (kind_flags s Complement_Variables k) (variable_groups s))) 0 0 i"
proof -
  obtain cdv ddv cauv dauv ceuv deuv csv dsv where sel: "complement_subsets s = (cdv, ddv, cauv, dauv, ceuv, deuv, csv, dsv)"
    by (metis surj_pair)
  show ?thesis using assms(2)
    by (cases k) (simp_all add: complement_index_def sel kind_flags_def selected_def groups_counted [OF assms(1)]
      ccv_index_to_acv_index_def cdsv_index_to_adsv_index_def cdrv_index_to_adrv_index_def)
qed

lemma all_flags: "map (\<lambda>(sel, c). (True, c)) (zip (kind_flags s w k) (variable_groups s)) =
    zip (kind_flags s Every_Variable k) (variable_groups s)"
proof -
  obtain a b c d where "variable_groups s = [a, b, c, d]" using four_elements [OF length_variable_groups] by blast
  then show ?thesis by (simp add: kind_flags_def selected_def split: prod.splits)
qed

text \<open>C36: For continuous, string and real variables, the index of a variable outside the active view among all variables
  of its kind leads to the same variable as the direct conversion.  (The conversion for integer variables is excluded:
  it is wrong, as the next lemma shows.)\<close>

theorem complement_index_commutes:
  assumes s: "relaxation_ok s" and k: "k \<noteq> DIV"
  shows "rbind (complement_index s k i) (view_index_to_all_index s Every_Variable k) = view_index_to_all_index s Complement_Variables k i"
proof -
  have "finds_rank (complement_index s k i) 0 (positions s Complement_Variables k) (positions s Every_Variable k) i"
    using index_to_kind_ranks [of 0 i k "zip (kind_flags s Complement_Variables k) (variable_groups s)" 0 0]
    by (simp add: complement_index_scan [OF s k] positions_def all_flags)
  then show ?thesis
    by (cases "i < length (positions s Complement_Variables k)") (auto simp: finds_rank_def view_index_positions [OF s])
qed

text \<open>The conversion for discrete integer variables never refreshes its counts: it scans the design counts four times.
  Without discrete integer design variables it aborts for every index, although uncertain and state variables of
  that kind exist.\<close>

theorem complement_integer_index_aborts:
  assumes "design_counts s = Inr c" "of_kind DIV c = 0"
  shows "cdiv_index_to_adiv_index s i = Inl (Abort VARS_ERROR)"
  using assms by (cases "complement_subsets s") (simp add: cdiv_index_to_adiv_index_def split: prod.splits)
section \<open>Slices of a view\<close>

definition relaxed_view :: "var_view \<Rightarrow> bool" where
  "relaxed_view v \<longleftrightarrow> v \<in> {RELAXED_ALL, RELAXED_DESIGN, RELAXED_UNCERTAIN, RELAXED_ALEATORY_UNCERTAIN,
    RELAXED_EPISTEMIC_UNCERTAIN, RELAXED_STATE}"

text \<open>What the constructor establishes: a relaxed view has a bit per discrete variable, any other view has none.\<close>

definition views_ok :: "shared_variables \<Rightarrow> bool" where
  "views_ok s \<longleftrightarrow> (if relaxed_view (fst (variablesView s))
    then length (allRelaxedDiscreteInt s) = num_int (total_counts (variablesCompsTotals s)) \<and>
      length (allRelaxedDiscreteReal s) = num_real (total_counts (variablesCompsTotals s))
    else allRelaxedDiscreteInt s = [] \<and> allRelaxedDiscreteReal s = [])"

lemma views_ok_relaxation: "views_ok s \<Longrightarrow> relaxation_ok s"
  by (auto simp: views_ok_def relaxation_ok_def any_relaxed_def split: if_splits)

lemma unrelaxed_counts: "\<not> any_relaxed s \<Longrightarrow> relaxed_counts s c oi odr = c"
proof -
  assume "\<not> any_relaxed s"
  then have "bits_in (allRelaxedDiscreteInt s) o1 n = 0" "bits_in (allRelaxedDiscreteReal s) o1 n = 0" for o1 n
    by (auto simp: bits_in_def any_relaxed_def intro!: no_bits dest!: in_set_takeD in_set_dropD)
  then show ?thesis by (cases c) (simp add: relaxed_counts_def)
qed

lemma group_counts_relaxed: "group_counts s b c = relaxed_counts s c (num_int b) (num_real b)"
  by (simp add: group_counts_def unrelaxed_counts)

lemma relaxed_range_ok:
  assumes "views_ok s" "relaxed_view (fst (variablesView s))"
    and "num_int p + n_di \<le> num_int (total_counts (variablesCompsTotals s))"
      "num_real p + n_dr \<le> num_real (total_counts (variablesCompsTotals s))" "num_int c = n_di" "num_real c = n_dr"
  shows "relaxed_range s p c n_di n_dr = Inr (group_counts s zero_counts p, group_counts s p c)"
proof -
  obtain p1 p2 p3 p4 c1 c2 c3 c4 where pc: "p = (p1, p2, p3, p4)" "c = (c1, c2, c3, c4)" by (metis surj_pair)
  have "p2 + c2 \<le> length (allRelaxedDiscreteInt s)" "p4 + c4 \<le> length (allRelaxedDiscreteReal s)"
    using assms by (simp_all add: views_ok_def pc num_int_def num_real_def)
  then show ?thesis using assms(5,6)
    by (simp add: pc relaxed_range_def group_counts_relaxed relaxed_counts_def count_range_bits num_int_def num_real_def Let_def zero_counts_def)
qed

text \<open>The groups before, and of, a view.\<close>

definition view_part :: "comps_totals \<Rightarrow> var_view \<Rightarrow> counts \<times> counts" where
  "view_part t v = (let d = total_design t; a = total_aleatory t; e = total_epistemic t; st = total_state t in
     if v \<in> {RELAXED_ALL, MIXED_ALL} then (zero_counts, total_counts t)
     else if v \<in> {RELAXED_DESIGN, MIXED_DESIGN} then (zero_counts, d)
     else if v \<in> {RELAXED_UNCERTAIN, MIXED_UNCERTAIN} then (d, add_counts a e)
     else if v \<in> {RELAXED_ALEATORY_UNCERTAIN, MIXED_ALEATORY_UNCERTAIN} then (d, a)
     else if v \<in> {RELAXED_EPISTEMIC_UNCERTAIN, MIXED_EPISTEMIC_UNCERTAIN} then (add_counts d a, e)
     else if v \<in> {RELAXED_STATE, MIXED_STATE} then (add_counts (add_counts d a) e, st)
     else (zero_counts, zero_counts))"

lemma mixed_unrelaxed: "views_ok s \<Longrightarrow> \<not> relaxed_view (fst (variablesView s)) \<Longrightarrow> group_counts s b c = c"
  by (simp add: views_ok_def group_counts_def any_relaxed_def)

lemma view_start_counts_ok:
  assumes s: "views_ok s" and v: "fst (variablesView s) = v" "v \<noteq> RELAXED_ALL" "v \<noteq> EMPTY_VIEW"
  shows "view_start_counts s v = Inr (group_counts s zero_counts (fst (view_part (variablesCompsTotals s) v)),
    group_counts s (fst (view_part (variablesCompsTotals s) v)) (snd (view_part (variablesCompsTotals s) v)))"
proof (cases "relaxed_view v")
  case True
  then show ?thesis using v relaxed_range_ok [OF s]
    by (auto simp: relaxed_view_def view_start_counts_def view_part_def Let_def total_counts_def)
next
  case False
  then show ?thesis using v mixed_unrelaxed [OF s]
    by (cases v) (simp_all add: relaxed_view_def view_start_counts_def view_part_def Let_def)
qed
lemma kind_positions_blocks:
  "\<exists>xa xb xc xd. length xa = of_kind k A \<and> length xb = of_kind k B \<and> length xc = of_kind k C \<and> length xd = of_kind k D \<and>
    (\<forall>f1 f2 f3 f4. kind_positions k (zip [f1, f2, f3, f4] [A, B, C, D]) 0 =
      (if f1 then xa else []) @ (if f2 then xb else []) @ (if f3 then xc else []) @ (if f4 then xd else []))"
proof -
  let ?x = "\<lambda>off c. [off + before_kind k c ..< off + before_kind k c + of_kind k c]"
  show ?thesis
    by (intro exI [of _ "?x 0 A"] exI [of _ "?x (group_size A) B"] exI [of _ "?x (group_size A + group_size B) C"]
      exI [of _ "?x (group_size A + group_size B + group_size C) D"]) simp
qed

lemma view_positions_slice:
  assumes s: "views_ok s" and v: "fst (variablesView s) = v" "v \<noteq> EMPTY_VIEW"
    and p: "view_part (variablesCompsTotals s) v = (before, part)"
  shows "positions s Active_Variables k =
    take (of_kind k (group_counts s before part)) (drop (of_kind k (group_counts s zero_counts before)) (positions s Every_Variable k)) \<and>
    of_kind k (group_counts s zero_counts before) + of_kind k (group_counts s before part) \<le> length (positions s Every_Variable k)"
proof -
  let ?t = "variablesCompsTotals s"
  let ?d = "total_design ?t" and ?a = "total_aleatory ?t" and ?e = "total_epistemic ?t" and ?st = "total_state ?t"
  let ?A = "group_counts s zero_counts ?d" and ?B = "group_counts s ?d ?a" and ?C = "group_counts s (add_counts ?d ?a) ?e"
    and ?D = "group_counts s (add_counts (add_counts ?d ?a) ?e) ?st"
  have g: "variable_groups s = [?A, ?B, ?C, ?D]" by (simp add: variable_groups_def Let_def)
  obtain xa xb xc xd where l: "length xa = of_kind k ?A" "length xb = of_kind k ?B" "length xc = of_kind k ?C" "length xd = of_kind k ?D"
    and x: "\<And>f1 f2 f3 f4. kind_positions k (zip [f1, f2, f3, f4] [?A, ?B, ?C, ?D]) 0 =
      (if f1 then xa else []) @ (if f2 then xb else []) @ (if f3 then xc else []) @ (if f4 then xd else [])"
    using kind_positions_blocks [of k ?A ?B ?C ?D] by blast
  have zero: "group_counts s zero_counts zero_counts = zero_counts"
    by (simp add: group_counts_relaxed relaxed_counts_def zero_counts_def bits_in_def bit_count_def)
  have sums: "of_kind k (group_counts s zero_counts (add_counts ?d ?a)) = length xa + length xb"
    "of_kind k (group_counts s ?d (add_counts ?a ?e)) = length xb + length xc"
    "of_kind k (group_counts s zero_counts (add_counts (add_counts ?d ?a) ?e)) = length xa + length xb + length xc"
    "of_kind k (group_counts s zero_counts (add_counts (add_counts (add_counts ?d ?a) ?e) ?st)) = length xa + length xb + length xc + length xd"
    by (simp_all add: l group_counts_add [symmetric])
  have every: "positions s Every_Variable k = xa @ xb @ xc @ xd"
    unfolding positions_def g by (simp add: kind_flags_def selected_def x del: zip_Cons_Cons)
  show ?thesis
    using p v(2) unfolding every positions_def g
    by (cases v) (auto simp: kind_flags_def selected_def active_subsets_def v(1) view_subsets_def view_part_def Let_def x zero total_counts_def
      sums l [symmetric] simp del: zip_Cons_Cons)
qed

lemma empty_view_positions: "fst (variablesView s) = EMPTY_VIEW \<Longrightarrow> positions s Active_Variables k = []"
  by (simp add: positions_def kind_flags_def selected_def active_subsets_def view_subsets_def variable_groups_def Let_def)

lemma of_kind_zero: "of_kind k zero_counts = 0"
  by (cases k) (simp_all add: zero_counts_def)

text \<open>C37: For every active view but the relaxed view of all variables, the slice of the view in the arrays of each kind
  holds exactly the active variables, in their order: the arrays of the active variables are windows of the arrays of all
  variables.  (For the relaxed view of all variables this is false, see relaxed_all_view_miscounts below.)\<close>

theorem view_slices_are_active:
  assumes s: "views_ok s" and v: "fst (variablesView s) = v" "v \<noteq> RELAXED_ALL"
  shows "\<exists>start count. view_start_counts s v = Inr (start, count) \<and>
    (\<forall>k i. view_index_to_all_index s Active_Variables k i =
      (if i < of_kind k count then view_index_to_all_index s Every_Variable k (of_kind k start + i) else Inl (Abort VARS_ERROR)))"
proof (cases "v = EMPTY_VIEW")
  case True
  then show ?thesis using empty_view_positions [of s] v(1)
    by (intro exI [of _ zero_counts]) (simp add: view_start_counts_def Let_def view_index_positions [OF views_ok_relaxation [OF s]] of_kind_zero)
next
  case False
  obtain before part where p: "view_part (variablesCompsTotals s) v = (before, part)" by (cases "view_part (variablesCompsTotals s) v")
  let ?start = "group_counts s zero_counts before" and ?count = "group_counts s before part"
  note r = views_ok_relaxation [OF s]
  have "view_start_counts s v = Inr (?start, ?count)" using view_start_counts_ok [OF s v(1,2) False] by (simp add: p)
  moreover have "view_index_to_all_index s Active_Variables k i = (if i < of_kind k ?count
      then view_index_to_all_index s Every_Variable k (of_kind k ?start + i) else Inl (Abort VARS_ERROR))" for k i
    using view_positions_slice [OF s v(1) False p, of k] by (auto simp: view_index_positions [OF r])
  ultimately show ?thesis by blast
qed

definition unseen_int :: "shared_variables \<Rightarrow> nat" where
  "unseen_int s = bit_count (drop (num_int (total_design (variablesCompsTotals s))) (allRelaxedDiscreteInt s))"

definition unseen_real :: "shared_variables \<Rightarrow> nat" where
  "unseen_real s = bit_count (drop (num_real (total_design (variablesCompsTotals s))) (allRelaxedDiscreteReal s))"

text \<open>The slice of the relaxed view of all variables is wrong: it counts the relaxed discrete variables of the design
  group only.  The relaxed uncertain and state variables are missing from the continuous variables and are still
  counted as discrete ones.\<close>

theorem relaxed_all_view_miscounts:
  assumes s: "views_ok s" and v: "fst (variablesView s) = RELAXED_ALL"
  shows "\<exists>count. view_start_counts s RELAXED_ALL = Inr (zero_counts, count) \<and>
    of_kind CV count + unseen_int s + unseen_real s = acv s \<and> of_kind DIV count = adiv s + unseen_int s \<and> of_kind DSV count = adsv s \<and>
    of_kind DRV count = adrv s + unseen_real s"
proof -
  obtain d1 d2 d3 d4 where d: "total_design (variablesCompsTotals s) = (d1, d2, d3, d4)" by (metis surj_pair)
  obtain t1 t2 t3 t4 where t: "total_counts (variablesCompsTotals s) = (t1, t2, t3, t4)" by (metis surj_pair)
  have l: "length (allRelaxedDiscreteInt s) = t2" "length (allRelaxedDiscreteReal s) = t4"
    using s v by (simp_all add: views_ok_def relaxed_view_def t num_int_def num_real_def)
  have le: "d2 \<le> t2" "d4 \<le> t4" using d t
    by (auto simp: total_counts_def add_counts_def split: prod.splits)
  have split: "bit_count xs = bits_in xs 0 n + bit_count (drop n xs)" for xs n
    using arg_cong [OF append_take_drop_id [of n xs], of bit_count] by (simp add: bits_in_def bit_count_def del: append_take_drop_id)
  have small: "bits_in xs 0 n + bit_count (drop n xs) \<le> length xs" for xs n
    using split [of xs n] length_filter_le [of "\<lambda>x. x" xs] by (simp add: bit_count_def)
  show ?thesis using le small [of "allRelaxedDiscreteInt s" d2] small [of "allRelaxedDiscreteReal s" d4]
    by (simp add: view_start_counts_def Let_def relaxed_range_def d t zero_counts_def num_int_def num_real_def count_range_bits l
      acv_def adiv_def adsv_def adrv_def unseen_int_def unseen_real_def split [of "allRelaxedDiscreteInt s" d2]
      split [of "allRelaxedDiscreteReal s" d4] bits_in_def [of _ _ 0] bit_count_def [of "[]"])
qed

section \<open>Examples\<close>

definition example_totals :: comps_totals where
  "example_totals = \<lparr>total_design = (1, 1, 0, 0), total_aleatory = (1, 1, 0, 0), total_epistemic = (0, 0, 1, 0), total_state = (0, 1, 0, 1)\<rparr>"

definition relaxed_example :: "var_view \<Rightarrow> shared_variables" where
  "relaxed_example v = \<lparr>variablesCompsTotals = example_totals, variablesView = (v, EMPTY_VIEW),
    allRelaxedDiscreteInt = [False, True, True], allRelaxedDiscreteReal = [False]\<rparr>"

definition mixed_example :: "var_view \<Rightarrow> shared_variables" where
  "mixed_example v = \<lparr>variablesCompsTotals = example_totals\<lparr>total_design := (1, 0, 0, 0)\<rparr>, variablesView = (v, EMPTY_VIEW),
    allRelaxedDiscreteInt = [], allRelaxedDiscreteReal = []\<rparr>"

lemma examples_ok: "views_ok (relaxed_example RELAXED_ALL)" "views_ok (relaxed_example RELAXED_UNCERTAIN)"
    "relaxation_ok (mixed_example MIXED_DESIGN)"
  by (simp_all add: views_ok_def relaxation_ok_def any_relaxed_def relaxed_view_def relaxed_example_def mixed_example_def example_totals_def
    total_counts_def add_counts_def num_int_def num_real_def)

theorem indices_enumerate_masks_witness:
  "\<exists>m. view_to_all_mask (relaxed_example RELAXED_UNCERTAIN) Active_Variables CV = Inr m \<and> length m = 7 \<and>
    view_index_to_all_index (relaxed_example RELAXED_UNCERTAIN) Active_Variables CV 1 = Inr (set_positions m ! 1) \<and> m ! 3"
proof -
  have "view_to_all_mask (relaxed_example RELAXED_UNCERTAIN) Active_Variables CV = Inr [False, False, True, True, False, False, False]"
    by code_simp
  moreover have "set_positions [False, False, True, True, False, False, False] = [2, 3]" by code_simp
  ultimately show ?thesis
    using indices_enumerate_masks [OF views_ok_relaxation [OF examples_ok(2)], of Active_Variables CV] by simp
qed

theorem active_index_is_rank_witness:
  "div_index_to_active_index (relaxed_example RELAXED_ALL) 0 = Inr 1 \<and>
   drv_index_to_active_index (relaxed_example RELAXED_ALL) 0 = Inr 6"
proof -
  have m: "active_to_all_mask (relaxed_example RELAXED_ALL) = Inr (replicate 7 True)" by code_simp
  have v: "view_index_to_all_index (relaxed_example RELAXED_ALL) Active_Variables DIV 0 = Inr 1"
    "view_index_to_all_index (relaxed_example RELAXED_ALL) Active_Variables DRV 0 = Inr 6" by code_simp+
  note t = active_index_is_rank [OF views_ok_relaxation [OF examples_ok(1)], unfolded m Inr_inject]
  from t v(1) have "index_to_active_index (relaxed_example RELAXED_ALL) DIV 0 = Inr 1"
    by (elim exE conjE allE [of _ DIV] allE [of _ 0]) auto
  moreover from t v(2) have "index_to_active_index (relaxed_example RELAXED_ALL) DRV 0 = Inr 6"
    by (elim exE conjE allE [of _ DRV] allE [of _ 0]) auto
  ultimately show ?thesis by (simp add: index_to_active_index_def)
qed

theorem complement_index_commutes_witness:
  "complement_index (mixed_example MIXED_DESIGN) CV 0 = Inr 1 \<and>
   rbind (complement_index (mixed_example MIXED_DESIGN) CV 0) (view_index_to_all_index (mixed_example MIXED_DESIGN) Every_Variable CV) =
     view_index_to_all_index (mixed_example MIXED_DESIGN) Complement_Variables CV 0"
  using complement_index_commutes [OF examples_ok(3), of CV 0] by (intro conjI, code_simp) simp

theorem complement_integer_index_aborts_witness:
  "cdiv_index_to_adiv_index (mixed_example MIXED_DESIGN) 0 = Inl (Abort VARS_ERROR) \<and>
   view_index_to_all_index (mixed_example MIXED_DESIGN) Complement_Variables DIV 0 = Inr 2"
proof
  have "design_counts (mixed_example MIXED_DESIGN) = Inr (1, 0, 0, 0)" by code_simp
  then show "cdiv_index_to_adiv_index (mixed_example MIXED_DESIGN) 0 = Inl (Abort VARS_ERROR)"
    by (rule complement_integer_index_aborts) simp
qed code_simp

theorem view_slices_are_active_witness:
  "view_start_counts (relaxed_example RELAXED_UNCERTAIN) RELAXED_UNCERTAIN = Inr ((1, 1, 0, 0), (2, 0, 1, 0)) \<and>
   view_index_to_all_index (relaxed_example RELAXED_UNCERTAIN) Active_Variables CV 1 =
     view_index_to_all_index (relaxed_example RELAXED_UNCERTAIN) Every_Variable CV 2"
proof -
  have v: "view_start_counts (relaxed_example RELAXED_UNCERTAIN) RELAXED_UNCERTAIN = Inr ((1, 1, 0, 0), (2, 0, 1, 0))" by code_simp
  have "fst (variablesView (relaxed_example RELAXED_UNCERTAIN)) = RELAXED_UNCERTAIN" by (simp add: relaxed_example_def)
  from view_slices_are_active [OF examples_ok(2) this] v show ?thesis by (auto dest: spec [of _ CV] simp: numeral_2_eq_2)
qed

theorem relaxed_all_view_miscounts_witness:
  "view_start_counts (relaxed_example RELAXED_ALL) RELAXED_ALL = Inr (zero_counts, (2, 3, 1, 1)) \<and> acv (relaxed_example RELAXED_ALL) = 4"
proof -
  have v: "view_start_counts (relaxed_example RELAXED_ALL) RELAXED_ALL = Inr (zero_counts, (2, 3, 1, 1))" by code_simp
  have "unseen_int (relaxed_example RELAXED_ALL) = 2" "unseen_real (relaxed_example RELAXED_ALL) = 0" by code_simp+
  moreover have "fst (variablesView (relaxed_example RELAXED_ALL)) = RELAXED_ALL" by (simp add: relaxed_example_def)
  ultimately show ?thesis using relaxed_all_view_miscounts [OF examples_ok(1)] v by auto
qed

end
