(* ===== verification/Variable_Types.thy ===== *)
theory Variable_Types
  imports View_Properties
begin

text \<open>
  Construction of the shared variables data (\<^verbatim>\<open>src/SharedVariablesData.cpp\<close>): numbers of variables per type, the
  relaxed discrete variables, and the arrays of types, ids and labels by kind.

  The problem description answers a query by a number, an array of bits or an array of labels; the three
  queries are parameters.  An array under construction is the list of its entries written so far; a write
  past its allocated size is an error value, and entries that are never written keep the default.
\<close>

section \<open>Types of variables\<close>

datatype variable_type = EMPTY_TYPE | CONTINUOUS_DESIGN | DISCRETE_DESIGN_RANGE | DISCRETE_DESIGN_SET_INT |
  DISCRETE_DESIGN_SET_STRING | DISCRETE_DESIGN_SET_REAL | NORMAL_UNCERTAIN | LOGNORMAL_UNCERTAIN | UNIFORM_UNCERTAIN |
  LOGUNIFORM_UNCERTAIN | TRIANGULAR_UNCERTAIN | EXPONENTIAL_UNCERTAIN | BETA_UNCERTAIN | GAMMA_UNCERTAIN |
  GUMBEL_UNCERTAIN | FRECHET_UNCERTAIN | WEIBULL_UNCERTAIN | HISTOGRAM_BIN_UNCERTAIN | POISSON_UNCERTAIN |
  BINOMIAL_UNCERTAIN | NEGATIVE_BINOMIAL_UNCERTAIN | GEOMETRIC_UNCERTAIN | HYPERGEOMETRIC_UNCERTAIN |
  HISTOGRAM_POINT_UNCERTAIN_INT | HISTOGRAM_POINT_UNCERTAIN_STRING | HISTOGRAM_POINT_UNCERTAIN_REAL |
  CONTINUOUS_INTERVAL_UNCERTAIN | DISCRETE_INTERVAL_UNCERTAIN | DISCRETE_UNCERTAIN_SET_INT |
  DISCRETE_UNCERTAIN_SET_STRING | DISCRETE_UNCERTAIN_SET_REAL | CONTINUOUS_STATE | DISCRETE_STATE_RANGE |
  DISCRETE_STATE_SET_INT | DISCRETE_STATE_SET_STRING | DISCRETE_STATE_SET_REAL

type_synonym components = "variable_type \<rightharpoonup> nat"

definition vc_lookup :: "components \<Rightarrow> variable_type \<Rightarrow> nat" where
  "vc_lookup m k = (case m k of None \<Rightarrow> 0 | Some n \<Rightarrow> n)"

datatype var_group = Design | Aleatory | Epistemic | State_Group

fun add_kind :: "var_kind \<Rightarrow> nat \<Rightarrow> counts \<Rightarrow> counts" where
  "add_kind CV m (n_cv, n_div, n_dsv, n_drv) = (n_cv + m, n_div, n_dsv, n_drv)"
| "add_kind DIV m (n_cv, n_div, n_dsv, n_drv) = (n_cv, n_div + m, n_dsv, n_drv)"
| "add_kind DSV m (n_cv, n_div, n_dsv, n_drv) = (n_cv, n_div, n_dsv + m, n_drv)"
| "add_kind DRV m (n_cv, n_div, n_dsv, n_drv) = (n_cv, n_div, n_dsv, n_drv + m)"

text \<open>\<^verbatim>\<open>variablesCompsTotals[t] += m\<close>.\<close>

fun add_total :: "var_group \<Rightarrow> var_kind \<Rightarrow> nat \<Rightarrow> comps_totals \<Rightarrow> comps_totals" where
  "add_total Design k m t = t\<lparr>total_design := add_kind k m (total_design t)\<rparr>"
| "add_total Aleatory k m t = t\<lparr>total_aleatory := add_kind k m (total_aleatory t)\<rparr>"
| "add_total Epistemic k m t = t\<lparr>total_epistemic := add_kind k m (total_epistemic t)\<rparr>"
| "add_total State_Group k m t = t\<lparr>total_state := add_kind k m (total_state t)\<rparr>"

definition no_totals :: comps_totals where
  "no_totals = \<lparr>total_design = zero_counts, total_aleatory = zero_counts, total_epistemic = zero_counts, total_state = zero_counts\<rparr>"

text \<open>The queries in their order, with the type and the total that a nonzero answer is counted for.\<close>

definition component_queries :: "(string \<times> variable_type \<times> var_group \<times> var_kind) list" where
  "component_queries =
    [(''variables.continuous_design'', CONTINUOUS_DESIGN, Design, CV),
     (''variables.discrete_design_range'', DISCRETE_DESIGN_RANGE, Design, DIV),
     (''variables.discrete_design_set_int'', DISCRETE_DESIGN_SET_INT, Design, DIV),
     (''variables.discrete_design_set_string'', DISCRETE_DESIGN_SET_STRING, Design, DSV),
     (''variables.discrete_design_set_real'', DISCRETE_DESIGN_SET_REAL, Design, DRV),
     (''variables.normal_uncertain'', NORMAL_UNCERTAIN, Aleatory, CV),
     (''variables.lognormal_uncertain'', LOGNORMAL_UNCERTAIN, Aleatory, CV),
     (''variables.uniform_uncertain'', UNIFORM_UNCERTAIN, Aleatory, CV),
     (''variables.loguniform_uncertain'', LOGUNIFORM_UNCERTAIN, Aleatory, CV),
     (''variables.triangular_uncertain'', TRIANGULAR_UNCERTAIN, Aleatory, CV),
     (''variables.exponential_uncertain'', EXPONENTIAL_UNCERTAIN, Aleatory, CV),
     (''variables.beta_uncertain'', BETA_UNCERTAIN, Aleatory, CV),
     (''variables.gamma_uncertain'', GAMMA_UNCERTAIN, Aleatory, CV),
     (''variables.gumbel_uncertain'', GUMBEL_UNCERTAIN, Aleatory, CV),
     (''variables.frechet_uncertain'', FRECHET_UNCERTAIN, Aleatory, CV),
     (''variables.weibull_uncertain'', WEIBULL_UNCERTAIN, Aleatory, CV),
     (''variables.histogram_uncertain.bin'', HISTOGRAM_BIN_UNCERTAIN, Aleatory, CV),
     (''variables.poisson_uncertain'', POISSON_UNCERTAIN, Aleatory, DIV),
     (''variables.binomial_uncertain'', BINOMIAL_UNCERTAIN, Aleatory, DIV),
     (''variables.negative_binomial_uncertain'', NEGATIVE_BINOMIAL_UNCERTAIN, Aleatory, DIV),
     (''variables.geometric_uncertain'', GEOMETRIC_UNCERTAIN, Aleatory, DIV),
     (''variables.hypergeometric_uncertain'', HYPERGEOMETRIC_UNCERTAIN, Aleatory, DIV),
     (''variables.histogram_uncertain.point_int'', HISTOGRAM_POINT_UNCERTAIN_INT, Aleatory, DIV),
     (''variables.histogram_uncertain.point_string'', HISTOGRAM_POINT_UNCERTAIN_STRING, Aleatory, DSV),
     (''variables.histogram_uncertain.point_real'', HISTOGRAM_POINT_UNCERTAIN_REAL, Aleatory, DRV),
     (''variables.continuous_interval_uncertain'', CONTINUOUS_INTERVAL_UNCERTAIN, Epistemic, CV),
     (''variables.discrete_interval_uncertain'', DISCRETE_INTERVAL_UNCERTAIN, Epistemic, DIV),
     (''variables.discrete_uncertain_set_int'', DISCRETE_UNCERTAIN_SET_INT, Epistemic, DIV),
     (''variables.discrete_uncertain_set_string'', DISCRETE_UNCERTAIN_SET_STRING, Epistemic, DSV),
     (''variables.discrete_uncertain_set_real'', DISCRETE_UNCERTAIN_SET_REAL, Epistemic, DRV),
     (''variables.continuous_state'', CONTINUOUS_STATE, State_Group, CV),
     (''variables.discrete_state_range'', DISCRETE_STATE_RANGE, State_Group, DIV),
     (''variables.discrete_state_set_int'', DISCRETE_STATE_SET_INT, State_Group, DIV),
     (''variables.discrete_state_set_string'', DISCRETE_STATE_SET_STRING, State_Group, DSV),
     (''variables.discrete_state_set_real'', DISCRETE_STATE_SET_REAL, State_Group, DRV)]"

definition count_component ::
    "(string \<Rightarrow> nat) \<Rightarrow> string \<times> variable_type \<times> var_group \<times> var_kind \<Rightarrow> components \<times> comps_totals \<Rightarrow> components \<times> comps_totals" where
  "count_component get_sizet q st = (case (q, st) of ((key, vt, g, k), (m, t)) \<Rightarrow>
    let count = get_sizet key in if count \<noteq> 0 then (m(vt \<mapsto> count), add_total g k count t) else (m, t))"

definition initialize_components_totals :: "(string \<Rightarrow> nat) \<Rightarrow> components \<times> comps_totals" where
  "initialize_components_totals get_sizet = fold (count_component get_sizet) component_queries (Map.empty, no_totals)"

definition components_to_totals :: "components \<Rightarrow> comps_totals" where
  "components_to_totals m = (let n = vc_lookup m in
    \<lparr>total_design = (n CONTINUOUS_DESIGN, n DISCRETE_DESIGN_RANGE + n DISCRETE_DESIGN_SET_INT,
       n DISCRETE_DESIGN_SET_STRING, n DISCRETE_DESIGN_SET_REAL),
     total_aleatory = (n NORMAL_UNCERTAIN + n LOGNORMAL_UNCERTAIN + n UNIFORM_UNCERTAIN + n LOGUNIFORM_UNCERTAIN +
         n TRIANGULAR_UNCERTAIN + n EXPONENTIAL_UNCERTAIN + n BETA_UNCERTAIN + n GAMMA_UNCERTAIN + n GUMBEL_UNCERTAIN +
         n FRECHET_UNCERTAIN + n WEIBULL_UNCERTAIN + n HISTOGRAM_BIN_UNCERTAIN,
       n POISSON_UNCERTAIN + n BINOMIAL_UNCERTAIN + n NEGATIVE_BINOMIAL_UNCERTAIN + n GEOMETRIC_UNCERTAIN +
         n HYPERGEOMETRIC_UNCERTAIN + n HISTOGRAM_POINT_UNCERTAIN_INT,
       n HISTOGRAM_POINT_UNCERTAIN_STRING, n HISTOGRAM_POINT_UNCERTAIN_REAL),
     total_epistemic = (n CONTINUOUS_INTERVAL_UNCERTAIN, n DISCRETE_INTERVAL_UNCERTAIN + n DISCRETE_UNCERTAIN_SET_INT,
       n DISCRETE_UNCERTAIN_SET_STRING, n DISCRETE_UNCERTAIN_SET_REAL),
     total_state = (n CONTINUOUS_STATE, n DISCRETE_STATE_RANGE + n DISCRETE_STATE_SET_INT,
       n DISCRETE_STATE_SET_STRING, n DISCRETE_STATE_SET_REAL)\<rparr>)"
section \<open>Relaxed variables\<close>

definition set_relax :: "bool list \<Rightarrow> nat \<Rightarrow> nat \<Rightarrow> bool list \<Rightarrow> bool list result" where
  "set_relax cat i cntr bits =
    (if cat \<noteq> [] \<and> length cat \<le> i then Inl (UndefinedBehaviour ''bit read'')
     else if cat = [] \<or> \<not> cat ! i then
       if cntr < length bits then Inr (bits[cntr := True]) else Inl (UndefinedBehaviour ''bit write'')
     else Inr bits)"

text \<open>The loop over the variables of one type.\<close>

definition relax_type :: "bool list \<Rightarrow> nat \<Rightarrow> bool list \<times> nat \<Rightarrow> (bool list \<times> nat) result" where
  "relax_type cat n st =
    rfold (\<lambda>i (bits, cntr). rbind (set_relax cat i cntr bits) (\<lambda>bits'. Inr (bits', Suc cntr))) [0..<n] st"

definition int_categories :: "(string \<times> variable_type) list" where
  "int_categories =
    [(''variables.discrete_design_range.categorical'', DISCRETE_DESIGN_RANGE),
     (''variables.discrete_design_set_int.categorical'', DISCRETE_DESIGN_SET_INT),
     (''variables.poisson_uncertain.categorical'', POISSON_UNCERTAIN),
     (''variables.binomial_uncertain.categorical'', BINOMIAL_UNCERTAIN),
     (''variables.negative_binomial_uncertain.categorical'', NEGATIVE_BINOMIAL_UNCERTAIN),
     (''variables.geometric_uncertain.categorical'', GEOMETRIC_UNCERTAIN),
     (''variables.hypergeometric_uncertain.categorical'', HYPERGEOMETRIC_UNCERTAIN),
     (''variables.histogram_uncertain.point_int.categorical'', HISTOGRAM_POINT_UNCERTAIN_INT),
     (''variables.discrete_interval_uncertain.categorical'', DISCRETE_INTERVAL_UNCERTAIN),
     (''variables.discrete_uncertain_set_int.categorical'', DISCRETE_UNCERTAIN_SET_INT),
     (''variables.discrete_state_range.categorical'', DISCRETE_STATE_RANGE),
     (''variables.discrete_state_set_int.categorical'', DISCRETE_STATE_SET_INT)]"

definition real_categories :: "(string \<times> variable_type) list" where
  "real_categories =
    [(''variables.discrete_design_set_real.categorical'', DISCRETE_DESIGN_SET_REAL),
     (''variables.histogram_uncertain.point_real.categorical'', HISTOGRAM_POINT_UNCERTAIN_REAL),
     (''variables.discrete_uncertain_set_real.categorical'', DISCRETE_UNCERTAIN_SET_REAL),
     (''variables.discrete_state_set_real.categorical'', DISCRETE_STATE_SET_REAL)]"

definition relax_categories ::
    "(string \<Rightarrow> bool list) \<Rightarrow> components \<Rightarrow> (string \<times> variable_type) list \<Rightarrow> bool list \<Rightarrow> bool list result" where
  "relax_categories get_ba m cats bits =
    rbind (rfold (\<lambda>(key, vt). relax_type (get_ba key) (vc_lookup m vt)) cats (bits, 0)) (\<lambda>(bits', cntr). Inr bits')"

definition relax_noncategorical ::
    "(string \<Rightarrow> bool list) \<Rightarrow> components \<Rightarrow> shared_variables \<Rightarrow> shared_variables result" where
  "relax_noncategorical get_ba m s =
    (if relaxed_view (fst (variablesView s)) then
       let n = total_counts (variablesCompsTotals s) in
       rbind (relax_categories get_ba m int_categories (replicate (num_int n) False)) (\<lambda>ints.
       rbind (relax_categories get_ba m real_categories (replicate (num_real n) False)) (\<lambda>reals.
         Inr (s\<lparr>allRelaxedDiscreteInt := ints, allRelaxedDiscreteReal := reals\<rparr>)))
     else Inr (s\<lparr>allRelaxedDiscreteInt := [], allRelaxedDiscreteReal := []\<rparr>))"

section \<open>Arrays by kind\<close>

type_synonym 'a kind_arrays = "var_kind \<Rightarrow> 'a list"

text \<open>An array is written at its counter; the two counters of a fill run over the relaxation bits.\<close>

definition put :: "counts \<Rightarrow> var_kind \<Rightarrow> 'a \<Rightarrow> 'a kind_arrays \<Rightarrow> 'a kind_arrays result" where
  "put n k x A = (if length (A k) < of_kind k n then Inr (A(k := A k @ [x])) else Inl (UndefinedBehaviour ''array write''))"

type_synonym 'a fill = "'a kind_arrays \<times> nat \<times> nat"

definition put_run :: "counts \<Rightarrow> var_kind \<Rightarrow> 'a list \<Rightarrow> 'a fill \<Rightarrow> 'a fill result" where
  "put_run n k xs f = (case f of (A, ci, cr) \<Rightarrow> rbind (rfold (put n k) xs A) (\<lambda>A'. Inr (A', ci, cr)))"

definition place_int :: "counts \<Rightarrow> bool \<Rightarrow> bool list \<Rightarrow> 'a \<Rightarrow> 'a fill \<Rightarrow> 'a fill result" where
  "place_int n relax bits x f = (case f of (A, ci, cr) \<Rightarrow>
    if relax \<and> length bits \<le> ci then Inl (UndefinedBehaviour ''bit read'')
    else rbind (put n (if relax \<and> bits ! ci then CV else DIV) x A) (\<lambda>A'. Inr (A', Suc ci, cr)))"

definition place_real :: "counts \<Rightarrow> bool \<Rightarrow> bool list \<Rightarrow> 'a \<Rightarrow> 'a fill \<Rightarrow> 'a fill result" where
  "place_real n relax bits x f = (case f of (A, ci, cr) \<Rightarrow>
    if relax \<and> length bits \<le> cr then Inl (UndefinedBehaviour ''bit read'')
    else rbind (put n (if relax \<and> bits ! cr then CV else DRV) x A) (\<lambda>A'. Inr (A', ci, Suc cr)))"

definition empty_fill :: "'a fill" where
  "empty_fill = (\<lambda>k. [], 0, 0)"

text \<open>Entries of the allocated arrays that were not written hold the default.\<close>

definition finished :: "'a \<Rightarrow> counts \<Rightarrow> 'a fill \<Rightarrow> 'a kind_arrays" where
  "finished z n f = (\<lambda>k. vec_resize z (of_kind k n) (fst f k))"

section \<open>Ids\<close>

definition fill_ids :: "shared_variables \<Rightarrow> counts \<Rightarrow> nat \<times> nat fill \<Rightarrow> (nat \<times> nat fill) result" where
  "fill_ids s c st = (case (c, st) of ((n_cv, n_div, n_dsv, n_drv), (i, f)) \<Rightarrow>
    let n = all_counts s; ints = allRelaxedDiscreteInt s; reals = allRelaxedDiscreteReal s;
        i1 = i + n_cv; i2 = i1 + n_div; i3 = i2 + n_dsv; i4 = i3 + n_drv in
    rbind (put_run n CV [i..<i1] f) (\<lambda>f1.
    rbind (rfold (place_int n (True \<in> set ints) ints) [i1..<i2] f1) (\<lambda>f2.
    rbind (put_run n DSV [i2..<i3] f2) (\<lambda>f3.
    rbind (rfold (place_real n (True \<in> set reals) reals) [i3..<i4] f3) (\<lambda>f4.
      Inr (i4, f4))))))"

definition group_totals :: "comps_totals \<Rightarrow> counts list" where
  "group_totals t = [total_design t, total_aleatory t, total_epistemic t, total_state t]"

definition initialize_all_ids :: "shared_variables \<Rightarrow> nat kind_arrays result" where
  "initialize_all_ids s = rbind (rfold (fill_ids s) (group_totals (variablesCompsTotals s)) (1, empty_fill)) (\<lambda>(i, f).
    Inr (finished 0 (all_counts s) f))"

section \<open>Types\<close>

text \<open>The items of a group: continuous, discrete integer, string and real.\<close>

type_synonym 'a items = "'a list \<times> 'a list \<times> 'a list \<times> 'a list"

definition runs :: "components \<Rightarrow> variable_type list \<Rightarrow> variable_type list" where
  "runs m vts = concat (map (\<lambda>vt. replicate (vc_lookup m vt) vt) vts)"

definition design_types :: "components \<Rightarrow> variable_type items" where
  "design_types m = (runs m [CONTINUOUS_DESIGN], runs m [DISCRETE_DESIGN_RANGE, DISCRETE_DESIGN_SET_INT],
    runs m [DISCRETE_DESIGN_SET_STRING], runs m [DISCRETE_DESIGN_SET_REAL])"

definition aleatory_types :: "components \<Rightarrow> variable_type items" where
  "aleatory_types m =
    (runs m [NORMAL_UNCERTAIN, LOGNORMAL_UNCERTAIN, UNIFORM_UNCERTAIN, LOGUNIFORM_UNCERTAIN, TRIANGULAR_UNCERTAIN,
       EXPONENTIAL_UNCERTAIN, BETA_UNCERTAIN, GAMMA_UNCERTAIN, GUMBEL_UNCERTAIN, FRECHET_UNCERTAIN, WEIBULL_UNCERTAIN,
       HISTOGRAM_BIN_UNCERTAIN],
     runs m [POISSON_UNCERTAIN, BINOMIAL_UNCERTAIN, NEGATIVE_BINOMIAL_UNCERTAIN, GEOMETRIC_UNCERTAIN,
       HYPERGEOMETRIC_UNCERTAIN, HISTOGRAM_POINT_UNCERTAIN_INT],
     runs m [HISTOGRAM_POINT_UNCERTAIN_STRING], runs m [HISTOGRAM_POINT_UNCERTAIN_REAL])"

definition epistemic_types :: "components \<Rightarrow> variable_type items" where
  "epistemic_types m = (runs m [CONTINUOUS_INTERVAL_UNCERTAIN], runs m [DISCRETE_INTERVAL_UNCERTAIN, DISCRETE_UNCERTAIN_SET_INT],
    runs m [DISCRETE_UNCERTAIN_SET_STRING], runs m [DISCRETE_UNCERTAIN_SET_REAL])"

definition state_types :: "components \<Rightarrow> variable_type items" where
  "state_types m = (runs m [CONTINUOUS_STATE], runs m [DISCRETE_STATE_RANGE, DISCRETE_STATE_SET_INT],
    runs m [DISCRETE_STATE_SET_STRING], runs m [DISCRETE_STATE_SET_REAL])"

definition fill_types :: "shared_variables \<Rightarrow> variable_type items \<Rightarrow> variable_type fill \<Rightarrow> variable_type fill result" where
  "fill_types s x f = (case x of (cs, is, ss, rs) \<Rightarrow>
    let n = all_counts s; relax = any_relaxed s in
    rbind (put_run n CV cs f) (\<lambda>f1.
    rbind (put_run n DSV ss f1) (\<lambda>f2.
    rbind (rfold (place_int n relax (allRelaxedDiscreteInt s)) is f2) (\<lambda>f3.
      rfold (place_real n relax (allRelaxedDiscreteReal s)) rs f3))))"

definition initialize_all_types :: "components \<Rightarrow> shared_variables \<Rightarrow> variable_type kind_arrays result" where
  "initialize_all_types m s =
    rbind (rfold (fill_types s) [design_types m, aleatory_types m, epistemic_types m, state_types m] empty_fill) (\<lambda>f.
      Inr (finished EMPTY_TYPE (all_counts s) f))"

section \<open>Labels\<close>

text \<open>\<^verbatim>\<open>copy_data_partial\<close> checks the whole range.\<close>

definition copy_labels :: "counts \<Rightarrow> var_kind \<Rightarrow> string list \<Rightarrow> string fill \<Rightarrow> string fill result" where
  "copy_labels n k xs f = (case f of (A, ci, cr) \<Rightarrow>
    if of_kind k n < length (A k) + length xs then Inl (Abort OTHER_ERROR) else Inr (A(k := A k @ xs), ci, cr))"

definition fill_labels :: "shared_variables \<Rightarrow> string items \<Rightarrow> string fill \<Rightarrow> string fill result" where
  "fill_labels s x f = (case x of (cs, is, ss, rs) \<Rightarrow>
    let n = all_counts s in
    rbind (copy_labels n CV cs f) (\<lambda>f1.
    rbind (copy_labels n DSV ss f1) (\<lambda>f2.
      if any_relaxed s then
        rbind (rfold (place_int n True (allRelaxedDiscreteInt s)) is f2) (\<lambda>f3.
          rfold (place_real n True (allRelaxedDiscreteReal s)) rs f3)
      else rbind (copy_labels n DIV is f2) (copy_labels n DRV rs))))"

definition label_items :: "(string \<Rightarrow> string list) \<Rightarrow> string items list" where
  "label_items get_sa =
    [(get_sa ''variables.continuous_design.labels'',
      get_sa ''variables.discrete_design_range.labels'' @ get_sa ''variables.discrete_design_set_int.labels'',
      get_sa ''variables.discrete_design_set_string.labels'', get_sa ''variables.discrete_design_set_real.labels''),
     (get_sa ''variables.continuous_aleatory_uncertain.labels'', get_sa ''variables.discrete_aleatory_uncertain_int.labels'',
      get_sa ''variables.discrete_aleatory_uncertain_string.labels'', get_sa ''variables.discrete_aleatory_uncertain_real.labels''),
     (get_sa ''variables.continuous_epistemic_uncertain.labels'', get_sa ''variables.discrete_epistemic_uncertain_int.labels'',
      get_sa ''variables.discrete_epistemic_uncertain_string.labels'', get_sa ''variables.discrete_epistemic_uncertain_real.labels''),
     (get_sa ''variables.continuous_state.labels'',
      get_sa ''variables.discrete_state_range.labels'' @ get_sa ''variables.discrete_state_set_int.labels'',
      get_sa ''variables.discrete_state_set_string.labels'', get_sa ''variables.discrete_state_set_real.labels'')]"

definition initialize_all_labels :: "(string \<Rightarrow> string list) \<Rightarrow> shared_variables \<Rightarrow> string kind_arrays result" where
  "initialize_all_labels get_sa s =
    rbind (rfold (fill_labels s) (label_items get_sa) empty_fill) (\<lambda>f. Inr (finished [] (all_counts s) f))"

section \<open>Construction\<close>

text \<open>The constructor from a problem description: components, views and relaxation, then labels, types and ids.\<close>

definition SharedVariablesDataRep ::
    "(string \<Rightarrow> nat) \<Rightarrow> (string \<Rightarrow> bool list) \<Rightarrow> (string \<Rightarrow> string list) \<Rightarrow> var_view \<times> var_view \<Rightarrow>
      (components \<times> shared_variables \<times> string kind_arrays \<times> variable_type kind_arrays \<times> nat kind_arrays) result" where
  "SharedVariablesDataRep get_sizet get_ba get_sa view = (case initialize_components_totals get_sizet of (m, t) \<Rightarrow>
    rbind (relax_noncategorical get_ba m \<lparr>variablesCompsTotals = t, variablesView = view, allRelaxedDiscreteInt = [],
        allRelaxedDiscreteReal = []\<rparr>) (\<lambda>s.
    rbind (initialize_all_labels get_sa s) (\<lambda>labels.
    rbind (initialize_all_types m s) (\<lambda>types.
    rbind (initialize_all_ids s) (\<lambda>ids.
      Inr (m, s, labels, types, ids))))))"

end
