(* ===== verification/Type_Properties.thy ===== *)
theory Type_Properties
  imports "HOL-Library.Multiset" Variable_Types
begin

text \<open>
  What the construction of the shared variables data promises: the arrays of ids, types and labels agree.

  The reference is the list of all variables in the order of the specification (group by group, kind by kind);
  the id of a variable is its place in this list, counted from one.  An array of a kind selects from the list the
  variables of that kind and, if the kind is continuous, the relaxed discrete ones.
\<close>

section \<open>Selections by relaxation bits\<close>

definition picked :: "bool list \<Rightarrow> 'a list \<Rightarrow> 'a list" where
  "picked bs xs = map snd (filter fst (zip bs xs))"

definition left_out :: "bool list \<Rightarrow> 'a list \<Rightarrow> 'a list" where
  "left_out bs xs = map snd (filter (\<lambda>p. \<not> fst p) (zip bs xs))"

lemma selections_simps [simp]:
  "picked bs [] = []" "left_out bs [] = []"
  "picked (b # bs) (x # xs) = (if b then [x] else []) @ picked bs xs"
  "left_out (b # bs) (x # xs) = (if b then [] else [x]) @ left_out bs xs"
  by (simp_all add: picked_def left_out_def)

lemma picked_length: "length bs = length xs \<Longrightarrow> length (picked bs xs) = bit_count bs"
  by (induction bs xs rule: list_induct2) (simp_all add: bit_count_def)

lemma left_out_length: "length bs = length xs \<Longrightarrow> length (left_out bs xs) = length xs - bit_count bs"
proof (induction bs xs rule: list_induct2)
  case (Cons b bs x xs)
  have "bit_count bs \<le> length xs" using length_filter_le [of "\<lambda>x. x" bs] Cons.hyps by (simp add: bit_count_def)
  then show ?case using Cons by (simp add: bit_count_def Suc_diff_le)
qed (simp add: bit_count_def)

lemma selections_map: "picked bs (map f xs) = map f (picked bs xs)" "left_out bs (map f xs) = map f (left_out bs xs)"
proof -
  have "zip bs (map f xs) = map (apsnd f) (zip bs xs)" by (simp add: zip_map2 apsnd_def map_prod_def)
  then show "picked bs (map f xs) = map f (picked bs xs)" "left_out bs (map f xs) = map f (left_out bs xs)"
    by (simp_all add: picked_def left_out_def filter_map comp_def)
qed

text \<open>The bits that a run of \<open>n\<close> discrete variables sees.\<close>

definition bits_at :: "bool \<Rightarrow> bool list \<Rightarrow> nat \<Rightarrow> nat \<Rightarrow> bool list" where
  "bits_at relax bits c n = (if relax then take n (drop c bits) else replicate n False)"

lemma length_bits_at: "(relax \<Longrightarrow> c + n \<le> length bits) \<Longrightarrow> length (bits_at relax bits c n) = n"
  by (auto simp: bits_at_def)

lemma bits_at_Suc:
  "(relax \<Longrightarrow> c < length bits) \<Longrightarrow> bits_at relax bits c (Suc n) = (relax \<and> bits ! c) # bits_at relax bits (Suc c) n"
  by (auto simp: bits_at_def Cons_nth_drop_Suc [symmetric])

lemma rfold_put:
  "length (A k) + length xs \<le> of_kind k n \<Longrightarrow> rfold (put n k) xs A = Inr (A(k := A k @ xs))"
  by (induction xs arbitrary: A) (simp_all add: put_def)

lemma rfold_place_int:
  assumes "relax \<Longrightarrow> ci + length xs \<le> length bits"
    and "length (A CV) + length (picked (bits_at relax bits ci (length xs)) xs) \<le> of_kind CV n"
      "length (A DIV) + length (left_out (bits_at relax bits ci (length xs)) xs) \<le> of_kind DIV n"
  shows "rfold (place_int n relax bits) xs (A, ci, cr) =
    Inr (A(CV := A CV @ picked (bits_at relax bits ci (length xs)) xs, DIV := A DIV @ left_out (bits_at relax bits ci (length xs)) xs),
      ci + length xs, cr)"
  using assms
proof (induction xs arbitrary: A ci)
  case (Cons x xs)
  have b: "bits_at relax bits ci (Suc (length xs)) = (relax \<and> bits ! ci) # bits_at relax bits (Suc ci) (length xs)"
    using Cons.prems(1) by (intro bits_at_Suc) auto
  show ?case
  proof (cases "relax \<and> bits ! ci")
    case True
    then show ?thesis using Cons b by (simp add: place_int_def put_def fun_eq_iff)
  next
    case False
    then have "rfold (place_int n relax bits) (x # xs) (A, ci, cr) = rfold (place_int n relax bits) xs (A(DIV := A DIV @ [x]), Suc ci, cr)"
      using Cons.prems b by (auto simp: place_int_def put_def)
    then show ?thesis using Cons b False by (auto simp: fun_eq_iff)
  qed
qed simp

lemma rfold_place_real:
  assumes "relax \<Longrightarrow> cr + length xs \<le> length bits"
    and "length (A CV) + length (picked (bits_at relax bits cr (length xs)) xs) \<le> of_kind CV n"
      "length (A DRV) + length (left_out (bits_at relax bits cr (length xs)) xs) \<le> of_kind DRV n"
  shows "rfold (place_real n relax bits) xs (A, ci, cr) =
    Inr (A(CV := A CV @ picked (bits_at relax bits cr (length xs)) xs, DRV := A DRV @ left_out (bits_at relax bits cr (length xs)) xs),
      ci, cr + length xs)"
  using assms
proof (induction xs arbitrary: A cr)
  case (Cons x xs)
  have b: "bits_at relax bits cr (Suc (length xs)) = (relax \<and> bits ! cr) # bits_at relax bits (Suc cr) (length xs)"
    using Cons.prems(1) by (intro bits_at_Suc) auto
  show ?case
  proof (cases "relax \<and> bits ! cr")
    case True
    then show ?thesis using Cons b by (simp add: place_real_def put_def fun_eq_iff)
  next
    case False
    then have "rfold (place_real n relax bits) (x # xs) (A, ci, cr) = rfold (place_real n relax bits) xs (A(DRV := A DRV @ [x]), ci, Suc cr)"
      using Cons.prems b by (auto simp: place_real_def put_def)
    then show ?thesis using Cons b False by (auto simp: fun_eq_iff)
  qed
qed simp
section \<open>Filling the arrays\<close>

definition int_bits :: "shared_variables \<Rightarrow> nat \<Rightarrow> nat \<Rightarrow> bool list" where
  "int_bits s c n = bits_at (any_relaxed s) (allRelaxedDiscreteInt s) c n"

definition real_bits :: "shared_variables \<Rightarrow> nat \<Rightarrow> nat \<Rightarrow> bool list" where
  "real_bits s c n = bits_at (any_relaxed s) (allRelaxedDiscreteReal s) c n"

text \<open>What a group adds to the array of a kind.\<close>

fun group_target :: "shared_variables \<Rightarrow> nat \<Rightarrow> nat \<Rightarrow> 'a items \<Rightarrow> var_kind \<Rightarrow> 'a list" where
  "group_target s ci cr (cs, is, ss, rs) CV = cs @ picked (int_bits s ci (length is)) is @ picked (real_bits s cr (length rs)) rs"
| "group_target s ci cr (cs, is, ss, rs) DIV = left_out (int_bits s ci (length is)) is"
| "group_target s ci cr (cs, is, ss, rs) DSV = ss"
| "group_target s ci cr (cs, is, ss, rs) DRV = left_out (real_bits s cr (length rs)) rs"

definition fits :: "shared_variables \<Rightarrow> nat \<Rightarrow> nat \<Rightarrow> bool" where
  "fits s ci cr \<longleftrightarrow> (any_relaxed s \<longrightarrow> ci \<le> length (allRelaxedDiscreteInt s) \<and> cr \<le> length (allRelaxedDiscreteReal s))"

definition room :: "shared_variables \<Rightarrow> (var_kind \<Rightarrow> 'a list) \<Rightarrow> (var_kind \<Rightarrow> 'a list) \<Rightarrow> bool" where
  "room s A B \<longleftrightarrow> (\<forall>k. length (A k) + length (B k) \<le> of_kind k (all_counts s))"

lemma own_flag:
  "fits s (ci + n) (cr + m) \<Longrightarrow> bits_at (True \<in> set (allRelaxedDiscreteInt s)) (allRelaxedDiscreteInt s) ci n = int_bits s ci n"
  "fits s (ci + n) (cr + m) \<Longrightarrow> bits_at (True \<in> set (allRelaxedDiscreteReal s)) (allRelaxedDiscreteReal s) cr m = real_bits s cr m"
proof -
  have *: "take k (drop c xs) = replicate k False" if "True \<notin> set xs" "c + k \<le> length xs" for c k :: nat and xs
  proof (intro nth_equalityI)
    fix i assume "i < length (take k (drop c xs))"
    then have "xs ! (c + i) \<in> set xs" using that(2) by (intro nth_mem) simp
    then show "take k (drop c xs) ! i = replicate k False ! i" using that \<open>i < length (take k (drop c xs))\<close> by (cases "xs ! (c + i)") auto
  qed (use that in simp)
  assume "fits s (ci + n) (cr + m)"
  then show "bits_at (True \<in> set (allRelaxedDiscreteInt s)) (allRelaxedDiscreteInt s) ci n = int_bits s ci n"
    "bits_at (True \<in> set (allRelaxedDiscreteReal s)) (allRelaxedDiscreteReal s) cr m = real_bits s cr m"
    by (auto simp: bits_at_def int_bits_def real_bits_def fits_def any_relaxed_def *)
qed

lemma put_run_ok: "length (A k) + length xs \<le> of_kind k n \<Longrightarrow> put_run n k xs (A, ci, cr) = Inr (A(k := A k @ xs), ci, cr)"
  by (simp add: put_run_def rfold_put)

lemma fill_types_step:
  assumes f: "fits s (ci + length is) (cr + length rs)" and r: "room s A (group_target s ci cr (cs, is, ss, rs))"
  shows "fill_types s (cs, is, ss, rs) (A, ci, cr) =
    Inr (\<lambda>k. A k @ group_target s ci cr (cs, is, ss, rs) k, ci + length is, cr + length rs)"
proof -
  have rooms: "length (A CV) + (length cs + length (picked (int_bits s ci (length is)) is) + length (picked (real_bits s cr (length rs)) rs)) \<le> of_kind CV (all_counts s)"
    "length (A DIV) + length (left_out (int_bits s ci (length is)) is) \<le> of_kind DIV (all_counts s)"
    "length (A DSV) + length ss \<le> of_kind DSV (all_counts s)"
    "length (A DRV) + length (left_out (real_bits s cr (length rs)) rs) \<le> of_kind DRV (all_counts s)"
    using r [unfolded room_def, rule_format, of CV] r [unfolded room_def, rule_format, of DIV]
      r [unfolded room_def, rule_format, of DSV] r [unfolded room_def, rule_format, of DRV] by simp_all
  have b: "any_relaxed s \<Longrightarrow> ci + length is \<le> length (allRelaxedDiscreteInt s)" "any_relaxed s \<Longrightarrow> cr + length rs \<le> length (allRelaxedDiscreteReal s)"
    using f by (simp_all add: fits_def)
  show ?thesis using rooms b
    by (simp add: fill_types_def Let_def put_run_ok rfold_place_int rfold_place_real int_bits_def real_bits_def)
      (intro ext, rename_tac k, case_tac k; simp add: int_bits_def real_bits_def)
qed


fun id_items :: "nat \<Rightarrow> counts \<Rightarrow> nat items" where
  "id_items i (n_cv, n_div, n_dsv, n_drv) =
    ([i ..< i + n_cv], [i + n_cv ..< i + n_cv + n_div], [i + n_cv + n_div ..< i + n_cv + n_div + n_dsv],
     [i + n_cv + n_div + n_dsv ..< i + n_cv + n_div + n_dsv + n_drv])"

lemma fill_ids_step:
  assumes f: "fits s (ci + num_int c) (cr + num_real c)" and r: "room s A (group_target s ci cr (id_items i c))"
  shows "fill_ids s c (i, A, ci, cr) =
    Inr (i + group_size c, \<lambda>k. A k @ group_target s ci cr (id_items i c) k, ci + num_int c, cr + num_real c)"
proof -
  obtain n_cv n_div n_dsv n_drv where c: "c = (n_cv, n_div, n_dsv, n_drv)" by (metis surj_pair)
  have f': "fits s (ci + n_div) (cr + n_drv)" using f by (simp add: c num_int_def num_real_def)
  let ?is = "[i + n_cv ..< i + n_cv + n_div]" and ?rs = "[i + n_cv + n_div + n_dsv ..< i + n_cv + n_div + n_dsv + n_drv]"
  have rooms: "length (A CV) + (n_cv + length (picked (int_bits s ci n_div) ?is) + length (picked (real_bits s cr n_drv) ?rs)) \<le> of_kind CV (all_counts s)"
    "length (A DIV) + length (left_out (int_bits s ci n_div) ?is) \<le> of_kind DIV (all_counts s)"
    "length (A DSV) + n_dsv \<le> of_kind DSV (all_counts s)"
    "length (A DRV) + length (left_out (real_bits s cr n_drv) ?rs) \<le> of_kind DRV (all_counts s)"
    using r [unfolded room_def, rule_format, of CV] r [unfolded room_def, rule_format, of DIV]
      r [unfolded room_def, rule_format, of DSV] r [unfolded room_def, rule_format, of DRV] by (simp_all add: c)
  have b: "True \<in> set (allRelaxedDiscreteInt s) \<Longrightarrow> ci + n_div \<le> length (allRelaxedDiscreteInt s)"
      "True \<in> set (allRelaxedDiscreteReal s) \<Longrightarrow> cr + n_drv \<le> length (allRelaxedDiscreteReal s)"
    using f' by (simp_all add: fits_def any_relaxed_def)
  show ?thesis using rooms b
    by (simp add: fill_ids_def c Let_def put_run_ok rfold_place_int rfold_place_real own_flag [OF f'] num_int_def num_real_def)
      (intro ext, rename_tac k, case_tac k; simp)
qed
lemma nothing_relaxed [simp]:
  "picked (replicate n False) xs = []" "left_out (replicate (length xs) False) xs = xs"
proof -
  show "picked (replicate n False) xs = []" by (auto simp: picked_def filter_empty_conv dest: set_zip_leftD)
  show "left_out (replicate (length xs) False) xs = xs" by (induction xs) simp_all
qed

lemma fill_labels_step:
  assumes f: "fits s (ci + length is) (cr + length rs)" and r: "room s A (group_target s ci cr (cs, is, ss, rs))"
    and c: "any_relaxed s \<longrightarrow> ci' = ci \<and> cr' = cr"
  shows "\<exists>di dr. fill_labels s (cs, is, ss, rs) (A, ci', cr') = Inr (\<lambda>k. A k @ group_target s ci cr (cs, is, ss, rs) k, di, dr) \<and>
    (any_relaxed s \<longrightarrow> di = ci + length is \<and> dr = cr + length rs)"
proof -
  have rooms: "length (A CV) + (length cs + length (picked (int_bits s ci (length is)) is) + length (picked (real_bits s cr (length rs)) rs)) \<le> of_kind CV (all_counts s)"
    "length (A DIV) + length (left_out (int_bits s ci (length is)) is) \<le> of_kind DIV (all_counts s)"
    "length (A DSV) + length ss \<le> of_kind DSV (all_counts s)"
    "length (A DRV) + length (left_out (real_bits s cr (length rs)) rs) \<le> of_kind DRV (all_counts s)"
    using r [unfolded room_def, rule_format, of CV] r [unfolded room_def, rule_format, of DIV]
      r [unfolded room_def, rule_format, of DSV] r [unfolded room_def, rule_format, of DRV] by simp_all
  have b: "any_relaxed s \<Longrightarrow> ci + length is \<le> length (allRelaxedDiscreteInt s)" "any_relaxed s \<Longrightarrow> cr + length rs \<le> length (allRelaxedDiscreteReal s)"
    using f by (simp_all add: fits_def)
  show ?thesis
  proof (cases "any_relaxed s")
    case True
    then show ?thesis using rooms b c
      by (simp add: fill_labels_def copy_labels_def Let_def rfold_place_int rfold_place_real int_bits_def real_bits_def)
        (intro ext, rename_tac k, case_tac k; simp add: int_bits_def real_bits_def)
  next
    case False
    then show ?thesis using rooms
      by (simp add: fill_labels_def copy_labels_def Let_def int_bits_def real_bits_def bits_at_def)
        (intro ext, rename_tac k, case_tac k; simp add: int_bits_def real_bits_def bits_at_def)
  qed
qed

text \<open>The arrays of all groups.\<close>

fun targets :: "shared_variables \<Rightarrow> nat \<Rightarrow> nat \<Rightarrow> 'a items list \<Rightarrow> var_kind \<Rightarrow> 'a list" where
  "targets s ci cr [] k = []"
| "targets s ci cr ((cs, is, ss, rs) # gs) k =
    group_target s ci cr (cs, is, ss, rs) k @ targets s (ci + length is) (cr + length rs) gs k"

definition item_counts :: "'a items \<Rightarrow> counts" where
  "item_counts x = (case x of (cs, is, ss, rs) \<Rightarrow> (length cs, length is, length ss, length rs))"

definition ints_of :: "counts list \<Rightarrow> nat" where "ints_of cs = sum_list (map num_int cs)"
definition reals_of :: "counts list \<Rightarrow> nat" where "reals_of cs = sum_list (map num_real cs)"

lemma num_item_counts [simp]: "num_int (item_counts (cs, is, ss, rs)) = length is" "num_real (item_counts (cs, is, ss, rs)) = length rs"
  by (simp_all add: item_counts_def num_int_def num_real_def)

lemma ints_reals_simps [simp]:
  "ints_of [] = 0" "ints_of (c # cs) = num_int c + ints_of cs" "reals_of [] = 0" "reals_of (c # cs) = num_real c + reals_of cs"
  by (simp_all add: ints_of_def reals_of_def)

lemma fits_mono: "fits s a b \<Longrightarrow> a' \<le> a \<Longrightarrow> b' \<le> b \<Longrightarrow> fits s a' b'"
  by (auto simp: fits_def)

lemma room_append: "room s A (\<lambda>k. X k @ Y k) \<Longrightarrow> room s A X \<and> room s (\<lambda>k. A k @ X k) Y"
  by (auto simp: room_def) (metis add.assoc add_leD1, metis add.assoc)

lemma rfold_fill_types:
  assumes "fits s (ci + ints_of (map item_counts gs)) (cr + reals_of (map item_counts gs))" "room s A (targets s ci cr gs)"
  shows "\<exists>ci' cr'. rfold (fill_types s) gs (A, ci, cr) = Inr (\<lambda>k. A k @ targets s ci cr gs k, ci', cr')"
  using assms
proof (induction gs arbitrary: A ci cr)
  case (Cons x gs)
  obtain cs "is" ss rs where x: "x = (cs, is, ss, rs)" by (cases x)
  have r: "room s A (group_target s ci cr x)" "room s (\<lambda>k. A k @ group_target s ci cr x k) (targets s (ci + length is) (cr + length rs) gs)"
    using room_append [of s A "group_target s ci cr x" "targets s (ci + length is) (cr + length rs) gs"] Cons.prems(2) by (simp_all add: x)
  have f: "fits s (ci + length is) (cr + length rs)" using Cons.prems(1) by (rule fits_mono) (simp_all add: x)
  show ?case using Cons.IH [OF _ r(2)] Cons.prems(1) fill_types_step [OF f r(1) [unfolded x]] by (simp add: x add.assoc)
qed simp

lemma rfold_fill_labels:
  assumes "fits s (ci + ints_of (map item_counts gs)) (cr + reals_of (map item_counts gs))" "room s A (targets s ci cr gs)"
    and "any_relaxed s \<longrightarrow> ci' = ci \<and> cr' = cr"
  shows "\<exists>c. rfold (fill_labels s) gs (A, ci', cr') = Inr (\<lambda>k. A k @ targets s ci cr gs k, c)"
  using assms
proof (induction gs arbitrary: A ci cr ci' cr')
  case (Cons x gs)
  obtain cs "is" ss rs where x: "x = (cs, is, ss, rs)" by (cases x)
  have r: "room s A (group_target s ci cr x)" "room s (\<lambda>k. A k @ group_target s ci cr x k) (targets s (ci + length is) (cr + length rs) gs)"
    using room_append [of s A "group_target s ci cr x" "targets s (ci + length is) (cr + length rs) gs"] Cons.prems(2) by (simp_all add: x)
  have f: "fits s (ci + length is) (cr + length rs)" using Cons.prems(1) by (rule fits_mono) (simp_all add: x)
  obtain di dr where d: "fill_labels s x (A, ci', cr') = Inr (\<lambda>k. A k @ group_target s ci cr x k, di, dr)"
      "any_relaxed s \<longrightarrow> di = ci + length is \<and> dr = cr + length rs"
    using fill_labels_step [OF f r(1) [unfolded x] Cons.prems(3)] unfolding x by blast
  show ?case using Cons.IH [OF _ r(2) d(2)] Cons.prems(1) d(1) by (simp add: x add.assoc)
qed simp

fun number_items :: "nat \<Rightarrow> counts list \<Rightarrow> nat items list" where
  "number_items i [] = []"
| "number_items i (c # cs) = id_items i c # number_items (i + group_size c) cs"

lemma item_counts_ids [simp]: "item_counts (id_items i c) = c"
  by (cases c) (simp add: item_counts_def)

lemma targets_Cons:
  "targets s ci cr (x # gs) k =
    group_target s ci cr x k @ targets s (ci + num_int (item_counts x)) (cr + num_real (item_counts x)) gs k"
  by (cases x) simp

lemma rfold_fill_ids:
  assumes "fits s (ci + ints_of cs) (cr + reals_of cs)" "room s A (targets s ci cr (number_items i cs))"
  shows "\<exists>c. rfold (fill_ids s) cs (i, A, ci, cr) = Inr (i + sum_list (map group_size cs), \<lambda>k. A k @ targets s ci cr (number_items i cs) k, c)"
  using assms
proof (induction cs arbitrary: A ci cr i)
  case (Cons c cs)
  let ?x = "id_items i c"
  have r: "room s A (group_target s ci cr ?x)"
      "room s (\<lambda>k. A k @ group_target s ci cr ?x k) (targets s (ci + num_int c) (cr + num_real c) (number_items (i + group_size c) cs))"
    using room_append [of s A "group_target s ci cr ?x" "targets s (ci + num_int c) (cr + num_real c) (number_items (i + group_size c) cs)"]
      Cons.prems(2) by (simp_all add: targets_Cons)
  have f: "fits s (ci + num_int c) (cr + num_real c)" using Cons.prems(1) by (rule fits_mono) simp_all
  show ?case using Cons.IH [OF _ r(2)] Cons.prems(1) fill_ids_step [OF f r(1)] by (simp add: targets_Cons add.assoc)
qed simp
section \<open>The arrays are complete\<close>

lemma bits_counted:
  assumes "fits s (ci + n) (cr + m)"
  shows "length (int_bits s ci n) = n" "length (real_bits s cr m) = m"
    and "bit_count (int_bits s ci n) = (if any_relaxed s then bits_in (allRelaxedDiscreteInt s) ci n else 0)"
    and "bit_count (real_bits s cr m) = (if any_relaxed s then bits_in (allRelaxedDiscreteReal s) cr m else 0)"
  using assms by (auto simp: int_bits_def real_bits_def bits_at_def fits_def bits_in_def bit_count_def)

lemma group_target_length:
  assumes "fits s (num_int b + num_int (item_counts x)) (num_real b + num_real (item_counts x))"
  shows "length (group_target s (num_int b) (num_real b) x k) = of_kind k (group_counts s b (item_counts x))"
proof -
  obtain cs "is" ss rs where x: "x = (cs, is, ss, rs)" by (cases x)
  note b = bits_counted [of s "num_int b" "length is" "num_real b" "length rs"]
  show ?thesis using assms
    by (cases k) (simp_all add: x b picked_length left_out_length group_counts_def relaxed_counts_def Let_def item_counts_def num_int_def [of "(_, _)"] num_real_def [of "(_, _)"])
qed

lemma relaxation_fits:
  "relaxation_ok s \<Longrightarrow> fits s (ints_of (group_totals (variablesCompsTotals s))) (reals_of (group_totals (variablesCompsTotals s)))"
  by (simp add: relaxation_ok_def fits_def group_totals_def total_counts_def add.assoc)

lemma targets_length:
  assumes s: "relaxation_ok s" and c: "map item_counts gs = group_totals (variablesCompsTotals s)"
  shows "length (targets s 0 0 gs k) = of_kind k (all_counts s)"
proof -
  let ?t = "variablesCompsTotals s"
  obtain x1 x2 x3 x4 where gs: "gs = [x1, x2, x3, x4]"
    using four_elements [of gs] arg_cong [OF c, of length] by (auto simp: group_totals_def)
  have i: "item_counts x1 = total_design ?t" "item_counts x2 = total_aleatory ?t" "item_counts x3 = total_epistemic ?t" "item_counts x4 = total_state ?t"
    using c by (simp_all add: gs group_totals_def)
  note f = relaxation_fits [OF s]
  have "length (group_target s (num_int b) (num_real b) x k) = of_kind k (group_counts s b (item_counts x))"
    if "(b, x) \<in> {(zero_counts, x1), (total_design ?t, x2), (add_counts (total_design ?t) (total_aleatory ?t), x3),
      (add_counts (add_counts (total_design ?t) (total_aleatory ?t)) (total_epistemic ?t), x4)}" for b x
    using that by (intro group_target_length fits_mono [OF f]) (auto simp: i group_totals_def)
  from this [of zero_counts x1] this [of "total_design ?t" x2] this [of "add_counts (total_design ?t) (total_aleatory ?t)" x3]
    this [of "add_counts (add_counts (total_design ?t) (total_aleatory ?t)) (total_epistemic ?t)" x4]
  show ?thesis
    by (simp add: gs targets_Cons i groups_add_up [OF s, symmetric] variable_groups_def Let_def)
qed

lemma targets_room:
  assumes "relaxation_ok s" "map item_counts gs = group_totals (variablesCompsTotals s)"
  shows "room s (\<lambda>k. []) (targets s 0 0 gs)"
  using targets_length [OF assms] by (simp add: room_def)

lemma number_items_counts [simp]: "map item_counts (number_items i cs) = cs"
  by (induction cs arbitrary: i) simp_all

definition id_groups :: "shared_variables \<Rightarrow> nat items list" where
  "id_groups s = number_items 1 (group_totals (variablesCompsTotals s))"

lemma initialize_all_ids_ok:
  assumes s: "relaxation_ok s"
  shows "initialize_all_ids s = Inr (targets s 0 0 (id_groups s))"
proof -
  let ?cs = "group_totals (variablesCompsTotals s)"
  have c: "map item_counts (id_groups s) = ?cs" by (simp add: id_groups_def)
  obtain r where "rfold (fill_ids s) ?cs (1, \<lambda>k. [], 0, 0) = Inr (1 + sum_list (map group_size ?cs), targets s 0 0 (id_groups s), r)"
    using rfold_fill_ids [of s 0 ?cs 0 "\<lambda>k. []" 1] relaxation_fits [OF s] targets_room [OF s c] by (auto simp: id_groups_def)
  then show ?thesis
    using targets_length [OF s c] by (simp add: initialize_all_ids_def empty_fill_def finished_def) (simp flip: targets_length [OF s c])
qed

lemma finished_targets:
  assumes "relaxation_ok s" "map item_counts gs = group_totals (variablesCompsTotals s)"
  shows "finished z (all_counts s) (targets s 0 0 gs, r) = targets s 0 0 gs"
  by (simp add: finished_def flip: targets_length [OF assms])

lemma initialize_all_types_ok:
  assumes s: "relaxation_ok s" and c: "map item_counts [design_types m, aleatory_types m, epistemic_types m, state_types m] = group_totals (variablesCompsTotals s)"
  shows "initialize_all_types m s = Inr (targets s 0 0 [design_types m, aleatory_types m, epistemic_types m, state_types m])"
proof -
  let ?gs = "[design_types m, aleatory_types m, epistemic_types m, state_types m]"
  obtain c1 c2 where "rfold (fill_types s) ?gs (\<lambda>k. [], 0, 0) = Inr (targets s 0 0 ?gs, c1, c2)"
    using rfold_fill_types [of s 0 ?gs 0 "\<lambda>k. []"] relaxation_fits [OF s] targets_room [OF s c] unfolding c by auto
  then show ?thesis by (simp only: initialize_all_types_def empty_fill_def rbind.simps finished_targets [OF s c])
qed

lemma initialize_all_labels_ok:
  assumes s: "relaxation_ok s" and c: "map item_counts (label_items get_sa) = group_totals (variablesCompsTotals s)"
  shows "initialize_all_labels get_sa s = Inr (targets s 0 0 (label_items get_sa))"
proof -
  obtain r where "rfold (fill_labels s) (label_items get_sa) (\<lambda>k. [], 0, 0) = Inr (targets s 0 0 (label_items get_sa), r)"
    using rfold_fill_labels [of s 0 "label_items get_sa" 0 "\<lambda>k. []" 0 0] relaxation_fits [OF s] targets_room [OF s c] unfolding c by auto
  then show ?thesis by (simp only: initialize_all_labels_def empty_fill_def rbind.simps finished_targets [OF s c])
qed
section \<open>The arrays agree\<close>

definition map_items :: "('a \<Rightarrow> 'b) \<Rightarrow> 'a items \<Rightarrow> 'b items" where
  "map_items f x = (case x of (cs, is, ss, rs) \<Rightarrow> (map f cs, map f is, map f ss, map f rs))"

lemma targets_map: "targets s ci cr (map (map_items f) gs) k = map f (targets s ci cr gs k)"
proof (induction gs arbitrary: ci cr)
  case (Cons x gs)
  obtain cs "is" ss rs where x: "x = (cs, is, ss, rs)" by (cases x)
  have "group_target s ci cr (map_items f x) k = map f (group_target s ci cr x k)"
    by (cases k) (simp_all add: x map_items_def selections_map)
  then show ?case using Cons.IH by (simp add: x map_items_def)
qed simp

text \<open>The list of all variables.\<close>

fun group_list :: "'a items \<Rightarrow> 'a list" where
  "group_list (cs, is, ss, rs) = cs @ is @ ss @ rs"

definition all_items :: "'a items list \<Rightarrow> 'a list" where
  "all_items gs = concat (map group_list gs)"

lemma all_items_simps [simp]: "all_items [] = []" "all_items (x # gs) = group_list x @ all_items gs"
  by (simp_all add: all_items_def)

lemma group_list_length: "length (group_list x) = group_size (item_counts x)"
  by (cases x) (simp add: item_counts_def)

lemma map_nth_interval:
  "a + n \<le> length xs \<Longrightarrow> map (\<lambda>i. xs ! (i - 1)) [Suc a ..< Suc a + n] = take n (drop a xs)"
  by (intro nth_equalityI) (auto simp del: upt_Suc)

lemma id_items_map: "map_items (\<lambda>i. (pre @ group_list x @ suf) ! (i - 1)) (id_items (Suc (length pre)) (item_counts x)) = x"
proof -
  obtain cs "is" ss rs where x: "x = (cs, is, ss, rs)" by (cases x)
  let ?L = "pre @ cs @ is @ ss @ rs @ suf"
  have "map (\<lambda>i. ?L ! (i - 1)) [Suc a ..< Suc a + n] = take n (drop a ?L)" if "a + n \<le> length ?L" for a n
    using that by (rule map_nth_interval)
  from this [of "length pre" "length cs"] this [of "length pre + length cs" "length is"]
    this [of "length pre + length cs + length is" "length ss"] this [of "length pre + length cs + length is + length ss" "length rs"]
  show ?thesis by (simp add: x map_items_def item_counts_def add.assoc)
qed

lemma number_items_map:
  "map (map_items (\<lambda>i. (pre @ all_items gs) ! (i - 1))) (number_items (Suc (length pre)) (map item_counts gs)) = gs"
proof (induction gs arbitrary: pre)
  case (Cons x gs)
  show ?case using Cons.IH [of "pre @ group_list x"] id_items_map [of pre x "all_items gs"] by (simp add: group_list_length)
qed simp

lemma targets_by_id:
  assumes "map item_counts gs = group_totals (variablesCompsTotals s)"
  shows "targets s 0 0 gs k = map (\<lambda>i. all_items gs ! (i - 1)) (targets s 0 0 (id_groups s) k)"
  using number_items_map [of "[]" gs] by (simp add: targets_map [symmetric] id_groups_def assms [symmetric])

section \<open>Construction\<close>

text \<open>The counts and the totals of the two constructors.\<close>

lemma vc_lookup_upd: "vc_lookup (m(k \<mapsto> n)) j = (if j = k then n else vc_lookup m j)"
  by (simp add: vc_lookup_def)

lemma add_kind_zero [simp]: "add_kind k 0 c = c"
  by (cases c; cases k) simp_all

lemma add_total_zero [simp]: "add_total g k 0 t = t"
  by (cases g) simp_all

lemma count_component_alt:
  "vc_lookup m vt = 0 \<Longrightarrow> count_component q (key, vt, g, k) (m, t) = (m', t') \<Longrightarrow>
    (\<forall>j. vc_lookup m' j = (if j = vt then q key else vc_lookup m j)) \<and> t' = add_total g k (q key) t"
  by (auto simp: count_component_def Let_def vc_lookup_upd split: if_splits)

lemma fold_count_component:
  "distinct (map (fst \<circ> snd) qs) \<Longrightarrow> (\<forall>vt \<in> set (map (fst \<circ> snd) qs). vc_lookup m vt = 0) \<Longrightarrow>
    fold (count_component q) qs (m, t) = (m', t') \<Longrightarrow>
    (\<forall>j. vc_lookup m' j = (case map_of (map (\<lambda>(key, vt, r). (vt, key)) qs) j of None \<Rightarrow> vc_lookup m j | Some key \<Rightarrow> q key)) \<and>
    t' = fold (\<lambda>(key, vt, g, k). add_total g k (q key)) qs t"
proof (induction qs arbitrary: m t)
  case (Cons e qs)
  obtain key vt g k where e: "e = (key, vt, g, k)" by (metis surj_pair)
  obtain m1 t1 where s1: "count_component q e (m, t) = (m1, t1)" by (cases "count_component q e (m, t)")
  have a: "\<forall>j. vc_lookup m1 j = (if j = vt then q key else vc_lookup m j)" "t1 = add_total g k (q key) t"
    using count_component_alt [of m vt q key g k t m1 t1] Cons.prems(2) s1 by (simp_all add: e)
  have "vt \<notin> set (map (fst \<circ> snd) qs)" using Cons.prems(1) by (simp add: e)
  then have n: "map_of (map (\<lambda>(key, vt, r). (vt, key)) qs) vt = None" by (auto simp: map_of_eq_None_iff image_iff comp_def split_beta)
  have "(\<forall>j. vc_lookup m' j = (case map_of (map (\<lambda>(key, vt, r). (vt, key)) qs) j of None \<Rightarrow> vc_lookup m1 j | Some key \<Rightarrow> q key)) \<and>
    t' = fold (\<lambda>(key, vt, g, k). add_total g k (q key)) qs t1"
    using Cons.prems s1 a(1) \<open>vt \<notin> _\<close> by (intro Cons.IH) auto
  then show ?case using a n by (auto simp: e split: option.splits)
qed simp

lemma components_totals_agree:
  assumes "initialize_components_totals q = (m, t)"
  shows "t = components_to_totals m"
proof -
  have "distinct (map (fst \<circ> snd) component_queries)" by (simp add: component_queries_def)
  moreover have "\<forall>vt \<in> set (map (fst \<circ> snd) component_queries). vc_lookup Map.empty vt = 0" by (simp add: vc_lookup_def)
  ultimately have "(\<forall>j. vc_lookup m j = (case map_of (map (\<lambda>(key, vt, r). (vt, key)) component_queries) j of
      None \<Rightarrow> vc_lookup Map.empty j | Some key \<Rightarrow> q key)) \<and>
    t = fold (\<lambda>(key, vt, g, k). add_total g k (q key)) component_queries no_totals"
    using assms unfolding initialize_components_totals_def by (rule fold_count_component)
  then show ?thesis
    by (simp add: component_queries_def components_to_totals_def Let_def no_totals_def zero_counts_def)
qed
text \<open>The relaxed variables: all whose specification does not call them categorical.\<close>

definition relaxed_flags :: "bool list \<Rightarrow> nat \<Rightarrow> bool list" where
  "relaxed_flags cat n = (if cat = [] then replicate n True else map Not cat)"

lemma relax_type_flags:
  assumes "cat = [] \<or> length cat = n"
  shows "relax_type cat n (pre @ replicate n False @ suf, length pre) = Inr (pre @ relaxed_flags cat n @ suf, length pre + n)"
proof -
  let ?f = "\<lambda>i (bits, cntr). rbind (set_relax cat i cntr bits) (\<lambda>bits'. Inr (bits', Suc cntr))"
  have l: "length (relaxed_flags cat n) = n" using assms by (auto simp: relaxed_flags_def)
  have "j \<le> n \<Longrightarrow> rfold ?f [0..<j] (pre @ replicate n False @ suf, length pre) =
      Inr (pre @ take j (relaxed_flags cat n) @ replicate (n - j) False @ suf, length pre + j)" for j
  proof (induction j)
    case (Suc j)
    then have j: "j < n" by simp
    have flag: "relaxed_flags cat n ! j = (cat = [] \<or> \<not> cat ! j)" using assms j by (auto simp: relaxed_flags_def)
    have upd: "(pre @ take j (relaxed_flags cat n) @ replicate (n - j) False @ suf)[length pre + j := b] =
        pre @ take j (relaxed_flags cat n) @ b # replicate (n - Suc j) False @ suf" for b
      using l j by (simp add: list_update_append Suc_diff_Suc [symmetric] del: Suc_diff_Suc)
    have same: "pre @ take j (relaxed_flags cat n) @ replicate (n - j) False @ suf =
        pre @ take j (relaxed_flags cat n) @ False # replicate (n - Suc j) False @ suf"
      using j by (cases "n - j") (simp_all add: Suc_diff_Suc [symmetric])
    have "?f j (pre @ take j (relaxed_flags cat n) @ replicate (n - j) False @ suf, length pre + j) =
        Inr (pre @ take (Suc j) (relaxed_flags cat n) @ replicate (n - Suc j) False @ suf, length pre + Suc j)"
      using assms j l upd flag by (auto simp: set_relax_def take_Suc_conv_app_nth same)
    then show ?case using Suc by (simp add: rfold_append)
  qed simp
  from this [of n] show ?thesis by (simp add: relax_type_def l)
qed

lemma relax_categories_flags:
  assumes "\<forall>(key, vt) \<in> set cats. q key = [] \<or> length (q key) = vc_lookup m vt"
  shows "relax_categories q m cats (replicate (sum_list (map (vc_lookup m \<circ> snd) cats)) False) =
    Inr (concat (map (\<lambda>(key, vt). relaxed_flags (q key) (vc_lookup m vt)) cats))"
proof -
  let ?n = "\<lambda>cats. sum_list (map (vc_lookup m \<circ> snd) cats)"
  have "rfold (\<lambda>(key, vt). relax_type (q key) (vc_lookup m vt)) cats (pre @ replicate (?n cats) False, length pre) =
      Inr (pre @ concat (map (\<lambda>(key, vt). relaxed_flags (q key) (vc_lookup m vt)) cats), length pre + ?n cats)" for pre
    using assms
  proof (induction cats arbitrary: pre)
    case (Cons e cats)
    obtain key vt where e: "e = (key, vt)" by (cases e)
    have l: "q key = [] \<or> length (q key) = vc_lookup m vt" using Cons.prems by (simp add: e)
    then have len: "length (relaxed_flags (q key) (vc_lookup m vt)) = vc_lookup m vt" by (auto simp: relaxed_flags_def)
    show ?case
      using relax_type_flags [OF l, of pre "replicate (?n cats) False"] Cons.IH [of "pre @ relaxed_flags (q key) (vc_lookup m vt)"] Cons.prems
      by (simp add: e len replicate_add add.assoc comp_def)
  qed simp
  from this [of "[]"] show ?thesis by (simp add: relax_categories_def)
qed


lemma length_relaxed_flags: "cat = [] \<or> length cat = n \<Longrightarrow> length (relaxed_flags cat n) = n"
  by (auto simp: relaxed_flags_def)

text \<open>The description is consistent: a label per variable, and for a type either no categorical flags or one per
  variable.\<close>

definition consistent_description :: "(string \<Rightarrow> nat) \<Rightarrow> (string \<Rightarrow> bool list) \<Rightarrow> (string \<Rightarrow> string list) \<Rightarrow> bool" where
  "consistent_description get_sizet get_ba get_sa \<longleftrightarrow> (case initialize_components_totals get_sizet of (m, t) \<Rightarrow>
    list_all (\<lambda>(key, vt). get_ba key = [] \<or> length (get_ba key) = vc_lookup m vt) (int_categories @ real_categories) \<and>
    map item_counts (label_items get_sa) = group_totals t)"

definition type_items :: "components \<Rightarrow> variable_type items list" where
  "type_items m = [design_types m, aleatory_types m, epistemic_types m, state_types m]"

lemma length_runs: "length (runs m vts) = sum_list (map (vc_lookup m) vts)"
  by (simp add: runs_def length_concat comp_def)

lemma type_items_counts: "map item_counts (type_items m) = group_totals (components_to_totals m)"
  by (simp add: type_items_def group_totals_def item_counts_def design_types_def aleatory_types_def epistemic_types_def state_types_def
    components_to_totals_def Let_def length_runs)

lemma category_totals:
  "sum_list (map (vc_lookup m \<circ> snd) int_categories) = num_int (total_counts (components_to_totals m))"
  "sum_list (map (vc_lookup m \<circ> snd) real_categories) = num_real (total_counts (components_to_totals m))"
  by (simp_all add: int_categories_def real_categories_def components_to_totals_def Let_def total_counts_def num_int_def num_real_def add_counts_def)

definition category_flags :: "(string \<Rightarrow> bool list) \<Rightarrow> components \<Rightarrow> (string \<times> variable_type) list \<Rightarrow> bool list" where
  "category_flags get_ba m cats = concat (map (\<lambda>(key, vt). relaxed_flags (get_ba key) (vc_lookup m vt)) cats)"

lemma length_category_flags:
  "\<forall>(key, vt) \<in> set cats. q key = [] \<or> length (q key) = vc_lookup m vt \<Longrightarrow>
    length (category_flags q m cats) = sum_list (map (vc_lookup m \<circ> snd) cats)"
  by (induction cats) (auto simp: category_flags_def length_relaxed_flags)

lemma relax_noncategorical_ok:
  assumes "\<forall>(key, vt) \<in> set (int_categories @ real_categories). q key = [] \<or> length (q key) = vc_lookup m vt"
    and t: "variablesCompsTotals s = components_to_totals m"
  shows "\<exists>s'. relax_noncategorical q m s = Inr s' \<and> views_ok s' \<and> variablesView s' = variablesView s \<and>
    variablesCompsTotals s' = components_to_totals m \<and>
    (relaxed_view (fst (variablesView s)) \<longrightarrow> allRelaxedDiscreteInt s' = category_flags q m int_categories \<and>
      allRelaxedDiscreteReal s' = category_flags q m real_categories)"
proof -
  have a: "\<forall>(key, vt) \<in> set int_categories. q key = [] \<or> length (q key) = vc_lookup m vt"
    "\<forall>(key, vt) \<in> set real_categories. q key = [] \<or> length (q key) = vc_lookup m vt" using assms(1) by auto
  note r = a [THEN relax_categories_flags, unfolded category_totals] and l = a [THEN length_category_flags, unfolded category_totals]
  show ?thesis using r l t
    by (cases "relaxed_view (fst (variablesView s))")
      (auto simp: relax_noncategorical_def Let_def views_ok_def category_flags_def)
qed
text \<open>C9: Construction from a consistent description succeeds and yields agreeing data.  The totals are those of the
  counted types; the relaxation bits are those that the view requires; the arrays have the sizes that the counts
  announce; and for every kind and index, the entries of the arrays of types and labels belong to the variable
  whose id is in the array of ids.\<close>

theorem shared_variables_constructed:
  assumes "consistent_description get_sizet get_ba get_sa"
  shows "\<exists>m s labels types ids. SharedVariablesDataRep get_sizet get_ba get_sa view = Inr (m, s, labels, types, ids) \<and>
    views_ok s \<and> variablesView s = view \<and> variablesCompsTotals s = components_to_totals m \<and>
    (\<forall>k. length (ids k) = of_kind k (all_counts s) \<and>
      types k = map (\<lambda>i. all_items (type_items m) ! (i - 1)) (ids k) \<and>
      labels k = map (\<lambda>i. all_items (label_items get_sa) ! (i - 1)) (ids k))"
proof -
  obtain m t where mt: "initialize_components_totals get_sizet = (m, t)" by (cases "initialize_components_totals get_sizet")
  note t = components_totals_agree [OF mt]
  let ?s0 = "\<lparr>variablesCompsTotals = t, variablesView = view, allRelaxedDiscreteInt = [], allRelaxedDiscreteReal = []\<rparr>"
  have d: "\<forall>(key, vt) \<in> set (int_categories @ real_categories). get_ba key = [] \<or> length (get_ba key) = vc_lookup m vt"
    "map item_counts (label_items get_sa) = group_totals (components_to_totals m)"
    using assms by (simp_all add: consistent_description_def mt t list_all_iff)
  obtain s where s: "relax_noncategorical get_ba m ?s0 = Inr s" "views_ok s" "variablesView s = view"
      "variablesCompsTotals s = components_to_totals m"
    using relax_noncategorical_ok [OF d(1), of ?s0] t by auto
  note r = views_ok_relaxation [OF s(2)]
  have c: "map item_counts (type_items m) = group_totals (variablesCompsTotals s)"
    "map item_counts (label_items get_sa) = group_totals (variablesCompsTotals s)"
    using type_items_counts [of m] d(2) by (simp_all add: s(4))
  have "SharedVariablesDataRep get_sizet get_ba get_sa view =
      Inr (m, s, targets s 0 0 (label_items get_sa), targets s 0 0 (type_items m), targets s 0 0 (id_groups s))"
    by (simp add: SharedVariablesDataRep_def mt s(1) initialize_all_labels_ok [OF r c(2)]
      initialize_all_types_ok [OF r c(1) [unfolded type_items_def], folded type_items_def] initialize_all_ids_ok [OF r])
  moreover have "length (targets s 0 0 (id_groups s) k) = of_kind k (all_counts s)" for k
    by (rule targets_length [OF r]) (simp add: id_groups_def)
  ultimately show ?thesis using s targets_by_id [OF c(1)] targets_by_id [OF c(2)] by blast
qed

section \<open>Ids\<close>

lemma selections_mset: "length bs = length xs \<Longrightarrow> mset (picked bs xs) + mset (left_out bs xs) = mset xs"
  by (induction bs xs rule: list_induct2) auto

lemma upt_join: "a \<le> b \<Longrightarrow> b \<le> c \<Longrightarrow> [a ..< b] @ [b ..< c] = [a ..< c]"
  using upt_add_eq_append [of a b "c - b"] by simp

lemma all_ids: "all_items (number_items i cs) = [i ..< i + sum_list (map group_size cs)]"
proof (induction cs arbitrary: i)
  case (Cons c cs)
  obtain n1 n2 n3 n4 where c: "c = (n1, n2, n3, n4)" by (metis surj_pair)
  have "group_list (id_items i c) = [i ..< i + group_size c]"
    by (simp add: c add.assoc upt_join)
  then show ?case using Cons.IH [of "i + group_size c"]
    by (simp add: upt_join add.assoc)
qed simp

lemma targets_mset:
  assumes "fits s (ci + ints_of (map item_counts gs)) (cr + reals_of (map item_counts gs))"
  shows "mset (targets s ci cr gs CV) + mset (targets s ci cr gs DIV) + mset (targets s ci cr gs DSV) + mset (targets s ci cr gs DRV) =
    mset (all_items gs)"
  using assms
proof (induction gs arbitrary: ci cr)
  case (Cons x gs)
  obtain cs "is" ss rs where x: "x = (cs, is, ss, rs)" by (cases x)
  have f: "fits s (ci + length is) (cr + length rs)" using Cons.prems by (rule fits_mono) (simp_all add: x)
  note b = bits_counted [OF f]
  have "mset (picked (int_bits s ci (length is)) is) + mset (left_out (int_bits s ci (length is)) is) = mset is"
    "mset (picked (real_bits s cr (length rs)) rs) + mset (left_out (real_bits s cr (length rs)) rs) = mset rs"
    using b(1,2) by (simp_all add: selections_mset)
  then have "mset (group_target s ci cr x CV) + mset (group_target s ci cr x DIV) + mset (group_target s ci cr x DSV) +
      mset (group_target s ci cr x DRV) = mset (group_list x)"
    by (simp add: x ac_simps) (metis (no_types, lifting) add.assoc add.commute)
  moreover have "mset (targets s (ci + length is) (cr + length rs) gs CV) + mset (targets s (ci + length is) (cr + length rs) gs DIV) +
      mset (targets s (ci + length is) (cr + length rs) gs DSV) + mset (targets s (ci + length is) (cr + length rs) gs DRV) = mset (all_items gs)"
    using Cons.prems by (intro Cons.IH) (simp add: x add.assoc)
  ultimately show ?case by (simp add: x ac_simps)
qed simp

text \<open>C38: Every variable has exactly one id, and every id is in exactly one array: the arrays of the four kinds
  together hold the numbers from one to the number of variables.\<close>

theorem ids_number_all_variables:
  assumes "relaxation_ok s"
  shows "\<exists>ids. initialize_all_ids s = Inr ids \<and>
    mset (ids CV) + mset (ids DIV) + mset (ids DSV) + mset (ids DRV) = mset [1 ..< Suc (group_size (all_counts s))]"
proof -
  have "fits s (0 + ints_of (map item_counts (id_groups s))) (0 + reals_of (map item_counts (id_groups s)))"
    using relaxation_fits [OF assms] by (simp add: id_groups_def)
  from targets_mset [OF this] have "mset (targets s 0 0 (id_groups s) CV) + mset (targets s 0 0 (id_groups s) DIV) +
      mset (targets s 0 0 (id_groups s) DSV) + mset (targets s 0 0 (id_groups s) DRV) =
    mset [1 ..< 1 + sum_list (map group_size (group_totals (variablesCompsTotals s)))]"
    by (simp only: id_groups_def all_ids)
  moreover have "sum_list (map group_size (group_totals (variablesCompsTotals s))) = group_size (all_counts s)"
    using group_sizes_add_up [OF assms] by (simp add: group_totals_def variable_groups_def Let_def group_counts_size)
  ultimately show ?thesis by (simp only: initialize_all_ids_ok [OF assms] sum.inject simp_thms ex_simps) auto
qed
lemma left_out_none: "n = length xs \<Longrightarrow> left_out (replicate n False) xs = xs"
  by simp

lemma unrelaxed_group: "\<not> any_relaxed s \<Longrightarrow> group_target s ci cr (id_items (Suc off) c) k =
    map Suc [off + before_kind k c ..< off + before_kind k c + of_kind k c]"
  by (cases c; cases k) (simp_all add: int_bits_def real_bits_def bits_at_def map_Suc_upt add.assoc left_out_none del: upt_Suc)

lemma unrelaxed_targets:
  "\<not> any_relaxed s \<Longrightarrow> targets s ci cr (number_items (Suc off) cs) k = map Suc (kind_positions k (map (Pair True) cs) off)"
proof (induction cs arbitrary: ci cr off)
  case (Cons c cs)
  then show ?case using Cons.IH [of _ _ "off + group_size c"] by (simp add: targets_Cons unrelaxed_group)
qed simp

text \<open>Without relaxation the id of a variable is its index in the order of all variables plus one, so the code that
  converts ids to indices by subtracting one agrees with the index conversions.\<close>

theorem ids_match_indices:
  assumes "\<not> any_relaxed s"
  shows "\<exists>ids. initialize_all_ids s = Inr ids \<and>
    (\<forall>k i. view_index_to_all_index s Every_Variable k i = (if i < length (ids k) then Inr (ids k ! i - 1) else Inl (Abort VARS_ERROR)))"
proof -
  have r: "relaxation_ok s" using assms by (simp add: relaxation_ok_def)
  have "variable_groups s = group_totals (variablesCompsTotals s)"
    using assms by (simp add: variable_groups_def group_totals_def group_counts_def Let_def)
  then have p: "positions s Every_Variable k = kind_positions k (map (Pair True) (group_totals (variablesCompsTotals s))) 0" for k
    by (simp add: positions_def kind_flags_def selected_def group_totals_def)
  have "targets s 0 0 (id_groups s) k = map Suc (positions s Every_Variable k)" for k
    using unrelaxed_targets [OF assms, of 0 0 0 "group_totals (variablesCompsTotals s)" k] by (simp add: p id_groups_def)
  then show ?thesis by (simp add: initialize_all_ids_ok [OF r] view_index_positions [OF r])
qed

text \<open>With relaxation they disagree: a relaxed variable keeps its place in the specification, while the index conversions
  count it behind the other continuous variables of its group.\<close>

definition out_of_order :: shared_variables where
  "out_of_order = \<lparr>variablesCompsTotals = no_totals\<lparr>total_design := (0, 2, 0, 0)\<rparr>, variablesView = (RELAXED_DESIGN, EMPTY_VIEW),
    allRelaxedDiscreteInt = [False, True], allRelaxedDiscreteReal = []\<rparr>"

lemma relaxed_ids_differ:
  "view_index_to_all_index out_of_order Every_Variable CV 0 = Inr 0 \<and> rbind (initialize_all_ids out_of_order) (\<lambda>ids. Inr (ids CV)) = Inr [2]"
  by (intro conjI; code_simp)

section \<open>Examples\<close>

definition example_sizes :: "string \<Rightarrow> nat" where
  "example_sizes key = (if key = ''variables.continuous_design'' then 1 else if key = ''variables.discrete_design_range'' then 2
    else if key = ''variables.normal_uncertain'' then 1 else 0)"

definition example_categories :: "string \<Rightarrow> bool list" where
  "example_categories key = (if key = ''variables.discrete_design_range.categorical'' then [True, False] else [])"

definition example_labels :: "string \<Rightarrow> string list" where
  "example_labels key = (if key = ''variables.continuous_design.labels'' then [''x''] else if key = ''variables.discrete_design_range.labels'' then [''i'', ''j'']
    else if key = ''variables.continuous_aleatory_uncertain.labels'' then [''u''] else [])"

lemma example_consistent: "consistent_description example_sizes example_categories example_labels"
  by code_simp

theorem shared_variables_constructed_witness:
  "\<exists>m s labels types ids.
    SharedVariablesDataRep example_sizes example_categories example_labels (RELAXED_DESIGN, EMPTY_VIEW) = Inr (m, s, labels, types, ids) \<and>
    views_ok s \<and> labels CV = map (\<lambda>i. all_items (label_items example_labels) ! (i - 1)) (ids CV) \<and>
    all_items (label_items example_labels) = [''x'', ''i'', ''j'', ''u'']"
proof -
  have "all_items (label_items example_labels) = [''x'', ''i'', ''j'', ''u'']" by code_simp
  then show ?thesis using shared_variables_constructed [OF example_consistent, of "(RELAXED_DESIGN, EMPTY_VIEW)"] by blast
qed

theorem ids_number_all_variables_witness:
  "\<exists>ids. initialize_all_ids (relaxed_example RELAXED_ALL) = Inr ids \<and>
    mset (ids CV) + mset (ids DIV) + mset (ids DSV) + mset (ids DRV) = mset [1 ..< 8]"
proof -
  have "group_size (all_counts (relaxed_example RELAXED_ALL)) = 7" by code_simp
  then show ?thesis using ids_number_all_variables [OF views_ok_relaxation [OF examples_ok(1)]] by simp
qed

theorem ids_match_indices_witness:
  "\<exists>ids. initialize_all_ids (mixed_example MIXED_DESIGN) = Inr ids \<and> ids DIV = [3, 5] \<and>
    view_index_to_all_index (mixed_example MIXED_DESIGN) Every_Variable DIV 1 = Inr 4"
proof -
  have d: "rbind (initialize_all_ids (mixed_example MIXED_DESIGN)) (\<lambda>ids. Inr (ids DIV)) = Inr [3, 5]" by code_simp
  have "\<not> any_relaxed (mixed_example MIXED_DESIGN)" by code_simp
  from ids_match_indices [OF this] obtain ids where ids: "initialize_all_ids (mixed_example MIXED_DESIGN) = Inr ids"
      "\<forall>k i. view_index_to_all_index (mixed_example MIXED_DESIGN) Every_Variable k i =
        (if i < length (ids k) then Inr (ids k ! i - 1) else Inl (Abort VARS_ERROR))" by blast
  have "ids DIV = [3, 5]" using d ids(1) by simp
  then show ?thesis using ids by simp
qed

end
