(* ===== verification/Param_Study.thy ===== *)
theory Param_Study
  imports Variable_Views Complex_Main
begin

text \<open>
  Parameter studies (\<^verbatim>\<open>src/ParamStudy.hpp\<close>, \<^verbatim>\<open>src/ParamStudy.cpp\<close>): list, vector, centered and multidimensional
  studies, from the specification to the array of variables that is evaluated.

  A study reads the iterated model (current values, bounds, admissible sets) and keeps its points by kind.
  Reals are an archimedean field; one of its values stands for infinity where the code compares with it.  A
  \<^verbatim>\<open>std::set\<close> is the list of its elements in iteration order.  The reader of a points file and the increment of
  a multidimensional index are outside the repository and are arguments.  Output headers are not modelled.
\<close>

section \<open>State\<close>

text \<open>The active part of a \<^verbatim>\<open>Variables\<close> object.\<close>

record 'r active_vars =
  cvars :: "'r list"
  divars :: "int list"
  dsvars :: "string list"
  drvars :: "'r list"

record 'r iterated_model =
  current_variables :: "'r active_vars"
  active_components_totals :: comps_totals
  continuous_lower_bounds :: "'r list"
  continuous_upper_bounds :: "'r list"
  discrete_int_lower_bounds :: "int list"
  discrete_int_upper_bounds :: "int list"
  discrete_real_lower_bounds :: "'r list"
  discrete_real_upper_bounds :: "'r list"
  discrete_int_sets :: "bool list"
  discrete_set_int_values :: "int list list"
  discrete_set_string_values :: "string list list"
  discrete_set_real_values :: "'r list list"

text \<open>A value for each kind of variable.\<close>

record ('c, 'i, 's, 'd) by_kind =
  cont :: 'c
  dint :: 'i
  dstr :: 's
  dreal :: 'd

datatype study_method = LIST_PARAMETER_STUDY | VECTOR_PARAMETER_STUDY | CENTERED_PARAMETER_STUDY |
  MULTIDIM_PARAMETER_STUDY | OTHER_METHOD

type_synonym kind_counts = "(nat, nat, nat, nat) by_kind"

record 'r study =
  methodName :: study_method
  numVars :: kind_counts
  numEvals :: nat
  listPoints :: "('r list list, int list list, string list list, 'r list list) by_kind"
  initialPoint :: "('r list, int list, string list, 'r list) by_kind"
  finalPoint :: "('r list, int list, int list, int list) by_kind"
  stepVector :: "('r list, int list, int list, int list) by_kind"
  numSteps :: int
  stepsPerVariable :: "int list"
  stepsByKind :: "(int list, int list, int list, int list) by_kind"
  varPartitions :: "(nat list, nat list, nat list, nat list) by_kind"
  allVariables :: "'r active_vars list"
  maxEvalConcurrency :: int

definition num_vars :: "'r study \<Rightarrow> nat" where
  "num_vars st = cont (numVars st) + dint (numVars st) + dstr (numVars st) + dreal (numVars st)"

section \<open>Machine integers and arrays\<close>

text \<open>
  \<^verbatim>\<open>int\<close> arithmetic is undefined out of 32 bits, \<^verbatim>\<open>size_t\<close> arithmetic wraps at \<open>2 ^ 64\<close>; a \<^verbatim>\<open>size_t\<close> is converted to
  \<^verbatim>\<open>int\<close> modulo \<open>2 ^ 32\<close>.
\<close>

definition size_mod :: "int \<Rightarrow> int" where
  "size_mod x = x mod 2 ^ 64"

definition int_range :: "int \<Rightarrow> bool" where
  "int_range x \<longleftrightarrow> - (2 ^ 31) \<le> x \<and> x < 2 ^ 31"

definition checked_int :: "int \<Rightarrow> int result" where
  "checked_int x = (if int_range x then Inr x else Inl (UndefinedBehaviour ''int overflow''))"

definition as_int :: "int \<Rightarrow> int" where
  "as_int x = (x + 2 ^ 31) mod 2 ^ 32 - 2 ^ 31"

definition NPOS :: int where "NPOS = 2 ^ 64 - 1"

text \<open>\<^verbatim>\<open>static_cast<int>\<close> of a \<^verbatim>\<open>double\<close> truncates.\<close>

definition real_to_int :: "'r::floor_ceiling \<Rightarrow> int result" where
  "real_to_int x = checked_int (if x < 0 then \<lceil>x\<rceil> else \<lfloor>x\<rfloor>)"

definition vec_at :: "'a list \<Rightarrow> nat \<Rightarrow> 'a result" where
  "vec_at xs i = (if i < length xs then Inr (xs ! i) else Inl (UndefinedBehaviour ''vector read''))"

definition vec_put :: "'a list \<Rightarrow> nat \<Rightarrow> 'a \<Rightarrow> 'a list result" where
  "vec_put xs i x = (if i < length xs then Inr (xs[i := x]) else Inl (UndefinedBehaviour ''vector write''))"

text \<open>Assignment of a whole array to a view of the same length.\<close>

definition assign_view :: "'a list \<Rightarrow> 'a list \<Rightarrow> 'a list result" where
  "assign_view src dst = (if length src = length dst then Inr src else Inl (UndefinedBehaviour ''view length''))"

text \<open>The entries of an array written one after the other.\<close>

fun collect :: "('i \<Rightarrow> 'a result) \<Rightarrow> 'i list \<Rightarrow> 'a list result" where
  "collect f [] = Inr []"
| "collect f (i # is) = rbind (f i) (\<lambda>x. rbind (collect f is) (\<lambda>xs. Inr (x # xs)))"

section \<open>Sets of admissible values\<close>

fun set_value_to_index :: "'a \<Rightarrow> 'a list \<Rightarrow> nat option" where
  "set_value_to_index v [] = None"
| "set_value_to_index v (x # xs) = (if x = v then Some 0 else map_option Suc (set_value_to_index v xs))"

text \<open>\<^verbatim>\<open>None\<close> is the exception \<^verbatim>\<open>std::out_of_range\<close>.\<close>

definition set_index_to_value :: "int \<Rightarrow> 'a list \<Rightarrow> 'a option" where
  "set_index_to_value i xs = (if i < 0 \<or> i \<ge> int (length xs) then None else Some (xs ! nat i))"

text \<open>The value of \<^verbatim>\<open>size_t index0\<close>, with \<^verbatim>\<open>_NPOS\<close> for an absent value.\<close>

definition index_or_npos :: "nat option \<Rightarrow> int" where
  "index_or_npos i = (case i of None \<Rightarrow> NPOS | Some k \<Rightarrow> int k)"

section \<open>Distribution of an array in specification order\<close>

text \<open>
  One loop: \<open>n\<close> entries are cast and appended to an array of size \<open>cap\<close>.  An array that is not filled at the
  end would hold indeterminate entries.
\<close>

definition distribute_run :: "('a \<Rightarrow> 'b result) \<Rightarrow> 'a list \<Rightarrow> nat \<Rightarrow> nat \<Rightarrow> nat \<times> 'b list \<Rightarrow> (nat \<times> 'b list) result" where
  "distribute_run cast all_data cap n st =
    rfold (\<lambda>_ (s_cntr, out). if length out < cap then
        rbind (vec_at all_data s_cntr) (\<lambda>a. rbind (cast a) (\<lambda>x. Inr (Suc s_cntr, out @ [x])))
      else Inl (UndefinedBehaviour ''vector write'')) [0..<n] st"

definition distribute_group ::
    "('a \<Rightarrow> 'c result) \<times> ('a \<Rightarrow> 'i result) \<times> ('a \<Rightarrow> 's result) \<times> ('a \<Rightarrow> 'd result) \<Rightarrow> 'a list \<Rightarrow> kind_counts \<Rightarrow> counts \<Rightarrow>
      nat \<times> ('c list, 'i list, 's list, 'd list) by_kind \<Rightarrow> (nat \<times> ('c list, 'i list, 's list, 'd list) by_kind) result" where
  "distribute_group casts all_data caps n st =
    (case (casts, n, st) of ((cast_c, cast_i, cast_s, cast_d), (n_cv, n_div, n_dsv, n_drv), (s0, t)) \<Rightarrow>
     rbind (distribute_run cast_c all_data (cont caps) n_cv (s0, cont t)) (\<lambda>(s1, c).
     rbind (distribute_run cast_i all_data (dint caps) n_div (s1, dint t)) (\<lambda>(s2, i).
     rbind (distribute_run cast_s all_data (dstr caps) n_dsv (s2, dstr t)) (\<lambda>(s3, s).
     rbind (distribute_run cast_d all_data (dreal caps) n_drv (s3, dreal t)) (\<lambda>(s4, d).
       Inr (s4, \<lparr>cont = c, dint = i, dstr = s, dreal = d\<rparr>))))))"

text \<open>\<^verbatim>\<open>None\<close>: an error is flagged and the arrays are not written.\<close>

definition distribute ::
    "('a \<Rightarrow> 'c result) \<times> ('a \<Rightarrow> 'i result) \<times> ('a \<Rightarrow> 's result) \<times> ('a \<Rightarrow> 'd result) \<Rightarrow> 'r iterated_model \<Rightarrow> kind_counts \<Rightarrow>
      'a list \<Rightarrow> ('c list, 'i list, 's list, 'd list) by_kind option result" where
  "distribute casts M caps all_data =
    (if length all_data \<noteq> cont caps + dint caps + dstr caps + dreal caps then Inr None
     else let t = active_components_totals M in
       rbind (rfold (distribute_group casts all_data caps) [total_design t, total_aleatory t, total_epistemic t, total_state t]
         (0, \<lparr>cont = [], dint = [], dstr = [], dreal = []\<rparr>)) (\<lambda>(_, out).
       if length (cont out) = cont caps \<and> length (dint out) = dint caps \<and> length (dstr out) = dstr caps \<and> length (dreal out) = dreal caps
       then Inr (Some out) else Inl (UndefinedBehaviour ''uninitialized'')))"

definition distribute_reals ::
    "'r::floor_ceiling iterated_model \<Rightarrow> kind_counts \<Rightarrow> 'r list \<Rightarrow> ('r list, int list, int list, int list) by_kind option result" where
  "distribute_reals = distribute (Inr, real_to_int, real_to_int, real_to_int)"

definition distribute_array ::
    "'r iterated_model \<Rightarrow> kind_counts \<Rightarrow> 'a list \<Rightarrow> ('a list, 'a list, 'a list, 'a list) by_kind option result" where
  "distribute_array = distribute (Inr, Inr, Inr, Inr)"
section \<open>Checks of the specification\<close>

text \<open>A check returns the error flag and the study; it is not changed before an error is flagged.\<close>

definition check_num_steps :: "int \<Rightarrow> 'r study \<Rightarrow> (bool \<times> 'r study) result" where
  "check_num_steps num_steps st =
    (if num_steps < 0 then Inr (True, st)
     else rbind (checked_int (num_steps + 1)) (\<lambda>n. Inr (False, st\<lparr>numSteps := num_steps, numEvals := nat n\<rparr>)))"

definition check_step_vector :: "'r::floor_ceiling iterated_model \<Rightarrow> 'r list \<Rightarrow> 'r study \<Rightarrow> (bool \<times> 'r study) result" where
  "check_step_vector M step_vec st =
    (if length step_vec \<noteq> num_vars st then Inr (True, st)
     else rbind (distribute_reals M (numVars st) step_vec) (\<lambda>r.
       case r of None \<Rightarrow> Inr (True, st) | Some v \<Rightarrow> Inr (False, st\<lparr>stepVector := v\<rparr>)))"

definition check_final_point :: "'r::floor_ceiling iterated_model \<Rightarrow> 'r list \<Rightarrow> 'r study \<Rightarrow> (bool \<times> 'r study) result" where
  "check_final_point M final_pt st =
    (if length final_pt \<noteq> num_vars st then Inr (True, st)
     else rbind (distribute_reals M (numVars st) final_pt) (\<lambda>r.
       case r of None \<Rightarrow> Inr (True, st) | Some v \<Rightarrow> Inr (False, st\<lparr>finalPoint := v\<rparr>)))"

definition join_kinds :: "('a list, 'a list, 'a list, 'a list) by_kind \<Rightarrow> 'a list" where
  "join_kinds t = cont t @ dint t @ dstr t @ dreal t"

definition replicate_kinds :: "'a \<Rightarrow> kind_counts \<Rightarrow> ('a list, 'a list, 'a list, 'a list) by_kind" where
  "replicate_kinds x n = \<lparr>cont = replicate (cont n) x, dint = replicate (dint n) x, dstr = replicate (dstr n) x, dreal = replicate (dreal n) x\<rparr>"

text \<open>The sum of the absolute values of the steps, as \<^verbatim>\<open>std::abs\<close> of an \<^verbatim>\<open>int\<close>.\<close>

definition sum_abs :: "int list \<Rightarrow> nat result" where
  "sum_abs xs = rbind (collect (\<lambda>x. checked_int \<bar>x\<bar>) xs) (\<lambda>ys. Inr (sum_list (map nat ys)))"

definition check_steps_per_variable :: "'r iterated_model \<Rightarrow> int list \<Rightarrow> 'r study \<Rightarrow> (bool \<times> 'r study) result" where
  "check_steps_per_variable M steps_per_var st =
    rbind (if length steps_per_var = num_vars st then distribute_array M (numVars st) steps_per_var
      else if length steps_per_var = 1 then Inr (Some (replicate_kinds (steps_per_var ! 0) (numVars st)))
      else Inr None) (\<lambda>r.
    case r of None \<Rightarrow> Inr (True, st)
    | Some v \<Rightarrow> rbind (sum_abs (join_kinds v)) (\<lambda>spv_sum.
        Inr (False, st\<lparr>stepsByKind := v, stepsPerVariable := join_kinds v, numEvals := nat (size_mod (2 * int spv_sum + 1))\<rparr>)))"

text \<open>\<^verbatim>\<open>numEvals *= part + 1\<close> for each variable in turn, in \<^verbatim>\<open>size_t\<close>.\<close>

definition count_points :: "nat list \<Rightarrow> nat" where
  "count_points parts = nat (foldl (\<lambda>n part. size_mod (n * (int part + 1))) 1 parts)"

definition check_variable_partitions :: "'r iterated_model \<Rightarrow> nat list \<Rightarrow> 'r study \<Rightarrow> (bool \<times> 'r study) result" where
  "check_variable_partitions M partitions st =
    rbind (if length partitions = num_vars st then distribute_array M (numVars st) partitions
      else if length partitions = 1 then Inr (Some (replicate_kinds (partitions ! 0) (numVars st)))
      else Inr None) (\<lambda>r.
    case r of None \<Rightarrow> Inr (True, st)
    | Some v \<Rightarrow> Inr (False, st\<lparr>varPartitions := v, numEvals := count_points (join_kinds v)\<rparr>))"

text \<open>
  The search for an infinite bound ends at the first one.  \<open>dbl_inf\<close> stands for \<^verbatim>\<open>std::numeric_limits<Real>::infinity()\<close>.
\<close>

fun any_bound :: "('a \<Rightarrow> bool) \<Rightarrow> ('a \<Rightarrow> bool) \<Rightarrow> 'a list \<Rightarrow> 'a list \<Rightarrow> nat list \<Rightarrow> bool result" where
  "any_bound low high ls us [] = Inr False"
| "any_bound low high ls us (i # is) =
    rbind (vec_at ls i) (\<lambda>l. if low l then Inr True
    else rbind (vec_at us i) (\<lambda>u. if high u then Inr True else any_bound low high ls us is))"

definition check_finite_bounds :: "'r::uminus \<Rightarrow> 'r iterated_model \<Rightarrow> kind_counts \<Rightarrow> bool result" where
  "check_finite_bounds dbl_inf M n =
    rbind (any_bound (\<lambda>l. l = - dbl_inf) (\<lambda>u. u = dbl_inf) (continuous_lower_bounds M) (continuous_upper_bounds M) [0..<cont n]) (\<lambda>c.
    rbind (any_bound (\<lambda>l. l \<le> - (2 ^ 31)) (\<lambda>u. u \<ge> 2 ^ 31 - 1) (discrete_int_lower_bounds M) (discrete_int_upper_bounds M) [0..<dint n]) (\<lambda>di.
    rbind (any_bound (\<lambda>l. l = - dbl_inf) (\<lambda>u. u = dbl_inf) (discrete_real_lower_bounds M) (discrete_real_upper_bounds M) [0..<dreal n]) (\<lambda>dr.
      Inr (c \<or> di \<or> dr))))"

section \<open>Checks of sets\<close>

text \<open>
  \<^verbatim>\<open>int terminal_index = set_value_to_index(...) + step * steps\<close>: the product is an \<^verbatim>\<open>int\<close>, the sum a \<^verbatim>\<open>size_t\<close>.
  The result is true when the terminal index is not admissible.
\<close>

definition terminal_inadmissible :: "'a list \<Rightarrow> 'a list list \<Rightarrow> int list \<Rightarrow> int list \<Rightarrow> nat \<Rightarrow> nat \<Rightarrow> bool result" where
  "terminal_inadmissible initial sets step steps j set_j =
    rbind (vec_at sets set_j) (\<lambda>vals. rbind (vec_at initial j) (\<lambda>v. rbind (vec_at step j) (\<lambda>d. rbind (vec_at steps j) (\<lambda>n.
    rbind (checked_int (d * n)) (\<lambda>p.
      let terminal_index = as_int (index_or_npos (set_value_to_index v vals) + p) in
      Inr (terminal_index < 0 \<or> terminal_index \<ge> int (length vals)))))))"

definition check_int_set :: "'r iterated_model \<Rightarrow> 'r study \<Rightarrow> int list \<Rightarrow> nat \<Rightarrow> bool \<times> nat \<Rightarrow> (bool \<times> nat) result" where
  "check_int_set M st di_steps j acc =
    rbind (vec_at (discrete_int_sets M) j) (\<lambda>is_set.
    if is_set then
      rbind (terminal_inadmissible (dint (initialPoint st)) (discrete_set_int_values M) (dint (stepVector st)) di_steps j (snd acc)) (\<lambda>b.
        Inr (fst acc \<or> b, Suc (snd acc)))
    else Inr acc)"

definition check_sets :: "'r iterated_model \<Rightarrow> (int list, int list, int list, int list) by_kind \<Rightarrow> 'r study \<Rightarrow> bool result" where
  "check_sets M steps st =
    (let n = numVars st; x = initialPoint st; d = stepVector st in
     rbind (rfold (check_int_set M st (dint steps)) [0..<dint n] (False, 0)) (\<lambda>(err_i, _).
     rbind (collect (\<lambda>j. terminal_inadmissible (dstr x) (discrete_set_string_values M) (dstr d) (dstr steps) j j) [0..<dstr n]) (\<lambda>err_s.
     rbind (collect (\<lambda>j. terminal_inadmissible (dreal x) (discrete_set_real_values M) (dreal d) (dreal steps) j j) [0..<dreal n]) (\<lambda>err_d.
       Inr (err_i \<or> True \<in> set err_s \<or> True \<in> set err_d)))))"

definition check_ranges_sets_vector :: "'r iterated_model \<Rightarrow> int \<Rightarrow> 'r study \<Rightarrow> bool result" where
  "check_ranges_sets_vector M num_steps st = check_sets M (replicate_kinds num_steps (numVars st)) st"

text \<open>The minus offsets: the string steps keep their sign.\<close>

definition check_ranges_sets_centered ::
    "'r iterated_model \<Rightarrow> (int list, int list, int list, int list) by_kind \<Rightarrow> 'r study \<Rightarrow> bool result" where
  "check_ranges_sets_centered M steps st =
    rbind (check_sets M steps st) (\<lambda>err_plus.
    rbind (check_sets M (steps\<lparr>cont := map uminus (cont steps), dint := map uminus (dint steps), dreal := map uminus (dreal steps)\<rparr>) st)
      (\<lambda>err_minus. Inr (err_plus \<or> err_minus)))"
section \<open>Step vectors\<close>

text \<open>The division is exact when it does not abort.\<close>

definition integer_step :: "int \<Rightarrow> int \<Rightarrow> int result" where
  "integer_step rng num_steps =
    (if num_steps = 0 then Inl (UndefinedBehaviour ''division by zero'')
     else if rng mod num_steps \<noteq> 0 then Inl (Abort OTHER_ERROR) else Inr (rng div num_steps))"

text \<open>The end is an \<^verbatim>\<open>int\<close> that is passed as \<^verbatim>\<open>size_t\<close>: \<open>-1\<close> becomes \<^verbatim>\<open>_NPOS\<close>.\<close>

definition index_step :: "nat option \<Rightarrow> int \<Rightarrow> int \<Rightarrow> int result" where
  "index_step start end_index num_steps =
    (case start of None \<Rightarrow> Inl (Abort OTHER_ERROR)
     | Some k \<Rightarrow> if end_index = - 1 then Inl (Abort OTHER_ERROR)
         else rbind (checked_int (end_index - as_int (int k))) (\<lambda>r. integer_step r num_steps))"

definition set_step_vector :: "'a list \<Rightarrow> 'a list list \<Rightarrow> int list \<Rightarrow> int \<Rightarrow> nat \<Rightarrow> nat \<Rightarrow> int result" where
  "set_step_vector initial sets final_index num_steps j set_j =
    rbind (vec_at initial j) (\<lambda>v. rbind (vec_at sets set_j) (\<lambda>vals. rbind (vec_at final_index j) (\<lambda>e.
      index_step (set_value_to_index v vals) e num_steps)))"

definition int_step_vector :: "'r iterated_model \<Rightarrow> 'r study \<Rightarrow> nat \<Rightarrow> int list \<times> nat \<Rightarrow> (int list \<times> nat) result" where
  "int_step_vector M st j acc =
    rbind (vec_at (discrete_int_sets M) j) (\<lambda>is_set.
    if is_set then
      rbind (set_step_vector (dint (initialPoint st)) (discrete_set_int_values M) (dint (finalPoint st)) (numSteps st) j (snd acc)) (\<lambda>d.
        Inr (fst acc @ [d], Suc (snd acc)))
    else
      rbind (vec_at (dint (finalPoint st)) j) (\<lambda>e. rbind (vec_at (dint (initialPoint st)) j) (\<lambda>v.
      rbind (checked_int (e - v)) (\<lambda>r. rbind (integer_step r (numSteps st)) (\<lambda>d. Inr (fst acc @ [d], snd acc))))))"

definition final_point_to_step_vector :: "'r::field iterated_model \<Rightarrow> 'r study \<Rightarrow> 'r study result" where
  "final_point_to_step_vector M st =
    (let n = numVars st; x = initialPoint st; f = finalPoint st in
     rbind (collect (\<lambda>j. rbind (vec_at (cont f) j) (\<lambda>e. rbind (vec_at (cont x) j) (\<lambda>v. Inr ((e - v) / of_int (numSteps st))))) [0..<cont n]) (\<lambda>c.
     rbind (rfold (int_step_vector M st) [0..<dint n] ([], 0)) (\<lambda>(di, _).
     rbind (collect (\<lambda>j. set_step_vector (dstr x) (discrete_set_string_values M) (dstr f) (numSteps st) j j) [0..<dstr n]) (\<lambda>ds.
     rbind (collect (\<lambda>j. set_step_vector (dreal x) (discrete_set_real_values M) (dreal f) (numSteps st) j j) [0..<dreal n]) (\<lambda>dr.
       Inr (st\<lparr>stepVector := \<lparr>cont = c, dint = di, dstr = ds, dreal = dr\<rparr>\<rparr>))))))"

text \<open>A partition of a range; without a partition the current value is kept.  The lower bound is read where a partition is asked for.\<close>

definition partition_cont :: "'r::field iterated_model \<Rightarrow> 'r study \<Rightarrow> nat \<Rightarrow> ('r \<times> 'r) result" where
  "partition_cont M st i =
    rbind (vec_at (cont (varPartitions st)) i) (\<lambda>part.
    if part \<noteq> 0 then
      rbind (vec_at (continuous_lower_bounds M) i) (\<lambda>l. rbind (vec_at (continuous_upper_bounds M) i) (\<lambda>u. Inr (l, (u - l) / of_nat part)))
    else rbind (vec_at (cvars (current_variables M)) i) (\<lambda>v. Inr (v, 0)))"

text \<open>\<^verbatim>\<open>values.size() - 1\<close> is a \<^verbatim>\<open>size_t\<close> that is converted to \<^verbatim>\<open>int\<close>.\<close>

definition partition_int :: "'r iterated_model \<Rightarrow> 'r study \<Rightarrow> nat \<Rightarrow> (int \<times> int) list \<times> nat \<Rightarrow> ((int \<times> int) list \<times> nat) result" where
  "partition_int M st i acc =
    rbind (vec_at (dint (varPartitions st)) i) (\<lambda>part.
    rbind (vec_at (discrete_int_sets M) i) (\<lambda>is_set.
    rbind (if part \<noteq> 0 then
        rbind (vec_at (discrete_int_lower_bounds M) i) (\<lambda>l.
        rbind (if is_set then rbind (vec_at (discrete_set_int_values M) (snd acc)) (\<lambda>vals. Inr (as_int (int (length vals) - 1)))
          else rbind (vec_at (discrete_int_upper_bounds M) i) (\<lambda>u. checked_int (u - l))) (\<lambda>r.
        rbind (integer_step r (int part)) (\<lambda>d. Inr (l, d))))
      else rbind (vec_at (divars (current_variables M)) i) (\<lambda>v. Inr (v, 0))) (\<lambda>e.
      Inr (fst acc @ [e], if is_set then Suc (snd acc) else snd acc))))"

definition partition_string :: "'r iterated_model \<Rightarrow> 'r study \<Rightarrow> nat \<Rightarrow> (string \<times> int) result" where
  "partition_string M st i =
    rbind (vec_at (dstr (varPartitions st)) i) (\<lambda>part.
    if part \<noteq> 0 then
      rbind (vec_at (discrete_set_string_values M) i) (\<lambda>vals.
      rbind (vec_at vals 0) (\<lambda>v. rbind (integer_step (as_int (int (length vals) - 1)) (int part)) (\<lambda>d. Inr (v, d))))
    else rbind (vec_at (dsvars (current_variables M)) i) (\<lambda>v. Inr (v, 0)))"

definition partition_real :: "'r iterated_model \<Rightarrow> 'r study \<Rightarrow> nat \<Rightarrow> ('r \<times> int) result" where
  "partition_real M st i =
    rbind (vec_at (dreal (varPartitions st)) i) (\<lambda>part.
    if part \<noteq> 0 then
      rbind (vec_at (discrete_real_lower_bounds M) i) (\<lambda>l. rbind (vec_at (discrete_set_real_values M) i) (\<lambda>vals.
      rbind (integer_step (as_int (int (length vals) - 1)) (int part)) (\<lambda>d. Inr (l, d))))
    else rbind (vec_at (drvars (current_variables M)) i) (\<lambda>v. Inr (v, 0)))"

definition distribute_partitions :: "'r::field iterated_model \<Rightarrow> 'r study \<Rightarrow> 'r study result" where
  "distribute_partitions M st =
    (let n = numVars st in
     rbind (collect (partition_cont M st) [0..<cont n]) (\<lambda>c.
     rbind (rfold (partition_int M st) [0..<dint n] ([], 0)) (\<lambda>(i, _).
     rbind (collect (partition_string M st) [0..<dstr n]) (\<lambda>s.
     rbind (collect (partition_real M st) [0..<dreal n]) (\<lambda>d.
       Inr (st\<lparr>initialPoint := \<lparr>cont = map fst c, dint = map fst i, dstr = map fst s, dreal = map fst d\<rparr>,
         stepVector := \<lparr>cont = map snd c, dint = map snd i, dstr = map snd s, dreal = map snd d\<rparr>\<rparr>))))))"
section \<open>Steps\<close>

definition c_step :: "'r::field study \<Rightarrow> nat \<Rightarrow> int \<Rightarrow> 'r active_vars \<Rightarrow> 'r active_vars result" where
  "c_step st c_index increment vars =
    rbind (vec_at (cont (initialPoint st)) c_index) (\<lambda>x. rbind (vec_at (cont (stepVector st)) c_index) (\<lambda>d.
    rbind (vec_put (cvars vars) c_index (x + of_int increment * d)) (\<lambda>xs. Inr (vars\<lparr>cvars := xs\<rparr>))))"

definition dri_step :: "'r study \<Rightarrow> nat \<Rightarrow> int \<Rightarrow> 'r active_vars \<Rightarrow> 'r active_vars result" where
  "dri_step st di_index increment vars =
    rbind (vec_at (dint (initialPoint st)) di_index) (\<lambda>x. rbind (vec_at (dint (stepVector st)) di_index) (\<lambda>d.
    rbind (checked_int (increment * d)) (\<lambda>p. rbind (checked_int (x + p)) (\<lambda>y.
    rbind (vec_put (divars vars) di_index y) (\<lambda>xs. Inr (vars\<lparr>divars := xs\<rparr>))))))"

text \<open>The value of a set a number of steps away from the initial value.\<close>

definition set_step :: "'a list \<Rightarrow> int list \<Rightarrow> nat \<Rightarrow> int \<Rightarrow> 'a list \<Rightarrow> 'a result" where
  "set_step initial steps j increment vals =
    rbind (vec_at initial j) (\<lambda>v.
    case set_value_to_index v vals of None \<Rightarrow> Inl (Abort OTHER_ERROR)
    | Some index0 \<Rightarrow>
      rbind (vec_at steps j) (\<lambda>d. rbind (checked_int (increment * d)) (\<lambda>p.
      case set_index_to_value (as_int (int index0 + p)) vals of None \<Rightarrow> Inl (Abort OTHER_ERROR) | Some w \<Rightarrow> Inr w)))"

definition dsi_step :: "'r study \<Rightarrow> nat \<Rightarrow> int \<Rightarrow> int list \<Rightarrow> 'r active_vars \<Rightarrow> 'r active_vars result" where
  "dsi_step st di_index increment vals vars =
    rbind (set_step (dint (initialPoint st)) (dint (stepVector st)) di_index increment vals) (\<lambda>y.
    rbind (vec_put (divars vars) di_index y) (\<lambda>xs. Inr (vars\<lparr>divars := xs\<rparr>)))"

definition dss_step :: "'r study \<Rightarrow> nat \<Rightarrow> int \<Rightarrow> string list \<Rightarrow> 'r active_vars \<Rightarrow> 'r active_vars result" where
  "dss_step st ds_index increment vals vars =
    rbind (set_step (dstr (initialPoint st)) (dstr (stepVector st)) ds_index increment vals) (\<lambda>y.
    rbind (vec_put (dsvars vars) ds_index y) (\<lambda>xs. Inr (vars\<lparr>dsvars := xs\<rparr>)))"

definition dsr_step :: "'r study \<Rightarrow> nat \<Rightarrow> int \<Rightarrow> 'r list \<Rightarrow> 'r active_vars \<Rightarrow> 'r active_vars result" where
  "dsr_step st dr_index increment vals vars =
    rbind (set_step (dreal (initialPoint st)) (dreal (stepVector st)) dr_index increment vals) (\<lambda>y.
    rbind (vec_put (drvars vars) dr_index y) (\<lambda>xs. Inr (vars\<lparr>drvars := xs\<rparr>)))"

text \<open>\<^verbatim>\<open>if (num) vars.xxx_variables(values)\<close>.\<close>

definition assign_kind :: "nat \<Rightarrow> 'a list \<Rightarrow> 'a list \<Rightarrow> 'a list result" where
  "assign_kind n src dst = (if n \<noteq> 0 then assign_view src dst else Inr dst)"

definition assign_point :: "kind_counts \<Rightarrow> ('r list, int list, string list, 'r list) by_kind \<Rightarrow> 'r active_vars \<Rightarrow> 'r active_vars result" where
  "assign_point n x vars =
    rbind (assign_kind (cont n) (cont x) (cvars vars)) (\<lambda>c.
    rbind (assign_kind (dint n) (dint x) (divars vars)) (\<lambda>i.
    rbind (assign_kind (dstr n) (dstr x) (dsvars vars)) (\<lambda>s.
    rbind (assign_kind (dreal n) (dreal x) (drvars vars)) (\<lambda>d.
      Inr \<lparr>cvars = c, divars = i, dsvars = s, drvars = d\<rparr>))))"

definition reset_vars :: "'r study \<Rightarrow> 'r active_vars \<Rightarrow> 'r active_vars result" where
  "reset_vars st vars = assign_point (numVars st) (initialPoint st) vars"

section \<open>Loops\<close>

text \<open>One step in a discrete integer variable; the counter runs over the set variables.\<close>

definition int_var_step ::
    "'r iterated_model \<Rightarrow> 'r study \<Rightarrow> (nat \<Rightarrow> int result) \<Rightarrow> nat \<Rightarrow> nat \<times> 'r active_vars \<Rightarrow> (nat \<times> 'r active_vars) result" where
  "int_var_step M st inc j acc =
    rbind (vec_at (discrete_int_sets M) j) (\<lambda>is_set.
    rbind (inc j) (\<lambda>i.
    if is_set then rbind (vec_at (discrete_set_int_values M) (fst acc)) (\<lambda>vals.
      rbind (dsi_step st j i vals (snd acc)) (\<lambda>v. Inr (Suc (fst acc), v)))
    else rbind (dri_step st j i (snd acc)) (\<lambda>v. Inr (fst acc, v))))"

text \<open>All variables step; the increment is given by the position among all variables.\<close>

definition step_all ::
    "'r::field iterated_model \<Rightarrow> 'r study \<Rightarrow> (nat \<Rightarrow> int result) \<Rightarrow> 'r active_vars \<Rightarrow> 'r active_vars result" where
  "step_all M st inc vars =
    (let n = numVars st; n1 = cont n; n2 = n1 + dint n; n3 = n2 + dstr n in
     rbind (rfold (\<lambda>j v. rbind (inc j) (\<lambda>i. c_step st j i v)) [0..<cont n] vars) (\<lambda>v1.
     rbind (rfold (int_var_step M st (\<lambda>j. inc (n1 + j))) [0..<dint n] (0, v1)) (\<lambda>(_, v2).
     rbind (rfold (\<lambda>j v. rbind (vec_at (discrete_set_string_values M) j) (\<lambda>vals. rbind (inc (n2 + j)) (\<lambda>i. dss_step st j i vals v))) [0..<dstr n] v2) (\<lambda>v3.
     rfold (\<lambda>j v. rbind (vec_at (discrete_set_real_values M) j) (\<lambda>vals. rbind (inc (n3 + j)) (\<lambda>i. dsr_step st j i vals v))) [0..<dreal n] v3))))"

text \<open>\<^verbatim>\<open>Variables& vars = allVariables[i]\<close>, updated in place.\<close>

definition update_at :: "nat \<Rightarrow> ('a \<Rightarrow> 'a result) \<Rightarrow> 'a list \<Rightarrow> 'a list result" where
  "update_at i f xs = rbind (vec_at xs i) (\<lambda>x. rbind (f x) (\<lambda>y. vec_put xs i y))"

definition vector_loop :: "'r::field iterated_model \<Rightarrow> 'r study \<Rightarrow> 'r study result" where
  "vector_loop M st =
    (if numSteps st < 0 then Inl (UndefinedBehaviour ''vector read'')
     else rbind (rfold (\<lambda>i. update_at i (step_all M st (\<lambda>_. Inr (int i)))) [0..<Suc (nat (numSteps st))] (allVariables st)) (\<lambda>vs.
       Inr (st\<lparr>allVariables := vs\<rparr>)))"

text \<open>The plus and minus steps of one variable, each from the initial point.\<close>

definition centered_steps ::
    "'r study \<Rightarrow> (int \<Rightarrow> 'r active_vars \<Rightarrow> 'r active_vars result) \<Rightarrow> int \<Rightarrow> nat \<times> 'r active_vars list \<Rightarrow> (nat \<times> 'r active_vars list) result" where
  "centered_steps st step num_steps_k acc =
    rfold (\<lambda>i (cntr, vs). rbind (update_at cntr (\<lambda>v. rbind (reset_vars st v) (step i)) vs) (\<lambda>vs'. Inr (Suc cntr, vs')))
      (filter (\<lambda>i. i \<noteq> 0) [- num_steps_k..num_steps_k]) acc"

definition centered_int ::
    "'r iterated_model \<Rightarrow> 'r study \<Rightarrow> nat \<Rightarrow> nat \<times> nat \<times> 'r active_vars list \<Rightarrow> (nat \<times> nat \<times> 'r active_vars list) result" where
  "centered_int M st k acc = (case acc of (dsi_cntr, rest) \<Rightarrow>
    rbind (vec_at (dint (stepsByKind st)) k) (\<lambda>n. rbind (vec_at (discrete_int_sets M) k) (\<lambda>is_set.
    if is_set then rbind (vec_at (discrete_set_int_values M) dsi_cntr) (\<lambda>vals.
      rbind (centered_steps st (\<lambda>i. dsi_step st k i vals) n rest) (\<lambda>rest'. Inr (Suc dsi_cntr, rest')))
    else rbind (centered_steps st (\<lambda>i. dri_step st k i) n rest) (\<lambda>rest'. Inr (dsi_cntr, rest')))))"

definition centered_loop :: "'r::field iterated_model \<Rightarrow> 'r study \<Rightarrow> 'r study result" where
  "centered_loop M st =
    (let n = numVars st; steps = stepsByKind st in
     rbind (update_at 0 (reset_vars st) (allVariables st)) (\<lambda>vs.
     rbind (rfold (\<lambda>k acc. rbind (vec_at (cont steps) k) (\<lambda>m. centered_steps st (\<lambda>i. c_step st k i) m acc)) [0..<cont n] (1, vs)) (\<lambda>a1.
     rbind (rfold (centered_int M st) [0..<dint n] (0, a1)) (\<lambda>(_, a2).
     rbind (rfold (\<lambda>k acc. rbind (vec_at (dstr steps) k) (\<lambda>m. rbind (vec_at (discrete_set_string_values M) k) (\<lambda>vals.
       centered_steps st (\<lambda>i. dss_step st k i vals) m acc))) [0..<dstr n] a2) (\<lambda>a3.
     rbind (rfold (\<lambda>k acc. rbind (vec_at (dreal steps) k) (\<lambda>m. rbind (vec_at (discrete_set_real_values M) k) (\<lambda>vals.
       centered_steps st (\<lambda>i. dsr_step st k i vals) m acc))) [0..<dreal n] a3) (\<lambda>a4.
       Inr (st\<lparr>allVariables := snd a4\<rparr>)))))))"

text \<open>\<^verbatim>\<open>copy_data_partial(da1, da2, start_index2)\<close>.\<close>

definition copy_data_partial :: "'a list \<Rightarrow> 'a list \<Rightarrow> nat \<Rightarrow> 'a list result" where
  "copy_data_partial da1 da2 start =
    (if start + length da1 > length da2 then Inl (Abort OTHER_ERROR)
     else Inr (take start da2 @ da1 @ drop (start + length da1) da2))"

definition partition_limits :: "'r study \<Rightarrow> nat list result" where
  "partition_limits st =
    (let n = numVars st; p = varPartitions st in
     rbind (copy_data_partial (cont p) (replicate (num_vars st) 0) 0) (\<lambda>l1.
     rbind (copy_data_partial (dint p) l1 (cont n)) (\<lambda>l2.
     rbind (copy_data_partial (dstr p) l2 (cont n + dint n)) (\<lambda>l3.
       copy_data_partial (dreal p) l3 (cont n + dint n + dstr n)))))"

definition index_value :: "nat list \<Rightarrow> nat \<Rightarrow> int result" where
  "index_value indices p = rbind (vec_at indices p) (\<lambda>i. Inr (int i))"

text \<open>\<open>increment\<close> is \<^verbatim>\<open>Pecos::SharedPolyApproxData::increment_indices(indices, limits, true)\<close>.\<close>

definition multidim_loop :: "(nat list \<Rightarrow> nat list \<Rightarrow> nat list) \<Rightarrow> 'r::field iterated_model \<Rightarrow> 'r study \<Rightarrow> 'r study result" where
  "multidim_loop increment M st =
    rbind (partition_limits st) (\<lambda>limits.
    rbind (rfold (\<lambda>i (indices, vs). rbind (update_at i (step_all M st (index_value indices)) vs) (\<lambda>vs'.
        Inr (increment indices limits, vs'))) [0..<numEvals st] (replicate (num_vars st) 0, allVariables st)) (\<lambda>(_, vs).
      Inr (st\<lparr>allVariables := vs\<rparr>)))"
section \<open>Lists of points\<close>

definition assign_listed :: "nat \<Rightarrow> 'a list list \<Rightarrow> nat \<Rightarrow> 'a list \<Rightarrow> 'a list result" where
  "assign_listed n pts i dst = (if n \<noteq> 0 then rbind (vec_at pts i) (\<lambda>p. assign_view p dst) else Inr dst)"

definition sample_point :: "'r study \<Rightarrow> nat \<Rightarrow> 'r active_vars \<Rightarrow> 'r active_vars result" where
  "sample_point st i vars =
    (let n = numVars st; l = listPoints st in
     rbind (assign_listed (cont n) (cont l) i (cvars vars)) (\<lambda>c.
     rbind (assign_listed (dint n) (dint l) i (divars vars)) (\<lambda>di.
     rbind (assign_listed (dstr n) (dstr l) i (dsvars vars)) (\<lambda>ds.
     rbind (assign_listed (dreal n) (dreal l) i (drvars vars)) (\<lambda>dr.
       Inr \<lparr>cvars = c, divars = di, dsvars = ds, drvars = dr\<rparr>)))))"

text \<open>The listed points are freed once they are copied.\<close>

definition sample :: "'r study \<Rightarrow> 'r study result" where
  "sample st =
    rbind (rfold (\<lambda>i. update_at i (sample_point st i)) [0..<numEvals st] (allVariables st)) (\<lambda>vs.
      Inr (st\<lparr>allVariables := vs, listPoints := \<lparr>cont = [], dint = [], dstr = [], dreal = []\<rparr>\<rparr>))"

text \<open>An index that is not in the set raises an exception, which is caught and aborts.\<close>

definition promote :: "int list \<Rightarrow> 'a list list \<Rightarrow> nat \<Rightarrow> nat \<Rightarrow> 'a result" where
  "promote indices sets j set_j =
    rbind (vec_at indices j) (\<lambda>i. rbind (vec_at sets set_j) (\<lambda>vals.
      case set_index_to_value i vals of None \<Rightarrow> Inl (Abort OTHER_ERROR) | Some v \<Rightarrow> Inr v))"

definition promote_int :: "'r iterated_model \<Rightarrow> int list \<Rightarrow> nat \<Rightarrow> int list \<times> nat \<Rightarrow> (int list \<times> nat) result" where
  "promote_int M div_combined j acc =
    rbind (vec_at (discrete_int_sets M) j) (\<lambda>is_set.
    if is_set then rbind (promote div_combined (discrete_set_int_values M) j (snd acc)) (\<lambda>v. Inr (fst acc @ [v], Suc (snd acc)))
    else rbind (vec_at div_combined j) (\<lambda>v. Inr (fst acc @ [v], snd acc)))"

text \<open>One sample of the list: indices into sets become the values.\<close>

definition list_sample ::
    "'r::floor_ceiling iterated_model \<Rightarrow> kind_counts \<Rightarrow> 'r list \<Rightarrow> ('r list, int list, string list, 'r list) by_kind result" where
  "list_sample M n all_sample =
    rbind (distribute_reals M n all_sample) (\<lambda>r.
    case r of None \<Rightarrow> Inl (UndefinedBehaviour ''vector read'')
    | Some t \<Rightarrow>
      rbind (rfold (promote_int M (dint t)) [0..<dint n] ([], 0)) (\<lambda>(i, _).
      rbind (collect (\<lambda>j. promote (dstr t) (discrete_set_string_values M) j j) [0..<dstr n]) (\<lambda>s.
      rbind (collect (\<lambda>j. promote (dreal t) (discrete_set_real_values M) j j) [0..<dreal n]) (\<lambda>d.
        Inr \<lparr>cont = cont t, dint = i, dstr = s, dreal = d\<rparr>))))"

definition distribute_list_of_points :: "'r::floor_ceiling iterated_model \<Rightarrow> 'r list \<Rightarrow> 'r study \<Rightarrow> (bool \<times> 'r study) result" where
  "distribute_list_of_points M list_of_pts st =
    (let len_lop = length list_of_pts; nv = num_vars st; n = numVars st in
     if nv = 0 then Inl (UndefinedBehaviour ''division by zero'')
     else if len_lop mod nv \<noteq> 0 then Inr (True, st)
     else
       rbind (collect (\<lambda>i. list_sample M n (take nv (drop (i * nv) list_of_pts))) [0..<len_lop div nv]) (\<lambda>ps.
       Inr (False, st\<lparr>numEvals := len_lop div nv, listPoints :=
         \<lparr>cont = if cont n \<noteq> 0 then map cont ps else cont (listPoints st), dint = if dint n \<noteq> 0 then map dint ps else dint (listPoints st),
          dstr = if dstr n \<noteq> 0 then map dstr ps else dstr (listPoints st), dreal = if dreal n \<noteq> 0 then map dreal ps else dreal (listPoints st)\<rparr>\<rparr>)))"

text \<open>What the reader of a points file returns: the number of points and the points by kind.\<close>

type_synonym 'r imported_points = "nat \<times> ('r list list, int list list, string list list, 'r list list) by_kind"

text \<open>Validation of one imported point; the result is true for a value that is not admissible.\<close>

definition outside :: "'a::linorder list \<Rightarrow> 'a list \<Rightarrow> nat \<Rightarrow> 'a \<Rightarrow> bool result" where
  "outside lb ub j v = rbind (vec_at lb j) (\<lambda>l. if v < l then Inr True else rbind (vec_at ub j) (\<lambda>u. Inr (v > u)))"

definition not_in_set :: "'a list list \<Rightarrow> nat \<Rightarrow> 'a \<Rightarrow> bool result" where
  "not_in_set sets j v = rbind (vec_at sets j) (\<lambda>vals. Inr (set_value_to_index v vals = None))"

definition validate_int :: "'r iterated_model \<Rightarrow> int list \<Rightarrow> nat \<Rightarrow> bool \<times> nat \<Rightarrow> (bool \<times> nat) result" where
  "validate_int M p j acc =
    rbind (vec_at (discrete_int_sets M) j) (\<lambda>is_set. rbind (vec_at p j) (\<lambda>v.
    if is_set then rbind (not_in_set (discrete_set_int_values M) (snd acc) v) (\<lambda>b. Inr (fst acc \<or> b, Suc (snd acc)))
    else rbind (outside (discrete_int_lower_bounds M) (discrete_int_upper_bounds M) j v) (\<lambda>b. Inr (fst acc \<or> b, snd acc))))"

definition validate_point ::
    "'r::linorder iterated_model \<Rightarrow> kind_counts \<Rightarrow> ('r list list, int list list, string list list, 'r list list) by_kind \<Rightarrow> nat \<Rightarrow> bool result" where
  "validate_point M n l i =
    rbind (collect (\<lambda>j. rbind (vec_at (cont l) i) (\<lambda>p. rbind (vec_at p j) (outside (continuous_lower_bounds M) (continuous_upper_bounds M) j)))
      [0..<cont n]) (\<lambda>c.
    rbind (rfold (\<lambda>j acc. rbind (vec_at (dint l) i) (\<lambda>p. validate_int M p j acc)) [0..<dint n] (False, 0)) (\<lambda>(di, _).
    rbind (collect (\<lambda>j. rbind (vec_at (dstr l) i) (\<lambda>p. rbind (vec_at p j) (not_in_set (discrete_set_string_values M) j))) [0..<dstr n]) (\<lambda>ds.
    rbind (collect (\<lambda>j. rbind (vec_at (dreal l) i) (\<lambda>p. rbind (vec_at p j) (not_in_set (discrete_set_real_values M) j))) [0..<dreal n]) (\<lambda>dr.
      Inr (True \<in> set c \<or> di \<or> True \<in> set ds \<or> True \<in> set dr)))))"

definition load_distribute_points :: "'r::linorder iterated_model \<Rightarrow> 'r imported_points \<Rightarrow> 'r study \<Rightarrow> (bool \<times> 'r study) result" where
  "load_distribute_points M imported st =
    (case imported of (num_read, l) \<Rightarrow>
     rbind (collect (validate_point M (numVars st) l) [0..<num_read]) (\<lambda>errs.
       Inr (num_read = 0 \<or> True \<in> set errs, st\<lparr>numEvals := num_read, listPoints := l\<rparr>)))"

section \<open>Construction\<close>

text \<open>The specification of the method, and the mode in which only the input is checked.\<close>

record 'r study_spec =
  spec_list_of_points :: "'r list"
  spec_import :: "'r imported_points"
  spec_step_vector :: "'r list"
  spec_final_point :: "'r list"
  spec_num_steps :: int
  spec_steps_per_variable :: "int list"
  spec_partitions :: "nat list"
  command_line_check :: bool

definition current_point :: "'r iterated_model \<Rightarrow> ('r list, int list, string list, 'r list) by_kind" where
  "current_point M = (let v = current_variables M in \<lparr>cont = cvars v, dint = divars v, dstr = dsvars v, dreal = drvars v\<rparr>)"

text \<open>Views of the discrete values; the continuous point is left as it is.\<close>

definition view_discrete :: "'r iterated_model \<Rightarrow> 'r study \<Rightarrow> 'r study" where
  "view_discrete M st = st\<lparr>initialPoint := (current_point M)\<lparr>cont := cont (initialPoint st)\<rparr>\<rparr>"

definition construct_list :: "'r::floor_ceiling iterated_model \<Rightarrow> 'r study_spec \<Rightarrow> 'r study \<Rightarrow> (bool \<times> 'r study) result" where
  "construct_list M sp st =
    (if spec_list_of_points sp = [] then load_distribute_points M (spec_import sp) st
     else distribute_list_of_points M (spec_list_of_points sp) st)"

definition construct_vector :: "'r::floor_ceiling iterated_model \<Rightarrow> 'r study_spec \<Rightarrow> 'r study \<Rightarrow> (bool \<times> 'r study) result" where
  "construct_vector M sp st =
    (if spec_step_vector sp = [] then
       rbind (check_final_point M (spec_final_point sp) st) (\<lambda>(err1, st1).
       rbind (check_num_steps (spec_num_steps sp) st1) (\<lambda>(err2, st2).
       if numSteps st2 \<noteq> 0 \<and> command_line_check sp then
         rbind (final_point_to_step_vector M (st2\<lparr>initialPoint := current_point M\<rparr>)) (\<lambda>st3. Inr (err1 \<or> err2, st3))
       else Inr (err1 \<or> err2, st2)))
     else
       rbind (check_step_vector M (spec_step_vector sp) st) (\<lambda>(err1, st1).
       rbind (check_num_steps (spec_num_steps sp) st1) (\<lambda>(err2, st2).
       let st3 = view_discrete M st2 in
       rbind (check_ranges_sets_vector M (numSteps st3) st3) (\<lambda>err3. Inr (err1 \<or> err2 \<or> err3, st3)))))"

definition construct_centered :: "'r::floor_ceiling iterated_model \<Rightarrow> 'r study_spec \<Rightarrow> 'r study \<Rightarrow> (bool \<times> 'r study) result" where
  "construct_centered M sp st =
    rbind (check_step_vector M (spec_step_vector sp) st) (\<lambda>(err1, st1).
    rbind (check_steps_per_variable M (spec_steps_per_variable sp) st1) (\<lambda>(err2, st2).
    let st3 = view_discrete M st2 in
    rbind (check_ranges_sets_centered M (stepsByKind st3) st3) (\<lambda>err3. Inr (err1 \<or> err2 \<or> err3, st3))))"

definition construct_multidim :: "'r::floor_ceiling \<Rightarrow> 'r iterated_model \<Rightarrow> 'r study_spec \<Rightarrow> 'r study \<Rightarrow> (bool \<times> 'r study) result" where
  "construct_multidim dbl_inf M sp st =
    rbind (check_variable_partitions M (spec_partitions sp) st) (\<lambda>(err1, st1).
    rbind (check_finite_bounds dbl_inf M (numVars st1)) (\<lambda>err2.
    if command_line_check sp then rbind (distribute_partitions M st1) (\<lambda>st2. Inr (err1 \<or> err2, st2))
    else Inr (err1 \<or> err2, st1)))"

text \<open>The base object holds the method, the counts and \<^verbatim>\<open>maxEvalConcurrency\<close>; its numbers of steps and evaluations are indeterminate.\<close>

definition ParamStudy :: "'r::floor_ceiling \<Rightarrow> 'r iterated_model \<Rightarrow> 'r study_spec \<Rightarrow> 'r study \<Rightarrow> 'r study result" where
  "ParamStudy dbl_inf M sp st =
    rbind (case methodName st of
        LIST_PARAMETER_STUDY \<Rightarrow> construct_list M sp st
      | VECTOR_PARAMETER_STUDY \<Rightarrow> construct_vector M sp st
      | CENTERED_PARAMETER_STUDY \<Rightarrow> construct_centered M sp st
      | MULTIDIM_PARAMETER_STUDY \<Rightarrow> construct_multidim dbl_inf M sp st
      | OTHER_METHOD \<Rightarrow> Inr (True, st)) (\<lambda>(err_flag, st1).
    if err_flag then Inl (Abort METHOD_ERROR)
    else Inr (st1\<lparr>maxEvalConcurrency := as_int (maxEvalConcurrency st1 * int (numEvals st1))\<rparr>))"

section \<open>Runs\<close>

definition resize_variables :: "'r active_vars \<Rightarrow> 'r study \<Rightarrow> 'r study" where
  "resize_variables vars st = st\<lparr>allVariables := vec_resize vars (numEvals st) (allVariables st)\<rparr>"

definition no_step_vector :: "'r study \<Rightarrow> bool" where
  "no_step_vector st \<longleftrightarrow> (let d = stepVector st in cont d = [] \<and> dint d = [] \<and> dstr d = [] \<and> dreal d = [])"

definition pre_run :: "(nat list \<Rightarrow> nat list \<Rightarrow> nat list) \<Rightarrow> 'r::floor_ceiling iterated_model \<Rightarrow> 'r study \<Rightarrow> 'r study result" where
  "pre_run increment M st =
    (let st1 = (if methodName st = VECTOR_PARAMETER_STUDY \<or> methodName st = CENTERED_PARAMETER_STUDY
         then st\<lparr>initialPoint := current_point M\<rparr> else st);
       st2 = resize_variables (current_variables M) st1 in
     case methodName st2 of
       LIST_PARAMETER_STUDY \<Rightarrow> sample st2
     | VECTOR_PARAMETER_STUDY \<Rightarrow>
         rbind (if no_step_vector st2 \<and> numSteps st2 \<noteq> 0 then final_point_to_step_vector M st2 else Inr st2) (vector_loop M)
     | CENTERED_PARAMETER_STUDY \<Rightarrow> centered_loop M st2
     | MULTIDIM_PARAMETER_STUDY \<Rightarrow> rbind (distribute_partitions M st2) (multidim_loop increment M)
     | OTHER_METHOD \<Rightarrow> Inl (Abort METHOD_ERROR))"

text \<open>A change of the number of variables is not supported.\<close>

definition study_resize :: "'r study \<Rightarrow> 'r study result" where
  "study_resize st = Inl (Abort METHOD_ERROR)"

section \<open>Slices of a centered study\<close>

text \<open>
  The search for the variable of an evaluation.  \<^verbatim>\<open>2*stepsPerVariable[i]\<close> is an \<^verbatim>\<open>int\<close>, the other arithmetic is
  \<^verbatim>\<open>size_t\<close>.  An index past all variables reads past the array.
\<close>

fun find_var_step :: "int list \<Rightarrow> int \<Rightarrow> nat \<Rightarrow> int \<Rightarrow> (nat \<times> int) result" where
  "find_var_step [] study_idx var_idx offset = Inl (UndefinedBehaviour ''vector read'')"
| "find_var_step (n # ns) study_idx var_idx offset =
    rbind (checked_int (2 * n)) (\<lambda>m.
     let next = size_mod (offset + m) in
     if study_idx < next then
       let d = size_mod (study_idx - offset) in Inr (var_idx, if d < size_mod n then d else size_mod (d + 1))
     else find_var_step ns study_idx (Suc var_idx) next)"

definition index_to_var_step :: "'r study \<Rightarrow> nat \<Rightarrow> (nat \<times> int) result" where
  "index_to_var_step st study_idx = find_var_step (stepsPerVariable st) (int study_idx) 0 1"

datatype 'r slice_value = Real_Value 'r | Int_Value int | String_Value string

text \<open>An insertion into the results: the variable by kind and index, the position in its slice, and the value.\<close>

type_synonym 'v slice_insert = "var_kind \<times> nat \<times> int \<times> 'v"

definition center_inserts :: "var_kind \<Rightarrow> nat \<Rightarrow> int list \<Rightarrow> (nat \<Rightarrow> 'v result) \<Rightarrow> 'v slice_insert list result" where
  "center_inserts k n steps value =
    collect (\<lambda>i. rbind (value i) (\<lambda>v. rbind (vec_at steps i) (\<lambda>p. Inr (k, i, p, v)))) [0..<n]"

text \<open>The kind of the variable at a position among all active variables, and its index in the kind.\<close>

definition position_kind :: "kind_counts \<Rightarrow> nat \<Rightarrow> var_kind \<times> nat" where
  "position_kind n i =
    (if i < cont n then (CV, i)
     else if i < cont n + dint n then (DIV, i - cont n)
     else if i < cont n + dint n + dstr n then (DSV, i - cont n - dint n)
     else (DRV, i - cont n - dint n - dstr n))"

definition var_value :: "'r active_vars \<Rightarrow> var_kind \<times> nat \<Rightarrow> 'r slice_value result" where
  "var_value v p = (case p of
      (CV, i) \<Rightarrow> rbind (vec_at (cvars v) i) (\<lambda>x. Inr (Real_Value x))
    | (DIV, i) \<Rightarrow> rbind (vec_at (divars v) i) (\<lambda>x. Inr (Int_Value x))
    | (DSV, i) \<Rightarrow> rbind (vec_at (dsvars v) i) (\<lambda>x. Inr (String_Value x))
    | (DRV, i) \<Rightarrow> rbind (vec_at (drvars v) i) (\<lambda>x. Inr (Real_Value x)))"

definition archive_cps_vars :: "'r study \<Rightarrow> 'r active_vars \<Rightarrow> nat \<Rightarrow> 'r slice_value slice_insert list result" where
  "archive_cps_vars st vars idx =
    (let n = numVars st; s = stepsByKind st in
     if idx = 0 then
       rbind (center_inserts CV (cont n) (cont s) (\<lambda>i. var_value vars (CV, i))) (\<lambda>c.
       rbind (center_inserts DIV (dint n) (dint s) (\<lambda>i. var_value vars (DIV, i))) (\<lambda>di.
       rbind (center_inserts DSV (dstr n) (dstr s) (\<lambda>i. var_value vars (DSV, i))) (\<lambda>ds.
       rbind (center_inserts DRV (dreal n) (dreal s) (\<lambda>i. var_value vars (DRV, i))) (\<lambda>dr. Inr (c @ di @ ds @ dr)))))
     else
       rbind (index_to_var_step st idx) (\<lambda>(var_idx, step_idx).
       case position_kind n var_idx of (k, i) \<Rightarrow> rbind (var_value vars (k, i)) (\<lambda>v. Inr [(k, i, step_idx, v)])))"

definition archive_cps_resp :: "'r study \<Rightarrow> 'v \<Rightarrow> nat \<Rightarrow> 'v slice_insert list result" where
  "archive_cps_resp st resp_vec idx =
    (let n = numVars st; s = stepsByKind st in
     if idx = 0 then
       rbind (center_inserts CV (cont n) (cont s) (\<lambda>i. Inr resp_vec)) (\<lambda>c.
       rbind (center_inserts DIV (dint n) (dint s) (\<lambda>i. Inr resp_vec)) (\<lambda>di.
       rbind (center_inserts DSV (dstr n) (dstr s) (\<lambda>i. Inr resp_vec)) (\<lambda>ds.
       rbind (center_inserts DRV (dreal n) (dreal s) (\<lambda>i. Inr resp_vec)) (\<lambda>dr. Inr (c @ di @ ds @ dr)))))
     else
       rbind (index_to_var_step st idx) (\<lambda>(var_idx, step_idx).
       case position_kind n var_idx of (k, i) \<Rightarrow> Inr [(k, i, step_idx, resp_vec)]))"

text \<open>The slices that are allocated: a variable and the number of its entries, an \<^verbatim>\<open>int\<close>.\<close>

definition allocate_slices :: "var_kind \<Rightarrow> nat \<Rightarrow> int list \<Rightarrow> (var_kind \<times> nat \<times> int) list result" where
  "allocate_slices k n steps =
    collect (\<lambda>i. rbind (vec_at steps i) (\<lambda>p. rbind (checked_int (2 * p)) (\<lambda>m. rbind (checked_int (m + 1)) (\<lambda>len. Inr (k, i, len))))) [0..<n]"

definition archive_allocate_cps :: "'r study \<Rightarrow> (var_kind \<times> nat \<times> int) list result" where
  "archive_allocate_cps st =
    (let n = numVars st; s = stepsByKind st in
     rbind (allocate_slices CV (cont n) (cont s)) (\<lambda>c.
     rbind (allocate_slices DIV (dint n) (dint s)) (\<lambda>di.
     rbind (allocate_slices DSV (dstr n) (dstr s)) (\<lambda>ds.
     rbind (allocate_slices DRV (dreal n) (dreal s)) (\<lambda>dr. Inr (c @ di @ ds @ dr))))))"

end
