(* ===== verification/Study_Points.thy ===== *)
theory Study_Points
  imports Param_Study
begin

text \<open>
  The points of a parameter study.  The loops of \<^verbatim>\<open>ParamStudy\<close> step every variable in place, with running
  counters; here they are shown equal to a reference that computes each coordinate of each point on its own,
  with the same errors.
\<close>

section \<open>Arrays written in order\<close>

named_theorems study_simps

lemma vec_at_ok [study_simps]: "i < length xs \<Longrightarrow> vec_at xs i = Inr (xs ! i)"
  by (simp add: vec_at_def)

lemma vec_put_ok [study_simps]: "i < length xs \<Longrightarrow> vec_put xs i x = Inr (xs[i := x])"
  by (simp add: vec_put_def)

lemma collect_append: "collect f (xs @ ys) = rbind (collect f xs) (\<lambda>a. rbind (collect f ys) (\<lambda>b. Inr (a @ b)))"
proof (induction xs)
  case Nil
  show ?case by (cases "collect f ys") simp_all
next
  case (Cons x xs)
  then show ?case by (cases "f x"; cases "collect f xs"; cases "collect f ys") simp_all
qed

lemma collect_Inr_iff: "collect f is = Inr ys \<longleftrightarrow> list_all2 (\<lambda>i y. f i = Inr y) is ys"
proof (induction "is" arbitrary: ys)
  case Nil
  show ?case by auto
next
  case (Cons i "is")
  then show ?case by (auto simp: result_simps list_all2_Cons1)
qed

lemma collect_cong [fundef_cong]:
  "is = js \<Longrightarrow> (\<And>i. i \<in> set js \<Longrightarrow> f i = g i) \<Longrightarrow> collect f is = collect g js"
proof (induction js arbitrary: "is")
  case (Cons j js)
  then show ?case by simp
qed simp

lemma collect_map: "collect f (map h is) = collect (\<lambda>i. f (h i)) is"
  by (induction "is") simp_all

lemma collect_ok: "(\<And>i. i \<in> set is \<Longrightarrow> f i = Inr (g i)) \<Longrightarrow> collect f is = Inr (map g is)"
  by (induction "is") simp_all

lemma collect_is_ok: "is_ok (collect f is) \<longleftrightarrow> (\<forall>i \<in> set is. is_ok (f i))"
proof (induction "is")
  case (Cons i "is")
  then show ?case by (cases "f i"; cases "collect f is") simp_all
qed simp

lemma collect_length: "collect f is = Inr ys \<Longrightarrow> length ys = length is"
  by (simp add: collect_Inr_iff list_all2_lengthD)

lemma collect_nth: "collect f is = Inr ys \<Longrightarrow> i < length is \<Longrightarrow> f (is ! i) = Inr (ys ! i)"
  by (auto simp: collect_Inr_iff dest: list_all2_nthD)

text \<open>A loop that writes the entries of a field one after the other collects them.\<close>

lemma put_after: "length ys = m \<Longrightarrow> m < length xs \<Longrightarrow> (ys @ drop m xs)[m := y] = (ys @ [y]) @ drop (Suc m) xs"
  by (simp add: list_update_append Cons_nth_drop_Suc [symmetric])

lemma rfold_put_prefix:
  assumes set_get: "set' (get s) s = s" and get_set: "\<And>xs t. get (set' xs t) = xs"
    and set_set: "\<And>xs ys t. set' xs (set' ys t) = set' xs t" and m: "m \<le> length (get s)"
  shows "rfold (\<lambda>j s. rbind (f j) (\<lambda>y. rbind (vec_put (get s) j y) (\<lambda>xs. Inr (set' xs s)))) [0..<m] s =
    rbind (collect f [0..<m]) (\<lambda>ys. Inr (set' (ys @ drop m (get s)) s))"
  using m
proof (induction m)
  case 0
  then show ?case using set_get by simp
next
  case (Suc m)
  have step: "rbind (f m) (\<lambda>y. rbind (vec_put (get (set' (ys @ drop m (get s)) s)) m y) (\<lambda>xs. Inr (set' xs (set' (ys @ drop m (get s)) s)))) =
      rbind (f m) (\<lambda>y. Inr (set' ((ys @ [y]) @ drop (Suc m) (get s)) s))" if "length ys = m" for ys
    using Suc.prems that by (simp add: get_set set_set vec_put_ok put_after del: append_assoc)
  show ?case using Suc
    by (cases "collect f [0..<m]")
      (auto simp: rfold_append collect_append result_simps step dest!: collect_length split: sum.splits cong: rbind_cong)
qed

lemma rfold_put_all:
  assumes "set' (get s) s = s" "\<And>xs t. get (set' xs t) = xs" "\<And>xs ys t. set' xs (set' ys t) = set' xs t"
    and "length (get s) = n"
  shows "rfold (\<lambda>j s. rbind (f j) (\<lambda>y. rbind (vec_put (get s) j y) (\<lambda>xs. Inr (set' xs s)))) [0..<n] s =
    rbind (collect f [0..<n]) (\<lambda>ys. Inr (set' ys s))"
  using rfold_put_prefix [of set' get s n f] assms by (simp cong: rbind_cong)

text \<open>A loop over an array whose entries are replaced one after the other.\<close>

lemma rfold_update_at:
  assumes "\<And>i x. i < length xs \<Longrightarrow> x \<in> set xs \<Longrightarrow> f i x = g i" "n \<le> length xs"
  shows "rfold (\<lambda>i. update_at i (f i)) [0..<n] xs = rbind (collect g [0..<n]) (\<lambda>ys. Inr (ys @ drop n xs))"
  using assms(2)
proof (induction n)
  case 0
  then show ?case by simp
next
  case (Suc n)
  have step: "update_at n (f n) (ys @ drop n xs) = rbind (g n) (\<lambda>y. Inr ((ys @ [y]) @ drop (Suc n) xs))" if "length ys = n" for ys
    using Suc.prems that assms(1) [of n "xs ! n"]
    by (simp add: update_at_def vec_at_ok vec_put_ok nth_append put_after del: append_assoc)
  show ?case using Suc
    by (cases "collect g [0..<n]") (auto simp: rfold_append collect_append result_simps step dest!: collect_length cong: rbind_cong)
qed
section \<open>Points computed by coordinate\<close>

definition sized :: "kind_counts \<Rightarrow> 'r active_vars \<Rightarrow> bool" where
  "sized n v \<longleftrightarrow> length (cvars v) = cont n \<and> length (divars v) = dint n \<and> length (dsvars v) = dstr n \<and> length (drvars v) = dreal n"

definition cont_value :: "'r::field study \<Rightarrow> nat \<Rightarrow> int \<Rightarrow> 'r result" where
  "cont_value st j i = rbind (vec_at (cont (initialPoint st)) j) (\<lambda>x. rbind (vec_at (cont (stepVector st)) j) (\<lambda>d. Inr (x + of_int i * d)))"

definition range_value :: "'r study \<Rightarrow> nat \<Rightarrow> int \<Rightarrow> int result" where
  "range_value st j i =
    rbind (vec_at (dint (initialPoint st)) j) (\<lambda>x. rbind (vec_at (dint (stepVector st)) j) (\<lambda>d.
    rbind (checked_int (i * d)) (\<lambda>p. checked_int (x + p))))"

text \<open>The set of the \<open>j\<close>-th integer variable: as many sets precede it as there are set variables before it.\<close>

definition set_rank :: "'r iterated_model \<Rightarrow> nat \<Rightarrow> nat" where
  "set_rank M j = bit_count (take j (discrete_int_sets M))"

definition int_value :: "'r iterated_model \<Rightarrow> 'r study \<Rightarrow> nat \<Rightarrow> int result \<Rightarrow> int result" where
  "int_value M st j inc =
    rbind (vec_at (discrete_int_sets M) j) (\<lambda>is_set. rbind inc (\<lambda>i.
    if is_set then rbind (vec_at (discrete_set_int_values M) (set_rank M j)) (set_step (dint (initialPoint st)) (dint (stepVector st)) j i)
    else range_value st j i))"

definition string_value :: "'r iterated_model \<Rightarrow> 'r study \<Rightarrow> nat \<Rightarrow> int result \<Rightarrow> string result" where
  "string_value M st j inc =
    rbind (vec_at (discrete_set_string_values M) j) (\<lambda>vals. rbind inc (\<lambda>i. set_step (dstr (initialPoint st)) (dstr (stepVector st)) j i vals))"

definition real_value :: "'r iterated_model \<Rightarrow> 'r study \<Rightarrow> nat \<Rightarrow> int result \<Rightarrow> 'r result" where
  "real_value M st j inc =
    rbind (vec_at (discrete_set_real_values M) j) (\<lambda>vals. rbind inc (\<lambda>i. set_step (dreal (initialPoint st)) (dreal (stepVector st)) j i vals))"

definition point_at :: "'r::field iterated_model \<Rightarrow> 'r study \<Rightarrow> (nat \<Rightarrow> int result) \<Rightarrow> 'r active_vars result" where
  "point_at M st inc =
    (let n = numVars st; n1 = cont n; n2 = n1 + dint n; n3 = n2 + dstr n in
     rbind (collect (\<lambda>j. rbind (inc j) (cont_value st j)) [0..<cont n]) (\<lambda>c.
     rbind (collect (\<lambda>j. int_value M st j (inc (n1 + j))) [0..<dint n]) (\<lambda>i.
     rbind (collect (\<lambda>j. string_value M st j (inc (n2 + j))) [0..<dstr n]) (\<lambda>s.
     rbind (collect (\<lambda>j. real_value M st j (inc (n3 + j))) [0..<dreal n]) (\<lambda>d.
       Inr \<lparr>cvars = c, divars = i, dsvars = s, drvars = d\<rparr>)))))"

lemma rbind_if: "rbind (if b then p else q) f = (if b then rbind p f else rbind q f)"
  by simp

lemma loop_cont:
  "length (cvars v) = n \<Longrightarrow> rfold (\<lambda>j v. rbind (inc j) (\<lambda>i. c_step st j i v)) [0..<n] v =
    rbind (collect (\<lambda>j. rbind (inc j) (cont_value st j)) [0..<n]) (\<lambda>c. Inr (v\<lparr>cvars := c\<rparr>))"
  using rfold_put_all [of "\<lambda>xs v. v\<lparr>cvars := xs\<rparr>" cvars v n "\<lambda>j. rbind (inc j) (cont_value st j)"]
  by (simp add: c_step_def cont_value_def rbind_assoc)

lemma loop_string:
  "length (dsvars v) = n \<Longrightarrow>
    rfold (\<lambda>j v. rbind (vec_at (discrete_set_string_values M) j) (\<lambda>vals. rbind (inc j) (\<lambda>i. dss_step st j i vals v))) [0..<n] v =
    rbind (collect (\<lambda>j. string_value M st j (inc j)) [0..<n]) (\<lambda>c. Inr (v\<lparr>dsvars := c\<rparr>))"
  using rfold_put_all [of "\<lambda>xs v. v\<lparr>dsvars := xs\<rparr>" dsvars v n "\<lambda>j. string_value M st j (inc j)"]
  by (simp add: dss_step_def string_value_def rbind_assoc)

lemma loop_real:
  "length (drvars v) = n \<Longrightarrow>
    rfold (\<lambda>j v. rbind (vec_at (discrete_set_real_values M) j) (\<lambda>vals. rbind (inc j) (\<lambda>i. dsr_step st j i vals v))) [0..<n] v =
    rbind (collect (\<lambda>j. real_value M st j (inc j)) [0..<n]) (\<lambda>c. Inr (v\<lparr>drvars := c\<rparr>))"
  using rfold_put_all [of "\<lambda>xs v. v\<lparr>drvars := xs\<rparr>" drvars v n "\<lambda>j. real_value M st j (inc j)"]
  by (simp add: dsr_step_def real_value_def rbind_assoc)

text \<open>The counter of a loop over the integer variables is the rank of the variable.\<close>

lemma set_rank_Suc:
  "j < length (discrete_int_sets M) \<Longrightarrow> set_rank M (Suc j) = (if discrete_int_sets M ! j then Suc (set_rank M j) else set_rank M j)"
  by (simp add: set_rank_def bit_count_def take_Suc_conv_app_nth)

lemma loop_int:
  assumes "m \<le> length (divars v)"
  shows "rfold (int_var_step M st inc) [0..<m] (0, v) =
    rbind (collect (\<lambda>j. int_value M st j (inc j)) [0..<m]) (\<lambda>c. Inr (set_rank M m, v\<lparr>divars := c @ drop m (divars v)\<rparr>))"
  using assms
proof (induction m)
  case 0
  then show ?case by (simp add: set_rank_def bit_count_def)
next
  case (Suc m)
  have step: "int_var_step M st inc m (set_rank M m, v\<lparr>divars := c @ drop m (divars v)\<rparr>) =
      rbind (int_value M st m (inc m)) (\<lambda>y. Inr (set_rank M (Suc m), v\<lparr>divars := (c @ [y]) @ drop (Suc m) (divars v)\<rparr>))"
    if "length c = m" for c
  proof (cases "m < length (discrete_int_sets M)")
    case True
    then show ?thesis using Suc.prems that
      by (simp add: int_var_step_def int_value_def vec_at_ok set_rank_Suc dsi_step_def dri_step_def range_value_def rbind_assoc
          vec_put_ok put_after rbind_if del: append_assoc cong: rbind_cong)
  next
    case False
    then show ?thesis by (simp add: int_var_step_def int_value_def vec_at_def)
  qed
  show ?case using Suc
    by (cases "collect (\<lambda>j. int_value M st j (inc j)) [0..<m]")
      (auto simp: rfold_append collect_append result_simps step dest!: collect_length cong: rbind_cong)
qed

lemma step_all_point:
  assumes "sized (numVars st) v"
  shows "step_all M st inc v = point_at M st inc"
proof -
  have full: "v\<lparr>cvars := c, divars := i, dsvars := s, drvars := d\<rparr> = \<lparr>cvars = c, divars = i, dsvars = s, drvars = d\<rparr>" for c i s d
    by (cases v) simp
  show ?thesis
    using assms by (simp add: step_all_def point_at_def sized_def Let_def loop_cont loop_string loop_real rbind_assoc
        loop_int [of _ "v\<lparr>cvars := _\<rparr>"] full cong: rbind_cong)
qed

section \<open>Loops over the points\<close>

definition all_sized :: "'r study \<Rightarrow> bool" where
  "all_sized st \<longleftrightarrow> (\<forall>v \<in> set (allVariables st). sized (numVars st) v)"

lemma vector_loop_points:
  assumes "all_sized st" "0 \<le> numSteps st" "length (allVariables st) = Suc (nat (numSteps st))"
  shows "vector_loop M st =
    rbind (collect (\<lambda>i. point_at M st (\<lambda>_. Inr (int i))) [0..<Suc (nat (numSteps st))]) (\<lambda>vs. Inr (st\<lparr>allVariables := vs\<rparr>))"
proof -
  have "rfold (\<lambda>i. update_at i (step_all M st (\<lambda>_. Inr (int i)))) [0..<Suc (nat (numSteps st))] (allVariables st) =
    rbind (collect (\<lambda>i. point_at M st (\<lambda>_. Inr (int i))) [0..<Suc (nat (numSteps st))]) (\<lambda>ys. Inr (ys @ drop (Suc (nat (numSteps st))) (allVariables st)))"
    by (rule rfold_update_at) (use assms in \<open>auto simp: all_sized_def intro: step_all_point\<close>)
  then show ?thesis using assms by (simp add: vector_loop_def rbind_assoc del: upt_Suc)
qed

text \<open>The index of the \<open>i\<close>-th evaluation of a multidimensional study.\<close>

definition nth_index :: "(nat list \<Rightarrow> nat list \<Rightarrow> nat list) \<Rightarrow> nat list \<Rightarrow> nat \<Rightarrow> nat list" where
  "nth_index increment limits i = ((\<lambda>x. increment x limits) ^^ i) (replicate (length limits) 0)"

lemma multidim_rfold:
  assumes "\<And>v. v \<in> set vs \<Longrightarrow> sized (numVars st) v" "n \<le> length vs" "start = replicate (length limits) 0"
  shows "rfold (\<lambda>i (indices, vs). rbind (update_at i (step_all M st (index_value indices)) vs) (\<lambda>vs'.
        Inr (increment indices limits, vs'))) [0..<n] (start, vs) =
    rbind (collect (\<lambda>i. point_at M st (index_value (nth_index increment limits i))) [0..<n]) (\<lambda>ys.
      Inr (nth_index increment limits n, ys @ drop n vs))"
  using assms(2)
proof (induction n)
  case 0
  then show ?case using assms(3) by (simp add: nth_index_def)
next
  case (Suc n)
  let ?I = "nth_index increment limits"
  have step: "update_at n (step_all M st (index_value (?I n))) (ys @ drop n vs) =
      rbind (point_at M st (index_value (?I n))) (\<lambda>y. Inr ((ys @ [y]) @ drop (Suc n) vs))" if "length ys = n" for ys
    using Suc.prems that step_all_point [OF assms(1), of "vs ! n"]
    by (simp add: update_at_def vec_at_ok vec_put_ok nth_append put_after del: append_assoc)
  have I: "?I (Suc n) = increment (?I n) limits" by (simp add: nth_index_def)
  show ?case using Suc
    by (cases "collect (\<lambda>i. point_at M st (index_value (?I i))) [0..<n]")
      (auto simp: rfold_append collect_append rbind_assoc step I dest!: collect_length cong: rbind_cong)
qed

lemma partition_limits_join:
  assumes "length (cont (varPartitions st)) = cont (numVars st)" "length (dint (varPartitions st)) = dint (numVars st)"
    "length (dstr (varPartitions st)) = dstr (numVars st)" "length (dreal (varPartitions st)) = dreal (numVars st)"
  shows "partition_limits st = Inr (join_kinds (varPartitions st))"
  using assms by (simp add: partition_limits_def copy_data_partial_def num_vars_def join_kinds_def Let_def)

lemma multidim_loop_points:
  assumes "all_sized st" "length (allVariables st) = numEvals st"
    "length (cont (varPartitions st)) = cont (numVars st)" "length (dint (varPartitions st)) = dint (numVars st)"
    "length (dstr (varPartitions st)) = dstr (numVars st)" "length (dreal (varPartitions st)) = dreal (numVars st)"
  shows "multidim_loop increment M st =
    rbind (collect (\<lambda>i. point_at M st (index_value (nth_index increment (join_kinds (varPartitions st)) i))) [0..<numEvals st])
      (\<lambda>vs. Inr (st\<lparr>allVariables := vs\<rparr>))"
proof -
  have l: "num_vars st = length (join_kinds (varPartitions st))" using assms by (simp add: num_vars_def join_kinds_def)
  have s: "\<And>v. v \<in> set (allVariables st) \<Longrightarrow> sized (numVars st) v" using assms(1) by (simp add: all_sized_def)
  show ?thesis
    unfolding multidim_loop_def partition_limits_join [OF assms(3-6)]
    using multidim_rfold [OF s, of _ "numEvals st" _ "join_kinds (varPartitions st)" M increment] assms(2) l
    by (simp add: rbind_assoc case_prod_beta)
qed
section \<open>Centered studies\<close>

definition model_ok :: "'r iterated_model \<Rightarrow> kind_counts \<Rightarrow> bool" where
  "model_ok M n \<longleftrightarrow> sized n (current_variables M) \<and> length (discrete_int_sets M) = dint n \<and>
     bit_count (discrete_int_sets M) \<le> length (discrete_set_int_values M) \<and>
     length (discrete_set_string_values M) = dstr n \<and> length (discrete_set_real_values M) = dreal n"

text \<open>The initial point as a \<^verbatim>\<open>Variables\<close> object.\<close>

definition center :: "'r study \<Rightarrow> 'r active_vars" where
  "center st = (let x = initialPoint st in \<lparr>cvars = cont x, divars = dint x, dsvars = dstr x, drvars = dreal x\<rparr>)"

lemma reset_vars_center: "sized (numVars st) v \<Longrightarrow> sized (numVars st) (center st) \<Longrightarrow> reset_vars st v = Inr (center st)"
  by (auto simp: reset_vars_def assign_point_def assign_kind_def assign_view_def sized_def center_def Let_def)

definition offsets :: "int \<Rightarrow> int list" where
  "offsets n = filter (\<lambda>i. i \<noteq> 0) [- n..n]"

text \<open>A move: the kind and index of a variable and the number of steps.\<close>

type_synonym move = "var_kind \<times> nat \<times> int"

fun kind_step :: "'r::field iterated_model \<Rightarrow> 'r study \<Rightarrow> var_kind \<Rightarrow> nat \<Rightarrow> int \<Rightarrow> 'r active_vars \<Rightarrow> 'r active_vars result" where
  "kind_step M st CV k i = c_step st k i"
| "kind_step M st DIV k i =
    (if discrete_int_sets M ! k then dsi_step st k i (discrete_set_int_values M ! set_rank M k) else dri_step st k i)"
| "kind_step M st DSV k i = dss_step st k i (discrete_set_string_values M ! k)"
| "kind_step M st DRV k i = dsr_step st k i (discrete_set_real_values M ! k)"

definition move_point :: "'r::field iterated_model \<Rightarrow> 'r study \<Rightarrow> move \<Rightarrow> 'r active_vars result" where
  "move_point M st m = (case m of (K, k, i) \<Rightarrow> kind_step M st K k i (center st))"

definition kind_moves :: "var_kind \<Rightarrow> int list \<Rightarrow> nat \<Rightarrow> move list" where
  "kind_moves K steps n = concat (map (\<lambda>k. map (\<lambda>i. (K, k, i)) (offsets (steps ! k))) [0..<n])"

lemma kind_moves_0 [simp]: "kind_moves K steps 0 = []"
  by (simp add: kind_moves_def)

lemma kind_moves_Suc: "kind_moves K steps (Suc n) = kind_moves K steps n @ map (\<lambda>i. (K, n, i)) (offsets (steps ! n))"
  by (simp add: kind_moves_def)

definition study_moves :: "'r study \<Rightarrow> move list" where
  "study_moves st = (let n = numVars st; s = stepsByKind st in
     kind_moves CV (cont s) (cont n) @ kind_moves DIV (dint s) (dint n) @ kind_moves DSV (dstr s) (dstr n) @ kind_moves DRV (dreal s) (dreal n))"

lemma rfold_snoc: "rfold f (xs @ [x]) s = rbind (rfold f xs s) (f x)"
proof (cases "rfold f xs s")
  case (Inr t)
  then show ?thesis by (cases "f x t") (simp_all add: rfold_append)
qed (simp add: rfold_append)

text \<open>The steps of one variable fill the next entries.\<close>

lemma centered_steps_points:
  assumes "\<And>v. v \<in> set rest \<Longrightarrow> sized (numVars st) v" "sized (numVars st) (center st)" "length (offsets m) \<le> length rest"
  shows "centered_steps st f m (length pre, pre @ rest) =
    rbind (collect (\<lambda>i. f i (center st)) (offsets m)) (\<lambda>ys.
      Inr (length (pre @ ys), (pre @ ys) @ drop (length (offsets m)) rest))"
proof -
  have "rfold (\<lambda>i (cntr, vs). rbind (update_at cntr (\<lambda>v. rbind (reset_vars st v) (f i)) vs) (\<lambda>vs'. Inr (Suc cntr, vs'))) is (length pre, pre @ rest) =
      rbind (collect (\<lambda>i. f i (center st)) is) (\<lambda>ys. Inr (length (pre @ ys), (pre @ ys) @ drop (length is) rest))"
    if "length is \<le> length rest" for "is"
    using assms(1) that
  proof (induction "is" arbitrary: pre rest)
    case Nil
    then show ?case by simp
  next
    case (Cons i "is")
    obtain r rs where r: "rest = r # rs" using Cons.prems(2) by (cases rest) auto
    have c: "reset_vars st r = Inr (center st)" using Cons.prems(1) r assms(2) by (simp add: reset_vars_center)
    have rs: "\<And>v. v \<in> set rs \<Longrightarrow> sized (numVars st) v" "length is \<le> length rs" using Cons.prems r by auto
    show ?case
    proof (cases "f i (center st)")
      case (Inl e)
      then show ?thesis by (simp add: r c update_at_def vec_at_ok)
    next
      case (Inr y)
      then show ?thesis using Cons.IH [of rs "pre @ [y]"] rs
        by (simp add: r c update_at_def vec_at_ok vec_put_ok rbind_assoc cong: rbind_cong)
    qed
  qed
  then show ?thesis using assms(3) by (simp add: centered_steps_def offsets_def)
qed

lemma centered_kind_points:
  assumes "\<And>v. v \<in> set rest \<Longrightarrow> sized (numVars st) v" "sized (numVars st) (center st)"
    and "length (kind_moves K steps m) \<le> length rest"
  shows "rfold (\<lambda>k. centered_steps st (kind_step M st K k) (steps ! k)) [0..<m] (length pre, pre @ rest) =
    rbind (collect (move_point M st) (kind_moves K steps m)) (\<lambda>ys.
      Inr (length (pre @ ys), (pre @ ys) @ drop (length (kind_moves K steps m)) rest))"
  using assms(3)
proof (induction m)
  case 0
  then show ?case by simp
next
  case (Suc m)
  let ?L = "length (kind_moves K steps m)"
  have l: "length (offsets (steps ! m)) \<le> length (drop ?L rest)" and L: "?L \<le> length rest"
    using Suc.prems by (simp_all add: kind_moves_Suc)
  have s: "\<And>v. v \<in> set (drop ?L rest) \<Longrightarrow> sized (numVars st) v" using assms(1) by (meson in_set_dropD)
  have step: "centered_steps st (kind_step M st K m) (steps ! m) (length (pre @ ys), (pre @ ys) @ drop ?L rest) =
      rbind (collect (move_point M st) (map (\<lambda>i. (K, m, i)) (offsets (steps ! m)))) (\<lambda>zs.
        Inr (length (pre @ ys @ zs), (pre @ ys @ zs) @ drop (length (kind_moves K steps (Suc m))) rest))" for ys
    using centered_steps_points [OF s assms(2) l, of "kind_step M st K m" "pre @ ys"]
    by (simp add: collect_map move_point_def kind_moves_Suc add.commute)
  have "rfold (\<lambda>k. centered_steps st (kind_step M st K k) (steps ! k)) [0..<Suc m] (length pre, pre @ rest) =
      rbind (collect (move_point M st) (kind_moves K steps m)) (\<lambda>ys.
        centered_steps st (kind_step M st K m) (steps ! m) (length (pre @ ys), (pre @ ys) @ drop ?L rest))"
    using Suc.IH [OF L] by (simp add: rfold_snoc rbind_assoc del: length_append append_assoc)
  then show ?case unfolding step by (simp add: kind_moves_Suc collect_append rbind_assoc)
qed
lemma kind_step_fun:
  "kind_step M st CV k = c_step st k"
  "kind_step M st DIV k = (if discrete_int_sets M ! k
    then (\<lambda>i. dsi_step st k i (discrete_set_int_values M ! set_rank M k)) else dri_step st k)"
  "kind_step M st DSV k = (\<lambda>i. dss_step st k i (discrete_set_string_values M ! k))"
  "kind_step M st DRV k = (\<lambda>i. dsr_step st k i (discrete_set_real_values M ! k))"
  by (simp_all add: fun_eq_iff)

lemma rfold_cong: "(\<And>x. x \<in> set xs \<Longrightarrow> f x = g x) \<Longrightarrow> rfold f xs s = rfold g xs s"
proof (induction xs arbitrary: s)
  case (Cons x xs)
  then show ?case by (cases "g x s") simp_all
qed simp

lemma set_rank_less:
  assumes "k < length (discrete_int_sets M)" "discrete_int_sets M ! k"
  shows "set_rank M k < bit_count (discrete_int_sets M)"
proof -
  have "discrete_int_sets M = take k (discrete_int_sets M) @ discrete_int_sets M ! k # drop (Suc k) (discrete_int_sets M)"
    using assms(1) by (simp add: id_take_nth_drop)
  then have "bit_count (discrete_int_sets M) = set_rank M k + Suc (bit_count (drop (Suc k) (discrete_int_sets M)))"
    unfolding set_rank_def bit_count_def using assms(2) by (metis (no_types, lifting) filter.simps(2) filter_append length_Cons length_append)
  then show ?thesis by simp
qed

definition steps_sized :: "'r study \<Rightarrow> bool" where
  "steps_sized st \<longleftrightarrow> (let n = numVars st; s = stepsByKind st in
     length (cont s) = cont n \<and> length (dint s) = dint n \<and> length (dstr s) = dstr n \<and> length (dreal s) = dreal n)"

lemma centered_int_loop:
  assumes "model_ok M (numVars st)" "steps_sized st" "m \<le> dint (numVars st)"
  shows "rfold (centered_int M st) [0..<m] (0, acc) =
    rbind (rfold (\<lambda>k. centered_steps st (kind_step M st DIV k) (dint (stepsByKind st) ! k)) [0..<m] acc) (\<lambda>a. Inr (set_rank M m, a))"
  using assms(3)
proof (induction m)
  case 0
  then show ?case by (simp add: set_rank_def bit_count_def)
next
  case (Suc m)
  have m: "m < length (discrete_int_sets M)" "m < length (dint (stepsByKind st))"
    using Suc.prems assms(1,2) by (simp_all add: model_ok_def steps_sized_def Let_def)
  have r: "discrete_int_sets M ! m \<Longrightarrow> set_rank M m < length (discrete_set_int_values M)"
    using set_rank_less [OF m(1)] assms(1) by (simp add: model_ok_def)
  have step: "centered_int M st m (set_rank M m, a) =
      rbind (centered_steps st (kind_step M st DIV m) (dint (stepsByKind st) ! m) a) (\<lambda>a'. Inr (set_rank M (Suc m), a'))" for a
    using m r by (simp add: centered_int_def vec_at_ok set_rank_Suc kind_step_fun)
  show ?case using Suc by (simp add: rfold_snoc rbind_assoc step del: kind_step.simps)
qed

lemma centered_loop_points:
  assumes "all_sized st" "sized (numVars st) (center st)" "model_ok M (numVars st)" "steps_sized st"
    and "Suc (length (study_moves st)) \<le> length (allVariables st)"
  shows "centered_loop M st =
    rbind (collect (move_point M st) (study_moves st)) (\<lambda>ys.
      Inr (st\<lparr>allVariables := (center st # ys) @ drop (Suc (length (study_moves st))) (allVariables st)\<rparr>))"
proof -
  let ?n = "numVars st" and ?s = "stepsByKind st"
  obtain v rest where v: "allVariables st = v # rest" using assms(5) by (cases "allVariables st") auto
  have sz: "sized ?n v" "\<And>w. w \<in> set rest \<Longrightarrow> sized ?n w" using assms(1) v by (simp_all add: all_sized_def)
  have drop: "\<And>k w. w \<in> set (drop k rest) \<Longrightarrow> sized ?n w" using sz(2) by (meson in_set_dropD)
  let ?C = "kind_moves CV (cont ?s) (cont ?n)" and ?I = "kind_moves DIV (dint ?s) (dint ?n)"
    and ?S = "kind_moves DSV (dstr ?s) (dstr ?n)" and ?D = "kind_moves DRV (dreal ?s) (dreal ?n)"
  have len: "length ?C + (length ?I + (length ?S + length ?D)) \<le> length rest"
    using assms(5) v by (simp add: study_moves_def Let_def)
  have first: "update_at 0 (reset_vars st) (v # rest) = Inr (center st # rest)"
    using sz(1) assms(2) v by (simp add: update_at_def vec_at_ok vec_put_ok reset_vars_center)
  have c: "rfold (\<lambda>k acc. rbind (vec_at (cont ?s) k) (\<lambda>m. centered_steps st (\<lambda>i. c_step st k i) m acc)) [0..<cont ?n] acc =
      rfold (\<lambda>k. centered_steps st (kind_step M st CV k) (cont ?s ! k)) [0..<cont ?n] acc" for acc
    by (rule rfold_cong) (use assms(4) in \<open>auto simp: steps_sized_def Let_def vec_at_ok fun_eq_iff kind_step_fun\<close>)
  have s: "rfold (\<lambda>k acc. rbind (vec_at (dstr ?s) k) (\<lambda>m. rbind (vec_at (discrete_set_string_values M) k) (\<lambda>vals.
        centered_steps st (\<lambda>i. dss_step st k i vals) m acc))) [0..<dstr ?n] acc =
      rfold (\<lambda>k. centered_steps st (kind_step M st DSV k) (dstr ?s ! k)) [0..<dstr ?n] acc" for acc
    by (rule rfold_cong) (use assms(3,4) in \<open>auto simp: steps_sized_def model_ok_def Let_def vec_at_ok fun_eq_iff kind_step_fun\<close>)
  have d: "rfold (\<lambda>k acc. rbind (vec_at (dreal ?s) k) (\<lambda>m. rbind (vec_at (discrete_set_real_values M) k) (\<lambda>vals.
        centered_steps st (\<lambda>i. dsr_step st k i vals) m acc))) [0..<dreal ?n] acc =
      rfold (\<lambda>k. centered_steps st (kind_step M st DRV k) (dreal ?s ! k)) [0..<dreal ?n] acc" for acc
    by (rule rfold_cong) (use assms(3,4) in \<open>auto simp: steps_sized_def model_ok_def Let_def vec_at_ok fun_eq_iff kind_step_fun\<close>)
  have kp: "rfold (\<lambda>k. centered_steps st (kind_step M st K k) (steps ! k)) [0..<m] (length pre, pre @ drop q rest) =
      rbind (collect (move_point M st) (kind_moves K steps m)) (\<lambda>ys.
        Inr (length (pre @ ys), (pre @ ys) @ drop (q + length (kind_moves K steps m)) rest))"
    if "q + length (kind_moves K steps m) \<le> length rest" for K steps m pre q
    using centered_kind_points [where K = K and steps = steps and m = m and M = M and pre = pre and rest = "drop q rest", OF drop assms(2)] that
    by (simp add: add.commute)
  note k1 = kp [of 0 CV "cont ?s" "cont ?n" "[center st]", simplified]
  note k2 = kp [of "length ?C" DIV "dint ?s" "dint ?n" "center st # x" for x, simplified]
  note k3 = kp [of "length ?C + length ?I" DSV "dstr ?s" "dstr ?n" "center st # x @ y" for x y, simplified]
  note k4 = kp [of "length ?C + (length ?I + length ?S)" DRV "dreal ?s" "dreal ?n" "center st # x @ y @ z" for x y z, simplified]
  show ?thesis
    using len by (simp add: centered_loop_def Let_def first c s d centered_int_loop [OF assms(3,4)] study_moves_def collect_append
        rbind_assoc v k1 k2 k3 k4 add.assoc cong: rbind_cong)
qed

end
