(* ===== verification/Study_Properties.thy ===== *)
theory Study_Properties
  imports Study_Points
begin

text \<open>
  What parameter studies promise: a multidimensional study visits every point of the grid once, a vector study
  ends at the final point, and the evaluations of a centered study are the entries of the slices that are archived.
\<close>

section \<open>What construction establishes\<close>

lemma distribute_sized:
  assumes "distribute casts M caps xs = Inr (Some t)"
  shows "length (cont t) = cont caps \<and> length (dint t) = dint caps \<and> length (dstr t) = dstr caps \<and> length (dreal t) = dreal caps"
  using assms by (auto simp: distribute_def Let_def result_simps split: if_splits)

lemma sum_list_nat: "\<forall>n \<in> set ns. 0 \<le> n \<Longrightarrow> int (sum_list (map nat ns)) = sum_list ns"
  by (induction ns) auto

lemma sum_abs_eq: "sum_abs xs = Inr m \<Longrightarrow> m = sum_list (map (\<lambda>x. nat \<bar>x\<bar>) xs)"
proof -
  have "map nat ys = map (\<lambda>x. nat \<bar>x\<bar>) xs" if "list_all2 (\<lambda>x y. checked_int \<bar>x\<bar> = Inr y) xs ys" for ys
    using that by (induction rule: list_all2_induct) (auto simp: checked_int_def split: if_splits)
  then show "sum_abs xs = Inr m \<Longrightarrow> ?thesis" by (auto simp: sum_abs_def result_simps collect_Inr_iff)
qed

lemma nat_size_mod: "nat (size_mod (int n)) = n mod 2 ^ 64"
  by (simp add: size_mod_def nat_mod_distrib)

lemma step_count_mod: "nat (size_mod (2 * int n + 1)) = Suc (2 * n) mod 2 ^ 64"
  using nat_size_mod [of "Suc (2 * n)"] by (simp add: add.commute)

lemma check_step_vector_keeps:
  assumes "check_step_vector M v st = Inr (b, st')"
  shows "numVars st' = numVars st \<and> allVariables st' = allVariables st \<and> methodName st' = methodName st"
  using assms by (auto simp: check_step_vector_def result_simps split: if_splits option.splits)

lemma check_steps_establishes:
  assumes "check_steps_per_variable M s st = Inr (False, st')"
  shows "numVars st' = numVars st \<and> allVariables st' = allVariables st \<and> methodName st' = methodName st \<and> steps_sized st' \<and>
    stepsPerVariable st' = join_kinds (stepsByKind st') \<and>
    numEvals st' = Suc (2 * sum_list (map (\<lambda>x. nat \<bar>x\<bar>) (stepsPerVariable st'))) mod 2 ^ 64"
  using assms
  by (auto simp: check_steps_per_variable_def result_simps steps_sized_def step_count_mod Let_def replicate_kinds_def distribute_array_def
      dest!: distribute_sized sum_abs_eq split: if_splits option.splits)

lemma construct_centered_establishes:
  assumes "ParamStudy dbl_inf M sp st0 = Inr st" "methodName st0 = CENTERED_PARAMETER_STUDY"
  shows "numVars st = numVars st0 \<and> allVariables st = allVariables st0 \<and> methodName st = CENTERED_PARAMETER_STUDY \<and> steps_sized st \<and>
    stepsPerVariable st = join_kinds (stepsByKind st) \<and>
    numEvals st = Suc (2 * sum_list (map (\<lambda>x. nat \<bar>x\<bar>) (stepsPerVariable st))) mod 2 ^ 64"
proof -
  obtain st1 where c: "construct_centered M sp st0 = Inr (False, st1)"
    and st: "st = st1\<lparr>maxEvalConcurrency := as_int (maxEvalConcurrency st1 * int (numEvals st1))\<rparr>"
    using assms by (auto simp: ParamStudy_def result_simps split: if_splits)
  then obtain st2 st3 where 2: "check_step_vector M (spec_step_vector sp) st0 = Inr (False, st2)"
    and 3: "check_steps_per_variable M (spec_steps_per_variable sp) st2 = Inr (False, st3)" and st1: "st1 = view_discrete M st3"
    by (auto simp: construct_centered_def result_simps Let_def)
  show ?thesis
    using check_step_vector_keeps [OF 2] check_steps_establishes [OF 3] assms(2) st st1
    by (simp add: view_discrete_def steps_sized_def Let_def)
qed

section \<open>Slices of a centered study\<close>

lemma offsets_nonneg:
  assumes "0 \<le> n"
  shows "offsets n = [- n..- 1] @ [1..n]"
proof -
  have "[- n..n] = [- n..- 1] @ 0 # [1..n]"
    using assms upto_split1 [of "- n" 0 n] upto_rec1 [of 0 n] by simp
  then show ?thesis by (auto simp: offsets_def filter_id_conv)
qed

lemma length_offsets: "length (offsets n) = 2 * nat n"
proof (cases "0 \<le> n")
  case True
  then show ?thesis by (simp add: offsets_nonneg)
next
  case False
  then show ?thesis by (simp add: offsets_def)
qed

lemma nth_offsets: "0 \<le> n \<Longrightarrow> d < 2 * nat n \<Longrightarrow> offsets n ! d = (if int d < n then int d - n else int d - n + 1)"
  by (auto simp: offsets_nonneg nth_append)

text \<open>The moves by position among all variables.\<close>

fun pos_moves :: "int list \<Rightarrow> nat \<Rightarrow> (nat \<times> int) list" where
  "pos_moves [] p = []"
| "pos_moves (n # ns) p = map (Pair p) (offsets n) @ pos_moves ns (Suc p)"

lemma pos_moves_append: "pos_moves (xs @ ys) p = pos_moves xs p @ pos_moves ys (p + length xs)"
  by (induction xs arbitrary: p) simp_all

lemma length_pos_moves: "length (pos_moves ns p) = 2 * sum_list (map nat ns)"
  by (induction ns arbitrary: p) (simp_all add: length_offsets)

lemma pos_moves_range: "(q, i) \<in> set (pos_moves ns p) \<Longrightarrow> p \<le> q \<and> q < p + length ns"
  by (induction ns arbitrary: p) force+

lemma kind_moves_pos: "kind_moves K steps (length steps) = map (\<lambda>(q, i). (K, q - p, i)) (pos_moves steps p)"
proof (induction steps rule: rev_induct)
  case Nil
  show ?case by simp
next
  case (snoc x xs)
  have "kind_moves K (xs @ [x]) (length xs) = kind_moves K xs (length xs)"
    unfolding kind_moves_def by (rule arg_cong [where f = concat], rule map_cong) (auto simp: nth_append)
  then show ?case using snoc.IH by (simp add: kind_moves_Suc pos_moves_append)
qed

lemma study_moves_pos:
  assumes "steps_sized st"
  shows "study_moves st = map (\<lambda>(q, i). (fst (position_kind (numVars st) q), snd (position_kind (numVars st) q), i))
    (pos_moves (join_kinds (stepsByKind st)) 0)"
proof -
  let ?s = "stepsByKind st" and ?n = "numVars st"
  have l: "length (cont ?s) = cont ?n" "length (dint ?s) = dint ?n" "length (dstr ?s) = dstr ?n" "length (dreal ?s) = dreal ?n"
    using assms by (simp_all add: steps_sized_def Let_def)
  show ?thesis
    unfolding study_moves_def join_kinds_def pos_moves_append Let_def l [symmetric] map_append
      kind_moves_pos [of CV "cont ?s" 0] kind_moves_pos [of DIV "dint ?s" "0 + length (cont ?s)"]
      kind_moves_pos [of DSV "dstr ?s" "0 + length (cont ?s) + length (dint ?s)"]
      kind_moves_pos [of DRV "dreal ?s" "0 + length (cont ?s) + length (dint ?s) + length (dstr ?s)"]
    by (intro arg_cong2 [where f = append] map_cong) (auto simp: position_kind_def l dest!: pos_moves_range)
qed

lemma find_var_step_pos:
  assumes "\<forall>n \<in> set ns. 0 \<le> n \<and> n < 2 ^ 30" "e < 2 * sum_list (map nat ns)" "int off + 2 * sum_list ns < 2 ^ 62"
  shows "find_var_step ns (int (off + e)) p (int off) =
    (case pos_moves ns p ! e of (q, i) \<Rightarrow> Inr (q, i + ns ! (q - p)))"
  using assms
proof (induction ns arbitrary: e off p)
  case Nil
  then show ?case by simp
next
  case (Cons n ns)
  have n: "0 \<le> n" and m: "checked_int (2 * n) = Inr (2 * n)" and ns: "0 \<le> sum_list ns" using Cons.prems(1) by (auto simp: checked_int_def int_range_def intro: sum_list_nonneg)
  then have nx: "size_mod (int off + 2 * n) = int (off + 2 * nat n)" and small: "int off + 2 * n < 2 ^ 62"
    using Cons.prems(3) by (simp_all add: size_mod_def)
  show ?case
  proof (cases "e < 2 * nat n")
    case True
    then have "size_mod (int (off + e) - int off) = int e" "size_mod n = n" "size_mod (int e + 1) = int e + 1"
      using n small by (simp_all add: size_mod_def)
    moreover have "int e < 2 * n" using True n by linarith
    ultimately show ?thesis using True n nx
      by (simp add: m Let_def nth_append length_offsets nth_offsets)
  next
    case False
    have "find_var_step ns (int ((off + 2 * nat n) + (e - 2 * nat n))) (Suc p) (int (off + 2 * nat n)) =
        (case pos_moves ns (Suc p) ! (e - 2 * nat n) of (q, i) \<Rightarrow> Inr (q, i + ns ! (q - Suc p)))"
      by (rule Cons.IH) (use Cons.prems n False in auto)
    moreover obtain q i where qi: "pos_moves ns (Suc p) ! (e - 2 * nat n) = (q, i)" by force
    moreover have "(q, i) \<in> set (pos_moves ns (Suc p))"
      using Cons.prems False nth_mem [of "e - 2 * nat n" "pos_moves ns (Suc p)"] by (simp add: length_pos_moves qi)
    then have "Suc p \<le> q" by (auto dest: pos_moves_range)
    then have "(n # ns) ! (q - p) = ns ! (q - Suc p)" by (simp add: nth_Cons')
    moreover have "\<not> int e < 2 * n" using False n by linarith
    ultimately show ?thesis using False n nx by (simp add: m Let_def nth_append length_offsets)
  qed
qed
lemma distinct_pos_moves: "distinct (pos_moves ns p)"
proof (induction ns arbitrary: p)
  case (Cons n ns)
  have "distinct (offsets n)" by (simp add: offsets_def)
  then show ?case using Cons.IH [of "Suc p"] by (auto simp: distinct_map inj_on_def dest!: pos_moves_range)
qed simp

text \<open>A step changes one variable.\<close>

lemma kind_step_other:
  assumes "kind_step M st K k i v = Inr w" "q \<noteq> (K, k)"
  shows "var_value w q = var_value v q"
proof -
  have puti: "vec_put xs k y = Inr ys \<Longrightarrow> l \<noteq> k \<Longrightarrow> vec_at ys l = vec_at xs l" for xs ys l and y :: int
    by (auto simp: vec_put_def vec_at_def split: if_splits)
  have puts: "vec_put xs k y = Inr ys \<Longrightarrow> l \<noteq> k \<Longrightarrow> vec_at ys l = vec_at xs l" for xs ys l and y :: string
    by (auto simp: vec_put_def vec_at_def split: if_splits)
  have putr: "vec_put xs k y = Inr ys \<Longrightarrow> l \<noteq> k \<Longrightarrow> vec_at ys l = vec_at xs l" for xs ys l and y :: 'a
    by (auto simp: vec_put_def vec_at_def split: if_splits)
  obtain Q l where q: "q = (Q, l)" by force
  show ?thesis
    using assms q
    by (cases K; cases Q)
      (auto simp: c_step_def dsi_step_def dri_step_def dss_step_def dsr_step_def var_value_def result_simps
        dest!: puti puts putr split: if_splits)
qed

lemma kind_step_value:
  assumes "kind_step M st K k i v = Inr w"
  shows "is_ok (var_value w (K, k))"
  using assms
  by (cases K) (auto simp: c_step_def dsi_step_def dri_step_def dss_step_def dsr_step_def var_value_def result_simps vec_put_def
    vec_at_def split: if_splits)

lemma current_point_sized: "model_ok M n \<Longrightarrow> sized n (current_variables M)"
  by (simp add: model_ok_def)

lemma center_current: "center (st\<lparr>initialPoint := current_point M\<rparr>) = current_variables M"
  by (cases "current_variables M") (simp add: center_def current_point_def Let_def)

lemma resize_fresh:
  assumes "allVariables st = []"
  shows "allVariables (resize_variables v st) = replicate (numEvals st) v"
  using assms by (simp add: resize_variables_def vec_resize_def)

lemma join_kinds_length: "steps_sized st \<Longrightarrow> length (join_kinds (stepsByKind st)) = num_vars st"
  by (simp add: steps_sized_def Let_def join_kinds_def num_vars_def)

lemma centered_run:
  assumes "ParamStudy dbl_inf M sp st0 = Inr st" "methodName st0 = CENTERED_PARAMETER_STUDY" "allVariables st0 = []"
    and "model_ok M (numVars st0)" "\<forall>n \<in> set (stepsPerVariable st). 0 \<le> n" "sum_list (stepsPerVariable st) < 2 ^ 60"
    and "pre_run increment M st = Inr st'"
  shows "\<exists>ys. collect (move_point M st') (study_moves st) = Inr ys \<and> allVariables st' = current_variables M # ys \<and>
    center st' = current_variables M \<and> Suc (length ys) = numEvals st"
proof -
  note c = construct_centered_establishes [OF assms(1,2)]
  let ?st = "resize_variables (current_variables M) (st\<lparr>initialPoint := current_point M\<rparr>)"
  have ev: "numEvals st = Suc (length (study_moves st))"
  proof -
    have "sum_list (map (\<lambda>x. nat \<bar>x\<bar>) (stepsPerVariable st)) = sum_list (map nat (stepsPerVariable st))"
      by (rule arg_cong [where f = sum_list], rule map_cong) (use assms(5) in auto)
    moreover have "Suc (2 * sum_list (map nat (stepsPerVariable st))) < 2 ^ 64"
      using assms(6) unfolding sum_list_nat [OF assms(5), symmetric] by simp
    ultimately show ?thesis using c by (simp add: study_moves_pos length_pos_moves)
  qed
  have all: "allVariables ?st = replicate (numEvals st) (current_variables M)"
    using resize_fresh [of "st\<lparr>initialPoint := current_point M\<rparr>"] c assms(3) by simp
  have f: "numVars ?st = numVars st0" "study_moves ?st = study_moves st" "steps_sized ?st" "methodName st = CENTERED_PARAMETER_STUDY"
    "center ?st = current_variables M" "sized (numVars st0) (current_variables M)"
    using c assms(4) center_current [of M st]
    by (simp_all add: resize_variables_def study_moves_def steps_sized_def Let_def center_def current_point_sized)
  have "pre_run increment M st = centered_loop M ?st" using f by (simp add: pre_run_def Let_def resize_variables_def)
  also have "\<dots> = rbind (collect (move_point M ?st) (study_moves st)) (\<lambda>ys. Inr (?st\<lparr>allVariables := current_variables M # ys\<rparr>))"
    using centered_loop_points [of ?st M] f all ev assms(4) by (simp add: all_sized_def)
  finally have run: "pre_run increment M st = \<dots>" .
  obtain ys where ys: "collect (move_point M ?st) (study_moves st) = Inr ys"
    and st': "st' = ?st\<lparr>allVariables := current_variables M # ys\<rparr>"
    using assms(7) [unfolded run] by (auto simp: rbind_Inr_iff)
  have "kind_step M st' K k i v = kind_step M ?st K k i v" for K k i v
    unfolding st' by (cases K) (simp_all add: c_step_def dsi_step_def dri_step_def dss_step_def dsr_step_def)
  then have "move_point M st' = move_point M ?st"
    using st' f(5) by (simp add: fun_eq_iff move_point_def center_def)
  then show ?thesis using ys st' f(5) ev collect_length [OF ys] by (simp add: center_def)
qed
lemma pos_moves_member: "(q, i) \<in> set (pos_moves ns p) \<Longrightarrow> i \<in> set (offsets (ns ! (q - p)))"
proof (induction ns arbitrary: p)
  case (Cons n ns)
  then show ?case using pos_moves_range [of q i ns "Suc p"] by (auto simp: nth_Cons')
qed simp

lemma slice_index:
  fixes st :: "'r study"
  defines "ns \<equiv> stepsPerVariable st"
  assumes "\<forall>n \<in> set ns. 0 \<le> n \<and> n < 2 ^ 30" "sum_list ns < 2 ^ 60" "length ns = num_vars st" and d: "d < length (pos_moves ns 0)"
  shows "\<exists>q i. pos_moves ns 0 ! d = (q, i) \<and> index_to_var_step st (Suc d) = Inr (q, i + ns ! q) \<and> q < num_vars st \<and>
    i \<in> set (offsets (ns ! q))"
proof -
  obtain q i where qi: "pos_moves ns 0 ! d = (q, i)" by force
  have m: "(q, i) \<in> set (pos_moves ns 0)" using nth_mem [OF d] qi by simp
  have "int 1 + 2 * sum_list ns < 2 ^ 62" using assms(3) by simp
  then have "find_var_step ns (int (1 + d)) 0 (int 1) = (case pos_moves ns 0 ! d of (q, i) \<Rightarrow> Inr (q, i + ns ! (q - 0)))"
    by (intro find_var_step_pos) (use assms(2) d in \<open>simp_all add: length_pos_moves\<close>)
  moreover have "q < num_vars st" using pos_moves_range [OF m] assms(4) by simp
  moreover have "i \<in> set (offsets (ns ! q))" using pos_moves_member [OF m] by simp
  ultimately show ?thesis using qi by (simp add: index_to_var_step_def ns_def)
qed

lemma slice_index_inj:
  fixes st :: "'r study"
  defines "ns \<equiv> stepsPerVariable st"
  assumes "\<forall>n \<in> set ns. 0 \<le> n \<and> n < 2 ^ 30" "sum_list ns < 2 ^ 60" "length ns = num_vars st"
  shows "inj_on (index_to_var_step st) {1..<Suc (length (pos_moves ns 0))}"
proof (rule inj_onI)
  fix a b
  assume a: "a \<in> {1..<Suc (length (pos_moves ns 0))}" and b: "b \<in> {1..<Suc (length (pos_moves ns 0))}"
    and e: "index_to_var_step st a = index_to_var_step st b"
  obtain d f where df: "a = Suc d" "b = Suc f" "d < length (pos_moves ns 0)" "f < length (pos_moves ns 0)"
    using a b by (cases a; cases b) auto
  then have "pos_moves ns 0 ! d = pos_moves ns 0 ! f"
    using slice_index [OF assms(2-4) [unfolded ns_def], of d] slice_index [OF assms(2-4) [unfolded ns_def], of f] e by (auto simp: ns_def)
  then show "a = b" using df distinct_pos_moves [of ns 0] by (simp add: nth_eq_iff_index_eq)
qed

text \<open>C12: the evaluations of a centered study, run for the first time, with step counts that are not negative
  and can be doubled in an \<^verbatim>\<open>int\<close>.  Construction and run agree on their number.  The first evaluation is
  the current point of the model; evaluation \<open>e\<close> is the current point with one variable stepped.  The archive
  finds this variable and the number of steps from the index alone: it stores the value of that variable, and of
  no other, in the slot that lies as many places from the middle of the slice as the variable was stepped, and
  no two evaluations share a slot.
\<close>

theorem centered_study_fills_slices:
  fixes dbl_inf :: "'r::floor_ceiling"
  assumes "ParamStudy dbl_inf M sp st0 = Inr st" "methodName st0 = CENTERED_PARAMETER_STUDY" "allVariables st0 = []"
    and "model_ok M (numVars st0)" "\<forall>n \<in> set (stepsPerVariable st). 0 \<le> n \<and> n < 2 ^ 30" "sum_list (stepsPerVariable st) < 2 ^ 60"
    and "pre_run increment M st = Inr st'"
  shows "length (allVariables st') = numEvals st \<and> allVariables st' ! 0 = current_variables M \<and>
    inj_on (index_to_var_step st) {1..<numEvals st} \<and>
    (\<forall>e. 0 < e \<and> e < numEvals st \<longrightarrow> (\<exists>p slot v. index_to_var_step st e = Inr (p, slot) \<and> p < num_vars st \<and>
      0 \<le> slot \<and> slot \<le> 2 * stepsPerVariable st ! p \<and> slot \<noteq> stepsPerVariable st ! p \<and>
      (case position_kind (numVars st) p of (K, k) \<Rightarrow>
        kind_step M st' K k (slot - stepsPerVariable st ! p) (current_variables M) = Inr (allVariables st' ! e) \<and>
        (\<forall>q. q \<noteq> (K, k) \<longrightarrow> var_value (allVariables st' ! e) q = var_value (current_variables M) q) \<and>
        archive_cps_vars st (allVariables st' ! e) e = Inr [(K, k, slot, v)] \<and> var_value (allVariables st' ! e) (K, k) = Inr v)))"
proof -
  let ?ns = "stepsPerVariable st"
  note c = construct_centered_establishes [OF assms(1,2)]
  obtain ys where ys: "collect (move_point M st') (study_moves st) = Inr ys" and all: "allVariables st' = current_variables M # ys"
    and cen: "center st' = current_variables M" and ev: "Suc (length ys) = numEvals st"
    using centered_run [OF assms(1-4) _ assms(6,7)] assms(5) by auto
  have mv: "study_moves st = map (\<lambda>(q, i). (fst (position_kind (numVars st) q), snd (position_kind (numVars st) q), i)) (pos_moves ?ns 0)"
    using c by (simp add: study_moves_pos)
  have len: "length (pos_moves ?ns 0) = length ys" using collect_length [OF ys] mv by simp
  have l: "length ?ns = num_vars st" using c by (simp add: join_kinds_length)
  note idx = slice_index [OF assms(5,6) l, unfolded len]
  have inj: "inj_on (index_to_var_step st) {1..<numEvals st}"
    using slice_index_inj [OF assms(5,6) l] ev len by simp
  have each: "\<exists>p slot v. index_to_var_step st e = Inr (p, slot) \<and> p < num_vars st \<and>
      0 \<le> slot \<and> slot \<le> 2 * ?ns ! p \<and> slot \<noteq> ?ns ! p \<and>
      (case position_kind (numVars st) p of (K, k) \<Rightarrow>
        kind_step M st' K k (slot - ?ns ! p) (current_variables M) = Inr (allVariables st' ! e) \<and>
        (\<forall>q. q \<noteq> (K, k) \<longrightarrow> var_value (allVariables st' ! e) q = var_value (current_variables M) q) \<and>
        archive_cps_vars st (allVariables st' ! e) e = Inr [(K, k, slot, v)] \<and> var_value (allVariables st' ! e) (K, k) = Inr v)"
    if e: "0 < e" "e < numEvals st" for e
  proof -
    obtain d where d: "e = Suc d" "d < length ys" using e ev by (cases e) auto
    obtain q i where qi: "pos_moves ?ns 0 ! d = (q, i)" "index_to_var_step st (Suc d) = Inr (q, i + ?ns ! q)" "q < num_vars st"
      and i: "i \<in> set (offsets (?ns ! q))" using idx [OF d(2)] by auto
    obtain K k where Kk: "position_kind (numVars st) q = (K, k)" by force
    have "study_moves st ! d = (K, k, i)" using mv qi d len Kk by simp
    then have step: "kind_step M st' K k i (current_variables M) = Inr (ys ! d)"
      using collect_nth [OF ys, of d] collect_length [OF ys] d cen by (simp add: move_point_def)
    obtain v where v: "var_value (ys ! d) (K, k) = Inr v" using kind_step_value [OF step] by (cases "var_value (ys ! d) (K, k)") auto
    show ?thesis
      using d qi i step v Kk all kind_step_other [OF step]
      by (intro exI [of _ q] exI [of _ "i + ?ns ! q"] exI [of _ v]) (auto simp: offsets_def archive_cps_vars_def)
  qed
  show ?thesis using each inj all ev by simp
qed
text \<open>A model with a continuous variable, an integer range and a set of strings, all of them design variables.\<close>

definition study_model :: "rat iterated_model" where
  "study_model = \<lparr>current_variables = \<lparr>cvars = [1 / 2], divars = [3], dsvars = [''b''], drvars = []\<rparr>,
     active_components_totals = \<lparr>total_design = (1, 1, 1, 0), total_aleatory = zero_counts, total_epistemic = zero_counts,
       total_state = zero_counts\<rparr>,
     continuous_lower_bounds = [0], continuous_upper_bounds = [1], discrete_int_lower_bounds = [0], discrete_int_upper_bounds = [6],
     discrete_real_lower_bounds = [], discrete_real_upper_bounds = [], discrete_int_sets = [False], discrete_set_int_values = [],
     discrete_set_string_values = [[''a'', ''b'', ''c'']], discrete_set_real_values = []\<rparr>"

definition no_points :: "('a list, 'b list, 'c list, 'd list) by_kind" where
  "no_points = \<lparr>cont = [], dint = [], dstr = [], dreal = []\<rparr>"

definition base_study :: "study_method \<Rightarrow> rat study" where
  "base_study m = \<lparr>methodName = m, numVars = \<lparr>cont = 1, dint = 1, dstr = 1, dreal = 0\<rparr>, numEvals = 0, listPoints = no_points,
     initialPoint = no_points, finalPoint = no_points, stepVector = no_points, numSteps = 0, stepsPerVariable = [],
     stepsByKind = no_points, varPartitions = no_points, allVariables = [], maxEvalConcurrency = 1\<rparr>"

definition study_example_spec :: "rat study_spec" where
  "study_example_spec = \<lparr>spec_list_of_points = [], spec_import = (0, no_points), spec_step_vector = [1 / 4, 1, 1], spec_final_point = [],
     spec_num_steps = 2, spec_steps_per_variable = [2, 1, 1], spec_partitions = [2, 3, 1], command_line_check = False\<rparr>"

text \<open>The increment of a multidimensional index: the first index counts fastest.\<close>

fun odometer :: "nat list \<Rightarrow> nat list \<Rightarrow> nat list" where
  "odometer (i # is) (l # ls) = (if i < l then Suc i # is else 0 # odometer is ls)"
| "odometer is ls = is"

definition centered_example :: "rat study" where
  "centered_example = projr (ParamStudy 1000 study_model study_example_spec (base_study CENTERED_PARAMETER_STUDY))"

definition centered_example_run :: "rat study" where
  "centered_example_run = projr (pre_run odometer study_model centered_example)"

lemma is_ok_projr: "is_ok x \<Longrightarrow> x = Inr (projr x)"
  by (cases x) simp_all

lemma centered_example_eval:
  "ParamStudy 1000 study_model study_example_spec (base_study CENTERED_PARAMETER_STUDY) = Inr centered_example"
  "pre_run odometer study_model centered_example = Inr centered_example_run"
proof -
  have "is_ok (ParamStudy 1000 study_model study_example_spec (base_study CENTERED_PARAMETER_STUDY))" by code_simp
  then show "ParamStudy 1000 study_model study_example_spec (base_study CENTERED_PARAMETER_STUDY) = Inr centered_example"
    by (simp add: centered_example_def is_ok_projr)
  have "is_ok (pre_run odometer study_model centered_example)" by code_simp
  then show "pre_run odometer study_model centered_example = Inr centered_example_run"
    by (simp add: centered_example_run_def is_ok_projr)
qed

lemma centered_example_facts:
  "model_ok study_model (numVars (base_study CENTERED_PARAMETER_STUDY))" "stepsPerVariable centered_example = [2, 1, 1]"
  "numEvals centered_example = 9"
  by code_simp+

lemma centered_study_fills_slices_witness:
  "length (allVariables centered_example_run) = 9 \<and> inj_on (index_to_var_step centered_example) {1..<9} \<and>
   (\<exists>p slot. index_to_var_step centered_example 4 = Inr (p, slot) \<and> p < num_vars centered_example)"
proof -
  have h: "methodName (base_study CENTERED_PARAMETER_STUDY) = CENTERED_PARAMETER_STUDY"
    "allVariables (base_study CENTERED_PARAMETER_STUDY) = []" by (simp_all add: base_study_def)
  have n: "\<forall>n \<in> set (stepsPerVariable centered_example). 0 \<le> n \<and> n < 2 ^ 30" "sum_list (stepsPerVariable centered_example) < 2 ^ 60"
    by (simp_all add: centered_example_facts(2))
  note w = centered_study_fills_slices [OF centered_example_eval(1) h centered_example_facts(1) n centered_example_eval(2),
    unfolded centered_example_facts(3)]
  have e: "0 < (4::nat) \<and> 4 < (9::nat)" by simp
  show ?thesis
    using w [THEN conjunct1] w [THEN conjunct2, THEN conjunct2, THEN conjunct1]
      w [THEN conjunct2, THEN conjunct2, THEN conjunct2, rule_format, OF e] by blast
qed

end
