(* ===== verification/Grid_Study.thy ===== *)
theory Grid_Study
  imports Study_Properties
begin

text \<open>
  Multidimensional and vector studies: the grid and the line of points in closed form.  The increment of a
  multidimensional index is a parameter; its contract is that it counts in mixed radix, first index fastest.
\<close>

section \<open>Counting in mixed radix\<close>

text \<open>The number that an index stands for, the limit of each digit being included.\<close>

fun radix_value :: "nat list \<Rightarrow> nat list \<Rightarrow> nat" where
  "radix_value (l # ls) (t # ts) = t + Suc l * radix_value ls ts"
| "radix_value ls ts = 0"

definition grid_size :: "nat list \<Rightarrow> nat" where
  "grid_size limits = prod_list (map Suc limits)"

definition counts_up :: "(nat list \<Rightarrow> nat list \<Rightarrow> nat list) \<Rightarrow> bool" where
  "counts_up increment \<longleftrightarrow> (\<forall>limits t. list_all2 (\<le>) t limits \<and> Suc (radix_value limits t) < grid_size limits \<longrightarrow>
     list_all2 (\<le>) (increment t limits) limits \<and> radix_value limits (increment t limits) = Suc (radix_value limits t))"

lemma radix_value_less: "list_all2 (\<le>) t limits \<Longrightarrow> radix_value limits t < grid_size limits"
proof (induction rule: list_all2_induct)
  case Nil
  show ?case by (simp add: grid_size_def)
next
  case (Cons t ts l ls)
  then have "t + Suc l * radix_value ls ts \<le> l + Suc l * (grid_size ls - 1)"
    by (intro add_mono mult_le_mono) simp_all
  also have "\<dots> < Suc l * grid_size ls" using Cons.IH by (cases "grid_size ls") simp_all
  finally show ?case by (simp add: grid_size_def)
qed

lemma radix_value_inj: "list_all2 (\<le>) t limits \<Longrightarrow> list_all2 (\<le>) u limits \<Longrightarrow> radix_value limits t = radix_value limits u \<Longrightarrow> t = u"
proof (induction t limits arbitrary: u rule: list_all2_induct)
  case Nil
  then show ?case by simp
next
  case (Cons t ts l ls)
  obtain v vs where u: "u = v # vs" "v \<le> l" "list_all2 (\<le>) vs ls" using Cons.prems(1) by (auto simp: list_all2_Cons2)
  have e: "t + Suc l * radix_value ls ts = v + Suc l * radix_value ls vs" using Cons.prems(2) u by simp
  have "t mod Suc l = v mod Suc l" using arg_cong [OF e, of "\<lambda>x. x mod Suc l"] by (simp only: mod_mult_self2)
  then have tv: "t = v" using Cons.hyps(1) u(2) by simp
  then have "radix_value ls ts = radix_value ls vs" using e by (simp only: add_left_cancel Suc_mult_cancel1)
  then show ?case using Cons.IH [of vs] u tv by simp
qed

lemma radix_value_zero: "radix_value limits (replicate (length limits) 0) = 0"
  by (induction limits) simp_all

lemma nth_index_counts:
  assumes "counts_up increment" "i < grid_size limits"
  shows "list_all2 (\<le>) (nth_index increment limits i) limits \<and> radix_value limits (nth_index increment limits i) = i"
  using assms(2)
proof (induction i)
  case 0
  then show ?case by (auto simp: nth_index_def radix_value_zero list_all2_conv_all_nth)
next
  case (Suc i)
  then show ?case using assms(1) by (simp add: counts_up_def nth_index_def)
qed

lemma finite_grid: "finite {t. list_all2 (\<le>) t (limits :: nat list)}"
proof (rule finite_imageD)
  show "finite (radix_value limits ` {t. list_all2 (\<le>) t limits})"
    by (rule finite_subset [of _ "{..<grid_size limits}"]) (auto simp: radix_value_less)
  show "inj_on (radix_value limits) {t. list_all2 (\<le>) t limits}" by (auto intro!: inj_onI radix_value_inj)
qed

text \<open>The indices of all evaluations are the points of the grid, each once.\<close>

lemma indices_enumerate_grid:
  assumes "counts_up increment"
  shows "distinct (map (nth_index increment limits) [0..<grid_size limits]) \<and>
    set (map (nth_index increment limits) [0..<grid_size limits]) = {t. list_all2 (\<le>) t limits}"
proof
  let ?ts = "map (nth_index increment limits) [0..<grid_size limits]"
  show d: "distinct ?ts"
    unfolding distinct_map by (auto intro!: inj_onI) (metis nth_index_counts [OF assms])
  have "card {t. list_all2 (\<le>) t limits} \<le> card {..<grid_size limits}"
    by (rule card_inj_on_le [of "radix_value limits"]) (auto intro!: inj_onI radix_value_inj simp: radix_value_less)
  moreover have "card (set ?ts) = grid_size limits" using distinct_card [OF d] by simp
  moreover have "set ?ts \<subseteq> {t. list_all2 (\<le>) t limits}" using nth_index_counts [OF assms] by auto
  ultimately show "set ?ts = {t. list_all2 (\<le>) t limits}"
    by (intro card_seteq) (simp_all add: finite_grid)
qed

lemma odometer_counts_up: "counts_up odometer"
proof -
  have "list_all2 (\<le>) (odometer t limits) limits \<and> radix_value limits (odometer t limits) = Suc (radix_value limits t)"
    if "list_all2 (\<le>) t limits" "Suc (radix_value limits t) < grid_size limits" for t limits
    using that
  proof (induction t limits rule: list_all2_induct)
    case Nil
    then show ?case by (simp add: grid_size_def)
  next
    case (Cons t ts l ls)
    show ?case
    proof (cases "t < l")
      case True
      then show ?thesis using Cons.hyps by simp
    next
      case False
      then have t: "t = l" using Cons.hyps(1) by simp
      then have "Suc l * Suc (radix_value ls ts) < Suc l * grid_size ls" using Cons.prems by (simp add: grid_size_def)
      then have "Suc (radix_value ls ts) < grid_size ls" by (simp only: mult_less_cancel1)
      then show ?thesis using Cons.IH t by simp
    qed
  qed
  then show ?thesis by (simp add: counts_up_def)
qed
section \<open>Steps in a set and in a range\<close>

lemma as_int_small: "int_range x \<Longrightarrow> as_int x = x"
  by (simp add: int_range_def as_int_def)

lemma set_value_to_index_Some: "set_value_to_index v xs = Some k \<Longrightarrow> k < length xs \<and> xs ! k = v"
  by (induction xs arbitrary: k) (auto split: if_splits)

lemma set_value_to_index_member: "v \<in> set xs \<Longrightarrow> \<exists>k. set_value_to_index v xs = Some k"
  by (induction xs) auto

lemma set_step_at:
  assumes "j < length initial" "j < length steps" "set_value_to_index (initial ! j) vals = Some k"
    and "0 \<le> int k + i * steps ! j" "int k + i * steps ! j < int (length vals)" "length vals < 2 ^ 31"
  shows "set_step initial steps j i vals = Inr (vals ! nat (int k + i * steps ! j))"
proof -
  have k: "k < length vals" using set_value_to_index_Some [OF assms(3)] by simp
  have s: "int (length vals) < 2 ^ 31" using assms(6) by simp
  have "int_range (i * steps ! j)" "int_range (int k + i * steps ! j)"
    using assms(4,5) s k by (auto simp: int_range_def)
  then show ?thesis using assms by (simp add: set_step_def vec_at_ok checked_int_def as_int_small set_index_to_value_def)
qed

text \<open>An integer between zero and an admissible difference.\<close>

lemma int_range_scaled:
  assumes "int_range r" "0 \<le> i" "i \<le> n" "n * d = r"
  shows "int_range (i * d)"
proof (cases "0 \<le> d")
  case True
  then have "0 \<le> i * d" "i * d \<le> n * d" using assms by (auto intro: mult_right_mono)
  then show ?thesis using assms(1,4) by (simp add: int_range_def)
next
  case False
  then have "i * d \<le> 0" "n * d \<le> i * d" using assms by (auto intro: mult_right_mono_neg mult_nonneg_nonpos)
  then show ?thesis using assms(1,4) by (simp add: int_range_def)
qed

lemma between_scaled:
  fixes x i n d :: int
  assumes "0 \<le> i" "i \<le> n"
  shows "min x (x + n * d) \<le> x + i * d" "x + i * d \<le> max x (x + n * d)"
proof -
  have "0 \<le> d \<Longrightarrow> 0 \<le> i * d \<and> i * d \<le> n * d" using assms by (auto intro: mult_right_mono)
  moreover have "d \<le> 0 \<Longrightarrow> i * d \<le> 0 \<and> n * d \<le> i * d" using assms by (auto intro: mult_right_mono_neg mult_nonneg_nonpos)
  ultimately show "min x (x + n * d) \<le> x + i * d" "x + i * d \<le> max x (x + n * d)" by linarith+
qed

lemma range_value_at:
  assumes "j < length (dint (initialPoint st))" "j < length (dint (stepVector st))" "dint (initialPoint st) ! j = x" "dint (stepVector st) ! j = d"
    and "int_range x" "int_range (x + n * d)" "int_range (n * d)" "0 \<le> i" "i \<le> n"
  shows "range_value st j i = Inr (x + i * d)"
proof -
  have "int_range (i * d)" using int_range_scaled [OF assms(7-9)] by simp
  moreover have "int_range (x + i * d)" using between_scaled [OF assms(8,9), of x d] assms(5,6) by (auto simp: int_range_def)
  ultimately show ?thesis using assms by (simp add: range_value_def vec_at_ok checked_int_def)
qed

section \<open>The grid\<close>

definition bounds_ok :: "'r iterated_model \<Rightarrow> kind_counts \<Rightarrow> bool" where
  "bounds_ok M n \<longleftrightarrow> length (continuous_lower_bounds M) = cont n \<and> length (continuous_upper_bounds M) = cont n \<and>
     length (discrete_int_lower_bounds M) = dint n \<and> length (discrete_int_upper_bounds M) = dint n \<and>
     length (discrete_real_lower_bounds M) = dreal n \<and> length (discrete_real_upper_bounds M) = dreal n"

text \<open>A set that can be divided into parts: it is not empty, and the parts have an equal number of values.\<close>

definition divides_set :: "nat \<Rightarrow> 'a \<Rightarrow> 'a list \<Rightarrow> bool" where
  "divides_set part cur vals \<longleftrightarrow> length vals < 2 ^ 31 \<and> (if part = 0 then cur \<in> set vals else vals \<noteq> [] \<and> part dvd length vals - 1)"

definition set_grid :: "nat \<Rightarrow> 'a \<Rightarrow> 'a list \<Rightarrow> nat \<Rightarrow> 'a" where
  "set_grid part cur vals k = (if part = 0 then cur else vals ! (k * ((length vals - 1) div part)))"

text \<open>The set of the \<open>j\<close>-th integer variable.\<close>

definition int_set :: "'r iterated_model \<Rightarrow> nat \<Rightarrow> int list" where
  "int_set M j = discrete_set_int_values M ! set_rank M j"

definition divides_range :: "nat \<Rightarrow> int \<Rightarrow> int \<Rightarrow> int \<Rightarrow> bool" where
  "divides_range part cur l u \<longleftrightarrow>
     (if part = 0 then int_range cur else int_range l \<and> int_range u \<and> int_range (u - l) \<and> int part dvd u - l)"

definition grid_ok :: "'r iterated_model \<Rightarrow> (nat list, nat list, nat list, nat list) by_kind \<Rightarrow> kind_counts \<Rightarrow> bool" where
  "grid_ok M P n \<longleftrightarrow>
     (\<forall>j<dint n. if discrete_int_sets M ! j
        then divides_set (dint P ! j) (divars (current_variables M) ! j) (int_set M j) \<and>
          (dint P ! j \<noteq> 0 \<longrightarrow> discrete_int_lower_bounds M ! j = hd (int_set M j))
        else divides_range (dint P ! j) (divars (current_variables M) ! j) (discrete_int_lower_bounds M ! j) (discrete_int_upper_bounds M ! j)) \<and>
     (\<forall>j<dstr n. divides_set (dstr P ! j) (dsvars (current_variables M) ! j) (discrete_set_string_values M ! j)) \<and>
     (\<forall>j<dreal n. divides_set (dreal P ! j) (drvars (current_variables M) ! j) (discrete_set_real_values M ! j) \<and>
        (dreal P ! j \<noteq> 0 \<longrightarrow> discrete_real_lower_bounds M ! j = hd (discrete_set_real_values M ! j)))"

definition cont_grid :: "'r::field iterated_model \<Rightarrow> nat \<Rightarrow> nat \<Rightarrow> nat \<Rightarrow> 'r" where
  "cont_grid M part j k = (if part = 0 then cvars (current_variables M) ! j
     else continuous_lower_bounds M ! j + of_nat k * ((continuous_upper_bounds M ! j - continuous_lower_bounds M ! j) / of_nat part))"

definition int_grid :: "'r iterated_model \<Rightarrow> nat \<Rightarrow> nat \<Rightarrow> nat \<Rightarrow> int" where
  "int_grid M part j k =
     (if discrete_int_sets M ! j then set_grid part (divars (current_variables M) ! j) (int_set M j) k
      else if part = 0 then divars (current_variables M) ! j
      else discrete_int_lower_bounds M ! j + int k * ((discrete_int_upper_bounds M ! j - discrete_int_lower_bounds M ! j) div int part))"

text \<open>The point of the grid with the given index.\<close>

definition grid_point :: "'r::field iterated_model \<Rightarrow> (nat list, nat list, nat list, nat list) by_kind \<Rightarrow> kind_counts \<Rightarrow> nat list \<Rightarrow> 'r active_vars" where
  "grid_point M P n t =
    \<lparr>cvars = map (\<lambda>j. cont_grid M (cont P ! j) j (t ! j)) [0..<cont n],
     divars = map (\<lambda>j. int_grid M (dint P ! j) j (t ! (cont n + j))) [0..<dint n],
     dsvars = map (\<lambda>j. set_grid (dstr P ! j) (dsvars (current_variables M) ! j) (discrete_set_string_values M ! j) (t ! (cont n + dint n + j))) [0..<dstr n],
     drvars = map (\<lambda>j. set_grid (dreal P ! j) (drvars (current_variables M) ! j) (discrete_set_real_values M ! j) (t ! (cont n + dint n + dstr n + j))) [0..<dreal n]\<rparr>"
text \<open>Start and stride of a set and of an integer variable under partition.\<close>

definition set_start :: "nat \<Rightarrow> 'a \<Rightarrow> 'a list \<Rightarrow> 'a" where
  "set_start part cur vals = (if part = 0 then cur else hd vals)"

definition set_stride :: "nat \<Rightarrow> 'a list \<Rightarrow> int" where
  "set_stride part vals = (if part = 0 then 0 else int ((length vals - 1) div part))"

lemma set_step_grid:
  assumes "divides_set part cur vals" "k \<le> part" "j < length initial" "j < length steps"
    and "initial ! j = set_start part cur vals" "steps ! j = set_stride part vals"
  shows "set_step initial steps j (int k) vals = Inr (set_grid part cur vals k)"
proof (cases "part = 0")
  case True
  then obtain i where i: "set_value_to_index cur vals = Some i"
    using assms(1) set_value_to_index_member [of cur vals] by (auto simp: divides_set_def)
  then show ?thesis using set_step_at [OF assms(3,4), of vals i "int k"] set_value_to_index_Some [OF i] assms True
    by (simp add: set_start_def set_stride_def set_grid_def divides_set_def)
next
  case False
  then have v: "vals \<noteq> []" "part dvd length vals - 1" "length vals < 2 ^ 31" using assms(1) by (simp_all add: divides_set_def)
  then have i: "set_value_to_index (hd vals) vals = Some 0" by (cases vals) auto
  have "k * ((length vals - 1) div part) \<le> part * ((length vals - 1) div part)" using assms(2) by (rule mult_le_mono1)
  also have "\<dots> = length vals - 1" using v(2) by simp
  also have "\<dots> < length vals" using v(1) by simp
  finally have le: "k * ((length vals - 1) div part) < length vals" .
  have e: "int 0 + int k * set_stride part vals = int (k * ((length vals - 1) div part))" using False by (simp add: set_stride_def)
  have h: "set_value_to_index (initial ! j) vals = Some 0" using i assms(5) False by (simp add: set_start_def)
  show ?thesis
    using set_step_at [OF assms(3,4) h, of "int k"] v le False unfolding assms(6) e
    by (simp only: nat_int) (simp add: set_grid_def)
qed

lemma stride_step:
  assumes "divides_set part cur vals" "part \<noteq> 0"
  shows "integer_step (as_int (int (length vals) - 1)) (int part) = Inr (set_stride part vals)"
proof -
  have v: "vals \<noteq> []" "part dvd length vals - 1" "length vals < 2 ^ 31" using assms by (simp_all add: divides_set_def)
  then have e: "int (length vals) - 1 = int (length vals - 1)" by (cases vals) simp_all
  have "int (length vals) < 2 ^ 31" using v(3) by simp
  then have "int_range (int (length vals) - 1)" by (simp add: int_range_def)
  then have "as_int (int (length vals) - 1) = int (length vals - 1)" using as_int_small e by metis
  moreover have "int part dvd int (length vals - 1)" using v(2) by (simp only: of_nat_dvd_iff)
  ultimately show ?thesis using assms(2) by (simp add: integer_step_def set_stride_def zdiv_int dvd_eq_mod_eq_0)
qed

definition int_start :: "'r iterated_model \<Rightarrow> nat \<Rightarrow> nat \<Rightarrow> int" where
  "int_start M part j = (if part = 0 then divars (current_variables M) ! j else discrete_int_lower_bounds M ! j)"

definition int_stride :: "'r iterated_model \<Rightarrow> nat \<Rightarrow> nat \<Rightarrow> int" where
  "int_stride M part j =
    (if part = 0 then 0 else if discrete_int_sets M ! j then set_stride part (int_set M j)
     else (discrete_int_upper_bounds M ! j - discrete_int_lower_bounds M ! j) div int part)"

definition parts_sized :: "(nat list, nat list, nat list, nat list) by_kind \<Rightarrow> kind_counts \<Rightarrow> bool" where
  "parts_sized P n \<longleftrightarrow> length (cont P) = cont n \<and> length (dint P) = dint n \<and> length (dstr P) = dstr n \<and> length (dreal P) = dreal n"

lemma int_set_at:
  assumes "model_ok M n" "j < dint n" "discrete_int_sets M ! j"
  shows "vec_at (discrete_set_int_values M) (set_rank M j) = Inr (int_set M j)"
  using assms set_rank_less [of j M] by (simp add: model_ok_def vec_at_ok int_set_def)

lemma partition_int_loop:
  assumes "model_ok M n" "bounds_ok M n" "grid_ok M (varPartitions st) n" "parts_sized (varPartitions st) n" "m \<le> dint n"
  shows "rfold (partition_int M st) [0..<m] ([], 0) =
    Inr (map (\<lambda>j. (int_start M (dint (varPartitions st) ! j) j, int_stride M (dint (varPartitions st) ! j) j)) [0..<m], set_rank M m)"
  using assms(5)
proof (induction m)
  case 0
  then show ?case by (simp add: set_rank_def bit_count_def)
next
  case (Suc m)
  let ?p = "dint (varPartitions st) ! m"
  have m: "m < length (discrete_int_sets M)" "m < length (dint (varPartitions st))" "m < length (discrete_int_lower_bounds M)"
    "m < length (discrete_int_upper_bounds M)" "m < length (divars (current_variables M))"
    using Suc.prems assms(1,2,4) by (simp_all add: model_ok_def bounds_ok_def parts_sized_def sized_def)
  have g: "if discrete_int_sets M ! m then divides_set ?p (divars (current_variables M) ! m) (int_set M m)
      else divides_range ?p (divars (current_variables M) ! m) (discrete_int_lower_bounds M ! m) (discrete_int_upper_bounds M ! m)"
    using assms(3) Suc.prems by (auto simp: grid_ok_def split: if_splits)
  have set_m: "discrete_int_sets M ! m \<Longrightarrow> vec_at (discrete_set_int_values M) (set_rank M m) = Inr (int_set M m)"
    using int_set_at [OF assms(1)] Suc.prems by simp
  have "partition_int M st m (es, set_rank M m) = Inr (es @ [(int_start M ?p m, int_stride M ?p m)], set_rank M (Suc m))" for es
    using m g set_m stride_step [of ?p "divars (current_variables M) ! m" "int_set M m"]
    by (auto simp: partition_int_def vec_at_ok set_rank_Suc int_start_def int_stride_def checked_int_def divides_range_def integer_step_def
        dvd_eq_mod_eq_0 split: if_splits)
  then show ?case using Suc by (simp add: rfold_snoc)
qed

lemma distribute_partitions_grid:
  assumes "model_ok M n" "bounds_ok M n" "grid_ok M P n" "parts_sized P n" "varPartitions st = P" "numVars st = n"
  shows "distribute_partitions M st = Inr (st\<lparr>
    initialPoint := \<lparr>cont = map (\<lambda>j. if cont P ! j = 0 then cvars (current_variables M) ! j else continuous_lower_bounds M ! j) [0..<cont n],
      dint = map (\<lambda>j. int_start M (dint P ! j) j) [0..<dint n],
      dstr = map (\<lambda>j. set_start (dstr P ! j) (dsvars (current_variables M) ! j) (discrete_set_string_values M ! j)) [0..<dstr n],
      dreal = map (\<lambda>j. set_start (dreal P ! j) (drvars (current_variables M) ! j) (discrete_set_real_values M ! j)) [0..<dreal n]\<rparr>,
    stepVector := \<lparr>cont = map (\<lambda>j. if cont P ! j = 0 then 0
        else (continuous_upper_bounds M ! j - continuous_lower_bounds M ! j) / of_nat (cont P ! j)) [0..<cont n],
      dint = map (\<lambda>j. int_stride M (dint P ! j) j) [0..<dint n],
      dstr = map (\<lambda>j. set_stride (dstr P ! j) (discrete_set_string_values M ! j)) [0..<dstr n],
      dreal = map (\<lambda>j. set_stride (dreal P ! j) (discrete_set_real_values M ! j)) [0..<dreal n]\<rparr>\<rparr>)"
proof -
  have l: "length (cvars (current_variables M)) = cont n" "length (dsvars (current_variables M)) = dstr n"
    "length (drvars (current_variables M)) = dreal n" "length (discrete_set_string_values M) = dstr n"
    "length (discrete_set_real_values M) = dreal n" "length (continuous_lower_bounds M) = cont n" "length (continuous_upper_bounds M) = cont n"
    "length (discrete_real_lower_bounds M) = dreal n" "length (cont P) = cont n" "length (dstr P) = dstr n" "length (dreal P) = dreal n"
    using assms by (simp_all add: model_ok_def bounds_ok_def sized_def parts_sized_def)
  have c: "collect (partition_cont M st) [0..<cont n] = Inr (map (\<lambda>j. (if cont P ! j = 0 then cvars (current_variables M) ! j
      else continuous_lower_bounds M ! j, if cont P ! j = 0 then 0
        else (continuous_upper_bounds M ! j - continuous_lower_bounds M ! j) / of_nat (cont P ! j))) [0..<cont n])"
    by (rule collect_ok) (use l assms(5) in \<open>auto simp: partition_cont_def vec_at_ok\<close>)
  have s: "collect (partition_string M st) [0..<dstr n] = Inr (map (\<lambda>j. (set_start (dstr P ! j) (dsvars (current_variables M) ! j)
      (discrete_set_string_values M ! j), set_stride (dstr P ! j) (discrete_set_string_values M ! j))) [0..<dstr n])"
  proof (rule collect_ok)
    fix j assume "j \<in> set [0..<dstr n]"
    then have "divides_set (dstr P ! j) (dsvars (current_variables M) ! j) (discrete_set_string_values M ! j)" "j < dstr n"
      using assms(3) by (simp_all add: grid_ok_def)
    then show "partition_string M st j = Inr (set_start (dstr P ! j) (dsvars (current_variables M) ! j)
      (discrete_set_string_values M ! j), set_stride (dstr P ! j) (discrete_set_string_values M ! j))"
      using l assms(5) stride_step [of "dstr P ! j" "dsvars (current_variables M) ! j" "discrete_set_string_values M ! j"]
      by (auto simp: partition_string_def vec_at_ok set_start_def set_stride_def divides_set_def hd_conv_nth)
  qed
  have d: "collect (partition_real M st) [0..<dreal n] = Inr (map (\<lambda>j. (set_start (dreal P ! j) (drvars (current_variables M) ! j)
      (discrete_set_real_values M ! j), set_stride (dreal P ! j) (discrete_set_real_values M ! j))) [0..<dreal n])"
  proof (rule collect_ok)
    fix j assume "j \<in> set [0..<dreal n]"
    then have "divides_set (dreal P ! j) (drvars (current_variables M) ! j) (discrete_set_real_values M ! j)" "j < dreal n"
      "dreal P ! j \<noteq> 0 \<longrightarrow> discrete_real_lower_bounds M ! j = hd (discrete_set_real_values M ! j)"
      using assms(3) by (simp_all add: grid_ok_def)
    then show "partition_real M st j = Inr (set_start (dreal P ! j) (drvars (current_variables M) ! j)
      (discrete_set_real_values M ! j), set_stride (dreal P ! j) (discrete_set_real_values M ! j))"
      using l assms(5) stride_step [of "dreal P ! j" "drvars (current_variables M) ! j" "discrete_set_real_values M ! j"]
      by (auto simp: partition_real_def vec_at_ok set_start_def set_stride_def)
  qed
  show ?thesis
    using c s d partition_int_loop [of M n st "dint n"] assms
    by (simp add: distribute_partitions_def Let_def comp_def)
qed
lemma index_digits:
  assumes "parts_sized P n" "list_all2 (\<le>) t (join_kinds P)"
  shows "length t = cont n + dint n + dstr n + dreal n"
    and "j < cont n \<Longrightarrow> t ! j \<le> cont P ! j" and "j < dint n \<Longrightarrow> t ! (cont n + j) \<le> dint P ! j"
    and "j < dstr n \<Longrightarrow> t ! (cont n + dint n + j) \<le> dstr P ! j"
    and "j < dreal n \<Longrightarrow> t ! (cont n + dint n + dstr n + j) \<le> dreal P ! j"
proof -
  have l: "length (cont P) = cont n" "length (dint P) = dint n" "length (dstr P) = dstr n" "length (dreal P) = dreal n"
    using assms(1) by (simp_all add: parts_sized_def)
  show t: "length t = cont n + dint n + dstr n + dreal n"
    using list_all2_lengthD [OF assms(2)] l by (simp add: join_kinds_def)
  have d: "t ! p \<le> join_kinds P ! p" if "p < length t" for p using list_all2_nthD [OF assms(2) that] .
  show "j < cont n \<Longrightarrow> t ! j \<le> cont P ! j" using d [of j] t l by (simp add: join_kinds_def nth_append)
  show "j < dint n \<Longrightarrow> t ! (cont n + j) \<le> dint P ! j" using d [of "cont n + j"] t l by (simp add: join_kinds_def nth_append)
  show "j < dstr n \<Longrightarrow> t ! (cont n + dint n + j) \<le> dstr P ! j"
    using d [of "cont n + dint n + j"] t l by (simp add: join_kinds_def nth_append)
  show "j < dreal n \<Longrightarrow> t ! (cont n + dint n + dstr n + j) \<le> dreal P ! j"
    using d [of "cont n + dint n + dstr n + j"] t l by (simp add: join_kinds_def nth_append)
qed

lemma int_value_grid:
  assumes "model_ok M n" "grid_ok M P n" "j < dint n" "k \<le> dint P ! j"
    and "dint (initialPoint st) = map (\<lambda>j. int_start M (dint P ! j) j) [0..<dint n]"
    and "dint (stepVector st) = map (\<lambda>j. int_stride M (dint P ! j) j) [0..<dint n]"
  shows "int_value M st j (Inr (int k)) = Inr (int_grid M (dint P ! j) j k)"
proof -
  have b: "j < length (discrete_int_sets M)" using assms(1,3) by (simp add: model_ok_def)
  show ?thesis
  proof (cases "discrete_int_sets M ! j")
    case True
    have g: "divides_set (dint P ! j) (divars (current_variables M) ! j) (int_set M j)"
      "dint P ! j \<noteq> 0 \<longrightarrow> discrete_int_lower_bounds M ! j = hd (int_set M j)"
      using assms(2,3) True by (auto simp: grid_ok_def)
    have "int_start M (dint P ! j) j = set_start (dint P ! j) (divars (current_variables M) ! j) (int_set M j)"
      "int_stride M (dint P ! j) j = set_stride (dint P ! j) (int_set M j)"
      using True g(2) by (simp_all add: int_start_def set_start_def int_stride_def set_stride_def)
    then show ?thesis
      using set_step_grid [OF g(1) assms(4), of j "dint (initialPoint st)" "dint (stepVector st)"] assms True b int_set_at [OF assms(1,3)]
      by (simp add: int_value_def vec_at_ok int_grid_def)
  next
    case False
    have g: "divides_range (dint P ! j) (divars (current_variables M) ! j) (discrete_int_lower_bounds M ! j) (discrete_int_upper_bounds M ! j)"
      using assms(2,3) False by (auto simp: grid_ok_def)
    have "range_value st j (int k) = Inr (int_start M (dint P ! j) j + int k * int_stride M (dint P ! j) j)"
      by (rule range_value_at [where n = "int (dint P ! j)"])
        (use assms g False in \<open>auto simp: divides_range_def int_start_def int_stride_def int_range_def split: if_splits\<close>)
    then show ?thesis using False b assms(4) by (auto simp: int_value_def vec_at_ok int_grid_def int_start_def int_stride_def)
  qed
qed

lemma point_grid:
  assumes "model_ok M n" "grid_ok M P n" "parts_sized P n" "numVars st = n" "list_all2 (\<le>) t (join_kinds P)"
    and "cont (initialPoint st) = map (\<lambda>j. if cont P ! j = 0 then cvars (current_variables M) ! j else continuous_lower_bounds M ! j) [0..<cont n]"
    and "dint (initialPoint st) = map (\<lambda>j. int_start M (dint P ! j) j) [0..<dint n]"
    and "dstr (initialPoint st) = map (\<lambda>j. set_start (dstr P ! j) (dsvars (current_variables M) ! j) (discrete_set_string_values M ! j)) [0..<dstr n]"
    and "dreal (initialPoint st) = map (\<lambda>j. set_start (dreal P ! j) (drvars (current_variables M) ! j) (discrete_set_real_values M ! j)) [0..<dreal n]"
    and "cont (stepVector st) = map (\<lambda>j. if cont P ! j = 0 then 0
        else (continuous_upper_bounds M ! j - continuous_lower_bounds M ! j) / of_nat (cont P ! j)) [0..<cont n]"
    and "dint (stepVector st) = map (\<lambda>j. int_stride M (dint P ! j) j) [0..<dint n]"
    and "dstr (stepVector st) = map (\<lambda>j. set_stride (dstr P ! j) (discrete_set_string_values M ! j)) [0..<dstr n]"
    and "dreal (stepVector st) = map (\<lambda>j. set_stride (dreal P ! j) (discrete_set_real_values M ! j)) [0..<dreal n]"
  shows "point_at M st (index_value t) = Inr (grid_point M P n t)"
proof -
  note dig = index_digits [OF assms(3,5)]
  have iv: "index_value t p = Inr (int (t ! p))" if "p < length t" for p using that by (simp add: index_value_def vec_at_ok)
  have l: "length (discrete_set_string_values M) = dstr n" "length (discrete_set_real_values M) = dreal n"
    using assms(1) by (simp_all add: model_ok_def)
  have c: "collect (\<lambda>j. rbind (index_value t j) (cont_value st j)) [0..<cont n] =
      Inr (map (\<lambda>j. cont_grid M (cont P ! j) j (t ! j)) [0..<cont n])"
    by (rule collect_ok) (use assms(6,10) dig(1) in \<open>auto simp: iv cont_value_def vec_at_ok cont_grid_def\<close>)
  have i: "collect (\<lambda>j. int_value M st j (index_value t (cont n + j))) [0..<dint n] =
      Inr (map (\<lambda>j. int_grid M (dint P ! j) j (t ! (cont n + j))) [0..<dint n])"
    by (rule collect_ok) (use int_value_grid [OF assms(1,2) _ dig(3) assms(7,11)] dig(1) in \<open>auto simp: iv\<close>)
  have s: "collect (\<lambda>j. string_value M st j (index_value t (cont n + dint n + j))) [0..<dstr n] =
      Inr (map (\<lambda>j. set_grid (dstr P ! j) (dsvars (current_variables M) ! j) (discrete_set_string_values M ! j) (t ! (cont n + dint n + j))) [0..<dstr n])"
  proof (rule collect_ok)
    fix j assume "j \<in> set [0..<dstr n]"
    then show "string_value M st j (index_value t (cont n + dint n + j)) = Inr (set_grid (dstr P ! j) (dsvars (current_variables M) ! j)
        (discrete_set_string_values M ! j) (t ! (cont n + dint n + j)))"
      using assms(2,8,12) l dig(1) dig(4) [of j]
        set_step_grid [of "dstr P ! j" "dsvars (current_variables M) ! j" "discrete_set_string_values M ! j" "t ! (cont n + dint n + j)" j
          "dstr (initialPoint st)" "dstr (stepVector st)"]
      by (simp add: iv string_value_def vec_at_ok grid_ok_def)
  qed
  have d: "collect (\<lambda>j. real_value M st j (index_value t (cont n + dint n + dstr n + j))) [0..<dreal n] =
      Inr (map (\<lambda>j. set_grid (dreal P ! j) (drvars (current_variables M) ! j) (discrete_set_real_values M ! j)
        (t ! (cont n + dint n + dstr n + j))) [0..<dreal n])"
  proof (rule collect_ok)
    fix j assume "j \<in> set [0..<dreal n]"
    then show "real_value M st j (index_value t (cont n + dint n + dstr n + j)) = Inr (set_grid (dreal P ! j) (drvars (current_variables M) ! j)
        (discrete_set_real_values M ! j) (t ! (cont n + dint n + dstr n + j)))"
      using assms(2,9,13) l dig(1) dig(5) [of j]
        set_step_grid [of "dreal P ! j" "drvars (current_variables M) ! j" "discrete_set_real_values M ! j" "t ! (cont n + dint n + dstr n + j)" j
          "dreal (initialPoint st)" "dreal (stepVector st)"]
      by (simp add: iv real_value_def vec_at_ok grid_ok_def)
  qed
  show ?thesis using c i s d assms(4) by (simp add: point_at_def Let_def grid_point_def)
qed
section \<open>A multidimensional study visits the grid\<close>

lemma distribute_partitions_keeps:
  assumes "distribute_partitions M st = Inr st'"
  shows "numVars st' = numVars st \<and> allVariables st' = allVariables st \<and> methodName st' = methodName st \<and>
    varPartitions st' = varPartitions st \<and> numEvals st' = numEvals st"
  using assms by (auto simp: distribute_partitions_def Let_def result_simps)

text \<open>
  The number of evaluations is the number of points of the grid modulo \<open>2 ^ 64\<close>, which is wrong for a large
  grid: with one partition in each of 64 variables it is zero, and the study evaluates nothing.
\<close>

lemma count_points_mod: "count_points parts = grid_size parts mod 2 ^ 64"
proof -
  have "foldl (\<lambda>n part. size_mod (n * (int part + 1))) (size_mod (int k)) parts = size_mod (int (k * grid_size parts))" for k
  proof (induction parts arbitrary: k)
    case Nil
    then show ?case by (simp add: grid_size_def)
  next
    case (Cons part parts)
    have "size_mod (size_mod (int k) * (int part + 1)) = size_mod (int (k * Suc part))"
      unfolding size_mod_def of_nat_mult mod_mult_left_eq by (simp add: add.commute)
    then show ?case using Cons.IH [of "k * Suc part"] by (simp add: grid_size_def algebra_simps)
  qed
  from this [of 1] show ?thesis
    using nat_size_mod [of "grid_size parts"] by (simp add: count_points_def size_mod_def)
qed

lemma large_grid_counts_zero: "count_points (replicate 64 1) = 0 \<and> grid_size (replicate 64 1) = 2 ^ 64"
  unfolding count_points_mod grid_size_def map_replicate prod_list_replicate by (simp add: numeral_2_eq_2 [symmetric])

lemma construct_multidim_establishes:
  assumes "ParamStudy dbl_inf M sp st0 = Inr st" "methodName st0 = MULTIDIM_PARAMETER_STUDY"
  shows "numVars st = numVars st0 \<and> allVariables st = allVariables st0 \<and> methodName st = MULTIDIM_PARAMETER_STUDY \<and>
    parts_sized (varPartitions st) (numVars st) \<and> numEvals st = grid_size (join_kinds (varPartitions st)) mod 2 ^ 64"
proof -
  obtain st1 where c: "construct_multidim dbl_inf M sp st0 = Inr (False, st1)"
    and st: "st = st1\<lparr>maxEvalConcurrency := as_int (maxEvalConcurrency st1 * int (numEvals st1))\<rparr>"
    using assms by (auto simp: ParamStudy_def result_simps split: if_splits)
  then obtain st2 where 2: "check_variable_partitions M (spec_partitions sp) st0 = Inr (False, st2)"
    and 1: "st1 = st2 \<or> distribute_partitions M st2 = Inr st1"
    by (auto simp: construct_multidim_def result_simps split: if_splits)
  have "numVars st2 = numVars st0 \<and> allVariables st2 = allVariables st0 \<and> methodName st2 = methodName st0 \<and>
    parts_sized (varPartitions st2) (numVars st2) \<and> numEvals st2 = grid_size (join_kinds (varPartitions st2)) mod 2 ^ 64"
    using 2 by (auto simp: check_variable_partitions_def result_simps parts_sized_def replicate_kinds_def distribute_array_def count_points_mod
        dest!: distribute_sized split: if_splits option.splits)
  then show ?thesis using 1 distribute_partitions_keeps [of M st2 st1] st assms(2) by auto
qed

lemma distribute_partitions_points:
  assumes "model_ok M n" "bounds_ok M n" "grid_ok M P n" "parts_sized P n" "varPartitions st = P" "numVars st = n"
  shows "\<exists>st3. distribute_partitions M st = Inr st3 \<and>
    (\<forall>t. list_all2 (\<le>) t (join_kinds P) \<longrightarrow> point_at M st3 (index_value t) = Inr (grid_point M P n t))"
  by (intro exI conjI, rule distribute_partitions_grid [OF assms], intro allI impI, rule point_grid [OF assms(1,3,4)])
    (simp_all add: assms(6))

text \<open>C11: the first run of a multidimensional study evaluates every point of the grid exactly once.  If the grid has
  fewer than \<open>2 ^ 64\<close> points (beyond, the number of evaluations wraps) and the partitions divide the integer ranges
  and sets (and the increment counts), the run succeeds; its points are those of all indices within
  the partitions, each index once, as many as construction announced.  In each continuous variable the first and
  the last index give the bounds.
\<close>

theorem multidim_study_visits_grid:
  fixes dbl_inf :: "'r::floor_ceiling"
  assumes "ParamStudy dbl_inf M sp st0 = Inr st" "methodName st0 = MULTIDIM_PARAMETER_STUDY" "allVariables st0 = []"
    and "model_ok M (numVars st0)" "bounds_ok M (numVars st0)" "grid_ok M (varPartitions st) (numVars st0)" "counts_up increment"
    and "grid_size (join_kinds (varPartitions st)) < 2 ^ 64"
  shows "\<exists>st' ts. pre_run increment M st = Inr st' \<and> allVariables st' = map (grid_point M (varPartitions st) (numVars st0)) ts \<and>
    distinct ts \<and> set ts = {t. list_all2 (\<le>) t (join_kinds (varPartitions st))} \<and> length ts = numEvals st \<and>
    (\<forall>j. let part = cont (varPartitions st) ! j in part \<noteq> 0 \<longrightarrow>
      cont_grid M part j 0 = continuous_lower_bounds M ! j \<and> cont_grid M part j part = continuous_upper_bounds M ! j)"
proof -
  note c = construct_multidim_establishes [OF assms(1,2)]
  let ?n = "numVars st0" and ?P = "varPartitions st"
  let ?st = "resize_variables (current_variables M) st" and ?ts = "map (nth_index increment (join_kinds ?P)) [0..<grid_size (join_kinds ?P)]"
  have P: "parts_sized ?P ?n" using c by metis
  have ev: "numEvals st = grid_size (join_kinds ?P)" using c assms(8) by (metis mod_less)
  have f: "varPartitions ?st = ?P" "numVars ?st = ?n" "methodName ?st = MULTIDIM_PARAMETER_STUDY" "numEvals ?st = grid_size (join_kinds ?P)"
    using c ev by (simp_all add: resize_variables_def)
  have all: "allVariables ?st = replicate (numEvals st) (current_variables M)" using resize_fresh [of st] c assms(3) by simp
  obtain st3 where st3: "distribute_partitions M ?st = Inr st3" and pt: "\<And>t. list_all2 (\<le>) t (join_kinds ?P) \<Longrightarrow>
      point_at M st3 (index_value t) = Inr (grid_point M ?P ?n t)"
    using distribute_partitions_points [OF assms(4-6) P f(1,2)] by metis
  note k = distribute_partitions_keeps [OF st3]
  have f3: "varPartitions st3 = ?P" "numVars st3 = ?n" "numEvals st3 = grid_size (join_kinds ?P)"
    "allVariables st3 = replicate (grid_size (join_kinds ?P)) (current_variables M)" using k f all ev by simp_all
  have sz: "all_sized st3" using f3 assms(4) by (auto simp: all_sized_def model_ok_def)
  have ts: "distinct ?ts" "set ?ts = {t. list_all2 (\<le>) t (join_kinds ?P)}" using indices_enumerate_grid [OF assms(7)] by auto
  have "multidim_loop increment M st3 = rbind (collect (\<lambda>i. point_at M st3 (index_value (nth_index increment (join_kinds ?P) i)))
      [0..<grid_size (join_kinds ?P)]) (\<lambda>vs. Inr (st3\<lparr>allVariables := vs\<rparr>))"
    using multidim_loop_points [OF sz, unfolded f3] P by (simp add: parts_sized_def)
  also have "collect (\<lambda>i. point_at M st3 (index_value (nth_index increment (join_kinds ?P) i))) [0..<grid_size (join_kinds ?P)] =
      Inr (map (\<lambda>i. grid_point M ?P ?n (nth_index increment (join_kinds ?P) i)) [0..<grid_size (join_kinds ?P)])"
    by (rule collect_ok) (use nth_index_counts [OF assms(7)] in \<open>auto intro: pt\<close>)
  finally have "pre_run increment M st = Inr (st3\<lparr>allVariables := map (grid_point M ?P ?n) ?ts\<rparr>)"
    using f c st3 by (simp add: pre_run_def Let_def comp_def)
  moreover have "\<forall>j. let part = cont ?P ! j in part \<noteq> 0 \<longrightarrow>
      cont_grid M part j 0 = continuous_lower_bounds M ! j \<and> cont_grid M part j part = continuous_upper_bounds M ! j"
    by (simp add: Let_def cont_grid_def)
  ultimately show ?thesis using ts ev by (intro exI [of _ "st3\<lparr>allVariables := map (grid_point M ?P ?n) ?ts\<rparr>"] exI [of _ ?ts]) simp
qed

definition multidim_example :: "rat study" where
  "multidim_example = projr (ParamStudy 1000 study_model study_example_spec (base_study MULTIDIM_PARAMETER_STUDY))"

lemma multidim_example_eval:
  "ParamStudy 1000 study_model study_example_spec (base_study MULTIDIM_PARAMETER_STUDY) = Inr multidim_example"
proof -
  have "is_ok (ParamStudy 1000 study_model study_example_spec (base_study MULTIDIM_PARAMETER_STUDY))" by code_simp
  then show ?thesis by (simp add: multidim_example_def is_ok_projr)
qed

lemma multidim_example_facts:
  "model_ok study_model (numVars (base_study MULTIDIM_PARAMETER_STUDY))"
  "bounds_ok study_model (numVars (base_study MULTIDIM_PARAMETER_STUDY))"
  "varPartitions multidim_example = \<lparr>cont = [2], dint = [3], dstr = [1], dreal = []\<rparr>" "numEvals multidim_example = 24"
  by code_simp+

lemma multidim_example_ok: "grid_ok study_model (varPartitions multidim_example) (numVars (base_study MULTIDIM_PARAMETER_STUDY))"
  by (simp add: multidim_example_facts grid_ok_def base_study_def study_model_def divides_set_def divides_range_def int_range_def)

lemma multidim_study_visits_grid_witness:
  "\<exists>st' ts. pre_run odometer study_model multidim_example = Inr st' \<and> length (allVariables st') = 24 \<and> distinct ts \<and> [2, 3, 1 :: nat] \<in> set ts \<and>
     [3, 0, 0] \<notin> set ts"
proof -
  obtain st' ts where "pre_run odometer study_model multidim_example = Inr st'"
    "allVariables st' = map (grid_point study_model (varPartitions multidim_example) (numVars (base_study MULTIDIM_PARAMETER_STUDY))) ts"
    "distinct ts" "set ts = {t. list_all2 (\<le>) t (join_kinds (varPartitions multidim_example))}" "length ts = numEvals multidim_example"
    using multidim_study_visits_grid [OF multidim_example_eval _ _ multidim_example_facts(1,2) multidim_example_ok odometer_counts_up]
    by (auto simp: base_study_def multidim_example_facts join_kinds_def grid_size_def)
  then show ?thesis by (intro exI [of _ st'] exI [of _ ts]) (simp add: multidim_example_facts join_kinds_def)
qed

end
