(* ===== verification/Line_Study.thy ===== *)
theory Line_Study
  imports Grid_Study
begin

text \<open>
  Vector studies with a final point: the points on the line in closed form, and what happens outside the intended use of
  the parameter studies (no steps, a second run, steps below the first value of a set).
\<close>

section \<open>Steps towards the final point\<close>

text \<open>The index of the current value in its set.\<close>

definition start_index :: "'a \<Rightarrow> 'a list \<Rightarrow> int" where
  "start_index cur vals = int (the (set_value_to_index cur vals))"

definition reaches_set :: "int \<Rightarrow> int \<Rightarrow> 'a \<Rightarrow> 'a list \<Rightarrow> bool" where
  "reaches_set N f cur vals \<longleftrightarrow> length vals < 2 ^ 31 \<and> cur \<in> set vals \<and> 0 \<le> f \<and> f < int (length vals) \<and> N dvd f - start_index cur vals"

definition set_line :: "int \<Rightarrow> int \<Rightarrow> 'a \<Rightarrow> 'a list \<Rightarrow> int \<Rightarrow> 'a" where
  "set_line N f cur vals i = vals ! nat (start_index cur vals + i * ((f - start_index cur vals) div N))"

definition reaches_range :: "int \<Rightarrow> int \<Rightarrow> int \<Rightarrow> bool" where
  "reaches_range N f cur \<longleftrightarrow> int_range cur \<and> int_range f \<and> int_range (f - cur) \<and> N dvd f - cur"

lemma start_index_Some: "cur \<in> set vals \<Longrightarrow> set_value_to_index cur vals = Some (nat (start_index cur vals)) \<and> 0 \<le> start_index cur vals"
  using set_value_to_index_member [of cur vals] by (auto simp: start_index_def)

lemma start_index_less: "cur \<in> set vals \<Longrightarrow> start_index cur vals < int (length vals) \<and> vals ! nat (start_index cur vals) = cur"
  using start_index_Some [of cur vals] set_value_to_index_Some [of cur vals "nat (start_index cur vals)"] by auto

lemma set_step_line:
  assumes "reaches_set N f cur vals" "0 \<le> i" "i \<le> N" "j < length initial" "j < length steps"
    and "initial ! j = cur" "steps ! j = (f - start_index cur vals) div N"
  shows "set_step initial steps j i vals = Inr (set_line N f cur vals i)"
proof -
  let ?k = "start_index cur vals" and ?d = "(f - start_index cur vals) div N"
  have r: "cur \<in> set vals" "length vals < 2 ^ 31" "0 \<le> f" "f < int (length vals)" "N * ?d = f - ?k"
    using assms(1) by (simp_all add: reaches_set_def)
  note s = start_index_Some [OF r(1)] start_index_less [OF r(1)]
  have e: "int (nat ?k) = ?k" using s by simp
  have "min ?k f \<le> ?k + i * ?d" "?k + i * ?d \<le> max ?k f" using between_scaled [OF assms(2,3), of ?k ?d] r(5) by simp_all
  then have "0 \<le> ?k + i * ?d" "?k + i * ?d < int (length vals)" using s r(3,4) by linarith+
  then show ?thesis
    using set_step_at [OF assms(4,5), of vals "nat ?k" i] s assms(6,7) r(2) e by (simp add: set_line_def)
qed

lemma set_line_ends:
  assumes "reaches_set N f cur vals"
  shows "set_line N f cur vals 0 = cur" "set_line N f cur vals N = vals ! nat f"
  using assms start_index_less [of cur vals] by (auto simp: set_line_def reaches_set_def)

lemma set_step_vector_line:
  assumes "reaches_set N f cur vals" "0 < N" "vec_at initial j = Inr cur" "vec_at sets k = Inr vals" "vec_at final j = Inr f"
  shows "set_step_vector initial sets final N j k = Inr ((f - start_index cur vals) div N)"
proof -
  have r: "cur \<in> set vals" "length vals < 2 ^ 31" "0 \<le> f" "f < int (length vals)" "N dvd f - start_index cur vals"
    using assms(1) by (simp_all add: reaches_set_def)
  note s = start_index_Some [OF r(1)] start_index_less [OF r(1)]
  have l: "int (length vals) < 2 ^ 31" using r(2) by simp
  have "int_range (start_index cur vals)" "int_range (f - start_index cur vals)" using s r l by (auto simp: int_range_def)
  then show ?thesis
    using assms(2-5) r s by (simp add: set_step_vector_def index_step_def as_int_small checked_int_def integer_step_def dvd_eq_mod_eq_0)
qed

section \<open>The line\<close>

definition final_ok :: "'r iterated_model \<Rightarrow> ('r list, int list, int list, int list) by_kind \<Rightarrow> int \<Rightarrow> kind_counts \<Rightarrow> bool" where
  "final_ok M F N n \<longleftrightarrow>
     (\<forall>j<dint n. if discrete_int_sets M ! j then reaches_set N (dint F ! j) (divars (current_variables M) ! j) (int_set M j)
        else reaches_range N (dint F ! j) (divars (current_variables M) ! j)) \<and>
     (\<forall>j<dstr n. reaches_set N (dstr F ! j) (dsvars (current_variables M) ! j) (discrete_set_string_values M ! j)) \<and>
     (\<forall>j<dreal n. reaches_set N (dreal F ! j) (drvars (current_variables M) ! j) (discrete_set_real_values M ! j))"

definition int_line :: "'r iterated_model \<Rightarrow> int \<Rightarrow> int \<Rightarrow> nat \<Rightarrow> int \<Rightarrow> int" where
  "int_line M N f j i = (let cur = divars (current_variables M) ! j in
     if discrete_int_sets M ! j then set_line N f cur (int_set M j) i else cur + i * ((f - cur) div N))"

definition line_point ::
    "'r::field iterated_model \<Rightarrow> ('r list, int list, int list, int list) by_kind \<Rightarrow> int \<Rightarrow> kind_counts \<Rightarrow> int \<Rightarrow> 'r active_vars" where
  "line_point M F N n i = (let v = current_variables M in
    \<lparr>cvars = map (\<lambda>j. cvars v ! j + of_int i * ((cont F ! j - cvars v ! j) / of_int N)) [0..<cont n],
     divars = map (\<lambda>j. int_line M N (dint F ! j) j i) [0..<dint n],
     dsvars = map (\<lambda>j. set_line N (dstr F ! j) (dsvars v ! j) (discrete_set_string_values M ! j) i) [0..<dstr n],
     drvars = map (\<lambda>j. set_line N (dreal F ! j) (drvars v ! j) (discrete_set_real_values M ! j) i) [0..<dreal n]\<rparr>)"

text \<open>The final point: set variables are given by the index of a value.\<close>

definition final_variables ::
    "'r iterated_model \<Rightarrow> ('r list, int list, int list, int list) by_kind \<Rightarrow> kind_counts \<Rightarrow> 'r active_vars" where
  "final_variables M F n =
    \<lparr>cvars = map (\<lambda>j. cont F ! j) [0..<cont n],
     divars = map (\<lambda>j. if discrete_int_sets M ! j then int_set M j ! nat (dint F ! j) else dint F ! j) [0..<dint n],
     dsvars = map (\<lambda>j. discrete_set_string_values M ! j ! nat (dstr F ! j)) [0..<dstr n],
     drvars = map (\<lambda>j. discrete_set_real_values M ! j ! nat (dreal F ! j)) [0..<dreal n]\<rparr>"

lemma line_point_ends:
  fixes M :: "'r::field_char_0 iterated_model"
  assumes "model_ok M n" "final_ok M F N n" "0 < N"
  shows "line_point M F N n 0 = current_variables M" "line_point M F N n N = final_variables M F n"
proof -
  have l: "length (cvars (current_variables M)) = cont n" "length (divars (current_variables M)) = dint n"
    "length (dsvars (current_variables M)) = dstr n" "length (drvars (current_variables M)) = dreal n"
    using assms(1) by (simp_all add: model_ok_def sized_def)
  show "line_point M F N n 0 = current_variables M"
  proof (rule active_vars.equality)
    show "cvars (line_point M F N n 0) = cvars (current_variables M)" using l by (simp add: line_point_def Let_def list_eq_iff_nth_eq)
    show "divars (line_point M F N n 0) = divars (current_variables M)"
      using l assms(2) by (auto simp: line_point_def Let_def list_eq_iff_nth_eq int_line_def final_ok_def set_line_ends)
    show "dsvars (line_point M F N n 0) = dsvars (current_variables M)"
      using l assms(2) by (auto simp: line_point_def Let_def list_eq_iff_nth_eq final_ok_def set_line_ends)
    show "drvars (line_point M F N n 0) = drvars (current_variables M)"
      using l assms(2) by (auto simp: line_point_def Let_def list_eq_iff_nth_eq final_ok_def set_line_ends)
  qed simp
  show "line_point M F N n N = final_variables M F n"
  proof (rule active_vars.equality)
    show "cvars (line_point M F N n N) = cvars (final_variables M F n)"
      using assms(3) by (simp add: line_point_def final_variables_def Let_def)
    show "divars (line_point M F N n N) = divars (final_variables M F n)"
      using assms(2) by (auto simp: line_point_def final_variables_def Let_def int_line_def final_ok_def set_line_ends reaches_range_def split: if_splits)
    show "dsvars (line_point M F N n N) = dsvars (final_variables M F n)"
      using assms(2) by (auto simp: line_point_def final_variables_def Let_def final_ok_def set_line_ends)
    show "drvars (line_point M F N n N) = drvars (final_variables M F n)"
      using assms(2) by (auto simp: line_point_def final_variables_def Let_def final_ok_def set_line_ends)
  qed simp
qed
definition finals_sized :: "('r list, int list, int list, int list) by_kind \<Rightarrow> kind_counts \<Rightarrow> bool" where
  "finals_sized F n \<longleftrightarrow> length (cont F) = cont n \<and> length (dint F) = dint n \<and> length (dstr F) = dstr n \<and> length (dreal F) = dreal n"

definition int_line_step :: "'r iterated_model \<Rightarrow> int \<Rightarrow> int \<Rightarrow> nat \<Rightarrow> int" where
  "int_line_step M N f j = (let cur = divars (current_variables M) ! j in
     if discrete_int_sets M ! j then (f - start_index cur (int_set M j)) div N else (f - cur) div N)"

lemma int_step_vector_loop:
  assumes "model_ok M n" "final_ok M (finalPoint st) N n" "finals_sized (finalPoint st) n" "0 < N" "numSteps st = N"
    and "dint (initialPoint st) = divars (current_variables M)" "m \<le> dint n"
  shows "rfold (int_step_vector M st) [0..<m] ([], 0) = Inr (map (\<lambda>j. int_line_step M N (dint (finalPoint st) ! j) j) [0..<m], set_rank M m)"
  using assms(7)
proof (induction m)
  case 0
  then show ?case by (simp add: set_rank_def bit_count_def)
next
  case (Suc m)
  have m: "m < length (discrete_int_sets M)" "m < length (divars (current_variables M))" "m < length (dint (finalPoint st))"
    using Suc.prems assms(1,3) by (simp_all add: model_ok_def sized_def finals_sized_def)
  have g: "if discrete_int_sets M ! m then reaches_set N (dint (finalPoint st) ! m) (divars (current_variables M) ! m) (int_set M m)
      else reaches_range N (dint (finalPoint st) ! m) (divars (current_variables M) ! m)"
    using assms(2) Suc.prems by (auto simp: final_ok_def)
  have "int_step_vector M st m (ds, set_rank M m) = Inr (ds @ [int_line_step M N (dint (finalPoint st) ! m) m], set_rank M (Suc m))" for ds
  proof (cases "discrete_int_sets M ! m")
    case True
    then show ?thesis
      using m g assms(4-6) int_set_at [OF assms(1) _ True] Suc.prems
        set_step_vector_line [of N "dint (finalPoint st) ! m" "divars (current_variables M) ! m" "int_set M m" "dint (initialPoint st)" m
          "discrete_set_int_values M" "set_rank M m" "dint (finalPoint st)"]
      by (simp add: int_step_vector_def vec_at_ok set_rank_Suc int_line_step_def Let_def)
  next
    case False
    then show ?thesis using m g assms(4-6)
      by (simp add: int_step_vector_def vec_at_ok set_rank_Suc int_line_step_def Let_def reaches_range_def checked_int_def integer_step_def
          dvd_eq_mod_eq_0)
  qed
  then show ?case using Suc by (simp add: rfold_snoc)
qed

lemma final_point_steps:
  assumes "model_ok M n" "final_ok M (finalPoint st) N n" "finals_sized (finalPoint st) n" "0 < N" "numSteps st = N" "numVars st = n"
    and "initialPoint st = current_point M"
  defines "F \<equiv> finalPoint st" and "v \<equiv> current_variables M"
  shows "final_point_to_step_vector M st = Inr (st\<lparr>stepVector :=
    \<lparr>cont = map (\<lambda>j. (cont F ! j - cvars v ! j) / of_int N) [0..<cont n],
     dint = map (\<lambda>j. int_line_step M N (dint F ! j) j) [0..<dint n],
     dstr = map (\<lambda>j. (dstr F ! j - start_index (dsvars v ! j) (discrete_set_string_values M ! j)) div N) [0..<dstr n],
     dreal = map (\<lambda>j. (dreal F ! j - start_index (drvars v ! j) (discrete_set_real_values M ! j)) div N) [0..<dreal n]\<rparr>\<rparr>)"
proof -
  have x: "cont (initialPoint st) = cvars v" "dint (initialPoint st) = divars v" "dstr (initialPoint st) = dsvars v" "dreal (initialPoint st) = drvars v"
    using assms(7) by (simp_all add: current_point_def Let_def v_def)
  have l: "length (cvars v) = cont n" "length (dsvars v) = dstr n" "length (drvars v) = dreal n"
    "length (discrete_set_string_values M) = dstr n" "length (discrete_set_real_values M) = dreal n"
    "length (cont F) = cont n" "length (dstr F) = dstr n" "length (dreal F) = dreal n"
    using assms(1,3) by (simp_all add: model_ok_def sized_def finals_sized_def F_def v_def)
  have c: "collect (\<lambda>j. rbind (vec_at (cont F) j) (\<lambda>e. rbind (vec_at (cvars v) j) (\<lambda>x. Inr ((e - x) / of_int N)))) [0..<cont n] =
      Inr (map (\<lambda>j. (cont F ! j - cvars v ! j) / of_int N) [0..<cont n])"
    by (rule collect_ok) (use l in \<open>simp add: vec_at_ok\<close>)
  have s: "collect (\<lambda>j. set_step_vector (dsvars v) (discrete_set_string_values M) (dstr F) N j j) [0..<dstr n] =
      Inr (map (\<lambda>j. (dstr F ! j - start_index (dsvars v ! j) (discrete_set_string_values M ! j)) div N) [0..<dstr n])"
    by (rule collect_ok, rule set_step_vector_line) (use l assms(2,4) in \<open>auto simp: vec_at_ok final_ok_def F_def v_def\<close>)
  have d: "collect (\<lambda>j. set_step_vector (drvars v) (discrete_set_real_values M) (dreal F) N j j) [0..<dreal n] =
      Inr (map (\<lambda>j. (dreal F ! j - start_index (drvars v ! j) (discrete_set_real_values M ! j)) div N) [0..<dreal n])"
    by (rule collect_ok, rule set_step_vector_line) (use l assms(2,4) in \<open>auto simp: vec_at_ok final_ok_def F_def v_def\<close>)
  show ?thesis
    using c s d int_step_vector_loop [OF assms(1-5) x(2) [unfolded v_def] order_refl] assms(5,6)
    by (simp add: final_point_to_step_vector_def Let_def x F_def)
qed

lemma point_line:
  fixes M :: "'r::field iterated_model"
  assumes "model_ok M n" "final_ok M F N n" "finals_sized F n" "numVars st = n" "0 \<le> i" "i \<le> N"
    and "initialPoint st = current_point M"
    and "cont (stepVector st) = map (\<lambda>j. (cont F ! j - cvars (current_variables M) ! j) / of_int N) [0..<cont n]"
    and "dint (stepVector st) = map (\<lambda>j. int_line_step M N (dint F ! j) j) [0..<dint n]"
    and "dstr (stepVector st) = map (\<lambda>j. (dstr F ! j - start_index (dsvars (current_variables M) ! j) (discrete_set_string_values M ! j)) div N) [0..<dstr n]"
    and "dreal (stepVector st) = map (\<lambda>j. (dreal F ! j - start_index (drvars (current_variables M) ! j) (discrete_set_real_values M ! j)) div N) [0..<dreal n]"
  shows "point_at M st (\<lambda>_. Inr i) = Inr (line_point M F N n i)"
proof -
  let ?v = "current_variables M"
  have x: "cont (initialPoint st) = cvars ?v" "dint (initialPoint st) = divars ?v" "dstr (initialPoint st) = dsvars ?v" "dreal (initialPoint st) = drvars ?v"
    using assms(7) by (simp_all add: current_point_def Let_def)
  have l: "length (cvars ?v) = cont n" "length (divars ?v) = dint n" "length (dsvars ?v) = dstr n" "length (drvars ?v) = dreal n"
    "length (discrete_set_string_values M) = dstr n" "length (discrete_set_real_values M) = dreal n" "length (discrete_int_sets M) = dint n"
    using assms(1) by (simp_all add: model_ok_def sized_def)
  have c: "collect (\<lambda>j. rbind (Inr i) (cont_value st j)) [0..<cont n] =
      Inr (map (\<lambda>j. cvars ?v ! j + of_int i * ((cont F ! j - cvars ?v ! j) / of_int N)) [0..<cont n])"
    by (rule collect_ok) (use l assms(8) x in \<open>simp add: cont_value_def vec_at_ok\<close>)
  have di: "int_value M st j (Inr i) = Inr (int_line M N (dint F ! j) j i)" if j: "j < dint n" for j
  proof (cases "discrete_int_sets M ! j")
    case True
    then have "reaches_set N (dint F ! j) (divars ?v ! j) (int_set M j)" using assms(2) j by (auto simp: final_ok_def)
    then show ?thesis using set_step_line [OF _ assms(5,6), of "dint F ! j" "divars ?v ! j" "int_set M j" j "divars ?v" "dint (stepVector st)"]
        True j l x assms(9) int_set_at [OF assms(1) j True]
      by (simp add: int_value_def vec_at_ok int_line_def int_line_step_def Let_def)
  next
    case False
    then have r: "reaches_range N (dint F ! j) (divars ?v ! j)" using assms(2) j by (auto simp: final_ok_def)
    have "range_value st j i = Inr (divars ?v ! j + i * ((dint F ! j - divars ?v ! j) div N))"
      by (rule range_value_at [where n = N]) (use False j l x assms(5,6,9) r in \<open>simp_all add: int_line_step_def Let_def reaches_range_def\<close>)
    then show ?thesis using False j l by (simp add: int_value_def vec_at_ok int_line_def Let_def)
  qed
  have s: "string_value M st j (Inr i) = Inr (set_line N (dstr F ! j) (dsvars ?v ! j) (discrete_set_string_values M ! j) i)" if j: "j < dstr n" for j
    using set_step_line [OF _ assms(5,6), of "dstr F ! j" "dsvars ?v ! j" "discrete_set_string_values M ! j" j "dsvars ?v" "dstr (stepVector st)"]
      j l x assms(2,10) by (simp add: string_value_def vec_at_ok final_ok_def)
  have d: "real_value M st j (Inr i) = Inr (set_line N (dreal F ! j) (drvars ?v ! j) (discrete_set_real_values M ! j) i)" if j: "j < dreal n" for j
    using set_step_line [OF _ assms(5,6), of "dreal F ! j" "drvars ?v ! j" "discrete_set_real_values M ! j" j "drvars ?v" "dreal (stepVector st)"]
      j l x assms(2,11) by (simp add: real_value_def vec_at_ok final_ok_def)
  have "collect (\<lambda>j. string_value M st j (Inr i)) [0..<dstr n] =
      Inr (map (\<lambda>j. set_line N (dstr F ! j) (dsvars ?v ! j) (discrete_set_string_values M ! j) i) [0..<dstr n])"
    "collect (\<lambda>j. real_value M st j (Inr i)) [0..<dreal n] =
      Inr (map (\<lambda>j. set_line N (dreal F ! j) (drvars ?v ! j) (discrete_set_real_values M ! j) i) [0..<dreal n])"
    by (rule collect_ok, simp add: s d)+
  moreover have "collect (\<lambda>j. int_value M st j (Inr i)) [0..<dint n] = Inr (map (\<lambda>j. int_line M N (dint F ! j) j i) [0..<dint n])"
    by (rule collect_ok) (simp add: di)
  ultimately show ?thesis using c assms(4) by (simp add: point_at_def Let_def line_point_def)
qed
section \<open>A vector study ends at the final point\<close>

lemma construct_final_point_establishes:
  assumes "ParamStudy dbl_inf M sp st0 = Inr st" "methodName st0 = VECTOR_PARAMETER_STUDY" "spec_step_vector sp = []" "\<not> command_line_check sp"
  shows "numVars st = numVars st0 \<and> allVariables st = allVariables st0 \<and> methodName st = VECTOR_PARAMETER_STUDY \<and>
    stepVector st = stepVector st0 \<and> finals_sized (finalPoint st) (numVars st0) \<and> numSteps st = spec_num_steps sp \<and>
    0 \<le> numSteps st \<and> numEvals st = Suc (nat (numSteps st))"
proof -
  obtain st1 where c: "construct_vector M sp st0 = Inr (False, st1)"
    and st: "st = st1\<lparr>maxEvalConcurrency := as_int (maxEvalConcurrency st1 * int (numEvals st1))\<rparr>"
    using assms by (auto simp: ParamStudy_def result_simps split: if_splits)
  then obtain st2 where 2: "check_final_point M (spec_final_point sp) st0 = Inr (False, st2)"
    and 1: "check_num_steps (spec_num_steps sp) st2 = Inr (False, st1)"
    using assms(3,4) by (auto simp: construct_vector_def result_simps)
  have "numVars st2 = numVars st0 \<and> allVariables st2 = allVariables st0 \<and> methodName st2 = methodName st0 \<and> stepVector st2 = stepVector st0 \<and>
    finals_sized (finalPoint st2) (numVars st0)"
    using 2 by (auto simp: check_final_point_def result_simps finals_sized_def distribute_reals_def dest!: distribute_sized
        split: if_splits option.splits)
  then show ?thesis using 1 st assms(2)
    by (auto simp: check_num_steps_def result_simps checked_int_def nat_add_distrib split: if_splits)
qed

lemma final_point_points:
  assumes "model_ok M n" "final_ok M (finalPoint st) N n" "finals_sized (finalPoint st) n" "0 < N" "numSteps st = N" "numVars st = n"
    and "initialPoint st = current_point M"
  shows "\<exists>d. final_point_to_step_vector M st = Inr (st\<lparr>stepVector := d\<rparr>) \<and>
    (\<forall>i. 0 \<le> i \<longrightarrow> i \<le> N \<longrightarrow> point_at M (st\<lparr>stepVector := d\<rparr>) (\<lambda>_. Inr i) = Inr (line_point M (finalPoint st) N n i))"
  by (intro exI conjI, rule final_point_steps [OF assms], intro allI impI, rule point_line [OF assms(1-3)])
    (simp_all add: assms(6,7))

text \<open>C13: the first run of a vector study that is given a final point and a positive number of steps goes from the
  current point of the model to the final point of the specification.  If the number of steps divides the integer ranges
  and index ranges, the run after construction succeeds; evaluation \<open>i\<close> is the point \<open>i / N\<close> of the way in every variable, the first is the current point and the last is the final point.
  Without steps the first run is undefined, and a later run keeps the steps of the first (below).
\<close>

theorem vector_study_reaches_final_point:
  fixes dbl_inf :: "'r::floor_ceiling"
  assumes "ParamStudy dbl_inf M sp st0 = Inr st" "methodName st0 = VECTOR_PARAMETER_STUDY" "spec_step_vector sp = []" "\<not> command_line_check sp"
    and "allVariables st0 = []" "no_step_vector st0" "model_ok M (numVars st0)" "spec_num_steps sp \<noteq> 0"
    and "final_ok M (finalPoint st) (spec_num_steps sp) (numVars st0)"
  shows "\<exists>st'. pre_run increment M st = Inr st' \<and>
    allVariables st' = map (\<lambda>i. line_point M (finalPoint st) (spec_num_steps sp) (numVars st0) (int i)) [0..<numEvals st] \<and>
    allVariables st' ! 0 = current_variables M \<and> last (allVariables st') = final_variables M (finalPoint st) (numVars st0)"
proof -
  let ?n = "numVars st0" and ?N = "spec_num_steps sp" and ?F = "finalPoint st"
  note c = construct_final_point_establishes [OF assms(1-4)]
  have N: "0 < ?N" "numSteps st = ?N" and ev: "numEvals st = Suc (nat ?N)" using c assms(8) by auto
  let ?st = "resize_variables (current_variables M) (st\<lparr>initialPoint := current_point M\<rparr>)"
  have f: "numVars ?st = ?n" "finalPoint ?st = ?F" "numSteps ?st = ?N" "initialPoint ?st = current_point M" "no_step_vector ?st"
    "methodName ?st = VECTOR_PARAMETER_STUDY"
    using c N assms(6) by (simp_all add: resize_variables_def no_step_vector_def)
  have fs: "finals_sized ?F ?n" using c by simp
  obtain d where d: "final_point_to_step_vector M ?st = Inr (?st\<lparr>stepVector := d\<rparr>)"
    and p: "\<forall>i. 0 \<le> i \<longrightarrow> i \<le> ?N \<longrightarrow> point_at M (?st\<lparr>stepVector := d\<rparr>) (\<lambda>_. Inr i) = Inr (line_point M ?F ?N ?n i)"
    using final_point_points [OF assms(7) _ _ N(1) f(3,1,4), unfolded f(2), OF assms(9) fs] by blast
  define st3 where "st3 = ?st\<lparr>stepVector := d\<rparr>"
  have st3: "final_point_to_step_vector M ?st = Inr st3" "numVars st3 = ?n" "numSteps st3 = ?N" "allVariables st3 = allVariables ?st"
    using d f by (simp_all add: st3_def)
  have pt: "\<And>i. 0 \<le> i \<Longrightarrow> i \<le> ?N \<Longrightarrow> point_at M st3 (\<lambda>_. Inr i) = Inr (line_point M ?F ?N ?n i)"
    using p by (simp add: st3_def)
  have a0: "allVariables st = []" "methodName st = VECTOR_PARAMETER_STUDY" using c assms(5) by metis+
  have all: "allVariables st3 = replicate (Suc (nat ?N)) (current_variables M)"
    using resize_fresh [of "st\<lparr>initialPoint := current_point M\<rparr>" "current_variables M"] a0 st3(4) ev by (simp del: replicate.simps)
  let ?vs = "map (\<lambda>i. line_point M ?F ?N ?n (int i)) [0..<Suc (nat ?N)]"
  have "vector_loop M st3 = rbind (collect (\<lambda>i. point_at M st3 (\<lambda>_. Inr (int i))) [0..<Suc (nat ?N)]) (\<lambda>vs. Inr (st3\<lparr>allVariables := vs\<rparr>))"
    using vector_loop_points [of st3 M, unfolded st3(3)] all st3(2) N assms(7) by (simp add: all_sized_def model_ok_def del: replicate.simps upt_Suc)
  also have "collect (\<lambda>i. point_at M st3 (\<lambda>_. Inr (int i))) [0..<Suc (nat ?N)] = Inr ?vs"
    by (rule collect_ok) (use N in \<open>auto intro!: pt\<close>)
  finally have run: "vector_loop M st3 = Inr (st3\<lparr>allVariables := ?vs\<rparr>)" by simp
  have "pre_run increment M st = Inr (st3\<lparr>allVariables := ?vs\<rparr>)"
    using f(3,5) a0(2) st3(1) run N(1) by (simp add: pre_run_def Let_def resize_variables_def del: upt_Suc)
  moreover have "?vs ! 0 = current_variables M" "last ?vs = final_variables M ?F ?n"
    using line_point_ends [OF assms(7,9) N(1)] N(1) by (simp_all add: nth_append)
  ultimately show ?thesis using ev by (intro exI [of _ "st3\<lparr>allVariables := ?vs\<rparr>"]) (simp del: upt_Suc)
qed
definition vector_example_spec :: "rat study_spec" where
  "vector_example_spec = study_example_spec\<lparr>spec_step_vector := [], spec_final_point := [1, 5, 0], spec_num_steps := 1\<rparr>"

definition vector_example :: "rat study" where
  "vector_example = projr (ParamStudy 1000 study_model vector_example_spec (base_study VECTOR_PARAMETER_STUDY))"

lemma vector_example_eval: "ParamStudy 1000 study_model vector_example_spec (base_study VECTOR_PARAMETER_STUDY) = Inr vector_example"
proof -
  have "is_ok (ParamStudy 1000 study_model vector_example_spec (base_study VECTOR_PARAMETER_STUDY))" by code_simp
  then show ?thesis by (simp add: vector_example_def is_ok_projr)
qed

lemma vector_example_facts:
  "model_ok study_model (numVars (base_study VECTOR_PARAMETER_STUDY))"
  "finalPoint vector_example = \<lparr>cont = [1], dint = [5], dstr = [0], dreal = []\<rparr>" "numEvals vector_example = 2"
  by code_simp+

lemma vector_study_reaches_final_point_witness:
  "\<exists>st'. pre_run odometer study_model vector_example = Inr st' \<and>
    last (allVariables st') = \<lparr>cvars = [1], divars = [5], dsvars = [''a''], drvars = []\<rparr>"
proof -
  have h: "methodName (base_study VECTOR_PARAMETER_STUDY) = VECTOR_PARAMETER_STUDY" "spec_step_vector vector_example_spec = []"
    "\<not> command_line_check vector_example_spec" "allVariables (base_study VECTOR_PARAMETER_STUDY) = []"
    "no_step_vector (base_study VECTOR_PARAMETER_STUDY)" "spec_num_steps vector_example_spec \<noteq> 0"
    by (simp_all add: base_study_def vector_example_spec_def study_example_spec_def no_step_vector_def no_points_def)
  have f: "final_ok study_model (finalPoint vector_example) (spec_num_steps vector_example_spec) (numVars (base_study VECTOR_PARAMETER_STUDY))"
    by (simp add: vector_example_facts vector_example_spec_def base_study_def study_model_def final_ok_def reaches_set_def reaches_range_def
        int_range_def start_index_def)
  show ?thesis
    using vector_study_reaches_final_point [OF vector_example_eval h(1-5) vector_example_facts(1) h(6) f, of odometer]
    by (auto simp: vector_example_facts final_variables_def base_study_def study_model_def)
qed

section \<open>Uses that go wrong\<close>

text \<open>With a final point and no steps, the step vector is never sized, and the first step reads past its end.\<close>

lemma vector_study_without_steps_undefined:
  assumes "methodName st = VECTOR_PARAMETER_STUDY" "no_step_vector st" "numSteps st = 0" "numEvals st = 1" "allVariables st = []"
    and "model_ok M (numVars st)" "0 < cont (numVars st)"
  shows "pre_run increment M st = Inl (UndefinedBehaviour ''vector read'')"
proof -
  let ?st = "resize_variables (current_variables M) (st\<lparr>initialPoint := current_point M\<rparr>)"
  have f: "numVars ?st = numVars st" "stepVector ?st = stepVector st" "initialPoint ?st = current_point M" "numSteps ?st = 0"
    "allVariables ?st = [current_variables M]" "methodName ?st = VECTOR_PARAMETER_STUDY" "no_step_vector ?st"
    using assms by (simp_all add: resize_variables_def vec_resize_def no_step_vector_def)
  obtain k where k: "cont (numVars st) = Suc k" using assms(7) by (cases "cont (numVars st)") auto
  have x: "0 < length (cvars (current_variables M))" using assms(6,7) by (simp add: model_ok_def sized_def)
  have "cont_value ?st 0 0 = Inl (UndefinedBehaviour ''vector read'')"
    using f(2,3) assms(2) x by (simp add: cont_value_def vec_at_def no_step_vector_def Let_def current_point_def)
  then have "point_at M ?st (\<lambda>_. Inr 0) = Inl (UndefinedBehaviour ''vector read'')"
    using f(1) k by (simp add: point_at_def Let_def upt_rec [of 0] del: upt_Suc)
  then have "vector_loop M ?st = Inl (UndefinedBehaviour ''vector read'')"
    using vector_loop_points [of ?st M] f assms(6) by (simp add: all_sized_def model_ok_def)
  then show ?thesis using assms(1) f(4,6,7) by (simp add: pre_run_def Let_def)
qed

text \<open>The listed points are freed by the first run; the second reads past their end.\<close>

lemma list_study_second_run_undefined:
  assumes "pre_run increment M st = Inr st'" "methodName st = LIST_PARAMETER_STUDY" "0 < numEvals st" "0 < num_vars st"
  shows "pre_run increment' M' st' = Inl (UndefinedBehaviour ''vector read'')"
proof -
  have st': "numVars st' = numVars st" "numEvals st' = numEvals st" "methodName st' = LIST_PARAMETER_STUDY"
    "listPoints st' = \<lparr>cont = [], dint = [], dstr = [], dreal = []\<rparr>"
    using assms(1,2) by (auto simp: pre_run_def Let_def resize_variables_def sample_def result_simps)
  let ?st = "resize_variables (current_variables M') st'"
  obtain v vs where v: "allVariables ?st = v # vs"
    using st'(2) assms(3) by (cases "allVariables ?st") (auto simp: resize_variables_def dest: arg_cong [of _ "[]" length])
  have "sample_point ?st 0 v = Inl (UndefinedBehaviour ''vector read'')"
    using st' assms(4) by (auto simp: sample_point_def Let_def assign_listed_def vec_at_def num_vars_def resize_variables_def)
  then have "update_at 0 (sample_point ?st 0) (allVariables ?st) = Inl (UndefinedBehaviour ''vector read'')"
    by (simp add: update_at_def vec_at_def v)
  moreover obtain k where "numEvals ?st = Suc k" using st'(2) assms(3) by (cases "numEvals st") (auto simp: resize_variables_def)
  ultimately have "sample ?st = Inl (UndefinedBehaviour ''vector read'')"
    by (simp add: sample_def upt_rec [of 0] del: upt_Suc)
  then show ?thesis using st'(3) by (simp add: pre_run_def resize_variables_def)
qed

lemma point_at_cvars: "point_at M st inc = Inr w \<Longrightarrow> collect (\<lambda>j. rbind (inc j) (cont_value st j)) [0..<cont (numVars st)] = Inr (cvars w)"
  by (cases w) (auto simp: point_at_def Let_def result_simps)

text \<open>
  A second run of a vector study keeps the step vector of the first: it ends as far from its start as the first run
  did, and so misses the final point when the model starts elsewhere.
\<close>

lemma vector_study_second_run_keeps_steps:
  assumes "methodName st = VECTOR_PARAMETER_STUDY" "\<not> no_step_vector st" "pre_run increment M st = Inr st'"
    and "all_sized st" "model_ok M (numVars st)" "length (allVariables st) = numEvals st" "numEvals st = Suc (nat (numSteps st))" "0 \<le> numSteps st"
    and "j < cont (numVars st)" "j < length (cont (stepVector st))"
  shows "cvars (last (allVariables st')) ! j = cvars (current_variables M) ! j + of_int (numSteps st) * cont (stepVector st) ! j"
proof -
  let ?st = "resize_variables (current_variables M) (st\<lparr>initialPoint := current_point M\<rparr>)" and ?N = "nat (numSteps st)"
  have f: "numVars ?st = numVars st" "stepVector ?st = stepVector st" "initialPoint ?st = current_point M" "numSteps ?st = numSteps st"
    "allVariables ?st = allVariables st" "\<not> no_step_vector ?st" "methodName ?st = VECTOR_PARAMETER_STUDY"
    using assms by (simp_all add: resize_variables_def vec_resize_def no_step_vector_def)
  have run: "vector_loop M ?st = Inr st'" using assms(1,3) f by (simp add: pre_run_def Let_def)
  have eq: "vector_loop M ?st = rbind (collect (\<lambda>i. point_at M ?st (\<lambda>_. Inr (int i))) [0..<Suc ?N]) (\<lambda>vs. Inr (?st\<lparr>allVariables := vs\<rparr>))"
    using vector_loop_points [of ?st M] f assms(4-8) by (simp add: all_sized_def del: upt_Suc)
  obtain vs where vs: "collect (\<lambda>i. point_at M ?st (\<lambda>_. Inr (int i))) [0..<Suc ?N] = Inr vs" and st': "allVariables st' = vs"
    using run [unfolded eq] by (auto simp: rbind_Inr_iff simp del: upt_Suc)
  have len: "length vs = Suc ?N" using collect_length [OF vs] by simp
  have "point_at M ?st (\<lambda>_. Inr (int ?N)) = Inr (vs ! ?N)" using collect_nth [OF vs, of ?N] by (simp add: nth_append)
  moreover have "last vs = vs ! ?N" using len by (cases vs rule: rev_cases) (auto simp: nth_append)
  ultimately have "collect (\<lambda>j. cont_value ?st j (int ?N)) [0..<cont (numVars st)] = Inr (cvars (last vs))"
    using point_at_cvars [of M ?st "\<lambda>_. Inr (int ?N)" "last vs"] f(1) by simp
  from collect_nth [OF this, of j] have "cont_value ?st j (int ?N) = Inr (cvars (last vs) ! j)" using assms(9) by simp
  then show ?thesis
    using st' assms(5,8-10) f(2,3) by (auto simp: cont_value_def vec_at_ok current_point_def Let_def model_ok_def sized_def)
qed

text \<open>
  The check of the minus steps keeps the sign of the string steps: with string sets only, it repeats the check of
  the plus steps.
\<close>

lemma centered_check_ignores_minus_strings:
  assumes "dint (numVars st) = 0" "dreal (numVars st) = 0"
  shows "check_ranges_sets_centered M steps st = check_sets M steps st"
proof -
  have "check_sets M (steps\<lparr>cont := c, dint := i, dreal := d\<rparr>) st = check_sets M steps st" for c i d
    using assms by (simp add: check_sets_def Let_def)
  then show ?thesis by (cases "check_sets M steps st") (simp_all add: check_ranges_sets_centered_def)
qed

end
