(* ===== verification/List_Study.thy ===== *)
theory List_Study
  imports Line_Study
begin

text \<open>
  List studies: the distribution of a list of values among the kinds of variables is a bijection, and the run
  evaluates the listed points.
\<close>

section \<open>Distribution and its inverse\<close>

text \<open>The arrays by kind, merged again in specification order.\<close>

fun merge_groups :: "counts list \<Rightarrow> ('a list, 'a list, 'a list, 'a list) by_kind \<Rightarrow> 'a list" where
  "merge_groups [] t = []"
| "merge_groups ((c, i, s, d) # gs) t = take c (cont t) @ take i (dint t) @ take s (dstr t) @ take d (dreal t) @
     merge_groups gs \<lparr>cont = drop c (cont t), dint = drop i (dint t), dstr = drop s (dstr t), dreal = drop d (dreal t)\<rparr>"

definition totals_groups :: "comps_totals \<Rightarrow> counts list" where
  "totals_groups t = [total_design t, total_aleatory t, total_epistemic t, total_state t]"

lemma distribute_run_Suc: "distribute_run f xs cap (Suc n) st = rbind (distribute_run f xs cap n st) (\<lambda>(s_cntr, out).
    if length out < cap then rbind (vec_at xs s_cntr) (\<lambda>a. rbind (f a) (\<lambda>x. Inr (Suc s_cntr, out @ [x]))) else Inl (UndefinedBehaviour ''vector write''))"
  by (simp add: distribute_run_def rfold_snoc)

lemma distribute_run_Inr:
  "distribute_run Inr xs cap n (k, out) = Inr (k', out') \<longleftrightarrow>
    k' = k + n \<and> (n \<noteq> 0 \<longrightarrow> length out + n \<le> cap \<and> k + n \<le> length xs) \<and> out' = out @ take n (drop k xs)"
proof (induction n arbitrary: k' out')
  case 0
  then show ?case by (auto simp: distribute_run_def)
next
  case (Suc n)
  show ?case unfolding distribute_run_Suc using Suc.IH
    by (auto simp: rbind_Inr_iff vec_at_def take_Suc_conv_app_nth split: if_splits)
qed
definition append_kinds :: "('a list, 'b list, 'c list, 'd list) by_kind \<Rightarrow> ('a list, 'b list, 'c list, 'd list) by_kind \<Rightarrow>
    ('a list, 'b list, 'c list, 'd list) by_kind" where
  "append_kinds t u = \<lparr>cont = cont t @ cont u, dint = dint t @ dint u, dstr = dstr t @ dstr u, dreal = dreal t @ dreal u\<rparr>"

lemma take_drop_split: "take (a + b) (drop k xs) = take a (drop k xs) @ take b (drop (k + a) xs)"
  by (simp add: take_add add.commute)

lemma distribute_run_result:
  "distribute_run Inr xs cap n (k, out) = Inr (k', out') \<Longrightarrow>
    k' = k + n \<and> out' = out @ take n (drop k xs) \<and> length (take n (drop k xs)) = n"
  by (cases n) (auto simp: distribute_run_Inr)

lemma rbind_InrE: "rbind m f = Inr y \<Longrightarrow> (\<And>x. m = Inr x \<Longrightarrow> f x = Inr y \<Longrightarrow> P) \<Longrightarrow> P"
  by (cases m) auto

lemma distribute_group_result:
  assumes "distribute_group (Inr, Inr, Inr, Inr) xs caps (c, i, s, d) (k, t) = Inr (k', t')"
  defines "v \<equiv> \<lparr>cont = take c (drop k xs), dint = take i (drop (k + c) xs), dstr = take s (drop (k + c + i) xs),
    dreal = take d (drop (k + c + i + s) xs)\<rparr>"
  shows "k' = k + c + i + s + d \<and> t' = append_kinds t v \<and>
    length (cont v) = c \<and> length (dint v) = i \<and> length (dstr v) = s \<and> length (dreal v) = d"
proof -
  obtain k1 k2 k3 c1 i1 s1 d1 where r:
    "distribute_run Inr xs (cont caps) c (k, cont t) = Inr (k1, c1)" "distribute_run Inr xs (dint caps) i (k1, dint t) = Inr (k2, i1)"
    "distribute_run Inr xs (dstr caps) s (k2, dstr t) = Inr (k3, s1)" "distribute_run Inr xs (dreal caps) d (k3, dreal t) = Inr (k', d1)"
    and t': "t' = \<lparr>cont = c1, dint = i1, dstr = s1, dreal = d1\<rparr>"
    using assms(1) by (auto simp: distribute_group_def elim!: rbind_InrE)
  from r [THEN distribute_run_result] t' show ?thesis by (simp add: v_def append_kinds_def)
qed

lemma distribute_groups_merge:
  assumes "rfold (distribute_group (Inr, Inr, Inr, Inr) xs caps) gs (k, t) = Inr (k', t')"
  shows "\<exists>u. t' = append_kinds t u \<and> k \<le> k' \<and> merge_groups gs u = take (k' - k) (drop k xs) \<and>
    length (merge_groups gs u) = k' - k \<and> length (cont u) + length (dint u) + length (dstr u) + length (dreal u) = k' - k"
  using assms
proof (induction gs arbitrary: k t)
  case Nil
  then show ?case by (intro exI [of _ no_points]) (cases t, auto simp: append_kinds_def no_points_def)
next
  case (Cons g gs)
  obtain c i s d where g: "g = (c, i, s, d)" by (cases g) auto
  obtain k1 t1 where 1: "distribute_group (Inr, Inr, Inr, Inr) xs caps g (k, t) = Inr (k1, t1)"
    and 2: "rfold (distribute_group (Inr, Inr, Inr, Inr) xs caps) gs (k1, t1) = Inr (k', t')"
    using Cons.prems by (auto simp: rbind_Inr_iff)
  let ?v = "\<lparr>cont = take c (drop k xs), dint = take i (drop (k + c) xs), dstr = take s (drop (k + c + i) xs),
    dreal = take d (drop (k + c + i + s) xs)\<rparr>"
  have t1: "t1 = append_kinds t ?v" and k1: "k1 = k + c + i + s + d"
    and full: "length (take c (drop k xs)) = c" "length (take i (drop (k + c) xs)) = i" "length (take s (drop (k + c + i) xs)) = s"
      "length (take d (drop (k + c + i + s) xs)) = d"
    using distribute_group_result [OF 1 [unfolded g]] by simp_all
  obtain u where u: "t' = append_kinds t1 u" "k1 \<le> k'" "merge_groups gs u = take (k' - k1) (drop k1 xs)" "length (merge_groups gs u) = k' - k1"
    "length (cont u) + length (dint u) + length (dstr u) + length (dreal u) = k' - k1"
    using Cons.IH [OF 2] by auto
  have m: "merge_groups (g # gs) (append_kinds ?v u) = take c (drop k xs) @ take i (drop (k + c) xs) @ take s (drop (k + c + i) xs) @
      take d (drop (k + c + i + s) xs) @ merge_groups gs u"
    using full by (cases u) (simp add: g append_kinds_def)
  have "k' - k = c + (i + (s + (d + (k' - k1))))" using u(2) k1 by simp
  then have "take (k' - k) (drop k xs) = take c (drop k xs) @ take i (drop (k + c) xs) @ take s (drop (k + c + i) xs) @
      take d (drop (k + c + i + s) xs) @ take (k' - k1) (drop k1 xs)"
    by (simp only: take_drop_split k1 add.assoc)
  then have "merge_groups (g # gs) (append_kinds ?v u) = take (k' - k) (drop k xs)" using m u(3) by simp
  moreover have "length (merge_groups (g # gs) (append_kinds ?v u)) = k' - k" unfolding m using full u(2,4) k1 by simp
  moreover have "length (cont (append_kinds ?v u)) + length (dint (append_kinds ?v u)) + length (dstr (append_kinds ?v u)) +
      length (dreal (append_kinds ?v u)) = k' - k"
    unfolding append_kinds_def by_kind.simps length_append full using u(2,5) k1 by linarith
  moreover have "t' = append_kinds t (append_kinds ?v u)" using u(1) t1 by (simp add: append_kinds_def)
  ultimately show ?case using u(2) k1 by (intro exI [of _ "append_kinds ?v u"]) simp
qed

lemma distribute_array_merge:
  assumes "distribute_array M caps xs = Inr (Some t)"
  shows "merge_groups (totals_groups (active_components_totals M)) t = xs"
proof -
  let ?gs = "totals_groups (active_components_totals M)"
  let ?f = "rfold (distribute_group (Inr, Inr, Inr, Inr) xs caps) ?gs (0, no_points)"
  have l: "length xs = cont caps + dint caps + dstr caps + dreal caps"
    using assms by (simp add: distribute_array_def distribute_def split: if_splits)
  then have "rbind ?f (\<lambda>(_, out). if length (cont out) = cont caps \<and> length (dint out) = dint caps \<and> length (dstr out) = dstr caps \<and>
      length (dreal out) = dreal caps then Inr (Some out) else Inl (UndefinedBehaviour ''uninitialized'')) = Inr (Some t)"
    using assms by (simp add: distribute_array_def distribute_def Let_def totals_groups_def no_points_def del: rfold.simps)
  then obtain k where r: "?f = Inr (k, t)"
    and s: "length (cont t) = cont caps" "length (dint t) = dint caps" "length (dstr t) = dstr caps" "length (dreal t) = dreal caps"
    by (cases ?f) (auto simp del: rfold.simps split: if_splits)
  obtain u where u: "t = append_kinds no_points u" "merge_groups ?gs u = take k xs"
    "length (cont u) + length (dint u) + length (dstr u) + length (dreal u) = k"
    using distribute_groups_merge [OF r] by auto
  have "t = u" using u(1) by (cases u) (simp add: append_kinds_def no_points_def)
  then show ?thesis using u s l by simp
qed

text \<open>C40: distribution loses nothing.  Whenever an array is distributed among the kinds of variables, merging the four arrays
  group by group gives it back.
\<close>

theorem distribute_round_trip:
  assumes "distribute_array M caps xs = Inr (Some t)"
  shows "merge_groups (totals_groups (active_components_totals M)) t = xs"
  using assms by (rule distribute_array_merge)

lemma distribute_round_trip_witness:
  "\<exists>t. distribute_array study_model (numVars (base_study LIST_PARAMETER_STUDY)) [7, 8, 9 :: int] = Inr (Some t) \<and>
     merge_groups (totals_groups (active_components_totals study_model)) t = [7, 8, 9]"
proof -
  have e: "distribute_array study_model (numVars (base_study LIST_PARAMETER_STUDY)) [7, 8, 9 :: int] =
      Inr (Some \<lparr>cont = [7], dint = [8], dstr = [9], dreal = []\<rparr>)"
    by code_simp
  then show ?thesis using distribute_round_trip [OF e] by blast
qed

section \<open>The run of a list study\<close>

definition point_vars :: "('r list, int list, string list, 'r list) by_kind \<Rightarrow> 'r active_vars" where
  "point_vars p = \<lparr>cvars = cont p, divars = dint p, dsvars = dstr p, drvars = dreal p\<rparr>"

lemma promote_int_sized:
  "rfold (promote_int M xs) [0..<m] (out, k) = Inr (ys, k') \<Longrightarrow> length ys = length out + m"
proof (induction m arbitrary: ys k')
  case (Suc m)
  then obtain zs l where zs: "rfold (promote_int M xs) [0..<m] (out, k) = Inr (zs, l)" and p: "promote_int M xs m (zs, l) = Inr (ys, k')"
    by (auto simp: rfold_snoc rbind_Inr_iff)
  show ?case using Suc.IH [OF zs] p by (auto simp: promote_int_def rbind_Inr_iff split: if_splits)
qed simp

lemma list_sample_sized: "list_sample M n xs = Inr p \<Longrightarrow> sized n (point_vars p)"
  by (auto simp: list_sample_def result_simps sized_def point_vars_def distribute_reals_def split: option.splits
      dest!: promote_int_sized collect_length distribute_sized)

lemma sample_point_listed:
  assumes "listPoints st = \<lparr>cont = if cont n \<noteq> 0 then map cont ps else a, dint = if dint n \<noteq> 0 then map dint ps else b,
      dstr = if dstr n \<noteq> 0 then map dstr ps else c, dreal = if dreal n \<noteq> 0 then map dreal ps else d\<rparr>"
    and "numVars st = n" "sized n v" "i < length ps" "sized n (point_vars (ps ! i))"
  shows "sample_point st i v = Inr (point_vars (ps ! i))"
  using assms
  by (auto simp: sample_point_def Let_def assign_listed_def assign_view_def vec_at_ok sized_def point_vars_def)

lemma map_nth_eq: "length ps = n \<Longrightarrow> map (\<lambda>i. f (ps ! i)) [0..<n] = map f ps"
  by (simp add: list_eq_iff_nth_eq)

text \<open>
  A distribution with casts is the plain distribution, entry by entry cast.
\<close>

definition cast_to :: "('a \<Rightarrow> 'b result) \<Rightarrow> 'a list \<Rightarrow> 'b list \<Rightarrow> bool" where
  "cast_to cast xs ys \<longleftrightarrow> list_all2 (\<lambda>a x. cast a = Inr x) xs ys"

lemma distribute_run_cast:
  assumes "distribute_run cast xs cap n (k, out) = Inr (k', out')" "cast_to cast raw out"
  shows "\<exists>raw'. distribute_run Inr xs cap n (k, raw) = Inr (k', raw') \<and> cast_to cast raw' out'"
  using assms(1)
proof (induction n arbitrary: k' out')
  case 0
  then show ?case using assms(2) by (simp add: distribute_run_def)
next
  case (Suc n)
  obtain k1 out1 a x where 1: "distribute_run cast xs cap n (k, out) = Inr (k1, out1)" "length out1 < cap" "vec_at xs k1 = Inr a"
    "cast a = Inr x" "k' = Suc k1" "out' = out1 @ [x]"
    using Suc.prems unfolding distribute_run_Suc by (auto simp: rbind_Inr_iff split: if_splits)
  obtain raw1 where 2: "distribute_run Inr xs cap n (k, raw) = Inr (k1, raw1)" "cast_to cast raw1 out1" using Suc.IH [OF 1(1)] by blast
  then have "length raw1 < cap" using 1(2) by (simp add: cast_to_def list_all2_lengthD)
  then show ?case unfolding distribute_run_Suc using 1 2 by (simp add: cast_to_def list_all2_appendI)
qed

definition casts_to :: "('a \<Rightarrow> 'c result) \<times> ('a \<Rightarrow> 'i result) \<times> ('a \<Rightarrow> 's result) \<times> ('a \<Rightarrow> 'd result) \<Rightarrow>
    ('a list, 'a list, 'a list, 'a list) by_kind \<Rightarrow> ('c list, 'i list, 's list, 'd list) by_kind \<Rightarrow> bool" where
  "casts_to casts u t \<longleftrightarrow> (case casts of (fc, fi, fs, fd) \<Rightarrow>
     cast_to fc (cont u) (cont t) \<and> cast_to fi (dint u) (dint t) \<and> cast_to fs (dstr u) (dstr t) \<and> cast_to fd (dreal u) (dreal t))"

lemma distribute_group_cast:
  assumes "distribute_group casts xs caps g (k, t) = Inr (k', t')" "casts_to casts u t"
  shows "\<exists>u'. distribute_group (Inr, Inr, Inr, Inr) xs caps g (k, u) = Inr (k', u') \<and> casts_to casts u' t'"
proof -
  obtain fc fi fs fd where f: "casts = (fc, fi, fs, fd)" by (cases casts) auto
  obtain c i s d where g: "g = (c, i, s, d)" by (cases g) auto
  obtain k1 k2 k3 c1 i1 s1 d1 where r:
    "distribute_run fc xs (cont caps) c (k, cont t) = Inr (k1, c1)" "distribute_run fi xs (dint caps) i (k1, dint t) = Inr (k2, i1)"
    "distribute_run fs xs (dstr caps) s (k2, dstr t) = Inr (k3, s1)" "distribute_run fd xs (dreal caps) d (k3, dreal t) = Inr (k', d1)"
    and t': "t' = \<lparr>cont = c1, dint = i1, dstr = s1, dreal = d1\<rparr>"
    using assms(1) by (auto simp: distribute_group_def f g elim!: rbind_InrE)
  have u: "cast_to fc (cont u) (cont t)" "cast_to fi (dint u) (dint t)" "cast_to fs (dstr u) (dstr t)" "cast_to fd (dreal u) (dreal t)"
    using assms(2) by (simp_all add: casts_to_def f)
  show ?thesis
    using distribute_run_cast [OF r(1) u(1)] distribute_run_cast [OF r(2) u(2)] distribute_run_cast [OF r(3) u(3)]
      distribute_run_cast [OF r(4) u(4)]
    by (auto simp: distribute_group_def g f t' casts_to_def)
qed

lemma distribute_groups_cast:
  assumes "rfold (distribute_group casts xs caps) gs (k, t) = Inr (k', t')" "casts_to casts u t"
  shows "\<exists>u'. rfold (distribute_group (Inr, Inr, Inr, Inr) xs caps) gs (k, u) = Inr (k', u') \<and> casts_to casts u' t'"
  using assms
proof (induction gs arbitrary: k t u)
  case (Cons g gs)
  obtain k1 t1 where 1: "distribute_group casts xs caps g (k, t) = Inr (k1, t1)" "rfold (distribute_group casts xs caps) gs (k1, t1) = Inr (k', t')"
    using Cons.prems(1) by (auto simp: rbind_Inr_iff)
  obtain u1 where u1: "distribute_group (Inr, Inr, Inr, Inr) xs caps g (k, u) = Inr (k1, u1)" "casts_to casts u1 t1"
    using distribute_group_cast [OF 1(1) Cons.prems(2)] by blast
  show ?case using Cons.IH [OF 1(2) u1(2)] u1(1) by simp
qed simp

lemma casts_to_lengths:
  "casts_to casts u t \<Longrightarrow> length (cont u) = length (cont t) \<and> length (dint u) = length (dint t) \<and> length (dstr u) = length (dstr t) \<and>
    length (dreal u) = length (dreal t)"
  by (auto simp: casts_to_def cast_to_def list_all2_lengthD split: prod.splits)

lemma distribute_cast:
  assumes "distribute casts M caps xs = Inr (Some t)"
  shows "\<exists>u. distribute_array M caps xs = Inr (Some u) \<and> casts_to casts u t"
proof -
  let ?gs = "totals_groups (active_components_totals M)"
  obtain k where r: "rfold (distribute_group casts xs caps) ?gs (0, no_points) = Inr (k, t)"
    and s: "length (cont t) = cont caps" "length (dint t) = dint caps" "length (dstr t) = dstr caps" "length (dreal t) = dreal caps"
    and l: "length xs = cont caps + dint caps + dstr caps + dreal caps"
    using assms by (auto simp: distribute_def Let_def totals_groups_def no_points_def rbind_Inr_iff simp del: rfold.simps split: if_splits)
  have "casts_to casts no_points no_points" by (simp add: casts_to_def cast_to_def no_points_def split: prod.splits)
  from distribute_groups_cast [OF r this] obtain u
    where u: "rfold (distribute_group (Inr, Inr, Inr, Inr) xs caps) ?gs (0, no_points) = Inr (k, u)" "casts_to casts u t" by blast
  then have "distribute_array M caps xs = Inr (Some u)"
    using s l casts_to_lengths [OF u(2)]
    by (simp add: distribute_array_def distribute_def Let_def totals_groups_def no_points_def del: rfold.simps)
  then show ?thesis using u(2) by blast
qed

text \<open>The run of an accepted list copies the samples of its parts.\<close>

lemma list_study_samples:
  fixes dbl_inf :: "'r::floor_ceiling"
  assumes "ParamStudy dbl_inf M sp st0 = Inr st" "methodName st0 = LIST_PARAMETER_STUDY" "spec_list_of_points sp \<noteq> []"
    and "allVariables st0 = []" "model_ok M (numVars st0)"
  shows "\<exists>st' ps. pre_run increment M st = Inr st' \<and> allVariables st' = map point_vars ps \<and> length ps = numEvals st \<and>
    numEvals st * num_vars st0 = length (spec_list_of_points sp) \<and>
    (\<forall>i<numEvals st. list_sample M (numVars st0) (take (num_vars st0) (drop (i * num_vars st0) (spec_list_of_points sp))) = Inr (ps ! i))"
proof -
  let ?n = "numVars st0" and ?nv = "num_vars st0" and ?l = "spec_list_of_points sp"
  obtain st1 where c: "distribute_list_of_points M ?l st0 = Inr (False, st1)"
    and st: "st = st1\<lparr>maxEvalConcurrency := as_int (maxEvalConcurrency st1 * int (numEvals st1))\<rparr>"
    using assms(1-3) by (auto simp: ParamStudy_def construct_list_def result_simps split: if_splits)
  obtain ps where ps: "collect (\<lambda>i. list_sample M ?n (take ?nv (drop (i * ?nv) ?l))) [0..<length ?l div ?nv] = Inr ps"
    and m: "length ?l mod ?nv = 0" and st1: "st1 = st0\<lparr>numEvals := length ?l div ?nv, listPoints :=
         \<lparr>cont = if cont ?n \<noteq> 0 then map cont ps else cont (listPoints st0), dint = if dint ?n \<noteq> 0 then map dint ps else dint (listPoints st0),
          dstr = if dstr ?n \<noteq> 0 then map dstr ps else dstr (listPoints st0), dreal = if dreal ?n \<noteq> 0 then map dreal ps else dreal (listPoints st0)\<rparr>\<rparr>"
    using c by (auto simp: distribute_list_of_points_def Let_def rbind_Inr_iff split: if_splits)
  have ev: "numEvals st = length ?l div ?nv" "length ps = numEvals st" using st st1 collect_length [OF ps] by simp_all
  have each: "list_sample M ?n (take ?nv (drop (i * ?nv) ?l)) = Inr (ps ! i)" if "i < numEvals st" for i
    using collect_nth [OF ps, of i] that ev by simp
  let ?st = "resize_variables (current_variables M) st"
  have all: "allVariables ?st = replicate (numEvals st) (current_variables M)" using resize_fresh [of st] st st1 assms(4) by simp
  have "rfold (\<lambda>i. update_at i (sample_point ?st i)) [0..<numEvals st] (allVariables ?st) =
      rbind (collect (\<lambda>i. if i < numEvals st then Inr (point_vars (ps ! i)) else Inl OutOfFuel) [0..<numEvals st]) (\<lambda>ys. Inr (ys @ drop (numEvals st) (allVariables ?st)))"
  proof (rule rfold_update_at)
    fix i x assume "i < length (allVariables ?st)" "x \<in> set (allVariables ?st)"
    then have i: "i < numEvals st" and x: "x = current_variables M" using all by auto
    have "sample_point ?st i x = Inr (point_vars (ps ! i))"
      by (rule sample_point_listed [where n = ?n]) (use st st1 i x ev assms(5) list_sample_sized [OF each [OF i]] in
        \<open>simp_all add: resize_variables_def model_ok_def\<close>)
    then show "sample_point ?st i x = (if i < numEvals st then Inr (point_vars (ps ! i)) else Inl OutOfFuel)" using i by simp
  qed (use all in simp)
  also have "collect (\<lambda>i. if i < numEvals st then Inr (point_vars (ps ! i)) else Inl OutOfFuel) [0..<numEvals st] =
      Inr (map (\<lambda>i. point_vars (ps ! i)) [0..<numEvals st])"
    by (rule collect_ok) simp
  finally have "rfold (\<lambda>i. update_at i (sample_point ?st i)) [0..<numEvals st] (allVariables ?st) = Inr (map point_vars ps)"
    using all ev(2) by (simp add: map_nth_eq)
  moreover have "numEvals ?st = numEvals st" "methodName st = LIST_PARAMETER_STUDY" using st st1 assms(2) by (simp_all add: resize_variables_def)
  ultimately have "pre_run increment M st = Inr (?st\<lparr>allVariables := map point_vars ps, listPoints := \<lparr>cont = [], dint = [], dstr = [], dreal = []\<rparr>\<rparr>)"
    by (simp add: pre_run_def sample_def resize_variables_def)
  moreover have "numEvals st * ?nv = length ?l" using ev(1) m by (metis div_mult_mod_eq add.right_neutral)
  ultimately show ?thesis using ev(2) each
    by (intro exI [of _ "?st\<lparr>allVariables := map point_vars ps, listPoints := \<lparr>cont = [], dint = [], dstr = [], dreal = []\<rparr>\<rparr>"] exI [of _ ps]) simp
qed
text \<open>
  What a listed point means, stated without the loops of the code: the values of one part of the list are those of
  the continuous, integer, string and real variables in the groups of the specification.  A continuous variable takes its
  value, an integer variable of a range takes it rounded towards zero, and a set variable takes the element of its set
  at that index, which must exist.
\<close>

definition truncated :: "'r::floor_ceiling \<Rightarrow> int" where
  "truncated x = (if x < 0 then \<lceil>x\<rceil> else \<lfloor>x\<rfloor>)"

definition element_at :: "'a list \<Rightarrow> 'r::floor_ceiling \<Rightarrow> 'a \<Rightarrow> bool" where
  "element_at vals x y \<longleftrightarrow> 0 \<le> truncated x \<and> truncated x < int (length vals) \<and> y = vals ! nat (truncated x)"

definition point_listed :: "'r::floor_ceiling iterated_model \<Rightarrow> kind_counts \<Rightarrow> ('r list, 'r list, 'r list, 'r list) by_kind \<Rightarrow> 'r active_vars \<Rightarrow> bool" where
  "point_listed M n u v \<longleftrightarrow> sized n v \<and>
     length (cont u) = cont n \<and> length (dint u) = dint n \<and> length (dstr u) = dstr n \<and> length (dreal u) = dreal n \<and> cvars v = cont u \<and>
     (\<forall>j<dint n. if discrete_int_sets M ! j then element_at (int_set M j) (dint u ! j) (divars v ! j) else divars v ! j = truncated (dint u ! j)) \<and>
     (\<forall>j<dstr n. element_at (discrete_set_string_values M ! j) (dstr u ! j) (dsvars v ! j)) \<and>
     (\<forall>j<dreal n. element_at (discrete_set_real_values M ! j) (dreal u ! j) (drvars v ! j))"

lemma real_to_int_truncated: "real_to_int x = Inr i \<Longrightarrow> i = truncated x"
  by (auto simp: real_to_int_def truncated_def checked_int_def split: if_splits)

lemma cast_truncated: "cast_to real_to_int xs ys \<Longrightarrow> ys = map truncated xs"
  by (auto simp: cast_to_def list_all2_conv_all_nth list_eq_iff_nth_eq dest!: real_to_int_truncated)

lemma cast_same: "cast_to Inr xs ys \<Longrightarrow> ys = xs"
  by (auto simp: cast_to_def list_all2_conv_all_nth list_eq_iff_nth_eq)

lemma promote_element:
  "promote is sets j k = Inr y \<Longrightarrow> j < length is \<and> k < length sets \<and> 0 \<le> is ! j \<and> is ! j < int (length (sets ! k)) \<and> y = sets ! k ! nat (is ! j)"
  by (auto simp: promote_def rbind_Inr_iff vec_at_def set_index_to_value_def split: if_splits option.splits)

lemma promote_int_entries:
  assumes "rfold (promote_int M is) [0..<m] ([], 0) = Inr (ys, k)"
  shows "k = set_rank M m \<and> length ys = m \<and> m \<le> length (discrete_int_sets M) \<and>
    (\<forall>j<m. if discrete_int_sets M ! j then 0 \<le> is ! j \<and> is ! j < int (length (int_set M j)) \<and> ys ! j = int_set M j ! nat (is ! j)
      else ys ! j = is ! j)"
  using assms
proof (induction m arbitrary: ys k)
  case 0
  then show ?case by (simp add: set_rank_def bit_count_def)
next
  case (Suc m)
  then obtain zs l where zs: "rfold (promote_int M is) [0..<m] ([], 0) = Inr (zs, l)" and p: "promote_int M is m (zs, l) = Inr (ys, k)"
    by (auto simp: rfold_snoc rbind_Inr_iff)
  have m: "m < length (discrete_int_sets M)" using p by (auto simp: promote_int_def rbind_Inr_iff vec_at_def split: if_splits)
  have l: "l = set_rank M m" using Suc.IH [OF zs] by simp
  obtain y where y: "ys = zs @ [y]" "k = set_rank M (Suc m)"
    "if discrete_int_sets M ! m then 0 \<le> is ! m \<and> is ! m < int (length (int_set M m)) \<and> y = int_set M m ! nat (is ! m) else y = is ! m"
    using p m l
    by (auto simp: promote_int_def rbind_Inr_iff vec_at_ok int_set_def set_rank_Suc dest!: promote_element split: if_splits)
      (auto simp: vec_at_def split: if_splits)
  show ?case using Suc.IH [OF zs] y m by (auto simp: nth_append less_Suc_eq split: if_splits)
qed

lemma list_sample_listed:
  assumes "list_sample M n xs = Inr p"
  shows "\<exists>u. merge_groups (totals_groups (active_components_totals M)) u = xs \<and> point_listed M n u (point_vars p)"
proof -
  obtain t i k s d where t: "distribute_reals M n xs = Inr (Some t)" and i: "rfold (promote_int M (dint t)) [0..<dint n] ([], 0) = Inr (i, k)"
    and s: "collect (\<lambda>j. promote (dstr t) (discrete_set_string_values M) j j) [0..<dstr n] = Inr s"
    and d: "collect (\<lambda>j. promote (dreal t) (discrete_set_real_values M) j j) [0..<dreal n] = Inr d"
    and p: "p = \<lparr>cont = cont t, dint = i, dstr = s, dreal = d\<rparr>"
    using assms by (auto simp: list_sample_def rbind_Inr_iff split: option.splits)
  obtain u where u: "distribute_array M n xs = Inr (Some u)" "casts_to (Inr, real_to_int, real_to_int, real_to_int) u t"
    using distribute_cast t unfolding distribute_reals_def by blast
  have t': "cont t = cont u" "dint t = map truncated (dint u)" "dstr t = map truncated (dstr u)" "dreal t = map truncated (dreal u)"
    using u(2) by (auto simp: casts_to_def cast_truncated cast_same)
  have sz: "length (cont u) = cont n" "length (dint u) = dint n" "length (dstr u) = dstr n" "length (dreal u) = dreal n"
    using distribute_sized u(1) unfolding distribute_array_def by blast+
  have "element_at (discrete_set_string_values M ! j) (dstr u ! j) (s ! j)" if "j < dstr n" for j
    using promote_element [of "dstr t" "discrete_set_string_values M" j j "s ! j"] collect_nth [OF s, of j] that sz t'(3) by (simp add: element_at_def)
  moreover have "element_at (discrete_set_real_values M ! j) (dreal u ! j) (d ! j)" if "j < dreal n" for j
    using promote_element [of "dreal t" "discrete_set_real_values M" j j "d ! j"] collect_nth [OF d, of j] that sz t'(4) by (simp add: element_at_def)
  moreover have "\<forall>j<dint n. if discrete_int_sets M ! j then element_at (int_set M j) (dint u ! j) (i ! j) else i ! j = truncated (dint u ! j)"
    using promote_int_entries [OF i] t'(2) sz by (auto simp: element_at_def)
  ultimately have "point_listed M n u (point_vars p)"
    using list_sample_sized [OF assms] p t' sz by (simp add: point_listed_def point_vars_def)
  moreover have "merge_groups (totals_groups (active_components_totals M)) u = xs" by (rule distribute_array_merge [OF u(1)])
  ultimately show ?thesis by blast
qed

text \<open>C39: a list study evaluates the listed points.  Once a list that is given in the input is accepted, the first run after
  construction succeeds: there are as many evaluations as the list has complete points, and evaluation \<open>i\<close> is the point
  that the \<open>i\<close>-th part of the list describes: its values by kind, merged in specification order, are that part.  (A list that is
  imported from a file is already in terms of values; a second run is undefined.)
\<close>

theorem list_study_evaluates_listed_points:
  fixes dbl_inf :: "'r::floor_ceiling"
  assumes "ParamStudy dbl_inf M sp st0 = Inr st" "methodName st0 = LIST_PARAMETER_STUDY" "spec_list_of_points sp \<noteq> []"
    and "allVariables st0 = []" "model_ok M (numVars st0)"
  shows "\<exists>st'. pre_run increment M st = Inr st' \<and> length (allVariables st') = numEvals st \<and>
    numEvals st * num_vars st0 = length (spec_list_of_points sp) \<and>
    (\<forall>i<numEvals st. \<exists>u. merge_groups (totals_groups (active_components_totals M)) u =
        take (num_vars st0) (drop (i * num_vars st0) (spec_list_of_points sp)) \<and>
      point_listed M (numVars st0) u (allVariables st' ! i))"
proof -
  obtain st' ps where "pre_run increment M st = Inr st'" "allVariables st' = map point_vars ps" "length ps = numEvals st"
    "numEvals st * num_vars st0 = length (spec_list_of_points sp)"
    "\<forall>i<numEvals st. list_sample M (numVars st0) (take (num_vars st0) (drop (i * num_vars st0) (spec_list_of_points sp))) = Inr (ps ! i)"
    using list_study_samples [OF assms] by blast
  then show ?thesis by (intro exI [of _ st']) (auto dest!: list_sample_listed)
qed

definition list_example_spec :: "rat study_spec" where
  "list_example_spec = study_example_spec\<lparr>spec_list_of_points := [1 / 4, 3, 2, 1, 5, 0]\<rparr>"

definition list_example :: "rat study" where
  "list_example = projr (ParamStudy 1000 study_model list_example_spec (base_study LIST_PARAMETER_STUDY))"

lemma list_example_eval: "ParamStudy 1000 study_model list_example_spec (base_study LIST_PARAMETER_STUDY) = Inr list_example"
proof -
  have "is_ok (ParamStudy 1000 study_model list_example_spec (base_study LIST_PARAMETER_STUDY))" by code_simp
  then show ?thesis by (simp add: list_example_def is_ok_projr)
qed

lemma list_example_facts:
  "model_ok study_model (numVars (base_study LIST_PARAMETER_STUDY))" "numEvals list_example = 2"
  "is_ok (list_sample study_model (numVars (base_study LIST_PARAMETER_STUDY)) [1 / 4, 3, 2])"
  by code_simp+

lemma list_study_evaluates_listed_points_witness:
  "\<exists>st'. pre_run odometer study_model list_example = Inr st' \<and> length (allVariables st') = 2 \<and>
    allVariables st' ! 0 = \<lparr>cvars = [1 / 4], divars = [3], dsvars = [''c''], drvars = []\<rparr>"
proof -
  have h: "methodName (base_study LIST_PARAMETER_STUDY) = LIST_PARAMETER_STUDY" "spec_list_of_points list_example_spec \<noteq> []"
    "allVariables (base_study LIST_PARAMETER_STUDY) = []"
    by (simp_all add: base_study_def list_example_spec_def study_example_spec_def)
  have n: "num_vars (base_study LIST_PARAMETER_STUDY) = 3" "numVars (base_study LIST_PARAMETER_STUDY) = \<lparr>cont = 1, dint = 1, dstr = 1, dreal = 0\<rparr>"
    by (simp_all add: num_vars_def base_study_def)
  obtain st' where st': "pre_run odometer study_model list_example = Inr st'" "length (allVariables st') = 2"
    and p: "\<forall>i<2. \<exists>u. merge_groups (totals_groups (active_components_totals study_model)) u = take 3 (drop (i * 3) (spec_list_of_points list_example_spec)) \<and>
      point_listed study_model \<lparr>cont = 1, dint = 1, dstr = 1, dreal = 0\<rparr> u (allVariables st' ! i)"
    using list_study_evaluates_listed_points [OF list_example_eval h list_example_facts(1), of odometer, unfolded list_example_facts(2) n]
    by blast
  obtain u where u: "merge_groups (totals_groups (active_components_totals study_model)) u = [1 / 4, 3, 2]"
    and l: "point_listed study_model \<lparr>cont = 1, dint = 1, dstr = 1, dreal = 0\<rparr> u (allVariables st' ! 0)"
    using p [rule_format, of 0] by (auto simp: list_example_spec_def)
  obtain a b c where abc: "cont u = [a]" "dint u = [b]" "dstr u = [c]"
    using l by (auto simp: point_listed_def length_Suc_conv)
  then have "a = 1 / 4" "b = 3" "c = 2" using u by (simp_all add: totals_groups_def study_model_def zero_counts_def)
  then have "allVariables st' ! 0 = \<lparr>cvars = [1 / 4], divars = [3], dsvars = [''c''], drvars = []\<rparr>"
    using l abc
    by (cases "allVariables st' ! 0")
      (auto simp: point_listed_def sized_def element_at_def truncated_def study_model_def length_Suc_conv)
  then show ?thesis using st' by blast
qed

end
