(* ===== verification/Spec2Isabelle.thy ===== *)
theory Spec2Isabelle
  imports Digital_Net Rank1_Lattice Service_Properties Quasi_Properties Model_Properties Type_Properties List_Study
begin

text \<open>
  Verification library for Dakota (\<^verbatim>\<open>src/src\<close>).

  Dakota couples iterators (optimizers, samplers) to simulations.  An iterator asks a model for the
  response at a set of variables; the model passes the request to an interface, which answers it from
  a cache, runs the simulation, or queues it for a schedule over local processes or MPI servers.
  Sample generators and parameter studies produce the points that are evaluated.  The library models four parts
  of this: the evaluation path from the model down to the servers, the bookkeeping of variables, the
  parameter studies, and the low-discrepancy generators.

  \<^bold>\<open>Evaluation path\<close>, bottom up.
  \<^item> \<open>Active_Set\<close>, \<open>Dakota_Response\<close>: requests (\<^verbatim>\<open>DakotaActiveSet\<close>) and responses (\<^verbatim>\<open>DakotaResponse\<close>):
    values, gradients and Hessians with the bit requests that say which are present; copying, resizing,
    arrays of doubles and messages.  \<open>Pack_Buffer\<close>: the growing send buffer of \<^verbatim>\<open>MPIPackBuffer\<close>.
  \<^item> \<open>Ordered_Index\<close>, \<open>PRP_Store\<close>: the containers of parameter-response pairs (\<^verbatim>\<open>PRPMultiIndex.hpp\<close>,
    \<^verbatim>\<open>ParamResponsePair.hpp\<close>): cache and queues, and their lookups by value, by id and within a tolerance.
    The hash function of Boost and the buckets of the hashed index are parameters with the contract of a hashed index;
    the hash depends on the view of the variables and equality does not, so a pair with another view can be missed.
  \<^item> \<open>Interface_Mapping\<close>: counters and algebraic mappings of the interface base class (\<^verbatim>\<open>DakotaInterface.cpp\<close>).
  \<^item> \<open>App_State\<close>: configuration and state of \<^verbatim>\<open>ApplicationInterface\<close>, and failure capture.
    \<open>Local_Scheduler\<close>: the local asynchronous schedules.  \<open>Message_Scheduler\<close>, \<open>Message_Tracking\<close>,
    \<open>Peer_Dynamic\<close>, \<open>Message_Nowait\<close>, \<open>Peer_Nowait\<close>: the master and peer schedules, blocking and nonblocking.
  \<^item> \<open>App_Interface\<close>, \<open>App_Service\<close>, \<open>Nowait_Service\<close>: \<^verbatim>\<open>map\<close>, \<^verbatim>\<open>synchronize\<close> and \<^verbatim>\<open>synchronize_nowait\<close> with
    duplicate detection, and the invariant that ties queue, duplicates and cached answers together.
  \<^item> \<open>Message_Properties\<close>, \<open>Nowait_Properties\<close>, \<open>Service_Properties\<close>: what the schedules and the service
    promise.  The abstract service is a counter and a set of outstanding ids; every run of
    submissions and nonblocking synchronizations is a trace of it, so each evaluation is delivered once.  This is shown for
    simulations (no algebraic mappings, active set vectors in control) and, of the nonblocking schedules, for the local
    one, the master's and the dynamic one among peers; the static one among peers reuses a pending buffer
    (\<open>Nowait_Properties\<close> has the run) and algebraic contributions are merged twice or looked up without a check.  Blocking synchronization is
    covered for all four schedules.

  \<^bold>\<open>Models\<close> (\<^verbatim>\<open>DakotaModel.cpp\<close>, \<^verbatim>\<open>SimulationModel.cpp\<close>), above the interfaces.
  \<^item> \<open>Finite_Difference\<close>, \<open>Derivative_Estimation\<close>: difference steps within bounds, the split of a request into
    what is mapped and what is estimated, and the estimation of gradients and Hessians by differences, synchronous and queued.
    \<open>Quasi_Newton\<close>: the updates of BFGS and SR1.  \<open>Model_Evaluation\<close>: \<^verbatim>\<open>evaluate\<close>, \<^verbatim>\<open>evaluate_nowait\<close> and their
    synchronization.  \<open>Simulation_Model\<close>: responses are filed under the ids of the model.
  \<^item> \<open>Estimation_Accuracy\<close>, \<open>Quasi_Properties\<close>, \<open>Model_Properties\<close>: central differences are exact on quadratic
    functions, damped updates stay positive definite, queued evaluation answers what synchronous evaluation does.
  The step from a model to its interface is the record \<open>derived_model\<close>; \<open>simulation_model\<close> is the instance.

  \<^bold>\<open>Variables\<close> (\<^verbatim>\<open>SharedVariablesData\<close>).  \<open>Variable_Views\<close> and \<open>View_Properties\<close>: counts by group and kind, relaxation, views,
  index conversions and masks, which are shown to describe the same variables.  \<open>Variable_Types\<close> and \<open>Type_Properties\<close>:
  construction from a problem description, whose queries are parameters; labels, types and ids agree in number.

  \<^bold>\<open>Parameter studies\<close> (\<^verbatim>\<open>ParamStudy\<close>).  \<open>Param_Study\<close> holds the specification checks, the steps and loops, and the archive of
  slices.  \<open>Study_Points\<close> shows the loops, which step in place with running counters, equal to a reference that
  computes each coordinate on its own.  \<open>Study_Properties\<close> (centered), \<open>Grid_Study\<close> (multidimensional), \<open>Line_Study\<close> (vector) and
  \<open>List_Study\<close> then give the points of each kind of study in closed form, and the uses that go wrong.  The increment of a
  multidimensional index belongs to Pecos and is an argument; its contract \<open>counts_up\<close> says that it counts.
  Machine integers wrap or are checked where the code has them: the number of grid points is a \<^verbatim>\<open>size_t\<close> product that
  wraps at \<open>2 ^ 64\<close>, and the lengths of slices are \<^verbatim>\<open>int\<close> values, undefined from \<open>2 ^ 30\<close> steps on.  The theorems are
  about the first run after construction; later runs of vector and list studies go wrong (\<open>Line_Study\<close>).

  \<^bold>\<open>Sample generators.\<close>  \<open>Bit_Utils\<close> (\<^verbatim>\<open>dakota_bit_utils.hpp\<close>), \<open>Low_Discrepancy\<close>
  (\<^verbatim>\<open>LowDiscrepancySequence.hpp\<close>), \<open>Digital_Net\<close> and \<open>Rank1_Lattice\<close>: the incremental generators equal the
  direct matrix and lattice formulas, scrambling keeps the first digits, blocks continue each other.

  \<^bold>\<open>Conventions.\<close>  \<open>Dakota_Prelude\<close> holds errors as values: \<open>Abort\<close> for the abort handler, \<open>UndefinedBehaviour\<close>
  for an access that C++ leaves undefined, \<open>OutOfFuel\<close> for a loop cut off.  Responses are handles into a
  heap, since C++ shares their representations.  Two interfaces are locales: \<open>blocking_scheduler\<close> is
  interpreted by every blocking schedule and by the selection among them, \<open>nonblocking_scheduler\<close>
  by the local, the master and the dynamic peer schedule; the service is proved on these.  Virtual functions of derived
  classes, the AMPL library and the MPI calls are parameters in the record \<open>app_config\<close>; their contracts
  (a wait returns at least one running job, a message answers its request) are named predicates, and
  the examples instantiate them.  Reals are an arbitrary type or field with the operations used (rounding
  is not modelled), except in the generators, where the rounding of doubles is written out.

  \<^bold>\<open>Fuel.\<close>  The blocking local and master loops take as fuel a bound on their rounds; the number of queued jobs
  is enough, since each round completes a job.  The polling loop of the dynamic peers has no bound in
  general; its theorem gives a bound when polls make progress.  Continuation needs one unit per step.

  \<^bold>\<open>Not modelled\<close>: the input parser and database, communicators and their partitions, file and process
  handling of the derived interfaces, the test drivers, iterators other than parameter studies, surrogate and nested models,
  solution levels, restart and tabular files, graphics, the evaluations and results databases, console output, forwarding from
  envelope to letter classes, and the servers' side of the schedules.
\<close>

end
